(* ===== verification/Prelude.thy ===== *)
theory Prelude
  imports Main "HOL-Library.Word" "HOL-Library.AList"
begin

text \<open>
  Shared vocabulary of the development: the fixed-width integers of the C++ sources, the
  model of \<^verbatim>\<open>std::unordered_map\<close>, the collections of facts the component theories
  feed, and the list and word lemmas used by more than one component.

  A \<^verbatim>\<open>std::vector\<close> is a list; \<^verbatim>\<open>v[i]\<close> is \<open>v ! i\<close>, unspecified out of range
  exactly where the C++ access is undefined. A \<^verbatim>\<open>std::unordered_map\<close> or
  \<^verbatim>\<open>std::unordered_set\<close> that the code iterates over or counts is an association list
  (a list) with distinct keys: its order stands for the unspecified iteration order, and
  every theorem is stated for arbitrary such lists, hence for every iteration order.
\<close>

unbundle bit_operations_syntax

type_synonym u8 = "8 word"
type_synonym u16 = "16 word"
type_synonym u32 = "32 word"
type_synonym u64 = "64 word"

type_synonym byte = "8 word"
type_synonym bytes = "8 word list"

type_synonym ('k, 'v) umap = "('k \<times> 'v) list"

named_theorems op_defs "definitions of the modelled operations, unfolded on demand"
named_theorems inv_intros "every operation keeps its component's invariant"

section \<open>Association lists as unordered maps\<close>

text \<open>\<^verbatim>\<open>find\<close>/\<^verbatim>\<open>count\<close> are \<open>map_of\<close>, \<^verbatim>\<open>operator[]\<close>-assignment is \<open>AList.update\<close>,
  \<^verbatim>\<open>erase(key)\<close> is \<open>AList.delete\<close>, \<^verbatim>\<open>size()\<close> is \<open>length\<close>.\<close>

definition umap_wf :: "('k, 'v) umap \<Rightarrow> bool" where
  "umap_wf m \<longleftrightarrow> distinct (map fst m)"

lemma umap_wf_Nil [simp]: "umap_wf []"
  by (simp add: umap_wf_def)

lemma umap_wf_update [simp, intro]: "umap_wf m \<Longrightarrow> umap_wf (AList.update k v m)"
  by (simp add: umap_wf_def distinct_update)

lemma umap_wf_delete [simp, intro]: "umap_wf m \<Longrightarrow> umap_wf (AList.delete k m)"
  by (simp add: umap_wf_def distinct_delete)

lemma umap_wf_filter [simp, intro]: "umap_wf m \<Longrightarrow> umap_wf (filter P m)"
  by (simp add: umap_wf_def distinct_map_filter)

lemma umap_mem_iff: "umap_wf m \<Longrightarrow> (k, v) \<in> set m \<longleftrightarrow> map_of m k = Some v"
  by (simp add: umap_wf_def)

lemma length_update_umap:
  "length (AList.update k v m) = (if map_of m k = None then Suc (length m) else length m)"
  by (induction m) auto

lemma length_delete_umap:
  "umap_wf m \<Longrightarrow> length (AList.delete k m) = (if map_of m k = None then length m else length m - 1)"
proof (induction m)
  case Nil
  then show ?case by simp
next
  case (Cons a m)
  then have "umap_wf m" by (simp add: umap_wf_def)
  moreover have "fst a = k \<Longrightarrow> map_of m k = None"
    using Cons.prems by (auto simp: umap_wf_def map_of_eq_None_iff)
  moreover have "map_of m k \<noteq> None \<Longrightarrow> 0 < length m"
    by (cases m) auto
  ultimately show ?case
    using Cons.IH by (cases a) auto
qed

lemma map_of_filter_fst:
  "map_of (filter (\<lambda>p. P (fst p)) m) k = (if P k then map_of m k else None)"
  by (induction m) auto

text \<open>\<^verbatim>\<open>emplace\<close> keeps an entry that is already there.\<close>

definition emplace :: "'k \<Rightarrow> 'v \<Rightarrow> ('k, 'v) umap \<Rightarrow> ('k, 'v) umap" where
  "emplace k v m = (if map_of m k = None then AList.update k v m else m)"

lemma map_of_emplace: "map_of (emplace k v m) x = (if x = k \<and> map_of m k = None then Some v else map_of m x)"
  by (auto simp: emplace_def update_conv')

lemma umap_wf_emplace [simp, intro]: "umap_wf m \<Longrightarrow> umap_wf (emplace k v m)"
  by (simp add: emplace_def)

lemma length_emplace: "length (emplace k v m) = (if map_of m k = None then Suc (length m) else length m)"
  by (simp add: emplace_def length_update_umap)

section \<open>Lists\<close>

lemma nth_list_update_if:
  "i < length xs \<Longrightarrow> xs[i := x] ! j = (if i = j then x else xs ! j)"
  by simp

lemma nth_butlast_lt: "i < length xs - 1 \<Longrightarrow> butlast xs ! i = xs ! i"
  by (simp add: nth_butlast)

lemma distinct_singleton_list: "distinct xs \<Longrightarrow> set xs = {x} \<Longrightarrow> xs = [x]"
proof (cases xs)
  case (Cons y ys)
  assume "distinct xs" and "set xs = {x}"
  with Cons have "y = x" "set ys \<subseteq> {x}" "x \<notin> set ys" by auto
  then have "ys = []" by (cases ys) auto
  with Cons \<open>y = x\<close> show ?thesis by simp
qed simp

lemma length_filter_update_True:
  assumes "i < length xs" and "\<not> xs ! i"
  shows "length (filter id (xs[i := True])) = Suc (length (filter id xs))"
  using assms
proof (induction xs arbitrary: i)
  case Nil
  then show ?case by simp
next
  case (Cons x xs)
  then show ?case by (cases i) auto
qed

lemma length_filter_update_False:
  assumes "i < length xs" and "xs ! i"
  shows "Suc (length (filter id (xs[i := False]))) = length (filter id xs)"
  using assms
proof (induction xs arbitrary: i)
  case Nil
  then show ?case by simp
next
  case (Cons x xs)
  then show ?case by (cases i) auto
qed

section \<open>Words\<close>

lemma unat_of_nat_lt:
  "n < 2 ^ LENGTH('a) \<Longrightarrow> unat (word_of_nat n :: 'a::len word) = n"
  by (simp add: unat_of_nat take_bit_nat_eq_self_iff)

lemma word_eq_unat_iff: "(a :: 'a::len word) = b \<longleftrightarrow> unat a = unat b"
  by (metis unsigned_word_eqI)

lemma unat_lt_u32: "unat (w :: u32) < 4294967296"
  using unsigned_less [of w] by simp

lemma unat_plus_1:
  "unat (x :: 'a::len word) + 1 < 2 ^ LENGTH('a) \<Longrightarrow> unat (x + 1) = unat x + 1"
  by (simp add: unat_word_ariths)

lemma unat_add_lt:
  "unat (x :: 'a::len word) + unat y < 2 ^ LENGTH('a) \<Longrightarrow> unat (x + y) = unat x + unat y"
  by (simp add: unat_word_ariths)

end
