(* ===== verification/Foundation.thy ===== *)
theory Foundation
  imports Prelude
begin

text \<open>
  The foundation layer every service uses: \<^verbatim>\<open>ErrorCode\<close> and \<^verbatim>\<open>errorSubsystem\<close>
  (\<^verbatim>\<open>foundation/error_code.hpp\<close>), \<^verbatim>\<open>GameError\<close> (\<^verbatim>\<open>foundation/game_error.hpp\<close>),
  \<^verbatim>\<open>GameResult\<close> (\<^verbatim>\<open>core/result.hpp\<close>, as a sum with the error on the left) and the
  strong identifiers of \<^verbatim>\<open>foundation/types.hpp\<close>.
\<close>

section \<open>Error codes\<close>

text \<open>\<^verbatim>\<open>enum class ErrorCode : uint32_t\<close>: a code is its 32-bit value, and every
  enumerator is a name for one value.\<close>

type_synonym ErrorCode = u32

abbreviation (input) Success :: ErrorCode where "Success \<equiv> 0x0000"
abbreviation (input) Unknown :: ErrorCode where "Unknown \<equiv> 0x0001"
abbreviation (input) InvalidArgument :: ErrorCode where "InvalidArgument \<equiv> 0x0002"
abbreviation (input) NotFound :: ErrorCode where "NotFound \<equiv> 0x0003"
abbreviation (input) AlreadyExists :: ErrorCode where "AlreadyExists \<equiv> 0x0004"
abbreviation (input) NotImplemented :: ErrorCode where "NotImplemented \<equiv> 0x0005"
abbreviation (input) NetworkError :: ErrorCode where "NetworkError \<equiv> 0x0100"
abbreviation (input) ConnectionFailed :: ErrorCode where "ConnectionFailed \<equiv> 0x0101"
abbreviation (input) ConnectionLost :: ErrorCode where "ConnectionLost \<equiv> 0x0102"
abbreviation (input) Timeout :: ErrorCode where "Timeout \<equiv> 0x0103"
abbreviation (input) SendFailed :: ErrorCode where "SendFailed \<equiv> 0x0104"
abbreviation (input) ListenFailed :: ErrorCode where "ListenFailed \<equiv> 0x0105"
abbreviation (input) SessionNotFound :: ErrorCode where "SessionNotFound \<equiv> 0x0106"
abbreviation (input) InvalidMessage :: ErrorCode where "InvalidMessage \<equiv> 0x0107"
abbreviation (input) TlsHandshakeFailed :: ErrorCode where "TlsHandshakeFailed \<equiv> 0x0108"
abbreviation (input) TlsCertificateInvalid :: ErrorCode where "TlsCertificateInvalid \<equiv> 0x0109"
abbreviation (input) TlsNotSupported :: ErrorCode where "TlsNotSupported \<equiv> 0x010A"
abbreviation (input) DatabaseError :: ErrorCode where "DatabaseError \<equiv> 0x0200"
abbreviation (input) QueryFailed :: ErrorCode where "QueryFailed \<equiv> 0x0201"
abbreviation (input) TransactionFailed :: ErrorCode where "TransactionFailed \<equiv> 0x0202"
abbreviation (input) ConnectionPoolExhausted :: ErrorCode where "ConnectionPoolExhausted \<equiv> 0x0203"
abbreviation (input) ConnectionPoolTimeout :: ErrorCode where "ConnectionPoolTimeout \<equiv> 0x0204"
abbreviation (input) NotConnected :: ErrorCode where "NotConnected \<equiv> 0x0205"
abbreviation (input) PreparedStatementFailed :: ErrorCode where "PreparedStatementFailed \<equiv> 0x0206"
abbreviation (input) EntityNotFound :: ErrorCode where "EntityNotFound \<equiv> 0x0300"
abbreviation (input) ComponentNotFound :: ErrorCode where "ComponentNotFound \<equiv> 0x0301"
abbreviation (input) SystemError :: ErrorCode where "SystemError \<equiv> 0x0302"
abbreviation (input) PluginLoadFailed :: ErrorCode where "PluginLoadFailed \<equiv> 0x0400"
abbreviation (input) PluginNotFound :: ErrorCode where "PluginNotFound \<equiv> 0x0401"
abbreviation (input) DependencyError :: ErrorCode where "DependencyError \<equiv> 0x0402"
abbreviation (input) PluginAlreadyLoaded :: ErrorCode where "PluginAlreadyLoaded \<equiv> 0x0403"
abbreviation (input) PluginInvalidState :: ErrorCode where "PluginInvalidState \<equiv> 0x0404"
abbreviation (input) PluginVersionMismatch :: ErrorCode where "PluginVersionMismatch \<equiv> 0x0405"
abbreviation (input) PluginInitFailed :: ErrorCode where "PluginInitFailed \<equiv> 0x0406"
abbreviation (input) HotReloadFailed :: ErrorCode where "HotReloadFailed \<equiv> 0x0407"
abbreviation (input) HotReloadDisabled :: ErrorCode where "HotReloadDisabled \<equiv> 0x0408"
abbreviation (input) StateSerializationFailed :: ErrorCode where "StateSerializationFailed \<equiv> 0x0409"
abbreviation (input) StateDeserializationFailed :: ErrorCode where "StateDeserializationFailed \<equiv> 0x040A"
abbreviation (input) AuthenticationFailed :: ErrorCode where "AuthenticationFailed \<equiv> 0x0500"
abbreviation (input) TokenExpired :: ErrorCode where "TokenExpired \<equiv> 0x0501"
abbreviation (input) InvalidToken :: ErrorCode where "InvalidToken \<equiv> 0x0502"
abbreviation (input) PermissionDenied :: ErrorCode where "PermissionDenied \<equiv> 0x0503"
abbreviation (input) UserAlreadyExists :: ErrorCode where "UserAlreadyExists \<equiv> 0x0504"
abbreviation (input) InvalidEmail :: ErrorCode where "InvalidEmail \<equiv> 0x0505"
abbreviation (input) WeakPassword :: ErrorCode where "WeakPassword \<equiv> 0x0506"
abbreviation (input) RateLimitExceeded :: ErrorCode where "RateLimitExceeded \<equiv> 0x0507"
abbreviation (input) TokenRevoked :: ErrorCode where "TokenRevoked \<equiv> 0x0508"
abbreviation (input) InvalidCredentials :: ErrorCode where "InvalidCredentials \<equiv> 0x0509"
abbreviation (input) RefreshTokenExpired :: ErrorCode where "RefreshTokenExpired \<equiv> 0x050A"
abbreviation (input) InvalidUsername :: ErrorCode where "InvalidUsername \<equiv> 0x050B"
abbreviation (input) ConfigLoadFailed :: ErrorCode where "ConfigLoadFailed \<equiv> 0x0600"
abbreviation (input) ConfigKeyNotFound :: ErrorCode where "ConfigKeyNotFound \<equiv> 0x0601"
abbreviation (input) ConfigTypeMismatch :: ErrorCode where "ConfigTypeMismatch \<equiv> 0x0602"
abbreviation (input) ThreadError :: ErrorCode where "ThreadError \<equiv> 0x0700"
abbreviation (input) JobScheduleFailed :: ErrorCode where "JobScheduleFailed \<equiv> 0x0701"
abbreviation (input) JobNotFound :: ErrorCode where "JobNotFound \<equiv> 0x0702"
abbreviation (input) JobCancelled :: ErrorCode where "JobCancelled \<equiv> 0x0703"
abbreviation (input) JobTimeout :: ErrorCode where "JobTimeout \<equiv> 0x0704"
abbreviation (input) JobDependencyFailed :: ErrorCode where "JobDependencyFailed \<equiv> 0x0705"
abbreviation (input) LoggerError :: ErrorCode where "LoggerError \<equiv> 0x0800"
abbreviation (input) LoggerNotInitialized :: ErrorCode where "LoggerNotInitialized \<equiv> 0x0801"
abbreviation (input) LoggerFlushFailed :: ErrorCode where "LoggerFlushFailed \<equiv> 0x0802"
abbreviation (input) MonitoringError :: ErrorCode where "MonitoringError \<equiv> 0x0900"
abbreviation (input) MetricNotFound :: ErrorCode where "MetricNotFound \<equiv> 0x0901"
abbreviation (input) InvalidMetricType :: ErrorCode where "InvalidMetricType \<equiv> 0x0902"
abbreviation (input) HistogramNotRegistered :: ErrorCode where "HistogramNotRegistered \<equiv> 0x0903"
abbreviation (input) SerializationError :: ErrorCode where "SerializationError \<equiv> 0x0A00"
abbreviation (input) InvalidBinaryData :: ErrorCode where "InvalidBinaryData \<equiv> 0x0A01"
abbreviation (input) InvalidJsonData :: ErrorCode where "InvalidJsonData \<equiv> 0x0A02"
abbreviation (input) GameServerError :: ErrorCode where "GameServerError \<equiv> 0x0B00"
abbreviation (input) MapInstanceNotFound :: ErrorCode where "MapInstanceNotFound \<equiv> 0x0B01"
abbreviation (input) MapInstanceLimitReached :: ErrorCode where "MapInstanceLimitReached \<equiv> 0x0B02"
abbreviation (input) MapInstanceInvalidState :: ErrorCode where "MapInstanceInvalidState \<equiv> 0x0B03"
abbreviation (input) GameLoopAlreadyRunning :: ErrorCode where "GameLoopAlreadyRunning \<equiv> 0x0B04"
abbreviation (input) GameLoopNotRunning :: ErrorCode where "GameLoopNotRunning \<equiv> 0x0B05"
abbreviation (input) PlayerAlreadyInWorld :: ErrorCode where "PlayerAlreadyInWorld \<equiv> 0x0B06"
abbreviation (input) PlayerNotInWorld :: ErrorCode where "PlayerNotInWorld \<equiv> 0x0B07"
abbreviation (input) InstanceFull :: ErrorCode where "InstanceFull \<equiv> 0x0B08"
abbreviation (input) SystemSchedulerBuildFailed :: ErrorCode where "SystemSchedulerBuildFailed \<equiv> 0x0B09"
abbreviation (input) LobbyError :: ErrorCode where "LobbyError \<equiv> 0x0C00"
abbreviation (input) QueueFull :: ErrorCode where "QueueFull \<equiv> 0x0C01"
abbreviation (input) AlreadyInQueue :: ErrorCode where "AlreadyInQueue \<equiv> 0x0C02"
abbreviation (input) NotInQueue :: ErrorCode where "NotInQueue \<equiv> 0x0C03"
abbreviation (input) InvalidRating :: ErrorCode where "InvalidRating \<equiv> 0x0C04"
abbreviation (input) PartyNotFound :: ErrorCode where "PartyNotFound \<equiv> 0x0C05"
abbreviation (input) PartyFull :: ErrorCode where "PartyFull \<equiv> 0x0C06"
abbreviation (input) PlayerAlreadyInParty :: ErrorCode where "PlayerAlreadyInParty \<equiv> 0x0C07"
abbreviation (input) NotPartyLeader :: ErrorCode where "NotPartyLeader \<equiv> 0x0C08"
abbreviation (input) LobbyNotStarted :: ErrorCode where "LobbyNotStarted \<equiv> 0x0C09"
abbreviation (input) LobbyAlreadyStarted :: ErrorCode where "LobbyAlreadyStarted \<equiv> 0x0C0A"
abbreviation (input) NoServerAvailable :: ErrorCode where "NoServerAvailable \<equiv> 0x0C0B"
abbreviation (input) PlayerNotInParty :: ErrorCode where "PlayerNotInParty \<equiv> 0x0C0C"
abbreviation (input) DBProxyError :: ErrorCode where "DBProxyError \<equiv> 0x0D00"
abbreviation (input) CacheMiss :: ErrorCode where "CacheMiss \<equiv> 0x0D01"
abbreviation (input) CacheInvalidation :: ErrorCode where "CacheInvalidation \<equiv> 0x0D02"
abbreviation (input) ReplicaUnavailable :: ErrorCode where "ReplicaUnavailable \<equiv> 0x0D03"
abbreviation (input) PrimaryUnavailable :: ErrorCode where "PrimaryUnavailable \<equiv> 0x0D04"
abbreviation (input) QueryRoutingFailed :: ErrorCode where "QueryRoutingFailed \<equiv> 0x0D05"
abbreviation (input) DBProxyNotStarted :: ErrorCode where "DBProxyNotStarted \<equiv> 0x0D06"
abbreviation (input) GatewayError :: ErrorCode where "GatewayError \<equiv> 0x0E00"
abbreviation (input) GatewayNotStarted :: ErrorCode where "GatewayNotStarted \<equiv> 0x0E01"
abbreviation (input) GatewayAlreadyStarted :: ErrorCode where "GatewayAlreadyStarted \<equiv> 0x0E02"
abbreviation (input) ConnectionLimitReached :: ErrorCode where "ConnectionLimitReached \<equiv> 0x0E03"
abbreviation (input) ClientNotAuthenticated :: ErrorCode where "ClientNotAuthenticated \<equiv> 0x0E04"
abbreviation (input) RouteNotFound :: ErrorCode where "RouteNotFound \<equiv> 0x0E05"
abbreviation (input) MigrationFailed :: ErrorCode where "MigrationFailed \<equiv> 0x0E06"
abbreviation (input) GatewayRateLimited :: ErrorCode where "GatewayRateLimited \<equiv> 0x0E07"
abbreviation (input) AuthTimeoutExpired :: ErrorCode where "AuthTimeoutExpired \<equiv> 0x0E08"
abbreviation (input) PersistenceError :: ErrorCode where "PersistenceError \<equiv> 0x0F00"
abbreviation (input) WalWriteFailed :: ErrorCode where "WalWriteFailed \<equiv> 0x0F01"
abbreviation (input) WalReadFailed :: ErrorCode where "WalReadFailed \<equiv> 0x0F02"
abbreviation (input) WalCorrupted :: ErrorCode where "WalCorrupted \<equiv> 0x0F03"
abbreviation (input) WalTruncateFailed :: ErrorCode where "WalTruncateFailed \<equiv> 0x0F04"
abbreviation (input) SnapshotWriteFailed :: ErrorCode where "SnapshotWriteFailed \<equiv> 0x0F05"
abbreviation (input) SnapshotReadFailed :: ErrorCode where "SnapshotReadFailed \<equiv> 0x0F06"
abbreviation (input) SnapshotCorrupted :: ErrorCode where "SnapshotCorrupted \<equiv> 0x0F07"
abbreviation (input) RecoveryFailed :: ErrorCode where "RecoveryFailed \<equiv> 0x0F08"
abbreviation (input) PersistenceNotStarted :: ErrorCode where "PersistenceNotStarted \<equiv> 0x0F09"
abbreviation (input) PersistenceAlreadyStarted :: ErrorCode where "PersistenceAlreadyStarted \<equiv> 0x0F0A"

definition errorSubsystem :: "ErrorCode \<Rightarrow> string" where
  "errorSubsystem code = (let category = code AND 0xFF00 in
     if category = 0x0000 then ''General''
     else if category = 0x0100 then ''Network''
     else if category = 0x0200 then ''Database''
     else if category = 0x0300 then ''ECS''
     else if category = 0x0400 then ''Plugin''
     else if category = 0x0500 then ''Auth''
     else if category = 0x0600 then ''Config''
     else if category = 0x0700 then ''Thread''
     else if category = 0x0800 then ''Logger''
     else if category = 0x0900 then ''Monitoring''
     else if category = 0x0A00 then ''Serialization''
     else if category = 0x0B00 then ''GameServer''
     else if category = 0x0C00 then ''Lobby''
     else if category = 0x0D00 then ''DBProxy''
     else if category = 0x0E00 then ''Gateway''
     else if category = 0x0F00 then ''Persistence''
     else ''Unknown'')"

section \<open>GameError and GameResult\<close>

text \<open>The optional \<^verbatim>\<open>std::any\<close> context of a \<^verbatim>\<open>GameError\<close> is never set by the
  modelled services and is left out.\<close>

record GameError =
  ge_code :: ErrorCode
  ge_message :: string

definition mkGameError :: "ErrorCode \<Rightarrow> string \<Rightarrow> GameError" where
  "mkGameError code message = \<lparr>ge_code = code, ge_message = message\<rparr>"

definition ge_isSuccess :: "GameError \<Rightarrow> bool" where
  "ge_isSuccess e \<longleftrightarrow> ge_code e = Success"

definition ge_subsystem :: "GameError \<Rightarrow> string" where
  "ge_subsystem e = errorSubsystem (ge_code e)"

type_synonym 'a GameResult = "GameError + 'a"

fun hasValue :: "'a GameResult \<Rightarrow> bool" where
  "hasValue (Inr _) = True"
| "hasValue (Inl _) = False"

definition hasError :: "'a GameResult \<Rightarrow> bool" where
  "hasError r \<longleftrightarrow> \<not> hasValue r"

fun valueOr :: "'a GameResult \<Rightarrow> 'a \<Rightarrow> 'a" where
  "valueOr (Inr v) d = v"
| "valueOr (Inl _) d = d"

abbreviation err :: "ErrorCode \<Rightarrow> string \<Rightarrow> 'a GameResult" where
  "err code msg \<equiv> Inl (mkGameError code msg)"

lemma hasValue_iff: "hasValue r \<longleftrightarrow> (\<exists>v. r = Inr v)"
  by (cases r) auto

lemma mkGameError_inject [simp]:
  "mkGameError c m = mkGameError c' m' \<longleftrightarrow> c = c' \<and> m = m'"
  by (simp add: mkGameError_def)

lemma ge_code_mk [simp]: "ge_code (mkGameError c m) = c"
  by (simp add: mkGameError_def)

section \<open>Strong identifiers\<close>

datatype PlayerId = PlayerId (playerId_value: u64)
datatype SessionId = SessionId (sessionId_value: u64)

end
