(* ===== verification/Ecs_Entity.thy ===== *)
theory Ecs_Entity
  imports Prelude
begin

text \<open>
  \<^verbatim>\<open>include/cgs/ecs/entity.hpp\<close>: the 32-bit entity handle, a 24-bit index and an 8-bit
  version. The lemmas give the bit layout as a round trip and the bounds the other ECS
  theories need of an index.
\<close>

datatype Entity = EntityRaw (raw: u32)

definition kIdBits :: nat where "kIdBits = 24"
definition kIdMask :: u32 where "kIdMask = push_bit kIdBits 1 - 1"
definition kVersionShift :: nat where "kVersionShift = kIdBits"
definition kInvalidRaw :: u32 where "kInvalidRaw = - 1"
definition kMaxId :: u32 where "kMaxId = kIdMask - 1"

definition mkEntity :: "u32 \<Rightarrow> u8 \<Rightarrow> Entity" where
  "mkEntity i version =
     EntityRaw (push_bit kVersionShift (ucast version) OR (i AND kIdMask))"

definition entity_id :: "Entity \<Rightarrow> u32" where
  "entity_id e = raw e AND kIdMask"

definition entity_version :: "Entity \<Rightarrow> u8" where
  "entity_version e = ucast (drop_bit kVersionShift (raw e))"

definition isValid :: "Entity \<Rightarrow> bool" where
  "isValid e \<longleftrightarrow> raw e \<noteq> kInvalidRaw"

definition invalid_entity :: Entity where
  "invalid_entity = EntityRaw kInvalidRaw"

text \<open>\<^verbatim>\<open>operator<=>\<close> is defaulted: handles compare by their raw value.\<close>

instantiation Entity :: linorder
begin

definition less_eq_Entity :: "Entity \<Rightarrow> Entity \<Rightarrow> bool" where
  "less_eq_Entity a b \<longleftrightarrow> raw a \<le> raw b"

definition less_Entity :: "Entity \<Rightarrow> Entity \<Rightarrow> bool" where
  "less_Entity a b \<longleftrightarrow> raw a < raw b"

instance
  by standard (auto simp: less_eq_Entity_def less_Entity_def Entity.expand)

end

section \<open>Bit layout\<close>

lemmas entity_consts = kIdBits_def kIdMask_def kVersionShift_def kInvalidRaw_def kMaxId_def

lemma kIdMask_mask: "kIdMask = mask 24"
  by (simp add: kIdMask_def kIdBits_def mask_eq_exp_minus_1 push_bit_eq_mult)

lemma entity_id_take_bit: "entity_id e = take_bit 24 (raw e)"
  by (simp add: entity_id_def kIdMask_mask take_bit_eq_mask)

lemma entity_id_mkEntity: "entity_id (mkEntity i v) = take_bit 24 i"
  unfolding entity_id_def mkEntity_def kIdMask_mask
  by (rule bit_word_eqI) (auto simp: bit_simps kVersionShift_def kIdBits_def)

lemma entity_version_mkEntity [simp]: "entity_version (mkEntity i v) = v"
  unfolding entity_version_def mkEntity_def kIdMask_mask
  by (rule bit_word_eqI) (auto simp: bit_simps kVersionShift_def kIdBits_def)

lemma mkEntity_id_version [simp]: "mkEntity (entity_id e) (entity_version e) = e"
proof -
  have "raw (mkEntity (entity_id e) (entity_version e)) = raw e"
    unfolding mkEntity_def entity_id_def entity_version_def kIdMask_mask Entity.sel
    by (rule bit_word_eqI) (auto simp: bit_simps kVersionShift_def kIdBits_def)
  then show ?thesis by (simp add: Entity.expand)
qed

lemma entity_eqI: "entity_id a = entity_id b \<Longrightarrow> entity_version a = entity_version b \<Longrightarrow> a = b"
  by (metis mkEntity_id_version)

lemma entity_eq_iff:
  "a = b \<longleftrightarrow> unat (entity_id a) = unat (entity_id b) \<and> entity_version a = entity_version b"
  by (auto intro: entity_eqI simp: word_eq_unat_iff [of "entity_id a"])

lemma unat_entity_id_lt [simp]: "unat (entity_id e) < 16777216"
proof -
  have "unat (entity_id e) = take_bit 24 (unat (raw e))"
    by (simp add: entity_id_take_bit unsigned_take_bit_eq)
  then show ?thesis using take_bit_nat_less_exp [of 24 "unat (raw e)"] by simp
qed

lemma entity_id_mkEntity_lt [simp]: "unat i < 16777216 \<Longrightarrow> entity_id (mkEntity i v) = i"
  by (simp add: entity_id_mkEntity word_eq_unat_iff unsigned_take_bit_eq take_bit_nat_eq_self)

lemma unat_kMaxId: "unat kMaxId = 16777214"
  by (simp add: entity_consts push_bit_eq_mult)

lemma entity_id_invalid: "entity_id (EntityRaw kInvalidRaw) = kIdMask"
  by (simp add: entity_id_def kInvalidRaw_def)

lemma isValid_if_id_le_kMaxId: "entity_id e \<le> kMaxId \<Longrightarrow> isValid e"
  by (cases e) (auto simp: isValid_def entity_id_def entity_consts push_bit_eq_mult)

section \<open>Properties\<close>

text \<open>A handle built from an index up to \<open>kMaxId\<close> and any version is valid and gives back
  both parts, and every 32-bit handle is the one built from its own parts: the packed
  representation loses nothing.\<close>

theorem entity_pack_roundtrip:
  "(i \<le> kMaxId \<longrightarrow> isValid (mkEntity i v) \<and> entity_id (mkEntity i v) = i)
   \<and> entity_version (mkEntity i v) = v
   \<and> mkEntity (entity_id e) (entity_version e) = e"
proof -
  have "unat i < 16777216" if "i \<le> kMaxId"
    using that by (simp add: word_le_nat_alt unat_kMaxId)
  then show ?thesis by (auto intro: isValid_if_id_le_kMaxId)
qed

theorem entity_pack_roundtrip_witness:
  "isValid (mkEntity 7 255) \<and> entity_id (mkEntity 7 255) = 7 \<and> entity_version (mkEntity 7 255) = 255"
proof -
  have "(7 :: u32) \<le> kMaxId" by (simp add: word_le_nat_alt unat_kMaxId)
  then show ?thesis using entity_pack_roundtrip [of 7 255 invalid_entity] by blast
qed

end
