(* ===== verification/Ecs_Component_Storage.thy ===== *)
theory Ecs_Component_Storage
  imports Ecs_Entity
begin

text \<open>
  \<^verbatim>\<open>include/cgs/ecs/component_storage.hpp\<close>: the sparse-set component pool. The state is
  the record of the four vectors and the version counter; each operation of the class is
  one definition. A violated \<^verbatim>\<open>assert\<close> aborts the process and is the result \<open>None\<close>.
  The theory proves the sparse-set invariant for every operation and the refinement of
  the pool to a finite map from entity ids to components.
\<close>

record 'c ComponentStorage =
  cs_dense :: "'c list"
  cs_entities :: "u32 list"
  cs_sparse :: "u32 list"
  cs_versions :: "u32 list"
  cs_globalVersion :: u32

definition kInvalidIndex :: u32 where "kInvalidIndex = - 1"

definition emptyStorage :: "'c ComponentStorage" where
  "emptyStorage = \<lparr>cs_dense = [], cs_entities = [], cs_sparse = [], cs_versions = [],
     cs_globalVersion = 0\<rparr>"

definition cs_Size :: "'c ComponentStorage \<Rightarrow> nat" where
  "cs_Size s = length (cs_dense s)"

definition cs_Empty :: "'c ComponentStorage \<Rightarrow> bool" where
  "cs_Empty s \<longleftrightarrow> cs_dense s = []"

definition cs_Has :: "'c ComponentStorage \<Rightarrow> Entity \<Rightarrow> bool" where
  "cs_Has s e \<longleftrightarrow> unat (entity_id e) < length (cs_sparse s)
     \<and> cs_sparse s ! unat (entity_id e) \<noteq> kInvalidIndex"

definition ensureSparseSize :: "u32 \<Rightarrow> 'c ComponentStorage \<Rightarrow> 'c ComponentStorage" where
  "ensureSparseSize i s =
     (if length (cs_sparse s) \<le> unat i
      then s\<lparr>cs_sparse := cs_sparse s @ replicate (unat i + 1 - length (cs_sparse s)) kInvalidIndex\<rparr>
      else s)"

definition cs_Add :: "Entity \<Rightarrow> 'c \<Rightarrow> 'c ComponentStorage \<Rightarrow> 'c ComponentStorage option" where
  "cs_Add e c s =
     (if \<not> isValid e then None
      else if cs_Has s e then None
      else let idx = word_of_nat (length (cs_dense s));
               s1 = ensureSparseSize (entity_id e) s;
               s2 = s1\<lparr>cs_sparse := (cs_sparse s1)[unat (entity_id e) := idx]\<rparr>;
               gv = cs_globalVersion s2 + 1
           in Some (s2\<lparr>cs_dense := cs_dense s2 @ [c],
                       cs_entities := cs_entities s2 @ [entity_id e],
                       cs_globalVersion := gv,
                       cs_versions := cs_versions s2 @ [gv]\<rparr>))"

definition cs_Get :: "'c ComponentStorage \<Rightarrow> Entity \<Rightarrow> 'c option" where
  "cs_Get s e =
     (if \<not> cs_Has s e then None
      else Some (cs_dense s ! unat (cs_sparse s ! unat (entity_id e))))"

definition cs_Replace :: "Entity \<Rightarrow> 'c \<Rightarrow> 'c ComponentStorage \<Rightarrow> 'c ComponentStorage option" where
  "cs_Replace e c s =
     (if \<not> cs_Has s e then None
      else let idx = unat (cs_sparse s ! unat (entity_id e));
               gv = cs_globalVersion s + 1
           in Some (s\<lparr>cs_dense := (cs_dense s)[idx := c],
                      cs_globalVersion := gv,
                      cs_versions := (cs_versions s)[idx := gv]\<rparr>))"

definition cs_Remove :: "Entity \<Rightarrow> 'c ComponentStorage \<Rightarrow> 'c ComponentStorage" where
  "cs_Remove e s =
     (if \<not> cs_Has s e then s
      else let idx = cs_sparse s ! unat (entity_id e);
               lastIdx = word_of_nat (length (cs_dense s) - 1);
               s1 = (if idx \<noteq> lastIdx
                     then let i = unat idx; l = unat (lastIdx :: u32);
                              ents = (cs_entities s)[i := cs_entities s ! l]
                          in s\<lparr>cs_dense := (cs_dense s)[i := cs_dense s ! l],
                               cs_entities := ents,
                               cs_versions := (cs_versions s)[i := cs_versions s ! l],
                               cs_sparse := (cs_sparse s)[unat (ents ! i) := idx]\<rparr>
                     else s)
           in s1\<lparr>cs_dense := butlast (cs_dense s1),
                 cs_entities := butlast (cs_entities s1),
                 cs_versions := butlast (cs_versions s1),
                 cs_sparse := (cs_sparse s1)[unat (entity_id e) := kInvalidIndex],
                 cs_globalVersion := cs_globalVersion s1 + 1\<rparr>)"

text \<open>\<^verbatim>\<open>Add(entity)\<close> without arguments value-initialises the component: \<open>dflt\<close>.\<close>

definition cs_GetOrAdd :: "'c \<Rightarrow> Entity \<Rightarrow> 'c ComponentStorage \<Rightarrow> ('c \<times> 'c ComponentStorage) option" where
  "cs_GetOrAdd dflt e s =
     (if cs_Has s e then map_option (\<lambda>c. (c, s)) (cs_Get s e)
      else map_option (\<lambda>s'. (last (cs_dense s'), s')) (cs_Add e dflt s))"

definition cs_Clear :: "'c ComponentStorage \<Rightarrow> 'c ComponentStorage" where
  "cs_Clear s = s\<lparr>cs_dense := [], cs_entities := [], cs_versions := [],
     cs_sparse := replicate (length (cs_sparse s)) kInvalidIndex,
     cs_globalVersion := cs_globalVersion s + 1\<rparr>"

definition cs_EntityAt :: "'c ComponentStorage \<Rightarrow> nat \<Rightarrow> u32 option" where
  "cs_EntityAt s index = (if index < length (cs_entities s) then Some (cs_entities s ! index) else None)"

definition cs_Version :: "'c ComponentStorage \<Rightarrow> u32" where
  "cs_Version s = cs_globalVersion s"

definition cs_MarkChanged :: "Entity \<Rightarrow> 'c ComponentStorage \<Rightarrow> 'c ComponentStorage option" where
  "cs_MarkChanged e s =
     (if \<not> cs_Has s e then None
      else let gv = cs_globalVersion s + 1
           in Some (s\<lparr>cs_globalVersion := gv,
                cs_versions := (cs_versions s)[unat (cs_sparse s ! unat (entity_id e)) := gv]\<rparr>))"

definition cs_GetVersion :: "'c ComponentStorage \<Rightarrow> Entity \<Rightarrow> u32 option" where
  "cs_GetVersion s e =
     (if \<not> cs_Has s e then None
      else Some (cs_versions s ! unat (cs_sparse s ! unat (entity_id e))))"

definition cs_HasChanged :: "'c ComponentStorage \<Rightarrow> Entity \<Rightarrow> u32 \<Rightarrow> bool option" where
  "cs_HasChanged s e sinceVersion =
     (if \<not> cs_Has s e then None
      else Some (sinceVersion < cs_versions s ! unat (cs_sparse s ! unat (entity_id e))))"

lemmas cs_op_defs [op_defs] =
  cs_Add_def cs_Get_def cs_Replace_def cs_Remove_def cs_Clear_def cs_MarkChanged_def
  cs_GetVersion_def cs_HasChanged_def cs_EntityAt_def cs_Size_def cs_Version_def

section \<open>The sparse-set invariant\<close>

text \<open>The three parallel vectors have one length, every dense slot is owned by a distinct
  entity id whose sparse entry points back to the slot, and every valid sparse entry
  points to a slot that id owns.\<close>

definition cs_inv :: "'c ComponentStorage \<Rightarrow> bool" where
  "cs_inv s \<longleftrightarrow> length (cs_entities s) = length (cs_dense s)
     \<and> length (cs_versions s) = length (cs_dense s)
     \<and> length (cs_sparse s) \<le> 16777216
     \<and> distinct (cs_entities s)
     \<and> (\<forall>i < length (cs_dense s). unat (cs_entities s ! i) < length (cs_sparse s)
          \<and> cs_sparse s ! unat (cs_entities s ! i) = word_of_nat i)
     \<and> (\<forall>k < length (cs_sparse s). cs_sparse s ! k \<noteq> kInvalidIndex \<longrightarrow>
          unat (cs_sparse s ! k) < length (cs_dense s)
          \<and> unat (cs_entities s ! unat (cs_sparse s ! k)) = k)"

lemma cs_invD:
  assumes "cs_inv s"
  shows "length (cs_entities s) = length (cs_dense s)"
    and "length (cs_versions s) = length (cs_dense s)"
    and "length (cs_sparse s) \<le> 16777216"
    and "distinct (cs_entities s)"
    and "\<And>i. i < length (cs_dense s) \<Longrightarrow> unat (cs_entities s ! i) < length (cs_sparse s)"
    and "\<And>i. i < length (cs_dense s) \<Longrightarrow> cs_sparse s ! unat (cs_entities s ! i) = word_of_nat i"
    and "\<And>k. k < length (cs_sparse s) \<Longrightarrow> cs_sparse s ! k \<noteq> kInvalidIndex \<Longrightarrow>
          unat (cs_sparse s ! k) < length (cs_dense s)"
    and "\<And>k. k < length (cs_sparse s) \<Longrightarrow> cs_sparse s ! k \<noteq> kInvalidIndex \<Longrightarrow>
          unat (cs_entities s ! unat (cs_sparse s ! k)) = k"
  using assms unfolding cs_inv_def by blast+

lemma cs_dense_bound:
  assumes "cs_inv s"
  shows "length (cs_dense s) \<le> 16777216"
proof -
  let ?K = "(\<lambda>e. unat e) ` set (cs_entities s)"
  have "length (cs_dense s) = card (set (cs_entities s))"
    using cs_invD(1,4) [OF assms] by (simp add: distinct_card)
  also have "\<dots> = card ?K"
    by (rule card_image [symmetric]) (simp add: inj_on_def word_eq_unat_iff)
  also have "?K \<subseteq> {..<length (cs_sparse s)}"
    using cs_invD(1,5) [OF assms] by (auto simp: in_set_conv_nth)
  then have "card ?K \<le> length (cs_sparse s)"
    using card_mono [of "{..<length (cs_sparse s)}" ?K] by simp
  finally show ?thesis using cs_invD(3) [OF assms] by simp
qed

lemma unat_slot:
  assumes "cs_inv s" and "i \<le> length (cs_dense s)"
  shows "unat (word_of_nat i :: u32) = i"
  using cs_dense_bound [OF assms(1)] assms(2) by (intro unat_of_nat_lt) simp

lemma slot_not_invalid:
  assumes "cs_inv s" and "i \<le> length (cs_dense s)"
  shows "(word_of_nat i :: u32) \<noteq> kInvalidIndex"
proof
  assume "(word_of_nat i :: u32) = kInvalidIndex"
  then have "unat (word_of_nat i :: u32) = 4294967295"
    by (simp add: kInvalidIndex_def unsigned_minus_1_eq_mask mask_eq_exp_minus_1)
  then show False
    using unat_slot [OF assms] cs_dense_bound [OF assms(1)] assms(2) by simp
qed

section \<open>The abstract pool: a finite map from ids to components\<close>

definition cs_lookup :: "'c ComponentStorage \<Rightarrow> nat \<Rightarrow> 'c option" where
  "cs_lookup s k =
     (if k < length (cs_sparse s) \<and> cs_sparse s ! k \<noteq> kInvalidIndex
      then Some (cs_dense s ! unat (cs_sparse s ! k)) else None)"

abbreviation eidx :: "Entity \<Rightarrow> nat" where
  "eidx e \<equiv> unat (entity_id e)"

lemma cs_Has_lookup: "cs_Has s e \<longleftrightarrow> cs_lookup s (eidx e) \<noteq> None"
  by (simp add: cs_Has_def cs_lookup_def)

lemma cs_Get_lookup: "cs_Get s e = cs_lookup s (eidx e)"
  by (simp add: cs_Get_def cs_lookup_def cs_Has_def)

lemma cs_lookup_slot:
  assumes "cs_inv s" and "i < length (cs_dense s)"
  shows "cs_lookup s (unat (cs_entities s ! i)) = Some (cs_dense s ! i)"
  using cs_invD(5,6) [OF assms(1), of i] slot_not_invalid [OF assms(1), of i]
    unat_slot [OF assms(1), of i] assms(2)
  by (simp add: cs_lookup_def)

lemma cs_dom_lookup:
  assumes "cs_inv s"
  shows "dom (cs_lookup s) = unat ` set (cs_entities s)"
proof (intro equalityI subsetI)
  fix k assume "k \<in> dom (cs_lookup s)"
  then have k: "k < length (cs_sparse s)" "cs_sparse s ! k \<noteq> kInvalidIndex"
    by (auto simp: cs_lookup_def split: if_splits)
  from cs_invD(7,8) [OF assms k] cs_invD(1) [OF assms]
  show "k \<in> unat ` set (cs_entities s)"
    by (metis image_eqI nth_mem)
next
  fix k assume "k \<in> unat ` set (cs_entities s)"
  then obtain i where "i < length (cs_dense s)" "k = unat (cs_entities s ! i)"
    using cs_invD(1) [OF assms] by (metis imageE in_set_conv_nth)
  then show "k \<in> dom (cs_lookup s)"
    using cs_lookup_slot [OF assms] by auto
qed

lemma cs_card_dom:
  assumes "cs_inv s"
  shows "card (dom (cs_lookup s)) = cs_Size s"
proof -
  have "card (unat ` set (cs_entities s)) = card (set (cs_entities s))"
    by (rule card_image) (simp add: inj_on_def word_eq_unat_iff)
  then show ?thesis
    using cs_invD(1,4) [OF assms] by (simp add: cs_dom_lookup [OF assms] cs_Size_def distinct_card)
qed

section \<open>Empty, Replace, MarkChanged and Clear\<close>

lemma cs_inv_empty [simp, inv_intros]: "cs_inv emptyStorage"
  by (simp add: cs_inv_def emptyStorage_def)

lemma cs_lookup_empty [simp]: "cs_lookup emptyStorage = Map.empty"
  by (rule ext) (simp add: cs_lookup_def emptyStorage_def)

lemma cs_Replace_inv [inv_intros]: "cs_inv s \<Longrightarrow> cs_Replace e c s = Some s' \<Longrightarrow> cs_inv s'"
  by (auto simp: cs_Replace_def cs_inv_def Let_def split: if_splits)

lemma cs_Replace_lookup:
  assumes inv: "cs_inv s" and rep: "cs_Replace e c s = Some s'"
  shows "cs_lookup s' = (cs_lookup s)(eidx e \<mapsto> c)"
proof
  fix k
  from rep have has: "cs_Has s e" by (auto simp: cs_Replace_def split: if_splits)
  then have e: "eidx e < length (cs_sparse s)" "cs_sparse s ! eidx e \<noteq> kInvalidIndex"
    by (auto simp: cs_Has_def)
  have s': "cs_sparse s' = cs_sparse s"
    "cs_dense s' = (cs_dense s)[unat (cs_sparse s ! eidx e) := c]"
    using rep by (auto simp: cs_Replace_def Let_def split: if_splits)
  show "cs_lookup s' k = ((cs_lookup s)(eidx e \<mapsto> c)) k"
  proof (cases "k < length (cs_sparse s) \<and> cs_sparse s ! k \<noteq> kInvalidIndex")
    case True
    have "unat (cs_sparse s ! k) = unat (cs_sparse s ! eidx e) \<longleftrightarrow> k = eidx e"
      using cs_invD(8) [OF inv, of k] cs_invD(8) [OF inv e] True by metis
    then show ?thesis
      using True cs_invD(7) [OF inv e] by (auto simp: cs_lookup_def s' nth_list_update)
  next
    case False
    then show ?thesis using e by (auto simp: cs_lookup_def s')
  qed
qed

lemma cs_MarkChanged_inv [inv_intros]: "cs_inv s \<Longrightarrow> cs_MarkChanged e s = Some s' \<Longrightarrow> cs_inv s'"
  by (auto simp: cs_MarkChanged_def cs_inv_def Let_def split: if_splits)

lemma cs_MarkChanged_lookup: "cs_MarkChanged e s = Some s' \<Longrightarrow> cs_lookup s' = cs_lookup s"
  by (auto simp: cs_MarkChanged_def cs_lookup_def Let_def split: if_splits)

lemma cs_Clear_inv [simp, inv_intros]: "cs_inv s \<Longrightarrow> cs_inv (cs_Clear s)"
  by (simp add: cs_Clear_def cs_inv_def)

lemma cs_Clear_lookup [simp]: "cs_lookup (cs_Clear s) = Map.empty"
  by (rule ext) (simp add: cs_lookup_def cs_Clear_def)

section \<open>Add\<close>

lemma ensureSparseSize_sparse:
  "cs_sparse (ensureSparseSize i s) =
     cs_sparse s @ replicate (unat i + 1 - length (cs_sparse s)) kInvalidIndex"
  by (simp add: ensureSparseSize_def)

lemma ensureSparseSize_rest [simp]:
  "cs_dense (ensureSparseSize i s) = cs_dense s"
  "cs_entities (ensureSparseSize i s) = cs_entities s"
  "cs_versions (ensureSparseSize i s) = cs_versions s"
  "cs_globalVersion (ensureSparseSize i s) = cs_globalVersion s"
  by (simp_all add: ensureSparseSize_def)

lemma ensureSparseSize_lookup [simp]: "cs_lookup (ensureSparseSize i s) = cs_lookup s"
  by (rule ext) (auto simp: cs_lookup_def ensureSparseSize_sparse nth_append)

lemma ensureSparseSize_inv:
  assumes "cs_inv s" and "unat i < 16777216"
  shows "cs_inv (ensureSparseSize i s)"
    and "unat i < length (cs_sparse (ensureSparseSize i s))"
proof -
  show "cs_inv (ensureSparseSize i s)"
    using assms unfolding cs_inv_def
    by (auto simp: ensureSparseSize_sparse nth_append split: if_splits)
qed (simp add: ensureSparseSize_sparse)

text \<open>What \<^verbatim>\<open>Add\<close> does once the sparse vector is long enough.\<close>

lemma cs_Add_Some:
  assumes "cs_Add e c s = Some s'"
  defines "t \<equiv> ensureSparseSize (entity_id e) s"
  shows "isValid e" and "\<not> cs_Has s e"
    and "cs_sparse s' = (cs_sparse t)[eidx e := word_of_nat (length (cs_dense s))]"
    and "cs_dense s' = cs_dense s @ [c]"
    and "cs_entities s' = cs_entities s @ [entity_id e]"
    and "cs_versions s' = cs_versions s @ [cs_globalVersion s + 1]"
    and "cs_globalVersion s' = cs_globalVersion s + 1"
  using assms by (auto simp: cs_Add_def Let_def split: if_splits)

lemma absent_not_in_entities:
  assumes "cs_inv s" and "cs_lookup s (unat i) = None"
  shows "i \<notin> set (cs_entities s)"
  using cs_dom_lookup [OF assms(1)] assms(2) by (metis domIff imageI)

lemma cs_Add_inv [inv_intros]:
  assumes inv: "cs_inv s" and add: "cs_Add e c s = Some s'"
  shows "cs_inv s'"
proof -
  define t where "t = ensureSparseSize (entity_id e) s"
  note s' = cs_Add_Some [OF add, folded t_def]
  have t: "cs_inv t" "eidx e < length (cs_sparse t)"
    unfolding t_def using ensureSparseSize_inv [OF inv, of "entity_id e"] by simp_all
  have d: "cs_dense t = cs_dense s" "cs_entities t = cs_entities s" "cs_versions t = cs_versions s"
    by (simp_all add: t_def)
  have absent: "cs_lookup t (eidx e) = None"
    using s'(2) by (simp add: t_def cs_Has_lookup)
  then have fresh: "entity_id e \<notin> set (cs_entities t)"
    using absent_not_in_entities [OF t(1)] by simp
  have inval: "cs_sparse t ! eidx e = kInvalidIndex"
    using absent t(2) by (auto simp: cs_lookup_def split: if_splits)
  have slot: "unat (word_of_nat (length (cs_dense t)) :: u32) = length (cs_dense t)"
    using unat_slot [OF t(1)] by simp
  have neq: "\<And>i. i < length (cs_dense t) \<Longrightarrow> unat (cs_entities t ! i) \<noteq> eidx e"
    using fresh cs_invD(1) [OF t(1)] by (metis nth_mem word_eq_unat_iff)
  have old: "\<And>i. i < length (cs_dense t) \<Longrightarrow> cs_sparse s' ! unat (cs_entities t ! i) = word_of_nat i"
    using neq cs_invD(6) [OF t(1)] by (metis nth_list_update_neq s'(3))
  show ?thesis
    unfolding cs_inv_def
  proof (intro conjI allI impI)
    fix k assume k: "k < length (cs_sparse s')" "cs_sparse s' ! k \<noteq> kInvalidIndex"
    show "unat (cs_sparse s' ! k) < length (cs_dense s')"
      using k t(2) cs_invD(7) [OF t(1), of k] slot
      by (auto simp: s' d nth_list_update split: if_splits)
    show "unat (cs_entities s' ! unat (cs_sparse s' ! k)) = k"
      using k t(2) cs_invD(7,8) [OF t(1), of k] cs_invD(1) [OF t(1)] slot
      by (auto simp: s' d nth_list_update nth_append split: if_splits)
  qed (use cs_invD(1-5) [OF t(1)] t(2) fresh old in \<open>auto simp: s' d nth_append less_Suc_eq\<close>)
qed

lemma cs_Add_lookup:
  assumes inv: "cs_inv s" and add: "cs_Add e c s = Some s'"
  shows "cs_lookup s' = (cs_lookup s)(eidx e \<mapsto> c)"
proof
  fix k
  define t where "t = ensureSparseSize (entity_id e) s"
  note s' = cs_Add_Some [OF add, folded t_def]
  have t: "cs_inv t" "eidx e < length (cs_sparse t)"
    unfolding t_def using ensureSparseSize_inv [OF inv, of "entity_id e"] by simp_all
  have d: "cs_dense t = cs_dense s" by (simp add: t_def)
  have "cs_lookup s' k = ((cs_lookup t)(eidx e \<mapsto> c)) k"
    using t(2) unat_slot [OF t(1), of "length (cs_dense t)"]
      slot_not_invalid [OF t(1), of "length (cs_dense t)"] cs_invD(7) [OF t(1), of k]
    by (auto simp: cs_lookup_def s'(3,4) nth_list_update nth_append d split: if_splits)
  then show "cs_lookup s' k = ((cs_lookup s)(eidx e \<mapsto> c)) k"
    by (simp add: t_def)
qed

lemma cs_Add_defined: "cs_Add e c s \<noteq> None \<longleftrightarrow> isValid e \<and> \<not> cs_Has s e"
  by (simp add: cs_Add_def Let_def)

section \<open>Remove: swap with the last slot\<close>

text \<open>When the removed slot is the last one, the swap the code skips would change
  nothing; so the two branches are one.\<close>

lemma cs_Remove_swap:
  assumes inv: "cs_inv s" and has: "cs_Has s e"
  defines "i \<equiv> unat (cs_sparse s ! eidx e)" and "l \<equiv> length (cs_dense s) - 1"
  shows "cs_Remove e s = s\<lparr>cs_dense := butlast ((cs_dense s)[i := cs_dense s ! l]),
           cs_entities := butlast ((cs_entities s)[i := cs_entities s ! l]),
           cs_versions := butlast ((cs_versions s)[i := cs_versions s ! l]),
           cs_sparse := (cs_sparse s)[unat (cs_entities s ! l) := word_of_nat i,
                                      eidx e := kInvalidIndex],
           cs_globalVersion := cs_globalVersion s + 1\<rparr>"
proof -
  have e: "eidx e < length (cs_sparse s)" "cs_sparse s ! eidx e \<noteq> kInvalidIndex"
    using has by (auto simp: cs_Has_def)
  have il: "i < length (cs_dense s)" "unat (cs_entities s ! i) = eidx e"
    using cs_invD(7,8) [OF inv e] by (simp_all add: i_def)
  have w: "cs_sparse s ! eidx e = word_of_nat i" by (simp add: i_def)
  have l: "unat (word_of_nat l :: u32) = l" "l < length (cs_dense s)"
    using unat_slot [OF inv, of l] il(1) by (simp_all add: l_def)
  have lS: "length (cs_dense s) - Suc 0 = l" by (simp add: l_def)
  show ?thesis
  proof (cases "i = l")
    case True
    have "(cs_sparse s)[eidx e := word_of_nat i] = cs_sparse s"
      using list_update_id [of "cs_sparse s" "eidx e"] w by metis
    then show ?thesis
      using has True il w l(1)
      by (simp add: cs_Remove_def Let_def lS del: of_nat_diff)
  next
    case False
    have ne: "(word_of_nat i :: u32) \<noteq> word_of_nat l"
      using False l(1) w i_def by metis
    have "length (cs_entities s) = length (cs_dense s)" using cs_invD(1) [OF inv] .
    then have "(cs_entities s)[i := cs_entities s ! l] ! i = cs_entities s ! l"
      using il(1) by simp
    moreover have "unat (word_of_nat i :: u32) = i" by (simp add: i_def)
    ultimately show ?thesis
      using has ne w l(1)
      by (simp add: cs_Remove_def Let_def lS del: of_nat_diff)
  qed
qed

lemma nth_swap_out:
  assumes "j < length xs - 1"
  shows "butlast (xs[i := xs ! (length xs - 1)]) ! j = (if j = i then xs ! (length xs - 1) else xs ! j)"
  using assms by (auto simp: nth_butlast nth_list_update)

text \<open>The state after a removal, slot by slot and id by id.\<close>

lemma cs_Remove_parts:
  assumes inv: "cs_inv s" and has: "cs_Has s e"
  defines "i \<equiv> unat (cs_sparse s ! eidx e)" and "l \<equiv> length (cs_dense s) - 1"
  defines "s' \<equiv> cs_Remove e s"
  shows "length (cs_dense s') = l" and "length (cs_entities s') = l" and "length (cs_versions s') = l"
    and "length (cs_sparse s') = length (cs_sparse s)"
    and "\<And>j. j < l \<Longrightarrow> cs_entities s' ! j = cs_entities s ! (if j = i then l else j)"
    and "\<And>j. j < l \<Longrightarrow> cs_dense s' ! j = cs_dense s ! (if j = i then l else j)"
    and "\<And>k. k < length (cs_sparse s) \<Longrightarrow> cs_sparse s' ! k =
           (if k = eidx e then kInvalidIndex
            else if k = unat (cs_entities s ! l) then word_of_nat i else cs_sparse s ! k)"
    and "i < length (cs_dense s)" and "l < length (cs_dense s)"
    and "unat (cs_entities s ! i) = eidx e" and "cs_globalVersion s' = cs_globalVersion s + 1"
proof -
  note sw = cs_Remove_swap [OF inv has, folded i_def l_def s'_def]
  have e: "eidx e < length (cs_sparse s)" "cs_sparse s ! eidx e \<noteq> kInvalidIndex"
    using has by (auto simp: cs_Has_def)
  show il: "i < length (cs_dense s)" and "unat (cs_entities s ! i) = eidx e"
    using cs_invD(7,8) [OF inv e] by (simp_all add: i_def)
  show l: "l < length (cs_dense s)" using il by (simp add: l_def)
  show "length (cs_dense s') = l" "length (cs_entities s') = l" "length (cs_versions s') = l"
    using cs_invD(1,2) [OF inv] by (simp_all add: sw l_def)
  show "length (cs_sparse s') = length (cs_sparse s)" "cs_globalVersion s' = cs_globalVersion s + 1"
    by (simp_all add: sw)
  show "\<And>j. j < l \<Longrightarrow> cs_entities s' ! j = cs_entities s ! (if j = i then l else j)"
    using nth_swap_out [of _ "cs_entities s" i] cs_invD(1) [OF inv] by (simp add: sw l_def)
  show "\<And>j. j < l \<Longrightarrow> cs_dense s' ! j = cs_dense s ! (if j = i then l else j)"
    using nth_swap_out [of _ "cs_dense s" i] by (simp add: sw l_def)
  show "\<And>k. k < length (cs_sparse s) \<Longrightarrow> cs_sparse s' ! k =
           (if k = eidx e then kInvalidIndex
            else if k = unat (cs_entities s ! l) then word_of_nat i else cs_sparse s ! k)"
    by (auto simp: sw nth_list_update)
qed

lemma entities_unat_inj:
  assumes "cs_inv s" and "i < length (cs_dense s)" and "j < length (cs_dense s)"
  shows "unat (cs_entities s ! i) = unat (cs_entities s ! j) \<longleftrightarrow> i = j"
  using assms cs_invD(1,4) [OF assms(1)] by (metis nth_eq_iff_index_eq word_eq_unat_iff)

lemma cs_Remove_inv [inv_intros]:
  assumes inv: "cs_inv s"
  shows "cs_inv (cs_Remove e s)"
proof (cases "cs_Has s e")
  case False
  then show ?thesis using inv by (simp add: cs_Remove_def)
next
  case has: True
  define i l where il_def: "i = unat (cs_sparse s ! eidx e)" "l = length (cs_dense s) - 1"
  define s' where "s' = cs_Remove e s"
  note P = cs_Remove_parts [OF inv has, folded il_def s'_def]
  note inj = entities_unat_inj [OF inv]
  have ui: "unat (word_of_nat i :: u32) = i" using unat_slot [OF inv] P(8) by simp
  have "distinct (cs_entities s')"
    using P(2,5,8,9) inj by (auto simp: distinct_conv_nth word_eq_unat_iff)
  moreover have "unat (cs_entities s' ! j) < length (cs_sparse s')
      \<and> cs_sparse s' ! unat (cs_entities s' ! j) = word_of_nat j" if j: "j < l" for j
  proof -
    let ?j = "if j = i then l else j"
    have "?j < length (cs_dense s)" using j P(9) by simp
    moreover from this have "unat (cs_entities s ! ?j) \<noteq> eidx e"
      using inj [of ?j i] P(8,10) j by (auto split: if_splits)
    ultimately show ?thesis
      using j P(4,5,7,9) cs_invD(5,6) [OF inv, of ?j] inj [of j l] by auto
  qed
  moreover have "unat (cs_sparse s' ! k) < l \<and> unat (cs_entities s' ! unat (cs_sparse s' ! k)) = k"
    if k: "k < length (cs_sparse s')" "cs_sparse s' ! k \<noteq> kInvalidIndex" for k
  proof (cases "k = unat (cs_entities s ! l)")
    case True
    have "k \<noteq> eidx e" using k P(4,7) by auto
    then have "i \<noteq> l" using P(10) True by auto
    then have "i < l" using P(8) by (simp add: il_def)
    then show ?thesis using True k P(4,5,7) ui \<open>k \<noteq> eidx e\<close> by simp
  next
    case False
    have ne: "k \<noteq> eidx e" using k P(4,7) by auto
    then have sk: "cs_sparse s' ! k = cs_sparse s ! k" "cs_sparse s ! k \<noteq> kInvalidIndex"
      using False k P(4,7) by auto
    define j where "j = unat (cs_sparse s ! k)"
    have j: "j < length (cs_dense s)" "unat (cs_entities s ! j) = k"
      using cs_invD(7,8) [OF inv _ sk(2)] k(1) P(4) by (simp_all add: j_def)
    then have "j \<noteq> l" "j \<noteq> i" using False ne P(10) by auto
    then have "j < l" using j(1) by (simp add: il_def)
    then show ?thesis using sk(1) j P(5) \<open>j \<noteq> i\<close> by (simp add: j_def)
  qed
  ultimately have "cs_inv s'"
    unfolding cs_inv_def using P(1-4) cs_invD(3) [OF inv] by simp
  then show ?thesis by (simp add: s'_def)
qed

lemma cs_Remove_lookup:
  assumes inv: "cs_inv s"
  shows "cs_lookup (cs_Remove e s) = (cs_lookup s)(eidx e := None)"
proof (cases "cs_Has s e")
  case False
  then show ?thesis by (auto simp: cs_Remove_def cs_Has_lookup fun_upd_idem)
next
  case has: True
  define i l where il_def: "i = unat (cs_sparse s ! eidx e)" "l = length (cs_dense s) - 1"
  define s' where "s' = cs_Remove e s"
  note P = cs_Remove_parts [OF inv has, folded il_def s'_def]
  note I' = cs_Remove_inv [OF inv, of e, folded s'_def]
  note inj = entities_unat_inj [OF inv]
  have e: "cs_lookup s' (eidx e) = None"
    using has P(4) P(7) [of "eidx e"] by (auto simp: cs_lookup_def cs_Has_def)
  have slot: "cs_lookup s' (unat (cs_entities s ! j)) = Some (cs_dense s ! j)"
    if j: "j < length (cs_dense s)" "j \<noteq> i" for j
  proof (cases "j = l")
    case True
    then have "i < l" using j P(8) by (simp add: il_def)
    then show ?thesis using cs_lookup_slot [OF I', of i] P(1,5,6) True by simp
  next
    case False
    then have "j < l" using j by (simp add: il_def)
    then show ?thesis using cs_lookup_slot [OF I', of j] P(1,5,6) j(2) by simp
  qed
  show ?thesis
    unfolding s'_def [symmetric]
  proof
    fix k
    show "cs_lookup s' k = ((cs_lookup s)(eidx e := None)) k"
    proof (cases "k \<in> dom (cs_lookup s) \<and> k \<noteq> eidx e")
      case True
      then obtain j where j: "j < length (cs_dense s)" "k = unat (cs_entities s ! j)"
        using cs_invD(1) [OF inv] unfolding cs_dom_lookup [OF inv]
        by (metis imageE in_set_conv_nth)
      then have "j \<noteq> i" using True P(10) by auto
      then show ?thesis using slot [OF j(1)] cs_lookup_slot [OF inv j(1)] j(2) True by simp
    next
      case False
      have "cs_lookup s k = None \<Longrightarrow> cs_lookup s' k = None"
        using P(4) P(7) [of k] cs_lookup_slot [OF inv P(9)]
        by (auto simp: cs_lookup_def split: if_splits)
      then show ?thesis using False e by (cases "k = eidx e") (auto simp: domIff)
    qed
  qed
qed

section \<open>The type-erased interface\<close>

text \<open>\<^verbatim>\<open>IComponentStorage\<close>: what \<^verbatim>\<open>EntityManager\<close> and \<^verbatim>\<open>Query\<close> know of a pool.
  \<open>Version\<close> promises change detection: an operation that leaves the counter alone
  leaves membership alone.\<close>

locale component_pool =
  fixes Remove :: "Entity \<Rightarrow> 's \<Rightarrow> 's"
    and Has :: "'s \<Rightarrow> Entity \<Rightarrow> bool"
    and Clear :: "'s \<Rightarrow> 's"
    and Size :: "'s \<Rightarrow> nat"
    and EntityAt :: "'s \<Rightarrow> nat \<Rightarrow> u32 option"
    and pool_inv :: "'s \<Rightarrow> bool"
  assumes inv_Remove: "pool_inv s \<Longrightarrow> pool_inv (Remove e s)"
    and inv_Clear: "pool_inv s \<Longrightarrow> pool_inv (Clear s)"
    and Has_Remove: "pool_inv s \<Longrightarrow> Has (Remove e s) e' \<longleftrightarrow> Has s e' \<and> entity_id e' \<noteq> entity_id e"
    and Has_Clear: "\<not> Has (Clear s) e"
    and Has_by_id: "entity_id e = entity_id e' \<Longrightarrow> Has s e = Has s e'"
    and EntityAt_in: "pool_inv s \<Longrightarrow> i < Size s \<Longrightarrow> \<exists>e. EntityAt s i = Some (entity_id e) \<and> Has s e"
    and EntityAt_surj: "pool_inv s \<Longrightarrow> Has s e \<Longrightarrow> \<exists>i < Size s. EntityAt s i = Some (entity_id e)"
    and EntityAt_inj: "pool_inv s \<Longrightarrow> i < Size s \<Longrightarrow> j < Size s \<Longrightarrow> EntityAt s i = EntityAt s j \<Longrightarrow> i = j"
begin

text \<open>Removing one entity from a list of pools, given by pointers into a heap of pools; a
  pool may be listed twice.\<close>

lemma fold_Remove_inv:
  "\<forall>q. pool_inv (h q) \<Longrightarrow> \<forall>q. pool_inv (fold (\<lambda>p h. h(p := Remove e (h p))) ps h q)"
  by (induction ps arbitrary: h) (auto simp: inv_Remove)

lemma fold_Remove_Has:
  "\<forall>q. pool_inv (h q) \<Longrightarrow> Has (fold (\<lambda>p h. h(p := Remove e (h p))) ps h q) e' \<longleftrightarrow>
     Has (h q) e' \<and> (q \<in> set ps \<longrightarrow> entity_id e' \<noteq> entity_id e)"
proof (induction ps arbitrary: h)
  case Nil
  then show ?case by simp
next
  case (Cons p ps)
  have "\<forall>q. pool_inv ((h(p := Remove e (h p))) q)"
    using Cons.prems by (simp add: inv_Remove)
  from Cons.IH [OF this] show ?case
    using Cons.prems by (auto simp: Has_Remove)
qed

text \<open>The ids read off the dense vector are exactly the members, each once.\<close>

lemma EntityAt_upto:
  assumes "pool_inv s"
  shows "set (map (EntityAt s) [0..<Size s]) = {Some (entity_id e) | e. Has s e}"
    and "distinct (map (EntityAt s) [0..<Size s])"
proof -
  show "set (map (EntityAt s) [0..<Size s]) = {Some (entity_id e) | e. Has s e}"
  proof (intro equalityI subsetI)
    fix x assume "x \<in> set (map (EntityAt s) [0..<Size s])"
    then show "x \<in> {Some (entity_id e) | e. Has s e}" using EntityAt_in [OF assms] by fastforce
  next
    fix x assume "x \<in> {Some (entity_id e) | e. Has s e}"
    then obtain e where "x = Some (entity_id e)" "Has s e" by blast
    moreover from this obtain i where "i < Size s" "EntityAt s i = Some (entity_id e)"
      using EntityAt_surj [OF assms] by blast
    ultimately show "x \<in> set (map (EntityAt s) [0..<Size s])" by force
  qed
  show "distinct (map (EntityAt s) [0..<Size s])"
    using EntityAt_inj [OF assms] by (auto simp: distinct_map inj_on_def)
qed

end

interpretation pool: component_pool cs_Remove cs_Has cs_Clear cs_Size cs_EntityAt cs_inv
proof unfold_locales
  fix s :: "'c ComponentStorage" and e e' :: Entity and i j :: nat
  show "\<not> cs_Has (cs_Clear s) e"
    by (simp add: cs_Has_lookup)
  show "entity_id e = entity_id e' \<Longrightarrow> cs_Has s e = cs_Has s e'"
    by (simp add: cs_Has_def)
  assume inv: "cs_inv s"
  show "cs_inv (cs_Remove e s)" "cs_inv (cs_Clear s)"
    using inv by (auto intro: inv_intros)
  show "cs_Has (cs_Remove e s) e' \<longleftrightarrow> cs_Has s e' \<and> entity_id e' \<noteq> entity_id e"
    by (auto simp: cs_Has_lookup cs_Remove_lookup [OF inv] word_eq_unat_iff)
  show "\<exists>e. cs_EntityAt s i = Some (entity_id e) \<and> cs_Has s e" if "i < cs_Size s"
  proof -
    let ?e = "mkEntity (cs_entities s ! i) 0"
    have "unat (cs_entities s ! i) < 16777216"
      using that cs_invD(3,5) [OF inv] unfolding cs_Size_def by (meson less_le_trans)
    then have "entity_id ?e = cs_entities s ! i" by simp
    then show ?thesis
      using that cs_lookup_slot [OF inv, of i] cs_invD(1) [OF inv]
      by (intro exI [of _ ?e]) (auto simp: cs_EntityAt_def cs_Size_def cs_Has_lookup)
  qed
  show "\<exists>i < cs_Size s. cs_EntityAt s i = Some (entity_id e)" if "cs_Has s e"
  proof -
    have "eidx e \<in> unat ` set (cs_entities s)"
      using that cs_dom_lookup [OF inv] by (auto simp: cs_Has_lookup)
    then have "entity_id e \<in> set (cs_entities s)" by (metis imageE word_eq_unat_iff)
    then show ?thesis
      using cs_invD(1) [OF inv] by (auto simp: in_set_conv_nth cs_Size_def cs_EntityAt_def)
  qed
  show "i = j" if "i < cs_Size s" "j < cs_Size s" "cs_EntityAt s i = cs_EntityAt s j"
    using that cs_invD(1,4) [OF inv] by (auto simp: cs_Size_def cs_EntityAt_def nth_eq_iff_index_eq)
qed

section \<open>Properties\<close>



end
