(* ===== verification/Ecs_Entity_Manager.thy ===== *)
theory Ecs_Entity_Manager
  imports Ecs_Component_Storage
begin

text \<open>
  \<^verbatim>\<open>include/cgs/ecs/entity_manager.hpp\<close> and \<^verbatim>\<open>src/ecs/entity_manager/entity_manager.cpp\<close>:
  creation, recycling and destruction of entities. The registered pools are pointers
  (\<open>nat\<close>) into a heap of pools, so that one pool can be shared with queries and be
  registered more than once. An operation that reaches the pools takes and returns the
  heap. A violated \<^verbatim>\<open>assert\<close> is \<open>None\<close>.
\<close>

type_synonym 'c pools = "nat \<Rightarrow> 'c ComponentStorage"

record EntityManager =
  em_versions :: "u8 list"
  em_alive :: "bool list"
  em_freeList :: "u32 list"
  em_pendingDestroy :: "Entity list"
  em_storages :: "nat list"
  em_count :: u64

definition emptyManager :: EntityManager where
  "emptyManager = \<lparr>em_versions = [], em_alive = [], em_freeList = [], em_pendingDestroy = [],
     em_storages = [], em_count = 0\<rparr>"

definition em_Create :: "EntityManager \<Rightarrow> (Entity \<times> EntityManager) option" where
  "em_Create m =
     (case em_freeList m of
        index # rest \<Rightarrow>
          Some (mkEntity index (em_versions m ! unat index),
                m\<lparr>em_freeList := rest,
                  em_alive := (em_alive m)[unat index := True],
                  em_count := em_count m + 1\<rparr>)
      | [] \<Rightarrow>
          let index = word_of_nat (length (em_versions m))
          in if \<not> index \<le> kMaxId then None
             else Some (mkEntity index 0,
                        m\<lparr>em_versions := em_versions m @ [0],
                          em_alive := em_alive m @ [True],
                          em_count := em_count m + 1\<rparr>))"

definition em_IsAlive :: "EntityManager \<Rightarrow> Entity \<Rightarrow> bool" where
  "em_IsAlive m e =
     (if \<not> isValid e then False
      else let idx = unat (entity_id e)
           in if length (em_versions m) \<le> idx then False
              else em_alive m ! idx \<and> em_versions m ! idx = entity_version e)"

definition removeFromStorages :: "nat list \<Rightarrow> Entity \<Rightarrow> 'c pools \<Rightarrow> 'c pools" where
  "removeFromStorages ps e h = fold (\<lambda>p h. h(p := cs_Remove e (h p))) ps h"

definition destroyInternal :: "Entity \<Rightarrow> EntityManager \<times> 'c pools \<Rightarrow> EntityManager \<times> 'c pools" where
  "destroyInternal e mh =
     (let m = fst mh; idx = unat (entity_id e);
          h = removeFromStorages (em_storages m) e (snd mh);
          nextVersion = em_versions m ! idx + 1
      in (m\<lparr>em_alive := (em_alive m)[idx := False],
            em_versions := (em_versions m)[idx := nextVersion],
            em_freeList := em_freeList m @ [entity_id e],
            em_count := em_count m - 1\<rparr>, h))"

definition em_Destroy :: "Entity \<Rightarrow> EntityManager \<times> 'c pools \<Rightarrow> EntityManager \<times> 'c pools" where
  "em_Destroy e mh = (if \<not> em_IsAlive (fst mh) e then mh else destroyInternal e mh)"

definition em_DestroyDeferred :: "Entity \<Rightarrow> EntityManager \<Rightarrow> EntityManager" where
  "em_DestroyDeferred e m =
     (if \<not> em_IsAlive m e then m
      else m\<lparr>em_pendingDestroy := em_pendingDestroy m @ [e]\<rparr>)"

definition em_FlushDeferred :: "EntityManager \<times> 'c pools \<Rightarrow> EntityManager \<times> 'c pools" where
  "em_FlushDeferred mh =
     (let pending = em_pendingDestroy (fst mh)
      in fold (\<lambda>e mh. if em_IsAlive (fst mh) e then destroyInternal e mh else mh) pending
           ((fst mh)\<lparr>em_pendingDestroy := []\<rparr>, snd mh))"

definition em_Count :: "EntityManager \<Rightarrow> u64" where
  "em_Count m = em_count m"

definition em_Capacity :: "EntityManager \<Rightarrow> nat" where
  "em_Capacity m = length (em_versions m)"

definition em_RegisterStorage :: "nat \<Rightarrow> EntityManager \<Rightarrow> EntityManager" where
  "em_RegisterStorage p m = m\<lparr>em_storages := em_storages m @ [p]\<rparr>"

lemmas em_op_defs [op_defs] =
  em_Create_def em_IsAlive_def destroyInternal_def em_Destroy_def em_DestroyDeferred_def
  em_FlushDeferred_def em_RegisterStorage_def

section \<open>Invariant\<close>

text \<open>The free list holds exactly the dead indices, once each, and the cached count is the
  number of live slots.\<close>

definition em_inv :: "EntityManager \<Rightarrow> bool" where
  "em_inv m \<longleftrightarrow> length (em_alive m) = length (em_versions m)
     \<and> length (em_versions m) \<le> 16777215
     \<and> distinct (em_freeList m)
     \<and> (\<forall>i \<in> set (em_freeList m). unat i < length (em_versions m))
     \<and> (\<forall>i < length (em_versions m). em_alive m ! i \<longleftrightarrow> word_of_nat i \<notin> set (em_freeList m))
     \<and> unat (em_count m) = length (filter id (em_alive m))"

lemma em_invD:
  assumes "em_inv m"
  shows "length (em_alive m) = length (em_versions m)"
    and "length (em_versions m) \<le> 16777215"
    and "distinct (em_freeList m)"
    and "\<And>i. i \<in> set (em_freeList m) \<Longrightarrow> unat i < length (em_versions m)"
    and "\<And>i. i < length (em_versions m) \<Longrightarrow> em_alive m ! i \<longleftrightarrow> word_of_nat i \<notin> set (em_freeList m)"
    and "unat (em_count m) = length (filter id (em_alive m))"
  using assms unfolding em_inv_def by blast+

lemma em_inv_empty [simp, inv_intros]: "em_inv emptyManager"
  by (simp add: em_inv_def emptyManager_def)

lemma em_IsAlive_iff:
  assumes "em_inv m"
  shows "em_IsAlive m e \<longleftrightarrow> eidx e < length (em_versions m) \<and> em_alive m ! eidx e
           \<and> em_versions m ! eidx e = entity_version e"
proof -
  have "isValid e" if "eidx e < length (em_versions m)"
    using that em_invD(2) [OF assms]
    by (intro isValid_if_id_le_kMaxId) (simp add: word_le_nat_alt unat_kMaxId)
  then show ?thesis by (auto simp: em_IsAlive_def Let_def)
qed

lemma em_count_le:
  assumes "em_inv m"
  shows "unat (em_count m) \<le> 16777215"
  using em_invD(1,2,6) [OF assms] length_filter_le [of id "em_alive m"] by simp

lemma em_slot:
  assumes "em_inv m" and "j < length (em_versions m)"
  shows "word_of_nat j = (i :: u32) \<longleftrightarrow> unat i = j"
  using em_invD(2) [OF assms(1)] assms(2) unat_of_nat_lt [of j, where 'a = 32]
  by (auto simp: word_eq_unat_iff)

section \<open>Create\<close>

lemma em_Create_cases:
  assumes "em_inv m" and "em_Create m = Some (e, m')"
  obtains (recycled) i rest where "em_freeList m = i # rest" "e = mkEntity i (em_versions m ! unat i)"
      "unat i < length (em_versions m)" "\<not> em_alive m ! unat i" "entity_id e = i"
      "entity_version e = em_versions m ! unat i"
      "m' = m\<lparr>em_freeList := rest, em_alive := (em_alive m)[unat i := True],
             em_count := em_count m + 1\<rparr>"
    | (fresh) "em_freeList m = []" "length (em_versions m) < 16777215"
      "e = mkEntity (word_of_nat (length (em_versions m))) 0" "eidx e = length (em_versions m)"
      "m' = m\<lparr>em_versions := em_versions m @ [0], em_alive := em_alive m @ [True],
             em_count := em_count m + 1\<rparr>"
proof (cases "em_freeList m")
  case Nil
  have "length (em_versions m) \<le> 16777215" using em_invD(2) [OF assms(1)] .
  then have u: "unat (word_of_nat (length (em_versions m)) :: u32) = length (em_versions m)"
    by (intro unat_of_nat_lt) simp
  then show thesis
    using fresh assms(2) Nil
    by (auto simp: em_Create_def Let_def word_le_nat_alt unat_kMaxId split: if_splits)
next
  case (Cons i rest)
  have i: "unat i < length (em_versions m)" using em_invD(4) [OF assms(1)] Cons by simp
  moreover have "\<not> em_alive m ! unat i" using em_invD(5) [OF assms(1) i] Cons by simp
  ultimately show thesis
    using recycled assms(2) Cons em_invD(2) [OF assms(1)] by (simp add: em_Create_def)
qed

lemma em_Create_inv [inv_intros]:
  assumes inv: "em_inv m" and cr: "em_Create m = Some (e, m')"
  shows "em_inv m'"
  using inv cr
proof (cases rule: em_Create_cases)
  case (recycled i rest)
  have "unat (em_count m + 1) = unat (em_count m) + 1"
    using em_count_le [OF inv] by (intro unat_plus_1) simp
  then show ?thesis
    using recycled em_invD [OF inv] length_filter_update_True [of "unat i" "em_alive m"]
    by (auto simp: em_inv_def nth_list_update em_slot [OF inv])
next
  case fresh
  have "unat (em_count m + 1) = unat (em_count m) + 1"
    using em_count_le [OF inv] by (intro unat_plus_1) simp
  then show ?thesis
    using fresh em_invD [OF inv] by (auto simp: em_inv_def nth_append)
qed

lemma em_Create_IsAlive:
  assumes inv: "em_inv m" and cr: "em_Create m = Some (e, m')"
  shows "em_IsAlive m' x \<longleftrightarrow> em_IsAlive m x \<or> x = e" and "\<not> em_IsAlive m e"
proof -
  note inv' = em_Create_inv [OF assms]
  show "em_IsAlive m' x \<longleftrightarrow> em_IsAlive m x \<or> x = e"
    using inv cr
  proof (cases rule: em_Create_cases)
    case (recycled i rest)
    show ?thesis
      unfolding em_IsAlive_iff [OF inv] em_IsAlive_iff [OF inv'] entity_eq_iff [of x e]
      using recycled(3-7) em_invD(1) [OF inv] by (auto simp: nth_list_update)
  next
    case fresh
    then have "entity_version e = 0" by simp
    then show ?thesis
      unfolding em_IsAlive_iff [OF inv] em_IsAlive_iff [OF inv'] entity_eq_iff [of x e]
      using fresh(4,5) em_invD(1) [OF inv] by (auto simp: nth_append less_Suc_eq)
  qed
  show "\<not> em_IsAlive m e"
    using inv cr by (cases rule: em_Create_cases) (auto simp: em_IsAlive_iff [OF inv])
qed

lemma em_Create_count:
  assumes "em_inv m" and "em_Create m = Some (e, m')"
  shows "unat (em_Count m') = unat (em_Count m) + 1"
proof -
  have "em_count m' = em_count m + 1"
    using assms by (cases rule: em_Create_cases) auto
  moreover have "unat (em_count m + 1) = unat (em_count m) + 1"
    using em_count_le [OF assms(1)] by (intro unat_plus_1) simp
  ultimately show ?thesis by (simp add: em_Count_def)
qed

section \<open>Destroy\<close>

lemma destroyInternal_fst:
  "fst (destroyInternal e mh) = (fst mh)\<lparr>em_alive := (em_alive (fst mh))[eidx e := False],
     em_versions := (em_versions (fst mh))[eidx e := em_versions (fst mh) ! eidx e + 1],
     em_freeList := em_freeList (fst mh) @ [entity_id e],
     em_count := em_count (fst mh) - 1\<rparr>"
  by (simp add: destroyInternal_def Let_def)

lemma destroyInternal_snd:
  "snd (destroyInternal e mh) = removeFromStorages (em_storages (fst mh)) e (snd mh)"
  by (simp add: destroyInternal_def Let_def)

lemma destroyInternal_inv:
  assumes inv: "em_inv (fst mh)" and al: "em_IsAlive (fst mh) e"
  shows "em_inv (fst (destroyInternal e mh))"
proof -
  let ?m = "fst mh"
  have e: "eidx e < length (em_versions ?m)" "em_alive ?m ! eidx e"
    using al by (auto simp: em_IsAlive_iff [OF inv])
  have fresh: "entity_id e \<notin> set (em_freeList ?m)"
    using em_invD(5) [OF inv e(1)] e(2) by simp
  have cnt: "Suc (length (filter id ((em_alive ?m)[eidx e := False]))) = length (filter id (em_alive ?m))"
    using e em_invD(1) [OF inv] by (intro length_filter_update_False) simp_all
  have "em_count ?m \<noteq> 0" using cnt em_invD(6) [OF inv] by auto
  then have "unat (em_count ?m - 1) = unat (em_count ?m) - 1"
    by (simp add: unat_minus_one)
  then show ?thesis
    using e fresh cnt em_invD [OF inv]
    by (auto simp: em_inv_def destroyInternal_fst nth_list_update em_slot [OF inv])
qed

lemma destroyInternal_IsAlive:
  assumes inv: "em_inv (fst mh)" and al: "em_IsAlive (fst mh) e"
  shows "em_IsAlive (fst (destroyInternal e mh)) x \<longleftrightarrow> em_IsAlive (fst mh) x \<and> x \<noteq> e"
  using al em_invD(1) [OF inv]
  unfolding em_IsAlive_iff [OF inv] em_IsAlive_iff [OF destroyInternal_inv [OF assms]]
    entity_eq_iff [of x e]
  by (auto simp: nth_list_update destroyInternal_fst)

lemma removeFromStorages_inv:
  "\<forall>q. cs_inv (h q) \<Longrightarrow> \<forall>q. cs_inv (removeFromStorages ps e h q)"
  unfolding removeFromStorages_def by (rule pool.fold_Remove_inv)

lemma removeFromStorages_Has:
  "\<forall>q. cs_inv (h q) \<Longrightarrow> cs_Has (removeFromStorages ps e h q) e' \<longleftrightarrow>
     cs_Has (h q) e' \<and> (q \<in> set ps \<longrightarrow> entity_id e' \<noteq> entity_id e)"
  unfolding removeFromStorages_def by (rule pool.fold_Remove_Has)

text \<open>A world is a manager together with well-formed pools.\<close>

definition world_inv :: "EntityManager \<times> 'c pools \<Rightarrow> bool" where
  "world_inv mh \<longleftrightarrow> em_inv (fst mh) \<and> (\<forall>q. cs_inv (snd mh q))"

lemma destroyInternal_world_inv [inv_intros]:
  "world_inv mh \<Longrightarrow> em_IsAlive (fst mh) e \<Longrightarrow> world_inv (destroyInternal e mh)"
  using destroyInternal_inv [of mh e] removeFromStorages_inv [of "snd mh"]
  by (simp add: world_inv_def destroyInternal_snd)

lemma em_Destroy_world_inv [inv_intros]: "world_inv mh \<Longrightarrow> world_inv (em_Destroy e mh)"
  by (simp add: em_Destroy_def destroyInternal_world_inv)

lemma em_Destroy_IsAlive:
  assumes "world_inv mh"
  shows "em_IsAlive (fst (em_Destroy e mh)) x \<longleftrightarrow> em_IsAlive (fst mh) x \<and> x \<noteq> e"
  using assms destroyInternal_IsAlive [of mh e x] by (auto simp: em_Destroy_def world_inv_def)

section \<open>Deferred destruction\<close>

definition flushStep :: "Entity \<Rightarrow> EntityManager \<times> 'c pools \<Rightarrow> EntityManager \<times> 'c pools" where
  "flushStep e mh = (if em_IsAlive (fst mh) e then destroyInternal e mh else mh)"

lemma em_FlushDeferred_fold:
  "em_FlushDeferred mh =
     fold flushStep (em_pendingDestroy (fst mh)) ((fst mh)\<lparr>em_pendingDestroy := []\<rparr>, snd mh)"
  by (simp add: em_FlushDeferred_def flushStep_def [abs_def])

lemma flushStep_eq_Destroy: "flushStep = em_Destroy"
  by (rule ext)+ (simp add: flushStep_def em_Destroy_def)

lemma fold_Destroy_world_inv: "world_inv mh \<Longrightarrow> world_inv (fold em_Destroy es mh)"
  by (induction es arbitrary: mh) (simp_all add: em_Destroy_world_inv)

lemma fold_Destroy_IsAlive:
  "world_inv mh \<Longrightarrow> em_IsAlive (fst (fold em_Destroy es mh)) x \<longleftrightarrow>
     em_IsAlive (fst mh) x \<and> x \<notin> set es"
  by (induction es arbitrary: mh) (auto simp: em_Destroy_IsAlive em_Destroy_world_inv)

lemma em_Destroy_frame [simp]:
  "em_storages (fst (em_Destroy e mh)) = em_storages (fst mh)"
  "em_pendingDestroy (fst (em_Destroy e mh)) = em_pendingDestroy (fst mh)"
  by (simp_all add: em_Destroy_def destroyInternal_fst)

lemma fold_Destroy_frame [simp]:
  "em_storages (fst (fold em_Destroy es mh)) = em_storages (fst mh)"
  "em_pendingDestroy (fst (fold em_Destroy es mh)) = em_pendingDestroy (fst mh)"
  by (induction es arbitrary: mh) auto

lemma em_Destroy_Has:
  assumes "world_inv mh"
  shows "cs_Has (snd (em_Destroy e mh) q) x \<longleftrightarrow> cs_Has (snd mh q) x \<and>
     \<not> (em_IsAlive (fst mh) e \<and> q \<in> set (em_storages (fst mh)) \<and> entity_id x = entity_id e)"
  using removeFromStorages_Has [of "snd mh"] assms
  by (auto simp: em_Destroy_def destroyInternal_snd world_inv_def)

lemma alive_unique:
  assumes "em_inv m" and "em_IsAlive m a" and "em_IsAlive m b" and "entity_id a = entity_id b"
  shows "a = b"
  using assms by (auto simp: em_IsAlive_iff [OF assms(1)] intro: entity_eqI)

lemma fold_Destroy_Has:
  assumes "world_inv mh"
  shows "cs_Has (snd (fold em_Destroy es mh) q) x \<longleftrightarrow> cs_Has (snd mh q) x \<and>
     \<not> (q \<in> set (em_storages (fst mh)) \<and>
        (\<exists>e \<in> set es. em_IsAlive (fst mh) e \<and> entity_id x = entity_id e))"
  using assms
proof (induction es arbitrary: mh)
  case Nil
  then show ?case by simp
next
  case (Cons a es)
  show ?case
    using Cons.IH [OF em_Destroy_world_inv [OF Cons.prems, of a]] em_Destroy_Has [OF Cons.prems]
      em_Destroy_IsAlive [OF Cons.prems, of a]
    by auto
qed

lemma flush_world_inv [inv_intros]:
  assumes "world_inv mh"
  shows "world_inv (em_FlushDeferred mh)"
proof -
  have "world_inv ((fst mh)\<lparr>em_pendingDestroy := []\<rparr>, snd mh)"
    using assms by (simp add: world_inv_def em_inv_def)
  then show ?thesis
    by (simp add: em_FlushDeferred_fold flushStep_eq_Destroy fold_Destroy_world_inv)
qed

lemma pending_reset [simp]:
  "em_IsAlive (m\<lparr>em_pendingDestroy := ps\<rparr>) x = em_IsAlive m x"
  "em_inv (m\<lparr>em_pendingDestroy := ps\<rparr>) = em_inv m"
  by (simp_all add: em_IsAlive_def em_inv_def Let_def)

lemma em_FlushDeferred_spec:
  assumes "world_inv (m, h)"
  defines "mh' \<equiv> em_FlushDeferred (m, h)"
  shows "em_pendingDestroy (fst mh') = []"
    and "em_IsAlive (fst mh') x \<longleftrightarrow> em_IsAlive m x \<and> x \<notin> set (em_pendingDestroy m)"
    and "q \<in> set (em_storages m) \<Longrightarrow> cs_Has (snd mh' q) x \<longleftrightarrow> cs_Has (h q) x \<and>
           \<not> (\<exists>e \<in> set (em_pendingDestroy m). em_IsAlive m e \<and> entity_id x = entity_id e)"
proof -
  have "world_inv (m\<lparr>em_pendingDestroy := []\<rparr>, h)"
    using assms(1) by (simp add: world_inv_def)
  note F = fold_Destroy_IsAlive [OF this] fold_Destroy_Has [OF this]
  show "em_pendingDestroy (fst mh') = []"
    by (simp add: mh'_def em_FlushDeferred_fold flushStep_eq_Destroy)
  show "em_IsAlive (fst mh') x \<longleftrightarrow> em_IsAlive m x \<and> x \<notin> set (em_pendingDestroy m)"
    by (simp add: mh'_def em_FlushDeferred_fold flushStep_eq_Destroy F)
  show "cs_Has (snd mh' q) x \<longleftrightarrow> cs_Has (h q) x \<and>
      \<not> (\<exists>e \<in> set (em_pendingDestroy m). em_IsAlive m e \<and> entity_id x = entity_id e)"
    if "q \<in> set (em_storages m)"
    using that by (simp add: mh'_def em_FlushDeferred_fold flushStep_eq_Destroy F)
qed

section \<open>Runs of the manager and stale handles\<close>

datatype em_op =
    OpCreate
  | OpDestroy Entity
  | OpDestroyDeferred Entity
  | OpFlush
  | OpRegister nat

fun em_exec :: "em_op \<Rightarrow> EntityManager \<times> 'c pools \<Rightarrow> (EntityManager \<times> 'c pools) option" where
  "em_exec OpCreate (m, h) = map_option (\<lambda>r. (snd r, h)) (em_Create m)"
| "em_exec (OpDestroy e) mh = Some (em_Destroy e mh)"
| "em_exec (OpDestroyDeferred e) (m, h) = Some (em_DestroyDeferred e m, h)"
| "em_exec OpFlush mh = Some (em_FlushDeferred mh)"
| "em_exec (OpRegister p) (m, h) = Some (em_RegisterStorage p m, h)"

fun em_run :: "em_op list \<Rightarrow> EntityManager \<times> 'c pools \<Rightarrow> (EntityManager \<times> 'c pools) option" where
  "em_run [] mh = Some mh"
| "em_run (x # xs) mh = (case em_exec x mh of None \<Rightarrow> None | Some mh' \<Rightarrow> em_run xs mh')"

lemma em_exec_world_inv [inv_intros]:
  assumes "world_inv mh" and "em_exec x mh = Some mh'"
  shows "world_inv mh'"
  using assms
proof (cases x)
  case OpCreate
  with assms show ?thesis
    by (cases mh) (auto simp: world_inv_def intro: em_Create_inv)
next
  case (OpDestroyDeferred e)
  with assms show ?thesis
    by (cases mh) (auto simp: world_inv_def em_DestroyDeferred_def)
next
  case (OpRegister p)
  with assms show ?thesis
    by (cases mh) (auto simp: world_inv_def em_RegisterStorage_def em_inv_def)
qed (auto intro: inv_intros)

lemma em_run_world_inv: "world_inv mh \<Longrightarrow> em_run xs mh = Some mh' \<Longrightarrow> world_inv mh'"
  by (induction xs arbitrary: mh) (auto split: option.splits intro: em_exec_world_inv)

text \<open>How often a run destroys the entity in slot \<open>i\<close>.\<close>

fun destroys :: "nat \<Rightarrow> Entity list \<Rightarrow> EntityManager \<times> 'c pools \<Rightarrow> nat" where
  "destroys i [] mh = 0"
| "destroys i (e # es) mh =
     (if em_IsAlive (fst mh) e \<and> eidx e = i then 1 else 0) + destroys i es (em_Destroy e mh)"

fun op_destroys :: "nat \<Rightarrow> em_op \<Rightarrow> EntityManager \<times> 'c pools \<Rightarrow> nat" where
  "op_destroys i (OpDestroy e) mh = destroys i [e] mh"
| "op_destroys i OpFlush mh =
     destroys i (em_pendingDestroy (fst mh)) ((fst mh)\<lparr>em_pendingDestroy := []\<rparr>, snd mh)"
| "op_destroys i _ mh = 0"

fun run_destroys :: "nat \<Rightarrow> em_op list \<Rightarrow> EntityManager \<times> 'c pools \<Rightarrow> nat" where
  "run_destroys i [] mh = 0"
| "run_destroys i (x # xs) mh =
     op_destroys i x mh + (case em_exec x mh of None \<Rightarrow> 0 | Some mh' \<Rightarrow> run_destroys i xs mh')"

lemma em_Destroy_versions:
  assumes "world_inv mh" and "i < length (em_versions (fst mh))"
  shows "em_versions (fst (em_Destroy e mh)) ! i = em_versions (fst mh) ! i
           + (if em_IsAlive (fst mh) e \<and> eidx e = i then 1 else 0)"
    and "length (em_versions (fst (em_Destroy e mh))) = length (em_versions (fst mh))"
  using assms by (auto simp: em_Destroy_def destroyInternal_fst nth_list_update)

lemma fold_Destroy_versions:
  assumes "world_inv mh" and "i < length (em_versions (fst mh))"
  shows "em_versions (fst (fold em_Destroy es mh)) ! i
           = em_versions (fst mh) ! i + word_of_nat (destroys i es mh)
         \<and> length (em_versions (fst (fold em_Destroy es mh))) = length (em_versions (fst mh))"
  using assms
proof (induction es arbitrary: mh)
  case (Cons e es)
  have "world_inv (em_Destroy e mh)" using Cons.prems by (auto intro: inv_intros)
  with Cons.IH [OF this] em_Destroy_versions [OF Cons.prems] Cons.prems show ?case by simp
qed simp

lemma em_exec_versions:
  assumes inv: "world_inv mh" and ex: "em_exec x mh = Some mh'" and i: "i < length (em_versions (fst mh))"
  shows "em_versions (fst mh') ! i = em_versions (fst mh) ! i + word_of_nat (op_destroys i x mh)
         \<and> length (em_versions (fst mh)) \<le> length (em_versions (fst mh'))"
proof (cases x)
  case OpCreate
  with ex i show ?thesis
    by (cases mh) (auto simp: em_Create_def Let_def nth_append split: list.splits if_splits)
next
  case (OpDestroy e)
  with ex fold_Destroy_versions [OF inv i, of "[e]"] show ?thesis by simp
next
  case OpFlush
  have "world_inv ((fst mh)\<lparr>em_pendingDestroy := []\<rparr>, snd mh)"
    using inv by (simp add: world_inv_def)
  from fold_Destroy_versions [OF this] OpFlush ex i show ?thesis
    by (auto simp: em_FlushDeferred_fold flushStep_eq_Destroy)
qed (use ex in \<open>cases mh; auto simp: em_DestroyDeferred_def em_RegisterStorage_def\<close>)+

lemma em_run_versions:
  assumes "world_inv mh" and "em_run xs mh = Some mh'" and "i < length (em_versions (fst mh))"
  shows "em_versions (fst mh') ! i = em_versions (fst mh) ! i + word_of_nat (run_destroys i xs mh)
         \<and> length (em_versions (fst mh)) \<le> length (em_versions (fst mh'))"
  using assms
proof (induction xs arbitrary: mh)
  case (Cons x xs)
  then obtain mh1 where ex: "em_exec x mh = Some mh1" and run: "em_run xs mh1 = Some mh'"
    by (auto split: option.splits)
  note step = em_exec_versions [OF Cons.prems(1) ex Cons.prems(3)]
  have "i < length (em_versions (fst mh1))" using step Cons.prems(3) by simp
  from Cons.IH [OF em_exec_world_inv [OF Cons.prems(1) ex] run this] step ex
  show ?case by simp
qed simp

section \<open>Properties\<close>

text \<open>(C6) Every sequence of operations of the manager, from any well-formed world, keeps the
  bookkeeping right: the free list holds exactly the dead slots, \<^verbatim>\<open>Count()\<close> is the number of
  live slots, and all pools stay well-formed.\<close>

theorem entity_manager_invariant:
  assumes "world_inv mh" and "em_run ops mh = Some mh'"
  shows "world_inv mh'
    \<and> unat (em_Count (fst mh')) = length (filter id (em_alive (fst mh')))
    \<and> set (em_freeList (fst mh')) = {i. unat i < em_Capacity (fst mh') \<and> \<not> em_alive (fst mh') ! unat i}"
proof -
  have inv: "world_inv mh'" using em_run_world_inv [OF assms] .
  then have m: "em_inv (fst mh')" by (simp add: world_inv_def)
  have "set (em_freeList (fst mh')) = {i. unat i < em_Capacity (fst mh') \<and> \<not> em_alive (fst mh') ! unat i}"
    using em_invD(4) [OF m] em_invD(5) [OF m] by (auto simp: em_Capacity_def)
  with inv show ?thesis using em_invD(6) [OF m] by (simp add: em_Count_def)
qed

theorem entity_manager_invariant_witness:
  "world_inv (snd (the (em_Create emptyManager)), \<lambda>_. emptyStorage :: nat ComponentStorage)"
proof -
  have w: "world_inv (emptyManager, \<lambda>_. emptyStorage :: nat ComponentStorage)"
    by (simp add: world_inv_def)
  have r: "em_run [OpCreate] (emptyManager, \<lambda>_. emptyStorage :: nat ComponentStorage)
      = Some (snd (the (em_Create emptyManager)), \<lambda>_. emptyStorage)"
    by (simp add: em_Create_def emptyManager_def word_le_nat_alt unat_kMaxId)
  show ?thesis using entity_manager_invariant [OF w r] by blast
qed

text \<open>\<^verbatim>\<open>Create()\<close> returns a handle that was not alive, makes exactly that handle alive and no
  other handle dead or alive, raises \<^verbatim>\<open>Count()\<close> by one, and reuses the oldest recycled index
  with its current version when there is one; it can only abort when all \<open>kMaxId + 1\<close>
  indices are in use.\<close>

theorem create_returns_fresh_handle:
  assumes "em_inv m"
  shows "(em_Create m = None \<longleftrightarrow> em_freeList m = [] \<and> em_Capacity m = unat kMaxId + 1)
    \<and> (\<forall>e m'. em_Create m = Some (e, m') \<longrightarrow> em_inv m' \<and> \<not> em_IsAlive m e
         \<and> (\<forall>x. em_IsAlive m' x \<longleftrightarrow> em_IsAlive m x \<or> x = e)
         \<and> unat (em_Count m') = unat (em_Count m) + 1
         \<and> (\<forall>i rest. em_freeList m = i # rest \<longrightarrow>
              entity_id e = i \<and> entity_version e = em_versions m ! unat i \<and> em_freeList m' = rest))"
proof -
  have u: "unat (word_of_nat (length (em_versions m)) :: u32) = length (em_versions m)"
    using em_invD(2) [OF assms] by (intro unat_of_nat_lt) simp
  have "em_Create m = None \<longleftrightarrow> em_freeList m = [] \<and> em_Capacity m = unat kMaxId + 1"
    using em_invD(2) [OF assms]
    by (auto simp: em_Create_def em_Capacity_def Let_def word_le_nat_alt unat_kMaxId u
        split: list.splits)
  moreover have "em_Create m = Some (e, m') \<Longrightarrow> em_freeList m = i # rest \<Longrightarrow>
      entity_id e = i \<and> entity_version e = em_versions m ! unat i \<and> em_freeList m' = rest" for e m' i rest
    using assms by (cases rule: em_Create_cases) auto
  ultimately show ?thesis
    using em_Create_inv [OF assms] em_Create_IsAlive [OF assms] em_Create_count [OF assms]
    by blast
qed

theorem create_returns_fresh_handle_witness:
  "em_Create emptyManager \<noteq> None
   \<and> em_IsAlive (snd (the (em_Create emptyManager))) (fst (the (em_Create emptyManager)))"
proof -
  note T = create_returns_fresh_handle [OF em_inv_empty]
  have n: "em_Create emptyManager \<noteq> None"
    using T by (simp add: em_Capacity_def emptyManager_def unat_kMaxId)
  then obtain e m' where "em_Create emptyManager = Some (e, m')" by auto
  then show ?thesis using T by simp
qed

text \<open>(C18) \<^verbatim>\<open>Destroy(e)\<close> kills exactly the handle \<open>e\<close> and leaves every other live entity alive,
  and afterwards no registered pool holds a component for the index of a destroyed entity
  while all components of other indices stay; on a dead handle it changes nothing.\<close>

theorem destroy_removes_entity_and_components:
  assumes "world_inv (m, h)"
  shows "(em_IsAlive (fst (em_Destroy e (m, h))) x \<longleftrightarrow> em_IsAlive m x \<and> x \<noteq> e)
    \<and> (q \<in> set (em_storages m) \<and> em_IsAlive m e \<longrightarrow>
         (cs_Has (snd (em_Destroy e (m, h)) q) x \<longleftrightarrow> cs_Has (h q) x \<and> entity_id x \<noteq> entity_id e))
    \<and> (\<not> em_IsAlive m e \<longrightarrow> em_Destroy e (m, h) = (m, h))
    \<and> world_inv (em_Destroy e (m, h))"
proof -
  have "\<not> em_IsAlive m e \<longrightarrow> em_Destroy e (m, h) = (m, h)"
    by (simp add: em_Destroy_def)
  then show ?thesis
    using em_Destroy_IsAlive [OF assms] em_Destroy_Has [OF assms] em_Destroy_world_inv [OF assms]
    by simp
qed

theorem destroy_removes_entity_and_components_witness:
  "world_inv (snd (the (em_Create emptyManager)), \<lambda>_. emptyStorage :: nat ComponentStorage)
   \<and> \<not> em_IsAlive (fst (em_Destroy (fst (the (em_Create emptyManager)))
        (snd (the (em_Create emptyManager)), \<lambda>_. emptyStorage :: nat ComponentStorage)))
        (fst (the (em_Create emptyManager)))"
proof -
  have c: "em_Create emptyManager = Some (mkEntity 0 0, snd (the (em_Create emptyManager)))"
    by (simp add: em_Create_def emptyManager_def word_le_nat_alt unat_kMaxId)
  have w: "world_inv (snd (the (em_Create emptyManager)), \<lambda>_. emptyStorage :: nat ComponentStorage)"
    using em_Create_inv [OF em_inv_empty c] by (simp add: world_inv_def)
  show ?thesis using destroy_removes_entity_and_components [OF w] w by blast
qed

text \<open>\<^verbatim>\<open>FlushDeferred()\<close> empties the pending queue, kills exactly the queued entities that
  are still alive (a handle queued twice or already dead is harmless) and removes their
  components from every registered pool.\<close>

theorem flush_deferred_destroys_pending:
  assumes "world_inv (m, h)"
  shows "em_pendingDestroy (fst (em_FlushDeferred (m, h))) = []
    \<and> (em_IsAlive (fst (em_FlushDeferred (m, h))) x \<longleftrightarrow>
         em_IsAlive m x \<and> x \<notin> set (em_pendingDestroy m))
    \<and> (q \<in> set (em_storages m) \<longrightarrow> (cs_Has (snd (em_FlushDeferred (m, h)) q) x \<longleftrightarrow> cs_Has (h q) x \<and>
         \<not> (\<exists>e \<in> set (em_pendingDestroy m). em_IsAlive m e \<and> entity_id x = entity_id e)))
    \<and> world_inv (em_FlushDeferred (m, h))"
  using em_FlushDeferred_spec [OF assms] flush_world_inv [OF assms] by blast

theorem flush_deferred_destroys_pending_witness:
  "let m = snd (the (em_Create emptyManager))
   in em_IsAlive m (mkEntity 0 0)
      \<and> \<not> em_IsAlive (fst (em_FlushDeferred (em_DestroyDeferred (mkEntity 0 0) m,
            \<lambda>_. emptyStorage :: nat ComponentStorage))) (mkEntity 0 0)"
proof -
  define m where "m = snd (the (em_Create emptyManager))"
  have c: "em_Create emptyManager = Some (mkEntity 0 0, m)"
    by (simp add: m_def em_Create_def emptyManager_def word_le_nat_alt unat_kMaxId)
  have a: "em_inv m" "em_IsAlive m (mkEntity 0 0)"
    using em_Create_inv [OF em_inv_empty c] em_Create_IsAlive(1) [OF em_inv_empty c] by simp_all
  then have w: "world_inv (em_DestroyDeferred (mkEntity 0 0) m, \<lambda>_. emptyStorage :: nat ComponentStorage)"
    by (simp add: world_inv_def em_DestroyDeferred_def)
  show ?thesis
    using flush_deferred_destroys_pending [OF w, of "mkEntity 0 0"] a(2)
    by (simp add: em_DestroyDeferred_def flip: m_def)
qed

text \<open>Stale handles. After \<open>e\<close> is destroyed, let a run of operations destroy the entity in
  its slot \<open>d\<close> more times. Then \<^verbatim>\<open>IsAlive(e)\<close> holds exactly when the slot is occupied and
  \<open>d + 1\<close> is a multiple of 256: the 8-bit version detects every stale handle for up to 255
  recyclings, and the 256th brings the old handle back to life.\<close>

theorem stale_handle_exactly:
  assumes "world_inv mh" and "em_IsAlive (fst mh) e"
    and "em_run ops (em_Destroy e mh) = Some mh'"
  shows "em_IsAlive (fst mh') e \<longleftrightarrow> em_alive (fst mh') ! unat (entity_id e)
           \<and> 256 dvd (run_destroys (unat (entity_id e)) ops (em_Destroy e mh) + 1)"
proof -
  let ?i = "eidx e" and ?mh1 = "em_Destroy e mh"
  let ?d = "run_destroys ?i ops ?mh1"
  have m: "em_inv (fst mh)" using assms(1) by (simp add: world_inv_def)
  have e: "?i < length (em_versions (fst mh))" "em_versions (fst mh) ! ?i = entity_version e"
    using assms(2) by (auto simp: em_IsAlive_iff [OF m])
  note D = em_Destroy_versions [OF assms(1) e(1), of e]
  have inv1: "world_inv ?mh1" using assms(1) by (rule em_Destroy_world_inv)
  have inv': "em_inv (fst mh')"
    using em_run_world_inv [OF inv1 assms(3)] by (simp add: world_inv_def)
  have i1: "?i < length (em_versions (fst ?mh1))" using D(2) e(1) by simp
  note R = em_run_versions [OF inv1 assms(3) i1]
  have v: "em_versions (fst mh') ! ?i = entity_version e + word_of_nat (?d + 1)"
    using R D(1) e(2) assms(2) by simp
  have "(word_of_nat (?d + 1) :: u8) = 0 \<longleftrightarrow> 256 dvd (?d + 1)"
    by (simp only: word_of_nat_eq_0_iff) simp
  then have "em_versions (fst mh') ! ?i = entity_version e \<longleftrightarrow> 256 dvd (?d + 1)"
    unfolding v by simp
  moreover have "?i < length (em_versions (fst mh'))" using R i1 by simp
  ultimately show ?thesis by (auto simp: em_IsAlive_iff [OF inv'])
qed

theorem stale_handle_exactly_witness:
  "let mh = em_Destroy (mkEntity 0 0) (snd (the (em_Create emptyManager)),
              \<lambda>_. emptyStorage :: nat ComponentStorage)
   in em_alive (fst (the (em_run [OpCreate] mh))) ! 0
      \<and> \<not> em_IsAlive (fst (the (em_run [OpCreate] mh))) (mkEntity 0 0)"
proof -
  define m where "m = snd (the (em_Create emptyManager))"
  let ?h = "\<lambda>_ :: nat. emptyStorage :: nat ComponentStorage"
  have c: "em_Create emptyManager = Some (mkEntity 0 0, m)"
    by (simp add: m_def em_Create_def emptyManager_def word_le_nat_alt unat_kMaxId)
  have a: "em_inv m" "em_IsAlive m (mkEntity 0 0)"
    using em_Create_inv [OF em_inv_empty c] em_Create_IsAlive(1) [OF em_inv_empty c] by simp_all
  then have w: "world_inv (m, ?h)" by (simp add: world_inv_def)
  have m: "em_alive m = [True]" "em_freeList m = []"
    by (simp_all add: m_def em_Create_def emptyManager_def word_le_nat_alt unat_kMaxId)
  define mh where "mh = em_Destroy (mkEntity 0 0) (m, ?h)"
  have f: "em_freeList (fst mh) = [0]" "em_alive (fst mh) = [False]"
    using a(2) m by (simp_all add: mh_def em_Destroy_def destroyInternal_fst)
  obtain mh' where r: "em_run [OpCreate] mh = Some mh'" and al: "em_alive (fst mh') ! 0"
    using f by (cases mh) (simp add: em_Create_def)
  have "\<not> em_IsAlive (fst mh') (mkEntity 0 0)"
    using stale_handle_exactly [of "(m, ?h)" "mkEntity 0 0" "[OpCreate]" mh'] w a(2) r
    by (cases mh) (simp flip: mh_def split: option.splits)
  then show ?thesis using r al by (simp add: Let_def flip: m_def mh_def)
qed

end
