(* ===== verification/Ecs_Query.thy ===== *)
theory Ecs_Query
  imports Ecs_Entity_Manager
begin

text \<open>
  \<^verbatim>\<open>include/cgs/ecs/query.hpp\<close>: entity queries over component pools. Include and exclude
  storages are pointers into the heap of pools. \<^verbatim>\<open>RefreshCache\<close> is modelled with its
  version fingerprint, the choice of the smallest include storage and the membership
  loop; \<open>None\<close> is a violated \<^verbatim>\<open>assert\<close> of the pool. The theory shows that the cached
  entity list is exact, that the cache stays coherent under every sequence of pool
  operations (up to a wrap-around of a 32-bit counter), and what the handles handed out are.
\<close>

record Query =
  q_storages :: "nat list"
  q_excludes :: "nat list"
  q_optionals :: "u32 \<rightharpoonup> nat"
  q_cachedEntities :: "Entity list"
  q_cacheVersion :: u64
  q_cacheValid :: bool

definition mkQuery :: "nat list \<Rightarrow> Query" where
  "mkQuery storages = \<lparr>q_storages = storages, q_excludes = [], q_optionals = Map.empty,
     q_cachedEntities = [], q_cacheVersion = 0, q_cacheValid = False\<rparr>"

definition q_Exclude :: "nat \<Rightarrow> Query \<Rightarrow> Query" where
  "q_Exclude p q = q\<lparr>q_excludes := q_excludes q @ [p], q_cacheValid := False\<rparr>"

definition q_Optional :: "u32 \<Rightarrow> nat \<Rightarrow> Query \<Rightarrow> Query" where
  "q_Optional typeId p q = q\<lparr>q_optionals := (q_optionals q)(typeId \<mapsto> p)\<rparr>"

definition q_GetOptional :: "u32 \<Rightarrow> Entity \<Rightarrow> Query \<Rightarrow> 'c pools \<Rightarrow> 'c option" where
  "q_GetOptional typeId e q h =
     (case q_optionals q typeId of
        None \<Rightarrow> None
      | Some p \<Rightarrow> if \<not> cs_Has (h p) e then None else cs_Get (h p) e)"

definition computeVersionFingerprint :: "Query \<Rightarrow> 'c pools \<Rightarrow> u64" where
  "computeVersionFingerprint q h =
     (let fp = fold (\<lambda>p fp. fp + ucast (cs_globalVersion (h p))) (q_storages q) 0
      in fold (\<lambda>p fp. fp + ucast (cs_Version (h p))) (q_excludes q) fp)"

definition pickSmallest :: "nat list \<Rightarrow> 'c pools \<Rightarrow> nat option \<times> nat" where
  "pickSmallest ps h =
     fold (\<lambda>p acc. if cs_Size (h p) < snd acc then (Some p, cs_Size (h p)) else acc) ps
       (None, 2 ^ 64 - 1)"

fun refreshLoop :: "Query \<Rightarrow> 'c pools \<Rightarrow> nat \<Rightarrow> nat list \<Rightarrow> Entity list \<Rightarrow> Entity list option" where
  "refreshLoop q h smallest [] acc = Some acc"
| "refreshLoop q h smallest (i # is) acc =
     (case cs_EntityAt (h smallest) i of
        None \<Rightarrow> None
      | Some eid \<Rightarrow>
          let entity = mkEntity eid 0;
              matchesAll = list_all (\<lambda>p. p = smallest \<or> cs_Has (h p) entity) (q_storages q);
              excluded = list_ex (\<lambda>p. cs_Has (h p) entity) (q_excludes q)
          in refreshLoop q h smallest is (if matchesAll \<and> \<not> excluded then acc @ [entity] else acc))"

definition RefreshCache :: "Query \<Rightarrow> 'c pools \<Rightarrow> Query option" where
  "RefreshCache q h =
     (let fp = computeVersionFingerprint q h
      in if q_cacheValid q \<and> q_cacheVersion q = fp then Some q
         else (case pickSmallest (q_storages q) h of
             (None, _) \<Rightarrow> Some (q\<lparr>q_cachedEntities := [], q_cacheVersion := fp, q_cacheValid := True\<rparr>)
           | (Some smallest, smallestSize) \<Rightarrow>
               if smallestSize = 0
               then Some (q\<lparr>q_cachedEntities := [], q_cacheVersion := fp, q_cacheValid := True\<rparr>)
               else map_option
                 (\<lambda>es. q\<lparr>q_cachedEntities := es, q_cacheVersion := fp, q_cacheValid := True\<rparr>)
                 (refreshLoop q h smallest [0..<smallestSize] [])))"

definition q_Count :: "Query \<Rightarrow> 'c pools \<Rightarrow> (nat \<times> Query) option" where
  "q_Count q h = map_option (\<lambda>q'. (length (q_cachedEntities q'), q')) (RefreshCache q h)"

text \<open>\<^verbatim>\<open>ForEach\<close>: the callback gets the handle and a mutable reference to each included
  component; it is a function from the components to their new values. Assigning through
  the reference writes the dense slot and does not touch the version counters.\<close>

definition assignRef :: "Entity \<Rightarrow> 'c \<Rightarrow> 'c ComponentStorage \<Rightarrow> 'c ComponentStorage" where
  "assignRef e c s =
     s\<lparr>cs_dense := (cs_dense s)[unat (cs_sparse s ! unat (entity_id e)) := c]\<rparr>"

definition forEachBody :: "(Entity \<Rightarrow> 'c list \<Rightarrow> 'c list) \<Rightarrow> nat list \<Rightarrow> Entity \<Rightarrow> 'c pools \<Rightarrow> 'c pools option" where
  "forEachBody func ps e h =
     (if list_all (\<lambda>p. cs_Has (h p) e) ps
      then let cs = func e (map (\<lambda>p. the (cs_Get (h p) e)) ps)
           in Some (fold (\<lambda>pc h. h(fst pc := assignRef e (snd pc) (h (fst pc)))) (zip ps cs) h)
      else None)"

fun forEachLoop :: "(Entity \<Rightarrow> 'c list \<Rightarrow> 'c list) \<Rightarrow> nat list \<Rightarrow> Entity list \<Rightarrow> 'c pools \<Rightarrow> 'c pools option" where
  "forEachLoop func ps [] h = Some h"
| "forEachLoop func ps (e # es) h =
     (case forEachBody func ps e h of None \<Rightarrow> None | Some h' \<Rightarrow> forEachLoop func ps es h')"

definition q_ForEach :: "(Entity \<Rightarrow> 'c list \<Rightarrow> 'c list) \<Rightarrow> Query \<Rightarrow> 'c pools \<Rightarrow> (Query \<times> 'c pools) option" where
  "q_ForEach func q h =
     (case RefreshCache q h of
        None \<Rightarrow> None
      | Some q' \<Rightarrow> map_option (\<lambda>h'. (q', h'))
                     (forEachLoop func (q_storages q) (q_cachedEntities q') h))"

section \<open>The membership loop\<close>

text \<open>What a query is meant to enumerate: one handle per id that every include storage
  and no exclude storage holds.\<close>

definition q_matches :: "Query \<Rightarrow> 'c pools \<Rightarrow> Entity \<Rightarrow> bool" where
  "q_matches q h e \<longleftrightarrow> (\<forall>p \<in> set (q_storages q). cs_Has (h p) e)
     \<and> (\<forall>p \<in> set (q_excludes q). \<not> cs_Has (h p) e)"

lemma pickSmallest_fold:
  "fold (\<lambda>p acc. if cs_Size (h p) < snd acc then (Some p, cs_Size (h p)) else acc) ps (s, n) = (s', n') \<Longrightarrow>
     (s' = s \<and> n' = n \<or> (\<exists>p \<in> set ps. s' = Some p \<and> n' = cs_Size (h p)))
     \<and> n' \<le> n \<and> (\<forall>p \<in> set ps. n' \<le> cs_Size (h p))"
proof (induction ps arbitrary: s n)
  case (Cons p ps)
  then show ?case
    by (cases "cs_Size (h p) < n") (fastforce split: if_splits)+
qed simp

lemma pickSmallest_Some:
  assumes "\<forall>p. cs_inv (h p)" and "ps \<noteq> []"
  obtains p where "p \<in> set ps" "pickSmallest ps h = (Some p, cs_Size (h p))"
    "\<forall>r \<in> set ps. cs_Size (h p) \<le> cs_Size (h r)"
proof -
  obtain s n where sn: "pickSmallest ps h = (s, n)" by (cases "pickSmallest ps h")
  note F = pickSmallest_fold [OF sn [unfolded pickSmallest_def]]
  obtain r where r: "r \<in> set ps" using assms(2) by (cases ps) auto
  have "cs_Size (h r) \<le> 16777216" using assms(1) cs_dense_bound by (auto simp: cs_Size_def)
  then have "n \<noteq> 2 ^ 64 - 1" using F r by fastforce
  then show thesis using F sn that by auto
qed

lemma refreshLoop_filter:
  assumes "\<forall>i \<in> set is. i < length (cs_entities (h sm))"
  shows "refreshLoop q h sm is acc =
     Some (acc @ filter (\<lambda>e. list_all (\<lambda>p. p = sm \<or> cs_Has (h p) e) (q_storages q)
                           \<and> \<not> list_ex (\<lambda>p. cs_Has (h p) e) (q_excludes q))
              (map (\<lambda>i. mkEntity (cs_entities (h sm) ! i) 0) is))"
  using assms by (induction "is" arbitrary: acc) (auto simp: cs_EntityAt_def Let_def)

lemma map_entities_upto:
  "map (\<lambda>i. mkEntity (cs_entities s ! i) 0) [0..<length (cs_entities s)]
     = map (\<lambda>k. mkEntity k 0) (cs_entities s)"
  by (rule nth_equalityI) auto

lemma entities_lt:
  assumes "cs_inv s" and "k \<in> set (cs_entities s)"
  shows "unat k < 16777216"
proof -
  obtain i where "i < length (cs_dense s)" "k = cs_entities s ! i"
    using assms(2) cs_invD(1) [OF assms(1)] by (metis in_set_conv_nth)
  then show ?thesis using cs_invD(3) [OF assms(1)] cs_invD(5) [OF assms(1), of i] by simp
qed

lemma Has_iff_entities:
  assumes "cs_inv s"
  shows "cs_Has s e \<longleftrightarrow> entity_id e \<in> set (cs_entities s)"
proof -
  have "inj (unat :: u32 \<Rightarrow> nat)" by (simp add: inj_def word_eq_unat_iff)
  then have "eidx e \<in> dom (cs_lookup s) \<longleftrightarrow> entity_id e \<in> set (cs_entities s)"
    unfolding cs_dom_lookup [OF assms] by (rule inj_image_mem_iff)
  then show ?thesis by (simp add: cs_Has_lookup domIff)
qed

text \<open>A rebuilt cache lists the matches, each once.\<close>

definition q_exact :: "Query \<Rightarrow> 'c pools \<Rightarrow> Entity list \<Rightarrow> bool" where
  "q_exact q h es \<longleftrightarrow> distinct es \<and> set es = {e. q_matches q h e \<and> entity_version e = 0}"

lemma refreshLoop_exact:
  assumes inv: "\<forall>p. cs_inv (h p)" and sm: "sm \<in> set (q_storages q)"
    and r: "refreshLoop q h sm [0..<cs_Size (h sm)] [] = Some es"
  shows "q_exact q h es"
proof -
  note I = inv [rule_format, of sm]
  let ?E = "map (\<lambda>k. mkEntity k 0) (cs_entities (h sm))"
  let ?P = "\<lambda>e. list_all (\<lambda>p. p = sm \<or> cs_Has (h p) e) (q_storages q)
                  \<and> \<not> list_ex (\<lambda>p. cs_Has (h p) e) (q_excludes q)"
  have n: "cs_Size (h sm) = length (cs_entities (h sm))"
    using cs_invD(1) [OF I] by (simp add: cs_Size_def)
  have es: "es = filter ?P ?E"
    using r refreshLoop_filter [of "[0..<cs_Size (h sm)]" h sm q "[]"]
    by (simp add: n map_entities_upto)
  have "inj_on (\<lambda>k. mkEntity k 0) (set (cs_entities (h sm)))"
    by (rule inj_onI) (metis entities_lt [OF I] entity_id_mkEntity_lt)
  then have "distinct es" using cs_invD(4) [OF I] by (simp add: es distinct_map)
  moreover have E: "set ?E = {e. cs_Has (h sm) e \<and> entity_version e = 0}"
    using entities_lt [OF I]
    by (auto simp: Has_iff_entities [OF I] image_iff) (metis mkEntity_id_version)
  have "set es = {e. q_matches q h e \<and> entity_version e = 0}"
    unfolding es set_filter E using sm
    by (auto simp: q_matches_def list_all_iff list_ex_iff)
  ultimately show ?thesis by (simp add: q_exact_def)
qed

lemma q_exact_empty:
  assumes "\<forall>p. cs_inv (h p)" and "p \<in> set (q_storages q)" and "cs_Size (h p) = 0"
  shows "q_exact q h []"
proof -
  have "cs_entities (h p) = []"
    using assms(1,3) cs_invD(1) [of "h p"] by (simp add: cs_Size_def)
  then have "\<not> cs_Has (h p) e" for e
    using assms(1) by (simp add: Has_iff_entities)
  then show ?thesis using assms(2) by (auto simp: q_exact_def q_matches_def)
qed

text \<open>Unless it keeps the cache, \<^verbatim>\<open>RefreshCache\<close> makes it exact and stamps it.\<close>

lemma RefreshCache_rebuild:
  assumes inv: "\<forall>p. cs_inv (h p)" and ne: "q_storages q \<noteq> []"
    and stale: "\<not> (q_cacheValid q \<and> q_cacheVersion q = computeVersionFingerprint q h)"
  obtains es where "RefreshCache q h = Some (q\<lparr>q_cachedEntities := es,
      q_cacheVersion := computeVersionFingerprint q h, q_cacheValid := True\<rparr>)"
    "q_exact q h es"
proof -
  obtain sm where sm: "sm \<in> set (q_storages q)"
    "pickSmallest (q_storages q) h = (Some sm, cs_Size (h sm))"
    using pickSmallest_Some [OF inv ne] by metis
  show thesis
  proof (cases "cs_Size (h sm) = 0")
    case True
    then show thesis using that [of "[]"] q_exact_empty [OF inv sm(1)] stale sm(2)
      by (auto simp: RefreshCache_def Let_def)
  next
    case False
    have "cs_Size (h sm) = length (cs_entities (h sm))"
      using inv cs_invD(1) [of "h sm"] by (simp add: cs_Size_def)
    then obtain es where r: "refreshLoop q h sm [0..<cs_Size (h sm)] [] = Some es"
      using refreshLoop_filter [of "[0..<cs_Size (h sm)]" h sm q "[]"] by simp
    then show thesis
      using that [of es] refreshLoop_exact [OF inv sm(1) r] stale sm(2) False
      by (auto simp: RefreshCache_def Let_def)
  qed
qed

section \<open>Cache coherence\<close>

text \<open>Everything that can happen to a pool between two uses of a query.\<close>

datatype 'c pool_op =
    PAdd Entity 'c
  | PReplace Entity 'c
  | PRemove Entity
  | PClear
  | PMarkChanged Entity
  | PAssign Entity 'c

fun pool_exec :: "'c pool_op \<Rightarrow> 'c ComponentStorage \<Rightarrow> 'c ComponentStorage option" where
  "pool_exec (PAdd e c) s = cs_Add e c s"
| "pool_exec (PReplace e c) s = cs_Replace e c s"
| "pool_exec (PRemove e) s = Some (cs_Remove e s)"
| "pool_exec PClear s = Some (cs_Clear s)"
| "pool_exec (PMarkChanged e) s = cs_MarkChanged e s"
| "pool_exec (PAssign e c) s = (if cs_Has s e then Some (assignRef e c s) else None)"

lemma assignRef_inv [inv_intros]: "cs_inv s \<Longrightarrow> cs_inv (assignRef e c s)"
  by (simp add: assignRef_def cs_inv_def)

lemma assignRef_Has [simp]: "cs_Has (assignRef e c s) e' = cs_Has s e'"
  by (simp add: assignRef_def cs_Has_def)

lemma pool_exec_inv [inv_intros]:
  assumes "cs_inv s" and "pool_exec x s = Some s'"
  shows "cs_inv s'"
  using assms by (cases x) (auto intro: inv_intros split: if_splits)

lemma pool_exec_version:
  assumes "cs_inv s" and "pool_exec x s = Some s'"
  shows "cs_globalVersion s' = cs_globalVersion s + 1
    \<or> (cs_globalVersion s' = cs_globalVersion s \<and> (\<forall>e. cs_Has s' e = cs_Has s e))"
proof (cases x)
  case (PAdd e c)
  with assms(2) cs_Add_Some(7) [of e c s s'] show ?thesis by simp
next
  case (PRemove e)
  with assms show ?thesis
    using cs_Remove_parts(11) [OF assms(1), of e] by (cases "cs_Has s e") (auto simp: cs_Remove_def)
qed (use assms(2) in \<open>auto simp: cs_Replace_def cs_MarkChanged_def cs_Clear_def assignRef_def
      Let_def cs_Has_def split: if_splits\<close>)

datatype 'c q_op =
    QPool nat "'c pool_op"
  | QExclude nat
  | QRefresh

fun q_exec :: "'c q_op \<Rightarrow> Query \<times> 'c pools \<Rightarrow> (Query \<times> 'c pools) option" where
  "q_exec (QPool p x) (q, h) = map_option (\<lambda>s'. (q, h(p := s'))) (pool_exec x (h p))"
| "q_exec (QExclude p) (q, h) = Some (q_Exclude p q, h)"
| "q_exec QRefresh (q, h) = map_option (\<lambda>q'. (q', h)) (RefreshCache q h)"

fun q_run :: "'c q_op list \<Rightarrow> Query \<times> 'c pools \<Rightarrow> (Query \<times> 'c pools) option" where
  "q_run [] qh = Some qh"
| "q_run (x # xs) qh = (case q_exec x qh of None \<Rightarrow> None | Some qh' \<Rightarrow> q_run xs qh')"

text \<open>The fingerprint as an unbounded sum.\<close>

definition fingerprint_sum :: "Query \<Rightarrow> 'c pools \<Rightarrow> nat" where
  "fingerprint_sum q h =
     sum_list (map (\<lambda>p. unat (cs_globalVersion (h p))) (q_storages q @ q_excludes q))"

lemma fingerprint_sum_cong:
  assumes "\<And>p. p \<in> set (q_storages q) \<union> set (q_excludes q) \<Longrightarrow>
      cs_globalVersion (h' p) = cs_globalVersion (h p)"
  shows "fingerprint_sum q h' = fingerprint_sum q h"
proof -
  have "map (\<lambda>p. unat (cs_globalVersion (h' p))) (q_storages q @ q_excludes q)
      = map (\<lambda>p. unat (cs_globalVersion (h p))) (q_storages q @ q_excludes q)"
    using assms by (intro map_cong) auto
  then show ?thesis by (simp only: fingerprint_sum_def)
qed

lemma fold_fingerprint:
  "fold (\<lambda>p fp. fp + ucast (cs_globalVersion (h p))) ps (a :: u64)
     = a + word_of_nat (sum_list (map (\<lambda>p. unat (cs_globalVersion (h p))) ps))"
  by (induction ps arbitrary: a) (simp_all add: add.assoc)

lemma fingerprint_word: "computeVersionFingerprint q h = word_of_nat (fingerprint_sum q h)"
  by (simp add: computeVersionFingerprint_def fingerprint_sum_def cs_Version_def fold_fingerprint)

lemma sum_versions_le:
  "sum_list (map (\<lambda>p. unat (cs_globalVersion (h p))) ps) \<le> length ps * 4294967295"
proof (induction ps)
  case (Cons p ps)
  show ?case using unat_lt_u32 [of "cs_globalVersion (h p)"] Cons.IH by simp
qed simp

lemma unat_fingerprint:
  assumes "length (q_storages q) + length (q_excludes q) \<le> 4294967296"
  shows "unat (computeVersionFingerprint q h) = fingerprint_sum q h"
proof -
  have "fingerprint_sum q h \<le> (length (q_storages q) + length (q_excludes q)) * 4294967295"
    unfolding fingerprint_sum_def using sum_versions_le [of h "q_storages q @ q_excludes q"] by simp
  also have "\<dots> \<le> 4294967296 * 4294967295" using assms by (rule mult_right_mono) simp
  finally show ?thesis unfolding fingerprint_word by (intro unat_of_nat_lt) simp
qed

text \<open>A valid stamp is never ahead of the counters, and where it agrees with them the
  cached list is exact.\<close>

definition q_sound :: "Query \<times> 'c pools \<Rightarrow> bool" where
  "q_sound qh \<longleftrightarrow> (\<forall>p. cs_inv (snd qh p)) \<and> q_storages (fst qh) \<noteq> []
     \<and> (q_cacheValid (fst qh) \<longrightarrow> unat (q_cacheVersion (fst qh)) \<le> fingerprint_sum (fst qh) (snd qh)
        \<and> (unat (q_cacheVersion (fst qh)) = fingerprint_sum (fst qh) (snd qh)
           \<longrightarrow> q_exact (fst qh) (snd qh) (q_cachedEntities (fst qh))))"

lemma q_exact_cong:
  assumes "q_storages q' = q_storages q" and "q_excludes q' = q_excludes q"
    and "\<And>p e. p \<in> set (q_storages q) \<union> set (q_excludes q) \<Longrightarrow> cs_Has (h' p) e = cs_Has (h p) e"
  shows "q_exact q' h' es = q_exact q h es"
  using assms by (simp add: q_exact_def q_matches_def)

lemma sum_list_upd_mono:
  assumes "\<forall>p. f p \<le> (g p :: nat)"
  shows "sum_list (map f ps) \<le> sum_list (map g ps)"
    and "r \<in> set ps \<Longrightarrow> f r < g r \<Longrightarrow> sum_list (map f ps) < sum_list (map g ps)"
  using assms by (induction ps) (auto intro: add_mono add_le_less_mono add_less_le_mono)

lemma RefreshCache_sound:
  assumes sound: "q_sound (q, h)" and len: "length (q_storages q) + length (q_excludes q) \<le> 4294967296"
  obtains q' where "RefreshCache q h = Some q'" "q_sound (q', h)"
    "q_storages q' = q_storages q" "q_excludes q' = q_excludes q"
    "q_exact q' h (q_cachedEntities q')"
proof (cases "q_cacheValid q \<and> q_cacheVersion q = computeVersionFingerprint q h")
  case True
  then have "RefreshCache q h = Some q" by (simp add: RefreshCache_def Let_def)
  moreover have "q_exact q h (q_cachedEntities q)"
    using sound True unat_fingerprint [OF len, of h] by (simp add: q_sound_def)
  ultimately show thesis using that sound by blast
next
  case False
  have inv: "\<forall>p. cs_inv (h p)" and ne: "q_storages q \<noteq> []" using sound by (auto simp: q_sound_def)
  obtain es where es: "RefreshCache q h = Some (q\<lparr>q_cachedEntities := es,
      q_cacheVersion := computeVersionFingerprint q h, q_cacheValid := True\<rparr>)" "q_exact q h es"
    using RefreshCache_rebuild [OF inv ne False] by blast
  let ?q = "q\<lparr>q_cachedEntities := es, q_cacheVersion := computeVersionFingerprint q h, q_cacheValid := True\<rparr>"
  have ex: "q_exact ?q h es" using es(2) by (simp add: q_exact_def q_matches_def)
  have "fingerprint_sum ?q h = fingerprint_sum q h" by (simp add: fingerprint_sum_def)
  then have "q_sound (?q, h)" using inv ne ex unat_fingerprint [OF len, of h] by (simp add: q_sound_def)
  then show thesis using that [of ?q] es(1) ex by simp
qed

lemma q_sound_pool:
  assumes sound: "q_sound (q, h)" and ex: "pool_exec x (h p) = Some s'"
    and nowrap: "unat (cs_globalVersion (h p)) + 1 < 4294967296"
  shows "q_sound (q, h(p := s'))"
proof -
  have I: "cs_inv (h p)" using sound by (simp add: q_sound_def)
  have inv': "\<forall>r. cs_inv ((h(p := s')) r)"
    using sound pool_exec_inv [OF I ex] by (simp add: q_sound_def)
  consider (same) "cs_globalVersion s' = cs_globalVersion (h p)" "\<forall>e. cs_Has s' e = cs_Has (h p) e"
    | (outside) "p \<notin> set (q_storages q) \<union> set (q_excludes q)"
    | (bump) "p \<in> set (q_storages q @ q_excludes q)" "cs_globalVersion s' = cs_globalVersion (h p) + 1"
    using pool_exec_version [OF I ex] by auto
  then show ?thesis
  proof cases
    case same
    have "fingerprint_sum q (h(p := s')) = fingerprint_sum q h"
      using same by (intro fingerprint_sum_cong) auto
    moreover have "q_exact q (h(p := s')) es = q_exact q h es" for es
      using same by (intro q_exact_cong) auto
    ultimately show ?thesis using sound inv' by (simp add: q_sound_def)
  next
    case outside
    have "fingerprint_sum q (h(p := s')) = fingerprint_sum q h"
      using outside by (intro fingerprint_sum_cong) auto
    moreover have "q_exact q (h(p := s')) es = q_exact q h es" for es
      using outside by (intro q_exact_cong) auto
    ultimately show ?thesis using sound inv' by (simp add: q_sound_def)
  next
    case bump
    have u: "unat (cs_globalVersion s') = unat (cs_globalVersion (h p)) + 1"
      using nowrap unat_plus_1 [of "cs_globalVersion (h p)"] bump(2) by simp
    have "fingerprint_sum q h < fingerprint_sum q (h(p := s'))"
      unfolding fingerprint_sum_def using u by (intro sum_list_upd_mono(2) [OF _ bump(1)]) auto
    then show ?thesis using sound inv' by (auto simp: q_sound_def)
  qed
qed

lemma pool_exec_nowrap:
  assumes "cs_inv s" and "pool_exec x s = Some s'" and "unat (cs_globalVersion s) + 1 < 4294967296"
  shows "unat (cs_globalVersion s') \<le> unat (cs_globalVersion s) + 1"
  using pool_exec_version [OF assms(1,2)] unat_plus_1 [of "cs_globalVersion s"] assms(3) by auto

text \<open>Room for \<open>n\<close> more operations: no counter wraps and the fingerprint fits 64 bits.\<close>

definition q_room :: "nat \<Rightarrow> Query \<times> 'c pools \<Rightarrow> bool" where
  "q_room n qh \<longleftrightarrow> (\<forall>p. unat (cs_globalVersion (snd qh p)) + n < 4294967296)
     \<and> length (q_storages (fst qh)) + length (q_excludes (fst qh)) + n \<le> 4294967296"

lemma q_exec_sound:
  assumes sound: "q_sound qh" and room: "q_room (Suc n) qh" and ex: "q_exec x qh = Some qh'"
  shows "q_sound qh' \<and> q_room n qh'"
proof (cases x)
  case (QPool p y)
  obtain q h where qh: "qh = (q, h)" by (cases qh)
  obtain s' where s': "pool_exec y (h p) = Some s'" "qh' = (q, h(p := s'))"
    using ex QPool qh by auto
  have nw: "unat (cs_globalVersion (h p)) + 1 < 4294967296"
    using room [unfolded q_room_def] qh by (auto dest: spec [of _ p])
  have I: "cs_inv (h p)" using sound qh by (simp add: q_sound_def)
  have "unat (cs_globalVersion ((h(p := s')) r)) + n < 4294967296" for r
    using pool_exec_nowrap [OF I s'(1) nw] room qh
    by (auto simp: q_room_def dest: spec [of _ r])
  then have "q_room n qh'" using room qh s'(2) by (simp add: q_room_def)
  then show ?thesis using q_sound_pool [of q h y p s'] s'(1) nw sound qh s'(2) by simp
next
  case (QExclude p)
  obtain q h where qh: "qh = (q, h)" by (cases qh)
  have "unat (cs_globalVersion (h r)) + n < 4294967296" for r
    using room qh by (auto simp: q_room_def dest: spec [of _ r])
  with QExclude qh ex sound room show ?thesis
    by (auto simp: q_sound_def q_room_def q_Exclude_def)
next
  case QRefresh
  obtain q h where qh: "qh = (q, h)" by (cases qh)
  have len: "length (q_storages q) + length (q_excludes q) \<le> 4294967296"
    using room qh by (simp add: q_room_def)
  obtain q' where q': "RefreshCache q h = Some q'" "q_sound (q', h)"
    "q_storages q' = q_storages q" "q_excludes q' = q_excludes q"
    using RefreshCache_sound [OF _ len] sound qh by metis
  have "unat (cs_globalVersion (h r)) + n < 4294967296" for r
    using room qh by (auto simp: q_room_def dest: spec [of _ r])
  with q' QRefresh qh ex room show ?thesis by (auto simp: q_room_def)
qed

lemma q_run_sound:
  "q_sound qh \<Longrightarrow> q_room (length xs + n) qh \<Longrightarrow> q_run xs qh = Some qh' \<Longrightarrow> q_sound qh' \<and> q_room n qh'"
proof (induction xs arbitrary: qh)
  case (Cons x xs)
  then obtain qh1 where ex: "q_exec x qh = Some qh1" and run: "q_run xs qh1 = Some qh'"
    by (auto split: option.splits)
  have "q_sound qh1 \<and> q_room (length xs + n) qh1"
    using q_exec_sound [OF Cons.prems(1) _ ex] Cons.prems(2) by simp
  then show ?case using Cons.IH run by blast
qed simp

section \<open>ForEach\<close>

lemma assignRef_lookup:
  assumes "cs_inv s" and "cs_Has s e"
  shows "cs_lookup (assignRef e c s) = (cs_lookup s)(eidx e \<mapsto> c)"
proof -
  obtain s' where s': "cs_Replace e c s = Some s'"
    using assms(2) by (simp add: cs_Replace_def Let_def)
  have "cs_lookup (assignRef e c s) = cs_lookup s'"
    using s' by (auto simp: cs_Replace_def assignRef_def cs_lookup_def Let_def split: if_splits)
  then show ?thesis using cs_Replace_lookup [OF assms(1) s'] by simp
qed

lemma fold_assignRef:
  "distinct (map fst zs) \<Longrightarrow>
     fold (\<lambda>pc h. h(fst pc := assignRef e (snd pc) (h (fst pc)))) zs h p
       = (case map_of zs p of None \<Rightarrow> h p | Some c \<Rightarrow> assignRef e c (h p))"
proof (induction zs arbitrary: h)
  case (Cons z zs)
  have "fst z = p \<Longrightarrow> map_of zs p = None"
    using Cons.prems by (auto simp: map_of_eq_None_iff)
  then show ?case using Cons by (cases z) (auto split: option.splits)
qed simp

text \<open>One call of the callback: component \<open>j\<close> of the entity becomes entry \<open>j\<close> of its result.\<close>

lemma forEachBody_spec:
  assumes inv: "\<forall>p. cs_inv (h p)" and d: "distinct ps"
    and has: "\<forall>p \<in> set ps. cs_Has (h p) e"
    and len: "length (func e (map (\<lambda>p. the (cs_lookup (h p) (eidx e))) ps)) = length ps"
  shows "\<exists>h'. forEachBody func ps e h = Some h' \<and> (\<forall>p. cs_inv (h' p))
    \<and> (\<forall>p x. cs_Has (h' p) x = cs_Has (h p) x) \<and> (\<forall>p. p \<notin> set ps \<longrightarrow> h' p = h p)
    \<and> (\<forall>j < length ps. cs_lookup (h' (ps ! j)) = (cs_lookup (h (ps ! j)))
         (eidx e \<mapsto> func e (map (\<lambda>p. the (cs_lookup (h p) (eidx e))) ps) ! j))"
proof -
  let ?cs = "func e (map (\<lambda>p. the (cs_lookup (h p) (eidx e))) ps)"
  let ?h' = "fold (\<lambda>pc h. h(fst pc := assignRef e (snd pc) (h (fst pc)))) (zip ps ?cs) h"
  have ds: "distinct (map fst (zip ps ?cs))" using d len by simp
  note F = fold_assignRef [OF ds]
  have "forEachBody func ps e h = Some ?h'"
    using has by (simp add: forEachBody_def Let_def list_all_iff cs_Get_lookup)
  moreover have "\<forall>p. cs_inv (?h' p)"
    using inv by (auto simp: F assignRef_inv split: option.splits)
  moreover have "cs_Has (?h' p) x = cs_Has (h p) x" for p x
    by (auto simp: F split: option.splits)
  moreover have "?h' p = h p" if "p \<notin> set ps" for p
  proof -
    have "map_of (zip ps ?cs) p = None"
      using that len by (simp add: map_of_eq_None_iff flip: set_map del: map_of_zip_is_None)
    then show ?thesis by (simp add: F)
  qed
  moreover have "cs_lookup (?h' (ps ! j)) = (cs_lookup (h (ps ! j)))(eidx e \<mapsto> ?cs ! j)"
    if "j < length ps" for j
  proof -
    have "map_of (zip ps ?cs) (ps ! j) = Some (?cs ! j)"
      using that d len by (simp add: map_of_zip_nth)
    then show ?thesis
      using assignRef_lookup [of "h (ps ! j)" e "?cs ! j"] inv has that by (simp add: F)
  qed
  ultimately show ?thesis by (intro exI [of _ ?h']) blast
qed

lemma forEachLoop_spec:
  assumes "\<forall>p. cs_inv (h p)" and d: "distinct ps" and "distinct (map entity_id es)"
    and "\<forall>e \<in> set es. \<forall>p \<in> set ps. cs_Has (h p) e"
    and len: "\<And>e cs. length cs = length ps \<Longrightarrow> length (func e cs) = length ps"
  shows "\<exists>h'. forEachLoop func ps es h = Some h' \<and> (\<forall>p. p \<notin> set ps \<longrightarrow> h' p = h p)
    \<and> (\<forall>p. cs_inv (h' p)) \<and> (\<forall>p x. cs_Has (h' p) x = cs_Has (h p) x)
    \<and> (\<forall>j < length ps. \<forall>k. (\<forall>e \<in> set es. eidx e \<noteq> k) \<longrightarrow>
          cs_lookup (h' (ps ! j)) k = cs_lookup (h (ps ! j)) k)
    \<and> (\<forall>j < length ps. \<forall>e \<in> set es. cs_lookup (h' (ps ! j)) (eidx e)
          = Some (func e (map (\<lambda>p. the (cs_lookup (h p) (eidx e))) ps) ! j))"
  using assms(1,3,4)
proof (induction es arbitrary: h)
  case (Cons e es)
  let ?v = "\<lambda>h e. func e (map (\<lambda>p. the (cs_lookup (h p) (eidx e))) ps)"
  have has: "\<forall>p \<in> set ps. cs_Has (h p) e" using Cons.prems(3) by simp
  have l: "length (?v h e) = length ps" by (simp add: len)
  obtain h1 where h1: "forEachBody func ps e h = Some h1" "\<forall>p. cs_inv (h1 p)"
    "\<forall>p x. cs_Has (h1 p) x = cs_Has (h p) x" "\<forall>p. p \<notin> set ps \<longrightarrow> h1 p = h p"
    "\<forall>j < length ps. cs_lookup (h1 (ps ! j)) = (cs_lookup (h (ps ! j)))(eidx e \<mapsto> ?v h e ! j)"
    using forEachBody_spec [where func = func and e = e, OF Cons.prems(1) d has l] by blast
  have ne: "eidx x \<noteq> eidx e" if "x \<in> set es" for x
    using that Cons.prems(2) by (metis distinct.simps(2) image_eqI list.simps(9) list.set_map word_eq_unat_iff)
  have v: "?v h1 x = ?v h x" if "x \<in> set es" for x
  proof -
    have "cs_lookup (h1 p) (eidx x) = cs_lookup (h p) (eidx x)" if "p \<in> set ps" for p
    proof -
      obtain j where "j < length ps" "p = ps ! j" using \<open>p \<in> set ps\<close> by (metis in_set_conv_nth)
      then show ?thesis using h1(5) ne [OF \<open>x \<in> set es\<close>] by simp
    qed
    then have "map (\<lambda>p. the (cs_lookup (h1 p) (eidx x))) ps = map (\<lambda>p. the (cs_lookup (h p) (eidx x))) ps"
      by (intro map_cong) auto
    then show ?thesis by (simp only:)
  qed
  have p3: "\<forall>x \<in> set es. \<forall>p \<in> set ps. cs_Has (h1 p) x" using Cons.prems(3) h1(3) by simp
  obtain h' where h': "forEachLoop func ps es h1 = Some h'" "\<forall>p. p \<notin> set ps \<longrightarrow> h' p = h1 p"
    and inv': "\<forall>p. cs_inv (h' p)" "\<forall>p x. cs_Has (h' p) x = cs_Has (h1 p) x"
    and h'l: "\<forall>j < length ps. \<forall>k. (\<forall>e \<in> set es. eidx e \<noteq> k) \<longrightarrow> cs_lookup (h' (ps ! j)) k = cs_lookup (h1 (ps ! j)) k"
    "\<forall>j < length ps. \<forall>x \<in> set es. cs_lookup (h' (ps ! j)) (eidx x) = Some (?v h1 x ! j)"
    using Cons.IH [OF h1(2) _ p3] Cons.prems(2) by auto
  have "cs_lookup (h' (ps ! j)) (eidx e) = Some (?v h e ! j)" if "j < length ps" for j
    using h'l(1) that ne h1(5) by simp
  then show ?case
    using h1(1,3,4,5) h' h'l inv' v by (intro exI [of _ h']) auto
qed simp

text \<open>A pool with one component, used by the instances below.\<close>

lemma one_component_pool:
  assumes "i \<le> kMaxId"
  obtains s where "cs_Add (mkEntity i v) c emptyStorage = Some s" "cs_inv s"
    "\<And>e. cs_Has s e \<longleftrightarrow> entity_id e = i" "cs_lookup s = [unat i \<mapsto> c]"
proof -
  have lt: "unat i < 16777216" using assms by (simp add: word_le_nat_alt unat_kMaxId)
  then have "isValid (mkEntity i v)" using assms by (intro isValid_if_id_le_kMaxId) simp
  then obtain s where add: "cs_Add (mkEntity i v) c emptyStorage = Some s"
    using cs_Add_defined [of "mkEntity i v" c emptyStorage] by (auto simp: cs_Has_lookup)
  have l: "cs_lookup s = [unat i \<mapsto> c]" using cs_Add_lookup [OF cs_inv_empty add] lt by simp
  then have "cs_Has s e \<longleftrightarrow> entity_id e = i" for e
    by (simp add: cs_Has_lookup word_eq_unat_iff [of "entity_id e"])
  then show thesis using that add cs_Add_inv [OF cs_inv_empty add] l by blast
qed

text \<open>\<^verbatim>\<open>ForEach\<close> as a whole.\<close>

lemma q_ForEach_spec:
  assumes "q_sound (q, h)" and "length (q_storages q) + length (q_excludes q) \<le> 4294967296"
    and "distinct (q_storages q)"
    and "\<And>e cs. length cs = length (q_storages q) \<Longrightarrow> length (func e cs) = length (q_storages q)"
  shows "\<exists>q' h'. q_ForEach func q h = Some (q', h')
    \<and> (\<forall>p. cs_inv (h' p)) \<and> (\<forall>p x. cs_Has (h' p) x = cs_Has (h p) x)
    \<and> (\<forall>p. p \<notin> set (q_storages q) \<longrightarrow> h' p = h p)
    \<and> (\<forall>j < length (q_storages q). \<forall>e. entity_version e = 0 \<longrightarrow>
         cs_lookup (h' (q_storages q ! j)) (unat (entity_id e)) =
           (if q_matches q h e
            then Some (func e (map (\<lambda>p. the (cs_lookup (h p) (unat (entity_id e)))) (q_storages q)) ! j)
            else cs_lookup (h (q_storages q ! j)) (unat (entity_id e))))"
proof -
  let ?ps = "q_storages q"
  obtain q' where q': "RefreshCache q h = Some q'" "q_storages q' = ?ps"
    "q_excludes q' = q_excludes q" "q_exact q' h (q_cachedEntities q')"
    using RefreshCache_sound [OF assms(1,2)] by metis
  let ?es = "q_cachedEntities q'"
  have es: "distinct ?es" "set ?es = {e. q_matches q h e \<and> entity_version e = 0}"
    using q' by (simp_all add: q_exact_def q_matches_def)
  have dist: "distinct (map entity_id ?es)"
    using es by (auto simp: distinct_map inj_on_def intro: entity_eqI)
  have inv: "\<forall>p. cs_inv (h p)" using assms(1) by (simp add: q_sound_def)
  have has: "\<forall>e \<in> set ?es. \<forall>p \<in> set ?ps. cs_Has (h p) e" by (simp add: es(2) q_matches_def)
  obtain h' where h': "forEachLoop func ?ps ?es h = Some h'" "\<forall>p. p \<notin> set ?ps \<longrightarrow> h' p = h p"
    and inv': "\<forall>p. cs_inv (h' p)" "\<forall>p x. cs_Has (h' p) x = cs_Has (h p) x"
    and h'l: "\<forall>j < length ?ps. \<forall>k. (\<forall>e \<in> set ?es. eidx e \<noteq> k) \<longrightarrow> cs_lookup (h' (?ps ! j)) k = cs_lookup (h (?ps ! j)) k"
    "\<forall>j < length ?ps. \<forall>e \<in> set ?es. cs_lookup (h' (?ps ! j)) (eidx e)
          = Some (func e (map (\<lambda>p. the (cs_lookup (h p) (eidx e))) ?ps) ! j)"
    using forEachLoop_spec [OF inv assms(3) dist has, of func] assms(4) by blast
  have "cs_lookup (h' (?ps ! j)) (eidx e) = cs_lookup (h (?ps ! j)) (eidx e)"
    if "j < length ?ps" "entity_version e = 0" "\<not> q_matches q h e" for j e
  proof -
    have "\<forall>x \<in> set ?es. eidx x \<noteq> eidx e"
      using that(2,3) es(2) by (metis (mono_tags, lifting) entity_eq_iff mem_Collect_eq)
    then show ?thesis using h'l(1) that(1) by blast
  qed
  then show ?thesis
    using q'(1) h' h'l inv' es(2) by (intro exI [of _ q'] exI [of _ h']) (simp add: q_ForEach_def)
qed

section \<open>Properties\<close>

text \<open>(C1) A query never shows a stale or wrong result: after any interleaving of pool
  operations (add, replace, remove, clear, mark-changed, writes through references),
  exclusions and cache refreshes, as long as fewer than \<open>2^32\<close> operations separate any
  version counter from wrapping, the next refresh succeeds and the entity list enumerates
  exactly the ids all include pools and no exclude pool hold, each once.\<close>

theorem query_cache_coherent:
  assumes "\<forall>p. cs_inv (h p)" and "ps \<noteq> []"
    and "q_room (length ops) (mkQuery ps, h)"
    and "q_run ops (mkQuery ps, h) = Some (q, h')"
  shows "\<exists>q'. RefreshCache q h' = Some q' \<and> distinct (q_cachedEntities q')
           \<and> set (q_cachedEntities q') = {e. q_matches q h' e \<and> entity_version e = 0}"
proof -
  have "q_sound (mkQuery ps, h)" using assms(1,2) by (simp add: q_sound_def mkQuery_def)
  then have s: "q_sound (q, h')" "q_room 0 (q, h')"
    using q_run_sound [of "(mkQuery ps, h)" ops 0 "(q, h')"] assms(3,4) by simp_all
  have len: "length (q_storages q) + length (q_excludes q) \<le> 4294967296"
    using s(2) by (simp add: q_room_def)
  obtain q' where q': "RefreshCache q h' = Some q'" "q_storages q' = q_storages q"
    "q_excludes q' = q_excludes q" "q_exact q' h' (q_cachedEntities q')"
    using RefreshCache_sound [OF s(1) len] by metis
  then show ?thesis by (auto simp: q_exact_def q_matches_def)
qed

theorem query_cache_coherent_witness:
  "\<exists>q'. RefreshCache (mkQuery [0]) ((\<lambda>_. emptyStorage)(0 := the (cs_Add (mkEntity 5 0) ''pos'' emptyStorage)))
          = Some q' \<and> q_cachedEntities q' = [mkEntity 5 0]"
proof -
  have "(5 :: u32) \<le> kMaxId" by (simp add: word_le_nat_alt unat_kMaxId)
  then obtain s where add: "cs_Add (mkEntity 5 0) ''pos'' emptyStorage = Some s"
    and has: "\<And>e. cs_Has s e \<longleftrightarrow> entity_id e = 5"
    by (metis one_component_pool)
  let ?h' = "(\<lambda>_ :: nat. emptyStorage)(0 := s)"
  have run: "q_run [QPool 0 (PAdd (mkEntity 5 0) ''pos'')] (mkQuery [0], \<lambda>_. emptyStorage) = Some (mkQuery [0], ?h')"
    using add by simp
  have room: "q_room (length [QPool 0 (PAdd (mkEntity 5 0) ''pos'')]) (mkQuery [0], \<lambda>_. emptyStorage)"
    by (simp add: q_room_def emptyStorage_def mkQuery_def)
  obtain q' where q': "RefreshCache (mkQuery [0]) ?h' = Some q'" "distinct (q_cachedEntities q')"
    "set (q_cachedEntities q') = {e. q_matches (mkQuery [0]) ?h' e \<and> entity_version e = 0}"
    using query_cache_coherent [OF _ _ room run] by auto
  have "set (q_cachedEntities q') = {mkEntity 5 0}"
    unfolding q'(3) by (auto simp: q_matches_def mkQuery_def has entity_eq_iff [of _ "mkEntity 5 0"])
  then have "q_cachedEntities q' = [mkEntity 5 0]"
    using q'(2) by (rule distinct_singleton_list [rotated])
  then show ?thesis using q'(1) add by auto
qed

text \<open>(C12) \<^verbatim>\<open>ForEach\<close> calls the callback exactly once per matching entity, with that entity's
  components; afterwards component \<open>j\<close> of every matching entity is what the callback left in
  its \<open>j\<close>-th reference, and every other component of every pool is unchanged.\<close>

theorem query_foreach_updates_matches:
  assumes "q_sound (q, h)" and "length (q_storages q) + length (q_excludes q) \<le> 4294967296"
    and "distinct (q_storages q)"
    and "\<And>e cs. length cs = length (q_storages q) \<Longrightarrow> length (func e cs) = length (q_storages q)"
  shows "\<exists>q' h'. q_ForEach func q h = Some (q', h')
    \<and> (\<forall>p. p \<notin> set (q_storages q) \<longrightarrow> h' p = h p)
    \<and> (\<forall>j < length (q_storages q). \<forall>e. entity_version e = 0 \<longrightarrow>
         cs_lookup (h' (q_storages q ! j)) (unat (entity_id e)) =
           (if q_matches q h e
            then Some (func e (map (\<lambda>p. the (cs_lookup (h p) (unat (entity_id e)))) (q_storages q)) ! j)
            else cs_lookup (h (q_storages q ! j)) (unat (entity_id e))))"
  using q_ForEach_spec [where func = func, OF assms] by blast

theorem query_foreach_updates_matches_witness:
  "\<exists>q' h'. q_ForEach (\<lambda>e cs. map Suc cs) (mkQuery [0])
       ((\<lambda>_. emptyStorage)(0 := the (cs_Add (mkEntity 5 0) (41 :: nat) emptyStorage))) = Some (q', h')
     \<and> cs_lookup (h' 0) 5 = Some 42"
proof -
  have "(5 :: u32) \<le> kMaxId" by (simp add: word_le_nat_alt unat_kMaxId)
  then obtain s where s: "cs_Add (mkEntity 5 0) (41 :: nat) emptyStorage = Some s" "cs_inv s"
    "\<And>e. cs_Has s e \<longleftrightarrow> entity_id e = 5" "cs_lookup s = [unat (5 :: u32) \<mapsto> 41]"
    by (metis one_component_pool)
  let ?h = "(\<lambda>_ :: nat. emptyStorage)(0 := s)"
  have "q_sound (mkQuery [0], ?h)" using s(2) by (simp add: q_sound_def mkQuery_def)
  then obtain q' h' where "q_ForEach (\<lambda>e cs. map Suc cs) (mkQuery [0]) ?h = Some (q', h')"
    "cs_lookup (h' 0) (unat (entity_id (mkEntity 5 0))) = Some 42"
    using query_foreach_updates_matches [of "mkQuery [0]" ?h "\<lambda>e cs. map Suc cs"] s(3,4)
    by (fastforce simp: mkQuery_def q_matches_def dest: spec [of _ "mkEntity 5 0"])
  then show ?thesis using s(1) by auto
qed

text \<open>The handles a query hands out carry version 0 whatever the entity's version is. So for
  a live entity in a recycled slot (version not 0) that matches the query, the enumerated
  handle for its index is not alive and \<^verbatim>\<open>EntityManager::Destroy\<close> on it does nothing.\<close>

theorem query_handles_lose_version:
  assumes "q_sound (q, h)" and "length (q_storages q) + length (q_excludes q) \<le> 4294967296"
    and "em_inv m" and "em_IsAlive m x" and "entity_version x \<noteq> 0" and "q_matches q h x"
  shows "\<exists>q'. RefreshCache q h = Some q' \<and> x \<notin> set (q_cachedEntities q')
    \<and> (\<exists>e \<in> set (q_cachedEntities q'). entity_id e = entity_id x \<and> \<not> em_IsAlive m e
         \<and> em_Destroy e (m, h) = (m, h))"
proof -
  obtain q' where q': "RefreshCache q h = Some q'" "q_storages q' = q_storages q"
    "q_excludes q' = q_excludes q" "q_exact q' h (q_cachedEntities q')"
    using RefreshCache_sound [OF assms(1,2)] by metis
  let ?e = "mkEntity (entity_id x) 0"
  have i: "entity_id ?e = entity_id x" by simp
  then have "cs_Has (h p) ?e = cs_Has (h p) x" for p by (rule pool.Has_by_id)
  then have "q_matches q h ?e" using assms(6) by (simp add: q_matches_def)
  then have "?e \<in> set (q_cachedEntities q')" "x \<notin> set (q_cachedEntities q')"
    using q' assms(5) by (auto simp: q_exact_def q_matches_def)
  moreover have "\<not> em_IsAlive m ?e"
    using assms(4,5) i by (auto simp: em_IsAlive_iff [OF assms(3)])
  moreover from this have "em_Destroy ?e (m, h) = (m, h)" by (simp add: em_Destroy_def)
  ultimately show ?thesis using q'(1) i by blast
qed

theorem query_handles_lose_version_witness:
  "let m = \<lparr>em_versions = [1], em_alive = [True], em_freeList = [], em_pendingDestroy = [],
            em_storages = [0], em_count = 1\<rparr>;
       h = (\<lambda>_. emptyStorage)(0 := the (cs_Add (mkEntity 0 1) ''pos'' emptyStorage))
   in em_IsAlive m (mkEntity 0 1) \<and> (\<exists>q'. RefreshCache (mkQuery [0]) h = Some q'
        \<and> mkEntity 0 1 \<notin> set (q_cachedEntities q'))"
proof -
  let ?m = "\<lparr>em_versions = [1], em_alive = [True], em_freeList = [], em_pendingDestroy = [],
            em_storages = [0], em_count = 1\<rparr>"
  have m: "em_inv ?m" by (simp add: em_inv_def)
  then have a: "em_IsAlive ?m (mkEntity 0 1)" by (simp add: em_IsAlive_iff [OF m])
  have "(0 :: u32) \<le> kMaxId" by simp
  then obtain s where s: "cs_Add (mkEntity 0 1) ''pos'' emptyStorage = Some s" "cs_inv s"
    "\<And>e. cs_Has s e \<longleftrightarrow> entity_id e = 0"
    by (metis one_component_pool)
  let ?h = "(\<lambda>_ :: nat. emptyStorage)(0 := s)"
  have "q_sound (mkQuery [0], ?h)" using s(2) by (simp add: q_sound_def mkQuery_def)
  then show ?thesis
    using query_handles_lose_version [of "mkQuery [0]" ?h ?m "mkEntity 0 1"] m a s
    by (auto simp: mkQuery_def q_matches_def)
qed

end
