(* ===== verification/Ieee_Float.thy ===== *)
theory Ieee_Float
  imports Complex_Main "HOL-Library.Log_Nat"
begin

text \<open>
  The part of IEEE 754 arithmetic the sources rely on: a finite \<^verbatim>\<open>float\<close> or \<^verbatim>\<open>double\<close> is
  the rational number it denotes, and every operation is the exact operation followed by
  rounding to nearest, ties to even (\<open>rnd p emin\<close>: precision \<open>p\<close>, smallest quantum
  \<open>2 ^ emin\<close>, so subnormal numbers are included). Infinities, NaNs and the sign of zero are
  not represented: the theorems that use these operations concern values far from overflow.
  Proved here: rounding is monotone, the identity on the representable numbers, and keeps
  every interval whose ends are representable.
\<close>

section \<open>Binary exponent\<close>

definition ilog2 :: "rat \<Rightarrow> int" where
  "ilog2 x = (case quotient_of x of (n, d) \<Rightarrow>
     let k = bitlen n - bitlen d in if x < 2 powi k then k - 1 else k)"

lemma two_powi_pos [simp]: "0 < (2 :: rat) powi k"
  by (simp add: zero_less_power_int)

lemma two_powi_less_iff [simp]: "(2 :: rat) powi a < 2 powi b \<longleftrightarrow> a < b"
  using power_int_strict_increasing [of a b "2 :: rat"] power_int_increasing [of b a "2 :: rat"]
  by force

lemma two_powi_le_iff [simp]: "(2 :: rat) powi a \<le> 2 powi b \<longleftrightarrow> a \<le> b"
  using two_powi_less_iff [of b a] by (simp add: not_less [symmetric] del: two_powi_less_iff)

lemma two_powi_add: "(2 :: rat) powi (a + b) = 2 powi a * 2 powi b"
  by (simp add: power_int_add)

lemma ilog2_bounds:
  assumes "0 < x"
  shows "2 powi ilog2 x \<le> x" "x < 2 powi (ilog2 x + 1)"
proof -
  obtain n d where nd: "quotient_of x = (n, d)" by (cases "quotient_of x")
  then have x: "x = of_int n / of_int d" and d: "0 < d"
    by (auto simp: quotient_of_div quotient_of_denom_pos)
  from assms x d have n: "0 < n" by (simp add: zero_less_divide_iff)
  define k where "k = bitlen n - bitlen d"
  have n1: "2 ^ nat (bitlen n - 1) \<le> n" "n < 2 ^ nat (bitlen n)"
    and d1: "2 ^ nat (bitlen d - 1) \<le> d" "d < 2 ^ nat (bitlen d)"
    using bitlen_bounds [OF n] bitlen_bounds [OF d] by simp_all
  have bp: "0 < bitlen n" "0 < bitlen d"
    using n d by (simp_all add: bitlen_alt_def)
  have q: "(2 :: rat) powi (bitlen n - 1) \<le> of_int n" "of_int n < (2 :: rat) powi bitlen n"
    "(2 :: rat) powi (bitlen d - 1) \<le> of_int d" "of_int d < (2 :: rat) powi bitlen d"
  proof -
    have "(2 :: rat) powi m = of_int (2 ^ nat m)" if "0 \<le> m" for m
      using that by (simp add: power_int_def)
    with n1 d1 bp show "(2 :: rat) powi (bitlen n - 1) \<le> of_int n"
      "of_int n < (2 :: rat) powi bitlen n"
      "(2 :: rat) powi (bitlen d - 1) \<le> of_int d" "of_int d < (2 :: rat) powi bitlen d"
      by (simp_all only: of_int_le_iff of_int_less_iff)
  qed
  have "(2 :: rat) powi (k - 1) * of_int d \<le> 2 powi (k - 1) * 2 powi bitlen d"
    using q(4) by (intro mult_left_mono) auto
  also have "\<dots> = 2 powi (bitlen n - 1)"
    by (simp add: k_def flip: two_powi_add)
  finally have lo: "2 powi (k - 1) \<le> x"
    using q(1) d by (simp add: x pos_le_divide_eq)
  have "(2 :: rat) powi bitlen n = 2 powi (k + 1) * 2 powi (bitlen d - 1)"
    by (simp add: k_def flip: two_powi_add)
  also have "\<dots> \<le> 2 powi (k + 1) * of_int d"
    using q(3) by (intro mult_left_mono) auto
  finally have hi: "x < 2 powi (k + 1)"
    using q(2) d by (simp add: x pos_divide_less_eq)
  show "2 powi ilog2 x \<le> x" "x < 2 powi (ilog2 x + 1)"
    using lo hi by (auto simp: ilog2_def nd k_def Let_def)
qed

lemma ilog2_unique:
  assumes "2 powi k \<le> x" "x < 2 powi (k + 1)"
  shows "ilog2 x = k"
proof -
  have "0 < x" using assms(1) by (rule less_le_trans [rotated]) simp
  note b = ilog2_bounds [OF this]
  have "(2 :: rat) powi ilog2 x < 2 powi (k + 1)" using b(1) assms(2) by linarith
  moreover have "(2 :: rat) powi k < 2 powi (ilog2 x + 1)" using b(2) assms(1) by linarith
  ultimately show ?thesis by simp
qed

lemma ilog2_mono: "0 < x \<Longrightarrow> x \<le> y \<Longrightarrow> ilog2 x \<le> ilog2 y"
proof -
  assume "0 < x" "x \<le> y"
  then have "(2 :: rat) powi ilog2 x < 2 powi (ilog2 y + 1)"
    using ilog2_bounds(1) [of x] ilog2_bounds(2) [of y] by linarith
  then show ?thesis by simp
qed

section \<open>Rounding\<close>

definition rne :: "rat \<Rightarrow> int" where
  "rne q = (let f = floor q; r = q - of_int f in
     if r < 1 / 2 then f else if 1 / 2 < r then f + 1 else if even f then f else f + 1)"

lemma rne_of_int [simp]: "rne (of_int i) = i"
  by (simp add: rne_def)

lemma rne_floor: "floor q \<le> rne q" "rne q \<le> floor q + 1"
  by (auto simp: rne_def Let_def)

lemma rne_mono:
  assumes "q \<le> q'"
  shows "rne q \<le> rne q'"
proof (cases "floor q = floor q'")
  case True
  with assms show ?thesis by (auto simp: rne_def Let_def)
next
  case False
  with assms have "floor q + 1 \<le> floor q'" using floor_mono [of q q'] by linarith
  then show ?thesis using rne_floor [of q] rne_floor [of q'] by linarith
qed

lemma rne_ge: "of_int i \<le> q \<Longrightarrow> i \<le> rne q"
  using rne_mono [of "of_int i" q] by simp

lemma rne_le: "q \<le> of_int i \<Longrightarrow> rne q \<le> i"
  using rne_mono [of q "of_int i"] by simp

definition quantum :: "nat \<Rightarrow> int \<Rightarrow> rat \<Rightarrow> int" where
  "quantum p emin x = max emin (ilog2 \<bar>x\<bar> - (int p - 1))"

definition rnd :: "nat \<Rightarrow> int \<Rightarrow> rat \<Rightarrow> rat" where
  "rnd p emin x = (if x = 0 then 0 else
     let e = quantum p emin x in of_int (rne (x / 2 powi e)) * 2 powi e)"

text \<open>A number is representable when it is a multiple of its quantum.\<close>

definition representable :: "nat \<Rightarrow> int \<Rightarrow> rat \<Rightarrow> bool" where
  "representable p emin x \<longleftrightarrow> x = 0 \<or> (\<exists>i. x = of_int i * 2 powi quantum p emin x)"

lemma rnd_representable [simp]: "representable p emin x \<Longrightarrow> rnd p emin x = x"
proof -
  assume r: "representable p emin x"
  show ?thesis
  proof (cases "x = 0")
    case False
    with r obtain i where i: "x = of_int i * 2 powi quantum p emin x"
      by (auto simp: representable_def)
    then have "x / 2 powi quantum p emin x = of_int i" by (simp add: field_simps)
    with i False show ?thesis by (simp add: rnd_def Let_def)
  qed (simp add: rnd_def)
qed

text \<open>A power of two from the quantum up bounds the rounding of every number it bounds.\<close>

lemma rnd_le_power:
  assumes "0 < x" "x \<le> 2 powi k" "emin \<le> k" "quantum p emin x \<le> k"
  shows "rnd p emin x \<le> 2 powi k"
proof -
  define e where "e = quantum p emin x"
  have "x / 2 powi e \<le> 2 powi (k - e)"
    using assms(2) by (simp add: pos_divide_le_eq flip: two_powi_add)
  also have "\<dots> = of_int (2 ^ nat (k - e))"
    using assms(4) by (simp add: e_def power_int_def)
  finally have "rne (x / 2 powi e) \<le> 2 ^ nat (k - e)" by (rule rne_le)
  then have "of_int (rne (x / 2 powi e)) * (2 :: rat) powi e \<le> of_int (2 ^ nat (k - e)) * 2 powi e"
    by (intro mult_right_mono) (simp_all only: of_int_le_iff, simp)
  also have "of_int (2 ^ nat (k - e)) = (2 :: rat) powi (k - e)"
    using assms(4) by (simp add: e_def power_int_def)
  also have "2 powi (k - e) * 2 powi e = (2 :: rat) powi k"
    by (simp flip: two_powi_add)
  finally show ?thesis using assms(1) by (simp add: rnd_def e_def Let_def)
qed

lemma rnd_ge_power:
  assumes "2 powi k \<le> x" "quantum p emin x \<le> k"
  shows "2 powi k \<le> rnd p emin x"
proof -
  define e where "e = quantum p emin x"
  have "0 < x" using assms(1) by (rule less_le_trans [rotated]) simp
  have "of_int (2 ^ nat (k - e)) = (2 :: rat) powi (k - e)"
    using assms(2) by (simp add: e_def power_int_def)
  also have "\<dots> \<le> x / 2 powi e"
    using assms(1) by (simp add: pos_le_divide_eq flip: two_powi_add)
  finally have "2 ^ nat (k - e) \<le> rne (x / 2 powi e)" by (rule rne_ge)
  then have "of_int (2 ^ nat (k - e)) * 2 powi e \<le> of_int (rne (x / 2 powi e)) * (2 :: rat) powi e"
    by (intro mult_right_mono) (simp_all only: of_int_le_iff, simp)
  also have "of_int (2 ^ nat (k - e)) = (2 :: rat) powi (k - e)"
    using assms(2) by (simp add: e_def power_int_def)
  also have "(2 :: rat) powi (k - e) * 2 powi e = (2 :: rat) powi k"
    by (simp flip: two_powi_add)
  finally show ?thesis using \<open>0 < x\<close> by (simp add: rnd_def e_def Let_def)
qed

lemma quantum_mono: "0 < x \<Longrightarrow> x \<le> y \<Longrightarrow> quantum p emin x \<le> quantum p emin y"
  using ilog2_mono [of x y] by (simp add: quantum_def)

lemma rnd_nonneg: "0 \<le> x \<Longrightarrow> 0 \<le> rnd p emin x"
proof -
  assume "0 \<le> x"
  then have "0 \<le> rne (x / 2 powi quantum p emin x)"
    by (intro rne_ge) (simp add: zero_le_divide_iff)
  then show ?thesis by (simp add: rnd_def Let_def)
qed

lemma rnd_mono_pos:
  assumes p: "0 < p" and x: "0 < x" and xy: "x \<le> y"
  shows "rnd p emin x \<le> rnd p emin y"
proof (cases "quantum p emin x = quantum p emin y")
  case True
  have "rne (x / 2 powi quantum p emin y) \<le> rne (y / 2 powi quantum p emin y)"
    using xy by (intro rne_mono divide_right_mono) auto
  with True x xy show ?thesis
    by (simp add: rnd_def Let_def mult_right_mono)
next
  case False
  then have less: "quantum p emin x < quantum p emin y"
    using quantum_mono [OF x xy, of p emin] by simp
  define k where "k = ilog2 y"
  have y: "0 < y" using x xy by simp
  have qy: "quantum p emin y = k - (int p - 1)" "emin < k - (int p - 1)"
    using less y by (auto simp: quantum_def k_def max_def split: if_splits)
  have "ilog2 x < k"
    using less x y by (auto simp: quantum_def k_def max_def split: if_splits)
  then have "x \<le> 2 powi k"
    using ilog2_bounds(2) [OF x] two_powi_le_iff [of "ilog2 x + 1" k] by linarith
  then have "rnd p emin x \<le> 2 powi k"
    using x qy p less by (intro rnd_le_power) auto
  also have "\<dots> \<le> rnd p emin y"
    using ilog2_bounds(1) [OF y] qy p by (intro rnd_ge_power) (auto simp: k_def)
  finally show ?thesis .
qed

lemma rnd_mono_nonneg:
  "0 < p \<Longrightarrow> 0 \<le> x \<Longrightarrow> x \<le> y \<Longrightarrow> rnd p emin x \<le> rnd p emin y"
  using rnd_mono_pos [of p x y emin] rnd_nonneg [of y p emin]
  by (cases "x = 0") (auto simp: rnd_def)

lemma rnd_between:
  assumes "0 < p" "representable p emin b" "0 \<le> x" "x \<le> b"
  shows "0 \<le> rnd p emin x \<and> rnd p emin x \<le> b"
  using rnd_mono_nonneg [OF assms(1,3,4), of emin] assms rnd_nonneg by simp

text \<open>Integers up to \<open>2 ^ p\<close> are representable.\<close>

lemma representable_int:
  assumes "0 < p" "emin \<le> 0" "0 \<le> n" "n < 2 ^ p"
  shows "representable p emin (of_int n)"
proof (cases "n = 0")
  case False
  with assms have n: "0 < (of_int n :: rat)" by simp
  have "(of_int n :: rat) < 2 powi int p"
  proof -
    have "(of_int n :: rat) < of_int (2 ^ p)" using assms(4) by (simp only: of_int_less_iff)
    then show ?thesis by simp
  qed
  with ilog2_bounds(1) [OF n] have "(2 :: rat) powi ilog2 (of_int n) < 2 powi int p"
    by linarith
  then have "ilog2 (of_int n) < int p" by (simp only: two_powi_less_iff)
  then have q: "quantum p emin (of_int n) \<le> 0"
    using assms n by (simp add: quantum_def)
  have "(of_int n :: rat) = of_int (n * 2 ^ nat (- quantum p emin (of_int n)))
      * 2 powi quantum p emin (of_int n)"
    using q by (simp add: power_int_def field_simps)
  then show ?thesis unfolding representable_def by blast
qed (simp add: representable_def)

lemma representable_multiple:
  assumes "y = of_int i * 2 powi e" "quantum p emin y \<le> e"
  shows "representable p emin y"
proof -
  have "(2 :: rat) powi e = 2 powi (e - quantum p emin y) * 2 powi quantum p emin y"
    by (simp flip: two_powi_add)
  also have "(2 :: rat) powi (e - quantum p emin y) = of_int (2 ^ nat (e - quantum p emin y))"
    using assms(2) by (simp add: power_int_def)
  finally have "y = of_int (i * 2 ^ nat (e - quantum p emin y)) * 2 powi quantum p emin y"
    by (subst assms(1)) (simp only: of_int_mult mult.assoc)
  then show ?thesis unfolding representable_def by blast
qed

text \<open>Rounding produces a representable number.\<close>

lemma representable_rnd:
  assumes p: "0 < p" and x: "0 \<le> x"
  shows "representable p emin (rnd p emin x)"
proof (cases "rnd p emin x = 0")
  case False
  define e where "e = quantum p emin x"
  define i where "i = rne (x / 2 powi e)"
  from False x have x': "0 < x" by (cases "x = 0") (auto simp: rnd_def)
  then have y: "rnd p emin x = of_int i * 2 powi e" by (simp add: rnd_def Let_def e_def i_def)
  have pos: "0 < rnd p emin x" using False rnd_nonneg [OF x, of p emin] by simp
  then have "1 \<le> i" using y two_powi_pos [of e] by (auto simp: zero_less_mult_iff simp del: two_powi_pos)
  then have ge: "2 powi e \<le> rnd p emin x" using y by simp
  define k where "k = ilog2 x"
  show ?thesis
  proof (cases "rnd p emin x < 2 powi (k + 1)")
    case True
    then have "(2 :: rat) powi ilog2 (rnd p emin x) < 2 powi (k + 1)"
      using ilog2_bounds(1) [OF pos] by linarith
    then have "quantum p emin (rnd p emin x) \<le> e"
      using pos x' by (simp add: quantum_def e_def k_def)
    with y show ?thesis by (rule representable_multiple)
  next
    case big: False
    show ?thesis
    proof (cases "e \<le> k + 1")
      case True
      then have "rnd p emin x \<le> 2 powi (k + 1)"
        using ilog2_bounds(2) [OF x'] x' by (intro rnd_le_power) (auto simp: k_def e_def quantum_def)
      with big have eq: "rnd p emin x = of_int 1 * 2 powi (k + 1)" by simp
      have "ilog2 (rnd p emin x) = k + 1" using eq by (intro ilog2_unique) auto
      then have "quantum p emin (rnd p emin x) \<le> k + 1"
        using True p pos by (simp add: quantum_def e_def)
      with eq show ?thesis by (rule representable_multiple)
    next
      case False
      then have "(2 :: rat) powi (k + 1) < 2 powi e" by simp
      then have "x < 2 powi e" using ilog2_bounds(2) [OF x'] unfolding k_def by linarith
      then have "x / 2 powi e < 1" by (simp add: pos_divide_less_eq)
      then have "i \<le> 1" unfolding i_def by (intro rne_le) simp
      with \<open>1 \<le> i\<close> y have eq: "rnd p emin x = of_int 1 * 2 powi e" by simp
      have "ilog2 (rnd p emin x) = e" using eq by (intro ilog2_unique) auto
      then have "quantum p emin (rnd p emin x) \<le> e"
        using p pos by (simp add: quantum_def e_def)
      with eq show ?thesis by (rule representable_multiple)
    qed
  qed
qed (simp add: representable_def)

text \<open>Subtracting at least one quantum takes the rounded result down by a quantum.\<close>

lemma rnd_diff_le:
  assumes p: "0 < p" and acc: "representable p emin acc" "0 < acc"
    and step: "2 powi quantum p emin acc \<le> step" "step \<le> acc"
  shows "rnd p emin (acc - step) \<le> acc - 2 powi quantum p emin acc"
proof -
  define q where "q = quantum p emin acc"
  obtain i where i: "acc = of_int i * 2 powi q"
    using acc by (auto simp: representable_def q_def)
  have pr: "acc - 2 powi q = of_int (i - 1) * 2 powi q" using i by (simp add: field_simps)
  have nn: "0 \<le> acc - 2 powi q" using step by (simp add: q_def)
  have "representable p emin (acc - 2 powi q)"
  proof (cases "acc - 2 powi q = 0")
    case False
    then have "quantum p emin (acc - 2 powi q) \<le> q"
      unfolding q_def using nn by (intro quantum_mono) (auto simp: q_def)
    with pr show ?thesis by (rule representable_multiple)
  qed (simp add: representable_def)
  then show ?thesis
    using rnd_between [OF p, of emin "acc - 2 powi q" "acc - step"] step by (simp add: q_def)
qed

text \<open>The rounding error is at most half a quantum.\<close>

lemma rne_error: "\<bar>of_int (rne q) - q\<bar> \<le> 1 / 2"
proof -
  have "0 \<le> q - of_int (floor q)" "q - of_int (floor q) < 1" by linarith+
  then show ?thesis by (auto simp: rne_def Let_def abs_le_iff)
qed

lemma rnd_error:
  assumes "0 < x"
  shows "\<bar>rnd p emin x - x\<bar> \<le> 2 powi quantum p emin x / 2"
proof -
  define e where "e = quantum p emin x"
  have "\<bar>of_int (rne (x / 2 powi e)) - x / 2 powi e\<bar> * 2 powi e \<le> 1 / 2 * 2 powi e"
    using rne_error by (intro mult_right_mono) auto
  moreover have "(of_int (rne (x / 2 powi e)) - x / 2 powi e) * 2 powi e = rnd p emin x - x"
    using assms by (simp add: rnd_def Let_def e_def left_diff_distrib)
  then have "\<bar>rnd p emin x - x\<bar> = \<bar>of_int (rne (x / 2 powi e)) - x / 2 powi e\<bar> * 2 powi e"
    by (metis abs_mult abs_of_pos two_powi_pos)
  ultimately show ?thesis by (simp add: e_def)
qed

lemma rnd_le_relative:
  assumes "0 \<le> x"
  shows "rnd p emin x \<le> x + x * 2 powi (- int p) + 2 powi (emin - 1)"
proof (cases "x = 0")
  case False
  with assms have x: "0 < x" by simp
  have half: "(2 :: rat) powi k / 2 = 2 powi (k - 1)" for k
    by (simp add: power_int_diff)
  have "2 powi quantum p emin x / 2 \<le> x * 2 powi (- int p) + 2 powi (emin - 1)"
  proof (cases "quantum p emin x = emin")
    case True
    then show ?thesis using x by (simp add: half)
  next
    case False
    then have "quantum p emin x - 1 = ilog2 x + - int p" using x by (auto simp: quantum_def)
    then have "(2 :: rat) powi quantum p emin x / 2 = 2 powi ilog2 x * 2 powi (- int p)"
      by (simp only: half two_powi_add)
    also have "\<dots> \<le> x * 2 powi (- int p)"
      using ilog2_bounds(1) [OF x] by (intro mult_right_mono) auto
    finally show ?thesis using two_powi_pos [of "emin - 1"] by linarith
  qed
  then show ?thesis using rnd_error [OF x, of p emin] by linarith
qed (simp add: rnd_def)

section \<open>The two formats\<close>

definition f64 :: "rat \<Rightarrow> rat" where "f64 = rnd 53 (- 1074)"
definition f32 :: "rat \<Rightarrow> rat" where "f32 = rnd 24 (- 149)"

abbreviation is_f64 :: "rat \<Rightarrow> bool" where "is_f64 \<equiv> representable 53 (- 1074)"
abbreviation is_f32 :: "rat \<Rightarrow> bool" where "is_f32 \<equiv> representable 24 (- 149)"

lemma f64_id [simp]: "is_f64 x \<Longrightarrow> f64 x = x"
  by (simp add: f64_def)

lemma f32_id [simp]: "is_f32 x \<Longrightarrow> f32 x = x"
  by (simp add: f32_def)

lemma f64_mono: "0 \<le> x \<Longrightarrow> x \<le> y \<Longrightarrow> f64 x \<le> f64 y"
  by (simp add: f64_def rnd_mono_nonneg)

lemma f32_mono: "0 \<le> x \<Longrightarrow> x \<le> y \<Longrightarrow> f32 x \<le> f32 y"
  by (simp add: f32_def rnd_mono_nonneg)

lemma f64_nonneg: "0 \<le> x \<Longrightarrow> 0 \<le> f64 x"
  by (simp add: f64_def rnd_nonneg)

lemma f64_le: "is_f64 b \<Longrightarrow> 0 \<le> x \<Longrightarrow> x \<le> b \<Longrightarrow> f64 x \<le> b"
  using f64_mono [of x b] by simp

lemma f64_ge: "is_f64 b \<Longrightarrow> 0 \<le> b \<Longrightarrow> b \<le> x \<Longrightarrow> b \<le> f64 x"
  using f64_mono [of b x] by simp

lemma is_f64_int: "0 \<le> n \<Longrightarrow> n < 2 ^ 53 \<Longrightarrow> is_f64 (of_int n)"
  by (rule representable_int) auto

lemma is_f32_int: "0 \<le> n \<Longrightarrow> n < 2 ^ 24 \<Longrightarrow> is_f32 (of_int n)"
  by (rule representable_int) auto

lemma is_f64_nat: "n < 2 ^ 53 \<Longrightarrow> is_f64 (of_nat n)"
  using is_f64_int [of "int n"] by (simp add: of_nat_less_iff flip: of_nat_power)

lemma is_f64_0 [simp]: "is_f64 0" and is_f64_1 [simp]: "is_f64 1"
  using is_f64_int [of 0] is_f64_int [of 1] by simp_all

lemma f64_zero [simp]: "f64 0 = 0"
  by (simp add: f64_def rnd_def)

lemma f32_zero [simp]: "f32 0 = 0"
  by (simp add: f32_def rnd_def)

lemma is_f64_f64: "0 \<le> x \<Longrightarrow> is_f64 (f64 x)"
  unfolding f64_def by (rule representable_rnd) auto

lemma f64_upper: "0 \<le> x \<Longrightarrow> f64 x \<le> x + x / 2 ^ 53 + 1 / 2 ^ 100"
proof -
  assume x: "0 \<le> x"
  have "f64 x \<le> x + x * 2 powi (- 53) + 2 powi (- 1075)"
    using rnd_le_relative [OF x, of 53 "- 1074"] by (simp add: f64_def)
  also have "(2 :: rat) powi (- 1075) \<le> 2 powi (- 100)" by (subst two_powi_le_iff) simp
  also have "(2 :: rat) powi (- 100) = 1 / 2 ^ 100" by (simp add: power_int_def power_one_over)
  also have "x * (2 :: rat) powi (- 53) = x / 2 ^ 53" by (simp add: power_int_def power_one_over)
  finally show ?thesis by simp
qed

lemma rne_uminus: "rne (- q) = - rne q"
proof (cases "q = of_int (floor q)")
  case True
  then show ?thesis by (metis rne_of_int of_int_minus)
next
  case False
  then have "floor (- q) = - floor q - 1"
    by (smt (verit) ceiling_altdef ceiling_def)
  moreover from this have "even (floor (- q)) \<longleftrightarrow> odd (floor q)" by simp
  ultimately show ?thesis by (auto simp: rne_def Let_def field_simps)
qed

lemma f32_uminus: "f32 (- x) = - f32 x"
  by (simp add: f32_def rnd_def quantum_def Let_def rne_uminus flip: minus_divide_left)

lemma f32_nonneg: "0 \<le> x \<Longrightarrow> 0 \<le> f32 x"
  by (simp add: f32_def rnd_nonneg)

lemma f32_le: "is_f32 b \<Longrightarrow> 0 \<le> x \<Longrightarrow> x \<le> b \<Longrightarrow> f32 x \<le> b"
  using f32_mono [of x b] by simp

lemma f32_ge: "is_f32 b \<Longrightarrow> 0 \<le> b \<Longrightarrow> b \<le> x \<Longrightarrow> b \<le> f32 x"
  using f32_mono [of b x] by simp

lemma is_f32_1 [simp]: "is_f32 1"
  using is_f32_int [of 1] by simp

lemma is_f32_pos_ge: "is_f32 x \<Longrightarrow> 0 < x \<Longrightarrow> 2 powi (- 149) \<le> x"
proof -
  assume x: "is_f32 x" "0 < x"
  then obtain i where i: "x = of_int i * 2 powi quantum 24 (- 149) x" by (auto simp: representable_def)
  with x(2) have "0 < i" by (metis of_int_0_less_iff two_powi_pos zero_less_mult_pos2)
  then have "1 * (2 :: rat) powi quantum 24 (- 149) x \<le> of_int i * 2 powi quantum 24 (- 149) x"
    by (intro mult_right_mono) (auto simp: less_imp_le)
  moreover have "(2 :: rat) powi (- 149) \<le> 2 powi quantum 24 (- 149) x"
    by (simp only: two_powi_le_iff) (simp add: quantum_def)
  ultimately show ?thesis using i by linarith
qed

text \<open>Adding a step to a number of at most \<open>2 ^ 22\<close> times its size is off by at most half a step.\<close>

lemma f32_error_step:
  assumes "2 powi (- 149) \<le> d" and "\<bar>x\<bar> \<le> 2 ^ 22 * d"
  shows "\<bar>f32 x - x\<bar> \<le> d / 2"
proof -
  have d: "0 < d" using assms(1) two_powi_pos [of "- 149"] by linarith
  have pos: "\<bar>f32 y - y\<bar> \<le> d / 2" if y: "0 < y" "y \<le> 2 ^ 22 * d" for y
  proof -
    have "2 powi (ilog2 y - 23) \<le> y * 2 powi (- 23)"
      using ilog2_bounds(1) [OF y(1)] two_powi_add [of "ilog2 y" "- 23"] by (simp add: mult_right_mono)
    also have "\<dots> \<le> d" using y(2) d by (simp add: power_int_minus field_simps)
    finally have "2 powi quantum 24 (- 149) y \<le> d"
      using assms(1) y(1) by (simp add: quantum_def max_def)
    then show ?thesis using rnd_error [OF y(1), of 24 "- 149"] by (simp add: f32_def)
  qed
  consider "x = 0" | "0 < x" | "x < 0" by linarith
  then show ?thesis
  proof cases
    case 3
    then show ?thesis using pos [of "- x"] assms(2) by (simp add: f32_uminus abs_minus_commute)
  qed (use pos [of x] assms(2) d in auto)
qed

section \<open>Square roots\<close>

text \<open>The integer square root, two bits at a time.\<close>

fun isqrt :: "nat \<Rightarrow> nat" where
  "isqrt n = (if n = 0 then 0 else let r = 2 * isqrt (n div 4) in if (r + 1) * (r + 1) \<le> n then r + 1 else r)"

declare isqrt.simps [simp del]

lemma isqrt_bounds: "isqrt n * isqrt n \<le> n \<and> n < (isqrt n + 1) * (isqrt n + 1)"
proof (induction n rule: isqrt.induct)
  case (1 n)
  show ?case
  proof (cases "n = 0")
    case False
    define q where "q = isqrt (n div 4)"
    have q: "q * q \<le> n div 4" "n div 4 < (q + 1) * (q + 1)" using 1 [OF False] by (simp_all add: q_def)
    have lo: "2 * q * (2 * q) \<le> n" using q(1) by simp
    have "n div 4 + 1 \<le> (q + 1) * (q + 1)" using q(2) by simp
    then have "4 * (n div 4) + 4 \<le> 4 * ((q + 1) * (q + 1))" by simp
    moreover have "n < 4 * (n div 4) + 4" by simp
    moreover have "4 * ((q + 1) * (q + 1)) = (2 * q + 1 + 1) * (2 * q + 1 + 1)" by (simp add: algebra_simps)
    ultimately have hi: "n < (2 * q + 1 + 1) * (2 * q + 1 + 1)" by linarith
    have "isqrt n = (if (2 * q + 1) * (2 * q + 1) \<le> n then 2 * q + 1 else 2 * q)"
      using False by (subst isqrt.simps) (simp only: q_def Let_def if_False)
    then show ?thesis using lo hi by (simp split: if_splits)
  qed (subst isqrt.simps, simp)+
qed

lemma isqrt_unique: "r * r \<le> n \<Longrightarrow> n < (r + 1) * (r + 1) \<Longrightarrow> isqrt n = r"
proof -
  assume a: "r * r \<le> n" "n < (r + 1) * (r + 1)"
  have b: "isqrt n * isqrt n \<le> n" "n < (isqrt n + 1) * (isqrt n + 1)" using isqrt_bounds [of n] by simp_all
  have "\<not> isqrt n < r" using mult_le_mono [of "isqrt n + 1" r "isqrt n + 1" r] a(1) b(2) by linarith
  moreover have "\<not> r < isqrt n" using mult_le_mono [of "r + 1" "isqrt n" "r + 1" "isqrt n"] a(2) b(1) by linarith
  ultimately show ?thesis by simp
qed

text \<open>\<^verbatim>\<open>std::sqrt\<close> on a \<^verbatim>\<open>float\<close>. Scaled by \<open>4^200\<close>, a positive single-precision number is an integer with a
  root of more than 120 bits; when that root is not exact, half a unit more stands for the rest,
  which rounding to 24 bits cannot distinguish from the true root.\<close>

definition f32_sqrt :: "rat \<Rightarrow> rat" where
  "f32_sqrt x =
     (let n = nat (floor (x * 4 ^ 200)); s = isqrt n
      in f32 ((of_nat s + (if s * s = n then 0 else 1 / 2)) / 2 ^ 200))"

lemma isqrt_0 [simp]: "isqrt 0 = 0"
  by (rule isqrt_unique) simp_all

lemma f32_sqrt_zero [simp]: "f32_sqrt 0 = 0"
  unfolding f32_sqrt_def mult_zero_left floor_zero nat_0 isqrt_0 Let_def by simp

lemma isqrt_square: "isqrt (r * r) = r"
  by (rule isqrt_unique) simp_all

lemma f32_sqrt_square:
  assumes "is_f32 (of_nat m)"
  shows "f32_sqrt (of_nat m * of_nat m) = of_nat m"
proof -
  have four: "(4 :: rat) ^ k = 2 ^ k * 2 ^ k" for k by (simp flip: power_mult_distrib)
  have scaled: "(of_nat m * of_nat m :: rat) * 4 ^ k = of_nat ((m * 2 ^ k) * (m * 2 ^ k))" for k
    unfolding four by simp
  have f: "nat (floor ((of_nat m * of_nat m :: rat) * 4 ^ k)) = (m * 2 ^ k) * (m * 2 ^ k)" for k
    unfolding scaled by (simp only: floor_of_nat nat_int)
  have d: "(of_nat (m * 2 ^ k) + 0) / 2 ^ k = (of_nat m :: rat)" for k by simp
  show ?thesis
    unfolding f32_sqrt_def f Let_def isqrt_square simp_thms if_True d using assms by (rule f32_id)
qed

end
