(* ===== verification/Ecs_Scheduler.thy ===== *)
theory Ecs_Scheduler
  imports Prelude Ieee_Float "HOL-Library.Multiset"
begin

text \<open>
  The system scheduler (\<^verbatim>\<open>ecs/system_scheduler.hpp\<close>, \<^verbatim>\<open>ecs/system_scheduler/system_scheduler.cpp\<close>):
  registration, dependencies, Kahn's topological sort per stage, the grouping of
  non-conflicting systems into parallel batches, and staged execution.

  A system object is the value of its three \<^verbatim>\<open>const\<close> virtual functions (\<open>ISystem\<close>); what its
  \<^verbatim>\<open>Execute\<close> does to the game world is the parameter \<open>run\<close> of the execution functions. The
  parallel executor is a function on lists of tasks. \<open>None\<close> as the result of an operation
  means that the C++ call does not return: a loop that never ends, or the
  \<^verbatim>\<open>std::out_of_range\<close> of \<^verbatim>\<open>unordered_map::at\<close>.
\<close>

section \<open>Data\<close>

type_synonym SystemTypeId = u32

datatype SystemStage = PreUpdate | Update | PostUpdate | FixedUpdate

record SystemAccessInfo =
  ai_reads :: "u32 list"
  ai_writes :: "u32 list"

definition ConflictsWith :: "SystemAccessInfo \<Rightarrow> SystemAccessInfo \<Rightarrow> bool" where
  "ConflictsWith self other =
    (if (ai_reads self = [] \<and> ai_writes self = []) \<or> (ai_reads other = [] \<and> ai_writes other = [])
     then True
     else if list_ex (\<lambda>w. w \<in> set (ai_writes other)) (ai_writes self) then True
     else if list_ex (\<lambda>w. w \<in> set (ai_reads other)) (ai_writes self) then True
     else if list_ex (\<lambda>r. r \<in> set (ai_writes other)) (ai_reads self) then True
     else False)"

record ISystem =
  is_GetName :: string
  is_GetStage :: SystemStage
  is_GetAccessInfo :: SystemAccessInfo

record SystemEntry =
  se_instance :: ISystem
  se_typeId :: SystemTypeId
  se_stage :: SystemStage
  se_enabled :: bool

type_synonym 'w task = "'w \<Rightarrow> 'w"
type_synonym 'w ParallelExecutor = "'w task list \<Rightarrow> 'w \<Rightarrow> 'w"

record 'w SystemScheduler =
  ss_systems :: "(SystemTypeId, SystemEntry) umap"
  ss_stageGroups :: "(SystemStage, SystemTypeId list) umap"
  ss_dependencies :: "(SystemTypeId, SystemTypeId list) umap"
  ss_reverseDeps :: "(SystemTypeId, SystemTypeId list) umap"
  ss_executionOrder :: "(SystemStage, SystemTypeId list) umap"
  ss_parallelBatches :: "(SystemStage, SystemTypeId list list) umap"
  ss_syncPoints :: "SystemTypeId list"
  ss_parallelExecutor :: "'w ParallelExecutor option"
  ss_parallelEnabled :: bool
  ss_built :: bool
  ss_lastError :: string
  ss_fixedTimeStep :: rat
  ss_fixedTimeAccumulator :: rat

definition emptyScheduler :: "'w SystemScheduler" where
  "emptyScheduler = \<lparr>ss_systems = [], ss_stageGroups = [], ss_dependencies = [],
     ss_reverseDeps = [], ss_executionOrder = [], ss_parallelBatches = [], ss_syncPoints = [],
     ss_parallelExecutor = None, ss_parallelEnabled = False, ss_built = False,
     ss_lastError = [], ss_fixedTimeStep = f32 (1 / 60), ss_fixedTimeAccumulator = 0\<rparr>"

text \<open>Reading a vector- or set-valued map: a missing key has no elements.\<close>

definition entriesOf :: "('k, 'v list) umap \<Rightarrow> 'k \<Rightarrow> 'v list" where
  "entriesOf m k = (case map_of m k of None \<Rightarrow> [] | Some vs \<Rightarrow> vs)"

lemma entriesOf_update [simp]:
  "entriesOf (AList.update k vs m) k' = (if k' = k then vs else entriesOf m k')"
  by (simp add: entriesOf_def update_conv)

lemma entriesOf_Nil [simp]: "entriesOf [] k = []"
  by (simp add: entriesOf_def)

section \<open>Registration and configuration\<close>

definition ss_Register :: "SystemTypeId \<Rightarrow> ISystem \<Rightarrow> 'w SystemScheduler \<Rightarrow> 'w SystemScheduler" where
  "ss_Register typeId system s =
    (case map_of (ss_systems s) typeId of
       Some _ \<Rightarrow> s
     | None \<Rightarrow>
         (let entry = \<lparr>se_instance = system, se_typeId = typeId,
                       se_stage = is_GetStage system, se_enabled = True\<rparr>
          in s\<lparr>ss_stageGroups := AList.update (se_stage entry)
                 (entriesOf (ss_stageGroups s) (se_stage entry) @ [typeId]) (ss_stageGroups s),
               ss_systems := AList.update typeId entry (ss_systems s),
               ss_built := False\<rparr>))"

definition ss_SystemCount :: "'w SystemScheduler \<Rightarrow> nat" where
  "ss_SystemCount s = length (ss_systems s)"

definition ss_AddDependency ::
  "SystemTypeId \<Rightarrow> SystemTypeId \<Rightarrow> 'w SystemScheduler \<Rightarrow> bool \<times> 'w SystemScheduler" where
  "ss_AddDependency before after s =
    (case (map_of (ss_systems s) before, map_of (ss_systems s) after) of
       (Some b, Some a) \<Rightarrow>
         if se_stage b \<noteq> se_stage a then (False, s)
         else (True, s\<lparr>
           ss_dependencies := AList.update before
             (List.insert after (entriesOf (ss_dependencies s) before)) (ss_dependencies s),
           ss_reverseDeps := AList.update after
             (List.insert before (entriesOf (ss_reverseDeps s) after)) (ss_reverseDeps s),
           ss_built := False\<rparr>)
     | _ \<Rightarrow> (False, s))"

definition ss_SetEnabled :: "SystemTypeId \<Rightarrow> bool \<Rightarrow> 'w SystemScheduler \<Rightarrow> 'w SystemScheduler" where
  "ss_SetEnabled system enabled s =
    (case map_of (ss_systems s) system of
       Some e \<Rightarrow> s\<lparr>ss_systems := AList.update system (e\<lparr>se_enabled := enabled\<rparr>) (ss_systems s)\<rparr>
     | None \<Rightarrow> s)"

definition ss_IsEnabled :: "'w SystemScheduler \<Rightarrow> SystemTypeId \<Rightarrow> bool" where
  "ss_IsEnabled s system =
    (case map_of (ss_systems s) system of Some e \<Rightarrow> se_enabled e | None \<Rightarrow> False)"

definition ss_AddSyncPoint :: "SystemTypeId \<Rightarrow> 'w SystemScheduler \<Rightarrow> 'w SystemScheduler" where
  "ss_AddSyncPoint afterSystem s =
     s\<lparr>ss_syncPoints := List.insert afterSystem (ss_syncPoints s), ss_built := False\<rparr>"

definition ss_SetParallelExecutor ::
  "'w ParallelExecutor option \<Rightarrow> 'w SystemScheduler \<Rightarrow> 'w SystemScheduler" where
  "ss_SetParallelExecutor ex s = s\<lparr>ss_parallelExecutor := ex\<rparr>"

definition ss_EnableParallelExecution :: "bool \<Rightarrow> 'w SystemScheduler \<Rightarrow> 'w SystemScheduler" where
  "ss_EnableParallelExecution enable s = s\<lparr>ss_parallelEnabled := enable\<rparr>"

definition ss_SetFixedTimeStep :: "rat \<Rightarrow> 'w SystemScheduler \<Rightarrow> 'w SystemScheduler option" where
  "ss_SetFixedTimeStep seconds s =
     (if seconds > 0 then Some (s\<lparr>ss_fixedTimeStep := seconds\<rparr>) else None)"

section \<open>Topological sort\<close>

text \<open>\<^verbatim>\<open>inDegree[k]\<close> of the unordered map is a total function: a missing key reads 0.\<close>

definition initInDegree ::
  "'w SystemScheduler \<Rightarrow> SystemTypeId list \<Rightarrow> SystemTypeId \<Rightarrow> u32" where
  "initInDegree s ids = foldl (\<lambda>deg i.
      foldl (\<lambda>deg dep. if dep \<in> set ids then deg(i := deg i + 1) else deg)
        deg (entriesOf (ss_reverseDeps s) i))
    (\<lambda>_. 0) ids"

definition relaxSuccessors ::
  "SystemTypeId list \<Rightarrow> SystemTypeId list \<Rightarrow> (SystemTypeId \<Rightarrow> u32) \<times> SystemTypeId list
    \<Rightarrow> (SystemTypeId \<Rightarrow> u32) \<times> SystemTypeId list" where
  "relaxSuccessors ids succs st = foldl (\<lambda>(deg, ready) successor.
      if successor \<notin> set ids then (deg, ready)
      else (let deg' = deg(successor := deg successor - 1)
            in (deg', if deg' successor = 0 then ready @ [successor] else ready)))
    st succs"

partial_function (option) kahnLoop ::
  "'w SystemScheduler \<Rightarrow> SystemTypeId list \<Rightarrow> SystemTypeId list \<Rightarrow> (SystemTypeId \<Rightarrow> u32)
    \<Rightarrow> SystemTypeId list \<Rightarrow> ((SystemTypeId \<Rightarrow> u32) \<times> SystemTypeId list) option" where
  "kahnLoop s ids ready deg sortedIds =
    (case ready of
       [] \<Rightarrow> Some (deg, sortedIds)
     | current # rest \<Rightarrow>
         (case relaxSuccessors ids (entriesOf (ss_dependencies s) current) (deg, rest) of
            (deg', ready') \<Rightarrow> kahnLoop s ids ready' deg' (sortedIds @ [current])))"

declare kahnLoop.simps [code]

fun joinNames :: "string list \<Rightarrow> string" where
  "joinNames [] = []"
| "joinNames [n] = n"
| "joinNames (n # ns) = n @ '', '' @ joinNames ns"

definition systemName :: "'w SystemScheduler \<Rightarrow> SystemTypeId \<Rightarrow> string option" where
  "systemName s i = map_option (is_GetName \<circ> se_instance) (map_of (ss_systems s) i)"

definition topologicalSort ::
  "SystemTypeId list \<Rightarrow> 'w SystemScheduler
    \<Rightarrow> (bool \<times> SystemTypeId list \<times> 'w SystemScheduler) option" where
  "topologicalSort ids s =
    (let deg0 = initInDegree s ids;
         ready = filter (\<lambda>i. deg0 i = 0) ids
     in case kahnLoop s ids ready deg0 [] of
          None \<Rightarrow> None
        | Some (deg, sortedIds) \<Rightarrow>
            if length sortedIds \<noteq> length ids then
              (case those (map (systemName s) (filter (\<lambda>i. deg i \<noteq> 0) ids)) of
                 None \<Rightarrow> None
               | Some names \<Rightarrow> Some (False, sortedIds, s\<lparr>ss_lastError :=
                   ''Circular dependency detected among systems: ['' @ joinNames names @ '']''\<rparr>))
            else Some (True, sortedIds, s))"

section \<open>Parallel batches\<close>

definition minBatchFor ::
  "SystemTypeId list \<Rightarrow> (SystemTypeId \<rightharpoonup> nat) \<Rightarrow> nat \<Rightarrow> nat" where
  "minBatchFor preds systemBatch minimumBatch =
    foldl (\<lambda>mb pred. case systemBatch pred of Some b \<Rightarrow> max mb (b + 1) | None \<Rightarrow> mb)
      minimumBatch preds"

definition placeSystem ::
  "(SystemTypeId \<Rightarrow> SystemAccessInfo) \<Rightarrow> SystemTypeId \<Rightarrow> nat \<Rightarrow> SystemTypeId list list
    \<Rightarrow> SystemTypeId list list \<times> nat" where
  "placeSystem access sysId minBatch batches =
    (case List.find (\<lambda>b. \<not> list_ex (\<lambda>other. ConflictsWith (access sysId) (access other)) (batches ! b))
            [minBatch..<length batches] of
       Some b \<Rightarrow> (batches[b := batches ! b @ [sysId]], b)
     | None \<Rightarrow> (let padded = batches @ replicate (minBatch - length batches) []
               in (padded @ [[sysId]], length padded)))"

definition batchStep ::
  "'w SystemScheduler \<Rightarrow> (SystemTypeId \<Rightarrow> SystemAccessInfo)
    \<Rightarrow> SystemTypeId list list \<times> (SystemTypeId \<rightharpoonup> nat) \<times> nat \<Rightarrow> SystemTypeId
    \<Rightarrow> SystemTypeId list list \<times> (SystemTypeId \<rightharpoonup> nat) \<times> nat" where
  "batchStep s access st sysId =
    (case st of (batches, systemBatch, minimumBatch) \<Rightarrow>
      (let minBatch = minBatchFor (entriesOf (ss_reverseDeps s) sysId) systemBatch minimumBatch
       in case placeSystem access sysId minBatch batches of (batches', b) \<Rightarrow>
            (batches', systemBatch(sysId \<mapsto> b),
             if sysId \<in> set (ss_syncPoints s) then b + 1 else minimumBatch)))"

definition accessOf :: "'w SystemScheduler \<Rightarrow> SystemTypeId \<Rightarrow> SystemAccessInfo" where
  "accessOf s i = is_GetAccessInfo (se_instance (the (map_of (ss_systems s) i)))"

definition computeBatches ::
  "'w SystemScheduler \<Rightarrow> SystemTypeId list \<Rightarrow> SystemTypeId list list" where
  "computeBatches s order = fst (foldl (batchStep s (accessOf s)) ([], Map.empty, 0) order)"

definition computeParallelBatches ::
  "SystemStage \<Rightarrow> SystemTypeId list \<Rightarrow> 'w SystemScheduler \<Rightarrow> 'w SystemScheduler option" where
  "computeParallelBatches stage order s =
    (if order = [] then
       Some (s\<lparr>ss_parallelBatches := AList.update stage [] (ss_parallelBatches s)\<rparr>)
     else if \<not> list_all (\<lambda>i. map_of (ss_systems s) i \<noteq> None) order then None
     else Some (s\<lparr>ss_parallelBatches :=
                 AList.update stage (computeBatches s order) (ss_parallelBatches s)\<rparr>))"

section \<open>Build\<close>

fun buildStages ::
  "(SystemStage \<times> SystemTypeId list) list \<Rightarrow> 'w SystemScheduler \<Rightarrow> (bool \<times> 'w SystemScheduler) option"
where
  "buildStages [] s = Some (True, s\<lparr>ss_built := True\<rparr>)"
| "buildStages ((stage, ids) # groups) s =
    (case topologicalSort ids s of
       None \<Rightarrow> None
     | Some (False, sortedIds, s') \<Rightarrow> Some (False, s'\<lparr>ss_built := False\<rparr>)
     | Some (True, sortedIds, s') \<Rightarrow>
         (case computeParallelBatches stage sortedIds
                 (s'\<lparr>ss_executionOrder := AList.update stage sortedIds (ss_executionOrder s')\<rparr>) of
            None \<Rightarrow> None
          | Some s'' \<Rightarrow> buildStages groups s''))"

definition ss_Build :: "'w SystemScheduler \<Rightarrow> (bool \<times> 'w SystemScheduler) option" where
  "ss_Build s = buildStages (ss_stageGroups s)
     (s\<lparr>ss_lastError := [], ss_executionOrder := [], ss_parallelBatches := []\<rparr>)"

definition ss_GetExecutionOrder :: "'w SystemScheduler \<Rightarrow> SystemStage \<Rightarrow> SystemTypeId list" where
  "ss_GetExecutionOrder s stage = entriesOf (ss_executionOrder s) stage"

definition ss_GetParallelBatches :: "'w SystemScheduler \<Rightarrow> SystemStage \<Rightarrow> SystemTypeId list list" where
  "ss_GetParallelBatches s stage = entriesOf (ss_parallelBatches s) stage"

section \<open>Execution\<close>

definition enabledTasks ::
  "(SystemTypeId \<Rightarrow> rat \<Rightarrow> 'w task) \<Rightarrow> 'w SystemScheduler \<Rightarrow> rat \<Rightarrow> SystemTypeId list
    \<Rightarrow> 'w task list option" where
  "enabledTasks run s deltaTime ids =
    (if list_all (\<lambda>i. map_of (ss_systems s) i \<noteq> None) ids
     then Some (map (\<lambda>i. run i deltaTime) (filter (ss_IsEnabled s) ids)) else None)"

definition executeBatch ::
  "(SystemTypeId \<Rightarrow> rat \<Rightarrow> 'w task) \<Rightarrow> 'w SystemScheduler \<Rightarrow> 'w ParallelExecutor \<Rightarrow> rat
    \<Rightarrow> SystemTypeId list \<Rightarrow> 'w \<Rightarrow> 'w option" where
  "executeBatch run s ex deltaTime batch w =
    (case enabledTasks run s deltaTime batch of
       None \<Rightarrow> None
     | Some [] \<Rightarrow> Some w
     | Some [t] \<Rightarrow> Some (t w)
     | Some tasks \<Rightarrow> Some (ex tasks w))"

fun executeBatches ::
  "(SystemTypeId \<Rightarrow> rat \<Rightarrow> 'w task) \<Rightarrow> 'w SystemScheduler \<Rightarrow> 'w ParallelExecutor \<Rightarrow> rat
    \<Rightarrow> SystemTypeId list list \<Rightarrow> 'w \<Rightarrow> 'w option" where
  "executeBatches run s ex deltaTime [] w = Some w"
| "executeBatches run s ex deltaTime (b # bs) w =
    (case executeBatch run s ex deltaTime b w of
       None \<Rightarrow> None
     | Some w' \<Rightarrow> executeBatches run s ex deltaTime bs w')"

definition executeStage ::
  "(SystemTypeId \<Rightarrow> rat \<Rightarrow> 'w task) \<Rightarrow> 'w SystemScheduler \<Rightarrow> SystemStage \<Rightarrow> rat \<Rightarrow> 'w \<Rightarrow> 'w option" where
  "executeStage run s stage deltaTime w =
    (case (ss_parallelEnabled s, ss_parallelExecutor s) of
       (True, Some ex) \<Rightarrow>
         (case map_of (ss_parallelBatches s) stage of
            None \<Rightarrow> Some w
          | Some batches \<Rightarrow> executeBatches run s ex deltaTime batches w)
     | _ \<Rightarrow>
         (case map_of (ss_executionOrder s) stage of
            None \<Rightarrow> Some w
          | Some order \<Rightarrow>
              map_option (\<lambda>ts. fold (\<lambda>t. t) ts w) (enabledTasks run s deltaTime order)))"

partial_function (option) fixedLoop ::
  "(SystemTypeId \<Rightarrow> rat \<Rightarrow> 'w task) \<Rightarrow> 'w SystemScheduler \<Rightarrow> rat \<Rightarrow> 'w \<Rightarrow> (rat \<times> 'w) option" where
  "fixedLoop run s acc w =
    (if acc \<ge> ss_fixedTimeStep s
     then (case executeStage run s FixedUpdate (ss_fixedTimeStep s) w of
             None \<Rightarrow> None
           | Some w' \<Rightarrow> fixedLoop run s (f32 (acc - ss_fixedTimeStep s)) w')
     else Some (acc, w))"

fun executeStages ::
  "(SystemTypeId \<Rightarrow> rat \<Rightarrow> 'w task) \<Rightarrow> 'w SystemScheduler \<Rightarrow> rat \<Rightarrow> SystemStage list \<Rightarrow> 'w \<Rightarrow> 'w option"
where
  "executeStages run s deltaTime [] w = Some w"
| "executeStages run s deltaTime (st # sts) w =
    (case executeStage run s st deltaTime w of
       None \<Rightarrow> None
     | Some w' \<Rightarrow> executeStages run s deltaTime sts w')"

definition ss_Execute ::
  "(SystemTypeId \<Rightarrow> rat \<Rightarrow> 'w task) \<Rightarrow> rat \<Rightarrow> 'w SystemScheduler \<Rightarrow> 'w \<Rightarrow> ('w SystemScheduler \<times> 'w) option"
where
  "ss_Execute run deltaTime s w =
    (if \<not> ss_built s then None
     else case executeStages run s deltaTime [PreUpdate, Update, PostUpdate] w of
       None \<Rightarrow> None
     | Some w1 \<Rightarrow>
         if ss_GetExecutionOrder s FixedUpdate \<noteq> [] then
           (case fixedLoop run s (f32 (ss_fixedTimeAccumulator s + deltaTime)) w1 of
              None \<Rightarrow> None
            | Some (acc, w2) \<Rightarrow> Some (s\<lparr>ss_fixedTimeAccumulator := acc\<rparr>, w2))
         else Some (s, w1))"

section \<open>Well-formed schedulers\<close>

text \<open>The stage groups partition the registered systems by stage; the two dependency maps
  mirror each other and only relate registered systems of one stage.\<close>

definition sameStage :: "'w SystemScheduler \<Rightarrow> SystemTypeId \<Rightarrow> SystemTypeId \<Rightarrow> bool" where
  "sameStage s a b \<longleftrightarrow> (\<exists>ea eb. map_of (ss_systems s) a = Some ea \<and> map_of (ss_systems s) b = Some eb
     \<and> se_stage ea = se_stage eb)"

definition deps_wf :: "'w SystemScheduler \<Rightarrow> bool" where
  "deps_wf s \<longleftrightarrow>
     (\<forall>a b. b \<in> set (entriesOf (ss_dependencies s) a) \<longleftrightarrow> a \<in> set (entriesOf (ss_reverseDeps s) b)) \<and>
     (\<forall>a. distinct (entriesOf (ss_dependencies s) a)) \<and>
     (\<forall>a. distinct (entriesOf (ss_reverseDeps s) a)) \<and>
     (\<forall>a b. b \<in> set (entriesOf (ss_dependencies s) a) \<longrightarrow> sameStage s a b)"

definition groups_wf :: "'w SystemScheduler \<Rightarrow> bool" where
  "groups_wf s \<longleftrightarrow> umap_wf (ss_stageGroups s) \<and> umap_wf (ss_systems s) \<and>
     (\<forall>st. distinct (entriesOf (ss_stageGroups s) st)) \<and>
     (\<forall>st i. i \<in> set (entriesOf (ss_stageGroups s) st)
        \<longleftrightarrow> (\<exists>e. map_of (ss_systems s) i = Some e \<and> se_stage e = st))"

definition ss_wf :: "'w SystemScheduler \<Rightarrow> bool" where
  "ss_wf s \<longleftrightarrow> deps_wf s \<and> groups_wf s"

text \<open>The dependency graph: an edge from each system to those that must run after it.\<close>

definition depGraph :: "'w SystemScheduler \<Rightarrow> SystemTypeId rel" where
  "depGraph s = {(a, b). b \<in> set (entriesOf (ss_dependencies s) a)}"

section \<open>Kahn's algorithm\<close>

definition inPreds :: "'w SystemScheduler \<Rightarrow> SystemTypeId list \<Rightarrow> SystemTypeId \<Rightarrow> SystemTypeId list" where
  "inPreds s ids i = filter (\<lambda>p. p \<in> set ids) (entriesOf (ss_reverseDeps s) i)"

lemma distinct_inPreds: "deps_wf s \<Longrightarrow> distinct (inPreds s ids i)"
  by (simp add: inPreds_def deps_wf_def)

lemma length_inPreds_le: "deps_wf s \<Longrightarrow> length (inPreds s ids i) \<le> length ids"
proof -
  assume "deps_wf s"
  then have "length (inPreds s ids i) = card (set (inPreds s ids i))"
    by (simp add: distinct_card distinct_inPreds)
  also have "\<dots> \<le> card (set ids)" by (rule card_mono) (auto simp: inPreds_def)
  also have "\<dots> \<le> length ids" by (rule card_length)
  finally show ?thesis .
qed

lemma count_preds_foldl:
  "foldl (\<lambda>deg dep. if dep \<in> S then deg(i := deg i + 1) else deg) deg xs
    = deg(i := deg i + (of_nat (length (filter (\<lambda>p. p \<in> S) xs)) :: u32))"
  by (induction xs arbitrary: deg) (auto simp: fun_eq_iff)

lemma initInDegree_foldl:
  "distinct xs \<Longrightarrow>
   foldl (\<lambda>deg i. foldl (\<lambda>deg dep. if dep \<in> S then deg(i := deg i + 1) else deg) deg (f i)) deg xs
    = (\<lambda>i. deg i + (if i \<in> set xs then (of_nat (length (filter (\<lambda>p. p \<in> S) (f i))) :: u32) else 0))"
  by (induction xs arbitrary: deg) (auto simp: count_preds_foldl fun_eq_iff)

lemma initInDegree_eq:
  "distinct ids \<Longrightarrow> initInDegree s ids =
    (\<lambda>i. if i \<in> set ids then of_nat (length (inPreds s ids i)) else 0)"
  by (simp add: initInDegree_def initInDegree_foldl inPreds_def fun_eq_iff)

lemma relaxSuccessors_eq:
  "distinct succs \<Longrightarrow> relaxSuccessors ids succs (deg, ready) =
    (\<lambda>i. if i \<in> set succs \<and> i \<in> set ids then deg i - 1 else deg i,
     ready @ filter (\<lambda>i. i \<in> set ids \<and> deg i = 1) succs)"
proof (induction succs arbitrary: deg ready)
  case Nil
  then show ?case by (simp add: relaxSuccessors_def)
next
  case (Cons a succs)
  have cong: "filter (\<lambda>i. i \<in> set ids \<and> (deg(a := deg a - 1)) i = 1) succs
      = filter (\<lambda>i. i \<in> set ids \<and> deg i = 1) succs"
    using Cons.prems by (intro filter_cong) auto
  have unfold: "relaxSuccessors ids (a # succs) (deg, ready) = relaxSuccessors ids succs
      (if a \<notin> set ids then (deg, ready)
       else (deg(a := deg a - 1), if deg a = 1 then ready @ [a] else ready))"
    by (simp add: relaxSuccessors_def Let_def)
  show ?case
    using Cons.IH Cons.prems cong
    by (cases "a \<in> set ids") (auto simp: unfold fun_eq_iff)
qed

definition kahn_inv ::
  "'w SystemScheduler \<Rightarrow> SystemTypeId list \<Rightarrow> SystemTypeId list \<Rightarrow> (SystemTypeId \<Rightarrow> u32)
    \<Rightarrow> SystemTypeId list \<Rightarrow> bool" where
  "kahn_inv s ids ready deg out \<longleftrightarrow>
     distinct (out @ ready) \<and> set (out @ ready) \<subseteq> set ids \<and>
     (\<forall>i\<in>set ids. unat (deg i) = length (filter (\<lambda>p. p \<notin> set out) (inPreds s ids i))) \<and>
     (\<forall>i\<in>set ids. i \<in> set (out @ ready) \<longleftrightarrow> deg i = 0) \<and>
     (\<forall>xs i ys. out = xs @ i # ys \<longrightarrow> set (inPreds s ids i) \<subseteq> set xs)"

lemma kahn_inv_init:
  assumes "deps_wf s" "distinct ids" "length ids < 4294967296"
  shows "kahn_inv s ids (filter (\<lambda>i. initInDegree s ids i = 0) ids) (initInDegree s ids) []"
proof -
  have "unat (initInDegree s ids i) = length (inPreds s ids i)" if "i \<in> set ids" for i
  proof -
    have "length (inPreds s ids i) < 4294967296"
      using length_inPreds_le [OF assms(1), of ids i] assms(3) by simp
    then show ?thesis
      using that assms(2) by (simp add: initInDegree_eq unat_of_nat_lt)
  qed
  then show ?thesis using assms(2) by (simp add: kahn_inv_def)
qed

lemma length_filter_remove1:
  "distinct xs \<Longrightarrow> c \<notin> D \<Longrightarrow>
   length (filter (\<lambda>p. p \<notin> D) xs)
     = (if c \<in> set xs then 1 else 0) + length (filter (\<lambda>p. p \<notin> insert c D) xs)"
proof (induction xs)
  case (Cons x xs)
  then show ?case by (cases "x = c") auto
qed simp

lemma kahn_inv_step:
  assumes wf: "deps_wf s" and inv: "kahn_inv s ids (c # rest) deg out"
    and r: "relaxSuccessors ids (entriesOf (ss_dependencies s) c) (deg, rest) = (deg', ready')"
  shows "kahn_inv s ids ready' deg' (out @ [c])"
proof -
  define succs where "succs = entriesOf (ss_dependencies s) c"
  have dsuccs: "distinct succs" using wf by (simp add: deps_wf_def succs_def)
  from r have deg': "deg' = (\<lambda>i. if i \<in> set succs \<and> i \<in> set ids then deg i - 1 else deg i)"
    and ready': "ready' = rest @ filter (\<lambda>i. i \<in> set ids \<and> deg i = 1) succs"
    by (simp_all add: relaxSuccessors_eq [OF dsuccs] flip: succs_def)
  have I: "distinct (out @ c # rest)" "set (out @ c # rest) \<subseteq> set ids"
    "\<And>i. i \<in> set ids \<Longrightarrow> unat (deg i) = length (filter (\<lambda>p. p \<notin> set out) (inPreds s ids i))"
    "\<And>i. i \<in> set ids \<Longrightarrow> i \<in> set (out @ c # rest) \<longleftrightarrow> deg i = 0"
    "\<And>xs i ys. out = xs @ i # ys \<Longrightarrow> set (inPreds s ids i) \<subseteq> set xs"
    using inv unfolding kahn_inv_def by blast+
  have c: "c \<in> set ids" "c \<notin> set out" "deg c = 0" using I by auto
  have mem: "i \<in> set succs \<longleftrightarrow> c \<in> set (inPreds s ids i)" for i
    using wf c by (auto simp: succs_def inPreds_def deps_wf_def)
  have cnt: "unat (deg i) = (if i \<in> set succs then 1 else 0)
      + length (filter (\<lambda>p. p \<notin> set (out @ [c])) (inPreds s ids i))" if "i \<in> set ids" for i
    using I(3) [OF that] length_filter_remove1 [OF distinct_inPreds [OF wf], of c "set out" ids i] c mem
    by simp
  have pos: "deg i \<noteq> 0" if "i \<in> set ids" "i \<in> set succs" for i
    using cnt [OF that(1)] that(2) by auto
  have d': "unat (deg' i) = length (filter (\<lambda>p. p \<notin> set (out @ [c])) (inPreds s ids i))"
    if "i \<in> set ids" for i
    using cnt [OF that] pos [OF that] that by (simp add: deg' unat_minus_one)
  have zero: "deg' i = 0 \<longleftrightarrow> i \<in> set ((out @ [c]) @ ready')" if "i \<in> set ids" for i
  proof (cases "i \<in> set succs")
    case True
    with pos [OF that] I(4) [OF that] have "i \<notin> set (out @ c # rest)" by simp
    with True that show ?thesis by (auto simp: deg' ready')
  next
    case False
    with I(4) [OF that] show ?thesis by (auto simp: deg' ready')
  qed
  have preds_c: "set (inPreds s ids c) \<subseteq> set out"
    using I(3) [OF c(1)] c(3) by (auto simp: filter_empty_conv)
  have ord: "set (inPreds s ids i) \<subseteq> set xs" if "out @ [c] = xs @ i # ys" for xs i ys
  proof (cases ys rule: rev_cases)
    case Nil
    with that preds_c show ?thesis by simp
  next
    case (snoc ys' y)
    with that have "out = xs @ i # ys'" by simp
    then show ?thesis by (rule I(5))
  qed
  have "deg i = 0" if "i \<in> set (out @ c # rest)" for i
    using I(2,4) that by blast
  then have disj: "set (filter (\<lambda>i. i \<in> set ids \<and> deg i = 1) succs) \<inter> set (out @ c # rest) = {}"
    by fastforce
  have "distinct ((out @ [c]) @ ready')" and "set ((out @ [c]) @ ready') \<subseteq> set ids"
    using I(1,2) dsuccs disj by (auto simp: ready')
  with d' zero ord show ?thesis unfolding kahn_inv_def by blast
qed

text \<open>The loop ends: every turn moves one system of the stage to the output.\<close>

lemma kahnLoop_total:
  assumes "deps_wf s" "kahn_inv s ids ready deg out"
  shows "\<exists>deg' out'. kahnLoop s ids ready deg out = Some (deg', out') \<and> kahn_inv s ids [] deg' out'"
  using assms(2)
proof (induction "length ids - length out" arbitrary: ready deg out rule: less_induct)
  case less
  show ?case
  proof (cases ready)
    case Nil
    with less.prems show ?thesis by (subst kahnLoop.simps) simp
  next
    case (Cons c rest)
    obtain deg' ready' where r:
      "relaxSuccessors ids (entriesOf (ss_dependencies s) c) (deg, rest) = (deg', ready')"
      by (meson surj_pair)
    have inv': "kahn_inv s ids ready' deg' (out @ [c])"
      using kahn_inv_step [OF assms(1) _ r] less.prems Cons by simp
    have "distinct (out @ c # rest)" "set (out @ c # rest) \<subseteq> set ids"
      using less.prems Cons by (auto simp: kahn_inv_def)
    then have "length (out @ c # rest) \<le> card (set ids)"
      by (metis List.finite_set card_mono distinct_card)
    also have "\<dots> \<le> length ids" by (rule card_length)
    finally have "length ids - length (out @ [c]) < length ids - length out" by simp
    from less.hyps [OF this inv'] show ?thesis
      using Cons r by (subst kahnLoop.simps) simp
  qed
qed

text \<open>The edges between the systems \<open>ids\<close> of a stage.\<close>

definition stageGraph :: "'w SystemScheduler \<Rightarrow> SystemTypeId list \<Rightarrow> SystemTypeId rel" where
  "stageGraph s ids = {(a, b) \<in> depGraph s. a \<in> set ids \<and> b \<in> set ids}"

lemma stageGraph_iff_inPreds:
  "deps_wf s \<Longrightarrow> (a, b) \<in> stageGraph s ids \<longleftrightarrow> b \<in> set ids \<and> a \<in> set (inPreds s ids b)"
  by (auto simp: stageGraph_def depGraph_def inPreds_def deps_wf_def)

lemma finite_stageGraph: "finite (stageGraph s ids)"
  by (rule finite_subset [of _ "set ids \<times> set ids"]) (auto simp: stageGraph_def)

text \<open>An order in which every system comes after its predecessors.\<close>

definition topoOrder :: "SystemTypeId rel \<Rightarrow> SystemTypeId list \<Rightarrow> bool" where
  "topoOrder E order \<longleftrightarrow>
     (\<forall>i j. i < length order \<longrightarrow> j < length order \<longrightarrow> (order ! i, order ! j) \<in> E \<longrightarrow> i < j)"

lemma topoOrder_prefix:
  assumes "topoOrder E order" "distinct order" "order = xs @ b # ys" "(a, b) \<in> E" "a \<in> set order"
  shows "a \<in> set xs"
proof -
  obtain i where i: "i < length order" "order ! i = a"
    using assms(5) by (auto simp: in_set_conv_nth)
  have "order ! length xs = b" "length xs < length order" using assms(3) by simp_all
  with i assms(1,4) have "i < length xs" by (auto simp: topoOrder_def)
  with i assms(3) show ?thesis by (auto simp: nth_append)
qed

lemma topoOrder_acyclic:
  assumes "topoOrder E order" "distinct order" "\<And>a b. (a, b) \<in> E \<Longrightarrow> a \<in> set order \<and> b \<in> set order"
  shows "acyclic E"
proof -
  define pos where "pos x = (LEAST i. i < length order \<and> order ! i = x)" for x
  have pos: "pos x < length order \<and> order ! pos x = x" if "x \<in> set order" for x
  proof -
    have "\<exists>i. i < length order \<and> order ! i = x"
      using that by (metis in_set_conv_nth)
    then show ?thesis unfolding pos_def by (rule LeastI_ex)
  qed
  have "(a, b) \<in> measure pos" if "(a, b) \<in> E" for a b
    using assms(1) pos [of a] pos [of b] assms(3) [OF that] that
    by (auto simp: topoOrder_def)
  then have "E \<subseteq> measure pos" by auto
  then show ?thesis by (meson wf_acyclic wf_measure wf_subset)
qed

lemma kahn_done_topo:
  assumes wf: "deps_wf s" and inv: "kahn_inv s ids [] deg out"
  shows "topoOrder (stageGraph s ids) out"
  unfolding topoOrder_def
proof (intro allI impI)
  fix i j
  assume ij: "i < length out" "j < length out" "(out ! i, out ! j) \<in> stageGraph s ids"
  have "out = take j out @ out ! j # drop (Suc j) out" using ij(2) by (rule id_take_nth_drop)
  then have "set (inPreds s ids (out ! j)) \<subseteq> set (take j out)"
    using inv unfolding kahn_inv_def by blast
  with ij(3) have "out ! i \<in> set (take j out)" using stageGraph_iff_inPreds [OF wf] by blast
  then obtain k where "k < j" "out ! k = out ! i"
    by (auto simp: in_set_conv_nth)
  moreover have "distinct out" using inv by (simp add: kahn_inv_def)
  ultimately show "i < j" using ij by (simp add: nth_eq_iff_index_eq)
qed

text \<open>If some system is left over, the leftovers all have a predecessor among themselves.\<close>

lemma kahn_incomplete_cyclic:
  assumes wf: "deps_wf s" and dist: "distinct ids" and inv: "kahn_inv s ids [] deg out"
    and len: "length out \<noteq> length ids"
  shows "\<not> acyclic (stageGraph s ids)"
proof
  assume "acyclic (stageGraph s ids)"
  then have wfG: "wf (stageGraph s ids)"
    by (simp add: finite_acyclic_wf finite_stageGraph)
  define R where "R = set ids - set out"
  have I: "distinct out" "set out \<subseteq> set ids"
    "\<And>i. i \<in> set ids \<Longrightarrow> unat (deg i) = length (filter (\<lambda>p. p \<notin> set out) (inPreds s ids i))"
    "\<And>i. i \<in> set ids \<Longrightarrow> i \<in> set out \<longleftrightarrow> deg i = 0"
    using inv unfolding kahn_inv_def by auto
  have "R \<noteq> {}"
  proof
    assume "R = {}"
    with I(2) have "set out = set ids" by (auto simp: R_def)
    with I(1) dist len show False by (metis distinct_card)
  qed
  then obtain z where z: "z \<in> R" and min: "\<And>y. (y, z) \<in> stageGraph s ids \<Longrightarrow> y \<notin> R"
    using wfE_min [OF wfG] by (metis ex_in_conv)
  have "z \<in> set ids" "deg z \<noteq> 0" using z I(4) [of z] by (auto simp: R_def)
  with I(3) [of z] have "filter (\<lambda>p. p \<notin> set out) (inPreds s ids z) \<noteq> []"
    by (metis list.size(3) unsigned_eq_0_iff)
  then obtain p where "p \<in> set (inPreds s ids z)" "p \<notin> set out"
    by (auto simp: filter_empty_conv)
  then have "(p, z) \<in> stageGraph s ids" "p \<in> R"
    using z stageGraph_iff_inPreds [OF wf] by (auto simp: R_def inPreds_def)
  with min show False by blast
qed

lemma kahn_complete_perm:
  assumes "distinct ids" "kahn_inv s ids [] deg out" "length out = length ids"
  shows "mset out = mset ids"
proof -
  have "distinct out" "set out \<subseteq> set ids" using assms(2) by (simp_all add: kahn_inv_def)
  moreover have "card (set out) = card (set ids)"
    using assms(1,3) \<open>distinct out\<close> by (simp add: distinct_card)
  ultimately have "set out = set ids" by (simp add: card_subset_eq)
  with assms(1) \<open>distinct out\<close> show ?thesis by (simp add: set_eq_iff_mset_eq_distinct)
qed

lemma those_map_Some:
  "(\<And>x. x \<in> set xs \<Longrightarrow> f x \<noteq> None) \<Longrightarrow> those (map f xs) = Some (map (\<lambda>x. the (f x)) xs)"
proof (induction xs)
  case (Cons a xs)
  then show ?case by (cases "f a") force+
qed simp

text \<open>The sort of one stage: it always returns; it succeeds exactly when the stage's graph has
  no cycle, and then the order is a permutation of the stage that respects the dependencies.\<close>

lemma topologicalSort_spec:
  assumes wf: "deps_wf s" and ids: "distinct ids" "length ids < 4294967296"
    and reg: "\<forall>i\<in>set ids. map_of (ss_systems s) i \<noteq> None"
  shows "(acyclic (stageGraph s ids) \<and> (\<exists>order. topologicalSort ids s = Some (True, order, s)
        \<and> mset order = mset ids \<and> topoOrder (stageGraph s ids) order)) \<or>
    (\<not> acyclic (stageGraph s ids) \<and> (\<exists>order msg. msg \<noteq> []
        \<and> topologicalSort ids s = Some (False, order, s\<lparr>ss_lastError := msg\<rparr>)))"
proof -
  obtain deg out where k: "kahnLoop s ids (filter (\<lambda>i. initInDegree s ids i = 0) ids)
      (initInDegree s ids) [] = Some (deg, out)" and inv: "kahn_inv s ids [] deg out"
    using kahnLoop_total [OF wf kahn_inv_init [OF wf ids]] by blast
  show ?thesis
  proof (cases "length out = length ids")
    case True
    have perm: "mset out = mset ids" by (rule kahn_complete_perm [OF ids(1) inv True])
    have topo: "topoOrder (stageGraph s ids) out" by (rule kahn_done_topo [OF wf inv])
    have "acyclic (stageGraph s ids)"
    proof (rule topoOrder_acyclic [OF topo])
      show "distinct out" using inv by (simp add: kahn_inv_def)
      show "(a, b) \<in> stageGraph s ids \<Longrightarrow> a \<in> set out \<and> b \<in> set out" for a b
        using mset_eq_setD [OF perm] by (auto simp: stageGraph_def)
    qed
    with perm topo True k show ?thesis by (simp add: topologicalSort_def)
  next
    case False
    with kahn_incomplete_cyclic [OF wf ids(1) inv] have "\<not> acyclic (stageGraph s ids)" by simp
    moreover have "those (map (systemName s) (filter (\<lambda>i. deg i \<noteq> 0) ids))
        = Some (map (\<lambda>i. the (systemName s i)) (filter (\<lambda>i. deg i \<noteq> 0) ids))"
      by (rule those_map_Some) (use reg in \<open>auto simp: systemName_def\<close>)
    ultimately have "topologicalSort ids s = Some (False, out, s\<lparr>ss_lastError :=
        ''Circular dependency detected among systems: [''
          @ joinNames (map (\<lambda>i. the (systemName s i)) (filter (\<lambda>i. deg i \<noteq> 0) ids)) @ '']''\<rparr>)"
      using False k by (simp add: topologicalSort_def)
    with \<open>\<not> acyclic (stageGraph s ids)\<close> show ?thesis by (metis append_is_Nil_conv list.distinct(1))
  qed
qed

section \<open>Batches\<close>

lemma ConflictsWith_iff:
  "\<not> ConflictsWith a b \<longleftrightarrow>
     (ai_reads a \<noteq> [] \<or> ai_writes a \<noteq> []) \<and> (ai_reads b \<noteq> [] \<or> ai_writes b \<noteq> []) \<and>
     set (ai_writes a) \<inter> set (ai_writes b) = {} \<and>
     set (ai_writes a) \<inter> set (ai_reads b) = {} \<and> set (ai_reads a) \<inter> set (ai_writes b) = {}"
  by (auto simp: ConflictsWith_def list_ex_iff)

lemma ConflictsWith_sym: "ConflictsWith a b = ConflictsWith b a"
  using ConflictsWith_iff [of a b] ConflictsWith_iff [of b a] by blast

lemma minBatchFor_ge:
  "minimum \<le> minBatchFor preds sb minimum"
  "p \<in> set preds \<Longrightarrow> sb p = Some b \<Longrightarrow> b < minBatchFor preds sb minimum"
proof -
  show ge: "minimum \<le> minBatchFor preds sb minimum" for preds minimum
  proof (induction preds arbitrary: minimum)
    case (Cons p ps)
    show ?case
      using Cons.IH [of "case sb p of Some b \<Rightarrow> max minimum (b + 1) | None \<Rightarrow> minimum"]
      by (auto simp: minBatchFor_def split: option.splits)
  qed (simp add: minBatchFor_def)
  show "p \<in> set preds \<Longrightarrow> sb p = Some b \<Longrightarrow> b < minBatchFor preds sb minimum" for minimum
  proof (induction preds arbitrary: minimum)
    case (Cons q ps)
    have unfold: "minBatchFor (q # ps) sb minimum
        = minBatchFor ps sb (case sb q of Some b \<Rightarrow> max minimum (b + 1) | None \<Rightarrow> minimum)"
      by (simp add: minBatchFor_def)
    show ?case
    proof (cases "p = q")
      case True
      with Cons.prems have "b + 1 \<le> (case sb q of Some b \<Rightarrow> max minimum (b + 1) | None \<Rightarrow> minimum)"
        by simp
      also have "\<dots> \<le> minBatchFor (q # ps) sb minimum" unfolding unfold by (rule ge)
      finally show ?thesis by simp
    next
      case False
      with Cons show ?thesis by (simp add: unfold)
    qed
  qed simp
qed

lemma minBatchFor_le:
  assumes "minimum \<le> n" "\<And>p b. sb p = Some b \<Longrightarrow> b < n"
  shows "minBatchFor preds sb minimum \<le> n"
  using assms(1)
proof (induction preds arbitrary: minimum)
  case (Cons p ps)
  have "(case sb p of Some b \<Rightarrow> max minimum (b + 1) | None \<Rightarrow> minimum) \<le> n"
    using Cons.prems assms(2) [of p] by (auto split: option.splits simp: Suc_le_eq)
  from Cons.IH [OF this] show ?case by (simp add: minBatchFor_def)
qed (simp add: minBatchFor_def)

text \<open>Where a system is placed: in the first admissible batch without conflict, or alone in a
  new one at the end.\<close>

lemma placeSystem_cases:
  assumes "minBatch \<le> length batches"
  obtains (join) b where "minBatch \<le> b" "b < length batches"
      "\<And>x. x \<in> set (batches ! b) \<Longrightarrow> \<not> ConflictsWith (access i) (access x)"
      "placeSystem access i minBatch batches = (batches[b := batches ! b @ [i]], b)"
  | (alone) "placeSystem access i minBatch batches = (batches @ [[i]], length batches)"
proof (cases "List.find (\<lambda>b. \<not> list_ex (\<lambda>other. ConflictsWith (access i) (access other)) (batches ! b))
    [minBatch..<length batches]")
  case None
  with assms show ?thesis by (intro alone) (simp add: placeSystem_def)
next
  case (Some b)
  then have "b \<in> set [minBatch..<length batches]"
    and "\<not> list_ex (\<lambda>other. ConflictsWith (access i) (access other)) (batches ! b)"
    by (auto simp: find_Some_iff)
  with Some show ?thesis
    by (intro join [of b]) (auto simp: placeSystem_def list_ex_iff)
qed

definition batch_inv ::
  "'w SystemScheduler \<Rightarrow> (SystemTypeId \<Rightarrow> SystemAccessInfo) \<Rightarrow> SystemTypeId list
    \<Rightarrow> SystemTypeId list list \<times> (SystemTypeId \<rightharpoonup> nat) \<times> nat \<Rightarrow> bool" where
  "batch_inv s access out st \<longleftrightarrow> (case st of (batches, sb, minimum) \<Rightarrow>
     mset (concat batches) = mset out \<and>
     (\<forall>i b. sb i = Some b \<longleftrightarrow> b < length batches \<and> i \<in> set (batches ! b)) \<and>
     (\<forall>b<length batches. \<forall>x\<in>set (batches ! b). \<forall>y\<in>set (batches ! b).
        x \<noteq> y \<longrightarrow> \<not> ConflictsWith (access x) (access y)) \<and>
     (\<forall>b<length batches. batches ! b \<noteq> []) \<and>
     minimum \<le> length batches \<and>
     (\<forall>i j. i < j \<longrightarrow> j < length out \<longrightarrow> out ! i \<in> set (entriesOf (ss_reverseDeps s) (out ! j)) \<longrightarrow>
        the (sb (out ! i)) < the (sb (out ! j))) \<and>
     (\<forall>i j. i < j \<longrightarrow> j < length out \<longrightarrow> out ! i \<in> set (ss_syncPoints s) \<longrightarrow>
        the (sb (out ! i)) < the (sb (out ! j))) \<and>
     (\<forall>i\<in>set out. i \<in> set (ss_syncPoints s) \<longrightarrow> the (sb i) < minimum))"

lemma mset_concat_update:
  "b < length bs \<Longrightarrow> mset (concat (bs[b := bs ! b @ [i]])) = add_mset i (mset (concat bs))"
proof (induction bs arbitrary: b)
  case (Cons x bs)
  then show ?case by (cases b) auto
qed simp

lemma placeSystem_props:
  assumes "minBatch \<le> length batches" "placeSystem access i minBatch batches = (batches', b)"
  shows "minBatch \<le> b" "b < length batches'"
    "c < length batches' \<and> x \<in> set (batches' ! c) \<longleftrightarrow>
       (c < length batches \<and> x \<in> set (batches ! c)) \<or> (c = b \<and> x = i)"
    "b < length batches \<Longrightarrow> y \<in> set (batches ! b) \<Longrightarrow> \<not> ConflictsWith (access i) (access y)"
    "mset (concat batches') = add_mset i (mset (concat batches))"
    "(\<forall>c<length batches. batches ! c \<noteq> []) \<Longrightarrow> c < length batches' \<Longrightarrow> batches' ! c \<noteq> []"
    "b + 1 \<le> length batches'" "length batches \<le> length batches'"
  using placeSystem_cases [OF assms(1), where access = access and i = i]
  by (cases; use assms in \<open>auto simp: nth_list_update nth_append mset_concat_update less_Suc_eq
        split: if_splits\<close>)+

lemma batchStep_inv:
  assumes inv: "batch_inv s access out st" and new: "i \<notin> set out"
  shows "batch_inv s access (out @ [i]) (batchStep s access st i)"
proof -
  obtain batches sb minimum where st: "st = (batches, sb, minimum)" by (cases st)
  have I: "mset (concat batches) = mset out"
    "\<And>i b. sb i = Some b \<longleftrightarrow> b < length batches \<and> i \<in> set (batches ! b)"
    "\<And>b x y. b < length batches \<Longrightarrow> x \<in> set (batches ! b) \<Longrightarrow> y \<in> set (batches ! b) \<Longrightarrow>
       x \<noteq> y \<Longrightarrow> \<not> ConflictsWith (access x) (access y)"
    "\<forall>b<length batches. batches ! b \<noteq> []" "minimum \<le> length batches"
    "\<And>i j. i < j \<Longrightarrow> j < length out \<Longrightarrow> out ! i \<in> set (entriesOf (ss_reverseDeps s) (out ! j)) \<Longrightarrow>
        the (sb (out ! i)) < the (sb (out ! j))"
    "\<And>i j. i < j \<Longrightarrow> j < length out \<Longrightarrow> out ! i \<in> set (ss_syncPoints s) \<Longrightarrow>
        the (sb (out ! i)) < the (sb (out ! j))"
    "\<And>i. i \<in> set out \<Longrightarrow> i \<in> set (ss_syncPoints s) \<Longrightarrow> the (sb i) < minimum"
    using inv unfolding batch_inv_def st by (simp_all only: prod.case) blast+
  define minB where "minB = minBatchFor (entriesOf (ss_reverseDeps s) i) sb minimum"
  have minB: "minB \<le> length batches"
    unfolding minB_def using I(2,5) by (intro minBatchFor_le) auto
  obtain batches' b where pl: "placeSystem access i minB batches = (batches', b)"
    by (meson surj_pair)
  note P = placeSystem_props [OF minB pl]
  define sb' where "sb' = sb(i \<mapsto> b)"
  have known: "\<exists>c. sb x = Some c" if "x \<in> set out" for x
  proof -
    from that I(1) have "x \<in> set (concat batches)" by (metis set_mset_mset)
    then obtain l where "l \<in> set batches" "x \<in> set l" by auto
    then obtain c where "c < length batches" "x \<in> set (batches ! c)" by (metis in_set_conv_nth)
    then show ?thesis using I(2) by blast
  qed
  have unknown: "sb i = None"
  proof (rule ccontr)
    assume "sb i \<noteq> None"
    then obtain c where "c < length batches" "i \<in> set (batches ! c)" using I(2) by blast
    then have "i \<in> set (concat batches)" by auto
    with I(1) new show False by (metis set_mset_mset)
  qed
  have old: "sb' x = sb x" if "x \<in> set out" for x using that new by (auto simp: sb'_def)
  have A2: "sb' x = Some c \<longleftrightarrow> c < length batches' \<and> x \<in> set (batches' ! c)" for x c
    unfolding P(3) [of c x] using I(2) [of x c] unknown by (auto simp: sb'_def)
  have A3: "\<not> ConflictsWith (access x) (access y)"
    if "c < length batches'" "x \<in> set (batches' ! c)" "y \<in> set (batches' ! c)" "x \<noteq> y" for c x y
    using P(3) [of c x] P(3) [of c y] that I(3) [of c x y] P(4) [of x] P(4) [of y]
      ConflictsWith_sym [of "access i"] by auto
  have nth: "(out @ [i]) ! k = (if k < length out then out ! k else i)" if "k \<le> length out" for k
    using that by (auto simp: nth_append)
  have A6: "the (sb' ((out @ [i]) ! k)) < the (sb' ((out @ [i]) ! j))"
    if "k < j" "j < length (out @ [i])"
      "(out @ [i]) ! k \<in> set (entriesOf (ss_reverseDeps s) ((out @ [i]) ! j))" for k j
  proof (cases "j < length out")
    case True
    with that I(6) [of k j] show ?thesis by (simp add: nth old)
  next
    case False
    then have j: "j = length out" and k: "out ! k \<in> set out" using that by auto
    then obtain c where c: "sb (out ! k) = Some c" using known by blast
    then have "c < minB"
      unfolding minB_def using that j by (intro minBatchFor_ge(2)) (auto simp: nth)
    with c P(1) j k that show ?thesis by (simp add: nth old) (simp add: sb'_def)
  qed
  have A7: "the (sb' ((out @ [i]) ! k)) < the (sb' ((out @ [i]) ! j))"
    if "k < j" "j < length (out @ [i])" "(out @ [i]) ! k \<in> set (ss_syncPoints s)" for k j
  proof (cases "j < length out")
    case True
    with that I(7) [of k j] show ?thesis by (simp add: nth old)
  next
    case False
    then have j: "j = length out" and k: "out ! k \<in> set out" using that by auto
    have "the (sb (out ! k)) < minimum" using I(8) [OF k] that j by (simp add: nth)
    also have "minimum \<le> minB" unfolding minB_def by (rule minBatchFor_ge(1))
    finally show ?thesis using P(1) j k that by (simp add: nth old) (simp add: sb'_def)
  qed
  define minimum' where "minimum' = (if i \<in> set (ss_syncPoints s) then b + 1 else minimum)"
  have "minimum \<le> b" using minBatchFor_ge(1) P(1) unfolding minB_def by (rule le_trans)
  then have A8: "the (sb' x) < minimum'" if "x \<in> set (out @ [i])" "x \<in> set (ss_syncPoints s)" for x
    using that I(8) [of x] old [of x] by (auto simp: minimum'_def sb'_def)
  have A5: "minimum' \<le> length batches'" using I(5) P(7,8) by (auto simp: minimum'_def)
  have "batchStep s access st i = (batches', sb', minimum')"
    using pl by (simp add: batchStep_def st minB_def sb'_def minimum'_def)
  moreover have "mset (concat batches') = mset (out @ [i])" using P(5) I(1) by simp
  ultimately show ?thesis
    unfolding batch_inv_def using A2 A3 A5 A6 A7 A8 P(6) [OF I(4)] by simp
qed

lemma batch_inv_foldl:
  "distinct order \<Longrightarrow> batch_inv s access order (foldl (batchStep s access) ([], Map.empty, 0) order)"
proof (induction order rule: rev_induct)
  case Nil
  show ?case by (simp add: batch_inv_def)
next
  case (snoc i order)
  then have "batch_inv s access order (foldl (batchStep s access) ([], Map.empty, 0) order)"
    and "i \<notin> set order" by auto
  from batchStep_inv [OF this] show ?case by simp
qed

text \<open>What the batches of a stage promise: they hold every system of the stage once, none is
  empty, no two systems of a batch conflict, a system comes in a later batch than those it
  depends on, and whatever follows a sync point in the order is in a later batch than it.\<close>

definition good_batches :: "'w SystemScheduler \<Rightarrow> SystemTypeId list \<Rightarrow> SystemTypeId list list \<Rightarrow> bool" where
  "good_batches s order batches \<longleftrightarrow>
     mset (concat batches) = mset order \<and>
     (\<forall>b<length batches. batches ! b \<noteq> [] \<and>
        (\<forall>x\<in>set (batches ! b). \<forall>y\<in>set (batches ! b).
           x \<noteq> y \<longrightarrow> \<not> ConflictsWith (accessOf s x) (accessOf s y))) \<and>
     (\<forall>a c. a < length batches \<longrightarrow> c < length batches \<longrightarrow>
        (\<forall>x\<in>set (batches ! a). \<forall>y\<in>set (batches ! c). (x, y) \<in> depGraph s \<longrightarrow> a < c)) \<and>
     (\<forall>i j a c. i < j \<longrightarrow> j < length order \<longrightarrow> order ! i \<in> set (ss_syncPoints s) \<longrightarrow>
        a < length batches \<longrightarrow> order ! i \<in> set (batches ! a) \<longrightarrow>
        c < length batches \<longrightarrow> order ! j \<in> set (batches ! c) \<longrightarrow> a < c)"

lemma computeBatches_good:
  assumes wf: "deps_wf s" and dist: "distinct order"
    and topo: "topoOrder (stageGraph s ids) order" and sub: "set order = set ids"
  shows "good_batches s order (computeBatches s order)"
proof -
  obtain batches sb minimum where
    st: "foldl (batchStep s (accessOf s)) ([], Map.empty, 0) order = (batches, sb, minimum)"
    by (metis prod_cases3)
  have "batch_inv s (accessOf s) order (batches, sb, minimum)"
    using batch_inv_foldl [OF dist, of s "accessOf s"] st by simp
  then have I: "mset (concat batches) = mset order"
    "\<And>i b. sb i = Some b \<longleftrightarrow> b < length batches \<and> i \<in> set (batches ! b)"
    "\<And>b x y. b < length batches \<Longrightarrow> x \<in> set (batches ! b) \<Longrightarrow> y \<in> set (batches ! b) \<Longrightarrow>
       x \<noteq> y \<Longrightarrow> \<not> ConflictsWith (accessOf s x) (accessOf s y)"
    "\<And>b. b < length batches \<Longrightarrow> batches ! b \<noteq> []"
    "\<And>i j. i < j \<Longrightarrow> j < length order \<Longrightarrow>
        order ! i \<in> set (entriesOf (ss_reverseDeps s) (order ! j)) \<Longrightarrow>
        the (sb (order ! i)) < the (sb (order ! j))"
    "\<And>i j. i < j \<Longrightarrow> j < length order \<Longrightarrow> order ! i \<in> set (ss_syncPoints s) \<Longrightarrow>
        the (sb (order ! i)) < the (sb (order ! j))"
    unfolding batch_inv_def by (simp_all only: prod.case) blast+
  have bs: "computeBatches s order = batches" by (simp add: computeBatches_def st)
  have in_order: "x \<in> set order" if "b < length batches" "x \<in> set (batches ! b)" for b x
  proof -
    from that have "x \<in> set (concat batches)" by auto
    with I(1) show ?thesis by (metis set_mset_mset)
  qed
  have dep: "a < c" if h: "a < length batches" "c < length batches" "x \<in> set (batches ! a)"
    "y \<in> set (batches ! c)" "(x, y) \<in> depGraph s" for a c x y
  proof -
    obtain i where i: "i < length order" "order ! i = x"
      using in_order [OF h(1,3)] by (metis in_set_conv_nth)
    obtain j where j: "j < length order" "order ! j = y"
      using in_order [OF h(2,4)] by (metis in_set_conv_nth)
    have "(order ! i, order ! j) \<in> stageGraph s ids"
      using h i j sub in_order by (auto simp: stageGraph_def)
    then have "i < j" using topo i j by (auto simp: topoOrder_def)
    moreover have "x \<in> set (entriesOf (ss_reverseDeps s) y)"
      using wf h(5) by (simp add: deps_wf_def depGraph_def)
    ultimately have "the (sb x) < the (sb y)" using I(5) [of i j] i j by simp
    moreover have "sb x = Some a" "sb y = Some c" using I(2) h by auto
    ultimately show ?thesis by simp
  qed
  have sync: "a < c" if "i < j" "j < length order" "order ! i \<in> set (ss_syncPoints s)"
    "a < length batches" "order ! i \<in> set (batches ! a)"
    "c < length batches" "order ! j \<in> set (batches ! c)" for i j a c
    using I(6) [OF that(1-3)] I(2) [of "order ! i" a] I(2) [of "order ! j" c] that by auto
  show ?thesis
    unfolding good_batches_def bs
    by (intro conjI allI impI ballI)
      (rule I(1), erule I(4), rule I(3), assumption+, rule dep, assumption+, rule sync, assumption+)
qed

section \<open>The plan built for all stages\<close>

definition sameCore :: "'w SystemScheduler \<Rightarrow> 'w SystemScheduler \<Rightarrow> bool" where
  "sameCore s s' \<longleftrightarrow> ss_systems s' = ss_systems s \<and> ss_stageGroups s' = ss_stageGroups s \<and>
     ss_dependencies s' = ss_dependencies s \<and> ss_reverseDeps s' = ss_reverseDeps s \<and>
     ss_syncPoints s' = ss_syncPoints s \<and> ss_parallelExecutor s' = ss_parallelExecutor s \<and>
     ss_parallelEnabled s' = ss_parallelEnabled s"

lemma sameCore_refl [simp]: "sameCore s s"
  by (simp add: sameCore_def)

lemma sameCore_trans: "sameCore s s' \<Longrightarrow> sameCore s' s'' \<Longrightarrow> sameCore s s''"
  by (simp add: sameCore_def)

lemma sameCore_transfer:
  assumes "sameCore s s'"
  shows "deps_wf s' = deps_wf s" "stageGraph s' ids = stageGraph s ids"
    "depGraph s' = depGraph s" "accessOf s' = accessOf s"
    "computeBatches s' order = computeBatches s order"
    "good_batches s' order batches = good_batches s order batches"
proof -
  show acc: "accessOf s' = accessOf s"
    using assms by (simp add: sameCore_def accessOf_def fun_eq_iff)
  have "batchStep s' = batchStep s"
    using assms by (simp add: sameCore_def batchStep_def fun_eq_iff)
  with acc show "computeBatches s' order = computeBatches s order"
    by (simp add: computeBatches_def)
qed (use assms in \<open>simp_all add: sameCore_def deps_wf_def sameStage_def stageGraph_def depGraph_def
      accessOf_def good_batches_def\<close>)

lemma computeParallelBatches_eq:
  assumes "\<And>i. i \<in> set order \<Longrightarrow> map_of (ss_systems s) i \<noteq> None"
  shows "computeParallelBatches stage order s = Some (s\<lparr>ss_parallelBatches :=
     AList.update stage (computeBatches s order) (ss_parallelBatches s)\<rparr>)"
  using assms
  by (auto simp: computeParallelBatches_def computeBatches_def list_all_iff)

definition planned ::
  "'w SystemScheduler \<Rightarrow> 'w SystemScheduler \<Rightarrow> SystemStage \<times> SystemTypeId list \<Rightarrow> bool" where
  "planned s s' g \<longleftrightarrow> (\<exists>order. map_of (ss_executionOrder s') (fst g) = Some order \<and>
     mset order = mset (snd g) \<and> topoOrder (stageGraph s (snd g)) order \<and>
     map_of (ss_parallelBatches s') (fst g) = Some (computeBatches s order))"

lemma buildStages_spec:
  assumes "deps_wf s" "distinct (map fst groups)"
    and "\<forall>g\<in>set groups. distinct (snd g) \<and> length (snd g) < 4294967296
      \<and> (\<forall>i\<in>set (snd g). map_of (ss_systems s) i \<noteq> None)"
  shows "((\<forall>g\<in>set groups. acyclic (stageGraph s (snd g))) \<and>
      (\<exists>s'. buildStages groups s = Some (True, s') \<and> ss_built s' \<and> sameCore s s' \<and>
        ss_lastError s' = ss_lastError s \<and>
        (\<forall>g\<in>set groups. planned s s' g) \<and>
        (\<forall>st. st \<notin> fst ` set groups \<longrightarrow>
           map_of (ss_executionOrder s') st = map_of (ss_executionOrder s) st \<and>
           map_of (ss_parallelBatches s') st = map_of (ss_parallelBatches s) st))) \<or>
    (\<not> (\<forall>g\<in>set groups. acyclic (stageGraph s (snd g))) \<and>
      (\<exists>s'. buildStages groups s = Some (False, s') \<and> \<not> ss_built s' \<and> sameCore s s' \<and>
        ss_lastError s' \<noteq> []))"
  using assms
proof (induction groups arbitrary: s)
  case Nil
  then show ?case by (simp add: sameCore_def)
next
  case (Cons g groups)
  obtain stage ids where g: "g = (stage, ids)" by (cases g)
  have ids: "distinct ids" "length ids < 4294967296"
    and reg: "\<forall>i\<in>set ids. map_of (ss_systems s) i \<noteq> None"
    using Cons.prems(3) g by auto
  from topologicalSort_spec [OF Cons.prems(1) ids reg] show ?case
  proof (elim disjE conjE exE)
    fix order
    assume ac: "acyclic (stageGraph s ids)" and srt: "topologicalSort ids s = Some (True, order, s)"
      and perm: "mset order = mset ids" and topo: "topoOrder (stageGraph s ids) order"
    define s1 where "s1 = s\<lparr>ss_executionOrder := AList.update stage order (ss_executionOrder s),
      ss_parallelBatches := AList.update stage (computeBatches s order) (ss_parallelBatches s)\<rparr>"
    have core: "sameCore s s1" by (simp add: s1_def sameCore_def)
    have "computeParallelBatches stage order
        (s\<lparr>ss_executionOrder := AList.update stage order (ss_executionOrder s)\<rparr>) = Some s1"
    proof (subst computeParallelBatches_eq)
      show "map_of (ss_systems (s\<lparr>ss_executionOrder := AList.update stage order (ss_executionOrder s)\<rparr>)) i
          \<noteq> None" if "i \<in> set order" for i
        using that reg mset_eq_setD [OF perm] by simp
      have "sameCore s (s\<lparr>ss_executionOrder := AList.update stage order (ss_executionOrder s)\<rparr>)"
        by (simp add: sameCore_def)
      from sameCore_transfer(5) [OF this, of order]
      show "Some (s\<lparr>ss_executionOrder := AList.update stage order (ss_executionOrder s)\<rparr>
          \<lparr>ss_parallelBatches := AList.update stage
              (computeBatches (s\<lparr>ss_executionOrder := AList.update stage order (ss_executionOrder s)\<rparr>) order)
              (ss_parallelBatches (s\<lparr>ss_executionOrder := AList.update stage order (ss_executionOrder s)\<rparr>))\<rparr>)
          = Some s1"
        by (simp add: s1_def)
    qed
    then have step: "buildStages (g # groups) s = buildStages groups s1"
      using srt by (simp add: g)
    have c1: "deps_wf s1" using Cons.prems(1) sameCore_transfer(1) [OF core] by simp
    have c2: "distinct (map fst groups)" using Cons.prems(2) by simp
    have c3: "\<forall>h\<in>set groups. distinct (snd h) \<and> length (snd h) < 4294967296
        \<and> (\<forall>i\<in>set (snd h). map_of (ss_systems s1) i \<noteq> None)"
      using Cons.prems(3) by (auto simp: s1_def)
    note IH = Cons.IH [OF c1 c2 c3, unfolded sameCore_transfer(2) [OF core]]
    have "stage \<notin> fst ` set groups" using Cons.prems(2) g by auto
    then have own: "planned s s' g" if "\<forall>st. st \<notin> fst ` set groups \<longrightarrow>
        map_of (ss_executionOrder s') st = map_of (ss_executionOrder s1) st \<and>
        map_of (ss_parallelBatches s') st = map_of (ss_parallelBatches s1) st" for s'
      using that perm topo by (simp add: planned_def g) (simp add: s1_def update_conv)
    have same: "planned s1 s' h = planned s s' h" for s' h
      using core by (simp add: planned_def sameCore_transfer)
    have frame: "map_of (ss_executionOrder s1) st = map_of (ss_executionOrder s) st \<and>
        map_of (ss_parallelBatches s1) st = map_of (ss_parallelBatches s) st" if "st \<noteq> stage" for st
      using that by (simp add: s1_def update_conv)
    have err: "ss_lastError s1 = ss_lastError s" by (simp add: s1_def)
    from IH show ?thesis
    proof (elim disjE conjE exE)
      fix s'
      assume "\<forall>g\<in>set groups. acyclic (stageGraph s (snd g))"
        "buildStages groups s1 = Some (True, s')" "ss_built s'" "sameCore s1 s'"
        "ss_lastError s' = ss_lastError s1" "\<forall>g\<in>set groups. planned s1 s' g"
        "\<forall>st. st \<notin> fst ` set groups \<longrightarrow>
          map_of (ss_executionOrder s') st = map_of (ss_executionOrder s1) st \<and>
          map_of (ss_parallelBatches s') st = map_of (ss_parallelBatches s1) st"
      moreover from this(7) have "planned s s' g" by (rule own)
      ultimately show ?thesis
        using ac sameCore_trans [OF core] same frame err unfolding step by (simp add: g)
    next
      fix s'
      assume "\<not> (\<forall>g\<in>set groups. acyclic (stageGraph s (snd g)))"
        "buildStages groups s1 = Some (False, s')" "\<not> ss_built s'" "sameCore s1 s'" "ss_lastError s' \<noteq> []"
      then show ?thesis using sameCore_trans [OF core] unfolding step by auto
    qed
  next
    fix order msg
    assume "\<not> acyclic (stageGraph s ids)" "msg \<noteq> []"
      "topologicalSort ids s = Some (False, order, s\<lparr>ss_lastError := msg\<rparr>)"
    then show ?thesis by (auto simp: g sameCore_def)
  qed
qed

lemma groups_wf_mem:
  "groups_wf s \<Longrightarrow> g \<in> set (ss_stageGroups s) \<longleftrightarrow> map_of (ss_stageGroups s) (fst g) = Some (snd g)"
  by (cases g) (simp add: groups_wf_def umap_mem_iff)

lemma groups_wf_ids:
  assumes "groups_wf s" "g \<in> set (ss_stageGroups s)"
  shows "distinct (snd g)" "length (snd g) \<le> ss_SystemCount s"
    "i \<in> set (snd g) \<longleftrightarrow> (\<exists>e. map_of (ss_systems s) i = Some e \<and> se_stage e = fst g)"
proof -
  have e: "entriesOf (ss_stageGroups s) (fst g) = snd g"
    using assms groups_wf_mem [OF assms(1), of g] by (simp add: entriesOf_def)
  show d: "distinct (snd g)" using assms(1) e unfolding groups_wf_def by metis
  show iff: "i \<in> set (snd g) \<longleftrightarrow> (\<exists>e. map_of (ss_systems s) i = Some e \<and> se_stage e = fst g)" for i
    using assms(1) e unfolding groups_wf_def by metis
  have "set (snd g) \<subseteq> fst ` set (ss_systems s)"
    using iff by (metis dom_map_of_conv_image_fst domI subsetI)
  then have "card (set (snd g)) \<le> card (fst ` set (ss_systems s))"
    by (intro card_mono) auto
  also have "\<dots> \<le> length (ss_systems s)" by (metis card_length length_map set_map)
  finally show "length (snd g) \<le> ss_SystemCount s"
    using d by (simp add: distinct_card ss_SystemCount_def)
qed

text \<open>Dependencies stay within a stage, so the whole graph has a cycle only if a stage has one.\<close>

lemma acyclic_depGraph_iff:
  assumes wf: "ss_wf s"
  shows "acyclic (depGraph s) \<longleftrightarrow> (\<forall>g\<in>set (ss_stageGroups s). acyclic (stageGraph s (snd g)))"
proof
  assume "acyclic (depGraph s)"
  then show "\<forall>g\<in>set (ss_stageGroups s). acyclic (stageGraph s (snd g))"
    by (auto intro: acyclic_subset simp: stageGraph_def)
next
  assume each: "\<forall>g\<in>set (ss_stageGroups s). acyclic (stageGraph s (snd g))"
  have gw: "groups_wf s" and dw: "deps_wf s" using wf by (simp_all add: ss_wf_def)
  show "acyclic (depGraph s)"
  proof (rule acyclicI, intro allI notI)
    fix x assume x: "(x, x) \<in> (depGraph s)\<^sup>+"
    have edge: "sameStage s a b" if "(a, b) \<in> depGraph s" for a b
      using dw that by (simp add: deps_wf_def depGraph_def)
    obtain y where "(x, y) \<in> depGraph s" using x by (meson tranclD)
    then obtain e where e: "map_of (ss_systems s) x = Some e"
      using edge by (auto simp: sameStage_def)
    define ids where "ids = entriesOf (ss_stageGroups s) (se_stage e)"
    have mem: "i \<in> set ids \<longleftrightarrow> (\<exists>e'. map_of (ss_systems s) i = Some e' \<and> se_stage e' = se_stage e)" for i
      using gw unfolding groups_wf_def ids_def by metis
    have "x \<in> set ids" using mem e by blast
    then have g: "(se_stage e, ids) \<in> set (ss_stageGroups s)"
      using groups_wf_mem [OF gw, of "(se_stage e, ids)"]
      by (auto simp: ids_def entriesOf_def split: option.splits)
    have "(x, z) \<in> (stageGraph s ids)\<^sup>+ \<and> z \<in> set ids" if "(x, z) \<in> (depGraph s)\<^sup>+" for z
      using that
    proof induction
      case (base y)
      with edge [OF base] \<open>x \<in> set ids\<close> mem e show ?case
        by (auto simp: stageGraph_def sameStage_def)
    next
      case (step y z)
      then have "z \<in> set ids" using edge [OF step.hyps(2)] mem by (auto simp: sameStage_def)
      with step have "(y, z) \<in> stageGraph s ids" by (simp add: stageGraph_def)
      with step \<open>z \<in> set ids\<close> show ?case by (meson trancl_into_trancl)
    qed
    with x have "(x, x) \<in> (stageGraph s ids)\<^sup>+" by blast
    with each g show False by (auto simp: acyclic_def)
  qed
qed

lemma topoOrder_stage:
  "set order = set ids \<Longrightarrow> topoOrder (stageGraph s ids) order = topoOrder (depGraph s) order"
  unfolding topoOrder_def stageGraph_def by (metis (no_types, lifting) case_prodD case_prodI mem_Collect_eq nth_mem)

text \<open>What a built plan offers for every stage.\<close>

definition plan_ok :: "'w SystemScheduler \<Rightarrow> bool" where
  "plan_ok s \<longleftrightarrow> (\<forall>st. distinct (ss_GetExecutionOrder s st) \<and>
     set (ss_GetExecutionOrder s st) = {i. \<exists>e. map_of (ss_systems s) i = Some e \<and> se_stage e = st} \<and>
     topoOrder (depGraph s) (ss_GetExecutionOrder s st) \<and>
     good_batches s (ss_GetExecutionOrder s st) (ss_GetParallelBatches s st))"

lemma planned_stage:
  assumes wf: "ss_wf s" and g: "g \<in> set (ss_stageGroups s)" and pl: "planned s s' g"
  shows "distinct (ss_GetExecutionOrder s' (fst g)) \<and>
     set (ss_GetExecutionOrder s' (fst g))
       = {i. \<exists>e. map_of (ss_systems s) i = Some e \<and> se_stage e = fst g} \<and>
     topoOrder (depGraph s) (ss_GetExecutionOrder s' (fst g)) \<and>
     good_batches s (ss_GetExecutionOrder s' (fst g)) (ss_GetParallelBatches s' (fst g))"
proof -
  from pl obtain order where o: "map_of (ss_executionOrder s') (fst g) = Some order"
    "mset order = mset (snd g)" "topoOrder (stageGraph s (snd g)) order"
    "map_of (ss_parallelBatches s') (fst g) = Some (computeBatches s order)"
    unfolding planned_def by blast
  have gw: "groups_wf s" and dw: "deps_wf s" using wf by (simp_all add: ss_wf_def)
  note ids = groups_wf_ids [OF gw g]
  have "distinct order" using o(2) ids(1) by (metis mset_eq_imp_distinct_iff)
  moreover have "set order = set (snd g)" using o(2) by (rule mset_eq_setD)
  ultimately show ?thesis
    using o ids(3) computeBatches_good [OF dw _ o(3)] topoOrder_stage [of order "snd g" s]
    by (auto simp: ss_GetExecutionOrder_def ss_GetParallelBatches_def entriesOf_def)
qed

lemma unplanned_stage:
  assumes wf: "ss_wf s" and st: "st \<notin> fst ` set (ss_stageGroups s)"
  shows "{i. \<exists>e. map_of (ss_systems s) i = Some e \<and> se_stage e = st} = {}"
proof -
  have "map_of (ss_stageGroups s) st = None" using st by (simp add: map_of_eq_None_iff)
  then have "set (entriesOf (ss_stageGroups s) st) = {}" by (simp add: entriesOf_def)
  moreover have "\<forall>i. i \<in> set (entriesOf (ss_stageGroups s) st)
        \<longleftrightarrow> (\<exists>e. map_of (ss_systems s) i = Some e \<and> se_stage e = st)"
    using wf unfolding ss_wf_def groups_wf_def by blast
  ultimately show ?thesis by simp
qed

lemma ss_Build_spec:
  assumes wf: "ss_wf s" and small: "ss_SystemCount s < 4294967296"
  shows "\<exists>s'. ss_Build s = Some (acyclic (depGraph s), s') \<and> sameCore s s' \<and>
     ss_built s' = acyclic (depGraph s) \<and> (ss_lastError s' = []) = acyclic (depGraph s) \<and>
     (acyclic (depGraph s) \<longrightarrow> plan_ok s')"
proof -
  define s0 where "s0 = s\<lparr>ss_lastError := [], ss_executionOrder := [], ss_parallelBatches := []\<rparr>"
  have core: "sameCore s s0" by (simp add: s0_def sameCore_def)
  have gw: "groups_wf s" and dw: "deps_wf s" using wf by (simp_all add: ss_wf_def)
  have c1: "deps_wf s0" using dw sameCore_transfer(1) [OF core] by simp
  have c2: "distinct (map fst (ss_stageGroups s))" using gw by (simp add: groups_wf_def umap_wf_def)
  have c3: "\<forall>g\<in>set (ss_stageGroups s). distinct (snd g) \<and> length (snd g) < 4294967296
      \<and> (\<forall>i\<in>set (snd g). map_of (ss_systems s0) i \<noteq> None)"
    using groups_wf_ids [OF gw] small by (fastforce simp: s0_def)
  have build: "ss_Build s = buildStages (ss_stageGroups s) s0" by (simp add: ss_Build_def s0_def)
  have pl: "planned s0 s' g = planned s s' g" for s' g
    using core by (simp add: planned_def sameCore_transfer)
  note spec = buildStages_spec [OF c1 c2 c3, unfolded sameCore_transfer(2) [OF core], folded build acyclic_depGraph_iff [OF wf]]
  from spec show ?thesis
  proof (elim disjE conjE exE)
    fix s'
    assume ac: "acyclic (depGraph s)" and b: "ss_Build s = Some (True, s')" "ss_built s'"
      and c: "sameCore s0 s'" and e: "ss_lastError s' = ss_lastError s0"
      and p: "\<forall>g\<in>set (ss_stageGroups s). planned s0 s' g"
      and f: "\<forall>st. st \<notin> fst ` set (ss_stageGroups s) \<longrightarrow>
           map_of (ss_executionOrder s') st = map_of (ss_executionOrder s0) st \<and>
           map_of (ss_parallelBatches s') st = map_of (ss_parallelBatches s0) st"
    have cs: "sameCore s s'" using core c by (rule sameCore_trans)
    have sys: "ss_systems s' = ss_systems s" using cs by (simp add: sameCore_def)
    have "plan_ok s'"
      unfolding plan_ok_def sys sameCore_transfer [OF cs]
    proof
      fix st
      show "distinct (ss_GetExecutionOrder s' st) \<and>
         set (ss_GetExecutionOrder s' st) = {i. \<exists>e. map_of (ss_systems s) i = Some e \<and> se_stage e = st} \<and>
         topoOrder (depGraph s) (ss_GetExecutionOrder s' st) \<and>
         good_batches s (ss_GetExecutionOrder s' st) (ss_GetParallelBatches s' st)"
      proof (cases "st \<in> fst ` set (ss_stageGroups s)")
        case True
        then obtain g where "g \<in> set (ss_stageGroups s)" "fst g = st" by auto
        with planned_stage [OF wf, of g s'] p pl show ?thesis by auto
      next
        case False
        with f have "ss_GetExecutionOrder s' st = []" "ss_GetParallelBatches s' st = []"
          by (simp_all add: ss_GetExecutionOrder_def ss_GetParallelBatches_def entriesOf_def s0_def)
        with unplanned_stage [OF wf False] show ?thesis
          by (simp add: topoOrder_def good_batches_def)
      qed
    qed
    with ac b e cs show ?thesis by (simp add: s0_def)
  next
    fix s'
    assume "\<not> acyclic (depGraph s)" "ss_Build s = Some (False, s')" "\<not> ss_built s'" "sameCore s0 s'"
      "ss_lastError s' \<noteq> []"
    then show ?thesis using sameCore_trans [OF core] by simp
  qed
qed

section \<open>Reachable schedulers\<close>

definition kInvalidSystemTypeId :: SystemTypeId where "kInvalidSystemTypeId = - 1"

definition sched_inv :: "'w SystemScheduler \<Rightarrow> bool" where
  "sched_inv s \<longleftrightarrow> ss_wf s \<and> map_of (ss_systems s) kInvalidSystemTypeId = None \<and>
     (ss_built s \<longrightarrow> plan_ok s)"

text \<open>One call of the public interface; type identifiers come from a counter that starts at 0
  and never reaches the reserved value.\<close>

inductive sched_step :: "(SystemTypeId \<Rightarrow> rat \<Rightarrow> 'w task) \<Rightarrow> 'w SystemScheduler \<Rightarrow> 'w SystemScheduler \<Rightarrow> bool"
  for run where
  sched_register: "i \<noteq> kInvalidSystemTypeId \<Longrightarrow> sched_step run s (ss_Register i sys s)"
| sched_depend: "sched_step run s (snd (ss_AddDependency a b s))"
| sched_enable: "sched_step run s (ss_SetEnabled i en s)"
| sched_sync: "sched_step run s (ss_AddSyncPoint i s)"
| sched_executor: "sched_step run s (ss_SetParallelExecutor ex s)"
| sched_parallel: "sched_step run s (ss_EnableParallelExecution en s)"
| sched_fixed: "ss_SetFixedTimeStep t s = Some s' \<Longrightarrow> sched_step run s s'"
| sched_build: "ss_Build s = Some (ok, s') \<Longrightarrow> sched_step run s s'"
| sched_execute: "ss_Execute run dt s w = Some (s', w') \<Longrightarrow> sched_step run s s'"

inductive sched_reachable :: "(SystemTypeId \<Rightarrow> rat \<Rightarrow> 'w task) \<Rightarrow> 'w SystemScheduler \<Rightarrow> bool"
  for run where
  sched_init: "sched_reachable run emptyScheduler"
| sched_next: "sched_reachable run s \<Longrightarrow> sched_step run s s' \<Longrightarrow> sched_reachable run s'"

lemma system_count_small:
  assumes "sched_inv s"
  shows "ss_SystemCount s < 4294967296"
proof -
  have d: "distinct (map fst (ss_systems s))"
    using assms by (simp add: sched_inv_def ss_wf_def groups_wf_def umap_wf_def)
  have "kInvalidSystemTypeId \<notin> set (map fst (ss_systems s))"
    using assms by (simp add: sched_inv_def map_of_eq_None_iff)
  then have "card (set (map fst (ss_systems s))) < card (UNIV :: u32 set)"
    by (intro psubset_card_mono) auto
  moreover have "card (set (map fst (ss_systems s))) = ss_SystemCount s"
    using distinct_card [OF d] by (simp add: ss_SystemCount_def)
  ultimately show ?thesis by (simp add: card_word)
qed

lemma wf_register:
  assumes wf: "ss_wf s" and new: "map_of (ss_systems s) i = None"
  shows "ss_wf (ss_Register i sys s)"
proof -
  let ?s = "ss_Register i sys s"
  have sys: "map_of (ss_systems ?s) = (map_of (ss_systems s))(i \<mapsto> \<lparr>se_instance = sys, se_typeId = i,
      se_stage = is_GetStage sys, se_enabled = True\<rparr>)"
    using new by (simp add: ss_Register_def update_conv')
  have grp: "entriesOf (ss_stageGroups ?s) st = entriesOf (ss_stageGroups s) st
      @ (if st = is_GetStage sys then [i] else [])" for st
    using new by (simp add: ss_Register_def)
  have rest: "ss_dependencies ?s = ss_dependencies s" "ss_reverseDeps ?s = ss_reverseDeps s"
    using new by (simp_all add: ss_Register_def)
  have g: "groups_wf s" and d: "deps_wf s" using wf by (simp_all add: ss_wf_def)
  have mem: "j \<in> set (entriesOf (ss_stageGroups s) st)
        \<longleftrightarrow> (\<exists>e. map_of (ss_systems s) j = Some e \<and> se_stage e = st)" for j st
    using g unfolding groups_wf_def by blast
  have "i \<notin> set (entriesOf (ss_stageGroups s) st)" for st using mem new by simp
  then have "groups_wf ?s"
    using g new mem unfolding groups_wf_def grp sys
    by (auto simp: ss_Register_def)
  moreover have "sameStage ?s a b" if "sameStage s a b" for a b
    using that new by (auto simp: sameStage_def sys)
  then have "deps_wf ?s" using d by (auto simp: deps_wf_def rest)
  ultimately show ?thesis by (simp add: ss_wf_def)
qed

lemma wf_add_dependency:
  assumes "ss_wf s"
  shows "ss_wf (snd (ss_AddDependency a b s))"
  using assms
  by (auto simp: ss_AddDependency_def ss_wf_def deps_wf_def groups_wf_def sameStage_def
      split: option.splits) (metis option.inject)

text \<open>Changing the enabled flag keeps everything the plan depends on.\<close>

lemma set_enabled_frame:
  assumes "s' = ss_SetEnabled i en s"
  shows "map_option se_stage (map_of (ss_systems s') j) = map_option se_stage (map_of (ss_systems s) j)"
    "map_option se_instance (map_of (ss_systems s') j) = map_option se_instance (map_of (ss_systems s) j)"
    "map_of (ss_systems s') j = None \<longleftrightarrow> map_of (ss_systems s) j = None"
    "umap_wf (ss_systems s) \<Longrightarrow> umap_wf (ss_systems s')"
    "ss_stageGroups s' = ss_stageGroups s" "ss_dependencies s' = ss_dependencies s"
    "ss_reverseDeps s' = ss_reverseDeps s" "ss_syncPoints s' = ss_syncPoints s"
    "ss_executionOrder s' = ss_executionOrder s" "ss_parallelBatches s' = ss_parallelBatches s"
    "ss_built s' = ss_built s"
  using assms by (auto simp: ss_SetEnabled_def update_conv' split: option.splits)

lemma sameStage_iff:
  "sameStage s a b \<longleftrightarrow> (\<exists>t. (\<exists>e. map_of (ss_systems s) a = Some e \<and> se_stage e = t)
     \<and> (\<exists>e. map_of (ss_systems s) b = Some e \<and> se_stage e = t))"
  by (auto simp: sameStage_def)

lemma set_enabled_inv:
  assumes "sched_inv s"
  shows "sched_inv (ss_SetEnabled i en s)"
proof -
  define s' where "s' = ss_SetEnabled i en s"
  note F = set_enabled_frame [OF s'_def]
  have st: "(\<exists>e. map_of (ss_systems s') j = Some e \<and> se_stage e = t)
      \<longleftrightarrow> (\<exists>e. map_of (ss_systems s) j = Some e \<and> se_stage e = t)" for j t
    using F(1) [of j] by (cases "map_of (ss_systems s') j"; cases "map_of (ss_systems s) j") auto
  have same: "sameStage s' a b = sameStage s a b" for a b
    unfolding sameStage_iff by (simp only: st)
  have acc: "accessOf s' = accessOf s"
  proof
    fix j
    show "accessOf s' j = accessOf s j"
      using F(2) [of j] F(3) [of j]
      by (cases "map_of (ss_systems s') j"; cases "map_of (ss_systems s) j")
         (auto simp: accessOf_def)
  qed
  have gb: "good_batches s' o1 b1 = good_batches s o1 b1" for o1 b1
    by (simp add: good_batches_def acc F depGraph_def)
  have "ss_wf s'"
    using assms F(4)
    by (simp add: sched_inv_def ss_wf_def deps_wf_def groups_wf_def same st F(5-7))
  moreover have "plan_ok s' = plan_ok s"
    by (simp add: plan_ok_def ss_GetExecutionOrder_def ss_GetParallelBatches_def F(9,10) st gb
        depGraph_def F(6))
  ultimately show ?thesis
    using assms F(3,11) by (simp add: sched_inv_def flip: s'_def)
qed

lemma ss_Execute_frame:
  assumes "ss_Execute run dt s w = Some (s', w')"
  shows "\<exists>acc. s' = s\<lparr>ss_fixedTimeAccumulator := acc\<rparr>"
proof
  show "s' = s\<lparr>ss_fixedTimeAccumulator := ss_fixedTimeAccumulator s'\<rparr>"
    using assms by (auto simp: ss_Execute_def split: if_splits option.splits)
qed

lemma sched_inv_core:
  assumes "sched_inv s" "sameCore s s'" "ss_built s' \<longrightarrow> plan_ok s'"
  shows "sched_inv s'"
  using assms sameCore_transfer(1) [OF assms(2)]
  by (simp add: sched_inv_def ss_wf_def groups_wf_def) (simp add: sameCore_def)

lemma plan_ok_frame:
  assumes "ss_systems s' = ss_systems s" "ss_dependencies s' = ss_dependencies s"
    "ss_syncPoints s' = ss_syncPoints s" "ss_executionOrder s' = ss_executionOrder s"
    "ss_parallelBatches s' = ss_parallelBatches s"
  shows "plan_ok s' = plan_ok s"
  using assms
  by (simp add: plan_ok_def ss_GetExecutionOrder_def ss_GetParallelBatches_def good_batches_def
      depGraph_def accessOf_def)

text \<open>A configuration call that touches neither systems, dependencies, sync points nor the plan.\<close>

lemma sched_inv_frame:
  assumes "sched_inv s" "ss_systems s' = ss_systems s" "ss_stageGroups s' = ss_stageGroups s"
    "ss_dependencies s' = ss_dependencies s" "ss_reverseDeps s' = ss_reverseDeps s"
    "ss_syncPoints s' = ss_syncPoints s" "ss_executionOrder s' = ss_executionOrder s"
    "ss_parallelBatches s' = ss_parallelBatches s" "ss_built s' = ss_built s"
  shows "sched_inv s'"
  using assms plan_ok_frame [of s' s]
  by (simp add: sched_inv_def ss_wf_def deps_wf_def groups_wf_def sameStage_def)

lemma sched_inv_step:
  assumes inv: "sched_inv s" and step: "sched_step run s s'"
  shows "sched_inv s'"
  using step
proof cases
  case (sched_register i sys)
  show ?thesis
  proof (cases "map_of (ss_systems s) i")
    case None
    with wf_register [OF _ None] inv sched_register show ?thesis
      by (auto simp: sched_inv_def) (simp_all add: ss_Register_def update_conv')
  qed (use inv sched_register in \<open>simp add: ss_Register_def\<close>)
next
  case (sched_depend a b)
  then show ?thesis
    using inv wf_add_dependency [of s a b]
    by (auto simp: sched_inv_def ss_AddDependency_def split: option.splits)
next
  case (sched_enable i en)
  then show ?thesis using set_enabled_inv [OF inv] by simp
next
  case (sched_sync i)
  then show ?thesis
    using inv
    by (simp add: ss_AddSyncPoint_def sched_inv_def ss_wf_def deps_wf_def groups_wf_def sameStage_def)
next
  case (sched_build ok)
  then have "sameCore s s'" "ss_built s' \<longrightarrow> plan_ok s'"
    using ss_Build_spec [OF _ system_count_small [OF inv]] inv by (auto simp: sched_inv_def)
  with inv show ?thesis by (rule sched_inv_core)
next
  case (sched_execute dt w w')
  from ss_Execute_frame [OF this] obtain acc where "s' = s\<lparr>ss_fixedTimeAccumulator := acc\<rparr>" ..
  then show ?thesis by (intro sched_inv_frame [OF inv]) simp_all
qed (rule sched_inv_frame [OF inv]; auto simp: ss_SetParallelExecutor_def
      ss_EnableParallelExecution_def ss_SetFixedTimeStep_def split: if_splits)+

lemma sched_inv_reachable: "sched_reachable run s \<Longrightarrow> sched_inv s"
proof (induction rule: sched_reachable.induct)
  case sched_init
  show ?case
    by (simp add: sched_inv_def ss_wf_def deps_wf_def groups_wf_def emptyScheduler_def sameStage_def)
next
  case (sched_next s s')
  then show ?case by (blast intro: sched_inv_step)
qed

section \<open>What a stage executes\<close>

lemma topoOrder_iff_sorted_wrt:
  "topoOrder E l \<longleftrightarrow> sorted_wrt (\<lambda>x y. (y, x) \<notin> E) l \<and> (\<forall>x\<in>set l. (x, x) \<notin> E)"
proof
  assume t: "topoOrder E l"
  have "(l ! j, l ! i) \<notin> E" if "i < j" "j < length l" for i j
  proof
    assume "(l ! j, l ! i) \<in> E"
    then have "j < i" using t that by (simp add: topoOrder_def)
    with that show False by simp
  qed
  moreover have "(x, x) \<notin> E" if "x \<in> set l" for x
    using t that unfolding topoOrder_def by (metis in_set_conv_nth less_irrefl)
  ultimately show "sorted_wrt (\<lambda>x y. (y, x) \<notin> E) l \<and> (\<forall>x\<in>set l. (x, x) \<notin> E)"
    by (simp add: sorted_wrt_iff_nth_less)
next
  assume a: "sorted_wrt (\<lambda>x y. (y, x) \<notin> E) l \<and> (\<forall>x\<in>set l. (x, x) \<notin> E)"
  show "topoOrder E l"
    unfolding topoOrder_def
  proof (intro allI impI)
    fix i j assume h: "i < length l" "j < length l" "(l ! i, l ! j) \<in> E"
    then have "i \<noteq> j" using a nth_mem by metis
    moreover have "\<not> j < i" using a h by (auto simp: sorted_wrt_iff_nth_less)
    ultimately show "i < j" by simp
  qed
qed

lemma topoOrder_filter: "topoOrder E l \<Longrightarrow> topoOrder E (filter P l)"
  by (simp add: topoOrder_iff_sorted_wrt sorted_wrt_filter)

lemma sorted_wrt_concat:
  assumes "\<forall>b\<in>set bs. sorted_wrt P b"
    and "\<And>a c x y. a < c \<Longrightarrow> c < length bs \<Longrightarrow> x \<in> set (bs ! a) \<Longrightarrow> y \<in> set (bs ! c) \<Longrightarrow> P x y"
  shows "sorted_wrt P (concat bs)"
  using assms
proof (induction bs)
  case (Cons b bs)
  have "sorted_wrt P (concat bs)"
  proof (rule Cons.IH)
    show "\<forall>b\<in>set bs. sorted_wrt P b" using Cons.prems(1) by simp
    show "P x y" if "a < c" "c < length bs" "x \<in> set (bs ! a)" "y \<in> set (bs ! c)" for a c x y
      using Cons.prems(2) [of "Suc a" "Suc c"] that by simp
  qed
  moreover have "P x y" if "x \<in> set b" "y \<in> set (concat bs)" for x y
  proof -
    from that(2) obtain l where "l \<in> set bs" "y \<in> set l" by auto
    then obtain c where "c < length bs" "y \<in> set (bs ! c)" by (metis in_set_conv_nth)
    then show ?thesis using Cons.prems(2) [of 0 "Suc c" x y] that(1) by simp
  qed
  ultimately show ?case using Cons.prems(1) by (simp add: sorted_wrt_append)
qed simp

lemma good_batches_topo:
  assumes "good_batches s order batches"
  shows "topoOrder (depGraph s) (concat batches)"
proof -
  have dep: "\<And>a c x y. a < length batches \<Longrightarrow> c < length batches \<Longrightarrow> x \<in> set (batches ! a) \<Longrightarrow>
      y \<in> set (batches ! c) \<Longrightarrow> (x, y) \<in> depGraph s \<Longrightarrow> a < c"
    using assms unfolding good_batches_def by blast
  have inb: "\<exists>a. a < length batches \<and> x \<in> set (batches ! a)" if "x \<in> set (concat batches)" for x
    using that by (auto simp: in_set_conv_nth [of _ batches])
  have "sorted_wrt (\<lambda>x y. (y, x) \<notin> depGraph s) (concat batches)"
  proof (rule sorted_wrt_concat)
    show "\<forall>b\<in>set batches. sorted_wrt (\<lambda>x y. (y, x) \<notin> depGraph s) b"
    proof
      fix b assume "b \<in> set batches"
      then obtain a where a: "a < length batches" "b = batches ! a" by (metis in_set_conv_nth)
      have "(y, x) \<notin> depGraph s" if "x \<in> set b" "y \<in> set b" for x y
        using dep [of a a y x] a that by blast
      then show "sorted_wrt (\<lambda>x y. (y, x) \<notin> depGraph s) b"
        by (simp add: sorted_wrt_iff_nth_less)
    qed
    show "(y, x) \<notin> depGraph s" if "a < c" "c < length batches" "x \<in> set (batches ! a)"
      "y \<in> set (batches ! c)" for a c x y
      using dep [of c a y x] that by auto
  qed
  moreover have "(x, x) \<notin> depGraph s" if "x \<in> set (concat batches)" for x
    using inb [OF that] dep [of _ _ x x] by blast
  ultimately show ?thesis by (simp add: topoOrder_iff_sorted_wrt)
qed

text \<open>The documented contract of a parallel executor: it runs every task once and returns when
  all are done; the effect is that of the tasks in some order.\<close>

definition serializes :: "'w ParallelExecutor \<Rightarrow> bool" where
  "serializes ex \<longleftrightarrow> (\<forall>ts w. \<exists>ts'. mset ts' = mset ts \<and> ex ts w = fold (\<lambda>t. t) ts' w)"

text \<open>Systems whose declared accesses do not conflict commute.\<close>

definition access_sound :: "(SystemTypeId \<Rightarrow> rat \<Rightarrow> 'w task) \<Rightarrow> 'w SystemScheduler \<Rightarrow> bool" where
  "access_sound run s \<longleftrightarrow> (\<forall>i j dt. \<not> ConflictsWith (accessOf s i) (accessOf s j) \<longrightarrow>
     run i dt \<circ> run j dt = run j dt \<circ> run i dt)"

lemma serializes_commuting:
  assumes "serializes ex" "\<And>f g. f \<in> set ts \<Longrightarrow> g \<in> set ts \<Longrightarrow> f \<circ> g = g \<circ> f"
  shows "ex ts w = fold (\<lambda>t. t) ts w"
proof -
  obtain ts' where ts': "mset ts' = mset ts" "ex ts w = fold (\<lambda>t. t) ts' w"
    using assms(1) unfolding serializes_def by blast
  have "fold (\<lambda>t. t) ts = fold (\<lambda>t. t) ts'"
    using assms(2) ts'(1) by (intro fold_multiset_equiv) auto
  with ts'(2) show ?thesis by simp
qed

lemma executeBatch_eq:
  assumes "serializes ex" "access_sound run s"
    and "\<forall>i\<in>set b. map_of (ss_systems s) i \<noteq> None"
    and conf: "\<forall>x\<in>set b. \<forall>y\<in>set b. x \<noteq> y \<longrightarrow> \<not> ConflictsWith (accessOf s x) (accessOf s y)"
  shows "executeBatch run s ex dt b w = Some (fold (\<lambda>i. run i dt) (filter (ss_IsEnabled s) b) w)"
proof -
  define ts where "ts = map (\<lambda>i. run i dt) (filter (ss_IsEnabled s) b)"
  have "ex ts w = fold (\<lambda>t. t) ts w"
  proof (rule serializes_commuting [OF assms(1)])
    fix f g assume "f \<in> set ts" "g \<in> set ts"
    then obtain i j where "f = run i dt" "g = run j dt" "i \<in> set b" "j \<in> set b"
      by (auto simp: ts_def)
    then show "f \<circ> g = g \<circ> f"
      using assms(2) conf unfolding access_sound_def by (cases "i = j") auto
  qed
  moreover have "fold (\<lambda>t. t) ts w = fold (\<lambda>i. run i dt) (filter (ss_IsEnabled s) b) w"
    by (simp add: ts_def fold_map comp_def)
  moreover have "enabledTasks run s dt b = Some ts"
    using assms(3) by (simp add: enabledTasks_def ts_def list_all_iff)
  ultimately show ?thesis
    by (auto simp: executeBatch_def split: list.splits)
qed

lemma executeBatches_eq:
  assumes "serializes ex" "access_sound run s"
    and "\<forall>b\<in>set bs. (\<forall>i\<in>set b. map_of (ss_systems s) i \<noteq> None) \<and>
      (\<forall>x\<in>set b. \<forall>y\<in>set b. x \<noteq> y \<longrightarrow> \<not> ConflictsWith (accessOf s x) (accessOf s y))"
  shows "executeBatches run s ex dt bs w
    = Some (fold (\<lambda>i. run i dt) (filter (ss_IsEnabled s) (concat bs)) w)"
  using assms(3)
proof (induction bs arbitrary: w)
  case (Cons b bs)
  then show ?case using executeBatch_eq [OF assms(1,2), of b dt w] by simp
qed simp

lemma plan_registered:
  assumes "plan_ok s" "i \<in> set (ss_GetExecutionOrder s st)"
  shows "map_of (ss_systems s) i \<noteq> None"
proof -
  have "set (ss_GetExecutionOrder s st) = {i. \<exists>e. map_of (ss_systems s) i = Some e \<and> se_stage e = st}"
    using assms(1) unfolding plan_ok_def by blast
  with assms(2) show ?thesis by auto
qed

lemma plan_batches:
  assumes "plan_ok s"
  shows "good_batches s (ss_GetExecutionOrder s st) (ss_GetParallelBatches s st)"
    "mset (concat (ss_GetParallelBatches s st)) = mset (ss_GetExecutionOrder s st)"
    "\<forall>b\<in>set (ss_GetParallelBatches s st). (\<forall>i\<in>set b. map_of (ss_systems s) i \<noteq> None) \<and>
      (\<forall>x\<in>set b. \<forall>y\<in>set b. x \<noteq> y \<longrightarrow> \<not> ConflictsWith (accessOf s x) (accessOf s y))"
proof -
  show gb: "good_batches s (ss_GetExecutionOrder s st) (ss_GetParallelBatches s st)"
    using assms unfolding plan_ok_def by blast
  then show perm: "mset (concat (ss_GetParallelBatches s st)) = mset (ss_GetExecutionOrder s st)"
    by (simp add: good_batches_def)
  show "\<forall>b\<in>set (ss_GetParallelBatches s st). (\<forall>i\<in>set b. map_of (ss_systems s) i \<noteq> None) \<and>
      (\<forall>x\<in>set b. \<forall>y\<in>set b. x \<noteq> y \<longrightarrow> \<not> ConflictsWith (accessOf s x) (accessOf s y))"
  proof
    fix b assume b: "b \<in> set (ss_GetParallelBatches s st)"
    then obtain k where "k < length (ss_GetParallelBatches s st)" "ss_GetParallelBatches s st ! k = b"
      by (metis in_set_conv_nth)
    with gb have "\<forall>x\<in>set b. \<forall>y\<in>set b. x \<noteq> y \<longrightarrow> \<not> ConflictsWith (accessOf s x) (accessOf s y)"
      unfolding good_batches_def by blast
    moreover have "set b \<subseteq> set (ss_GetExecutionOrder s st)"
      using b mset_eq_setD [OF perm] by auto
    ultimately show "(\<forall>i\<in>set b. map_of (ss_systems s) i \<noteq> None) \<and>
      (\<forall>x\<in>set b. \<forall>y\<in>set b. x \<noteq> y \<longrightarrow> \<not> ConflictsWith (accessOf s x) (accessOf s y))"
      using plan_registered [OF assms] by blast
  qed
qed

lemma executeStage_sequential:
  assumes "plan_ok s" "\<not> (ss_parallelEnabled s \<and> ss_parallelExecutor s \<noteq> None)"
  shows "executeStage run s st dt w
    = Some (fold (\<lambda>i. run i dt) (filter (ss_IsEnabled s) (ss_GetExecutionOrder s st)) w)"
proof -
  have "enabledTasks run s dt order = Some (map (\<lambda>i. run i dt) (filter (ss_IsEnabled s) order))"
    if "map_of (ss_executionOrder s) st = Some order" for order
    using plan_registered [OF assms(1), of _ st] that
    by (auto simp: enabledTasks_def list_all_iff ss_GetExecutionOrder_def entriesOf_def)
  then show ?thesis
    using assms(2)
    by (cases "ss_parallelEnabled s"; cases "ss_parallelExecutor s";
        cases "map_of (ss_executionOrder s) st")
       (auto simp: executeStage_def ss_GetExecutionOrder_def entriesOf_def fold_map comp_def)
qed

lemma executeStage_parallel:
  assumes "plan_ok s" "ss_parallelEnabled s" "ss_parallelExecutor s = Some ex"
    and "serializes ex" "access_sound run s"
  shows "executeStage run s st dt w
    = Some (fold (\<lambda>i. run i dt) (filter (ss_IsEnabled s) (concat (ss_GetParallelBatches s st))) w)"
  using executeBatches_eq [OF assms(4,5) plan_batches(3) [OF assms(1), of st], of dt w] assms(2,3)
  by (cases "map_of (ss_parallelBatches s) st")
     (auto simp: executeStage_def ss_GetParallelBatches_def entriesOf_def)

lemma executeBatches_total:
  "\<forall>b\<in>set bs. \<forall>i\<in>set b. map_of (ss_systems s) i \<noteq> None \<Longrightarrow> \<exists>w'. executeBatches run s ex dt bs w = Some w'"
proof (induction bs arbitrary: w)
  case (Cons b bs)
  have "\<exists>w'. executeBatch run s ex dt b w = Some w'"
    using Cons.prems by (auto simp: executeBatch_def enabledTasks_def list_all_iff split: list.splits)
  with Cons show ?case by auto
qed simp

lemma executeStage_total:
  assumes "plan_ok s"
  shows "\<exists>w'. executeStage run s st dt w = Some w'"
proof (cases "ss_parallelEnabled s \<and> ss_parallelExecutor s \<noteq> None")
  case True
  then obtain ex where ex: "ss_parallelEnabled s" "ss_parallelExecutor s = Some ex" by auto
  have "\<exists>w'. executeBatches run s ex dt (ss_GetParallelBatches s st) w = Some w'"
    using plan_batches(3) [OF assms, of st] by (intro executeBatches_total) blast
  with ex show ?thesis
    by (cases "map_of (ss_parallelBatches s) st")
       (auto simp: executeStage_def ss_GetParallelBatches_def entriesOf_def)
qed (use executeStage_sequential [OF assms] in blast)

section \<open>The fixed-step loop\<close>

text \<open>An accumulator of at most \<open>2 ^ 23\<close> steps loses at least one quantum per turn.\<close>

lemma quantum_le_step:
  assumes acc: "0 < acc" "acc \<le> 8388608 * step" and step: "is_f32 step" "0 < step"
  shows "2 powi quantum 24 (- 149) acc \<le> step"
proof (cases "quantum 24 (- 149) acc = - 149")
  case True
  obtain i where i: "step = of_int i * 2 powi quantum 24 (- 149) step"
    using step by (auto simp: representable_def)
  with step(2) have "0 < (of_int i :: rat)" using two_powi_pos
    by (metis zero_less_mult_pos2)
  then have "1 \<le> (of_int i :: rat)" by simp
  then have "2 powi quantum 24 (- 149) step \<le> step"
    by (subst (2) i) simp
  moreover have "(2 :: rat) powi (- 149) \<le> 2 powi quantum 24 (- 149) step"
    by (subst two_powi_le_iff) (simp add: quantum_def)
  ultimately show ?thesis using True by simp
next
  case False
  then have q: "quantum 24 (- 149) acc = ilog2 acc + - 23"
    using acc(1) by (auto simp: quantum_def)
  have "2 powi quantum 24 (- 149) acc = 2 powi ilog2 acc * (2 :: rat) powi (- 23)"
    unfolding q by (rule two_powi_add)
  also have "\<dots> = 2 powi ilog2 acc / 8388608" by (simp add: power_int_def power_divide)
  also have "\<dots> \<le> acc / 8388608" using ilog2_bounds(1) [OF acc(1)] by (intro divide_right_mono) auto
  also have "\<dots> \<le> step" using acc(2) by simp
  finally show ?thesis .
qed

lemma fixed_turn_decreases:
  assumes acc: "is_f32 acc" "step \<le> acc" "acc \<le> 8388608 * step" and step: "is_f32 step" "0 < step"
  shows "0 \<le> f32 (acc - step)" "f32 (acc - step) \<le> acc - 2 powi (- 149)"
    "is_f32 (f32 (acc - step))"
proof -
  have pos: "0 < acc" using acc(2) step(2) by simp
  show "0 \<le> f32 (acc - step)" using acc(2) by (simp add: f32_def rnd_nonneg)
  have "f32 (acc - step) \<le> acc - 2 powi quantum 24 (- 149) acc"
    unfolding f32_def
    using rnd_diff_le [OF _ acc(1) pos quantum_le_step [OF pos acc(3) step] acc(2)] by simp
  also have "\<dots> \<le> acc - 2 powi (- 149)"
    by (intro diff_left_mono, subst two_powi_le_iff) (simp add: quantum_def)
  finally show "f32 (acc - step) \<le> acc - 2 powi (- 149)" .
  show "is_f32 (f32 (acc - step))"
    unfolding f32_def using acc(2) by (intro representable_rnd) auto
qed

lemma fixedLoop_total:
  assumes plan: "plan_ok s" and step: "is_f32 (ss_fixedTimeStep s)" "0 < ss_fixedTimeStep s"
    and acc: "is_f32 acc" "0 \<le> acc" "acc \<le> 8388608 * ss_fixedTimeStep s"
  shows "\<exists>acc' w'. fixedLoop run s acc w = Some (acc', w') \<and> 0 \<le> acc' \<and> acc' < ss_fixedTimeStep s"
  using acc
proof (induction "nat \<lfloor>acc / 2 powi (- 149)\<rfloor>" arbitrary: acc w rule: less_induct)
  case less
  show ?case
  proof (cases "ss_fixedTimeStep s \<le> acc")
    case False
    then show ?thesis using less.prems by (subst fixedLoop.simps) simp
  next
    case True
    define acc' where "acc' = f32 (acc - ss_fixedTimeStep s)"
    note T = fixed_turn_decreases [OF less.prems(1) True less.prems(3) step, folded acc'_def]
    obtain w' where w': "executeStage run s FixedUpdate (ss_fixedTimeStep s) w = Some w'"
      using executeStage_total [OF plan] by blast
    have "acc' / 2 powi (- 149) \<le> (acc - 2 powi (- 149)) / 2 powi (- 149)"
      using T(2) by (intro divide_right_mono) auto
    then have "acc' / 2 powi (- 149) + 1 \<le> acc / 2 powi (- 149)"
      by (simp add: diff_divide_distrib)
    moreover have "0 \<le> acc' / 2 powi (- 149)" using T(1) by simp
    ultimately have "nat \<lfloor>acc' / 2 powi (- 149)\<rfloor> < nat \<lfloor>acc / 2 powi (- 149)\<rfloor>"
      by linarith
    moreover have "acc' \<le> acc" using T(2) two_powi_pos [of "- 149"] by linarith
    then have "acc' \<le> 8388608 * ss_fixedTimeStep s" using less.prems(3) by linarith
    ultimately show ?thesis
      using less.hyps [of acc' w'] T w' True by (subst fixedLoop.simps) (simp add: acc'_def)
  qed
qed

section \<open>A small configuration\<close>

text \<open>Four systems of the update stage: the first two write component 1, the others write
  components of their own, and the third is a sync point.\<close>

definition demoSystem :: "string \<Rightarrow> u32 \<Rightarrow> ISystem" where
  "demoSystem name w = \<lparr>is_GetName = name, is_GetStage = Update,
     is_GetAccessInfo = \<lparr>ai_reads = [], ai_writes = [w]\<rparr>\<rparr>"

definition demoScheduler :: "'w SystemScheduler" where
  "demoScheduler = ss_AddSyncPoint 2 (ss_Register 3 (demoSystem ''D'' 3)
     (ss_Register 2 (demoSystem ''C'' 2) (ss_Register 1 (demoSystem ''B'' 1)
       (ss_Register 0 (demoSystem ''A'' 1) emptyScheduler))))"

definition demoBuilt :: "'w SystemScheduler" where
  "demoBuilt = snd (the (ss_Build demoScheduler))"

lemma demo_reachable: "sched_reachable run demoScheduler"
  unfolding demoScheduler_def
  by (intro sched_next [OF _ sched_sync] sched_next [OF _ sched_register] sched_init)
     (simp_all add: kInvalidSystemTypeId_def)

lemma demo_build_result:
  "case ss_Build (demoScheduler :: nat SystemScheduler) of None \<Rightarrow> False
   | Some (ok, s) \<Rightarrow> ok \<and> ss_built s \<and> ss_GetExecutionOrder s Update = [0, 1, 2, 3] \<and>
       ss_GetParallelBatches s Update = [[0, 2], [1, 3]] \<and> 2 \<in> set (ss_syncPoints s) \<and>
       ss_fixedTimeStep s = f32 (1 / 60) \<and> 1 / 64 < f32 (1 / 60) \<and> ss_fixedTimeAccumulator s = 0 \<and>
       f32 (1 / 64) = 1 / 64"
  by code_simp

lemma demo_build:
  "ss_Build demoScheduler = Some (True, demoBuilt :: nat SystemScheduler)"
  "ss_built (demoBuilt :: nat SystemScheduler)"
  "ss_GetExecutionOrder (demoBuilt :: nat SystemScheduler) Update = [0, 1, 2, 3]"
  "ss_GetParallelBatches (demoBuilt :: nat SystemScheduler) Update = [[0, 2], [1, 3]]"
  "2 \<in> set (ss_syncPoints (demoBuilt :: nat SystemScheduler))"
  "ss_fixedTimeStep (demoBuilt :: nat SystemScheduler) = f32 (1 / 60)"
  "1 / 64 < f32 (1 / 60)"
  "ss_fixedTimeAccumulator (demoBuilt :: nat SystemScheduler) = 0"
  "f32 (1 / 64) = 1 / 64"
  using demo_build_result by (auto simp: demoBuilt_def split: option.splits)

lemma demo_built_reachable: "sched_reachable run (demoBuilt :: nat SystemScheduler)"
  using sched_next [OF demo_reachable sched_build] demo_build by blast

definition addRun :: "SystemTypeId \<Rightarrow> rat \<Rightarrow> nat task" where
  "addRun i dt w = w + unat i + 1"

definition reverseExecutor :: "'w ParallelExecutor" where
  "reverseExecutor ts w = fold (\<lambda>t. t) (rev ts) w"

definition demoParallel :: "nat SystemScheduler" where
  "demoParallel = ss_EnableParallelExecution True (ss_SetParallelExecutor (Some reverseExecutor) demoBuilt)"

lemma demo_parallel:
  "sched_reachable addRun demoParallel" "ss_built demoParallel"
  "ss_parallelExecutor demoParallel = Some reverseExecutor"
  unfolding demoParallel_def
  using demo_build(2)
  by (intro sched_next [OF _ sched_parallel] sched_next [OF _ sched_executor] demo_built_reachable)
     (simp_all add: ss_EnableParallelExecution_def ss_SetParallelExecutor_def demo_build(2))

lemma reverse_serializes: "serializes reverseExecutor"
  unfolding serializes_def reverseExecutor_def by (metis mset_rev)

lemma addRun_sound: "access_sound addRun s"
  by (simp add: access_sound_def addRun_def fun_eq_iff)

section \<open>Properties\<close>



text \<open>Executing a stage. Whatever was configured since the last build, executing a
  stage of a built scheduler runs each enabled system of the stage exactly once, none of another
  stage, in an order that respects the dependencies. In parallel mode this holds for every
  executor that runs each task of a batch once in an order of its choice, provided systems
  without conflicting declared accesses commute: the outcome does not depend on that order.\<close>

theorem scheduler_stage_execution:
  assumes "sched_reachable run s" "ss_built s" "access_sound run s"
    and "\<forall>ex. ss_parallelExecutor s = Some ex \<longrightarrow> serializes ex"
  shows "\<exists>l. executeStage run s st dt w = Some (fold (\<lambda>i. run i dt) l w) \<and> distinct l \<and>
     set l = {i. \<exists>e. map_of (ss_systems s) i = Some e \<and> se_stage e = st \<and> se_enabled e} \<and>
     topoOrder (depGraph s) l"
proof -
  have plan: "plan_ok s" using sched_inv_reachable [OF assms(1)] assms(2) by (simp add: sched_inv_def)
  define order where "order = (if ss_parallelEnabled s \<and> ss_parallelExecutor s \<noteq> None
     then concat (ss_GetParallelBatches s st) else ss_GetExecutionOrder s st)"
  have run: "executeStage run s st dt w = Some (fold (\<lambda>i. run i dt) (filter (ss_IsEnabled s) order) w)"
    using executeStage_sequential [OF plan] executeStage_parallel [OF plan] assms(3,4)
    by (auto simp: order_def)
  have P: "distinct (ss_GetExecutionOrder s st)" "topoOrder (depGraph s) (ss_GetExecutionOrder s st)"
    "set (ss_GetExecutionOrder s st) = {i. \<exists>e. map_of (ss_systems s) i = Some e \<and> se_stage e = st}"
    using plan unfolding plan_ok_def by blast+
  have "mset order = mset (ss_GetExecutionOrder s st)"
    using plan_batches(2) [OF plan] by (simp add: order_def)
  then have "distinct order" "set order = set (ss_GetExecutionOrder s st)"
    using P(1) by (metis mset_eq_imp_distinct_iff, metis mset_eq_setD)
  moreover have "topoOrder (depGraph s) order"
    using P(2) good_batches_topo [OF plan_batches(1) [OF plan]] by (simp add: order_def)
  ultimately show ?thesis
    using run P(3) topoOrder_filter [of _ order "ss_IsEnabled s"]
    by (intro exI [of _ "filter (ss_IsEnabled s) order"]) (auto simp: ss_IsEnabled_def)
qed

theorem scheduler_stage_execution_witness:
  "\<exists>l. executeStage addRun demoParallel Update 1 0 = Some (fold (\<lambda>i. addRun i 1) l 0) \<and> distinct l \<and>
     set l = {i. \<exists>e. map_of (ss_systems demoParallel) i = Some e \<and> se_stage e = Update \<and> se_enabled e} \<and>
     topoOrder (depGraph demoParallel) l"
  using scheduler_stage_execution [OF demo_parallel(1,2) addRun_sound, of Update 1 0]
    demo_parallel(3) reverse_serializes by simp

text \<open>The fixed-step loop ends. Executing a frame on a built scheduler returns, as long as the
  accumulated time is at most \<open>2 ^ 23\<close> fixed steps, and leaves less than one step (and no negative
  time) in the accumulator, for single-precision arithmetic with rounding.\<close>

theorem scheduler_fixed_update:
  assumes "sched_reachable run s" "ss_built s"
    and "is_f32 (ss_fixedTimeStep s)" "0 < ss_fixedTimeStep s"
    and "0 \<le> ss_fixedTimeAccumulator s + dt"
    and "f32 (ss_fixedTimeAccumulator s + dt) \<le> 8388608 * ss_fixedTimeStep s"
  shows "\<exists>s' w'. ss_Execute run dt s w = Some (s', w') \<and>
     (ss_GetExecutionOrder s FixedUpdate \<noteq> [] \<longrightarrow>
        0 \<le> ss_fixedTimeAccumulator s' \<and> ss_fixedTimeAccumulator s' < ss_fixedTimeStep s')"
proof -
  have plan: "plan_ok s" using sched_inv_reachable [OF assms(1)] assms(2) by (simp add: sched_inv_def)
  have stages: "\<exists>w'. executeStages run s dt sts w = Some w'" for sts w
  proof (induction sts arbitrary: w)
    case (Cons st sts)
    then show ?case using executeStage_total [OF plan, of run st dt w] by auto
  qed simp
  then obtain w1 where w1: "executeStages run s dt [PreUpdate, Update, PostUpdate] w = Some w1" by blast
  define acc where "acc = f32 (ss_fixedTimeAccumulator s + dt)"
  have "is_f32 acc" "0 \<le> acc"
    unfolding acc_def f32_def using assms(5) by (simp_all add: representable_rnd rnd_nonneg)
  then obtain acc' w2 where "fixedLoop run s acc w1 = Some (acc', w2)" "0 \<le> acc'" "acc' < ss_fixedTimeStep s"
    using fixedLoop_total [OF plan assms(3,4)] assms(6) unfolding acc_def by blast
  then show ?thesis
    using w1 assms(2) unfolding acc_def
    by (cases "ss_GetExecutionOrder s FixedUpdate = []") (simp_all add: ss_Execute_def del: executeStages.simps)
qed

theorem scheduler_fixed_update_witness:
  "\<exists>s' w'. ss_Execute addRun (1 / 64) demoBuilt 0 = Some (s', w') \<and>
     (ss_GetExecutionOrder (demoBuilt :: nat SystemScheduler) FixedUpdate \<noteq> [] \<longrightarrow>
        0 \<le> ss_fixedTimeAccumulator s' \<and> ss_fixedTimeAccumulator s' < ss_fixedTimeStep s')"
proof (rule scheduler_fixed_update [OF demo_built_reachable demo_build(2)])
  show "is_f32 (ss_fixedTimeStep (demoBuilt :: nat SystemScheduler))"
    unfolding demo_build f32_def by (rule representable_rnd) auto
qed (use demo_build(7) in \<open>simp_all add: demo_build\<close>)

text \<open>A sync point is weaker than documented. The header promises that all systems up
  to and including the sync point complete before any later system of the stage may start. Only
  the sync point itself is ordered before the later systems: here the order is A, B, C, D with a
  sync point after C, and B (which precedes C) shares the second batch with D (which follows C).\<close>

theorem sync_point_is_not_a_barrier:
  "\<exists>s :: nat SystemScheduler. sched_reachable addRun s \<and> ss_built s \<and>
     ss_GetExecutionOrder s Update = [0, 1, 2, 3] \<and> 2 \<in> set (ss_syncPoints s) \<and>
     ss_GetParallelBatches s Update = [[0, 2], [1, 3]]"
  using demo_built_reachable demo_build by blast

end
