(* ===== verification/Auth_Types.thy ===== *)
theory Auth_Types
  imports Foundation
begin

text \<open>
  The records of the authentication service (\<^verbatim>\<open>service/auth_types.hpp\<close>). Time points and durations
  are integers in nanoseconds; the durations of the configuration are the seconds of the code times
  \<open>10 ^ 9\<close>.
\<close>

datatype UserStatus = Active | Suspended | Deleted

record UserRecord =
  ur_id :: u64
  ur_username :: string
  ur_email :: string
  ur_passwordHash :: string
  ur_salt :: string
  ur_status :: UserStatus
  ur_roles :: "string list"
  ur_createdAt :: int
  ur_updatedAt :: int

record TokenClaims =
  tc_subject :: string
  tc_username :: string
  tc_roles :: "string list"
  tc_jti :: string
  tc_issuedAt :: int
  tc_expiresAt :: int

definition emptyClaims :: TokenClaims where
  "emptyClaims = \<lparr>tc_subject = [], tc_username = [], tc_roles = [], tc_jti = [],
     tc_issuedAt = 0, tc_expiresAt = 0\<rparr>"

record TokenPair =
  tk_accessToken :: string
  tk_refreshToken :: string
  tk_accessExpiresIn :: int
  tk_refreshExpiresIn :: int

record RefreshTokenRecord =
  rt_token :: string
  rt_userId :: u64
  rt_expiresAt :: int
  rt_revoked :: bool

datatype JwtAlgorithm = HS256 | RS256

record AuthConfig =
  ac_signingKey :: string
  ac_rsaPrivateKeyPem :: string
  ac_rsaPublicKeyPem :: string
  ac_jwtAlgorithm :: JwtAlgorithm
  ac_accessTokenExpiry :: int
  ac_refreshTokenExpiry :: int
  ac_blacklistCleanupInterval :: int
  ac_minPasswordLength :: u32
  ac_rateLimitMaxAttempts :: u32
  ac_rateLimitWindow :: int

definition seconds :: "int \<Rightarrow> int" where
  "seconds n = n * 1000000000"

definition defaultAuthConfig :: AuthConfig where
  "defaultAuthConfig = \<lparr>ac_signingKey = ''change-me-in-production'', ac_rsaPrivateKeyPem = [],
     ac_rsaPublicKeyPem = [], ac_jwtAlgorithm = HS256, ac_accessTokenExpiry = seconds 900,
     ac_refreshTokenExpiry = seconds 604800, ac_blacklistCleanupInterval = seconds 300,
     ac_minPasswordLength = 8, ac_rateLimitMaxAttempts = 5, ac_rateLimitWindow = seconds 60\<rparr>"

record UserCredentials =
  uc_username :: string
  uc_email :: string
  uc_password :: string

end
