(* ===== verification/Gateway_Session_Manager.thy ===== *)
theory Gateway_Session_Manager
  imports Auth_Types
begin

text \<open>
  The session table of the gateway (\<^verbatim>\<open>service/gateway_types.hpp\<close>,
  \<^verbatim>\<open>services/gateway/gateway_session_manager.cpp\<close>) and the routing table
  (\<^verbatim>\<open>services/gateway/route_table.cpp\<close>). Every method holds the table's mutex for its whole
  body, so a method is one step; steady-clock readings are arguments, in nanoseconds.
\<close>

section \<open>Types\<close>

datatype ClientState = Unauthenticated | Authenticated | Migrating | Disconnecting

definition clientStateName :: "ClientState \<Rightarrow> string" where
  "clientStateName state = (case state of
     Unauthenticated \<Rightarrow> ''Unauthenticated'' | Authenticated \<Rightarrow> ''Authenticated''
   | Migrating \<Rightarrow> ''Migrating'' | Disconnecting \<Rightarrow> ''Disconnecting'')"

record ClientSession =
  cl_sessionId :: SessionId
  cl_state :: ClientState
  cl_claims :: TokenClaims
  cl_userId :: u64
  cl_remoteAddress :: string
  cl_currentService :: string
  cl_connectedAt :: int
  cl_lastActivity :: int

section \<open>Session table\<close>

record GatewaySessionManager =
  sm_maxSessions :: u32
  sm_sessions :: "(SessionId, ClientSession) umap"

definition mkSessionManager :: "u32 \<Rightarrow> GatewaySessionManager" where
  "mkSessionManager maxSessions = \<lparr>sm_maxSessions = maxSessions, sm_sessions = []\<rparr>"

definition createSession ::
  "SessionId \<Rightarrow> string \<Rightarrow> int \<Rightarrow> GatewaySessionManager \<Rightarrow> bool \<times> GatewaySessionManager" where
  "createSession sessionId remoteAddress now sm =
    (if length (sm_sessions sm) \<ge> unat (sm_maxSessions sm) then (False, sm)
     else if map_of (sm_sessions sm) sessionId \<noteq> None then (False, sm)
     else (True, sm\<lparr>sm_sessions := AList.update sessionId
            \<lparr>cl_sessionId = sessionId, cl_state = Unauthenticated, cl_claims = emptyClaims,
             cl_userId = 0, cl_remoteAddress = remoteAddress, cl_currentService = [],
             cl_connectedAt = now, cl_lastActivity = now\<rparr> (sm_sessions sm)\<rparr>))"

definition authenticateSession ::
  "SessionId \<Rightarrow> TokenClaims \<Rightarrow> u64 \<Rightarrow> int \<Rightarrow> GatewaySessionManager \<Rightarrow> bool \<times> GatewaySessionManager" where
  "authenticateSession sessionId claims userId now sm =
    (case map_of (sm_sessions sm) sessionId of
       None \<Rightarrow> (False, sm)
     | Some s \<Rightarrow>
         if cl_state s \<noteq> Unauthenticated then (False, sm)
         else (True, sm\<lparr>sm_sessions := AList.update sessionId
                (s\<lparr>cl_state := Authenticated, cl_claims := claims, cl_userId := userId,
                   cl_lastActivity := now\<rparr>) (sm_sessions sm)\<rparr>))"

definition beginMigration ::
  "SessionId \<Rightarrow> string \<Rightarrow> int \<Rightarrow> GatewaySessionManager \<Rightarrow> bool \<times> GatewaySessionManager" where
  "beginMigration sessionId targetService now sm =
    (case map_of (sm_sessions sm) sessionId of
       None \<Rightarrow> (False, sm)
     | Some s \<Rightarrow>
         if cl_state s \<noteq> Authenticated then (False, sm)
         else (True, sm\<lparr>sm_sessions := AList.update sessionId
                (s\<lparr>cl_state := Migrating, cl_currentService := targetService,
                   cl_lastActivity := now\<rparr>) (sm_sessions sm)\<rparr>))"

definition completeMigration ::
  "SessionId \<Rightarrow> int \<Rightarrow> GatewaySessionManager \<Rightarrow> bool \<times> GatewaySessionManager" where
  "completeMigration sessionId now sm =
    (case map_of (sm_sessions sm) sessionId of
       None \<Rightarrow> (False, sm)
     | Some s \<Rightarrow>
         if cl_state s \<noteq> Migrating then (False, sm)
         else (True, sm\<lparr>sm_sessions := AList.update sessionId
                (s\<lparr>cl_state := Authenticated, cl_lastActivity := now\<rparr>) (sm_sessions sm)\<rparr>))"

definition removeSession :: "SessionId \<Rightarrow> GatewaySessionManager \<Rightarrow> GatewaySessionManager" where
  "removeSession sessionId sm = sm\<lparr>sm_sessions := AList.delete sessionId (sm_sessions sm)\<rparr>"

definition getSession :: "GatewaySessionManager \<Rightarrow> SessionId \<Rightarrow> ClientSession option" where
  "getSession sm sessionId = map_of (sm_sessions sm) sessionId"

definition touchSession :: "SessionId \<Rightarrow> int \<Rightarrow> GatewaySessionManager \<Rightarrow> GatewaySessionManager" where
  "touchSession sessionId now sm =
    (case map_of (sm_sessions sm) sessionId of
       None \<Rightarrow> sm
     | Some s \<Rightarrow> sm\<lparr>sm_sessions := AList.update sessionId (s\<lparr>cl_lastActivity := now\<rparr>) (sm_sessions sm)\<rparr>)"

definition setCurrentService ::
  "SessionId \<Rightarrow> string \<Rightarrow> GatewaySessionManager \<Rightarrow> bool \<times> GatewaySessionManager" where
  "setCurrentService sessionId service sm =
    (case map_of (sm_sessions sm) sessionId of
       None \<Rightarrow> (False, sm)
     | Some s \<Rightarrow> (True, sm\<lparr>sm_sessions :=
         AList.update sessionId (s\<lparr>cl_currentService := service\<rparr>) (sm_sessions sm)\<rparr>))"

definition getSessionsByState :: "GatewaySessionManager \<Rightarrow> ClientState \<Rightarrow> ClientSession list" where
  "getSessionsByState sm state = filter (\<lambda>s. cl_state s = state) (map snd (sm_sessions sm))"

definition sessionCount :: "GatewaySessionManager \<Rightarrow> nat" where
  "sessionCount sm = length (sm_sessions sm)"

definition sessionCountByState :: "GatewaySessionManager \<Rightarrow> ClientState \<Rightarrow> nat" where
  "sessionCountByState sm state = length (filter (\<lambda>(sid, s). cl_state s = state) (sm_sessions sm))"

definition findIdleSessions :: "int \<Rightarrow> int \<Rightarrow> GatewaySessionManager \<Rightarrow> SessionId list" where
  "findIdleSessions idleTimeout now sm =
    (let cutoff = now - idleTimeout * 1000000000
     in map fst (filter (\<lambda>(sid, s). cl_state s = Authenticated \<and> cl_lastActivity s < cutoff)
          (sm_sessions sm)))"

definition findExpiredAuthSessions :: "int \<Rightarrow> int \<Rightarrow> GatewaySessionManager \<Rightarrow> SessionId list" where
  "findExpiredAuthSessions authTimeout now sm =
    (let cutoff = now - authTimeout * 1000000000
     in map fst (filter (\<lambda>(sid, s). cl_state s = Unauthenticated \<and> cl_connectedAt s < cutoff)
          (sm_sessions sm)))"

section \<open>Routing table\<close>

record RouteEntry =
  re_opcodeMin :: u16
  re_opcodeMax :: u16
  re_service :: string
  re_requiresAuth :: bool

record RouteMatch =
  rm_service :: string
  rm_requiresAuth :: bool

definition rt_addRoute :: "u16 \<Rightarrow> u16 \<Rightarrow> string \<Rightarrow> bool \<Rightarrow> RouteEntry list \<Rightarrow> RouteEntry list" where
  "rt_addRoute opcodeMin opcodeMax service requiresAuth routes =
     routes @ [\<lparr>re_opcodeMin = opcodeMin, re_opcodeMax = opcodeMax, re_service = service,
                re_requiresAuth = requiresAuth\<rparr>]"

fun rt_resolve :: "u16 \<Rightarrow> RouteEntry list \<Rightarrow> RouteMatch option" where
  "rt_resolve opcode [] = None"
| "rt_resolve opcode (route # routes) =
    (if opcode \<ge> re_opcodeMin route \<and> opcode \<le> re_opcodeMax route
     then Some \<lparr>rm_service = re_service route, rm_requiresAuth = re_requiresAuth route\<rparr>
     else rt_resolve opcode routes)"

definition isGatewayOpcode :: "u16 \<Rightarrow> bool" where
  "isGatewayOpcode opcode \<longleftrightarrow> opcode \<le> 0x00FF"

definition removeRoutesForService :: "string \<Rightarrow> RouteEntry list \<Rightarrow> RouteEntry list" where
  "removeRoutesForService service routes = filter (\<lambda>e. re_service e \<noteq> service) routes"

section \<open>Invariant of the session table\<close>

definition sm_inv :: "GatewaySessionManager \<Rightarrow> bool" where
  "sm_inv sm \<longleftrightarrow> umap_wf (sm_sessions sm) \<and> length (sm_sessions sm) \<le> unat (sm_maxSessions sm) \<and>
     (\<forall>sid s. map_of (sm_sessions sm) sid = Some s \<longrightarrow>
        cl_sessionId s = sid \<and> cl_state s \<noteq> Disconnecting \<and>
        (cl_state s = Unauthenticated \<longrightarrow> cl_claims s = emptyClaims \<and> cl_userId s = 0))"

lemmas sm_defs = createSession_def authenticateSession_def beginMigration_def completeMigration_def
  removeSession_def touchSession_def setCurrentService_def

lemma sm_inv_update:
  assumes "sm_inv sm" "map_of (sm_sessions sm) sid = Some s0"
    and "cl_sessionId s = sid" "cl_state s \<noteq> Disconnecting"
    and "cl_state s = Unauthenticated \<Longrightarrow> cl_claims s = emptyClaims \<and> cl_userId s = 0"
  shows "sm_inv (sm\<lparr>sm_sessions := AList.update sid s (sm_sessions sm)\<rparr>)"
  using assms by (auto simp: sm_inv_def update_conv' length_update_umap)

lemma sm_inv_ops [inv_intros]:
  assumes "sm_inv sm"
  shows "sm_inv (snd (createSession sid addr now sm))"
    "sm_inv (snd (authenticateSession sid claims uid now sm))"
    "sm_inv (snd (beginMigration sid svc now sm))"
    "sm_inv (snd (completeMigration sid now sm))"
    "sm_inv (removeSession sid sm)"
    "sm_inv (touchSession sid now sm)"
    "sm_inv (snd (setCurrentService sid svc sm))"
proof -
  have P: "cl_sessionId s = sid \<and> cl_state s \<noteq> Disconnecting \<and>
      (cl_state s = Unauthenticated \<longrightarrow> cl_claims s = emptyClaims \<and> cl_userId s = 0)"
    if "map_of (sm_sessions sm) sid = Some s" for sid s
    using assms that by (simp add: sm_inv_def)
  show "sm_inv (snd (createSession sid addr now sm))"
    using assms by (auto simp: sm_inv_def createSession_def update_conv' length_update_umap)
  show "sm_inv (removeSession sid sm)"
    using assms
    by (auto simp: sm_inv_def removeSession_def delete_conv' length_delete_umap restrict_map_def
        split: if_splits)
  show "sm_inv (snd (authenticateSession sid claims uid now sm))"
    "sm_inv (snd (beginMigration sid svc now sm))"
    "sm_inv (snd (completeMigration sid now sm))"
    "sm_inv (touchSession sid now sm)"
    "sm_inv (snd (setCurrentService sid svc sm))"
    using assms P
    by (auto simp: sm_defs split: option.splits intro!: sm_inv_update)
qed

definition sm_bounded :: "u32 \<Rightarrow> GatewaySessionManager \<Rightarrow> bool" where
  "sm_bounded n sm \<longleftrightarrow> sm_inv sm \<and> sm_maxSessions sm = n"

lemma sm_bounded_ops [inv_intros]:
  assumes "sm_bounded n sm"
  shows "createSession sid addr now sm = (ok, sm') \<Longrightarrow> sm_bounded n sm'"
    "authenticateSession sid claims uid now sm = (ok, sm') \<Longrightarrow> sm_bounded n sm'"
    "beginMigration sid svc now sm = (ok, sm') \<Longrightarrow> sm_bounded n sm'"
    "sm_bounded n (snd (completeMigration sid now sm))"
    "sm_bounded n (removeSession sid sm)"
    "sm_bounded n (touchSession sid now sm)"
proof -
  have inv: "sm_inv sm" and max: "sm_maxSessions sm = n" using assms by (simp_all add: sm_bounded_def)
  show "createSession sid addr now sm = (ok, sm') \<Longrightarrow> sm_bounded n sm'"
    using sm_inv_ops(1) [OF inv, of sid addr now] max
    by (auto simp: sm_bounded_def createSession_def split: if_splits)
  show "authenticateSession sid claims uid now sm = (ok, sm') \<Longrightarrow> sm_bounded n sm'"
    using sm_inv_ops(2) [OF inv, of sid claims uid now] max
    by (auto simp: sm_bounded_def authenticateSession_def split: if_splits option.splits)
  show "beginMigration sid svc now sm = (ok, sm') \<Longrightarrow> sm_bounded n sm'"
    using sm_inv_ops(3) [OF inv, of sid svc now] max
    by (auto simp: sm_bounded_def beginMigration_def split: if_splits option.splits)
  show "sm_bounded n (snd (completeMigration sid now sm))"
    using sm_inv_ops(4) [OF inv, of sid now] max
    by (auto simp: sm_bounded_def completeMigration_def split: option.splits)
  show "sm_bounded n (removeSession sid sm)" "sm_bounded n (touchSession sid now sm)"
    using sm_inv_ops(5,6) [OF inv] max
    by (auto simp: sm_bounded_def removeSession_def touchSession_def split: option.splits)
qed

text \<open>Routing picks the first entry, in registration order, whose range holds the opcode.\<close>

lemma rt_resolve_find:
  "rt_resolve opcode routes =
    map_option (\<lambda>r. \<lparr>rm_service = re_service r, rm_requiresAuth = re_requiresAuth r\<rparr>)
      (List.find (\<lambda>r. re_opcodeMin r \<le> opcode \<and> opcode \<le> re_opcodeMax r) routes)"
  by (induction routes) auto

end
