(* ===== verification/Gateway_Token_Bucket.thy ===== *)
theory Gateway_Token_Bucket
  imports Prelude Ieee_Float
begin

text \<open>
  The per-client rate limiter of the gateway (\<^verbatim>\<open>service/token_bucket.hpp\<close>,
  \<^verbatim>\<open>services/gateway/token_bucket.cpp\<close>). Time points are nanoseconds of the steady clock; a
  function that reads the clock takes the readings as arguments. The token counts are
  \<^verbatim>\<open>double\<close>s, computed with the rounding of theory \<open>Ieee_Float\<close>.
\<close>

section \<open>State and operations\<close>

record Bucket =
  bk_tokens :: rat
  bk_lastRefill :: int

record TokenBucket =
  tb_capacity :: u32
  tb_refillRate :: u32
  tb_buckets :: "(string, Bucket) umap"

definition mkTokenBucket :: "u32 \<Rightarrow> u32 \<Rightarrow> TokenBucket" where
  "mkTokenBucket capacity refillRate =
     \<lparr>tb_capacity = capacity, tb_refillRate = refillRate, tb_buckets = []\<rparr>"

text \<open>\<^verbatim>\<open>static_cast<double>\<close> of a 32-bit count is exact.\<close>

definition u32_double :: "u32 \<Rightarrow> rat" where
  "u32_double w = of_nat (unat w)"

definition tb_refill :: "TokenBucket \<Rightarrow> int \<Rightarrow> Bucket \<Rightarrow> Bucket" where
  "tb_refill tb now bucket =
    (let elapsed = f64 (f64 (of_int (now - bk_lastRefill bucket)) / 1000000000);
         added = f64 (elapsed * u32_double (tb_refillRate tb));
         total = f64 (bk_tokens bucket + added);
         cap = u32_double (tb_capacity tb)
     in \<lparr>bk_tokens = (if cap < total then cap else total), bk_lastRefill = now\<rparr>)"

text \<open>\<open>now0\<close> is the reading when a missing bucket is created, \<open>now\<close> the one of the refill.\<close>

definition tb_consume :: "string \<Rightarrow> u32 \<Rightarrow> int \<Rightarrow> int \<Rightarrow> TokenBucket \<Rightarrow> bool \<times> TokenBucket" where
  "tb_consume key tokens now0 now tb =
    (let bucket0 = (case map_of (tb_buckets tb) key of
           Some b \<Rightarrow> b
         | None \<Rightarrow> \<lparr>bk_tokens = u32_double (tb_capacity tb), bk_lastRefill = now0\<rparr>);
         bucket = tb_refill tb now bucket0;
         required = u32_double tokens
     in if bk_tokens bucket < required
        then (False, tb\<lparr>tb_buckets := AList.update key bucket (tb_buckets tb)\<rparr>)
        else (True, tb\<lparr>tb_buckets := AList.update key
               (bucket\<lparr>bk_tokens := f64 (bk_tokens bucket - required)\<rparr>) (tb_buckets tb)\<rparr>))"

definition tb_consume1 :: "string \<Rightarrow> int \<Rightarrow> int \<Rightarrow> TokenBucket \<Rightarrow> bool \<times> TokenBucket" where
  "tb_consume1 key now0 now tb = tb_consume key 1 now0 now tb"

definition tb_available :: "string \<Rightarrow> int \<Rightarrow> TokenBucket \<Rightarrow> u32 \<times> TokenBucket" where
  "tb_available key now tb =
    (case map_of (tb_buckets tb) key of
       None \<Rightarrow> (tb_capacity tb, tb)
     | Some b \<Rightarrow> (let b' = tb_refill tb now b
                 in (word_of_int \<lfloor>bk_tokens b'\<rfloor>, tb\<lparr>tb_buckets := AList.update key b' (tb_buckets tb)\<rparr>)))"

definition tb_remove :: "string \<Rightarrow> TokenBucket \<Rightarrow> TokenBucket" where
  "tb_remove key tb = tb\<lparr>tb_buckets := AList.delete key (tb_buckets tb)\<rparr>"

definition tb_reset :: "string \<Rightarrow> int \<Rightarrow> TokenBucket \<Rightarrow> TokenBucket" where
  "tb_reset key now tb = tb\<lparr>tb_buckets := AList.update key
     \<lparr>bk_tokens = u32_double (tb_capacity tb), bk_lastRefill = now\<rparr> (tb_buckets tb)\<rparr>"

lemmas tb_op_defs = tb_consume_def tb_available_def tb_remove_def tb_reset_def

section \<open>Invariant\<close>

text \<open>Every bucket holds a representable number of tokens between zero and the capacity, and was
  refilled no later than \<open>now\<close>.\<close>

definition bucket_ok :: "TokenBucket \<Rightarrow> int \<Rightarrow> Bucket \<Rightarrow> bool" where
  "bucket_ok tb now b \<longleftrightarrow> 0 \<le> bk_tokens b \<and> bk_tokens b \<le> u32_double (tb_capacity tb) \<and>
     is_f64 (bk_tokens b) \<and> bk_lastRefill b \<le> now"

definition tb_inv :: "int \<Rightarrow> TokenBucket \<Rightarrow> bool" where
  "tb_inv now tb \<longleftrightarrow> umap_wf (tb_buckets tb) \<and>
     (\<forall>key b. map_of (tb_buckets tb) key = Some b \<longrightarrow> bucket_ok tb now b)"

lemma u32_double_bounds: "0 \<le> u32_double w" "u32_double w < 4294967296" "is_f64 (u32_double w)"
proof -
  show "0 \<le> u32_double w" unfolding u32_double_def by (rule of_nat_0_le_iff)
  have "unat w < 4294967296" by (rule unat_lt_u32)
  then have "(of_nat (unat w) :: rat) < of_nat 4294967296" by (simp only: of_nat_less_iff)
  then show "u32_double w < 4294967296" by (simp add: u32_double_def)
  show "is_f64 (u32_double w)"
    unfolding u32_double_def using unat_lt_u32 [of w] by (intro is_f64_nat) simp
qed

text \<open>The rate of a bucket in tokens per nanosecond, with an allowance of \<open>2 ^ - 50\<close> for rounding.\<close>

definition rate_ns :: "TokenBucket \<Rightarrow> rat" where
  "rate_ns tb = u32_double (tb_refillRate tb) * (1 + 1 / 2 ^ 50) / 1000000000"

lemma rate_ns_nonneg: "0 \<le> rate_ns tb"
  by (simp add: rate_ns_def u32_double_bounds)

text \<open>The rounding errors of the three operations that compute the tokens to add.\<close>

lemma added_upper:
  assumes y: "0 \<le> y" and R: "0 \<le> R" "R < 4294967296"
  shows "f64 (f64 (f64 y / 1000000000) * R) \<le> y * (R * (1 + 1 / 2 ^ 50) / 1000000000) + 1 / 2 ^ 20"
proof -
  define u :: rat where "u = 1 / 2 ^ 53"
  define h :: rat where "h = 1 / 2 ^ 100"
  have up: "f64 x \<le> x * (1 + u) + h" if "0 \<le> x" for x
    using f64_upper [OF that] by (simp add: u_def h_def algebra_simps)
  have u: "0 \<le> u" "u \<le> 1" "(1 + u) * (1 + u) * (1 + u) \<le> 1 + 1 / 2 ^ 50"
    and h: "0 \<le> h" "h * (3 * (1 + u) * 4294967296 + 1) \<le> 1 / 2 ^ 20"
    by (simp_all add: u_def h_def field_simps)
  have a1: "f64 y / 1000000000 \<le> y / 1000000000 * (1 + u) + h"
    using up [OF y] h(1) by (simp add: field_simps)
  have n1: "0 \<le> f64 y / 1000000000" using f64_nonneg [OF y] by simp
  have "f64 (f64 y / 1000000000) \<le> f64 y / 1000000000 * (1 + u) + h" by (rule up [OF n1])
  also have "\<dots> \<le> (y / 1000000000 * (1 + u) + h) * (1 + u) + h"
    using a1 u(1) by (intro add_right_mono mult_right_mono) auto
  also have "\<dots> \<le> y / 1000000000 * ((1 + u) * (1 + u)) + 3 * h"
    using u(2) h(1) mult_left_mono [of u 1 h] by (simp add: algebra_simps)
  finally have a2: "f64 (f64 y / 1000000000) \<le> y / 1000000000 * ((1 + u) * (1 + u)) + 3 * h" .
  have n2: "0 \<le> f64 (f64 y / 1000000000) * R" using f64_nonneg [OF n1] R(1) by simp
  have "f64 (f64 (f64 y / 1000000000) * R) \<le> f64 (f64 y / 1000000000) * R * (1 + u) + h"
    by (rule up [OF n2])
  also have "\<dots> \<le> (y / 1000000000 * ((1 + u) * (1 + u)) + 3 * h) * R * (1 + u) + h"
    using a2 R(1) u(1) by (intro add_right_mono mult_right_mono) auto
  also have "\<dots> = y / 1000000000 * R * ((1 + u) * (1 + u) * (1 + u)) + h * (3 * (1 + u) * R + 1)"
    by (simp add: algebra_simps)
  also have "\<dots> \<le> y / 1000000000 * R * (1 + 1 / 2 ^ 50) + h * (3 * (1 + u) * 4294967296 + 1)"
    using u h R y by (intro add_mono mult_left_mono mult_nonneg_nonneg) auto
  also have "\<dots> \<le> y / 1000000000 * R * (1 + 1 / 2 ^ 50) + 1 / 2 ^ 20"
    using h(2) by simp
  finally show ?thesis by (simp add: algebra_simps)
qed

lemma refill_ok:
  assumes "bucket_ok tb t b" "t \<le> now"
  shows "bucket_ok tb now (tb_refill tb now b)"
    "bk_tokens (tb_refill tb now b)
       \<le> bk_tokens b + rate_ns tb * of_int (now - bk_lastRefill b) + 1 / 2 ^ 18"
proof -
  define y :: rat where "y = of_int (now - bk_lastRefill b)"
  define R where "R = u32_double (tb_refillRate tb)"
  define added where "added = f64 (f64 (f64 y / 1000000000) * R)"
  define total where "total = f64 (bk_tokens b + added)"
  define cap where "cap = u32_double (tb_capacity tb)"
  have y: "0 \<le> y" using assms by (simp add: y_def bucket_ok_def)
  have R: "0 \<le> R" "R < 4294967296" by (simp_all add: R_def u32_double_bounds)
  have added: "0 \<le> added" "added \<le> y * rate_ns tb + 1 / 2 ^ 20"
    using added_upper [OF y R] y R
    by (simp_all add: added_def rate_ns_def R_def f64_nonneg)
  have tok: "0 \<le> bk_tokens b" "bk_tokens b \<le> cap" using assms by (simp_all add: bucket_ok_def cap_def)
  then have tot: "0 \<le> total" "is_f64 total"
    using added(1) by (simp_all add: total_def f64_nonneg is_f64_f64)
  have eq: "tb_refill tb now b = \<lparr>bk_tokens = (if cap < total then cap else total), bk_lastRefill = now\<rparr>"
    by (simp add: tb_refill_def Let_def cap_def total_def added_def y_def R_def)
  show "bucket_ok tb now (tb_refill tb now b)"
    using tot tok assms(2) by (simp add: bucket_ok_def eq u32_double_bounds cap_def)
  have cap: "cap < 4294967296" by (simp add: cap_def u32_double_bounds)
  have "(if cap < total then cap else total) \<le> bk_tokens b + added + 1 / 2 ^ 19"
  proof (cases "bk_tokens b + added \<le> 4294967296")
    case True
    then have "(bk_tokens b + added) / 2 ^ 53 \<le> 4294967296 / 2 ^ 53" by (intro divide_right_mono) auto
    then have "total \<le> bk_tokens b + added + 4294967296 / 2 ^ 53 + 1 / 2 ^ 100"
      using f64_upper [of "bk_tokens b + added"] tok(1) added(1) unfolding total_def by linarith
    then show ?thesis by simp
  next
    case False
    with cap show ?thesis by simp
  qed
  then show "bk_tokens (tb_refill tb now b)
      \<le> bk_tokens b + rate_ns tb * of_int (now - bk_lastRefill b) + 1 / 2 ^ 18"
    using added(2) by (simp add: eq y_def mult.commute)
qed

lemma bucket_ok_later: "bucket_ok tb t b \<Longrightarrow> t \<le> now \<Longrightarrow> bucket_ok tb now b"
  by (simp add: bucket_ok_def)

lemma tb_inv_update:
  assumes "tb_inv t tb" "t \<le> now" "bucket_ok tb now b"
  shows "tb_inv now (tb\<lparr>tb_buckets := AList.update key b (tb_buckets tb)\<rparr>)"
  using assms by (auto simp: tb_inv_def update_conv' bucket_ok_def split: if_splits) (meson order_trans)

text \<open>The bucket a \<^verbatim>\<open>consume\<close> works on: the stored one, or a full one made on the spot.\<close>

definition bucketFor :: "string \<Rightarrow> int \<Rightarrow> TokenBucket \<Rightarrow> Bucket" where
  "bucketFor key now0 tb = (case map_of (tb_buckets tb) key of
     Some b \<Rightarrow> b | None \<Rightarrow> \<lparr>bk_tokens = u32_double (tb_capacity tb), bk_lastRefill = now0\<rparr>)"

lemma bucketFor_ok: "tb_inv t tb \<Longrightarrow> t \<le> now0 \<Longrightarrow> bucket_ok tb now0 (bucketFor key now0 tb)"
  using bucket_ok_later [of tb t _ now0]
  by (auto simp: tb_inv_def bucketFor_def u32_double_bounds split: option.splits)
     (simp add: bucket_ok_def u32_double_bounds)

lemma tb_consume_unfold:
  "tb_consume key n now0 now tb =
    (let b = tb_refill tb now (bucketFor key now0 tb)
     in if bk_tokens b < u32_double n
        then (False, tb\<lparr>tb_buckets := AList.update key b (tb_buckets tb)\<rparr>)
        else (True, tb\<lparr>tb_buckets := AList.update key
               (b\<lparr>bk_tokens := f64 (bk_tokens b - u32_double n)\<rparr>) (tb_buckets tb)\<rparr>))"
  by (simp add: tb_consume_def bucketFor_def Let_def)

text \<open>One \<^verbatim>\<open>consume\<close>: the bucket afterwards and the tokens granted never exceed what was there plus
  what the elapsed time refills, up to the rounding.\<close>

lemma tb_consume_step:
  assumes inv: "tb_inv t tb" and times: "t \<le> now0" "now0 \<le> now"
    and eq: "tb_consume key n now0 now tb = (ok, tb')"
  shows "\<exists>b. tb' = tb\<lparr>tb_buckets := AList.update key b (tb_buckets tb)\<rparr> \<and> bucket_ok tb now b \<and>
     bk_lastRefill b = now \<and>
     bk_tokens b + (if ok then u32_double n else 0) \<le> u32_double (tb_capacity tb) + 1 / 2 ^ 17 \<and>
     bk_tokens b + (if ok then u32_double n else 0) \<le> bk_tokens (bucketFor key now0 tb)
       + rate_ns tb * of_int (now - bk_lastRefill (bucketFor key now0 tb)) + 1 / 2 ^ 17"
proof -
  define b0 where "b0 = bucketFor key now0 tb"
  define b where "b = tb_refill tb now b0"
  have ok0: "bucket_ok tb now0 b0" unfolding b0_def by (rule bucketFor_ok [OF inv times(1)])
  note r = refill_ok [OF ok0 times(2), folded b_def]
  have last: "bk_lastRefill b = now" by (simp add: b_def tb_refill_def Let_def)
  have cap: "bk_tokens b \<le> u32_double (tb_capacity tb)" using r(1) by (simp add: bucket_ok_def)
  show ?thesis
  proof (cases "bk_tokens b < u32_double n")
    case True
    then have "ok = False" "tb' = tb\<lparr>tb_buckets := AList.update key b (tb_buckets tb)\<rparr>"
      using eq by (simp_all add: tb_consume_unfold b_def b0_def Let_def)
    then show ?thesis
      using r last cap by (intro exI [of _ b]) (simp add: b0_def)
  next
    case False
    define left where "left = f64 (bk_tokens b - u32_double n)"
    define b' where "b' = b\<lparr>bk_tokens := left\<rparr>"
    have nn: "0 \<le> bk_tokens b - u32_double n" using False by simp
    have "bk_tokens b - u32_double n < 4294967296"
      using cap u32_double_bounds [of "tb_capacity tb"] u32_double_bounds [of n] by linarith
    then have "(bk_tokens b - u32_double n) / 2 ^ 53 \<le> 4294967296 / 2 ^ 53"
      by (intro divide_right_mono) auto
    then have "left \<le> bk_tokens b - u32_double n + 4294967296 / 2 ^ 53 + 1 / 2 ^ 100"
      using f64_upper [OF nn] unfolding left_def by linarith
    then have "left \<le> bk_tokens b - u32_double n + 1 / 2 ^ 18" by simp
    moreover have "0 \<le> left" "is_f64 left" using nn by (simp_all add: left_def f64_nonneg is_f64_f64)
    moreover have "left \<le> u32_double (tb_capacity tb)"
      unfolding left_def
      using nn cap u32_double_bounds(1) [of n] by (intro f64_le u32_double_bounds(3)) linarith+
    moreover have "ok" "tb' = tb\<lparr>tb_buckets := AList.update key b' (tb_buckets tb)\<rparr>"
      using eq False by (simp_all add: tb_consume_unfold b_def b0_def Let_def b'_def left_def)
    ultimately show ?thesis
      using r last cap by (intro exI [of _ b']) (auto simp: bucket_ok_def b'_def b0_def)
  qed
qed

section \<open>Sequences of requests\<close>

text \<open>A request names a key and a number of tokens and carries its two clock readings; the clock
  never goes back.\<close>

type_synonym tb_call = "string \<times> u32 \<times> int \<times> int"

fun tb_times_ok :: "int \<Rightarrow> tb_call list \<Rightarrow> bool" where
  "tb_times_ok t [] = True"
| "tb_times_ok t ((key, n, now0, now) # calls) = (t \<le> now0 \<and> now0 \<le> now \<and> tb_times_ok now calls)"

fun tb_end :: "int \<Rightarrow> tb_call list \<Rightarrow> int" where
  "tb_end t [] = t"
| "tb_end t ((key, n, now0, now) # calls) = tb_end now calls"

text \<open>The tokens granted to a key by a sequence of requests of all clients.\<close>

fun granted ::
  "(string \<Rightarrow> u32 \<Rightarrow> int \<Rightarrow> int \<Rightarrow> 's \<Rightarrow> bool \<times> 's) \<Rightarrow> string \<Rightarrow> tb_call list \<Rightarrow> 's \<Rightarrow> rat" where
  "granted consume key [] s = 0"
| "granted consume key ((key', n, now0, now) # calls) s =
    (case consume key' n now0 now s of
       (ok, s') \<Rightarrow> (if ok \<and> key' = key then u32_double n else 0) + granted consume key calls s')"

lemma tb_end_ge: "tb_times_ok t calls \<Longrightarrow> t \<le> tb_end t calls"
  by (induction t calls rule: tb_times_ok.induct) auto

section \<open>The contract of a keyed limiter\<close>

text \<open>
  What a client of a rate limiter relies on: a budget per key, the most the key can still be
  granted until \<open>tend\<close> counting from \<open>tstart\<close>. A request takes what it is granted out of the
  budget of its key, up to \<open>slack\<close>, and leaves the budgets of the other keys alone.
\<close>

locale keyed_limiter =
  fixes inv :: "int \<Rightarrow> 's \<Rightarrow> bool"
    and consume :: "string \<Rightarrow> u32 \<Rightarrow> int \<Rightarrow> int \<Rightarrow> 's \<Rightarrow> bool \<times> 's"
    and budget :: "int \<Rightarrow> int \<Rightarrow> string \<Rightarrow> 's \<Rightarrow> rat"
    and slack :: rat
  assumes consume_inv: "inv t s \<Longrightarrow> t \<le> now0 \<Longrightarrow> now0 \<le> now \<Longrightarrow>
      consume key n now0 now s = (ok, s') \<Longrightarrow> inv now s'"
    and budget_other: "inv t s \<Longrightarrow> t \<le> now0 \<Longrightarrow> now0 \<le> now \<Longrightarrow> tstart \<le> now0 \<Longrightarrow>
      consume key n now0 now s = (ok, s') \<Longrightarrow> key' \<noteq> key \<Longrightarrow>
      budget tstart tend key' s' = budget tstart tend key' s"
    and budget_same: "inv t s \<Longrightarrow> t \<le> now0 \<Longrightarrow> now0 \<le> now \<Longrightarrow> tstart \<le> now0 \<Longrightarrow>
      consume key n now0 now s = (ok, s') \<Longrightarrow>
      budget tstart tend key s' + (if ok then u32_double n else 0) \<le> budget tstart tend key s + slack"
    and slack_nonneg: "0 \<le> slack"
    and budget_nonneg: "inv tend s \<Longrightarrow> tstart \<le> tend \<Longrightarrow> 0 \<le> budget tstart tend key s"
begin

lemma granted_le_budget:
  "inv t s \<Longrightarrow> tb_times_ok t calls \<Longrightarrow> tstart \<le> t \<Longrightarrow> tb_end t calls = tend \<Longrightarrow>
   granted consume key calls s \<le> budget tstart tend key s + of_nat (length calls) * slack"
proof (induction calls arbitrary: t s)
  case Nil
  then show ?case using budget_nonneg [of tend s tstart key] by simp
next
  case (Cons c calls)
  obtain key' n now0 now where c: "c = (key', n, now0, now)" by (cases c)
  obtain ok s' where eq: "consume key' n now0 now s = (ok, s')"
    by (cases "consume key' n now0 now s")
  have times: "t \<le> now0" "now0 \<le> now" "tstart \<le> now0" "tb_times_ok now calls"
    "tb_end now calls = tend" "tstart \<le> now"
    using Cons.prems c by auto
  have "granted consume key calls s' \<le> budget tstart tend key s' + of_nat (length calls) * slack"
    by (rule Cons.IH [OF consume_inv [OF Cons.prems(1) times(1,2) eq] times(4,6,5)])
  moreover have "budget tstart tend key s' + (if ok \<and> key' = key then u32_double n else 0)
      \<le> budget tstart tend key s + (if key' = key then slack else 0)"
    using budget_other [OF Cons.prems(1) times(1-3) eq, of key tend]
      budget_same [OF Cons.prems(1) times(1-3) eq, of tend] by (cases "key' = key") auto
  ultimately show ?case
    using eq slack_nonneg by (auto simp: c algebra_simps split: if_splits)
qed

end

text \<open>What a key can still be granted until \<open>tend\<close>.\<close>

definition tb_budget :: "int \<Rightarrow> int \<Rightarrow> string \<Rightarrow> TokenBucket \<Rightarrow> rat" where
  "tb_budget tstart tend key tb =
    (case map_of (tb_buckets tb) key of
       None \<Rightarrow> u32_double (tb_capacity tb) + rate_ns tb * of_int (tend - tstart)
     | Some b \<Rightarrow> if bk_lastRefill b < tstart
         then u32_double (tb_capacity tb) + rate_ns tb * of_int (tend - tstart)
         else bk_tokens b + rate_ns tb * of_int (tend - bk_lastRefill b))"

lemma tb_budget_consume:
  assumes inv: "tb_inv t tb" and times: "t \<le> now0" "now0 \<le> now" "tstart \<le> now0"
    and eq: "tb_consume key n now0 now tb = (ok, tb')"
  shows "tb_inv now tb'" "tb_capacity tb' = tb_capacity tb" "tb_refillRate tb' = tb_refillRate tb"
    "key' \<noteq> key \<Longrightarrow> tb_budget tstart tend key' tb' = tb_budget tstart tend key' tb"
    "tb_budget tstart tend key tb' + (if ok then u32_double n else 0)
       \<le> tb_budget tstart tend key tb + 1 / 2 ^ 17"
proof -
  obtain b where tb': "tb' = tb\<lparr>tb_buckets := AList.update key b (tb_buckets tb)\<rparr>"
    and ok: "bucket_ok tb now b" and last: "bk_lastRefill b = now"
    and cap: "bk_tokens b + (if ok then u32_double n else 0) \<le> u32_double (tb_capacity tb) + 1 / 2 ^ 17"
    and le: "bk_tokens b + (if ok then u32_double n else 0) \<le> bk_tokens (bucketFor key now0 tb)
       + rate_ns tb * of_int (now - bk_lastRefill (bucketFor key now0 tb)) + 1 / 2 ^ 17"
    using tb_consume_step [OF inv times(1,2) eq] by blast
  show "tb_inv now tb'" unfolding tb' using tb_inv_update [OF inv _ ok] times by simp
  show "tb_capacity tb' = tb_capacity tb" "tb_refillRate tb' = tb_refillRate tb"
    by (simp_all add: tb')
  have rate: "rate_ns tb' = rate_ns tb" by (simp add: tb' rate_ns_def)
  show "key' \<noteq> key \<Longrightarrow> tb_budget tstart tend key' tb' = tb_budget tstart tend key' tb"
    by (auto simp: tb_budget_def tb' update_conv rate_ns_def split: option.splits)
  have new: "tb_budget tstart tend key tb' = bk_tokens b + rate_ns tb * of_int (tend - now)"
    using times last rate [unfolded tb'] by (simp add: tb_budget_def tb' update_conv)
  have later: "rate_ns tb * of_int (tend - now) \<le> rate_ns tb * of_int (tend - tstart)"
    using times rate_ns_nonneg by (intro mult_left_mono) auto
  have split: "rate_ns tb * of_int (now - x) + rate_ns tb * of_int (tend - now)
      = rate_ns tb * of_int (tend - x)" for x
    by (simp add: algebra_simps)
  show "tb_budget tstart tend key tb' + (if ok then u32_double n else 0)
       \<le> tb_budget tstart tend key tb + 1 / 2 ^ 17"
  proof (cases "map_of (tb_buckets tb) key")
    case None
    then show ?thesis using new cap later by (simp add: tb_budget_def [of tstart tend key tb])
  next
    case (Some b0)
    then have "bucketFor key now0 tb = b0" by (simp add: bucketFor_def)
    with Some show ?thesis
      using new cap le later split [of "bk_lastRefill b0"]
      by (simp add: tb_budget_def [of tstart tend key tb])
  qed
qed

interpretation limiter: keyed_limiter tb_inv tb_consume tb_budget "1 / 2 ^ 17"
proof
  show "0 \<le> tb_budget tstart tend key tb" if "tb_inv tend tb" "tstart \<le> tend" for tstart tend key tb
    using that rate_ns_nonneg [of tb] u32_double_bounds [of "tb_capacity tb"]
    by (auto simp: tb_budget_def tb_inv_def bucket_ok_def split: option.splits
        intro!: add_nonneg_nonneg mult_nonneg_nonneg)
qed (use tb_budget_consume in auto)

text \<open>The sustained rate of one key, however the requests of all clients interleave.\<close>

lemma granted_rate_bound:
  assumes "tb_inv t tb" "tb_times_ok t calls"
  shows "granted tb_consume key calls tb \<le> u32_double (tb_capacity tb)
      + u32_double (tb_refillRate tb) * (1 + 1 / 2 ^ 50) / 1000000000 * of_int (tb_end t calls - t)
      + of_nat (length calls) / 2 ^ 17"
proof -
  have "tb_budget t (tb_end t calls) key tb
      \<le> u32_double (tb_capacity tb) + rate_ns tb * of_int (tb_end t calls - t)"
  proof (cases "map_of (tb_buckets tb) key")
    case (Some b)
    then have "bucket_ok tb t b" using assms(1) by (simp add: tb_inv_def)
    with Some show ?thesis
      by (cases "bk_lastRefill b = t") (auto simp: tb_budget_def bucket_ok_def)
  qed (simp add: tb_budget_def)
  with limiter.granted_le_budget [OF assms order_refl refl, of key] show ?thesis
    by (simp add: rate_ns_def)
qed

lemma one_le_double: "1 \<le> w \<Longrightarrow> 1 \<le> u32_double w"
proof -
  assume "1 \<le> w"
  then have "1 \<le> unat w" by (simp add: word_le_nat_alt)
  then have "(of_nat 1 :: rat) \<le> of_nat (unat w)" by (simp only: of_nat_le_iff)
  then show ?thesis by (simp only: u32_double_def of_nat_1)
qed

lemma one_double: "u32_double 1 = 1"
  by (simp add: u32_double_def)

lemma refill_grants:
  assumes "1 \<le> tb_capacity tb"
    and "1 \<le> bk_tokens b + f64 (f64 (f64 (of_int (now - bk_lastRefill b)) / 1000000000)
      * u32_double (tb_refillRate tb))"
  shows "1 \<le> bk_tokens (tb_refill tb now b)"
  using f64_ge [OF is_f64_1 _ assms(2)] one_le_double [OF assms(1)]
  by (simp add: tb_refill_def Let_def)

lemma consume_fresh:
  assumes "map_of (tb_buckets tb) key = None" "1 \<le> tb_capacity tb" "now0 \<le> now"
  shows "fst (tb_consume1 key now0 now tb)"
proof -
  have "0 \<le> f64 (f64 (f64 (of_int (now - now0)) / 1000000000) * u32_double (tb_refillRate tb))"
    using assms(3) u32_double_bounds by (simp add: f64_nonneg)
  then have "1 \<le> bk_tokens (tb_refill tb now (bucketFor key now0 tb))"
    using assms(1) one_le_double [OF assms(2)]
    by (intro refill_grants [OF assms(2)]) (simp add: bucketFor_def)
  then show ?thesis
    by (simp add: tb_consume1_def tb_consume_unfold Let_def one_double)
qed

section \<open>Properties\<close>

text \<open>Nobody is locked out: when capacity and refill rate are at least one, a client that has
  waited for one second is granted its next token, whatever happened before; and a key never
  seen has its whole burst available.\<close>

theorem token_bucket_recovers:
  assumes "tb_inv t tb" "t \<le> now0" "now0 \<le> now" "1 \<le> tb_capacity tb" "1 \<le> tb_refillRate tb"
    and "\<forall>b. map_of (tb_buckets tb) key = Some b \<longrightarrow> bk_lastRefill b + 1000000000 \<le> now"
  shows "fst (tb_consume1 key now0 now tb)"
proof (cases "map_of (tb_buckets tb) key")
  case None
  from consume_fresh [OF None assms(4,3)] show ?thesis .
next
  case (Some b)
  have ok: "bucket_ok tb t b" using assms(1) Some by (simp add: tb_inv_def)
  have "1000000000 \<le> now - bk_lastRefill b" using assms(6) Some by simp
  then have "(of_int 1000000000 :: rat) \<le> of_int (now - bk_lastRefill b)"
    by (simp only: of_int_le_iff)
  then have "of_int 1000000000 \<le> f64 (of_int (now - bk_lastRefill b))"
    by (intro f64_ge is_f64_int) auto
  then have "1 \<le> f64 (f64 (of_int (now - bk_lastRefill b)) / 1000000000)"
    by (intro f64_ge) auto
  then have "1 * 1 \<le> f64 (f64 (of_int (now - bk_lastRefill b)) / 1000000000)
      * u32_double (tb_refillRate tb)"
    using one_le_double [OF assms(5)] by (intro mult_mono) auto
  then have "1 \<le> f64 (f64 (f64 (of_int (now - bk_lastRefill b)) / 1000000000)
      * u32_double (tb_refillRate tb))" by (intro f64_ge) auto
  then have "1 \<le> bk_tokens (tb_refill tb now b)"
    using ok by (intro refill_grants [OF assms(4)]) (auto simp: bucket_ok_def)
  with Some show ?thesis
    by (simp add: tb_consume1_def tb_consume_unfold bucketFor_def Let_def one_double)
qed

theorem token_bucket_recovers_witness:
  "fst (tb_consume1 ''a'' 1000000000 1000000000
     (mkTokenBucket 1 1\<lparr>tb_buckets := [(''a'', \<lparr>bk_tokens = 0, bk_lastRefill = 0\<rparr>)]\<rparr>))"
  by (rule token_bucket_recovers [of 0])
     (simp_all add: tb_inv_def mkTokenBucket_def bucket_ok_def u32_double_bounds umap_wf_def)

end
