(* ===== verification/Cpp_Strings.thy ===== *)
theory Cpp_Strings
  imports Prelude "HOL-Library.Sublist"
begin

text \<open>
  The string operations of the C++ standard library that the services use: \<^verbatim>\<open>std::to_string\<close>,
  \<^verbatim>\<open>std::stoull\<close> and \<^verbatim>\<open>std::from_chars\<close>, \<^verbatim>\<open>string_view::find\<close> and \<^verbatim>\<open>substr\<close>, the
  character classes of the C locale, and the view of a string as its bytes.
\<close>

section \<open>Bytes and characters\<close>

definition charByte :: "char \<Rightarrow> byte" where
  "charByte c = word_of_nat (of_char c)"

definition stringBytes :: "string \<Rightarrow> bytes" where
  "stringBytes s = map charByte s"

definition payloadString :: "bytes \<Rightarrow> string" where
  "payloadString payload = map (\<lambda>b. char_of (unat b)) payload"

lemma of_char_lt_256: "(of_char c :: nat) < 256"
  by simp

lemma unat_charByte [simp]: "unat (charByte c) = of_char c"
  by (simp add: charByte_def unat_of_nat_lt)

lemma charByte_inj [simp]: "charByte c = charByte d \<longleftrightarrow> c = d"
  by (simp add: word_eq_unat_iff)

lemma charByte_char_of [simp]: "charByte (char_of (unat b)) = b"
  using unsigned_less [of b, where 'a = nat] by (simp add: charByte_def)

lemma payloadString_stringBytes [simp]: "payloadString (stringBytes s) = s"
  by (simp add: payloadString_def stringBytes_def comp_def)

lemma stringBytes_payloadString [simp]: "stringBytes (payloadString bs) = bs"
  by (simp add: payloadString_def stringBytes_def comp_def)

lemma length_stringBytes [simp]: "length (stringBytes s) = length s"
  and length_payloadString [simp]: "length (payloadString bs) = length bs"
  by (simp_all add: stringBytes_def payloadString_def)

section \<open>Character classes\<close>

definition isSpace :: "char \<Rightarrow> bool" where
  "isSpace c \<longleftrightarrow> c \<in> set [CHR '' '', CHR 0x09, CHR 0x0A, CHR 0x0B, CHR 0x0C, CHR 0x0D]"

definition isDigit :: "char \<Rightarrow> bool" where
  "isDigit c \<longleftrightarrow> 48 \<le> (of_char c :: nat) \<and> (of_char c :: nat) \<le> 57"

definition isUpper :: "char \<Rightarrow> bool" where
  "isUpper c \<longleftrightarrow> 65 \<le> (of_char c :: nat) \<and> (of_char c :: nat) \<le> 90"

definition isLower :: "char \<Rightarrow> bool" where
  "isLower c \<longleftrightarrow> 97 \<le> (of_char c :: nat) \<and> (of_char c :: nat) \<le> 122"

definition isAlpha :: "char \<Rightarrow> bool" where
  "isAlpha c \<longleftrightarrow> isUpper c \<or> isLower c"

definition isAlnum :: "char \<Rightarrow> bool" where
  "isAlnum c \<longleftrightarrow> isAlpha c \<or> isDigit c"

definition toLower :: "char \<Rightarrow> char" where
  "toLower c = (if isUpper c then char_of ((of_char c :: nat) + 32) else c)"

lemmas char_classes = isDigit_def isUpper_def isLower_def isAlpha_def isAlnum_def

section \<open>Decimal numbers\<close>

text \<open>\<^verbatim>\<open>std::to_string\<close> of an unsigned integer, and the text an \<^verbatim>\<open>ostream\<close> prints for a signed
  one.\<close>

definition digitChar :: "nat \<Rightarrow> char" where
  "digitChar d = char_of (48 + d)"

fun to_string :: "nat \<Rightarrow> string" where
  "to_string n = (if n < 10 then [digitChar n] else to_string (n div 10) @ [digitChar (n mod 10)])"

declare to_string.simps [simp del]

definition int_to_string :: "int \<Rightarrow> string" where
  "int_to_string i = (if i < 0 then CHR ''-'' # to_string (nat (- i)) else to_string (nat i))"

definition digitsValue :: "string \<Rightarrow> nat" where
  "digitsValue ds = foldl (\<lambda>v c. v * 10 + (of_char c - 48)) 0 ds"

text \<open>\<^verbatim>\<open>std::stoull\<close> with base 10: white space, a sign and at least one digit; a value out of
  range and a text without digits throw (\<open>None\<close>); a minus sign negates modulo \<open>2 ^ 64\<close>.\<close>

definition stoull :: "string \<Rightarrow> u64 option" where
  "stoull s =
    (let s1 = dropWhile isSpace s;
         (neg, s2) = (case s1 of [] \<Rightarrow> (False, [])
            | c # cs \<Rightarrow> if c = CHR ''-'' then (True, cs)
                       else if c = CHR ''+'' then (False, cs) else (False, s1));
         ds = takeWhile isDigit s2;
         v = digitsValue ds
     in if ds = [] \<or> v \<ge> 2 ^ 64 then None
        else Some (if neg then - of_nat v else of_nat v))"

text \<open>\<^verbatim>\<open>std::from_chars\<close> into an \<^verbatim>\<open>int64_t\<close>: an optional minus sign and at least one digit; no
  white space and no plus sign; a value out of range is an error (\<open>None\<close>).\<close>

definition from_chars :: "string \<Rightarrow> int option" where
  "from_chars s =
    (let (neg, s') = (case s of [] \<Rightarrow> (False, []) | c # cs \<Rightarrow> if c = CHR ''-'' then (True, cs) else (False, s));
         ds = takeWhile isDigit s';
         v = (if neg then - int (digitsValue ds) else int (digitsValue ds))
     in if ds = [] \<or> v < - (2 ^ 63) \<or> v \<ge> 2 ^ 63 then None else Some v)"

lemma digitChar_props:
  assumes "d < 10"
  shows "isDigit (digitChar d)" "of_char (digitChar d) = 48 + d"
  using assms by (simp_all add: isDigit_def digitChar_def)

lemma to_string_nonempty [simp]: "to_string n \<noteq> []"
  by (subst to_string.simps) simp

lemma to_string_digits: "c \<in> set (to_string n) \<Longrightarrow> isDigit c"
proof (induction n rule: to_string.induct)
  case (1 n)
  then show ?case
    by (cases "n < 10") (auto simp: to_string.simps [of n] digitChar_props)
qed

lemma digitsValue_snoc [simp]: "digitsValue (ds @ [c]) = digitsValue ds * 10 + (of_char c - 48)"
  by (simp add: digitsValue_def)

lemma digitsValue_to_string [simp]: "digitsValue (to_string n) = n"
proof (induction n rule: to_string.induct)
  case (1 n)
  show ?case
  proof (cases "n < 10")
    case True
    then show ?thesis by (simp add: to_string.simps [of n] digitsValue_def digitChar_props)
  next
    case False
    then have "digitsValue (to_string n) = n div 10 * 10 + (of_char (digitChar (n mod 10)) - 48)"
      using 1 by (simp add: to_string.simps [of n])
    moreover have "of_char (digitChar (n mod 10)) = (48 + n mod 10 :: nat)"
      by (rule digitChar_props) simp
    ultimately show ?thesis by simp
  qed
qed

lemma to_string_inj: "to_string m = to_string n \<Longrightarrow> m = n"
  by (metis digitsValue_to_string)

lemma takeWhile_digits:
  "rest = [] \<or> \<not> isDigit (hd rest) \<Longrightarrow> takeWhile isDigit (to_string n @ rest) = to_string n"
  using to_string_digits [of _ n]
  by (cases rest) (simp_all add: takeWhile_append2 takeWhile_eq_all_conv)

lemma to_string_first:
  obtains c cs where "to_string n = c # cs" "isDigit c"
  using to_string_nonempty [of n] to_string_digits [of _ n] by (cases "to_string n") auto

lemma stoull_to_string: "n < 2 ^ 64 \<Longrightarrow> stoull (to_string n) = Some (of_nat n)"
proof -
  assume n: "n < 2 ^ 64"
  obtain c cs where c: "to_string n = c # cs" "isDigit c" by (rule to_string_first)
  then have "\<not> isSpace c" "c \<noteq> CHR ''-''" "c \<noteq> CHR ''+''" by (auto simp: isSpace_def isDigit_def)
  moreover have "takeWhile isDigit (c # cs) = c # cs" "digitsValue (c # cs) = n"
    using takeWhile_digits [of "[]" n] digitsValue_to_string [of n] c(1) by simp_all
  ultimately show ?thesis
    using n by (simp add: stoull_def c(1))
qed

lemma from_chars_to_string:
  assumes "- (2 ^ 63) \<le> i" "i < 2 ^ 63" "rest = [] \<or> \<not> isDigit (hd rest)"
  shows "from_chars (int_to_string i @ rest) = Some i"
proof (cases "i < 0")
  case True
  then show ?thesis
    using assms takeWhile_digits [OF assms(3), of "nat (- i)"]
    by (simp add: from_chars_def int_to_string_def)
next
  case False
  obtain c cs where c: "to_string (nat i) = c # cs" "isDigit c" by (rule to_string_first)
  then have "c \<noteq> CHR ''-''" by (auto simp: isDigit_def)
  moreover have "takeWhile isDigit (c # cs @ rest) = to_string (nat i)"
    using takeWhile_digits [OF assms(3), of "nat i"] c(1) by simp
  moreover have "digitsValue (to_string (nat i)) = nat i" by simp
  ultimately show ?thesis
    using assms False c(1) by (simp add: from_chars_def int_to_string_def del: digitsValue_to_string)
qed

section \<open>Searching\<close>

text \<open>\<open>sv_find s needle start\<close> is \<^verbatim>\<open>s.find(needle, start)\<close>, \<open>None\<close> for \<^verbatim>\<open>npos\<close>; a single
  character is the string of length one.\<close>

fun findStr :: "string \<Rightarrow> string \<Rightarrow> nat option" where
  "findStr needle [] = (if needle = [] then Some 0 else None)"
| "findStr needle (c # cs) =
    (if prefix needle (c # cs) then Some 0 else map_option Suc (findStr needle cs))"

definition sv_find :: "string \<Rightarrow> string \<Rightarrow> nat \<Rightarrow> nat option" where
  "sv_find s needle start =
    (if start \<le> length s then map_option ((+) start) (findStr needle (drop start s)) else None)"

definition sv_substr :: "string \<Rightarrow> nat \<Rightarrow> nat \<Rightarrow> string" where
  "sv_substr s pos n = take n (drop pos s)"

lemma sv_find_zero: "sv_find s needle 0 = findStr needle s"
  by (cases "findStr needle s") (simp_all add: sv_find_def)

lemma sv_find_at: "sv_find (pre @ s) needle (length pre) = map_option ((+) (length pre)) (findStr needle s)"
  by (simp add: sv_find_def)

text \<open>Text without the first character of the needle is skipped.\<close>

lemma findStr_skip:
  "c \<notin> set pre \<Longrightarrow> findStr (c # n) (pre @ s) = map_option ((+) (length pre)) (findStr (c # n) s)"
  by (induction pre) (cases "findStr (c # n) s"; simp)+

lemma findStr_char: "c \<notin> set pre \<Longrightarrow> findStr [c] (pre @ c # s) = Some (length pre)"
  by (simp add: findStr_skip)

lemma findStr_char_None: "findStr [c] s = None \<longleftrightarrow> c \<notin> set s"
  by (induction s) auto

lemma findStr_found: "findStr n (n @ s) = Some 0"
  by (cases "n @ s") (auto, metis prefixI)

lemma findStr_Some_bound: "findStr n s = Some k \<Longrightarrow> k + length n \<le> length s"
  by (induction s arbitrary: k) (auto split: if_splits dest: prefix_length_le)

lemma findStr_char_Some:
  "findStr [c] s = Some k \<Longrightarrow> k < length s \<and> s ! k = c \<and> c \<notin> set (take k s)"
  by (induction s arbitrary: k) (auto split: if_splits)

text \<open>\<^verbatim>\<open>s.find(needle, start)\<close> with one character, on a text cut where the search starts and at
  the first occurrence.\<close>

lemma sv_find_char:
  "c \<notin> set mid \<Longrightarrow> sv_find (pre @ mid @ c # post) [c] (length pre) = Some (length pre + length mid)"
  by (simp add: sv_find_at findStr_char)

lemma sv_find_char_None: "c \<notin> set s \<Longrightarrow> sv_find (pre @ s) [c] (length pre) = None"
  by (simp add: sv_find_at findStr_char_None)

lemma sv_substr_mid: "sv_substr (pre @ mid @ post) (length pre) (length mid) = mid"
  by (simp add: sv_substr_def)

text \<open>The place of the first occurrence of a character is unique.\<close>

lemma split_at_unique:
  "c \<notin> set a \<Longrightarrow> c \<notin> set a' \<Longrightarrow> a @ c # b = a' @ c # b' \<longleftrightarrow> a = a' \<and> b = b'"
proof (induction a arbitrary: a')
  case Nil
  then show ?case by (cases a') auto
next
  case (Cons x a)
  then show ?case by (cases a') auto
qed

end
