(* ===== verification/Gateway_Server.thy ===== *)
theory Gateway_Server
  imports Gateway_Session_Manager Gateway_Token_Bucket Cpp_Strings
begin

text \<open>
  The gateway server (\<^verbatim>\<open>service/gateway_server.hpp\<close>, \<^verbatim>\<open>services/gateway/gateway_server.cpp\<close>):
  connection handling, authentication of a session, routing of client messages, migration and
  clean-up. \<^verbatim>\<open>AuthServer::validateToken\<close> is the argument \<open>validate\<close> of the message handler: the
  theorems hold for whatever it answers. The handler's successive clock readings are \<open>clk 0\<close>,
  \<open>clk 1\<close>, \dots in the order the code takes them.
\<close>

section \<open>Types\<close>

datatype GatewayActionType = Forward | Reply | Drop

record GatewayAction =
  ga_type :: GatewayActionType
  ga_targetService :: string
  ga_replyOpcode :: u16
  ga_replyPayload :: bytes
  ga_reason :: string

definition makeReply :: "u16 \<Rightarrow> bytes \<Rightarrow> GatewayAction" where
  "makeReply opcode payload = \<lparr>ga_type = Reply, ga_targetService = [], ga_replyOpcode = opcode,
     ga_replyPayload = payload, ga_reason = []\<rparr>"

definition makeForward :: "string \<Rightarrow> GatewayAction" where
  "makeForward service = \<lparr>ga_type = Forward, ga_targetService = service, ga_replyOpcode = 0,
     ga_replyPayload = [], ga_reason = []\<rparr>"

definition makeDrop :: "string \<Rightarrow> GatewayAction" where
  "makeDrop reason = \<lparr>ga_type = Drop, ga_targetService = [], ga_replyOpcode = 0,
     ga_replyPayload = [], ga_reason = reason\<rparr>"

definition statusPayload :: "bool \<Rightarrow> bytes" where
  "statusPayload success = [if success then 0x00 else 0x01]"

definition op_Authenticate :: u16 where "op_Authenticate = 0x0001"
definition op_AuthResult :: u16 where "op_AuthResult = 0x0002"
definition op_MigrationAck :: u16 where "op_MigrationAck = 0x0011"
definition op_Pong :: u16 where "op_Pong = 0x00FF"

record GatewayConfig =
  gc_authTimeout :: int
  gc_rateLimitCapacity :: u32
  gc_rateLimitRefillRate :: u32
  gc_maxConnections :: u32
  gc_idleTimeout :: int

definition defaultGatewayConfig :: GatewayConfig where
  "defaultGatewayConfig = \<lparr>gc_authTimeout = 10, gc_rateLimitCapacity = 100,
     gc_rateLimitRefillRate = 50, gc_maxConnections = 10000, gc_idleTimeout = 300\<rparr>"

record GatewayServer =
  gw_config :: GatewayConfig
  gw_sessions :: GatewaySessionManager
  gw_routes :: "RouteEntry list"
  gw_rateLimiter :: TokenBucket
  gw_running :: bool
  gw_messagesRouted :: u64
  gw_messagesDropped :: u64
  gw_authSuccessCount :: u64
  gw_authFailureCount :: u64
  gw_rateLimitHits :: u64

definition mkGatewayServer :: "GatewayConfig \<Rightarrow> GatewayServer" where
  "mkGatewayServer cfg = \<lparr>gw_config = cfg, gw_sessions = mkSessionManager (gc_maxConnections cfg),
     gw_routes = [], gw_rateLimiter = mkTokenBucket (gc_rateLimitCapacity cfg) (gc_rateLimitRefillRate cfg),
     gw_running = False, gw_messagesRouted = 0, gw_messagesDropped = 0, gw_authSuccessCount = 0,
     gw_authFailureCount = 0, gw_rateLimitHits = 0\<rparr>"

definition subjectUserId :: "TokenClaims \<Rightarrow> u64" where
  "subjectUserId claims = (case stoull (tc_subject claims) of Some v \<Rightarrow> v | None \<Rightarrow> 0)"

section \<open>Message handling\<close>

definition handleGatewayOpcode ::
  "(string \<Rightarrow> TokenClaims GameResult) \<Rightarrow> SessionId \<Rightarrow> u16 \<Rightarrow> bytes \<Rightarrow> ClientSession \<Rightarrow> int
    \<Rightarrow> GatewayServer \<Rightarrow> GatewayAction GameResult \<times> GatewayServer" where
  "handleGatewayOpcode validate sessionId opcode payload session now gw =
    (if opcode = op_Authenticate then
       (if cl_state session \<noteq> Unauthenticated then
          (Inr (makeDrop ''already authenticated''),
           gw\<lparr>gw_messagesDropped := gw_messagesDropped gw + 1\<rparr>)
        else
          (case validate (payloadString payload) of
             Inl _ \<Rightarrow> (Inr (makeReply op_AuthResult (statusPayload False)),
                       gw\<lparr>gw_authFailureCount := gw_authFailureCount gw + 1\<rparr>)
           | Inr claims \<Rightarrow>
               (case authenticateSession sessionId claims (subjectUserId claims) now (gw_sessions gw) of
                  (False, sm) \<Rightarrow> (Inr (makeReply op_AuthResult (statusPayload False)),
                     gw\<lparr>gw_sessions := sm, gw_authFailureCount := gw_authFailureCount gw + 1\<rparr>)
                | (True, sm) \<Rightarrow> (Inr (makeReply op_AuthResult (statusPayload True)),
                     gw\<lparr>gw_sessions := sm, gw_authSuccessCount := gw_authSuccessCount gw + 1\<rparr>))))
     else if opcode = op_MigrationAck then
       (if cl_state session \<noteq> Migrating then
          (Inr (makeDrop ''not in migration state''),
           gw\<lparr>gw_messagesDropped := gw_messagesDropped gw + 1\<rparr>)
        else (Inr (makeDrop ''migration ack processed''),
              gw\<lparr>gw_sessions := snd (completeMigration sessionId now (gw_sessions gw))\<rparr>))
     else if opcode = op_Pong then (Inr (makeDrop ''pong received''), gw)
     else (Inr (makeDrop ''unknown gateway opcode''),
           gw\<lparr>gw_messagesDropped := gw_messagesDropped gw + 1\<rparr>))"

definition gw_handleMessage ::
  "(string \<Rightarrow> TokenClaims GameResult) \<Rightarrow> SessionId \<Rightarrow> u16 \<Rightarrow> bytes \<Rightarrow> (nat \<Rightarrow> int)
    \<Rightarrow> GatewayServer \<Rightarrow> GatewayAction GameResult \<times> GatewayServer" where
  "gw_handleMessage validate sessionId opcode payload clk gw =
    (if \<not> gw_running gw then (err GatewayNotStarted ''gateway server is not running'', gw)
     else case getSession (gw_sessions gw) sessionId of
       None \<Rightarrow> (err SessionNotFound ''session not found'', gw)
     | Some session \<Rightarrow>
       (case tb_consume1 (cl_remoteAddress session) (clk 0) (clk 1) (gw_rateLimiter gw) of
          (False, tb) \<Rightarrow> (err GatewayRateLimited ''rate limit exceeded'',
             gw\<lparr>gw_rateLimiter := tb, gw_rateLimitHits := gw_rateLimitHits gw + 1,
                gw_messagesDropped := gw_messagesDropped gw + 1\<rparr>)
        | (True, tb) \<Rightarrow>
          (let gw1 = gw\<lparr>gw_rateLimiter := tb,
                        gw_sessions := touchSession sessionId (clk 2) (gw_sessions gw)\<rparr>
           in if isGatewayOpcode opcode
              then handleGatewayOpcode validate sessionId opcode payload session (clk 3) gw1
              else case rt_resolve opcode (gw_routes gw1) of
                None \<Rightarrow> (Inr (makeDrop ''no route for opcode''),
                         gw1\<lparr>gw_messagesDropped := gw_messagesDropped gw1 + 1\<rparr>)
              | Some match \<Rightarrow>
                  if rm_requiresAuth match \<and> cl_state session \<noteq> Authenticated then
                    (err ClientNotAuthenticated ''authentication required for this route'',
                     gw1\<lparr>gw_messagesDropped := gw_messagesDropped gw1 + 1\<rparr>)
                  else (Inr (makeForward (rm_service match)),
                        gw1\<lparr>gw_messagesRouted := gw_messagesRouted gw1 + 1\<rparr>))))"

section \<open>Lifecycle, connections, migration and clean-up\<close>

definition gw_start :: "GatewayServer \<Rightarrow> unit GameResult \<times> GatewayServer" where
  "gw_start gw = (if gw_running gw
     then (err GatewayAlreadyStarted ''gateway server is already running'', gw)
     else (Inr (), gw\<lparr>gw_running := True\<rparr>))"

definition gw_stop :: "GatewayServer \<Rightarrow> GatewayServer" where
  "gw_stop gw = gw\<lparr>gw_running := False\<rparr>"

definition gw_addRoute :: "u16 \<Rightarrow> u16 \<Rightarrow> string \<Rightarrow> bool \<Rightarrow> GatewayServer \<Rightarrow> GatewayServer" where
  "gw_addRoute lo hi service requiresAuth gw =
     gw\<lparr>gw_routes := rt_addRoute lo hi service requiresAuth (gw_routes gw)\<rparr>"

definition gw_handleConnect ::
  "SessionId \<Rightarrow> string \<Rightarrow> int \<Rightarrow> GatewayServer \<Rightarrow> unit GameResult \<times> GatewayServer" where
  "gw_handleConnect sessionId remoteAddress now gw =
    (if \<not> gw_running gw then (err GatewayNotStarted ''gateway server is not running'', gw)
     else case createSession sessionId remoteAddress now (gw_sessions gw) of
       (False, sm) \<Rightarrow> (err ConnectionLimitReached ''connection limit reached or duplicate session'',
                       gw\<lparr>gw_sessions := sm\<rparr>)
     | (True, sm) \<Rightarrow> (Inr (), gw\<lparr>gw_sessions := sm\<rparr>))"

definition gw_handleDisconnect :: "SessionId \<Rightarrow> GatewayServer \<Rightarrow> GatewayServer" where
  "gw_handleDisconnect sessionId gw =
    (let gw1 = (case getSession (gw_sessions gw) sessionId of
           None \<Rightarrow> gw
         | Some s \<Rightarrow> gw\<lparr>gw_rateLimiter := tb_remove (cl_remoteAddress s) (gw_rateLimiter gw)\<rparr>)
     in gw1\<lparr>gw_sessions := removeSession sessionId (gw_sessions gw1)\<rparr>)"

definition gw_initiateServerTransfer ::
  "SessionId \<Rightarrow> string \<Rightarrow> int \<Rightarrow> GatewayServer \<Rightarrow> unit GameResult \<times> GatewayServer" where
  "gw_initiateServerTransfer sessionId targetService now gw =
    (if \<not> gw_running gw then (err GatewayNotStarted ''gateway server is not running'', gw)
     else case beginMigration sessionId targetService now (gw_sessions gw) of
       (False, sm) \<Rightarrow> (err MigrationFailed
            ''cannot begin migration (session not authenticated or not found)'', gw\<lparr>gw_sessions := sm\<rparr>)
     | (True, sm) \<Rightarrow> (Inr (), gw\<lparr>gw_sessions := sm\<rparr>))"

definition gw_cleanupIdleSessions :: "int \<Rightarrow> GatewayServer \<Rightarrow> SessionId list \<times> GatewayServer" where
  "gw_cleanupIdleSessions now gw =
    (let idle = findIdleSessions (gc_idleTimeout (gw_config gw)) now (gw_sessions gw)
     in (idle, fold gw_handleDisconnect idle gw))"

definition gw_cleanupExpiredAuth :: "int \<Rightarrow> GatewayServer \<Rightarrow> SessionId list \<times> GatewayServer" where
  "gw_cleanupExpiredAuth now gw =
    (let expired = findExpiredAuthSessions (gc_authTimeout (gw_config gw)) now (gw_sessions gw)
     in (expired, fold gw_handleDisconnect expired gw))"

record GatewayStats =
  gs_totalConnections :: nat
  gs_authenticatedConnections :: nat
  gs_unauthenticatedConnections :: nat
  gs_migratingConnections :: nat
  gs_messagesRouted :: u64
  gs_messagesDropped :: u64
  gs_authSuccessCount :: u64
  gs_authFailureCount :: u64
  gs_rateLimitHits :: u64

definition gw_stats :: "GatewayServer \<Rightarrow> GatewayStats" where
  "gw_stats gw = \<lparr>
     gs_totalConnections = sessionCount (gw_sessions gw),
     gs_authenticatedConnections = sessionCountByState (gw_sessions gw) Authenticated,
     gs_unauthenticatedConnections = sessionCountByState (gw_sessions gw) Unauthenticated,
     gs_migratingConnections = sessionCountByState (gw_sessions gw) Migrating,
     gs_messagesRouted = gw_messagesRouted gw,
     gs_messagesDropped = gw_messagesDropped gw,
     gs_authSuccessCount = gw_authSuccessCount gw,
     gs_authFailureCount = gw_authFailureCount gw,
     gs_rateLimitHits = gw_rateLimitHits gw\<rparr>"

section \<open>Executions\<close>

datatype gw_event =
    EvStart
  | EvStop
  | EvAddRoute u16 u16 string bool
  | EvConnect SessionId string int
  | EvDisconnect SessionId
  | EvMessage "string \<Rightarrow> TokenClaims GameResult" SessionId u16 bytes "nat \<Rightarrow> int"
  | EvTransfer SessionId string int
  | EvCleanupIdle int
  | EvCleanupAuth int

datatype gw_out =
    OutNone
  | OutStatus "unit GameResult"
  | OutAction "GatewayAction GameResult"
  | OutClosed "SessionId list"

fun gw_exec :: "gw_event \<Rightarrow> GatewayServer \<Rightarrow> gw_out \<times> GatewayServer" where
  "gw_exec EvStart gw = map_prod OutStatus id (gw_start gw)"
| "gw_exec EvStop gw = (OutNone, gw_stop gw)"
| "gw_exec (EvAddRoute lo hi svc auth) gw = (OutNone, gw_addRoute lo hi svc auth gw)"
| "gw_exec (EvConnect sid addr now) gw = map_prod OutStatus id (gw_handleConnect sid addr now gw)"
| "gw_exec (EvDisconnect sid) gw = (OutClosed [sid], gw_handleDisconnect sid gw)"
| "gw_exec (EvMessage validate sid opcode payload clk) gw =
     map_prod OutAction id (gw_handleMessage validate sid opcode payload clk gw)"
| "gw_exec (EvTransfer sid svc now) gw = map_prod OutStatus id (gw_initiateServerTransfer sid svc now gw)"
| "gw_exec (EvCleanupIdle now) gw = map_prod OutClosed id (gw_cleanupIdleSessions now gw)"
| "gw_exec (EvCleanupAuth now) gw = map_prod OutClosed id (gw_cleanupExpiredAuth now gw)"

type_synonym gw_history = "(gw_event \<times> gw_out) list"

inductive gw_trace :: "GatewayServer \<Rightarrow> gw_history \<Rightarrow> GatewayServer \<Rightarrow> bool" for gw0 where
  gw_trace_init: "gw_trace gw0 [] gw0"
| gw_trace_step: "gw_trace gw0 h gw \<Longrightarrow> gw_exec ev gw = (out, gw') \<Longrightarrow> gw_trace gw0 (h @ [(ev, out)]) gw'"

text \<open>A successful authentication of a session with claims the authentication server returned, and
  the end of a session.\<close>

definition authenticates :: "SessionId \<Rightarrow> TokenClaims \<Rightarrow> gw_event \<times> gw_out \<Rightarrow> bool" where
  "authenticates sid claims e \<longleftrightarrow> (\<exists>validate payload clk.
     e = (EvMessage validate sid op_Authenticate payload clk,
          OutAction (Inr (makeReply op_AuthResult (statusPayload True)))) \<and>
     validate (payloadString payload) = Inr claims)"

definition closes :: "SessionId \<Rightarrow> gw_event \<times> gw_out \<Rightarrow> bool" where
  "closes sid e \<longleftrightarrow> (\<exists>ids. snd e = OutClosed ids \<and> sid \<in> set ids)"

definition logged_in :: "SessionId \<Rightarrow> TokenClaims \<Rightarrow> gw_history \<Rightarrow> bool" where
  "logged_in sid claims h \<longleftrightarrow> (\<exists>pre e post. h = pre @ e # post \<and> authenticates sid claims e \<and>
     (\<forall>x\<in>set post. \<not> closes sid x))"

lemma logged_in_now: "authenticates sid claims e \<Longrightarrow> logged_in sid claims (h @ [e])"
  unfolding logged_in_def by (intro exI [of _ h] exI [of _ e] exI [of _ "[]"]) simp

lemma logged_in_later:
  assumes "logged_in sid claims h" "\<not> closes sid e"
  shows "logged_in sid claims (h @ [e])"
proof -
  obtain pre a post where "h = pre @ a # post" "authenticates sid claims a" "\<forall>x\<in>set post. \<not> closes sid x"
    using assms(1) unfolding logged_in_def by blast
  with assms(2) show ?thesis
    unfolding logged_in_def by (intro exI [of _ pre] exI [of _ a] exI [of _ "post @ [e]"]) simp
qed

section \<open>Effect of the operations on one session\<close>

abbreviation session_of :: "GatewayServer \<Rightarrow> SessionId \<Rightarrow> ClientSession option" where
  "session_of gw sid \<equiv> map_of (sm_sessions (gw_sessions gw)) sid"

lemma session_of_disconnect:
  "session_of (gw_handleDisconnect sid gw) x = (if x = sid then None else session_of gw x)"
  by (simp add: gw_handleDisconnect_def Let_def removeSession_def delete_conv' getSession_def
      split: option.splits)

lemma session_of_disconnects:
  "session_of (fold gw_handleDisconnect ids gw) x = (if x \<in> set ids then None else session_of gw x)"
  by (induction ids arbitrary: gw) (auto simp: session_of_disconnect)

lemma session_of_touch:
  "map_of (sm_sessions (touchSession sid now sm)) x =
    (if x = sid then map_option (\<lambda>s. s\<lparr>cl_lastActivity := now\<rparr>) (map_of (sm_sessions sm) x)
     else map_of (sm_sessions sm) x)"
  by (simp add: touchSession_def update_conv split: option.splits)

text \<open>What may happen to the state of a session in one step; the reason is the event.\<close>

inductive session_move ::
  "SessionId \<Rightarrow> gw_event \<times> gw_out \<Rightarrow> ClientState option \<Rightarrow> ClientState option \<Rightarrow> bool" for sid where
  move_stay: "\<not> closes sid e \<Longrightarrow> session_move sid e st st"
| move_connect: "session_move sid (EvConnect sid addr now, OutStatus (Inr ())) None (Some Unauthenticated)"
| move_auth: "authenticates sid claims e \<Longrightarrow> session_move sid e (Some Unauthenticated) (Some Authenticated)"
| move_migrate: "session_move sid (EvTransfer sid svc now, OutStatus (Inr ())) (Some Authenticated) (Some Migrating)"
| move_migrated: "session_move sid (EvMessage validate sid op_MigrationAck payload clk, OutAction r)
    (Some Migrating) (Some Authenticated)"
| move_close: "closes sid e \<Longrightarrow> session_move sid e st None"

definition state_of :: "GatewayServer \<Rightarrow> SessionId \<Rightarrow> ClientState option" where
  "state_of gw sid = map_option cl_state (session_of gw sid)"

definition claims_of :: "GatewayServer \<Rightarrow> SessionId \<Rightarrow> TokenClaims option" where
  "claims_of gw sid = map_option cl_claims (session_of gw sid)"

text \<open>One step of the gateway, seen from one session: its state moves along the automaton; its
  claims change only when it is created or authenticated.\<close>

definition session_step :: "SessionId \<Rightarrow> gw_event \<times> gw_out \<Rightarrow> GatewayServer \<Rightarrow> GatewayServer \<Rightarrow> bool" where
  "session_step sid e gw gw' \<longleftrightarrow> session_move sid e (state_of gw sid) (state_of gw' sid) \<and>
     (state_of gw' sid \<in> {None, Some Unauthenticated} \<or>
      (\<exists>claims. authenticates sid claims e \<and> claims_of gw' sid = Some claims) \<or>
      (state_of gw sid \<noteq> Some Unauthenticated \<and> claims_of gw' sid = claims_of gw sid))"

lemma session_move_open: "session_move sid e st (Some x) \<Longrightarrow> \<not> closes sid e"
  by (cases rule: session_move.cases) (auto simp: closes_def authenticates_def)

lemma session_step_same:
  "session_of gw' sid = session_of gw sid \<Longrightarrow> \<not> closes sid e \<Longrightarrow> session_step sid e gw gw'"
  by (cases "session_of gw sid") (auto simp: session_step_def state_of_def claims_of_def intro!: move_stay)

lemma session_step_touch:
  "map_option cl_state (session_of gw' sid) = map_option cl_state (session_of gw sid) \<Longrightarrow>
   map_option cl_claims (session_of gw' sid) = map_option cl_claims (session_of gw sid) \<Longrightarrow>
   \<not> closes sid e \<Longrightarrow> session_step sid e gw gw'"
  by (cases "session_of gw sid") (auto simp: session_step_def state_of_def claims_of_def intro!: move_stay)

lemma session_move_touch:
  "map_option cl_state (session_of (gw\<lparr>gw_rateLimiter := tb, gw_sessions := touchSession sid now (gw_sessions gw)\<rparr>) x)
     = map_option cl_state (session_of gw x)"
  "map_option cl_claims (session_of (gw\<lparr>gw_rateLimiter := tb, gw_sessions := touchSession sid now (gw_sessions gw)\<rparr>) x)
     = map_option cl_claims (session_of gw x)"
  by (auto simp: session_of_touch option.map_comp comp_def intro: option.map_cong0)

lemma no_close_action [simp]: "\<not> closes sid (ev, OutAction r)" "\<not> closes sid (ev, OutStatus r')"
  "\<not> closes sid (ev, OutNone)"
  by (simp_all add: closes_def)

lemma session_step_other_message:
  assumes "x \<noteq> sid" "gw_handleMessage validate sid opcode payload clk gw = (r, gw')"
  shows "session_step x (ev, OutAction r) gw gw'"
proof (rule session_step_same)
  show "session_of gw' x = session_of gw x"
    using assms
    by (auto simp: gw_handleMessage_def handleGatewayOpcode_def Let_def session_of_touch
        authenticateSession_def completeMigration_def update_conv
        split: if_splits option.splits prod.splits bool.splits sum.splits)
qed simp

text \<open>The gateway after the rate limiter has let a message pass and the session was touched.\<close>

definition admitted :: "SessionId \<Rightarrow> TokenBucket \<Rightarrow> int \<Rightarrow> GatewayServer \<Rightarrow> GatewayServer" where
  "admitted sid tb now gw = gw\<lparr>gw_rateLimiter := tb, gw_sessions := touchSession sid now (gw_sessions gw)\<rparr>"

lemma admitted_session:
  assumes "session_of gw sid = Some s"
  shows "session_of (admitted sid tb now gw) sid = Some (s\<lparr>cl_lastActivity := now\<rparr>)"
  using assms by (simp add: admitted_def session_of_touch)

text \<open>The message handler on a live session of a running gateway.\<close>

lemma gw_handleMessage_live:
  assumes "gw_running gw" "session_of gw sid = Some s"
    and "tb_consume1 (cl_remoteAddress s) (clk 0) (clk 1) (gw_rateLimiter gw) = (ok, tb)"
  shows "gw_handleMessage validate sid opcode payload clk gw =
    (if \<not> ok then (err GatewayRateLimited ''rate limit exceeded'',
         gw\<lparr>gw_rateLimiter := tb, gw_rateLimitHits := gw_rateLimitHits gw + 1,
            gw_messagesDropped := gw_messagesDropped gw + 1\<rparr>)
     else let gw1 = admitted sid tb (clk 2) gw in
       if isGatewayOpcode opcode
       then handleGatewayOpcode validate sid opcode payload s (clk 3) gw1
       else case rt_resolve opcode (gw_routes gw) of
         None \<Rightarrow> (Inr (makeDrop ''no route for opcode''),
                  gw1\<lparr>gw_messagesDropped := gw_messagesDropped gw + 1\<rparr>)
       | Some match \<Rightarrow>
           if rm_requiresAuth match \<and> cl_state s \<noteq> Authenticated then
             (err ClientNotAuthenticated ''authentication required for this route'',
              gw1\<lparr>gw_messagesDropped := gw_messagesDropped gw + 1\<rparr>)
           else (Inr (makeForward (rm_service match)),
                 gw1\<lparr>gw_messagesRouted := gw_messagesRouted gw + 1\<rparr>))"
  using assms
  by (cases ok) (simp_all add: gw_handleMessage_def getSession_def admitted_def Let_def split: option.split)

lemma session_step_authenticate:
  assumes h: "handleGatewayOpcode validate sid op_Authenticate payload s now gw1 = (r, gw')"
    and s: "session_of gw sid = Some s" and s1: "session_of gw1 sid = Some (s\<lparr>cl_lastActivity := t\<rparr>)"
  shows "session_step sid (EvMessage validate sid op_Authenticate payload clk, OutAction r) gw gw'"
proof (cases "cl_state s = Unauthenticated \<and> hasValue (validate (payloadString payload))")
  case True
  then obtain claims where c: "validate (payloadString payload) = Inr claims"
    by (auto simp: hasValue_iff)
  have r: "r = Inr (makeReply op_AuthResult (statusPayload True))"
    and s': "session_of gw' sid = Some (s\<lparr>cl_state := Authenticated, cl_claims := claims,
      cl_userId := subjectUserId claims, cl_lastActivity := now\<rparr>)"
    using h True s1 c by (auto simp: handleGatewayOpcode_def authenticateSession_def update_conv)
  have "authenticates sid claims (EvMessage validate sid op_Authenticate payload clk, OutAction r)"
    using r c by (simp add: authenticates_def)
  with True s s' show ?thesis
    by (auto simp: session_step_def state_of_def claims_of_def intro: move_auth)
next
  case False
  with h have "session_of gw' sid = session_of gw1 sid"
    by (auto simp: handleGatewayOpcode_def hasValue_iff split: if_splits sum.splits)
  then show ?thesis using s s1 by (intro session_step_touch) simp_all
qed

lemma session_step_migration_ack:
  assumes h: "handleGatewayOpcode validate sid op_MigrationAck payload s now gw1 = (r, gw')"
    and s: "session_of gw sid = Some s" and s1: "session_of gw1 sid = Some (s\<lparr>cl_lastActivity := t\<rparr>)"
  shows "session_step sid (EvMessage validate sid op_MigrationAck payload clk, OutAction r) gw gw'"
proof (cases "cl_state s = Migrating")
  case True
  have "session_of gw' sid = Some (s\<lparr>cl_state := Authenticated, cl_lastActivity := now\<rparr>)"
    using h True s1
    by (auto simp: handleGatewayOpcode_def completeMigration_def update_conv
        op_Authenticate_def op_MigrationAck_def)
  with True s show ?thesis
    by (auto simp: session_step_def state_of_def claims_of_def intro: move_migrated)
next
  case False
  with h have "session_of gw' sid = session_of gw1 sid"
    by (auto simp: handleGatewayOpcode_def op_Authenticate_def op_MigrationAck_def)
  then show ?thesis using s s1 by (intro session_step_touch) simp_all
qed

lemma session_step_message:
  assumes msg: "gw_handleMessage validate sid opcode payload clk gw = (r, gw')"
  shows "session_step sid (EvMessage validate sid opcode payload clk, OutAction r) gw gw'"
proof (cases "gw_running gw \<and> session_of gw sid \<noteq> None")
  case False
  with msg show ?thesis
    by (intro session_step_same) (auto simp: gw_handleMessage_def getSession_def split: if_splits)
next
  case True
  then obtain s where s: "gw_running gw" "session_of gw sid = Some s" by auto
  obtain ok tb where tb: "tb_consume1 (cl_remoteAddress s) (clk 0) (clk 1) (gw_rateLimiter gw) = (ok, tb)"
    by (meson surj_pair)
  note live = gw_handleMessage_live [where clk = clk and validate = validate and opcode = opcode
      and payload = payload, OF s tb]
  note s1 = admitted_session [OF s(2), of tb "clk 2"]
  show ?thesis
  proof (cases "ok \<and> isGatewayOpcode opcode")
    case False
    then have "session_of gw' sid = session_of gw sid \<or>
        session_of gw' sid = session_of (admitted sid tb (clk 2) gw) sid"
      using msg live by (auto simp: Let_def split: if_splits option.splits)
    then show ?thesis using s(2) s1 by (intro session_step_touch) auto
  next
    case own: True
    with msg live have h: "handleGatewayOpcode validate sid opcode payload s (clk 3)
        (admitted sid tb (clk 2) gw) = (r, gw')" by (simp add: Let_def)
    show ?thesis
    proof (cases "opcode \<in> {op_Authenticate, op_MigrationAck}")
      case True
      then show ?thesis
        using session_step_authenticate [OF _ s(2) s1] session_step_migration_ack [OF _ s(2) s1] h by auto
    next
      case False
      with h have "session_of gw' sid = session_of (admitted sid tb (clk 2) gw) sid"
        by (auto simp: handleGatewayOpcode_def split: if_splits)
      then show ?thesis using s(2) s1 by (intro session_step_touch) simp_all
    qed
  qed
qed

lemma session_step_close:
  "session_step sid (ev, OutClosed ids) gw (fold gw_handleDisconnect ids gw)"
proof (cases "sid \<in> set ids")
  case True
  then show ?thesis
    by (auto simp: session_of_disconnects session_step_def state_of_def closes_def intro!: move_close)
next
  case False
  then show ?thesis
    by (intro session_step_same) (simp_all add: session_of_disconnects closes_def)
qed

text \<open>Every event moves every session along the automaton.\<close>

lemma gw_exec_session_step:
  assumes ex: "gw_exec ev gw = (out, gw')"
  shows "session_step sid (ev, out) gw gw'"
proof (cases ev)
  case EvStart
  with ex show ?thesis by (intro session_step_same) (auto simp: gw_start_def split: if_splits)
next
  case EvStop
  with ex show ?thesis by (intro session_step_same) (auto simp: gw_stop_def)
next
  case (EvAddRoute lo hi svc auth)
  with ex show ?thesis by (intro session_step_same) (auto simp: gw_addRoute_def)
next
  case (EvConnect sid' addr now)
  with ex show ?thesis
    by (auto simp: gw_handleConnect_def createSession_def update_conv session_step_def state_of_def
        claims_of_def split: if_splits intro!: move_stay move_connect)
next
  case (EvDisconnect sid')
  with ex show ?thesis
    by (cases "sid = sid'")
       (auto simp: session_of_disconnect session_step_def state_of_def claims_of_def closes_def
         intro!: move_close move_stay)
next
  case (EvMessage validate sid' opcode payload clk)
  with ex session_step_message session_step_other_message show ?thesis
    by (cases "sid = sid'") (auto simp: map_prod_def split: prod.splits)
next
  case (EvTransfer sid' svc now)
  with ex show ?thesis
    by (auto simp: gw_initiateServerTransfer_def beginMigration_def update_conv session_step_def
        state_of_def claims_of_def split: if_splits option.splits intro!: move_stay move_migrate)
next
  case (EvCleanupIdle now)
  with ex show ?thesis
    by (auto simp: gw_cleanupIdleSessions_def Let_def intro: session_step_close)
next
  case (EvCleanupAuth now)
  with ex show ?thesis
    by (auto simp: gw_cleanupExpiredAuth_def Let_def intro: session_step_close)
qed

section \<open>Invariants of an execution\<close>

lemma logged_in_invariant:
  assumes "gw_trace gw0 h gw" "\<And>sid. session_of gw0 sid = None"
    and "state_of gw sid \<in> {Some Authenticated, Some Migrating}" "claims_of gw sid = Some claims"
  shows "logged_in sid claims h"
  using assms(1,3,4)
proof (induction arbitrary: claims rule: gw_trace.induct)
  case gw_trace_init
  then show ?case using assms(2) by (simp add: state_of_def)
next
  case (gw_trace_step h gw ev out gw')
  have step: "session_step sid (ev, out) gw gw'"
    by (rule gw_exec_session_step [OF gw_trace_step.hyps(2)])
  then have mv: "session_move sid (ev, out) (state_of gw sid) (state_of gw' sid)"
    by (simp add: session_step_def)
  obtain st where st: "state_of gw' sid = Some st" using gw_trace_step.prems(1) by auto
  have alive: "\<not> closes sid (ev, out)" using mv unfolding st by (rule session_move_open)
  show ?case
  proof (cases "authenticates sid claims (ev, out)")
    case True
    then show ?thesis by (rule logged_in_now)
  next
    case False
    with step gw_trace_step.prems have same: "claims_of gw sid = Some claims"
      and "state_of gw sid \<noteq> Some Unauthenticated"
      by (auto simp: session_step_def)
    with mv have "state_of gw sid \<in> {Some Authenticated, Some Migrating}"
      using gw_trace_step.prems(1) by (cases rule: session_move.cases) (auto simp: closes_def)
    from gw_trace_step.IH [OF this same] alive show ?thesis by (rule logged_in_later)
  qed
qed

lemma sessions_disconnects:
  "sm_bounded n (gw_sessions gw) \<Longrightarrow> sm_bounded n (gw_sessions (fold gw_handleDisconnect ids gw))"
proof (induction ids arbitrary: gw)
  case (Cons i ids)
  have "sm_bounded n (gw_sessions (gw_handleDisconnect i gw))"
    using Cons.prems by (auto simp: gw_handleDisconnect_def Let_def intro: inv_intros split: option.splits)
  with Cons.IH show ?case by simp
qed simp

lemma sessions_gateway_opcode:
  assumes "handleGatewayOpcode validate sid opcode payload s now gw = (r, gw')"
    and "sm_bounded n (gw_sessions gw)"
  shows "sm_bounded n (gw_sessions gw')"
  using assms
  by (auto simp: handleGatewayOpcode_def intro: inv_intros
      split: if_splits sum.splits prod.splits bool.splits)

lemma sessions_message:
  assumes msg: "gw_handleMessage validate sid opcode payload clk gw = (r, gw')"
    and b: "sm_bounded n (gw_sessions gw)"
  shows "sm_bounded n (gw_sessions gw')"
proof (cases "gw_running gw \<and> session_of gw sid \<noteq> None")
  case False
  with msg b show ?thesis
    by (cases "gw_running gw") (auto simp: gw_handleMessage_def getSession_def)
next
  case True
  then obtain s where s: "gw_running gw" "session_of gw sid = Some s" by auto
  obtain ok tb where tb: "tb_consume1 (cl_remoteAddress s) (clk 0) (clk 1) (gw_rateLimiter gw) = (ok, tb)"
    by (meson surj_pair)
  have "sm_bounded n (gw_sessions (admitted sid tb (clk 2) gw))"
    using sm_bounded_ops(6) [OF b] by (simp add: admitted_def)
  with msg b sessions_gateway_opcode gw_handleMessage_live [where clk = clk, OF s tb] show ?thesis
    by (auto simp: Let_def split: if_splits option.splits)
qed

lemma sessions_exec:
  assumes "gw_exec ev gw = (out, gw')" "sm_bounded n (gw_sessions gw)"
  shows "sm_bounded n (gw_sessions gw')"
proof (cases ev)
  case (EvMessage validate sid opcode payload clk)
  with assms sessions_message show ?thesis by (auto simp: map_prod_def split: prod.splits)
next
  case (EvDisconnect sid)
  with assms sessions_disconnects [of n gw "[sid]"] show ?thesis by auto
next
  case (EvConnect sid addr now)
  with assms show ?thesis
    by (auto simp: gw_handleConnect_def intro: inv_intros split: if_splits prod.splits bool.splits)
next
  case (EvTransfer sid svc now)
  with assms show ?thesis
    by (auto simp: gw_initiateServerTransfer_def intro: inv_intros split: if_splits prod.splits bool.splits)
qed (use assms sessions_disconnects in \<open>auto simp: gw_start_def gw_stop_def gw_addRoute_def
      gw_cleanupIdleSessions_def gw_cleanupExpiredAuth_def Let_def split: if_splits\<close>)

section \<open>Accounting\<close>

fun is_forward :: "gw_out \<Rightarrow> bool" where
  "is_forward (OutAction (Inr a)) = (ga_type a = Forward)"
| "is_forward _ = False"

fun is_auth_reply :: "bool \<Rightarrow> gw_out \<Rightarrow> bool" where
  "is_auth_reply ok (OutAction (Inr a)) = (a = makeReply op_AuthResult (statusPayload ok))"
| "is_auth_reply ok _ = False"

fun is_error :: "ErrorCode \<Rightarrow> gw_out \<Rightarrow> bool" where
  "is_error code (OutAction (Inl e)) = (ge_code e = code)"
| "is_error code _ = False"

fun is_silent_drop :: "gw_out \<Rightarrow> bool" where
  "is_silent_drop (OutAction (Inr a)) = (ga_type a = Drop \<and>
     ga_reason a \<notin> {''migration ack processed'', ''pong received''})"
| "is_silent_drop _ = False"

definition is_dropped :: "gw_out \<Rightarrow> bool" where
  "is_dropped out \<longleftrightarrow> is_silent_drop out \<or> is_error GatewayRateLimited out \<or> is_error ClientNotAuthenticated out"

definition tally :: "(gw_out \<Rightarrow> bool) \<Rightarrow> gw_history \<Rightarrow> u64" where
  "tally P h = of_nat (length (filter (\<lambda>e. P (snd e)) h))"

lemma tally_Nil [simp]: "tally P [] = 0"
  by (simp add: tally_def)

lemma tally_snoc: "tally P (h @ [e]) = tally P h + (if P (snd e) then 1 else 0)"
  by (simp add: tally_def)

definition counters :: "GatewayServer \<Rightarrow> u64 list" where
  "counters gw = [gw_messagesRouted gw, gw_messagesDropped gw, gw_authSuccessCount gw,
     gw_authFailureCount gw, gw_rateLimitHits gw]"

definition tallies :: "gw_history \<Rightarrow> u64 list" where
  "tallies h = [tally is_forward h, tally is_dropped h, tally (is_auth_reply True) h,
     tally (is_auth_reply False) h, tally (is_error GatewayRateLimited) h]"

definition bump :: "gw_out \<Rightarrow> u64 list \<Rightarrow> u64 list" where
  "bump out cs = map2 (\<lambda>c b. c + (if b then 1 else 0)) cs
     [is_forward out, is_dropped out, is_auth_reply True out, is_auth_reply False out,
      is_error GatewayRateLimited out]"

lemma tallies_snoc: "tallies (h @ [(ev, out)]) = bump out (tallies h)"
  by (simp add: tallies_def bump_def tally_snoc)

text \<open>What each kind of answer adds to the counters routed, dropped, authenticated, refused, limited.\<close>

lemma bump_action:
  "bump (OutAction (Inr (makeForward svc))) [a, b, c, d, e] = [a + 1, b, c, d, e]"
  "bump (OutAction (Inr (makeDrop reason))) [a, b, c, d, e] =
     [a, b + (if reason \<in> {''migration ack processed'', ''pong received''} then 0 else 1), c, d, e]"
  "bump (OutAction (Inr (makeReply op_AuthResult (statusPayload ok)))) [a, b, c, d, e] =
     [a, b, c + (if ok then 1 else 0), d + (if ok then 0 else 1), e]"
  by (simp_all add: bump_def is_dropped_def makeForward_def makeDrop_def makeReply_def statusPayload_def)

lemma bump_error:
  "bump (OutAction (Inl (mkGameError code msg))) [a, b, c, d, e] =
     [a, b + (if code \<in> {GatewayRateLimited, ClientNotAuthenticated} then 1 else 0), c, d,
      e + (if code = GatewayRateLimited then 1 else 0)]"
  by (simp add: bump_def is_dropped_def)

lemma bump_quiet:
  "bump OutNone [a, b, c, d, e] = [a, b, c, d, e]" "bump (OutStatus st) [a, b, c, d, e] = [a, b, c, d, e]"
  "bump (OutClosed ids) [a, b, c, d, e] = [a, b, c, d, e]"
  by (simp_all add: bump_def is_dropped_def)

lemmas bump_simps = bump_action bump_error bump_quiet

lemma counters_disconnects: "counters (fold gw_handleDisconnect ids gw) = counters gw"
  by (induction ids arbitrary: gw)
     (simp_all add: counters_def gw_handleDisconnect_def Let_def split: option.splits)

lemma counters_authenticate:
  assumes "handleGatewayOpcode validate sid op_Authenticate payload s now gw = (r, gw')"
  shows "counters gw' = bump (OutAction r) (counters gw)"
proof (cases "cl_state s = Unauthenticated")
  case False
  with assms show ?thesis by (auto simp: handleGatewayOpcode_def counters_def bump_simps)
next
  case unauth: True
  show ?thesis
  proof (cases "validate (payloadString payload)")
    case (Inl e)
    with assms unauth show ?thesis by (auto simp: handleGatewayOpcode_def counters_def bump_simps)
  next
    case (Inr claims)
    obtain ok sm where "authenticateSession sid claims (subjectUserId claims) now (gw_sessions gw) = (ok, sm)"
      by (meson surj_pair)
    with assms unauth Inr show ?thesis
      by (cases ok) (auto simp: handleGatewayOpcode_def counters_def bump_simps)
  qed
qed

lemma counters_gateway_opcode:
  assumes "handleGatewayOpcode validate sid opcode payload s now gw = (r, gw')"
  shows "counters gw' = bump (OutAction r) (counters gw)"
proof (cases "opcode = op_Authenticate")
  case True
  with assms counters_authenticate show ?thesis by simp
next
  case False
  with assms show ?thesis
    by (cases "opcode = op_MigrationAck"; cases "opcode = op_Pong"; cases "cl_state s = Migrating")
       (auto simp: handleGatewayOpcode_def counters_def bump_simps op_MigrationAck_def op_Pong_def)
qed

lemma counters_message:
  assumes msg: "gw_handleMessage validate sid opcode payload clk gw = (r, gw')"
  shows "counters gw' = bump (OutAction r) (counters gw)"
proof (cases "gw_running gw \<and> session_of gw sid \<noteq> None")
  case False
  with msg show ?thesis
    by (cases "gw_running gw") (auto simp: gw_handleMessage_def getSession_def counters_def bump_simps)
next
  case True
  then obtain s where s: "gw_running gw" "session_of gw sid = Some s" by auto
  obtain ok tb where tb: "tb_consume1 (cl_remoteAddress s) (clk 0) (clk 1) (gw_rateLimiter gw) = (ok, tb)"
    by (meson surj_pair)
  note live = gw_handleMessage_live [where clk = clk and validate = validate and opcode = opcode
      and payload = payload, OF s tb]
  have c1: "counters (admitted sid tb (clk 2) gw) = counters gw"
    by (simp add: counters_def admitted_def)
  show ?thesis
  proof (cases "ok \<and> isGatewayOpcode opcode")
    case True
    with msg live c1 counters_gateway_opcode show ?thesis by (auto simp: Let_def)
  next
    case False
    then show ?thesis
    proof (cases ok)
      case False
      with msg live show ?thesis by (auto simp: counters_def bump_simps)
    next
      case True
      with \<open>\<not> (ok \<and> isGatewayOpcode opcode)\<close> msg live show ?thesis
        by (cases "rt_resolve opcode (gw_routes gw)")
           (auto simp: Let_def counters_def bump_simps admitted_def split: if_splits)
    qed
  qed
qed

lemma counters_exec:
  assumes "gw_exec ev gw = (out, gw')"
  shows "counters gw' = bump out (counters gw)"
proof (cases ev)
  case (EvMessage validate sid opcode payload clk)
  with assms counters_message show ?thesis by (auto simp: map_prod_def split: prod.splits)
next
  case (EvDisconnect sid)
  with assms counters_disconnects [of "[sid]" gw] show ?thesis
    by (auto simp: counters_def bump_simps)
next
  case (EvCleanupIdle now)
  with assms counters_disconnects show ?thesis
    by (auto simp: gw_cleanupIdleSessions_def Let_def counters_def bump_simps)
next
  case (EvCleanupAuth now)
  with assms counters_disconnects show ?thesis
    by (auto simp: gw_cleanupExpiredAuth_def Let_def counters_def bump_simps)
next
  case (EvConnect sid addr now)
  obtain ok sm where "createSession sid addr now (gw_sessions gw) = (ok, sm)" by (meson surj_pair)
  with assms EvConnect show ?thesis
    by (cases ok) (auto simp: gw_handleConnect_def counters_def bump_simps split: if_splits)
next
  case (EvTransfer sid svc now)
  obtain ok sm where "beginMigration sid svc now (gw_sessions gw) = (ok, sm)" by (meson surj_pair)
  with assms EvTransfer show ?thesis
    by (cases ok) (auto simp: gw_initiateServerTransfer_def counters_def bump_simps split: if_splits)
qed (use assms in \<open>auto simp: gw_start_def gw_stop_def gw_addRoute_def counters_def bump_simps
      split: if_splits\<close>)

section \<open>Rate limiting of an address\<close>

text \<open>The request a message makes of the rate limiter, if it gets that far.\<close>

fun limiter_call :: "gw_event \<Rightarrow> GatewayServer \<Rightarrow> tb_call list" where
  "limiter_call (EvMessage validate sid opcode payload clk) gw =
     (case session_of gw sid of
        Some s \<Rightarrow> if gw_running gw then [(cl_remoteAddress s, 1, clk 0, clk 1)] else []
      | None \<Rightarrow> [])"
| "limiter_call _ gw = []"

fun limiter_calls :: "gw_event list \<Rightarrow> GatewayServer \<Rightarrow> tb_call list" where
  "limiter_calls [] gw = []"
| "limiter_calls (ev # evs) gw = limiter_call ev gw @ limiter_calls evs (snd (gw_exec ev gw))"

text \<open>The messages from an address that are not turned away by the rate limit.\<close>

fun accepted_from :: "string \<Rightarrow> gw_event list \<Rightarrow> GatewayServer \<Rightarrow> nat" where
  "accepted_from addr [] gw = 0"
| "accepted_from addr (ev # evs) gw = (case gw_exec ev gw of (out, gw') \<Rightarrow>
     (if map fst (limiter_call ev gw) = [addr] \<and> \<not> is_error GatewayRateLimited out then 1 else 0)
     + accepted_from addr evs gw')"

fun closes_sessions :: "gw_event \<Rightarrow> bool" where
  "closes_sessions (EvDisconnect sid) = True"
| "closes_sessions (EvCleanupIdle now) = True"
| "closes_sessions (EvCleanupAuth now) = True"
| "closes_sessions _ = False"

lemma gateway_opcode_limiter:
  assumes "handleGatewayOpcode validate sid opcode payload s now gw = (r, gw')"
  shows "gw_rateLimiter gw' = gw_rateLimiter gw \<and> hasValue r"
  using assms
  by (auto simp: handleGatewayOpcode_def split: if_splits sum.splits prod.splits bool.splits)

lemma limiter_message:
  assumes msg: "gw_handleMessage validate sid opcode payload clk gw = (r, gw')"
    and live: "gw_running gw" "session_of gw sid = Some s"
    and tb: "tb_consume1 (cl_remoteAddress s) (clk 0) (clk 1) (gw_rateLimiter gw) = (ok, tb)"
  shows "gw_rateLimiter gw' = tb \<and> (is_error GatewayRateLimited (OutAction r) \<longleftrightarrow> \<not> ok)"
proof (cases "ok \<and> isGatewayOpcode opcode")
  case True
  with msg gw_handleMessage_live [where clk = clk, OF live tb]
  have "handleGatewayOpcode validate sid opcode payload s (clk 3) (admitted sid tb (clk 2) gw) = (r, gw')"
    by (simp add: Let_def)
  from gateway_opcode_limiter [OF this] True show ?thesis
    by (auto simp: admitted_def hasValue_iff)
next
  case False
  with msg gw_handleMessage_live [where clk = clk, OF live tb] show ?thesis
    by (cases ok; cases "rt_resolve opcode (gw_routes gw)")
       (auto simp: Let_def admitted_def split: if_splits)
qed

lemma limiter_exec:
  assumes ex: "gw_exec ev gw = (out, gw')" and keep: "\<not> closes_sessions ev"
  shows "(limiter_call ev gw = [] \<and> gw_rateLimiter gw' = gw_rateLimiter gw) \<or>
    (\<exists>addr t0 t1 ok. limiter_call ev gw = [(addr, 1, t0, t1)] \<and>
       tb_consume addr 1 t0 t1 (gw_rateLimiter gw) = (ok, gw_rateLimiter gw') \<and>
       (is_error GatewayRateLimited out \<longleftrightarrow> \<not> ok))"
proof (cases ev)
  case (EvMessage validate sid opcode payload clk)
  obtain r where out: "out = OutAction r" and msg: "gw_handleMessage validate sid opcode payload clk gw = (r, gw')"
    using ex EvMessage by (auto simp: map_prod_def split: prod.splits)
  show ?thesis
  proof (cases "gw_running gw \<and> session_of gw sid \<noteq> None")
    case False
    with msg EvMessage show ?thesis
      by (cases "gw_running gw") (auto simp: gw_handleMessage_def getSession_def split: option.splits)
  next
    case True
    then obtain s where s: "gw_running gw" "session_of gw sid = Some s" by auto
    obtain ok tb where tb: "tb_consume1 (cl_remoteAddress s) (clk 0) (clk 1) (gw_rateLimiter gw) = (ok, tb)"
      by (meson surj_pair)
    from limiter_message [OF msg s tb] s tb EvMessage out show ?thesis
      by (auto simp: tb_consume1_def)
  qed
next
  case (EvConnect sid addr now)
  with ex show ?thesis by (auto simp: gw_handleConnect_def split: if_splits prod.splits bool.splits)
next
  case (EvTransfer sid svc now)
  with ex show ?thesis by (auto simp: gw_initiateServerTransfer_def split: if_splits prod.splits bool.splits)
qed (use ex keep in \<open>auto simp: gw_start_def gw_stop_def gw_addRoute_def split: if_splits\<close>)

lemma accepted_eq_granted:
  assumes "\<forall>ev\<in>set evs. \<not> closes_sessions ev"
  shows "of_nat (accepted_from addr evs gw)
    = granted tb_consume addr (limiter_calls evs gw) (gw_rateLimiter gw)"
  using assms
proof (induction evs arbitrary: gw)
  case (Cons ev evs)
  obtain out gw' where ex: "gw_exec ev gw = (out, gw')" by (meson surj_pair)
  have one: "u32_double 1 = 1" by (simp add: u32_double_def)
  have IH: "of_nat (accepted_from addr evs gw')
      = granted tb_consume addr (limiter_calls evs gw') (gw_rateLimiter gw')"
    using Cons by simp
  have "\<not> closes_sessions ev" using Cons.prems by simp
  from limiter_exec [OF ex this] show ?case
    using IH one ex by (elim disjE exE conjE) auto
qed simp

section \<open>A small gateway\<close>

fun gw_runs :: "gw_event list \<Rightarrow> GatewayServer \<Rightarrow> gw_history \<times> GatewayServer" where
  "gw_runs [] gw = ([], gw)"
| "gw_runs (ev # evs) gw = (case gw_exec ev gw of (out, gw') \<Rightarrow>
     (case gw_runs evs gw' of (h, gw'') \<Rightarrow> ((ev, out) # h, gw'')))"

lemma gw_trace_runs:
  "gw_trace gw0 h gw \<Longrightarrow> gw_trace gw0 (h @ fst (gw_runs evs gw)) (snd (gw_runs evs gw))"
proof (induction evs arbitrary: h gw)
  case (Cons ev evs)
  obtain out gw' where ex: "gw_exec ev gw = (out, gw')" by (meson surj_pair)
  from Cons.IH [OF gw_trace_step [OF Cons.prems ex]] ex show ?case
    by (cases "gw_runs evs gw'") simp
qed simp

definition demoConfig :: GatewayConfig where
  "demoConfig = defaultGatewayConfig\<lparr>gc_rateLimitCapacity := 3\<rparr>"

definition demoEvents :: "gw_event list" where
  "demoEvents = [EvStart, EvAddRoute 0x100 0x1FF ''game'' True, EvConnect (SessionId 7) ''10.0.0.1'' 0,
     EvMessage (\<lambda>_. Inr emptyClaims) (SessionId 7) 1 [] (\<lambda>_. 0)]"

definition demoGateway :: GatewayServer where
  "demoGateway = snd (gw_runs demoEvents (mkGatewayServer demoConfig))"

definition demoHistory :: gw_history where
  "demoHistory = fst (gw_runs demoEvents (mkGatewayServer demoConfig))"

lemma demo_trace: "gw_trace (mkGatewayServer demoConfig) demoHistory demoGateway"
  using gw_trace_runs [OF gw_trace_init, of "mkGatewayServer demoConfig" demoEvents]
  by (simp add: demoHistory_def demoGateway_def)

lemma demo_forward:
  "case gw_handleMessage (\<lambda>_. Inr emptyClaims) (SessionId 7) 0x150 [] (\<lambda>_. 0) demoGateway of
     (Inr action, gw') \<Rightarrow> ga_type action = Forward \<and>
       rt_resolve 0x150 (gw_routes demoGateway) = Some \<lparr>rm_service = ''game'', rm_requiresAuth = True\<rparr>
   | (Inl e, gw') \<Rightarrow> False"
  unfolding demoGateway_def demoEvents_def demoConfig_def by code_simp

section \<open>Properties\<close>

text \<open>(C4) No unauthenticated traffic. In every execution of a gateway that starts without sessions:
  if a message is forwarded to a service, then some route covers its opcode and names that
  service, and if that route requires authentication, the session had earlier presented a token
  that the authentication server accepted, and was not closed since.\<close>

theorem gateway_forwards_only_authenticated:
  assumes "gw_trace (mkGatewayServer cfg) h gw"
    and "gw_handleMessage validate sid opcode payload clk gw = (Inr action, gw')"
    and "ga_type action = Forward"
  shows "\<exists>match. rt_resolve opcode (gw_routes gw) = Some match \<and> rm_service match = ga_targetService action \<and>
     (rm_requiresAuth match \<longrightarrow> (\<exists>claims. logged_in sid claims h \<and> claims_of gw sid = Some claims))"
proof -
  have live: "gw_running gw" "session_of gw sid \<noteq> None"
    using assms(2)
    by (cases "gw_running gw"; cases "session_of gw sid"; simp add: gw_handleMessage_def getSession_def)+
  then obtain s where s: "session_of gw sid = Some s" by auto
  obtain ok tb where tb: "tb_consume1 (cl_remoteAddress s) (clk 0) (clk 1) (gw_rateLimiter gw) = (ok, tb)"
    by (meson surj_pair)
  note msg = assms(2) [unfolded gw_handleMessage_live [where clk = clk, OF live(1) s tb]]
  have "ok" using msg by (cases ok) auto
  moreover have "\<not> isGatewayOpcode opcode"
    using msg assms(3) \<open>ok\<close>
    by (auto simp: Let_def handleGatewayOpcode_def makeDrop_def makeReply_def
        split: if_splits sum.splits prod.splits bool.splits)
  ultimately obtain match where m: "rt_resolve opcode (gw_routes gw) = Some match"
      "rm_requiresAuth match \<longrightarrow> cl_state s = Authenticated" "rm_service match = ga_targetService action"
    using msg assms(3)
    by (auto simp: Let_def makeDrop_def makeForward_def split: option.splits if_splits)
  have none: "session_of (mkGatewayServer cfg) x = None" for x
    by (simp add: mkGatewayServer_def mkSessionManager_def)
  have "logged_in sid (cl_claims s) h" if "cl_state s = Authenticated"
    using logged_in_invariant [OF assms(1) none] s that by (simp add: state_of_def claims_of_def)
  with m s show ?thesis by (auto simp: claims_of_def)
qed

theorem gateway_forwards_only_authenticated_witness:
  "\<exists>claims. logged_in (SessionId 7) claims demoHistory \<and> claims_of demoGateway (SessionId 7) = Some claims"
proof -
  obtain action gw' where
    m: "gw_handleMessage (\<lambda>_. Inr emptyClaims) (SessionId 7) 0x150 [] (\<lambda>_. 0) demoGateway = (Inr action, gw')"
      "ga_type action = Forward"
      "rt_resolve 0x150 (gw_routes demoGateway) = Some \<lparr>rm_service = ''game'', rm_requiresAuth = True\<rparr>"
    using demo_forward by (auto split: prod.splits sum.splits)
  from gateway_forwards_only_authenticated [OF demo_trace m(1,2)] m(3) show ?thesis by simp
qed

text \<open>(C19) The life of a session. In every execution of a gateway, each event moves each session
  along the documented states only (connected and unauthenticated, authenticated by an accepted
  token, migrating on a transfer, authenticated again on the client's acknowledgement, closed),
  the claims stored for an authenticated session are those of the accepted token, and there are
  never more sessions than the configured maximum.\<close>

theorem gateway_session_lifecycle:
  assumes "gw_trace (mkGatewayServer cfg) h gw" "gw_exec ev gw = (out, gw')"
  shows "session_step sid (ev, out) gw gw' \<and> sessionCount (gw_sessions gw') \<le> unat (gc_maxConnections cfg)"
proof -
  have "sm_bounded (gc_maxConnections cfg) (gw_sessions gw)"
    using assms(1)
  proof induction
    case gw_trace_init
    show ?case by (simp add: sm_bounded_def sm_inv_def mkGatewayServer_def mkSessionManager_def)
  qed (rule sessions_exec)
  from sessions_exec [OF assms(2) this] gw_exec_session_step [OF assms(2)] show ?thesis
    by (auto simp: sm_bounded_def sm_inv_def sessionCount_def)
qed

theorem gateway_session_lifecycle_witness:
  "session_step (SessionId 7) (EvTransfer (SessionId 7) ''game-2'' 5,
      fst (gw_exec (EvTransfer (SessionId 7) ''game-2'' 5) demoGateway)) demoGateway
      (snd (gw_exec (EvTransfer (SessionId 7) ''game-2'' 5) demoGateway)) \<and>
   sessionCount (gw_sessions (snd (gw_exec (EvTransfer (SessionId 7) ''game-2'' 5) demoGateway))) \<le> 10000"
  using gateway_session_lifecycle [OF demo_trace surjective_pairing
      [of "gw_exec (EvTransfer (SessionId 7) ''game-2'' 5) demoGateway"], of "SessionId 7"]
  by (simp add: demoConfig_def defaultGatewayConfig_def del: gw_exec.simps)

text \<open>The statistics are exact. In every execution of a gateway the counters of \<^verbatim>\<open>stats()\<close> are
  the numbers (modulo \<open>2 ^ 64\<close>) of messages forwarded, of messages dropped or refused for lack of
  authentication or by the rate limit, of successful and failed authentications, and of rate
  limit hits; the connection counts are those of the session table.\<close>

theorem gateway_statistics_exact:
  assumes "gw_trace (mkGatewayServer cfg) h gw"
  shows "gs_messagesRouted (gw_stats gw) = tally is_forward h \<and>
    gs_messagesDropped (gw_stats gw) = tally is_dropped h \<and>
    gs_authSuccessCount (gw_stats gw) = tally (is_auth_reply True) h \<and>
    gs_authFailureCount (gw_stats gw) = tally (is_auth_reply False) h \<and>
    gs_rateLimitHits (gw_stats gw) = tally (is_error GatewayRateLimited) h \<and>
    gs_totalConnections (gw_stats gw) = length (sm_sessions (gw_sessions gw))"
proof -
  have "counters gw = tallies h"
    using assms
  proof induction
    case gw_trace_init
    show ?case by (simp add: counters_def tallies_def mkGatewayServer_def)
  next
    case (gw_trace_step h gw ev out gw')
    then show ?case by (simp add: counters_exec tallies_snoc)
  qed
  then show ?thesis by (simp add: counters_def tallies_def gw_stats_def sessionCount_def)
qed

theorem gateway_statistics_exact_witness:
  "gs_authSuccessCount (gw_stats demoGateway) = tally (is_auth_reply True) demoHistory \<and>
   gs_messagesRouted (gw_stats demoGateway) = tally is_forward demoHistory"
  using gateway_statistics_exact [OF demo_trace] by blast



text \<open>Closing a session forgets the rate limit of its address: right after any session of an
  address is closed, a message from another session of the same address passes the rate limit,
  however many messages that address has sent.\<close>

theorem gateway_disconnect_resets_limit:
  assumes "gw_running gw" "session_of gw sid = Some s" "session_of gw other = Some s'"
    and "other \<noteq> sid" "cl_remoteAddress s' = cl_remoteAddress s" "1 \<le> tb_capacity (gw_rateLimiter gw)"
    and "umap_wf (tb_buckets (gw_rateLimiter gw))" "clk 0 \<le> clk 1"
    and "gw_handleMessage validate other opcode payload clk (gw_handleDisconnect sid gw) = (r, gw')"
  shows "\<not> is_error GatewayRateLimited (OutAction r)"
proof -
  let ?gw = "gw_handleDisconnect sid gw"
  have rl: "gw_rateLimiter ?gw = tb_remove (cl_remoteAddress s) (gw_rateLimiter gw)"
    using assms(2) by (simp add: gw_handleDisconnect_def Let_def getSession_def)
  have live: "gw_running ?gw" "session_of ?gw other = Some s'"
    using assms(1-4) by (simp_all add: session_of_disconnect)
      (simp add: gw_handleDisconnect_def Let_def getSession_def)
  obtain ok tb where tb: "tb_consume1 (cl_remoteAddress s') (clk 0) (clk 1) (gw_rateLimiter ?gw) = (ok, tb)"
    by (meson surj_pair)
  have none: "map_of (tb_buckets (gw_rateLimiter ?gw)) (cl_remoteAddress s') = None"
    by (simp add: rl tb_remove_def delete_conv' assms(5))
  have "fst (tb_consume1 (cl_remoteAddress s') (clk 0) (clk 1) (gw_rateLimiter ?gw))"
    using consume_fresh [OF none _ assms(8)] assms(6) by (simp add: rl tb_remove_def)
  with tb have ok by simp
  with limiter_message [OF assms(9) live tb] show ?thesis by simp
qed

definition demoShared :: GatewayServer where
  "demoShared = mkGatewayServer demoConfig\<lparr>gw_running := True,
     gw_sessions := snd (createSession (SessionId 2) ''10.0.0.1'' 0
       (snd (createSession (SessionId 1) ''10.0.0.1'' 0 (mkSessionManager 10)))),
     gw_rateLimiter := mkTokenBucket 1 1\<lparr>tb_buckets := [(''10.0.0.1'', \<lparr>bk_tokens = 0, bk_lastRefill = 0\<rparr>)]\<rparr>\<rparr>"

theorem gateway_disconnect_resets_limit_witness:
  "\<not> is_error GatewayRateLimited (OutAction (fst (gw_handleMessage (\<lambda>_. Inr emptyClaims) (SessionId 2)
      0x150 [] (\<lambda>_. 0) (gw_handleDisconnect (SessionId 1) demoShared))))"
  by (rule gateway_disconnect_resets_limit [OF _ _ _ _ _ _ _ _ surjective_pairing,
        where sid = "SessionId 1" and gw = demoShared and s = "the (session_of demoShared (SessionId 1))"
          and s' = "the (session_of demoShared (SessionId 2))"])
     (simp_all add: demoShared_def createSession_def mkSessionManager_def mkTokenBucket_def
       mkGatewayServer_def umap_wf_def)

end
