(* ===== verification/Bytes.thy ===== *)
theory Bytes
  imports Prelude
begin

text \<open>
  The byte images of integers that the binary formats write with \<^verbatim>\<open>memcpy\<close> on a little-endian
  host: \<open>le_bytes n w\<close> is the first \<open>n\<close> bytes of \<open>w\<close>, \<open>le_word bs\<close> the integer read back.
\<close>

definition le_bytes :: "nat \<Rightarrow> 'a::len word \<Rightarrow> bytes" where
  "le_bytes n w = map (\<lambda>i. ucast (drop_bit (8 * i) w)) [0..<n]"

fun le_word :: "bytes \<Rightarrow> 'a::len word" where
  "le_word [] = 0"
| "le_word (b # bs) = ucast b OR push_bit 8 (le_word bs)"

lemma length_le_bytes [simp]: "length (le_bytes n w) = n"
  by (simp add: le_bytes_def)

lemma nth_le_bytes [simp]: "i < n \<Longrightarrow> le_bytes n w ! i = ucast (drop_bit (8 * i) w)"
  by (simp add: le_bytes_def)

lemma le_bytes_Suc: "le_bytes (Suc n) w = ucast w # le_bytes n (drop_bit 8 w)"
proof (rule nth_equalityI)
  fix i assume "i < length (le_bytes (Suc n) w)"
  then show "le_bytes (Suc n) w ! i = (ucast w # le_bytes n (drop_bit 8 w)) ! i"
    by (cases i) (simp_all add: add.commute)
qed simp

lemma drop_bit_zero_word: "LENGTH('a) \<le> n \<Longrightarrow> drop_bit n (w :: 'a::len word) = 0"
  by (rule bit_word_eqI) (simp add: bit_drop_bit_eq bit_imp_le_length)

lemma word_split_low: "(w :: 'a::len word) = ucast (ucast w :: byte) OR push_bit 8 (drop_bit 8 w)"
  by (rule bit_word_eqI)
     (auto simp: bit_simps not_less bit_imp_le_length, metis add_diff_inverse_nat)

lemma le_word_le_bytes_aux:
  "LENGTH('a) \<le> 8 * n \<Longrightarrow> le_word (le_bytes n (w :: 'a::len word)) = w"
proof -
  have "le_word (le_bytes n (drop_bit (8 * k) w)) = drop_bit (8 * k) w" if "LENGTH('a) \<le> 8 * (n + k)" for n k
    using that
  proof (induction n arbitrary: k)
    case 0
    then show ?case by (simp add: le_bytes_def drop_bit_zero_word)
  next
    case (Suc n)
    have "le_word (le_bytes n (drop_bit (8 * Suc k) w)) = drop_bit (8 * Suc k) w"
      using Suc.prems by (intro Suc.IH) simp
    then have "le_word (le_bytes n (drop_bit 8 (drop_bit (8 * k) w))) = drop_bit 8 (drop_bit (8 * k) w)"
      by (simp add: add.commute)
    then show ?case
      using word_split_low [of "drop_bit (8 * k) w"] by (simp add: le_bytes_Suc)
  qed
  from this [of n 0] show "LENGTH('a) \<le> 8 * n \<Longrightarrow> le_word (le_bytes n w) = w" by simp
qed

text \<open>Reading back what was written.\<close>

lemma le_roundtrip [simp]:
  "le_word (le_bytes 8 (w :: u64)) = w" "le_word (le_bytes 4 (v :: u32)) = v"
  by (rule le_word_le_bytes_aux; simp)+

text \<open>Consuming a fixed number of bytes from the front of a buffer.\<close>

lemma take_append_len: "length a = n \<Longrightarrow> take n (a @ b) = a"
  and drop_append_len: "length a = n \<Longrightarrow> drop n (a @ b) = b"
  by simp_all

text \<open>The bits of the integer are those of the bytes, so different byte strings of the same length
  (that fit) give different integers.\<close>

lemma bit_le_word:
  "bit (le_word bs :: 'a::len word) k \<longleftrightarrow>
     k < LENGTH('a) \<and> k < 8 * length bs \<and> bit (bs ! (k div 8)) (k mod 8)"
proof (induction bs arbitrary: k)
  case (Cons b bs)
  show ?case
  proof (cases "k < 8")
    case True
    then show ?thesis by (auto simp: bit_simps dest: bit_imp_le_length)
  next
    case False
    then obtain j where k: "k = j + 8" by (metis add.commute le_Suc_ex not_less)
    have "\<not> bit b k" using False bit_imp_le_length [of b k] by auto
    moreover have "(j + 8) div 8 = Suc (j div 8)" "(j + 8) mod 8 = j mod 8" by simp_all
    ultimately show ?thesis
      using Cons.IH [of j] by (auto simp: k bit_simps dest: bit_imp_le_length)
  qed
qed simp

lemma le_word_inj:
  assumes "le_word a = (le_word b :: 'a::len word)" "length a = length b" "8 * length a \<le> LENGTH('a)"
  shows "a = b"
proof (rule nth_equalityI [OF assms(2)])
  fix i assume i: "i < length a"
  show "a ! i = b ! i"
  proof (rule bit_word_eqI)
    fix m assume "m < LENGTH(8)"
    then have m: "m < 8" by simp
    then have "8 * i + m < 8 * length a" "(8 * i + m) div 8 = i" "(8 * i + m) mod 8 = m" using i by auto
    with assms bit_le_word [of a "8 * i + m", where 'a = 'a] bit_le_word [of b "8 * i + m", where 'a = 'a]
    show "bit (a ! i) m = bit (b ! i) m" by simp
  qed
qed

end
