(* ===== verification/Crc32.thy ===== *)
theory Crc32
  imports Bytes
begin

text \<open>
  The table-driven CRC-32 of the write-ahead log (\<^verbatim>\<open>crc32\<close> in
  \<^verbatim>\<open>services/runner/write_ahead_log.cpp\<close>), its equivalence with the bitwise definition of the
  code, and its detection of every corruption confined to one byte.
\<close>

definition kPolynomial :: u32 where "kPolynomial = 0xEDB88320"

text \<open>One step of the inner loop that fills the table.\<close>

definition crcStep :: "u32 \<Rightarrow> u32" where
  "crcStep crc = drop_bit 1 crc XOR (if crc AND 1 \<noteq> 0 then kPolynomial else 0)"

definition crcTable :: "u32 list" where
  "crcTable = map (\<lambda>i. (crcStep ^^ 8) (of_nat i)) [0..<256]"

definition crcUpdate :: "u32 \<Rightarrow> byte \<Rightarrow> u32" where
  "crcUpdate crc b = drop_bit 8 crc XOR crcTable ! unat ((crc XOR ucast b) AND 0xFF)"

definition crc32 :: "bytes \<Rightarrow> u32" where
  "crc32 data = foldl crcUpdate 0xFFFFFFFF data XOR 0xFFFFFFFF"

section \<open>The bitwise reference\<close>

text \<open>The reference processes a byte as eight steps of the shift register.\<close>

definition crcByte :: "u32 \<Rightarrow> byte \<Rightarrow> u32" where
  "crcByte crc b = (crcStep ^^ 8) (crc XOR ucast b)"

definition crc32_reference :: "bytes \<Rightarrow> u32" where
  "crc32_reference data = NOT (foldl crcByte (- 1) data)"

lemma and_1_bit: "(w :: u32) AND 1 \<noteq> 0 \<longleftrightarrow> bit w 0"
  by (simp add: and_one_eq bit_0 even_iff_mod_2_eq_zero odd_iff_mod_2_eq_one)

lemma crcStep_alt: "crcStep crc = drop_bit 1 crc XOR (if bit crc 0 then kPolynomial else 0)"
  by (simp only: crcStep_def and_1_bit)

lemma crcStep_xor: "crcStep (a XOR b) = crcStep a XOR crcStep b"
  by (rule bit_word_eqI) (auto simp: crcStep_alt bit_simps)

lemma crcSteps_xor: "(crcStep ^^ n) (a XOR b) = (crcStep ^^ n) a XOR (crcStep ^^ n) b"
  by (induction n) (simp_all add: crcStep_xor)

text \<open>Steps on a register whose low bits are clear only shift.\<close>

lemma crcSteps_shift:
  assumes "\<And>k. k < n \<Longrightarrow> \<not> bit w k"
  shows "(crcStep ^^ n) w = drop_bit n w"
  using assms
proof (induction n)
  case (Suc n)
  then have "(crcStep ^^ n) w = drop_bit n w" by simp
  moreover have "\<not> bit (drop_bit n w) 0" using Suc.prems [of n] by (simp add: bit_drop_bit_eq)
  then have "crcStep (drop_bit n w) = drop_bit (Suc n) w" by (simp add: crcStep_alt)
  ultimately show ?case by simp
qed simp

lemma split_low_byte: "(w :: u32) = (w AND 0xFF) XOR (w AND NOT 0xFF)"
  by (rule bit_word_eqI) (auto simp: bit_simps)

lemma bit_0xFF: "bit (0xFF :: u32) k \<longleftrightarrow> k < 8"
proof -
  have "(0xFF :: u32) = mask 8" by (simp add: mask_eq_exp_minus_1)
  then have "bit (0xFF :: u32) k \<longleftrightarrow> bit (mask 8 :: u32) k" by (rule arg_cong)
  also have "\<dots> \<longleftrightarrow> k < 8" by (auto simp: bit_mask_iff)
  finally show ?thesis .
qed

lemma xor_cancel: "(a :: u32) XOR c = b XOR c \<longleftrightarrow> a = b"
  by (metis xor.assoc xor.right_neutral xor_self_eq)

lemma crcSteps_byte: "(crcStep ^^ 8) w = drop_bit 8 w XOR (crcStep ^^ 8) (w AND 0xFF)"
proof -
  have "(crcStep ^^ 8) (w AND NOT 0xFF) = drop_bit 8 (w AND NOT 0xFF)"
    by (rule crcSteps_shift) (simp only: bit_and_iff bit_not_iff bit_0xFF, simp)
  also have "\<dots> = drop_bit 8 w"
    by (rule bit_word_eqI)
       (simp only: bit_drop_bit_eq comp_apply bit_and_iff bit_not_iff bit_0xFF, auto dest: bit_imp_le_length)
  finally show ?thesis
    by (subst split_low_byte) (simp add: crcSteps_xor xor.commute)
qed

lemma crcTable_nth: "n < 256 \<Longrightarrow> crcTable ! n = (crcStep ^^ 8) (of_nat n)"
  by (simp add: crcTable_def)

lemma crcUpdate_byte: "crcUpdate crc b = crcByte crc b"
proof -
  define low where "low = (crc XOR ucast b) AND 0xFF"
  have "unat low < 256"
  proof -
    have "low = take_bit 8 (crc XOR ucast b)"
      by (simp add: low_def take_bit_eq_mask mask_eq_exp_minus_1 del: take_bit_xor)
    then have "unat low = take_bit 8 (unat (crc XOR ucast b))"
      by (simp only: unsigned_take_bit_eq)
    then show ?thesis using take_bit_nat_less_exp [of 8 "unat (crc XOR ucast b)"] by simp
  qed
  then have "crcTable ! unat low = (crcStep ^^ 8) low"
    by (simp add: crcTable_nth)
  moreover have "drop_bit 8 (crc XOR ucast b) = drop_bit 8 crc"
    by (rule bit_word_eqI) (auto simp: bit_simps dest: bit_imp_le_length)
  ultimately show ?thesis
    using crcSteps_byte [of "crc XOR ucast b"] by (simp add: crcUpdate_def crcByte_def low_def)
qed

lemma crc32_eq_reference: "crc32 data = crc32_reference data"
proof -
  have "crcUpdate = crcByte" by (simp add: fun_eq_iff crcUpdate_byte)
  moreover have "(0xFFFFFFFF :: u32) = - 1" by (rule word_eq_unat_iff [THEN iffD2]) (simp add: unsigned_minus_1_eq_mask mask_eq_exp_minus_1)
  moreover have "w XOR (- 1) = NOT w" for w :: u32 by (rule bit_word_eqI) (auto simp: bit_xor_iff bit_not_iff)
  ultimately show ?thesis
    by (simp only: crc32_def crc32_reference_def)
qed

section \<open>Corruption of one byte\<close>

text \<open>A step loses nothing: the top bit of the polynomial records the bit that was shifted out.\<close>

lemma bit_31_kPolynomial: "bit kPolynomial 31"
  by (simp add: kPolynomial_def bit_numeral_rec)

lemma crcStep_inj: "crcStep a = crcStep b \<Longrightarrow> a = b"
proof -
  assume eq: "crcStep a = crcStep b"
  have top: "bit (crcStep w) 31 \<longleftrightarrow> bit w 0" for w
    using bit_31_kPolynomial by (auto simp: crcStep_alt bit_simps dest: bit_imp_le_length)
  have low: "bit a 0 \<longleftrightarrow> bit b 0" using top eq by metis
  then have "drop_bit 1 a = drop_bit 1 b"
    using eq xor_cancel by (cases "bit b 0") (auto simp: crcStep_alt)
  then have "bit a (Suc k) \<longleftrightarrow> bit b (Suc k)" for k
    by (metis bit_drop_bit_eq comp_apply plus_1_eq_Suc)
  with low have "bit a k \<longleftrightarrow> bit b k" for k by (cases k) auto
  then show "a = b" by (rule bit_word_eqI)
qed

lemma crcSteps_inj: "(crcStep ^^ n) a = (crcStep ^^ n) b \<Longrightarrow> a = b"
  by (induction n) (auto dest: crcStep_inj)

lemma crcByte_inj_crc: "crcByte a x = crcByte b x \<Longrightarrow> a = b"
  using xor_cancel by (auto simp: crcByte_def dest!: crcSteps_inj)

lemma crcByte_inj_byte: "crcByte a x = crcByte a y \<Longrightarrow> x = y"
proof -
  assume "crcByte a x = crcByte a y"
  then have "a XOR ucast x = a XOR (ucast y :: u32)" by (auto simp: crcByte_def dest!: crcSteps_inj)
  then have "(ucast x :: u32) = ucast y" using xor_cancel by (metis xor.commute)
  then have "ucast (ucast x :: u32) = (ucast (ucast y :: u32) :: byte)" by simp
  moreover have "ucast (ucast z :: u32) = z" for z :: byte
    by (rule bit_word_eqI) (simp add: bit_simps)
  ultimately show "x = y" by simp
qed

lemma foldl_crcByte_inj: "foldl crcByte a xs = foldl crcByte b xs \<Longrightarrow> a = b"
  by (induction xs arbitrary: a b) (auto dest: crcByte_inj_crc)

lemma crc32_detects_byte:
  assumes "i < length data" "b \<noteq> data ! i"
  shows "crc32 (data[i := b]) \<noteq> crc32 data"
proof
  assume "crc32 (data[i := b]) = crc32 data"
  then have eq: "foldl crcByte (- 1) (data[i := b]) = foldl crcByte (- 1) data"
    by (simp add: crc32_eq_reference crc32_reference_def)
  have split: "data = take i data @ data ! i # drop (Suc i) data"
    using assms(1) by (rule id_take_nth_drop)
  have split': "data[i := b] = take i data @ b # drop (Suc i) data"
    using assms(1) by (rule upd_conv_take_nth_drop)
  define a where "a = foldl crcByte (- 1) (take i data)"
  have "foldl crcByte (crcByte a b) (drop (Suc i) data) = foldl crcByte (crcByte a (data ! i)) (drop (Suc i) data)"
    using eq unfolding split' by (subst (asm) (2) split) (simp add: a_def)
  then have "crcByte a b = crcByte a (data ! i)" by (rule foldl_crcByte_inj)
  then have "b = data ! i" by (rule crcByte_inj_byte)
  with assms(2) show False by simp
qed

end
