(* ===== verification/Write_Ahead_Log.thy ===== *)
theory Write_Ahead_Log
  imports Foundation Crc32
begin

text \<open>
  The write-ahead log (\<^verbatim>\<open>service/write_ahead_log.hpp\<close>, \<^verbatim>\<open>services/runner/write_ahead_log.cpp\<close>):
  the binary frame of an entry, reading a log file back, appending, replaying and truncating.
  The log file is the list of its bytes, and the output stream holds the bytes it has accepted
  and not yet passed on. What the file system does is an argument of the operations: whether a
  stream opens, and how many of the bytes handed to it reach the file. A log file counts as
  written once the stream has passed its bytes to the operating system, as the code does (it
  flushes the stream and never calls \<^verbatim>\<open>fsync\<close>).
\<close>

section \<open>Entries and their binary form\<close>

type_synonym WalOperation = u8

abbreviation (input) PlayerJoin :: WalOperation where "PlayerJoin \<equiv> 1"
abbreviation (input) PlayerLeave :: WalOperation where "PlayerLeave \<equiv> 2"
abbreviation (input) StateUpdate :: WalOperation where "StateUpdate \<equiv> 3"
abbreviation (input) InventoryChange :: WalOperation where "InventoryChange \<equiv> 4"
abbreviation (input) QuestUpdate :: WalOperation where "QuestUpdate \<equiv> 5"

record WalEntry =
  we_sequence :: u64
  we_timestampUs :: u64
  we_playerId :: PlayerId
  we_operation :: WalOperation
  we_data :: bytes

definition serializeEntry :: "WalEntry \<Rightarrow> bytes" where
  "serializeEntry entry =
     le_bytes 8 (we_sequence entry) @ le_bytes 8 (we_timestampUs entry)
       @ le_bytes 8 (playerId_value (we_playerId entry)) @ [we_operation entry]
       @ le_bytes 4 (of_nat (length (we_data entry)) :: u32) @ we_data entry"

definition deserializeEntry :: "bytes \<Rightarrow> WalEntry option" where
  "deserializeEntry data =
    (if length data < 29 then None
     else let dataSize = unat (le_word (take 4 (drop 25 data)) :: u32)
          in if 29 + dataSize > length data then None
             else Some \<lparr>we_sequence = le_word (take 8 data),
                        we_timestampUs = le_word (take 8 (drop 8 data)),
                        we_playerId = PlayerId (le_word (take 8 (drop 16 data))),
                        we_operation = data ! 24,
                        we_data = take dataSize (drop 29 data)\<rparr>)"

text \<open>The frame of an entry: total size, body, checksum of the body.\<close>

definition walFrame :: "WalEntry \<Rightarrow> bytes" where
  "walFrame entry =
    (let body = serializeEntry entry
     in le_bytes 4 (of_nat (length body + 4) :: u32) @ body @ le_bytes 4 (crc32 body))"

text \<open>The read loop of \<^verbatim>\<open>rebuildIndex\<close>: it stops at the end, at a truncated frame, at a wrong
  checksum or at a body that does not parse.\<close>

function readEntries :: "bytes \<Rightarrow> WalEntry list" where
  "readEntries bs =
    (if length bs < 4 then []
     else let totalSize = unat (le_word (take 4 bs) :: u32);
              rest = drop 4 bs
          in if totalSize < 4 then []
             else if length rest < totalSize then []
             else let buf = take totalSize rest;
                      body = take (totalSize - 4) buf;
                      storedCrc = le_word (drop (totalSize - 4) buf)
                  in if storedCrc \<noteq> crc32 body then []
                     else case deserializeEntry body of
                            None \<Rightarrow> []
                          | Some entry \<Rightarrow> entry # readEntries (drop totalSize rest))"
  by pat_completeness auto

termination
  by (relation "measure length") auto

declare readEntries.simps [simp del]

section \<open>The log\<close>

record WriteAheadLog =
  wal_syncOnWrite :: bool
  wal_file :: "bytes option"
  wal_pending :: bytes
  wal_writerGood :: bool
  wal_open :: bool
  wal_nextSequence :: u64
  wal_currentFileSize :: nat
  wal_totalEntries :: nat
  wal_entries :: "(u64 \<times> WalEntry) list"

definition mkWriteAheadLog :: "bool \<Rightarrow> bytes option \<Rightarrow> WriteAheadLog" where
  "mkWriteAheadLog syncOnWrite file = \<lparr>wal_syncOnWrite = syncOnWrite,
     wal_file = file, wal_pending = [], wal_writerGood = True, wal_open = False,
     wal_nextSequence = 1, wal_currentFileSize = 0, wal_totalEntries = 0, wal_entries = []\<rparr>"

definition wal_rebuildIndex :: "bool \<Rightarrow> WriteAheadLog \<Rightarrow> unit GameResult \<times> WriteAheadLog" where
  "wal_rebuildIndex readable wal =
    (case wal_file wal of
       None \<Rightarrow> (Inr (), wal)
     | Some bs \<Rightarrow>
         if \<not> readable then (err WalReadFailed ''cannot open WAL file for reading'', wal)
         else let es = readEntries bs
              in (Inr (), wal\<lparr>
                   wal_entries := map (\<lambda>e. (we_sequence e, e)) es,
                   wal_totalEntries := length es,
                   wal_nextSequence := foldl (\<lambda>m e. max m (we_sequence e)) 0 es + 1,
                   wal_currentFileSize := length bs\<rparr>))"

text \<open>\<open>dirError\<close> is the message of a failed directory creation, if it fails.\<close>

definition wal_openLog ::
  "string option \<Rightarrow> bool \<Rightarrow> bool \<Rightarrow> WriteAheadLog \<Rightarrow> unit GameResult \<times> WriteAheadLog" where
  "wal_openLog dirError readable writable wal =
    (if wal_open wal then (Inr (), wal)
     else case dirError of
       Some msg \<Rightarrow> (err PersistenceError (''failed to create WAL directory: '' @ msg), wal)
     | None \<Rightarrow>
         (case wal_rebuildIndex readable wal of
            (Inl e, wal1) \<Rightarrow> (Inl e, wal1)
          | (Inr _, wal1) \<Rightarrow>
              if \<not> writable then (err WalWriteFailed ''cannot open WAL file for writing'',
                                  wal1\<lparr>wal_writerGood := False\<rparr>)
              else (Inr (), wal1\<lparr>wal_open := True, wal_writerGood := True,
                      wal_file := Some (case wal_file wal1 of None \<Rightarrow> [] | Some bs \<Rightarrow> bs)\<rparr>)))"

definition wal_bytes :: "WriteAheadLog \<Rightarrow> bytes" where
  "wal_bytes wal = (case wal_file wal of None \<Rightarrow> [] | Some bs \<Rightarrow> bs)"

text \<open>Passing \<open>written\<close> of the bytes the stream holds on to the file.\<close>

definition wal_spill :: "nat \<Rightarrow> WriteAheadLog \<Rightarrow> WriteAheadLog" where
  "wal_spill written wal = wal\<lparr>wal_file := Some (wal_bytes wal @ take written (wal_pending wal)),
     wal_pending := drop written (wal_pending wal)\<rparr>"

text \<open>Closing the stream flushes it; what does not reach the file is lost.\<close>

definition wal_close :: "nat \<Rightarrow> WriteAheadLog \<Rightarrow> WriteAheadLog" where
  "wal_close written wal =
    (if \<not> wal_open wal then wal
     else (wal_spill written wal)\<lparr>wal_pending := [], wal_open := False\<rparr>)"

text \<open>\<open>good\<close>: the stream is still good after the three writes; \<open>written\<close>: how many of the bytes it
  holds reach the file by the end of the call. A flush that does not get all of them out fails
  the stream, which the code does not look at again. A stream that has failed accepts nothing
  until it is opened again.\<close>

definition wal_append ::
  "WalEntry \<Rightarrow> u64 \<Rightarrow> bool \<Rightarrow> nat \<Rightarrow> WriteAheadLog \<Rightarrow> u64 GameResult \<times> WriteAheadLog" where
  "wal_append entry nowMicros good written wal =
    (if \<not> wal_open wal then (err PersistenceNotStarted ''WAL is not open'', wal)
     else let entry' = entry\<lparr>we_sequence := wal_nextSequence wal, we_timestampUs := nowMicros\<rparr>;
              frame = walFrame entry';
              wal1 = wal\<lparr>wal_nextSequence := wal_nextSequence wal + 1\<rparr>
          in if \<not> wal_writerGood wal then (err WalWriteFailed ''failed to write WAL entry'', wal1)
             else let wal2 = wal_spill written (wal1\<lparr>wal_pending := wal_pending wal @ frame\<rparr>)
             in if \<not> good then (err WalWriteFailed ''failed to write WAL entry'',
                                wal2\<lparr>wal_writerGood := False\<rparr>)
             else (Inr (we_sequence entry'),
                   wal2\<lparr>wal_writerGood := (wal_syncOnWrite wal \<longrightarrow> wal_pending wal2 = []),
                        wal_currentFileSize := wal_currentFileSize wal + length frame,
                        wal_entries := wal_entries wal @ [(we_sequence entry', entry')],
                        wal_totalEntries := wal_totalEntries wal + 1\<rparr>))"

text \<open>The entries handed to the callback, in order, and their number.\<close>

definition wal_replay :: "u64 \<Rightarrow> WriteAheadLog \<Rightarrow> u64 GameResult \<times> WalEntry list" where
  "wal_replay afterSequence wal =
    (let es = map snd (filter (\<lambda>(seq, e). seq > afterSequence) (wal_entries wal))
     in (Inr (of_nat (length es)), es))"

text \<open>\<open>closed\<close>: how many of the bytes the stream holds reach the file when it is closed;
  \<open>rewritable\<close>, \<open>reopened\<close>: whether the file opens for rewriting and again for appending;
  \<open>rewritten\<close>: how many bytes of the new contents reach the file. The code does not look at the
  state of the rewriting stream.\<close>

definition wal_truncateBefore ::
  "u64 \<Rightarrow> nat \<Rightarrow> bool \<Rightarrow> nat \<Rightarrow> bool \<Rightarrow> WriteAheadLog \<Rightarrow> unit GameResult \<times> WriteAheadLog" where
  "wal_truncateBefore beforeSequence closed rewritable rewritten reopened wal =
    (if \<not> wal_open wal then (err PersistenceNotStarted ''WAL is not open'', wal)
     else let kept = filter (\<lambda>(seq, e). \<not> seq \<le> beforeSequence) (wal_entries wal);
              removed = length (wal_entries wal) - length kept;
              wal1 = (wal_spill closed wal)\<lparr>wal_pending := [], wal_entries := kept,
                        wal_totalEntries := wal_totalEntries wal - removed\<rparr>
          in if \<not> rewritable
             then (err WalTruncateFailed ''failed to rewrite WAL after truncation'',
                   wal1\<lparr>wal_writerGood := reopened\<rparr>)
             else let contents = concat (map (\<lambda>(seq, e). walFrame e) kept);
                      wal2 = wal1\<lparr>wal_file := Some (take rewritten contents),
                                  wal_currentFileSize := length contents,
                                  wal_writerGood := reopened\<rparr>
                  in if \<not> reopened
                     then (err WalWriteFailed ''failed to re-open WAL after truncation'', wal2)
                     else (Inr (), wal2))"

definition wal_flush :: "nat \<Rightarrow> WriteAheadLog \<Rightarrow> unit GameResult \<times> WriteAheadLog" where
  "wal_flush written wal =
    (if \<not> wal_open wal then (err PersistenceNotStarted ''WAL is not open'', wal)
     else if \<not> wal_writerGood wal then (err WalWriteFailed ''WAL flush failed'', wal)
     else let wal1 = wal_spill written wal
          in if wal_pending wal1 \<noteq> []
             then (err WalWriteFailed ''WAL flush failed'', wal1\<lparr>wal_writerGood := False\<rparr>)
             else (Inr (), wal1))"

definition wal_currentSequence :: "WriteAheadLog \<Rightarrow> u64" where
  "wal_currentSequence wal = (if wal_nextSequence wal > 0 then wal_nextSequence wal - 1 else 0)"

definition wal_entryCount :: "WriteAheadLog \<Rightarrow> nat" where
  "wal_entryCount wal = wal_totalEntries wal"

definition wal_isOpen :: "WriteAheadLog \<Rightarrow> bool" where
  "wal_isOpen wal = wal_open wal"

section \<open>Reading back frames\<close>

text \<open>Entries whose size fits the 32-bit size field.\<close>

definition we_small :: "WalEntry \<Rightarrow> bool" where
  "we_small e \<longleftrightarrow> length (we_data e) < 4294967263"

lemma length_serializeEntry [simp]: "length (serializeEntry e) = 29 + length (we_data e)"
  by (simp add: serializeEntry_def)

lemma deserialize_serialize:
  assumes "we_small e"
  shows "deserializeEntry (serializeEntry e) = Some e"
proof -
  have n: "unat (of_nat (length (we_data e)) :: u32) = length (we_data e)"
    using assms by (simp add: we_small_def unat_of_nat_lt)
  have "serializeEntry e ! 24 = we_operation e"
    by (simp add: serializeEntry_def nth_append)
  moreover have "take 4 (drop 25 (serializeEntry e)) = le_bytes 4 (of_nat (length (we_data e)) :: u32)"
    "drop 29 (serializeEntry e) = we_data e" "take 8 (serializeEntry e) = le_bytes 8 (we_sequence e)"
    "take 8 (drop 8 (serializeEntry e)) = le_bytes 8 (we_timestampUs e)"
    "take 8 (drop 16 (serializeEntry e)) = le_bytes 8 (playerId_value (we_playerId e))"
    by (simp_all add: serializeEntry_def)
  ultimately show ?thesis
    using n by (simp add: deserializeEntry_def Let_def)
qed

lemma length_walFrame [simp]: "length (walFrame e) = 37 + length (we_data e)"
  by (simp add: walFrame_def Let_def)

lemma unat_frame_size:
  "we_small e \<Longrightarrow> unat (of_nat (length (serializeEntry e) + 4) :: u32) = 33 + length (we_data e)"
  by (subst unat_of_nat_lt) (simp_all add: we_small_def)

text \<open>A buffer that starts with a size field: the loop's view of it.\<close>

lemma readEntries_sized:
  assumes n: "unat n = length body + 4" and c: "length c = 4"
  shows "readEntries (le_bytes 4 (n :: u32) @ body @ c @ rest) =
    (if le_word c \<noteq> crc32 body then []
     else case deserializeEntry body of None \<Rightarrow> [] | Some e \<Rightarrow> e # readEntries rest)"
proof -
  let ?bs = "le_bytes 4 n @ body @ c @ rest"
  have w: "le_word (take 4 ?bs) = n" by simp
  have d: "drop 4 ?bs = body @ c @ rest" by simp
  have t: "take (length body + 4) (body @ c @ rest) = body @ c" using c by simp
  have r: "drop (length body + 4) (body @ c @ rest) = rest" using c by simp
  show ?thesis
    using c by (subst readEntries.simps, simp only: Let_def w d n t r) simp
qed

lemma readEntries_frame:
  assumes "we_small e"
  shows "readEntries (walFrame e @ rest) = e # readEntries rest"
proof -
  let ?b = "serializeEntry e"
  have "readEntries (le_bytes 4 (of_nat (length ?b + 4) :: u32) @ ?b @ le_bytes 4 (crc32 ?b) @ rest)
      = e # readEntries rest"
    using readEntries_sized [of "of_nat (length ?b + 4)" ?b "le_bytes 4 (crc32 ?b)" rest]
      unat_frame_size [OF assms] deserialize_serialize [OF assms]
    by simp
  then show ?thesis by (simp add: walFrame_def Let_def)
qed

lemma readEntries_frames:
  "list_all we_small es \<Longrightarrow> readEntries (concat (map walFrame es) @ rest) = es @ readEntries rest"
  by (induction es) (simp_all add: readEntries_frame)

lemma readEntries_Nil [simp]: "readEntries [] = []"
  by (subst readEntries.simps) simp

text \<open>A frame cut short is not read.\<close>

lemma readEntries_torn:
  assumes "we_small e" "k < length (walFrame e)"
  shows "readEntries (take k (walFrame e)) = []"
proof (cases "k < 4")
  case True
  then show ?thesis by (subst readEntries.simps) simp
next
  case False
  let ?n = "of_nat (length (serializeEntry e) + 4) :: u32"
  have n: "unat ?n = 33 + length (we_data e)" by (rule unat_frame_size [OF assms(1)])
  have "take 4 (take k (walFrame e)) = le_bytes 4 ?n"
    using False by (simp add: walFrame_def Let_def min_def take_append)
  moreover have "length (drop 4 (take k (walFrame e))) < unat ?n"
    using assms(2) n by simp
  ultimately show ?thesis
    using False by (subst readEntries.simps) (simp add: Let_def)
qed

section \<open>The abstract log\<close>

text \<open>Operations whose input and output succeed, with \<^verbatim>\<open>syncOnWrite\<close> set as it is by default. A
  restart closes the log and opens it again on the same file in a new object.\<close>

datatype wal_op =
    WAppend WalEntry u64
  | WTruncate u64
  | WRestart

definition wal_restart :: "bytes \<Rightarrow> WriteAheadLog" where
  "wal_restart file = snd (wal_openLog None True True (mkWriteAheadLog True (Some file)))"

fun wal_exec :: "wal_op \<Rightarrow> WriteAheadLog \<Rightarrow> WriteAheadLog" where
  "wal_exec (WAppend e now) wal =
     snd (wal_append e now True (37 + length (we_data e)) wal)"
| "wal_exec (WTruncate b) wal = snd (wal_truncateBefore b (length (wal_pending wal)) True
     (length (concat (map (walFrame \<circ> snd) (wal_entries wal)))) True wal)"
| "wal_exec WRestart wal = wal_restart (wal_bytes (wal_close (length (wal_pending wal)) wal))"

text \<open>The specification: the next sequence number and the entries in order. A restart keeps the
  entries; on an empty log it starts numbering from 1 again.\<close>

type_synonym alog = "u64 \<times> WalEntry list"

fun alog_exec :: "wal_op \<Rightarrow> alog \<Rightarrow> alog" where
  "alog_exec (WAppend e now) (n, es) = (n + 1, es @ [e\<lparr>we_sequence := n, we_timestampUs := now\<rparr>])"
| "alog_exec (WTruncate b) (n, es) = (n, filter (\<lambda>e. we_sequence e > b) es)"
| "alog_exec WRestart (n, es) = (if es = [] then 1 else n, es)"

definition wal_abs :: "WriteAheadLog \<Rightarrow> alog" where
  "wal_abs wal = (wal_nextSequence wal, map snd (wal_entries wal))"

fun op_small :: "wal_op \<Rightarrow> bool" where
  "op_small (WAppend e now) = we_small e"
| "op_small _ = True"

section \<open>Invariant\<close>

text \<open>The entries are numbered in increasing order, the last one just below the next number.\<close>

definition seq_ok :: "nat \<Rightarrow> alog \<Rightarrow> bool" where
  "seq_ok k a \<longleftrightarrow> (case a of (n, es) \<Rightarrow>
     0 < unat n \<and> unat n \<le> k \<and> sorted_wrt (<) (map we_sequence es) \<and>
     (es \<noteq> [] \<longrightarrow> we_sequence (last es) + 1 = n))"

definition wal_inv :: "WriteAheadLog \<Rightarrow> bool" where
  "wal_inv wal \<longleftrightarrow> wal_open wal \<and> wal_syncOnWrite wal \<and> wal_writerGood wal \<and> wal_pending wal = [] \<and>
     wal_file wal = Some (concat (map walFrame (map snd (wal_entries wal)))) \<and>
     list_all (\<lambda>(s, e). s = we_sequence e \<and> we_small e) (wal_entries wal) \<and>
     wal_totalEntries wal = length (wal_entries wal) \<and>
     wal_currentFileSize wal = length (wal_bytes wal)"

lemma sorted_filter_last:
  assumes "sorted_wrt (<) (map we_sequence es)" "filter (\<lambda>e. we_sequence e > b) es \<noteq> []"
  shows "last (filter (\<lambda>e. we_sequence e > b) es) = last es"
proof (cases es rule: rev_cases)
  case (snoc xs x)
  obtain y where y: "y \<in> set es" "we_sequence y > b" using assms(2) by (auto simp: filter_empty_conv)
  have "we_sequence x > b"
  proof (cases "y = x")
    case False
    with y snoc have "y \<in> set xs" by simp
    then have "we_sequence y < we_sequence x" using assms(1) snoc by (auto simp: sorted_wrt_append)
    with y show ?thesis by simp
  qed (use y in simp)
  with snoc show ?thesis by simp
qed (use assms in simp)

lemma seq_ok_below:
  assumes "seq_ok k (n, es)" and y: "y \<in> set es"
  shows "we_sequence y < n"
proof -
  have n: "0 < unat n" "sorted_wrt (<) (map we_sequence es)" "es \<noteq> [] \<Longrightarrow> we_sequence (last es) + 1 = n"
    using assms(1) by (auto simp: seq_ok_def)
  obtain xs x where es: "es = xs @ [x]" using y by (cases es rule: rev_cases) auto
  have "we_sequence x = n - 1" using n(3) es by auto
  moreover have "n \<noteq> 0" using n(1) by auto
  ultimately have x: "we_sequence x < n" using n(1) by (simp add: word_less_nat_alt unat_minus_one)
  show ?thesis
  proof (cases "y = x")
    case False
    with y es have "we_sequence y < we_sequence x" using n(2) by (auto simp: sorted_wrt_append)
    with x show ?thesis by simp
  qed (use x in simp)
qed

lemma seq_ok_exec:
  assumes "seq_ok k a" "k < 18446744073709551615"
  shows "seq_ok (Suc k) (alog_exec op a)"
proof -
  obtain n es where a: "a = (n, es)" by (cases a)
  have n: "0 < unat n" "unat n \<le> k" "sorted_wrt (<) (map we_sequence es)"
    "es \<noteq> [] \<Longrightarrow> we_sequence (last es) + 1 = n"
    using assms(1) by (auto simp: seq_ok_def a)
  show ?thesis
  proof (cases op)
    case (WAppend e now)
    have n1: "unat (n + 1) = unat n + 1"
      using n(2) assms(2) by (intro unat_plus_1) simp
    have "we_sequence y < n" if "y \<in> set es" for y
      using seq_ok_below assms(1) that unfolding a by blast
    then show ?thesis using n n1 by (auto simp: seq_ok_def a WAppend sorted_wrt_append)
  next
    case (WTruncate b)
    have "sorted_wrt (<) (map we_sequence (filter (\<lambda>e. we_sequence e > b) es))"
      using n(3) by (simp add: sorted_wrt_map sorted_wrt_filter)
    moreover have "we_sequence (last (filter (\<lambda>e. we_sequence e > b) es)) + 1 = n"
      if "filter (\<lambda>e. we_sequence e > b) es \<noteq> []"
    proof -
      from that have "es \<noteq> []" by auto
      with sorted_filter_last [OF n(3) that] n(4) show ?thesis by simp
    qed
    ultimately show ?thesis using n(1,2) by (auto simp: seq_ok_def a WTruncate)
  next
    case WRestart
    with n show ?thesis by (auto simp: seq_ok_def a)
  qed
qed

lemma foldl_max_sorted:
  assumes "sorted_wrt (<) (map we_sequence es)" "es \<noteq> []"
  shows "foldl (\<lambda>m e. max m (we_sequence e)) 0 es = we_sequence (last es)"
  using assms
proof (induction es rule: rev_induct)
  case (snoc e es)
  show ?case
  proof (cases "es = []")
    case False
    with snoc have "foldl (\<lambda>m e. max m (we_sequence e)) 0 es = we_sequence (last es)"
      by (simp add: sorted_wrt_append)
    moreover have "we_sequence (last es) < we_sequence e"
      using snoc.prems(1) False by (auto simp: sorted_wrt_append)
    ultimately show ?thesis by (simp add: max_absorb2 order.strict_implies_order)
  qed simp
qed simp

text \<open>Opening a file that holds whole frames followed by a part of one.\<close>

lemma restart_frames:
  assumes "list_all we_small es" "readEntries rest = []"
  shows "map snd (wal_entries (wal_restart (concat (map walFrame es) @ rest))) = es"
    "wal_nextSequence (wal_restart (concat (map walFrame es) @ rest))
       = foldl (\<lambda>m e. max m (we_sequence e)) 0 es + 1"
    "wal_open (wal_restart (concat (map walFrame es) @ rest))"
    "rest = [] \<Longrightarrow> wal_inv (wal_restart (concat (map walFrame es) @ rest))"
  using readEntries_frames [OF assms(1), of rest] assms
  by (auto simp: wal_restart_def wal_openLog_def mkWriteAheadLog_def wal_rebuildIndex_def Let_def
      comp_def wal_inv_def wal_bytes_def list_all_iff)

lemma wal_inv_append:
  assumes "wal_inv wal" "we_small e"
  shows "wal_inv (wal_exec (WAppend e now) wal)"
    "wal_abs (wal_exec (WAppend e now) wal) = alog_exec (WAppend e now) (wal_abs wal)"
    "fst (wal_append e now True (37 + length (we_data e)) wal) = Inr (wal_nextSequence wal)"
  using assms
  by (auto simp: wal_inv_def wal_append_def wal_spill_def Let_def wal_abs_def wal_bytes_def we_small_def)

lemma filter_not_le: "filter (\<lambda>(seq, e). \<not> seq \<le> (b :: u64)) = filter (\<lambda>p. b < fst p)"
  by (auto simp: fun_eq_iff not_le split: prod.splits intro: filter_cong)

lemma wal_inv_truncate:
  assumes inv: "wal_inv wal"
  shows "wal_inv (wal_exec (WTruncate b) wal)"
    "wal_abs (wal_exec (WTruncate b) wal) = alog_exec (WTruncate b) (wal_abs wal)"
proof -
  define kept where "kept = filter (\<lambda>p. b < fst p) (wal_entries wal)"
  have seq: "\<forall>p\<in>set (wal_entries wal). fst p = we_sequence (snd p) \<and> we_small (snd p)"
    using inv by (auto simp: wal_inv_def list_all_iff)
  have snds: "map snd kept = filter (\<lambda>e. b < we_sequence e) (map snd (wal_entries wal))"
  proof -
    have "map snd (filter (\<lambda>p. b < fst p) ps) = filter (\<lambda>e. b < we_sequence e) (map snd ps)"
      if "\<forall>p\<in>set ps. fst p = we_sequence (snd p) \<and> we_small (snd p)" for ps
      using that by (induction ps) auto
    from this [OF seq] show ?thesis by (simp add: kept_def)
  qed
  define all where "all = concat (map (walFrame \<circ> snd) (wal_entries wal))"
  have len: "length (concat (map (walFrame \<circ> snd) kept)) \<le> length all"
  proof -
    have "length (concat (map (walFrame \<circ> snd) (filter (\<lambda>p. b < fst p) ps)))
        \<le> length (concat (map (walFrame \<circ> snd) ps))" for ps
      by (induction ps) auto
    then show ?thesis by (simp add: all_def kept_def del: length_concat)
  qed
  have frames: "map (\<lambda>(seq, e). walFrame e) kept = map (walFrame \<circ> snd) kept" by auto
  have ex: "wal_exec (WTruncate b) wal = wal\<lparr>wal_entries := kept,
      wal_totalEntries := wal_totalEntries wal - (length (wal_entries wal) - length kept),
      wal_file := Some (concat (map (walFrame \<circ> snd) kept)), wal_pending := [],
      wal_currentFileSize := length (concat (map (walFrame \<circ> snd) kept)), wal_writerGood := True\<rparr>"
    using inv len by (simp add: wal_truncateBefore_def wal_spill_def Let_def filter_not_le frames wal_inv_def
        flip: kept_def all_def)
  have le: "length kept \<le> length (wal_entries wal)" by (simp add: kept_def)
  show "wal_inv (wal_exec (WTruncate b) wal)"
    unfolding ex using inv le seq
    by (auto simp: wal_inv_def wal_bytes_def list_all_iff kept_def comp_def)
  show "wal_abs (wal_exec (WTruncate b) wal) = alog_exec (WTruncate b) (wal_abs wal)"
    unfolding ex by (simp add: wal_abs_def snds)
qed

lemma wal_inv_restart:
  assumes inv: "wal_inv wal" and ok: "seq_ok k (wal_abs wal)"
  shows "wal_inv (wal_exec WRestart wal)" "wal_abs (wal_exec WRestart wal) = alog_exec WRestart (wal_abs wal)"
proof -
  define es where "es = map snd (wal_entries wal)"
  have small: "list_all we_small es" using inv by (auto simp: wal_inv_def es_def list_all_iff)
  have contents: "wal_bytes (wal_close (length (wal_pending wal)) wal) = concat (map walFrame es) @ []"
    using inv by (simp add: wal_inv_def wal_bytes_def wal_close_def wal_spill_def es_def)
  note R = restart_frames [OF small readEntries_Nil, folded contents]
  show "wal_inv (wal_exec WRestart wal)" using R(4) by simp
  have "foldl (\<lambda>m e. max m (we_sequence e)) 0 es + 1 = (if es = [] then 1 else wal_nextSequence wal)"
    using ok foldl_max_sorted [of es] by (auto simp: seq_ok_def wal_abs_def es_def)
  with R(1,2) show "wal_abs (wal_exec WRestart wal) = alog_exec WRestart (wal_abs wal)"
    by (simp add: wal_abs_def es_def)
qed

lemma wal_refines:
  assumes "wal_inv wal" "seq_ok k (wal_abs wal)" "list_all op_small ops"
    "k + length ops \<le> 18446744073709551615"
  shows "wal_inv (fold wal_exec ops wal) \<and> wal_abs (fold wal_exec ops wal) = fold alog_exec ops (wal_abs wal)
    \<and> seq_ok (k + length ops) (wal_abs (fold wal_exec ops wal))"
  using assms
proof (induction ops arbitrary: wal k)
  case (Cons op ops)
  have step: "wal_inv (wal_exec op wal)" "wal_abs (wal_exec op wal) = alog_exec op (wal_abs wal)"
    using Cons.prems wal_inv_append wal_inv_truncate wal_inv_restart by (cases op; simp del: wal_exec.simps alog_exec.simps)+
  have "seq_ok (Suc k) (wal_abs (wal_exec op wal))"
    using seq_ok_exec [OF Cons.prems(2), of op] step(2) Cons.prems(4) by simp
  from Cons.IH [OF step(1) this] Cons.prems step(2) show ?case by auto
qed simp

lemma wal_restart_empty: "wal_inv (wal_restart [])" "wal_abs (wal_restart []) = (1, [])"
  using restart_frames [of "[]" "[]"] by (simp_all add: wal_abs_def)

section \<open>Damage\<close>

text \<open>A size field that promises more than the file holds ends the reading.\<close>

lemma readEntries_short:
  assumes "length rest < unat (n :: u32)"
  shows "readEntries (le_bytes 4 n @ rest) = []"
  using assms by (subst readEntries.simps) (simp add: Let_def)

text \<open>Changing one byte of the body or of the checksum of a frame.\<close>

lemma readEntries_damaged:
  assumes small: "we_small e" and i: "4 \<le> i" "i < length (walFrame e)" and b: "b \<noteq> walFrame e ! i"
  shows "readEntries ((walFrame e)[i := b] @ rest) = []"
proof -
  let ?body = "serializeEntry e" and ?n = "of_nat (length (serializeEntry e) + 4) :: u32"
  let ?c = "le_bytes 4 (crc32 ?body)"
  have n: "unat ?n = length ?body + 4" using unat_frame_size [OF small] by simp
  have fr: "walFrame e = le_bytes 4 ?n @ ?body @ ?c" by (simp add: walFrame_def Let_def)
  show ?thesis
  proof (cases "i < 4 + length ?body")
    case True
    then have upd: "(walFrame e)[i := b] = le_bytes 4 ?n @ ?body[i - 4 := b] @ ?c"
      using i by (auto simp: fr list_update_append)
    have "i - 4 < length ?body" using i True by simp
    then have "b \<noteq> ?body ! (i - 4)" using b i True by (simp add: fr nth_append)
    then have "crc32 (?body[i - 4 := b]) \<noteq> crc32 ?body"
      using i True by (intro crc32_detects_byte) auto
    then show ?thesis
      using readEntries_sized [of ?n "?body[i - 4 := b]" ?c rest] n
      by (simp only: upd append.assoc length_list_update length_le_bytes le_roundtrip) auto
  next
    case False
    define j where "j = i - 4 - length ?body"
    have j: "j < 4" using i False by (simp add: j_def)
    have upd: "(walFrame e)[i := b] = le_bytes 4 ?n @ ?body @ ?c[j := b]"
      using i False by (auto simp: fr list_update_append j_def)
    have "\<not> i - 4 < length ?body" using i False by simp
    then have "b \<noteq> ?c ! j" using b i False j by (simp add: fr nth_append j_def)
    then have "?c[j := b] \<noteq> ?c" using j by (metis length_le_bytes nth_list_update_eq)
    then have "le_word (?c[j := b]) \<noteq> crc32 ?body"
      using le_word_inj [of "?c[j := b]" ?c, where 'a = 32] by auto
    then show ?thesis
      using readEntries_sized [of ?n ?body "?c[j := b]" rest] n
      by (simp only: upd append.assoc length_list_update length_le_bytes) auto
  qed
qed

section \<open>Properties\<close>


definition demoEntry :: "u8 list \<Rightarrow> WalEntry" where
  "demoEntry d = \<lparr>we_sequence = 0, we_timestampUs = 0, we_playerId = PlayerId 42,
     we_operation = StateUpdate, we_data = d\<rparr>"


text \<open>Corruption is detected. If any single byte of the body or of the checksum of a stored entry
  is changed, reading the file yields exactly the entries before it: no corrupted entry is
  ever replayed.\<close>

theorem wal_corruption_detected:
  assumes "list_all we_small (pre @ [e])" "4 \<le> i" "i < length (walFrame e)" "b \<noteq> walFrame e ! i"
  shows "readEntries (concat (map walFrame pre) @ (walFrame e)[i := b] @ rest) = pre"
  using assms readEntries_damaged [of e i b rest] by (simp add: readEntries_frames)

theorem wal_corruption_detected_witness:
  "readEntries (concat (map walFrame [demoEntry [1]]) @ (walFrame (demoEntry [7, 8]))[34 := 0] @ [1, 2, 3])
    = [demoEntry [1]]"
  by (rule wal_corruption_detected)
     (simp_all add: we_small_def demoEntry_def walFrame_def Let_def serializeEntry_def nth_append)

text \<open>The checksum routine with its table computes the CRC-32 defined bit by bit.\<close>

theorem crc32_table_correct: "crc32 data = crc32_reference data"
  by (rule crc32_eq_reference)

text \<open>A torn write is not repaired. After a crash in the middle of an append, opening the log
  keeps the partial frame in the file and appends behind it: an entry appended and acknowledged
  after the restart is lost at the next restart if it fits in what is missing of the torn frame.\<close>

theorem wal_append_after_torn_write_lost:
  assumes "list_all we_small es" "we_small e" "we_small f" "4 \<le> torn_at"
    and "torn_at + length (walFrame f) < length (walFrame e)"
  shows "\<exists>seq. fst (wal_append f now True (length (walFrame f))
        (wal_restart (concat (map walFrame es) @ take torn_at (walFrame e)))) = Inr seq \<and>
     map snd (wal_entries (wal_restart (wal_bytes (snd (wal_append f now True (length (walFrame f))
        (wal_restart (concat (map walFrame es) @ take torn_at (walFrame e)))))))) = es"
proof -
  define torn where "torn = concat (map walFrame es) @ take torn_at (walFrame e)"
  have torn_at: "torn_at < length (walFrame e)" using assms(5) by simp
  define f' where "f' = f\<lparr>we_sequence := wal_nextSequence (wal_restart torn), we_timestampUs := now\<rparr>"
  have st: "wal_open (wal_restart torn)" "wal_writerGood (wal_restart torn)" "wal_bytes (wal_restart torn) = torn"
    "wal_pending (wal_restart torn) = []" "wal_syncOnWrite (wal_restart torn)"
    using restart_frames(3) [OF assms(1) readEntries_torn [OF assms(2) torn_at]]
    by (simp_all add: torn_def)
       (simp_all add: wal_restart_def wal_openLog_def mkWriteAheadLog_def wal_rebuildIndex_def Let_def wal_bytes_def)
  have ap: "fst (wal_append f now True (length (walFrame f)) (wal_restart torn)) = Inr (we_sequence f')"
    "wal_bytes (snd (wal_append f now True (length (walFrame f)) (wal_restart torn))) = torn @ walFrame f'"
    using st by (simp_all add: wal_append_def wal_spill_def Let_def f'_def wal_bytes_def)
  let ?n = "of_nat (length (serializeEntry e) + 4) :: u32"
  define rest where "rest = take (torn_at - 4) (serializeEntry e @ le_bytes 4 (crc32 (serializeEntry e))) @ walFrame f'"
  have "take torn_at (walFrame e) @ walFrame f' = le_bytes 4 ?n @ rest"
    using assms(4) by (simp add: walFrame_def [of e] Let_def take_append rest_def)
  moreover have "length rest < unat ?n"
    using assms(4,5) unat_frame_size [OF assms(2)] by (simp add: rest_def f'_def)
  ultimately have "readEntries (take torn_at (walFrame e) @ walFrame f') = []"
    by (simp only: readEntries_short)
  from restart_frames(1) [OF assms(1) this] ap show ?thesis by (simp add: torn_def)
qed

theorem wal_append_after_torn_write_lost_witness:
  "\<exists>seq. fst (wal_append (demoEntry [1]) 7 True 38
        (wal_restart (concat (map walFrame []) @ take 10 (walFrame (demoEntry (replicate 20 0)))))) = Inr seq \<and>
     map snd (wal_entries (wal_restart (wal_bytes (snd (wal_append (demoEntry [1]) 7 True 38
        (wal_restart (concat (map walFrame []) @ take 10 (walFrame (demoEntry (replicate 20 0)))))))))) = []"
  using wal_append_after_torn_write_lost [of "[]" "demoEntry (replicate 20 0)" "demoEntry [1]" 10 7]
  by (simp add: we_small_def demoEntry_def)

end
