(* ===== verification/Snapshot_Manager.thy ===== *)
theory Snapshot_Manager
  imports Foundation Bytes Cpp_Strings "HOL-Library.List_Lexorder" "HOL-Library.Char_ord" "HOL-Library.Sublist"
    "HOL-Library.Multiset"
begin

text \<open>
  The snapshot store (\<^verbatim>\<open>service/snapshot_manager.hpp\<close>,
  \<^verbatim>\<open>services/runner/snapshot_manager.cpp\<close>): the binary form of a snapshot, the files of the
  snapshot directory, saving with pruning, and loading the latest. The directory is the map from
  the names of its regular files to their bytes. What the file system does (whether a file opens,
  how many bytes reach it, whether a file can be removed) is an argument of the operations.
\<close>

section \<open>The binary form\<close>

record PlayerSnapshot =
  ps_playerId :: PlayerId
  ps_instanceId :: u32
  ps_data :: bytes

record Snapshot =
  sn_walSequence :: u64
  sn_timestampUs :: u64
  sn_players :: "PlayerSnapshot list"

definition serializePlayer :: "PlayerSnapshot \<Rightarrow> bytes" where
  "serializePlayer p = le_bytes 8 (playerId_value (ps_playerId p)) @ le_bytes 4 (ps_instanceId p)
     @ le_bytes 4 (of_nat (length (ps_data p)) :: u32) @ ps_data p"

definition serializeSnapshot :: "Snapshot \<Rightarrow> bytes" where
  "serializeSnapshot snap = le_bytes 8 (sn_walSequence snap) @ le_bytes 8 (sn_timestampUs snap)
     @ le_bytes 4 (of_nat (length (sn_players snap)) :: u32) @ concat (map serializePlayer (sn_players snap))"

text \<open>The loop over the players: \<open>i\<close> is the index, \<open>n\<close> the number of players still to read.\<close>

fun readPlayers :: "nat \<Rightarrow> nat \<Rightarrow> bytes \<Rightarrow> PlayerSnapshot list GameResult" where
  "readPlayers i 0 ptr = Inr []"
| "readPlayers i (Suc n) ptr =
    (if 16 > length ptr
     then err SnapshotCorrupted (''snapshot truncated at player '' @ to_string i)
     else let dataSize = unat (le_word (take 4 (drop 12 ptr)) :: u32);
              rest = drop 16 ptr
          in if dataSize > length rest then err SnapshotCorrupted ''player data truncated''
             else case readPlayers (Suc i) n (drop dataSize rest) of
                    Inl e \<Rightarrow> Inl e
                  | Inr ps \<Rightarrow> Inr (\<lparr>ps_playerId = PlayerId (le_word (take 8 ptr)),
                                   ps_instanceId = le_word (take 4 (drop 8 ptr)),
                                   ps_data = take dataSize rest\<rparr> # ps))"

definition deserializeSnapshot :: "bytes \<Rightarrow> Snapshot GameResult" where
  "deserializeSnapshot buf =
    (if length buf < 20 then err SnapshotCorrupted ''snapshot too small for header''
     else let count = unat (le_word (take 4 (drop 16 buf)) :: u32)
          in case readPlayers 0 count (drop 20 buf) of
               Inl e \<Rightarrow> Inl e
             | Inr ps \<Rightarrow> Inr \<lparr>sn_walSequence = le_word (take 8 buf),
                              sn_timestampUs = le_word (take 8 (drop 8 buf)), sn_players = ps\<rparr>)"

section \<open>The store\<close>

type_synonym directory = "(string, bytes) umap"

record SnapshotManager =
  sm_maxRetained :: u32
  sm_open :: bool
  sm_dir :: "directory option"

definition mkSnapshotManager :: "u32 \<Rightarrow> directory option \<Rightarrow> SnapshotManager" where
  "mkSnapshotManager maxRetained dir = \<lparr>sm_maxRetained = maxRetained, sm_open = False, sm_dir = dir\<rparr>"

definition snapshotPath :: "u64 \<Rightarrow> string" where
  "snapshotPath timestampUs = ''snapshot_'' @ to_string (unat timestampUs) @ ''.bin''"

text \<open>\<^verbatim>\<open>std::filesystem::path::extension\<close> of a file name: from the last dot on, and empty if there
  is no dot or only a leading one.\<close>

definition pathExtension :: "string \<Rightarrow> string" where
  "pathExtension name =
    (case dropWhile (\<lambda>c. c \<noteq> CHR ''.'') (rev name) of
       [] \<Rightarrow> ''''
     | [_] \<Rightarrow> ''''
     | _ \<Rightarrow> CHR ''.'' # rev (takeWhile (\<lambda>c. c \<noteq> CHR ''.'') (rev name)))"

definition isSnapshotFile :: "string \<Rightarrow> bool" where
  "isSnapshotFile name \<longleftrightarrow> prefix ''snapshot_'' name \<and> pathExtension name = ''.bin''"

definition listSnapshots :: "SnapshotManager \<Rightarrow> string list" where
  "listSnapshots sm =
    (case sm_dir sm of None \<Rightarrow> [] | Some dir \<Rightarrow> sort (filter isSnapshotFile (map fst dir)))"

fun pruneLoop :: "(string \<Rightarrow> bool) \<Rightarrow> nat \<Rightarrow> string list \<Rightarrow> directory \<Rightarrow> directory" where
  "pruneLoop removable maxRetained [] dir = dir"
| "pruneLoop removable maxRetained (f # files) dir =
    (if length (f # files) > maxRetained
     then pruneLoop removable maxRetained files (if removable f then AList.delete f dir else dir)
     else dir)"

definition pruneOldSnapshots :: "(string \<Rightarrow> bool) \<Rightarrow> SnapshotManager \<Rightarrow> SnapshotManager" where
  "pruneOldSnapshots removable sm =
     sm\<lparr>sm_dir := map_option (pruneLoop removable (unat (sm_maxRetained sm)) (listSnapshots sm)) (sm_dir sm)\<rparr>"

definition sm_openStore :: "string option \<Rightarrow> SnapshotManager \<Rightarrow> unit GameResult \<times> SnapshotManager" where
  "sm_openStore dirError sm =
    (if sm_open sm then (Inr (), sm)
     else case dirError of
       Some msg \<Rightarrow> (err PersistenceError (''failed to create snapshot directory: '' @ msg), sm)
     | None \<Rightarrow> (Inr (), sm\<lparr>sm_open := True,
                  sm_dir := Some (case sm_dir sm of None \<Rightarrow> [] | Some dir \<Rightarrow> dir)\<rparr>))"

definition sm_close :: "SnapshotManager \<Rightarrow> SnapshotManager" where
  "sm_close sm = sm\<lparr>sm_open := False\<rparr>"

text \<open>Opening the file for writing empties it; \<open>written\<close> is how many bytes reach it. A failed write
  leaves what was written in place.\<close>

definition sm_save ::
  "Snapshot \<Rightarrow> u64 \<Rightarrow> bool \<Rightarrow> nat \<Rightarrow> (string \<Rightarrow> bool) \<Rightarrow> SnapshotManager \<Rightarrow> unit GameResult \<times> SnapshotManager" where
  "sm_save snapshot nowMicros writable written removable sm =
    (if \<not> sm_open sm then (err PersistenceNotStarted ''snapshot manager is not open'', sm)
     else let timestampUs = (if sn_timestampUs snapshot > 0 then sn_timestampUs snapshot else nowMicros);
              path = snapshotPath timestampUs;
              data = serializeSnapshot snapshot
          in if \<not> writable then (err SnapshotWriteFailed ''cannot open snapshot file for writing'', sm)
             else let sm1 = sm\<lparr>sm_dir := map_option (AList.update path (take written data)) (sm_dir sm)\<rparr>
                  in if written < length data
                     then (err SnapshotWriteFailed ''failed to write snapshot data'', sm1)
                     else (Inr (), pruneOldSnapshots removable sm1))"

text \<open>\<open>readable\<close>: the file opens; \<open>got\<close>: how many of its bytes are read.\<close>

definition sm_loadLatest :: "bool \<Rightarrow> (nat \<Rightarrow> nat) \<Rightarrow> SnapshotManager \<Rightarrow> Snapshot GameResult" where
  "sm_loadLatest readable got sm =
    (let files = listSnapshots sm
     in if files = [] then err SnapshotReadFailed ''no snapshots found''
        else if \<not> readable then err SnapshotReadFailed ''cannot open snapshot file''
        else case map_of (case sm_dir sm of None \<Rightarrow> [] | Some dir \<Rightarrow> dir) (last files) of
               None \<Rightarrow> err SnapshotReadFailed ''cannot open snapshot file''
             | Some data \<Rightarrow>
                 if got (length data) < length data
                 then err SnapshotCorrupted ''snapshot file read incomplete''
                 else deserializeSnapshot data)"

definition sm_snapshotCount :: "SnapshotManager \<Rightarrow> nat" where
  "sm_snapshotCount sm = length (listSnapshots sm)"

definition sm_isOpen :: "SnapshotManager \<Rightarrow> bool" where
  "sm_isOpen sm = sm_open sm"

section \<open>Reading back a snapshot\<close>

text \<open>Snapshots whose sizes fit the 32-bit size fields.\<close>

definition sn_small :: "Snapshot \<Rightarrow> bool" where
  "sn_small s \<longleftrightarrow> length (sn_players s) < 4294967296 \<and>
     list_all (\<lambda>p. length (ps_data p) < 4294967296) (sn_players s)"

lemma length_serializePlayer [simp]: "length (serializePlayer p) = 16 + length (ps_data p)"
  by (simp add: serializePlayer_def)

lemma readPlayers_step:
  assumes "length (ps_data p) < 4294967296"
  shows "readPlayers i (Suc n) (serializePlayer p @ rest) =
    (case readPlayers (Suc i) n rest of Inl e \<Rightarrow> Inl e | Inr ps \<Rightarrow> Inr (p # ps))"
proof -
  have n: "unat (of_nat (length (ps_data p)) :: u32) = length (ps_data p)"
    using assms by (simp add: unat_of_nat_lt)
  have "take 4 (drop 12 (serializePlayer p @ rest)) = le_bytes 4 (of_nat (length (ps_data p)) :: u32)"
    "drop 16 (serializePlayer p @ rest) = ps_data p @ rest"
    "take 8 (serializePlayer p @ rest) = le_bytes 8 (playerId_value (ps_playerId p))"
    "take 4 (drop 8 (serializePlayer p @ rest)) = le_bytes 4 (ps_instanceId p)"
    by (simp_all add: serializePlayer_def)
  then show ?thesis using n by (simp add: Let_def split: sum.splits)
qed

lemma readPlayers_serialize:
  "list_all (\<lambda>p. length (ps_data p) < 4294967296) ps \<Longrightarrow>
     readPlayers i (length ps) (concat (map serializePlayer ps) @ rest) = Inr ps"
  by (induction ps arbitrary: i) (simp_all add: readPlayers_step del: readPlayers.simps(2))

lemma readPlayers_short:
  assumes "list_all (\<lambda>p. length (ps_data p) < 4294967296) ps"
    "k < length (concat (map serializePlayer ps))"
  shows "\<exists>msg. readPlayers i (length ps) (take k (concat (map serializePlayer ps))) = err SnapshotCorrupted msg"
  using assms
proof (induction ps arbitrary: i k)
  case (Cons p ps)
  let ?rest = "concat (map serializePlayer ps)"
  show ?case
  proof (cases "k < 16 + length (ps_data p)")
    case True
    have n: "unat (of_nat (length (ps_data p)) :: u32) = length (ps_data p)"
      using Cons.prems by (simp add: unat_of_nat_lt)
    show ?thesis
    proof (cases "k < 16")
      case False
      have "take 4 (drop 12 (take k (serializePlayer p @ ?rest))) = le_bytes 4 (of_nat (length (ps_data p)) :: u32)"
        using False by (simp add: serializePlayer_def take_append drop_take min_def)
      moreover have "length (drop 16 (take k (serializePlayer p @ ?rest))) < length (ps_data p)"
        using True False by simp
      ultimately show ?thesis using n False True by (simp add: Let_def)
    qed (use True in simp)
  next
    case False
    then have "take k (serializePlayer p @ ?rest) = serializePlayer p @ take (k - (16 + length (ps_data p))) ?rest"
      by (simp add: take_append)
    moreover have "k - (16 + length (ps_data p)) < length ?rest"
      using Cons.prems(2) False by (simp del: length_concat)
    then obtain msg where
      "readPlayers (Suc i) (length ps) (take (k - (16 + length (ps_data p))) ?rest) = err SnapshotCorrupted msg"
      using Cons.IH [of "k - (16 + length (ps_data p))" "Suc i"] Cons.prems(1) by auto
    ultimately show ?thesis
      using readPlayers_step [of p i "length ps"] Cons.prems by (simp del: readPlayers.simps)
  qed
qed simp

lemma header_parts:
  "take 4 (drop 16 (serializeSnapshot s)) = le_bytes 4 (of_nat (length (sn_players s)) :: u32)"
  "drop 20 (serializeSnapshot s) = concat (map serializePlayer (sn_players s))"
  "take 8 (serializeSnapshot s) = le_bytes 8 (sn_walSequence s)"
  "take 8 (drop 8 (serializeSnapshot s)) = le_bytes 8 (sn_timestampUs s)"
  "\<not> length (serializeSnapshot s) < 20"
  by (simp_all add: serializeSnapshot_def)

lemma deserialize_serializeSnapshot:
  assumes "sn_small s"
  shows "deserializeSnapshot (serializeSnapshot s) = Inr s"
  using assms readPlayers_serialize [of "sn_players s" 0 "[]"]
  by (simp add: deserializeSnapshot_def header_parts Let_def sn_small_def unat_of_nat_lt)

lemma deserialize_truncated:
  assumes "sn_small s" "k < length (serializeSnapshot s)"
  shows "\<exists>msg. deserializeSnapshot (take k (serializeSnapshot s)) = err SnapshotCorrupted msg"
proof (cases "k < 20")
  case True
  then show ?thesis by (simp add: deserializeSnapshot_def)
next
  case False
  have "take 4 (drop 16 (take k (serializeSnapshot s))) = take 4 (drop 16 (serializeSnapshot s))"
    using False by (simp add: drop_take min_def)
  moreover have "drop 20 (take k (serializeSnapshot s)) = take (k - 20) (concat (map serializePlayer (sn_players s)))"
    by (simp add: drop_take header_parts)
  moreover have "k - 20 < length (concat (map serializePlayer (sn_players s)))"
    using assms(2) False header_parts(2) [of s] by (metis diff_less_mono length_drop not_le_imp_less)
  ultimately show ?thesis
    using readPlayers_short [of "sn_players s" "k - 20" 0] assms False header_parts(5) [of s]
    by (auto simp: deserializeSnapshot_def header_parts Let_def sn_small_def unat_of_nat_lt)
qed

section \<open>The order of the file names\<close>

text \<open>For numbers with equally many digits the order of the file names is that of the timestamps.\<close>

lemma append_less_same_length:
  "length xs = length ys \<Longrightarrow> xs < ys \<Longrightarrow> xs @ u < ys @ (v :: string)"
  by (induction xs ys rule: list_induct2) auto

lemma append_less_same_prefix: "u < v \<Longrightarrow> xs @ u < xs @ (v :: string)"
  by (induction xs) auto

lemma digitChar_less: "d < e \<Longrightarrow> e < 10 \<Longrightarrow> digitChar d < digitChar e"
  by (simp add: digitChar_def less_char_def)

lemma to_string_less:
  assumes "a < b" "length (to_string a) = length (to_string b)"
  shows "to_string a < to_string b"
  using assms
proof (induction a arbitrary: b rule: to_string.induct)
  case (1 a)
  show ?case
  proof (cases "b < 10")
    case True
    then show ?thesis using 1 digitChar_less [of a b] by (simp add: to_string.simps [of a] to_string.simps [of b])
  next
    case b: False
    have "to_string (b div 10) \<noteq> []" by (subst to_string.simps) simp
    then have a: "\<not> a < 10"
      using 1(3) b by (auto simp: to_string.simps [of a] to_string.simps [of b])
    have s: "to_string a = to_string (a div 10) @ [digitChar (a mod 10)]"
      "to_string b = to_string (b div 10) @ [digitChar (b mod 10)]"
      using a b by (simp_all add: to_string.simps [of a] to_string.simps [of b])
    have len: "length (to_string (a div 10)) = length (to_string (b div 10))" using 1(3) s by simp
    show ?thesis
    proof (cases "a div 10 = b div 10")
      case True
      then have "a mod 10 < b mod 10" using 1(2) by (metis div_mult_mod_eq nat_add_left_cancel_less)
      then have "[digitChar (a mod 10)] < [digitChar (b mod 10)]" using digitChar_less by simp
      then show ?thesis unfolding s True by (rule append_less_same_prefix)
    next
      case False
      then have "a div 10 < b div 10" using 1(2) by (simp add: div_le_mono le_neq_implies_less)
      then show ?thesis unfolding s using 1(1) [OF a _ len] len by (intro append_less_same_length) auto
    qed
  qed
qed

definition tsDigits :: "u64 \<Rightarrow> nat" where
  "tsDigits t = length (to_string (unat t))"

lemma snapshotPath_less:
  assumes "t < t'" "tsDigits t = tsDigits t'"
  shows "snapshotPath t < snapshotPath t'"
  using to_string_less [of "unat t" "unat t'"] assms
  unfolding snapshotPath_def tsDigits_def
  by (intro append_less_same_prefix append_less_same_length) (auto simp: word_less_nat_alt)

lemma isSnapshotFile_path [simp]: "isSnapshotFile (snapshotPath t)"
proof -
  have "dropWhile (\<lambda>c. c \<noteq> CHR ''.'') (rev (xs @ ''.bin'')) = CHR ''.'' # rev xs" for xs by simp
  then show ?thesis
    by (cases "to_string (unat t)" rule: rev_cases)
       (simp_all add: isSnapshotFile_def snapshotPath_def pathExtension_def)
qed

section \<open>Saving and pruning\<close>

lemma update_fresh: "k \<notin> fst ` set d \<Longrightarrow> AList.update k v d = d @ [(k, v)]"
  by (induction d) auto

lemma sort_snoc_max: "\<forall>x\<in>set xs. x \<le> k \<Longrightarrow> sort (xs @ [k]) = sort xs @ [k]"
  by (rule properties_for_sort) (auto simp: sorted_append)

lemma pruneLoop_delete:
  "pruneLoop (\<lambda>_. True) n files dir = filter (\<lambda>p. fst p \<notin> set (take (length files - n) files)) dir"
proof (induction files arbitrary: dir)
  case (Cons f files)
  show ?case
  proof (cases "length (f # files) > n")
    case True
    then have "length (f # files) - n = Suc (length files - n)" by simp
    with True Cons.IH show ?thesis by (auto simp: AList.delete_eq intro!: filter_cong)
  qed simp
qed simp

lemma filter_drop_distinct:
  "distinct xs \<Longrightarrow> filter (\<lambda>x. x \<notin> set (take k xs)) xs = drop k xs"
proof (induction xs arbitrary: k)
  case (Cons x xs)
  show ?case
  proof (cases k)
    case (Suc j)
    have "filter (\<lambda>y. y \<noteq> x \<and> y \<notin> set (take j xs)) xs = filter (\<lambda>y. y \<notin> set (take j xs)) xs"
      using Cons.prems by (intro filter_cong) auto
    with Cons Suc show ?thesis by simp
  qed simp
qed simp

text \<open>The store holds exactly the snapshots \<open>ss\<close>, oldest first; other files are left alone.\<close>

definition sm_holds :: "SnapshotManager \<Rightarrow> Snapshot list \<Rightarrow> bool" where
  "sm_holds sm ss \<longleftrightarrow> sm_open sm \<and> (\<exists>d. sm_dir sm = Some d \<and> umap_wf d \<and>
     listSnapshots sm = map (snapshotPath \<circ> sn_timestampUs) ss \<and>
     (\<forall>s\<in>set ss. map_of d (snapshotPath (sn_timestampUs s)) = Some (serializeSnapshot s)))"

text \<open>A save all of whose input and output succeeds.\<close>

definition sm_saveOk :: "Snapshot \<Rightarrow> SnapshotManager \<Rightarrow> SnapshotManager" where
  "sm_saveOk s sm = snd (sm_save s 0 True (length (serializeSnapshot s)) (\<lambda>_. True) sm)"

text \<open>A file with a later timestamp is new, and becomes the last one listed.\<close>

lemma later_file_last:
  assumes files: "sort (filter isSnapshotFile (map fst d)) = map (\<lambda>s. snapshotPath (sn_timestampUs s)) ss"
    and later: "\<forall>r\<in>set ss. sn_timestampUs r < ts \<and> tsDigits (sn_timestampUs r) = tsDigits ts"
  shows "snapshotPath ts \<notin> fst ` set d"
    "sort (filter isSnapshotFile (map fst (d @ [(snapshotPath ts, data)])))
       = map (\<lambda>s. snapshotPath (sn_timestampUs s)) ss @ [snapshotPath ts]"
proof -
  let ?path = "\<lambda>s. snapshotPath (sn_timestampUs s)"
  have less: "\<forall>r\<in>set ss. ?path r < snapshotPath ts" using later snapshotPath_less by blast
  have names: "set (filter isSnapshotFile (map fst d)) = ?path ` set ss"
    using arg_cong [OF files, of set] by simp
  show "snapshotPath ts \<notin> fst ` set d"
  proof
    assume "snapshotPath ts \<in> fst ` set d"
    then have "snapshotPath ts \<in> set (filter isSnapshotFile (map fst d))" by simp
    then show False unfolding names using less by auto
  qed
  have "\<forall>x\<in>set (filter isSnapshotFile (map fst d)). x \<le> snapshotPath ts"
    unfolding names using less by (auto intro: less_imp_le)
  from sort_snoc_max [OF this]
  show "sort (filter isSnapshotFile (map fst (d @ [(snapshotPath ts, data)])))
      = map ?path ss @ [snapshotPath ts]"
    by (simp add: files)
qed

lemma sm_holds_save:
  assumes h: "sm_holds sm ss" and t: "0 < sn_timestampUs s"
    and later: "\<forall>r\<in>set ss. sn_timestampUs r < sn_timestampUs s \<and> tsDigits (sn_timestampUs r) = tsDigits (sn_timestampUs s)"
  shows "sm_holds (sm_saveOk s sm) (drop (length ss + 1 - unat (sm_maxRetained sm)) (ss @ [s]))"
    "sm_maxRetained (sm_saveOk s sm) = sm_maxRetained sm"
proof -
  let ?path = "\<lambda>s. snapshotPath (sn_timestampUs s)"
  obtain d where d: "sm_open sm" "sm_dir sm = Some d" "umap_wf d"
    "listSnapshots sm = map ?path ss" "\<forall>s\<in>set ss. map_of d (?path s) = Some (serializeSnapshot s)"
    using h by (auto simp: sm_holds_def comp_def)
  have files: "sort (filter isSnapshotFile (map fst d)) = map ?path ss" using d(2,4) by (simp add: listSnapshots_def)
  note fresh = later_file_last(1) [OF files later]
  define d1 where "d1 = d @ [(?path s, serializeSnapshot s)]"
  have wf1: "umap_wf d1" using d(3) fresh by (auto simp: d1_def umap_wf_def)
  have files1: "sort (filter isSnapshotFile (map fst d1)) = map ?path (ss @ [s])"
    unfolding d1_def using later_file_last(2) [OF files later] by simp
  have dist: "distinct (map ?path (ss @ [s]))"
    using wf1 distinct_sort [of "\<lambda>x. x" "filter isSnapshotFile (map fst d1)"] files1
    by (simp add: umap_wf_def)
  define k where "k = length ss + 1 - unat (sm_maxRetained sm)"
  define gone where "gone = set (take k (map ?path (ss @ [s])))"
  have sv: "sm_saveOk s sm = sm\<lparr>sm_dir := Some (filter (\<lambda>p. fst p \<notin> gone) d1)\<rparr>"
  proof -
    have "listSnapshots (sm\<lparr>sm_dir := Some d1\<rparr>) = map ?path (ss @ [s])"
      by (simp add: listSnapshots_def files1 del: filter_map)
    then show ?thesis
      using d(1,2) t
      by (simp add: sm_saveOk_def sm_save_def Let_def pruneOldSnapshots_def update_fresh [OF fresh]
          pruneLoop_delete gone_def k_def flip: d1_def)
  qed
  have "listSnapshots (sm_saveOk s sm) = sort (filter isSnapshotFile (map fst (filter (\<lambda>p. fst p \<notin> gone) d1)))"
    by (simp add: sv listSnapshots_def)
  also have "filter isSnapshotFile (map fst (filter (\<lambda>p. fst p \<notin> gone) d1))
      = filter (\<lambda>n. n \<notin> gone) (filter isSnapshotFile (map fst d1))"
    by (simp add: filter_map comp_def conj_commute)
  also have "sort \<dots> = filter (\<lambda>n. n \<notin> gone) (map ?path (ss @ [s]))"
    by (subst filter_sort [symmetric]) (simp only: files1)
  finally have ls: "listSnapshots (sm_saveOk s sm) = drop k (map ?path (ss @ [s]))"
    unfolding gone_def filter_drop_distinct [OF dist] .
  have "map_of (filter (\<lambda>p. fst p \<notin> gone) d1) (?path r) = Some (serializeSnapshot r)"
    if r: "r \<in> set (drop k (ss @ [s]))" for r
  proof -
    have "?path r \<in> set (drop k (map ?path (ss @ [s])))" using r by (simp only: drop_map set_map) (rule imageI)
    then have "?path r \<notin> gone"
      unfolding gone_def filter_drop_distinct [OF dist, of k, symmetric] by (simp only: set_filter mem_Collect_eq) blast
    moreover have "(?path r, serializeSnapshot r) \<in> set d1"
      using in_set_dropD [OF r] d(3,5) by (auto simp: d1_def umap_mem_iff)
    ultimately show ?thesis using wf1 
      by (simp add: map_of_filter_fst [where P = "\<lambda>n. n \<notin> gone"] umap_mem_iff)
  qed
  then show "sm_holds (sm_saveOk s sm) (drop (length ss + 1 - unat (sm_maxRetained sm)) (ss @ [s]))"
    unfolding sm_holds_def k_def [symmetric] comp_def drop_map [symmetric]
    using d(1) wf1 ls by (simp add: sv del: drop_append map_append set_append)
  show "sm_maxRetained (sm_saveOk s sm) = sm_maxRetained sm" by (simp add: sv)
qed

lemma sm_holds_latest:
  assumes "sm_holds sm (ss @ [s])" "sn_small s"
  shows "sm_loadLatest True (\<lambda>n. n) sm = Inr s"
proof -
  obtain d where d: "sm_dir sm = Some d" "listSnapshots sm = map (snapshotPath \<circ> sn_timestampUs) (ss @ [s])"
    "map_of d (snapshotPath (sn_timestampUs s)) = Some (serializeSnapshot s)"
    using assms(1) by (auto simp: sm_holds_def)
  then show ?thesis
    by (simp add: sm_loadLatest_def Let_def deserialize_serializeSnapshot [OF assms(2)])
qed

text \<open>A save cut short leaves a file that is listed last and does not load, whatever older snapshots
  the store still holds.\<close>

lemma torn_save_not_loaded:
  assumes h: "sm_holds sm ss" and s: "sn_small s" "0 < sn_timestampUs s" "written < length (serializeSnapshot s)"
    and later: "\<forall>r\<in>set ss. sn_timestampUs r < sn_timestampUs s \<and> tsDigits (sn_timestampUs r) = tsDigits (sn_timestampUs s)"
  shows "\<exists>msg. sm_loadLatest True (\<lambda>n. n) (snd (sm_save s now True written removable sm)) = err SnapshotCorrupted msg"
    "sm_open (snd (sm_save s now True written removable sm))"
    "\<exists>dir. sm_dir (snd (sm_save s now True written removable sm)) = Some dir"
proof -
  obtain d where d: "sm_open sm" "sm_dir sm = Some d"
    and files: "sort (filter isSnapshotFile (map fst d)) = map (\<lambda>s. snapshotPath (sn_timestampUs s)) ss"
    using h by (auto simp: sm_holds_def listSnapshots_def comp_def)
  note L = later_file_last [OF files later]
  define d1 where "d1 = d @ [(snapshotPath (sn_timestampUs s), take written (serializeSnapshot s))]"
  have sv: "snd (sm_save s now True written removable sm) = sm\<lparr>sm_dir := Some d1\<rparr>"
    using d s(2,3) by (simp add: sm_save_def Let_def update_fresh [OF L(1)] d1_def)
  have "listSnapshots (sm\<lparr>sm_dir := Some d1\<rparr>) = map (\<lambda>s. snapshotPath (sn_timestampUs s)) ss @ [snapshotPath (sn_timestampUs s)]"
    unfolding listSnapshots_def d1_def using L(2) by simp
  moreover have "map_of d1 (snapshotPath (sn_timestampUs s)) = Some (take written (serializeSnapshot s))"
    using L(1) [folded map_of_eq_None_iff] by (simp add: d1_def map_add_def)
  ultimately show "\<exists>msg. sm_loadLatest True (\<lambda>n. n) (snd (sm_save s now True written removable sm)) = err SnapshotCorrupted msg"
    using deserialize_truncated [OF s(1,3)] by (simp add: sv sm_loadLatest_def Let_def)
  show "sm_open (snd (sm_save s now True written removable sm))"
    "\<exists>dir. sm_dir (snd (sm_save s now True written removable sm)) = Some dir"
    using d by (simp_all add: sv)
qed

text \<open>Saving a whole sequence of snapshots.\<close>

definition sm_saveAll :: "Snapshot list \<Rightarrow> SnapshotManager \<Rightarrow> SnapshotManager" where
  "sm_saveAll ss sm = fold sm_saveOk ss sm"

text \<open>Timestamps as the clock gives them: positive, increasing, all with the same number of digits.\<close>

definition ts_ordered :: "Snapshot list \<Rightarrow> bool" where
  "ts_ordered ss \<longleftrightarrow> (\<forall>s\<in>set ss. 0 < sn_timestampUs s) \<and>
     sorted_wrt (\<lambda>r s. sn_timestampUs r < sn_timestampUs s \<and> tsDigits (sn_timestampUs r) = tsDigits (sn_timestampUs s)) ss"

lemma sm_holds_saveAll:
  assumes "ts_ordered ss" "sm_holds sm []"
  shows "sm_holds (sm_saveAll ss sm) (drop (length ss - unat (sm_maxRetained sm)) ss) \<and>
    sm_maxRetained (sm_saveAll ss sm) = sm_maxRetained sm"
  using assms(1)
proof (induction ss rule: rev_induct)
  case Nil
  then show ?case using assms(2) by (simp add: sm_saveAll_def)
next
  case (snoc s ss)
  let ?n = "unat (sm_maxRetained sm)"
  define kept where "kept = drop (length ss - ?n) ss"
  have ts: "ts_ordered ss" "0 < sn_timestampUs s"
    "\<forall>r\<in>set ss. sn_timestampUs r < sn_timestampUs s \<and> tsDigits (sn_timestampUs r) = tsDigits (sn_timestampUs s)"
    using snoc.prems by (auto simp: ts_ordered_def sorted_wrt_append)
  have IH: "sm_holds (sm_saveAll ss sm) kept" "sm_maxRetained (sm_saveAll ss sm) = sm_maxRetained sm"
    using snoc.IH [OF ts(1)] by (simp_all add: kept_def)
  have later: "\<forall>r\<in>set kept. sn_timestampUs r < sn_timestampUs s \<and> tsDigits (sn_timestampUs r) = tsDigits (sn_timestampUs s)"
    using ts(3) by (auto simp: kept_def dest: in_set_dropD)
  have all: "sm_saveAll (ss @ [s]) sm = sm_saveOk s (sm_saveAll ss sm)" by (simp add: sm_saveAll_def)
  have "drop (length kept + 1 - ?n) (kept @ [s]) = drop (length (ss @ [s]) - ?n) (ss @ [s])"
    by (cases "length ss < ?n") (auto simp: kept_def Suc_diff_le)
  with sm_holds_save [OF IH(1) ts(2) later] IH(2) show ?case unfolding all by simp
qed

section \<open>Properties\<close>

text \<open>The binary form of a snapshot round-trips, and a snapshot file cut short anywhere is
  rejected as corrupted: a partially written snapshot is never taken for a smaller one.\<close>

theorem snapshot_roundtrip:
  assumes "sn_small s"
  shows "deserializeSnapshot (serializeSnapshot s) = Inr s \<and>
    (\<forall>k<length (serializeSnapshot s).
       \<exists>msg. deserializeSnapshot (take k (serializeSnapshot s)) = err SnapshotCorrupted msg)"
  using deserialize_serializeSnapshot [OF assms] deserialize_truncated [OF assms] by blast

definition demoSnapshot :: "u64 \<Rightarrow> u64 \<Rightarrow> Snapshot" where
  "demoSnapshot seq ts = \<lparr>sn_walSequence = seq, sn_timestampUs = ts,
     sn_players = [\<lparr>ps_playerId = PlayerId 42, ps_instanceId = 1, ps_data = [1, 2, 3]\<rparr>]\<rparr>"

theorem snapshot_roundtrip_witness:
  "\<exists>msg. deserializeSnapshot (take 37 (serializeSnapshot (demoSnapshot 5 100))) = err SnapshotCorrupted msg"
proof -
  have "sn_small (demoSnapshot 5 100)" "37 < length (serializeSnapshot (demoSnapshot 5 100))"
    by (simp_all add: sn_small_def demoSnapshot_def serializeSnapshot_def)
  with snapshot_roundtrip [of "demoSnapshot 5 100"] show ?thesis by blast
qed

text \<open>Retention and recovery. After saving any non-empty sequence of snapshots with increasing
  timestamps of equally many digits into a store that held none, the snapshot files are exactly
  those of the newest \<^verbatim>\<open>maxRetained\<close>, and if at least one is retained, loading the latest
  returns the last snapshot saved.\<close>

theorem snapshot_store_retains_newest:
  assumes "ts_ordered (ss @ [s])" "sn_small s" "sm_holds sm []"
  shows "sm_snapshotCount (sm_saveAll (ss @ [s]) sm) = min (unat (sm_maxRetained sm)) (length (ss @ [s])) \<and>
    listSnapshots (sm_saveAll (ss @ [s]) sm)
      = map (snapshotPath \<circ> sn_timestampUs) (drop (length (ss @ [s]) - unat (sm_maxRetained sm)) (ss @ [s])) \<and>
    (0 < sm_maxRetained sm \<longrightarrow> sm_loadLatest True (\<lambda>n. n) (sm_saveAll (ss @ [s]) sm) = Inr s)"
proof -
  let ?n = "unat (sm_maxRetained sm)"
  have h: "sm_holds (sm_saveAll (ss @ [s]) sm) (drop (length (ss @ [s]) - ?n) (ss @ [s]))"
    using sm_holds_saveAll [OF assms(1,3)] by blast
  then have ls: "listSnapshots (sm_saveAll (ss @ [s]) sm)
      = map (snapshotPath \<circ> sn_timestampUs) (drop (length (ss @ [s]) - ?n) (ss @ [s]))"
    by (auto simp: sm_holds_def)
  moreover have "sm_loadLatest True (\<lambda>n. n) (sm_saveAll (ss @ [s]) sm) = Inr s" if "0 < sm_maxRetained sm"
  proof -
    have "drop (length (ss @ [s]) - ?n) (ss @ [s]) = drop (Suc (length ss) - ?n) ss @ [s]"
      using that by (simp add: word_less_nat_alt)
    with h sm_holds_latest [OF _ assms(2)] show ?thesis by simp
  qed
  moreover have "sm_snapshotCount (sm_saveAll (ss @ [s]) sm) = min ?n (length (ss @ [s]))"
    unfolding sm_snapshotCount_def ls length_map length_drop by arith
  ultimately show ?thesis by blast
qed

theorem snapshot_store_retains_newest_witness:
  "sm_loadLatest True (\<lambda>n. n) (sm_saveAll ([demoSnapshot 1 100, demoSnapshot 5 200] @ [demoSnapshot 9 300])
     (snd (sm_openStore None (mkSnapshotManager 2 None)))) = Inr (demoSnapshot 9 300)"
proof -
  have "tsDigits 100 = 3" "tsDigits 200 = 3" "tsDigits 300 = 3" by code_simp+
  then have "ts_ordered ([demoSnapshot 1 100, demoSnapshot 5 200] @ [demoSnapshot 9 300])"
    by (simp add: ts_ordered_def demoSnapshot_def)
  moreover have "sn_small (demoSnapshot 9 300)" by (simp add: sn_small_def demoSnapshot_def)
  moreover have "sm_holds (snd (sm_openStore None (mkSnapshotManager 2 None))) []"
    by (simp add: sm_holds_def sm_openStore_def mkSnapshotManager_def listSnapshots_def)
  moreover have "sm_maxRetained (snd (sm_openStore None (mkSnapshotManager 2 None))) = 2"
    by (simp add: sm_openStore_def mkSnapshotManager_def)
  ultimately show ?thesis
    using snapshot_store_retains_newest [of "[demoSnapshot 1 100, demoSnapshot 5 200]" "demoSnapshot 9 300"
        "snd (sm_openStore None (mkSnapshotManager 2 None))"]
    by (simp del: append.simps)
qed

end
