(* ===== verification/Persistence_Manager.thy ===== *)
theory Persistence_Manager
  imports Write_Ahead_Log Snapshot_Manager
begin

text \<open>
  The persistence manager (\<^verbatim>\<open>service/persistence_manager.hpp\<close>,
  \<^verbatim>\<open>services/runner/persistence_manager.cpp\<close>): it ties the log and the snapshot store
  together, recovers on start, and takes snapshots that truncate the log. The server's world is
  a type parameter \<open>'w\<close>: the state collector is a function of the world, the restorer and the
  applier transform it. The metrics gauges it sets are not part of the state.
\<close>

section \<open>The manager\<close>

record 'w PersistenceManager =
  pm_wal :: WriteAheadLog
  pm_snapshots :: SnapshotManager
  pm_collector :: "('w \<Rightarrow> PlayerSnapshot list) option"
  pm_lastSnapshotSequence :: u64
  pm_running :: bool

text \<open>A new manager on the files left by earlier ones.\<close>

definition mkPersistenceManager ::
  "bool \<Rightarrow> u32 \<Rightarrow> bytes option \<Rightarrow> directory option \<Rightarrow> 'w PersistenceManager" where
  "mkPersistenceManager syncOnWrite maxRetained file dir = \<lparr>pm_wal = mkWriteAheadLog syncOnWrite file,
     pm_snapshots = mkSnapshotManager maxRetained dir, pm_collector = None,
     pm_lastSnapshotSequence = 0, pm_running = False\<rparr>"

text \<open>What the file system does during a snapshot: see \<open>sm_save\<close> and \<open>wal_truncateBefore\<close>.\<close>

record SnapshotIo =
  io_writable :: bool
  io_written :: nat
  io_removable :: "string \<Rightarrow> bool"
  io_closed :: nat
  io_rewritable :: bool
  io_rewritten :: nat
  io_reopened :: bool

text \<open>What it does during a start: see \<open>wal_openLog\<close>, \<open>sm_openStore\<close> and \<open>sm_loadLatest\<close>.\<close>

record StartIo =
  io_walDirError :: "string option"
  io_walReadable :: bool
  io_walWritable :: bool
  io_snapDirError :: "string option"
  io_snapReadable :: bool
  io_snapGot :: "nat \<Rightarrow> nat"

definition pm_recover ::
  "(Snapshot \<Rightarrow> 'w \<Rightarrow> 'w) \<Rightarrow> (WalEntry \<Rightarrow> 'w \<Rightarrow> 'w) \<Rightarrow> StartIo \<Rightarrow> 'w \<Rightarrow> 'w PersistenceManager
     \<Rightarrow> unit GameResult \<times> 'w \<times> 'w PersistenceManager" where
  "pm_recover restorer applier io w pm =
    (let (pm1, w1) = (case sm_loadLatest (io_snapReadable io) (io_snapGot io) (pm_snapshots pm) of
                        Inr snap \<Rightarrow> (pm\<lparr>pm_lastSnapshotSequence := sn_walSequence snap\<rparr>, restorer snap w)
                      | Inl _ \<Rightarrow> (pm, w))
     in case wal_replay (pm_lastSnapshotSequence pm1) (pm_wal pm1) of
          (Inl e, es) \<Rightarrow> (err RecoveryFailed (''WAL replay failed: '' @ ge_message e), fold applier es w1, pm1)
        | (Inr _, es) \<Rightarrow> (Inr (), fold applier es w1, pm1))"

text \<open>\<open>doSnapshot\<close> in its two parts, since the world and the log may change in between: the collector
  runs first, and only then are the sequence number read, the snapshot saved and the log truncated.\<close>

definition pm_finishSnapshot ::
  "PlayerSnapshot list \<Rightarrow> u64 \<Rightarrow> SnapshotIo \<Rightarrow> 'w PersistenceManager \<Rightarrow> unit GameResult \<times> 'w PersistenceManager" where
  "pm_finishSnapshot players timestampUs io pm =
    (let snap = \<lparr>sn_walSequence = wal_currentSequence (pm_wal pm), sn_timestampUs = timestampUs,
                 sn_players = players\<rparr>
     in case sm_save snap timestampUs (io_writable io) (io_written io) (io_removable io) (pm_snapshots pm) of
          (Inl e, sm) \<Rightarrow> (Inl e, pm\<lparr>pm_snapshots := sm\<rparr>)
        | (Inr _, sm) \<Rightarrow>
            (Inr (), pm\<lparr>pm_snapshots := sm,
               pm_wal := snd (wal_truncateBefore (sn_walSequence snap) (io_closed io) (io_rewritable io)
                                (io_rewritten io) (io_reopened io) (pm_wal pm)),
               pm_lastSnapshotSequence := sn_walSequence snap\<rparr>))"

definition pm_doSnapshot ::
  "'w \<Rightarrow> u64 \<Rightarrow> SnapshotIo \<Rightarrow> 'w PersistenceManager \<Rightarrow> unit GameResult \<times> 'w PersistenceManager" where
  "pm_doSnapshot w timestampUs io pm =
    (case pm_collector pm of
       None \<Rightarrow> (err PersistenceError ''no state collector registered'', pm)
     | Some collector \<Rightarrow> pm_finishSnapshot (collector w) timestampUs io pm)"

text \<open>One iteration of the timer loop: \<open>now\<close> and \<open>now'\<close> are the clock readings before and after a
  snapshot, \<open>nextSnapshot\<close> the time the next one is due.\<close>

definition pm_timerStep ::
  "int \<Rightarrow> int \<Rightarrow> int \<Rightarrow> 'w \<Rightarrow> u64 \<Rightarrow> SnapshotIo \<Rightarrow> int \<times> 'w PersistenceManager \<Rightarrow> int \<times> 'w PersistenceManager" where
  "pm_timerStep interval now now' w timestampUs io st =
    (case st of (nextSnapshot, pm) \<Rightarrow>
       if \<not> pm_running pm then (nextSnapshot, pm)
       else if now \<ge> nextSnapshot then (now' + interval, snd (pm_doSnapshot w timestampUs io pm))
       else (nextSnapshot, pm))"

definition pm_start ::
  "('w \<Rightarrow> PlayerSnapshot list) \<Rightarrow> (Snapshot \<Rightarrow> 'w \<Rightarrow> 'w) \<Rightarrow> (WalEntry \<Rightarrow> 'w \<Rightarrow> 'w) \<Rightarrow> StartIo \<Rightarrow> 'w
     \<Rightarrow> 'w PersistenceManager \<Rightarrow> unit GameResult \<times> 'w \<times> 'w PersistenceManager" where
  "pm_start collector restorer applier io w pm =
    (if pm_running pm then (err PersistenceAlreadyStarted ''persistence manager is already running'', w, pm)
     else case wal_openLog (io_walDirError io) (io_walReadable io) (io_walWritable io) (pm_wal pm) of
       (Inl e, wal) \<Rightarrow> (Inl e, w, pm\<lparr>pm_wal := wal\<rparr>)
     | (Inr _, wal) \<Rightarrow>
         (case sm_openStore (io_snapDirError io) (pm_snapshots pm) of
            (Inl e, sm) \<Rightarrow> (Inl e, w, pm\<lparr>pm_wal := wal_close (length (wal_pending wal)) wal, pm_snapshots := sm\<rparr>)
          | (Inr _, sm) \<Rightarrow>
              (case pm_recover restorer applier io w
                      (pm\<lparr>pm_wal := wal, pm_snapshots := sm, pm_collector := Some collector\<rparr>) of
                 (Inl e, w1, pm1) \<Rightarrow>
                   (Inl e, w1, pm1\<lparr>pm_wal := wal_close (length (wal_pending (pm_wal pm1))) (pm_wal pm1),
                                   pm_snapshots := sm_close (pm_snapshots pm1)\<rparr>)
               | (Inr _, w1, pm1) \<Rightarrow> (Inr (), w1, pm1\<lparr>pm_running := True\<rparr>))))"

text \<open>\<open>flushed\<close> and \<open>closed\<close>: how many bytes reach the log file at the flush and at the close.\<close>

definition pm_stop ::
  "'w \<Rightarrow> u64 \<Rightarrow> SnapshotIo \<Rightarrow> nat \<Rightarrow> nat \<Rightarrow> 'w PersistenceManager \<Rightarrow> 'w PersistenceManager" where
  "pm_stop w timestampUs io flushed closed pm =
    (if \<not> pm_running pm then pm
     else let pm1 = snd (pm_doSnapshot w timestampUs io (pm\<lparr>pm_running := False\<rparr>))
          in pm1\<lparr>pm_wal := wal_close closed (snd (wal_flush flushed (pm_wal pm1))),
                 pm_snapshots := sm_close (pm_snapshots pm1)\<rparr>)"

definition pm_recordChange ::
  "WalEntry \<Rightarrow> u64 \<Rightarrow> bool \<Rightarrow> nat \<Rightarrow> 'w PersistenceManager \<Rightarrow> u64 GameResult \<times> 'w PersistenceManager" where
  "pm_recordChange entry nowMicros good written pm =
    (let (result, wal) = wal_append entry nowMicros good written (pm_wal pm)
     in (result, pm\<lparr>pm_wal := wal\<rparr>))"

definition pm_takeSnapshot ::
  "'w \<Rightarrow> u64 \<Rightarrow> SnapshotIo \<Rightarrow> 'w PersistenceManager \<Rightarrow> unit GameResult \<times> 'w PersistenceManager" where
  "pm_takeSnapshot w timestampUs io pm =
    (if \<not> pm_running pm then (err PersistenceNotStarted ''persistence manager is not running'', pm)
     else pm_doSnapshot w timestampUs io pm)"

definition pm_isRunning :: "'w PersistenceManager \<Rightarrow> bool" where
  "pm_isRunning pm = pm_running pm"

definition pm_pendingWalEntries :: "'w PersistenceManager \<Rightarrow> nat" where
  "pm_pendingWalEntries pm = wal_entryCount (pm_wal pm)"

definition pm_currentWalSequence :: "'w PersistenceManager \<Rightarrow> u64" where
  "pm_currentWalSequence pm = wal_currentSequence (pm_wal pm)"

section \<open>A server that uses it\<close>

text \<open>The server logs a change and applies it once it is acknowledged; snapshots come from the timer
  or from \<open>takeSnapshot\<close>. All input and output succeeds; a crash may strike at any time.\<close>

datatype pm_op = PmChange WalEntry u64 | PmSnapshot u64

definition goodSnapshotIo :: "Snapshot \<Rightarrow> WriteAheadLog \<Rightarrow> SnapshotIo" where
  "goodSnapshotIo snap wal = \<lparr>io_writable = True, io_written = length (serializeSnapshot snap),
     io_removable = (\<lambda>_. True), io_closed = length (wal_pending wal), io_rewritable = True,
     io_rewritten = length (concat (map (walFrame \<circ> snd) (wal_entries wal))), io_reopened = True\<rparr>"

definition goodStartIo :: StartIo where
  "goodStartIo = \<lparr>io_walDirError = None, io_walReadable = True, io_walWritable = True,
     io_snapDirError = None, io_snapReadable = True, io_snapGot = (\<lambda>n. n)\<rparr>"

text \<open>The snapshot that is taken when the collected players are \<open>players\<close>.\<close>

definition pm_snap :: "PlayerSnapshot list \<Rightarrow> u64 \<Rightarrow> 'w PersistenceManager \<Rightarrow> Snapshot" where
  "pm_snap players ts pm = \<lparr>sn_walSequence = wal_currentSequence (pm_wal pm), sn_timestampUs = ts, sn_players = players\<rparr>"

fun pm_exec :: "(WalEntry \<Rightarrow> 'w \<Rightarrow> 'w) \<Rightarrow> ('w \<Rightarrow> PlayerSnapshot list) \<Rightarrow> pm_op
    \<Rightarrow> 'w PersistenceManager \<times> 'w \<Rightarrow> 'w PersistenceManager \<times> 'w" where
  "pm_exec applier collector (PmChange e now) (pm, w) =
    (case pm_recordChange e now True (length (walFrame e)) pm of
       (Inr seq, pm') \<Rightarrow> (pm', applier (e\<lparr>we_sequence := seq, we_timestampUs := now\<rparr>) w)
     | (Inl _, pm') \<Rightarrow> (pm', w))"
| "pm_exec applier collector (PmSnapshot ts) (pm, w) =
    (snd (pm_takeSnapshot w ts (goodSnapshotIo (pm_snap (collector w) ts pm) (pm_wal pm)) pm), w)"

text \<open>The process dies and a new one starts on the files; \<open>torn\<close> are bytes of an unfinished append.\<close>

definition pm_crashAndStart ::
  "('w \<Rightarrow> PlayerSnapshot list) \<Rightarrow> (Snapshot \<Rightarrow> 'w \<Rightarrow> 'w) \<Rightarrow> (WalEntry \<Rightarrow> 'w \<Rightarrow> 'w) \<Rightarrow> 'w \<Rightarrow> bytes
     \<Rightarrow> 'w PersistenceManager \<Rightarrow> unit GameResult \<times> 'w \<times> 'w PersistenceManager" where
  "pm_crashAndStart collector restorer applier w0 torn pm =
     pm_start collector restorer applier goodStartIo w0
       (mkPersistenceManager (wal_syncOnWrite (pm_wal pm)) (sm_maxRetained (pm_snapshots pm))
          (Some (wal_bytes (pm_wal pm) @ torn)) (sm_dir (pm_snapshots pm)))"

section \<open>What is on disk determines the world\<close>

definition snapSeq :: "Snapshot list \<Rightarrow> u64" where
  "snapSeq ss = (if ss = [] then 0 else sn_walSequence (last ss))"

definition snapBase :: "(Snapshot \<Rightarrow> 'w \<Rightarrow> 'w) \<Rightarrow> 'w \<Rightarrow> Snapshot list \<Rightarrow> 'w" where
  "snapBase restorer w0 ss = (if ss = [] then w0 else restorer (last ss) w0)"

abbreviation pm_entries :: "'w PersistenceManager \<Rightarrow> WalEntry list" where
  "pm_entries pm \<equiv> map snd (wal_entries (pm_wal pm))"

text \<open>The invariant: log and store are consistent, the store holds \<open>ss\<close>, the next log number is above
  the last snapshot's, and the world is the last snapshot with the later entries applied.\<close>

definition pm_ok ::
  "(Snapshot \<Rightarrow> 'w \<Rightarrow> 'w) \<Rightarrow> (WalEntry \<Rightarrow> 'w \<Rightarrow> 'w) \<Rightarrow> ('w \<Rightarrow> PlayerSnapshot list) \<Rightarrow> 'w
     \<Rightarrow> nat \<Rightarrow> nat \<Rightarrow> u64 \<Rightarrow> Snapshot list \<Rightarrow> 'w PersistenceManager \<Rightarrow> 'w \<Rightarrow> bool" where
  "pm_ok restorer applier collector w0 k d t ss pm w \<longleftrightarrow>
     pm_running pm \<and> pm_collector pm = Some collector \<and>
     wal_inv (pm_wal pm) \<and> seq_ok k (wal_abs (pm_wal pm)) \<and>
     sm_holds (pm_snapshots pm) ss \<and> 0 < sm_maxRetained (pm_snapshots pm) \<and>
     (\<forall>s\<in>set ss. sn_small s \<and> sn_timestampUs s \<le> t \<and> tsDigits (sn_timestampUs s) = d) \<and>
     pm_lastSnapshotSequence pm = snapSeq ss \<and> snapSeq ss < wal_nextSequence (pm_wal pm) \<and>
     w = fold applier (filter (\<lambda>e. snapSeq ss < we_sequence e) (pm_entries pm)) (snapBase restorer w0 ss)"

fun ops_ok :: "nat \<Rightarrow> u64 \<Rightarrow> pm_op list \<Rightarrow> bool" where
  "ops_ok d t [] \<longleftrightarrow> True"
| "ops_ok d t (PmChange e now # ops) \<longleftrightarrow> we_small e \<and> ops_ok d t ops"
| "ops_ok d t (PmSnapshot ts # ops) \<longleftrightarrow> t < ts \<and> tsDigits ts = d \<and> ops_ok d ts ops"

text \<open>What the code relies on: the restorer undoes the collector, and what is collected fits the
  32-bit size fields.\<close>

definition restores :: "(Snapshot \<Rightarrow> 'w \<Rightarrow> 'w) \<Rightarrow> ('w \<Rightarrow> PlayerSnapshot list) \<Rightarrow> bool" where
  "restores restorer collector \<longleftrightarrow> (\<forall>snap w w'. sn_players snap = collector w \<longrightarrow> restorer snap w' = w)"

definition collects_small :: "('w \<Rightarrow> PlayerSnapshot list) \<Rightarrow> bool" where
  "collects_small collector \<longleftrightarrow> (\<forall>w snap. sn_players snap = collector w \<longrightarrow> sn_small snap)"

lemma pm_ok_change:
  assumes ok: "pm_ok restorer applier collector w0 k d t ss pm w" and "we_small e" "k < 18446744073709551615"
  shows "case pm_exec applier collector (PmChange e now) (pm, w) of
      (pm', w') \<Rightarrow> pm_ok restorer applier collector w0 (Suc k) d t ss pm' w'"
    "\<exists>seq. fst (pm_recordChange e now True (length (walFrame e)) pm) = Inr seq"
    "pm_exec applier collector (PmChange e now) (pm, w) = (pm\<lparr>pm_wal := wal_exec (WAppend e now) (pm_wal pm)\<rparr>,
       applier (e\<lparr>we_sequence := wal_nextSequence (pm_wal pm), we_timestampUs := now\<rparr>) w)"
proof -
  have inv: "wal_inv (pm_wal pm)" and sq: "seq_ok k (wal_abs (pm_wal pm))"
    and below: "snapSeq ss < wal_nextSequence (pm_wal pm)"
    and n: "unat (wal_nextSequence (pm_wal pm)) \<le> k"
    using ok by (auto simp: pm_ok_def seq_ok_def wal_abs_def)
  note A = wal_inv_append [OF inv assms(2), of now]
  have next': "wal_nextSequence (wal_exec (WAppend e now) (pm_wal pm)) = wal_nextSequence (pm_wal pm) + 1"
    and entries: "map snd (wal_entries (wal_exec (WAppend e now) (pm_wal pm))) = pm_entries pm
      @ [e\<lparr>we_sequence := wal_nextSequence (pm_wal pm), we_timestampUs := now\<rparr>]"
    using A(2) by (simp_all add: wal_abs_def)
  have lt: "wal_nextSequence (pm_wal pm) < wal_nextSequence (pm_wal pm) + 1"
    using n assms(3) by (simp add: word_less_nat_alt unat_plus_1)
  obtain wal' where ap: "wal_append e now True (37 + length (we_data e)) (pm_wal pm)
      = (Inr (wal_nextSequence (pm_wal pm)), wal')"
    using A(3) by (metis prod.collapse)
  then show ex: "pm_exec applier collector (PmChange e now) (pm, w) = (pm\<lparr>pm_wal := wal_exec (WAppend e now) (pm_wal pm)\<rparr>,
      applier (e\<lparr>we_sequence := wal_nextSequence (pm_wal pm), we_timestampUs := now\<rparr>) w)"
    by (simp add: pm_recordChange_def)
  show "\<exists>seq. fst (pm_recordChange e now True (length (walFrame e)) pm) = Inr seq"
    using ap by (simp add: pm_recordChange_def)
  show "case pm_exec applier collector (PmChange e now) (pm, w) of
      (pm', w') \<Rightarrow> pm_ok restorer applier collector w0 (Suc k) d t ss pm' w'"
    unfolding ex prod.case
    using ok A(1) seq_ok_exec [OF sq assms(3), of "WAppend e now", folded A(2)] below lt
    by (simp add: pm_ok_def next' entries del: wal_exec.simps)
qed

text \<open>Finishing a snapshot of the world \<open>w1\<close>, whatever the world is by then.\<close>

lemma pm_ok_finish:
  fixes w1 :: 'w and pm :: "'w PersistenceManager"
  assumes ok: "pm_ok restorer applier collector w0 k d t ss pm w"
    and law: "restores restorer collector" "collects_small collector"
    and ts: "t < ts" "tsDigits ts = d" and k: "k < 18446744073709551615"
  defines "snap \<equiv> pm_snap (collector w1) ts pm"
  defines "fin \<equiv> pm_finishSnapshot (collector w1) ts (goodSnapshotIo snap (pm_wal pm)) pm"
  defines "ss' \<equiv> drop (length ss + 1 - unat (sm_maxRetained (pm_snapshots pm))) (ss @ [snap])"
  shows "fst fin = Inr ()" "pm_ok restorer applier collector w0 (Suc k) d ts ss' (snd fin) w1"
    "wal_entries (pm_wal (snd fin)) = []" "snapSeq ss' = wal_currentSequence (pm_wal pm)"
    "wal_nextSequence (pm_wal (snd fin)) = wal_nextSequence (pm_wal pm)"
proof -
  let ?wal = "pm_wal pm" and ?sm = "pm_snapshots pm"
  have inv: "wal_inv ?wal" and sq: "seq_ok k (wal_abs ?wal)" and holds: "sm_holds ?sm ss"
    and ret: "0 < sm_maxRetained ?sm"
    and old: "\<forall>s\<in>set ss. sn_small s \<and> sn_timestampUs s \<le> t \<and> tsDigits (sn_timestampUs s) = d"
    using ok by (auto simp: pm_ok_def)
  have n0: "wal_nextSequence ?wal \<noteq> 0" using sq by (auto simp: seq_ok_def wal_abs_def)
  have snap: "sn_timestampUs snap = ts" "sn_players snap = collector w1" "0 < ts"
    "sn_walSequence snap = wal_nextSequence ?wal - 1" "sn_small snap"
    using ts law n0 by (auto simp: snap_def pm_snap_def wal_currentSequence_def collects_small_def word_gt_0)
  have later: "\<forall>r\<in>set ss. sn_timestampUs r < sn_timestampUs snap
      \<and> tsDigits (sn_timestampUs r) = tsDigits (sn_timestampUs snap)"
    using old ts snap by auto
  have save: "sm_save snap ts True (length (serializeSnapshot snap)) (\<lambda>_. True) ?sm = (Inr (), sm_saveOk snap ?sm)"
    using snap holds by (simp add: sm_saveOk_def sm_save_def Let_def sm_holds_def)
  have fin: "fin = (Inr (), pm\<lparr>pm_snapshots := sm_saveOk snap ?sm,
      pm_wal := wal_exec (WTruncate (sn_walSequence snap)) ?wal, pm_lastSnapshotSequence := sn_walSequence snap\<rparr>)"
    using save by (simp add: fin_def pm_finishSnapshot_def goodSnapshotIo_def Let_def flip: snap_def pm_snap_def)
  show "fst fin = Inr ()" by (simp add: fin)
  note T = wal_inv_truncate [OF inv, of "sn_walSequence snap"]
  have "filter (\<lambda>e. sn_walSequence snap < we_sequence e) (map snd (wal_entries ?wal)) = []"
  proof -
    have "\<not> sn_walSequence snap < we_sequence y" if "y \<in> set (map snd (wal_entries ?wal))" for y
      using seq_ok_below [OF sq [unfolded wal_abs_def] that] n0 snap(4)
      by (simp add: not_less word_le_nat_alt word_less_nat_alt unat_minus_one)
    then show ?thesis by (simp only: filter_empty_conv) blast
  qed
  then have wal': "wal_nextSequence (wal_exec (WTruncate (sn_walSequence snap)) ?wal) = wal_nextSequence ?wal"
    "wal_entries (wal_exec (WTruncate (sn_walSequence snap)) ?wal) = []"
    using T(2) by (simp_all add: wal_abs_def)
  have ss': "ss' = drop (Suc (length ss) - unat (sm_maxRetained ?sm)) ss @ [snap]"
    using ret by (simp add: ss'_def word_less_nat_alt)
  have last: "ss' \<noteq> []" "last ss' = snap" by (simp_all add: ss')
  have lt: "wal_nextSequence ?wal - 1 < wal_nextSequence ?wal"
    using n0 by (simp add: word_less_nat_alt unat_minus_one unat_gt_0)
  have new: "\<forall>s\<in>set ss'. sn_small s \<and> sn_timestampUs s \<le> ts \<and> tsDigits (sn_timestampUs s) = d"
    using old snap ts by (auto simp: ss' dest!: in_set_dropD)
  show "wal_entries (pm_wal (snd fin)) = []" "snapSeq ss' = wal_currentSequence ?wal"
    "wal_nextSequence (pm_wal (snd fin)) = wal_nextSequence ?wal"
    using wal' n0 by (simp_all add: fin snapSeq_def last snap wal_currentSequence_def word_gt_0 del: wal_exec.simps)
  have run: "pm_running pm" "pm_collector pm = Some collector" using ok by (auto simp: pm_ok_def)
  have saved: "sm_holds (sm_saveOk snap ?sm) ss'" "sm_maxRetained (sm_saveOk snap ?sm) = sm_maxRetained ?sm"
    using sm_holds_save [OF holds _ later] snap(1,3) unfolding ss'_def by simp_all
  have base: "snapBase restorer w0 ss' = w1"
    using law(1) snap(2) by (simp add: snapBase_def last restores_def)
  show "pm_ok restorer applier collector w0 (Suc k) d ts ss' (snd fin) w1"
    using run T(1) seq_ok_exec [OF sq k, of "WTruncate (sn_walSequence snap)", folded T(2)]
      saved new lt [folded snap(4)] ret
    by (simp add: pm_ok_def fin wal' base snapSeq_def last del: wal_exec.simps)
qed

lemma wal_openLog_restart: "wal_openLog None True True (mkWriteAheadLog True (Some file)) = (Inr (), wal_restart file)"
  by (simp add: wal_restart_def wal_openLog_def mkWriteAheadLog_def wal_rebuildIndex_def Let_def)

lemma wal_restart_flags [simp]:
  "wal_open (wal_restart file)" "wal_syncOnWrite (wal_restart file)" "wal_writerGood (wal_restart file)"
  "wal_pending (wal_restart file) = []" "wal_bytes (wal_restart file) = file"
  by (simp_all add: wal_restart_def wal_openLog_def mkWriteAheadLog_def wal_rebuildIndex_def Let_def wal_bytes_def)

lemma replay_filter:
  assumes "\<forall>p\<in>set (wal_entries wal). fst p = we_sequence (snd p)"
  shows "wal_replay s wal = (Inr (of_nat (length (filter (\<lambda>e. s < we_sequence e) (map snd (wal_entries wal))))),
     filter (\<lambda>e. s < we_sequence e) (map snd (wal_entries wal)))"
proof -
  have "map snd (filter (\<lambda>(seq, e). seq > s) ps) = filter (\<lambda>e. s < we_sequence e) (map snd ps)"
    if "\<forall>p\<in>set ps. fst p = we_sequence (snd p)" for ps :: "(u64 \<times> WalEntry) list"
    using that by (induction ps) auto
  from this [OF assms] show ?thesis by (simp add: wal_replay_def Let_def)
qed

lemma wal_restart_keys: "\<forall>p\<in>set (wal_entries (wal_restart file)). fst p = we_sequence (snd p)"
  by (auto simp: wal_restart_def wal_openLog_def mkWriteAheadLog_def wal_rebuildIndex_def Let_def)

text \<open>Starting on the files of a manager that was running.\<close>

lemma pm_crashAndStart_eq:
  assumes "wal_syncOnWrite (pm_wal pm)" "sm_open (pm_snapshots pm)" "sm_dir (pm_snapshots pm) = Some dir"
  shows "pm_crashAndStart collector restorer applier w0 torn pm =
    (let wal = wal_restart (wal_bytes (pm_wal pm) @ torn);
         (seq, w1) = (case sm_loadLatest True (\<lambda>n. n) (pm_snapshots pm) of
                        Inr snap \<Rightarrow> (sn_walSequence snap, restorer snap w0) | Inl _ \<Rightarrow> (0, w0))
     in (Inr (), fold applier (filter (\<lambda>e. seq < we_sequence e) (map snd (wal_entries wal))) w1,
         \<lparr>pm_wal = wal, pm_snapshots = pm_snapshots pm, pm_collector = Some collector,
          pm_lastSnapshotSequence = seq, pm_running = True\<rparr>))"
proof -
  have sm: "sm_openStore None (mkSnapshotManager (sm_maxRetained (pm_snapshots pm)) (sm_dir (pm_snapshots pm)))
      = (Inr (), pm_snapshots pm)"
    using assms(2,3) by (cases "pm_snapshots pm") (simp add: sm_openStore_def mkSnapshotManager_def)
  show ?thesis
    using assms(1)
    by (simp add: pm_crashAndStart_def pm_start_def mkPersistenceManager_def goodStartIo_def wal_openLog_restart sm
        pm_recover_def replay_filter [OF wal_restart_keys] Let_def split: sum.splits)
qed

lemma loadLatest_holds:
  assumes "sm_holds sm ss" "\<forall>s\<in>set ss. sn_small s"
  shows "sm_loadLatest True (\<lambda>n. n) sm =
    (if ss = [] then err SnapshotReadFailed ''no snapshots found'' else Inr (last ss))"
proof (cases ss rule: rev_cases)
  case Nil
  then have "listSnapshots sm = []" using assms(1) by (auto simp: sm_holds_def)
  with Nil show ?thesis by (simp add: sm_loadLatest_def)
next
  case (snoc r s)
  then show ?thesis using sm_holds_latest [of sm r s] assms by simp
qed

lemma pm_ok_recover:
  assumes ok: "pm_ok restorer applier collector w0 k d t ss pm w" and torn: "readEntries torn = []"
  shows "fst (pm_crashAndStart collector restorer applier w0 torn pm) = Inr ()"
    "fst (snd (pm_crashAndStart collector restorer applier w0 torn pm)) = w"
    "pm_entries (snd (snd (pm_crashAndStart collector restorer applier w0 torn pm))) = pm_entries pm"
    "pm_wal (snd (snd (pm_crashAndStart collector restorer applier w0 torn pm)))
       = wal_restart (wal_bytes (pm_wal pm) @ torn)"
    "pm_snapshots (snd (snd (pm_crashAndStart collector restorer applier w0 torn pm))) = pm_snapshots pm"
proof -
  have inv: "wal_inv (pm_wal pm)" and holds: "sm_holds (pm_snapshots pm) ss" and small: "\<forall>s\<in>set ss. sn_small s"
    and w: "w = fold applier (filter (\<lambda>e. snapSeq ss < we_sequence e) (pm_entries pm)) (snapBase restorer w0 ss)"
    using ok by (auto simp: pm_ok_def)
  obtain dir where st: "wal_syncOnWrite (pm_wal pm)" "sm_open (pm_snapshots pm)" "sm_dir (pm_snapshots pm) = Some dir"
    using inv holds by (auto simp: wal_inv_def sm_holds_def)
  have "list_all we_small (pm_entries pm)" using inv by (auto simp: wal_inv_def list_all_iff)
  from restart_frames(1) [OF this torn]
  have es: "map snd (wal_entries (wal_restart (wal_bytes (pm_wal pm) @ torn))) = pm_entries pm"
    using inv by (simp add: wal_inv_def wal_bytes_def)
  note eq = pm_crashAndStart_eq [OF st, of collector restorer applier w0 torn, unfolded loadLatest_holds [OF holds small]]
  show "fst (pm_crashAndStart collector restorer applier w0 torn pm) = Inr ()"
    "fst (snd (pm_crashAndStart collector restorer applier w0 torn pm)) = w"
    "pm_entries (snd (snd (pm_crashAndStart collector restorer applier w0 torn pm))) = pm_entries pm"
    "pm_wal (snd (snd (pm_crashAndStart collector restorer applier w0 torn pm)))
       = wal_restart (wal_bytes (pm_wal pm) @ torn)"
    "pm_snapshots (snd (snd (pm_crashAndStart collector restorer applier w0 torn pm))) = pm_snapshots pm"
    by (simp_all add: eq es w snapSeq_def snapBase_def Let_def)
qed

text \<open>A whole run.\<close>

lemma pm_ok_run:
  assumes "pm_ok restorer applier collector w0 k d t ss pm w" "ops_ok d t ops"
    and law: "restores restorer collector" "collects_small collector"
    and "k + length ops \<le> 18446744073709551615"
  shows "\<exists>k' t' ss'. case fold (pm_exec applier collector) ops (pm, w) of
      (pm', w') \<Rightarrow> pm_ok restorer applier collector w0 k' d t' ss' pm' w'"
  using assms(1,2,5)
proof (induction ops arbitrary: k t ss pm w)
  case Nil
  then show ?case by auto
next
  case (Cons op ops)
  have k: "k < 18446744073709551615" using Cons.prems(3) by simp
  show ?case
  proof (cases op)
    case (PmChange e now)
    obtain pm' w' where ex: "pm_exec applier collector op (pm, w) = (pm', w')" by fastforce
    have "pm_ok restorer applier collector w0 (Suc k) d t ss pm' w'"
      using pm_ok_change(1) [OF Cons.prems(1) _ k, of e now] Cons.prems(2) ex PmChange
      by (simp del: pm_exec.simps)
    from Cons.IH [OF this] Cons.prems PmChange ex show ?thesis by simp
  next
    case (PmSnapshot ts)
    let ?io = "goodSnapshotIo (pm_snap (collector w) ts pm) (pm_wal pm)"
    have run: "pm_running pm" "pm_collector pm = Some collector" using Cons.prems(1) by (auto simp: pm_ok_def)
    have ex: "pm_exec applier collector op (pm, w) = (snd (pm_finishSnapshot (collector w) ts ?io pm), w)"
      using run by (simp add: PmSnapshot pm_takeSnapshot_def pm_doSnapshot_def)
    have ts: "t < ts" "tsDigits ts = d" "ops_ok d ts ops" using Cons.prems(2) PmSnapshot by auto
    from Cons.IH [OF pm_ok_finish(2) [OF Cons.prems(1) law ts(1,2) k, of w] ts(3)] Cons.prems(3)
    show ?thesis by (simp only: fold_simps ex) simp
  qed
qed

text \<open>A manager started for the first time.\<close>

definition pm_boot ::
  "('w \<Rightarrow> PlayerSnapshot list) \<Rightarrow> (Snapshot \<Rightarrow> 'w \<Rightarrow> 'w) \<Rightarrow> (WalEntry \<Rightarrow> 'w \<Rightarrow> 'w) \<Rightarrow> u32 \<Rightarrow> 'w
     \<Rightarrow> unit GameResult \<times> 'w \<times> 'w PersistenceManager" where
  "pm_boot collector restorer applier maxRetained w0 =
     pm_start collector restorer applier goodStartIo w0 (mkPersistenceManager True maxRetained None None)"

lemma pm_ok_boot:
  assumes "0 < maxRetained"
  shows "\<exists>pm. pm_boot collector restorer applier maxRetained w0 = (Inr (), w0, pm) \<and>
    pm_ok restorer applier collector w0 1 d 0 [] pm w0 \<and> wal_abs (pm_wal pm) = (1, [])"
  using assms
  by (simp add: pm_boot_def pm_start_def mkPersistenceManager_def goodStartIo_def wal_openLog_def
      mkWriteAheadLog_def wal_rebuildIndex_def sm_openStore_def mkSnapshotManager_def pm_recover_def Let_def
      sm_loadLatest_def listSnapshots_def wal_replay_def pm_ok_def wal_inv_def wal_bytes_def seq_ok_def
      wal_abs_def sm_holds_def snapSeq_def snapBase_def)

section \<open>The collector runs before the sequence number is read\<close>

text \<open>If a change is recorded, and acknowledged, after the collector has run and before the snapshot
  reads the sequence number, the snapshot claims to cover the change, the log drops it, and
  after a crash the recovered world is the one without it.\<close>

lemma snapshot_race_loses_change:
  assumes ok: "pm_ok restorer applier collector w0 k d t ss pm w"
    and law: "restores restorer collector" "collects_small collector"
    and e: "we_small e" and ts: "t < ts" "tsDigits ts = d" and k: "k < 18446744073709551614"
  shows "case pm_exec applier collector (PmChange e now) (pm, w) of (pm1, w1) \<Rightarrow>
    (\<exists>seq. fst (pm_recordChange e now True (length (walFrame e)) pm) = Inr seq) \<and>
    (case pm_finishSnapshot (collector w) ts (goodSnapshotIo (pm_snap (collector w) ts pm1) (pm_wal pm1)) pm1 of
       (r, pm2) \<Rightarrow> r = Inr () \<and> fst (snd (pm_crashAndStart collector restorer applier w0 [] pm2)) = w)"
proof -
  have k': "k < 18446744073709551615" "Suc k < 18446744073709551615" using k by simp_all
  obtain pm1 w1 where ex: "pm_exec applier collector (PmChange e now) (pm, w) = (pm1, w1)" by fastforce
  then have ok1: "pm_ok restorer applier collector w0 (Suc k) d t ss pm1 w1"
    using pm_ok_change(1) [OF ok e k'(1), of now] by (simp del: pm_exec.simps)
  note F = pm_ok_finish [OF ok1 law ts k'(2), of w]
  from F(1) pm_ok_recover(2) [OF F(2) readEntries_Nil] pm_ok_change(2) [OF ok e k'(1)] ex
  show ?thesis by (simp add: case_prod_beta del: pm_exec.simps)
qed

section \<open>A torn snapshot\<close>

text \<open>If the process dies while a snapshot is being written, the next start finds a snapshot that does
  not load, takes no other, and rebuilds the world from the log alone: everything the older
  snapshots held is lost, although they are still in the directory.\<close>

lemma torn_snapshot_discards_older:
  assumes ok: "pm_ok restorer applier collector w0 k d t ss pm w" and small: "collects_small collector"
    and ts: "t < ts" "tsDigits ts = d"
    and short: "written < length (serializeSnapshot (pm_snap (collector w) ts pm))"
  shows "fst (snd (pm_crashAndStart collector restorer applier w0 []
      (pm\<lparr>pm_snapshots := snd (sm_save (pm_snap (collector w) ts pm) ts True written removable (pm_snapshots pm))\<rparr>)))
    = fold applier (filter (\<lambda>e. 0 < we_sequence e) (pm_entries pm)) w0"
proof -
  define s where "s = pm_snap (collector w) ts pm"
  have inv: "wal_inv (pm_wal pm)" and holds: "sm_holds (pm_snapshots pm) ss"
    and old: "\<forall>r\<in>set ss. sn_timestampUs r < sn_timestampUs s \<and> tsDigits (sn_timestampUs r) = tsDigits (sn_timestampUs s)"
    using ok ts by (auto simp: pm_ok_def s_def pm_snap_def)
  have s: "sn_small s" "0 < sn_timestampUs s"
    using small ts by (auto simp: collects_small_def s_def pm_snap_def word_gt_0)
  define sm where "sm = snd (sm_save s ts True written removable (pm_snapshots pm))"
  note T = torn_save_not_loaded [OF holds s short [folded s_def] old, of ts removable, folded sm_def]
  obtain msg dir where T': "sm_loadLatest True (\<lambda>n. n) sm = err SnapshotCorrupted msg" "sm_open sm" "sm_dir sm = Some dir"
    using T by blast
  have "list_all we_small (pm_entries pm)" using inv by (auto simp: wal_inv_def list_all_iff)
  from restart_frames(1) [OF this readEntries_Nil]
  have es: "map snd (wal_entries (wal_restart (wal_bytes (pm_wal pm)))) = pm_entries pm"
    using inv by (simp add: wal_inv_def wal_bytes_def)
  have sync: "wal_syncOnWrite (pm_wal (pm\<lparr>pm_snapshots := sm\<rparr>))" using inv by (simp add: wal_inv_def)
  show ?thesis
    using pm_crashAndStart_eq [of "pm\<lparr>pm_snapshots := sm\<rparr>" dir collector restorer applier w0 "[]"] T' sync es
    by (simp add: Let_def flip: s_def sm_def)
qed

section \<open>Properties\<close>

text \<open>(C5) Recovery restores every acknowledged change. Start on empty storage and perform any sequence
  of changes, each applied to the world once its log entry is acknowledged, and snapshots
  taken with increasing timestamps of equally many digits. If the process then dies, also in
  the middle of logging a further entry, a new start succeeds and rebuilds exactly the world
  at the crash, provided the restorer undoes the collector.\<close>

theorem persistence_recovers_acknowledged_state:
  assumes "restores restorer collector" "collects_small collector" "0 < maxRetained"
    and "ops_ok d 0 ops" "length ops < 18446744073709551615"
    and "we_small e" "torn_at < length (walFrame e)"
  shows "case fold (pm_exec applier collector) ops
        (snd (snd (pm_boot collector restorer applier maxRetained w0)), w0) of
      (pm, w) \<Rightarrow>
        fst (pm_crashAndStart collector restorer applier w0 (take torn_at (walFrame e)) pm) = Inr () \<and>
        fst (snd (pm_crashAndStart collector restorer applier w0 (take torn_at (walFrame e)) pm)) = w"
proof -
  obtain pm0 where boot: "pm_boot collector restorer applier maxRetained w0 = (Inr (), w0, pm0)"
    "pm_ok restorer applier collector w0 1 d 0 [] pm0 w0"
    using pm_ok_boot [OF assms(3), of collector restorer applier w0 d] by blast
  obtain pm w where run: "fold (pm_exec applier collector) ops (pm0, w0) = (pm, w)" by fastforce
  obtain k t ss where ok: "pm_ok restorer applier collector w0 k d t ss pm w"
    using pm_ok_run [OF boot(2) assms(4,1,2)] assms(5) run by auto
  from pm_ok_recover(1,2) [OF ok readEntries_torn [OF assms(6,7)]] boot(1) run show ?thesis by simp
qed

text \<open>A world of one byte, to which an entry adds the number of its data bytes.\<close>

definition byteCollector :: "u8 \<Rightarrow> PlayerSnapshot list" where
  "byteCollector w = [\<lparr>ps_playerId = PlayerId 1, ps_instanceId = 0, ps_data = [w]\<rparr>]"

definition byteRestorer :: "Snapshot \<Rightarrow> u8 \<Rightarrow> u8" where
  "byteRestorer snap w = (case sn_players snap of p # _ \<Rightarrow> hd (ps_data p) | [] \<Rightarrow> w)"

definition byteApplier :: "WalEntry \<Rightarrow> u8 \<Rightarrow> u8" where
  "byteApplier e w = w + of_nat (length (we_data e))"

lemma byte_laws: "restores byteRestorer byteCollector" "collects_small byteCollector"
  by (simp_all add: restores_def collects_small_def byteRestorer_def byteCollector_def sn_small_def)

theorem persistence_recovers_acknowledged_state_witness:
  "case fold (pm_exec byteApplier byteCollector)
        [PmChange (demoEntry [1, 2]) 10, PmSnapshot 500, PmChange (demoEntry [3]) 11]
        (snd (snd (pm_boot byteCollector byteRestorer byteApplier 3 0)), 0) of
      (pm, w) \<Rightarrow>
        fst (pm_crashAndStart byteCollector byteRestorer byteApplier 0 (take 9 (walFrame (demoEntry []))) pm) = Inr () \<and>
        fst (snd (pm_crashAndStart byteCollector byteRestorer byteApplier 0 (take 9 (walFrame (demoEntry []))) pm)) = w"
proof (rule persistence_recovers_acknowledged_state [OF byte_laws, where d = 3])
  have "tsDigits 500 = 3" by code_simp
  then show "ops_ok 3 0 [PmChange (demoEntry [1, 2]) 10, PmSnapshot 500, PmChange (demoEntry [3]) 11]"
    by (simp add: we_small_def demoEntry_def)
qed (simp_all add: we_small_def demoEntry_def)

text \<open>A restart on a truncated log loses changes. A snapshot empties the log, and a log opened
  empty numbers its entries from 1 again: after a change, a snapshot and a restart, the next
  change is acknowledged with number 1, which the snapshot claims to cover, so the following
  recovery drops it.\<close>

theorem persistence_restart_loses_changes:
  assumes "restores restorer collector" "collects_small collector" "0 < maxRetained"
    and "we_small e" "we_small e'" "0 < ts"
  shows "case fold (pm_exec applier collector) [PmChange e now, PmSnapshot ts]
        (snd (snd (pm_boot collector restorer applier maxRetained w0)), w0) of
      (pm1, w1) \<Rightarrow>
        (case pm_crashAndStart collector restorer applier w0 [] pm1 of
          (r2, w2, pm2) \<Rightarrow>
            r2 = Inr () \<and> w2 = w1 \<and>
            fst (pm_recordChange e' now' True (length (walFrame e')) pm2) = Inr 1 \<and>
            fst (snd (pm_crashAndStart collector restorer applier w0 []
              (snd (pm_recordChange e' now' True (length (walFrame e')) pm2)))) = w1)"
proof -
  define d where "d = tsDigits ts"
  obtain pm0 where boot: "pm_boot collector restorer applier maxRetained w0 = (Inr (), w0, pm0)"
    "pm_ok restorer applier collector w0 1 d 0 [] pm0 w0" "wal_abs (pm_wal pm0) = (1, [])"
    using pm_ok_boot [OF assms(3), of collector restorer applier w0 d] by blast
  obtain pma wa where ex: "pm_exec applier collector (PmChange e now) (pm0, w0) = (pma, wa)" by fastforce
  have oka: "pm_ok restorer applier collector w0 2 d 0 [] pma wa"
    using pm_ok_change(1) [OF boot(2) assms(4), of now] ex by (simp add: numeral_2_eq_2 del: pm_exec.simps)
  have inv0: "wal_inv (pm_wal pm0)" using boot(2) by (simp add: pm_ok_def)
  have "pma = pm0\<lparr>pm_wal := wal_exec (WAppend e now) (pm_wal pm0)\<rparr>"
    using pm_ok_change(3) [OF boot(2) assms(4), of now] ex by (simp del: pm_exec.simps wal_exec.simps)
  then have next2: "wal_nextSequence (pm_wal pma) = 2"
    using wal_inv_append(2) [OF inv0 assms(4), of now] boot(3) by (simp add: wal_abs_def del: wal_exec.simps)
  define snap where "snap = pm_snap (collector wa) ts pma"
  define pm1 where "pm1 = snd (pm_finishSnapshot (collector wa) ts (goodSnapshotIo snap (pm_wal pma)) pma)"
  define ss where "ss = drop (1 - unat (sm_maxRetained (pm_snapshots pma))) [snap]"
  have F: "pm_ok restorer applier collector w0 3 d ts ss pm1 wa" "wal_entries (pm_wal pm1) = []" "snapSeq ss = 1"
  proof -
    have k2: "(2 :: nat) < 18446744073709551615" by simp
    note G = pm_ok_finish [OF oka assms(1,2,6) d_def [symmetric] k2, of wa]
    have l: "length ([] :: Snapshot list) + 1 = 1" "[] @ [snap] = [snap]" "Suc 2 = 3" by simp_all
    show "pm_ok restorer applier collector w0 3 d ts ss pm1 wa"
      using G(2) unfolding pm1_def snap_def [symmetric] ss_def l .
    show "wal_entries (pm_wal pm1) = []" using G(3) unfolding pm1_def snap_def .
    show "snapSeq ss = 1"
      using G(4) next2 unfolding ss_def snap_def [symmetric] l by (simp add: wal_currentSequence_def)
  qed
  have run: "pm_running pma" "pm_collector pma = Some collector" using oka by (auto simp: pm_ok_def)
  have ex1: "pm_exec applier collector (PmSnapshot ts) (pma, wa) = (pm1, wa)"
    using run by (simp add: pm_takeSnapshot_def pm_doSnapshot_def pm1_def snap_def)
  have bytes1: "wal_bytes (pm_wal pm1) = []" using F(1,2) by (simp add: pm_ok_def wal_inv_def wal_bytes_def)
  obtain w2 pm2 where st2: "pm_crashAndStart collector restorer applier w0 [] pm1 = (Inr (), w2, pm2)"
    and w2: "w2 = wa" and pm2: "pm_wal pm2 = wal_restart []" "pm_snapshots pm2 = pm_snapshots pm1"
    using pm_ok_recover [OF F(1) readEntries_Nil] bytes1 by (metis append_Nil prod.collapse)
  have inv2: "wal_inv (pm_wal pm2)" "wal_nextSequence (pm_wal pm2) = 1" "wal_entries (pm_wal pm2) = []"
    using wal_restart_empty by (simp_all add: pm2 wal_abs_def)
  define pm3 where "pm3 = snd (pm_recordChange e' now' True (length (walFrame e')) pm2)"
  note A = wal_inv_append [OF inv2(1) assms(5), of now']
  have ack: "fst (pm_recordChange e' now' True (length (walFrame e')) pm2) = Inr 1"
    using A(3) inv2(2) by (simp add: pm_recordChange_def case_prod_beta)
  have pm3: "pm_wal pm3 = wal_exec (WAppend e' now') (pm_wal pm2)" "pm_snapshots pm3 = pm_snapshots pm1"
    by (simp_all add: pm3_def pm_recordChange_def pm2 case_prod_beta)
  have ent3: "map snd (wal_entries (pm_wal pm3)) = [e'\<lparr>we_sequence := 1, we_timestampUs := now'\<rparr>]"
    using A(2) inv2 pm3(1) by (simp add: wal_abs_def)
  have inv3: "wal_inv (pm_wal pm3)" using A(1) pm3(1) by simp
  have holds: "sm_holds (pm_snapshots pm3) ss" "\<forall>s\<in>set ss. sn_small s"
    using F(1) pm3(2) by (simp_all add: pm_ok_def)
  obtain dir where st3: "wal_syncOnWrite (pm_wal pm3)" "sm_open (pm_snapshots pm3)" "sm_dir (pm_snapshots pm3) = Some dir"
    using inv3 holds(1) by (auto simp: wal_inv_def sm_holds_def)
  have "list_all we_small (pm_entries pm3)" using inv3 by (auto simp: wal_inv_def list_all_iff)
  from restart_frames(1) [OF this readEntries_Nil]
  have es: "map snd (wal_entries (wal_restart (wal_bytes (pm_wal pm3)))) = pm_entries pm3"
    using inv3 by (simp add: wal_inv_def wal_bytes_def)
  have ss: "ss \<noteq> []" "sn_walSequence (last ss) = 1" using F(3) by (auto simp: snapSeq_def split: if_splits)
  have "restorer (last ss) w0 = wa" using F(1,2) ss by (simp add: pm_ok_def snapBase_def)
  then have "fst (snd (pm_crashAndStart collector restorer applier w0 [] pm3)) = wa"
    using ss by (simp add: pm_crashAndStart_eq [OF st3] loadLatest_holds [OF holds] es ent3 Let_def)
  then show ?thesis
    using ex ex1 st2 w2 ack by (simp add: boot(1) pm3_def del: pm_exec.simps length_walFrame)
qed

theorem persistence_restart_loses_changes_witness:
  "case fold (pm_exec byteApplier byteCollector) [PmChange (demoEntry [1, 2]) 10, PmSnapshot 500]
        (snd (snd (pm_boot byteCollector byteRestorer byteApplier 3 0)), 0) of
      (pm1, w1) \<Rightarrow>
        (case pm_crashAndStart byteCollector byteRestorer byteApplier 0 [] pm1 of
          (r2, w2, pm2) \<Rightarrow>
            r2 = Inr () \<and> w2 = w1 \<and>
            fst (pm_recordChange (demoEntry [3]) 11 True (length (walFrame (demoEntry [3]))) pm2) = Inr 1 \<and>
            fst (snd (pm_crashAndStart byteCollector byteRestorer byteApplier 0 []
              (snd (pm_recordChange (demoEntry [3]) 11 True (length (walFrame (demoEntry [3]))) pm2)))) = w1)"
  by (rule persistence_restart_loses_changes [OF byte_laws]) (simp_all add: we_small_def demoEntry_def)

end
