(* ===== verification/Circuit_Breaker.thy ===== *)
theory Circuit_Breaker
  imports Foundation
begin

text \<open>
  The service circuit breaker (\<^verbatim>\<open>service/circuit_breaker.hpp\<close>,
  \<^verbatim>\<open>services/runner/circuit_breaker.cpp\<close>). Times are readings of the steady clock in
  nanoseconds and arguments of the operations that read it; every method holds the mutex for its
  whole body and is one step.
\<close>

section \<open>The state machine\<close>

record CircuitBreakerConfig =
  cbc_failureThreshold :: u32
  cbc_recoveryTimeout :: int
  cbc_successThreshold :: u32
  cbc_name :: string

definition defaultCircuitBreakerConfig :: CircuitBreakerConfig where
  "defaultCircuitBreakerConfig = \<lparr>cbc_failureThreshold = 5, cbc_recoveryTimeout = 30,
     cbc_successThreshold = 2, cbc_name = ''default''\<rparr>"

datatype CbState = CbClosed | CbOpen | CbHalfOpen

definition cbStateName :: "CbState \<Rightarrow> string" where
  "cbStateName s = (case s of CbClosed \<Rightarrow> ''closed'' | CbOpen \<Rightarrow> ''open'' | CbHalfOpen \<Rightarrow> ''half_open'')"

record CircuitBreaker =
  cb_config :: CircuitBreakerConfig
  cb_state :: CbState
  cb_consecutiveFailures :: u32
  cb_halfOpenSuccesses :: u32
  cb_totalRejected :: u64
  cb_lastFailureTime :: int

definition mkCircuitBreaker :: "CircuitBreakerConfig \<Rightarrow> CircuitBreaker" where
  "mkCircuitBreaker config = \<lparr>cb_config = config, cb_state = CbClosed, cb_consecutiveFailures = 0,
     cb_halfOpenSuccesses = 0, cb_totalRejected = 0, cb_lastFailureTime = 0\<rparr>"

text \<open>\<open>now\<close> is the clock reading on entering the open state.\<close>

definition cb_transitionTo :: "CbState \<Rightarrow> int \<Rightarrow> CircuitBreaker \<Rightarrow> CircuitBreaker" where
  "cb_transitionTo newState now cb =
    (let cb1 = cb\<lparr>cb_state := newState\<rparr>
     in case newState of
          CbClosed \<Rightarrow> cb1\<lparr>cb_consecutiveFailures := 0, cb_halfOpenSuccesses := 0\<rparr>
        | CbOpen \<Rightarrow> cb1\<lparr>cb_lastFailureTime := now\<rparr>
        | CbHalfOpen \<Rightarrow> cb1\<lparr>cb_halfOpenSuccesses := 0\<rparr>)"

text \<open>The recovery timeout is configured in seconds.\<close>

definition cb_timeoutNs :: "CircuitBreaker \<Rightarrow> int" where
  "cb_timeoutNs cb = cbc_recoveryTimeout (cb_config cb) * 1000000000"

definition cb_allowRequest :: "int \<Rightarrow> CircuitBreaker \<Rightarrow> bool \<times> CircuitBreaker" where
  "cb_allowRequest now cb =
    (case cb_state cb of
       CbClosed \<Rightarrow> (True, cb)
     | CbOpen \<Rightarrow>
         if now - cb_lastFailureTime cb \<ge> cb_timeoutNs cb
         then (True, cb_transitionTo CbHalfOpen now cb)
         else (False, cb\<lparr>cb_totalRejected := cb_totalRejected cb + 1\<rparr>)
     | CbHalfOpen \<Rightarrow> (True, cb))"

text \<open>Closing reads no clock: the time argument of the transition is not used.\<close>

definition cb_recordSuccess :: "CircuitBreaker \<Rightarrow> CircuitBreaker" where
  "cb_recordSuccess cb =
    (case cb_state cb of
       CbClosed \<Rightarrow> cb\<lparr>cb_consecutiveFailures := 0\<rparr>
     | CbHalfOpen \<Rightarrow>
         (let cb1 = cb\<lparr>cb_halfOpenSuccesses := cb_halfOpenSuccesses cb + 1\<rparr>
          in if cb_halfOpenSuccesses cb1 \<ge> cbc_successThreshold (cb_config cb1)
             then cb_transitionTo CbClosed 0 cb1 else cb1)
     | CbOpen \<Rightarrow> cb)"

text \<open>The clock is read on entry (\<open>now\<close>) and again when the open state is entered (\<open>now'\<close>).\<close>

definition cb_recordFailure :: "int \<Rightarrow> int \<Rightarrow> CircuitBreaker \<Rightarrow> CircuitBreaker" where
  "cb_recordFailure now now' cb =
    (let cb1 = cb\<lparr>cb_lastFailureTime := now\<rparr>
     in case cb_state cb1 of
       CbClosed \<Rightarrow>
         (let cb2 = cb1\<lparr>cb_consecutiveFailures := cb_consecutiveFailures cb1 + 1\<rparr>
          in if cb_consecutiveFailures cb2 \<ge> cbc_failureThreshold (cb_config cb2)
             then cb_transitionTo CbOpen now' cb2 else cb2)
     | CbHalfOpen \<Rightarrow> cb_transitionTo CbOpen now' cb1
     | CbOpen \<Rightarrow> cb1)"

definition cb_forceState :: "CbState \<Rightarrow> int \<Rightarrow> CircuitBreaker \<Rightarrow> CircuitBreaker" where
  "cb_forceState newState now cb = cb_transitionTo newState now cb"

definition cb_reset :: "CircuitBreaker \<Rightarrow> CircuitBreaker" where
  "cb_reset cb = cb\<lparr>cb_state := CbClosed, cb_consecutiveFailures := 0, cb_halfOpenSuccesses := 0,
     cb_totalRejected := 0, cb_lastFailureTime := 0\<rparr>"

lemmas cb_defs = cb_allowRequest_def cb_recordSuccess_def cb_recordFailure_def cb_transitionTo_def
  cb_forceState_def cb_timeoutNs_def Let_def

section \<open>Runs\<close>

text \<open>The calls a client makes, with the clock readings. The outcome of a call is recorded by
  \<open>CbSuccess\<close> or \<open>CbFailure\<close>.\<close>

datatype CbEvent = CbAllow int | CbSuccess | CbFailure int int

fun cb_event :: "CbEvent \<Rightarrow> CircuitBreaker \<Rightarrow> CircuitBreaker" where
  "cb_event (CbAllow now) cb = snd (cb_allowRequest now cb)"
| "cb_event CbSuccess cb = cb_recordSuccess cb"
| "cb_event (CbFailure now now') cb = cb_recordFailure now now' cb"

definition cb_run :: "CbEvent list \<Rightarrow> CircuitBreaker \<Rightarrow> CircuitBreaker" where
  "cb_run es cb = fold cb_event es cb"

lemma cb_run_simps [simp]:
  "cb_run [] cb = cb" "cb_run (e # es) cb = cb_run es (cb_event e cb)"
  "cb_run (es @ [e]) cb = cb_event e (cb_run es cb)"
  by (simp_all add: cb_run_def)

lemma cb_config_event [simp]: "cb_config (cb_event e cb) = cb_config cb"
  by (cases e) (auto simp: cb_defs split: CbState.splits)

lemma cb_config_run [simp]: "cb_config (cb_run es cb) = cb_config cb"
  by (induction es arbitrary: cb) simp_all

fun is_failure :: "CbEvent \<Rightarrow> bool" where
  "is_failure (CbFailure _ _) = True"
| "is_failure _ = False"

text \<open>The number of failures since the last success.\<close>

definition failureStreak :: "CbEvent list \<Rightarrow> nat" where
  "failureStreak es = length (filter is_failure (takeWhile (\<lambda>e. e \<noteq> CbSuccess) (rev es)))"

lemma failureStreak_snoc [simp]:
  "failureStreak [] = 0" "failureStreak (es @ [CbSuccess]) = 0"
  "failureStreak (es @ [CbAllow now]) = failureStreak es"
  "failureStreak (es @ [CbFailure now now']) = Suc (failureStreak es)"
  by (simp_all add: failureStreak_def)

text \<open>As long as the breaker has not opened, its counter is the current streak of failures; it has
  opened as soon as some prefix ended in a streak of the threshold's length.\<close>

lemma cb_closed_counter:
  assumes "0 < cbc_failureThreshold cfg"
  shows "(if \<forall>k\<le>length es. failureStreak (take k es) < unat (cbc_failureThreshold cfg)
     then cb_state (cb_run es (mkCircuitBreaker cfg)) = CbClosed \<and>
       unat (cb_consecutiveFailures (cb_run es (mkCircuitBreaker cfg))) = failureStreak es
     else \<exists>k\<le>length es. cb_state (cb_run (take k es) (mkCircuitBreaker cfg)) = CbOpen)"
proof (induction es rule: rev_induct)
  case Nil
  then show ?case using assms by (simp add: mkCircuitBreaker_def word_less_nat_alt)
next
  case (snoc e es)
  let ?n = "unat (cbc_failureThreshold cfg)" and ?cb = "cb_run es (mkCircuitBreaker cfg)"
  have prefixes: "(\<forall>k\<le>length (es @ [e]). failureStreak (take k (es @ [e])) < ?n) \<longleftrightarrow>
      (\<forall>k\<le>length es. failureStreak (take k es) < ?n) \<and> failureStreak (es @ [e]) < ?n"
    by (auto simp: le_Suc_eq all_conj_distrib imp_conjR simp flip: not_less_eq_eq)
  have cfg: "cb_config ?cb = cfg" by (simp add: mkCircuitBreaker_def)
  show ?case
  proof (cases "\<forall>k\<le>length es. failureStreak (take k es) < ?n")
    case False
    then obtain k where "k \<le> length es" "cb_state (cb_run (take k es) (mkCircuitBreaker cfg)) = CbOpen"
      using snoc.IH by (simp only: if_False) blast
    then have "\<exists>k\<le>length (es @ [e]). cb_state (cb_run (take k (es @ [e])) (mkCircuitBreaker cfg)) = CbOpen"
      by (intro exI [of _ k]) simp
    moreover have "\<not> (\<forall>k\<le>length (es @ [e]). failureStreak (take k (es @ [e])) < ?n)"
      using False prefixes by blast
    ultimately show ?thesis by (simp only: if_False)
  next
    case True
    then have closed: "cb_state ?cb = CbClosed" "unat (cb_consecutiveFailures ?cb) = failureStreak es"
      using snoc.IH by auto
    have s: "failureStreak es < ?n" using True by (metis order_refl take_all)
    have wrap: "unat (cb_consecutiveFailures ?cb + 1) = Suc (failureStreak es)"
      using closed(2) s unat_lt_u32 [of "cbc_failureThreshold cfg"] by (subst unat_plus_1) simp_all
    show ?thesis
    proof (cases "failureStreak (es @ [e]) < ?n")
      case True
      then show ?thesis
        using prefixes closed s wrap cfg \<open>\<forall>k\<le>length es. _\<close>
        by (cases e) (auto simp: cb_defs word_le_nat_alt)
    next
      case False
      then obtain now now' where e: "e = CbFailure now now'" using s by (cases e) auto
      have "cb_state (cb_run (es @ [e]) (mkCircuitBreaker cfg)) = CbOpen"
        using False closed wrap cfg by (simp add: e cb_defs word_le_nat_alt)
      then have "\<exists>k\<le>length (es @ [e]). cb_state (cb_run (take k (es @ [e])) (mkCircuitBreaker cfg)) = CbOpen"
        by (intro exI [of _ "length (es @ [e])"]) simp
      moreover have "\<not> (\<forall>k\<le>length (es @ [e]). failureStreak (take k (es @ [e])) < ?n)"
        using False prefixes by blast
      ultimately show ?thesis by (simp only: if_False)
    qed
  qed
qed

text \<open>While open, outcomes do not change the state.\<close>

lemma cb_outcome_open:
  "cb_state cb = CbOpen \<Longrightarrow> (\<forall>now. e \<noteq> CbAllow now) \<Longrightarrow> cb_state (cb_event e cb) = CbOpen"
  by (cases e) (auto simp: cb_defs)

text \<open>The reading that opened the breaker, or that of a later failure, is that of a recorded failure.\<close>

fun failureTimes :: "CbEvent \<Rightarrow> int set" where
  "failureTimes (CbFailure now now') = {now, now'}"
| "failureTimes _ = {}"

lemma cb_open_failure:
  assumes "cb_state (cb_run es (mkCircuitBreaker cfg)) = CbOpen"
  shows "cb_lastFailureTime (cb_run es (mkCircuitBreaker cfg)) \<in> \<Union> (failureTimes ` set es)"
  using assms
proof (induction es rule: rev_induct)
  case (snoc e es)
  then show ?case
    by (cases e) (auto simp: cb_defs split: CbState.splits if_splits)
qed (simp add: mkCircuitBreaker_def)

text \<open>The half-open counter is bounded by the threshold.\<close>

lemma cb_halfopen_successes:
  assumes "cb_state cb = CbHalfOpen" "cb_halfOpenSuccesses cb = 0" "0 < cbc_successThreshold (cb_config cb)"
    "k < unat (cbc_successThreshold (cb_config cb))"
  shows "cb_state (cb_run (replicate k CbSuccess) cb) = CbHalfOpen \<and>
    unat (cb_halfOpenSuccesses (cb_run (replicate k CbSuccess) cb)) = k"
  using assms(4)
proof (induction k)
  case 0
  then show ?case using assms by simp
next
  case (Suc k)
  let ?cb = "cb_run (replicate k CbSuccess) cb"
  have IH: "cb_state ?cb = CbHalfOpen" "unat (cb_halfOpenSuccesses ?cb) = k" using Suc by auto
  have "unat (cb_halfOpenSuccesses ?cb + 1) = Suc k"
    using IH(2) Suc.prems unat_lt_u32 [of "cbc_successThreshold (cb_config cb)"]
    by (subst unat_plus_1) simp_all
  moreover have "replicate (Suc k) CbSuccess = replicate k CbSuccess @ [CbSuccess]"
    by (simp add: replicate_append_same)
  ultimately show ?case
    using IH Suc.prems by (simp add: cb_defs word_le_nat_alt del: replicate.simps)
qed

section \<open>Properties\<close>

text \<open>When the breaker opens. From a new breaker with a threshold of at least one, and for every
  sequence of requests and recorded outcomes: the breaker has never been open exactly when no
  success-free streak of failures has reached the threshold, and then it is closed, its
  counter is the length of the current streak, and the next request is let through.\<close>

theorem circuit_breaker_opens:
  assumes "0 < cbc_failureThreshold cfg"
  shows "((\<forall>k\<le>length es. cb_state (cb_run (take k es) (mkCircuitBreaker cfg)) \<noteq> CbOpen) \<longleftrightarrow>
      (\<forall>k\<le>length es. failureStreak (take k es) < unat (cbc_failureThreshold cfg))) \<and>
    ((\<forall>k\<le>length es. failureStreak (take k es) < unat (cbc_failureThreshold cfg)) \<longrightarrow>
      cb_state (cb_run es (mkCircuitBreaker cfg)) = CbClosed \<and>
      unat (cb_consecutiveFailures (cb_run es (mkCircuitBreaker cfg))) = failureStreak es \<and>
      fst (cb_allowRequest now (cb_run es (mkCircuitBreaker cfg))))"
proof -
  let ?n = "unat (cbc_failureThreshold cfg)"
  have closed: "cb_state (cb_run (take k es) (mkCircuitBreaker cfg)) = CbClosed"
    if streaks: "\<forall>k\<le>length es. failureStreak (take k es) < ?n" and k: "k \<le> length es" for k
  proof -
    have "\<forall>j\<le>length (take k es). failureStreak (take j (take k es)) < ?n"
      using streaks k by (auto simp: min_def)
    with cb_closed_counter [OF assms, of "take k es"] show ?thesis by simp
  qed
  have iff: "(\<forall>k\<le>length es. cb_state (cb_run (take k es) (mkCircuitBreaker cfg)) \<noteq> CbOpen) \<longleftrightarrow>
      (\<forall>k\<le>length es. failureStreak (take k es) < ?n)"
    using closed cb_closed_counter [OF assms, of es] by (metis CbState.distinct(1))
  show ?thesis
  proof (intro conjI impI iff)
    assume "\<forall>k\<le>length es. failureStreak (take k es) < ?n"
    with cb_closed_counter [OF assms, of es]
    show st: "cb_state (cb_run es (mkCircuitBreaker cfg)) = CbClosed"
      and "unat (cb_consecutiveFailures (cb_run es (mkCircuitBreaker cfg))) = failureStreak es"
      by simp_all
    show "fst (cb_allowRequest now (cb_run es (mkCircuitBreaker cfg)))"
      using st by (simp add: cb_allowRequest_def)
  qed
qed

theorem circuit_breaker_opens_witness:
  "cb_state (cb_run [CbFailure 1 1, CbAllow 2, CbFailure 3 3, CbSuccess, CbFailure 4 4, CbFailure 5 5]
     (mkCircuitBreaker (defaultCircuitBreakerConfig\<lparr>cbc_failureThreshold := 3\<rparr>))) = CbClosed"
proof -
  let ?es = "[CbFailure 1 1, CbAllow 2, CbFailure 3 3, CbSuccess, CbFailure 4 4, CbFailure 5 5]"
  have "\<forall>k\<in>set [0..<7]. failureStreak (take k ?es) < 3" by code_simp
  then have "\<forall>k\<le>length ?es. failureStreak (take k ?es) < unat (3 :: u32)" by auto
  with circuit_breaker_opens [of "defaultCircuitBreakerConfig\<lparr>cbc_failureThreshold := 3\<rparr>" ?es 9]
  show ?thesis by simp
qed

text \<open>(C37) Recovery. An open breaker rejects every request, counting it, until the recovery timeout has
  passed since the last failure; the first request after that is let through and half-opens it.
  From then on it stays half-open for fewer successes than the threshold, closes with cleared
  counters at the threshold, and re-opens at once, with a new timeout, at the first failure.\<close>

theorem circuit_breaker_recovery:
  assumes "cb_state cb = CbOpen" "0 < cbc_successThreshold (cb_config cb)"
    and "k < unat (cbc_successThreshold (cb_config cb))"
  shows "(now < cb_lastFailureTime cb + cb_timeoutNs cb \<longrightarrow>
      cb_allowRequest now cb = (False, cb\<lparr>cb_totalRejected := cb_totalRejected cb + 1\<rparr>)) \<and>
    (cb_lastFailureTime cb + cb_timeoutNs cb \<le> now \<longrightarrow>
      fst (cb_allowRequest now cb) \<and>
      cb_state (cb_run (replicate k CbSuccess) (snd (cb_allowRequest now cb))) = CbHalfOpen \<and>
      (let closed = cb_run (replicate (unat (cbc_successThreshold (cb_config cb))) CbSuccess)
                      (snd (cb_allowRequest now cb))
       in cb_state closed = CbClosed \<and> cb_consecutiveFailures closed = 0 \<and> cb_halfOpenSuccesses closed = 0) \<and>
      (let reopened = cb_run (replicate k CbSuccess @ [CbFailure t t']) (snd (cb_allowRequest now cb))
       in cb_state reopened = CbOpen \<and> cb_lastFailureTime reopened = t'))"
proof -
  have reject: "cb_allowRequest now cb = (False, cb\<lparr>cb_totalRejected := cb_totalRejected cb + 1\<rparr>)"
    if "now < cb_lastFailureTime cb + cb_timeoutNs cb"
    using that assms(1) by (simp add: cb_allowRequest_def)
  let ?n = "unat (cbc_successThreshold (cb_config cb))"
  define half where "half = snd (cb_allowRequest now cb)"
  have allowed: "fst (cb_allowRequest now cb)" "cb_state half = CbHalfOpen" "cb_halfOpenSuccesses half = 0"
    "cb_config half = cb_config cb"
    if "cb_lastFailureTime cb + cb_timeoutNs cb \<le> now"
    using that assms(1) by (simp_all add: half_def cb_allowRequest_def cb_transitionTo_def Let_def)
  have succ: "cb_state (cb_run (replicate j CbSuccess) half) = CbHalfOpen \<and>
      unat (cb_halfOpenSuccesses (cb_run (replicate j CbSuccess) half)) = j"
    if "cb_lastFailureTime cb + cb_timeoutNs cb \<le> now" "j < ?n" for j
    using cb_halfopen_successes [of half j] allowed [OF that(1)] that(2) assms(2) by simp
  obtain m where m: "?n = Suc m" using assms(3) by (cases ?n) auto
  have last: "cb_state closed = CbClosed \<and> cb_consecutiveFailures closed = 0 \<and> cb_halfOpenSuccesses closed = 0"
    if late: "cb_lastFailureTime cb + cb_timeoutNs cb \<le> now"
      and c: "closed = cb_run (replicate ?n CbSuccess) half" for closed
  proof -
    have "replicate ?n CbSuccess = replicate m CbSuccess @ [CbSuccess]"
      by (simp only: m replicate_Suc replicate_append_same)
    moreover have "unat (cb_halfOpenSuccesses (cb_run (replicate m CbSuccess) half) + 1) = ?n"
      using succ [OF late, of m] m unat_lt_u32 [of "cbc_successThreshold (cb_config cb)"]
      by (subst unat_plus_1) simp_all
    ultimately show ?thesis
      using succ [OF late, of m] m allowed(4) [OF late] by (simp add: c cb_defs word_le_nat_alt)
  qed
  show ?thesis
    using reject allowed succ [OF _ assms(3)] last
    by (auto simp: cb_recordFailure_def cb_transitionTo_def Let_def simp flip: half_def)
qed

theorem circuit_breaker_recovery_witness:
  "cb_state (cb_run (replicate 2 CbSuccess) (snd (cb_allowRequest 30000000007
     (cb_forceState CbOpen 7 (mkCircuitBreaker defaultCircuitBreakerConfig))))) = CbClosed"
  using circuit_breaker_recovery
    [of "cb_forceState CbOpen 7 (mkCircuitBreaker defaultCircuitBreakerConfig)" 1 30000000007]
  by (simp add: cb_forceState_def cb_transitionTo_def mkCircuitBreaker_def
      defaultCircuitBreakerConfig_def cb_timeoutNs_def Let_def)

text \<open>The breaker rejects only after a failure. If after any sequence of calls on a new breaker a
  request is rejected, some recorded failure lies less than the recovery timeout back.\<close>

theorem circuit_breaker_rejects_only_after_failure:
  assumes "\<not> fst (cb_allowRequest now (cb_run es (mkCircuitBreaker cfg)))"
  shows "\<exists>e\<in>set es. \<exists>t\<in>failureTimes e. now < t + cbc_recoveryTimeout cfg * 1000000000"
proof -
  let ?cb = "cb_run es (mkCircuitBreaker cfg)"
  have "cb_state ?cb = CbOpen" and "now < cb_lastFailureTime ?cb + cbc_recoveryTimeout (cb_config ?cb) * 1000000000"
    using assms by (auto simp: cb_allowRequest_def cb_timeoutNs_def split: CbState.splits if_splits)
  with cb_open_failure [of es cfg] show ?thesis by (auto simp: mkCircuitBreaker_def)
qed

theorem circuit_breaker_rejects_only_after_failure_witness:
  "\<exists>e\<in>set [CbFailure 1 2]. \<exists>t\<in>failureTimes e.
     3 < t + cbc_recoveryTimeout (defaultCircuitBreakerConfig\<lparr>cbc_failureThreshold := 1\<rparr>) * 1000000000"
  by (rule circuit_breaker_rejects_only_after_failure)
     (simp add: cb_defs mkCircuitBreaker_def defaultCircuitBreakerConfig_def)

end
