(* ===== verification/Lobby_Elo.thy ===== *)
theory Lobby_Elo
  imports Foundation Ieee_Float
begin

text \<open>
  The types of the lobby (\<^verbatim>\<open>service/lobby_types.hpp\<close>) and the rating arithmetic
  (\<^verbatim>\<open>service/elo_calculator.hpp\<close>, \<^verbatim>\<open>services/lobby/elo_calculator.cpp\<close>). A
  \<^verbatim>\<open>int32_t\<close> rating is an \<open>int\<close>: the differences and sums the code forms are within range for
  ratings below one billion, and out of range they are undefined in C++. Single and double
  precision arithmetic is rounded as in \<open>Ieee_Float\<close>; the functions of the mathematical library
  (\<^verbatim>\<open>std::pow\<close>, \<^verbatim>\<open>std::exp\<close>, \<^verbatim>\<open>std::sqrt\<close>), whose results the standard
  leaves to the implementation, are arguments, with \<open>None\<close> for an infinite result.
\<close>

section \<open>Types\<close>

datatype GameMode = Duel | Arena | Battleground | Dungeon | Raid

datatype Region = Any | NAEast | NAWest | EU | Asia | Oceania

record PlayerRating =
  pr_mmr :: int
  pr_uncertainty :: rat
  pr_gamesPlayed :: u32

definition defaultPlayerRating :: PlayerRating where
  "defaultPlayerRating = \<lparr>pr_mmr = 1500, pr_uncertainty = 350, pr_gamesPlayed = 0\<rparr>"

record MatchmakingTicket =
  mt_playerId :: u64
  mt_rating :: PlayerRating
  mt_mode :: GameMode
  mt_region :: Region
  mt_enqueuedAt :: int

record MatchResult =
  mr_matchId :: u64
  mr_players :: "MatchmakingTicket list"
  mr_averageRating :: rat
  mr_matchQuality :: rat

record QueueConfig =
  qc_minPlayersPerMatch :: u32
  qc_maxPlayersPerMatch :: u32
  qc_initialRatingTolerance :: int
  qc_maxRatingTolerance :: int
  qc_expansionStep :: int
  qc_expansionInterval :: int
  qc_maxQueueSize :: u32

definition defaultQueueConfig :: QueueConfig where
  "defaultQueueConfig = \<lparr>qc_minPlayersPerMatch = 2, qc_maxPlayersPerMatch = 2,
     qc_initialRatingTolerance = 100, qc_maxRatingTolerance = 500, qc_expansionStep = 50,
     qc_expansionInterval = 10, qc_maxQueueSize = 10000\<rparr>"

section \<open>Ratings\<close>

definition expectedScore :: "(rat \<Rightarrow> rat \<Rightarrow> rat option) \<Rightarrow> int \<Rightarrow> int \<Rightarrow> rat" where
  "expectedScore powf ratingA ratingB =
    (let exponent = f32 (f32 (of_int (ratingB - ratingA)) / 400)
     in case powf 10 exponent of
          None \<Rightarrow> 0
        | Some p \<Rightarrow> f32 (1 / f32 (1 + p)))"

text \<open>\<^verbatim>\<open>std::round\<close>: to the nearest integer, halves away from zero.\<close>

definition roundAway :: "rat \<Rightarrow> int" where
  "roundAway q = (if 0 \<le> q then floor (q + 1 / 2) else - floor (- q + 1 / 2))"

definition newRating :: "int \<Rightarrow> rat \<Rightarrow> rat \<Rightarrow> int \<Rightarrow> int" where
  "newRating currentRating actualScore expected kFactor =
    (let delta = f32 (f32 (of_int kFactor) * f32 (actualScore - expected))
     in currentRating + roundAway delta)"

definition matchQuality :: "(rat \<Rightarrow> rat) \<Rightarrow> (rat \<Rightarrow> rat) \<Rightarrow> int list \<Rightarrow> rat" where
  "matchQuality sqrtd expf ratings =
    (if length ratings < 2 then 1
     else let total = foldl (\<lambda>acc r. f64 (acc + of_int r)) 0 ratings;
              avg = f64 (total / of_nat (length ratings));
              sqSum = foldl (\<lambda>acc r. let diff = f64 (of_int r - avg) in f64 (acc + f64 (diff * diff))) 0 ratings;
              stddev = sqrtd (f64 (sqSum / of_nat (length ratings)));
              quality = expf (f32 (f64 (- stddev / 200)))
          in if quality < 0 then 0 else if 1 < quality then 1 else quality)"

definition isWithinTolerance :: "int \<Rightarrow> int \<Rightarrow> int \<Rightarrow> bool" where
  "isWithinTolerance ratingA ratingB tolerance \<longleftrightarrow> \<bar>ratingA - ratingB\<bar> \<le> tolerance"

definition suggestedKFactor :: "u32 \<Rightarrow> int" where
  "suggestedKFactor gamesPlayed =
    (if gamesPlayed < 30 then 40 else if gamesPlayed < 100 then 32 else 16)"

definition updateRatings ::
  "(rat \<Rightarrow> rat \<Rightarrow> rat option) \<Rightarrow> PlayerRating \<Rightarrow> PlayerRating \<Rightarrow> PlayerRating \<times> PlayerRating" where
  "updateRatings powf winnerRating loserRating =
    (let expectedWin = expectedScore powf (pr_mmr winnerRating) (pr_mmr loserRating);
         expectedLoss = expectedScore powf (pr_mmr loserRating) (pr_mmr winnerRating);
         kWinner = suggestedKFactor (pr_gamesPlayed winnerRating);
         kLoser = suggestedKFactor (pr_gamesPlayed loserRating)
     in (winnerRating\<lparr>pr_mmr := newRating (pr_mmr winnerRating) 1 expectedWin kWinner,
                     pr_gamesPlayed := pr_gamesPlayed winnerRating + 1\<rparr>,
         loserRating\<lparr>pr_mmr := newRating (pr_mmr loserRating) 0 expectedLoss kLoser,
                    pr_gamesPlayed := pr_gamesPlayed loserRating + 1\<rparr>))"

section \<open>Bounds\<close>

lemma expectedScore_unit:
  assumes "\<forall>x p. powf 10 x = Some p \<longrightarrow> 0 \<le> p"
  shows "0 \<le> expectedScore powf a b \<and> expectedScore powf a b \<le> 1"
proof (cases "powf 10 (f32 (f32 (of_int (b - a)) / 400))")
  case None
  then show ?thesis by (simp add: expectedScore_def Let_def)
next
  case (Some p)
  then have "1 \<le> f32 (1 + p)" using assms by (intro f32_ge) auto
  then have "0 \<le> 1 / f32 (1 + p)" "1 / f32 (1 + p) \<le> 1" by auto
  then show ?thesis
    using Some f32_nonneg f32_le [of 1] by (auto simp: expectedScore_def Let_def)
qed

lemma scaled_bounds:
  assumes "0 \<le> x" "x \<le> 1" "0 \<le> k" "k < 2 ^ 24"
  shows "0 \<le> roundAway (f32 (f32 (of_int k) * f32 x))" "roundAway (f32 (f32 (of_int k) * f32 x)) \<le> k"
proof -
  have k: "is_f32 (of_int k)" using assms by (intro is_f32_int) auto
  have x: "0 \<le> f32 x" "f32 x \<le> 1" using assms f32_nonneg f32_le [of 1] by auto
  have "0 \<le> of_int k * f32 x" "of_int k * f32 x \<le> of_int k"
    using x assms(3) by (auto intro: mult_left_le)
  then have d: "0 \<le> f32 (f32 (of_int k) * f32 x)" "f32 (f32 (of_int k) * f32 x) \<le> of_int k"
    using k f32_nonneg f32_le [OF k] by auto
  then show "0 \<le> roundAway (f32 (f32 (of_int k) * f32 x))" by (simp add: roundAway_def)
  show "roundAway (f32 (f32 (of_int k) * f32 x)) \<le> k"
    using d by (simp add: roundAway_def floor_le_iff)
qed

lemma roundAway_uminus: "roundAway (- q) = - roundAway q"
proof (cases "q = 0")
  case True
  have "floor (1 / 2 :: rat) = 0" by (simp add: floor_unique)
  with True show ?thesis by (simp add: roundAway_def)
qed (simp add: roundAway_def)

lemma suggestedKFactor_range: "0 \<le> suggestedKFactor g" "suggestedKFactor g < 2 ^ 24" "suggestedKFactor g \<le> 40"
  by (auto simp: suggestedKFactor_def)

section \<open>Properties\<close>

text \<open>A game changes ratings in the right direction and by at most the K-factor: the winner's
  rating does not fall and rises by at most the winner's K-factor, the loser's does not rise
  and falls by at most the loser's, whatever the ratings, as long as the library's power
  function returns no negative number.\<close>

theorem rating_update_bounded:
  assumes "\<forall>x p. powf 10 x = Some p \<longrightarrow> 0 \<le> p"
  shows "case updateRatings powf w l of (w', l') \<Rightarrow>
    pr_mmr w \<le> pr_mmr w' \<and> pr_mmr w' \<le> pr_mmr w + suggestedKFactor (pr_gamesPlayed w) \<and>
    pr_mmr l' \<le> pr_mmr l \<and> pr_mmr l - suggestedKFactor (pr_gamesPlayed l) \<le> pr_mmr l'"
proof -
  let ?ew = "expectedScore powf (pr_mmr w) (pr_mmr l)" and ?el = "expectedScore powf (pr_mmr l) (pr_mmr w)"
  have "0 \<le> 1 - ?ew" "1 - ?ew \<le> 1" using expectedScore_unit [of powf "pr_mmr w" "pr_mmr l"] assms by auto
  note W = scaled_bounds [OF this suggestedKFactor_range(1,2) [of "pr_gamesPlayed w"]]
  have "0 \<le> ?el" "?el \<le> 1" using expectedScore_unit [of powf "pr_mmr l" "pr_mmr w"] assms by auto
  note L = scaled_bounds [OF this suggestedKFactor_range(1,2) [of "pr_gamesPlayed l"]]
  show ?thesis
    using W L by (simp add: updateRatings_def newRating_def Let_def f32_uminus roundAway_uminus)
qed

theorem rating_update_bounded_witness:
  "case updateRatings (\<lambda>b x. Some 1) defaultPlayerRating defaultPlayerRating of (w', l') \<Rightarrow>
     1500 \<le> pr_mmr w' \<and> pr_mmr w' \<le> 1540 \<and> pr_mmr l' \<le> 1500 \<and> 1460 \<le> pr_mmr l'"
  using rating_update_bounded [of "\<lambda>b x. Some 1" defaultPlayerRating defaultPlayerRating]
  by (simp add: defaultPlayerRating_def suggestedKFactor_def)

end
