(* ===== verification/Matchmaking_Queue.thy ===== *)
theory Matchmaking_Queue
  imports Lobby_Elo "HOL-Library.Multiset" "HOL-Library.Signed_Division"
begin

text \<open>
  The matchmaking queue (\<^verbatim>\<open>service/matchmaking_queue.hpp\<close>,
  \<^verbatim>\<open>services/lobby/matchmaking_queue.cpp\<close>): a vector of tickets with an index from players
  to positions, removal by swapping with the last ticket, and the search for a match. Every
  public method holds the mutex for its whole body and is one step. The clock readings of the
  search are an argument: \<open>clock a i\<close> is the reading for ticket \<open>i\<close> while ticket \<open>a\<close> is the
  anchor, in nanoseconds.
\<close>

section \<open>The queue\<close>

record MatchmakingQueue =
  mq_config :: QueueConfig
  mq_tickets :: "MatchmakingTicket list"
  mq_playerIndex :: "(u64, nat) umap"
  mq_nextMatchId :: u64

definition mkMatchmakingQueue :: "QueueConfig \<Rightarrow> MatchmakingQueue" where
  "mkMatchmakingQueue config =
     \<lparr>mq_config = config, mq_tickets = [], mq_playerIndex = [], mq_nextMatchId = 1\<rparr>"

definition mq_enqueue :: "MatchmakingTicket \<Rightarrow> MatchmakingQueue \<Rightarrow> unit GameResult \<times> MatchmakingQueue" where
  "mq_enqueue ticket q =
    (if length (mq_tickets q) \<ge> unat (qc_maxQueueSize (mq_config q))
     then (err QueueFull ''Matchmaking queue is full'', q)
     else if map_of (mq_playerIndex q) (mt_playerId ticket) \<noteq> None
     then (err AlreadyInQueue ''Player is already in the matchmaking queue'', q)
     else (Inr (), q\<lparr>mq_playerIndex := AList.update (mt_playerId ticket) (length (mq_tickets q)) (mq_playerIndex q),
                     mq_tickets := mq_tickets q @ [ticket]\<rparr>))"

text \<open>Removal at a position: the last ticket takes its place. \<open>dequeue\<close> and the removal loop of
  \<open>tryMatch\<close> have the same body.\<close>

definition mq_removeAt :: "nat \<Rightarrow> MatchmakingQueue \<Rightarrow> MatchmakingQueue" where
  "mq_removeAt idx q =
    (let tickets = mq_tickets q;
         lastIdx = length tickets - 1;
         pid = mt_playerId (tickets ! idx);
         swapped = (if idx \<noteq> lastIdx then tickets[idx := tickets ! lastIdx, lastIdx := tickets ! idx] else tickets);
         index = (if idx \<noteq> lastIdx then AList.update (mt_playerId (swapped ! idx)) idx (mq_playerIndex q)
                  else mq_playerIndex q)
     in q\<lparr>mq_tickets := butlast swapped, mq_playerIndex := AList.delete pid index\<rparr>)"

definition mq_dequeue :: "u64 \<Rightarrow> MatchmakingQueue \<Rightarrow> bool \<times> MatchmakingQueue" where
  "mq_dequeue playerId q =
    (case map_of (mq_playerIndex q) playerId of
       None \<Rightarrow> (False, q)
     | Some idx \<Rightarrow> (True, mq_removeAt idx q))"

text \<open>Durations are truncated towards zero. The conversion to \<^verbatim>\<open>int32_t\<close> keeps the low 32 bits.\<close>

definition effectiveTolerance :: "QueueConfig \<Rightarrow> int \<Rightarrow> MatchmakingTicket \<Rightarrow> int" where
  "effectiveTolerance config now ticket =
    (let waited = (now - mt_enqueuedAt ticket) sdiv 1000000000
     in if qc_expansionInterval config \<le> 0 then qc_initialRatingTolerance config
        else let expansions = waited sdiv qc_expansionInterval config;
                 expanded = qc_initialRatingTolerance config
                   + sint (word_of_int expansions :: 32 word) * qc_expansionStep config
             in min expanded (qc_maxRatingTolerance config))"

text \<open>The conditions of the inner loop: mode, region, tolerance.\<close>

definition compatible ::
  "QueueConfig \<Rightarrow> int \<Rightarrow> int \<Rightarrow> MatchmakingTicket \<Rightarrow> MatchmakingTicket \<Rightarrow> bool" where
  "compatible config nowA nowC anchor candidate \<longleftrightarrow>
     mt_mode candidate = mt_mode anchor \<and>
     (mt_region anchor = Any \<or> mt_region candidate = Any \<or> mt_region anchor = mt_region candidate) \<and>
     isWithinTolerance (pr_mmr (mt_rating anchor)) (pr_mmr (mt_rating candidate))
       (max (effectiveTolerance config nowA anchor) (effectiveTolerance config nowC candidate))"

fun collectCandidates :: "nat \<Rightarrow> (nat \<Rightarrow> bool) \<Rightarrow> nat list \<Rightarrow> nat list \<Rightarrow> nat list" where
  "collectCandidates maxPlayers ok [] candidates = candidates"
| "collectCandidates maxPlayers ok (i # is) candidates =
    (if \<not> ok i then collectCandidates maxPlayers ok is candidates
     else if length (candidates @ [i]) \<ge> maxPlayers then candidates @ [i]
     else collectCandidates maxPlayers ok is (candidates @ [i]))"

definition anchorCandidates :: "(nat \<Rightarrow> nat \<Rightarrow> int) \<Rightarrow> MatchmakingQueue \<Rightarrow> nat \<Rightarrow> nat list" where
  "anchorCandidates clock q a =
     collectCandidates (unat (qc_maxPlayersPerMatch (mq_config q)))
       (\<lambda>i. i \<noteq> a \<and> compatible (mq_config q) (clock a a) (clock a i) (mq_tickets q ! a) (mq_tickets q ! i))
       [0..<length (mq_tickets q)] [a]"

definition buildMatch ::
  "(rat \<Rightarrow> rat) \<Rightarrow> (rat \<Rightarrow> rat) \<Rightarrow> nat list \<Rightarrow> MatchmakingQueue \<Rightarrow> MatchResult" where
  "buildMatch sqrtd expf candidates q =
    (let players = map (\<lambda>idx. mq_tickets q ! idx) candidates;
         ratings = map (\<lambda>t. pr_mmr (mt_rating t)) players;
         total = foldl (\<lambda>acc r. f32 (acc + f32 (of_int r))) 0 ratings
     in \<lparr>mr_matchId = mq_nextMatchId q, mr_players = players,
         mr_averageRating = f32 (total / f32 (of_nat (length ratings))),
         mr_matchQuality = matchQuality sqrtd expf ratings\<rparr>)"

text \<open>The loop over the anchors: the first one with enough candidates.\<close>

fun firstAnchor :: "(nat \<Rightarrow> nat \<Rightarrow> int) \<Rightarrow> MatchmakingQueue \<Rightarrow> nat list \<Rightarrow> nat list option" where
  "firstAnchor clock q [] = None"
| "firstAnchor clock q (a # as) =
    (if length (anchorCandidates clock q a) < unat (qc_minPlayersPerMatch (mq_config q))
     then firstAnchor clock q as
     else Some (anchorCandidates clock q a))"

definition mq_tryMatch ::
  "(rat \<Rightarrow> rat) \<Rightarrow> (rat \<Rightarrow> rat) \<Rightarrow> (nat \<Rightarrow> nat \<Rightarrow> int) \<Rightarrow> MatchmakingQueue
     \<Rightarrow> MatchResult option \<times> MatchmakingQueue" where
  "mq_tryMatch sqrtd expf clock q =
    (if length (mq_tickets q) < unat (qc_minPlayersPerMatch (mq_config q)) then (None, q)
     else case firstAnchor clock q [0..<length (mq_tickets q)] of
            None \<Rightarrow> (None, q)
          | Some candidates \<Rightarrow>
              (Some (buildMatch sqrtd expf candidates q),
               fold mq_removeAt (rev (sort candidates)) (q\<lparr>mq_nextMatchId := mq_nextMatchId q + 1\<rparr>)))"

definition mq_isQueued :: "u64 \<Rightarrow> MatchmakingQueue \<Rightarrow> bool" where
  "mq_isQueued playerId q \<longleftrightarrow> map_of (mq_playerIndex q) playerId \<noteq> None"

definition mq_getTicket :: "u64 \<Rightarrow> MatchmakingQueue \<Rightarrow> MatchmakingTicket option" where
  "mq_getTicket playerId q = map_option (\<lambda>i. mq_tickets q ! i) (map_of (mq_playerIndex q) playerId)"

definition mq_queueSize :: "MatchmakingQueue \<Rightarrow> nat" where
  "mq_queueSize q = length (mq_tickets q)"

section \<open>Invariant\<close>

text \<open>The index is exactly the map from players to the positions of their tickets.\<close>

definition mq_inv :: "MatchmakingQueue \<Rightarrow> bool" where
  "mq_inv q \<longleftrightarrow> umap_wf (mq_playerIndex q) \<and>
     (\<forall>p i. map_of (mq_playerIndex q) p = Some i \<longleftrightarrow>
        i < length (mq_tickets q) \<and> mt_playerId (mq_tickets q ! i) = p) \<and>
     length (mq_tickets q) \<le> unat (qc_maxQueueSize (mq_config q))"

lemma mq_inv_index:
  assumes "mq_inv q" "i < length (mq_tickets q)"
  shows "map_of (mq_playerIndex q) (mt_playerId (mq_tickets q ! i)) = Some i"
  using assms by (simp add: mq_inv_def)

lemma mq_inv_unique:
  assumes "mq_inv q" "i < length (mq_tickets q)" "j < length (mq_tickets q)"
    "mt_playerId (mq_tickets q ! i) = mt_playerId (mq_tickets q ! j)"
  shows "i = j"
proof -
  have "Some i = map_of (mq_playerIndex q) (mt_playerId (mq_tickets q ! i))"
    by (rule mq_inv_index [OF assms(1,2), symmetric])
  also have "\<dots> = Some j" unfolding assms(4) by (rule mq_inv_index [OF assms(1,3)])
  finally show ?thesis by simp
qed

lemma mq_inv_distinct:
  assumes "mq_inv q"
  shows "distinct (map mt_playerId (mq_tickets q))"
  using mq_inv_unique [OF assms] by (simp add: distinct_conv_nth) blast

lemma mq_isQueued_iff:
  assumes "mq_inv q"
  shows "mq_isQueued p q \<longleftrightarrow> p \<in> mt_playerId ` set (mq_tickets q)"
proof -
  have "map_of (mq_playerIndex q) p \<noteq> None \<longleftrightarrow> (\<exists>i<length (mq_tickets q). mt_playerId (mq_tickets q ! i) = p)"
    using assms unfolding mq_inv_def by (metis not_Some_eq)
  also have "\<dots> \<longleftrightarrow> p \<in> mt_playerId ` set (mq_tickets q)"
    by (fastforce simp: in_set_conv_nth)
  finally show ?thesis by (simp add: mq_isQueued_def)
qed

lemma mq_getTicket_iff:
  assumes "mq_inv q"
  shows "mq_getTicket p q = Some t \<longleftrightarrow> t \<in> set (mq_tickets q) \<and> mt_playerId t = p"
proof -
  have "(\<exists>i. map_of (mq_playerIndex q) p = Some i \<and> mq_tickets q ! i = t)
      \<longleftrightarrow> (\<exists>i<length (mq_tickets q). mq_tickets q ! i = t \<and> mt_playerId (mq_tickets q ! i) = p)"
    using assms unfolding mq_inv_def by blast
  then show ?thesis by (auto simp: mq_getTicket_def in_set_conv_nth)
qed

lemma mq_inv_enqueue [inv_intros]:
  assumes inv: "mq_inv q"
  shows "mq_inv (snd (mq_enqueue t q))"
proof (cases "length (mq_tickets q) < unat (qc_maxQueueSize (mq_config q)) \<and> map_of (mq_playerIndex q) (mt_playerId t) = None")
  case True
  then have new: "\<forall>i<length (mq_tickets q). mt_playerId (mq_tickets q ! i) \<noteq> mt_playerId t"
    using mq_inv_index [OF inv] by force
  have "snd (mq_enqueue t q) = q\<lparr>mq_playerIndex := AList.update (mt_playerId t) (length (mq_tickets q)) (mq_playerIndex q),
      mq_tickets := mq_tickets q @ [t]\<rparr>"
    using True by (simp add: mq_enqueue_def)
  then show ?thesis
    using inv True new by (auto simp: mq_inv_def update_conv' nth_append less_Suc_eq)
qed (use inv in \<open>auto simp: mq_enqueue_def\<close>)

text \<open>What removal does to the tickets.\<close>

lemma tickets_removeAt:
  assumes "idx < length (mq_tickets q)"
  shows "mq_tickets (mq_removeAt idx q) =
    (if idx = length (mq_tickets q) - 1 then butlast (mq_tickets q)
     else butlast ((mq_tickets q)[idx := last (mq_tickets q)]))"
proof -
  have ne: "mq_tickets q \<noteq> []" using assms by auto
  show ?thesis
    using assms ne by (auto simp: mq_removeAt_def Let_def last_conv_nth butlast_list_update)
qed

lemma length_removeAt [simp]: "idx < length (mq_tickets q) \<Longrightarrow> length (mq_tickets (mq_removeAt idx q)) = length (mq_tickets q) - 1"
  by (simp add: tickets_removeAt)

lemma nth_removeAt:
  assumes "idx < length (mq_tickets q)" "j < length (mq_tickets q) - 1"
  shows "mq_tickets (mq_removeAt idx q) ! j =
    (if j = idx then mq_tickets q ! (length (mq_tickets q) - 1) else mq_tickets q ! j)"
proof -
  have "mq_tickets q \<noteq> []" using assms by auto
  then show ?thesis using assms by (auto simp: tickets_removeAt nth_butlast last_conv_nth nth_list_update)
qed

lemma config_removeAt [simp]:
  "mq_config (mq_removeAt idx q) = mq_config q" "mq_nextMatchId (mq_removeAt idx q) = mq_nextMatchId q"
  by (simp_all add: mq_removeAt_def Let_def)

lemma mset_removeAt:
  assumes "idx < length (mq_tickets q)"
  shows "mset (mq_tickets q) = add_mset (mq_tickets q ! idx) (mset (mq_tickets (mq_removeAt idx q)))"
proof -
  obtain ts x where q: "mq_tickets q = ts @ [x]" using assms by (cases "mq_tickets q" rule: rev_cases) auto
  show ?thesis
  proof (cases "idx = length ts")
    case True
    then show ?thesis using assms by (simp add: tickets_removeAt q nth_append)
  next
    case False
    then have "idx < length ts" using assms q by simp
    moreover from this have "(ts @ [x])[idx := x] = ts[idx := x] @ [x]" by (simp add: list_update_append)
    ultimately show ?thesis
      using assms False by (simp add: tickets_removeAt q nth_append mset_update)
  qed
qed

lemma index_removeAt:
  assumes inv: "mq_inv q" and idx: "idx < length (mq_tickets q)"
  shows "map_of (mq_playerIndex (mq_removeAt idx q)) p =
    (if p = mt_playerId (mq_tickets q ! idx) then None
     else if p = mt_playerId (mq_tickets q ! (length (mq_tickets q) - 1)) then Some idx
     else map_of (mq_playerIndex q) p)"
proof -
  let ?l = "length (mq_tickets q) - 1"
  have "?l < length (mq_tickets q)" using idx by simp
  then have "map_of (mq_playerIndex q) (mt_playerId (mq_tickets q ! ?l)) = Some ?l"
    by (rule mq_inv_index [OF inv])
  with idx show ?thesis by (auto simp: mq_removeAt_def Let_def delete_conv' update_conv')
qed

lemma mq_inv_removeAt [inv_intros]:
  assumes inv: "mq_inv q" and idx: "idx < length (mq_tickets q)"
  shows "mq_inv (mq_removeAt idx q)"
proof -
  let ?l = "length (mq_tickets q) - 1"
  have l: "?l < length (mq_tickets q)" using idx by simp
  note uniq = mq_inv_unique [OF inv]
  have wf: "umap_wf (mq_playerIndex (mq_removeAt idx q))"
    using inv by (auto simp: mq_inv_def mq_removeAt_def Let_def)
  have "map_of (mq_playerIndex (mq_removeAt idx q)) p = Some i \<longleftrightarrow>
      i < ?l \<and> mt_playerId (mq_tickets (mq_removeAt idx q) ! i) = p" for p i
  proof (cases "i < ?l")
    case True
    have "map_of (mq_playerIndex q) p = Some i \<longleftrightarrow> mt_playerId (mq_tickets q ! i) = p"
      using inv True by (auto simp: mq_inv_def)
    then show ?thesis
      using True idx l uniq [of i idx] uniq [of idx ?l] uniq [of i ?l]
      unfolding index_removeAt [OF inv idx] nth_removeAt [OF idx True]
      by (smt (verit) less_trans nat_neq_iff option.inject option.distinct(1))
  next
    case False
    have "\<not> (i < length (mq_tickets q) \<and> mt_playerId (mq_tickets q ! i) = p)"
      if "p \<noteq> mt_playerId (mq_tickets q ! ?l)"
    proof
      assume i: "i < length (mq_tickets q) \<and> mt_playerId (mq_tickets q ! i) = p"
      with False have "i = ?l" by linarith
      with i that show False by simp
    qed
    then have "map_of (mq_playerIndex q) p \<noteq> Some i" if "p \<noteq> mt_playerId (mq_tickets q ! ?l)"
      using inv that by (auto simp: mq_inv_def)
    moreover have "idx = ?l" if "i = idx" using that False idx by simp
    ultimately show ?thesis using False by (auto simp: index_removeAt [OF inv idx])
  qed
  with wf inv idx show ?thesis by (auto simp: mq_inv_def)
qed

lemma mq_inv_dequeue [inv_intros]:
  assumes "mq_inv q"
  shows "mq_inv (snd (mq_dequeue p q))"
proof (cases "map_of (mq_playerIndex q) p")
  case (Some i)
  then have "i < length (mq_tickets q)" using assms by (simp add: mq_inv_def)
  with Some mq_inv_removeAt [OF assms] show ?thesis by (simp add: mq_dequeue_def)
qed (use assms in \<open>simp add: mq_dequeue_def\<close>)

section \<open>The search\<close>

lemma collectCandidates_eq:
  "collectCandidates m ok is cs = cs @ take (max 1 (m - length cs)) (filter ok is)"
proof (induction "is" arbitrary: cs)
  case (Cons i "is")
  show ?case
  proof (cases "ok i \<and> length (cs @ [i]) < m")
    case True
    then have "max 1 (m - length cs) = Suc (max 1 (m - length (cs @ [i])))" by auto
    with True Cons.IH [of "cs @ [i]"] show ?thesis by simp
  next
    case False
    show ?thesis
    proof (cases "ok i")
      case True
      with False have "max 1 (m - length cs) = 1" by auto
      with True False show ?thesis by simp
    qed (use Cons.IH [of cs] in simp)
  qed
qed simp

definition anchorOk :: "(nat \<Rightarrow> nat \<Rightarrow> int) \<Rightarrow> MatchmakingQueue \<Rightarrow> nat \<Rightarrow> nat \<Rightarrow> bool" where
  "anchorOk clock q a i \<longleftrightarrow> i \<noteq> a \<and>
     compatible (mq_config q) (clock a a) (clock a i) (mq_tickets q ! a) (mq_tickets q ! i)"

lemma anchorCandidates_eq:
  "anchorCandidates clock q a = a # take (max 1 (unat (qc_maxPlayersPerMatch (mq_config q)) - 1))
     (filter (anchorOk clock q a) [0..<length (mq_tickets q)])"
  by (simp add: anchorCandidates_def collectCandidates_eq anchorOk_def [abs_def])

lemma anchorCandidates_props:
  assumes "a < length (mq_tickets q)"
  shows "distinct (anchorCandidates clock q a)" "\<forall>i\<in>set (anchorCandidates clock q a). i < length (mq_tickets q)"
    "\<forall>i\<in>set (anchorCandidates clock q a). i = a \<or> anchorOk clock q a i"
    "length (anchorCandidates clock q a) \<le> max 2 (unat (qc_maxPlayersPerMatch (mq_config q)))"
  using assms
  by (auto simp: anchorCandidates_eq anchorOk_def distinct_take dest: in_set_takeD)

lemma firstAnchor_Some:
  assumes "firstAnchor clock q as = Some cs"
  shows "\<exists>a\<in>set as. cs = anchorCandidates clock q a \<and> unat (qc_minPlayersPerMatch (mq_config q)) \<le> length cs"
  using assms by (induction as) (auto split: if_splits)

lemma firstAnchor_None:
  "firstAnchor clock q as = None \<longleftrightarrow>
     (\<forall>a\<in>set as. length (anchorCandidates clock q a) < unat (qc_minPlayersPerMatch (mq_config q)))"
  by (induction as) (auto simp: not_less)

lemma remove_descending:
  assumes "mq_inv q" "sorted_wrt (>) ds" "\<forall>i\<in>set ds. i < length (mq_tickets q)"
  shows "mq_inv (fold mq_removeAt ds q) \<and> mq_config (fold mq_removeAt ds q) = mq_config q \<and>
    mset (mq_tickets q) = mset (map (\<lambda>i. mq_tickets q ! i) ds) + mset (mq_tickets (fold mq_removeAt ds q))"
  using assms
proof (induction ds arbitrary: q)
  case (Cons d ds)
  let ?q = "mq_removeAt d q"
  have d: "d < length (mq_tickets q)" using Cons.prems by simp
  have below: "\<forall>i\<in>set ds. i < d" using Cons.prems(2) by simp
  have same: "map (\<lambda>i. mq_tickets ?q ! i) ds = map (\<lambda>i. mq_tickets q ! i) ds"
    using below d by (intro map_cong refl) (auto simp: nth_removeAt)
  have "\<forall>i\<in>set ds. i < length (mq_tickets ?q)" using below d by auto
  with Cons.IH [OF mq_inv_removeAt [OF Cons.prems(1) d]] Cons.prems(2) same mset_removeAt [OF d]
  show ?case by simp
qed simp

text \<open>The outcome of a search.\<close>

lemma tryMatch_Some:
  assumes inv: "mq_inv q" and m: "mq_tryMatch sqrtd expf clock q = (Some r, q')"
  shows "\<exists>a<length (mq_tickets q). mr_players r = map (\<lambda>i. mq_tickets q ! i) (anchorCandidates clock q a) \<and>
    unat (qc_minPlayersPerMatch (mq_config q)) \<le> length (mr_players r)"
    "mq_inv q'" "mq_config q' = mq_config q" "mr_matchId r = mq_nextMatchId q"
    "mset (mq_tickets q) = mset (mr_players r) + mset (mq_tickets q')"
proof -
  obtain cs where cs: "firstAnchor clock q [0..<length (mq_tickets q)] = Some cs"
    and r: "r = buildMatch sqrtd expf cs q"
    and q': "q' = fold mq_removeAt (rev (sort cs)) (q\<lparr>mq_nextMatchId := mq_nextMatchId q + 1\<rparr>)"
    using m by (auto simp: mq_tryMatch_def split: if_splits option.splits)
  obtain a where a: "a < length (mq_tickets q)" "cs = anchorCandidates clock q a"
    "unat (qc_minPlayersPerMatch (mq_config q)) \<le> length cs"
    using firstAnchor_Some [OF cs] by auto
  have players: "mr_players r = map (\<lambda>i. mq_tickets q ! i) cs" by (simp add: r buildMatch_def Let_def)
  then show "\<exists>a<length (mq_tickets q). mr_players r = map (\<lambda>i. mq_tickets q ! i) (anchorCandidates clock q a) \<and>
    unat (qc_minPlayersPerMatch (mq_config q)) \<le> length (mr_players r)"
    using a by auto
  note P = anchorCandidates_props [OF a(1), of clock, folded a(2)]
  have desc: "sorted_wrt (>) (rev (sort cs))"
    using P(1) by (simp add: sorted_wrt_rev strict_sorted_iff)
  have inv1: "mq_inv (q\<lparr>mq_nextMatchId := mq_nextMatchId q + 1\<rparr>)" using inv by (simp add: mq_inv_def)
  have "\<forall>i\<in>set (rev (sort cs)). i < length (mq_tickets (q\<lparr>mq_nextMatchId := mq_nextMatchId q + 1\<rparr>))"
    using P(2) by simp
  note R = remove_descending [OF inv1 desc this]
  show "mq_inv q'" "mq_config q' = mq_config q" using R by (auto simp: q')
  show "mr_matchId r = mq_nextMatchId q" by (simp add: r buildMatch_def Let_def)
  have "mset (map (\<lambda>i. mq_tickets q ! i) (rev (sort cs))) = mset (mr_players r)"
    by (simp add: players)
  then show "mset (mq_tickets q) = mset (mr_players r) + mset (mq_tickets q')" using R by (simp add: q')
qed

lemma tryMatch_None:
  assumes "mq_tryMatch sqrtd expf clock q = (None, q')"
  shows "q' = q" "\<forall>a<length (mq_tickets q).
    length (anchorCandidates clock q a) < unat (qc_minPlayersPerMatch (mq_config q)) \<or>
    length (mq_tickets q) < unat (qc_minPlayersPerMatch (mq_config q))"
  using assms firstAnchor_None [of clock q "[0..<length (mq_tickets q)]"]
  by (auto simp: mq_tryMatch_def split: if_splits option.splits)

lemma mq_inv_tryMatch [inv_intros]:
  assumes "mq_inv q"
  shows "mq_inv (snd (mq_tryMatch sqrtd expf clock q))"
proof (cases "mq_tryMatch sqrtd expf clock q")
  case (Pair r q')
  show ?thesis
  proof (cases r)
    case None
    with Pair have "q' = q" by (intro tryMatch_None(1)) simp
    with Pair assms show ?thesis by simp
  next
    case (Some m)
    with Pair tryMatch_Some(2) [OF assms] show ?thesis by simp
  qed
qed

lemma mq_inv_mk [inv_intros]: "mq_inv (mkMatchmakingQueue cfg)"
  by (simp add: mq_inv_def mkMatchmakingQueue_def)

section \<open>The interface the lobby uses\<close>

text \<open>Enqueueing the tickets of a whole group, in order; if one is refused, those before it are taken
  out again. \<open>all\<close> is the whole group: the rollback walks it up to the refused player.\<close>

fun enqueueAll :: "('t \<Rightarrow> 'q \<Rightarrow> unit GameResult \<times> 'q) \<Rightarrow> ('p \<Rightarrow> 'q \<Rightarrow> bool \<times> 'q) \<Rightarrow> ('t \<Rightarrow> 'p)
    \<Rightarrow> 't list \<Rightarrow> 't list \<Rightarrow> 'q \<Rightarrow> unit GameResult \<times> 'q" where
  "enqueueAll enq deq pid all [] q = (Inr (), q)"
| "enqueueAll enq deq pid all (t # ts) q =
    (case enq t q of
       (Inr _, q1) \<Rightarrow> enqueueAll enq deq pid all ts q1
     | (Inl e, q1) \<Rightarrow> (Inl e, fold (\<lambda>m q. snd (deq (pid m) q)) (takeWhile (\<lambda>m. pid m \<noteq> pid t) all) q1))"

text \<open>A queue of tickets, at most one per player, seen as the multiset of its tickets.\<close>

locale ticket_queue =
  fixes inv :: "'q \<Rightarrow> bool"
    and enq :: "'t \<Rightarrow> 'q \<Rightarrow> unit GameResult \<times> 'q"
    and deq :: "'p \<Rightarrow> 'q \<Rightarrow> bool \<times> 'q"
    and content :: "'q \<Rightarrow> 't multiset"
    and pid :: "'t \<Rightarrow> 'p"
  assumes inv_enq: "inv q \<Longrightarrow> inv (snd (enq t q))"
    and inv_deq: "inv q \<Longrightarrow> inv (snd (deq p q))"
    and enq_ok: "inv q \<Longrightarrow> fst (enq t q) = Inr () \<Longrightarrow> content (snd (enq t q)) = add_mset t (content q)"
    and enq_error: "inv q \<Longrightarrow> fst (enq t q) = Inl e \<Longrightarrow> snd (enq t q) = q"
    and deq_member: "inv q \<Longrightarrow> t \<in># content q \<Longrightarrow> content (snd (deq (pid t) q)) = content q - {#t#}"
begin

lemma rollback:
  assumes "inv q" "mset ts \<subseteq># content q"
  shows "inv (fold (\<lambda>m q. snd (deq (pid m) q)) ts q) \<and>
    content (fold (\<lambda>m q. snd (deq (pid m) q)) ts q) = content q - mset ts"
  using assms
proof (induction ts arbitrary: q)
  case (Cons t ts)
  have t: "t \<in># content q" using Cons.prems(2) by (simp add: insert_subset_eq_iff)
  note d = deq_member [OF Cons.prems(1) t]
  have "mset ts \<subseteq># content (snd (deq (pid t) q))"
    using Cons.prems(2) by (simp add: d) (simp add: insert_subset_eq_iff)
  from Cons.IH [OF inv_deq [OF Cons.prems(1)] this] show ?case by (simp add: d)
qed simp

text \<open>All or nothing.\<close>

lemma enqueueAll_atomic:
  assumes "inv q" "distinct (map pid (done @ ts))" "mset done \<subseteq># content q"
  shows "case enqueueAll enq deq pid (done @ ts) ts q of (r, q') \<Rightarrow>
    inv q' \<and> content q' = (case r of Inr _ \<Rightarrow> content q + mset ts | Inl _ \<Rightarrow> content q - mset done)"
  using assms
proof (induction ts arbitrary: q "done")
  case (Cons t ts)
  obtain r q1 where e: "enq t q = (r, q1)" by fastforce
  show ?case
  proof (cases r)
    case (Inl e')
    then have "q1 = q" using enq_error [OF Cons.prems(1), of t e'] e by simp
    moreover have "pid t \<notin> pid ` set done" using Cons.prems(2) by auto
    then have "\<forall>m\<in>set done. pid m \<noteq> pid t" by (metis imageI)
    then have "takeWhile (\<lambda>m. pid m \<noteq> pid t) (done @ t # ts) = done" by (simp add: takeWhile_append2)
    ultimately show ?thesis using Inl e rollback [OF Cons.prems(1,3)] by simp
  next
    case (Inr u)
    then have "inv q1" "content q1 = add_mset t (content q)"
      using enq_ok [OF Cons.prems(1), of t] inv_enq [OF Cons.prems(1), of t] e by simp_all
    moreover have "done @ t # ts = (done @ [t]) @ ts" by simp
    ultimately show ?thesis
      using Inr e Cons.IH [of q1 "done @ [t]"] Cons.prems(2,3) by (simp split: prod.splits sum.splits)
  qed
qed simp

end

lemma dequeue_member:
  assumes inv: "mq_inv q" and t: "t \<in># mset (mq_tickets q)"
  shows "mset (mq_tickets (snd (mq_dequeue (mt_playerId t) q))) = mset (mq_tickets q) - {#t#}"
proof -
  obtain i where i: "i < length (mq_tickets q)" "mq_tickets q ! i = t" using t by (auto simp: in_set_conv_nth)
  have "map_of (mq_playerIndex q) (mt_playerId t) = Some i" using mq_inv_index [OF inv i(1)] i(2) by simp
  then show ?thesis using mset_removeAt [OF i(1)] i(2) by (simp add: mq_dequeue_def)
qed

interpretation mq: ticket_queue mq_inv mq_enqueue mq_dequeue "\<lambda>q. mset (mq_tickets q)" mt_playerId
proof
  show "mq_inv q \<Longrightarrow> mq_inv (snd (mq_enqueue t q))" for q t by (rule mq_inv_enqueue)
  show "mq_inv q \<Longrightarrow> mq_inv (snd (mq_dequeue p q))" for q p by (rule mq_inv_dequeue)
qed (auto simp: mq_enqueue_def dequeue_member split: if_splits)

section \<open>Reachable queues\<close>

inductive mq_reachable :: "QueueConfig \<Rightarrow> MatchmakingQueue \<Rightarrow> bool" for cfg where
  init: "mq_reachable cfg (mkMatchmakingQueue cfg)"
| enqueue: "mq_reachable cfg q \<Longrightarrow> mq_reachable cfg (snd (mq_enqueue t q))"
| dequeue: "mq_reachable cfg q \<Longrightarrow> mq_reachable cfg (snd (mq_dequeue p q))"
| tryMatch: "mq_reachable cfg q \<Longrightarrow> mq_reachable cfg (snd (mq_tryMatch sqrtd expf clock q))"

lemma mq_reachable_inv: "mq_reachable cfg q \<Longrightarrow> mq_inv q"
  by (induction rule: mq_reachable.induct) (auto intro: inv_intros)

lemma mq_config_ops:
  "mq_config (snd (mq_enqueue t q)) = mq_config q" "mq_config (snd (mq_dequeue p q)) = mq_config q"
  by (auto simp: mq_enqueue_def mq_dequeue_def split: option.splits)

text \<open>Lookups after a change of the multiset of tickets.\<close>

lemma getTicket_mset:
  assumes "mq_inv q" "mq_inv q'" "mset (mq_tickets q) = mset ps + mset (mq_tickets q')"
  shows "mq_getTicket p q' = (if p \<in> mt_playerId ` set ps then None else mq_getTicket p q)"
proof -
  have sets: "set (mq_tickets q) = set ps \<union> set (mq_tickets q')"
    using arg_cong [OF assms(3), of set_mset] by simp
  have "distinct (map mt_playerId (ps @ mq_tickets q'))"
  proof -
    have "image_mset mt_playerId (mset (mq_tickets q)) = mset (map mt_playerId (ps @ mq_tickets q'))"
      by (simp add: assms(3))
    then have "mset (map mt_playerId (mq_tickets q)) = mset (map mt_playerId (ps @ mq_tickets q'))" by simp
    from mset_eq_imp_distinct_iff [OF this] show ?thesis using mq_inv_distinct [OF assms(1)] by blast
  qed
  then have disj: "mt_playerId ` set ps \<inter> mt_playerId ` set (mq_tickets q') = {}" by auto
  show ?thesis
  proof (cases "mq_getTicket p q'")
    case None
    have "mq_getTicket p q = None" if "p \<notin> mt_playerId ` set ps"
    proof (rule ccontr)
      assume "mq_getTicket p q \<noteq> None"
      then obtain t where "t \<in> set (mq_tickets q)" "mt_playerId t = p"
        using mq_getTicket_iff [OF assms(1)] by auto
      with that sets have "mq_getTicket p q' = Some t" using mq_getTicket_iff [OF assms(2)] by auto
      with None show False by simp
    qed
    with None show ?thesis by simp
  next
    case (Some t)
    then have t: "t \<in> set (mq_tickets q')" "mt_playerId t = p" using mq_getTicket_iff [OF assms(2)] by auto
    then have "p \<notin> mt_playerId ` set ps" using disj by (metis IntI empty_iff imageI)
    moreover have "mq_getTicket p q = Some t" using mq_getTicket_iff [OF assms(1)] t sets by auto
    ultimately show ?thesis using Some by simp
  qed
qed

section \<open>Properties\<close>

text \<open>(C16) No player is lost or matched twice. In every queue reached by enqueueing, dequeueing and
  matching, the player index is exact (a player is queued under exactly one ticket, at the
  recorded position), the size limit holds, and a match takes exactly its own players out:
  their tickets and the remaining ones are together the tickets before.\<close>

theorem matchmaking_conserves_players:
  assumes "mq_reachable cfg q"
  shows "distinct (map mt_playerId (mq_tickets q)) \<and>
    (\<forall>p t. mq_getTicket p q = Some t \<longleftrightarrow> t \<in> set (mq_tickets q) \<and> mt_playerId t = p) \<and>
    mq_queueSize q \<le> unat (qc_maxQueueSize (mq_config q)) \<and>
    (case mq_tryMatch sqrtd expf clock q of
       (None, q') \<Rightarrow> q' = q
     | (Some r, q') \<Rightarrow>
         mset (mq_tickets q) = mset (mr_players r) + mset (mq_tickets q') \<and>
         (\<forall>p. mq_getTicket p q' = (if p \<in> mt_playerId ` set (mr_players r) then None else mq_getTicket p q)))"
proof -
  have inv: "mq_inv q" by (rule mq_reachable_inv [OF assms])
  have "mq_queueSize q \<le> unat (qc_maxQueueSize (mq_config q))" using inv by (simp add: mq_inv_def mq_queueSize_def)
  moreover have "case mq_tryMatch sqrtd expf clock q of
       (None, q') \<Rightarrow> q' = q
     | (Some r, q') \<Rightarrow>
         mset (mq_tickets q) = mset (mr_players r) + mset (mq_tickets q') \<and>
         (\<forall>p. mq_getTicket p q' = (if p \<in> mt_playerId ` set (mr_players r) then None else mq_getTicket p q))"
  proof (cases "mq_tryMatch sqrtd expf clock q")
    case (Pair r q')
    show ?thesis
    proof (cases r)
      case None
      with Pair tryMatch_None(1) show ?thesis by force
    next
      case (Some m)
      with Pair have eq: "mq_tryMatch sqrtd expf clock q = (Some m, q')" by simp
      note T = tryMatch_Some(2,5) [OF inv eq]
      from T getTicket_mset [OF inv T] show ?thesis by (simp add: eq)
    qed
  qed
  ultimately show ?thesis using mq_inv_distinct [OF inv] mq_getTicket_iff [OF inv] by blast
qed

definition demoTicket :: "u64 \<Rightarrow> int \<Rightarrow> MatchmakingTicket" where
  "demoTicket p mmr = \<lparr>mt_playerId = p, mt_rating = defaultPlayerRating\<lparr>pr_mmr := mmr\<rparr>, mt_mode = Duel,
     mt_region = EU, mt_enqueuedAt = 0\<rparr>"

theorem matchmaking_conserves_players_witness:
  "distinct (map mt_playerId (mq_tickets (snd (mq_dequeue 1 (snd (mq_enqueue (demoTicket 2 1510)
     (snd (mq_enqueue (demoTicket 1 1500) (mkMatchmakingQueue defaultQueueConfig)))))))))"
  using matchmaking_conserves_players [OF mq_reachable.dequeue [OF mq_reachable.enqueue
      [OF mq_reachable.enqueue [OF mq_reachable.init]]]]
  by blast



end
