(* ===== verification/Party_Manager.thy ===== *)
theory Party_Manager
  imports Lobby_Elo "HOL-Library.Signed_Division"
begin

text \<open>
  Parties of players (\<^verbatim>\<open>service/party_manager.hpp\<close>, \<^verbatim>\<open>services/lobby/party_manager.cpp\<close>):
  the table of parties and the index from players to their party. Every method holds the mutex
  for its whole body and is one step.
\<close>

section \<open>Parties\<close>

type_synonym PartyId = u64

record PartyMember =
  pa_playerId :: u64
  pa_name :: string
  pa_rating :: PlayerRating
  pa_isReady :: bool

record Party =
  pt_id :: PartyId
  pt_leaderId :: u64
  pt_members :: "PartyMember list"
  pt_maxSize :: u32
  pt_inQueue :: bool
  pt_preferredMode :: GameMode

record PartyManager =
  pg_maxPartySize :: u32
  pg_parties :: "(PartyId, Party) umap"
  pg_playerParty :: "(u64, PartyId) umap"
  pg_nextPartyId :: u64

definition mkPartyManager :: "u32 \<Rightarrow> PartyManager" where
  "mkPartyManager maxPartySize =
     \<lparr>pg_maxPartySize = maxPartySize, pg_parties = [], pg_playerParty = [], pg_nextPartyId = 1\<rparr>"

definition pg_createParty ::
  "u64 \<Rightarrow> string \<Rightarrow> PlayerRating \<Rightarrow> PartyManager \<Rightarrow> PartyId GameResult \<times> PartyManager" where
  "pg_createParty leaderId leaderName leaderRating pg =
    (if map_of (pg_playerParty pg) leaderId \<noteq> None
     then (err PlayerAlreadyInParty ''player is already in a party'', pg)
     else let partyId = pg_nextPartyId pg;
              leader = \<lparr>pa_playerId = leaderId, pa_name = leaderName, pa_rating = leaderRating, pa_isReady = True\<rparr>;
              party = \<lparr>pt_id = partyId, pt_leaderId = leaderId, pt_members = [leader],
                       pt_maxSize = pg_maxPartySize pg, pt_inQueue = False, pt_preferredMode = Dungeon\<rparr>
          in (Inr partyId, pg\<lparr>pg_nextPartyId := partyId + 1,
                pg_parties := (if map_of (pg_parties pg) partyId = None
                               then AList.update partyId party (pg_parties pg) else pg_parties pg),
                pg_playerParty := AList.update leaderId partyId (pg_playerParty pg)\<rparr>))"

definition pg_removePartyInternal :: "PartyId \<Rightarrow> PartyManager \<Rightarrow> PartyManager" where
  "pg_removePartyInternal partyId pg =
    (case map_of (pg_parties pg) partyId of
       None \<Rightarrow> pg
     | Some party \<Rightarrow> pg\<lparr>pg_playerParty := fold (\<lambda>m. AList.delete (pa_playerId m)) (pt_members party) (pg_playerParty pg),
                        pg_parties := AList.delete partyId (pg_parties pg)\<rparr>)"

definition pg_disbandParty :: "PartyId \<Rightarrow> u64 \<Rightarrow> PartyManager \<Rightarrow> unit GameResult \<times> PartyManager" where
  "pg_disbandParty partyId requesterId pg =
    (case map_of (pg_parties pg) partyId of
       None \<Rightarrow> (err PartyNotFound ''party not found'', pg)
     | Some party \<Rightarrow>
         if pt_leaderId party \<noteq> requesterId
         then (err NotPartyLeader ''only the party leader can disband the party'', pg)
         else (Inr (), pg_removePartyInternal partyId pg))"

definition pg_addMember ::
  "PartyId \<Rightarrow> u64 \<Rightarrow> string \<Rightarrow> PlayerRating \<Rightarrow> PartyManager \<Rightarrow> unit GameResult \<times> PartyManager" where
  "pg_addMember partyId playerId name rating pg =
    (if map_of (pg_playerParty pg) playerId \<noteq> None
     then (err PlayerAlreadyInParty ''player is already in a party'', pg)
     else case map_of (pg_parties pg) partyId of
       None \<Rightarrow> (err PartyNotFound ''party not found'', pg)
     | Some party \<Rightarrow>
         if length (pt_members party) \<ge> unat (pt_maxSize party) then (err PartyFull ''party is full'', pg)
         else let member = \<lparr>pa_playerId = playerId, pa_name = name, pa_rating = rating, pa_isReady = False\<rparr>
              in (Inr (), pg\<lparr>pg_parties := AList.update partyId
                               (party\<lparr>pt_members := pt_members party @ [member]\<rparr>) (pg_parties pg),
                             pg_playerParty := AList.update playerId partyId (pg_playerParty pg)\<rparr>))"

text \<open>Erasing the first member with the given player.\<close>

fun eraseMember :: "u64 \<Rightarrow> PartyMember list \<Rightarrow> PartyMember list" where
  "eraseMember playerId [] = []"
| "eraseMember playerId (m # ms) = (if pa_playerId m = playerId then ms else m # eraseMember playerId ms)"

definition pg_removeMember :: "PartyId \<Rightarrow> u64 \<Rightarrow> PartyManager \<Rightarrow> unit GameResult \<times> PartyManager" where
  "pg_removeMember partyId playerId pg =
    (case map_of (pg_parties pg) partyId of
       None \<Rightarrow> (err PartyNotFound ''party not found'', pg)
     | Some party \<Rightarrow>
         if playerId \<notin> pa_playerId ` set (pt_members party)
         then (err PlayerNotInParty ''player is not in the party'', pg)
         else if playerId = pt_leaderId party then (Inr (), pg_removePartyInternal partyId pg)
         else (Inr (), pg\<lparr>pg_parties := AList.update partyId
                            (party\<lparr>pt_members := eraseMember playerId (pt_members party)\<rparr>) (pg_parties pg),
                          pg_playerParty := AList.delete playerId (pg_playerParty pg)\<rparr>))"

definition pg_promoteLeader :: "PartyId \<Rightarrow> u64 \<Rightarrow> u64 \<Rightarrow> PartyManager \<Rightarrow> unit GameResult \<times> PartyManager" where
  "pg_promoteLeader partyId requesterId newLeaderId pg =
    (case map_of (pg_parties pg) partyId of
       None \<Rightarrow> (err PartyNotFound ''party not found'', pg)
     | Some party \<Rightarrow>
         if pt_leaderId party \<noteq> requesterId
         then (err NotPartyLeader ''only the party leader can promote'', pg)
         else if newLeaderId \<notin> pa_playerId ` set (pt_members party)
         then (err PlayerNotInParty ''target player is not in the party'', pg)
         else (Inr (), pg\<lparr>pg_parties := AList.update partyId (party\<lparr>pt_leaderId := newLeaderId\<rparr>) (pg_parties pg)\<rparr>))"

definition pg_setInQueue :: "PartyId \<Rightarrow> bool \<Rightarrow> PartyManager \<Rightarrow> unit GameResult \<times> PartyManager" where
  "pg_setInQueue partyId inQueue pg =
    (case map_of (pg_parties pg) partyId of
       None \<Rightarrow> (err PartyNotFound ''party not found'', pg)
     | Some party \<Rightarrow> (Inr (), pg\<lparr>pg_parties := AList.update partyId (party\<lparr>pt_inQueue := inQueue\<rparr>) (pg_parties pg)\<rparr>))"

definition pg_getParty :: "PartyId \<Rightarrow> PartyManager \<Rightarrow> Party option" where
  "pg_getParty partyId pg = map_of (pg_parties pg) partyId"

definition pg_getPlayerParty :: "u64 \<Rightarrow> PartyManager \<Rightarrow> PartyId option" where
  "pg_getPlayerParty playerId pg = map_of (pg_playerParty pg) playerId"

definition pg_isInParty :: "u64 \<Rightarrow> PartyManager \<Rightarrow> bool" where
  "pg_isInParty playerId pg \<longleftrightarrow> map_of (pg_playerParty pg) playerId \<noteq> None"

definition pg_partyCount :: "PartyManager \<Rightarrow> nat" where
  "pg_partyCount pg = length (pg_parties pg)"

text \<open>The sum is taken in 64 bits and divided with truncation towards zero.\<close>

definition pg_averagePartyRating :: "PartyId \<Rightarrow> PartyManager \<Rightarrow> int option" where
  "pg_averagePartyRating partyId pg =
    (case map_of (pg_parties pg) partyId of
       None \<Rightarrow> None
     | Some party \<Rightarrow>
         if pt_members party = [] then None
         else let total = foldl (\<lambda>acc m. acc + pr_mmr (pa_rating m)) 0 (pt_members party)
              in Some (total sdiv int (length (pt_members party))))"

section \<open>Invariant\<close>

abbreviation memberIds :: "Party \<Rightarrow> u64 set" where
  "memberIds party \<equiv> pa_playerId ` set (pt_members party)"

definition party_ok :: "u32 \<Rightarrow> Party \<Rightarrow> bool" where
  "party_ok maxSize party \<longleftrightarrow> pt_leaderId party \<in> memberIds party \<and>
     distinct (map pa_playerId (pt_members party)) \<and> pt_maxSize party = maxSize \<and>
     length (pt_members party) \<le> max 1 (unat maxSize)"

text \<open>Both tables are maps, every party is well formed and stored under its own number, which has been
  given out, and a player is registered with exactly the party that lists the player.\<close>

definition pg_inv :: "PartyManager \<Rightarrow> bool" where
  "pg_inv pg \<longleftrightarrow> umap_wf (pg_parties pg) \<and> umap_wf (pg_playerParty pg) \<and>
     (\<forall>pid party. map_of (pg_parties pg) pid = Some party \<longrightarrow>
        pt_id party = pid \<and> pid < pg_nextPartyId pg \<and> party_ok (pg_maxPartySize pg) party) \<and>
     (\<forall>player pid. map_of (pg_playerParty pg) player = Some pid \<longleftrightarrow>
        (\<exists>party. map_of (pg_parties pg) pid = Some party \<and> player \<in> memberIds party))"

lemma pg_inv_party:
  assumes "pg_inv pg" "map_of (pg_parties pg) pid = Some party"
  shows "pt_id party = pid" "pid < pg_nextPartyId pg" "party_ok (pg_maxPartySize pg) party"
  using assms by (auto simp: pg_inv_def)

lemma pg_inv_player:
  assumes "pg_inv pg"
  shows "map_of (pg_playerParty pg) player = Some pid \<longleftrightarrow>
    (\<exists>party. map_of (pg_parties pg) pid = Some party \<and> player \<in> memberIds party)"
  using assms by (simp add: pg_inv_def)

text \<open>A player is in at most one party.\<close>

lemma pg_inv_one_party:
  assumes "pg_inv pg" "map_of (pg_parties pg) pid = Some party" "map_of (pg_parties pg) pid' = Some party'"
    "player \<in> memberIds party" "player \<in> memberIds party'"
  shows "pid = pid'"
proof -
  have "map_of (pg_playerParty pg) player = Some pid" "map_of (pg_playerParty pg) player = Some pid'"
    using assms(2-5) pg_inv_player [OF assms(1)] by blast+
  then show ?thesis by simp
qed

lemma memberIds_eraseMember:
  assumes "distinct (map pa_playerId ms)"
  shows "pa_playerId ` set (eraseMember p ms) = pa_playerId ` set ms - {p}"
    "distinct (map pa_playerId (eraseMember p ms))" "length (eraseMember p ms) \<le> length ms"
  using assms by (induction ms) (auto simp: image_iff)

lemma map_of_fold_delete:
  "map_of (fold (\<lambda>m. AList.delete (pa_playerId m)) ms d) p = (if p \<in> pa_playerId ` set ms then None else map_of d p)"
  by (induction ms arbitrary: d) (auto simp: delete_conv')

lemma umap_wf_fold_delete: "umap_wf d \<Longrightarrow> umap_wf (fold (\<lambda>m. AList.delete (pa_playerId m)) ms d)"
  by (induction ms arbitrary: d) auto

text \<open>A change that replaces one party by another with the same members.\<close>

lemma pg_inv_update_same:
  assumes inv: "pg_inv pg" and p: "map_of (pg_parties pg) pid = Some party"
    and "pt_id party' = pid" "party_ok (pg_maxPartySize pg) party'" "memberIds party' = memberIds party"
  shows "pg_inv (pg\<lparr>pg_parties := AList.update pid party' (pg_parties pg)\<rparr>)"
  using assms pg_inv_party(2) [OF inv p]
  by (auto simp: pg_inv_def update_conv' split: if_splits)

lemma pg_inv_setInQueue [inv_intros]:
  assumes "pg_inv pg"
  shows "pg_inv (snd (pg_setInQueue pid b pg))"
proof (cases "map_of (pg_parties pg) pid")
  case (Some party)
  have "pg_inv (pg\<lparr>pg_parties := AList.update pid (party\<lparr>pt_inQueue := b\<rparr>) (pg_parties pg)\<rparr>)"
    using pg_inv_party [OF assms Some] by (intro pg_inv_update_same [OF assms Some]) (auto simp: party_ok_def)
  with Some show ?thesis by (simp add: pg_setInQueue_def)
qed (use assms in \<open>simp add: pg_setInQueue_def\<close>)

lemma pg_inv_promoteLeader [inv_intros]:
  assumes "pg_inv pg"
  shows "pg_inv (snd (pg_promoteLeader pid req new pg))"
proof (cases "map_of (pg_parties pg) pid")
  case (Some party)
  have "pg_inv (pg\<lparr>pg_parties := AList.update pid (party\<lparr>pt_leaderId := new\<rparr>) (pg_parties pg)\<rparr>)"
    if "new \<in> memberIds party"
    using pg_inv_party [OF assms Some] that by (intro pg_inv_update_same [OF assms Some]) (auto simp: party_ok_def)
  with Some assms show ?thesis by (simp add: pg_promoteLeader_def)
qed (use assms in \<open>simp add: pg_promoteLeader_def\<close>)

lemma pg_inv_removePartyInternal [inv_intros]:
  assumes inv: "pg_inv pg"
  shows "pg_inv (pg_removePartyInternal pid pg)"
proof (cases "map_of (pg_parties pg) pid")
  case (Some party)
  define pg' where "pg' = pg_removePartyInternal pid pg"
  have pl: "map_of (pg_playerParty pg') q = (if q \<in> memberIds party then None else map_of (pg_playerParty pg) q)" for q
    using Some by (simp add: pg'_def pg_removePartyInternal_def map_of_fold_delete)
  have pt: "map_of (pg_parties pg') i = (if i = pid then None else map_of (pg_parties pg) i)" for i
    using Some by (simp add: pg'_def pg_removePartyInternal_def delete_conv')
  have wf: "umap_wf (pg_parties pg')" "umap_wf (pg_playerParty pg')"
    using inv Some by (auto simp: pg'_def pg_removePartyInternal_def pg_inv_def intro: umap_wf_fold_delete)
  have same: "pg_nextPartyId pg' = pg_nextPartyId pg" "pg_maxPartySize pg' = pg_maxPartySize pg"
    using Some by (simp_all add: pg'_def pg_removePartyInternal_def)
  have "map_of (pg_playerParty pg') q = Some i \<longleftrightarrow> (\<exists>r. map_of (pg_parties pg') i = Some r \<and> q \<in> memberIds r)" for q i
    unfolding pl pt using pg_inv_player [OF inv, of q i] pg_inv_one_party [OF inv Some, of i _ q] Some by auto
  then show ?thesis
    unfolding pg'_def [symmetric] using inv wf same by (auto simp: pg_inv_def pt)
qed (use inv in \<open>simp add: pg_removePartyInternal_def\<close>)

lemma pg_inv_disbandParty [inv_intros]: "pg_inv pg \<Longrightarrow> pg_inv (snd (pg_disbandParty pid req pg))"
  by (auto simp: pg_disbandParty_def split: option.splits intro: inv_intros)

lemma pg_inv_addMember [inv_intros]:
  assumes inv: "pg_inv pg"
  shows "pg_inv (snd (pg_addMember pid q name rating pg))"
proof (cases "map_of (pg_playerParty pg) q = None \<and> map_of (pg_parties pg) pid \<noteq> None")
  case True
  then obtain party where p: "map_of (pg_parties pg) pid = Some party" and q: "map_of (pg_playerParty pg) q = None" by auto
  have fresh: "q \<notin> memberIds r" if "map_of (pg_parties pg) i = Some r" for i r
    using pg_inv_player [OF inv, of q i] q that by auto
  note P = pg_inv_party [OF inv p]
  show ?thesis
  proof (cases "length (pt_members party) < unat (pt_maxSize party)")
    case True
    define m where "m = \<lparr>pa_playerId = q, pa_name = name, pa_rating = rating, pa_isReady = False\<rparr>"
    define party' where "party' = party\<lparr>pt_members := pt_members party @ [m]\<rparr>"
    define pg' where "pg' = pg\<lparr>pg_parties := AList.update pid party' (pg_parties pg),
        pg_playerParty := AList.update q pid (pg_playerParty pg)\<rparr>"
    have "party_ok (pg_maxPartySize pg) party'"
      using P(3) True fresh [OF p] by (auto simp: party_ok_def party'_def m_def)
    moreover have "memberIds party' = insert q (memberIds party)" by (auto simp: party'_def m_def)
    moreover have "(map_of (pg_playerParty pg'))  p' = Some i \<longleftrightarrow>
        (\<exists>r. map_of (pg_parties pg') i = Some r \<and> p' \<in> memberIds r)" for p' i
      using pg_inv_player [OF inv, of p' i] fresh p calculation(2) by (auto simp: pg'_def update_conv')
    ultimately have "pg_inv pg'"
      using inv P(1,2) by (auto simp: pg_inv_def pg'_def update_conv' party'_def)
    moreover have "snd (pg_addMember pid q name rating pg) = pg'"
      using p q True by (simp add: pg_addMember_def pg'_def party'_def m_def)
    ultimately show ?thesis by simp
  qed (use inv p q in \<open>simp add: pg_addMember_def\<close>)
qed (use inv in \<open>auto simp: pg_addMember_def\<close>)

lemma pg_inv_removeMember [inv_intros]:
  assumes inv: "pg_inv pg"
  shows "pg_inv (snd (pg_removeMember pid q pg))"
proof (cases "map_of (pg_parties pg) pid")
  case (Some party)
  note P = pg_inv_party [OF inv Some]
  show ?thesis
  proof (cases "q \<in> memberIds party \<and> q \<noteq> pt_leaderId party")
    case True
    define party' where "party' = party\<lparr>pt_members := eraseMember q (pt_members party)\<rparr>"
    define pg' where "pg' = pg\<lparr>pg_parties := AList.update pid party' (pg_parties pg),
        pg_playerParty := AList.delete q (pg_playerParty pg)\<rparr>"
    have dist: "distinct (map pa_playerId (pt_members party))" using P(3) by (simp add: party_ok_def)
    note E = memberIds_eraseMember [OF dist, of q]
    have "party_ok (pg_maxPartySize pg) party'"
      using P(3) E True by (auto simp: party_ok_def party'_def)
    moreover have ids: "memberIds party' = memberIds party - {q}" using E by (simp add: party'_def)
    moreover have "map_of (pg_playerParty pg') p' = Some i \<longleftrightarrow>
        (\<exists>r. map_of (pg_parties pg') i = Some r \<and> p' \<in> memberIds r)" for p' i
    proof (cases "i = pid")
      case True
      then show ?thesis using pg_inv_player [OF inv, of p' i] Some ids by (simp add: pg'_def update_conv' delete_conv')
    next
      case False
      have "q \<notin> memberIds r" if "map_of (pg_parties pg) i = Some r" for r
        using pg_inv_one_party [OF inv Some that, of q] True False by blast
      then show ?thesis using pg_inv_player [OF inv, of p' i] False by (auto simp: pg'_def update_conv' delete_conv')
    qed
    ultimately have "pg_inv pg'"
      using inv P(1,2) by (auto simp: pg_inv_def pg'_def update_conv' party'_def)
    moreover have "snd (pg_removeMember pid q pg) = pg'"
      using Some True by (simp add: pg_removeMember_def pg'_def party'_def)
    ultimately show ?thesis by simp
  qed (use inv Some in \<open>auto simp: pg_removeMember_def intro: inv_intros\<close>)
qed (use inv in \<open>simp add: pg_removeMember_def\<close>)

lemma pg_inv_createParty:
  assumes inv: "pg_inv pg" and n: "pg_nextPartyId pg < pg_nextPartyId pg + 1"
  shows "pg_inv (snd (pg_createParty l name rating pg))"
proof (cases "map_of (pg_playerParty pg) l")
  case None
  let ?n = "pg_nextPartyId pg"
  define m where "m = \<lparr>pa_playerId = l, pa_name = name, pa_rating = rating, pa_isReady = True\<rparr>"
  define party where "party = \<lparr>pt_id = ?n, pt_leaderId = l, pt_members = [m],
      pt_maxSize = pg_maxPartySize pg, pt_inQueue = False, pt_preferredMode = Dungeon\<rparr>"
  have new: "map_of (pg_parties pg) ?n = None"
    using pg_inv_party(2) [OF inv, of ?n] by (cases "map_of (pg_parties pg) ?n") auto
  define pg' where "pg' = pg\<lparr>pg_nextPartyId := ?n + 1, pg_parties := AList.update ?n party (pg_parties pg),
      pg_playerParty := AList.update l ?n (pg_playerParty pg)\<rparr>"
  have eq: "snd (pg_createParty l name rating pg) = pg'"
    using None new by (simp add: pg_createParty_def pg'_def party_def m_def Let_def)
  have fresh: "l \<notin> memberIds r" if "map_of (pg_parties pg) i = Some r" for i r
    using pg_inv_player [OF inv, of l i] None that by auto
  have "party_ok (pg_maxPartySize pg) party" by (auto simp: party_ok_def party_def m_def)
  moreover have "memberIds party = {l}" by (simp add: party_def m_def)
  moreover have "map_of (pg_playerParty pg') p' = Some i \<longleftrightarrow>
      (\<exists>r. map_of (pg_parties pg') i = Some r \<and> p' \<in> memberIds r)" for p' i
    using pg_inv_player [OF inv, of p' i] fresh new calculation(2) by (auto simp: pg'_def update_conv')
  moreover have "i < ?n + 1" if "map_of (pg_parties pg) i = Some r" for i r
    using pg_inv_party(2) [OF inv that] n by (rule less_trans)
  ultimately have "pg_inv pg'"
    using inv n by (auto simp: pg_inv_def pg'_def update_conv' party_def)
  then show ?thesis by (simp add: eq)
qed (use inv in \<open>simp add: pg_createParty_def\<close>)

section \<open>Runs\<close>

datatype pg_op =
    PgCreate u64 string PlayerRating
  | PgDisband PartyId u64
  | PgAdd PartyId u64 string PlayerRating
  | PgRemove PartyId u64
  | PgPromote PartyId u64 u64
  | PgSetInQueue PartyId bool

fun pg_exec :: "pg_op \<Rightarrow> PartyManager \<Rightarrow> PartyManager" where
  "pg_exec (PgCreate l name r) pg = snd (pg_createParty l name r pg)"
| "pg_exec (PgDisband pid req) pg = snd (pg_disbandParty pid req pg)"
| "pg_exec (PgAdd pid q name r) pg = snd (pg_addMember pid q name r pg)"
| "pg_exec (PgRemove pid q) pg = snd (pg_removeMember pid q pg)"
| "pg_exec (PgPromote pid req new) pg = snd (pg_promoteLeader pid req new pg)"
| "pg_exec (PgSetInQueue pid b) pg = snd (pg_setInQueue pid b pg)"

lemma pg_maxPartySize_removeInternal [simp]:
  "pg_maxPartySize (pg_removePartyInternal pid pg) = pg_maxPartySize pg"
  "pg_nextPartyId (pg_removePartyInternal pid pg) = pg_nextPartyId pg"
  by (auto simp: pg_removePartyInternal_def split: option.splits)

lemma pg_maxPartySize_exec [simp]: "pg_maxPartySize (pg_exec op pg) = pg_maxPartySize pg"
  by (cases op) (auto simp: pg_createParty_def pg_disbandParty_def pg_addMember_def pg_removeMember_def
      pg_promoteLeader_def pg_setInQueue_def Let_def split: option.splits)

lemma pg_nextPartyId_exec: "pg_nextPartyId (pg_exec op pg) \<in> {pg_nextPartyId pg, pg_nextPartyId pg + 1}"
  by (cases op) (auto simp: pg_createParty_def pg_disbandParty_def pg_addMember_def pg_removeMember_def
      pg_promoteLeader_def pg_setInQueue_def Let_def split: option.splits)

lemma pg_inv_exec:
  assumes "pg_inv pg" "unat (pg_nextPartyId pg) < 18446744073709551615"
  shows "pg_inv (pg_exec op pg)" "unat (pg_nextPartyId (pg_exec op pg)) \<le> unat (pg_nextPartyId pg) + 1"
proof -
  have n: "unat (pg_nextPartyId pg + 1) = unat (pg_nextPartyId pg) + 1"
    using assms(2) by (intro unat_plus_1) simp
  then have "pg_nextPartyId pg < pg_nextPartyId pg + 1" by (simp add: word_less_nat_alt)
  then show "pg_inv (pg_exec op pg)"
    using assms(1) by (cases op) (simp_all add: pg_inv_createParty inv_intros)
  show "unat (pg_nextPartyId (pg_exec op pg)) \<le> unat (pg_nextPartyId pg) + 1"
    using pg_nextPartyId_exec [of op pg] n by auto
qed

lemma pg_inv_run:
  assumes "pg_inv pg" "unat (pg_nextPartyId pg) + length ops \<le> 18446744073709551615"
  shows "pg_inv (fold pg_exec ops pg) \<and> pg_maxPartySize (fold pg_exec ops pg) = pg_maxPartySize pg"
  using assms
proof (induction ops arbitrary: pg)
  case (Cons op ops)
  have "unat (pg_nextPartyId pg) < 18446744073709551615" using Cons.prems(2) by simp
  note E = pg_inv_exec [OF Cons.prems(1) this, of op]
  from Cons.IH [OF E(1)] E(2) Cons.prems(2) show ?case by simp
qed simp

lemma pg_inv_mk: "pg_inv (mkPartyManager n)"
  by (simp add: pg_inv_def mkPartyManager_def)

section \<open>Properties\<close>

text \<open>(C39) Parties and their members stay consistent. After any sequence of operations, every party is led
  by one of its members, lists nobody twice and respects the size limit, and a player is
  registered with a party exactly if that party lists the player; in particular nobody is in
  two parties, and a disbanded party leaves nobody behind.\<close>

theorem party_membership_consistent:
  assumes "length ops < 18446744073709551615"
  shows "let pg = fold pg_exec ops (mkPartyManager maxPartySize) in
    (\<forall>pid party. pg_getParty pid pg = Some party \<longrightarrow>
      pt_leaderId party \<in> memberIds party \<and> distinct (map pa_playerId (pt_members party)) \<and>
      length (pt_members party) \<le> max 1 (unat maxPartySize)) \<and>
    (\<forall>player pid. pg_getPlayerParty player pg = Some pid \<longleftrightarrow>
      (\<exists>party. pg_getParty pid pg = Some party \<and> player \<in> memberIds party))"
proof -
  define pg where "pg = fold pg_exec ops (mkPartyManager maxPartySize)"
  have run: "pg_inv pg \<and> pg_maxPartySize pg = maxPartySize"
    using pg_inv_run [OF pg_inv_mk, of maxPartySize ops] assms(1) by (simp add: pg_def mkPartyManager_def)
  then have inv: "pg_inv pg" by simp
  show ?thesis
    using pg_inv_party(3) [OF inv] pg_inv_player [OF inv] run
    by (auto simp: pg_getParty_def pg_getPlayerParty_def party_ok_def Let_def simp flip: pg_def)
qed

theorem party_membership_consistent_witness:
  "pg_getPlayerParty 7 (fold pg_exec [PgCreate 7 ''ann'' defaultPlayerRating, PgAdd 1 8 ''bob'' defaultPlayerRating]
      (mkPartyManager 5)) = Some 1 \<longleftrightarrow>
   (\<exists>party. pg_getParty 1 (fold pg_exec [PgCreate 7 ''ann'' defaultPlayerRating, PgAdd 1 8 ''bob'' defaultPlayerRating]
      (mkPartyManager 5)) = Some party \<and> 7 \<in> memberIds party)"
  using party_membership_consistent
    [of "[PgCreate 7 ''ann'' defaultPlayerRating, PgAdd 1 8 ''bob'' defaultPlayerRating]" 5]
  by (simp add: Let_def)

end
