(* ===== verification/Lobby_Server.thy ===== *)
theory Lobby_Server
  imports Matchmaking_Queue Party_Manager
begin

text \<open>
  The lobby server (\<^verbatim>\<open>service/lobby_server.hpp\<close>, \<^verbatim>\<open>services/lobby/lobby_server.cpp\<close>): it
  ties the matchmaking queue and the parties together, enqueues and dequeues whole parties, and
  drains the queue of matches. The clock readings for new tickets are arguments.
\<close>

section \<open>The server\<close>

record LobbyConfig =
  lc_queueConfig :: QueueConfig
  lc_maxPartySize :: u32

record LobbyServer =
  lb_config :: LobbyConfig
  lb_queue :: MatchmakingQueue
  lb_parties :: PartyManager
  lb_running :: bool
  lb_matchesFormed :: u64
  lb_partiesCreated :: u64
  lb_partiesDisbanded :: u64

record LobbyStats =
  ls_queuedPlayers :: nat
  ls_matchesFormed :: u64
  ls_activeParties :: nat
  ls_partiesCreated :: u64
  ls_partiesDisbanded :: u64

definition mkLobbyServer :: "LobbyConfig \<Rightarrow> LobbyServer" where
  "mkLobbyServer cfg = \<lparr>lb_config = cfg, lb_queue = mkMatchmakingQueue (lc_queueConfig cfg),
     lb_parties = mkPartyManager (lc_maxPartySize cfg), lb_running = False,
     lb_matchesFormed = 0, lb_partiesCreated = 0, lb_partiesDisbanded = 0\<rparr>"

definition lb_start :: "LobbyServer \<Rightarrow> unit GameResult \<times> LobbyServer" where
  "lb_start lb = (if lb_running lb then (err LobbyAlreadyStarted ''lobby server is already running'', lb)
                  else (Inr (), lb\<lparr>lb_running := True\<rparr>))"

definition lb_stop :: "LobbyServer \<Rightarrow> LobbyServer" where
  "lb_stop lb = lb\<lparr>lb_running := False\<rparr>"

definition lb_enqueuePlayer ::
  "u64 \<Rightarrow> PlayerRating \<Rightarrow> GameMode \<Rightarrow> Region \<Rightarrow> int \<Rightarrow> LobbyServer \<Rightarrow> unit GameResult \<times> LobbyServer" where
  "lb_enqueuePlayer playerId rating mode region now lb =
    (if \<not> lb_running lb then (err LobbyNotStarted ''lobby server is not running'', lb)
     else let ticket = \<lparr>mt_playerId = playerId, mt_rating = rating, mt_mode = mode, mt_region = region, mt_enqueuedAt = now\<rparr>;
              (r, q) = mq_enqueue ticket (lb_queue lb)
          in (r, lb\<lparr>lb_queue := q\<rparr>))"

definition lb_dequeuePlayer :: "u64 \<Rightarrow> LobbyServer \<Rightarrow> bool \<times> LobbyServer" where
  "lb_dequeuePlayer playerId lb =
    (let (r, q) = mq_dequeue playerId (lb_queue lb) in (r, lb\<lparr>lb_queue := q\<rparr>))"

definition lb_isPlayerQueued :: "u64 \<Rightarrow> LobbyServer \<Rightarrow> bool" where
  "lb_isPlayerQueued playerId lb = mq_isQueued playerId (lb_queue lb)"

definition lb_createParty ::
  "u64 \<Rightarrow> string \<Rightarrow> PlayerRating \<Rightarrow> LobbyServer \<Rightarrow> PartyId GameResult \<times> LobbyServer" where
  "lb_createParty leaderId leaderName leaderRating lb =
    (if \<not> lb_running lb then (err LobbyNotStarted ''lobby server is not running'', lb)
     else let (result, pg) = pg_createParty leaderId leaderName leaderRating (lb_parties lb);
              lb1 = lb\<lparr>lb_parties := pg\<rparr>
          in (result, if hasValue result then lb1\<lparr>lb_partiesCreated := lb_partiesCreated lb + 1\<rparr> else lb1))"

definition lb_disbandParty :: "PartyId \<Rightarrow> u64 \<Rightarrow> LobbyServer \<Rightarrow> unit GameResult \<times> LobbyServer" where
  "lb_disbandParty partyId requesterId lb =
    (let (result, pg) = pg_disbandParty partyId requesterId (lb_parties lb);
         lb1 = lb\<lparr>lb_parties := pg\<rparr>
     in (result, if hasValue result then lb1\<lparr>lb_partiesDisbanded := lb_partiesDisbanded lb + 1\<rparr> else lb1))"

definition lb_addPartyMember ::
  "PartyId \<Rightarrow> u64 \<Rightarrow> string \<Rightarrow> PlayerRating \<Rightarrow> LobbyServer \<Rightarrow> unit GameResult \<times> LobbyServer" where
  "lb_addPartyMember partyId playerId name rating lb =
    (let (r, pg) = pg_addMember partyId playerId name rating (lb_parties lb) in (r, lb\<lparr>lb_parties := pg\<rparr>))"

definition lb_removePartyMember :: "PartyId \<Rightarrow> u64 \<Rightarrow> LobbyServer \<Rightarrow> unit GameResult \<times> LobbyServer" where
  "lb_removePartyMember partyId playerId lb =
    (let (r, pg) = pg_removeMember partyId playerId (lb_parties lb) in (r, lb\<lparr>lb_parties := pg\<rparr>))"

definition lb_promotePartyLeader :: "PartyId \<Rightarrow> u64 \<Rightarrow> u64 \<Rightarrow> LobbyServer \<Rightarrow> unit GameResult \<times> LobbyServer" where
  "lb_promotePartyLeader partyId requesterId newLeaderId lb =
    (let (r, pg) = pg_promoteLeader partyId requesterId newLeaderId (lb_parties lb) in (r, lb\<lparr>lb_parties := pg\<rparr>))"

definition lb_getParty :: "PartyId \<Rightarrow> LobbyServer \<Rightarrow> Party option" where
  "lb_getParty partyId lb = pg_getParty partyId (lb_parties lb)"

definition lb_getPlayerParty :: "u64 \<Rightarrow> LobbyServer \<Rightarrow> PartyId option" where
  "lb_getPlayerParty playerId lb = pg_getPlayerParty playerId (lb_parties lb)"

text \<open>The tickets of a party: every member with the party's average rating; \<open>nows\<close> gives the clock
  reading for each member.\<close>

definition partyTickets :: "(u64 \<Rightarrow> int) \<Rightarrow> int \<Rightarrow> Party \<Rightarrow> MatchmakingTicket list" where
  "partyTickets nows avgRating party =
     map (\<lambda>m. \<lparr>mt_playerId = pa_playerId m, mt_rating = defaultPlayerRating\<lparr>pr_mmr := avgRating\<rparr>,
                mt_mode = pt_preferredMode party, mt_region = Any, mt_enqueuedAt = nows (pa_playerId m)\<rparr>)
       (pt_members party)"

definition lb_enqueueParty :: "(u64 \<Rightarrow> int) \<Rightarrow> PartyId \<Rightarrow> LobbyServer \<Rightarrow> unit GameResult \<times> LobbyServer" where
  "lb_enqueueParty nows partyId lb =
    (if \<not> lb_running lb then (err LobbyNotStarted ''lobby server is not running'', lb)
     else case pg_getParty partyId (lb_parties lb) of
       None \<Rightarrow> (err PartyNotFound ''party not found'', lb)
     | Some party \<Rightarrow>
         (case pg_averagePartyRating partyId (lb_parties lb) of
            None \<Rightarrow> (err PartyNotFound ''party has no members'', lb)
          | Some avgRating \<Rightarrow>
              let tickets = partyTickets nows avgRating party
              in case enqueueAll mq_enqueue mq_dequeue mt_playerId tickets tickets (lb_queue lb) of
                   (Inl e, q) \<Rightarrow> (Inl e, lb\<lparr>lb_queue := q\<rparr>)
                 | (Inr _, q) \<Rightarrow>
                     (Inr (), lb\<lparr>lb_queue := q, lb_parties := snd (pg_setInQueue partyId True (lb_parties lb))\<rparr>)))"

definition lb_dequeueParty :: "PartyId \<Rightarrow> LobbyServer \<Rightarrow> unit GameResult \<times> LobbyServer" where
  "lb_dequeueParty partyId lb =
    (case pg_getParty partyId (lb_parties lb) of
       None \<Rightarrow> (err PartyNotFound ''party not found'', lb)
     | Some party \<Rightarrow>
         (Inr (), lb\<lparr>lb_queue := fold (\<lambda>m q. snd (mq_dequeue (pa_playerId m) q)) (pt_members party) (lb_queue lb),
                     lb_parties := snd (pg_setInQueue partyId False (lb_parties lb))\<rparr>))"

text \<open>The loop of \<open>processMatchmaking\<close>; \<open>clocks k\<close> are the clock readings of its \<open>k\<close>-th round. Every
  match takes at least its anchor out of the queue, so the loop ends.\<close>

lemma length_removeAt_le: "length (mq_tickets (mq_removeAt idx q)) = length (mq_tickets q) - 1"
  by (simp add: mq_removeAt_def Let_def)

lemma length_removes_le: "length (mq_tickets (fold mq_removeAt ds q)) \<le> length (mq_tickets q)"
proof (induction ds arbitrary: q)
  case (Cons d ds)
  from Cons.IH [of "mq_removeAt d q"] show ?case by (simp add: length_removeAt_le)
qed simp

lemma tryMatch_shrinks:
  assumes "mq_tryMatch sqrtd expf clock q = (Some r, q')"
  shows "length (mq_tickets q') < length (mq_tickets q)"
proof -
  obtain cs where cs: "firstAnchor clock q [0..<length (mq_tickets q)] = Some cs"
    and q': "q' = fold mq_removeAt (rev (sort cs)) (q\<lparr>mq_nextMatchId := mq_nextMatchId q + 1\<rparr>)"
    using assms by (auto simp: mq_tryMatch_def split: if_splits option.splits)
  obtain a where a: "a < length (mq_tickets q)" "cs = anchorCandidates clock q a" using firstAnchor_Some [OF cs] by auto
  then obtain d ds where "rev (sort cs) = d # ds" by (cases "rev (sort cs)") (auto simp: anchorCandidates_eq)
  then show ?thesis
    using a(1) length_removes_le [of ds "mq_removeAt d (q\<lparr>mq_nextMatchId := mq_nextMatchId q + 1\<rparr>)"]
    by (simp add: q' length_removeAt_le)
qed

function drainMatches ::
  "(rat \<Rightarrow> rat) \<Rightarrow> (rat \<Rightarrow> rat) \<Rightarrow> (nat \<Rightarrow> nat \<Rightarrow> nat \<Rightarrow> int) \<Rightarrow> nat \<Rightarrow> MatchmakingQueue
     \<Rightarrow> MatchResult list \<times> MatchmakingQueue" where
  "drainMatches sqrtd expf clocks k q =
    (case mq_tryMatch sqrtd expf (clocks k) q of
       (None, q') \<Rightarrow> ([], q')
     | (Some r, q') \<Rightarrow> (let (rs, q'') = drainMatches sqrtd expf clocks (Suc k) q' in (r # rs, q'')))"
  by pat_completeness auto

termination
  by (relation "measure (\<lambda>(sqrtd, expf, clocks, k, q). length (mq_tickets q))")
     (auto dest: tryMatch_shrinks [OF sym])

declare drainMatches.simps [simp del]

definition lb_processMatchmaking ::
  "(rat \<Rightarrow> rat) \<Rightarrow> (rat \<Rightarrow> rat) \<Rightarrow> (nat \<Rightarrow> nat \<Rightarrow> nat \<Rightarrow> int) \<Rightarrow> LobbyServer \<Rightarrow> MatchResult list \<times> LobbyServer" where
  "lb_processMatchmaking sqrtd expf clocks lb =
    (let (matches, q) = drainMatches sqrtd expf clocks 0 (lb_queue lb)
     in (matches, lb\<lparr>lb_queue := q, lb_matchesFormed := lb_matchesFormed lb + of_nat (length matches)\<rparr>))"

definition lb_stats :: "LobbyServer \<Rightarrow> LobbyStats" where
  "lb_stats lb = \<lparr>ls_queuedPlayers = mq_queueSize (lb_queue lb), ls_matchesFormed = lb_matchesFormed lb,
     ls_activeParties = pg_partyCount (lb_parties lb), ls_partiesCreated = lb_partiesCreated lb,
     ls_partiesDisbanded = lb_partiesDisbanded lb\<rparr>"

section \<open>Invariant\<close>

definition lb_inv :: "LobbyServer \<Rightarrow> bool" where
  "lb_inv lb \<longleftrightarrow> mq_inv (lb_queue lb) \<and> pg_inv (lb_parties lb)"

lemma drain_result:
  assumes "mq_inv q"
  shows "case drainMatches sqrtd expf clocks k q of (rs, q') \<Rightarrow>
    mq_inv q' \<and> mq_config q' = mq_config q \<and>
    mset (mq_tickets q) = mset (concat (map mr_players rs)) + mset (mq_tickets q') \<and>
    mq_tryMatch sqrtd expf (clocks (k + length rs)) q' = (None, q')"
  using assms
proof (induction sqrtd expf clocks k q rule: drainMatches.induct)
  case (1 sqrtd expf clocks k q)
  obtain r q1 where m: "mq_tryMatch sqrtd expf (clocks k) q = (r, q1)" by fastforce
  show ?case
  proof (cases r)
    case None
    with m have "q1 = q" by (intro tryMatch_None(1)) simp
    with None m 1(2) show ?thesis by (subst drainMatches.simps) simp
  next
    case (Some mr)
    with m have m': "mq_tryMatch sqrtd expf (clocks k) q = (Some mr, q1)" by simp
    note T = tryMatch_Some(2,3,5) [OF 1(2) m']
    obtain rs q2 where d: "drainMatches sqrtd expf clocks (Suc k) q1 = (rs, q2)" by fastforce
    from 1(1) [OF m' [symmetric] refl T(1)] T d show ?thesis
      by (subst drainMatches.simps) (simp add: m' ac_simps)
  qed
qed

lemma enqueueAll_queue:
  assumes "mq_inv q" "distinct (map mt_playerId ts)"
  shows "case enqueueAll mq_enqueue mq_dequeue mt_playerId ts ts q of (r, q') \<Rightarrow>
    mq_inv q' \<and> mset (mq_tickets q') = (case r of Inr _ \<Rightarrow> mset (mq_tickets q) + mset ts | Inl _ \<Rightarrow> mset (mq_tickets q))"
  using mq.enqueueAll_atomic [of q "[]" ts] assms by (simp split: prod.splits sum.splits)

lemma partyTickets_distinct:
  assumes "pg_inv pg" "pg_getParty pid pg = Some party"
  shows "distinct (map mt_playerId (partyTickets nows avg party))"
  using pg_inv_party(3) [OF assms(1), of pid party] assms(2)
  by (simp add: party_ok_def partyTickets_def comp_def pg_getParty_def)

lemma mq_inv_dequeues: "mq_inv q \<Longrightarrow> mq_inv (fold (\<lambda>m q. snd (mq_dequeue (pa_playerId m) q)) ms q)"
  by (induction ms arbitrary: q) (simp_all add: mq_inv_dequeue)

section \<open>Runs\<close>

datatype lb_op =
    LbStart | LbStop
  | LbEnqueue u64 PlayerRating GameMode Region int
  | LbDequeue u64
  | LbCreate u64 string PlayerRating
  | LbDisband PartyId u64
  | LbAdd PartyId u64 string PlayerRating
  | LbRemove PartyId u64
  | LbPromote PartyId u64 u64
  | LbEnqueueParty "u64 \<Rightarrow> int" PartyId
  | LbDequeueParty PartyId
  | LbProcess "rat \<Rightarrow> rat" "rat \<Rightarrow> rat" "nat \<Rightarrow> nat \<Rightarrow> nat \<Rightarrow> int"

fun lb_exec :: "lb_op \<Rightarrow> LobbyServer \<Rightarrow> LobbyServer" where
  "lb_exec LbStart lb = snd (lb_start lb)"
| "lb_exec LbStop lb = lb_stop lb"
| "lb_exec (LbEnqueue p r m g now) lb = snd (lb_enqueuePlayer p r m g now lb)"
| "lb_exec (LbDequeue p) lb = snd (lb_dequeuePlayer p lb)"
| "lb_exec (LbCreate l name r) lb = snd (lb_createParty l name r lb)"
| "lb_exec (LbDisband pid req) lb = snd (lb_disbandParty pid req lb)"
| "lb_exec (LbAdd pid q name r) lb = snd (lb_addPartyMember pid q name r lb)"
| "lb_exec (LbRemove pid q) lb = snd (lb_removePartyMember pid q lb)"
| "lb_exec (LbPromote pid req new) lb = snd (lb_promotePartyLeader pid req new lb)"
| "lb_exec (LbEnqueueParty nows pid) lb = snd (lb_enqueueParty nows pid lb)"
| "lb_exec (LbDequeueParty pid) lb = snd (lb_dequeueParty pid lb)"
| "lb_exec (LbProcess sqrtd expf clocks) lb = snd (lb_processMatchmaking sqrtd expf clocks lb)"

text \<open>Seen from the parties, every operation is one of theirs or none.\<close>

lemma lb_parties_exec:
  "lb_parties (lb_exec op lb) = lb_parties lb \<or> (\<exists>o'. lb_parties (lb_exec op lb) = pg_exec o' (lb_parties lb))"
proof (cases op)
  case (LbCreate l name r)
  have "snd (pg_createParty l name r pg) = pg_exec (PgCreate l name r) pg" for pg by simp
  then show ?thesis unfolding LbCreate by (auto simp: lb_createParty_def Let_def case_prod_beta simp del: pg_exec.simps)
next
  case (LbDisband pid req)
  have "snd (pg_disbandParty pid req pg) = pg_exec (PgDisband pid req) pg" for pg by simp
  then show ?thesis unfolding LbDisband by (auto simp: lb_disbandParty_def Let_def case_prod_beta simp del: pg_exec.simps)
next
  case (LbAdd pid q name r)
  have "snd (pg_addMember pid q name r pg) = pg_exec (PgAdd pid q name r) pg" for pg by simp
  then show ?thesis unfolding LbAdd by (auto simp: lb_addPartyMember_def case_prod_beta simp del: pg_exec.simps)
next
  case (LbRemove pid q)
  have "snd (pg_removeMember pid q pg) = pg_exec (PgRemove pid q) pg" for pg by simp
  then show ?thesis unfolding LbRemove by (auto simp: lb_removePartyMember_def case_prod_beta simp del: pg_exec.simps)
next
  case (LbPromote pid req new)
  have "snd (pg_promoteLeader pid req new pg) = pg_exec (PgPromote pid req new) pg" for pg by simp
  then show ?thesis unfolding LbPromote by (auto simp: lb_promotePartyLeader_def case_prod_beta simp del: pg_exec.simps)
next
  case (LbEnqueueParty nows pid)
  have "snd (pg_setInQueue pid b pg) = pg_exec (PgSetInQueue pid b) pg" for b pg by simp
  then show ?thesis unfolding LbEnqueueParty
    by (auto simp: lb_enqueueParty_def Let_def split: option.splits sum.splits prod.splits simp del: pg_exec.simps)
next
  case (LbDequeueParty pid)
  have "snd (pg_setInQueue pid b pg) = pg_exec (PgSetInQueue pid b) pg" for b pg by simp
  then show ?thesis unfolding LbDequeueParty
    by (auto simp: lb_dequeueParty_def split: option.splits simp del: pg_exec.simps)
qed (auto simp: lb_start_def lb_stop_def lb_enqueuePlayer_def lb_dequeuePlayer_def lb_processMatchmaking_def
    Let_def case_prod_beta)

lemma lb_queue_exec:
  assumes "mq_inv (lb_queue lb)" "pg_inv (lb_parties lb)"
  shows "mq_inv (lb_queue (lb_exec op lb))"
proof (cases op)
  case (LbEnqueueParty nows pid)
  show ?thesis
  proof (cases "pg_getParty pid (lb_parties lb)")
    case (Some party)
    have "mq_inv (snd (enqueueAll mq_enqueue mq_dequeue mt_playerId ts ts (lb_queue lb)))"
      if "ts = partyTickets nows avg party" for ts avg
      using enqueueAll_queue [OF assms(1), of ts] partyTickets_distinct [OF assms(2) Some] that by auto
    then show ?thesis using assms(1) Some unfolding LbEnqueueParty
      by (auto simp: lb_enqueueParty_def Let_def split: option.splits sum.splits prod.splits) (metis snd_conv)+
  qed (use assms(1) LbEnqueueParty in \<open>simp add: lb_enqueueParty_def\<close>)
next
  case (LbProcess sqrtd expf clocks)
  then show ?thesis using drain_result [OF assms(1), of sqrtd expf clocks 0]
    by (simp add: lb_processMatchmaking_def case_prod_beta Let_def)
qed (use assms(1) in \<open>auto simp: lb_start_def lb_stop_def lb_enqueuePlayer_def lb_dequeuePlayer_def lb_createParty_def
    lb_disbandParty_def lb_addPartyMember_def lb_removePartyMember_def lb_promotePartyLeader_def lb_dequeueParty_def
    Let_def case_prod_beta split: option.splits intro: inv_intros mq_inv_dequeues\<close>)

lemma lb_inv_run:
  assumes "lb_inv lb" "unat (pg_nextPartyId (lb_parties lb)) + length ops \<le> 18446744073709551615"
  shows "lb_inv (fold lb_exec ops lb)"
  using assms
proof (induction ops arbitrary: lb)
  case (Cons op ops)
  have n: "unat (pg_nextPartyId (lb_parties lb)) < 18446744073709551615" using Cons.prems(2) by simp
  have inv: "mq_inv (lb_queue lb)" "pg_inv (lb_parties lb)" using Cons.prems(1) by (auto simp: lb_inv_def)
  have P: "pg_inv (lb_parties (lb_exec op lb))"
    "unat (pg_nextPartyId (lb_parties (lb_exec op lb))) \<le> unat (pg_nextPartyId (lb_parties lb)) + 1"
    using lb_parties_exec [of op lb] pg_inv_exec [OF inv(2) n] inv(2) by auto
  with lb_queue_exec [OF inv, of op] have "lb_inv (lb_exec op lb)" by (simp add: lb_inv_def)
  from Cons.IH [OF this] P(2) Cons.prems(2) show ?case by simp
qed simp

lemma lb_inv_reachable:
  assumes "length ops < 18446744073709551615"
  shows "lb_inv (fold lb_exec ops (mkLobbyServer cfg))"
proof (rule lb_inv_run)
  show "lb_inv (mkLobbyServer cfg)" by (simp add: lb_inv_def mkLobbyServer_def mq_inv_mk pg_inv_mk)
qed (use assms in \<open>simp add: mkLobbyServer_def mkPartyManager_def\<close>)

section \<open>Properties\<close>

text \<open>Queueing a party is all or nothing. In every reachable state: if the party is accepted, the
  queue gains exactly one ticket per member, each with the party's average rating and
  preferred mode, and the party is marked; if it is refused, for instance because one member
  is queued already or the queue is full, the queue holds exactly the tickets it held before
  and the parties are unchanged.\<close>

theorem party_enqueue_atomic:
  assumes "length ops < 18446744073709551615"
  shows "let lb = fold lb_exec ops (mkLobbyServer cfg) in
    case lb_enqueueParty nows pid lb of
      (Inr _, lb') \<Rightarrow>
        (\<exists>party avg. lb_getParty pid lb = Some party \<and> pg_averagePartyRating pid (lb_parties lb) = Some avg \<and>
           mset (mq_tickets (lb_queue lb')) = mset (mq_tickets (lb_queue lb)) + mset (partyTickets nows avg party) \<and>
           (\<forall>m\<in>set (pt_members party). lb_isPlayerQueued (pa_playerId m) lb') \<and>
           lb_getParty pid lb' = Some (party\<lparr>pt_inQueue := True\<rparr>))
    | (Inl _, lb') \<Rightarrow>
        mset (mq_tickets (lb_queue lb')) = mset (mq_tickets (lb_queue lb)) \<and> lb_parties lb' = lb_parties lb"
proof -
  define lb where "lb = fold lb_exec ops (mkLobbyServer cfg)"
  have inv: "mq_inv (lb_queue lb)" "pg_inv (lb_parties lb)"
    using lb_inv_reachable [OF assms, of cfg] by (auto simp: lb_inv_def lb_def)
  show ?thesis
  proof (cases "lb_running lb \<and> pg_getParty pid (lb_parties lb) \<noteq> None \<and> pg_averagePartyRating pid (lb_parties lb) \<noteq> None")
    case False
    then show ?thesis unfolding Let_def lb_def [symmetric]
      by (auto simp: lb_enqueueParty_def split: option.splits)
  next
    case True
    then obtain party avg where pa: "lb_running lb" "pg_getParty pid (lb_parties lb) = Some party"
      "pg_averagePartyRating pid (lb_parties lb) = Some avg" by auto
    define ts where "ts = partyTickets nows avg party"
    obtain r q' where e: "enqueueAll mq_enqueue mq_dequeue mt_playerId ts ts (lb_queue lb) = (r, q')" by fastforce
    have E: "mq_inv q'" "mset (mq_tickets q') = (case r of Inr _ \<Rightarrow> mset (mq_tickets (lb_queue lb)) + mset ts
        | Inl _ \<Rightarrow> mset (mq_tickets (lb_queue lb)))"
      using enqueueAll_queue [OF inv(1) partyTickets_distinct [OF inv(2) pa(2), of nows avg], folded ts_def] e by simp_all
    show ?thesis
    proof (cases r)
      case (Inl e')
      then show ?thesis unfolding Let_def lb_def [symmetric]
        using pa e E by (simp add: lb_enqueueParty_def flip: ts_def)
    next
      case (Inr u)
      define lb' where "lb' = lb\<lparr>lb_queue := q', lb_parties := snd (pg_setInQueue pid True (lb_parties lb))\<rparr>"
      have res: "lb_enqueueParty nows pid lb = (Inr (), lb')"
        using pa e Inr by (simp add: lb_enqueueParty_def lb'_def flip: ts_def)
      have mset: "mset (mq_tickets q') = mset (mq_tickets (lb_queue lb)) + mset ts" using E(2) Inr by simp
      have "mt_playerId ` set ts \<subseteq> mt_playerId ` set (mq_tickets q')"
        using arg_cong [OF mset, of set_mset] by auto
      moreover have "mt_playerId ` set ts = pa_playerId ` set (pt_members party)"
        by (simp add: ts_def partyTickets_def image_image)
      ultimately have "\<forall>m\<in>set (pt_members party). lb_isPlayerQueued (pa_playerId m) lb'"
        using mq_isQueued_iff [OF E(1)] by (auto simp: lb_isPlayerQueued_def lb'_def)
      moreover have "lb_getParty pid lb' = Some (party\<lparr>pt_inQueue := True\<rparr>)"
        using pa(2) by (simp add: lb_getParty_def lb'_def pg_getParty_def pg_setInQueue_def update_conv')
      ultimately show ?thesis unfolding Let_def lb_def [symmetric]
        using pa mset by (simp add: res lb_getParty_def ts_def) (simp add: lb'_def)
    qed
  qed
qed

theorem party_enqueue_atomic_witness:
  "let lb = fold lb_exec [LbStart, LbCreate 7 ''ann'' defaultPlayerRating, LbAdd 1 8 ''bob'' defaultPlayerRating,
       LbEnqueue 8 defaultPlayerRating Duel Any 0]
       (mkLobbyServer \<lparr>lc_queueConfig = defaultQueueConfig, lc_maxPartySize = 5\<rparr>) in
    case lb_enqueueParty (\<lambda>_. 0) 1 lb of
      (Inr _, lb') \<Rightarrow>
        (\<exists>party avg. lb_getParty 1 lb = Some party \<and> pg_averagePartyRating 1 (lb_parties lb) = Some avg \<and>
           mset (mq_tickets (lb_queue lb')) = mset (mq_tickets (lb_queue lb)) + mset (partyTickets (\<lambda>_. 0) avg party) \<and>
           (\<forall>m\<in>set (pt_members party). lb_isPlayerQueued (pa_playerId m) lb') \<and>
           lb_getParty 1 lb' = Some (party\<lparr>pt_inQueue := True\<rparr>))
    | (Inl _, lb') \<Rightarrow>
        mset (mq_tickets (lb_queue lb')) = mset (mq_tickets (lb_queue lb)) \<and> lb_parties lb' = lb_parties lb"
  by (rule party_enqueue_atomic) simp

text \<open>A matchmaking cycle ends and takes everything it can. In every reachable state the loop of
  \<open>processMatchmaking\<close> terminates; the players of the matches it returns and the tickets left
  are together the tickets before, every match is counted, and at the clock of its last round
  no further match exists.\<close>

theorem matchmaking_cycle_drains:
  assumes "length ops < 18446744073709551615"
  shows "let lb = fold lb_exec ops (mkLobbyServer cfg) in
    case lb_processMatchmaking sqrtd expf clocks lb of (matches, lb') \<Rightarrow>
      mset (mq_tickets (lb_queue lb)) = mset (concat (map mr_players matches)) + mset (mq_tickets (lb_queue lb')) \<and>
      lb_matchesFormed lb' = lb_matchesFormed lb + of_nat (length matches) \<and>
      length matches \<le> mq_queueSize (lb_queue lb) \<and>
      fst (mq_tryMatch sqrtd expf (clocks (length matches)) (lb_queue lb')) = None"
proof -
  define lb where "lb = fold lb_exec ops (mkLobbyServer cfg)"
  have inv: "mq_inv (lb_queue lb)"
    using lb_inv_reachable [OF assms, of cfg] by (auto simp: lb_inv_def lb_def)
  have count: "length (fst (drainMatches sqrtd expf clocks k q)) \<le> length (mq_tickets q)" for k q
  proof (induction sqrtd expf clocks k q rule: drainMatches.induct)
    case (1 sqrtd expf clocks k q)
    obtain r q1 where m: "mq_tryMatch sqrtd expf (clocks k) q = (r, q1)" by fastforce
    show ?case
    proof (cases r)
      case (Some mr)
      with m have m': "mq_tryMatch sqrtd expf (clocks k) q = (Some mr, q1)" by simp
      from 1 [OF m' [symmetric] refl] tryMatch_shrinks [OF m'] show ?thesis
        by (subst drainMatches.simps) (simp add: m' case_prod_beta)
    qed (use m in \<open>subst drainMatches.simps, simp\<close>)
  qed
  obtain matches q where d: "drainMatches sqrtd expf clocks 0 (lb_queue lb) = (matches, q)" by fastforce
  from drain_result [OF inv, of sqrtd expf clocks 0] count [of 0 "lb_queue lb"]
  show ?thesis unfolding Let_def lb_def [symmetric]
    by (simp add: lb_processMatchmaking_def d mq_queueSize_def)
qed

theorem matchmaking_cycle_drains_witness:
  "let lb = fold lb_exec [LbStart, LbEnqueue 1 defaultPlayerRating Duel Any 0, LbEnqueue 2 defaultPlayerRating Duel EU 0]
       (mkLobbyServer \<lparr>lc_queueConfig = defaultQueueConfig, lc_maxPartySize = 5\<rparr>) in
    case lb_processMatchmaking (\<lambda>x. x) (\<lambda>x. 1) (\<lambda>k a i. 0) lb of (matches, lb') \<Rightarrow>
      mset (mq_tickets (lb_queue lb)) = mset (concat (map mr_players matches)) + mset (mq_tickets (lb_queue lb')) \<and>
      lb_matchesFormed lb' = lb_matchesFormed lb + of_nat (length matches) \<and>
      length matches \<le> mq_queueSize (lb_queue lb) \<and>
      fst (mq_tryMatch (\<lambda>x. x) (\<lambda>x. 1) (\<lambda>a i. 0) (lb_queue lb')) = None"
  using matchmaking_cycle_drains [where ops = "[LbStart, LbEnqueue 1 defaultPlayerRating Duel Any 0,
      LbEnqueue 2 defaultPlayerRating Duel EU 0]" and clocks = "\<lambda>k a i. 0"]
  by (simp del: fold_simps)

end
