(* ===== verification/Ecs_System_Loop.thy ===== *)
theory Ecs_System_Loop
  imports Ecs_Query
begin

text \<open>
  The loop every game system has: it visits the slots of one component pool in order, rebuilds
  the entity handle from the id of the slot with version 0, fetches a reference to its component
  and changes the component and the rest of the system's state. The theory proves that on a
  well-formed pool none of the fetches can fail and that the loop is a left-to-right pass
  over the slots, with the pool's ids, indices and version counters untouched.
\<close>

section \<open>The loop\<close>

text \<open>One iteration. \<open>body e c st\<close> is the component after the iteration and the rest of the
  state; \<open>None\<close> is a violated assertion.\<close>

definition visitSlot :: "(Entity \<Rightarrow> 'c \<Rightarrow> 's \<Rightarrow> 'c \<times> 's) \<Rightarrow> nat \<Rightarrow> 'c ComponentStorage \<times> 's \<Rightarrow> ('c ComponentStorage \<times> 's) option" where
  "visitSlot body i pst =
     (case cs_EntityAt (fst pst) i of
        None \<Rightarrow> None
      | Some entityId \<Rightarrow>
          let entity = mkEntity entityId 0
          in case cs_Get (fst pst) entity of
               None \<Rightarrow> None
             | Some c \<Rightarrow> let (c', st') = body entity c (snd pst)
                          in Some (assignRef entity c' (fst pst), st'))"

fun visitSlots :: "(Entity \<Rightarrow> 'c \<Rightarrow> 's \<Rightarrow> 'c \<times> 's) \<Rightarrow> nat list \<Rightarrow> 'c ComponentStorage \<times> 's \<Rightarrow> ('c ComponentStorage \<times> 's) option" where
  "visitSlots body [] pst = Some pst"
| "visitSlots body (i # is) pst =
     (case visitSlot body i pst of None \<Rightarrow> None | Some pst' \<Rightarrow> visitSlots body is pst')"

definition forEachComponent :: "(Entity \<Rightarrow> 'c \<Rightarrow> 's \<Rightarrow> 'c \<times> 's) \<Rightarrow> 'c ComponentStorage \<times> 's \<Rightarrow> ('c ComponentStorage \<times> 's) option" where
  "forEachComponent body pst = visitSlots body [0..<cs_Size (fst pst)] pst"

section \<open>The loop as a pass over the slots\<close>

fun passOver :: "(Entity \<Rightarrow> 'c \<Rightarrow> 's \<Rightarrow> 'c \<times> 's) \<Rightarrow> (u32 \<times> 'c) list \<Rightarrow> 's \<Rightarrow> 'c list \<times> 's" where
  "passOver body [] st = ([], st)"
| "passOver body ((k, c) # xs) st =
     (let (c', st') = body (mkEntity k 0) c st; (cs, st'') = passOver body xs st'
      in (c' # cs, st''))"

definition withDense :: "'c list \<Rightarrow> 'c ComponentStorage \<Rightarrow> 'c ComponentStorage" where
  "withDense cs s = s\<lparr>cs_dense := cs\<rparr>"

lemma length_passOver [simp]: "length (fst (passOver body xs st)) = length xs"
proof (induction xs arbitrary: st)
  case (Cons x xs)
  then show ?case by (cases x) (simp add: split_beta)
qed simp

lemma withDense_inv [inv_intros]:
  "cs_inv s \<Longrightarrow> length cs = length (cs_dense s) \<Longrightarrow> cs_inv (withDense cs s)"
  by (simp add: withDense_def cs_inv_def)

lemma withDense_Has [simp]: "cs_Has (withDense cs s) e = cs_Has s e"
  by (simp add: withDense_def cs_Has_def)

lemma visitSlot_step:
  assumes "cs_inv s" and "i < length (cs_dense s)"
  shows "visitSlot body i (s, st) =
    (let (c', st') = body (mkEntity (cs_entities s ! i) 0) (cs_dense s ! i) st
     in Some (s\<lparr>cs_dense := (cs_dense s)[i := c']\<rparr>, st'))"
proof -
  have l: "i < length (cs_entities s)" using assms(2) cs_invD(1) [OF assms(1)] by simp
  have k: "unat (cs_entities s ! i) < 16777216"
    using cs_invD(3) [OF assms(1)] cs_invD(5) [OF assms] by simp
  have g: "cs_Get s (mkEntity (cs_entities s ! i) 0) = Some (cs_dense s ! i)"
    using cs_lookup_slot [OF assms] k by (simp add: cs_Get_lookup)
  have "assignRef (mkEntity (cs_entities s ! i) 0) c s = s\<lparr>cs_dense := (cs_dense s)[i := c]\<rparr>" for c
    using cs_invD(6) [OF assms] unat_slot [OF assms(1), of i] assms(2) k by (simp add: assignRef_def)
  then show ?thesis using l g by (simp add: visitSlot_def cs_EntityAt_def split_beta Let_def)
qed

text \<open>The state after the first \<open>length vis\<close> iterations.\<close>

lemma visitSlots_from:
  assumes "cs_inv s" and "length (cs_dense s) = length vis + length rest"
    and "s' = withDense (vis @ rest) s"
  shows "visitSlots body [length vis..<length (cs_dense s)] (s', st) =
    (let (cs, st') = passOver body (zip (drop (length vis) (cs_entities s)) rest) st
     in Some (withDense (vis @ cs) s, st'))"
  using assms(2,3)
proof (induction rest arbitrary: vis s' st)
  case Nil
  then show ?case by (simp add: withDense_def)
next
  case (Cons c rest)
  let ?i = "length vis"
  have inv: "cs_inv s'" using withDense_inv [OF assms(1)] Cons.prems by simp
  have d: "cs_dense s' = vis @ c # rest" "cs_entities s' = cs_entities s"
    using Cons.prems(2) by (simp_all add: withDense_def)
  have i: "?i < length (cs_dense s')" using d by simp
  have u: "[?i..<length (cs_dense s)] = ?i # [Suc ?i..<length (cs_dense s)]"
    using Cons.prems(1) by (intro upt_conv_Cons) simp
  have dr: "drop ?i (cs_entities s) = cs_entities s ! ?i # drop (Suc ?i) (cs_entities s)"
    using Cons.prems(1) cs_invD(1) [OF assms(1)] by (simp add: Cons_nth_drop_Suc)
  obtain c' st' where b: "body (mkEntity (cs_entities s ! ?i) 0) c st = (c', st')" by fastforce
  have v: "visitSlot body ?i (s', st) = Some (withDense ((vis @ [c']) @ rest) s, st')"
    using visitSlot_step [OF inv i, of body st] b d
    by (simp add: nth_append list_update_append Cons.prems(2) withDense_def)
  have "visitSlots body [length (vis @ [c'])..<length (cs_dense s)] (withDense ((vis @ [c']) @ rest) s, st')
      = (let (cs, st'') = passOver body (zip (drop (length (vis @ [c'])) (cs_entities s)) rest) st'
         in Some (withDense ((vis @ [c']) @ cs) s, st''))"
    by (rule Cons.IH) (use Cons.prems(1) in simp_all)
  then show ?case
    using b by (simp add: u v dr split_beta)
qed

lemma forEachComponent_pass:
  assumes "cs_inv s"
  shows "forEachComponent body (s, st) =
    (let (cs, st') = passOver body (zip (cs_entities s) (cs_dense s)) st
     in Some (withDense cs s, st'))"
  using visitSlots_from [of s "[]" "cs_dense s" "withDense (cs_dense s) s" body st] assms
  by (simp add: forEachComponent_def cs_Size_def withDense_def)

lemma forEachComponent_Some:
  assumes "cs_inv s" and "forEachComponent body (s, st) = Some (s', st')"
  shows "cs_inv s'" and "cs_entities s' = cs_entities s" and "\<And>e. cs_Has s' e = cs_Has s e"
    and "cs_dense s' = fst (passOver body (zip (cs_entities s) (cs_dense s)) st)"
    and "st' = snd (passOver body (zip (cs_entities s) (cs_dense s)) st)"
proof -
  have s': "s' = withDense (fst (passOver body (zip (cs_entities s) (cs_dense s)) st)) s"
    "st' = snd (passOver body (zip (cs_entities s) (cs_dense s)) st)"
    using assms(2) by (auto simp: forEachComponent_pass [OF assms(1)] split_beta)
  show "cs_inv s'" unfolding s'(1)
    by (rule withDense_inv [OF assms(1)]) (simp add: cs_invD(1) [OF assms(1)])
  show "cs_entities s' = cs_entities s" "\<And>e. cs_Has s' e = cs_Has s e"
    by (simp_all add: s'(1)) (simp add: withDense_def)
  show "cs_dense s' = fst (passOver body (zip (cs_entities s) (cs_dense s)) st)"
    by (simp add: s'(1) withDense_def)
  show "st' = snd (passOver body (zip (cs_entities s) (cs_dense s)) st)" by (rule s'(2))
qed

lemma forEachComponent_defined: "cs_inv s \<Longrightarrow> \<exists>s' st'. forEachComponent body (s, st) = Some (s', st')"
  by (simp add: forEachComponent_pass split_beta)

text \<open>A body that leaves the rest of the state alone maps every component of the pool.\<close>

lemma passOver_pure:
  "(\<And>e c st. body e c st = (f e c, st)) \<Longrightarrow>
     passOver body xs st = (map (\<lambda>(k, c). f (mkEntity k 0) c) xs, st)"
  by (induction xs) auto

lemma forEachComponent_map:
  assumes inv: "cs_inv s" and body: "\<And>e c st. body e c st = (f e c, st)"
  shows "\<exists>s'. forEachComponent body (s, st) = Some (s', st) \<and> cs_inv s'
    \<and> cs_entities s' = cs_entities s
    \<and> (\<forall>k. cs_lookup s' k = map_option (f (mkEntity (word_of_nat k) 0)) (cs_lookup s k))"
proof -
  obtain s' where s': "forEachComponent body (s, st) = Some (s', st)"
    using forEachComponent_pass [OF inv, of body st] by (simp add: passOver_pure [of body f, OF body])
  note F = forEachComponent_Some [OF inv s']
  have len: "length (cs_entities s) = length (cs_dense s)" by (rule cs_invD(1) [OF inv])
  have d: "cs_dense s' = map (\<lambda>(k, c). f (mkEntity k 0) c) (zip (cs_entities s) (cs_dense s))"
    using F(4) by (simp add: passOver_pure [of body f, OF body])
  have "cs_lookup s' k = map_option (f (mkEntity (word_of_nat k) 0)) (cs_lookup s k)" for k
  proof (cases "cs_lookup s k")
    case None
    then have "k \<notin> dom (cs_lookup s')"
      using cs_dom_lookup [OF inv] cs_dom_lookup [OF F(1)] F(2) by auto
    then show ?thesis using None by auto
  next
    case (Some c)
    then have "k \<in> unat ` set (cs_entities s)" using cs_dom_lookup [OF inv] by auto
    then obtain i where i: "i < length (cs_dense s)" "k = unat (cs_entities s ! i)"
      using len by (auto simp: in_set_conv_nth)
    have "cs_lookup s' k = Some (f (mkEntity (cs_entities s ! i) 0) (cs_dense s ! i))"
      using cs_lookup_slot [OF F(1), of i] i F(2) d len by simp
    then show ?thesis using cs_lookup_slot [OF inv i(1)] i(2) by simp
  qed
  then show ?thesis using s' F(1,2) by blast
qed

section \<open>Systems that consume events\<close>

text \<open>Several systems visit a pool of events whose handling changes components of a second pool.
  A handler promises what becomes of the event (\<open>marked\<close>) and of the component of entity id \<open>k\<close>
  (\<open>effect k\<close>); then a whole loop applies the events to every component in slot order.\<close>

locale event_loop =
  fixes handler :: "Entity \<Rightarrow> 'ev \<Rightarrow> 'c ComponentStorage \<Rightarrow> 'ev \<times> 'c ComponentStorage"
    and marked :: "'ev \<Rightarrow> 'ev"
    and effect :: "nat \<Rightarrow> 'ev \<Rightarrow> 'c \<Rightarrow> 'c"
  assumes handler_event: "fst (handler e ev pool) = marked ev"
    and handler_inv: "cs_inv pool \<Longrightarrow> cs_inv (snd (handler e ev pool))"
    and handler_lookup: "cs_inv pool \<Longrightarrow>
          cs_lookup (snd (handler e ev pool)) k = map_option (effect k ev) (cs_lookup pool k)"
begin

lemma pass_events:
  "cs_inv pool \<Longrightarrow> fst (passOver handler xs pool) = map marked (map snd xs)
     \<and> cs_inv (snd (passOver handler xs pool))
     \<and> (\<forall>k. cs_lookup (snd (passOver handler xs pool)) k
            = map_option (fold (effect k) (map snd xs)) (cs_lookup pool k))"
proof (induction xs arbitrary: pool)
  case Nil
  then show ?case by (simp add: option.map_ident)
next
  case (Cons x xs)
  obtain i ev where x: "x = (i, ev)" by fastforce
  define pool' where "pool' = snd (handler (mkEntity i 0) ev pool)"
  have "cs_inv pool'" "\<And>k. cs_lookup pool' k = map_option (effect k ev) (cs_lookup pool k)"
    using handler_inv [OF Cons.prems] handler_lookup [OF Cons.prems] by (simp_all add: pool'_def)
  then show ?case
    using Cons.IH [of pool']
    by (simp add: x split_beta handler_event pool'_def [symmetric] option.map_comp comp_def)
qed

lemma loop_events:
  assumes "cs_inv events" and "cs_inv pool"
  shows "\<exists>events' pool'. forEachComponent handler (events, pool) = Some (events', pool')
    \<and> cs_inv events' \<and> cs_inv pool' \<and> cs_entities events' = cs_entities events
    \<and> cs_dense events' = map marked (cs_dense events)
    \<and> (\<forall>k. cs_lookup pool' k = map_option (fold (effect k) (cs_dense events)) (cs_lookup pool k))"
proof -
  obtain events' pool' where f: "forEachComponent handler (events, pool) = Some (events', pool')"
    using forEachComponent_defined [OF assms(1), of handler pool] by auto
  note F = forEachComponent_Some [OF assms(1) f]
  have "map snd (zip (cs_entities events) (cs_dense events)) = cs_dense events"
    using cs_invD(1) [OF assms(1)] by simp
  then show ?thesis
    using f F pass_events [OF assms(2), of "zip (cs_entities events) (cs_dense events)"] by simp
qed

end

section \<open>Writing through references\<close>

text \<open>A pool whose components were assigned through references: everything else is untouched.\<close>

definition sameIndex :: "'c ComponentStorage \<Rightarrow> 'c ComponentStorage \<Rightarrow> bool" where
  "sameIndex s s' \<longleftrightarrow> s' = withDense (cs_dense s') s \<and> length (cs_dense s') = length (cs_dense s)"

lemma sameIndex_refl [simp]: "sameIndex s s"
  by (simp add: sameIndex_def withDense_def)

lemma sameIndex_trans: "sameIndex s s' \<Longrightarrow> sameIndex s' s'' \<Longrightarrow> sameIndex s s''"
  unfolding sameIndex_def withDense_def by (cases s; cases s'; cases s'') auto

lemma sameIndex_assignRef [simp]: "sameIndex s (assignRef e c s)"
  by (simp add: sameIndex_def withDense_def assignRef_def)

lemma sameIndex_inv: "sameIndex s s' \<Longrightarrow> cs_inv s' = cs_inv s"
  unfolding sameIndex_def withDense_def by (cases s; cases s') (auto simp: cs_inv_def)

lemma sameIndex_Has: "sameIndex s s' \<Longrightarrow> cs_Has s' e = cs_Has s e"
  unfolding sameIndex_def withDense_def by (cases s; cases s') (auto simp: cs_Has_def)

lemma visitSlots_invariant:
  assumes "visitSlots body is (s, st) = Some (s', st')" "R st"
    and "\<And>e c st. R st \<Longrightarrow> R (snd (body e c st))"
  shows "sameIndex s s' \<and> R st'"
  using assms(1,2)
proof (induction "is" arbitrary: s st)
  case (Cons i "is")
  obtain s1 st1 where v: "visitSlot body i (s, st) = Some (s1, st1)"
    and rest: "visitSlots body is (s1, st1) = Some (s', st')"
    using Cons.prems(1) by (auto split: option.splits)
  have "sameIndex s s1 \<and> R st1"
    using v assms(3) Cons.prems(2) by (auto simp: visitSlot_def Let_def split_beta split: option.splits)
  then show ?case using Cons.IH [OF rest] sameIndex_trans by blast
qed simp

lemma forEachComponent_invariant:
  assumes "forEachComponent body (s, st) = Some (s', st')" "R st"
    and "\<And>e c st. R st \<Longrightarrow> R (snd (body e c st))"
  shows "sameIndex s s' \<and> R st'"
  using visitSlots_invariant [of body _ s st s' st' R] assms by (simp add: forEachComponent_def)

section \<open>Pools at another type\<close>

text \<open>A query ranges over pools of several component types. Its pools hold a sum of the types, and a
  typed pool is seen as such a pool by tagging its components.\<close>

definition cs_map :: "('a \<Rightarrow> 'b) \<Rightarrow> 'a ComponentStorage \<Rightarrow> 'b ComponentStorage" where
  "cs_map f s = \<lparr>cs_dense = map f (cs_dense s), cs_entities = cs_entities s, cs_sparse = cs_sparse s,
     cs_versions = cs_versions s, cs_globalVersion = cs_globalVersion s\<rparr>"

lemma cs_map_inv [simp]: "cs_inv (cs_map f s) = cs_inv s"
  by (simp add: cs_inv_def cs_map_def)

lemma cs_map_Has [simp]: "cs_Has (cs_map f s) e = cs_Has s e"
  by (simp add: cs_Has_def cs_map_def)

lemma cs_map_lookup:
  assumes "cs_inv s"
  shows "cs_lookup (cs_map f s) k = map_option f (cs_lookup s k)"
proof (cases "cs_lookup s k")
  case None
  then show ?thesis by (simp add: cs_lookup_def cs_map_def split: if_splits)
next
  case (Some c)
  then have "k \<in> unat ` set (cs_entities s)" using cs_dom_lookup [OF assms] by auto
  then obtain i where i: "i < length (cs_dense s)" "k = unat (cs_entities s ! i)"
    using cs_invD(1) [OF assms] by (auto simp: in_set_conv_nth)
  have "cs_lookup (cs_map f s) (unat (cs_entities (cs_map f s) ! i)) = Some (cs_dense (cs_map f s) ! i)"
    using i(1) assms by (intro cs_lookup_slot) (simp_all, simp add: cs_map_def)
  moreover have "cs_lookup s k = Some (cs_dense s ! i)" using cs_lookup_slot [OF assms i(1)] i(2) by simp
  ultimately show ?thesis using i by (simp add: cs_map_def)
qed

text \<open>Every key of a pool is the id of a handle with version 0.\<close>

lemma lookup_id:
  assumes "cs_inv s" "cs_lookup s k \<noteq> None"
  obtains e where "entity_version e = 0" "unat (entity_id e) = k"
proof -
  obtain i where i: "i < length (cs_dense s)" "k = unat (cs_entities s ! i)"
    using assms cs_dom_lookup [OF assms(1)] cs_invD(1) [OF assms(1)] by (fastforce simp: in_set_conv_nth)
  have "unat (cs_entities s ! i) < 16777216"
    using cs_invD(3) [OF assms(1)] cs_invD(5) [OF assms(1) i(1)] by simp
  then show thesis using that [of "mkEntity (cs_entities s ! i) 0"] i(2) by simp
qed

lemma lookup_no_id: "cs_inv s \<Longrightarrow> \<nexists>e. entity_version e = 0 \<and> unat (entity_id e) = k \<Longrightarrow> cs_lookup s k = None"
  using lookup_id by metis

section \<open>A pool with one component\<close>

text \<open>The pool after one \<^verbatim>\<open>Add\<close> for entity 0, as a concrete value.\<close>

definition singlePool :: "'c \<Rightarrow> 'c ComponentStorage" where
  "singlePool c = \<lparr>cs_dense = [c], cs_entities = [0], cs_sparse = [0], cs_versions = [1], cs_globalVersion = 1\<rparr>"

lemma singlePool_inv [simp]: "cs_inv (singlePool c)"
  by (simp add: cs_inv_def singlePool_def kInvalidIndex_def)

lemma singlePool_lookup [simp]: "cs_lookup (singlePool c) = [0 \<mapsto> c]"
  by (rule ext) (simp add: cs_lookup_def singlePool_def kInvalidIndex_def)

lemma singlePool_dense [simp]: "cs_dense (singlePool c) = [c]"
  by (simp add: singlePool_def)

lemma eidx_zero [simp]: "entity_id (mkEntity 0 v) = 0"
  by simp

end
