(* ===== verification/Inventory.thy ===== *)
theory Inventory
  imports Ecs_System_Loop Ieee_Float
begin

text \<open>
  \<^verbatim>\<open>include/cgs/game/inventory_types.hpp\<close>, \<^verbatim>\<open>inventory_components.hpp\<close> and
  \<^verbatim>\<open>src/game/inventory_system/inventory_system.cpp\<close>: item slots, the bag with its stacking,
  removing, moving and splitting operations, the equipment and its stat bonuses, and the system
  that wears equipment down and lets enchantments expire. Item ids and counts keep their 32
  bits; signed quantities (durability, bonuses) are integers, since their overflow is undefined
  behaviour; a \<^verbatim>\<open>float\<close> is the rational it denotes, with every operation rounded.
\<close>

section \<open>Types and constants\<close>

definition kDefaultInventoryCapacity :: u32 where "kDefaultInventoryCapacity = 40"

datatype EquipSlot = Head | Neck | Shoulders | Chest | Waist | Legs | Feet | Wrists | Hands
  | Finger1 | Finger2 | Trinket1 | Trinket2 | MainHand | OffHand | Ranged | Tabard | COUNT

primrec equipIndex :: "EquipSlot \<Rightarrow> nat" where
  "equipIndex Head = 0" | "equipIndex Neck = 1" | "equipIndex Shoulders = 2"
| "equipIndex Chest = 3" | "equipIndex Waist = 4" | "equipIndex Legs = 5"
| "equipIndex Feet = 6" | "equipIndex Wrists = 7" | "equipIndex Hands = 8"
| "equipIndex Finger1 = 9" | "equipIndex Finger2 = 10" | "equipIndex Trinket1 = 11"
| "equipIndex Trinket2 = 12" | "equipIndex MainHand = 13" | "equipIndex OffHand = 14"
| "equipIndex Ranged = 15" | "equipIndex Tabard = 16" | "equipIndex COUNT = 17"

definition kEquipSlotCount :: nat where "kEquipSlotCount = equipIndex COUNT"

definition kMaxAttributes :: nat where "kMaxAttributes = 16"

datatype ItemType = Consumable | Weapon | Armor | Accessory | Material | QuestItem | Container
  | Reagent | Miscellaneous

datatype ItemQuality = Poor | Common | Uncommon | Rare | Epic | Legendary

definition kIndestructible :: int where "kIndestructible = - 1"

section \<open>Bonuses, enchantments and slots\<close>

record StatBonuses =
  sb_attributes :: "int list"
  sb_armor :: int
  sb_attackSpeed :: rat
  sb_minDamage :: int
  sb_maxDamage :: int

definition noBonuses :: StatBonuses where
  "noBonuses = \<lparr>sb_attributes = replicate kMaxAttributes 0, sb_armor = 0, sb_attackSpeed = 0,
     sb_minDamage = 0, sb_maxDamage = 0\<rparr>"

definition addBonuses :: "StatBonuses \<Rightarrow> StatBonuses \<Rightarrow> StatBonuses" where
  "addBonuses a b =
     \<lparr>sb_attributes = map (\<lambda>i. sb_attributes a ! i + sb_attributes b ! i) [0..<kMaxAttributes],
      sb_armor = sb_armor a + sb_armor b,
      sb_attackSpeed = f32 (sb_attackSpeed a + sb_attackSpeed b),
      sb_minDamage = sb_minDamage a + sb_minDamage b,
      sb_maxDamage = sb_maxDamage a + sb_maxDamage b\<rparr>"

record Enchant =
  en_enchantId :: u32
  en_bonuses :: StatBonuses
  en_durationRemaining :: "rat option"

record InventorySlot =
  sl_itemId :: u32
  sl_count :: u32
  sl_durability :: int
  sl_maxDurability :: int
  sl_enchants :: "Enchant list"

definition emptySlot :: InventorySlot where
  "emptySlot = \<lparr>sl_itemId = 0, sl_count = 0, sl_durability = kIndestructible,
     sl_maxDurability = kIndestructible, sl_enchants = []\<rparr>"

definition sl_IsEmpty :: "InventorySlot \<Rightarrow> bool" where
  "sl_IsEmpty s \<longleftrightarrow> sl_itemId s = 0"

definition sl_Clear :: "InventorySlot \<Rightarrow> InventorySlot" where
  "sl_Clear s = s\<lparr>sl_itemId := 0, sl_count := 0, sl_durability := kIndestructible,
     sl_maxDurability := kIndestructible, sl_enchants := []\<rparr>"

definition sl_IsBroken :: "InventorySlot \<Rightarrow> bool" where
  "sl_IsBroken s \<longleftrightarrow> sl_durability s = 0 \<and> sl_maxDurability s > 0"

definition sl_ReduceDurability :: "int \<Rightarrow> InventorySlot \<Rightarrow> bool \<times> InventorySlot" where
  "sl_ReduceDurability amount s =
     (if sl_durability s = kIndestructible \<or> sl_durability s \<le> 0 then (False, s)
      else let d = max (sl_durability s - amount) 0 in (d = 0, s\<lparr>sl_durability := d\<rparr>))"

definition sl_GetEnchantBonuses :: "InventorySlot \<Rightarrow> StatBonuses" where
  "sl_GetEnchantBonuses s = fold (\<lambda>enc acc. addBonuses acc (en_bonuses enc)) (sl_enchants s) noBonuses"

definition enchantExpired :: "Enchant \<Rightarrow> bool" where
  "enchantExpired e = (case en_durationRemaining e of None \<Rightarrow> False | Some d \<Rightarrow> d \<le> 0)"

definition sl_RemoveExpiredEnchants :: "InventorySlot \<Rightarrow> InventorySlot" where
  "sl_RemoveExpiredEnchants s = s\<lparr>sl_enchants := filter (\<lambda>e. \<not> enchantExpired e) (sl_enchants s)\<rparr>"

record ItemTemplate =
  it_id :: u32
  it_name :: string
  it_type :: ItemType
  it_quality :: ItemQuality
  it_maxStackSize :: u32
  it_maxDurability :: int
  it_equipSlot :: EquipSlot
  it_statBonuses :: StatBonuses
  it_requiredLevel :: u32
  it_vendorPrice :: u32

definition defaultItemTemplate :: ItemTemplate where
  "defaultItemTemplate = \<lparr>it_id = 0, it_name = [], it_type = Miscellaneous, it_quality = Common,
     it_maxStackSize = 1, it_maxDurability = kIndestructible, it_equipSlot = COUNT,
     it_statBonuses = noBonuses, it_requiredLevel = 0, it_vendorPrice = 0\<rparr>"

definition it_IsStackable :: "ItemTemplate \<Rightarrow> bool" where
  "it_IsStackable t \<longleftrightarrow> it_maxStackSize t > 1"

definition it_IsEquippable :: "ItemTemplate \<Rightarrow> bool" where
  "it_IsEquippable t \<longleftrightarrow> it_equipSlot t \<noteq> COUNT"

section \<open>The bag\<close>

record Inventory =
  iv_slots :: "InventorySlot list"
  iv_capacity :: u32
  iv_currency :: int

definition mkInventory :: Inventory where
  "mkInventory = \<lparr>iv_slots = [], iv_capacity = kDefaultInventoryCapacity, iv_currency = 0\<rparr>"

text \<open>\<^verbatim>\<open>resize\<close> drops slots beyond the capacity and appends empty ones up to it.\<close>

definition iv_Initialize :: "Inventory \<Rightarrow> Inventory" where
  "iv_Initialize bag =
     (let n = unat (iv_capacity bag); slots = iv_slots bag
      in bag\<lparr>iv_slots := take n slots @ replicate (n - length slots) emptySlot\<rparr>)"

text \<open>The two passes of \<^verbatim>\<open>AddItem\<close>: stack onto slots that hold the item, then fill empty slots.\<close>

fun stackOnto :: "ItemTemplate \<Rightarrow> InventorySlot list \<Rightarrow> u32 \<Rightarrow> InventorySlot list \<times> u32" where
  "stackOnto tmpl [] remaining = ([], remaining)"
| "stackOnto tmpl (slot # slots) remaining =
     (if remaining = 0 then (slot # slots, remaining)
      else if sl_itemId slot = it_id tmpl \<and> sl_count slot < it_maxStackSize tmpl
      then let space = it_maxStackSize tmpl - sl_count slot;
               toAdd = min remaining space;
               (slots', remaining') = stackOnto tmpl slots (remaining - toAdd)
           in (slot\<lparr>sl_count := sl_count slot + toAdd\<rparr> # slots', remaining')
      else let (slots', remaining') = stackOnto tmpl slots remaining
           in (slot # slots', remaining'))"

fun fillEmpty :: "ItemTemplate \<Rightarrow> InventorySlot list \<Rightarrow> u32 \<Rightarrow> InventorySlot list \<times> u32" where
  "fillEmpty tmpl [] remaining = ([], remaining)"
| "fillEmpty tmpl (slot # slots) remaining =
     (if remaining = 0 then (slot # slots, remaining)
      else if sl_IsEmpty slot
      then let toAdd = (if it_IsStackable tmpl then min remaining (it_maxStackSize tmpl) else 1);
               (slots', remaining') = fillEmpty tmpl slots (remaining - toAdd)
           in (slot\<lparr>sl_itemId := it_id tmpl, sl_count := toAdd, sl_durability := it_maxDurability tmpl,
                    sl_maxDurability := it_maxDurability tmpl\<rparr> # slots', remaining')
      else let (slots', remaining') = fillEmpty tmpl slots remaining
           in (slot # slots', remaining'))"

definition iv_AddItem :: "ItemTemplate \<Rightarrow> u32 \<Rightarrow> Inventory \<Rightarrow> u32 \<times> Inventory" where
  "iv_AddItem tmpl addCount bag =
     (let bag0 = (if iv_slots bag = [] then iv_Initialize bag else bag);
          (slots1, r1) = (if it_IsStackable tmpl then stackOnto tmpl (iv_slots bag0) addCount
                          else (iv_slots bag0, addCount));
          (slots2, r2) = fillEmpty tmpl slots1 r1
      in (addCount - r2, bag0\<lparr>iv_slots := slots2\<rparr>))"

definition iv_RemoveItem :: "u32 \<Rightarrow> u32 \<Rightarrow> Inventory \<Rightarrow> bool \<times> Inventory" where
  "iv_RemoveItem slotIndex removeCount bag =
     (let i = unat slotIndex; slots = iv_slots bag
      in if i \<ge> length slots then (False, bag)
         else if sl_IsEmpty (slots ! i) \<or> sl_count (slots ! i) < removeCount then (False, bag)
         else let slot = (slots ! i)\<lparr>sl_count := sl_count (slots ! i) - removeCount\<rparr>;
                  slot' = (if sl_count slot = 0 then sl_Clear slot else slot)
              in (True, bag\<lparr>iv_slots := slots[i := slot']\<rparr>))"

definition iv_MoveItem :: "u32 \<Rightarrow> u32 \<Rightarrow> Inventory \<Rightarrow> bool \<times> Inventory" where
  "iv_MoveItem fromSlot toSlot bag =
     (let i = unat fromSlot; j = unat toSlot; slots = iv_slots bag
      in if i \<ge> length slots \<or> j \<ge> length slots then (False, bag)
         else if fromSlot = toSlot then (False, bag)
         else if sl_IsEmpty (slots ! i) then (False, bag)
         else if sl_itemId (slots ! j) = sl_itemId (slots ! i) \<and> \<not> sl_IsEmpty (slots ! j)
         then (True, bag\<lparr>iv_slots := slots[i := slots ! j, j := slots ! i]\<rparr>)
         else (True, bag\<lparr>iv_slots := slots[i := slots ! j, j := slots ! i]\<rparr>))"

text \<open>The search for the first empty slot, from the given index on.\<close>

fun firstEmpty :: "InventorySlot list \<Rightarrow> nat \<Rightarrow> nat option" where
  "firstEmpty [] i = None"
| "firstEmpty (slot # slots) i = (if sl_IsEmpty slot then Some i else firstEmpty slots (Suc i))"

definition iv_SplitStack :: "u32 \<Rightarrow> u32 \<Rightarrow> Inventory \<Rightarrow> u32 option \<times> Inventory" where
  "iv_SplitStack slotIndex splitCount bag =
     (let k = unat slotIndex; slots = iv_slots bag
      in if k \<ge> length slots then (None, bag)
         else let src = slots ! k
         in if sl_IsEmpty src \<or> sl_count src \<le> splitCount \<or> splitCount = 0 then (None, bag)
         else case firstEmpty slots 0 of
           None \<Rightarrow> (None, bag)
         | Some i \<Rightarrow>
             let new = (slots ! i)\<lparr>sl_itemId := sl_itemId src, sl_count := splitCount,
                                   sl_durability := sl_durability src,
                                   sl_maxDurability := sl_maxDurability src\<rparr>
             in (Some (word_of_nat i),
                 bag\<lparr>iv_slots := slots[i := new, k := src\<lparr>sl_count := sl_count src - splitCount\<rparr>]\<rparr>))"

definition iv_GetItem :: "u32 \<Rightarrow> Inventory \<Rightarrow> InventorySlot option" where
  "iv_GetItem slotIndex bag =
     (let i = unat slotIndex
      in if i \<ge> length (iv_slots bag) then None
         else if sl_IsEmpty (iv_slots bag ! i) then None else Some (iv_slots bag ! i))"

fun findItemFrom :: "u32 \<Rightarrow> InventorySlot list \<Rightarrow> u32 \<Rightarrow> u32 option" where
  "findItemFrom itemId [] i = None"
| "findItemFrom itemId (slot # slots) i =
     (if sl_itemId slot = itemId then Some i else findItemFrom itemId slots (i + 1))"

definition iv_FindItem :: "u32 \<Rightarrow> Inventory \<Rightarrow> u32 option" where
  "iv_FindItem itemId bag = findItemFrom itemId (iv_slots bag) 0"

definition iv_FreeSlots :: "Inventory \<Rightarrow> u32" where
  "iv_FreeSlots bag = fold (\<lambda>slot count. if sl_IsEmpty slot then count + 1 else count) (iv_slots bag) 0"

definition iv_CountItem :: "u32 \<Rightarrow> Inventory \<Rightarrow> u32" where
  "iv_CountItem itemId bag =
     fold (\<lambda>slot acc. if sl_itemId slot = itemId then acc + sl_count slot else acc) (iv_slots bag) 0"

section \<open>Equipment\<close>

record Equipment =
  eq_slots :: "InventorySlot list"

definition mkEquipment :: Equipment where
  "mkEquipment = \<lparr>eq_slots = replicate kEquipSlotCount emptySlot\<rparr>"

definition eq_Equip :: "EquipSlot \<Rightarrow> InventorySlot \<Rightarrow> Equipment \<Rightarrow> InventorySlot \<times> Equipment" where
  "eq_Equip slot item eq =
     (let idx = equipIndex slot
      in if idx \<ge> kEquipSlotCount then (emptySlot, eq)
         else (eq_slots eq ! idx, eq\<lparr>eq_slots := (eq_slots eq)[idx := item\<lparr>sl_count := 1\<rparr>]\<rparr>))"

definition eq_Unequip :: "EquipSlot \<Rightarrow> Equipment \<Rightarrow> InventorySlot \<times> Equipment" where
  "eq_Unequip slot eq =
     (let idx = equipIndex slot
      in if idx \<ge> kEquipSlotCount then (emptySlot, eq)
         else (eq_slots eq ! idx, eq\<lparr>eq_slots := (eq_slots eq)[idx := emptySlot]\<rparr>))"

definition eq_GetEquipped :: "EquipSlot \<Rightarrow> Equipment \<Rightarrow> InventorySlot option" where
  "eq_GetEquipped slot eq =
     (let idx = equipIndex slot
      in if idx \<ge> kEquipSlotCount then None
         else if sl_IsEmpty (eq_slots eq ! idx) then None else Some (eq_slots eq ! idx))"

definition slotBonuses :: "ItemTemplate list \<Rightarrow> InventorySlot \<Rightarrow> StatBonuses \<Rightarrow> StatBonuses" where
  "slotBonuses templates slot acc =
     (if sl_IsEmpty slot \<or> sl_IsBroken slot then acc
      else let acc1 = (case find (\<lambda>tmpl. it_id tmpl = sl_itemId slot) templates of
                           None \<Rightarrow> acc | Some tmpl \<Rightarrow> addBonuses acc (it_statBonuses tmpl))
           in addBonuses acc1 (sl_GetEnchantBonuses slot))"

definition eq_CalculateStatBonuses :: "ItemTemplate list \<Rightarrow> Equipment \<Rightarrow> StatBonuses" where
  "eq_CalculateStatBonuses templates eq = fold (slotBonuses templates) (eq_slots eq) noBonuses"

section \<open>The inventory system\<close>

record DurabilityEvent =
  de_player :: Entity
  de_slot :: EquipSlot
  de_amount :: int
  de_processed :: bool

record InventorySystem =
  is_inventories :: "Inventory ComponentStorage"
  is_equipment :: "Equipment ComponentStorage"
  is_durabilityEvents :: "DurabilityEvent ComponentStorage"
  is_templates :: "ItemTemplate list"

fun registerItem :: "ItemTemplate \<Rightarrow> ItemTemplate list \<Rightarrow> ItemTemplate list" where
  "registerItem tmpl [] = [tmpl]"
| "registerItem tmpl (t # ts) = (if it_id t = it_id tmpl then tmpl # ts else t # registerItem tmpl ts)"

definition is_RegisterTemplate :: "ItemTemplate \<Rightarrow> InventorySystem \<Rightarrow> InventorySystem" where
  "is_RegisterTemplate tmpl sys = sys\<lparr>is_templates := registerItem tmpl (is_templates sys)\<rparr>"

definition is_GetTemplate :: "u32 \<Rightarrow> InventorySystem \<Rightarrow> ItemTemplate option" where
  "is_GetTemplate templateId sys = find (\<lambda>t. it_id t = templateId) (is_templates sys)"

text \<open>The body of the event loop: the event and the equipment pool.\<close>

definition wearEvent :: "Entity \<Rightarrow> DurabilityEvent \<Rightarrow> Equipment ComponentStorage \<Rightarrow> DurabilityEvent \<times> Equipment ComponentStorage" where
  "wearEvent eventEntity event equipment =
     (if de_processed event then (event, equipment)
      else let equipment' =
             (case cs_Get equipment (de_player event) of
                None \<Rightarrow> equipment
              | Some equip \<Rightarrow>
                  let slotIdx = equipIndex (de_slot event)
                  in if slotIdx < kEquipSlotCount
                     then assignRef (de_player event)
                            (equip\<lparr>eq_slots := (eq_slots equip)[slotIdx :=
                               snd (sl_ReduceDurability (de_amount event) (eq_slots equip ! slotIdx))]\<rparr>)
                            equipment
                     else equipment)
           in (event\<lparr>de_processed := True\<rparr>, equipment'))"

definition is_processDurabilityEvents :: "InventorySystem \<Rightarrow> InventorySystem option" where
  "is_processDurabilityEvents sys =
     map_option (\<lambda>(events, equipment). sys\<lparr>is_durabilityEvents := events, is_equipment := equipment\<rparr>)
       (forEachComponent wearEvent (is_durabilityEvents sys, is_equipment sys))"

definition tickEnchant :: "rat \<Rightarrow> Enchant \<Rightarrow> Enchant" where
  "tickEnchant deltaTime enc =
     (case en_durationRemaining enc of
        None \<Rightarrow> enc
      | Some d \<Rightarrow> enc\<lparr>en_durationRemaining := Some (f32 (d - deltaTime))\<rparr>)"

definition tickSlot :: "rat \<Rightarrow> InventorySlot \<Rightarrow> InventorySlot" where
  "tickSlot deltaTime slot =
     (if sl_IsEmpty slot then slot
      else sl_RemoveExpiredEnchants (slot\<lparr>sl_enchants := map (tickEnchant deltaTime) (sl_enchants slot)\<rparr>))"

definition is_updateEnchants :: "rat \<Rightarrow> InventorySystem \<Rightarrow> InventorySystem option" where
  "is_updateEnchants deltaTime sys =
     (case forEachComponent (\<lambda>e equip st. (equip\<lparr>eq_slots := map (tickSlot deltaTime) (eq_slots equip)\<rparr>, st))
             (is_equipment sys, ()) of
        None \<Rightarrow> None
      | Some (equipment, _) \<Rightarrow>
          (case forEachComponent (\<lambda>e bag st. (bag\<lparr>iv_slots := map (tickSlot deltaTime) (iv_slots bag)\<rparr>, st))
                  (is_inventories sys, ()) of
             None \<Rightarrow> None
           | Some (inventories, _) \<Rightarrow>
               Some (sys\<lparr>is_equipment := equipment, is_inventories := inventories\<rparr>)))"

definition is_Execute :: "rat \<Rightarrow> InventorySystem \<Rightarrow> InventorySystem option" where
  "is_Execute deltaTime sys =
     (case is_processDurabilityEvents sys of
        None \<Rightarrow> None
      | Some sys1 \<Rightarrow> is_updateEnchants deltaTime sys1)"

section \<open>Accounting of items\<close>

definition itemsIn :: "u32 \<Rightarrow> InventorySlot \<Rightarrow> nat" where
  "itemsIn x s = (if sl_itemId s = x then unat (sl_count s) else 0)"

definition itemTotal :: "u32 \<Rightarrow> InventorySlot list \<Rightarrow> nat" where
  "itemTotal x slots = (\<Sum>s\<leftarrow>slots. itemsIn x s)"

text \<open>A slot is well-formed when it is empty in every member, or holds at least one item and
  at most a stack (one, for an item that does not stack). \<open>limit\<close> is the stack size of an item.\<close>

definition slot_ok :: "(u32 \<Rightarrow> u32) \<Rightarrow> InventorySlot \<Rightarrow> bool" where
  "slot_ok limit s \<longleftrightarrow> (if sl_itemId s = 0 then s = emptySlot
     else 0 < sl_count s \<and> sl_count s \<le> max 1 (limit (sl_itemId s)))"

lemma itemTotal_Nil [simp]: "itemTotal x [] = 0"
  by (simp add: itemTotal_def)

lemma itemTotal_Cons [simp]:
  "itemTotal x (s # slots) = itemsIn x s + itemTotal x slots"
  by (simp add: itemTotal_def)

lemma itemTotal_update:
  "i < length slots \<Longrightarrow>
     itemTotal x (slots[i := s]) + itemsIn x (slots ! i) = itemTotal x slots + itemsIn x s"
proof (induction slots arbitrary: i)
  case (Cons t slots)
  then show ?case by (cases i) auto
qed simp

lemma emptySlot_simps [simp]:
  "sl_itemId emptySlot = 0" "sl_count emptySlot = 0" "sl_enchants emptySlot = []"
  by (simp_all add: emptySlot_def)

lemma sl_Clear_emptySlot [simp]: "sl_Clear s = emptySlot"
  by (simp add: sl_Clear_def emptySlot_def)

lemma slot_ok_empty [simp]: "slot_ok limit emptySlot"
  by (simp add: slot_ok_def)

lemma stackOnto_spec:
  assumes "1 < it_maxStackSize tmpl" and "it_id tmpl \<noteq> 0"
  shows "length (fst (stackOnto tmpl slots r)) = length slots
    \<and> snd (stackOnto tmpl slots r) \<le> r
    \<and> itemTotal x (fst (stackOnto tmpl slots r)) + (if x = it_id tmpl then unat (snd (stackOnto tmpl slots r)) else 0)
        = itemTotal x slots + (if x = it_id tmpl then unat r else 0)
    \<and> (snd (stackOnto tmpl slots r) \<noteq> 0 \<longrightarrow>
         (\<forall>s \<in> set (fst (stackOnto tmpl slots r)). sl_itemId s = it_id tmpl \<longrightarrow> it_maxStackSize tmpl \<le> sl_count s))
    \<and> (limit (it_id tmpl) = it_maxStackSize tmpl \<and> list_all (slot_ok limit) slots \<longrightarrow>
         list_all (slot_ok limit) (fst (stackOnto tmpl slots r)))"
proof (induction slots arbitrary: r)
  case (Cons s slots)
  show ?case
  proof (cases "r \<noteq> 0 \<and> sl_itemId s = it_id tmpl \<and> sl_count s < it_maxStackSize tmpl")
    case True
    define d where "d = min r (it_maxStackSize tmpl - sl_count s)"
    have sp: "unat (it_maxStackSize tmpl - sl_count s) = unat (it_maxStackSize tmpl) - unat (sl_count s)"
      using True by (intro unat_sub) (simp add: less_imp_le)
    have d: "unat d = min (unat r) (unat (it_maxStackSize tmpl) - unat (sl_count s))"
      by (simp add: d_def min_def word_le_nat_alt sp)
    have rd: "unat (r - d) = unat r - unat d" by (rule unat_sub) (simp add: d_def)
    have lt: "unat (sl_count s) < unat (it_maxStackSize tmpl)" using True by (simp add: word_less_nat_alt)
    moreover have "unat d \<le> unat (it_maxStackSize tmpl) - unat (sl_count s)" by (simp add: d)
    ultimately have "unat (sl_count s) + unat d < 2 ^ LENGTH(32)"
      using unat_lt_u32 [of "it_maxStackSize tmpl"] by simp
    then have c: "unat (sl_count s + d) = unat (sl_count s) + unat d" by (rule unat_add_lt)
    have st: "stackOnto tmpl (s # slots) r
        = (s\<lparr>sl_count := sl_count s + d\<rparr> # fst (stackOnto tmpl slots (r - d)), snd (stackOnto tmpl slots (r - d)))"
      using True by (simp add: d_def Let_def split_beta)
    have "r - d \<le> r" using rd by (simp add: word_le_nat_alt)
    moreover have "r - d \<noteq> 0 \<Longrightarrow> it_maxStackSize tmpl \<le> sl_count s + d"
      using rd c d True by (auto simp: word_le_nat_alt word_less_nat_alt word_eq_unat_iff)
    moreover have "snd (stackOnto tmpl slots (r - d)) \<noteq> 0 \<Longrightarrow> r - d \<noteq> 0"
      using Cons.IH [of "r - d"] by auto
    moreover have "slot_ok limit (s\<lparr>sl_count := sl_count s + d\<rparr>)"
      if "limit (it_id tmpl) = it_maxStackSize tmpl" "slot_ok limit s"
      using that True assms c d by (auto simp: slot_ok_def word_less_nat_alt word_le_nat_alt max_def)
    ultimately show ?thesis
      unfolding st using Cons.IH [of "r - d"] True c rd d by (auto simp: itemsIn_def split: if_splits)
  next
    case False
    then show ?thesis
      using Cons.IH [of r] by (auto simp: split_beta not_less split: if_splits)
  qed
qed simp

definition stacksFull :: "ItemTemplate \<Rightarrow> InventorySlot list \<Rightarrow> bool" where
  "stacksFull tmpl slots \<longleftrightarrow>
     list_all (\<lambda>s. sl_itemId s = it_id tmpl \<longrightarrow> it_maxStackSize tmpl \<le> sl_count s) slots"

lemma fillEmpty_spec:
  assumes "it_id tmpl \<noteq> 0" and "limit (it_id tmpl) = it_maxStackSize tmpl"
  shows "list_all (slot_ok limit) slots \<Longrightarrow>
      length (fst (fillEmpty tmpl slots r)) = length slots
    \<and> snd (fillEmpty tmpl slots r) \<le> r
    \<and> itemTotal x (fst (fillEmpty tmpl slots r)) + (if x = it_id tmpl then unat (snd (fillEmpty tmpl slots r)) else 0)
        = itemTotal x slots + (if x = it_id tmpl then unat r else 0)
    \<and> list_all (slot_ok limit) (fst (fillEmpty tmpl slots r))
    \<and> (snd (fillEmpty tmpl slots r) \<noteq> 0 \<longrightarrow>
         list_all (\<lambda>s. \<not> sl_IsEmpty s) (fst (fillEmpty tmpl slots r))
         \<and> (it_IsStackable tmpl \<and> stacksFull tmpl slots \<longrightarrow> stacksFull tmpl (fst (fillEmpty tmpl slots r))))"
proof (induction slots arbitrary: r)
  case (Cons s slots)
  show ?case
  proof (cases "r \<noteq> 0 \<and> sl_IsEmpty s")
    case True
    define d where "d = (if it_IsStackable tmpl then min r (it_maxStackSize tmpl) else 1)"
    let ?s = "s\<lparr>sl_itemId := it_id tmpl, sl_count := d, sl_durability := it_maxDurability tmpl,
                sl_maxDurability := it_maxDurability tmpl\<rparr>"
    have r: "1 \<le> r" using True by (simp add: word_le_nat_alt word_eq_unat_iff)
    have d: "0 < d" "d \<le> r" "d \<le> max 1 (it_maxStackSize tmpl)"
      using r by (auto simp: d_def it_IsStackable_def word_le_nat_alt word_less_nat_alt min_def max_def)
    have rd: "unat (r - d) = unat r - unat d" by (rule unat_sub [OF d(2)])
    have s: "s = emptySlot" using True Cons.prems by (simp add: sl_IsEmpty_def slot_ok_def)
    have st: "fillEmpty tmpl (s # slots) r = (?s # fst (fillEmpty tmpl slots (r - d)), snd (fillEmpty tmpl slots (r - d)))"
      using True by (simp add: d_def Let_def split_beta)
    have full: "it_maxStackSize tmpl \<le> d" if "it_IsStackable tmpl" "snd (fillEmpty tmpl slots (r - d)) \<noteq> 0"
    proof -
      have "r - d \<noteq> 0" using that(2) Cons.IH [of "r - d"] Cons.prems by auto
      then show ?thesis using that(1) by (auto simp: d_def min_def split: if_splits)
    qed
    have "r - d \<le> r" using rd by (simp add: word_le_nat_alt)
    moreover have "slot_ok limit ?s" using d assms by (simp add: slot_ok_def)
    moreover have "unat d \<le> unat r" using d(2) by (simp add: word_le_nat_alt)
    ultimately show ?thesis
      unfolding st using Cons.IH [of "r - d"] Cons.prems assms(1) rd full
      by (auto simp: itemsIn_def s sl_IsEmpty_def stacksFull_def)
  next
    case False
    then show ?thesis
      using Cons.IH [of r] Cons.prems by (auto simp: split_beta stacksFull_def)
  qed
qed (simp add: stacksFull_def)

definition bagSlots :: "Inventory \<Rightarrow> InventorySlot list" where
  "bagSlots bag = (if iv_slots bag = [] then replicate (unat (iv_capacity bag)) emptySlot else iv_slots bag)"

text \<open>An inventory whose slots have not been created yet counts as having its capacity in
  empty slots.\<close>

lemma itemTotal_replicate_empty [simp]: "itemTotal x (replicate n emptySlot) = 0"
  by (induction n) (auto simp: itemsIn_def)

lemma bagSlots_total: "itemTotal x (bagSlots bag) = itemTotal x (iv_slots bag)"
  by (simp add: bagSlots_def)

lemma bagSlots_ok: "list_all (slot_ok limit) (iv_slots bag) \<Longrightarrow> list_all (slot_ok limit) (bagSlots bag)"
  by (simp add: bagSlots_def list_all_iff)

lemma iv_AddItem_slots:
  "iv_AddItem tmpl n bag =
    (let (slots1, r1) = (if it_IsStackable tmpl then stackOnto tmpl (bagSlots bag) n else (bagSlots bag, n));
         (slots2, r2) = fillEmpty tmpl slots1 r1
     in (n - r2, bag\<lparr>iv_slots := slots2\<rparr>))"
  by (simp add: iv_AddItem_def bagSlots_def iv_Initialize_def Let_def split_beta)

lemma iv_AddItem_spec:
  assumes "it_id tmpl \<noteq> 0" and "limit (it_id tmpl) = it_maxStackSize tmpl"
    and "list_all (slot_ok limit) (iv_slots bag)" and "iv_AddItem tmpl n bag = (added, bag')"
  shows "added \<le> n" and "list_all (slot_ok limit) (iv_slots bag')"
    and "length (iv_slots bag') = length (bagSlots bag)"
    and "itemTotal x (iv_slots bag') = itemTotal x (iv_slots bag) + (if x = it_id tmpl then unat added else 0)"
    and "added < n \<Longrightarrow> list_all (\<lambda>s. \<not> sl_IsEmpty s) (iv_slots bag')
           \<and> (it_IsStackable tmpl \<longrightarrow> stacksFull tmpl (iv_slots bag'))"
proof -
  obtain slots1 r1 where 1: "(if it_IsStackable tmpl then stackOnto tmpl (bagSlots bag) n else (bagSlots bag, n)) = (slots1, r1)"
    by fastforce
  obtain slots2 r2 where 2: "fillEmpty tmpl slots1 r1 = (slots2, r2)" by fastforce
  have eq: "added = n - r2" "bag' = bag\<lparr>iv_slots := slots2\<rparr>"
    using assms(4) 1 2 by (simp_all add: iv_AddItem_slots)
  have s1: "length slots1 = length (bagSlots bag)" "r1 \<le> n" "list_all (slot_ok limit) slots1"
    "itemTotal x slots1 + (if x = it_id tmpl then unat r1 else 0)
       = itemTotal x (iv_slots bag) + (if x = it_id tmpl then unat n else 0)"
    "it_IsStackable tmpl \<and> r1 \<noteq> 0 \<longrightarrow> stacksFull tmpl slots1"
    using stackOnto_spec [of tmpl "bagSlots bag" n x limit] 1 assms(1,2) bagSlots_ok [OF assms(3)]
      bagSlots_total [of x bag]
    by (auto simp: it_IsStackable_def stacksFull_def list_all_iff split: if_splits)
  note F = fillEmpty_spec [of tmpl limit slots1 r1 x, OF assms(1,2) s1(3), unfolded 2, simplified]
  have le: "r2 \<le> n" using F s1(2) by auto
  then have un: "unat added = unat n - unat r2" by (simp add: eq(1) unat_sub)
  show "added \<le> n" by (simp add: word_le_nat_alt un)
  show "list_all (slot_ok limit) (iv_slots bag')" "length (iv_slots bag') = length (bagSlots bag)"
    using F s1(1) by (simp_all add: eq(2))
  have "unat r2 \<le> unat n" using le by (simp add: word_le_nat_alt)
  then show "itemTotal x (iv_slots bag') = itemTotal x (iv_slots bag) + (if x = it_id tmpl then unat added else 0)"
    using F s1(4) un by (auto simp: eq(2) split: if_splits)
  assume "added < n"
  then have "r2 \<noteq> 0" by (auto simp: eq(1))
  moreover from this have "r1 \<noteq> 0" using F by auto
  ultimately show "list_all (\<lambda>s. \<not> sl_IsEmpty s) (iv_slots bag')
      \<and> (it_IsStackable tmpl \<longrightarrow> stacksFull tmpl (iv_slots bag'))"
    using F s1(5) by (simp add: eq(2))
qed

lemma list_all_update: "list_all P xs \<Longrightarrow> P y \<Longrightarrow> list_all P (xs[i := y])"
  using set_update_subset_insert [of xs i y] by (auto simp: list_all_iff)

lemma slot_ok_nth: "list_all (slot_ok limit) slots \<Longrightarrow> i < length slots \<Longrightarrow> slot_ok limit (slots ! i)"
  by (simp add: list_all_length)

lemma iv_RemoveItem_spec:
  assumes "list_all (slot_ok limit) (iv_slots bag)" and "iv_RemoveItem i n bag = (ok, bag')"
  shows "list_all (slot_ok limit) (iv_slots bag') \<and> length (iv_slots bag') = length (iv_slots bag)
    \<and> itemTotal x (iv_slots bag') + (if ok \<and> sl_itemId (iv_slots bag ! unat i) = x then unat n else 0)
        = itemTotal x (iv_slots bag)"
proof (cases ok)
  case False
  with assms show ?thesis by (auto simp: iv_RemoveItem_def Let_def split: if_splits)
next
  case True
  let ?slots = "iv_slots bag" and ?i = "unat i"
  define s where "s = ?slots ! ?i"
  define t where "t = (if sl_count s - n = 0 then emptySlot else s\<lparr>sl_count := sl_count s - n\<rparr>)"
  have i: "?i < length ?slots" and s: "\<not> sl_IsEmpty s" "n \<le> sl_count s"
    and b: "bag' = bag\<lparr>iv_slots := ?slots[?i := t]\<rparr>"
    using assms(2) True by (auto simp: iv_RemoveItem_def Let_def s_def t_def split: if_splits)
  have u: "unat (sl_count s - n) = unat (sl_count s) - unat n" by (rule unat_sub [OF s(2)])
  have le: "unat n \<le> unat (sl_count s)" using s(2) by (simp add: word_le_nat_alt)
  have "slot_ok limit t"
    using slot_ok_nth [OF assms(1) i] s(1) u s(2) word_eq_unat_iff [of "sl_count s" n]
    by (auto simp: t_def s_def [symmetric] slot_ok_def sl_IsEmpty_def word_le_nat_alt word_less_nat_alt max_def
        split: if_splits)
  moreover have "itemsIn x t + (if sl_itemId s = x then unat n else 0) = itemsIn x s"
    using s(1) u le by (auto simp: itemsIn_def t_def sl_IsEmpty_def word_eq_unat_iff)
  ultimately show ?thesis
    using itemTotal_update [OF i, of x t] list_all_update [OF assms(1)] True
    by (auto simp: b s_def [symmetric])
qed

lemma itemTotal_swap:
  assumes "i < length slots" and "j < length slots" and "i \<noteq> j"
  shows "itemTotal x (slots[i := slots ! j, j := slots ! i]) = itemTotal x slots"
  using itemTotal_update [OF assms(1), of x "slots ! j"]
    itemTotal_update [of j "slots[i := slots ! j]" x "slots ! i"] assms by simp

lemma iv_MoveItem_spec:
  assumes "list_all (slot_ok limit) (iv_slots bag)" and "iv_MoveItem i j bag = (ok, bag')"
  shows "list_all (slot_ok limit) (iv_slots bag') \<and> length (iv_slots bag') = length (iv_slots bag)
    \<and> itemTotal x (iv_slots bag') = itemTotal x (iv_slots bag)"
proof (cases ok)
  case False
  with assms show ?thesis by (auto simp: iv_MoveItem_def Let_def split: if_splits)
next
  case True
  then have "unat i < length (iv_slots bag)" "unat j < length (iv_slots bag)" "unat i \<noteq> unat j"
    "bag' = bag\<lparr>iv_slots := (iv_slots bag)[unat i := iv_slots bag ! unat j, unat j := iv_slots bag ! unat i]\<rparr>"
    using assms(2) by (auto simp: iv_MoveItem_def Let_def word_eq_unat_iff split: if_splits)
  then show ?thesis
    using assms(1) by (simp add: itemTotal_swap list_all_update slot_ok_nth)
qed

lemma firstEmpty_Some:
  "firstEmpty slots k = Some i \<Longrightarrow> k \<le> i \<and> i - k < length slots \<and> sl_IsEmpty (slots ! (i - k))
     \<and> (\<forall>j < i - k. \<not> sl_IsEmpty (slots ! j))"
proof (induction slots k rule: firstEmpty.induct)
  case (2 s slots k)
  show ?case
  proof (cases "sl_IsEmpty s")
    case False
    with 2 have h: "Suc k \<le> i \<and> i - Suc k < length slots \<and> sl_IsEmpty (slots ! (i - Suc k))
        \<and> (\<forall>j < i - Suc k. \<not> sl_IsEmpty (slots ! j))" by simp
    then have "i - k = Suc (i - Suc k)" by linarith
    then show ?thesis using h False by (auto simp: less_Suc_eq_0_disj)
  qed (use 2 in auto)
qed simp

lemma iv_SplitStack_Some:
  assumes ok: "list_all (slot_ok limit) (iv_slots bag)" and "iv_SplitStack k n bag = (Some w, bag')"
  obtains i src where "src = iv_slots bag ! unat k" "i < length (iv_slots bag)" "unat k < length (iv_slots bag)"
    "i \<noteq> unat k" "iv_slots bag ! i = emptySlot" "w = word_of_nat i" "sl_itemId src \<noteq> 0" "0 < n" "n < sl_count src"
    "bag' = bag\<lparr>iv_slots := (iv_slots bag)[i := \<lparr>sl_itemId = sl_itemId src, sl_count = n,
        sl_durability = sl_durability src, sl_maxDurability = sl_maxDurability src, sl_enchants = []\<rparr>,
        unat k := src\<lparr>sl_count := sl_count src - n\<rparr>]\<rparr>"
proof -
  let ?src = "iv_slots bag ! unat k"
  from assms(2) obtain i where k: "unat k < length (iv_slots bag)" and n: "\<not> sl_IsEmpty ?src" "n < sl_count ?src" "n \<noteq> 0"
    and i: "firstEmpty (iv_slots bag) 0 = Some i" "w = word_of_nat i"
    and b: "bag' = bag\<lparr>iv_slots := (iv_slots bag)[i := (iv_slots bag ! i)\<lparr>sl_itemId := sl_itemId ?src,
        sl_count := n, sl_durability := sl_durability ?src, sl_maxDurability := sl_maxDurability ?src\<rparr>,
        unat k := ?src\<lparr>sl_count := sl_count ?src - n\<rparr>]\<rparr>"
    by (auto simp: iv_SplitStack_def Let_def not_le split: if_splits option.splits)
  have e: "i < length (iv_slots bag)" "sl_IsEmpty (iv_slots bag ! i)" using firstEmpty_Some [OF i(1)] by auto
  then have "iv_slots bag ! i = emptySlot"
    using slot_ok_nth [OF ok e(1)] by (simp add: slot_ok_def sl_IsEmpty_def)
  moreover from this n(1) have "i \<noteq> unat k" by (auto simp: sl_IsEmpty_def)
  ultimately show thesis
    using that [of ?src i] e k n i(2) b by (auto simp: sl_IsEmpty_def emptySlot_def word_gt_0)
qed

lemma iv_SplitStack_spec:
  assumes ok: "list_all (slot_ok limit) (iv_slots bag)" and "iv_SplitStack k n bag = (res, bag')"
  shows "list_all (slot_ok limit) (iv_slots bag') \<and> length (iv_slots bag') = length (iv_slots bag)
    \<and> itemTotal x (iv_slots bag') = itemTotal x (iv_slots bag)"
proof (cases res)
  case None
  with assms show ?thesis by (auto simp: iv_SplitStack_def Let_def split: if_splits option.splits)
next
  case (Some w)
  let ?slots = "iv_slots bag"
  obtain i src where s: "src = ?slots ! unat k" "i < length ?slots" "unat k < length ?slots" "i \<noteq> unat k"
    "?slots ! i = emptySlot" "sl_itemId src \<noteq> 0" "0 < n" "n < sl_count src"
    and b: "bag' = bag\<lparr>iv_slots := ?slots[i := \<lparr>sl_itemId = sl_itemId src, sl_count = n,
        sl_durability = sl_durability src, sl_maxDurability = sl_maxDurability src, sl_enchants = []\<rparr>,
        unat k := src\<lparr>sl_count := sl_count src - n\<rparr>]\<rparr>"
    using iv_SplitStack_Some [OF ok, of k n w bag'] assms(2) Some by metis
  define new rest where "new = \<lparr>sl_itemId = sl_itemId src, sl_count = n, sl_durability = sl_durability src,
      sl_maxDurability = sl_maxDurability src, sl_enchants = []\<rparr>" and "rest = src\<lparr>sl_count := sl_count src - n\<rparr>"
  have u: "unat (sl_count src - n) = unat (sl_count src) - unat n" using s(8) by (intro unat_sub) simp
  have "slot_ok limit src" using slot_ok_nth [OF ok s(3)] s(1) by simp
  then have "slot_ok limit new" "slot_ok limit rest"
    using s(6-8) u by (auto simp: new_def rest_def slot_ok_def word_less_nat_alt word_le_nat_alt max_def split: if_splits)
  then have "list_all (slot_ok limit) (?slots[i := new, unat k := rest])"
    by (intro list_all_update ok)
  moreover have "itemsIn x new + itemsIn x rest = itemsIn x src"
    using s(8) u by (auto simp: itemsIn_def new_def rest_def word_less_nat_alt)
  moreover have "itemsIn x (?slots ! i) = 0" using s(5) by (simp add: itemsIn_def)
  ultimately show ?thesis
    using itemTotal_update [OF s(2), of x new] itemTotal_update [of "unat k" "?slots[i := new]" x rest] s(1,3,4)
    unfolding b new_def [symmetric] rest_def [symmetric] by simp
qed

section \<open>Sequences of bag operations and their ledger\<close>

datatype iv_op = AddItem ItemTemplate u32 | RemoveItem u32 u32 | MoveItem u32 u32 | SplitStack u32 u32

fun iv_exec :: "iv_op \<Rightarrow> Inventory \<Rightarrow> Inventory" where
  "iv_exec (AddItem tmpl n) bag = snd (iv_AddItem tmpl n bag)"
| "iv_exec (RemoveItem i n) bag = snd (iv_RemoveItem i n bag)"
| "iv_exec (MoveItem i j) bag = snd (iv_MoveItem i j bag)"
| "iv_exec (SplitStack i n) bag = snd (iv_SplitStack i n bag)"

text \<open>What the results reported to the caller say went in and out.\<close>

fun reportedIn :: "u32 \<Rightarrow> iv_op list \<Rightarrow> Inventory \<Rightarrow> nat" where
  "reportedIn x [] bag = 0"
| "reportedIn x (opn # ops) bag =
     (case opn of AddItem tmpl n \<Rightarrow> (if it_id tmpl = x then unat (fst (iv_AddItem tmpl n bag)) else 0)
                | _ \<Rightarrow> 0) + reportedIn x ops (iv_exec opn bag)"

fun reportedOut :: "u32 \<Rightarrow> iv_op list \<Rightarrow> Inventory \<Rightarrow> nat" where
  "reportedOut x [] bag = 0"
| "reportedOut x (opn # ops) bag =
     (case opn of RemoveItem i n \<Rightarrow>
          (if fst (iv_RemoveItem i n bag) \<and> sl_itemId (iv_slots bag ! unat i) = x then unat n else 0)
                | _ \<Rightarrow> 0) + reportedOut x ops (iv_exec opn bag)"

fun iv_op_ok :: "(u32 \<Rightarrow> u32) \<Rightarrow> iv_op \<Rightarrow> bool" where
  "iv_op_ok limit (AddItem tmpl n) \<longleftrightarrow> it_id tmpl \<noteq> 0 \<and> limit (it_id tmpl) = it_maxStackSize tmpl"
| "iv_op_ok limit _ \<longleftrightarrow> True"

lemma iv_exec_ok:
  assumes "list_all (slot_ok limit) (iv_slots bag)" and "iv_op_ok limit opn"
  shows "list_all (slot_ok limit) (iv_slots (iv_exec opn bag))"
proof (cases opn)
  case (AddItem tmpl n)
  then show ?thesis
    using iv_AddItem_spec(2) [of tmpl limit bag n "fst (iv_AddItem tmpl n bag)"] assms by simp
next
  case (RemoveItem i n)
  then show ?thesis using iv_RemoveItem_spec [OF assms(1) prod.collapse [symmetric]] by simp
next
  case (MoveItem i j)
  then show ?thesis using iv_MoveItem_spec [OF assms(1) prod.collapse [symmetric]] by simp
next
  case (SplitStack i n)
  then show ?thesis using iv_SplitStack_spec [OF assms(1) prod.collapse [symmetric]] by simp
qed

lemma iv_exec_ledger:
  assumes "list_all (slot_ok limit) (iv_slots bag)" and "iv_op_ok limit opn"
  shows "itemTotal x (iv_slots (iv_exec opn bag)) + reportedOut x [opn] bag
      = itemTotal x (iv_slots bag) + reportedIn x [opn] bag"
proof (cases opn)
  case (AddItem tmpl n)
  then show ?thesis
    using iv_AddItem_spec(4) [of tmpl limit bag n "fst (iv_AddItem tmpl n bag)" _ x] assms by simp
next
  case (RemoveItem i n)
  then show ?thesis
    using iv_RemoveItem_spec [OF assms(1) prod.collapse [symmetric], where x = x] by simp
next
  case (MoveItem i j)
  then show ?thesis
    using iv_MoveItem_spec [OF assms(1) prod.collapse [symmetric], where x = x] by simp
next
  case (SplitStack i n)
  then show ?thesis
    using iv_SplitStack_spec [OF assms(1) prod.collapse [symmetric], where x = x] by simp
qed

lemma iv_run_ledger:
  assumes "list_all (slot_ok limit) (iv_slots bag)" and "list_all (iv_op_ok limit) ops"
  shows "list_all (slot_ok limit) (iv_slots (fold iv_exec ops bag))
    \<and> itemTotal x (iv_slots (fold iv_exec ops bag)) + reportedOut x ops bag
        = itemTotal x (iv_slots bag) + reportedIn x ops bag"
  using assms
proof (induction ops arbitrary: bag)
  case (Cons opn ops)
  then have ok: "list_all (slot_ok limit) (iv_slots (iv_exec opn bag))" by (simp add: iv_exec_ok)
  have "itemTotal x (iv_slots (iv_exec opn bag)) + reportedOut x [opn] bag
      = itemTotal x (iv_slots bag) + reportedIn x [opn] bag"
    using iv_exec_ledger [OF Cons.prems(1)] Cons.prems(2) by simp
  then show ?case using Cons.IH [OF ok] Cons.prems(2) by simp
qed simp

lemma iv_CountItem_total: "iv_CountItem x bag = word_of_nat (itemTotal x (iv_slots bag))"
proof -
  have "fold (\<lambda>slot acc. if sl_itemId slot = x then acc + sl_count slot else acc) slots a
      = a + word_of_nat (itemTotal x slots)" for slots and a :: u32
    by (induction slots arbitrary: a) (auto simp: itemsIn_def)
  then show ?thesis by (simp add: iv_CountItem_def)
qed

section \<open>Equipment bonuses\<close>

definition intact :: "InventorySlot \<Rightarrow> bool" where
  "intact s \<longleftrightarrow> \<not> sl_IsEmpty s \<and> \<not> sl_IsBroken s"

text \<open>What an equipped item gives by a member of the bonuses: its template and its enchantments.\<close>

definition gives :: "ItemTemplate list \<Rightarrow> (StatBonuses \<Rightarrow> int) \<Rightarrow> InventorySlot \<Rightarrow> int" where
  "gives templates m s =
     (case find (\<lambda>tmpl. it_id tmpl = sl_itemId s) templates of None \<Rightarrow> 0 | Some tmpl \<Rightarrow> m (it_statBonuses tmpl))
     + (\<Sum>enc\<leftarrow>sl_enchants s. m (en_bonuses enc))"

definition additive :: "(StatBonuses \<Rightarrow> int) \<Rightarrow> bool" where
  "additive m \<longleftrightarrow> m noBonuses = 0 \<and> (\<forall>a b. m (addBonuses a b) = m a + m b)"

lemma additive_members [simp]:
  "additive sb_armor" "additive sb_minDamage" "additive sb_maxDamage"
  "i < kMaxAttributes \<Longrightarrow> additive (\<lambda>b. sb_attributes b ! i)"
  by (simp_all add: additive_def noBonuses_def addBonuses_def)

lemma enchantBonuses_additive:
  assumes "additive m"
  shows "m (sl_GetEnchantBonuses s) = (\<Sum>enc\<leftarrow>sl_enchants s. m (en_bonuses enc))"
proof -
  have "m (fold (\<lambda>enc acc. addBonuses acc (en_bonuses enc)) es a) = m a + (\<Sum>enc\<leftarrow>es. m (en_bonuses enc))" for es :: "Enchant list" and a
    using assms by (induction es arbitrary: a) (auto simp: additive_def)
  then show ?thesis using assms by (simp add: sl_GetEnchantBonuses_def additive_def)
qed

lemma calculateStatBonuses_additive:
  assumes "additive m"
  shows "m (eq_CalculateStatBonuses templates eq) = (\<Sum>s\<leftarrow>filter intact (eq_slots eq). gives templates m s)"
proof -
  have add: "m (addBonuses a b) = m a + m b" "m noBonuses = 0" for a b using assms by (simp_all add: additive_def)
  have "m (slotBonuses templates s a) = m a + (if intact s then gives templates m s else 0)" for s a
    by (auto simp: slotBonuses_def intact_def gives_def Let_def add enchantBonuses_additive [OF assms]
        split: option.splits)
  then have "m (fold (slotBonuses templates) slots a) = m a + (\<Sum>s\<leftarrow>filter intact slots. gives templates m s)" for slots a
    by (induction slots arbitrary: a) auto
  then show ?thesis by (simp add: eq_CalculateStatBonuses_def add)
qed

section \<open>The system's tick\<close>

text \<open>One event seen from the equipment of entity id \<open>k\<close>.\<close>

definition wearBy :: "nat \<Rightarrow> DurabilityEvent \<Rightarrow> Equipment \<Rightarrow> Equipment" where
  "wearBy k ev eq =
     (let j = equipIndex (de_slot ev)
      in if \<not> de_processed ev \<and> eidx (de_player ev) = k \<and> j < kEquipSlotCount
         then eq\<lparr>eq_slots := (eq_slots eq)[j := snd (sl_ReduceDurability (de_amount ev) (eq_slots eq ! j))]\<rparr>
         else eq)"

lemma wearEvent_event: "fst (wearEvent e ev st) = ev\<lparr>de_processed := True\<rparr>"
  by (simp add: wearEvent_def Let_def)

lemma wearEvent_pool:
  assumes "cs_inv st"
  shows "cs_inv (snd (wearEvent e ev st))
    \<and> cs_lookup (snd (wearEvent e ev st)) k = map_option (wearBy k ev) (cs_lookup st k)"
proof (cases "de_processed ev \<or> cs_lookup st (eidx (de_player ev)) = None \<or> \<not> equipIndex (de_slot ev) < kEquipSlotCount")
  case True
  moreover from this have "map_option (wearBy k ev) (cs_lookup st k) = cs_lookup st k"
    by (cases "cs_lookup st k") (auto simp: wearBy_def Let_def)
  ultimately show ?thesis
    using assms by (auto simp: wearEvent_def Let_def cs_Get_lookup split: option.splits)
next
  case False
  then obtain eq where eq: "cs_lookup st (eidx (de_player ev)) = Some eq" by auto
  let ?c = "wearBy (eidx (de_player ev)) ev eq"
  have w: "snd (wearEvent e ev st) = assignRef (de_player ev) ?c st"
    using False eq by (simp add: wearEvent_def Let_def cs_Get_lookup wearBy_def)
  have "cs_Has st (de_player ev)" using eq by (simp add: cs_Has_lookup)
  note L = assignRef_lookup [OF assms this, of ?c]
  have "k \<noteq> eidx (de_player ev) \<Longrightarrow> map_option (wearBy k ev) (cs_lookup st k) = cs_lookup st k"
    by (cases "cs_lookup st k") (auto simp: wearBy_def Let_def)
  then show ?thesis using assms eq by (auto simp: w L intro: inv_intros)
qed

interpretation wear: event_loop wearEvent "\<lambda>ev. ev\<lparr>de_processed := True\<rparr>" wearBy
  by unfold_locales (simp_all add: wearEvent_event wearEvent_pool)

text \<open>The effect of a sequence of events on the durability of slot \<open>j\<close>.\<close>

definition wearOf :: "nat \<Rightarrow> nat \<Rightarrow> DurabilityEvent list \<Rightarrow> int" where
  "wearOf k j events =
     (\<Sum>ev\<leftarrow>filter (\<lambda>ev. \<not> de_processed ev \<and> eidx (de_player ev) = k \<and> equipIndex (de_slot ev) = j) events.
        de_amount ev)"

definition wornDurability :: "int \<Rightarrow> int \<Rightarrow> int" where
  "wornDurability wear d = (if d \<le> 0 then d else max 0 (d - wear))"

lemma wearBy_slot:
  assumes "length (eq_slots eq) = kEquipSlotCount" and "j < kEquipSlotCount"
  shows "length (eq_slots (wearBy k ev eq)) = kEquipSlotCount
    \<and> sl_itemId (eq_slots (wearBy k ev eq) ! j) = sl_itemId (eq_slots eq ! j)
    \<and> sl_enchants (eq_slots (wearBy k ev eq) ! j) = sl_enchants (eq_slots eq ! j)
    \<and> sl_durability (eq_slots (wearBy k ev eq) ! j) = wornDurability (wearOf k j [ev]) (sl_durability (eq_slots eq ! j))"
  using assms by (auto simp: wearBy_def Let_def wearOf_def wornDurability_def sl_ReduceDurability_def
      kIndestructible_def nth_list_update max_def)

lemma wornDurability_add:
  "0 \<le> a \<Longrightarrow> 0 \<le> b \<Longrightarrow> wornDurability b (wornDurability a d) = wornDurability (a + b) d"
  by (auto simp: wornDurability_def max_def)

lemma wearOf_nonneg: "list_all (\<lambda>ev. 0 \<le> de_amount ev) events \<Longrightarrow> 0 \<le> wearOf k j events"
  by (auto simp: wearOf_def list_all_iff intro!: sum_list_nonneg)

lemma fold_wearBy_slot:
  assumes "length (eq_slots eq) = kEquipSlotCount" and "j < kEquipSlotCount"
    and "list_all (\<lambda>ev. 0 \<le> de_amount ev) events"
  shows "length (eq_slots (fold (wearBy k) events eq)) = kEquipSlotCount
    \<and> sl_itemId (eq_slots (fold (wearBy k) events eq) ! j) = sl_itemId (eq_slots eq ! j)
    \<and> sl_enchants (eq_slots (fold (wearBy k) events eq) ! j) = sl_enchants (eq_slots eq ! j)
    \<and> sl_durability (eq_slots (fold (wearBy k) events eq) ! j)
        = wornDurability (wearOf k j events) (sl_durability (eq_slots eq ! j))"
  using assms(1,3)
proof (induction events arbitrary: eq)
  case Nil
  then show ?case by (simp add: wearOf_def wornDurability_def)
next
  case (Cons ev events)
  note W = wearBy_slot [OF Cons.prems(1) assms(2), of k ev]
  have "wearOf k j (ev # events) = wearOf k j [ev] + wearOf k j events" by (simp add: wearOf_def)
  moreover have "0 \<le> wearOf k j [ev]" "0 \<le> wearOf k j events"
    using Cons.prems(2) by (simp_all add: wearOf_nonneg)
  ultimately show ?case
    using Cons.IH [of "wearBy k ev eq"] W Cons.prems(2) by (simp add: wornDurability_add)
qed

lemma is_Execute_tick:
  assumes inv: "cs_inv (is_inventories sys)" "cs_inv (is_equipment sys)" "cs_inv (is_durabilityEvents sys)"
  shows "\<exists>sys'. is_Execute dt sys = Some sys'
    \<and> cs_dense (is_durabilityEvents sys') = map (\<lambda>ev. ev\<lparr>de_processed := True\<rparr>) (cs_dense (is_durabilityEvents sys))
    \<and> (\<forall>k. cs_lookup (is_equipment sys') k
          = map_option (\<lambda>eq. let eq' = fold (wearBy k) (cs_dense (is_durabilityEvents sys)) eq
                              in eq'\<lparr>eq_slots := map (tickSlot dt) (eq_slots eq')\<rparr>)
              (cs_lookup (is_equipment sys) k))
    \<and> (\<forall>k. cs_lookup (is_inventories sys') k
          = map_option (\<lambda>bag. bag\<lparr>iv_slots := map (tickSlot dt) (iv_slots bag)\<rparr>) (cs_lookup (is_inventories sys) k))"
proof -
  obtain events equip where f: "forEachComponent wearEvent (is_durabilityEvents sys, is_equipment sys) = Some (events, equip)"
    and ev: "cs_dense events = map (\<lambda>ev. ev\<lparr>de_processed := True\<rparr>) (cs_dense (is_durabilityEvents sys))"
    and eq: "cs_inv equip" "\<And>k. cs_lookup equip k
      = map_option (fold (wearBy k) (cs_dense (is_durabilityEvents sys))) (cs_lookup (is_equipment sys) k)"
    using wear.loop_events [OF inv(3,2)] by blast
  obtain equip' where e: "forEachComponent (\<lambda>e eq st. (eq\<lparr>eq_slots := map (tickSlot dt) (eq_slots eq)\<rparr>, st)) (equip, ())
      = Some (equip', ())" "\<And>k. cs_lookup equip' k = map_option (\<lambda>eq. eq\<lparr>eq_slots := map (tickSlot dt) (eq_slots eq)\<rparr>) (cs_lookup equip k)"
    using forEachComponent_map [OF eq(1), of _ "\<lambda>e eq. eq\<lparr>eq_slots := map (tickSlot dt) (eq_slots eq)\<rparr>" "()"] by force
  obtain bags where b: "forEachComponent (\<lambda>e bag st. (bag\<lparr>iv_slots := map (tickSlot dt) (iv_slots bag)\<rparr>, st)) (is_inventories sys, ())
      = Some (bags, ())" "\<And>k. cs_lookup bags k = map_option (\<lambda>bag. bag\<lparr>iv_slots := map (tickSlot dt) (iv_slots bag)\<rparr>) (cs_lookup (is_inventories sys) k)"
    using forEachComponent_map [OF inv(1), of _ "\<lambda>e bag. bag\<lparr>iv_slots := map (tickSlot dt) (iv_slots bag)\<rparr>" "()"] by force
  show ?thesis
    using f e(1) b ev by (simp add: is_Execute_def is_processDurabilityEvents_def is_updateEnchants_def e(2) eq(2)
        option.map_comp comp_def Let_def)
qed

section \<open>Properties\<close>

text \<open>(C17) Items are conserved. Take a bag whose slots are well-formed and any sequence of adding,
  removing, moving and splitting, with templates that have an id and agree on stack sizes.
  Then every slot is well-formed again (no stack above its limit, empty slots really empty), and
  for every item the quantity in the bag is the quantity before, plus what the calls of \<^verbatim>\<open>AddItem\<close>
  returned, minus what the successful calls of \<^verbatim>\<open>RemoveItem\<close> took: moving, splitting and
  refused calls neither create nor lose items. \<^verbatim>\<open>CountItem\<close> returns that quantity in 32 bits.\<close>

theorem inventory_conserves_items:
  assumes "list_all (slot_ok limit) (iv_slots bag)" and "list_all (iv_op_ok limit) ops"
  shows "let bag' = fold iv_exec ops bag in
      list_all (slot_ok limit) (iv_slots bag')
    \<and> itemTotal x (iv_slots bag') + reportedOut x ops bag = itemTotal x (iv_slots bag) + reportedIn x ops bag
    \<and> iv_CountItem x bag' = word_of_nat (itemTotal x (iv_slots bag'))"
  using iv_run_ledger [OF assms] by (simp add: Let_def iv_CountItem_total)

theorem inventory_conserves_items_witness:
  "let ops = [AddItem (defaultItemTemplate\<lparr>it_id := 7, it_maxStackSize := 20\<rparr>) 30, SplitStack 0 5, RemoveItem 1 4];
       bag = \<lparr>iv_slots = replicate 3 emptySlot, iv_capacity = 3, iv_currency = 0\<rparr>
   in map sl_count (iv_slots (fold iv_exec ops bag)) = [15, 6, 5]
      \<and> itemTotal 7 (iv_slots (fold iv_exec ops bag)) + 4 = 30"
proof -
  let ?ops = "[AddItem (defaultItemTemplate\<lparr>it_id := 7, it_maxStackSize := 20\<rparr>) 30, SplitStack 0 5, RemoveItem 1 4]"
  let ?bag = "\<lparr>iv_slots = replicate 3 emptySlot, iv_capacity = 3, iv_currency = 0\<rparr>"
  have ok: "list_all (slot_ok (\<lambda>_. 20)) (iv_slots ?bag)" "list_all (iv_op_ok (\<lambda>_. 20)) ?ops"
    by (simp_all add: list_all_iff)
  have "reportedIn 7 ?ops ?bag = 30 \<and> reportedOut 7 ?ops ?bag = 4 \<and> itemTotal 7 (iv_slots ?bag) = 0
      \<and> map sl_count (iv_slots (fold iv_exec ?ops ?bag)) = [15, 6, 5]"
    by code_simp
  then show ?thesis
    using inventory_conserves_items [OF ok, where x = 7] by (simp add: Let_def)
qed

text \<open>\<^verbatim>\<open>AddItem\<close> adds as much as fits: it returns at most what was asked, changes no other
  item's quantity, and when it returns less, there is no empty slot left and, for a stackable item,
  every stack of the item is full.\<close>

theorem inventory_add_as_much_as_fits:
  assumes "it_id tmpl \<noteq> 0" and "limit (it_id tmpl) = it_maxStackSize tmpl"
    and "list_all (slot_ok limit) (iv_slots bag)"
  shows "let (added, bag') = iv_AddItem tmpl n bag in
      added \<le> n
    \<and> itemTotal x (iv_slots bag') = itemTotal x (iv_slots bag) + (if x = it_id tmpl then unat added else 0)
    \<and> (added < n \<longrightarrow> list_all (\<lambda>s. \<not> sl_IsEmpty s) (iv_slots bag')
         \<and> (it_IsStackable tmpl \<longrightarrow> stacksFull tmpl (iv_slots bag')))"
  using iv_AddItem_spec [OF assms, of n "fst (iv_AddItem tmpl n bag)" "snd (iv_AddItem tmpl n bag)"]
  by (simp add: split_beta)

theorem inventory_add_as_much_as_fits_witness:
  "let tmpl = defaultItemTemplate\<lparr>it_id := 7, it_maxStackSize := 20\<rparr>;
       bag = \<lparr>iv_slots = [], iv_capacity = 2, iv_currency = 0\<rparr>
   in fst (iv_AddItem tmpl 50 bag) = 40 \<and> stacksFull tmpl (iv_slots (snd (iv_AddItem tmpl 50 bag)))"
proof -
  let ?tmpl = "defaultItemTemplate\<lparr>it_id := 7, it_maxStackSize := 20\<rparr>"
  let ?bag = "\<lparr>iv_slots = [], iv_capacity = 2, iv_currency = 0\<rparr>"
  have "fst (iv_AddItem ?tmpl 50 ?bag) = 40" by code_simp
  moreover have "it_IsStackable ?tmpl" by (simp add: it_IsStackable_def)
  ultimately show ?thesis
    using inventory_add_as_much_as_fits [of ?tmpl "\<lambda>_. 20" ?bag 50] by (simp add: split_beta)
qed

text \<open>The bonuses of an equipment are, attribute by attribute, exactly the sum of what the
  equipped items that are not broken give: their template's bonuses and those of their
  enchantments; the same holds for armor and for the damage range.\<close>

theorem equipment_bonuses_are_sums:
  "let b = eq_CalculateStatBonuses templates eq; worn = filter intact (eq_slots eq) in
     (\<forall>i. i < kMaxAttributes \<longrightarrow> sb_attributes b ! i = (\<Sum>s\<leftarrow>worn. gives templates (\<lambda>b. sb_attributes b ! i) s))
   \<and> sb_armor b = (\<Sum>s\<leftarrow>worn. gives templates sb_armor s)
   \<and> sb_minDamage b = (\<Sum>s\<leftarrow>worn. gives templates sb_minDamage s)
   \<and> sb_maxDamage b = (\<Sum>s\<leftarrow>worn. gives templates sb_maxDamage s)"
  by (simp add: Let_def calculateStatBonuses_additive [where m = sb_armor]
      calculateStatBonuses_additive [where m = sb_minDamage] calculateStatBonuses_additive [where m = sb_maxDamage]
      calculateStatBonuses_additive [where m = "\<lambda>b. sb_attributes b ! _"])

theorem equipment_bonuses_are_sums_witness:
  "sb_attributes (eq_CalculateStatBonuses [] mkEquipment) ! 3 = 0"
  using equipment_bonuses_are_sums [of "[]" mkEquipment]
  by (simp add: Let_def kMaxAttributes_def mkEquipment_def intact_def sl_IsEmpty_def)

text \<open>A tick of the inventory system never fails on well-formed pools. It handles every
  durability event once: afterwards all are marked processed, and the durability of each equipped
  item is what it was minus the sum of the amounts of the unprocessed events for its owner and
  slot, but not below 0; indestructible and broken items keep theirs. The item itself stays, and
  its enchantments are those that were permanent or have time left after the tick.\<close>

theorem inventory_tick_wears_equipment:
  assumes "cs_inv (is_inventories sys)" and "cs_inv (is_equipment sys)" and "cs_inv (is_durabilityEvents sys)"
    and "list_all (\<lambda>ev. 0 \<le> de_amount ev) (cs_dense (is_durabilityEvents sys))"
    and "cs_lookup (is_equipment sys) k = Some eq" and "length (eq_slots eq) = kEquipSlotCount" and "j < kEquipSlotCount"
  shows "\<exists>sys' eq'. is_Execute dt sys = Some sys'
    \<and> list_all de_processed (cs_dense (is_durabilityEvents sys'))
    \<and> cs_lookup (is_equipment sys') k = Some eq'
    \<and> sl_itemId (eq_slots eq' ! j) = sl_itemId (eq_slots eq ! j)
    \<and> sl_durability (eq_slots eq' ! j) =
        (let d = sl_durability (eq_slots eq ! j)
         in if d \<le> 0 then d else max 0 (d - wearOf k j (cs_dense (is_durabilityEvents sys))))
    \<and> (sl_itemId (eq_slots eq ! j) \<noteq> 0 \<longrightarrow> sl_enchants (eq_slots eq' ! j)
         = filter (\<lambda>e. \<not> enchantExpired e) (map (tickEnchant dt) (sl_enchants (eq_slots eq ! j))))"
proof -
  let ?evs = "cs_dense (is_durabilityEvents sys)"
  obtain sys' where s: "is_Execute dt sys = Some sys'"
    "cs_dense (is_durabilityEvents sys') = map (\<lambda>ev. ev\<lparr>de_processed := True\<rparr>) ?evs"
    "\<And>k. cs_lookup (is_equipment sys') k
          = map_option (\<lambda>eq. let eq' = fold (wearBy k) ?evs eq in eq'\<lparr>eq_slots := map (tickSlot dt) (eq_slots eq')\<rparr>)
              (cs_lookup (is_equipment sys) k)"
    using is_Execute_tick [OF assms(1-3), of dt] by blast
  note W = fold_wearBy_slot [OF assms(6,7,4), of k]
  let ?eq = "fold (wearBy k) ?evs eq"
  have "eq_slots (?eq\<lparr>eq_slots := map (tickSlot dt) (eq_slots ?eq)\<rparr>) ! j = tickSlot dt (eq_slots ?eq ! j)"
    using W assms(7) by simp
  then show ?thesis
    using W assms(5) s
    by (auto simp: list_all_iff Let_def tickSlot_def sl_IsEmpty_def sl_RemoveExpiredEnchants_def wornDurability_def)
qed

theorem inventory_tick_wears_equipment_witness:
  "let sword = emptySlot\<lparr>sl_itemId := 9, sl_count := 1, sl_durability := 10, sl_maxDurability := 10\<rparr>;
       hit = \<lparr>de_player = mkEntity 0 0, de_slot = MainHand, de_amount = 4, de_processed = False\<rparr>;
       sys = \<lparr>is_inventories = emptyStorage,
              is_equipment = singlePool (snd (eq_Equip MainHand sword mkEquipment)),
              is_durabilityEvents = singlePool hit, is_templates = []\<rparr>
   in \<exists>sys' eq'. is_Execute 1 sys = Some sys' \<and> cs_lookup (is_equipment sys') 0 = Some eq'
        \<and> sl_durability (eq_slots eq' ! 13) = 6"
proof -
  let ?sword = "emptySlot\<lparr>sl_itemId := 9, sl_count := 1, sl_durability := 10, sl_maxDurability := 10\<rparr>"
  let ?hit = "\<lparr>de_player = mkEntity 0 0, de_slot = MainHand, de_amount = 4, de_processed = False\<rparr>"
  define eq where "eq = snd (eq_Equip MainHand ?sword mkEquipment)"
  let ?sys = "\<lparr>is_inventories = emptyStorage, is_equipment = singlePool eq,
              is_durabilityEvents = singlePool ?hit, is_templates = []\<rparr>"
  have eq: "length (eq_slots eq) = kEquipSlotCount" "sl_durability (eq_slots eq ! 13) = 10"
    by (simp_all add: eq_def eq_Equip_def mkEquipment_def kEquipSlotCount_def)
  have "wearOf 0 13 [?hit] = 4" by (simp add: wearOf_def)
  then show ?thesis
    using inventory_tick_wears_equipment [of ?sys 0 eq 13 1] eq
    by (auto simp: Let_def eq_def [symmetric] kEquipSlotCount_def)
qed

end
