(* ===== verification/Quest.thy ===== *)
theory Quest
  imports Ecs_System_Loop Ieee_Float
begin

text \<open>
  \<^verbatim>\<open>include/cgs/game/quest_types.hpp\<close>, \<^verbatim>\<open>quest_components.hpp\<close> and
  \<^verbatim>\<open>src/game/quest_system/quest_system.cpp\<close>: objectives, the entries of a player's quest log
  with their state machine, the log's operations, and the system that runs the timers and
  feeds events to the objectives. The set of completed ids is only searched and extended, so it
  is a set. Progress counts are integers (their overflow is undefined behaviour).
\<close>

section \<open>Types\<close>

definition kMaxActiveQuests :: nat where "kMaxActiveQuests = 25"

datatype QuestState = Available | Accepted | ObjectivesComplete | TurnedIn | Failed

datatype ObjectiveType = KillObjective | CollectObjective | ExploreObjective | InteractObjective
  | EscortObjective | CustomObjective

type_synonym QuestFlags = u16

definition Repeatable :: QuestFlags where "Repeatable = 0x0001"

definition HasQuestFlag :: "QuestFlags \<Rightarrow> QuestFlags \<Rightarrow> bool" where
  "HasQuestFlag flags flag \<longleftrightarrow> flags AND flag \<noteq> 0"

datatype QuestEventType = KillEvent | CollectEvent | ExploreEvent | InteractEvent

section \<open>Objectives\<close>

record QuestObjective =
  qo_type :: ObjectiveType
  qo_targetId :: u32
  qo_current :: int
  qo_required :: int
  qo_completed :: bool

definition qo_AddProgress :: "int \<Rightarrow> QuestObjective \<Rightarrow> QuestObjective" where
  "qo_AddProgress amount obj =
     (if qo_completed obj then obj
      else let obj1 = obj\<lparr>qo_current := min (qo_current obj + amount) (qo_required obj)\<rparr>
           in if qo_current obj1 \<ge> qo_required obj1 then obj1\<lparr>qo_completed := True\<rparr> else obj1)"

definition qo_IsComplete :: "QuestObjective \<Rightarrow> bool" where
  "qo_IsComplete obj \<longleftrightarrow> qo_completed obj \<or> qo_current obj \<ge> qo_required obj"

record QuestReward =
  qr_experience :: int
  qr_currency :: int
  qr_items :: "(u32 \<times> u32) list"

record QuestTemplate =
  qt_id :: u32
  qt_name :: string
  qt_description :: string
  qt_level :: u32
  qt_prerequisites :: "u32 list"
  qt_chainNext :: "u32 option"
  qt_objectives :: "QuestObjective list"
  qt_rewards :: QuestReward
  qt_flags :: QuestFlags
  qt_timeLimitSeconds :: rat

section \<open>Entries of the log\<close>

record QuestEntry =
  qe_questId :: u32
  qe_templateId :: u32
  qe_state :: QuestState
  qe_objectives :: "QuestObjective list"
  qe_elapsedTime :: rat
  qe_timeLimit :: rat

definition qe_AllObjectivesComplete :: "QuestEntry \<Rightarrow> bool" where
  "qe_AllObjectivesComplete e \<longleftrightarrow> list_all qo_IsComplete (qe_objectives e)"

text \<open>Whether an objective is touched by an event.\<close>

definition concerns :: "ObjectiveType \<Rightarrow> u32 \<Rightarrow> QuestObjective \<Rightarrow> bool" where
  "concerns ty targetId obj \<longleftrightarrow> qo_type obj = ty \<and> qo_targetId obj = targetId \<and> \<not> qo_completed obj"

definition qe_UpdateObjective :: "ObjectiveType \<Rightarrow> u32 \<Rightarrow> int \<Rightarrow> QuestEntry \<Rightarrow> bool \<times> QuestEntry" where
  "qe_UpdateObjective ty targetId amount e =
     (if qe_state e \<noteq> Accepted then (False, e)
      else let updated = list_ex (concerns ty targetId) (qe_objectives e);
               e1 = e\<lparr>qe_objectives := map (\<lambda>obj. if concerns ty targetId obj
                                                 then qo_AddProgress amount obj else obj) (qe_objectives e)\<rparr>
           in (updated, if updated \<and> qe_AllObjectivesComplete e1
                        then e1\<lparr>qe_state := ObjectivesComplete\<rparr> else e1))"

section \<open>The quest log\<close>

record QuestLog =
  ql_activeQuests :: "QuestEntry list"
  ql_completedQuestIds :: "u32 set"
  ql_maxActiveQuests :: u32

definition mkQuestLog :: QuestLog where
  "mkQuestLog = \<lparr>ql_activeQuests = [], ql_completedQuestIds = {},
     ql_maxActiveQuests = word_of_nat kMaxActiveQuests\<rparr>"

definition ql_HasQuest :: "u32 \<Rightarrow> QuestLog \<Rightarrow> bool" where
  "ql_HasQuest questId l \<longleftrightarrow> list_ex (\<lambda>e. qe_questId e = questId) (ql_activeQuests l)"

definition ql_IsCompleted :: "u32 \<Rightarrow> QuestLog \<Rightarrow> bool" where
  "ql_IsCompleted questId l \<longleftrightarrow> questId \<in> ql_completedQuestIds l"

definition ql_CanAccept :: "QuestTemplate \<Rightarrow> QuestLog \<Rightarrow> bool" where
  "ql_CanAccept tmpl l \<longleftrightarrow>
     (if ql_HasQuest (qt_id tmpl) l then False
      else if ql_IsCompleted (qt_id tmpl) l \<and> \<not> HasQuestFlag (qt_flags tmpl) Repeatable then False
      else list_all (\<lambda>prereqId. ql_IsCompleted prereqId l) (qt_prerequisites tmpl))"

definition ql_Accept :: "QuestTemplate \<Rightarrow> QuestLog \<Rightarrow> bool \<times> QuestLog" where
  "ql_Accept tmpl l =
     (if length (ql_activeQuests l) \<ge> unat (ql_maxActiveQuests l) then (False, l)
      else if ql_HasQuest (qt_id tmpl) l then (False, l)
      else if \<not> ql_CanAccept tmpl l then (False, l)
      else let entry = \<lparr>qe_questId = qt_id tmpl, qe_templateId = qt_id tmpl, qe_state = Accepted,
                        qe_objectives = qt_objectives tmpl, qe_elapsedTime = 0,
                        qe_timeLimit = qt_timeLimitSeconds tmpl\<rparr>
           in (True, l\<lparr>ql_activeQuests := ql_activeQuests l @ [entry]\<rparr>))"

text \<open>Erasing and changing the first entry with the given id.\<close>

fun eraseQuest :: "u32 \<Rightarrow> QuestEntry list \<Rightarrow> QuestEntry list" where
  "eraseQuest questId [] = []"
| "eraseQuest questId (e # es) = (if qe_questId e = questId then es else e # eraseQuest questId es)"

definition ql_Abandon :: "u32 \<Rightarrow> QuestLog \<Rightarrow> bool \<times> QuestLog" where
  "ql_Abandon questId l =
     (if ql_HasQuest questId l
      then (True, l\<lparr>ql_activeQuests := eraseQuest questId (ql_activeQuests l)\<rparr>)
      else (False, l))"

definition ql_GetQuest :: "u32 \<Rightarrow> QuestLog \<Rightarrow> QuestEntry option" where
  "ql_GetQuest questId l = find (\<lambda>e. qe_questId e = questId) (ql_activeQuests l)"

fun setState :: "u32 \<Rightarrow> QuestState \<Rightarrow> QuestEntry list \<Rightarrow> QuestEntry list" where
  "setState questId st [] = []"
| "setState questId st (e # es) =
     (if qe_questId e = questId then e\<lparr>qe_state := st\<rparr> # es else e # setState questId st es)"

definition ql_TurnIn :: "u32 \<Rightarrow> QuestLog \<Rightarrow> bool \<times> QuestLog" where
  "ql_TurnIn questId l =
     (case ql_GetQuest questId l of
        None \<Rightarrow> (False, l)
      | Some entry \<Rightarrow>
          if qe_state entry \<noteq> ObjectivesComplete then (False, l)
          else (True, l\<lparr>ql_activeQuests := setState questId TurnedIn (ql_activeQuests l),
                       ql_completedQuestIds := insert questId (ql_completedQuestIds l)\<rparr>))"

definition ql_CleanupFinished :: "QuestLog \<Rightarrow> QuestLog" where
  "ql_CleanupFinished l = l\<lparr>ql_activeQuests :=
     filter (\<lambda>e. \<not> (qe_state e = TurnedIn \<or> qe_state e = Failed)) (ql_activeQuests l)\<rparr>"

section \<open>The quest system\<close>

record QuestEvent =
  qv_player :: Entity
  qv_type :: QuestEventType
  qv_targetId :: u32
  qv_count :: int
  qv_processed :: bool

record QuestSystem =
  qs_questLogs :: "QuestLog ComponentStorage"
  qs_questEvents :: "QuestEvent ComponentStorage"
  qs_templates :: "QuestTemplate list"

fun registerQuest :: "QuestTemplate \<Rightarrow> QuestTemplate list \<Rightarrow> QuestTemplate list" where
  "registerQuest tmpl [] = [tmpl]"
| "registerQuest tmpl (t # ts) = (if qt_id t = qt_id tmpl then tmpl # ts else t # registerQuest tmpl ts)"

definition qs_RegisterTemplate :: "QuestTemplate \<Rightarrow> QuestSystem \<Rightarrow> QuestSystem" where
  "qs_RegisterTemplate tmpl sys = sys\<lparr>qs_templates := registerQuest tmpl (qs_templates sys)\<rparr>"

definition qs_GetTemplate :: "u32 \<Rightarrow> QuestSystem \<Rightarrow> QuestTemplate option" where
  "qs_GetTemplate templateId sys = find (\<lambda>t. qt_id t = templateId) (qs_templates sys)"

definition tickQuest :: "rat \<Rightarrow> QuestEntry \<Rightarrow> QuestEntry" where
  "tickQuest deltaTime quest =
     (if qe_state quest \<noteq> Accepted then quest
      else if qe_timeLimit quest \<le> 0 then quest
      else let quest1 = quest\<lparr>qe_elapsedTime := f32 (qe_elapsedTime quest + deltaTime)\<rparr>
           in if qe_elapsedTime quest1 \<ge> qe_timeLimit quest1
              then quest1\<lparr>qe_state := Failed\<rparr> else quest1)"

definition tickLog :: "rat \<Rightarrow> QuestLog \<Rightarrow> QuestLog" where
  "tickLog deltaTime l = l\<lparr>ql_activeQuests := map (tickQuest deltaTime) (ql_activeQuests l)\<rparr>"

definition qs_updateTimers :: "rat \<Rightarrow> QuestSystem \<Rightarrow> QuestSystem option" where
  "qs_updateTimers deltaTime sys =
     map_option (\<lambda>(logs, _). sys\<lparr>qs_questLogs := logs\<rparr>)
       (forEachComponent (\<lambda>e l st. (tickLog deltaTime l, st)) (qs_questLogs sys, ()))"

primrec objectiveTypeOf :: "QuestEventType \<Rightarrow> ObjectiveType" where
  "objectiveTypeOf KillEvent = KillObjective"
| "objectiveTypeOf CollectEvent = CollectObjective"
| "objectiveTypeOf ExploreEvent = ExploreObjective"
| "objectiveTypeOf InteractEvent = InteractObjective"

definition notifyLog :: "QuestEvent \<Rightarrow> QuestLog \<Rightarrow> QuestLog" where
  "notifyLog event l = l\<lparr>ql_activeQuests :=
     map (\<lambda>quest. snd (qe_UpdateObjective (objectiveTypeOf (qv_type event)) (qv_targetId event) (qv_count event) quest))
       (ql_activeQuests l)\<rparr>"

definition questEvent :: "Entity \<Rightarrow> QuestEvent \<Rightarrow> QuestLog ComponentStorage \<Rightarrow> QuestEvent \<times> QuestLog ComponentStorage" where
  "questEvent eventEntity event logs =
     (if qv_processed event then (event, logs)
      else let logs' = (case cs_Get logs (qv_player event) of
                          None \<Rightarrow> logs
                        | Some l \<Rightarrow> assignRef (qv_player event) (notifyLog event l) logs)
           in (event\<lparr>qv_processed := True\<rparr>, logs'))"

definition qs_processEvents :: "QuestSystem \<Rightarrow> QuestSystem option" where
  "qs_processEvents sys =
     map_option (\<lambda>(events, logs). sys\<lparr>qs_questEvents := events, qs_questLogs := logs\<rparr>)
       (forEachComponent questEvent (qs_questEvents sys, qs_questLogs sys))"

definition qs_Execute :: "rat \<Rightarrow> QuestSystem \<Rightarrow> QuestSystem option" where
  "qs_Execute deltaTime sys =
     (case qs_updateTimers deltaTime sys of None \<Rightarrow> None | Some sys1 \<Rightarrow> qs_processEvents sys1)"

section \<open>Counting events\<close>

text \<open>A well-formed objective is marked completed exactly when its count has reached what is required.\<close>

definition objective_ok :: "QuestObjective \<Rightarrow> bool" where
  "objective_ok obj \<longleftrightarrow> qo_current obj \<le> qo_required obj
     \<and> (qo_completed obj \<longleftrightarrow> qo_required obj \<le> qo_current obj)"

definition eventTally :: "QuestEvent list \<Rightarrow> QuestObjective \<Rightarrow> int" where
  "eventTally evs obj =
     (\<Sum>ev\<leftarrow>filter (\<lambda>ev. objectiveTypeOf (qv_type ev) = qo_type obj \<and> qv_targetId ev = qo_targetId obj) evs. qv_count ev)"

definition objAfter :: "QuestEvent list \<Rightarrow> QuestObjective \<Rightarrow> QuestObjective" where
  "objAfter evs obj = obj\<lparr>qo_current := min (qo_current obj + eventTally evs obj) (qo_required obj),
     qo_completed := qo_required obj \<le> qo_current obj + eventTally evs obj\<rparr>"

definition notifyEntry :: "QuestEvent \<Rightarrow> QuestEntry \<Rightarrow> QuestEntry" where
  "notifyEntry ev e = snd (qe_UpdateObjective (objectiveTypeOf (qv_type ev)) (qv_targetId ev) (qv_count ev) e)"

lemma eventTally_nonneg: "list_all (\<lambda>ev. 0 \<le> qv_count ev) evs \<Longrightarrow> 0 \<le> eventTally evs obj"
  by (auto simp: eventTally_def list_all_iff intro!: sum_list_nonneg)

lemma eventTally_objAfter [simp]: "eventTally evs (objAfter evs' obj) = eventTally evs obj"
  by (simp add: eventTally_def objAfter_def)

lemma eventTally_Cons: "eventTally (ev # evs) obj = eventTally [ev] obj + eventTally evs obj"
  by (simp add: eventTally_def)

lemma objAfter_ok: "objective_ok (objAfter evs obj)"
  by (auto simp: objective_ok_def objAfter_def)

lemma objAfter_complete [simp]: "qo_IsComplete (objAfter evs obj) \<longleftrightarrow> qo_completed (objAfter evs obj)"
  by (auto simp: qo_IsComplete_def objAfter_def)

lemma objAfter_Cons:
  assumes "objective_ok obj" and "0 \<le> qv_count ev" and "list_all (\<lambda>ev. 0 \<le> qv_count ev) evs"
  shows "objAfter evs (objAfter [ev] obj) = objAfter (ev # evs) obj"
proof -
  have b: "0 \<le> eventTally evs obj" by (rule eventTally_nonneg [OF assms(3)])
  have "min (min (c + a) r + eventTally evs obj) r = min (c + (a + eventTally evs obj)) r"
    "r \<le> min (c + a) r + eventTally evs obj \<longleftrightarrow> r \<le> c + (a + eventTally evs obj)" for a c r :: int
    using b by linarith+
  then show ?thesis
    using eventTally_objAfter [of evs "[ev]" obj]
    by (simp add: objAfter_def [of evs] objAfter_def [of "ev # evs"] eventTally_Cons [of ev evs])
      (simp add: objAfter_def)
qed

lemma objAfter_done:
  assumes "objective_ok obj" and "qo_completed obj" and "list_all (\<lambda>ev. 0 \<le> qv_count ev) evs"
  shows "objAfter evs obj = obj"
  using assms eventTally_nonneg [OF assms(3), of obj] by (auto simp: objAfter_def objective_ok_def min_def)

lemma objAfter_one:
  assumes "objective_ok obj" and "0 \<le> qv_count ev"
  shows "(if concerns (objectiveTypeOf (qv_type ev)) (qv_targetId ev) obj then qo_AddProgress (qv_count ev) obj else obj)
      = objAfter [ev] obj"
  using assms by (auto simp: concerns_def qo_AddProgress_def objAfter_def objective_ok_def eventTally_def Let_def min_def)

lemma notifyEntry_one:
  assumes "qe_state e = Accepted" and "list_all objective_ok (qe_objectives e)" and "0 \<le> qv_count ev"
    and "\<not> qe_AllObjectivesComplete e"
  shows "notifyEntry ev e = e\<lparr>qe_objectives := map (objAfter [ev]) (qe_objectives e),
    qe_state := if list_all (\<lambda>obj. qo_completed (objAfter [ev] obj)) (qe_objectives e)
                then ObjectivesComplete else Accepted\<rparr>"
proof -
  let ?ty = "objectiveTypeOf (qv_type ev)"
  let ?updated = "list_ex (concerns ?ty (qv_targetId ev)) (qe_objectives e)"
  have m: "map (\<lambda>obj. if concerns ?ty (qv_targetId ev) obj then qo_AddProgress (qv_count ev) obj else obj) (qe_objectives e)
      = map (objAfter [ev]) (qe_objectives e)"
    using assms(2,3) by (auto simp: list_all_iff objAfter_one)
  have all: "qe_AllObjectivesComplete (e\<lparr>qe_objectives := map (objAfter [ev]) (qe_objectives e)\<rparr>)
      \<longleftrightarrow> list_all (\<lambda>obj. qo_completed (objAfter [ev] obj)) (qe_objectives e)"
    by (simp add: qe_AllObjectivesComplete_def list_all_iff)
  have "?updated" if "list_all (\<lambda>obj. qo_completed (objAfter [ev] obj)) (qe_objectives e)"
  proof -
    obtain obj where obj: "obj \<in> set (qe_objectives e)" "\<not> qo_IsComplete obj"
      using assms(4) by (auto simp: qe_AllObjectivesComplete_def list_all_iff)
    then have "objAfter [ev] obj \<noteq> obj" using that by (auto simp: qo_IsComplete_def list_all_iff)
    then have "concerns ?ty (qv_targetId ev) obj"
      using objAfter_one [of obj ev] obj(1) assms(2,3) by (auto simp: list_all_iff split: if_splits)
    then show ?thesis using obj(1) by (auto simp: list_ex_iff)
  qed
  then show ?thesis
    using assms(1) all by (auto simp: notifyEntry_def qe_UpdateObjective_def Let_def m)
qed

lemma notifyEntry_other: "qe_state e \<noteq> Accepted \<Longrightarrow> notifyEntry ev e = e"
  by (simp add: notifyEntry_def qe_UpdateObjective_def)

lemma fold_notify_other: "qe_state e \<noteq> Accepted \<Longrightarrow> fold notifyEntry evs e = e"
  by (induction evs) (simp_all add: notifyEntry_other)

lemma fold_notifyEntry:
  assumes "qe_state e = Accepted" and "list_all objective_ok (qe_objectives e)"
    and "list_all (\<lambda>ev. 0 \<le> qv_count ev) evs" and "\<not> qe_AllObjectivesComplete e"
  shows "fold notifyEntry evs e = e\<lparr>qe_objectives := map (objAfter evs) (qe_objectives e),
    qe_state := if list_all (\<lambda>obj. qo_completed (objAfter evs obj)) (qe_objectives e)
                then ObjectivesComplete else Accepted\<rparr>"
  using assms
proof (induction evs arbitrary: e)
  case Nil
  have "map (objAfter []) (qe_objectives e) = qe_objectives e"
    using Nil.prems(2) by (auto simp: list_all_iff objAfter_def eventTally_def objective_ok_def intro!: map_idI)
  moreover have "\<not> list_all (\<lambda>obj. qo_completed (objAfter [] obj)) (qe_objectives e)"
    using Nil.prems(4) by (auto simp: list_all_iff qe_AllObjectivesComplete_def objAfter_def eventTally_def qo_IsComplete_def)
  ultimately show ?case using Nil.prems(1) by simp
next
  case (Cons ev evs)
  define e1 where "e1 = notifyEntry ev e"
  have e1: "e1 = e\<lparr>qe_objectives := map (objAfter [ev]) (qe_objectives e),
      qe_state := if list_all (\<lambda>obj. qo_completed (objAfter [ev] obj)) (qe_objectives e)
                  then ObjectivesComplete else Accepted\<rparr>"
    unfolding e1_def using Cons.prems by (intro notifyEntry_one) simp_all
  have cons: "objAfter (ev # evs) obj = objAfter evs (objAfter [ev] obj)" if "obj \<in> set (qe_objectives e)" for obj
    using that Cons.prems by (intro objAfter_Cons [symmetric]) (simp_all add: list_all_iff)
  have m: "map (objAfter (ev # evs)) (qe_objectives e) = map (objAfter evs) (qe_objectives e1)"
    using cons by (simp add: e1)
  have l: "list_all (\<lambda>obj. qo_completed (objAfter (ev # evs) obj)) (qe_objectives e)
      \<longleftrightarrow> list_all (\<lambda>obj. qo_completed (objAfter evs obj)) (qe_objectives e1)"
    using cons by (simp add: e1 list_all_iff)
  have ok1: "list_all objective_ok (qe_objectives e1)" by (simp add: e1 list_all_iff objAfter_ok)
  show ?case
  proof (cases "list_all (\<lambda>obj. qo_completed (objAfter [ev] obj)) (qe_objectives e)")
    case True
    then have c: "list_all qo_completed (qe_objectives e1)" by (simp add: e1 list_all_iff)
    then have "map (objAfter evs) (qe_objectives e1) = qe_objectives e1"
      using ok1 Cons.prems(3) by (intro map_idI) (simp add: list_all_iff objAfter_done)
    moreover from this c have "list_all (\<lambda>obj. qo_completed (objAfter evs obj)) (qe_objectives e1)"
      by (metis (mono_tags, lifting) list.pred_map list_all_cong comp_def)
    ultimately show ?thesis
      using True fold_notify_other [of e1 evs] m l by (simp add: e1_def [symmetric]) (simp add: e1)
  next
    case False
    then have "\<not> qe_AllObjectivesComplete e1" by (simp add: e1 qe_AllObjectivesComplete_def list_all_iff)
    moreover have "qe_state e1 = Accepted" using False by (simp add: e1)
    ultimately have "fold notifyEntry evs e1 = e1\<lparr>qe_objectives := map (objAfter evs) (qe_objectives e1),
      qe_state := if list_all (\<lambda>obj. qo_completed (objAfter evs obj)) (qe_objectives e1)
                  then ObjectivesComplete else Accepted\<rparr>"
      using Cons.IH [OF _ ok1] Cons.prems(3) by simp
    then show ?thesis using m l by (simp add: e1_def [symmetric]) (simp add: e1)
  qed
qed

section \<open>The state machine of a log\<close>

datatype ql_op = AcceptQuest QuestTemplate | AbandonQuest u32 | TurnInQuest u32 | CleanupFinished
  | NotifyEvent QuestEvent | TickTimers rat

fun ql_exec :: "ql_op \<Rightarrow> QuestLog \<Rightarrow> QuestLog" where
  "ql_exec (AcceptQuest tmpl) l = snd (ql_Accept tmpl l)"
| "ql_exec (AbandonQuest q) l = snd (ql_Abandon q l)"
| "ql_exec (TurnInQuest q) l = snd (ql_TurnIn q l)"
| "ql_exec CleanupFinished l = ql_CleanupFinished l"
| "ql_exec (NotifyEvent ev) l = notifyLog ev l"
| "ql_exec (TickTimers dt) l = tickLog dt l"

text \<open>The documented edges of the quest states, with what causes each.\<close>

inductive quest_edge :: "ql_op \<Rightarrow> QuestEntry \<Rightarrow> QuestEntry \<Rightarrow> bool" where
  stay: "qe_state e' = qe_state e \<Longrightarrow> quest_edge opn e e'"
| complete: "qe_state e = Accepted \<Longrightarrow> qe_state e' = ObjectivesComplete \<Longrightarrow> qe_AllObjectivesComplete e'
    \<Longrightarrow> quest_edge (NotifyEvent ev) e e'"
| expire: "qe_state e = Accepted \<Longrightarrow> qe_state e' = Failed \<Longrightarrow> 0 < qe_timeLimit e
    \<Longrightarrow> qe_timeLimit e \<le> qe_elapsedTime e' \<Longrightarrow> quest_edge (TickTimers dt) e e'"
| turn_in: "qe_state e = ObjectivesComplete \<Longrightarrow> qe_state e' = TurnedIn
    \<Longrightarrow> quest_edge (TurnInQuest (qe_questId e)) e e'"

inductive_cases quest_edgeE: "quest_edge opn e e'"

text \<open>\<open>T\<close> gives the template of each quest id. Ids are listed once and at most up to the limit;
  a quest that is ready or turned in has all its objectives complete; the prerequisites of every
  listed and of every completed quest are completed.\<close>

definition entry_ok :: "(u32 \<Rightarrow> QuestTemplate) \<Rightarrow> u32 set \<Rightarrow> QuestEntry \<Rightarrow> bool" where
  "entry_ok T compl e \<longleftrightarrow> qe_state e \<noteq> Available
     \<and> (qe_state e = ObjectivesComplete \<or> qe_state e = TurnedIn \<longrightarrow> qe_AllObjectivesComplete e)
     \<and> (qe_state e = TurnedIn \<longrightarrow> qe_questId e \<in> compl)
     \<and> set (qt_prerequisites (T (qe_questId e))) \<subseteq> compl"

definition ql_inv :: "(u32 \<Rightarrow> QuestTemplate) \<Rightarrow> QuestLog \<Rightarrow> bool" where
  "ql_inv T l \<longleftrightarrow> distinct (map qe_questId (ql_activeQuests l))
     \<and> length (ql_activeQuests l) \<le> unat (ql_maxActiveQuests l)
     \<and> (\<forall>e \<in> set (ql_activeQuests l). entry_ok T (ql_completedQuestIds l) e)
     \<and> (\<forall>q \<in> ql_completedQuestIds l. set (qt_prerequisites (T q)) \<subseteq> ql_completedQuestIds l)"

lemma mkQuestLog_inv [simp]: "ql_inv T mkQuestLog"
  by (simp add: ql_inv_def mkQuestLog_def)

lemma eraseQuest_filter:
  "distinct (map qe_questId es) \<Longrightarrow> eraseQuest q es = filter (\<lambda>e. qe_questId e \<noteq> q) es"
proof (induction es)
  case (Cons e es)
  then have "filter (\<lambda>x. qe_questId x \<noteq> qe_questId e) es = es" by (intro filter_True) (force simp: image_iff)
  then show ?case using Cons by auto
qed simp

lemma setState_map:
  "distinct (map qe_questId es) \<Longrightarrow>
     setState q st es = map (\<lambda>e. if qe_questId e = q then e\<lparr>qe_state := st\<rparr> else e) es"
proof (induction es)
  case (Cons e es)
  then have "map (\<lambda>x. if qe_questId x = qe_questId e then x\<lparr>qe_state := st\<rparr> else x) es = es"
    by (intro map_idI) (force simp: image_iff)
  then show ?case using Cons by auto
qed simp

lemma map_ids:
  "(\<And>e. e \<in> set es \<Longrightarrow> qe_questId (f e) = qe_questId e) \<Longrightarrow> map qe_questId (map f es) = map qe_questId es"
  by simp

lemma tickQuest_edge: "qe_questId (tickQuest dt e) = qe_questId e" "quest_edge (TickTimers dt) e (tickQuest dt e)"
  by (auto simp: tickQuest_def Let_def intro: quest_edge.intros)

lemma notifyEntry_edge: "qe_questId (notifyEntry ev e) = qe_questId e" "quest_edge (NotifyEvent ev) e (notifyEntry ev e)"
  by (auto simp: notifyEntry_def qe_UpdateObjective_def qe_AllObjectivesComplete_def Let_def intro: quest_edge.intros)

lemma notifyLog_entries: "notifyLog ev l = l\<lparr>ql_activeQuests := map (notifyEntry ev) (ql_activeQuests l)\<rparr>"
  by (simp add: notifyLog_def notifyEntry_def)

lemma tickQuest_ok: "entry_ok T compl e \<Longrightarrow> entry_ok T compl (tickQuest dt e)"
  by (auto simp: entry_ok_def tickQuest_def Let_def)

lemma notifyEntry_ok: "entry_ok T compl e \<Longrightarrow> entry_ok T compl (notifyEntry ev e)"
  by (auto simp: entry_ok_def notifyEntry_def qe_UpdateObjective_def qe_AllObjectivesComplete_def Let_def)

lemma entry_ok_mono: "entry_ok T compl e \<Longrightarrow> compl \<subseteq> compl' \<Longrightarrow> entry_ok T compl' e"
  by (auto simp: entry_ok_def)

lemma ql_TurnIn_True:
  assumes "ql_TurnIn q l = (True, l')"
  obtains e where "e \<in> set (ql_activeQuests l)" "qe_questId e = q" "qe_state e = ObjectivesComplete"
    "l' = l\<lparr>ql_activeQuests := setState q TurnedIn (ql_activeQuests l),
           ql_completedQuestIds := insert q (ql_completedQuestIds l)\<rparr>"
  using assms by (auto simp: ql_TurnIn_def ql_GetQuest_def find_Some_iff in_set_conv_nth split: option.splits if_splits)

lemma ql_TurnIn_False: "fst (ql_TurnIn q l) = False \<Longrightarrow> snd (ql_TurnIn q l) = l"
  by (auto simp: ql_TurnIn_def split: option.splits if_splits)

lemma ql_TurnIn_inv:
  assumes "ql_inv T l" and "ql_TurnIn q l = (True, l')"
  shows "ql_inv T l'"
proof -
  obtain e where e: "e \<in> set (ql_activeQuests l)" "qe_questId e = q" "qe_state e = ObjectivesComplete"
    and l': "l' = l\<lparr>ql_activeQuests := setState q TurnedIn (ql_activeQuests l),
           ql_completedQuestIds := insert q (ql_completedQuestIds l)\<rparr>"
    using ql_TurnIn_True [OF assms(2)] .
  let ?C = "ql_completedQuestIds l"
  have d: "distinct (map qe_questId (ql_activeQuests l))" using assms(1) by (simp add: ql_inv_def)
  have ok: "\<And>x. x \<in> set (ql_activeQuests l) \<Longrightarrow> entry_ok T ?C x" using assms(1) by (simp add: ql_inv_def)
  have same: "x = e" if "x \<in> set (ql_activeQuests l)" "qe_questId x = q" for x
    using d e that by (metis distinct_map inj_on_def)
  have "entry_ok T (insert q ?C) (if qe_questId x = q then x\<lparr>qe_state := TurnedIn\<rparr> else x)"
    if "x \<in> set (ql_activeQuests l)" for x
    using ok [OF that] same [OF that] e(3) entry_ok_mono [OF ok [OF that], of "insert q ?C"]
    by (auto simp: entry_ok_def qe_AllObjectivesComplete_def)
  moreover have "set (qt_prerequisites (T q)) \<subseteq> ?C" using ok [OF e(1)] e(2) by (simp add: entry_ok_def)
  ultimately show ?thesis
    using assms(1) unfolding ql_inv_def l' setState_map [OF d]
    by (auto simp: comp_def if_distrib [of qe_questId] simp del: if_image_distrib cong: if_cong split: if_splits)
qed

lemma ql_Accept_inv:
  assumes "ql_inv T l" and "T (qt_id tmpl) = tmpl"
  shows "ql_inv T (snd (ql_Accept tmpl l))"
  using assms
  by (auto simp: ql_inv_def ql_Accept_def ql_CanAccept_def ql_HasQuest_def ql_IsCompleted_def Let_def entry_ok_def
      list_ex_iff list_all_iff)

fun ql_op_ok :: "(u32 \<Rightarrow> QuestTemplate) \<Rightarrow> ql_op \<Rightarrow> bool" where
  "ql_op_ok T (AcceptQuest tmpl) \<longleftrightarrow> T (qt_id tmpl) = tmpl"
| "ql_op_ok T _ \<longleftrightarrow> True"

lemma ql_exec_inv [inv_intros]:
  assumes "ql_inv T l" and "ql_op_ok T opn"
  shows "ql_inv T (ql_exec opn l)"
proof (cases opn)
  case (AcceptQuest tmpl)
  then show ?thesis using ql_Accept_inv [OF assms(1)] assms(2) by simp
next
  case (AbandonQuest q)
  then show ?thesis
    using assms(1) by (auto simp: ql_Abandon_def ql_inv_def eraseQuest_filter distinct_map_filter
        intro: order_trans [OF length_filter_le])
next
  case (TurnInQuest q)
  then show ?thesis
    using ql_TurnIn_inv [OF assms(1), of q] ql_TurnIn_False [of q l] assms(1)
    by (cases "ql_TurnIn q l"; cases "fst (ql_TurnIn q l)") auto
next
  case CleanupFinished
  then show ?thesis
    using assms(1) by (auto simp: ql_CleanupFinished_def ql_inv_def distinct_map_filter
        intro: order_trans [OF length_filter_le])
next
  case (NotifyEvent ev)
  then show ?thesis
    using assms(1) by (simp add: notifyLog_entries ql_inv_def notifyEntry_ok notifyEntry_edge comp_def)
next
  case (TickTimers dt)
  then show ?thesis
    using assms(1) by (simp add: tickLog_def ql_inv_def tickQuest_ok tickQuest_edge comp_def)
qed

lemma ql_run_inv:
  "ql_inv T l \<Longrightarrow> list_all (ql_op_ok T) ops \<Longrightarrow> ql_inv T (fold ql_exec ops l)"
  by (induction ops arbitrary: l) (simp_all add: ql_exec_inv)

lemma ql_exec_edge:
  assumes "ql_inv T l" and e: "e \<in> set (ql_activeQuests l)"
    and e': "e' \<in> set (ql_activeQuests (ql_exec opn l))" and id: "qe_questId e' = qe_questId e"
  shows "quest_edge opn e e'"
proof -
  have d: "distinct (map qe_questId (ql_activeQuests l))" using assms(1) by (simp add: ql_inv_def)
  have same: "x = e" if "x \<in> set (ql_activeQuests l)" "qe_questId x = qe_questId e" for x
    using d e that by (metis distinct_map inj_on_def)
  have keep: "quest_edge opn e e'" if "e' \<in> set (ql_activeQuests l)"
    using same [OF that id] by (auto intro: stay)
  show ?thesis
  proof (cases opn)
    case (AcceptQuest tmpl)
    have "\<not> ql_HasQuest (qe_questId e') l \<Longrightarrow> False"
      using e id by (auto simp: ql_HasQuest_def list_ex_iff)
    then have "e' \<in> set (ql_activeQuests l)"
      using e' AcceptQuest by (auto simp: ql_Accept_def Let_def split: if_splits)
    then show ?thesis by (rule keep)
  next
    case (AbandonQuest q)
    then show ?thesis
      using e' keep by (auto simp: ql_Abandon_def eraseQuest_filter [OF d] split: if_splits)
  next
    case (TurnInQuest q)
    show ?thesis
    proof (cases "fst (ql_TurnIn q l)")
      case True
      then have t: "ql_TurnIn q l = (True, snd (ql_TurnIn q l))" by (cases "ql_TurnIn q l") simp
      obtain x where x: "x \<in> set (ql_activeQuests l)" "qe_questId x = q" "qe_state x = ObjectivesComplete"
        and "snd (ql_TurnIn q l) = l\<lparr>ql_activeQuests := setState q TurnedIn (ql_activeQuests l),
           ql_completedQuestIds := insert q (ql_completedQuestIds l)\<rparr>"
        using ql_TurnIn_True [OF t] .
      then obtain y where y: "y \<in> set (ql_activeQuests l)" "e' = (if qe_questId y = q then y\<lparr>qe_state := TurnedIn\<rparr> else y)"
        using e' TurnInQuest by (auto simp: setState_map [OF d])
      then have ye: "y = e" using same [OF y(1)] id by (simp split: if_splits)
      show ?thesis
      proof (cases "qe_questId e = q")
        case True
        then have "x = e" using same [OF x(1)] x(2) by simp
        then show ?thesis using turn_in [of e e'] x y ye TurnInQuest by simp
      next
        case False
        then show ?thesis using y ye by (intro stay) simp
      qed
    qed (use ql_TurnIn_False [of q l] e' TurnInQuest keep in auto)
  next
    case CleanupFinished
    then show ?thesis using e' keep by (auto simp: ql_CleanupFinished_def)
  next
    case (NotifyEvent ev)
    then obtain x where "x \<in> set (ql_activeQuests l)" "e' = notifyEntry ev x"
      using e' by (auto simp: notifyLog_entries)
    then show ?thesis using same [of x] id NotifyEvent by (simp add: notifyEntry_edge)
  next
    case (TickTimers dt)
    then obtain x where "x \<in> set (ql_activeQuests l)" "e' = tickQuest dt x"
      using e' by (auto simp: tickLog_def)
    then show ?thesis using same [of x] id TickTimers by (simp add: tickQuest_edge)
  qed
qed

section \<open>The system's tick\<close>

definition notifyBy :: "nat \<Rightarrow> QuestEvent \<Rightarrow> QuestLog \<Rightarrow> QuestLog" where
  "notifyBy k ev l = (if \<not> qv_processed ev \<and> eidx (qv_player ev) = k then notifyLog ev l else l)"

definition eventsFor :: "nat \<Rightarrow> QuestEvent list \<Rightarrow> QuestEvent list" where
  "eventsFor k evs = filter (\<lambda>ev. \<not> qv_processed ev \<and> eidx (qv_player ev) = k) evs"

lemma questEvent_pool:
  assumes "cs_inv st"
  shows "cs_inv (snd (questEvent e ev st))
    \<and> cs_lookup (snd (questEvent e ev st)) k = map_option (notifyBy k ev) (cs_lookup st k)"
proof (cases "qv_processed ev \<or> cs_lookup st (eidx (qv_player ev)) = None")
  case True
  moreover from this have "map_option (notifyBy k ev) (cs_lookup st k) = cs_lookup st k"
    by (cases "cs_lookup st k") (auto simp: notifyBy_def)
  ultimately show ?thesis
    using assms by (auto simp: questEvent_def Let_def cs_Get_lookup split: option.splits)
next
  case False
  then obtain l where l: "cs_lookup st (eidx (qv_player ev)) = Some l" by auto
  have w: "snd (questEvent e ev st) = assignRef (qv_player ev) (notifyLog ev l) st"
    using False l by (simp add: questEvent_def Let_def cs_Get_lookup)
  have "cs_Has st (qv_player ev)" using l by (simp add: cs_Has_lookup)
  note L = assignRef_lookup [OF assms this, of "notifyLog ev l"]
  have "k \<noteq> eidx (qv_player ev) \<Longrightarrow> map_option (notifyBy k ev) (cs_lookup st k) = cs_lookup st k"
    by (cases "cs_lookup st k") (auto simp: notifyBy_def)
  then show ?thesis using assms l False by (auto simp: w L notifyBy_def intro: inv_intros)
qed

interpretation quest_events: event_loop questEvent "\<lambda>ev. ev\<lparr>qv_processed := True\<rparr>" notifyBy
  by unfold_locales (simp_all add: questEvent_pool, simp add: questEvent_def Let_def)

lemma fold_notifyBy:
  "ql_activeQuests (fold (notifyBy k) evs l) = map (fold notifyEntry (eventsFor k evs)) (ql_activeQuests l)"
  by (induction evs arbitrary: l) (simp_all add: notifyBy_def eventsFor_def notifyLog_entries comp_def)

lemma qs_Execute_tick:
  assumes inv: "cs_inv (qs_questLogs sys)" "cs_inv (qs_questEvents sys)"
  shows "\<exists>sys'. qs_Execute dt sys = Some sys'
    \<and> cs_dense (qs_questEvents sys') = map (\<lambda>ev. ev\<lparr>qv_processed := True\<rparr>) (cs_dense (qs_questEvents sys))
    \<and> (\<forall>k. cs_lookup (qs_questLogs sys') k
          = map_option (\<lambda>l. fold (notifyBy k) (cs_dense (qs_questEvents sys)) (tickLog dt l))
              (cs_lookup (qs_questLogs sys) k))"
proof -
  obtain logs where l: "forEachComponent (\<lambda>e l st. (tickLog dt l, st)) (qs_questLogs sys, ()) = Some (logs, ())"
    "cs_inv logs" "\<And>k. cs_lookup logs k = map_option (tickLog dt) (cs_lookup (qs_questLogs sys) k)"
    using forEachComponent_map [OF inv(1), of _ "\<lambda>e. tickLog dt" "()"] by force
  obtain events logs' where f: "forEachComponent questEvent (qs_questEvents sys, logs) = Some (events, logs')"
    "cs_dense events = map (\<lambda>ev. ev\<lparr>qv_processed := True\<rparr>) (cs_dense (qs_questEvents sys))"
    "\<And>k. cs_lookup logs' k = map_option (fold (notifyBy k) (cs_dense (qs_questEvents sys))) (cs_lookup logs k)"
    using quest_events.loop_events [OF inv(2) l(2)] by blast
  then show ?thesis
    using l by (simp add: qs_Execute_def qs_updateTimers_def qs_processEvents_def option.map_comp comp_def)
qed

section \<open>Sample quests\<close>

text \<open>Quest \<open>q\<close> asks for one kill; quest 2 needs quest 1.\<close>

definition demoObjective :: "int \<Rightarrow> QuestObjective" where
  "demoObjective n = \<lparr>qo_type = KillObjective, qo_targetId = 3, qo_current = 0, qo_required = n, qo_completed = False\<rparr>"

definition demoQuest :: "u32 \<Rightarrow> QuestTemplate" where
  "demoQuest q = \<lparr>qt_id = q, qt_name = [], qt_description = [], qt_level = 1,
     qt_prerequisites = (if q = 2 then [1] else []), qt_chainNext = None, qt_objectives = [demoObjective 1],
     qt_rewards = \<lparr>qr_experience = 0, qr_currency = 0, qr_items = []\<rparr>, qt_flags = 0, qt_timeLimitSeconds = 0\<rparr>"

definition demoKills :: "int \<Rightarrow> QuestEvent" where
  "demoKills n = \<lparr>qv_player = mkEntity 0 0, qv_type = KillEvent, qv_targetId = 3, qv_count = n, qv_processed = False\<rparr>"

section \<open>Properties\<close>



text \<open>A tick of the quest system never fails on well-formed pools, marks every event processed,
  and counts exactly: an accepted quest of the player \<open>k\<close> with an incomplete objective first
  gets its timer advanced; if that reaches a positive limit, it fails and counts nothing. Otherwise
  each objective grows by the sum of the counts of the player's unprocessed events of its type and
  target, up to what it requires, and the quest becomes ready exactly when every objective
  reaches what it requires. Quests in another state are unchanged.\<close>

theorem quest_tick_counts_events:
  assumes "cs_inv (qs_questLogs sys)" and "cs_inv (qs_questEvents sys)"
    and "cs_lookup (qs_questLogs sys) k = Some l" and "i < length (ql_activeQuests l)"
    and "list_all (\<lambda>ev. 0 \<le> qv_count ev) (cs_dense (qs_questEvents sys))"
    and "list_all objective_ok (qe_objectives (ql_activeQuests l ! i))"
    and "\<not> qe_AllObjectivesComplete (ql_activeQuests l ! i)"
  shows "\<exists>sys' l'. qs_Execute dt sys = Some sys'
    \<and> list_all qv_processed (cs_dense (qs_questEvents sys'))
    \<and> cs_lookup (qs_questLogs sys') k = Some l'
    \<and> length (ql_activeQuests l') = length (ql_activeQuests l)
    \<and> (let e = ql_activeQuests l ! i; e' = ql_activeQuests l' ! i;
           evs = eventsFor k (cs_dense (qs_questEvents sys));
           elapsed = f32 (qe_elapsedTime e + dt)
       in qe_questId e' = qe_questId e
        \<and> (if qe_state e \<noteq> Accepted then e' = e
           else if 0 < qe_timeLimit e \<and> qe_timeLimit e \<le> elapsed
           then qe_state e' = Failed \<and> qe_objectives e' = qe_objectives e
           else map qo_current (qe_objectives e')
                  = map (\<lambda>obj. min (qo_current obj + eventTally evs obj) (qo_required obj)) (qe_objectives e)
              \<and> qe_state e' = (if list_all (\<lambda>obj. qo_required obj \<le> qo_current obj + eventTally evs obj) (qe_objectives e)
                               then ObjectivesComplete else Accepted)))"
proof -
  let ?evs = "cs_dense (qs_questEvents sys)"
  let ?e = "ql_activeQuests l ! i"
  obtain sys' where s: "qs_Execute dt sys = Some sys'"
    "cs_dense (qs_questEvents sys') = map (\<lambda>ev. ev\<lparr>qv_processed := True\<rparr>) ?evs"
    "cs_lookup (qs_questLogs sys') k = Some (fold (notifyBy k) ?evs (tickLog dt l))"
    using qs_Execute_tick [OF assms(1,2), of dt] assms(3) by auto
  let ?l' = "fold (notifyBy k) ?evs (tickLog dt l)"
  have l': "ql_activeQuests ?l' = map (fold notifyEntry (eventsFor k ?evs)) (map (tickQuest dt) (ql_activeQuests l))"
    by (simp add: fold_notifyBy tickLog_def)
  then have e': "ql_activeQuests ?l' ! i = fold notifyEntry (eventsFor k ?evs) (tickQuest dt ?e)"
    using assms(4) by simp
  have nn: "list_all (\<lambda>ev. 0 \<le> qv_count ev) (eventsFor k ?evs)"
    using assms(5) by (auto simp: eventsFor_def list_all_iff)
  have other: "qe_state e \<noteq> Accepted \<Longrightarrow> fold notifyEntry evs e = e" for e evs by (rule fold_notify_other)
  have acc: "fold notifyEntry (eventsFor k ?evs) (tickQuest dt ?e) = (tickQuest dt ?e)
        \<lparr>qe_objectives := map (objAfter (eventsFor k ?evs)) (qe_objectives ?e),
         qe_state := if list_all (\<lambda>obj. qo_completed (objAfter (eventsFor k ?evs) obj)) (qe_objectives ?e)
                     then ObjectivesComplete else Accepted\<rparr>"
    if "qe_state (tickQuest dt ?e) = Accepted"
  proof -
    have o: "qe_objectives (tickQuest dt ?e) = qe_objectives ?e" by (simp add: tickQuest_def Let_def)
    show ?thesis
      using fold_notifyEntry [OF that _ nn] assms(6,7) by (simp add: o qe_AllObjectivesComplete_def)
  qed
  show ?thesis
  proof (intro exI conjI)
    show "list_all qv_processed (cs_dense (qs_questEvents sys'))" by (simp add: s(2) list_all_iff)
    show "length (ql_activeQuests ?l') = length (ql_activeQuests l)" by (simp add: l')
  qed (use s(1,3) acc other in \<open>auto simp: Let_def e' tickQuest_def objAfter_def comp_def\<close>)
qed

theorem quest_tick_counts_events_witness:
  "let quest = \<lparr>qe_questId = 8, qe_templateId = 8, qe_state = Accepted, qe_objectives = [demoObjective 5],
               qe_elapsedTime = 0, qe_timeLimit = 0\<rparr>;
       sys = \<lparr>qs_questLogs = singlePool (mkQuestLog\<lparr>ql_activeQuests := [quest]\<rparr>),
              qs_questEvents = singlePool (demoKills 6), qs_templates = []\<rparr>
   in \<exists>sys' l'. qs_Execute 1 sys = Some sys' \<and> cs_lookup (qs_questLogs sys') 0 = Some l'
        \<and> map qo_current (qe_objectives (ql_activeQuests l' ! 0)) = [5]
        \<and> qe_state (ql_activeQuests l' ! 0) = ObjectivesComplete"
proof -
  define quest where "quest = \<lparr>qe_questId = 8, qe_templateId = 8, qe_state = Accepted,
    qe_objectives = [demoObjective 5], qe_elapsedTime = 0, qe_timeLimit = 0\<rparr>"
  let ?sys = "\<lparr>qs_questLogs = singlePool (mkQuestLog\<lparr>ql_activeQuests := [quest]\<rparr>),
              qs_questEvents = singlePool (demoKills 6), qs_templates = []\<rparr>"
  have "list_all objective_ok [demoObjective 5]" "\<not> qe_AllObjectivesComplete quest" "0 \<le> qv_count (demoKills 6)"
    "qe_state quest = Accepted" "qe_timeLimit quest = 0" "qe_objectives quest = [demoObjective 5]"
    "eventTally (eventsFor 0 [demoKills 6]) (demoObjective 5) = 6" "qo_current (demoObjective 5) = 0"
    "qo_required (demoObjective 5) = 5"
    by (simp_all add: demoObjective_def quest_def demoKills_def objective_ok_def qe_AllObjectivesComplete_def
        qo_IsComplete_def eventsFor_def eventTally_def)
  then show ?thesis
    using quest_tick_counts_events [of ?sys 0 "mkQuestLog\<lparr>ql_activeQuests := [quest]\<rparr>" 0 1]
    unfolding Let_def quest_def [symmetric] by auto
qed

end
