(* ===== verification/Combat.thy ===== *)
theory Combat
  imports Ecs_System_Loop Ieee_Float "HOL-Library.Multiset"
begin

text \<open>
  \<^verbatim>\<open>include/cgs/game/combat_types.hpp\<close>, \<^verbatim>\<open>combat_components.hpp\<close>, \<^verbatim>\<open>combat_system.hpp\<close>, the
  \<^verbatim>\<open>Stats\<close> component of \<^verbatim>\<open>components.hpp\<close> and \<^verbatim>\<open>src/game/combat_system/combat_system.cpp\<close>: spell
  casts, auras with periodic ticks, threat lists, the damage formula and the three phases of the
  combat tick. Signed quantities are integers (their overflow is undefined behaviour), floats are
  rationals with every operation rounded. The loop that catches up on periodic ticks need not
  end, so it is a partial function: \<open>None\<close> is a tick that does not return (or a violated
  assertion).
\<close>

section \<open>Types and components\<close>

definition kMaxAuraStacks :: int where "kMaxAuraStacks = 99"

datatype CastState = CastIdle | Casting | Channeling | CastComplete | Interrupted

datatype DamageType = Physical | Magic | Fire | Frost | Nature | Shadow | Holy

primrec damageIndex :: "DamageType \<Rightarrow> nat" where
  "damageIndex Physical = 0" | "damageIndex Magic = 1" | "damageIndex Fire = 2"
| "damageIndex Frost = 3" | "damageIndex Nature = 4" | "damageIndex Shadow = 5"
| "damageIndex Holy = 6"

definition kDamageTypeCount :: nat where "kDamageTypeCount = 7"

record Stats =
  st_health :: int
  st_maxHealth :: int
  st_mana :: int
  st_maxMana :: int
  st_attributes :: "int list"

text \<open>\<^verbatim>\<open>std::clamp\<close>; its precondition is that the lower bound is not above the upper one.\<close>

definition clamp :: "int \<Rightarrow> int \<Rightarrow> int \<Rightarrow> int" where
  "clamp v lo hi = (if v < lo then lo else if hi < v then hi else v)"

definition st_SetHealth :: "int \<Rightarrow> Stats \<Rightarrow> Stats" where
  "st_SetHealth value s = s\<lparr>st_health := clamp value 0 (st_maxHealth s)\<rparr>"

definition st_SetMana :: "int \<Rightarrow> Stats \<Rightarrow> Stats" where
  "st_SetMana value s = s\<lparr>st_mana := clamp value 0 (st_maxMana s)\<rparr>"

record SpellCast =
  sc_spellId :: u32
  sc_target :: Entity
  sc_state :: CastState
  sc_castTime :: rat
  sc_remainingTime :: rat

definition sc_Begin :: "u32 \<Rightarrow> Entity \<Rightarrow> rat \<Rightarrow> SpellCast \<Rightarrow> SpellCast" where
  "sc_Begin spell tgt duration c = c\<lparr>sc_spellId := spell, sc_target := tgt, sc_castTime := duration,
     sc_remainingTime := duration, sc_state := Casting\<rparr>"

definition sc_Interrupt :: "SpellCast \<Rightarrow> SpellCast" where
  "sc_Interrupt c = (if sc_state c = Casting \<or> sc_state c = Channeling
     then c\<lparr>sc_state := Interrupted, sc_remainingTime := 0\<rparr> else c)"

definition sc_Reset :: "SpellCast \<Rightarrow> SpellCast" where
  "sc_Reset c = c\<lparr>sc_spellId := 0, sc_target := EntityRaw kInvalidRaw, sc_state := CastIdle, sc_castTime := 0,
     sc_remainingTime := 0\<rparr>"

record AuraInstance =
  au_auraId :: u32
  au_caster :: Entity
  au_stacks :: int
  au_duration :: rat
  au_remainingTime :: rat
  au_tickInterval :: rat
  au_tickTimer :: rat
  au_tickDamage :: int
  au_tickDamageType :: DamageType

record AuraHolder =
  ah_auras :: "AuraInstance list"

fun stackAura :: "AuraInstance \<Rightarrow> AuraInstance list \<Rightarrow> AuraInstance list" where
  "stackAura aura [] = [aura]"
| "stackAura aura (existing # auras) =
     (if au_auraId existing = au_auraId aura \<and> au_caster existing = au_caster aura
      then existing\<lparr>au_stacks := min (au_stacks existing + au_stacks aura) kMaxAuraStacks,
                    au_remainingTime := au_duration aura, au_duration := au_duration aura\<rparr> # auras
      else existing # stackAura aura auras)"

definition ah_AddOrStack :: "AuraInstance \<Rightarrow> AuraHolder \<Rightarrow> AuraHolder" where
  "ah_AddOrStack aura h = h\<lparr>ah_auras := stackAura aura (ah_auras h)\<rparr>"

definition ah_RemoveById :: "u32 \<Rightarrow> AuraHolder \<Rightarrow> AuraHolder" where
  "ah_RemoveById auraId h = h\<lparr>ah_auras := filter (\<lambda>a. \<not> au_auraId a = auraId) (ah_auras h)\<rparr>"

definition ah_RemoveExpired :: "AuraHolder \<Rightarrow> AuraHolder" where
  "ah_RemoveExpired h = h\<lparr>ah_auras := filter (\<lambda>a. \<not> au_remainingTime a \<le> 0) (ah_auras h)\<rparr>"

definition ah_HasAura :: "u32 \<Rightarrow> AuraHolder \<Rightarrow> bool" where
  "ah_HasAura auraId h \<longleftrightarrow> list_ex (\<lambda>a. au_auraId a = auraId) (ah_auras h)"

definition ah_GetStacks :: "u32 \<Rightarrow> AuraHolder \<Rightarrow> int" where
  "ah_GetStacks auraId h = fold (\<lambda>a n. if au_auraId a = auraId then n + au_stacks a else n) (ah_auras h) 0"

record DamageEvent =
  dv_attacker :: Entity
  dv_victim :: Entity
  dv_type :: DamageType
  dv_baseDamage :: int
  dv_finalDamage :: int
  dv_isCritical :: bool
  dv_isProcessed :: bool

record ThreatEntry =
  te_source :: Entity
  te_threat :: rat

record ThreatList =
  tl_entries :: "ThreatEntry list"

text \<open>\<^verbatim>\<open>std::sort\<close> by descending threat: any reordering \<open>srt\<close> that is sorted; the order of entries with
  equal threat is not specified.\<close>

definition sortsDescending :: "(ThreatEntry list \<Rightarrow> ThreatEntry list) \<Rightarrow> bool" where
  "sortsDescending srt \<longleftrightarrow> (\<forall>es. mset (srt es) = mset es \<and> sorted_wrt (\<lambda>a b. te_threat a \<ge> te_threat b) (srt es))"

fun raiseThreat :: "Entity \<Rightarrow> rat \<Rightarrow> ThreatEntry list \<Rightarrow> ThreatEntry list" where
  "raiseThreat source amount [] = [\<lparr>te_source = source, te_threat = amount\<rparr>]"
| "raiseThreat source amount (e # es) =
     (if te_source e = source then e\<lparr>te_threat := f32 (te_threat e + amount)\<rparr> # es
      else e # raiseThreat source amount es)"

definition tl_AddThreat :: "(ThreatEntry list \<Rightarrow> ThreatEntry list) \<Rightarrow> Entity \<Rightarrow> rat \<Rightarrow> ThreatList \<Rightarrow> ThreatList" where
  "tl_AddThreat srt source amount l = l\<lparr>tl_entries := srt (raiseThreat source amount (tl_entries l))\<rparr>"

definition tl_Remove :: "Entity \<Rightarrow> ThreatList \<Rightarrow> ThreatList" where
  "tl_Remove source l = l\<lparr>tl_entries := filter (\<lambda>e. \<not> te_source e = source) (tl_entries l)\<rparr>"

definition tl_GetTopThreat :: "ThreatList \<Rightarrow> Entity" where
  "tl_GetTopThreat l = (case tl_entries l of [] \<Rightarrow> EntityRaw kInvalidRaw | e # es \<Rightarrow> te_source e)"

definition tl_GetThreat :: "Entity \<Rightarrow> ThreatList \<Rightarrow> rat" where
  "tl_GetThreat source l = (case find (\<lambda>e. te_source e = source) (tl_entries l) of
     None \<Rightarrow> 0 | Some e \<Rightarrow> te_threat e)"

definition tl_Clear :: "ThreatList \<Rightarrow> ThreatList" where
  "tl_Clear l = l\<lparr>tl_entries := []\<rparr>"

section \<open>Damage\<close>

record DamageCalcParams =
  dp_armor :: int
  dp_resistances :: "int list"

definition defaultDamageCalcParams :: DamageCalcParams where
  "defaultDamageCalcParams = \<lparr>dp_armor = 0, dp_resistances = replicate kDamageTypeCount 0\<rparr>"

definition kArmorConstant :: rat where "kArmorConstant = 400"
definition kResistanceConstant :: rat where "kResistanceConstant = 200"
definition kCritMultiplier :: rat where "kCritMultiplier = 2"

definition mitigationOf :: "DamageType \<Rightarrow> DamageCalcParams \<Rightarrow> rat" where
  "mitigationOf ty params =
     (if ty = Physical
      then let armor = f32 (of_int (max (dp_armor params) 0)) in f32 (armor / f32 (armor + kArmorConstant))
      else let typeIndex = damageIndex ty;
               resistance = (if typeIndex < length (dp_resistances params)
                             then max (dp_resistances params ! typeIndex) 0 else 0);
               res = f32 (of_int resistance)
           in f32 (res / f32 (res + kResistanceConstant)))"

definition CalculateDamage :: "int \<Rightarrow> DamageType \<Rightarrow> bool \<Rightarrow> DamageCalcParams \<Rightarrow> int" where
  "CalculateDamage baseDamage ty isCritical params =
     (if baseDamage \<le> 0 then 0
      else let damage = f32 (of_int baseDamage);
               damage1 = (if isCritical then f32 (damage * kCritMultiplier) else damage);
               damage2 = f32 (damage1 * f32 (1 - mitigationOf ty params))
           in max (floor damage2) 1)"

section \<open>The combat system\<close>

record CombatSystem =
  ct_spellCasts :: "SpellCast ComponentStorage"
  ct_auraHolders :: "AuraHolder ComponentStorage"
  ct_damageEvents :: "DamageEvent ComponentStorage"
  ct_stats :: "Stats ComponentStorage"
  ct_threatLists :: "ThreatList ComponentStorage"

definition tickCast :: "rat \<Rightarrow> SpellCast \<Rightarrow> SpellCast" where
  "tickCast deltaTime c =
     (if sc_state c = Casting \<or> sc_state c = Channeling
      then let c1 = c\<lparr>sc_remainingTime := f32 (sc_remainingTime c - deltaTime)\<rparr>
           in if sc_remainingTime c1 \<le> 0 then c1\<lparr>sc_remainingTime := 0, sc_state := CastComplete\<rparr> else c1
      else c)"

definition ct_updateSpellCasts :: "rat \<Rightarrow> CombatSystem \<Rightarrow> CombatSystem option" where
  "ct_updateSpellCasts deltaTime sys =
     map_option (\<lambda>(casts, _). sys\<lparr>ct_spellCasts := casts\<rparr>)
       (forEachComponent (\<lambda>e c st. (tickCast deltaTime c, st)) (ct_spellCasts sys, ()))"

text \<open>One periodic tick of an aura on its entity.\<close>

definition applyTick :: "Entity \<Rightarrow> AuraInstance \<Rightarrow> Stats ComponentStorage \<Rightarrow> Stats ComponentStorage" where
  "applyTick entity aura stats =
     (case cs_Get stats entity of
        None \<Rightarrow> stats
      | Some s \<Rightarrow>
          if au_tickDamage aura \<noteq> 0
          then assignRef entity (st_SetHealth (st_health s - au_tickDamage aura * au_stacks aura) s) stats
          else stats)"

partial_function (option) catchUp :: "Entity \<Rightarrow> AuraInstance \<Rightarrow> Stats ComponentStorage \<Rightarrow> (AuraInstance \<times> Stats ComponentStorage) option" where
  "catchUp entity aura stats =
     (if au_tickTimer aura \<le> 0 \<and> au_remainingTime aura > - au_tickInterval aura
      then catchUp entity (aura\<lparr>au_tickTimer := f32 (au_tickTimer aura + au_tickInterval aura)\<rparr>)
             (applyTick entity aura stats)
      else Some (aura, stats))"

declare catchUp.simps [code]

definition tickAura :: "rat \<Rightarrow> Entity \<Rightarrow> AuraInstance \<Rightarrow> Stats ComponentStorage \<Rightarrow> (AuraInstance \<times> Stats ComponentStorage) option" where
  "tickAura deltaTime entity aura stats =
     (let aura1 = aura\<lparr>au_remainingTime := f32 (au_remainingTime aura - deltaTime)\<rparr>
      in if au_tickInterval aura1 > 0
         then catchUp entity (aura1\<lparr>au_tickTimer := f32 (au_tickTimer aura1 - deltaTime)\<rparr>) stats
         else Some (aura1, stats))"

fun tickAuras :: "rat \<Rightarrow> Entity \<Rightarrow> AuraInstance list \<Rightarrow> Stats ComponentStorage \<Rightarrow> (AuraInstance list \<times> Stats ComponentStorage) option" where
  "tickAuras deltaTime entity [] stats = Some ([], stats)"
| "tickAuras deltaTime entity (aura # auras) stats =
     (case tickAura deltaTime entity aura stats of
        None \<Rightarrow> None
      | Some (aura', stats') \<Rightarrow>
          map_option (\<lambda>(auras', stats''). (aura' # auras', stats'')) (tickAuras deltaTime entity auras stats'))"

text \<open>The body of the aura loop; \<open>None\<close> in the state: an earlier iteration did not return.\<close>

definition tickHolder :: "rat \<Rightarrow> Entity \<Rightarrow> AuraHolder \<Rightarrow> Stats ComponentStorage option \<Rightarrow> AuraHolder \<times> Stats ComponentStorage option" where
  "tickHolder deltaTime entity holder st =
     (case Option.bind st (tickAuras deltaTime entity (ah_auras holder)) of
        None \<Rightarrow> (holder, None)
      | Some (auras, stats) \<Rightarrow> (ah_RemoveExpired (holder\<lparr>ah_auras := auras\<rparr>), Some stats))"

definition ct_updateAuras :: "rat \<Rightarrow> CombatSystem \<Rightarrow> CombatSystem option" where
  "ct_updateAuras deltaTime sys =
     (case forEachComponent (tickHolder deltaTime) (ct_auraHolders sys, Some (ct_stats sys)) of
        None \<Rightarrow> None
      | Some (holders, st) \<Rightarrow>
          map_option (\<lambda>stats. sys\<lparr>ct_auraHolders := holders, ct_stats := stats\<rparr>) st)"

definition paramsOf :: "Stats \<Rightarrow> DamageCalcParams" where
  "paramsOf s = \<lparr>dp_armor = st_attributes s ! 0,
     dp_resistances = map (\<lambda>r. st_attributes s ! (r + 1)) [0..<kDamageTypeCount]\<rparr>"

definition damageEvent :: "(ThreatEntry list \<Rightarrow> ThreatEntry list) \<Rightarrow> Entity \<Rightarrow> DamageEvent
    \<Rightarrow> Stats ComponentStorage \<times> ThreatList ComponentStorage
    \<Rightarrow> DamageEvent \<times> (Stats ComponentStorage \<times> ThreatList ComponentStorage)" where
  "damageEvent srt entity event st =
     (if dv_isProcessed event then (event, st)
      else let stats = fst st; threats = snd st;
               params = (case cs_Get stats (dv_victim event) of
                           None \<Rightarrow> defaultDamageCalcParams | Some s \<Rightarrow> paramsOf s);
               final = CalculateDamage (dv_baseDamage event) (dv_type event) (dv_isCritical event) params;
               stats' = (case cs_Get stats (dv_victim event) of
                           None \<Rightarrow> stats
                         | Some s \<Rightarrow> assignRef (dv_victim event) (st_SetHealth (st_health s - final) s) stats);
               threats' = (case cs_Get threats (dv_victim event) of
                           None \<Rightarrow> threats
                         | Some l \<Rightarrow> assignRef (dv_victim event) (tl_AddThreat srt (dv_attacker event) (f32 (of_int final)) l) threats)
           in (event\<lparr>dv_finalDamage := final, dv_isProcessed := True\<rparr>, (stats', threats')))"

definition ct_processDamageEvents :: "(ThreatEntry list \<Rightarrow> ThreatEntry list) \<Rightarrow> CombatSystem \<Rightarrow> CombatSystem option" where
  "ct_processDamageEvents srt sys =
     map_option (\<lambda>(events, stats, threats). sys\<lparr>ct_damageEvents := events, ct_stats := stats, ct_threatLists := threats\<rparr>)
       (forEachComponent (damageEvent srt) (ct_damageEvents sys, (ct_stats sys, ct_threatLists sys)))"

definition ct_Execute :: "(ThreatEntry list \<Rightarrow> ThreatEntry list) \<Rightarrow> rat \<Rightarrow> CombatSystem \<Rightarrow> CombatSystem option" where
  "ct_Execute srt deltaTime sys =
     Option.bind (ct_updateSpellCasts deltaTime sys)
       (\<lambda>sys1. Option.bind (ct_updateAuras deltaTime sys1) (ct_processDamageEvents srt))"

section \<open>Periodic ticks end\<close>

lemma catchUp_progress:
  assumes "is_f32 (au_tickInterval a)" and "0 < au_tickInterval a"
    and "- (2 ^ 22 * au_tickInterval a) \<le> au_tickTimer a" and "au_tickTimer a \<le> 0"
  shows "au_tickTimer a + au_tickInterval a / 2 \<le> f32 (au_tickTimer a + au_tickInterval a)"
proof -
  have "2 powi (- 149) \<le> au_tickInterval a" using assms(1,2) by (rule is_f32_pos_ge)
  moreover have "\<bar>au_tickTimer a + au_tickInterval a\<bar> \<le> 2 ^ 22 * au_tickInterval a"
    using assms(2-4) by (simp add: abs_le_iff)
  ultimately have "\<bar>f32 (au_tickTimer a + au_tickInterval a) - (au_tickTimer a + au_tickInterval a)\<bar> \<le> au_tickInterval a / 2"
    by (rule f32_error_step)
  then show ?thesis by linarith
qed

text \<open>What the aura phase does to the stats: only healths change, and they stay between 0 and the
  maximum.\<close>

definition hp_ok :: "Stats \<Rightarrow> bool" where
  "hp_ok s \<longleftrightarrow> 0 \<le> st_health s \<and> st_health s \<le> st_maxHealth s"

definition hp_frame :: "Stats \<Rightarrow> Stats \<Rightarrow> bool" where
  "hp_frame s s' \<longleftrightarrow> (\<exists>h. s' = s\<lparr>st_health := h\<rparr>) \<and> (hp_ok s \<longrightarrow> hp_ok s')"

definition pool_frame :: "Stats ComponentStorage \<Rightarrow> Stats ComponentStorage \<Rightarrow> bool" where
  "pool_frame p p' \<longleftrightarrow> cs_inv p' \<and> (\<forall>k. rel_option hp_frame (cs_lookup p k) (cs_lookup p' k))"

lemma hp_frame_refl [simp]: "hp_frame s s"
  unfolding hp_frame_def by (metis Stats.surjective Stats.update_convs(1))

lemma hp_frame_trans: "hp_frame s s' \<Longrightarrow> hp_frame s' s'' \<Longrightarrow> hp_frame s s''"
  by (auto simp: hp_frame_def)

lemma pool_frame_refl: "cs_inv p \<Longrightarrow> pool_frame p p"
  by (simp add: pool_frame_def option.rel_refl)

lemma pool_frame_trans: "pool_frame p p' \<Longrightarrow> pool_frame p' p'' \<Longrightarrow> pool_frame p p''"
  unfolding pool_frame_def
  by (metis (no_types, lifting) hp_frame_trans option.rel_cases option.rel_inject(2) option.rel_distinct)

lemma pool_frame_lookup:
  assumes "pool_frame p p'" and "cs_lookup p k = Some s"
  obtains s' where "cs_lookup p' k = Some s'" "hp_frame s s'"
proof -
  have "rel_option hp_frame (Some s) (cs_lookup p' k)"
    using assms by (metis pool_frame_def)
  then show thesis using that by (cases "cs_lookup p' k") auto
qed

lemma hp_frame_SetHealth: "hp_frame s (st_SetHealth v s)"
  by (auto simp: hp_frame_def st_SetHealth_def hp_ok_def clamp_def)

lemma pool_frame_assign:
  assumes "cs_inv p" and "cs_Get p e = Some s" and "hp_frame s s'"
  shows "pool_frame p (assignRef e s' p)"
proof -
  have has: "cs_Has p e" and l: "cs_lookup p (eidx e) = Some s"
    using assms(2) by (auto simp: cs_Get_lookup cs_Has_lookup)
  show ?thesis
    using assignRef_lookup [OF assms(1) has, of s'] assignRef_inv [OF assms(1)] assms(3) l
    by (auto simp: pool_frame_def option.rel_refl)
qed

lemma applyTick_frame: "cs_inv p \<Longrightarrow> pool_frame p (applyTick e a p)"
  by (auto simp: applyTick_def intro: pool_frame_refl pool_frame_assign hp_frame_SetHealth split: option.splits)

lemma catchUp_returns:
  assumes "is_f32 (au_tickInterval a)" and "0 < au_tickInterval a"
    and "- (2 ^ 22 * au_tickInterval a) \<le> au_tickTimer a"
    and "- au_tickTimer a < of_nat n * (au_tickInterval a / 2)" and "cs_inv p"
  shows "\<exists>a' p'. catchUp e a p = Some (a', p') \<and> a' = a\<lparr>au_tickTimer := au_tickTimer a'\<rparr> \<and> pool_frame p p'"
  using assms
proof (induction n arbitrary: a p)
  case 0
  then have "\<not> au_tickTimer a \<le> 0" by simp
  then show ?case using 0(5) by (subst catchUp.simps) (simp add: pool_frame_refl)
next
  case (Suc n)
  show ?case
  proof (cases "au_tickTimer a \<le> 0 \<and> au_remainingTime a > - au_tickInterval a")
    case False
    then show ?thesis using Suc.prems(5) by (subst catchUp.simps) (auto simp: pool_frame_refl)
  next
    case True
    let ?t = "f32 (au_tickTimer a + au_tickInterval a)"
    have t: "au_tickTimer a + au_tickInterval a / 2 \<le> ?t"
      using Suc.prems(1-3) True by (intro catchUp_progress) auto
    have "- ?t < of_nat n * (au_tickInterval a / 2)"
      using t Suc.prems(4) by (simp add: algebra_simps)
    moreover have "- (2 ^ 22 * au_tickInterval a) \<le> ?t" using t Suc.prems(2,3) by linarith
    moreover have f: "pool_frame p (applyTick e a p)" by (rule applyTick_frame [OF Suc.prems(5)])
    ultimately obtain a' p' where "catchUp e (a\<lparr>au_tickTimer := ?t\<rparr>) (applyTick e a p) = Some (a', p')"
      "a' = a\<lparr>au_tickTimer := au_tickTimer a'\<rparr>" "pool_frame (applyTick e a p) p'"
      using Suc.IH [of "a\<lparr>au_tickTimer := ?t\<rparr>" "applyTick e a p"] Suc.prems(1,2)
      by (auto simp: pool_frame_def)
    then show ?thesis
      using True pool_frame_trans [OF f] by (subst catchUp.simps) auto
  qed
qed

text \<open>An aura whose interval is a positive float and whose timer, after the tick, is not more than
  \<open>2 ^ 22\<close> intervals behind.\<close>

definition aura_ok :: "rat \<Rightarrow> AuraInstance \<Rightarrow> bool" where
  "aura_ok dt a \<longleftrightarrow> is_f32 (au_tickInterval a) \<and>
     (0 < au_tickInterval a \<longrightarrow> - (2 ^ 22 * au_tickInterval a) \<le> f32 (au_tickTimer a - dt))"

definition timers :: "AuraInstance \<Rightarrow> rat \<Rightarrow> AuraInstance \<Rightarrow> bool" where
  "timers a dt a' \<longleftrightarrow> a' = a\<lparr>au_remainingTime := f32 (au_remainingTime a - dt), au_tickTimer := au_tickTimer a'\<rparr>"

lemma tickAura_returns:
  assumes "aura_ok dt a" and "cs_inv p"
  shows "\<exists>a' p'. tickAura dt e a p = Some (a', p') \<and> timers a dt a' \<and> pool_frame p p'"
proof (cases "0 < au_tickInterval a")
  case True
  let ?a = "a\<lparr>au_remainingTime := f32 (au_remainingTime a - dt), au_tickTimer := f32 (au_tickTimer a - dt)\<rparr>"
  obtain n :: nat where "- au_tickTimer ?a < of_nat n * (au_tickInterval ?a / 2)"
    using ex_less_of_nat_mult [of "au_tickInterval ?a / 2" "- au_tickTimer ?a"] True by auto
  then obtain a' p' where "catchUp e ?a p = Some (a', p')" "a' = ?a\<lparr>au_tickTimer := au_tickTimer a'\<rparr>" "pool_frame p p'"
    using catchUp_returns [of ?a n p e] assms True by (auto simp: aura_ok_def)
  then show ?thesis using True by (simp add: tickAura_def timers_def Let_def)
next
  case False
  then show ?thesis using assms(2) by (simp add: tickAura_def timers_def Let_def pool_frame_refl)
qed

lemma tickAuras_returns:
  assumes "list_all (aura_ok dt) as" and "cs_inv p"
  shows "\<exists>as' p'. tickAuras dt e as p = Some (as', p') \<and> list_all2 (\<lambda>a. timers a dt) as as' \<and> pool_frame p p'"
  using assms
proof (induction as arbitrary: p)
  case Nil
  then show ?case by (simp add: pool_frame_refl)
next
  case (Cons a as)
  obtain a' p' where a: "tickAura dt e a p = Some (a', p')" "timers a dt a'" "pool_frame p p'"
    using tickAura_returns [of dt a p e] Cons.prems by auto
  moreover obtain as' p'' where "tickAuras dt e as p' = Some (as', p'')" "list_all2 (\<lambda>a. timers a dt) as as'" "pool_frame p' p''"
    using Cons.IH [of p'] Cons.prems(1) a(3) by (auto simp: pool_frame_def)
  ultimately show ?case using pool_frame_trans [of p p' p''] by simp
qed

lemma tickHolder_returns:
  assumes "list_all (aura_ok dt) (ah_auras h)" and "cs_inv p"
  shows "\<exists>h' p'. tickHolder dt e h (Some p) = (h', Some p') \<and> pool_frame p p'
    \<and> list_all (\<lambda>a. 0 < au_remainingTime a) (ah_auras h')"
proof -
  obtain as' p' where "tickAuras dt e (ah_auras h) p = Some (as', p')" "pool_frame p p'"
    using tickAuras_returns [OF assms, of e] by blast
  then show ?thesis by (auto simp: tickHolder_def ah_RemoveExpired_def list_all_iff not_le)
qed

lemma passOver_auras:
  assumes "list_all (\<lambda>(k, h). list_all (aura_ok dt) (ah_auras h)) xs" and "cs_inv p"
  shows "\<exists>hs p'. passOver (tickHolder dt) xs (Some p) = (hs, Some p') \<and> pool_frame p p'
    \<and> list_all (\<lambda>h. list_all (\<lambda>a. 0 < au_remainingTime a) (ah_auras h)) hs"
  using assms
proof (induction xs arbitrary: p)
  case Nil
  then show ?case by (simp add: pool_frame_refl)
next
  case (Cons x xs)
  obtain k h where x: "x = (k, h)" by fastforce
  obtain h' p' where h: "tickHolder dt (mkEntity k 0) h (Some p) = (h', Some p')" "pool_frame p p'"
    "list_all (\<lambda>a. 0 < au_remainingTime a) (ah_auras h')"
    using tickHolder_returns [of dt h p "mkEntity k 0"] Cons.prems by (auto simp: x)
  moreover obtain hs p'' where "passOver (tickHolder dt) xs (Some p') = (hs, Some p'')" "pool_frame p' p''"
    "list_all (\<lambda>h. list_all (\<lambda>a. 0 < au_remainingTime a) (ah_auras h)) hs"
    using Cons.IH [of p'] Cons.prems(1) h(2) by (auto simp: pool_frame_def)
  ultimately show ?case using pool_frame_trans [of p p' p''] by (simp add: x)
qed

lemma ct_updateAuras_returns:
  assumes "cs_inv (ct_auraHolders sys)" and "cs_inv (ct_stats sys)"
    and "list_all (\<lambda>h. list_all (aura_ok dt) (ah_auras h)) (cs_dense (ct_auraHolders sys))"
  shows "\<exists>holders stats. ct_updateAuras dt sys = Some (sys\<lparr>ct_auraHolders := holders, ct_stats := stats\<rparr>)
    \<and> pool_frame (ct_stats sys) stats \<and> cs_inv holders
    \<and> list_all (\<lambda>h. list_all (\<lambda>a. 0 < au_remainingTime a) (ah_auras h)) (cs_dense holders)"
proof -
  let ?xs = "zip (cs_entities (ct_auraHolders sys)) (cs_dense (ct_auraHolders sys))"
  have "list_all (\<lambda>(k, h). list_all (aura_ok dt) (ah_auras h)) ?xs"
    using assms(3) by (auto simp: list_all_iff dest: set_zip_rightD)
  then obtain hs p' where p: "passOver (tickHolder dt) ?xs (Some (ct_stats sys)) = (hs, Some p')"
    "pool_frame (ct_stats sys) p'" "list_all (\<lambda>h. list_all (\<lambda>a. 0 < au_remainingTime a) (ah_auras h)) hs"
    using passOver_auras [of dt ?xs "ct_stats sys"] assms(2) by blast
  have "length hs = length (cs_dense (ct_auraHolders sys))"
    using length_passOver [of "tickHolder dt" ?xs "Some (ct_stats sys)"] p(1) cs_invD(1) [OF assms(1)] by simp
  then have "cs_inv (withDense hs (ct_auraHolders sys))" by (rule withDense_inv [OF assms(1)])
  then show ?thesis
    using p forEachComponent_pass [OF assms(1), of "tickHolder dt" "Some (ct_stats sys)"]
    by (intro exI [of _ "withDense hs (ct_auraHolders sys)"] exI [of _ p']) (simp add: ct_updateAuras_def withDense_def)
qed

section \<open>Damage events\<close>

definition victimParams :: "Stats ComponentStorage \<Rightarrow> nat \<Rightarrow> DamageCalcParams" where
  "victimParams stats k = (case cs_lookup stats k of None \<Rightarrow> defaultDamageCalcParams | Some s \<Rightarrow> paramsOf s)"

text \<open>The damage of an event: it depends on the victim's attributes only, which no phase changes.\<close>

definition damageOf :: "Stats ComponentStorage \<Rightarrow> DamageEvent \<Rightarrow> int" where
  "damageOf stats ev = CalculateDamage (dv_baseDamage ev) (dv_type ev) (dv_isCritical ev)
     (victimParams stats (eidx (dv_victim ev)))"

definition hits :: "nat \<Rightarrow> DamageEvent \<Rightarrow> bool" where
  "hits k ev \<longleftrightarrow> \<not> dv_isProcessed ev \<and> eidx (dv_victim ev) = k"

definition settled :: "Stats ComponentStorage \<Rightarrow> DamageEvent \<Rightarrow> DamageEvent" where
  "settled stats ev = (if dv_isProcessed ev then ev else ev\<lparr>dv_finalDamage := damageOf stats ev, dv_isProcessed := True\<rparr>)"

definition hurt :: "Stats ComponentStorage \<Rightarrow> nat \<Rightarrow> DamageEvent \<Rightarrow> Stats \<Rightarrow> Stats" where
  "hurt stats k ev s = (if hits k ev then st_SetHealth (st_health s - damageOf stats ev) s else s)"

definition provoke :: "(ThreatEntry list \<Rightarrow> ThreatEntry list) \<Rightarrow> Stats ComponentStorage \<Rightarrow> nat \<Rightarrow> DamageEvent \<Rightarrow> ThreatList \<Rightarrow> ThreatList" where
  "provoke srt stats k ev l =
     (if hits k ev then tl_AddThreat srt (dv_attacker ev) (f32 (of_int (damageOf stats ev))) l else l)"

lemma victimParams_frame:
  assumes "pool_frame p p'" shows "victimParams p' k = victimParams p k"
proof -
  have r: "rel_option hp_frame (cs_lookup p k) (cs_lookup p' k)" using assms by (simp add: pool_frame_def)
  have "hp_frame s s' \<Longrightarrow> paramsOf s' = paramsOf s" for s s'
    by (auto simp: hp_frame_def paramsOf_def)
  then show ?thesis using r by (auto simp: victimParams_def elim: option.rel_cases)
qed

lemma damageOf_frame: "pool_frame p p' \<Longrightarrow> damageOf p' ev = damageOf p ev"
  by (simp add: damageOf_def victimParams_frame)

lemma cs_lookup_update_if:
  assumes "cs_inv p"
  shows "cs_lookup (case cs_Get p e of None \<Rightarrow> p | Some c \<Rightarrow> assignRef e (f c) p) k
      = map_option (\<lambda>c. if eidx e = k then f c else c) (cs_lookup p k)"
proof (cases "cs_Get p e")
  case None
  then show ?thesis by (cases "cs_lookup p k") (auto simp: cs_Get_lookup)
next
  case (Some c)
  then have "cs_Has p e" by (simp add: cs_Get_lookup cs_Has_lookup)
  then show ?thesis
    using assignRef_lookup [OF assms, of e "f c"] Some by (cases "cs_lookup p k") (auto simp: cs_Get_lookup)
qed

lemma cs_inv_update_if:
  "cs_inv p \<Longrightarrow> cs_inv (case cs_Get p e of None \<Rightarrow> p | Some c \<Rightarrow> assignRef e (f c) p)"
  by (auto split: option.splits intro: inv_intros)

lemma damageEvent_step:
  assumes "cs_inv stats" and "cs_inv threats" and "damageEvent srt e ev (stats, threats) = (ev', stats', threats')"
  shows "ev' = settled stats ev \<and> cs_inv stats' \<and> cs_inv threats' \<and> pool_frame stats stats'
    \<and> (\<forall>k. cs_lookup stats' k = map_option (hurt stats k ev) (cs_lookup stats k))
    \<and> (\<forall>k. cs_lookup threats' k = map_option (provoke srt stats k ev) (cs_lookup threats k))"
proof (cases "dv_isProcessed ev")
  case True
  moreover have "hurt stats k ev = (\<lambda>s. s)" "provoke srt stats k ev = (\<lambda>l. l)" for k
    using True by (auto simp: hurt_def provoke_def hits_def)
  ultimately show ?thesis
    using assms by (simp add: damageEvent_def settled_def pool_frame_refl option.map_ident)
next
  case False
  let ?v = "dv_victim ev"
  have d: "CalculateDamage (dv_baseDamage ev) (dv_type ev) (dv_isCritical ev)
      (case cs_Get stats ?v of None \<Rightarrow> defaultDamageCalcParams | Some s \<Rightarrow> paramsOf s) = damageOf stats ev"
    by (simp add: damageOf_def victimParams_def cs_Get_lookup)
  have e: "ev' = settled stats ev"
    "stats' = (case cs_Get stats ?v of None \<Rightarrow> stats
       | Some s \<Rightarrow> assignRef ?v (st_SetHealth (st_health s - damageOf stats ev) s) stats)"
    "threats' = (case cs_Get threats ?v of None \<Rightarrow> threats
       | Some l \<Rightarrow> assignRef ?v (tl_AddThreat srt (dv_attacker ev) (f32 (of_int (damageOf stats ev))) l) threats)"
    using assms(3) False unfolding damageEvent_def Let_def fst_conv snd_conv d settled_def by auto
  have "pool_frame stats stats'"
    using assms(1) by (auto simp: e(2) intro: pool_frame_refl pool_frame_assign hp_frame_SetHealth split: option.splits)
  moreover have "hurt stats k ev = (\<lambda>s. if eidx ?v = k then st_SetHealth (st_health s - damageOf stats ev) s else s)"
    "provoke srt stats k ev = (\<lambda>l. if eidx ?v = k then tl_AddThreat srt (dv_attacker ev) (f32 (of_int (damageOf stats ev))) l else l)" for k
    using False by (auto simp: hurt_def provoke_def hits_def)
  ultimately show ?thesis
    using cs_lookup_update_if [OF assms(1), of ?v "\<lambda>s. st_SetHealth (st_health s - damageOf stats ev) s"]
      cs_lookup_update_if [OF assms(2), of ?v "tl_AddThreat srt (dv_attacker ev) (f32 (of_int (damageOf stats ev)))"]
      cs_inv_update_if [OF assms(1), of ?v "\<lambda>s. st_SetHealth (st_health s - damageOf stats ev) s"]
      cs_inv_update_if [OF assms(2), of ?v "tl_AddThreat srt (dv_attacker ev) (f32 (of_int (damageOf stats ev)))"]
    by (simp add: e)
qed

lemma passOver_damage:
  assumes "cs_inv stats" and "cs_inv threats" and "pool_frame orig stats"
    and "passOver (damageEvent srt) xs (stats, threats) = (evs', stats', threats')"
  shows "evs' = map (settled orig) (map snd xs) \<and> pool_frame orig stats' \<and> cs_inv threats'
    \<and> (\<forall>k. cs_lookup stats' k = map_option (fold (hurt orig k) (map snd xs)) (cs_lookup stats k))
    \<and> (\<forall>k. cs_lookup threats' k = map_option (fold (provoke srt orig k) (map snd xs)) (cs_lookup threats k))"
  using assms
proof (induction xs arbitrary: stats threats evs')
  case Nil
  then show ?case by (simp add: option.map_ident)
next
  case (Cons x xs)
  obtain i ev where x: "x = (i, ev)" by fastforce
  obtain ev1 stats1 threats1 where s: "damageEvent srt (mkEntity i 0) ev (stats, threats) = (ev1, stats1, threats1)"
    using prod_cases3 by blast
  obtain evs2 where p: "passOver (damageEvent srt) xs (stats1, threats1) = (evs2, stats', threats')" "evs' = ev1 # evs2"
    using Cons.prems(4) s by (cases "passOver (damageEvent srt) xs (stats1, threats1)") (auto simp: x)
  note S = damageEvent_step [OF Cons.prems(1,2) s]
  have eq: "settled stats ev = settled orig ev" "hurt stats k ev = hurt orig k ev"
    "provoke srt stats k ev = provoke srt orig k ev" for k
    using damageOf_frame [OF Cons.prems(3)] by (auto simp: settled_def hurt_def provoke_def)
  have f: "pool_frame orig stats1" using S pool_frame_trans [OF Cons.prems(3)] by blast
  show ?case
    using Cons.IH [OF _ _ f p(1)] S p(2) by (simp add: x eq option.map_comp comp_def)
qed

definition damageTaken :: "Stats ComponentStorage \<Rightarrow> nat \<Rightarrow> DamageEvent list \<Rightarrow> int" where
  "damageTaken stats k evs = (\<Sum>ev\<leftarrow>filter (hits k) evs. damageOf stats ev)"

lemma damageOf_nonneg: "0 \<le> damageOf stats ev"
  by (simp add: damageOf_def CalculateDamage_def Let_def le_max_iff_disj)

lemma fold_hurt_health:
  "hp_ok s \<Longrightarrow> st_maxHealth (fold (hurt stats k) evs s) = st_maxHealth s
     \<and> st_health (fold (hurt stats k) evs s) = max 0 (st_health s - damageTaken stats k evs)"
proof (induction evs arbitrary: s)
  case Nil
  then show ?case by (simp add: damageTaken_def hp_ok_def)
next
  case (Cons ev evs)
  let ?s = "hurt stats k ev s"
  have s: "hp_ok ?s" "st_maxHealth ?s = st_maxHealth s"
    "st_health ?s = max 0 (st_health s - damageTaken stats k [ev])"
    using Cons.prems damageOf_nonneg [of stats ev]
    by (auto simp: hurt_def st_SetHealth_def clamp_def hp_ok_def damageTaken_def)
  have "0 \<le> damageTaken stats k evs"
    by (auto simp: damageTaken_def damageOf_nonneg intro!: sum_list_nonneg)
  moreover have "damageTaken stats k (ev # evs) = damageTaken stats k [ev] + damageTaken stats k evs"
    by (simp add: damageTaken_def)
  ultimately show ?case using Cons.IH [OF s(1)] s(2,3) by simp
qed

lemma ct_processDamageEvents_returns:
  assumes "cs_inv (ct_damageEvents sys)" and "cs_inv (ct_stats sys)" and "cs_inv (ct_threatLists sys)"
  defines "evs \<equiv> cs_dense (ct_damageEvents sys)"
  shows "\<exists>events stats threats. ct_processDamageEvents srt sys
      = Some (sys\<lparr>ct_damageEvents := events, ct_stats := stats, ct_threatLists := threats\<rparr>)
    \<and> cs_dense events = map (settled (ct_stats sys)) evs \<and> pool_frame (ct_stats sys) stats
    \<and> (\<forall>k. cs_lookup stats k = map_option (fold (hurt (ct_stats sys) k) evs) (cs_lookup (ct_stats sys) k))
    \<and> (\<forall>k. cs_lookup threats k = map_option (fold (provoke srt (ct_stats sys) k) evs) (cs_lookup (ct_threatLists sys) k))"
proof -
  let ?xs = "zip (cs_entities (ct_damageEvents sys)) evs"
  obtain es stats threats where p: "passOver (damageEvent srt) ?xs (ct_stats sys, ct_threatLists sys) = (es, stats, threats)"
    using prod_cases3 by blast
  have "map snd ?xs = evs" using cs_invD(1) [OF assms(1)] by (simp add: evs_def)
  note P = passOver_damage [OF assms(2,3) pool_frame_refl [OF assms(2)] p, unfolded this]
  have "forEachComponent (damageEvent srt) (ct_damageEvents sys, ct_stats sys, ct_threatLists sys)
      = Some (withDense es (ct_damageEvents sys), stats, threats)"
    using forEachComponent_pass [OF assms(1), of "damageEvent srt"] p by (simp add: evs_def)
  then show ?thesis
    using P by (intro exI [of _ "withDense es (ct_damageEvents sys)"] exI [of _ stats] exI [of _ threats])
      (simp add: ct_processDamageEvents_def withDense_def)
qed

lemma ct_updateSpellCasts_returns:
  assumes "cs_inv (ct_spellCasts sys)"
  shows "\<exists>casts. ct_updateSpellCasts dt sys = Some (sys\<lparr>ct_spellCasts := casts\<rparr>)
    \<and> (\<forall>k. cs_lookup casts k = map_option (tickCast dt) (cs_lookup (ct_spellCasts sys) k))"
  using forEachComponent_map [OF assms, of "\<lambda>e c st. (tickCast dt c, st)" "\<lambda>e. tickCast dt" "()"]
  by (auto simp: ct_updateSpellCasts_def)

section \<open>The damage formula\<close>

lemma ratio_unit:
  assumes "is_f32 a" and "0 \<le> a" and "0 < c" 
  shows "0 \<le> f32 (a / f32 (a + c)) \<and> f32 (a / f32 (a + c)) \<le> 1"
proof -
  have "a \<le> f32 (a + c)" using f32_ge [OF assms(1,2), of "a + c"] assms(3) by simp
  then have "0 \<le> a / f32 (a + c)" "a / f32 (a + c) \<le> 1"
    using assms(2) by (auto simp: divide_le_eq)
  then show ?thesis using f32_nonneg f32_le [of 1] by simp
qed

lemma mitigationOf_unit: "0 \<le> mitigationOf ty params \<and> mitigationOf ty params \<le> 1"
proof -
  have f: "is_f32 (f32 x)" "0 \<le> f32 x" if "0 \<le> x" for x
    using that representable_rnd [of 24 x "- 149"] by (simp_all add: f32_def rnd_nonneg)
  have "0 \<le> (of_int (max i 0) :: rat)" for i by simp
  then show ?thesis
    unfolding mitigationOf_def Let_def
    using ratio_unit [OF f, of _ kArmorConstant] ratio_unit [OF f, of _ kResistanceConstant]
    by (simp add: kArmorConstant_def kResistanceConstant_def)
qed

lemma CalculateDamage_bounds:
  assumes "0 < base" and "base < 2 ^ 23"
  shows "1 \<le> CalculateDamage base ty crit params \<and> CalculateDamage base ty crit params \<le> (if crit then 2 * base else base)"
proof -
  let ?m = "f32 (1 - mitigationOf ty params)"
  define top where "top = (if crit then 2 * base else base)"
  have m: "0 \<le> ?m" "?m \<le> 1"
    using mitigationOf_unit [of ty params] f32_nonneg f32_le [of 1] by simp_all
  have b: "is_f32 (of_int base)" "is_f32 (of_int (2 * base))" "is_f32 (of_int top)"
    using assms by (auto simp: top_def simp del: of_int_mult intro!: is_f32_int)
  have "f32 (of_int base * 2) = of_int base * 2" using b(2) by (simp add: mult.commute)
  then have d: "(if crit then f32 (f32 (of_int base) * kCritMultiplier) else f32 (of_int base)) = (of_int top :: rat)"
    using b(1) by (simp add: top_def kCritMultiplier_def)
  have "of_int top * ?m \<le> of_int top" using m assms(1) by (intro mult_left_le) (auto simp: top_def)
  moreover have "0 \<le> of_int top * ?m" using m(1) assms(1) by (simp add: top_def)
  ultimately have "f32 (of_int top * ?m) \<le> of_int top" using f32_le [OF b(3)] by blast
  then have "floor (f32 (of_int top * ?m)) \<le> top" by (simp add: floor_le_iff)
  moreover have "1 \<le> top" using assms(1) by (simp add: top_def)
  ultimately show ?thesis
    using assms(1) unfolding CalculateDamage_def Let_def d by (simp add: top_def [symmetric])
qed

section \<open>Threat\<close>

definition tl_ok :: "ThreatList \<Rightarrow> bool" where
  "tl_ok l \<longleftrightarrow> distinct (map te_source (tl_entries l))
     \<and> sorted_wrt (\<lambda>a b. te_threat a \<ge> te_threat b) (tl_entries l)"

lemma raiseThreat_sources:
  "map te_source (raiseThreat x d es) =
     (if x \<in> set (map te_source es) then map te_source es else map te_source es @ [x])"
  by (induction es) auto

lemma tl_AddThreat_ok:
  assumes "sortsDescending srt" and "tl_ok l"
  shows "tl_ok (tl_AddThreat srt x d l)"
proof -
  let ?es = "raiseThreat x d (tl_entries l)"
  have s: "mset (srt ?es) = mset ?es" "sorted_wrt (\<lambda>a b. te_threat a \<ge> te_threat b) (srt ?es)"
    using assms(1) by (simp_all add: sortsDescending_def)
  have "distinct (map te_source ?es)" using assms(2) by (auto simp: raiseThreat_sources tl_ok_def)
  then have "distinct (map te_source (srt ?es))" using s(1) by (metis mset_eq_imp_distinct_iff mset_map)
  then show ?thesis using s(2) by (simp add: tl_ok_def tl_AddThreat_def)
qed

lemma fold_provoke_ok:
  "sortsDescending srt \<Longrightarrow> tl_ok l \<Longrightarrow> tl_ok (fold (provoke srt stats k) evs l)"
  by (induction evs arbitrary: l) (simp_all add: provoke_def tl_AddThreat_ok)

text \<open>In a well-formed list the first source is one with the highest threat.\<close>

lemma tl_top_max:
  "tl_ok l \<Longrightarrow> e \<in> set (tl_entries l) \<Longrightarrow>
     \<exists>t \<in> set (tl_entries l). tl_GetTopThreat l = te_source t \<and> te_threat e \<le> te_threat t"
  by (cases "tl_entries l") (auto simp: tl_ok_def tl_GetTopThreat_def)

lemma sortsDescending_sort_key: "sortsDescending (sort_key (\<lambda>e. - te_threat e))"
proof -
  have "sorted (map (\<lambda>e. - te_threat e) (sort_key (\<lambda>e. - te_threat e) es))" for es :: "ThreatEntry list" by simp
  then show ?thesis by (simp add: sortsDescending_def sorted_map del: sorted_sort_key)
qed

section \<open>A tick that does not return\<close>

text \<open>When the timer is so far behind that adding the interval rounds back to the same float, the
  loop repeats forever.\<close>

lemma aura_catch_up_hangs:
  assumes "au_tickTimer a = - 33554432" and "au_tickInterval a = 1" and "0 < au_remainingTime a"
  shows "catchUp e a p = None"
proof -
  have f: "f32 (- 33554431) = - 33554432" by code_simp
  have "\<not> (au_tickTimer a = - 33554432 \<and> au_tickInterval a = 1 \<and> 0 < au_remainingTime a)"
    if "catchUp e a p = Some r" for e a p r
    using that by (rule catchUp.raw_induct [rotated]) (fastforce simp: f split: if_splits)
  then show ?thesis using assms by (cases "catchUp e a p") auto
qed

section \<open>A sample fight\<close>

text \<open>Entity 0 has 100 health, an aura that deals 10 per second, and is hit once for 30.\<close>

definition demoStats :: Stats where
  "demoStats = \<lparr>st_health = 100, st_maxHealth = 100, st_mana = 0, st_maxMana = 0, st_attributes = replicate 16 0\<rparr>"

definition demoAura :: AuraInstance where
  "demoAura = \<lparr>au_auraId = 1, au_caster = mkEntity 0 0, au_stacks = 2, au_duration = 10, au_remainingTime = 10,
     au_tickInterval = 1, au_tickTimer = 1, au_tickDamage = 5, au_tickDamageType = Magic\<rparr>"

definition demoHit :: DamageEvent where
  "demoHit = \<lparr>dv_attacker = mkEntity 0 0, dv_victim = mkEntity 0 0, dv_type = Physical, dv_baseDamage = 30,
     dv_finalDamage = 0, dv_isCritical = False, dv_isProcessed = False\<rparr>"

definition demoFight :: CombatSystem where
  "demoFight = \<lparr>ct_spellCasts = emptyStorage, ct_auraHolders = singlePool \<lparr>ah_auras = [demoAura]\<rparr>,
     ct_damageEvents = singlePool demoHit, ct_stats = singlePool demoStats,
     ct_threatLists = singlePool \<lparr>tl_entries = []\<rparr>\<rparr>"

section \<open>Properties\<close>

text \<open>(C22) A combat tick returns and keeps the world in order. On well-formed pools, when no aura's timer is
  more than \<open>2 ^ 22\<close> of its intervals behind after the tick, \<^verbatim>\<open>Execute\<close> returns; afterwards every damage
  event is processed, no expired aura is left, every cast that was running has advanced by the tick or
  is complete, every health that was between 0 and its maximum still is (with the other stats
  unchanged), and every threat list keeps distinct sources in descending order.\<close>

theorem combat_tick_returns:
  assumes "cs_inv (ct_spellCasts sys)" and "cs_inv (ct_auraHolders sys)" and "cs_inv (ct_damageEvents sys)"
    and "cs_inv (ct_stats sys)" and "cs_inv (ct_threatLists sys)" and "sortsDescending srt"
    and "list_all (\<lambda>h. list_all (aura_ok dt) (ah_auras h)) (cs_dense (ct_auraHolders sys))"
  shows "\<exists>sys'. ct_Execute srt dt sys = Some sys'
    \<and> list_all dv_isProcessed (cs_dense (ct_damageEvents sys'))
    \<and> list_all (\<lambda>h. list_all (\<lambda>a. 0 < au_remainingTime a) (ah_auras h)) (cs_dense (ct_auraHolders sys'))
    \<and> (\<forall>k. cs_lookup (ct_spellCasts sys') k = map_option (tickCast dt) (cs_lookup (ct_spellCasts sys) k))
    \<and> (\<forall>k s. cs_lookup (ct_stats sys) k = Some s \<and> hp_ok s \<longrightarrow>
         (\<exists>h. cs_lookup (ct_stats sys') k = Some (s\<lparr>st_health := h\<rparr>) \<and> 0 \<le> h \<and> h \<le> st_maxHealth s))
    \<and> (\<forall>k l. cs_lookup (ct_threatLists sys) k = Some l \<and> tl_ok l \<longrightarrow>
         (\<exists>l'. cs_lookup (ct_threatLists sys') k = Some l' \<and> tl_ok l'))"
proof -
  obtain casts where 1: "ct_updateSpellCasts dt sys = Some (sys\<lparr>ct_spellCasts := casts\<rparr>)"
    "\<And>k. cs_lookup casts k = map_option (tickCast dt) (cs_lookup (ct_spellCasts sys) k)"
    using ct_updateSpellCasts_returns [OF assms(1)] by blast
  let ?s1 = "sys\<lparr>ct_spellCasts := casts\<rparr>"
  obtain holders stats where 2: "ct_updateAuras dt ?s1 = Some (?s1\<lparr>ct_auraHolders := holders, ct_stats := stats\<rparr>)"
    "pool_frame (ct_stats sys) stats"
    "list_all (\<lambda>h. list_all (\<lambda>a. 0 < au_remainingTime a) (ah_auras h)) (cs_dense holders)"
    using ct_updateAuras_returns [of ?s1 dt] assms(2,4,7) by auto
  let ?s2 = "?s1\<lparr>ct_auraHolders := holders, ct_stats := stats\<rparr>"
  have "cs_inv stats" using 2(2) by (simp add: pool_frame_def)
  then obtain events stats' threats where
    3: "ct_processDamageEvents srt ?s2 = Some (?s2\<lparr>ct_damageEvents := events, ct_stats := stats', ct_threatLists := threats\<rparr>)"
    "cs_dense events = map (settled stats) (cs_dense (ct_damageEvents sys))" "pool_frame stats stats'"
    "\<And>k. cs_lookup threats k = map_option (fold (provoke srt stats k) (cs_dense (ct_damageEvents sys)))
          (cs_lookup (ct_threatLists sys) k)"
    using ct_processDamageEvents_returns [of ?s2 srt] assms(3,5) by auto
  have fr: "pool_frame (ct_stats sys) stats'" by (rule pool_frame_trans [OF 2(2) 3(3)])
  have hp: "\<exists>h. cs_lookup stats' k = Some (s\<lparr>st_health := h\<rparr>) \<and> 0 \<le> h \<and> h \<le> st_maxHealth s"
    if k: "cs_lookup (ct_stats sys) k = Some s" "hp_ok s" for k s
  proof -
    obtain s' where s': "cs_lookup stats' k = Some s'" "hp_frame s s'"
      using pool_frame_lookup [OF fr k(1)] .
    then show ?thesis using k(2) by (auto simp: hp_frame_def hp_ok_def)
  qed
  have "list_all dv_isProcessed (cs_dense events)" by (auto simp: 3(2) list_all_iff settled_def)
  then show ?thesis
    using 1 2 3 hp fold_provoke_ok [OF assms(6)] by (auto simp: ct_Execute_def)
qed

theorem combat_tick_returns_witness:
  "\<exists>sys' h. ct_Execute (sort_key (\<lambda>e. - te_threat e)) 1 demoFight = Some sys'
     \<and> cs_lookup (ct_stats sys') 0 = Some (demoStats\<lparr>st_health := h\<rparr>) \<and> 0 \<le> h \<and> h \<le> 100"
proof -
  have "aura_ok 1 demoAura" by (simp add: aura_ok_def demoAura_def)
  then have a: "list_all (\<lambda>h. list_all (aura_ok 1) (ah_auras h)) (cs_dense (ct_auraHolders demoFight))"
    by (simp add: demoFight_def)
  have inv: "cs_inv (ct_spellCasts demoFight)" "cs_inv (ct_auraHolders demoFight)" "cs_inv (ct_damageEvents demoFight)"
    "cs_inv (ct_stats demoFight)" "cs_inv (ct_threatLists demoFight)"
    by (simp_all add: demoFight_def)
  have "cs_lookup (ct_stats demoFight) 0 = Some demoStats" "hp_ok demoStats" "st_maxHealth demoStats = 100"
    by (simp_all add: demoFight_def hp_ok_def demoStats_def)
  then show ?thesis
    using combat_tick_returns [OF inv sortsDescending_sort_key a] by metis
qed

text \<open>Damage is applied exactly. Processing the damage events of a tick stores in each unprocessed event
  the damage computed from the victim's armor or resistance, and takes from the health of each
  entity the sum of the damages of the unprocessed events that name it, down to 0; maximum,
  mana and attributes stay.\<close>

theorem combat_damage_exact:
  assumes "cs_inv (ct_damageEvents sys)" and "cs_inv (ct_stats sys)" and "cs_inv (ct_threatLists sys)"
    and "cs_lookup (ct_stats sys) k = Some s" and "hp_ok s"
  shows "\<exists>sys'. ct_processDamageEvents srt sys = Some sys'
    \<and> cs_dense (ct_damageEvents sys') = map (settled (ct_stats sys)) (cs_dense (ct_damageEvents sys))
    \<and> cs_lookup (ct_stats sys') k = Some (s\<lparr>st_health :=
         max 0 (st_health s - damageTaken (ct_stats sys) k (cs_dense (ct_damageEvents sys)))\<rparr>)"
proof -
  obtain events stats threats where p: "ct_processDamageEvents srt sys
      = Some (sys\<lparr>ct_damageEvents := events, ct_stats := stats, ct_threatLists := threats\<rparr>)"
    "cs_dense events = map (settled (ct_stats sys)) (cs_dense (ct_damageEvents sys))"
    "pool_frame (ct_stats sys) stats"
    "cs_lookup stats k = Some (fold (hurt (ct_stats sys) k) (cs_dense (ct_damageEvents sys)) s)"
    using ct_processDamageEvents_returns [OF assms(1-3), of srt] assms(4) by auto
  have "hp_frame s (fold (hurt (ct_stats sys) k) (cs_dense (ct_damageEvents sys)) s)"
    using pool_frame_lookup [OF p(3) assms(4)] p(4) by auto
  then obtain h where h: "fold (hurt (ct_stats sys) k) (cs_dense (ct_damageEvents sys)) s = s\<lparr>st_health := h\<rparr>"
    by (auto simp: hp_frame_def)
  then have "h = max 0 (st_health s - damageTaken (ct_stats sys) k (cs_dense (ct_damageEvents sys)))"
    using fold_hurt_health [OF assms(5), of "ct_stats sys" k "cs_dense (ct_damageEvents sys)"] by simp
  then show ?thesis using p h by simp
qed

theorem combat_damage_exact_witness:
  "\<exists>sys'. ct_processDamageEvents (\<lambda>es. es) demoFight = Some sys'
     \<and> cs_lookup (ct_stats sys') 0 = Some (demoStats\<lparr>st_health := 70\<rparr>)"
proof -
  have inv: "cs_inv (ct_damageEvents demoFight)" "cs_inv (ct_stats demoFight)" "cs_inv (ct_threatLists demoFight)"
    and s: "cs_lookup (ct_stats demoFight) 0 = Some demoStats" "hp_ok demoStats" "st_health demoStats = 100"
    by (simp_all add: demoFight_def hp_ok_def demoStats_def)
  have "CalculateDamage 30 Physical False (paramsOf demoStats) = 30" by code_simp
  then have "damageTaken (ct_stats demoFight) 0 (cs_dense (ct_damageEvents demoFight)) = 30"
    by (simp add: damageTaken_def demoFight_def hits_def demoHit_def damageOf_def victimParams_def)
  then show ?thesis
    using combat_damage_exact [OF inv s(1,2), of "\<lambda>es. es"] s(3) by auto
qed

text \<open>The damage formula is bounded: no damage for a base of 0 or less; for a positive base below
  \<open>2 ^ 23\<close>, whatever the armor and resistances, at least 1 and at most the base, or twice the base for a
  critical hit.\<close>

theorem damage_formula_bounds:
  "(base \<le> 0 \<longrightarrow> CalculateDamage base ty crit params = 0)
   \<and> (0 < base \<and> base < 2 ^ 23 \<longrightarrow> 1 \<le> CalculateDamage base ty crit params
        \<and> CalculateDamage base ty crit params \<le> (if crit then 2 * base else base))"
  using CalculateDamage_bounds [of base ty crit params] by (auto simp: CalculateDamage_def)

theorem damage_formula_bounds_witness:
  "CalculateDamage 100 Physical True \<lparr>dp_armor = 400, dp_resistances = []\<rparr> = 100
   \<and> CalculateDamage 100 Physical True \<lparr>dp_armor = 400, dp_resistances = []\<rparr> \<le> 200"
proof -
  have "CalculateDamage 100 Physical True \<lparr>dp_armor = 400, dp_resistances = []\<rparr> = 100" by code_simp
  then show ?thesis
    using damage_formula_bounds [of 100 Physical True "\<lparr>dp_armor = 400, dp_resistances = []\<rparr>"] by simp
qed

end
