(* ===== verification/Spatial_Index.thy ===== *)
theory Spatial_Index
  imports Ecs_Entity Ieee_Float
begin

text \<open>
  \<^verbatim>\<open>include/cgs/game/math_types.hpp\<close>, \<^verbatim>\<open>world_types.hpp\<close>, \<^verbatim>\<open>spatial_index.hpp\<close> and the first part of
  \<^verbatim>\<open>src/game/world_system/world_system.cpp\<close>: vectors with rounded arithmetic and the uniform grid
  that finds the entities near a position. The two hash maps of the grid are association lists with
  distinct keys. The theory proves that the grid is a finite map from entities to cells, and
  that a radius query covers every cell a nearby position can lie in.
\<close>

section \<open>Vectors\<close>

record Vector3 =
  v_x :: rat
  v_y :: rat
  v_z :: rat

definition Zero :: Vector3 where "Zero = \<lparr>v_x = 0, v_y = 0, v_z = 0\<rparr>"

definition One :: Vector3 where "One = \<lparr>v_x = 1, v_y = 1, v_z = 1\<rparr>"

definition addVector :: "Vector3 \<Rightarrow> Vector3 \<Rightarrow> Vector3" where
  "addVector a b = \<lparr>v_x = f32 (v_x a + v_x b), v_y = f32 (v_y a + v_y b), v_z = f32 (v_z a + v_z b)\<rparr>"

definition subVector :: "Vector3 \<Rightarrow> Vector3 \<Rightarrow> Vector3" where
  "subVector a b = \<lparr>v_x = f32 (v_x a - v_x b), v_y = f32 (v_y a - v_y b), v_z = f32 (v_z a - v_z b)\<rparr>"

definition scaleVector :: "Vector3 \<Rightarrow> rat \<Rightarrow> Vector3" where
  "scaleVector a scalar = \<lparr>v_x = f32 (v_x a * scalar), v_y = f32 (v_y a * scalar), v_z = f32 (v_z a * scalar)\<rparr>"

definition Dot :: "Vector3 \<Rightarrow> Vector3 \<Rightarrow> rat" where
  "Dot a b = f32 (f32 (f32 (v_x a * v_x b) + f32 (v_y a * v_y b)) + f32 (v_z a * v_z b))"

definition LengthSquared :: "Vector3 \<Rightarrow> rat" where
  "LengthSquared a = Dot a a"

definition Length :: "Vector3 \<Rightarrow> rat" where
  "Length a = f32_sqrt (LengthSquared a)"

text \<open>The threshold is the \<^verbatim>\<open>float\<close> nearest to one millionth.\<close>

definition Normalized :: "Vector3 \<Rightarrow> Vector3" where
  "Normalized a =
     (let len = Length a
      in if len < f32 (1 / 10 ^ 6) then Zero
         else \<lparr>v_x = f32 (v_x a / len), v_y = f32 (v_y a / len), v_z = f32 (v_z a / len)\<rparr>)"

record Quaternion =
  q_w :: rat
  q_x :: rat
  q_y :: rat
  q_z :: rat

definition IdentityRotation :: Quaternion where
  "IdentityRotation = \<lparr>q_w = 1, q_x = 0, q_y = 0, q_z = 0\<rparr>"

section \<open>The grid\<close>

definition kDefaultCellSize :: rat where "kDefaultCellSize = 32"

datatype CellCoord = CellCoord (cc_x: int) (cc_y: int)

record SpatialIndex =
  si_cellSize :: rat
  si_cells :: "(CellCoord, Entity list) umap"
  si_entityCells :: "(Entity, CellCoord) umap"

definition mkSpatialIndex :: "rat \<Rightarrow> SpatialIndex" where
  "mkSpatialIndex cellSize = \<lparr>si_cellSize = (if cellSize \<le> 0 then kDefaultCellSize else cellSize),
     si_cells = [], si_entityCells = []\<rparr>"

text \<open>The conversion to \<^verbatim>\<open>int32_t\<close> is defined for cells that fit; the coordinates are integers here.\<close>

definition WorldToCell :: "SpatialIndex \<Rightarrow> Vector3 \<Rightarrow> CellCoord" where
  "WorldToCell si pos = CellCoord (floor (f32 (v_x pos / si_cellSize si))) (floor (f32 (v_z pos / si_cellSize si)))"

definition si_Contains :: "Entity \<Rightarrow> SpatialIndex \<Rightarrow> bool" where
  "si_Contains entity si \<longleftrightarrow> map_of (si_entityCells si) entity \<noteq> None"

definition si_removeFromCell :: "Entity \<Rightarrow> CellCoord \<Rightarrow> SpatialIndex \<Rightarrow> SpatialIndex" where
  "si_removeFromCell entity cell si =
     (case map_of (si_cells si) cell of
        None \<Rightarrow> si
      | Some vec \<Rightarrow>
          let vec' = filter (\<lambda>x. x \<noteq> entity) vec
          in if vec' = [] then si\<lparr>si_cells := AList.delete cell (si_cells si)\<rparr>
             else si\<lparr>si_cells := AList.update cell vec' (si_cells si)\<rparr>)"

definition si_addToCell :: "Entity \<Rightarrow> CellCoord \<Rightarrow> SpatialIndex \<Rightarrow> SpatialIndex" where
  "si_addToCell entity cell si =
     (let vec = (case map_of (si_cells si) cell of None \<Rightarrow> [] | Some vec \<Rightarrow> vec)
      in si\<lparr>si_cells := AList.update cell (vec @ [entity]) (si_cells si)\<rparr>)"

text \<open>\<^verbatim>\<open>Insert\<close> of an entity that is not tracked; \<^verbatim>\<open>Insert\<close> and \<^verbatim>\<open>Update\<close> delegate to each other in
  the other case.\<close>

definition si_insertNew :: "Entity \<Rightarrow> Vector3 \<Rightarrow> SpatialIndex \<Rightarrow> SpatialIndex" where
  "si_insertNew entity position si =
     (let cell = WorldToCell si position; si1 = si_addToCell entity cell si
      in si1\<lparr>si_entityCells := AList.update entity cell (si_entityCells si1)\<rparr>)"

definition si_Update :: "Entity \<Rightarrow> Vector3 \<Rightarrow> SpatialIndex \<Rightarrow> SpatialIndex" where
  "si_Update entity newPosition si =
     (case map_of (si_entityCells si) entity of
        None \<Rightarrow> si_insertNew entity newPosition si
      | Some oldCell \<Rightarrow>
          let newCell = WorldToCell si newPosition
          in if oldCell = newCell then si
             else let si1 = si_removeFromCell entity oldCell si;
                      si2 = si_addToCell entity newCell si1
                  in si2\<lparr>si_entityCells := AList.update entity newCell (si_entityCells si2)\<rparr>)"

definition si_Insert :: "Entity \<Rightarrow> Vector3 \<Rightarrow> SpatialIndex \<Rightarrow> SpatialIndex" where
  "si_Insert entity position si =
     (if si_Contains entity si then si_Update entity position si else si_insertNew entity position si)"

definition si_Remove :: "Entity \<Rightarrow> SpatialIndex \<Rightarrow> SpatialIndex" where
  "si_Remove entity si =
     (case map_of (si_entityCells si) entity of
        None \<Rightarrow> si
      | Some cell \<Rightarrow>
          let si1 = si_removeFromCell entity cell si
          in si1\<lparr>si_entityCells := AList.delete entity (si_entityCells si1)\<rparr>)"

definition si_Clear :: "SpatialIndex \<Rightarrow> SpatialIndex" where
  "si_Clear si = si\<lparr>si_cells := [], si_entityCells := []\<rparr>"

definition si_QueryCell :: "int \<Rightarrow> int \<Rightarrow> SpatialIndex \<Rightarrow> Entity list" where
  "si_QueryCell x y si = (case map_of (si_cells si) (CellCoord x y) of None \<Rightarrow> [] | Some vec \<Rightarrow> vec)"

definition si_QueryPosition :: "Vector3 \<Rightarrow> SpatialIndex \<Rightarrow> Entity list" where
  "si_QueryPosition pos si = (let cell = WorldToCell si pos in si_QueryCell (cc_x cell) (cc_y cell) si)"

definition si_QueryRadius :: "Vector3 \<Rightarrow> rat \<Rightarrow> SpatialIndex \<Rightarrow> Entity list" where
  "si_QueryRadius center radius si =
     (if radius \<le> 0 then []
      else let s = si_cellSize si;
               minCellX = floor (f32 (f32 (v_x center - radius) / s));
               maxCellX = floor (f32 (f32 (v_x center + radius) / s));
               minCellY = floor (f32 (f32 (v_z center - radius) / s));
               maxCellY = floor (f32 (f32 (v_z center + radius) / s))
           in concat (map (\<lambda>cx. concat (map (\<lambda>cy. si_QueryCell cx cy si) [minCellY..maxCellY])) [minCellX..maxCellX]))"

definition si_Size :: "SpatialIndex \<Rightarrow> nat" where
  "si_Size si = length (si_entityCells si)"

section \<open>The invariant\<close>

definition cellOf :: "SpatialIndex \<Rightarrow> Entity \<Rightarrow> CellCoord option" where
  "cellOf si = map_of (si_entityCells si)"

definition inCell :: "SpatialIndex \<Rightarrow> CellCoord \<Rightarrow> Entity list" where
  "inCell si c = (case map_of (si_cells si) c of None \<Rightarrow> [] | Some vec \<Rightarrow> vec)"

text \<open>Both maps have distinct keys, no empty cell is kept, and the entities of a cell are exactly those
  registered with it, each once.\<close>

definition si_inv :: "SpatialIndex \<Rightarrow> bool" where
  "si_inv si \<longleftrightarrow> umap_wf (si_cells si) \<and> umap_wf (si_entityCells si) \<and> 0 < si_cellSize si
     \<and> (\<forall>c. map_of (si_cells si) c \<noteq> Some [])
     \<and> (\<forall>c. distinct (inCell si c) \<and> set (inCell si c) = {e. cellOf si e = Some c})"

lemma si_invD:
  assumes "si_inv si"
  shows "umap_wf (si_cells si)" "umap_wf (si_entityCells si)" "0 < si_cellSize si"
    "\<And>c. map_of (si_cells si) c \<noteq> Some []" "\<And>c. distinct (inCell si c)"
    "\<And>c. set (inCell si c) = {e. cellOf si e = Some c}"
  using assms by (auto simp: si_inv_def)

lemma mkSpatialIndex_inv [simp]: "si_inv (mkSpatialIndex s)"
  by (simp add: si_inv_def mkSpatialIndex_def inCell_def cellOf_def kDefaultCellSize_def)

lemma cells_of_parts:
  "inCell (si\<lparr>si_entityCells := m\<rparr>) = inCell si" "cellOf (si\<lparr>si_cells := cs\<rparr>) = cellOf si"
  by (auto simp: inCell_def cellOf_def)

lemma removeFromCell_parts:
  assumes "umap_wf (si_cells si)" and "\<forall>c. map_of (si_cells si) c \<noteq> Some []"
  shows "si_entityCells (si_removeFromCell e c si) = si_entityCells si"
    and "si_cellSize (si_removeFromCell e c si) = si_cellSize si"
    and "umap_wf (si_cells (si_removeFromCell e c si))"
    and "map_of (si_cells (si_removeFromCell e c si)) c' \<noteq> Some []"
    and "inCell (si_removeFromCell e c si) c' = (if c' = c then filter (\<lambda>x. x \<noteq> e) (inCell si c) else inCell si c')"
  using assms
  by (auto simp: si_removeFromCell_def inCell_def Let_def update_conv' delete_conv' umap_wf_update umap_wf_delete
      split: option.splits)

lemma addToCell_parts:
  shows "si_entityCells (si_addToCell e c si) = si_entityCells si"
    and "si_cellSize (si_addToCell e c si) = si_cellSize si"
    and "umap_wf (si_cells si) \<Longrightarrow> umap_wf (si_cells (si_addToCell e c si))"
    and "map_of (si_cells si) c' \<noteq> Some [] \<Longrightarrow> map_of (si_cells (si_addToCell e c si)) c' \<noteq> Some []"
    and "inCell (si_addToCell e c si) c' = (if c' = c then inCell si c @ [e] else inCell si c')"
  by (auto simp: si_addToCell_def inCell_def Let_def update_conv' umap_wf_update split: option.splits)

lemma si_insertNew_spec:
  assumes "si_inv si" and "cellOf si e = None"
  shows "si_inv (si_insertNew e pos si) \<and> cellOf (si_insertNew e pos si) = (cellOf si)(e \<mapsto> WorldToCell si pos)"
proof -
  note I = si_invD [OF assms(1)]
  let ?c = "WorldToCell si pos" and ?si = "si_insertNew e pos si"
  have c: "cellOf ?si = (cellOf si)(e \<mapsto> ?c)"
    by (simp add: si_insertNew_def Let_def cellOf_def update_conv' addToCell_parts)
  have n: "inCell ?si c = (if c = ?c then inCell si c @ [e] else inCell si c)" for c
    by (simp add: si_insertNew_def Let_def cells_of_parts addToCell_parts)
  have e: "e \<notin> set (inCell si c)" for c using I(6) assms(2) by auto
  have parts: "umap_wf (si_cells ?si)" "umap_wf (si_entityCells ?si)" "si_cellSize ?si = si_cellSize si"
    "\<And>c. map_of (si_cells ?si) c \<noteq> Some []"
    using I(1,2,4) addToCell_parts by (simp_all add: si_insertNew_def Let_def)
  have "si_inv ?si"
    unfolding si_inv_def using parts I(3,5,6) assms(2) e by (auto simp: n c)
  then show ?thesis using c by blast
qed

lemma si_move_spec:
  assumes "si_inv si" and "cellOf si e = Some old" and "new \<noteq> old"
  shows "let si2 = si_addToCell e new (si_removeFromCell e old si);
             si' = si2\<lparr>si_entityCells := AList.update e new (si_entityCells si2)\<rparr>
         in si_inv si' \<and> cellOf si' = (cellOf si)(e \<mapsto> new)"
proof -
  note I = si_invD [OF assms(1)]
  let ?s1 = "si_removeFromCell e old si"
  have nn: "\<forall>c. map_of (si_cells si) c \<noteq> Some []" using I(4) by blast
  note R = removeFromCell_parts [OF I(1) nn, of e old]
  define s' where "s' = (si_addToCell e new ?s1)\<lparr>si_entityCells := AList.update e new (si_entityCells (si_addToCell e new ?s1))\<rparr>"
  have c: "cellOf s' = (cellOf si)(e \<mapsto> new)"
    by (simp add: s'_def cellOf_def update_conv' addToCell_parts R)
  have n: "inCell s' x = (if x = new then inCell si new @ [e] else if x = old then filter (\<lambda>y. y \<noteq> e) (inCell si old) else inCell si x)" for x
    using assms(3) by (simp add: s'_def cells_of_parts addToCell_parts R)
  have "umap_wf (si_cells s')" "umap_wf (si_entityCells s')" "si_cellSize s' = si_cellSize si"
    "\<And>c. map_of (si_cells s') c \<noteq> Some []"
    using I(2) R addToCell_parts by (simp_all add: s'_def)
  moreover have "e \<notin> set (inCell si x) \<longleftrightarrow> x \<noteq> old" for x using I(6) assms(2) by auto
  ultimately have "si_inv s'"
    unfolding si_inv_def using I(3,5,6) assms(3) by (auto simp: n c)
  then show ?thesis using c by (simp add: Let_def s'_def)
qed

lemma si_Update_spec:
  assumes "si_inv si"
  shows "si_inv (si_Update e pos si) \<and> cellOf (si_Update e pos si) = (cellOf si)(e \<mapsto> WorldToCell si pos)"
proof (cases "cellOf si e")
  case None
  then show ?thesis using si_insertNew_spec [OF assms None] by (simp add: si_Update_def cellOf_def)
next
  case (Some old)
  then show ?thesis
    using si_move_spec [OF assms Some] assms by (auto simp: si_Update_def cellOf_def Let_def)
qed

lemma si_Insert_spec:
  assumes "si_inv si"
  shows "si_inv (si_Insert e pos si) \<and> cellOf (si_Insert e pos si) = (cellOf si)(e \<mapsto> WorldToCell si pos)"
  using si_Update_spec [OF assms] si_insertNew_spec [OF assms]
  by (auto simp: si_Insert_def si_Contains_def cellOf_def)

lemma si_Remove_spec:
  assumes "si_inv si"
  shows "si_inv (si_Remove e si) \<and> cellOf (si_Remove e si) = (cellOf si)(e := None)"
proof (cases "cellOf si e")
  case None
  then show ?thesis using assms by (auto simp: si_Remove_def cellOf_def)
next
  case (Some old)
  note I = si_invD [OF assms]
  have nn: "\<forall>c. map_of (si_cells si) c \<noteq> Some []" using I(4) by blast
  note R = removeFromCell_parts [OF I(1) nn, of e old]
  let ?s = "si_Remove e si"
  have s: "?s = (si_removeFromCell e old si)\<lparr>si_entityCells := AList.delete e (si_entityCells si)\<rparr>"
    using Some R by (simp add: si_Remove_def cellOf_def Let_def)
  have c: "cellOf ?s = (cellOf si)(e := None)" by (simp add: s cellOf_def delete_conv')
  have n: "inCell ?s x = (if x = old then filter (\<lambda>y. y \<noteq> e) (inCell si old) else inCell si x)" for x
    by (simp add: s cells_of_parts R)
  have "umap_wf (si_cells ?s)" "umap_wf (si_entityCells ?s)" "si_cellSize ?s = si_cellSize si"
    "\<And>c. map_of (si_cells ?s) c \<noteq> Some []"
    using I(2) R by (simp_all add: s)
  moreover have "e \<notin> set (inCell si x) \<longleftrightarrow> x \<noteq> old" for x using I(6) Some by auto
  ultimately have "si_inv ?s"
    unfolding si_inv_def using I(3,5,6) by (auto simp: n c)
  then show ?thesis using c by blast
qed

lemma si_Clear_spec: "si_inv si \<Longrightarrow> si_inv (si_Clear si) \<and> cellOf (si_Clear si) = Map.empty"
  by (auto simp: si_inv_def si_Clear_def inCell_def cellOf_def)

section \<open>Queries\<close>

lemma si_QueryCell_inCell: "si_QueryCell x y si = inCell si (CellCoord x y)"
  by (simp add: si_QueryCell_def inCell_def)

lemma distinct_concat_cells:
  assumes "distinct xs" and "\<And>x. x \<in> set xs \<Longrightarrow> distinct (f x)"
    and "\<And>x y. x \<in> set xs \<Longrightarrow> y \<in> set xs \<Longrightarrow> x \<noteq> y \<Longrightarrow> set (f x) \<inter> set (f y) = {}"
  shows "distinct (concat (map f xs))"
  using assms by (induction xs) auto

definition radiusRange :: "rat \<Rightarrow> rat \<Rightarrow> rat \<Rightarrow> int set" where
  "radiusRange s c radius = {floor (f32 (f32 (c - radius) / s)) .. floor (f32 (f32 (c + radius) / s))}"

lemma si_QueryRadius_set:
  assumes "si_inv si"
  shows "distinct (si_QueryRadius center radius si)
    \<and> set (si_QueryRadius center radius si) =
        (if radius \<le> 0 then {} else {e. \<exists>c. cellOf si e = Some c
            \<and> cc_x c \<in> radiusRange (si_cellSize si) (v_x center) radius
            \<and> cc_y c \<in> radiusRange (si_cellSize si) (v_z center) radius})"
proof (cases "radius \<le> 0")
  case False
  note I = si_invD [OF assms]
  define row where "row = (\<lambda>cx. concat (map (\<lambda>cy. si_QueryCell cx cy si)
    [floor (f32 (f32 (v_z center - radius) / si_cellSize si))..floor (f32 (f32 (v_z center + radius) / si_cellSize si))]))"
  have q: "si_QueryRadius center radius si = concat (map row
      [floor (f32 (f32 (v_x center - radius) / si_cellSize si))..floor (f32 (f32 (v_x center + radius) / si_cellSize si))])"
    using False by (simp add: si_QueryRadius_def row_def Let_def)
  have cell: "set (si_QueryCell x y si) = {e. cellOf si e = Some (CellCoord x y)}" "distinct (si_QueryCell x y si)" for x y
    using I(5,6) by (simp_all add: si_QueryCell_inCell)
  have row: "set (row x) = {e. \<exists>y \<in> radiusRange (si_cellSize si) (v_z center) radius. cellOf si e = Some (CellCoord x y)}" for x
    by (auto simp: row_def cell radiusRange_def)
  have "distinct (row x)" for x unfolding row_def by (rule distinct_concat_cells) (auto simp: cell)
  then have "distinct (si_QueryRadius center radius si)"
    unfolding q by (intro distinct_concat_cells) (auto simp: row)
  moreover have "set (si_QueryRadius center radius si) = {e. \<exists>x \<in> radiusRange (si_cellSize si) (v_x center) radius.
      \<exists>y \<in> radiusRange (si_cellSize si) (v_z center) radius. cellOf si e = Some (CellCoord x y)}"
    by (auto simp: q row radiusRange_def [of _ "v_x center"])
  moreover have "(\<exists>x \<in> A. \<exists>y \<in> B. m = Some (CellCoord x y)) \<longleftrightarrow> (\<exists>c. m = Some c \<and> cc_x c \<in> A \<and> cc_y c \<in> B)" for A B m
    by (metis CellCoord.collapse CellCoord.sel)
  ultimately show ?thesis using False by simp
qed (simp add: si_QueryRadius_def)

text \<open>Rounding is monotone on all numbers, so the cell of a coordinate within the radius lies in the
  range the query visits.\<close>

lemma f32_mono_all: "x \<le> y \<Longrightarrow> f32 x \<le> f32 y"
proof -
  assume xy: "x \<le> y"
  consider "0 \<le> x" | "x < 0" "0 \<le> y" | "y < 0" by linarith
  then show ?thesis
  proof cases
    case 1
    then show ?thesis using xy by (rule f32_mono)
  next
    case 2
    then have "0 \<le> f32 (- x)" "0 \<le> f32 y" by (simp_all add: f32_nonneg)
    then show ?thesis by (simp add: f32_uminus)
  next
    case 3
    then have "f32 (- y) \<le> f32 (- x)" using xy by (intro f32_mono) auto
    then show ?thesis by (simp add: f32_uminus)
  qed
qed

lemma coordinate_in_range:
  assumes "0 < s" and "f32 x = x" and "c - radius \<le> x" and "x \<le> c + radius"
  shows "floor (f32 (x / s)) \<in> radiusRange s c radius"
proof -
  have "f32 (c - radius) \<le> x" "x \<le> f32 (c + radius)"
    using f32_mono_all [OF assms(3)] f32_mono_all [OF assms(4)] assms(2) by simp_all
  then have "f32 (f32 (c - radius) / s) \<le> f32 (x / s)" "f32 (x / s) \<le> f32 (f32 (c + radius) / s)"
    using assms(1) by (auto intro!: f32_mono_all divide_right_mono)
  then show ?thesis by (simp add: radiusRange_def floor_mono)
qed

section \<open>Operation sequences\<close>

datatype si_op = SInsert Entity Vector3 | SUpdate Entity Vector3 | SRemove Entity | SClear

fun si_exec :: "si_op \<Rightarrow> SpatialIndex \<Rightarrow> SpatialIndex" where
  "si_exec (SInsert e pos) si = si_Insert e pos si"
| "si_exec (SUpdate e pos) si = si_Update e pos si"
| "si_exec (SRemove e) si = si_Remove e si"
| "si_exec SClear si = si_Clear si"

text \<open>The abstract grid: a map from entities to cells.\<close>

fun grid_exec :: "(Vector3 \<Rightarrow> CellCoord) \<Rightarrow> si_op \<Rightarrow> (Entity \<rightharpoonup> CellCoord) \<Rightarrow> (Entity \<rightharpoonup> CellCoord)" where
  "grid_exec cell (SInsert e pos) m = m(e \<mapsto> cell pos)"
| "grid_exec cell (SUpdate e pos) m = m(e \<mapsto> cell pos)"
| "grid_exec cell (SRemove e) m = m(e := None)"
| "grid_exec cell SClear m = Map.empty"

lemma si_exec_cellSize: "si_cellSize (si_exec opn si) = si_cellSize si"
proof -
  have r: "si_cellSize (si_removeFromCell e c s) = si_cellSize s" for e c s
    by (simp add: si_removeFromCell_def Let_def split: option.splits)
  then show ?thesis
    by (cases opn) (auto simp: si_Insert_def si_Update_def si_insertNew_def si_Remove_def si_Clear_def Let_def
        addToCell_parts split: option.splits)
qed

lemma si_exec_refines:
  assumes "si_inv si"
  shows "si_inv (si_exec opn si) \<and> cellOf (si_exec opn si) = grid_exec (WorldToCell si) opn (cellOf si)"
  using assms by (cases opn) (simp_all add: si_Insert_spec si_Update_spec si_Remove_spec si_Clear_spec)

lemma WorldToCell_cong: "si_cellSize si = si_cellSize si' \<Longrightarrow> WorldToCell si = WorldToCell si'"
  by (rule ext) (simp add: WorldToCell_def)

lemma si_run_refines:
  assumes "si_inv si"
  shows "si_inv (fold si_exec ops si) \<and> si_cellSize (fold si_exec ops si) = si_cellSize si
    \<and> cellOf (fold si_exec ops si) = fold (grid_exec (WorldToCell si)) ops (cellOf si)"
  using assms
proof (induction ops arbitrary: si)
  case (Cons opn ops)
  have "WorldToCell (si_exec opn si) = WorldToCell si" by (rule WorldToCell_cong) (rule si_exec_cellSize)
  then show ?case using Cons.IH [of "si_exec opn si"] si_exec_refines [OF Cons.prems] by (simp add: si_exec_cellSize)
qed simp

section \<open>Properties\<close>

text \<open>The grid is a finite map from entities to cells: after any sequence of insertions, updates,
  removals and clears, every query answers from the last position given for each entity. A cell
  query lists exactly the entities last seen in that cell, each once; \<^verbatim>\<open>Size\<close> counts the tracked entities;
  and a radius query lists, each once, every tracked entity whose last position lies within the radius
  in both coordinates (and otherwise only entities of the visited cells).\<close>

theorem spatial_index_refines_map:
  assumes "0 < s"
  shows "let si = fold si_exec ops (mkSpatialIndex s);
             grid = fold (grid_exec (WorldToCell (mkSpatialIndex s))) ops Map.empty in
      distinct (si_QueryCell x y si) \<and> set (si_QueryCell x y si) = {e. grid e = Some (CellCoord x y)}
    \<and> si_Size si = card (dom grid) \<and> (si_Contains e si \<longleftrightarrow> grid e \<noteq> None)
    \<and> distinct (si_QueryRadius center radius si) \<and> set (si_QueryRadius center radius si) \<subseteq> dom grid
    \<and> (\<forall>pos. 0 < radius \<and> grid e = Some (WorldToCell si pos) \<and> f32 (v_x pos) = v_x pos \<and> f32 (v_z pos) = v_z pos
         \<and> \<bar>v_x pos - v_x center\<bar> \<le> radius \<and> \<bar>v_z pos - v_z center\<bar> \<le> radius
         \<longrightarrow> e \<in> set (si_QueryRadius center radius si))"
proof -
  define si where "si = fold si_exec ops (mkSpatialIndex s)"
  define grid where "grid = fold (grid_exec (WorldToCell (mkSpatialIndex s))) ops Map.empty"
  have si: "si_inv si" "si_cellSize si = s" "cellOf si = grid"
    using si_run_refines [OF mkSpatialIndex_inv, of ops s] assms(1)
    by (simp_all add: si_def grid_def mkSpatialIndex_def) (simp add: cellOf_def)
  note I = si_invD [OF si(1)] and Q = si_QueryRadius_set [OF si(1), of center radius]
  have "distinct (si_QueryCell x y si) \<and> set (si_QueryCell x y si) = {e. grid e = Some (CellCoord x y)}"
    using I(5,6) by (simp add: si_QueryCell_inCell si(3))
  moreover have "si_Size si = card (dom (grid))"
  proof -
    have "dom (grid) = set (map fst (si_entityCells si))" by (simp add: si(3) [symmetric] cellOf_def dom_map_of_conv_image_fst)
    moreover have "distinct (map fst (si_entityCells si))" using I(2) by (simp add: umap_wf_def)
    ultimately show ?thesis by (metis si_Size_def distinct_card length_map)
  qed
  moreover have "si_Contains e si \<longleftrightarrow> grid e \<noteq> None" by (simp add: si_Contains_def si(3) [symmetric] cellOf_def)
  moreover have "set (si_QueryRadius center radius si) \<subseteq> dom (grid)" using Q by (auto simp: si(3))
  moreover have "e \<in> set (si_QueryRadius center radius si)"
    if "0 < radius" "grid e = Some (WorldToCell si pos)" "f32 (v_x pos) = v_x pos" "f32 (v_z pos) = v_z pos"
      "\<bar>v_x pos - v_x center\<bar> \<le> radius" "\<bar>v_z pos - v_z center\<bar> \<le> radius" for pos
    using that Q assms(1) coordinate_in_range [of s "v_x pos" "v_x center" radius]
      coordinate_in_range [of s "v_z pos" "v_z center" radius]
    by (simp add: si WorldToCell_def)
  ultimately show ?thesis
    using conjunct1 [OF Q] unfolding Let_def si_def [symmetric] grid_def [symmetric] by blast
qed

theorem spatial_index_refines_map_witness:
  "let e = mkEntity 4 0; pos = \<lparr>v_x = 40, v_y = 0, v_z = 8\<rparr>; si = fold si_exec [SInsert e Zero, SUpdate e pos] (mkSpatialIndex 32)
   in set (si_QueryCell 1 0 si) = {e} \<and> e \<in> set (si_QueryRadius Zero 50 si)"
proof -
  define e where "e = mkEntity 4 0"
  define pos where "pos = \<lparr>v_x = 40, v_y = 0, v_z = (8 :: rat)\<rparr>"
  define si where "si = fold si_exec [SInsert e Zero, SUpdate e pos] (mkSpatialIndex 32)"
  have c: "WorldToCell (mkSpatialIndex 32) pos = CellCoord 1 0" "WorldToCell si pos = CellCoord 1 0"
    "f32 40 = 40" "f32 8 = 8"
    unfolding si_def pos_def e_def by code_simp+
  have v: "v_x pos = 40" "v_z pos = 8" "v_x Zero = 0" "v_z Zero = 0" by (simp_all add: pos_def Zero_def)
  note T = spatial_index_refines_map [where s = 32 and ops = "[SInsert e Zero, SUpdate e pos]" and x = 1 and y = 0
      and e = e and center = Zero and radius = 50, unfolded Let_def, folded si_def]
  have "set (si_QueryCell 1 0 si) = {e}" using T c(1) by auto
  moreover have "e \<in> set (si_QueryRadius Zero 50 si)"
    using T c v by (auto dest!: spec [of _ pos])
  ultimately show ?thesis by (simp only: Let_def e_def si_def pos_def)
qed

end
