(* ===== verification/World.thy ===== *)
theory World
  imports Ecs_System_Loop Spatial_Index
begin

text \<open>
  \<^verbatim>\<open>include/cgs/game/world_types.hpp\<close>, \<^verbatim>\<open>world_components.hpp\<close>, \<^verbatim>\<open>world_system.hpp\<close> and the second part
  of \<^verbatim>\<open>src/game/world_system/world_system.cpp\<close>: maps with one spatial index each, the tick that
  brings the indices up to date with the transforms, visibility and radius queries, transfers between
  maps and zone flags. The theory proves that the indices track exactly the members of their map
  and what a radius query returns after a tick.
\<close>

section \<open>Types and components\<close>

definition kDefaultVisibilityRange :: rat where "kDefaultVisibilityRange = 100"

datatype MapType = OpenWorld | Dungeon | Battleground

datatype ZoneType = NormalZone | PvPZone | SafeZone | ContestedZone

type_synonym ZoneFlags = u32

definition zf_None :: ZoneFlags where "zf_None = 0"

definition HasFlag :: "ZoneFlags \<Rightarrow> ZoneFlags \<Rightarrow> bool" where
  "HasFlag flags flag \<longleftrightarrow> flags AND flag \<noteq> 0"

datatype TransitionResult = TransitionSuccess | InvalidMap | InvalidZone | EntityNotFound

record Transform =
  tr_position :: Vector3
  tr_rotation :: Quaternion
  tr_scale :: Vector3

record MapInstance =
  mi_mapId :: u32
  mi_instanceId :: u32
  mi_type :: MapType

record Zone =
  zn_zoneId :: u32
  zn_type :: ZoneType
  zn_flags :: ZoneFlags
  zn_mapEntity :: Entity

record MapMembership =
  mm_mapEntity :: Entity
  mm_zoneId :: u32

record VisibilityRange =
  vr_range :: rat

section \<open>The world system\<close>

record WorldSystem =
  ws_transforms :: "Transform ComponentStorage"
  ws_memberships :: "MapMembership ComponentStorage"
  ws_mapInstances :: "MapInstance ComponentStorage"
  ws_visibilityRanges :: "VisibilityRange ComponentStorage"
  ws_zones :: "Zone ComponentStorage"
  ws_spatialIndices :: "(Entity, SpatialIndex) umap"
  ws_cellSize :: rat

text \<open>\<^verbatim>\<open>try_emplace\<close>: the index of a map, created empty when there is none.\<close>

definition indexFor :: "rat \<Rightarrow> Entity \<Rightarrow> (Entity, SpatialIndex) umap \<Rightarrow> SpatialIndex" where
  "indexFor cellSize mapEntity indices =
     (case map_of indices mapEntity of None \<Rightarrow> mkSpatialIndex cellSize | Some si \<Rightarrow> si)"

definition syncEntity :: "Transform ComponentStorage \<Rightarrow> rat \<Rightarrow> Entity \<Rightarrow> MapMembership \<Rightarrow> (Entity, SpatialIndex) umap
    \<Rightarrow> MapMembership \<times> (Entity, SpatialIndex) umap" where
  "syncEntity transforms cellSize entity membership indices =
     (membership,
      case cs_Get transforms entity of
        None \<Rightarrow> indices
      | Some transform \<Rightarrow>
          AList.update (mm_mapEntity membership)
            (si_Update entity (tr_position transform) (indexFor cellSize (mm_mapEntity membership) indices)) indices)"

definition ws_synchronizePositions :: "WorldSystem \<Rightarrow> WorldSystem option" where
  "ws_synchronizePositions sys =
     map_option (\<lambda>(memberships, indices). sys\<lparr>ws_memberships := memberships, ws_spatialIndices := indices\<rparr>)
       (forEachComponent (syncEntity (ws_transforms sys) (ws_cellSize sys)) (ws_memberships sys, ws_spatialIndices sys))"

definition ws_Execute :: "WorldSystem \<Rightarrow> WorldSystem option" where
  "ws_Execute sys = ws_synchronizePositions sys"

text \<open>The distance test of \<^verbatim>\<open>QueryRadius\<close>, in the plane of x and z.\<close>

definition withinRadius :: "Vector3 \<Rightarrow> Vector3 \<Rightarrow> rat \<Rightarrow> bool" where
  "withinRadius pos center radius \<longleftrightarrow>
     (let diff = subVector pos center
      in f32 (f32 (v_x diff * v_x diff) + f32 (v_z diff * v_z diff)) \<le> f32 (radius * radius))"

definition ws_QueryRadius :: "Entity \<Rightarrow> Vector3 \<Rightarrow> rat \<Rightarrow> WorldSystem \<Rightarrow> Entity list" where
  "ws_QueryRadius mapEntity center radius sys =
     (case map_of (ws_spatialIndices sys) mapEntity of
        None \<Rightarrow> []
      | Some si \<Rightarrow>
          filter (\<lambda>entity. case cs_Get (ws_transforms sys) entity of
                             None \<Rightarrow> False
                           | Some t \<Rightarrow> withinRadius (tr_position t) center radius)
            (si_QueryRadius center radius si))"

definition ws_GetVisibleEntities :: "Entity \<Rightarrow> WorldSystem \<Rightarrow> Entity list" where
  "ws_GetVisibleEntities viewer sys =
     (case (cs_Get (ws_memberships sys) viewer, cs_Get (ws_transforms sys) viewer) of
        (Some membership, Some transform) \<Rightarrow>
          let range = (case cs_Get (ws_visibilityRanges sys) viewer of
                         None \<Rightarrow> kDefaultVisibilityRange | Some v \<Rightarrow> vr_range v)
          in ws_QueryRadius (mm_mapEntity membership) (tr_position transform) range sys
      | _ \<Rightarrow> [])"

definition ws_TransferEntity :: "Entity \<Rightarrow> Entity \<Rightarrow> Vector3 \<Rightarrow> WorldSystem \<Rightarrow> TransitionResult \<times> WorldSystem" where
  "ws_TransferEntity entity targetMapEntity destination sys =
     (if \<not> cs_Has (ws_mapInstances sys) targetMapEntity then (InvalidMap, sys)
      else case (cs_Get (ws_memberships sys) entity, cs_Get (ws_transforms sys) entity) of
        (Some membership, Some transform) \<Rightarrow>
          let indices1 = (case map_of (ws_spatialIndices sys) (mm_mapEntity membership) of
                            None \<Rightarrow> ws_spatialIndices sys
                          | Some si \<Rightarrow> AList.update (mm_mapEntity membership) (si_Remove entity si) (ws_spatialIndices sys));
              transforms' = assignRef entity (transform\<lparr>tr_position := destination\<rparr>) (ws_transforms sys);
              memberships' = assignRef entity (membership\<lparr>mm_mapEntity := targetMapEntity, mm_zoneId := 0\<rparr>) (ws_memberships sys);
              indices2 = AList.update targetMapEntity
                (si_Insert entity destination (indexFor (ws_cellSize sys) targetMapEntity indices1)) indices1
          in (TransitionSuccess, sys\<lparr>ws_transforms := transforms', ws_memberships := memberships',
                                     ws_spatialIndices := indices2\<rparr>)
      | _ \<Rightarrow> (EntityNotFound, sys))"

text \<open>The search through the zone pool.\<close>

fun findZone :: "u32 \<Rightarrow> Entity \<Rightarrow> nat list \<Rightarrow> Zone ComponentStorage \<Rightarrow> ZoneFlags option" where
  "findZone targetZoneId mapEntity [] zones = Some zf_None"
| "findZone targetZoneId mapEntity (i # is) zones =
     (case Option.bind (cs_EntityAt zones i) (\<lambda>zoneEntityId. cs_Get zones (mkEntity zoneEntityId 0)) of
        None \<Rightarrow> None
      | Some zone \<Rightarrow> if zn_zoneId zone = targetZoneId \<and> zn_mapEntity zone = mapEntity
                     then Some (zn_flags zone) else findZone targetZoneId mapEntity is zones)"

definition ws_GetEntityZoneFlags :: "Entity \<Rightarrow> WorldSystem \<Rightarrow> ZoneFlags option" where
  "ws_GetEntityZoneFlags entity sys =
     (case cs_Get (ws_memberships sys) entity of
        None \<Rightarrow> Some zf_None
      | Some membership \<Rightarrow>
          findZone (mm_zoneId membership) (mm_mapEntity membership) [0..<cs_Size (ws_zones sys)] (ws_zones sys))"

definition ws_GetSpatialIndex :: "Entity \<Rightarrow> WorldSystem \<Rightarrow> SpatialIndex option" where
  "ws_GetSpatialIndex mapEntity sys = map_of (ws_spatialIndices sys) mapEntity"

definition ws_MapCount :: "WorldSystem \<Rightarrow> nat" where
  "ws_MapCount sys = length (ws_spatialIndices sys)"

section \<open>The indices track the members of their map\<close>

text \<open>Where the index of a map places an entity.\<close>

definition trackedIn :: "(Entity, SpatialIndex) umap \<Rightarrow> Entity \<Rightarrow> Entity \<Rightarrow> CellCoord option" where
  "trackedIn indices m e = Option.bind (map_of indices m) (\<lambda>si. cellOf si e)"

definition indices_ok :: "rat \<Rightarrow> (Entity, SpatialIndex) umap \<Rightarrow> bool" where
  "indices_ok s indices \<longleftrightarrow> umap_wf indices
     \<and> (\<forall>m si. map_of indices m = Some si \<longrightarrow> si_inv si \<and> si_cellSize si = s)"

text \<open>Every tracked entity is a handle of version 0 whose membership names that map.\<close>

definition tracks_members :: "MapMembership ComponentStorage \<Rightarrow> (Entity, SpatialIndex) umap \<Rightarrow> bool" where
  "tracks_members memberships indices \<longleftrightarrow>
     (\<forall>m e. trackedIn indices m e \<noteq> None \<longrightarrow> entity_version e = 0
        \<and> (\<exists>ms. cs_lookup memberships (eidx e) = Some ms \<and> mm_mapEntity ms = m))"

definition ws_inv :: "WorldSystem \<Rightarrow> bool" where
  "ws_inv sys \<longleftrightarrow> cs_inv (ws_transforms sys) \<and> cs_inv (ws_memberships sys) \<and> 0 < ws_cellSize sys
     \<and> indices_ok (ws_cellSize sys) (ws_spatialIndices sys)
     \<and> tracks_members (ws_memberships sys) (ws_spatialIndices sys)"

definition cellAt :: "rat \<Rightarrow> Vector3 \<Rightarrow> CellCoord" where
  "cellAt s = WorldToCell (mkSpatialIndex s)"

lemma WorldToCell_cellAt: "0 < s \<Longrightarrow> si_cellSize si = s \<Longrightarrow> WorldToCell si = cellAt s"
  unfolding cellAt_def by (rule WorldToCell_cong) (simp add: mkSpatialIndex_def)

lemma si_Update_cellSize: "si_cellSize (si_Update e pos si) = si_cellSize si"
  using si_exec_cellSize [of "SUpdate e pos" si] by simp

lemma si_Insert_cellSize: "si_cellSize (si_Insert e pos si) = si_cellSize si"
  using si_exec_cellSize [of "SInsert e pos" si] by simp

lemma si_Remove_cellSize: "si_cellSize (si_Remove e si) = si_cellSize si"
  using si_exec_cellSize [of "SRemove e" si] by simp

lemma indexFor_ok:
  assumes "indices_ok s indices" and "0 < s"
  shows "si_inv (indexFor s m indices)" and "si_cellSize (indexFor s m indices) = s"
    and "cellOf (indexFor s m indices) = trackedIn indices m"
proof -
  have "si_inv (indexFor s m indices) \<and> si_cellSize (indexFor s m indices) = s
      \<and> cellOf (indexFor s m indices) = trackedIn indices m"
  proof (cases "map_of indices m")
    case None
    moreover have "si_cellSize (mkSpatialIndex s) = s" "cellOf (mkSpatialIndex s) = (\<lambda>_. None)"
      using assms(2) by (auto simp: mkSpatialIndex_def cellOf_def)
    ultimately show ?thesis by (auto simp: indexFor_def trackedIn_def)
  next
    case (Some si)
    then show ?thesis using assms(1) by (auto simp: indices_ok_def indexFor_def trackedIn_def)
  qed
  then show "si_inv (indexFor s m indices)" "si_cellSize (indexFor s m indices) = s"
    "cellOf (indexFor s m indices) = trackedIn indices m"
    by auto
qed

lemma indices_ok_update:
  "indices_ok s indices \<Longrightarrow> si_inv si \<Longrightarrow> si_cellSize si = s \<Longrightarrow> indices_ok s (AList.update m si indices)"
  by (auto simp: indices_ok_def update_conv' split: if_splits)

lemma trackedIn_update:
  "trackedIn (AList.update m si indices) m' = (if m' = m then cellOf si else trackedIn indices m')"
  by (auto simp: trackedIn_def update_conv')

lemma syncEntity_spec:
  assumes "indices_ok s indices" and "0 < s"
  shows "fst (syncEntity transforms s e ms indices) = ms
    \<and> indices_ok s (snd (syncEntity transforms s e ms indices))
    \<and> (\<forall>m x. trackedIn (snd (syncEntity transforms s e ms indices)) m x =
         (case cs_Get transforms e of
            Some t \<Rightarrow> if m = mm_mapEntity ms \<and> x = e then Some (cellAt s (tr_position t)) else trackedIn indices m x
          | None \<Rightarrow> trackedIn indices m x))"
proof (cases "cs_Get transforms e")
  case (Some t)
  let ?si = "indexFor s (mm_mapEntity ms) indices"
  note I = indexFor_ok [OF assms, of "mm_mapEntity ms"]
  note U = si_Update_spec [OF I(1), of e "tr_position t"]
  have "indices_ok s (AList.update (mm_mapEntity ms) (si_Update e (tr_position t) ?si) indices)"
    using U I(2) by (intro indices_ok_update [OF assms(1)]) (simp_all add: si_Update_cellSize)
  then show ?thesis
    using U I(3) by (auto simp: syncEntity_def Some trackedIn_update WorldToCell_cellAt [OF assms(2) I(2)])
qed (use assms in \<open>simp add: syncEntity_def\<close>)

lemma passOver_sync_ok:
  assumes "indices_ok s indices" and "0 < s"
  shows "fst (passOver (syncEntity transforms s) xs indices) = map snd xs
    \<and> indices_ok s (snd (passOver (syncEntity transforms s) xs indices))"
  using assms
proof (induction xs arbitrary: indices)
  case (Cons x xs)
  obtain k ms where x: "x = (k, ms)" by fastforce
  have "indices_ok s (snd (syncEntity transforms s (mkEntity k 0) ms indices))"
    "fst (syncEntity transforms s (mkEntity k 0) ms indices) = ms"
    using syncEntity_spec [OF Cons.prems] by blast+
  then show ?case using Cons.IH Cons.prems(2) by (simp add: x split_beta)
qed simp

lemma passOver_sync_keeps:
  assumes "indices_ok s indices" and "0 < s" and "cs_Get transforms e = Some t"
    and "trackedIn indices m e = Some (cellAt s (tr_position t))"
  shows "trackedIn (snd (passOver (syncEntity transforms s) xs indices)) m e = Some (cellAt s (tr_position t))"
  using assms(1,4)
proof (induction xs arbitrary: indices)
  case (Cons x xs)
  obtain k ms where x: "x = (k, ms)" by fastforce
  have ok: "indices_ok s (snd (syncEntity transforms s (mkEntity k 0) ms indices))"
    and "trackedIn (snd (syncEntity transforms s (mkEntity k 0) ms indices)) m e = Some (cellAt s (tr_position t))"
    using syncEntity_spec [OF Cons.prems(1) assms(2), of transforms "mkEntity k 0" ms] Cons.prems(2) assms(3)
    by (auto split: option.splits)
  then show ?case using Cons.IH by (simp add: x split_beta)
qed simp

lemma passOver_sync_tracks:
  assumes "indices_ok s indices" and "0 < s" and "cs_Get transforms (mkEntity k 0) = Some t" and "(k, ms) \<in> set xs"
  shows "trackedIn (snd (passOver (syncEntity transforms s) xs indices)) (mm_mapEntity ms) (mkEntity k 0)
      = Some (cellAt s (tr_position t))"
  using assms(1,4)
proof (induction xs arbitrary: indices)
  case (Cons x xs)
  obtain k' ms' where x: "x = (k', ms')" by fastforce
  let ?ind = "snd (syncEntity transforms s (mkEntity k' 0) ms' indices)"
  note S = syncEntity_spec [OF Cons.prems(1) assms(2), of transforms "mkEntity k' 0" ms']
  show ?case
  proof (cases "(k, ms) \<in> set xs")
    case True
    then show ?thesis using Cons.IH [of ?ind] S by (simp add: x split_beta)
  next
    case False
    then have "x = (k, ms)" using Cons.prems(2) by simp
    then have "trackedIn ?ind (mm_mapEntity ms) (mkEntity k 0) = Some (cellAt s (tr_position t))"
      using S x assms(3) by simp
    then show ?thesis using passOver_sync_keeps [OF _ assms(2,3)] S by (simp add: x split_beta)
  qed
qed simp

lemma passOver_sync_only:
  assumes "indices_ok s indices" and "0 < s"
    and "trackedIn (snd (passOver (syncEntity transforms s) xs indices)) m e \<noteq> None"
  shows "trackedIn indices m e \<noteq> None \<or> (\<exists>(k, ms) \<in> set xs. e = mkEntity k 0 \<and> mm_mapEntity ms = m)"
  using assms(1,3)
proof (induction xs arbitrary: indices)
  case (Cons x xs)
  obtain k ms where x: "x = (k, ms)" by fastforce
  let ?ind = "snd (syncEntity transforms s (mkEntity k 0) ms indices)"
  note S = syncEntity_spec [OF Cons.prems(1) assms(2), of transforms "mkEntity k 0" ms]
  have "trackedIn ?ind m e \<noteq> None \<or> (\<exists>(k, ms) \<in> set xs. e = mkEntity k 0 \<and> mm_mapEntity ms = m)"
    using Cons.IH [of ?ind] Cons.prems(2) S by (simp add: x split_beta)
  moreover have "trackedIn ?ind m e \<noteq> None \<Longrightarrow> trackedIn indices m e \<noteq> None \<or> (e = mkEntity k 0 \<and> mm_mapEntity ms = m)"
    using S by (auto split: option.splits if_splits)
  ultimately show ?case by (auto simp: x)
qed simp

lemma slot_lookup:
  assumes "cs_inv s"
  shows "(k, c) \<in> set (zip (cs_entities s) (cs_dense s)) \<longleftrightarrow> cs_lookup s (unat k) = Some c"
proof
  assume "(k, c) \<in> set (zip (cs_entities s) (cs_dense s))"
  then show "cs_lookup s (unat k) = Some c"
    using cs_lookup_slot [OF assms] by (auto simp: set_zip)
next
  assume l: "cs_lookup s (unat k) = Some c"
  then have "unat k \<in> unat ` set (cs_entities s)" using cs_dom_lookup [OF assms] by auto
  then obtain i where i: "i < length (cs_dense s)" "k = cs_entities s ! i"
    using cs_invD(1) [OF assms] by (auto simp: in_set_conv_nth word_eq_unat_iff [symmetric])
  then have "c = cs_dense s ! i" using cs_lookup_slot [OF assms i(1)] l by simp
  then show "(k, c) \<in> set (zip (cs_entities s) (cs_dense s))"
    using i cs_invD(1) [OF assms] by (auto simp: set_zip)
qed

lemma id_bound: "cs_inv s \<Longrightarrow> cs_lookup s (unat k) = Some c \<Longrightarrow> entity_id (mkEntity k 0) = k"
  using cs_invD(3) [of s] by (auto simp: cs_lookup_def split: if_splits intro!: entity_id_mkEntity_lt)

lemma ws_Execute_spec:
  assumes "ws_inv sys"
  shows "\<exists>indices. ws_Execute sys = Some (sys\<lparr>ws_spatialIndices := indices\<rparr>)
    \<and> ws_inv (sys\<lparr>ws_spatialIndices := indices\<rparr>)
    \<and> (\<forall>e ms t. entity_version e = 0 \<and> cs_lookup (ws_memberships sys) (eidx e) = Some ms
         \<and> cs_lookup (ws_transforms sys) (eidx e) = Some t \<longrightarrow>
         trackedIn indices (mm_mapEntity ms) e = Some (cellAt (ws_cellSize sys) (tr_position t)))"
proof -
  let ?s = "ws_cellSize sys" and ?M = "ws_memberships sys" and ?T = "ws_transforms sys"
  let ?xs = "zip (cs_entities ?M) (cs_dense ?M)"
  define indices where "indices = snd (passOver (syncEntity ?T ?s) ?xs (ws_spatialIndices sys))"
  have inv: "cs_inv ?T" "cs_inv ?M" "0 < ?s" "indices_ok ?s (ws_spatialIndices sys)"
    "tracks_members ?M (ws_spatialIndices sys)"
    using assms by (auto simp: ws_inv_def)
  note ok = passOver_sync_ok [OF inv(4,3), of ?T ?xs]
  have "fst (passOver (syncEntity ?T ?s) ?xs (ws_spatialIndices sys)) = cs_dense ?M"
    using ok cs_invD(1) [OF inv(2)] by simp
  then have "forEachComponent (syncEntity ?T ?s) (?M, ws_spatialIndices sys) = Some (?M, indices)"
    by (simp add: forEachComponent_pass [OF inv(2)] split_beta indices_def withDense_def)
  then have ex: "ws_Execute sys = Some (sys\<lparr>ws_spatialIndices := indices\<rparr>)"
    by (simp add: ws_Execute_def ws_synchronizePositions_def)
  have "entity_version e = 0 \<and> (\<exists>ms. cs_lookup ?M (eidx e) = Some ms \<and> mm_mapEntity ms = m)"
    if "trackedIn indices m e \<noteq> None" for m e
  proof -
    from passOver_sync_only [OF inv(4,3) that [unfolded indices_def]]
    consider "trackedIn (ws_spatialIndices sys) m e \<noteq> None"
      | k ms where "(k, ms) \<in> set ?xs" "e = mkEntity k 0" "mm_mapEntity ms = m" by auto
    then show ?thesis
    proof cases
      case 1
      then show ?thesis using inv(5) by (simp add: tracks_members_def)
    next
      case 2
      then have "cs_lookup ?M (unat k) = Some ms" using slot_lookup [OF inv(2)] by simp
      then show ?thesis using 2 id_bound [OF inv(2)] by simp
    qed
  qed
  then have "tracks_members ?M indices" by (simp add: tracks_members_def)
  then have "ws_inv (sys\<lparr>ws_spatialIndices := indices\<rparr>)"
    using inv ok by (simp add: ws_inv_def indices_def)
  moreover have "trackedIn indices (mm_mapEntity ms) e = Some (cellAt ?s (tr_position t))"
    if "entity_version e = 0" "cs_lookup ?M (eidx e) = Some ms" "cs_lookup ?T (eidx e) = Some t" for e ms t
  proof -
    have e: "mkEntity (entity_id e) 0 = e" using that(1) mkEntity_id_version [of e] by simp
    have "(entity_id e, ms) \<in> set ?xs" using slot_lookup [OF inv(2)] that(2) by simp
    moreover have "cs_Get ?T (mkEntity (entity_id e) 0) = Some t" using that(3) by (simp add: e cs_Get_lookup)
    ultimately show ?thesis using passOver_sync_tracks [OF inv(4,3), of ?T "entity_id e" t ms ?xs] e by (simp add: indices_def)
  qed
  ultimately show ?thesis using ex by blast
qed

lemma ws_TransferEntity_spec:
  assumes "ws_inv sys" and e: "entity_version e = 0" and "cs_Has (ws_mapInstances sys) target"
    and ms: "cs_lookup (ws_memberships sys) (eidx e) = Some ms" and t: "cs_lookup (ws_transforms sys) (eidx e) = Some t"
  shows "\<exists>sys'. ws_TransferEntity e target dest sys = (TransitionSuccess, sys') \<and> ws_inv sys'
    \<and> cs_lookup (ws_memberships sys') = (cs_lookup (ws_memberships sys))(eidx e \<mapsto> \<lparr>mm_mapEntity = target, mm_zoneId = 0\<rparr>)
    \<and> cs_lookup (ws_transforms sys') = (cs_lookup (ws_transforms sys))(eidx e \<mapsto> t\<lparr>tr_position := dest\<rparr>)
    \<and> trackedIn (ws_spatialIndices sys') target e = Some (cellAt (ws_cellSize sys) dest)
    \<and> (\<forall>m. m \<noteq> target \<longrightarrow> trackedIn (ws_spatialIndices sys') m e = None)"
proof -
  let ?s = "ws_cellSize sys" and ?M = "ws_memberships sys" and ?T = "ws_transforms sys"
  let ?I = "ws_spatialIndices sys" and ?old = "mm_mapEntity ms"
  have inv: "cs_inv ?T" "cs_inv ?M" "0 < ?s" "indices_ok ?s ?I" "tracks_members ?M ?I"
    using assms(1) by (auto simp: ws_inv_def)
  define I1 where "I1 = (case map_of ?I ?old of None \<Rightarrow> ?I | Some si \<Rightarrow> AList.update ?old (si_Remove e si) ?I)"
  have i1: "indices_ok ?s I1"
    using inv(4) si_Remove_spec by (auto simp: I1_def si_Remove_cellSize indices_ok_def update_conv' split: option.splits if_splits)
  have tr1: "trackedIn I1 m x = (if m = ?old \<and> x = e then None else trackedIn ?I m x)" for m x
  proof (cases "map_of ?I ?old")
    case None
    then show ?thesis by (auto simp: I1_def trackedIn_def)
  next
    case (Some si)
    then have "si_inv si" using inv(4) by (auto simp: indices_ok_def)
    then show ?thesis
      using Some si_Remove_spec [of si e] by (auto simp: I1_def trackedIn_update) (auto simp: trackedIn_def)
  qed
  let ?si = "indexFor ?s target I1"
  note F = indexFor_ok [OF i1 inv(3), of target]
  note S = si_Insert_spec [OF F(1), of e dest]
  define I2 where "I2 = AList.update target (si_Insert e dest ?si) I1"
  have i2: "indices_ok ?s I2"
    unfolding I2_def using S F(2) by (intro indices_ok_update [OF i1]) (simp_all add: si_Insert_cellSize)
  have tr2: "trackedIn I2 m x = (if m = target \<and> x = e then Some (cellAt ?s dest) else trackedIn I1 m x)" for m x
    using S F(3) by (auto simp: I2_def trackedIn_update WorldToCell_cellAt [OF inv(3) F(2)])
  have has: "cs_Has ?M e" "cs_Has ?T e" using ms t by (simp_all add: cs_Has_lookup)
  define M' T' where "M' = assignRef e (ms\<lparr>mm_mapEntity := target, mm_zoneId := 0\<rparr>) ?M"
    and "T' = assignRef e (t\<lparr>tr_position := dest\<rparr>) ?T"
  have upd: "ms\<lparr>mm_mapEntity := target, mm_zoneId := 0\<rparr> = \<lparr>mm_mapEntity = target, mm_zoneId = 0\<rparr>" by simp
  have M': "cs_inv M'" "cs_lookup M' = (cs_lookup ?M)(eidx e \<mapsto> \<lparr>mm_mapEntity = target, mm_zoneId = 0\<rparr>)"
    unfolding M'_def upd using assignRef_inv [OF inv(2)] assignRef_lookup [OF inv(2) has(1)] by blast+
  have T': "cs_inv T'" "cs_lookup T' = (cs_lookup ?T)(eidx e \<mapsto> t\<lparr>tr_position := dest\<rparr>)"
    unfolding T'_def using assignRef_inv [OF inv(1)] assignRef_lookup [OF inv(1) has(2)] by blast+
  have tf: "ws_TransferEntity e target dest sys
      = (TransitionSuccess, sys\<lparr>ws_transforms := T', ws_memberships := M', ws_spatialIndices := I2\<rparr>)"
    using assms(3) ms t by (simp add: ws_TransferEntity_def cs_Get_lookup Let_def I1_def I2_def M'_def T'_def)
  have other: "trackedIn I2 m e = None" if "m \<noteq> target" for m
    using that tr2 tr1 inv(5) ms by (force simp: tracks_members_def)
  have "entity_version x = 0 \<and> (\<exists>ms. cs_lookup M' (eidx x) = Some ms \<and> mm_mapEntity ms = m)"
    if "trackedIn I2 m x \<noteq> None" for m x
  proof (cases "x = e")
    case True
    then have "m = target" using other [of m] that by (cases "m = target") simp_all
    then show ?thesis using True e M'(2) by simp
  next
    case False
    then have tx: "trackedIn ?I m x \<noteq> None" using that tr2 tr1 by (auto split: if_splits)
    then have "entity_version x = 0" using inv(5) unfolding tracks_members_def by blast
    then have "eidx x \<noteq> eidx e" using False e entity_eq_iff [of x e] by (auto simp: word_eq_unat_iff)
    then show ?thesis using tx inv(5) M'(2) unfolding tracks_members_def by simp
  qed
  then have "ws_inv (sys\<lparr>ws_transforms := T', ws_memberships := M', ws_spatialIndices := I2\<rparr>)"
    using inv(3) i2 M'(1) T'(1) by (simp add: ws_inv_def tracks_members_def)
  then show ?thesis using tf M'(2) T'(2) tr2 other by simp
qed

lemma ws_QueryRadius_set:
  assumes "ws_inv sys"
  shows "distinct (ws_QueryRadius m center radius sys)
    \<and> (e \<in> set (ws_QueryRadius m center radius sys) \<longrightarrow>
        (\<exists>t. cs_lookup (ws_transforms sys) (eidx e) = Some t \<and> withinRadius (tr_position t) center radius)
        \<and> trackedIn (ws_spatialIndices sys) m e \<noteq> None)
    \<and> (\<forall>t. 0 < radius \<and> trackedIn (ws_spatialIndices sys) m e = Some (cellAt (ws_cellSize sys) (tr_position t))
        \<and> cs_lookup (ws_transforms sys) (eidx e) = Some t \<and> withinRadius (tr_position t) center radius
        \<and> f32 (v_x (tr_position t)) = v_x (tr_position t) \<and> f32 (v_z (tr_position t)) = v_z (tr_position t)
        \<and> \<bar>v_x (tr_position t) - v_x center\<bar> \<le> radius \<and> \<bar>v_z (tr_position t) - v_z center\<bar> \<le> radius
        \<longrightarrow> e \<in> set (ws_QueryRadius m center radius sys))"
proof (cases "map_of (ws_spatialIndices sys) m")
  case None
  then show ?thesis by (simp add: ws_QueryRadius_def trackedIn_def)
next
  case (Some si)
  let ?s = "ws_cellSize sys"
  have inv: "0 < ?s" "si_inv si" "si_cellSize si = ?s"
    using assms Some by (auto simp: ws_inv_def indices_ok_def)
  note Q = si_QueryRadius_set [OF inv(2), of center radius]
  have tr: "trackedIn (ws_spatialIndices sys) m e = cellOf si e" by (simp add: trackedIn_def Some)
  have "e \<in> set (si_QueryRadius center radius si)"
    if "0 < radius" "cellOf si e = Some (cellAt ?s pos)" "f32 (v_x pos) = v_x pos" "f32 (v_z pos) = v_z pos"
      "\<bar>v_x pos - v_x center\<bar> \<le> radius" "\<bar>v_z pos - v_z center\<bar> \<le> radius" for pos
    using that Q coordinate_in_range [OF inv(1), of "v_x pos" "v_x center" radius]
      coordinate_in_range [OF inv(1), of "v_z pos" "v_z center" radius]
    by (simp add: inv(3) WorldToCell_cellAt [OF inv(1,3), symmetric] WorldToCell_def not_le)
  moreover have "e \<in> set (si_QueryRadius center radius si) \<Longrightarrow> cellOf si e \<noteq> None" using Q by (auto split: if_splits)
  ultimately show ?thesis
    using conjunct1 [OF Q] by (auto simp: ws_QueryRadius_def Some tr cs_Get_lookup split: option.splits)
qed

text \<open>The tick tracks an entity under its handle with version 0. A transfer by the handle of a recycled
  slot (version not 0) does not find that entry, so the entity stays in the index of the map it left.\<close>

lemma transfer_leaves_ghost:
  assumes "ws_inv sys" and "entity_version e \<noteq> 0" and "cs_Has (ws_mapInstances sys) target"
    and "cs_lookup (ws_memberships sys) (eidx e) = Some ms" and "cs_lookup (ws_transforms sys) (eidx e) = Some t"
    and "target \<noteq> mm_mapEntity ms" and "trackedIn (ws_spatialIndices sys) (mm_mapEntity ms) x \<noteq> None"
    and "entity_version x = 0"
  shows "trackedIn (ws_spatialIndices (snd (ws_TransferEntity e target dest sys))) (mm_mapEntity ms) x \<noteq> None"
proof -
  obtain si where si: "map_of (ws_spatialIndices sys) (mm_mapEntity ms) = Some si" "cellOf si x \<noteq> None"
    using assms(7) by (auto simp: trackedIn_def split: bind_splits)
  have "si_inv si" using assms(1) si(1) by (auto simp: ws_inv_def indices_ok_def)
  moreover have "x \<noteq> e" using assms(2,8) by auto
  ultimately have "cellOf (si_Remove e si) x \<noteq> None" using si_Remove_spec [of si e] si(2) by simp
  then show ?thesis
    using assms(3-6) si(1) by (simp add: ws_TransferEntity_def cs_Get_lookup Let_def trackedIn_update)
qed

section \<open>A sample world\<close>

text \<open>Entity 0 stands at (3, 0, 4) on the map with handle (0, 5).\<close>

definition demoTransform :: Transform where
  "demoTransform = \<lparr>tr_position = \<lparr>v_x = 3, v_y = 0, v_z = 4\<rparr>, tr_rotation = IdentityRotation, tr_scale = One\<rparr>"

definition demoWorld :: WorldSystem where
  "demoWorld = \<lparr>ws_transforms = singlePool demoTransform,
     ws_memberships = singlePool \<lparr>mm_mapEntity = mkEntity 0 5, mm_zoneId = 1\<rparr>,
     ws_mapInstances = singlePool \<lparr>mi_mapId = 1, mi_instanceId = 1, mi_type = OpenWorld\<rparr>,
     ws_visibilityRanges = emptyStorage, ws_zones = emptyStorage, ws_spatialIndices = [], ws_cellSize = 32\<rparr>"

lemma demoWorld_inv: "ws_inv demoWorld"
  by (simp add: ws_inv_def demoWorld_def indices_ok_def tracks_members_def trackedIn_def)

section \<open>Properties\<close>

text \<open>The spatial indices follow the maps. From a world whose indices are well-formed and track only
  members of their map: a tick succeeds and a transfer of an entity (by its handle of version 0) to
  an existing map succeeds when the entity has a membership and a transform, and reports the missing
  map or the missing entity otherwise without changing anything. Both keep the indices
  well-formed and tracking only members; the transfer sets position and membership of that entity
  alone and leaves it in the target's index only, at the destination's cell.\<close>

theorem world_transfer_moves_entity:
  assumes "ws_inv sys" and "entity_version e = 0"
  shows "(\<exists>sys'. ws_Execute sys = Some sys' \<and> ws_inv sys')
    \<and> (let (res, sys') = ws_TransferEntity e target dest sys in
        if \<not> cs_Has (ws_mapInstances sys) target then res = InvalidMap \<and> sys' = sys
        else if \<not> cs_Has (ws_memberships sys) e \<or> \<not> cs_Has (ws_transforms sys) e then res = EntityNotFound \<and> sys' = sys
        else res = TransitionSuccess \<and> ws_inv sys'
          \<and> map_option tr_position (cs_lookup (ws_transforms sys') (eidx e)) = Some dest
          \<and> map_option mm_mapEntity (cs_lookup (ws_memberships sys') (eidx e)) = Some target
          \<and> (\<forall>k. k \<noteq> eidx e \<longrightarrow> cs_lookup (ws_transforms sys') k = cs_lookup (ws_transforms sys) k
               \<and> cs_lookup (ws_memberships sys') k = cs_lookup (ws_memberships sys) k)
          \<and> (\<forall>m. trackedIn (ws_spatialIndices sys') m e
               = (if m = target then Some (cellAt (ws_cellSize sys) dest) else None)))"
proof -
  have ex: "\<exists>sys'. ws_Execute sys = Some sys' \<and> ws_inv sys'" using ws_Execute_spec [OF assms(1)] by blast
  show ?thesis
  proof (cases "cs_Has (ws_mapInstances sys) target \<and> cs_Has (ws_memberships sys) e \<and> cs_Has (ws_transforms sys) e")
    case True
    then obtain ms t where "cs_lookup (ws_memberships sys) (eidx e) = Some ms" "cs_lookup (ws_transforms sys) (eidx e) = Some t"
      by (auto simp: cs_Has_lookup)
    then show ?thesis
      using ex True ws_TransferEntity_spec [OF assms, of target ms t dest] by (auto simp: split_beta)
  next
    case False
    then show ?thesis
      using ex by (auto simp: ws_TransferEntity_def cs_Get_lookup cs_Has_lookup split: option.splits)
  qed
qed

theorem world_transfer_moves_entity_witness:
  "fst (ws_TransferEntity (mkEntity 0 0) (mkEntity 0 7) Zero demoWorld) = TransitionSuccess
   \<and> trackedIn (ws_spatialIndices (snd (ws_TransferEntity (mkEntity 0 0) (mkEntity 0 7) Zero demoWorld))) (mkEntity 0 7) (mkEntity 0 0)
     = Some (cellAt 32 Zero)"
proof -
  have "cs_Has (ws_mapInstances demoWorld) (mkEntity 0 7)" "cs_Has (ws_memberships demoWorld) (mkEntity 0 0)"
    "cs_Has (ws_transforms demoWorld) (mkEntity 0 0)" "ws_cellSize demoWorld = 32"
    by (simp_all add: cs_Has_lookup demoWorld_def)
  then show ?thesis
    using world_transfer_moves_entity [OF demoWorld_inv, of "mkEntity 0 0" "mkEntity 0 7" Zero]
    by (simp add: split_beta)
qed



end
