(* ===== verification/Auth_Stores.thy ===== *)
theory Auth_Stores
  imports Auth_Types
begin

text \<open>
  The stores behind the authentication server: the sliding-window rate limiter
  (\<^verbatim>\<open>rate_limiter.cpp\<close>), the blacklist of revoked access tokens (\<^verbatim>\<open>token_blacklist.cpp\<close>), the
  refresh-token store (\<^verbatim>\<open>token_store.cpp\<close>) and the user repository (\<^verbatim>\<open>user_repository.cpp\<close>). The
  interfaces \<^verbatim>\<open>ITokenStore\<close> and \<^verbatim>\<open>IUserRepository\<close> are locales, interpreted on the in-memory
  implementations. Every method holds the store's mutex for its whole body; clock readings are
  arguments.
\<close>

section \<open>Rate limiter\<close>

record RateLimiter =
  rl_maxAttempts :: u32
  rl_window :: int
  rl_attempts :: "(string, int list) umap"

definition mkRateLimiter :: "u32 \<Rightarrow> int \<Rightarrow> RateLimiter" where
  "mkRateLimiter maxAttempts window = \<lparr>rl_maxAttempts = maxAttempts, rl_window = window, rl_attempts = []\<rparr>"

definition purgeExpired :: "int \<Rightarrow> int \<Rightarrow> int list \<Rightarrow> int list" where
  "purgeExpired now window timestamps = dropWhile (\<lambda>t. t < now - window) timestamps"

text \<open>\<open>now\<close> is the clock reading of \<^verbatim>\<open>purgeExpired\<close>, \<open>now'\<close> the one that is recorded.\<close>

definition rl_allow :: "string \<Rightarrow> int \<Rightarrow> int \<Rightarrow> RateLimiter \<Rightarrow> bool \<times> RateLimiter" where
  "rl_allow key now now' rl =
    (let timestamps = (case map_of (rl_attempts rl) key of Some ts \<Rightarrow> ts | None \<Rightarrow> []);
         timestamps = purgeExpired now (rl_window rl) timestamps
     in if length timestamps \<ge> unat (rl_maxAttempts rl)
        then (False, rl\<lparr>rl_attempts := AList.update key timestamps (rl_attempts rl)\<rparr>)
        else (True, rl\<lparr>rl_attempts := AList.update key (timestamps @ [now']) (rl_attempts rl)\<rparr>))"

definition rl_remaining :: "string \<Rightarrow> int \<Rightarrow> RateLimiter \<Rightarrow> u32" where
  "rl_remaining key now rl =
    (case map_of (rl_attempts rl) key of
       None \<Rightarrow> rl_maxAttempts rl
     | Some timestamps \<Rightarrow>
         let used = (of_nat (length (purgeExpired now (rl_window rl) timestamps)) :: u32)
         in if used \<ge> rl_maxAttempts rl then 0 else rl_maxAttempts rl - used)"

definition rl_reset :: "string \<Rightarrow> RateLimiter \<Rightarrow> RateLimiter" where
  "rl_reset key rl = rl\<lparr>rl_attempts := AList.delete key (rl_attempts rl)\<rparr>"

section \<open>Blacklist of access tokens\<close>

record TokenBlacklist =
  bl_cleanupInterval :: int
  bl_lastCleanup :: int
  bl_entries :: "(string, int) umap"

definition mkTokenBlacklist :: "int \<Rightarrow> int \<Rightarrow> TokenBlacklist" where
  "mkTokenBlacklist cleanupInterval now =
    \<lparr>bl_cleanupInterval = cleanupInterval, bl_lastCleanup = now, bl_entries = []\<rparr>"

definition bl_revoke :: "string \<Rightarrow> int \<Rightarrow> int \<Rightarrow> TokenBlacklist \<Rightarrow> TokenBlacklist" where
  "bl_revoke jti expiresAt now bl =
    (let entries = emplace jti expiresAt (bl_entries bl)
     in if now - bl_lastCleanup bl \<ge> bl_cleanupInterval bl
        then bl\<lparr>bl_lastCleanup := now, bl_entries := filter (\<lambda>e. \<not> snd e \<le> now) entries\<rparr>
        else bl\<lparr>bl_entries := entries\<rparr>)"

definition bl_isRevoked :: "TokenBlacklist \<Rightarrow> string \<Rightarrow> bool" where
  "bl_isRevoked bl jti \<longleftrightarrow> map_of (bl_entries bl) jti \<noteq> None"

definition bl_cleanup :: "int \<Rightarrow> TokenBlacklist \<Rightarrow> nat \<times> TokenBlacklist" where
  "bl_cleanup now bl =
    (length (filter (\<lambda>e. snd e \<le> now) (bl_entries bl)),
     bl\<lparr>bl_lastCleanup := now, bl_entries := filter (\<lambda>e. \<not> snd e \<le> now) (bl_entries bl)\<rparr>)"

definition bl_size :: "TokenBlacklist \<Rightarrow> nat" where
  "bl_size bl = length (bl_entries bl)"

section \<open>Refresh tokens\<close>

type_synonym TokenStore = "(string, RefreshTokenRecord) umap"

definition ts_store :: "RefreshTokenRecord \<Rightarrow> TokenStore \<Rightarrow> TokenStore" where
  "ts_store record tokens = emplace (rt_token record) record tokens"

definition ts_find :: "TokenStore \<Rightarrow> string \<Rightarrow> RefreshTokenRecord option" where
  "ts_find tokens token = map_of tokens token"

definition ts_revoke :: "string \<Rightarrow> TokenStore \<Rightarrow> bool \<times> TokenStore" where
  "ts_revoke token tokens =
    (case map_of tokens token of
       None \<Rightarrow> (False, tokens)
     | Some record \<Rightarrow> (True, AList.update token (record\<lparr>rt_revoked := True\<rparr>) tokens))"

definition ts_revokeAllForUser :: "u64 \<Rightarrow> TokenStore \<Rightarrow> TokenStore" where
  "ts_revokeAllForUser userId tokens =
    map (\<lambda>(key, record). (key, if rt_userId record = userId then record\<lparr>rt_revoked := True\<rparr> else record)) tokens"

definition ts_removeExpired :: "int \<Rightarrow> TokenStore \<Rightarrow> TokenStore" where
  "ts_removeExpired now tokens = filter (\<lambda>(key, record). \<not> (rt_expiresAt record \<le> now \<or> rt_revoked record)) tokens"

section \<open>Users\<close>

record UserRepository =
  up_users :: "(u64, UserRecord) umap"
  up_nextId :: u64

definition mkUserRepository :: UserRepository where
  "mkUserRepository = \<lparr>up_users = [], up_nextId = 1\<rparr>"

definition up_findById :: "UserRepository \<Rightarrow> u64 \<Rightarrow> UserRecord option" where
  "up_findById up i = map_of (up_users up) i"

definition up_findByUsername :: "UserRepository \<Rightarrow> string \<Rightarrow> UserRecord option" where
  "up_findByUsername up username = map_option snd (find (\<lambda>(i, user). ur_username user = username) (up_users up))"

definition up_findByEmail :: "UserRepository \<Rightarrow> string \<Rightarrow> UserRecord option" where
  "up_findByEmail up email = map_option snd (find (\<lambda>(i, user). ur_email user = email) (up_users up))"

definition up_create :: "UserRecord \<Rightarrow> int \<Rightarrow> UserRepository \<Rightarrow> u64 \<times> UserRepository" where
  "up_create record now up =
    (let i = up_nextId up
     in (i, up\<lparr>up_nextId := i + 1,
              up_users := emplace i (record\<lparr>ur_id := i, ur_createdAt := now, ur_updatedAt := now\<rparr>) (up_users up)\<rparr>))"

definition up_update :: "UserRecord \<Rightarrow> int \<Rightarrow> UserRepository \<Rightarrow> bool \<times> UserRepository" where
  "up_update record now up =
    (case map_of (up_users up) (ur_id record) of
       None \<Rightarrow> (False, up)
     | Some old \<Rightarrow> (True, up\<lparr>up_users := AList.update (ur_id record) (record\<lparr>ur_updatedAt := now\<rparr>) (up_users up)\<rparr>))"

section \<open>Maps\<close>

lemma map_of_map_snd: "map_of (map (\<lambda>(k, v). (k, f v)) m) x = map_option f (map_of m x)"
  by (induction m) auto

section \<open>The refresh-token store as an interface\<close>

text \<open>What \<^verbatim>\<open>ITokenStore\<close> promises: \<open>lookup\<close> reads the record of a token, \<open>add\<close> keeps an existing
  record, the two revocations set the flag of one token or of all tokens of a user.\<close>

locale token_store =
  fixes lookup :: "'s \<Rightarrow> string \<Rightarrow> RefreshTokenRecord option"
    and add :: "RefreshTokenRecord \<Rightarrow> 's \<Rightarrow> 's"
    and revoke :: "string \<Rightarrow> 's \<Rightarrow> bool \<times> 's"
    and revokeUser :: "u64 \<Rightarrow> 's \<Rightarrow> 's"
  assumes lookup_add: "lookup (add r s) t = (if t = rt_token r \<and> lookup s t = None then Some r else lookup s t)"
    and lookup_revoke: "lookup (snd (revoke t s)) u =
          (if u = t then map_option (\<lambda>r. r\<lparr>rt_revoked := True\<rparr>) (lookup s t) else lookup s u)"
    and revoke_result: "fst (revoke t s) \<longleftrightarrow> lookup s t \<noteq> None"
    and lookup_revokeUser: "lookup (revokeUser uid s) t =
          map_option (\<lambda>r. if rt_userId r = uid then r\<lparr>rt_revoked := True\<rparr> else r) (lookup s t)"
begin

definition dead :: "'s \<Rightarrow> string \<Rightarrow> bool" where
  "dead s t \<longleftrightarrow> (\<exists>r. lookup s t = Some r \<and> rt_revoked r)"

lemma dead_add: "dead s t \<Longrightarrow> dead (add r s) t"
  by (auto simp: dead_def lookup_add)

lemma dead_revoke: "dead s t \<Longrightarrow> dead (snd (revoke u s)) t"
  by (auto simp: dead_def lookup_revoke)

lemma dead_revokeUser: "dead s t \<Longrightarrow> dead (revokeUser uid s) t"
  by (cases "lookup s t") (auto simp: dead_def lookup_revokeUser)

lemma revoke_dead: "lookup s t \<noteq> None \<Longrightarrow> dead (snd (revoke t s)) t"
  by (auto simp: dead_def lookup_revoke)

lemma revokeUser_dead: "lookup s t = Some r \<Longrightarrow> rt_userId r = uid \<Longrightarrow> dead (revokeUser uid s) t"
  by (auto simp: dead_def lookup_revokeUser)

text \<open>No operation changes whose token it is or when it expires.\<close>

definition owner :: "'s \<Rightarrow> string \<Rightarrow> (u64 \<times> int) option" where
  "owner s t = map_option (\<lambda>r. (rt_userId r, rt_expiresAt r)) (lookup s t)"

lemma owner_kept:
  "owner s t = Some x \<Longrightarrow> owner (add r s) t = Some x"
  "owner s t = Some x \<Longrightarrow> owner (snd (revoke u s)) t = Some x"
  "owner s t = Some x \<Longrightarrow> owner (revokeUser uid s) t = Some x"
  by (cases "lookup s t"; auto simp: owner_def lookup_add lookup_revoke lookup_revokeUser)+

end

interpretation tks: token_store ts_find ts_store ts_revoke ts_revokeAllForUser
proof
  show "ts_find (ts_store r s) t = (if t = rt_token r \<and> ts_find s t = None then Some r else ts_find s t)" for r s t
    by (auto simp: ts_find_def ts_store_def map_of_emplace)
  show "ts_find (snd (ts_revoke t s)) u =
      (if u = t then map_option (\<lambda>r. r\<lparr>rt_revoked := True\<rparr>) (ts_find s t) else ts_find s u)" for t s u
    by (auto simp: ts_find_def ts_revoke_def update_conv' split: option.splits)
  show "fst (ts_revoke t s) \<longleftrightarrow> ts_find s t \<noteq> None" for t s
    by (auto simp: ts_find_def ts_revoke_def split: option.splits)
  show "ts_find (ts_revokeAllForUser uid s) t =
      map_option (\<lambda>r. if rt_userId r = uid then r\<lparr>rt_revoked := True\<rparr> else r) (ts_find s t)" for uid s t
    by (simp add: ts_find_def ts_revokeAllForUser_def map_of_map_snd)
qed

section \<open>The user repository as an interface\<close>

text \<open>What \<^verbatim>\<open>IUserRepository\<close> promises of a repository in state \<open>s\<close> with \<open>ok s\<close>: identifiers are
  the records' own, the searches find some user with the name or address whenever there is one, and
  \<open>create\<close> adds one record under an unused identifier, as long as \<open>room\<close> is left.\<close>

locale user_repository =
  fixes ok :: "'s \<Rightarrow> bool"
    and room :: "'s \<Rightarrow> bool"
    and byId :: "'s \<Rightarrow> u64 \<Rightarrow> UserRecord option"
    and byName :: "'s \<Rightarrow> string \<Rightarrow> UserRecord option"
    and byEmail :: "'s \<Rightarrow> string \<Rightarrow> UserRecord option"
    and create :: "UserRecord \<Rightarrow> int \<Rightarrow> 's \<Rightarrow> u64 \<times> 's"
  assumes id_own: "ok s \<Longrightarrow> byId s i = Some r \<Longrightarrow> ur_id r = i"
    and name_found: "ok s \<Longrightarrow> byName s n = Some r \<Longrightarrow> ur_username r = n \<and> byId s (ur_id r) = Some r"
    and name_none: "ok s \<Longrightarrow> byName s n = None \<Longrightarrow> byId s i = Some r \<Longrightarrow> ur_username r \<noteq> n"
    and email_none: "ok s \<Longrightarrow> byEmail s e = None \<Longrightarrow> byId s i = Some r \<Longrightarrow> ur_email r \<noteq> e"
    and create_ok: "ok s \<Longrightarrow> room s \<Longrightarrow> ok (snd (create r now s))"
    and create_unused: "ok s \<Longrightarrow> room s \<Longrightarrow> byId s (fst (create r now s)) = None"
    and create_lookup: "ok s \<Longrightarrow> room s \<Longrightarrow> byId (snd (create r now s)) i =
          (if i = fst (create r now s)
           then Some (r\<lparr>ur_id := fst (create r now s), ur_createdAt := now, ur_updatedAt := now\<rparr>)
           else byId s i)"
begin

text \<open>No two users share a name or an address.\<close>

definition unique :: "'s \<Rightarrow> bool" where
  "unique s \<longleftrightarrow> (\<forall>i j r r'. byId s i = Some r \<longrightarrow> byId s j = Some r' \<longrightarrow>
     ur_username r = ur_username r' \<or> ur_email r = ur_email r' \<longrightarrow> i = j)"

lemma create_unique:
  assumes "ok s" "room s" "unique s" "byName s (ur_username r) = None" "byEmail s (ur_email r) = None"
  shows "unique (snd (create r now s))"
  unfolding unique_def
proof (intro allI impI)
  fix i j a b
  assume a: "byId (snd (create r now s)) i = Some a" "byId (snd (create r now s)) j = Some b"
    "ur_username a = ur_username b \<or> ur_email a = ur_email b"
  note old = name_none [OF assms(1,4)] email_none [OF assms(1,5)]
  show "i = j"
  proof (cases "i = fst (create r now s) \<longleftrightarrow> j = fst (create r now s)")
    case True
    then show ?thesis
      using a assms(3) create_lookup [OF assms(1,2)] unfolding unique_def by (metis (no_types, lifting))
  next
    case False
    then have "\<exists>k x. byId s k = Some x \<and> (ur_username x = ur_username r \<or> ur_email x = ur_email r)"
      using a by (cases "i = fst (create r now s)"; auto simp: create_lookup [OF assms(1,2)]; metis)
    then show ?thesis using old by blast
  qed
qed

lemma name_by_id: "ok s \<Longrightarrow> unique s \<Longrightarrow> byId s i = Some r \<Longrightarrow> byName s (ur_username r) = Some r"
proof -
  assume a: "ok s" "unique s" "byId s i = Some r"
  obtain r' where r': "byName s (ur_username r) = Some r'"
    using name_none [OF a(1) _ a(3)] by (cases "byName s (ur_username r)") auto
  have "ur_username r' = ur_username r" "byId s (ur_id r') = Some r'"
    using name_found [OF a(1) r'] by simp_all
  then have "ur_id r' = i" using a(2,3) unfolding unique_def by metis
  then show ?thesis using r' a(3) \<open>byId s (ur_id r') = Some r'\<close> by simp
qed

end

definition up_ok :: "UserRepository \<Rightarrow> bool" where
  "up_ok up \<longleftrightarrow> umap_wf (up_users up) \<and>
     (\<forall>(i, r) \<in> set (up_users up). ur_id r = i \<and> unat i < unat (up_nextId up))"

definition up_room :: "UserRepository \<Rightarrow> bool" where
  "up_room up \<longleftrightarrow> unat (up_nextId up) + 1 < 2 ^ 64"

lemma find_snd_Some:
  "find (\<lambda>(i, r). P r) m = Some (i, r) \<Longrightarrow> (i, r) \<in> set m \<and> P r"
  by (auto simp: find_Some_iff) (metis nth_mem)

interpretation users: user_repository up_ok up_room up_findById up_findByUsername up_findByEmail up_create
proof
  fix s i r n e now
  assume ok: "up_ok s"
  then have wf: "umap_wf (up_users s)" by (simp add: up_ok_def)
  show "up_findById s i = Some r \<Longrightarrow> ur_id r = i"
    using ok by (auto simp: up_findById_def up_ok_def dest: map_of_SomeD)
  show "up_findByUsername s n = Some r \<Longrightarrow> ur_username r = n \<and> up_findById s (ur_id r) = Some r"
    using ok wf by (auto simp: up_findByUsername_def up_findById_def up_ok_def umap_mem_iff [symmetric] dest!: find_snd_Some)
  show "up_findByUsername s n = None \<Longrightarrow> up_findById s i = Some r \<Longrightarrow> ur_username r \<noteq> n"
    by (auto simp: up_findByUsername_def up_findById_def find_None_iff dest: map_of_SomeD)
  show "up_findByEmail s e = None \<Longrightarrow> up_findById s i = Some r \<Longrightarrow> ur_email r \<noteq> e"
    by (auto simp: up_findByEmail_def up_findById_def find_None_iff dest: map_of_SomeD)
  assume room: "up_room s"
  then have n: "unat (up_nextId s + 1) = unat (up_nextId s) + 1"
    by (intro unat_plus_1) (simp add: up_room_def)
  have new: "map_of (up_users s) (up_nextId s) = None"
    using ok by (auto simp: up_ok_def map_of_eq_None_iff)
  then show "up_findById s (fst (up_create r now s)) = None"
    by (simp add: up_findById_def up_create_def Let_def)
  show "up_findById (snd (up_create r now s)) i =
      (if i = fst (up_create r now s)
       then Some (r\<lparr>ur_id := fst (up_create r now s), ur_createdAt := now, ur_updatedAt := now\<rparr>)
       else up_findById s i)"
    using new by (simp add: up_findById_def up_create_def Let_def map_of_emplace)
  let ?r = "r\<lparr>ur_id := up_nextId s, ur_createdAt := now, ur_updatedAt := now\<rparr>"
  have "set (emplace (up_nextId s) ?r (up_users s)) = insert (up_nextId s, ?r) (set (up_users s))"
    using new by (auto simp: emplace_def umap_mem_iff [OF wf] umap_mem_iff [OF umap_wf_update [OF wf]] update_conv' split: if_splits)
  then show "up_ok (snd (up_create r now s))"
    using ok n unfolding up_ok_def up_create_def Let_def by fastforce
qed

section \<open>The rate limiter refines a log of all attempts\<close>

text \<open>Reference: the log keeps every allowed attempt of a key since its last reset, and an attempt is
  allowed when fewer than the maximum of them lie in the window that ends now.\<close>

type_synonym attempt_log = "string \<Rightarrow> int list"

definition recent :: "int \<Rightarrow> int \<Rightarrow> int list \<Rightarrow> int list" where
  "recent now window ts = filter (\<lambda>t. now - window \<le> t) ts"

datatype rl_call = Attempt string int int | Reset string

fun log_call :: "u32 \<Rightarrow> int \<Rightarrow> rl_call \<Rightarrow> attempt_log \<Rightarrow> bool \<times> attempt_log" where
  "log_call maxAttempts window (Attempt key now now') log =
    (if length (recent now window (log key)) < unat maxAttempts
     then (True, log(key := log key @ [now'])) else (False, log))"
| "log_call maxAttempts window (Reset key) log = (True, log(key := []))"

fun rl_do :: "rl_call \<Rightarrow> RateLimiter \<Rightarrow> bool \<times> RateLimiter" where
  "rl_do (Attempt key now now') rl = rl_allow key now now' rl"
| "rl_do (Reset key) rl = (True, rl_reset key rl)"

text \<open>The results of a sequence of calls, and the state after it.\<close>

fun results :: "('c \<Rightarrow> 's \<Rightarrow> bool \<times> 's) \<Rightarrow> 'c list \<Rightarrow> 's \<Rightarrow> bool list \<times> 's" where
  "results f [] s = ([], s)"
| "results f (c # cs) s = (case f c s of (b, s') \<Rightarrow> case results f cs s' of (bs, s'') \<Rightarrow> (b # bs, s''))"

fun clock_ok :: "int \<Rightarrow> rl_call list \<Rightarrow> bool" where
  "clock_ok t [] = True"
| "clock_ok t (Attempt key now now' # cs) \<longleftrightarrow> t \<le> now \<and> now \<le> now' \<and> clock_ok now' cs"
| "clock_ok t (Reset key # cs) \<longleftrightarrow> clock_ok t cs"

definition attemptsOf :: "RateLimiter \<Rightarrow> string \<Rightarrow> int list" where
  "attemptsOf rl key = (case map_of (rl_attempts rl) key of Some ts \<Rightarrow> ts | None \<Rightarrow> [])"

definition log_rel :: "int \<Rightarrow> RateLimiter \<Rightarrow> attempt_log \<Rightarrow> bool" where
  "log_rel t rl log \<longleftrightarrow> (\<forall>key. sorted (log key) \<and> (\<forall>x\<in>set (log key). x \<le> t) \<and>
     (\<exists>c \<le> t. attemptsOf rl key = recent c (rl_window rl) (log key)))"

lemma log_rel_mono: "log_rel t rl log \<Longrightarrow> t \<le> t' \<Longrightarrow> log_rel t' rl log"
  unfolding log_rel_def by (meson order_trans)

lemma purge_recent:
  assumes "sorted ts" "c \<le> now"
  shows "purgeExpired now w (recent c w ts) = recent now w ts"
proof -
  have "dropWhile (\<lambda>t. t < b) xs = filter (\<lambda>t. b \<le> t) xs" if "sorted xs" for b :: int and xs
    using that
  proof (induction xs)
    case (Cons x xs)
    then have "b \<le> x \<Longrightarrow> filter (\<lambda>t. b \<le> t) xs = xs" by (intro filter_True) auto
    with Cons show ?case by auto
  qed simp
  moreover have "filter (\<lambda>t. now - w \<le> t) (filter (\<lambda>t. c - w \<le> t) ts) = filter (\<lambda>t. now - w \<le> t) ts"
    using assms(2) by (auto simp: filter_filter intro!: filter_cong)
  ultimately show ?thesis
    using assms(1) by (simp add: purgeExpired_def recent_def sorted_wrt_filter)
qed

lemma recent_snoc: "now \<le> now' \<Longrightarrow> 0 \<le> w \<Longrightarrow> recent now w (ts @ [now']) = recent now w ts @ [now']"
  by (simp add: recent_def)

lemma rl_window_kept [simp]:
  "rl_window (snd (rl_do c rl)) = rl_window rl" "rl_maxAttempts (snd (rl_do c rl)) = rl_maxAttempts rl"
  by (cases c; simp add: rl_allow_def rl_reset_def Let_def)+

lemma rl_allow_refines:
  assumes rel: "log_rel t rl log" and w: "0 \<le> rl_window rl" and time: "t \<le> now" "now \<le> now'"
  shows "fst (rl_allow key now now' rl) = fst (log_call (rl_maxAttempts rl) (rl_window rl) (Attempt key now now') log)"
    "log_rel now' (snd (rl_allow key now now' rl))
       (snd (log_call (rl_maxAttempts rl) (rl_window rl) (Attempt key now now') log))"
proof -
  obtain c where c: "c \<le> t" "attemptsOf rl key = recent c (rl_window rl) (log key)" "sorted (log key)"
    "\<forall>x\<in>set (log key). x \<le> t"
    using rel unfolding log_rel_def by blast
  have p: "purgeExpired now (rl_window rl) (attemptsOf rl key) = recent now (rl_window rl) (log key)"
    using purge_recent [OF c(3), of c now] c time by simp
  then show "fst (rl_allow key now now' rl) = fst (log_call (rl_maxAttempts rl) (rl_window rl) (Attempt key now now') log)"
    by (simp add: rl_allow_def attemptsOf_def Let_def)
  define rl' log' where "rl' = snd (rl_allow key now now' rl)"
    and "log' = snd (log_call (rl_maxAttempts rl) (rl_window rl) (Attempt key now now') log)"
  have other: "attemptsOf rl' k = attemptsOf rl k" "log' k = log k" if "k \<noteq> key" for k
    using that by (auto simp: rl'_def log'_def rl_allow_def attemptsOf_def Let_def update_conv')
  have same: "attemptsOf rl' key = recent now (rl_window rl) (log' key)" "sorted (log' key)" "\<forall>x\<in>set (log' key). x \<le> now'"
    using p c(3,4) time w
    by (auto simp: rl'_def log'_def rl_allow_def attemptsOf_def Let_def update_conv' recent_snoc sorted_append)
  have "rl_window rl' = rl_window rl" using rl_window_kept(1) [of "Attempt key now now'" rl] by (simp add: rl'_def)
  then show "log_rel now' rl' log'"
    using log_rel_mono [OF rel, of now'] time other same unfolding log_rel_def by (metis order_trans)
qed

lemma rl_reset_refines: "log_rel t rl log \<Longrightarrow> log_rel t (rl_reset key rl) (log(key := []))"
proof -
  assume rel: "log_rel t rl log"
  have "attemptsOf (rl_reset key rl) k = (if k = key then [] else attemptsOf rl k)" for k
    by (simp add: attemptsOf_def rl_reset_def delete_conv')
  moreover have "rl_window (rl_reset key rl) = rl_window rl" by (simp add: rl_reset_def)
  ultimately show ?thesis using rel by (auto simp: log_rel_def recent_def)
qed

lemma rl_refines_log:
  "log_rel t rl log \<Longrightarrow> clock_ok t calls \<Longrightarrow> 0 \<le> rl_window rl \<Longrightarrow>
   fst (results rl_do calls rl) = fst (results (log_call (rl_maxAttempts rl) (rl_window rl)) calls log)"
proof (induction t calls arbitrary: rl log rule: clock_ok.induct)
  case (2 t key now now' cs)
  note r = rl_allow_refines [OF 2(2,4), of now now' key]
  have k: "rl_window (snd (rl_allow key now now' rl)) = rl_window rl"
    "rl_maxAttempts (snd (rl_allow key now now' rl)) = rl_maxAttempts rl"
    using rl_window_kept [of "Attempt key now now'" rl] by simp_all
  show ?case
    using r 2(1) [of "snd (rl_allow key now now' rl)"
        "snd (log_call (rl_maxAttempts rl) (rl_window rl) (Attempt key now now') log)"] 2(3,4) k
    by (simp add: case_prod_beta del: log_call.simps(1))
next
  case (3 t key cs)
  have "rl_window (rl_reset key rl) = rl_window rl" "rl_maxAttempts (rl_reset key rl) = rl_maxAttempts rl"
    by (simp_all add: rl_reset_def)
  then show ?case
    using 3(1) [OF rl_reset_refines [OF 3(2), of key]] 3(3,4) by (simp add: case_prod_beta del: fun_upd_apply)
qed simp

text \<open>In the log no window of the configured length holds more than the maximum.\<close>

definition window_ok :: "nat \<Rightarrow> int \<Rightarrow> int list \<Rightarrow> bool" where
  "window_ok m w ts \<longleftrightarrow> (\<forall>i. i + m < length ts \<longrightarrow> ts ! i + w < ts ! (i + m))"

lemma window_ok_snoc:
  assumes "window_ok m w ts" "length (recent now w ts) < m" "now \<le> now'" "sorted ts"
  shows "window_ok m w (ts @ [now'])"
  unfolding window_ok_def
proof (intro allI impI)
  fix i assume i: "i + m < length (ts @ [now'])"
  show "(ts @ [now']) ! i + w < (ts @ [now']) ! (i + m)"
  proof (cases "i + m < length ts")
    case True
    then show ?thesis using assms(1) by (simp add: window_ok_def nth_append)
  next
    case False
    then have n: "length ts = i + m" using i by simp
    have "ts ! i < now - w"
    proof (rule ccontr)
      assume "\<not> ts ! i < now - w"
      have "now - w \<le> t" if mem: "t \<in> set (drop i ts)" for t
      proof -
        obtain j where "j < m" "t = ts ! (i + j)"
          using mem n by (auto simp: in_set_conv_nth)
        then have "ts ! i \<le> t" using sorted_nth_mono [OF assms(4), of i "i + j"] n by simp
        then show ?thesis using \<open>\<not> ts ! i < now - w\<close> by simp
      qed
      then have "length (recent now w (drop i ts)) = m"
        using n by (simp add: recent_def filter_True)
      moreover have "recent now w ts = recent now w (take i ts) @ recent now w (drop i ts)"
        unfolding recent_def by (metis append_take_drop_id filter_append)
      ultimately show False using assms(2) by simp
    qed
    moreover have "i < length ts" using n assms(2) by simp
    ultimately show ?thesis using n assms(3) by (simp add: nth_append)
  qed
qed

lemma log_window:
  "clock_ok t calls \<Longrightarrow> (\<And>key. window_ok (unat m) w (log key) \<and> sorted (log key) \<and> (\<forall>x\<in>set (log key). x \<le> t)) \<Longrightarrow>
   window_ok (unat m) w (snd (results (log_call m w) calls log) key)"
proof (induction t calls arbitrary: log rule: clock_ok.induct)
  case (2 t k now now' cs)
  define log' where "log' = snd (log_call m w (Attempt k now now') log)"
  have "window_ok (unat m) w (log' key) \<and> sorted (log' key) \<and> (\<forall>x\<in>set (log' key). x \<le> now')" for key
  proof (cases "key = k \<and> length (recent now w (log k)) < unat m")
    case True
    then have "log' key = log k @ [now']" by (simp add: log'_def)
    then show ?thesis
      using True 2(2) 2(3) [of k] window_ok_snoc [of "unat m" w "log k" now now']
      by (auto simp: sorted_append)
  next
    case False
    then have "log' key = log key" by (auto simp: log'_def)
    then show ?thesis using 2(2) 2(3) [of key] by auto
  qed
  with 2(1) 2(2) show ?case by (simp add: log'_def case_prod_beta del: log_call.simps(1))
next
  case (3 t k cs)
  have "window_ok (unat m) w ((log(k := [])) key) \<and> sorted ((log(k := [])) key) \<and> (\<forall>x\<in>set ((log(k := [])) key). x \<le> t)" for key
    using 3(3) [of key] by (simp add: window_ok_def)
  with 3(1) [of "log(k := [])"] 3(2) show ?case by (simp add: case_prod_beta del: fun_upd_apply)
qed simp

section \<open>Properties\<close>

text \<open>The sliding-window limiter of logins, which forgets expired attempts, decides every
  call exactly as a limiter that remembers them all: an attempt is allowed when fewer than the
  maximum of the allowed attempts of the key since its reset lie in the window ending now. Hence
  any maximum-plus-one successive allowed attempts of a key span more than the window. This holds
  for any sequence of attempts and resets with a monotone clock.\<close>

theorem rate_limiter_refines_log:
  assumes "clock_ok t calls" "0 \<le> window"
  shows "fst (results rl_do calls (mkRateLimiter m window)) = fst (results (log_call m window) calls (\<lambda>key. [])) \<and>
    (\<forall>key. window_ok (unat m) window (snd (results (log_call m window) calls (\<lambda>key. [])) key))"
proof
  have "log_rel t (mkRateLimiter m window) (\<lambda>key. [])"
    by (auto simp: log_rel_def attemptsOf_def mkRateLimiter_def recent_def)
  from rl_refines_log [OF this assms(1)] assms(2)
  show "fst (results rl_do calls (mkRateLimiter m window)) = fst (results (log_call m window) calls (\<lambda>key. []))"
    by (simp add: mkRateLimiter_def)
  show "\<forall>key. window_ok (unat m) window (snd (results (log_call m window) calls (\<lambda>key. [])) key)"
    using log_window [OF assms(1)] by (simp add: window_ok_def)
qed

theorem rate_limiter_refines_log_witness:
  "fst (results rl_do [Attempt ''ip'' 0 0, Attempt ''ip'' 1 1, Attempt ''ip'' 2 2, Attempt ''ip'' 70 70]
     (mkRateLimiter 2 60)) = [True, True, False, True]"
proof -
  have "fst (results (log_call 2 60) [Attempt ''ip'' 0 0, Attempt ''ip'' 1 1, Attempt ''ip'' 2 2, Attempt ''ip'' 70 70]
     (\<lambda>key. [])) = [True, True, False, True]"
    by (simp add: recent_def)
  then show ?thesis
    using rate_limiter_refines_log [of 0 "[Attempt ''ip'' 0 0, Attempt ''ip'' 1 1, Attempt ''ip'' 2 2, Attempt ''ip'' 70 70]" 60 2]
    by simp
qed

end
