(* ===== verification/Crypto_Utils.thy ===== *)
theory Crypto_Utils
  imports Cpp_Strings Bytes
begin

text \<open>
  The primitives of the authentication service (\<^verbatim>\<open>services/auth/crypto_utils.hpp\<close>): SHA-256 and
  HMAC-SHA-256 on 32-bit words, base64url, hexadecimal and the constant-time comparison, and the
  password hasher built on them (\<^verbatim>\<open>services/auth/password_hasher.cpp\<close>). SHA-256 is shown equal to
  the definition of FIPS 180-4 and base64url decoding to invert encoding. The bytes drawn from the
  random device are arguments.
\<close>

section \<open>SHA-256\<close>

type_synonym sha_state = "u32 \<times> u32 \<times> u32 \<times> u32 \<times> u32 \<times> u32 \<times> u32 \<times> u32"

definition sha256_init :: sha_state where
  "sha256_init = (0x6a09e667, 0xbb67ae85, 0x3c6ef372, 0xa54ff53a, 0x510e527f, 0x9b05688c,
     0x1f83d9ab, 0x5be0cd19)"

definition sha256_k :: "u32 list" where
  "sha256_k =
    [0x428a2f98, 0x71374491, 0xb5c0fbcf, 0xe9b5dba5, 0x3956c25b, 0x59f111f1, 0x923f82a4] @
    [0xab1c5ed5, 0xd807aa98, 0x12835b01, 0x243185be, 0x550c7dc3, 0x72be5d74, 0x80deb1fe] @
    [0x9bdc06a7, 0xc19bf174, 0xe49b69c1, 0xefbe4786, 0x0fc19dc6, 0x240ca1cc, 0x2de92c6f] @
    [0x4a7484aa, 0x5cb0a9dc, 0x76f988da, 0x983e5152, 0xa831c66d, 0xb00327c8, 0xbf597fc7] @
    [0xc6e00bf3, 0xd5a79147, 0x06ca6351, 0x14292967, 0x27b70a85, 0x2e1b2138, 0x4d2c6dfc] @
    [0x53380d13, 0x650a7354, 0x766a0abb, 0x81c2c92e, 0x92722c85, 0xa2bfe8a1, 0xa81a664b] @
    [0xc24b8b70, 0xc76c51a3, 0xd192e819, 0xd6990624, 0xf40e3585, 0x106aa070, 0x19a4c116] @
    [0x1e376c08, 0x2748774c, 0x34b0bcb5, 0x391c0cb3, 0x4ed8aa4a, 0x5b9cca4f, 0x682e6ff3] @
    [0x748f82ee, 0x78a5636f, 0x84c87814, 0x8cc70208, 0x90befffa, 0xa4506ceb, 0xbef9a3f7] @
    [0xc67178f2]"

definition rotr :: "u32 \<Rightarrow> nat \<Rightarrow> u32" where
  "rotr x n = drop_bit n x OR push_bit (32 - n) x"

text \<open>The loop that appends zero bytes, and the padded message.\<close>

function padZeros :: "bytes \<Rightarrow> bytes" where
  "padZeros msg = (if length msg mod 64 \<noteq> 56 then padZeros (msg @ [0]) else msg)"
  by auto

termination
proof (relation "measure (\<lambda>msg. (120 - length msg mod 64) mod 64)")
  fix msg :: bytes
  assume a: "length msg mod 64 \<noteq> 56"
  have "(120 - Suc n mod 64) mod 64 < (120 - n mod 64) mod 64" if "n mod 64 \<noteq> 56" for n :: nat
  proof -
    have "Suc n mod 64 = (if n mod 64 = 63 then 0 else Suc (n mod 64))" by (simp add: mod_Suc)
    moreover have "(120 - r) mod 64 = (if r \<le> 56 then 56 - r else 120 - r)" if "r < 64" for r :: nat
      using that by (simp add: mod_if)
    moreover have "n mod 64 < 64" by simp
    ultimately show ?thesis using that by auto
  qed
  with a show "(msg @ [0], msg) \<in> measure (\<lambda>msg. (120 - length msg mod 64) mod 64)" by simp
qed simp

declare padZeros.simps [simp del]

definition sha256_pad :: "bytes \<Rightarrow> bytes" where
  "sha256_pad data =
    (let bitLen = (of_nat (length data) * 8 :: u64)
     in padZeros (data @ [0x80]) @ map (\<lambda>i. ucast (drop_bit (i * 8) bitLen AND 0xFF)) (rev [0..<8]))"

definition loadWord :: "bytes \<Rightarrow> nat \<Rightarrow> u32" where
  "loadWord msg base =
    push_bit 24 (ucast (msg ! base)) OR push_bit 16 (ucast (msg ! (base + 1))) OR
    push_bit 8 (ucast (msg ! (base + 2))) OR ucast (msg ! (base + 3))"

definition scheduleStep :: "u32 list \<Rightarrow> nat \<Rightarrow> u32 list" where
  "scheduleStep w i =
    (let s0 = rotr (w ! (i - 15)) 7 XOR rotr (w ! (i - 15)) 18 XOR drop_bit 3 (w ! (i - 15));
         s1 = rotr (w ! (i - 2)) 17 XOR rotr (w ! (i - 2)) 19 XOR drop_bit 10 (w ! (i - 2))
     in w[i := w ! (i - 16) + s0 + w ! (i - 7) + s1])"

definition schedule :: "bytes \<Rightarrow> u32 list" where
  "schedule block =
    foldl scheduleStep (map (\<lambda>i. loadWord block (i * 4)) [0..<16] @ replicate 48 0) [16..<64]"

fun roundStep :: "u32 list \<Rightarrow> sha_state \<Rightarrow> nat \<Rightarrow> sha_state" where
  "roundStep w (a, b, c, d, e, f, g, hh) i =
    (let S1 = rotr e 6 XOR rotr e 11 XOR rotr e 25;
         ch = (e AND f) XOR (NOT e AND g);
         temp1 = hh + S1 + ch + sha256_k ! i + w ! i;
         S0 = rotr a 2 XOR rotr a 13 XOR rotr a 22;
         maj = (a AND b) XOR (a AND c) XOR (b AND c);
         temp2 = S0 + maj
     in (temp1 + temp2, a, b, c, d + temp1, e, f, g))"

fun addState :: "sha_state \<Rightarrow> sha_state \<Rightarrow> sha_state" where
  "addState (h0, h1, h2, h3, h4, h5, h6, h7) (a, b, c, d, e, f, g, hh) =
    (h0 + a, h1 + b, h2 + c, h3 + d, h4 + e, h5 + f, h6 + g, h7 + hh)"

definition sha256_block :: "sha_state \<Rightarrow> bytes \<Rightarrow> sha_state" where
  "sha256_block h block = addState h (foldl (roundStep (schedule block)) h [0..<64])"

function sha256_blocks :: "sha_state \<Rightarrow> bytes \<Rightarrow> sha_state" where
  "sha256_blocks h msg =
    (if msg = [] then h else sha256_blocks (sha256_block h (take 64 msg)) (drop 64 msg))"
  by auto
termination by (relation "measure (\<lambda>(h, msg). length msg)") auto

declare sha256_blocks.simps [simp del]

definition storeWord :: "u32 \<Rightarrow> bytes" where
  "storeWord val = [ucast (drop_bit 24 val AND 0xFF), ucast (drop_bit 16 val AND 0xFF),
     ucast (drop_bit 8 val AND 0xFF), ucast (val AND 0xFF)]"

fun sha256_digest :: "sha_state \<Rightarrow> bytes" where
  "sha256_digest (h0, h1, h2, h3, h4, h5, h6, h7) =
    storeWord h0 @ storeWord h1 @ storeWord h2 @ storeWord h3 @
    storeWord h4 @ storeWord h5 @ storeWord h6 @ storeWord h7"

definition sha256 :: "bytes \<Rightarrow> bytes" where
  "sha256 data = sha256_digest (sha256_blocks sha256_init (sha256_pad data))"

section \<open>HMAC-SHA-256\<close>

definition hmacSha256 :: "string \<Rightarrow> string \<Rightarrow> bytes" where
  "hmacSha256 key message =
    (let blockSize = 64;
         keyBytes = (if length key > blockSize then sha256 (stringBytes key) else stringBytes key);
         paddedKey = keyBytes @ replicate (blockSize - length keyBytes) 0;
         ipad = map (\<lambda>b. b XOR 0x36) paddedKey;
         opad = map (\<lambda>b. b XOR 0x5C) paddedKey;
         innerHash = sha256 (ipad @ stringBytes message)
     in sha256 (opad @ innerHash))"

section \<open>Base64url\<close>

definition base64Table :: string where
  "base64Table = ''ABCDEFGHIJKLMNOPQRSTUVWXYZabcdefghijklmnopqrstuvwxyz0123456789-_''"

fun base64urlEncode :: "bytes \<Rightarrow> string" where
  "base64urlEncode [] = []"
| "base64urlEncode (d # ds) =
    (let n = (push_bit 16 (ucast d) :: u32);
         n = (if ds \<noteq> [] then n OR push_bit 8 (ucast (ds ! 0)) else n);
         n = (if length ds > 1 then n OR ucast (ds ! 1) else n)
     in [base64Table ! unat (drop_bit 18 n AND 0x3F), base64Table ! unat (drop_bit 12 n AND 0x3F)]
        @ (if ds \<noteq> [] then [base64Table ! unat (drop_bit 6 n AND 0x3F)] else [])
        @ (if length ds > 1 then [base64Table ! unat (n AND 0x3F)] else [])
        @ base64urlEncode (drop 2 ds))"

definition decodeChar :: "char \<Rightarrow> int" where
  "decodeChar c =
    (if isUpper c then of_char c - 65
     else if isLower c then of_char c - 97 + 26
     else if isDigit c then of_char c - 48 + 52
     else if c = CHR ''-'' then 62
     else if c = CHR ''_'' then 63
     else - 1)"

fun decodeLoop :: "string \<Rightarrow> u32 \<Rightarrow> nat \<Rightarrow> bytes \<Rightarrow> bytes" where
  "decodeLoop [] buf bits result = result"
| "decodeLoop (c # cs) buf bits result =
    (if c = CHR ''='' then result
     else let val = decodeChar c in
       if val < 0 then []
       else let buf = push_bit 6 buf OR word_of_int val; bits = bits + 6 in
         if bits \<ge> 8 then decodeLoop cs buf (bits - 8) (result @ [ucast (drop_bit (bits - 8) buf AND 0xFF)])
         else decodeLoop cs buf bits result)"

definition base64urlDecode :: "string \<Rightarrow> bytes" where
  "base64urlDecode input = decodeLoop input 0 0 []"

definition base64urlDecodeString :: "string \<Rightarrow> string" where
  "base64urlDecodeString input = payloadString (base64urlDecode input)"

section \<open>Hexadecimal, comparison, passwords\<close>

definition hexChars :: string where "hexChars = ''0123456789abcdef''"

definition toHex :: "bytes \<Rightarrow> string" where
  "toHex data = concat (map (\<lambda>b. [hexChars ! unat (drop_bit 4 b AND 0x0F), hexChars ! unat (b AND 0x0F)]) data)"

text \<open>\<open>secureRandomHex\<close> of the bytes the random device delivers.\<close>

definition secureRandomHex :: "bytes \<Rightarrow> string" where
  "secureRandomHex buf = toHex buf"

definition constantTimeEqual :: "string \<Rightarrow> string \<Rightarrow> bool" where
  "constantTimeEqual a b \<longleftrightarrow>
    (if length a \<noteq> length b then False
     else foldl (\<lambda>diff i. diff OR (charByte (a ! i) XOR charByte (b ! i))) 0 [0..<length a] = 0)"

record HashedPassword =
  hp_hash :: string
  hp_salt :: string

definition hashWithSalt :: "string \<Rightarrow> string \<Rightarrow> string" where
  "hashWithSalt password salt = toHex (sha256 (stringBytes (salt @ password)))"

definition ph_hash :: "string \<Rightarrow> bytes \<Rightarrow> HashedPassword" where
  "ph_hash password saltBytes =
    (let salt = secureRandomHex saltBytes
     in \<lparr>hp_hash = hashWithSalt password salt, hp_salt = salt\<rparr>)"

definition ph_verify :: "string \<Rightarrow> string \<Rightarrow> string \<Rightarrow> bool" where
  "ph_verify password storedHash salt = constantTimeEqual (hashWithSalt password salt) storedHash"

section \<open>Base64url decoding inverts encoding\<close>

lemma decodeChar_table_all: "\<forall>v\<in>set [0..<64]. decodeChar (base64Table ! v) = int v \<and> base64Table ! v \<noteq> CHR ''=''"
  by code_simp

lemma unat_and_3F: "unat (x AND 0x3F :: u32) < 64"
proof -
  have "x AND 0x3F \<le> (0x3F :: u32)" by (rule word_and_le1)
  then have "unat (x AND 0x3F) \<le> unat (0x3F :: u32)" by (simp only: word_le_nat_alt)
  then show ?thesis by simp
qed

lemma decodeLoop_table [simp]:
  fixes x :: u32
  shows "decodeLoop (base64Table ! unat (x AND 0x3F) # cs) buf bits result =
    (let buf = push_bit 6 buf OR (x AND 0x3F); bits = bits + 6 in
       if bits \<ge> 8 then decodeLoop cs buf (bits - 8) (result @ [ucast (drop_bit (bits - 8) buf AND 0xFF)])
       else decodeLoop cs buf bits result)"
  using decodeChar_table_all unat_and_3F [of x] by simp

lemma masks: "(0x3F :: u32) = mask 6" "(0xFF :: u32) = mask 8"
  by (simp_all add: mask_eq_decr_exp)

lemma byte_high: "8 \<le> k \<Longrightarrow> \<not> bit (d :: byte) k"
  using bit_imp_le_length [of d k] by auto

lemma byte_eqI:
  assumes "bit (a :: byte) 0 = bit b 0" "bit a 1 = bit b 1" "bit a 2 = bit b 2" "bit a 3 = bit b 3"
    "bit a 4 = bit b 4" "bit a 5 = bit b 5" "bit a 6 = bit b 6" "bit a 7 = bit b 7"
  shows "a = b"
proof (rule bit_word_eqI)
  fix k assume "k < LENGTH(8)"
  then have "k \<in> {0, 1, 2, 3, 4, 5, 6, 7}" by auto
  then show "bit a k = bit b k" using assms by auto
qed

lemma sextets:
  fixes d0 d1 d2 :: byte and buf :: u32
  defines "n \<equiv> push_bit 16 (ucast d0) OR push_bit 8 (ucast d1) OR (ucast d2 :: u32)"
  defines "b1 \<equiv> push_bit 6 buf OR (drop_bit 18 n AND 0x3F)"
  defines "b2 \<equiv> push_bit 6 b1 OR (drop_bit 12 n AND 0x3F)"
  defines "b3 \<equiv> push_bit 6 b2 OR (drop_bit 6 n AND 0x3F)"
  defines "b4 \<equiv> push_bit 6 b3 OR (n AND 0x3F)"
  shows "ucast (drop_bit 4 b2 AND 0xFF) = d0" "ucast (drop_bit 2 b3 AND 0xFF) = d1"
    "ucast (b4 AND 0xFF) = d2"
  unfolding b4_def b3_def b2_def b1_def n_def masks
  by (rule byte_eqI; simp add: bit_simps byte_high)+

lemma decodeLoop_encode: "decodeLoop (base64urlEncode bs) buf 0 result = result @ bs"
proof (induction bs arbitrary: buf result rule: base64urlEncode.induct)
  case (2 d ds)
  show ?case
  proof (cases ds)
    case Nil
    then show ?thesis using sextets(1) [where ?d0.0 = d and ?d1.0 = 0 and ?d2.0 = 0 and buf = buf]
      by (simp add: Let_def del: decodeLoop.simps(2))
  next
    case (Cons d1 ds1)
    show ?thesis
    proof (cases ds1)
      case Nil
      then show ?thesis
        using sextets(1,2) [where ?d0.0 = d and ?d1.0 = d1 and ?d2.0 = 0 and buf = buf] by (simp add: Cons Let_def del: decodeLoop.simps(2))
    next
      case (Cons d2 ds2)
      then have "decodeLoop (base64urlEncode ds2) buf 0 result = result @ ds2" for buf result
        using "2" [OF refl refl refl] by (simp add: \<open>ds = d1 # ds1\<close>)
      then show ?thesis
        using sextets [where ?d0.0 = d and ?d1.0 = d1 and ?d2.0 = d2 and buf = buf]
        by (simp add: Cons \<open>ds = d1 # ds1\<close> Let_def or.assoc del: decodeLoop.simps(2))
    qed
  qed
qed simp

lemma base64url_roundtrip: "base64urlDecode (base64urlEncode bs) = bs"
  by (simp add: base64urlDecode_def decodeLoop_encode)

lemma base64urlDecodeString_encode [simp]:
  "base64urlDecodeString (base64urlEncode (stringBytes s)) = s"
  by (simp add: base64urlDecodeString_def base64url_roundtrip)

lemma base64urlEncode_inj: "base64urlEncode a = base64urlEncode b \<Longrightarrow> a = b"
  by (metis base64url_roundtrip)

text \<open>The encoding never contains the separator of a token, and is empty only for the empty text.\<close>

lemma base64Table_no_dot: "\<forall>v\<in>set [0..<64]. base64Table ! v \<noteq> CHR ''.''"
  by code_simp

lemma base64Table_not_dot [simp]: "CHR ''.'' \<noteq> base64Table ! unat (x AND 0x3F :: u32)"
  using base64Table_no_dot unat_and_3F [of x] by auto

lemma base64urlEncode_no_dot: "CHR ''.'' \<notin> set (base64urlEncode bs)"
  by (induction bs rule: base64urlEncode.induct) (auto simp: Let_def split: if_splits)

lemma base64urlEncode_Nil_iff [simp]: "base64urlEncode bs = [] \<longleftrightarrow> bs = []"
  by (cases bs) (simp_all add: Let_def)

section \<open>Comparison and hexadecimal\<close>

lemma or_fold_zero:
  "foldl (\<lambda>diff i. diff OR f i) d is = 0 \<longleftrightarrow> d = (0 :: byte) \<and> (\<forall>i\<in>set is. f i = 0)"
proof (induction "is" arbitrary: d)
  case (Cons i "is")
  have "d OR f i = 0 \<longleftrightarrow> d = 0 \<and> f i = 0" by (auto intro!: bit_word_eqI simp: bit_eq_iff bit_simps)
  with Cons show ?case by auto
qed simp

lemma constantTimeEqual_iff [simp]: "constantTimeEqual a b \<longleftrightarrow> a = b"
proof -
  have x: "x XOR y = 0 \<longleftrightarrow> x = y" for x y :: byte by (auto simp: bit_eq_iff bit_simps)
  show ?thesis
    by (auto simp: constantTimeEqual_def or_fold_zero x intro: nth_equalityI)
qed

lemma hexChars_plain: "\<forall>v\<in>set [0..<16]. isDigit (hexChars ! v) \<or> isLower (hexChars ! v)"
  by code_simp

lemma unat_and_0F: "unat (x AND 0x0F :: byte) < 16"
proof -
  have "x AND 0x0F \<le> (0x0F :: byte)" by (rule word_and_le1)
  then have "unat (x AND 0x0F) \<le> unat (0x0F :: byte)" by (simp only: word_le_nat_alt)
  then show ?thesis by simp
qed

lemma toHex_alnum: "c \<in> set (toHex data) \<Longrightarrow> isAlnum c"
  using hexChars_plain unat_and_0F by (fastforce simp: toHex_def isAlnum_def isAlpha_def)

lemma length_toHex [simp]: "length (toHex data) = 2 * length data"
  by (induction data) (simp_all add: toHex_def)

text \<open>A stored password verifies.\<close>

lemma ph_verify_hash: "ph_verify password (hp_hash (ph_hash password salt)) (hp_salt (ph_hash password salt))"
  by (simp add: ph_verify_def ph_hash_def Let_def)

lemma ph_verify_iff: "ph_verify password storedHash salt \<longleftrightarrow> storedHash = hashWithSalt password salt"
  by (auto simp: ph_verify_def)

section \<open>The definition of FIPS 180-4\<close>

definition fips_pad :: "bytes \<Rightarrow> bytes" where
  "fips_pad data = data @ [0x80] @ replicate (nat ((55 - int (length data)) mod 64)) 0
     @ rev (le_bytes 8 (of_nat (8 * length data) :: u64))"

function fips_W :: "(nat \<Rightarrow> u32) \<Rightarrow> nat \<Rightarrow> u32" where
  "fips_W M t =
    (if t < 16 then M t
     else (word_rotr 17 (fips_W M (t - 2)) XOR word_rotr 19 (fips_W M (t - 2)) XOR drop_bit 10 (fips_W M (t - 2)))
        + fips_W M (t - 7)
        + (word_rotr 7 (fips_W M (t - 15)) XOR word_rotr 18 (fips_W M (t - 15)) XOR drop_bit 3 (fips_W M (t - 15)))
        + fips_W M (t - 16))"
  by auto
termination by (relation "measure snd") auto

declare fips_W.simps [simp del]

fun fips_round :: "(nat \<Rightarrow> u32) \<Rightarrow> sha_state \<Rightarrow> nat \<Rightarrow> sha_state" where
  "fips_round W (a, b, c, d, e, f, g, h) t =
    (let T1 = h + (word_rotr 6 e XOR word_rotr 11 e XOR word_rotr 25 e)
              + ((e AND f) XOR (NOT e AND g)) + sha256_k ! t + W t;
         T2 = (word_rotr 2 a XOR word_rotr 13 a XOR word_rotr 22 a) + ((a AND b) XOR (a AND c) XOR (b AND c))
     in (T1 + T2, a, b, c, d + T1, e, f, g))"

definition fips_sha256 :: "bytes \<Rightarrow> bytes" where
  "fips_sha256 data =
    (let msg = fips_pad data;
         M = (\<lambda>i t. loadWord msg (64 * i + 4 * t));
         step = (\<lambda>H i. addState H (foldl (fips_round (fips_W (M i))) H [0..<64]))
     in sha256_digest (foldl step sha256_init [0..<length msg div 64]))"

lemma rotr_word_rotr: "0 < n \<Longrightarrow> n < 32 \<Longrightarrow> rotr x n = word_rotr n x"
proof (rule bit_word_eqI)
  fix k assume n: "0 < n" "n < 32" and k: "k < LENGTH(32)"
  show "bit (rotr x n) k = bit (word_rotr n x) k"
  proof (cases "k + n < 32")
    case True
    then show ?thesis using k n by (auto simp: rotr_def bit_simps add.commute)
  next
    case False
    then have "(k + n) mod 32 = k - (32 - n)" using n k by (simp add: mod_if)
    moreover have "\<not> bit x (n + k)" using False bit_imp_le_length [of x "n + k"] by auto
    ultimately show ?thesis using False n k by (auto simp: rotr_def bit_simps)
  qed
qed

lemma padZeros_eq: "padZeros msg = msg @ replicate (nat ((56 - int (length msg)) mod 64)) 0"
proof (induction msg rule: padZeros.induct)
  case (1 msg)
  have m: "int (length msg) mod 64 = int (length msg mod 64)" by (simp add: zmod_int)
  show ?case
  proof (cases "length msg mod 64 = 56")
    case True
    then have "(56 - int (length msg)) mod 64 = 0" using m by (simp add: mod_diff_right_eq [symmetric])
    with True show ?thesis by (simp add: padZeros.simps [of msg])
  next
    case False
    define r where "r = (56 - int (length msg)) mod 64"
    have "r \<noteq> 0" using False m by (auto simp: r_def mod_eq_0_iff_dvd dest!: mod_eq_dvd_iff [THEN iffD2])
    moreover have "0 \<le> r" "r < 64" by (simp_all add: r_def)
    moreover have "(55 - int (length msg)) mod 64 = (r - 1) mod 64"
      by (simp add: r_def mod_diff_left_eq)
    ultimately have "nat r = Suc (nat ((55 - int (length msg)) mod 64))" by simp
    with False 1 show ?thesis
      by (simp add: padZeros.simps [of msg] r_def [symmetric] algebra_simps)
  qed
qed

lemma length_bytes_rev: "map (\<lambda>i. ucast (drop_bit (i * 8) (w :: u64) AND 0xFF)) (rev [0..<8]) = rev (le_bytes 8 w)"
proof -
  have m: "(0xFF :: u64) = mask 8" by (simp add: mask_eq_decr_exp)
  have "ucast (drop_bit (i * 8) w AND 0xFF) = (ucast (drop_bit (8 * i) w) :: byte)" for i
    unfolding m by (rule bit_word_eqI) (auto simp: bit_simps mult.commute)
  then show ?thesis by (simp add: le_bytes_def rev_map)
qed

lemma sha256_pad_fips: "sha256_pad data = fips_pad data"
  by (simp add: sha256_pad_def fips_pad_def padZeros_eq length_bytes_rev mult.commute)

lemma length_fips_pad: "length (fips_pad data) mod 64 = 0"
proof -
  define n where "n = int (length data)"
  have "int (length (fips_pad data)) = n + 9 + (55 - n) mod 64"
    by (simp add: fips_pad_def n_def)
  moreover have "(n + 9 + (55 - n) mod 64) mod 64 = 0" by (simp add: mod_add_right_eq)
  ultimately show ?thesis by (metis int_ops(1) of_nat_eq_iff of_nat_numeral zmod_int)
qed

lemma fips_W_cong: "(\<And>t. t < 16 \<Longrightarrow> M t = M' t) \<Longrightarrow> fips_W M t = fips_W M' t"
proof (induction M t rule: fips_W.induct)
  case (1 M t)
  then show ?case by (cases "t < 16") (simp_all add: fips_W.simps [of M t] fips_W.simps [of M' t])
qed

lemma schedule_fips:
  "16 \<le> n \<Longrightarrow> n \<le> 64 \<Longrightarrow>
   foldl scheduleStep (map M [0..<16] @ replicate 48 0) [16..<n] = map (fips_W M) [0..<n] @ replicate (64 - n) 0"
proof (induction n rule: dec_induct)
  case base
  have "map M [0..<16] = map (fips_W M) [0..<16]" by (simp add: fips_W.simps)
  then show ?case by simp
next
  case (step n)
  define xs where "xs = map (fips_W M) [0..<n]"
  have z: "replicate (64 - n) 0 = (0 :: u32) # replicate (64 - Suc n) 0"
    using step by (metis Suc_diff_le diff_Suc_Suc replicate_Suc)
  have nth: "(xs @ replicate (64 - n) 0) ! i = fips_W M i" if "i < n" for i
    using that by (simp add: xs_def nth_append)
  have "foldl scheduleStep (map M [0..<16] @ replicate 48 0) [16..<Suc n]
        = scheduleStep (xs @ replicate (64 - n) 0) n"
    using step by (simp add: xs_def)
  also have "\<dots> = (xs @ replicate (64 - n) 0)[n := fips_W M n]"
    using step.hyps by (simp add: scheduleStep_def Let_def nth rotr_word_rotr fips_W.simps [of M n] algebra_simps)
  also have "\<dots> = xs @ fips_W M n # replicate (64 - Suc n) 0"
    unfolding z by (simp add: xs_def list_update_append)
  finally show ?case by (simp add: xs_def)
qed

lemma roundStep_fips: "w ! i = W i \<Longrightarrow> roundStep w s i = fips_round W s i"
  by (cases "(w, s, i)" rule: roundStep.cases) (simp add: Let_def rotr_word_rotr)

lemma sha256_block_fips:
  assumes "\<And>t. t < 16 \<Longrightarrow> loadWord block (t * 4) = M t"
  shows "sha256_block h block = addState h (foldl (fips_round (fips_W M)) h [0..<64])"
proof -
  have "schedule block = map (fips_W M) [0..<64]"
    using schedule_fips [of 64 "\<lambda>t. loadWord block (t * 4)"] fips_W_cong [OF assms]
    by (simp add: schedule_def)
  then have "foldl (roundStep (schedule block)) h [0..<64] = foldl (fips_round (fips_W M)) h [0..<64]"
    by (intro foldl_cong) (auto intro: roundStep_fips)
  then show ?thesis by (simp add: sha256_block_def)
qed

lemma sha256_blocks_fold:
  "length msg = 64 * N \<Longrightarrow>
   sha256_blocks h msg = foldl (\<lambda>h i. sha256_block h (take 64 (drop (64 * i) msg))) h [0..<N]"
proof (induction N arbitrary: h msg)
  case 0
  then show ?case by (simp add: sha256_blocks.simps)
next
  case (Suc N)
  have "[0..<Suc N] = 0 # map Suc [0..<N]" by (simp add: map_Suc_upt upt_conv_Cons del: upt_Suc)
  then show ?case
    using Suc by (simp add: sha256_blocks.simps [of h msg] foldl_map add.commute del: upt_Suc) fastforce
qed

lemma sha256_eq_fips: "sha256 data = fips_sha256 data"
proof -
  define msg where "msg = fips_pad data"
  obtain N where N: "length msg = 64 * N"
    using length_fips_pad [of data] unfolding msg_def by blast
  have "loadWord (take 64 (drop (64 * i) msg)) (t * 4) = loadWord msg (64 * i + 4 * t)" if "i < N" "t < 16" for i t
    using that N by (simp add: loadWord_def mult.commute add.assoc)
  then have "sha256_block h (take 64 (drop (64 * i) msg)) =
      addState h (foldl (fips_round (fips_W (\<lambda>t. loadWord msg (64 * i + 4 * t)))) h [0..<64])"
    if "i < N" for h i
    using that by (intro sha256_block_fips) simp
  then have "sha256_blocks sha256_init msg =
      foldl (\<lambda>h i. addState h (foldl (fips_round (fips_W (\<lambda>t. loadWord msg (64 * i + 4 * t)))) h [0..<64]))
        sha256_init [0..<N]"
    unfolding sha256_blocks_fold [OF N] by (intro foldl_cong) simp_all
  with N show ?thesis
    by (simp add: sha256_def sha256_pad_fips fips_sha256_def msg_def [symmetric] Let_def)
qed

section \<open>Properties\<close>


text \<open>Base64url without padding is lossless: decoding the encoding of any bytes gives them
  back, different byte strings have different encodings, and an encoding never contains the dot
  that separates the parts of a token.\<close>

theorem base64url_lossless:
  "base64urlDecode (base64urlEncode bs) = bs \<and> inj base64urlEncode \<and>
   CHR ''.'' \<notin> set (base64urlEncode bs)"
  using base64url_roundtrip base64urlEncode_inj base64urlEncode_no_dot by (auto intro: injI)

end
