(* ===== verification/Token_Provider.thy ===== *)
theory Token_Provider
  imports Auth_Stores Crypto_Utils "HOL-Library.Signed_Division"
begin

text \<open>
  JSON web tokens (\<^verbatim>\<open>services/auth/token_provider.cpp\<close>): the minimal JSON writer and reader, the
  signed token and its validation. RSA signatures come from OpenSSL through \<^verbatim>\<open>rsa_utils.hpp\<close>: the
  two functions are the record \<open>RsaLib\<close>, an argument of the operations. The random bytes of a token
  and the clock readings are arguments too.
\<close>

section \<open>JSON helpers\<close>

abbreviation dquote :: char where "dquote \<equiv> CHR 0x22"

definition jsonEscapeChar :: "char \<Rightarrow> string" where
  "jsonEscapeChar c =
    (if c = dquote then [CHR 0x5C, dquote]
     else if c = CHR 0x5C then [CHR 0x5C, CHR 0x5C]
     else if c = CHR 0x0A then [CHR 0x5C, CHR ''n'']
     else if c = CHR 0x0D then [CHR 0x5C, CHR ''r'']
     else if c = CHR 0x09 then [CHR 0x5C, CHR ''t'']
     else [c])"

definition jsonEscape :: "string \<Rightarrow> string" where
  "jsonEscape s = dquote # concat (map jsonEscapeChar s) @ [dquote]"

text \<open>A key in double quotes with its colon.\<close>

definition jsonKey :: "string \<Rightarrow> string" where
  "jsonKey key = dquote # key @ [dquote, CHR '':'']"

definition toEpoch :: "int \<Rightarrow> int" where
  "toEpoch tp = tp sdiv 1000000000"

definition fromEpoch :: "int \<Rightarrow> int" where
  "fromEpoch epoch = epoch * 1000000000"

function splitLoop :: "string \<Rightarrow> char \<Rightarrow> nat \<Rightarrow> nat \<Rightarrow> string list \<Rightarrow> string list" where
  "splitLoop s delim maxParts start parts =
    (if start < length s then
       if maxParts > 0 \<and> length parts + 1 \<ge> maxParts then parts @ [drop start s]
       else (case sv_find s [delim] start of
               None \<Rightarrow> parts @ [drop start s]
             | Some pos \<Rightarrow> splitLoop s delim maxParts (pos + 1) (parts @ [sv_substr s start (pos - start)]))
     else parts)"
  by auto

termination
  by (relation "measure (\<lambda>(s, delim, maxParts, start, parts). length s - start)")
     (auto simp: sv_find_def split: if_splits)

declare splitLoop.simps [simp del]

definition split :: "string \<Rightarrow> char \<Rightarrow> nat \<Rightarrow> string list" where
  "split s delim maxParts = splitLoop s delim maxParts 0 []"

definition extractJsonString :: "string \<Rightarrow> string \<Rightarrow> string" where
  "extractJsonString json key =
    (let needle = jsonKey key @ [dquote]
     in case sv_find json needle 0 of
          None \<Rightarrow> []
        | Some pos \<Rightarrow>
            let pos = pos + length needle
            in case sv_find json [dquote] pos of
                 None \<Rightarrow> []
               | Some close \<Rightarrow> sv_substr json pos (close - pos))"

definition extractJsonInt :: "string \<Rightarrow> string \<Rightarrow> int" where
  "extractJsonInt json key =
    (let needle = jsonKey key
     in case sv_find json needle 0 of
          None \<Rightarrow> 0
        | Some pos \<Rightarrow>
            (case from_chars (dropWhile (\<lambda>c. c = CHR '' '' \<or> c = CHR 0x09) (drop (pos + length needle) json)) of
               None \<Rightarrow> 0 | Some result \<Rightarrow> result))"

function arrayLoop :: "string \<Rightarrow> nat \<Rightarrow> string list \<Rightarrow> string list" where
  "arrayLoop content cur result =
    (if cur < length content then
       case sv_find content [dquote] cur of
         None \<Rightarrow> result
       | Some qStart \<Rightarrow>
           (case sv_find content [dquote] (qStart + 1) of
              None \<Rightarrow> result
            | Some qEnd \<Rightarrow>
                arrayLoop content (qEnd + 1) (result @ [sv_substr content (qStart + 1) (qEnd - qStart - 1)]))
     else result)"
  by auto

termination
  by (relation "measure (\<lambda>(content, cur, result). length content - cur)")
     (auto simp: sv_find_def split: if_splits)

declare arrayLoop.simps [simp del]

definition extractJsonStringArray :: "string \<Rightarrow> string \<Rightarrow> string list" where
  "extractJsonStringArray json key =
    (let needle = jsonKey key @ ''[''
     in case sv_find json needle 0 of
          None \<Rightarrow> []
        | Some pos \<Rightarrow>
            let pos = pos + length needle
            in case sv_find json '']'' pos of
                 None \<Rightarrow> []
               | Some close \<Rightarrow> arrayLoop (sv_substr json pos (close - pos)) 0 [])"

section \<open>Tokens\<close>

text \<open>\<open>rsaSha256Sign key message\<close> and \<open>rsaSha256Verify key message signature\<close>.\<close>

record RsaLib =
  rsaSha256Sign :: "string \<Rightarrow> string \<Rightarrow> bytes"
  rsaSha256Verify :: "string \<Rightarrow> string \<Rightarrow> bytes \<Rightarrow> bool"

record TokenProvider =
  tp_signingKey :: string
  tp_rsaPrivateKeyPem :: string
  tp_rsaPublicKeyPem :: string
  tp_algorithm :: JwtAlgorithm

definition mkTokenProvider :: "AuthConfig \<Rightarrow> TokenProvider" where
  "mkTokenProvider config = \<lparr>tp_signingKey = ac_signingKey config,
     tp_rsaPrivateKeyPem = ac_rsaPrivateKeyPem config, tp_rsaPublicKeyPem = ac_rsaPublicKeyPem config,
     tp_algorithm = ac_jwtAlgorithm config\<rparr>"

definition jwtHeader :: "JwtAlgorithm \<Rightarrow> string" where
  "jwtHeader algorithm = CHR ''{'' # jsonKey ''alg'' @
     jsonEscape (case algorithm of RS256 \<Rightarrow> ''RS256'' | HS256 \<Rightarrow> ''HS256'') @
     '','' @ jsonKey ''typ'' @ jsonEscape ''JWT'' @ ''}''"

fun rolesJson :: "string list \<Rightarrow> string" where
  "rolesJson [] = []"
| "rolesJson [r] = jsonEscape r"
| "rolesJson (r # rs) = jsonEscape r @ '','' @ rolesJson rs"

definition jwtPayload :: "TokenClaims \<Rightarrow> string \<Rightarrow> int \<Rightarrow> int \<Rightarrow> string" where
  "jwtPayload claims jti iat exp =
    ''{'' @ jsonKey ''sub'' @ jsonEscape (tc_subject claims) @
    '','' @ jsonKey ''usr'' @ jsonEscape (tc_username claims) @
    '','' @ jsonKey ''roles'' @ ''['' @ rolesJson (tc_roles claims) @ '']'' @
    '','' @ jsonKey ''jti'' @ jsonEscape jti @
    '','' @ jsonKey ''iat'' @ int_to_string iat @
    '','' @ jsonKey ''exp'' @ int_to_string exp @ ''}''"

definition jwtSign :: "RsaLib \<Rightarrow> TokenProvider \<Rightarrow> string \<Rightarrow> bytes" where
  "jwtSign rsa tp signingInput =
    (if tp_algorithm tp = RS256 then rsaSha256Sign rsa (tp_rsaPrivateKeyPem tp) signingInput
     else hmacSha256 (tp_signingKey tp) signingInput)"

definition generateAccessToken ::
  "RsaLib \<Rightarrow> TokenProvider \<Rightarrow> TokenClaims \<Rightarrow> int \<Rightarrow> int \<Rightarrow> bytes \<Rightarrow> string" where
  "generateAccessToken rsa tp claims expiry now jtiBytes =
    (let encodedHeader = base64urlEncode (stringBytes (jwtHeader (tp_algorithm tp)));
         iat = toEpoch (if tc_issuedAt claims > 0 then tc_issuedAt claims else now);
         exp = toEpoch (now + expiry);
         jti = secureRandomHex jtiBytes;
         encodedPayload = base64urlEncode (stringBytes (jwtPayload claims jti iat exp));
         signingInput = encodedHeader @ ''.'' @ encodedPayload
     in signingInput @ ''.'' @ base64urlEncode (jwtSign rsa tp signingInput))"

text \<open>The check of the signature by the algorithm the header names.\<close>

definition checkSignature :: "RsaLib \<Rightarrow> TokenProvider \<Rightarrow> string \<Rightarrow> string \<Rightarrow> string \<Rightarrow> unit GameResult" where
  "checkSignature rsa tp alg signingInput signature =
    (if alg = ''RS256'' then
       (if tp_rsaPublicKeyPem tp = [] then err InvalidToken ''RS256 token received but no public key configured''
        else if \<not> rsaSha256Verify rsa (tp_rsaPublicKeyPem tp) signingInput (base64urlDecode signature)
        then err InvalidToken ''invalid RS256 signature'' else Inr ())
     else if alg = ''HS256'' then
       (if \<not> constantTimeEqual (base64urlEncode (hmacSha256 (tp_signingKey tp) signingInput)) signature
        then err InvalidToken ''invalid HS256 signature'' else Inr ())
     else err InvalidToken (''unsupported JWT algorithm: '' @ alg))"

definition parseClaims :: "string \<Rightarrow> TokenClaims" where
  "parseClaims payloadJson =
    \<lparr>tc_subject = extractJsonString payloadJson ''sub'', tc_username = extractJsonString payloadJson ''usr'',
     tc_roles = extractJsonStringArray payloadJson ''roles'', tc_jti = extractJsonString payloadJson ''jti'',
     tc_issuedAt = fromEpoch (extractJsonInt payloadJson ''iat''),
     tc_expiresAt = fromEpoch (extractJsonInt payloadJson ''exp'')\<rparr>"

definition validateAccessToken ::
  "RsaLib \<Rightarrow> TokenProvider \<Rightarrow> TokenBlacklist option \<Rightarrow> int \<Rightarrow> string \<Rightarrow> TokenClaims GameResult" where
  "validateAccessToken rsa tp blacklist now token =
    (let parts = split token CHR ''.'' 3 in
     if length parts \<noteq> 3 then err InvalidToken ''malformed JWT: expected 3 parts''
     else let alg = extractJsonString (base64urlDecodeString (parts ! 0)) ''alg'';
              signingInput = parts ! 0 @ ''.'' @ parts ! 1
     in case checkSignature rsa tp alg signingInput (parts ! 2) of
          Inl e \<Rightarrow> Inl e
        | Inr _ \<Rightarrow>
          let payloadJson = base64urlDecodeString (parts ! 1) in
          if payloadJson = [] then err InvalidToken ''failed to decode payload''
          else let claims = parseClaims payloadJson in
          if now > tc_expiresAt claims then err TokenExpired ''access token has expired''
          else if (case blacklist of None \<Rightarrow> False | Some bl \<Rightarrow> tc_jti claims \<noteq> [] \<and> bl_isRevoked bl (tc_jti claims))
          then err TokenRevoked ''access token has been revoked''
          else Inr claims)"

definition generateRefreshToken :: "bytes \<Rightarrow> string" where
  "generateRefreshToken rnd = secureRandomHex rnd"

section \<open>Reading back what was written\<close>

text \<open>The text after the first occurrence of a needle.\<close>

definition after :: "string \<Rightarrow> string \<Rightarrow> string option" where
  "after n s = map_option (\<lambda>k. drop (k + length n) s) (findStr n s)"

lemma after_Cons:
  "after n (c # s) = (if prefix n (c # s) then Some (drop (length n) (c # s)) else after n s)"
  by (simp add: after_def option.map_comp comp_def)

lemma after_hit [simp]: "after n (n @ s) = Some s"
  by (simp add: after_def findStr_found)

lemma after_skip: "dquote \<notin> set v \<Longrightarrow> after (dquote # n) (v @ s) = after (dquote # n) s"
  by (induction v) (auto simp: after_Cons)

definition key_ok :: "string \<Rightarrow> bool" where
  "key_ok k \<longleftrightarrow> k \<noteq> [] \<and> dquote \<notin> set k \<and> hd k \<notin> set '':,]''"

text \<open>A quoted value, followed by something else than a colon, does not contain a key.\<close>

lemma after_value:
  assumes "key_ok k" "dquote \<notin> set v" "c \<in> set '',]}''"  "hd k \<noteq> CHR ''}''"
  shows "after (jsonKey k @ r) (dquote # v @ dquote # c # s) = after (jsonKey k @ r) s"
proof -
  have nd: "c \<noteq> dquote" "c \<noteq> CHR '':''" "hd k \<noteq> c" using assms by (auto simp: key_ok_def)
  have "\<not> prefix (jsonKey k @ r) (dquote # v @ dquote # c # s)"
  proof
    assume "prefix (jsonKey k @ r) (dquote # v @ dquote # c # s)"
    then obtain z where "v @ dquote # c # s = k @ dquote # CHR '':'' # r @ z"
      by (auto simp: prefix_def jsonKey_def)
    then have "c = CHR '':''"
      using split_at_unique [of dquote v k] assms by (auto simp: key_ok_def)
    then show False using nd by simp
  qed
  moreover have "\<not> prefix (jsonKey k @ r) (dquote # c # s)"
    using assms nd by (cases k) (auto simp: jsonKey_def key_ok_def)
  ultimately show ?thesis
    using assms(2) nd(1) after_skip [of v "k @ [dquote, CHR '':''] @ r" "dquote # c # s"]
      after_skip [of "[c]" "k @ [dquote, CHR '':''] @ r" s]
    by (simp add: after_Cons [of _ dquote] jsonKey_def)
qed

text \<open>A different key is skipped.\<close>

lemma after_other_key:
  assumes "key_ok k" "dquote \<notin> set k'" "k' \<noteq> k"
  shows "after (jsonKey k @ r) (jsonKey k' @ s) = after (jsonKey k @ r) s"
proof -
  have "\<not> prefix (jsonKey k @ r) (jsonKey k' @ s)"
    using assms split_at_unique [of dquote k' k] by (auto simp: prefix_def jsonKey_def key_ok_def)
  moreover have "\<not> prefix (jsonKey k @ r) (dquote # CHR '':'' # s)"
    using assms by (cases k) (auto simp: jsonKey_def key_ok_def)
  ultimately show ?thesis
    using assms(2) after_skip [of k' "k @ [dquote, CHR '':''] @ r" "dquote # CHR '':'' # s"]
      after_skip [of "'':''" "k @ [dquote, CHR '':''] @ r" s]
    by (simp add: after_Cons [of _ dquote] jsonKey_def)
qed

lemma after_text: "dquote \<notin> set v \<Longrightarrow> after (jsonKey k @ r) (v @ s) = after (jsonKey k @ r) s"
  by (simp add: jsonKey_def after_skip)

lemma after_char: "c \<noteq> dquote \<Longrightarrow> after (jsonKey k @ r) (c # s) = after (jsonKey k @ r) s"
  using after_text [of "[c]"] by simp

text \<open>The readers in terms of the text after the key.\<close>

lemma findStr_split: "findStr n s = Some k \<Longrightarrow> s = take k s @ n @ drop (k + length n) s"
proof (induction s arbitrary: k)
  case (Cons c s)
  show ?case
  proof (cases "prefix n (c # s)")
    case True
    then show ?thesis using Cons.prems by (auto simp: prefix_def)
  next
    case False
    then obtain j where "findStr n s = Some j" "k = Suc j" using Cons.prems by auto
    then show ?thesis using Cons.IH [of j] by simp
  qed
qed (auto split: if_splits)

lemma extractJsonString_after:
  "after (jsonKey key @ [dquote]) json = Some (v @ dquote # rest) \<Longrightarrow> dquote \<notin> set v \<Longrightarrow> extractJsonString json key = v"
proof -
  let ?n = "jsonKey key @ [dquote]"
  assume a: "after ?n json = Some (v @ dquote # rest)" and v: "dquote \<notin> set v"
  then obtain k where k: "findStr ?n json = Some k" "drop (k + length ?n) json = v @ dquote # rest"
    by (auto simp: after_def)
  then have j: "json = (take k json @ ?n) @ v @ dquote # rest" "length (take k json @ ?n) = k + length ?n"
    using findStr_split [OF k(1)] findStr_Some_bound [OF k(1)] by auto
  have "sv_find json [dquote] (k + length ?n) = Some (k + length ?n + length v)"
    using sv_find_char [OF v, of "take k json @ ?n" rest] j by simp
  moreover have "sv_substr json (k + length ?n) (length v) = v"
    using k(2) by (simp add: sv_substr_def)
  ultimately show ?thesis
    by (simp add: extractJsonString_def Let_def sv_find_zero k(1))
qed

lemma extractJsonInt_after:
  assumes "after (jsonKey key) json = Some (int_to_string i @ rest)"
    and "- (2 ^ 63) \<le> i" "i < 2 ^ 63" "rest = [] \<or> \<not> isDigit (hd rest)"
  shows "extractJsonInt json key = i"
proof -
  obtain k where k: "findStr (jsonKey key) json = Some k"
    "drop (k + length (jsonKey key)) json = int_to_string i @ rest"
    using assms(1) by (auto simp: after_def)
  obtain c cs where c: "to_string (nat \<bar>i\<bar>) = c # cs" "isDigit c" by (rule to_string_first)
  then have "c \<noteq> CHR '' ''" "c \<noteq> CHR 0x09" by (auto simp: isDigit_def)
  then have "dropWhile (\<lambda>c. c = CHR '' '' \<or> c = CHR 0x09) (int_to_string i @ rest) = int_to_string i @ rest"
    using c(1) by (cases "i < 0") (simp_all add: int_to_string_def)
  with k from_chars_to_string [OF assms(2-4)] show ?thesis
    by (simp add: extractJsonInt_def Let_def sv_find_zero)
qed

text \<open>Text that the writer leaves as it is; the reader does not undo escapes.\<close>

definition plain :: "string \<Rightarrow> bool" where
  "plain s \<longleftrightarrow> list_all (\<lambda>c. c \<notin> {dquote, CHR 0x5C, CHR 0x0A, CHR 0x0D, CHR 0x09}) s"

lemma plain_dquote: "plain s \<Longrightarrow> dquote \<notin> set s"
  by (auto simp: plain_def list_all_iff)

lemma jsonEscape_plain: "plain s \<Longrightarrow> jsonEscape s = dquote # s @ [dquote]"
proof -
  assume "plain s"
  then have "concat (map jsonEscapeChar s) = concat (map (\<lambda>c. [c]) s)"
    by (intro arg_cong [where f = concat] map_cong) (auto simp: plain_def list_all_iff jsonEscapeChar_def)
  then show ?thesis by (simp add: jsonEscape_def)
qed

lemma after_plain:
  "key_ok k \<Longrightarrow> plain v \<Longrightarrow> c \<in> set '',]}'' \<Longrightarrow> hd k \<noteq> CHR ''}'' \<Longrightarrow>
   after (jsonKey k @ r) (jsonEscape v @ c # s) = after (jsonKey k @ r) s"
  using after_value [of k v c r s] by (simp add: jsonEscape_plain plain_dquote)

lemma after_roles:
  assumes "key_ok k" "hd k \<noteq> CHR ''}''" "\<And>v. v \<in> set rs \<Longrightarrow> plain v"
  shows "after (jsonKey k @ r) (rolesJson rs @ CHR '']'' # s) = after (jsonKey k @ r) s"
  using assms(3)
proof (induction rs rule: rolesJson.induct)
  case 1
  then show ?case by (simp add: after_char)
next
  case (2 v)
  then show ?case using after_plain [OF assms(1), of v "CHR '']''" r s] assms(2) by simp
next
  case (3 v w vs)
  then show ?case
    using after_plain [OF assms(1), of v "CHR '',''" r "rolesJson (w # vs) @ CHR '']'' # s"] assms(2) by simp
qed

lemma arrayLoop_roles:
  assumes "\<And>v. v \<in> set rs \<Longrightarrow> plain v" "dquote \<notin> set sep"
  shows "arrayLoop (pre @ sep @ rolesJson rs) (length pre) acc = acc @ rs"
  using assms
proof (induction rs arbitrary: pre sep acc)
  case Nil
  then have "sv_find (pre @ sep) [dquote] (length pre) = None" by (simp add: sv_find_char_None)
  then show ?case by (subst arrayLoop.simps) simp
next
  case (Cons v rs)
  have v: "dquote \<notin> set v" "jsonEscape v = dquote # v @ [dquote]"
    using Cons.prems(1) [of v] by (simp_all add: plain_dquote jsonEscape_plain)
  obtain sep' where t: "rolesJson (v # rs) = dquote # v @ dquote # sep' @ rolesJson rs" "dquote \<notin> set sep'"
    using v(2) by (cases rs) (force intro: that [of "[]"] that [of "'',''"])+
  define content where "content = pre @ sep @ rolesJson (v # rs)"
  have c: "content = pre @ sep @ dquote # v @ dquote # sep' @ rolesJson rs"
    by (simp add: content_def t(1))
  have q1: "sv_find content [dquote] (length pre) = Some (length pre + length sep)"
    using sv_find_char [OF Cons.prems(2), of pre] by (simp add: c)
  have q2: "sv_find content [dquote] (Suc (length pre + length sep)) = Some (Suc (length pre + length sep + length v))"
    using sv_find_char [OF v(1), of "pre @ sep @ [dquote]" "sep' @ rolesJson rs"] by (simp add: c)
  have "arrayLoop content (length pre) acc = arrayLoop content (length (pre @ sep @ dquote # v @ [dquote])) (acc @ [v])"
    using q1 q2 by (subst arrayLoop.simps) (simp add: c sv_substr_def add.assoc)
  also have "\<dots> = (acc @ [v]) @ rs"
    using Cons.IH [of sep' "pre @ sep @ dquote # v @ [dquote]" "acc @ [v]"] Cons.prems(1) t(2) by (simp add: c)
  finally show ?case by (simp add: content_def)
qed

lemma rolesJson_no_bracket:
  "(\<And>v. v \<in> set rs \<Longrightarrow> plain v \<and> CHR '']'' \<notin> set v) \<Longrightarrow> CHR '']'' \<notin> set (rolesJson rs)"
  by (induction rs rule: rolesJson.induct) (auto simp: jsonEscape_plain)

lemma extractJsonStringArray_after:
  assumes "after (jsonKey key @ ''['') json = Some (rolesJson rs @ CHR '']'' # rest)"
    and rs: "\<And>v. v \<in> set rs \<Longrightarrow> plain v \<and> CHR '']'' \<notin> set v"
  shows "extractJsonStringArray json key = rs"
proof -
  let ?n = "jsonKey key @ ''[''"
  obtain k where k: "findStr ?n json = Some k" "drop (k + length ?n) json = rolesJson rs @ CHR '']'' # rest"
    using assms(1) by (auto simp: after_def)
  then have j: "json = (take k json @ ?n) @ rolesJson rs @ CHR '']'' # rest" "length (take k json @ ?n) = k + length ?n"
    using findStr_split [OF k(1)] findStr_Some_bound [OF k(1)] by auto
  have nb: "CHR '']'' \<notin> set (rolesJson rs)" using rolesJson_no_bracket rs by blast
  have "sv_find json '']'' (k + length ?n) = Some (k + length ?n + length (rolesJson rs))"
    using sv_find_char [OF nb, of "take k json @ ?n" rest] j by simp
  moreover have "sv_substr json (k + length ?n) (length (rolesJson rs)) = rolesJson rs"
    using k(2) by (simp add: sv_substr_def)
  moreover have "arrayLoop (rolesJson rs) 0 [] = rs"
    using arrayLoop_roles [of rs "[]" "[]" "[]"] rs by simp
  ultimately show ?thesis
    by (simp add: extractJsonStringArray_def Let_def sv_find_zero k(1))
qed

lemma int_to_string_no_dquote: "dquote \<notin> set (int_to_string i)"
proof -
  have "\<not> isDigit dquote" by (simp add: isDigit_def)
  then have "dquote \<notin> set (to_string n)" for n using to_string_digits [of dquote n] by blast
  then show ?thesis by (auto simp: int_to_string_def)
qed

section \<open>The parts of a token\<close>

lemma split_three:
  assumes "CHR ''.'' \<notin> set a" "CHR ''.'' \<notin> set b" "c \<noteq> []"
  shows "split (a @ ''.'' @ b @ ''.'' @ c) CHR ''.'' 3 = [a, b, c]"
proof -
  define s where "s = a @ CHR ''.'' # b @ CHR ''.'' # c"
  have 1: "sv_find s ''.'' 0 = Some (length a)"
    using sv_find_char [OF assms(1), of "[]" "b @ CHR ''.'' # c"] by (simp add: s_def)
  have 2: "sv_find s ''.'' (Suc (length a)) = Some (Suc (length a + length b))"
    using sv_find_char [OF assms(2), of "a @ ''.''" c] by (simp add: s_def)
  have "splitLoop s CHR ''.'' 3 0 [] = splitLoop s CHR ''.'' 3 (Suc (length a)) [a]"
    using 1 by (subst splitLoop.simps) (simp add: s_def sv_substr_def)
  also have "\<dots> = splitLoop s CHR ''.'' 3 (Suc (Suc (length a + length b))) [a, b]"
    using 2 by (subst splitLoop.simps) (simp add: s_def sv_substr_def)
  also have "\<dots> = [a, b, c]"
    using assms(3) by (subst splitLoop.simps) (simp add: s_def)
  finally show ?thesis by (simp add: split_def s_def)
qed

text \<open>Conversely a token of three parts is the parts joined by dots.\<close>

lemma sv_find_char_Some:
  assumes "sv_find s [c] start = Some pos"
  shows "start \<le> pos" "pos < length s" "drop start s = sv_substr s start (pos - start) @ c # drop (pos + 1) s"
    "c \<notin> set (sv_substr s start (pos - start))"
proof -
  obtain k where k: "start \<le> length s" "findStr [c] (drop start s) = Some k" "pos = start + k"
    using assms by (auto simp: sv_find_def split: if_splits)
  note f = findStr_char_Some [OF k(2)]
  show "start \<le> pos" "pos < length s" "c \<notin> set (sv_substr s start (pos - start))"
    using f k by (auto simp: sv_substr_def)
  have "drop start s = take k (drop start s) @ (drop start s ! k) # drop (Suc k) (drop start s)"
    using f by (intro id_take_nth_drop) simp
  then show "drop start s = sv_substr s start (pos - start) @ c # drop (pos + 1) s"
    using f k by (simp add: sv_substr_def add.commute)
qed

lemma split_three_inv:
  assumes "split s CHR ''.'' 3 = ps" "length ps = 3"
  shows "\<exists>a b c. ps = [a, b, c] \<and> s = a @ ''.'' @ b @ ''.'' @ c"
proof -
  have ne: "0 < length s" using assms by (auto simp: split_def splitLoop.simps)
  obtain p where p: "sv_find s ''.'' 0 = Some p"
    using assms ne by (cases "sv_find s ''.'' 0") (auto simp: split_def splitLoop.simps [of s _ _ 0])
  note 1 = sv_find_char_Some [OF p]
  define a where "a = sv_substr s 0 p"
  have s1: "splitLoop s CHR ''.'' 3 (Suc p) [a] = ps"
    using assms(1) ne p by (simp add: split_def splitLoop.simps [of s _ _ 0] a_def)
  have lt: "Suc p < length s"
    using s1 assms(2) by (cases "Suc p < length s") (auto simp: splitLoop.simps [of s _ _ "Suc p"])
  obtain q where q: "sv_find s ''.'' (Suc p) = Some q"
    using s1 assms(2) lt by (cases "sv_find s ''.'' (Suc p)") (auto simp: splitLoop.simps [of s _ _ "Suc p"])
  note 2 = sv_find_char_Some [OF q]
  define b where "b = sv_substr s (Suc p) (q - (Suc p))"
  have s2: "splitLoop s CHR ''.'' 3 (Suc q) [a, b] = ps"
    using s1 lt q by (simp add: splitLoop.simps [of s _ _ "Suc p"] b_def)
  then have "ps = [a, b, drop (Suc q) s]"
    using assms(2) by (cases "Suc q < length s") (auto simp: splitLoop.simps [of s _ _ "Suc q"])
  moreover have "s = a @ CHR ''.'' # b @ CHR ''.'' # drop (Suc q) s"
    using 1(3) 2(3) by (simp add: a_def b_def)
  ultimately show ?thesis by auto
qed

section \<open>Round trip of the claims\<close>

lemma after_hit_string: "plain v \<Longrightarrow> after (jsonKey k @ [dquote]) (jsonKey k @ jsonEscape v @ s) = Some (v @ dquote # s)"
  using after_hit [of "jsonKey k @ [dquote]" "v @ dquote # s"] by (simp add: jsonEscape_plain)

lemma after_hit_array: "after (jsonKey k @ ''['') (jsonKey k @ CHR ''['' # s) = Some s"
  using after_hit [of "jsonKey k @ ''[''" s] by simp

lemmas json_skip = after_char after_other_key after_plain after_roles after_text
lemmas json_skip_int = json_skip [where r = "[]", simplified]

lemma keys_ok: "key_ok ''sub''" "key_ok ''usr''" "key_ok ''roles''" "key_ok ''jti''" "key_ok ''iat''" "key_ok ''exp''"
  by (simp_all add: key_ok_def)

definition claims_plain :: "TokenClaims \<Rightarrow> bool" where
  "claims_plain claims \<longleftrightarrow> plain (tc_subject claims) \<and> plain (tc_username claims) \<and>
     list_all (\<lambda>r. plain r \<and> CHR '']'' \<notin> set r) (tc_roles claims)"

lemma parseClaims_payload:
  assumes "claims_plain claims" "plain jti"
    and "- (2 ^ 63) \<le> iat" "iat < 2 ^ 63" "- (2 ^ 63) \<le> expi" "expi < 2 ^ 63"
  shows "parseClaims (jwtPayload claims jti iat expi) = claims\<lparr>tc_jti := jti,
      tc_issuedAt := fromEpoch iat, tc_expiresAt := fromEpoch expi\<rparr>"
proof -
  have p: "plain (tc_subject claims)" "plain (tc_username claims)"
    "\<And>v. v \<in> set (tc_roles claims) \<Longrightarrow> plain v"
    "\<And>v. v \<in> set (tc_roles claims) \<Longrightarrow> plain v \<and> CHR '']'' \<notin> set v"
    using assms(1) by (auto simp: claims_plain_def list_all_iff)
  let ?P = "jwtPayload claims jti iat expi"
  have sub: "extractJsonString ?P ''sub'' = tc_subject claims"
    by (rule extractJsonString_after [OF _ plain_dquote [OF p(1)]])
       (simp add: jwtPayload_def after_char after_hit_string p)
  have usr: "extractJsonString ?P ''usr'' = tc_username claims"
    by (rule extractJsonString_after [OF _ plain_dquote [OF p(2)]])
       (simp add: jwtPayload_def json_skip keys_ok after_hit_string p)
  have jti: "extractJsonString ?P ''jti'' = jti"
    by (rule extractJsonString_after [OF _ plain_dquote [OF assms(2)]])
       (simp add: jwtPayload_def json_skip keys_ok after_hit_string p assms)
  have roles: "extractJsonStringArray ?P ''roles'' = tc_roles claims"
    by (rule extractJsonStringArray_after [OF _ p(4)])
       (simp_all add: jwtPayload_def json_skip keys_ok after_hit_array p)
  have iat: "extractJsonInt ?P ''iat'' = iat"
    by (rule extractJsonInt_after [OF _ assms(3,4), where rest = "'','' @ jsonKey ''exp'' @ int_to_string expi @ ''}''"])
       (simp_all add: jwtPayload_def json_skip_int keys_ok p assms isDigit_def)
  have expi: "extractJsonInt ?P ''exp'' = expi"
    by (rule extractJsonInt_after [OF _ assms(5,6), where rest = "''}''"])
       (simp_all add: jwtPayload_def json_skip_int keys_ok int_to_string_no_dquote p assms isDigit_def)
  show ?thesis by (simp add: parseClaims_def sub usr jti roles iat expi)
qed

definition algName :: "JwtAlgorithm \<Rightarrow> string" where
  "algName alg = (case alg of RS256 \<Rightarrow> ''RS256'' | HS256 \<Rightarrow> ''HS256'')"

lemma jwtHeader_HS256: "extractJsonString (jwtHeader HS256) ''alg'' = ''HS256''"
  by code_simp

lemma jwtHeader_RS256: "extractJsonString (jwtHeader RS256) ''alg'' = ''RS256''"
  by code_simp

lemma toEpoch_bounds: "0 \<le> t \<Longrightarrow> t < 2 ^ 63 \<Longrightarrow> 0 \<le> toEpoch t \<and> toEpoch t < 2 ^ 63"
  by (auto simp: toEpoch_def signed_divide_int_def sgn_if)

lemma toEpoch_nonneg: "0 \<le> t \<Longrightarrow> toEpoch t = t div 1000000000"
  by (auto simp: toEpoch_def signed_divide_int_def sgn_if)

lemma hmacSha256_nonempty: "hmacSha256 key message \<noteq> []"
proof -
  have "sha256_digest s \<noteq> []" for s
    by (cases s rule: sha256_digest.cases) (simp add: storeWord_def)
  then show ?thesis by (simp add: hmacSha256_def Let_def sha256_def)
qed

lemma secureRandomHex_plain: "plain (secureRandomHex bs)"
proof -
  have "c \<notin> {dquote, CHR 0x5C, CHR 0x0A, CHR 0x0D, CHR 0x09}" if "isAlnum c" for c
    using that by (auto simp: char_classes)
  then show ?thesis using toHex_alnum by (auto simp: plain_def list_all_iff secureRandomHex_def)
qed

text \<open>What the service relies on when it signs with RSA: a configured key pair whose signatures
  verify.\<close>

definition rsa_keys_match :: "RsaLib \<Rightarrow> TokenProvider \<Rightarrow> bool" where
  "rsa_keys_match rsa tp \<longleftrightarrow> tp_rsaPublicKeyPem tp \<noteq> [] \<and>
     (\<forall>m. rsaSha256Sign rsa (tp_rsaPrivateKeyPem tp) m \<noteq> [] \<and>
          rsaSha256Verify rsa (tp_rsaPublicKeyPem tp) m (rsaSha256Sign rsa (tp_rsaPrivateKeyPem tp) m))"

lemma checkSignature_sign:
  assumes "tp_algorithm tp = RS256 \<longrightarrow> rsa_keys_match rsa tp"
  shows "checkSignature rsa tp (algName (tp_algorithm tp)) m (base64urlEncode (jwtSign rsa tp m)) = Inr ()"
    "jwtSign rsa tp m \<noteq> []"
  using assms hmacSha256_nonempty [of "tp_signingKey tp" m]
  by (cases "tp_algorithm tp";
      simp add: checkSignature_def algName_def jwtSign_def rsa_keys_match_def base64url_roundtrip)+

text \<open>The claims a token carries.\<close>

definition issuedClaims :: "TokenClaims \<Rightarrow> int \<Rightarrow> int \<Rightarrow> bytes \<Rightarrow> TokenClaims" where
  "issuedClaims claims expiry now jtiBytes = claims\<lparr>tc_jti := secureRandomHex jtiBytes,
     tc_issuedAt := fromEpoch (toEpoch (if tc_issuedAt claims > 0 then tc_issuedAt claims else now)),
     tc_expiresAt := fromEpoch (toEpoch (now + expiry))\<rparr>"

definition revokedIn :: "TokenBlacklist option \<Rightarrow> string \<Rightarrow> bool" where
  "revokedIn blacklist jti \<longleftrightarrow> (case blacklist of None \<Rightarrow> False | Some bl \<Rightarrow> jti \<noteq> [] \<and> bl_isRevoked bl jti)"

definition timely :: "TokenClaims \<Rightarrow> int \<Rightarrow> int \<Rightarrow> bool" where
  "timely claims expiry now \<longleftrightarrow> 0 \<le> now \<and> 0 \<le> expiry \<and> now + expiry < 2 ^ 63 \<and> tc_issuedAt claims < 2 ^ 63"

lemma validate_generate:
  assumes plain: "claims_plain claims" and time: "timely claims expiry now"
    and keys: "tp_algorithm tp = RS256 \<longrightarrow> rsa_keys_match rsa tp"
    and tp': "tp_signingKey tp' = tp_signingKey tp" "tp_rsaPublicKeyPem tp' = tp_rsaPublicKeyPem tp"
  shows "validateAccessToken rsa tp' blacklist now' (generateAccessToken rsa tp claims expiry now jtiBytes) =
    (let issued = issuedClaims claims expiry now jtiBytes in
     if now' > tc_expiresAt issued then err TokenExpired ''access token has expired''
     else if revokedIn blacklist (tc_jti issued) then err TokenRevoked ''access token has been revoked''
     else Inr issued)"
proof -
  define iat where "iat = toEpoch (if tc_issuedAt claims > 0 then tc_issuedAt claims else now)"
  define expi where "expi = toEpoch (now + expiry)"
  define jti where "jti = secureRandomHex jtiBytes"
  define h where "h = base64urlEncode (stringBytes (jwtHeader (tp_algorithm tp)))"
  define b where "b = base64urlEncode (stringBytes (jwtPayload claims jti iat expi))"
  define sig where "sig = base64urlEncode (jwtSign rsa tp (h @ ''.'' @ b))"
  have tok: "generateAccessToken rsa tp claims expiry now jtiBytes = h @ ''.'' @ b @ ''.'' @ sig"
    by (simp add: generateAccessToken_def Let_def h_def b_def sig_def iat_def expi_def jti_def)
  have bounds: "0 \<le> iat" "iat < 2 ^ 63" "0 \<le> expi" "expi < 2 ^ 63"
    using time toEpoch_bounds by (auto simp: iat_def expi_def timely_def)
  have sig: "sig \<noteq> []" using checkSignature_sign(2) [OF keys] by (simp add: sig_def)
  have parts: "split (h @ ''.'' @ b @ ''.'' @ sig) CHR ''.'' 3 = [h, b, sig]"
    using base64urlEncode_no_dot sig by (intro split_three) (auto simp: h_def b_def)
  have alg: "extractJsonString (base64urlDecodeString h) ''alg'' = algName (tp_algorithm tp)"
    by (cases "tp_algorithm tp") (simp_all add: h_def algName_def jwtHeader_HS256 jwtHeader_RS256)
  have payload: "base64urlDecodeString b = jwtPayload claims jti iat expi" by (simp add: b_def)
  have ne: "jwtPayload claims jti iat expi \<noteq> []" by (simp add: jwtPayload_def)
  have parsed: "parseClaims (jwtPayload claims jti iat expi) = issuedClaims claims expiry now jtiBytes"
    using parseClaims_payload [OF plain, of jti iat expi] bounds secureRandomHex_plain
    by (simp add: issuedClaims_def iat_def expi_def jti_def)
  have chk: "checkSignature rsa tp' (algName (tp_algorithm tp)) (h @ CHR ''.'' # b) sig = Inr ()"
  proof -
    have "checkSignature rsa tp' a m s = checkSignature rsa tp a m s" for a m s
      by (simp only: checkSignature_def tp')
    then show ?thesis using checkSignature_sign(1) [OF keys, of "h @ ''.'' @ b"] by (simp add: sig_def)
  qed
  show ?thesis
    using chk parts alg unfolding tok validateAccessToken_def
    by (simp add: Let_def payload ne parsed revokedIn_def)
qed

lemma validate_sound:
  assumes "validateAccessToken rsa tp blacklist now token = Inr claims"
  obtains h p s where "token = h @ ''.'' @ p @ ''.'' @ s"
    "checkSignature rsa tp (extractJsonString (base64urlDecodeString h) ''alg'') (h @ ''.'' @ p) s = Inr ()"
    "claims = parseClaims (base64urlDecodeString p)" "now \<le> tc_expiresAt claims" "\<not> revokedIn blacklist (tc_jti claims)"
proof -
  define ps where "ps = split token CHR ''.'' 3"
  have l: "length ps = 3" using assms by (auto simp: validateAccessToken_def ps_def Let_def split: if_splits)
  then obtain h p s where ps: "ps = [h, p, s]" "token = h @ ''.'' @ p @ ''.'' @ s"
    using split_three_inv [of token ps] ps_def by auto
  have chk: "checkSignature rsa tp (extractJsonString (base64urlDecodeString h) ''alg'') (h @ ''.'' @ p) s = Inr ()"
    using assms ps(1) by (auto simp: validateAccessToken_def Let_def ps_def [symmetric] split: sum.splits)
  show ?thesis
  proof (rule that [OF ps(2) chk])
    show "claims = parseClaims (base64urlDecodeString p)" "now \<le> tc_expiresAt claims"
      "\<not> revokedIn blacklist (tc_jti claims)"
      using assms ps(1) chk
      by (auto simp: validateAccessToken_def Let_def ps_def [symmetric] revokedIn_def split: if_splits)
  qed
qed

section \<open>Properties\<close>


definition demoClaims :: TokenClaims where
  "demoClaims = emptyClaims\<lparr>tc_subject := ''42'', tc_username := ''alice'', tc_roles := [''player'', ''gm'']\<rparr>"

definition demoRsa :: RsaLib where
  "demoRsa = \<lparr>rsaSha256Sign = (\<lambda>key m. 1 # stringBytes m), rsaSha256Verify = (\<lambda>key m s. s = 1 # stringBytes m)\<rparr>"

definition demoRs256 :: TokenProvider where
  "demoRs256 = mkTokenProvider (defaultAuthConfig\<lparr>ac_jwtAlgorithm := RS256, ac_rsaPublicKeyPem := ''pem''\<rparr>)"

lemma demo_claims_plain: "claims_plain demoClaims"
  by code_simp

lemma demo_timely: "timely demoClaims (seconds 900) (seconds 1000)"
  by code_simp

lemma demo_keys: "tp_algorithm demoRs256 = RS256 \<longrightarrow> rsa_keys_match demoRsa demoRs256"
  by (simp add: rsa_keys_match_def demoRsa_def demoRs256_def mkTokenProvider_def)

lemma demo_issued: "issuedClaims demoClaims (seconds 900) (seconds 1000) [1, 0xAB] =
  demoClaims\<lparr>tc_jti := ''01ab'', tc_issuedAt := seconds 1000, tc_expiresAt := seconds 1900\<rparr>"
  by code_simp


text \<open>(C11) No forgery: a token is accepted only when it has three parts, its signature part is the
  base64url HMAC of the first two under the signing key (header HS256) or verifies under the
  configured public key (header RS256), it has not expired and its id is not blacklisted; the claims
  returned are those of the signed payload.\<close>

theorem access_token_unforgeable:
  assumes "validateAccessToken rsa tp blacklist now token = Inr claims"
  shows "\<exists>h p s. token = h @ ''.'' @ p @ ''.'' @ s \<and> claims = parseClaims (base64urlDecodeString p) \<and>
    (case extractJsonString (base64urlDecodeString h) ''alg'' of
       alg \<Rightarrow> (alg = ''HS256'' \<and> s = base64urlEncode (hmacSha256 (tp_signingKey tp) (h @ ''.'' @ p))) \<or>
              (alg = ''RS256'' \<and> tp_rsaPublicKeyPem tp \<noteq> [] \<and>
               rsaSha256Verify rsa (tp_rsaPublicKeyPem tp) (h @ ''.'' @ p) (base64urlDecode s))) \<and>
    now \<le> tc_expiresAt claims \<and>
    (case blacklist of None \<Rightarrow> True | Some bl \<Rightarrow> tc_jti claims \<noteq> [] \<longrightarrow> \<not> bl_isRevoked bl (tc_jti claims))"
proof -
  obtain h p s where "token = h @ ''.'' @ p @ ''.'' @ s"
    "checkSignature rsa tp (extractJsonString (base64urlDecodeString h) ''alg'') (h @ ''.'' @ p) s = Inr ()"
    "claims = parseClaims (base64urlDecodeString p)" "now \<le> tc_expiresAt claims" "\<not> revokedIn blacklist (tc_jti claims)"
    using validate_sound [OF assms] by blast
  then show ?thesis
    by (intro exI [of _ h] exI [of _ p] exI [of _ s])
       (auto simp: checkSignature_def revokedIn_def split: if_splits option.splits)
qed

theorem access_token_unforgeable_witness:
  "\<exists>h p s. generateAccessToken demoRsa demoRs256 demoClaims (seconds 900) (seconds 1000) [1, 0xAB]
     = h @ ''.'' @ p @ ''.'' @ s"
proof -
  have "validateAccessToken demoRsa demoRs256 None (seconds 1500)
     (generateAccessToken demoRsa demoRs256 demoClaims (seconds 900) (seconds 1000) [1, 0xAB]) =
   Inr (demoClaims\<lparr>tc_jti := ''01ab'', tc_issuedAt := seconds 1000, tc_expiresAt := seconds 1900\<rparr>)"
    using validate_generate [OF demo_claims_plain demo_timely demo_keys refl refl, of None "seconds 1500" "[1, 0xAB]"]
    unfolding demo_issued Let_def by (simp add: revokedIn_def seconds_def)
  from access_token_unforgeable [OF this] show ?thesis by blast
qed

text \<open>The algorithm is the one the token names, not the one configured: a provider configured
  for RS256 accepts tokens signed with the symmetric key, which then keeps its published default
  unless it is configured as well.\<close>

theorem rs256_provider_accepts_hs256:
  assumes "claims_plain claims" "timely claims expiry now" "tp_algorithm tp = RS256"
    and "now' \<le> tc_expiresAt (issuedClaims claims expiry now jtiBytes)"
  shows "validateAccessToken rsa tp None now'
      (generateAccessToken rsa (tp\<lparr>tp_algorithm := HS256\<rparr>) claims expiry now jtiBytes) =
    Inr (issuedClaims claims expiry now jtiBytes)"
  using validate_generate [OF assms(1,2), of "tp\<lparr>tp_algorithm := HS256\<rparr>" rsa tp None now' jtiBytes] assms(4)
  by (simp add: revokedIn_def)

end
