(* ===== verification/Input_Validator.thy ===== *)
theory Input_Validator
  imports Cpp_Strings
begin

text \<open>
  The input validators of the authentication service (\<^verbatim>\<open>service/input_validator.hpp\<close>): email
  addresses, passwords and user names, with every rejection message, and the declarative formats
  they decide.
\<close>

section \<open>Definitions\<close>

record ValidationResult =
  vr_valid :: bool
  vr_message :: string

definition vr_ok :: ValidationResult where
  "vr_ok = \<lparr>vr_valid = True, vr_message = []\<rparr>"

definition vr_fail :: "string \<Rightarrow> ValidationResult" where
  "vr_fail msg = \<lparr>vr_valid = False, vr_message = msg\<rparr>"

text \<open>Text in single quotes.\<close>

definition quoted :: "string \<Rightarrow> string" where
  "quoted s = CHR 0x27 # s @ [CHR 0x27]"

definition kMaxEmailLength :: nat where "kMaxEmailLength = 254"
definition kMaxLocalPartLength :: nat where "kMaxLocalPartLength = 64"
definition kMaxDomainLength :: nat where "kMaxDomainLength = 253"
definition kMaxDomainLabelLength :: nat where "kMaxDomainLabelLength = 63"
definition kMinUsernameLength :: nat where "kMinUsernameLength = 3"
definition kMaxUsernameLength :: nat where "kMaxUsernameLength = 32"
definition kMaxPasswordLength :: nat where "kMaxPasswordLength = 128"

lemmas iv_limits = kMaxEmailLength_def kMaxLocalPartLength_def kMaxDomainLength_def
  kMaxDomainLabelLength_def kMinUsernameLength_def kMaxUsernameLength_def kMaxPasswordLength_def

definition isLocalSpecialChar :: "char \<Rightarrow> bool" where
  "isLocalSpecialChar c \<longleftrightarrow> c \<in> set (''.!#$%&'' @ [CHR 0x27] @ ''*+/=?^_'' @ [CHR 0x60] @ ''{|}~-'')"

text \<open>The loop over the labels of the domain.\<close>

function labelLoop :: "string \<Rightarrow> nat \<Rightarrow> ValidationResult" where
  "labelLoop domain labelStart =
    (if labelStart < length domain then
       let labelEnd = (case sv_find domain ''.'' labelStart of None \<Rightarrow> length domain | Some p \<Rightarrow> p);
           label = sv_substr domain labelStart (labelEnd - labelStart)
       in if label = [] \<or> length label > kMaxDomainLabelLength then vr_fail ''email domain label is invalid''
          else if hd label = CHR ''-'' \<or> last label = CHR ''-''
          then vr_fail (''email domain label must not start or end with '' @ quoted ''-'')
          else if list_ex (\<lambda>c. \<not> isAlnum c \<and> c \<noteq> CHR ''-'') label
          then vr_fail ''email domain contains invalid character''
          else labelLoop domain (labelEnd + 1)
     else vr_ok)"
  by auto

termination
  by (relation "measure (\<lambda>(domain, labelStart). length domain - labelStart)")
     (auto simp: sv_find_def split: option.splits if_splits)

declare labelLoop.simps [simp del]

definition validateEmail :: "string \<Rightarrow> ValidationResult" where
  "validateEmail email =
    (if email = [] then vr_fail ''email must not be empty''
     else if length email > kMaxEmailLength then vr_fail ''email exceeds maximum length''
     else case sv_find email ''@'' 0 of
       None \<Rightarrow> vr_fail (''email must contain '' @ quoted ''@'')
     | Some atPos \<Rightarrow>
       if atPos = 0 then vr_fail (''email must contain '' @ quoted ''@'')
       else if sv_find email ''@'' (atPos + 1) \<noteq> None then vr_fail (''email must contain exactly one '' @ quoted ''@'')
       else let local = take atPos email; domain = drop (atPos + 1) email in
       if length local > kMaxLocalPartLength then vr_fail ''email local part exceeds 64 characters''
       else if hd local = CHR ''.'' \<or> last local = CHR ''.''
       then vr_fail (''email local part must not start or end with '' @ quoted ''.'')
       else if sv_find local ''..'' 0 \<noteq> None
       then vr_fail ''email local part must not contain consecutive dots''
       else if list_ex (\<lambda>c. \<not> isAlnum c \<and> \<not> isLocalSpecialChar c) local
       then vr_fail ''email local part contains invalid character''
       else if domain = [] \<or> length domain > kMaxDomainLength then vr_fail ''email domain is invalid''
       else if hd domain = CHR ''.'' \<or> last domain = CHR ''.''
       then vr_fail (''email domain must not start or end with '' @ quoted ''.'')
       else if sv_find domain ''..'' 0 \<noteq> None
       then vr_fail ''email domain must not contain consecutive dots''
       else if sv_find domain ''.'' 0 = None then vr_fail ''email domain must have at least one dot''
       else labelLoop domain 0)"

text \<open>The flags the loop over the password sets: upper, lower, digit, special.\<close>

fun passwordFlags :: "bool \<times> bool \<times> bool \<times> bool \<Rightarrow> char \<Rightarrow> bool \<times> bool \<times> bool \<times> bool" where
  "passwordFlags (hasUpper, hasLower, hasDigit, hasSpecial) c =
    (if isUpper c then (True, hasLower, hasDigit, hasSpecial)
     else if isLower c then (hasUpper, True, hasDigit, hasSpecial)
     else if isDigit c then (hasUpper, hasLower, True, hasSpecial)
     else (hasUpper, hasLower, hasDigit, True))"

definition validatePassword :: "string \<Rightarrow> u32 \<Rightarrow> ValidationResult" where
  "validatePassword password minLength =
    (if length password < unat minLength
     then vr_fail (''password must be at least '' @ to_string (unat minLength) @ '' characters'')
     else if length password > kMaxPasswordLength
     then vr_fail (''password must not exceed '' @ to_string kMaxPasswordLength @ '' characters'')
     else case foldl passwordFlags (False, False, False, False) password of
       (hasUpper, hasLower, hasDigit, hasSpecial) \<Rightarrow>
         if \<not> hasUpper then vr_fail ''password must contain at least one uppercase letter''
         else if \<not> hasLower then vr_fail ''password must contain at least one lowercase letter''
         else if \<not> hasDigit then vr_fail ''password must contain at least one digit''
         else if \<not> hasSpecial then vr_fail ''password must contain at least one special character''
         else vr_ok)"

definition kReserved :: "string list" where
  "kReserved = [''admin'', ''administrator'', ''root'', ''system'', ''moderator'', ''mod'', ''support'',
     ''help'', ''server'', ''guest'', ''test'', ''null'']"

definition isReservedUsername :: "string \<Rightarrow> bool" where
  "isReservedUsername username \<longleftrightarrow> list_ex ((=) (map toLower username)) kReserved"

definition isUserSpecial :: "char \<Rightarrow> bool" where
  "isUserSpecial c \<longleftrightarrow> c = CHR ''.'' \<or> c = CHR ''_'' \<or> c = CHR ''-''"

text \<open>The loop over the characters; \<open>None\<close> when it reaches the end.\<close>

fun usernameLoop :: "string \<Rightarrow> bool \<Rightarrow> ValidationResult option" where
  "usernameLoop [] prevSpecial = None"
| "usernameLoop (c # cs) prevSpecial =
    (if \<not> isAlnum c \<and> \<not> isUserSpecial c then Some (vr_fail ''username contains invalid character'')
     else if isUserSpecial c \<and> prevSpecial
     then Some (vr_fail ''username must not contain consecutive special characters'')
     else usernameLoop cs (isUserSpecial c))"

definition validateUsername :: "string \<Rightarrow> ValidationResult" where
  "validateUsername username =
    (if length username < kMinUsernameLength
     then vr_fail (''username must be at least '' @ to_string kMinUsernameLength @ '' characters'')
     else if length username > kMaxUsernameLength
     then vr_fail (''username must not exceed '' @ to_string kMaxUsernameLength @ '' characters'')
     else if \<not> isAlpha (hd username) then vr_fail ''username must start with a letter''
     else case usernameLoop username False of
       Some failure \<Rightarrow> failure
     | None \<Rightarrow>
       if isUserSpecial (last username) then vr_fail ''username must not end with a special character''
       else if isReservedUsername username then vr_fail ''username is reserved''
       else vr_ok)"

section \<open>The formats they decide\<close>

lemma vr_valid_simps [simp]: "vr_valid vr_ok" "\<not> vr_valid (vr_fail m)"
  by (simp_all add: vr_ok_def vr_fail_def)

definition username_format :: "string \<Rightarrow> bool" where
  "username_format u \<longleftrightarrow> 3 \<le> length u \<and> length u \<le> 32 \<and> isAlpha (hd u) \<and>
     (\<forall>c\<in>set u. isAlnum c \<or> isUserSpecial c) \<and>
     (\<forall>i. Suc i < length u \<longrightarrow> \<not> (isUserSpecial (u ! i) \<and> isUserSpecial (u ! Suc i))) \<and>
     \<not> isUserSpecial (last u) \<and> map toLower u \<notin> set kReserved"

lemma usernameLoop_None:
  "usernameLoop u p = None \<longleftrightarrow>
     (\<forall>c\<in>set u. isAlnum c \<or> isUserSpecial c) \<and> (u \<noteq> [] \<longrightarrow> p \<longrightarrow> \<not> isUserSpecial (hd u)) \<and>
     (\<forall>i. Suc i < length u \<longrightarrow> \<not> (isUserSpecial (u ! i) \<and> isUserSpecial (u ! Suc i)))"
proof (induction u arbitrary: p)
  case (Cons c cs)
  have "(\<forall>i. Suc i < length (c # cs) \<longrightarrow> \<not> (isUserSpecial ((c # cs) ! i) \<and> isUserSpecial ((c # cs) ! Suc i)))
    \<longleftrightarrow> (cs \<noteq> [] \<longrightarrow> isUserSpecial c \<longrightarrow> \<not> isUserSpecial (hd cs)) \<and>
       (\<forall>i. Suc i < length cs \<longrightarrow> \<not> (isUserSpecial (cs ! i) \<and> isUserSpecial (cs ! Suc i)))"
    by (cases cs) (auto simp: less_Suc_eq_0_disj All_less_Suc2 hd_conv_nth split: nat.splits)
  then show ?case by (auto simp: Cons.IH simp del: nth_Cons_Suc)
qed simp

lemma usernameLoop_fails: "usernameLoop u p = Some r \<Longrightarrow> \<not> vr_valid r"
  by (induction u p rule: usernameLoop.induct) (auto split: if_splits)

lemma validateUsername_iff: "vr_valid (validateUsername u) \<longleftrightarrow> username_format u"
proof (cases "usernameLoop u False")
  case None
  then have "(\<forall>c\<in>set u. isAlnum c \<or> isUserSpecial c)"
    "(\<forall>i. Suc i < length u \<longrightarrow> \<not> (isUserSpecial (u ! i) \<and> isUserSpecial (u ! Suc i)))"
    using usernameLoop_None [of u False] by auto
  with None show ?thesis
    by (auto simp: validateUsername_def username_format_def iv_limits isReservedUsername_def list_ex_iff)
next
  case (Some r)
  then have "\<not> username_format u" "\<not> vr_valid r"
    using usernameLoop_None [of u False] usernameLoop_fails [OF Some] by (auto simp: username_format_def)
  with Some show ?thesis by (simp add: validateUsername_def)
qed

definition password_format :: "nat \<Rightarrow> string \<Rightarrow> bool" where
  "password_format n p \<longleftrightarrow> n \<le> length p \<and> length p \<le> 128 \<and> (\<exists>c\<in>set p. isUpper c) \<and> (\<exists>c\<in>set p. isLower c) \<and>
     (\<exists>c\<in>set p. isDigit c) \<and> (\<exists>c\<in>set p. \<not> isAlnum c)"

lemma passwordFlags_fold:
  "foldl passwordFlags (u, l, d, s) p =
     (u \<or> (\<exists>c\<in>set p. isUpper c), l \<or> (\<exists>c\<in>set p. isLower c), d \<or> (\<exists>c\<in>set p. isDigit c),
      s \<or> (\<exists>c\<in>set p. \<not> isAlnum c))"
proof (induction p arbitrary: u l d s)
  case (Cons c p)
  have "isUpper c \<Longrightarrow> \<not> isLower c \<and> \<not> isDigit c" "isLower c \<Longrightarrow> \<not> isDigit c"
    by (auto simp: char_classes)
  with Cons show ?case by (auto simp: isAlnum_def isAlpha_def)
qed simp

lemma validatePassword_iff: "vr_valid (validatePassword p n) \<longleftrightarrow> password_format (unat n) p"
  by (auto simp: validatePassword_def password_format_def passwordFlags_fold iv_limits)

text \<open>The pieces of a text between the occurrences of a character.\<close>

fun splitOn :: "char \<Rightarrow> string \<Rightarrow> string list" where
  "splitOn c [] = [[]]"
| "splitOn c (x # xs) =
    (if x = c then [] # splitOn c xs else (case splitOn c xs of [] \<Rightarrow> [[x]] | w # ws \<Rightarrow> (x # w) # ws))"

definition label_format :: "string \<Rightarrow> bool" where
  "label_format l \<longleftrightarrow> l \<noteq> [] \<and> length l \<le> 63 \<and> hd l \<noteq> CHR ''-'' \<and> last l \<noteq> CHR ''-'' \<and>
     (\<forall>c\<in>set l. isAlnum c \<or> c = CHR ''-'')"

definition dots_ok :: "string \<Rightarrow> bool" where
  "dots_ok s \<longleftrightarrow> s \<noteq> [] \<and> hd s \<noteq> CHR ''.'' \<and> last s \<noteq> CHR ''.'' \<and> \<not> sublist ''..'' s"

definition email_format :: "string \<Rightarrow> bool" where
  "email_format email \<longleftrightarrow> length email \<le> 254 \<and> (\<exists>local domain. email = local @ CHR ''@'' # domain \<and>
     CHR ''@'' \<notin> set local \<and> CHR ''@'' \<notin> set domain \<and>
     length local \<le> 64 \<and> dots_ok local \<and> (\<forall>c\<in>set local. isAlnum c \<or> isLocalSpecialChar c) \<and>
     length domain \<le> 253 \<and> dots_ok domain \<and> CHR ''.'' \<in> set domain \<and>
     (\<forall>l\<in>set (splitOn CHR ''.'' domain). label_format l))"

lemma splitOn_none: "c \<notin> set s \<Longrightarrow> splitOn c s = [s]"
  by (induction s) auto

lemma splitOn_append: "c \<notin> set mid \<Longrightarrow> splitOn c (mid @ c # s) = mid # splitOn c s"
  by (induction mid) auto

lemma findStr_None_iff: "findStr n s = None \<longleftrightarrow> \<not> sublist n s"
  by (induction s) (auto simp: sublist_Cons_right)

lemma labelLoop_step:
  assumes "labelStart = length pre" "domain = pre @ label @ rest" "CHR ''.'' \<notin> set label"
    and "label \<noteq> [] \<or> rest \<noteq> []" "rest = [] \<or> hd rest = CHR ''.''"
  shows "vr_valid (labelLoop domain labelStart) \<longleftrightarrow>
    label_format label \<and> vr_valid (labelLoop domain (length pre + length label + 1))"
proof -
  have "(case sv_find domain ''.'' labelStart of None \<Rightarrow> length domain | Some p \<Rightarrow> p) = length pre + length label"
  proof (cases rest)
    case Nil
    then show ?thesis using assms by (simp add: sv_find_char_None)
  next
    case (Cons c cs)
    then show ?thesis using assms sv_find_char [of "CHR ''.''" label pre cs] by simp
  qed
  moreover have "sv_substr domain labelStart (length label) = label"
    using assms by (simp add: sv_substr_def)
  moreover have "labelStart < length domain" using assms by auto
  moreover have "length pre + length label - labelStart = length label" using assms(1) by simp
  ultimately show ?thesis
    by (subst labelLoop.simps) (auto simp: Let_def label_format_def iv_limits list_ex_iff)
qed

lemma labelLoop_iff:
  assumes "s \<noteq> []" "last s \<noteq> CHR ''.''"
  shows "vr_valid (labelLoop (pre @ s) (length pre)) \<longleftrightarrow> (\<forall>l\<in>set (splitOn CHR ''.'' s). label_format l)"
  using assms
proof (induction "length s" arbitrary: s pre rule: less_induct)
  case less
  show ?case
  proof (cases "CHR ''.'' \<in> set s")
    case False
    have "vr_valid (labelLoop (pre @ s) (length pre + length s + 1))" by (simp add: labelLoop.simps)
    with False show ?thesis
      using labelLoop_step [of "length pre" pre "pre @ s" s "[]"] less.prems by (simp add: splitOn_none)
  next
    case True
    then obtain mid s' where s: "s = mid @ CHR ''.'' # s'" "CHR ''.'' \<notin> set mid"
      by (meson split_list_first)
    then have "s' \<noteq> []" "last s' \<noteq> CHR ''.''" using less.prems by (auto split: if_splits)
    then have "vr_valid (labelLoop ((pre @ mid @ ''.'') @ s') (length (pre @ mid @ ''.''))) \<longleftrightarrow>
        (\<forall>l\<in>set (splitOn CHR ''.'' s'). label_format l)"
      by (intro less.hyps) (simp_all add: s)
    then show ?thesis
      using labelLoop_step [of "length pre" pre "pre @ s" mid "CHR ''.'' # s'"] s
      by (simp add: splitOn_append add.assoc)
  qed
qed

lemma validateEmail_iff: "vr_valid (validateEmail email) \<longleftrightarrow> email_format email"
proof (cases "CHR ''@'' \<in> set email")
  case False
  then have "sv_find email ''@'' 0 = None" by (simp add: sv_find_zero findStr_char_None)
  with False show ?thesis by (auto simp: validateEmail_def email_format_def)
next
  case True
  then obtain local domain where e: "email = local @ CHR ''@'' # domain" "CHR ''@'' \<notin> set local"
    by (meson split_list_first)
  have f: "sv_find email ''@'' 0 = Some (length local)"
    using e by (simp add: sv_find_zero findStr_char)
  have g: "sv_find email ''@'' (length local + 1) = None \<longleftrightarrow> CHR ''@'' \<notin> set domain"
    using sv_find_at [of "local @ ''@''" domain "''@''"] by (simp add: e findStr_char_None)
  have u: "email_format email \<longleftrightarrow> length email \<le> 254 \<and>
     CHR ''@'' \<notin> set domain \<and>
     length local \<le> 64 \<and> dots_ok local \<and> (\<forall>c\<in>set local. isAlnum c \<or> isLocalSpecialChar c) \<and>
     length domain \<le> 253 \<and> dots_ok domain \<and> CHR ''.'' \<in> set domain \<and>
     (\<forall>l\<in>set (splitOn CHR ''.'' domain). label_format l)" (is "_ \<longleftrightarrow> ?R")
  proof -
    have "(\<exists>l d. local @ CHR ''@'' # domain = l @ CHR ''@'' # d \<and> CHR ''@'' \<notin> set l \<and> P l d) \<longleftrightarrow> P local domain" for P
      using split_at_unique [OF e(2)] e(2) by auto
    then show ?thesis unfolding email_format_def e(1) by (rule arg_cong)
  qed
  have d: "vr_valid (labelLoop domain 0) \<longleftrightarrow> (\<forall>l\<in>set (splitOn CHR ''.'' domain). label_format l)"
    if "dots_ok domain" using labelLoop_iff [of domain "[]"] that by (simp add: dots_ok_def)
  have parts: "take (length local) email = local" "drop (length local + 1) email = domain" "email \<noteq> []"
    by (simp_all add: e(1))
  have dots: "sv_find s ''..'' 0 = None \<longleftrightarrow> \<not> sublist ''..'' s" "sv_find s ''.'' 0 = None \<longleftrightarrow> CHR ''.'' \<notin> set s" for s
    by (simp only: sv_find_zero findStr_None_iff, simp only: sv_find_zero findStr_char_None)
  show ?thesis
    unfolding validateEmail_def u f option.case Let_def parts g dots
    using d by (auto simp: iv_limits dots_ok_def list_ex_iff parts)
qed

lemma username_chars: "username_format u \<Longrightarrow> c \<in> set u \<Longrightarrow> isAlnum c \<or> isUserSpecial c"
  by (simp add: username_format_def)

section \<open>Properties\<close>

text \<open>The validators decide the documented formats exactly: a user name has 3 to 32
  characters, starts with a letter, uses letters, digits and single \<open>.\<close>, \<open>_\<close>, \<open>-\<close> between them and
  is not a reserved name in any capitalisation; a password has the required length, at most 128
  characters and every character class; an email address is a dot-atom, one \<open>@\<close> and a domain of at
  least two well-formed labels within the length limits.\<close>

theorem validators_exact:
  "vr_valid (validateUsername u) = username_format u \<and>
   vr_valid (validatePassword p n) = password_format (unat n) p \<and>
   vr_valid (validateEmail e) = email_format e"
  by (simp add: validateUsername_iff validatePassword_iff validateEmail_iff)

end
