(* ===== verification/Auth_Server.thy ===== *)
theory Auth_Server
  imports Token_Provider Input_Validator
begin

text \<open>
  The authentication server (\<^verbatim>\<open>service/auth_server.hpp\<close>, \<^verbatim>\<open>services/auth/auth_server.cpp\<close>):
  registration, login, rotation of refresh tokens, logout, validation and revocation of access
  tokens over the stores of \<^verbatim>\<open>Auth_Stores\<close>. Each call runs alone. The clock readings of a call
  are \<open>clk 0\<close>, \<open>clk 1\<close>, \dots and its random bytes \<open>rnd 0\<close>, \<open>rnd 1\<close>, \dots in the order the code
  takes them.
\<close>

section \<open>Definitions\<close>

record AuthServer =
  as_config :: AuthConfig
  as_userRepo :: UserRepository
  as_tokenStore :: TokenStore
  as_tokenProvider :: TokenProvider
  as_rateLimiter :: RateLimiter
  as_blacklist :: TokenBlacklist

definition mkAuthServer :: "AuthConfig \<Rightarrow> UserRepository \<Rightarrow> TokenStore \<Rightarrow> int \<Rightarrow> AuthServer" where
  "mkAuthServer config userRepo tokenStore now =
    \<lparr>as_config = config, as_userRepo = userRepo, as_tokenStore = tokenStore,
     as_tokenProvider = mkTokenProvider config,
     as_rateLimiter = mkRateLimiter (ac_rateLimitMaxAttempts config) (ac_rateLimitWindow config),
     as_blacklist = mkTokenBlacklist (ac_blacklistCleanupInterval config) now\<rparr>"

definition as_isValidEmail :: "string \<Rightarrow> bool" where
  "as_isValidEmail email = vr_valid (validateEmail email)"

definition as_isValidUsername :: "string \<Rightarrow> bool" where
  "as_isValidUsername username = vr_valid (validateUsername username)"

definition as_isStrongPassword :: "AuthServer \<Rightarrow> string \<Rightarrow> bool" where
  "as_isStrongPassword s password = vr_valid (validatePassword password (ac_minPasswordLength (as_config s)))"

definition newUserRecord :: "UserCredentials \<Rightarrow> HashedPassword \<Rightarrow> UserRecord" where
  "newUserRecord credentials hashed = \<lparr>ur_id = 0, ur_username = uc_username credentials,
     ur_email = uc_email credentials, ur_passwordHash = hp_hash hashed, ur_salt = hp_salt hashed,
     ur_status = Active, ur_roles = [''player''], ur_createdAt = 0, ur_updatedAt = 0\<rparr>"

definition as_registerUser ::
  "UserCredentials \<Rightarrow> (nat \<Rightarrow> int) \<Rightarrow> (nat \<Rightarrow> bytes) \<Rightarrow> AuthServer \<Rightarrow> UserRecord GameResult \<times> AuthServer" where
  "as_registerUser credentials clk rnd s =
    (if \<not> as_isValidUsername (uc_username credentials)
     then (err InvalidUsername (vr_message (validateUsername (uc_username credentials))), s)
     else if \<not> as_isValidEmail (uc_email credentials)
     then (err InvalidEmail (vr_message (validateEmail (uc_email credentials))), s)
     else if \<not> as_isStrongPassword s (uc_password credentials)
     then (err WeakPassword (vr_message (validatePassword (uc_password credentials) (ac_minPasswordLength (as_config s)))), s)
     else if up_findByUsername (as_userRepo s) (uc_username credentials) \<noteq> None
     then (err UserAlreadyExists ''username already taken'', s)
     else if up_findByEmail (as_userRepo s) (uc_email credentials) \<noteq> None
     then (err UserAlreadyExists ''email already registered'', s)
     else let hashed = ph_hash (uc_password credentials) (rnd 0);
              (i, users) = up_create (newUserRecord credentials hashed) (clk 0) (as_userRepo s)
          in (Inr (the (up_findById users i)), s\<lparr>as_userRepo := users\<rparr>))"

definition userClaims :: "UserRecord \<Rightarrow> TokenClaims" where
  "userClaims user = emptyClaims\<lparr>tc_subject := to_string (unat (ur_id user)),
     tc_username := ur_username user, tc_roles := ur_roles user\<rparr>"

text \<open>The common tail of \<^verbatim>\<open>login\<close> and \<^verbatim>\<open>refreshToken\<close>: sign an access token, store a new refresh
  token; \<open>t\<close> and \<open>t'\<close> are the clock readings of the two.\<close>

definition issueTokens ::
  "RsaLib \<Rightarrow> UserRecord \<Rightarrow> int \<Rightarrow> int \<Rightarrow> bytes \<Rightarrow> bytes \<Rightarrow> AuthServer \<Rightarrow> TokenPair \<times> AuthServer" where
  "issueTokens rsa user t t' jtiBytes refreshBytes s =
    (let accessToken = generateAccessToken rsa (as_tokenProvider s) (userClaims user)
                         (ac_accessTokenExpiry (as_config s)) t jtiBytes;
         refreshTokenStr = generateRefreshToken refreshBytes;
         refreshRecord = \<lparr>rt_token = refreshTokenStr, rt_userId = ur_id user,
                          rt_expiresAt = t' + ac_refreshTokenExpiry (as_config s), rt_revoked = False\<rparr>
     in (\<lparr>tk_accessToken = accessToken, tk_refreshToken = refreshTokenStr,
          tk_accessExpiresIn = ac_accessTokenExpiry (as_config s),
          tk_refreshExpiresIn = ac_refreshTokenExpiry (as_config s)\<rparr>,
         s\<lparr>as_tokenStore := ts_store refreshRecord (as_tokenStore s)\<rparr>))"

definition as_login ::
  "RsaLib \<Rightarrow> string \<Rightarrow> string \<Rightarrow> string \<Rightarrow> (nat \<Rightarrow> int) \<Rightarrow> (nat \<Rightarrow> bytes) \<Rightarrow> AuthServer
     \<Rightarrow> TokenPair GameResult \<times> AuthServer" where
  "as_login rsa username password clientIp clk rnd s =
    (case rl_allow clientIp (clk 0) (clk 1) (as_rateLimiter s) of (allowed, rl) \<Rightarrow>
     let s = s\<lparr>as_rateLimiter := rl\<rparr> in
     if \<not> allowed then (err RateLimitExceeded ''too many login attempts, try again later'', s)
     else case up_findByUsername (as_userRepo s) username of
       None \<Rightarrow> (err InvalidCredentials ''invalid username or password'', s)
     | Some user \<Rightarrow>
       if ur_status user \<noteq> Active then (err AuthenticationFailed ''account is not active'', s)
       else if \<not> ph_verify password (ur_passwordHash user) (ur_salt user)
       then (err InvalidCredentials ''invalid username or password'', s)
       else (case issueTokens rsa user (clk 2) (clk 3) (rnd 0) (rnd 1) s of
               (pair, s) \<Rightarrow> (Inr pair, s\<lparr>as_rateLimiter := rl_reset clientIp (as_rateLimiter s)\<rparr>)))"

definition as_refreshToken ::
  "RsaLib \<Rightarrow> string \<Rightarrow> (nat \<Rightarrow> int) \<Rightarrow> (nat \<Rightarrow> bytes) \<Rightarrow> AuthServer \<Rightarrow> TokenPair GameResult \<times> AuthServer" where
  "as_refreshToken rsa token clk rnd s =
    (case ts_find (as_tokenStore s) token of
       None \<Rightarrow> (err InvalidToken ''refresh token not found'', s)
     | Some record \<Rightarrow>
       if rt_revoked record then (err TokenRevoked ''refresh token has been revoked'', s)
       else if clk 0 > rt_expiresAt record then (err RefreshTokenExpired ''refresh token has expired'', s)
       else case up_findById (as_userRepo s) (rt_userId record) of
         None \<Rightarrow> (err AuthenticationFailed ''user not found for refresh token'', s)
       | Some user \<Rightarrow>
           let s = s\<lparr>as_tokenStore := snd (ts_revoke token (as_tokenStore s))\<rparr>
           in (case issueTokens rsa user (clk 1) (clk 2) (rnd 0) (rnd 1) s of (pair, s) \<Rightarrow> (Inr pair, s)))"

definition as_logout :: "string \<Rightarrow> AuthServer \<Rightarrow> unit GameResult \<times> AuthServer" where
  "as_logout token s =
    (case ts_find (as_tokenStore s) token of
       None \<Rightarrow> (err InvalidToken ''refresh token not found'', s)
     | Some record \<Rightarrow> (Inr (), s\<lparr>as_tokenStore := ts_revokeAllForUser (rt_userId record) (as_tokenStore s)\<rparr>))"

definition as_validateToken :: "RsaLib \<Rightarrow> AuthServer \<Rightarrow> int \<Rightarrow> string \<Rightarrow> TokenClaims GameResult" where
  "as_validateToken rsa s now accessToken =
    validateAccessToken rsa (as_tokenProvider s) (Some (as_blacklist s)) now accessToken"

text \<open>The two searches for a dot come first; the token is then validated.\<close>

definition hasTwoDots :: "string \<Rightarrow> bool" where
  "hasTwoDots token = (case sv_find token ''.'' 0 of None \<Rightarrow> False
     | Some pos \<Rightarrow> sv_find token ''.'' (pos + 1) \<noteq> None)"

definition as_revokeAccessToken ::
  "RsaLib \<Rightarrow> string \<Rightarrow> (nat \<Rightarrow> int) \<Rightarrow> AuthServer \<Rightarrow> unit GameResult \<times> AuthServer" where
  "as_revokeAccessToken rsa accessToken clk s =
    (if \<not> hasTwoDots accessToken then (err InvalidToken ''malformed JWT: expected 3 parts'', s)
     else case as_validateToken rsa s (clk 0) accessToken of
       Inl e \<Rightarrow> if ge_code e = TokenExpired \<or> ge_code e = TokenRevoked then (Inr (), s) else (Inl e, s)
     | Inr claims \<Rightarrow>
         if tc_jti claims = [] then (err InvalidToken ''token has no jti claim for revocation'', s)
         else (Inr (), s\<lparr>as_blacklist := bl_revoke (tc_jti claims) (tc_expiresAt claims) (clk 1) (as_blacklist s)\<rparr>))"

definition as_cleanupBlacklist :: "int \<Rightarrow> AuthServer \<Rightarrow> nat \<times> AuthServer" where
  "as_cleanupBlacklist now s =
    (case bl_cleanup now (as_blacklist s) of (removed, bl) \<Rightarrow> (removed, s\<lparr>as_blacklist := bl\<rparr>))"

section \<open>Runs of the server\<close>

datatype auth_event =
    EvRegister UserCredentials "nat \<Rightarrow> int" "nat \<Rightarrow> bytes"
  | EvLogin string string string "nat \<Rightarrow> int" "nat \<Rightarrow> bytes"
  | EvRefresh string "nat \<Rightarrow> int" "nat \<Rightarrow> bytes"
  | EvLogout string
  | EvRevoke string "nat \<Rightarrow> int"
  | EvCleanup int

definition as_step :: "RsaLib \<Rightarrow> auth_event \<Rightarrow> AuthServer \<Rightarrow> AuthServer" where
  "as_step rsa ev s = (case ev of
     EvRegister c clk rnd \<Rightarrow> snd (as_registerUser c clk rnd s)
   | EvLogin u p ip clk rnd \<Rightarrow> snd (as_login rsa u p ip clk rnd s)
   | EvRefresh t clk rnd \<Rightarrow> snd (as_refreshToken rsa t clk rnd s)
   | EvLogout t \<Rightarrow> snd (as_logout t s)
   | EvRevoke t clk \<Rightarrow> snd (as_revokeAccessToken rsa t clk s)
   | EvCleanup now \<Rightarrow> snd (as_cleanupBlacklist now s))"

definition as_run :: "RsaLib \<Rightarrow> auth_event list \<Rightarrow> AuthServer \<Rightarrow> AuthServer" where
  "as_run rsa evs s = fold (as_step rsa) evs s"

lemmas as_ops = as_registerUser_def as_login_def as_refreshToken_def as_logout_def
  as_revokeAccessToken_def as_cleanupBlacklist_def

text \<open>An invariant that every event keeps holds after every run.\<close>

lemma as_run_invariant:
  assumes "P s" "\<And>ev s. P s \<Longrightarrow> P (as_step rsa ev s)"
  shows "P (as_run rsa evs s)"
  using assms(1) unfolding as_run_def
  by (induction evs arbitrary: s) (auto intro: assms(2))

lemma issueTokens_state:
  "snd (issueTokens rsa user t t' j r s) =
   s\<lparr>as_tokenStore := ts_store \<lparr>rt_token = generateRefreshToken r, rt_userId = ur_id user,
       rt_expiresAt = t' + ac_refreshTokenExpiry (as_config s), rt_revoked = False\<rparr> (as_tokenStore s)\<rparr>"
  by (simp add: issueTokens_def Let_def)

text \<open>The configuration and the token provider never change.\<close>

lemma as_step_config [simp]:
  "as_config (as_step rsa ev s) = as_config s" "as_tokenProvider (as_step rsa ev s) = as_tokenProvider s"
  by (cases ev; simp add: as_step_def as_ops issueTokens_def Let_def case_prod_beta split: option.splits sum.splits)+

lemma as_run_config [simp]:
  "as_config (as_run rsa evs s) = as_config s" "as_tokenProvider (as_run rsa evs s) = as_tokenProvider s"
  by (rule as_run_invariant [where P = "\<lambda>x. as_config x = as_config s"]; simp)
     (rule as_run_invariant [where P = "\<lambda>x. as_tokenProvider x = as_tokenProvider s"]; simp)

section \<open>Refresh tokens\<close>

lemma dead_step: "tks.dead (as_tokenStore s) t \<Longrightarrow> tks.dead (as_tokenStore (as_step rsa ev s)) t"
  by (cases ev)
     (auto simp: as_step_def as_ops issueTokens_def Let_def case_prod_beta
       intro: tks.dead_add tks.dead_revoke tks.dead_revokeUser split: option.splits sum.splits)

lemma dead_run: "tks.dead (as_tokenStore s) t \<Longrightarrow> tks.dead (as_tokenStore (as_run rsa evs s)) t"
  by (rule as_run_invariant [where P = "\<lambda>s. tks.dead (as_tokenStore s) t"]) (auto intro: dead_step)

lemma dead_refresh:
  "tks.dead (as_tokenStore s) t \<Longrightarrow>
   as_refreshToken rsa t clk rnd s = (err TokenRevoked ''refresh token has been revoked'', s)"
  by (auto simp: tks.dead_def as_refreshToken_def)

lemma refresh_kills:
  "as_refreshToken rsa t clk rnd s = (Inr pair, s') \<Longrightarrow> tks.dead (as_tokenStore s') t"
  by (auto simp: as_refreshToken_def issueTokens_def Let_def split: option.splits if_splits
      intro!: tks.dead_add tks.revoke_dead)

lemma logout_kills:
  "as_logout t' s = (Inr (), s') \<Longrightarrow> ts_find (as_tokenStore s) t' = Some r' \<Longrightarrow>
   ts_find (as_tokenStore s) t = Some r \<Longrightarrow> rt_userId r = rt_userId r' \<Longrightarrow> tks.dead (as_tokenStore s') t"
  by (auto simp: as_logout_def intro: tks.revokeUser_dead)

section \<open>Users\<close>

definition users_inv :: "AuthServer \<Rightarrow> bool" where
  "users_inv s \<longleftrightarrow> up_ok (as_userRepo s) \<and> users.unique (as_userRepo s) \<and>
     (\<forall>i r. up_findById (as_userRepo s) i = Some r \<longrightarrow>
        username_format (ur_username r) \<and> email_format (ur_email r))"

lemma register_cases:
  assumes "as_registerUser c clk rnd s = (res, s')"
  obtains e where "res = Inl e" "s' = s"
  | i users where "as_isValidUsername (uc_username c)" "as_isValidEmail (uc_email c)"
      "up_findByUsername (as_userRepo s) (uc_username c) = None" "up_findByEmail (as_userRepo s) (uc_email c) = None"
      "up_create (newUserRecord c (ph_hash (uc_password c) (rnd 0))) (clk 0) (as_userRepo s) = (i, users)"
      "res = Inr (the (up_findById users i))" "s' = s\<lparr>as_userRepo := users\<rparr>"
proof -
  obtain i users where c: "up_create (newUserRecord c (ph_hash (uc_password c) (rnd 0))) (clk 0) (as_userRepo s) = (i, users)"
    by (cases "up_create (newUserRecord c (ph_hash (uc_password c) (rnd 0))) (clk 0) (as_userRepo s)")
  have "(\<exists>e. res = Inl e) \<and> s' = s \<or> as_isValidUsername (uc_username c) \<and> as_isValidEmail (uc_email c) \<and>
      up_findByUsername (as_userRepo s) (uc_username c) = None \<and> up_findByEmail (as_userRepo s) (uc_email c) = None \<and>
      res = Inr (the (up_findById users i)) \<and> s' = s\<lparr>as_userRepo := users\<rparr>"
    using assms unfolding as_registerUser_def Let_def c by (simp split: if_splits) blast+
  then show ?thesis using that(1) that(2) [OF _ _ _ _ c] by blast
qed

lemma users_inv_register:
  assumes "users_inv s" "up_room (as_userRepo s)"
  shows "users_inv (snd (as_registerUser c clk rnd s))"
proof (cases "as_registerUser c clk rnd s")
  case (Pair res s')
  show ?thesis
    using Pair
  proof (cases rule: register_cases)
    case 1
    then show ?thesis using assms Pair by simp
  next
    case (2 i users)
    let ?r = "newUserRecord c (ph_hash (uc_password c) (rnd 0))"
    have ok: "up_ok (as_userRepo s)" "users.unique (as_userRepo s)" using assms by (simp_all add: users_inv_def)
    have n: "ur_username ?r = uc_username c" "ur_email ?r = uc_email c" by (simp_all add: newUserRecord_def)
    have u: "users = snd (up_create ?r (clk 0) (as_userRepo s))" using 2(5) by simp
    have "up_ok users" "users.unique users"
      unfolding u using users.create_ok users.create_unique ok assms(2) 2(3,4) n by metis+
    moreover have "username_format (ur_username r) \<and> email_format (ur_email r)" if "up_findById users j = Some r" for j r
      using that assms(1) 2(1,2) n unfolding u users.create_lookup [OF ok(1) assms(2)]
      by (auto simp: users_inv_def as_isValidUsername_def as_isValidEmail_def validateUsername_iff
          validateEmail_iff split: if_splits)
    ultimately show ?thesis using 2(7) Pair by (simp add: users_inv_def)
  qed
qed

lemma users_other: "(\<And>c clk rnd. ev \<noteq> EvRegister c clk rnd) \<Longrightarrow> as_userRepo (as_step rsa ev s) = as_userRepo s"
  by (cases ev)
     (auto simp: as_step_def as_ops issueTokens_def Let_def case_prod_beta split: option.splits sum.splits)

lemma users_inv_step: "users_inv s \<Longrightarrow> up_room (as_userRepo s) \<Longrightarrow> users_inv (as_step rsa ev s)"
proof (cases "\<exists>c clk rnd. ev = EvRegister c clk rnd")
  case True
  then show "users_inv s \<Longrightarrow> up_room (as_userRepo s) \<Longrightarrow> ?thesis"
    using users_inv_register by (auto simp: as_step_def)
next
  case False
  then show "users_inv s \<Longrightarrow> up_room (as_userRepo s) \<Longrightarrow> ?thesis"
    using users_other [of ev rsa s] by (simp add: users_inv_def)
qed

lemma nextId_step:
  "up_room (as_userRepo s) \<Longrightarrow> unat (up_nextId (as_userRepo (as_step rsa ev s))) \<le> unat (up_nextId (as_userRepo s)) + 1"
proof (cases "\<exists>c clk rnd. ev = EvRegister c clk rnd")
  case True
  assume "up_room (as_userRepo s)"
  then have "unat (up_nextId (as_userRepo s) + 1) = unat (up_nextId (as_userRepo s)) + 1"
    by (intro unat_plus_1) (simp add: up_room_def)
  with True show ?thesis
    by (auto simp: as_step_def as_registerUser_def up_create_def Let_def)
qed (simp add: users_other)

lemma users_inv_run:
  "users_inv s \<Longrightarrow> unat (up_nextId (as_userRepo s)) + length evs < 2 ^ 64 \<Longrightarrow> users_inv (as_run rsa evs s)"
proof (induction evs arbitrary: s)
  case (Cons ev evs)
  then have room: "up_room (as_userRepo s)" by (simp add: up_room_def)
  have "users_inv (as_run rsa evs (as_step rsa ev s))"
    using nextId_step [OF room, of rsa ev] Cons.prems
    by (intro Cons.IH users_inv_step [OF _ room]) simp_all
  then show ?case by (simp add: as_run_def)
qed (simp add: as_run_def)

section \<open>Revoked access tokens\<close>

lemma map_of_filter_snd:
  "umap_wf m \<Longrightarrow> map_of (filter (\<lambda>e. P (snd e)) m) k =
     (case map_of m k of None \<Rightarrow> None | Some v \<Rightarrow> if P v then Some v else None)"
proof (induction m)
  case (Cons e m)
  obtain x v where e: "e = (x, v)" by (cases e)
  have "umap_wf m" "map_of m x = None" using Cons.prems by (auto simp: umap_wf_def e map_of_eq_None_iff)
  then show ?case using Cons.IH by (auto simp: e)
qed simp

lemmas map_of_live = map_of_filter_snd [where P = "\<lambda>v. \<not> v \<le> now" for now]

text \<open>A revoked token stays in the blacklist until a cleanup after its expiry.\<close>

definition bl_guard :: "string \<Rightarrow> int \<Rightarrow> int \<Rightarrow> TokenBlacklist \<Rightarrow> bool" where
  "bl_guard jti expi T bl \<longleftrightarrow> umap_wf (bl_entries bl) \<and> (map_of (bl_entries bl) jti = Some expi \<or> expi \<le> T)"

lemma bl_guard_revoke: "bl_guard jti expi T bl \<Longrightarrow> now \<le> T \<Longrightarrow> bl_guard jti expi T (bl_revoke j e now bl)"
  by (auto simp: bl_guard_def bl_revoke_def Let_def map_of_emplace map_of_live)

lemma bl_guard_cleanup: "bl_guard jti expi T bl \<Longrightarrow> now \<le> T \<Longrightarrow> bl_guard jti expi T (snd (bl_cleanup now bl))"
  by (auto simp: bl_guard_def bl_cleanup_def map_of_live)

lemma bl_guard_start:
  "umap_wf (bl_entries bl) \<Longrightarrow> \<not> bl_isRevoked bl jti \<Longrightarrow> now \<le> T \<Longrightarrow> bl_guard jti expi T (bl_revoke jti expi now bl)"
  by (auto simp: bl_guard_def bl_revoke_def bl_isRevoked_def Let_def map_of_emplace map_of_live)

text \<open>The clock readings an event uses for the blacklist are not later than \<open>T\<close>.\<close>

fun cleans_before :: "int \<Rightarrow> auth_event \<Rightarrow> bool" where
  "cleans_before T (EvRevoke t clk) \<longleftrightarrow> clk 1 \<le> T"
| "cleans_before T (EvCleanup now) \<longleftrightarrow> now \<le> T"
| "cleans_before T ev \<longleftrightarrow> True"

lemma bl_guard_step:
  "bl_guard jti expi T (as_blacklist s) \<Longrightarrow> cleans_before T ev \<Longrightarrow> bl_guard jti expi T (as_blacklist (as_step rsa ev s))"
  by (cases ev)
     (auto simp: as_step_def as_ops issueTokens_def Let_def case_prod_beta
       intro: bl_guard_revoke bl_guard_cleanup split: option.splits sum.splits)

lemma bl_guard_run:
  "bl_guard jti expi T (as_blacklist s) \<Longrightarrow> list_all (cleans_before T) evs \<Longrightarrow>
   bl_guard jti expi T (as_blacklist (as_run rsa evs s))"
  unfolding as_run_def by (induction evs arbitrary: s) (auto intro: bl_guard_step)

text \<open>What a token means does not depend on the state: only its acceptance does.\<close>

lemma validate_claims_unique:
  assumes "validateAccessToken rsa tp bl now token = Inr claims"
    and "validateAccessToken rsa tp bl' now' token = Inr claims'"
  shows "claims' = claims"
  using assms by (auto simp: validateAccessToken_def Let_def split: if_splits sum.splits)

lemma validate_hasTwoDots: "validateAccessToken rsa tp bl now token = Inr claims \<Longrightarrow> hasTwoDots token"
proof -
  assume "validateAccessToken rsa tp bl now token = Inr claims"
  then obtain h p q where t: "token = h @ ''.'' @ p @ ''.'' @ q" using validate_sound by metis
  then obtain x y where s: "token = x @ CHR ''.'' # y" "CHR ''.'' \<notin> set x"
    using split_list_first [of "CHR ''.''" token] by auto
  have "count_list token CHR ''.'' \<ge> 2" by (simp add: t)
  moreover have "count_list x CHR ''.'' = 0" using s(2) by (simp add: count_list_0_iff)
  ultimately have "count_list y CHR ''.'' \<noteq> 0" using s(1) by auto
  then have "CHR ''.'' \<in> set y" by (meson count_list_0_iff)
  then have "sv_find token ''.'' (length x + 1) \<noteq> None"
    using sv_find_at [of "x @ ''.''" y "''.''"] findStr_char_None [of "CHR ''.''" y] by (auto simp: s(1))
  moreover have "sv_find token ''.'' 0 = Some (length x)"
    using s by (simp add: sv_find_zero findStr_char)
  ultimately show ?thesis by (simp add: hasTwoDots_def)
qed

section \<open>Login\<close>

lemma login_cases:
  "as_login rsa u p ip clk rnd s =
    (case rl_allow ip (clk 0) (clk 1) (as_rateLimiter s) of (allowed, rl) \<Rightarrow>
     if \<not> allowed then (err RateLimitExceeded ''too many login attempts, try again later'', s\<lparr>as_rateLimiter := rl\<rparr>)
     else case up_findByUsername (as_userRepo s) u of
       None \<Rightarrow> (err InvalidCredentials ''invalid username or password'', s\<lparr>as_rateLimiter := rl\<rparr>)
     | Some user \<Rightarrow>
       if ur_status user \<noteq> Active then (err AuthenticationFailed ''account is not active'', s\<lparr>as_rateLimiter := rl\<rparr>)
       else if ur_passwordHash user \<noteq> hashWithSalt p (ur_salt user)
       then (err InvalidCredentials ''invalid username or password'', s\<lparr>as_rateLimiter := rl\<rparr>)
       else (Inr (fst (issueTokens rsa user (clk 2) (clk 3) (rnd 0) (rnd 1) s)),
             (snd (issueTokens rsa user (clk 2) (clk 3) (rnd 0) (rnd 1) s))\<lparr>as_rateLimiter := rl_reset ip rl\<rparr>))"
  by (cases "up_findByUsername (as_userRepo s) u")
     (simp_all add: as_login_def Let_def ph_verify_iff case_prod_beta issueTokens_def)

lemma username_plain: "username_format u \<Longrightarrow> plain u"
proof -
  have "c \<notin> {dquote, CHR 0x5C, CHR 0x0A, CHR 0x0D, CHR 0x09}" if "isAlnum c \<or> isUserSpecial c" for c
    using that by (auto simp: char_classes isUserSpecial_def)
  then show "username_format u \<Longrightarrow> plain u"
    using username_chars by (auto simp: plain_def list_all_iff)
qed

lemma to_string_plain: "plain (to_string n)"
proof -
  have "c \<notin> {dquote, CHR 0x5C, CHR 0x0A, CHR 0x0D, CHR 0x09}" if "isDigit c" for c
    using that by (auto simp: char_classes)
  then show ?thesis using to_string_digits by (auto simp: plain_def list_all_iff)
qed

text \<open>The roles of a user can be put into a token.\<close>

definition roles_plain :: "UserRecord \<Rightarrow> bool" where
  "roles_plain user \<longleftrightarrow> list_all (\<lambda>r. plain r \<and> CHR '']'' \<notin> set r) (ur_roles user)"

lemma userClaims_plain:
  "username_format (ur_username user) \<Longrightarrow> roles_plain user \<Longrightarrow> claims_plain (userClaims user)"
  by (simp add: claims_plain_def userClaims_def username_plain to_string_plain roles_plain_def)

text \<open>A time at which the server issues tokens: 64-bit nanoseconds hold it and the expiry.\<close>

definition issuing_ok :: "AuthServer \<Rightarrow> int \<Rightarrow> bool" where
  "issuing_ok s t \<longleftrightarrow> 0 \<le> t \<and> 0 \<le> ac_accessTokenExpiry (as_config s) \<and>
     t + ac_accessTokenExpiry (as_config s) < 2 ^ 63"

definition signing_ok :: "RsaLib \<Rightarrow> AuthServer \<Rightarrow> bool" where
  "signing_ok rsa s \<longleftrightarrow> (tp_algorithm (as_tokenProvider s) = RS256 \<longrightarrow> rsa_keys_match rsa (as_tokenProvider s))"

lemma issued_validates:
  assumes "username_format (ur_username user)" "roles_plain user" "issuing_ok s t" "signing_ok rsa s"
    and "as_tokenProvider s' = as_tokenProvider s"
    and "pair = fst (issueTokens rsa user t t' j r s)"
    and "issued = issuedClaims (userClaims user) (ac_accessTokenExpiry (as_config s)) t j"
    and "now \<le> tc_expiresAt issued" "\<not> bl_isRevoked (as_blacklist s') (tc_jti issued)"
  shows "as_validateToken rsa s' now (tk_accessToken pair) = Inr issued"
proof -
  have "timely (userClaims user) (ac_accessTokenExpiry (as_config s)) t"
    using assms(3) by (simp add: timely_def issuing_ok_def userClaims_def emptyClaims_def)
  from validate_generate [OF userClaims_plain [OF assms(1,2)] this, of "as_tokenProvider s" rsa "as_tokenProvider s'"]
  show ?thesis
    using assms(4-9) by (simp add: as_validateToken_def issueTokens_def Let_def signing_ok_def revokedIn_def)
qed

lemma issued_subject:
  "tc_subject (issuedClaims (userClaims user) e t j) = to_string (unat (ur_id user))"
  "tc_username (issuedClaims (userClaims user) e t j) = ur_username user"
  "tc_roles (issuedClaims (userClaims user) e t j) = ur_roles user"
  by (simp_all add: issuedClaims_def userClaims_def)

text \<open>A registered user is in the repository, active, with the role of a player and the hash of the
  password.\<close>

lemma register_stores:
  assumes "users_inv s" "up_room (as_userRepo s)" "as_registerUser c clk rnd s = (Inr user, s')"
  shows "up_findByUsername (as_userRepo s') (uc_username c) = Some user" "ur_status user = Active"
    "ur_roles user = [''player'']" "ur_username user = uc_username c" "ur_email user = uc_email c"
    "ur_passwordHash user = hashWithSalt (uc_password c) (ur_salt user)" "username_format (uc_username c)"
    "as_tokenStore s' = as_tokenStore s" "as_rateLimiter s' = as_rateLimiter s" "as_blacklist s' = as_blacklist s"
    "as_config s' = as_config s" "as_tokenProvider s' = as_tokenProvider s"
proof -
  let ?r = "newUserRecord c (ph_hash (uc_password c) (rnd 0))"
  have ok: "up_ok (as_userRepo s)" using assms(1) by (simp add: users_inv_def)
  from assms(3) obtain i users where v: "as_isValidUsername (uc_username c)"
    and cr: "up_create ?r (clk 0) (as_userRepo s) = (i, users)"
    and u: "user = the (up_findById users i)" and s': "s' = s\<lparr>as_userRepo := users\<rparr>"
    by (cases rule: register_cases) auto
  have f: "up_findById users i = Some (?r\<lparr>ur_id := i, ur_createdAt := clk 0, ur_updatedAt := clk 0\<rparr>)"
    using users.create_lookup [OF ok assms(2), of ?r "clk 0" i] cr by simp
  have "users_inv s'" using users_inv_register [OF assms(1,2), of c clk rnd] assms(3) by simp
  then have "up_ok users" "users.unique users" by (simp_all add: users_inv_def s')
  from users.name_by_id [OF this f] show "up_findByUsername (as_userRepo s') (uc_username c) = Some user"
    using f u by (simp add: s' newUserRecord_def)
  show "ur_status user = Active" "ur_roles user = [''player'']" "ur_username user = uc_username c"
    "ur_email user = uc_email c" "ur_passwordHash user = hashWithSalt (uc_password c) (ur_salt user)"
    using f u by (simp_all add: newUserRecord_def ph_hash_def Let_def)
  show "username_format (uc_username c)" using v by (simp add: as_isValidUsername_def validateUsername_iff)
qed (use assms(3) in \<open>cases rule: register_cases; simp\<close>)+

text \<open>Users are never removed and never changed by the server.\<close>

lemma byId_step:
  assumes "users_inv s" "up_room (as_userRepo s)" "up_findById (as_userRepo s) i = Some r"
  shows "up_findById (as_userRepo (as_step rsa ev s)) i = Some r"
proof (cases "\<exists>c clk rnd. ev = EvRegister c clk rnd")
  case True
  then obtain c clk rnd where ev: "ev = EvRegister c clk rnd" by blast
  have ok: "up_ok (as_userRepo s)" using assms(1) by (simp add: users_inv_def)
  obtain res s' where r: "as_registerUser c clk rnd s = (res, s')" by (cases "as_registerUser c clk rnd s")
  then show ?thesis
  proof (cases rule: register_cases)
    case 1
    then show ?thesis using assms(3) r by (simp add: as_step_def ev)
  next
    case (2 j users)
    then show ?thesis
      using users.create_lookup [OF ok assms(2), of "newUserRecord c (ph_hash (uc_password c) (rnd 0))" "clk 0" i]
        users.create_unused [OF ok assms(2), of "newUserRecord c (ph_hash (uc_password c) (rnd 0))" "clk 0"] assms(3) r
      by (auto simp: as_step_def ev)
  qed
next
  case False
  then show ?thesis using users_other [of ev rsa s] assms(3) by simp
qed

lemma byId_run:
  "users_inv s \<Longrightarrow> unat (up_nextId (as_userRepo s)) + length evs < 2 ^ 64 \<Longrightarrow>
   up_findById (as_userRepo s) i = Some r \<Longrightarrow> up_findById (as_userRepo (as_run rsa evs s)) i = Some r"
proof (induction evs arbitrary: s)
  case (Cons ev evs)
  then have room: "up_room (as_userRepo s)" by (simp add: up_room_def)
  have "up_findById (as_userRepo (as_run rsa evs (as_step rsa ev s))) i = Some r"
    using nextId_step [OF room, of rsa ev] Cons.prems byId_step [OF _ room]
    by (intro Cons.IH users_inv_step [OF _ room]) simp_all
  then show ?case by (simp add: as_run_def)
qed (simp add: as_run_def)

section \<open>Properties\<close>

text \<open>(C8) A registered user can log in: whatever the server does between (other registrations,
  logins, logouts, revocations), logging in with the registered name and password from an address
  within its rate limit succeeds, and the access token validates, until it expires or is revoked,
  to claims whose subject is the user's id, with the user's name and role.\<close>

theorem registered_user_logs_in:
  assumes "users_inv s" "unat (up_nextId (as_userRepo s)) + length evs + 1 < 2 ^ 64"
    and "as_registerUser c clk rnd s = (Inr user, s1)" "s2 = as_run rsa evs s1"
    and "fst (rl_allow ip (clk' 0) (clk' 1) (as_rateLimiter s2))" "issuing_ok s (clk' 2)" "signing_ok rsa s"
  shows "\<exists>pair s3 claims. as_login rsa (uc_username c) (uc_password c) ip clk' rnd' s2 = (Inr pair, s3) \<and>
    tc_subject claims = to_string (unat (ur_id user)) \<and> tc_username claims = uc_username c \<and>
    tc_roles claims = [''player''] \<and>
    tc_expiresAt claims = fromEpoch (toEpoch (clk' 2 + ac_accessTokenExpiry (as_config s))) \<and>
    (\<forall>now. now \<le> tc_expiresAt claims \<longrightarrow> \<not> bl_isRevoked (as_blacklist s3) (tc_jti claims) \<longrightarrow>
       as_validateToken rsa s3 now (tk_accessToken pair) = Inr claims)"
proof -
  have room: "up_room (as_userRepo s)" using assms(2) by (simp add: up_room_def)
  note reg = register_stores [OF assms(1) room assms(3)]
  have inv1: "users_inv s1" using users_inv_register [OF assms(1) room, of c clk rnd] assms(3) by simp
  have n1: "unat (up_nextId (as_userRepo s1)) + length evs < 2 ^ 64"
    using nextId_step [OF room, of rsa "EvRegister c clk rnd"] assms(2,3) by (simp add: as_step_def)
  have inv2: "up_ok (as_userRepo s2)" "users.unique (as_userRepo s2)"
    using users_inv_run [OF inv1 n1, of rsa] assms(4) by (simp_all add: users_inv_def)
  have "up_findById (as_userRepo s1) (ur_id user) = Some user"
    using users.name_found [OF _ reg(1)] inv1 by (simp add: users_inv_def)
  from byId_run [OF inv1 n1 this, of rsa] have "up_findById (as_userRepo s2) (ur_id user) = Some user"
    using assms(4) by simp
  from users.name_by_id [OF inv2 this] have byName: "up_findByUsername (as_userRepo s2) (uc_username c) = Some user"
    using reg(4) by simp
  obtain rl where rl: "rl_allow ip (clk' 0) (clk' 1) (as_rateLimiter s2) = (True, rl)"
    using assms(5) by (cases "rl_allow ip (clk' 0) (clk' 1) (as_rateLimiter s2)") auto
  define pair where "pair = fst (issueTokens rsa user (clk' 2) (clk' 3) (rnd' 0) (rnd' 1) s2)"
  define s3 where "s3 = (snd (issueTokens rsa user (clk' 2) (clk' 3) (rnd' 0) (rnd' 1) s2))\<lparr>as_rateLimiter := rl_reset ip rl\<rparr>"
  define claims where "claims = issuedClaims (userClaims user) (ac_accessTokenExpiry (as_config s2)) (clk' 2) (rnd' 0)"
  have cfg: "as_config s2 = as_config s" "as_tokenProvider s2 = as_tokenProvider s" "as_tokenProvider s3 = as_tokenProvider s2"
    using reg(11,12) assms(4) by (simp_all add: s3_def issueTokens_state)
  have "as_login rsa (uc_username c) (uc_password c) ip clk' rnd' s2 = (Inr pair, s3)"
    unfolding login_cases rl byName pair_def s3_def using reg(2,6) by simp
  moreover have "as_validateToken rsa s3 now (tk_accessToken pair) = Inr claims"
    if "now \<le> tc_expiresAt claims" "\<not> bl_isRevoked (as_blacklist s3) (tc_jti claims)" for now
    using that assms(6,7) reg(3,4,7) cfg
    by (intro issued_validates [where s = s2, OF _ _ _ _ cfg(3) pair_def claims_def])
       (simp_all add: roles_plain_def issuing_ok_def signing_ok_def plain_def)
  ultimately show ?thesis
    using issued_subject reg(3,4) cfg(1)
    by (intro exI [of _ pair] exI [of _ s3] exI [of _ claims]) (simp add: claims_def issuedClaims_def userClaims_def)
qed

definition demoCredentials :: UserCredentials where
  "demoCredentials = \<lparr>uc_username = ''alice'', uc_email = ''alice@example.com'', uc_password = ''Pa$$w0rd!''\<rparr>"

definition demoStart :: AuthServer where
  "demoStart = mkAuthServer defaultAuthConfig mkUserRepository [] 0"

lemma demo_valid:
  "as_isValidUsername ''alice'' \<and> as_isValidEmail ''alice@example.com'' \<and>
   vr_valid (validatePassword ''Pa$$w0rd!'' 8)"
  unfolding as_isValidUsername_def as_isValidEmail_def by code_simp

lemma demo_register: "\<exists>user s1. as_registerUser demoCredentials (\<lambda>_. 1) (\<lambda>_. [7]) demoStart = (Inr user, s1)"
  using demo_valid
  by (simp add: as_registerUser_def demoCredentials_def demoStart_def mkAuthServer_def as_isStrongPassword_def
      defaultAuthConfig_def mkUserRepository_def up_findByUsername_def up_findByEmail_def up_create_def Let_def)

theorem registered_user_logs_in_witness:
  "\<exists>user s1 pair s3. as_registerUser demoCredentials (\<lambda>_. 1) (\<lambda>_. [7]) demoStart = (Inr user, s1) \<and>
     as_login demoRsa ''alice'' ''Pa$$w0rd!'' ''10.0.0.1'' (\<lambda>_. 2) (\<lambda>n. [of_nat n])
       (as_run demoRsa [EvCleanup 2] s1) = (Inr pair, s3)"
proof -
  obtain user s1 where r: "as_registerUser demoCredentials (\<lambda>_. 1) (\<lambda>_. [7]) demoStart = (Inr user, s1)"
    using demo_register by blast
  have inv: "users_inv demoStart"
    by (simp add: users_inv_def users.unique_def demoStart_def mkAuthServer_def mkUserRepository_def up_ok_def up_findById_def)
  have n: "unat (up_nextId (as_userRepo demoStart)) + length [EvCleanup 2] + 1 < 2 ^ 64"
    by (simp add: demoStart_def mkAuthServer_def mkUserRepository_def)
  have "as_rateLimiter (as_run demoRsa [EvCleanup 2] s1) = as_rateLimiter demoStart"
    using r by (cases rule: register_cases) (auto simp: as_run_def as_step_def as_cleanupBlacklist_def case_prod_beta)
  then have a: "fst (rl_allow ''10.0.0.1'' 2 2 (as_rateLimiter (as_run demoRsa [EvCleanup 2] s1)))"
    by (simp add: demoStart_def mkAuthServer_def mkRateLimiter_def rl_allow_def purgeExpired_def defaultAuthConfig_def Let_def)
  have k: "issuing_ok demoStart 2" "signing_ok demoRsa demoStart"
    by (simp_all add: issuing_ok_def signing_ok_def demoStart_def mkAuthServer_def mkTokenProvider_def defaultAuthConfig_def seconds_def)
  obtain pair s3 where "as_login demoRsa (uc_username demoCredentials) (uc_password demoCredentials) ''10.0.0.1''
      (\<lambda>_. 2) (\<lambda>n. [of_nat n]) (as_run demoRsa [EvCleanup 2] s1) = (Inr pair, s3)"
    using registered_user_logs_in [OF inv n r refl, where ip = "''10.0.0.1''" and clk' = "\<lambda>_. 2"
        and rnd' = "\<lambda>n. [of_nat n]" and rsa = demoRsa] a k by blast
  with r show ?thesis by (auto simp: demoCredentials_def)
qed

text \<open>A login succeeds exactly when the address is within its rate limit and there is an
  active user of that name whose stored hash is the hash of the password with the stored salt; a
  failed login changes nothing but the attempts counted for the address.\<close>

theorem login_exact:
  "(hasValue (fst (as_login rsa u p ip clk rnd s)) \<longleftrightarrow>
     fst (rl_allow ip (clk 0) (clk 1) (as_rateLimiter s)) \<and>
     (\<exists>user. up_findByUsername (as_userRepo s) u = Some user \<and> ur_status user = Active \<and>
        ur_passwordHash user = hashWithSalt p (ur_salt user))) \<and>
   (if hasValue (fst (as_login rsa u p ip clk rnd s)) then True
    else snd (as_login rsa u p ip clk rnd s) =
      s\<lparr>as_rateLimiter := snd (rl_allow ip (clk 0) (clk 1) (as_rateLimiter s))\<rparr>)"
proof (cases "rl_allow ip (clk 0) (clk 1) (as_rateLimiter s)")
  case (Pair allowed rl)
  then show ?thesis
    by (cases "up_findByUsername (as_userRepo s) u") (auto simp: login_cases)
qed

text \<open>(C10) Rotation of refresh tokens: once a refresh token has been exchanged, and once its user
  has logged out with any token, it is rejected as revoked in every later state of the server,
  whatever happens between.\<close>

theorem refresh_token_single_use:
  assumes "ts_find (as_tokenStore s) t = Some r" "ts_find (as_tokenStore s) t' = Some r'"
    and "as_refreshToken rsa t clk rnd s = (Inr pair, s1) \<or>
         rt_userId r' = rt_userId r \<and> as_logout t' s = (Inr (), s1)"
  shows "as_refreshToken rsa t clk' rnd' (as_run rsa evs s1) =
    (err TokenRevoked ''refresh token has been revoked'', as_run rsa evs s1)"
proof -
  have "tks.dead (as_tokenStore s1) t"
    using assms refresh_kills logout_kills by (metis (no_types, lifting))
  then show ?thesis by (rule dead_refresh [OF dead_run])
qed

definition demoUser :: UserRecord where
  "demoUser = \<lparr>ur_id = 1, ur_username = ''alice'', ur_email = ''alice@example.com'', ur_passwordHash = ''h'',
     ur_salt = ''s'', ur_status = Active, ur_roles = [''player''], ur_createdAt = 0, ur_updatedAt = 0\<rparr>"

definition demoAuth :: AuthServer where
  "demoAuth = mkAuthServer defaultAuthConfig \<lparr>up_users = [(1, demoUser)], up_nextId = 2\<rparr>
     [(''tok'', \<lparr>rt_token = ''tok'', rt_userId = 1, rt_expiresAt = seconds 100, rt_revoked = False\<rparr>)] 0"

theorem refresh_token_single_use_witness:
  "\<exists>pair s1. as_refreshToken demoRsa ''tok'' (\<lambda>_. 5) (\<lambda>n. [of_nat n]) demoAuth = (Inr pair, s1) \<and>
     as_refreshToken demoRsa ''tok'' (\<lambda>_. 6) (\<lambda>_. []) (as_run demoRsa [EvLogout ''tok'', EvCleanup 6] s1) =
       (err TokenRevoked ''refresh token has been revoked'', as_run demoRsa [EvLogout ''tok'', EvCleanup 6] s1)"
proof -
  have f: "ts_find (as_tokenStore demoAuth) ''tok'' =
      Some \<lparr>rt_token = ''tok'', rt_userId = 1, rt_expiresAt = seconds 100, rt_revoked = False\<rparr>"
    by (simp add: demoAuth_def mkAuthServer_def ts_find_def)
  have "up_findById (as_userRepo demoAuth) 1 = Some demoUser"
    by (simp add: demoAuth_def mkAuthServer_def up_findById_def)
  with f obtain pair s1 where r: "as_refreshToken demoRsa ''tok'' (\<lambda>_. 5) (\<lambda>n. [of_nat n]) demoAuth = (Inr pair, s1)"
    by (simp add: as_refreshToken_def issueTokens_def Let_def seconds_def)
  with refresh_token_single_use [OF f f disjI1 [OF r], of "\<lambda>_. 6" "\<lambda>_. []" "[EvLogout ''tok'', EvCleanup 6]"]
  show ?thesis by blast
qed

text \<open>(C30) A revoked access token stays rejected: after a successful revocation of a token that
  was valid, it is not accepted at any later time in any later state, as long as the clock readings of
  the cleanups are not ahead of that time; the one exception is the very nanosecond of its expiry, at
  which a cleanup already forgets it while validation still accepts it.\<close>

theorem revoked_access_token_rejected:
  assumes "umap_wf (bl_entries (as_blacklist s))"
    and "as_validateToken rsa s (clk 0) token = Inr claims" "tc_jti claims \<noteq> []"
    and "as_revokeAccessToken rsa token clk s = (Inr (), s1)"
    and "clk 1 \<le> now" "list_all (cleans_before now) evs" "now \<noteq> tc_expiresAt claims"
  shows "hasError (as_validateToken rsa (as_run rsa evs s1) now token)"
proof (rule ccontr)
  assume "\<not> hasError (as_validateToken rsa (as_run rsa evs s1) now token)"
  then obtain claims' where v: "as_validateToken rsa (as_run rsa evs s1) now token = Inr claims'"
    by (auto simp: hasError_def hasValue_iff)
  have s1: "s1 = s\<lparr>as_blacklist := bl_revoke (tc_jti claims) (tc_expiresAt claims) (clk 1) (as_blacklist s)\<rparr>"
    using assms(2-4) by (auto simp: as_revokeAccessToken_def split: if_splits)
  have p: "as_tokenProvider (as_run rsa evs s1) = as_tokenProvider s" by (simp add: s1)
  have c: "claims' = claims"
    using validate_claims_unique assms(2) v p unfolding as_validateToken_def by metis
  have "\<not> revokedIn (Some (as_blacklist s)) (tc_jti claims)"
    using validate_sound assms(2) unfolding as_validateToken_def by blast
  then have "bl_guard (tc_jti claims) (tc_expiresAt claims) now (as_blacklist s1)"
    using assms(1,3,5) bl_guard_start by (simp add: s1 revokedIn_def)
  from bl_guard_run [OF this assms(6)]
  have g: "bl_guard (tc_jti claims) (tc_expiresAt claims) now (as_blacklist (as_run rsa evs s1))" .
  have "now \<le> tc_expiresAt claims \<and> \<not> revokedIn (Some (as_blacklist (as_run rsa evs s1))) (tc_jti claims)"
    using validate_sound v c unfolding as_validateToken_def by blast
  then show False using g assms(3,7) by (auto simp: bl_guard_def revokedIn_def bl_isRevoked_def)
qed

theorem revoked_access_token_rejected_witness:
  "\<exists>token s1. as_validateToken demoRsa demoStart (seconds 1100) token =
       Inr (demoClaims\<lparr>tc_jti := ''01ab'', tc_issuedAt := seconds 1000, tc_expiresAt := seconds 1900\<rparr>) \<and>
     as_revokeAccessToken demoRsa token (\<lambda>_. seconds 1100) demoStart = (Inr (), s1) \<and>
     hasError (as_validateToken demoRsa (as_run demoRsa [EvCleanup (seconds 1150)] s1) (seconds 1200) token)"
proof -
  let ?token = "generateAccessToken demoRsa (as_tokenProvider demoStart) demoClaims (seconds 900) (seconds 1000) [1, 0xAB]"
  let ?claims = "demoClaims\<lparr>tc_jti := ''01ab'', tc_issuedAt := seconds 1000, tc_expiresAt := seconds 1900\<rparr>"
  have hs: "tp_algorithm (as_tokenProvider demoStart) = HS256" "as_blacklist demoStart = mkTokenBlacklist (seconds 300) 0"
    by (simp_all add: demoStart_def mkAuthServer_def mkTokenProvider_def defaultAuthConfig_def)
  have v: "as_validateToken demoRsa demoStart (seconds 1100) ?token = Inr ?claims"
    using validate_generate [OF demo_claims_plain demo_timely, of "as_tokenProvider demoStart" demoRsa "as_tokenProvider demoStart"
        "Some (as_blacklist demoStart)" "seconds 1100" "[1, 0xAB]"] hs
    unfolding demo_issued Let_def as_validateToken_def
    by (simp add: revokedIn_def bl_isRevoked_def mkTokenBlacklist_def seconds_def)
  define s1 where "s1 = snd (as_revokeAccessToken demoRsa ?token (\<lambda>_. seconds 1100) demoStart)"
  have r: "as_revokeAccessToken demoRsa ?token (\<lambda>_. seconds 1100) demoStart = (Inr (), s1)"
    using v validate_hasTwoDots [OF v [unfolded as_validateToken_def]] by (simp add: as_revokeAccessToken_def s1_def)
  have w: "umap_wf (bl_entries (as_blacklist demoStart))" by (simp add: hs(2) mkTokenBlacklist_def)
  have "hasError (as_validateToken demoRsa (as_run demoRsa [EvCleanup (seconds 1150)] s1) (seconds 1200) ?token)"
    by (rule revoked_access_token_rejected [OF w v _ r]) (simp_all add: seconds_def)
  with v r show ?thesis by blast
qed

text \<open>(C31) Whatever is registered, no two users ever share a name or an address, identifiers are
  not reused and every stored user has a well-formed name and address, in every run of a server that
  starts without users, short of \<open>2 ^ 64\<close> calls.\<close>

theorem auth_users_unique:
  assumes "length evs < 2 ^ 64 - 1"
  shows "let s = as_run rsa evs (mkAuthServer config mkUserRepository [] now) in
    up_ok (as_userRepo s) \<and>
    (\<forall>i j r r'. up_findById (as_userRepo s) i = Some r \<longrightarrow> up_findById (as_userRepo s) j = Some r' \<longrightarrow>
       ur_username r = ur_username r' \<or> ur_email r = ur_email r' \<longrightarrow> i = j) \<and>
    (\<forall>i r. up_findById (as_userRepo s) i = Some r \<longrightarrow>
       ur_id r = i \<and> username_format (ur_username r) \<and> email_format (ur_email r))"
proof -
  let ?s = "mkAuthServer config mkUserRepository [] now"
  have "users_inv ?s"
    by (simp add: users_inv_def users.unique_def mkAuthServer_def mkUserRepository_def up_ok_def up_findById_def)
  moreover have "unat (up_nextId (as_userRepo ?s)) + length evs < 2 ^ 64"
    using assms by (simp add: mkAuthServer_def mkUserRepository_def)
  ultimately have i: "users_inv (as_run rsa evs ?s)" by (rule users_inv_run)
  then show ?thesis
    using users.id_own unfolding users_inv_def users.unique_def Let_def by blast
qed

theorem auth_users_unique_witness:
  "let s = as_run demoRsa [EvRegister \<lparr>uc_username = ''alice'', uc_email = ''alice@example.com'', uc_password = ''Pa$$w0rd!''\<rparr>
      (\<lambda>_. 1) (\<lambda>_. [7])] (mkAuthServer defaultAuthConfig mkUserRepository [] 0) in up_ok (as_userRepo s)"
  using auth_users_unique [of "[EvRegister \<lparr>uc_username = ''alice'', uc_email = ''alice@example.com'', uc_password = ''Pa$$w0rd!''\<rparr>
      (\<lambda>_. 1) (\<lambda>_. [7])]" demoRsa defaultAuthConfig 0] by (simp add: Let_def)

text \<open>Failed calls have no effect: a registration, refresh, logout or revocation that returns
  an error leaves the whole server unchanged.\<close>

theorem auth_errors_no_effect:
  "(hasValue (fst (as_registerUser c clk rnd s)) \<or> snd (as_registerUser c clk rnd s) = s) \<and>
   (hasValue (fst (as_refreshToken rsa t clk rnd s)) \<or> snd (as_refreshToken rsa t clk rnd s) = s) \<and>
   (hasValue (fst (as_logout t s)) \<or> snd (as_logout t s) = s) \<and>
   (hasValue (fst (as_revokeAccessToken rsa t clk s)) \<or> snd (as_revokeAccessToken rsa t clk s) = s)"
proof -
  have "hasValue (fst (as_registerUser c clk rnd s)) \<or> snd (as_registerUser c clk rnd s) = s"
  proof (cases "as_registerUser c clk rnd s")
    case (Pair res s')
    then show ?thesis by (cases rule: register_cases) (simp_all add: Pair)
  qed
  then show ?thesis
    by (auto simp: as_refreshToken_def as_logout_def as_revokeAccessToken_def issueTokens_def Let_def
        split: option.splits if_splits sum.splits)
qed

text \<open>A refresh does not look at the status of the account: a suspended user who holds a refresh
  token keeps getting new access tokens.\<close>

theorem suspended_user_refreshes:
  assumes "ts_find (as_tokenStore s) t = Some r" "\<not> rt_revoked r" "clk 0 \<le> rt_expiresAt r"
    and "up_findById (as_userRepo s) (rt_userId r) = Some user" "ur_status user = Suspended"
  shows "hasValue (fst (as_refreshToken rsa t clk rnd s))"
  using assms by (simp add: as_refreshToken_def issueTokens_def Let_def)



end
