(* ===== verification/Behavior_Tree.thy ===== *)
theory Behavior_Tree
  imports Spatial_Index
begin

text \<open>
  \<^verbatim>\<open>include/cgs/game/behavior_tree.hpp\<close> and \<^verbatim>\<open>ai_types.hpp\<close>: behaviour trees and their blackboard. A
  node is a value with its children and its private counters; \<^verbatim>\<open>Tick\<close> returns the status, the node
  after the tick and the world the leaves change. Leaves are functions of the context and the
  world (type variable \<open>'w\<close>). The theory proves that a tick keeps the shape of a tree, that a tree
  without parallel nodes is reset whenever it completes, and that a tree of instantaneous
  leaves is short-circuit logic.
\<close>

section \<open>Blackboard\<close>

text \<open>The values of \<^verbatim>\<open>std::any\<close> that the repository stores; \<open>BBOther\<close> stands for every other type.\<close>

datatype BBValue =
    BBVector Vector3
  | BBEntity Entity
  | BBWaypoints "Vector3 list"
  | BBIndex u64
  | BBOther nat

type_synonym Blackboard = "string \<rightharpoonup> BBValue"

definition bb_Set :: "string \<Rightarrow> BBValue \<Rightarrow> Blackboard \<Rightarrow> Blackboard" where
  "bb_Set key v data = data(key \<mapsto> v)"

text \<open>\<^verbatim>\<open>Get<T>\<close> is \<open>nullptr\<close> when the key is absent or holds a value of another type.\<close>

definition bb_GetVector :: "Blackboard \<Rightarrow> string \<Rightarrow> Vector3 option" where
  "bb_GetVector data key = (case data key of Some (BBVector v) \<Rightarrow> Some v | _ \<Rightarrow> None)"

definition bb_GetEntity :: "Blackboard \<Rightarrow> string \<Rightarrow> Entity option" where
  "bb_GetEntity data key = (case data key of Some (BBEntity e) \<Rightarrow> Some e | _ \<Rightarrow> None)"

definition bb_GetWaypoints :: "Blackboard \<Rightarrow> string \<Rightarrow> Vector3 list option" where
  "bb_GetWaypoints data key = (case data key of Some (BBWaypoints ws) \<Rightarrow> Some ws | _ \<Rightarrow> None)"

definition bb_GetIndex :: "Blackboard \<Rightarrow> string \<Rightarrow> u64 option" where
  "bb_GetIndex data key = (case data key of Some (BBIndex i) \<Rightarrow> Some i | _ \<Rightarrow> None)"

definition bb_Has :: "Blackboard \<Rightarrow> string \<Rightarrow> bool" where
  "bb_Has data key \<longleftrightarrow> data key \<noteq> None"

definition bb_Erase :: "string \<Rightarrow> Blackboard \<Rightarrow> Blackboard" where
  "bb_Erase key data = data(key := None)"

definition bb_Clear :: "Blackboard \<Rightarrow> Blackboard" where
  "bb_Clear data = Map.empty"

section \<open>Nodes\<close>

datatype BTStatus = Success | Failure | Running

datatype BTParallelPolicy = RequireAll | RequireOne

record BTContext =
  bc_entity :: Entity
  bc_deltaTime :: rat

datatype 'w BTNode =
    BTSequence "'w BTNode list" nat
  | BTSelector "'w BTNode list" nat
  | BTParallel BTParallelPolicy "'w BTNode list"
  | BTInverter "'w BTNode"
  | BTRepeater "'w BTNode" u32 u32
  | BTCondition "BTContext \<Rightarrow> 'w \<Rightarrow> bool \<times> 'w"
  | BTAction "BTContext \<Rightarrow> 'w \<Rightarrow> BTStatus \<times> 'w"

definition mkSequence :: "'w BTNode list \<Rightarrow> 'w BTNode" where
  "mkSequence children = BTSequence children 0"

definition mkSelector :: "'w BTNode list \<Rightarrow> 'w BTNode" where
  "mkSelector children = BTSelector children 0"

definition mkRepeater :: "'w BTNode \<Rightarrow> u32 \<Rightarrow> 'w BTNode" where
  "mkRepeater child maxRepeats = BTRepeater child maxRepeats 0"

fun bt_Reset :: "'w BTNode \<Rightarrow> 'w BTNode" where
  "bt_Reset (BTSequence children currentChild) = BTSequence (map bt_Reset children) 0"
| "bt_Reset (BTSelector children currentChild) = BTSelector (map bt_Reset children) 0"
| "bt_Reset (BTParallel policy children) = BTParallel policy (map bt_Reset children)"
| "bt_Reset (BTInverter child) = BTInverter (bt_Reset child)"
| "bt_Reset (BTRepeater child maxRepeats currentCount) = BTRepeater (bt_Reset child) maxRepeats 0"
| "bt_Reset (BTCondition p) = BTCondition p"
| "bt_Reset (BTAction f) = BTAction f"

lemma size_list_drop_le [termination_simp]: "size_list f (drop n xs) \<le> size_list f xs"
  by (induction xs arbitrary: n) (auto simp: drop_Cons' intro: le_SucI trans_le_add2)

definition parallelStatus :: "BTParallelPolicy \<Rightarrow> nat \<Rightarrow> BTStatus list \<Rightarrow> BTStatus" where
  "parallelStatus policy n statuses =
     (let successCount = length (filter (\<lambda>s. s = Success) statuses);
          failureCount = length (filter (\<lambda>s. s = Failure) statuses)
      in if policy = RequireAll
         then (if successCount = n then Success else if failureCount > 0 then Failure else Running)
         else (if successCount > 0 then Success else if failureCount = n then Failure else Running))"

text \<open>The loops of the composite nodes run over the children from \<open>currentChild\<close> on.
  \<open>sequenceLoop\<close> and \<open>selectorLoop\<close> return the status with which the loop ends, by how much
  \<open>currentChild\<close> grew, and these children after the tick; \<open>parallelLoop\<close> returns all statuses.\<close>

fun bt_Tick :: "BTContext \<Rightarrow> 'w BTNode \<Rightarrow> 'w \<Rightarrow> BTStatus \<times> 'w BTNode \<times> 'w"
  and sequenceLoop :: "BTContext \<Rightarrow> 'w BTNode list \<Rightarrow> 'w \<Rightarrow> BTStatus \<times> nat \<times> 'w BTNode list \<times> 'w"
  and selectorLoop :: "BTContext \<Rightarrow> 'w BTNode list \<Rightarrow> 'w \<Rightarrow> BTStatus \<times> nat \<times> 'w BTNode list \<times> 'w"
  and parallelLoop :: "BTContext \<Rightarrow> 'w BTNode list \<Rightarrow> 'w \<Rightarrow> BTStatus list \<times> 'w BTNode list \<times> 'w" where
  "bt_Tick ctx (BTSequence children currentChild) w =
     (case sequenceLoop ctx (drop currentChild children) w of
        (status, n, rest, w') \<Rightarrow>
          (status, BTSequence (take currentChild children @ rest)
             (if status = Running then currentChild + n else 0), w'))"
| "bt_Tick ctx (BTSelector children currentChild) w =
     (case selectorLoop ctx (drop currentChild children) w of
        (status, n, rest, w') \<Rightarrow>
          (status, BTSelector (take currentChild children @ rest)
             (if status = Running then currentChild + n else 0), w'))"
| "bt_Tick ctx (BTParallel policy children) w =
     (case parallelLoop ctx children w of
        (statuses, children', w') \<Rightarrow>
          (parallelStatus policy (length children) statuses, BTParallel policy children', w'))"
| "bt_Tick ctx (BTInverter child) w =
     (case bt_Tick ctx child w of
        (status, child', w') \<Rightarrow>
          (case status of Success \<Rightarrow> Failure | Failure \<Rightarrow> Success | Running \<Rightarrow> Running,
           BTInverter child', w'))"
| "bt_Tick ctx (BTRepeater child maxRepeats currentCount) w =
     (case bt_Tick ctx child w of
        (status, child', w') \<Rightarrow>
          if status = Running then (Running, BTRepeater child' maxRepeats currentCount, w')
          else let count = currentCount + 1; child'' = bt_Reset child'
               in if maxRepeats > 0 \<and> count \<ge> maxRepeats then (Success, BTRepeater child'' maxRepeats 0, w')
                  else (Running, BTRepeater child'' maxRepeats count, w'))"
| "bt_Tick ctx (BTCondition predicate) w =
     (case predicate ctx w of (b, w') \<Rightarrow> (if b then Success else Failure, BTCondition predicate, w'))"
| "bt_Tick ctx (BTAction action) w =
     (case action ctx w of (status, w') \<Rightarrow> (status, BTAction action, w'))"
| "sequenceLoop ctx [] w = (Success, 0, [], w)"
| "sequenceLoop ctx (c # cs) w =
     (case bt_Tick ctx c w of
        (Success, c', w') \<Rightarrow> (case sequenceLoop ctx cs w' of (status, n, cs', w'') \<Rightarrow> (status, n + 1, c' # cs', w''))
      | (status, c', w') \<Rightarrow> (status, 0, c' # cs, w'))"
| "selectorLoop ctx [] w = (Failure, 0, [], w)"
| "selectorLoop ctx (c # cs) w =
     (case bt_Tick ctx c w of
        (Failure, c', w') \<Rightarrow> (case selectorLoop ctx cs w' of (status, n, cs', w'') \<Rightarrow> (status, n + 1, c' # cs', w''))
      | (status, c', w') \<Rightarrow> (status, 0, c' # cs, w'))"
| "parallelLoop ctx [] w = ([], [], w)"
| "parallelLoop ctx (c # cs) w =
     (case bt_Tick ctx c w of
        (status, c', w') \<Rightarrow>
          (case parallelLoop ctx cs w' of (statuses, cs', w'') \<Rightarrow> (status # statuses, c' # cs', w'')))"

section \<open>A tick keeps the shape\<close>

text \<open>Resetting forgets the counters: two trees with the same reset differ in their progress only.\<close>

abbreviation fresh :: "'w BTNode \<Rightarrow> bool" where
  "fresh t \<equiv> bt_Reset t = t"

lemma bt_Reset_idem [simp]: "bt_Reset (bt_Reset t) = bt_Reset t"
  by (induction t) simp_all

lemma fresh_BTSequence: "fresh (BTSequence cs i) \<longleftrightarrow> i = 0 \<and> (\<forall>c \<in> set cs. fresh c)"
  using map_eq_conv [of bt_Reset cs "\<lambda>c. c"] by auto

lemma fresh_BTSelector: "fresh (BTSelector cs i) \<longleftrightarrow> i = 0 \<and> (\<forall>c \<in> set cs. fresh c)"
  using map_eq_conv [of bt_Reset cs "\<lambda>c. c"] by auto

lemma bt_Tick_shape:
  fixes t :: "'w BTNode" and cs :: "'w BTNode list"
  shows "bt_Reset (fst (snd (bt_Tick ctx t w))) = bt_Reset t"
    and "map bt_Reset (fst (snd (snd (sequenceLoop ctx cs w)))) = map bt_Reset cs"
    and "map bt_Reset (fst (snd (snd (selectorLoop ctx cs w)))) = map bt_Reset cs"
    and "map bt_Reset (fst (snd (parallelLoop ctx cs w))) = map bt_Reset cs"
proof (induction ctx t w and ctx cs w and ctx cs w and ctx cs w
    rule: bt_Tick_sequenceLoop_selectorLoop_parallelLoop.induct)
  case (1 ctx children currentChild w)
  then show ?case
    by (auto simp: drop_map take_map split: prod.splits) (metis append_take_drop_id map_append)
next
  case (2 ctx children currentChild w)
  then show ?case
    by (auto simp: drop_map take_map split: prod.splits) (metis append_take_drop_id map_append)
qed (auto simp: Let_def split: prod.splits BTStatus.splits)

section \<open>Completed trees start over\<close>

text \<open>A tree in progress, without parallel nodes: only the current child of a composite node has
  made progress.\<close>

fun resumable :: "'w BTNode \<Rightarrow> bool" where
  "resumable (BTSequence cs i) \<longleftrightarrow> i \<le> length cs \<and> (\<forall>c \<in> set cs. resumable c)
     \<and> (\<forall>c \<in> set (take i cs). fresh c) \<and> (\<forall>c \<in> set (drop (Suc i) cs). fresh c)"
| "resumable (BTSelector cs i) \<longleftrightarrow> i \<le> length cs \<and> (\<forall>c \<in> set cs. resumable c)
     \<and> (\<forall>c \<in> set (take i cs). fresh c) \<and> (\<forall>c \<in> set (drop (Suc i) cs). fresh c)"
| "resumable (BTParallel p cs) \<longleftrightarrow> False"
| "resumable (BTInverter c) \<longleftrightarrow> resumable c"
| "resumable (BTRepeater c n k) \<longleftrightarrow> resumable c"
| "resumable (BTCondition p) \<longleftrightarrow> True"
| "resumable (BTAction f) \<longleftrightarrow> True"

lemma resumable_Reset: "resumable t \<Longrightarrow> resumable (bt_Reset t)"
  by (induction t) (auto simp: drop_map dest: in_set_dropD)

text \<open>What the loop of a composite node leaves behind: all children fresh when it completes, and
  otherwise progress only in the child it stopped at.\<close>

definition loopResult :: "BTStatus \<times> nat \<times> 'w BTNode list \<times> 'w \<Rightarrow> bool" where
  "loopResult r \<longleftrightarrow> (case r of (status, n, cs, w) \<Rightarrow> (\<forall>c \<in> set cs. resumable c)
     \<and> (if status = Running then n < length cs \<and> (\<forall>c \<in> set (take n cs). fresh c) \<and> (\<forall>c \<in> set (drop (Suc n) cs). fresh c)
        else (\<forall>c \<in> set cs. fresh c)))"

definition tickResult :: "BTStatus \<times> 'w BTNode \<times> 'w \<Rightarrow> bool" where
  "tickResult r \<longleftrightarrow> (case r of (status, t, w) \<Rightarrow> resumable t \<and> (status = Running \<or> fresh t))"

lemma set_drop_Suc: "set (drop (Suc i) cs) = set (tl (drop i cs))"
  by (simp add: drop_Suc tl_drop)

lemma composite_result:
  assumes "i \<le> length cs" "\<forall>c \<in> set cs. resumable c" "\<forall>c \<in> set (take i cs). fresh c"
    and "loopResult (status, n, rest, w)"
  shows "tickResult (status, BTSequence (take i cs @ rest) (if status = Running then i + n else 0), w)"
    and "tickResult (status, BTSelector (take i cs @ rest) (if status = Running then i + n else 0), w)"
  using assms
  by (auto simp: tickResult_def loopResult_def fresh_BTSequence fresh_BTSelector min_absorb2
      simp del: bt_Reset.simps dest: in_set_takeD in_set_dropD)

lemma bt_Tick_resumable:
  fixes t :: "'w BTNode" and cs :: "'w BTNode list"
  shows "resumable t \<Longrightarrow> tickResult (bt_Tick ctx t w)"
    and "(\<forall>c \<in> set cs. resumable c) \<Longrightarrow> (\<forall>c \<in> set (tl cs). fresh c) \<Longrightarrow> loopResult (sequenceLoop ctx cs w)"
    and "(\<forall>c \<in> set cs. resumable c) \<Longrightarrow> (\<forall>c \<in> set (tl cs). fresh c) \<Longrightarrow> loopResult (selectorLoop ctx cs w)"
    and "True"
proof (induction ctx t w and ctx cs w and ctx cs w and ctx cs w
    rule: bt_Tick_sequenceLoop_selectorLoop_parallelLoop.induct)
  case (1 ctx children i w)
  then have "loopResult (sequenceLoop ctx (drop i children) w)"
    by (auto simp: set_drop_Suc dest: in_set_dropD)
  then show ?case
    using 1(2) composite_result(1) [of i children]
    by (cases "sequenceLoop ctx (drop i children) w") auto
next
  case (2 ctx children i w)
  then have "loopResult (selectorLoop ctx (drop i children) w)"
    by (auto simp: set_drop_Suc dest: in_set_dropD)
  then show ?case
    using 2(2) composite_result(2) [of i children]
    by (cases "selectorLoop ctx (drop i children) w") auto
next
  case (4 ctx child w)
  then show ?case by (auto simp: tickResult_def split: prod.splits BTStatus.splits)
next
  case (5 ctx child m k w)
  then show ?case by (auto simp: tickResult_def Let_def resumable_Reset split: prod.splits)
next
  case (9 ctx c cs w)
  have c: "tickResult (bt_Tick ctx c w)" using 9 by simp
  have cs: "\<forall>c \<in> set (tl cs). fresh c" using 9(4) by (cases cs) auto
  show ?case
    using 9 c cs
    by (cases cs) (auto simp: tickResult_def loopResult_def split: prod.splits BTStatus.splits)
next
  case (11 ctx c cs w)
  have c: "tickResult (bt_Tick ctx c w)" using 11 by simp
  have cs: "\<forall>c \<in> set (tl cs). fresh c" using 11(4) by (cases cs) auto
  show ?case
    using 11 c cs
    by (cases cs) (auto simp: tickResult_def loopResult_def split: prod.splits BTStatus.splits)
qed (auto simp: tickResult_def loopResult_def split: prod.splits)

section \<open>Runs of a tree\<close>

text \<open>A tree ticked once for every context; the result is the list of statuses, the tree and the world.\<close>

fun bt_run :: "BTContext list \<Rightarrow> 'w BTNode \<Rightarrow> 'w \<Rightarrow> BTStatus list \<times> 'w BTNode \<times> 'w" where
  "bt_run [] t w = ([], t, w)"
| "bt_run (ctx # ctxs) t w =
     (case bt_Tick ctx t w of (status, t', w') \<Rightarrow>
        case bt_run ctxs t' w' of (statuses, t'', w'') \<Rightarrow> (status # statuses, t'', w''))"

lemma bt_run_resumable:
  assumes "resumable t" "bt_run ctxs t w = (statuses, t', w')"
  shows "resumable t' \<and> bt_Reset t' = bt_Reset t \<and> length statuses = length ctxs
    \<and> (statuses = [] \<or> last statuses = Running \<or> fresh t')"
  using assms
proof (induction ctxs arbitrary: t w statuses)
  case (Cons ctx ctxs)
  obtain s t1 w1 where tick: "bt_Tick ctx t w = (s, t1, w1)" by (cases "bt_Tick ctx t w")
  obtain ss t2 w2 where rest: "bt_run ctxs t1 w1 = (ss, t2, w2)" by (cases "bt_run ctxs t1 w1")
  have one: "resumable t1" "s = Running \<or> fresh t1" "bt_Reset t1 = bt_Reset t"
    using bt_Tick_resumable(1) [OF Cons.prems(1), of ctx w] bt_Tick_shape(1) [of ctx t w] tick
    by (auto simp: tickResult_def)
  have eqs: "t2 = t'" "w2 = w'" "statuses = s # ss" using Cons.prems(2) tick rest by auto
  show ?case
    using Cons.IH [OF one(1), of w1 ss] rest one unfolding eqs by (cases "ss = []") auto
qed simp

section \<open>Instantaneous trees are logic\<close>

text \<open>The reference semantics: sequences are short-circuit conjunctions, selectors short-circuit
  disjunctions, parallel nodes evaluate every child, inverters negate.\<close>

fun btEval :: "BTContext \<Rightarrow> 'w BTNode \<Rightarrow> 'w \<Rightarrow> bool \<times> 'w"
  and evalAll :: "BTContext \<Rightarrow> 'w BTNode list \<Rightarrow> 'w \<Rightarrow> bool \<times> 'w"
  and evalAny :: "BTContext \<Rightarrow> 'w BTNode list \<Rightarrow> 'w \<Rightarrow> bool \<times> 'w"
  and evalEach :: "BTContext \<Rightarrow> 'w BTNode list \<Rightarrow> 'w \<Rightarrow> bool list \<times> 'w" where
  "btEval ctx (BTSequence cs _) w = evalAll ctx cs w"
| "btEval ctx (BTSelector cs _) w = evalAny ctx cs w"
| "btEval ctx (BTParallel policy cs) w =
     (case evalEach ctx cs w of (bs, w') \<Rightarrow> (if policy = RequireAll then list_all id bs else list_ex id bs, w'))"
| "btEval ctx (BTInverter c) w = (case btEval ctx c w of (b, w') \<Rightarrow> (\<not> b, w'))"
| "btEval ctx (BTRepeater c n k) w = btEval ctx c w"
| "btEval ctx (BTCondition p) w = p ctx w"
| "btEval ctx (BTAction f) w = (case f ctx w of (s, w') \<Rightarrow> (s = Success, w'))"
| "evalAll ctx [] w = (True, w)"
| "evalAll ctx (c # cs) w = (case btEval ctx c w of (b, w') \<Rightarrow> if b then evalAll ctx cs w' else (False, w'))"
| "evalAny ctx [] w = (False, w)"
| "evalAny ctx (c # cs) w = (case btEval ctx c w of (b, w') \<Rightarrow> if b then (True, w') else evalAny ctx cs w')"
| "evalEach ctx [] w = ([], w)"
| "evalEach ctx (c # cs) w =
     (case btEval ctx c w of (b, w') \<Rightarrow> case evalEach ctx cs w' of (bs, w'') \<Rightarrow> (b # bs, w''))"

text \<open>No leaf needs more than one tick, and nothing is repeated.\<close>

fun instantaneous :: "'w BTNode \<Rightarrow> bool" where
  "instantaneous (BTSequence cs i) \<longleftrightarrow> i = 0 \<and> (\<forall>c \<in> set cs. instantaneous c)"
| "instantaneous (BTSelector cs i) \<longleftrightarrow> i = 0 \<and> (\<forall>c \<in> set cs. instantaneous c)"
| "instantaneous (BTParallel policy cs) \<longleftrightarrow> (\<forall>c \<in> set cs. instantaneous c)"
| "instantaneous (BTInverter c) \<longleftrightarrow> instantaneous c"
| "instantaneous (BTRepeater c n k) \<longleftrightarrow> False"
| "instantaneous (BTCondition p) \<longleftrightarrow> True"
| "instantaneous (BTAction f) \<longleftrightarrow> (\<forall>ctx w. fst (f ctx w) \<noteq> Running)"

definition verdict :: "bool \<Rightarrow> BTStatus" where
  "verdict b = (if b then Success else Failure)"

lemma verdict_simps [simp]: "verdict True = Success" "verdict False = Failure"
  by (simp_all add: verdict_def)

lemma parallelStatus_verdicts:
  "parallelStatus policy (length bs) (map verdict bs) =
     verdict (if policy = RequireAll then list_all id bs else list_ex id bs)"
proof -
  have s: "filter (\<lambda>s. s = Success) (map verdict bs) = map verdict (filter id bs)"
    and f: "filter (\<lambda>s. s = Failure) (map verdict bs) = map verdict (filter Not bs)"
    by (induction bs) (auto simp: verdict_def)
  have all: "length (filter id bs) = length bs \<longleftrightarrow> list_all id bs"
    by (metis filter_True length_filter_less less_irrefl list_all_iff)
  have ex: "length (filter Not bs) = length bs \<longleftrightarrow> \<not> list_ex id bs"
    by (induction bs) (auto simp: le_imp_less_Suc less_imp_neq)
  show ?thesis
    using all ex unfolding parallelStatus_def Let_def s f
    by (cases policy) (auto simp: list_all_iff list_ex_iff filter_empty_conv verdict_def)
qed

lemma bt_Tick_eval:
  fixes t :: "'w BTNode" and cs :: "'w BTNode list"
  shows "instantaneous t \<Longrightarrow> bt_Tick ctx t w = (verdict (fst (btEval ctx t w)), t, snd (btEval ctx t w))"
    and "(\<forall>c \<in> set cs. instantaneous c) \<Longrightarrow> \<exists>n. sequenceLoop ctx cs w =
           (verdict (fst (evalAll ctx cs w)), n, cs, snd (evalAll ctx cs w))"
    and "(\<forall>c \<in> set cs. instantaneous c) \<Longrightarrow> \<exists>n. selectorLoop ctx cs w =
           (verdict (fst (evalAny ctx cs w)), n, cs, snd (evalAny ctx cs w))"
    and "(\<forall>c \<in> set cs. instantaneous c) \<Longrightarrow> parallelLoop ctx cs w =
           (map verdict (fst (evalEach ctx cs w)), cs, snd (evalEach ctx cs w))
         \<and> length (fst (evalEach ctx cs w)) = length cs"
proof (induction ctx t w and ctx cs w and ctx cs w and ctx cs w
    rule: bt_Tick_sequenceLoop_selectorLoop_parallelLoop.induct)
  case (3 ctx policy children w)
  then show ?case
    using parallelStatus_verdicts [of policy "fst (evalEach ctx children w)"]
    by (auto split: prod.splits)
next
  case (7 ctx f w)
  then show ?case by (auto simp: verdict_def split: prod.splits) (metis BTStatus.exhaust fst_conv)
qed (fastforce simp: verdict_def split: prod.splits BTStatus.splits if_splits)+

section \<open>Repeaters\<close>

lemma instantaneous_fresh: "instantaneous t \<Longrightarrow> fresh t"
  by (induction t) (auto intro: map_idI)

lemma repeater_tick:
  assumes "instantaneous c" "unat k < unat n"
  shows "\<exists>w'. bt_Tick ctx (BTRepeater c n k) w =
    (if unat k + 1 = unat n then (Success, BTRepeater c n 0, w') else (Running, BTRepeater c n (k + 1), w'))"
proof -
  have "unat (k + 1) = unat k + 1"
    using assms(2) unsigned_less [of n, where 'a = nat] by (intro unat_plus_1) simp
  then have "n \<le> k + 1 \<longleftrightarrow> unat k + 1 = unat n" and "0 < n"
    using assms(2) by (auto simp: word_le_nat_alt word_less_nat_alt)
  then show ?thesis
    using bt_Tick_eval(1) [OF assms(1), of ctx w] instantaneous_fresh [OF assms(1)]
    by (auto simp: verdict_def Let_def)
qed

lemma repeater_run:
  assumes "instantaneous c" "unat k < unat n" "unat k + length ctxs = unat n"
  shows "\<exists>w'. bt_run ctxs (BTRepeater c n k) w =
    (replicate (length ctxs - 1) Running @ [Success], BTRepeater c n 0, w')"
  using assms(2,3)
proof (induction ctxs arbitrary: k w)
  case (Cons ctx ctxs)
  obtain w1 where tick: "bt_Tick ctx (BTRepeater c n k) w =
      (if unat k + 1 = unat n then (Success, BTRepeater c n 0, w1) else (Running, BTRepeater c n (k + 1), w1))"
    using repeater_tick [OF assms(1) Cons.prems(1)] by blast
  show ?case
  proof (cases "ctxs = []")
    case False
    have k: "unat (k + 1) = unat k + 1"
      using Cons.prems(1) unsigned_less [of n, where 'a = nat] by (intro unat_plus_1) simp
    have len: "0 < length ctxs" using False by simp
    with Cons.IH [of "k + 1" w1] Cons.prems k
    obtain w' where "bt_run ctxs (BTRepeater c n (k + 1)) w1 =
        (replicate (length ctxs - 1) Running @ [Success], BTRepeater c n 0, w')" by auto
    moreover have "unat k + 1 \<noteq> unat n" using Cons.prems(2) False by (cases ctxs) simp_all
    moreover have "Running # replicate (length ctxs - 1) Running = replicate (length ctxs) Running"
      using False by (cases ctxs) simp_all
    ultimately show ?thesis using tick by simp
  qed (use tick Cons.prems in simp)
qed simp

section \<open>Properties\<close>

text \<open>(C27) Memory of a behaviour tree. From the start and however often a tree without parallel nodes is
  ticked, it keeps its shape, and whenever a tick completes with success or failure the whole tree
  is back in its initial state: the next tick starts over, and no node keeps stale progress.\<close>

theorem behavior_tree_restarts:
  assumes "resumable t" "bt_Reset t = t" "bt_run ctxs t w = (statuses, t', w')"
  shows "resumable t' \<and> bt_Reset t' = t \<and> (statuses = [] \<or> last statuses = Running \<or> t' = t)"
  using bt_run_resumable [OF assms(1,3)] assms(2) by auto

theorem behavior_tree_restarts_witness:
  "let t = mkSequence [BTCondition (\<lambda>ctx w. (True, w)),
         BTAction (\<lambda>ctx w. (if w < (2 :: nat) then Running else Success, w + 1))]
   in \<exists>t1 t3. bt_run [\<lparr>bc_entity = mkEntity 0 0, bc_deltaTime = 0\<rparr>] t 0 = ([Running], t1, 1) \<and> t1 \<noteq> t
     \<and> bt_run (replicate 3 \<lparr>bc_entity = mkEntity 0 0, bc_deltaTime = 0\<rparr>) t 0 = ([Running, Running, Success], t3, 3)
     \<and> t3 = t"
proof -
  define t where "t = mkSequence [BTCondition (\<lambda>ctx w. (True, w)),
         BTAction (\<lambda>ctx w. (if w < (2 :: nat) then Running else Success, w + 1))]"
  let ?ctxs = "replicate 3 \<lparr>bc_entity = mkEntity 0 0, bc_deltaTime = 0\<rparr>"
  have r: "resumable t" "bt_Reset t = t" by (simp_all add: t_def mkSequence_def)
  obtain t3 where run: "bt_run ?ctxs t 0 = ([Running, Running, Success], t3, 3)"
    by (simp add: t_def mkSequence_def numeral_3_eq_3)
  have "t3 = t" using behavior_tree_restarts [OF r run] by simp
  then show ?thesis
    using run by (simp add: Let_def flip: t_def) (simp add: t_def mkSequence_def)
qed

text \<open>A tree of leaves that finish within a tick is short-circuit logic: a sequence is a
  conjunction, a selector a disjunction, an inverter a negation, a parallel node evaluates all its
  children. \<^verbatim>\<open>Tick\<close> computes exactly that value, performs exactly those effects, and leaves the tree
  as it was.\<close>

theorem instantaneous_tree_is_logic:
  assumes "instantaneous t"
  shows "bt_Tick ctx t w =
    (if fst (btEval ctx t w) then Success else Failure, t, snd (btEval ctx t w))"
  using bt_Tick_eval(1) [OF assms, of ctx w] by (simp add: verdict_def)

theorem instantaneous_tree_is_logic_witness:
  "bt_Tick \<lparr>bc_entity = mkEntity 0 0, bc_deltaTime = 0\<rparr>
     (mkSelector [BTInverter (BTCondition (\<lambda>ctx w. (w > (0 :: nat), w))), BTAction (\<lambda>ctx w. (Success, w + 1))]) 5
   = (Success, mkSelector [BTInverter (BTCondition (\<lambda>ctx w. (w > 0, w))), BTAction (\<lambda>ctx w. (Success, w + 1))], 6)"
  using instantaneous_tree_is_logic [of
      "mkSelector [BTInverter (BTCondition (\<lambda>ctx w. (w > (0 :: nat), w))), BTAction (\<lambda>ctx w. (Success, w + 1))]"
      "\<lparr>bc_entity = mkEntity 0 0, bc_deltaTime = 0\<rparr>" 5]
  by (simp add: mkSelector_def)

text \<open>A repeater over a child that finishes within a tick returns \<^verbatim>\<open>Running\<close> for all but the last of
  \<open>maxRepeats\<close> ticks and then \<^verbatim>\<open>Success\<close>, whether the child succeeded or failed.\<close>

theorem repeater_counts_completions:
  assumes "instantaneous c" "0 < n" "length ctxs = unat n"
  shows "\<exists>w'. bt_run ctxs (mkRepeater c n) w =
    (replicate (unat n - 1) Running @ [Success], mkRepeater c n, w')"
  using repeater_run [OF assms(1), of 0 n ctxs w] assms(2,3)
  by (simp add: mkRepeater_def word_less_nat_alt)

theorem repeater_counts_completions_witness:
  "\<exists>w'. bt_run (replicate 2 \<lparr>bc_entity = mkEntity 0 0, bc_deltaTime = 0\<rparr>)
     (mkRepeater (BTCondition (\<lambda>ctx w. (False, w))) 2) (0 :: nat)
   = ([Running, Success], mkRepeater (BTCondition (\<lambda>ctx w. (False, w))) 2, w')"
  using repeater_counts_completions [of "BTCondition (\<lambda>ctx w. (False, w))" 2
      "replicate 2 \<lparr>bc_entity = mkEntity 0 0, bc_deltaTime = 0\<rparr>" "0 :: nat"]
  by simp

text \<open>A parallel node that completes does not reset the children that are still running: the tree is
  not back in its initial state, and the next tick resumes in the middle of the sequence.\<close>

theorem parallel_completion_keeps_progress:
  "let pass = BTAction (\<lambda>ctx w. (Success, w)); wait = BTAction (\<lambda>ctx w. (Running, w));
       t = BTParallel RequireOne [mkSequence [pass, wait], pass]
   in bt_Reset t = t \<and> bt_Tick ctx t (w :: nat) = (Success, BTParallel RequireOne [BTSequence [pass, wait] 1, pass], w)"
  by (simp add: mkSequence_def parallelStatus_def Let_def)

end
