(* ===== verification/Object_System.thy ===== *)
theory Object_System
  imports World Combat
begin

text \<open>
  \<^verbatim>\<open>include/cgs/game/components.hpp\<close>, \<^verbatim>\<open>object_types.hpp\<close> and
  \<^verbatim>\<open>src/game/object_system/object_system.cpp\<close>: identity and movement of game objects and the system
  that integrates positions. The query of the system ranges over the transforms and the movements;
  the theory proves that a tick moves exactly the entities that have both components and are not
  idle, each by its direction, speed and the elapsed time.
\<close>

section \<open>Components\<close>

datatype ObjectType = PlayerObject | CreatureObject | GameObject

datatype MovementState = MoveIdle | MoveWalking | MoveRunning | MoveFalling

type_synonym GUID = u64

definition kInvalidGUID :: GUID where "kInvalidGUID = 0"

text \<open>\<^verbatim>\<open>GenerateGUID\<close> on the process-wide counter: the new id and the counter afterwards.\<close>

definition GenerateGUID :: "u64 \<Rightarrow> GUID \<times> u64" where
  "GenerateGUID counter = (counter + 1, counter + 1)"

record Identity =
  id_guid :: GUID
  id_name :: string
  id_type :: ObjectType
  id_entry :: u32

definition defaultIdentity :: Identity where
  "defaultIdentity = \<lparr>id_guid = kInvalidGUID, id_name = [], id_type = GameObject, id_entry = 0\<rparr>"

definition defaultTransform :: Transform where
  "defaultTransform = \<lparr>tr_position = Zero, tr_rotation = IdentityRotation, tr_scale = One\<rparr>"

definition defaultStats :: Stats where
  "defaultStats = \<lparr>st_health = 0, st_maxHealth = 0, st_mana = 0, st_maxMana = 0, st_attributes = replicate 16 0\<rparr>"

record Movement =
  mv_speed :: rat
  mv_baseSpeed :: rat
  mv_direction :: Vector3
  mv_state :: MovementState

definition defaultMovement :: Movement where
  "defaultMovement = \<lparr>mv_speed = 0, mv_baseSpeed = 0, mv_direction = Zero, mv_state = MoveIdle\<rparr>"

definition mv_ApplySpeedModifier :: "rat \<Rightarrow> Movement \<Rightarrow> Movement" where
  "mv_ApplySpeedModifier modifier m = m\<lparr>mv_speed := f32 (mv_baseSpeed m * modifier)\<rparr>"

definition mv_ResetSpeed :: "Movement \<Rightarrow> Movement" where
  "mv_ResetSpeed m = m\<lparr>mv_speed := mv_baseSpeed m\<rparr>"

section \<open>The update system\<close>

text \<open>The two pools of \<^verbatim>\<open>Query<Transform, Movement>\<close> at one type.\<close>

datatype ObjComponent = OTransform Transform | OMovement Movement

fun asTransform :: "ObjComponent \<Rightarrow> Transform" where
  "asTransform (OTransform t) = t"
| "asTransform (OMovement m) = defaultTransform"

fun asMovement :: "ObjComponent \<Rightarrow> Movement" where
  "asMovement (OMovement m) = m"
| "asMovement (OTransform t) = defaultMovement"

definition integrate :: "rat \<Rightarrow> Transform \<Rightarrow> Movement \<Rightarrow> Transform" where
  "integrate deltaTime transform movement =
     (if mv_state movement = MoveIdle then transform
      else transform\<lparr>tr_position := addVector (tr_position transform)
             (scaleVector (scaleVector (mv_direction movement) (mv_speed movement)) deltaTime)\<rparr>)"

fun updateObject :: "rat \<Rightarrow> Entity \<Rightarrow> ObjComponent list \<Rightarrow> ObjComponent list" where
  "updateObject deltaTime entity [OTransform transform, OMovement movement] =
     [OTransform (integrate deltaTime transform movement), OMovement movement]"
| "updateObject deltaTime entity components = components"

definition objectPools :: "Transform ComponentStorage \<Rightarrow> Movement ComponentStorage \<Rightarrow> ObjComponent pools" where
  "objectPools transforms movements =
     (\<lambda>p. if p = 0 then cs_map OTransform transforms else cs_map OMovement movements)"

definition ob_Execute :: "rat \<Rightarrow> Transform ComponentStorage \<times> Movement ComponentStorage
    \<Rightarrow> (Transform ComponentStorage \<times> Movement ComponentStorage) option" where
  "ob_Execute deltaTime st =
     map_option (\<lambda>(query, pools). (cs_map asTransform (pools 0), cs_map asMovement (pools 1)))
       (q_ForEach (updateObject deltaTime) (mkQuery [0, 1]) (objectPools (fst st) (snd st)))"

section \<open>Effect of a tick\<close>

definition moved :: "rat \<Rightarrow> Transform option \<Rightarrow> Movement option \<Rightarrow> Transform option" where
  "moved deltaTime t m = (case (t, m) of (Some t, Some m) \<Rightarrow> Some (integrate deltaTime t m) | _ \<Rightarrow> t)"

lemma moved_None: "moved dt t m = None \<longleftrightarrow> t = None"
  by (simp add: moved_def split: option.split)

lemma updateObject_length: "length cs = 2 \<Longrightarrow> length (updateObject dt e cs) = 2"
  by (cases "(dt, e, cs)" rule: updateObject.cases) auto

lemma ob_Execute_spec:
  assumes "cs_inv ts" "cs_inv ms"
  shows "\<exists>ts' ms'. ob_Execute dt (ts, ms) = Some (ts', ms') \<and> cs_inv ts' \<and> cs_inv ms'
    \<and> (\<forall>k. cs_lookup ts' k = moved dt (cs_lookup ts k) (cs_lookup ms k))
    \<and> (\<forall>k. cs_lookup ms' k = cs_lookup ms k)"
proof -
  let ?q = "mkQuery [0, 1]" and ?h = "objectPools ts ms"
  have inv: "\<forall>p. cs_inv (?h p)" using assms by (simp add: objectPools_def)
  have "q_sound (?q, ?h)" using inv by (simp add: q_sound_def mkQuery_def)
  then obtain q' h' where run: "q_ForEach (updateObject dt) ?q ?h = Some (q', h')"
    and inv': "\<forall>p. cs_inv (h' p)" and has: "\<forall>p x. cs_Has (h' p) x = cs_Has (?h p) x"
    and lk: "\<forall>j < 2. \<forall>e. entity_version e = 0 \<longrightarrow> cs_lookup (h' ([0, 1] ! j)) (eidx e) =
           (if q_matches ?q ?h e
            then Some (updateObject dt e (map (\<lambda>p. the (cs_lookup (?h p) (eidx e))) [0, 1]) ! j)
            else cs_lookup (?h ([0, 1] ! j)) (eidx e))"
    using q_ForEach_spec [of ?q ?h "updateObject dt"] updateObject_length
    by (auto simp: mkQuery_def numeral_2_eq_2)
  have at: "cs_lookup (cs_map asTransform (h' 0)) (eidx e) = moved dt (cs_lookup ts (eidx e)) (cs_lookup ms (eidx e))
      \<and> cs_lookup (cs_map asMovement (h' 1)) (eidx e) = cs_lookup ms (eidx e)" if "entity_version e = 0" for e
    using lk [rule_format, of 0 e] lk [rule_format, of 1 e] that assms inv'
    by (auto simp: cs_map_lookup objectPools_def q_matches_def mkQuery_def moved_def cs_Has_lookup
        option.map_comp option.map_ident comp_def split: option.splits)
  have "cs_lookup (cs_map asTransform (h' 0)) k = moved dt (cs_lookup ts k) (cs_lookup ms k)
      \<and> cs_lookup (cs_map asMovement (h' 1)) k = cs_lookup ms k" for k
  proof (cases "\<exists>e. entity_version e = 0 \<and> eidx e = k")
    case False
    have "cs_inv (cs_map asTransform (h' 0))" "cs_inv (cs_map asMovement (h' 1))" using inv' by simp_all
    then show ?thesis using assms by (simp add: moved_def lookup_no_id [OF _ False])
  qed (use at in auto)
  then show ?thesis
    using run inv' by (auto simp: ob_Execute_def)
qed

section \<open>Properties\<close>

text \<open>A tick of the object system moves exactly the entities that have a transform and a movement
  that is not idle, by direction times speed times elapsed time with the rounding of the code;
  every other transform and all movements stay as they are, and no assertion fails.\<close>

theorem object_update_exact:
  assumes "cs_inv ts" "cs_inv ms"
  shows "\<exists>ts' ms'. ob_Execute dt (ts, ms) = Some (ts', ms') \<and> cs_inv ts' \<and> cs_inv ms'
    \<and> (\<forall>k. cs_lookup ms' k = cs_lookup ms k)
    \<and> (\<forall>k t m. cs_lookup ts k = Some t \<and> cs_lookup ms k = Some m \<and> mv_state m \<noteq> MoveIdle \<longrightarrow>
         cs_lookup ts' k = Some (t\<lparr>tr_position := addVector (tr_position t)
           (scaleVector (scaleVector (mv_direction m) (mv_speed m)) dt)\<rparr>))
    \<and> (\<forall>k. (cs_lookup ms k = None \<or> mv_state (the (cs_lookup ms k)) = MoveIdle) \<longrightarrow>
         cs_lookup ts' k = cs_lookup ts k)"
proof -
  obtain ts' ms' where r: "ob_Execute dt (ts, ms) = Some (ts', ms')" "cs_inv ts'" "cs_inv ms'"
    and l: "\<forall>k. cs_lookup ts' k = moved dt (cs_lookup ts k) (cs_lookup ms k)" "\<forall>k. cs_lookup ms' k = cs_lookup ms k"
    using ob_Execute_spec [OF assms] by blast
  have "cs_lookup ts' k = cs_lookup ts k"
    if "cs_lookup ms k = None \<or> mv_state (the (cs_lookup ms k)) = MoveIdle" for k
    using that l(1) by (auto simp: moved_def integrate_def split: option.splits)
  then show ?thesis using r l by (auto simp: moved_def integrate_def)
qed

theorem object_update_exact_witness:
  "\<exists>ts' ms'. ob_Execute (1 / 2) (singlePool defaultTransform,
      singlePool (defaultMovement\<lparr>mv_speed := 4, mv_direction := \<lparr>v_x = 1, v_y = 0, v_z = 0\<rparr>, mv_state := MoveRunning\<rparr>))
      = Some (ts', ms')
    \<and> cs_lookup ts' 0 = Some (defaultTransform\<lparr>tr_position := addVector Zero (scaleVector
        (scaleVector \<lparr>v_x = 1, v_y = 0, v_z = 0\<rparr> 4) (1 / 2))\<rparr>)"
proof -
  let ?m = "defaultMovement\<lparr>mv_speed := 4, mv_direction := \<lparr>v_x = 1, v_y = 0, v_z = 0\<rparr>, mv_state := MoveRunning\<rparr>"
  obtain ts' ms' where "ob_Execute (1 / 2) (singlePool defaultTransform, singlePool ?m) = Some (ts', ms')"
    "\<forall>k t m. cs_lookup (singlePool defaultTransform) k = Some t \<and> cs_lookup (singlePool ?m) k = Some m \<and> mv_state m \<noteq> MoveIdle \<longrightarrow>
         cs_lookup ts' k = Some (t\<lparr>tr_position := addVector (tr_position t)
           (scaleVector (scaleVector (mv_direction m) (mv_speed m)) (1 / 2))\<rparr>)"
    using object_update_exact [of "singlePool defaultTransform" "singlePool ?m" "1 / 2"] by auto
  moreover have "mv_state ?m \<noteq> MoveIdle" "cs_lookup (singlePool defaultTransform) 0 = Some defaultTransform"
    "cs_lookup (singlePool ?m) 0 = Some ?m" by simp_all
  ultimately have "cs_lookup ts' 0 = Some (defaultTransform\<lparr>tr_position := addVector (tr_position defaultTransform)
      (scaleVector (scaleVector (mv_direction ?m) (mv_speed ?m)) (1 / 2))\<rparr>)" by blast
  then show ?thesis
    using \<open>ob_Execute _ _ = _\<close> by (intro exI [of _ ts'] exI [of _ ms']) (simp add: defaultTransform_def)
qed

end
