(* ===== verification/AI_System.thy ===== *)
theory AI_System
  imports Behavior_Tree Object_System
begin

text \<open>
  \<^verbatim>\<open>include/cgs/game/ai_components.hpp\<close>, \<^verbatim>\<open>ai_system.hpp\<close> and \<^verbatim>\<open>src/game/ai_system/ai_system.cpp\<close>:
  brains, the built-in tasks and the system that ticks the trees of the brains that are due. A
  tree is held by \<^verbatim>\<open>shared_ptr\<close>: brains hold pointers (\<open>nat\<close>) into a heap of trees, so that
  several brains can share one tree and its counters. The leaves see the pools and the blackboard
  of the brain that is being ticked. The theory proves the throttling and that
  the system writes only the components it declares.
\<close>

section \<open>Brains\<close>

definition kMaxPatrolWaypoints :: nat where "kMaxPatrolWaypoints = 32"
definition kDefaultAITickInterval :: rat where "kDefaultAITickInterval = f32 (1 / 10)"
definition kMoveToArrivalDistance :: rat where "kMoveToArrivalDistance = 1"
definition kDefaultFleeDistance :: rat where "kDefaultFleeDistance = 20"
definition kDefaultAttackRange :: rat where "kDefaultAttackRange = 3"

datatype AIState = AIIdle | Patrolling | Chasing | Attacking | Fleeing | AIDead

record AIBrain =
  ab_behaviorTree :: "nat option"
  ab_blackboard :: Blackboard
  ab_state :: AIState
  ab_timeSinceLastTick :: rat
  ab_tickInterval :: rat
  ab_homePosition :: Vector3
  ab_target :: Entity

record AiPools =
  ap_transforms :: "Transform ComponentStorage"
  ap_movements :: "Movement ComponentStorage"
  ap_stats :: "Stats ComponentStorage"
  ap_threatLists :: "ThreatList ComponentStorage"

type_synonym AiWorld = "AiPools \<times> Blackboard"
type_synonym AiTree = "AiWorld BTNode"

record AISystem =
  ai_defaultTickInterval :: rat
  ai_lastTickUpdateCount :: u32

section \<open>Built-in tasks\<close>

text \<open>Squared distance in the plane of x and z.\<close>

definition planarSquare :: "Vector3 \<Rightarrow> rat" where
  "planarSquare diff = f32 (f32 (v_x diff * v_x diff) + f32 (v_z diff * v_z diff))"

definition setMovement :: "Entity \<Rightarrow> MovementState \<Rightarrow> Vector3 \<Rightarrow> AiPools \<Rightarrow> AiPools" where
  "setMovement entity state direction pools =
     (case cs_Get (ap_movements pools) entity of
        None \<Rightarrow> pools
      | Some m \<Rightarrow> pools\<lparr>ap_movements :=
          assignRef entity (m\<lparr>mv_direction := direction, mv_state := state\<rparr>) (ap_movements pools)\<rparr>)"

definition moveTo :: "BTContext \<Rightarrow> AiWorld \<Rightarrow> BTStatus \<times> AiWorld" where
  "moveTo ctx w = (case w of (pools, blackboard) \<Rightarrow>
     (case bb_GetVector blackboard ''move_target'' of
        None \<Rightarrow> (Failure, w)
      | Some target \<Rightarrow>
          (case (cs_Get (ap_transforms pools) (bc_entity ctx), cs_Get (ap_movements pools) (bc_entity ctx)) of
             (Some transform, Some movement) \<Rightarrow>
               let diff = subVector target (tr_position transform)
               in if planarSquare diff \<le> f32 (kMoveToArrivalDistance * kMoveToArrivalDistance)
                  then (Success, setMovement (bc_entity ctx) MoveIdle Zero pools, blackboard)
                  else (Running, setMovement (bc_entity ctx) MoveRunning (Normalized diff) pools, blackboard)
           | _ \<Rightarrow> (Failure, w))))"

definition attack :: "BTContext \<Rightarrow> AiWorld \<Rightarrow> BTStatus \<times> AiWorld" where
  "attack ctx w = (case w of (pools, blackboard) \<Rightarrow>
     (case bb_GetEntity blackboard ''target'' of
        None \<Rightarrow> (Failure, w)
      | Some target \<Rightarrow>
          if \<not> isValid target then (Failure, w)
          else (case (cs_Get (ap_transforms pools) (bc_entity ctx), cs_Get (ap_transforms pools) target) of
             (Some attacker, Some victim) \<Rightarrow>
               if (case cs_Get (ap_stats pools) target of None \<Rightarrow> False | Some s \<Rightarrow> st_health s \<le> 0) then (Failure, w)
               else if planarSquare (subVector (tr_position victim) (tr_position attacker))
                         > f32 (kDefaultAttackRange * kDefaultAttackRange)
               then (Failure, w) else (Success, w)
           | _ \<Rightarrow> (Failure, w))))"

definition patrol :: "BTContext \<Rightarrow> AiWorld \<Rightarrow> BTStatus \<times> AiWorld" where
  "patrol ctx w = (case w of (pools, blackboard) \<Rightarrow>
     (case bb_GetWaypoints blackboard ''waypoints'' of
        None \<Rightarrow> (Failure, w)
      | Some waypoints \<Rightarrow>
          if waypoints = [] then (Failure, w)
          else let stored = (case bb_GetIndex blackboard ''patrol_index'' of Some i \<Rightarrow> unat i | None \<Rightarrow> 0);
                   waypointIndex = (if stored \<ge> length waypoints then 0 else stored)
          in (case (cs_Get (ap_transforms pools) (bc_entity ctx), cs_Get (ap_movements pools) (bc_entity ctx)) of
             (Some transform, Some movement) \<Rightarrow>
               let diff = subVector (waypoints ! waypointIndex) (tr_position transform)
               in if planarSquare diff \<le> f32 (kMoveToArrivalDistance * kMoveToArrivalDistance)
                  then (Running, pools,
                        bb_Set ''patrol_index'' (BBIndex (word_of_nat ((waypointIndex + 1) mod length waypoints))) blackboard)
                  else (Running, setMovement (bc_entity ctx) MoveWalking (Normalized diff) pools, blackboard)
           | _ \<Rightarrow> (Failure, w))))"

definition flee :: "BTContext \<Rightarrow> AiWorld \<Rightarrow> BTStatus \<times> AiWorld" where
  "flee ctx w = (case w of (pools, blackboard) \<Rightarrow>
     (case (cs_Get (ap_transforms pools) (bc_entity ctx), cs_Get (ap_movements pools) (bc_entity ctx)) of
        (Some transform, Some movement) \<Rightarrow>
          let threatSource = (case cs_Get (ap_threatLists pools) (bc_entity ctx) of
                                None \<Rightarrow> EntityRaw kInvalidRaw | Some threats \<Rightarrow> tl_GetTopThreat threats)
          in if \<not> isValid threatSource then (Failure, w)
             else (case cs_Get (ap_transforms pools) threatSource of
                None \<Rightarrow> (Failure, w)
              | Some threat \<Rightarrow>
                  let awayDir = subVector (tr_position transform) (tr_position threat)
                  in if planarSquare awayDir \<ge> f32 (kDefaultFleeDistance * kDefaultFleeDistance)
                     then (Success, setMovement (bc_entity ctx) MoveIdle Zero pools, blackboard)
                     else (Running, setMovement (bc_entity ctx) MoveRunning (Normalized awayDir) pools, blackboard))
      | _ \<Rightarrow> (Failure, w)))"

definition idleTask :: "BTContext \<Rightarrow> AiWorld \<Rightarrow> BTStatus \<times> AiWorld" where
  "idleTask ctx w = (case w of (pools, blackboard) \<Rightarrow>
     (Success, setMovement (bc_entity ctx) MoveIdle Zero pools, blackboard))"

definition CreateMoveToTask :: AiTree where "CreateMoveToTask = BTAction moveTo"
definition CreateAttackTask :: AiTree where "CreateAttackTask = BTAction attack"
definition CreatePatrolTask :: AiTree where "CreatePatrolTask = BTAction patrol"
definition CreateFleeTask :: AiTree where "CreateFleeTask = BTAction flee"
definition CreateIdleTask :: AiTree where "CreateIdleTask = BTAction idleTask"

section \<open>The system\<close>

definition mkAISystem :: "rat \<Rightarrow> AISystem" where
  "mkAISystem defaultTickInterval = \<lparr>ai_defaultTickInterval = defaultTickInterval, ai_lastTickUpdateCount = 0\<rparr>"

definition ai_SetDefaultTickInterval :: "rat \<Rightarrow> AISystem \<Rightarrow> AISystem" where
  "ai_SetDefaultTickInterval interval sys =
     (if interval > 0 then sys\<lparr>ai_defaultTickInterval := interval\<rparr> else sys)"

definition effectiveInterval :: "rat \<Rightarrow> AIBrain \<Rightarrow> rat" where
  "effectiveInterval dflt brain = (if ab_tickInterval brain > 0 then ab_tickInterval brain else dflt)"

definition tickBrain :: "rat \<Rightarrow> rat \<Rightarrow> Entity \<Rightarrow> AIBrain \<Rightarrow> (nat \<Rightarrow> AiTree) \<times> AiPools \<times> u32
    \<Rightarrow> AIBrain \<times> (nat \<Rightarrow> AiTree) \<times> AiPools \<times> u32" where
  "tickBrain deltaTime dflt entity brain st =
     (if ab_state brain = AIDead then (brain, st)
      else case ab_behaviorTree brain of
        None \<Rightarrow> (brain, st)
      | Some tree \<Rightarrow>
          let brain1 = brain\<lparr>ab_timeSinceLastTick := f32 (ab_timeSinceLastTick brain + deltaTime)\<rparr>
          in if ab_timeSinceLastTick brain1 < effectiveInterval dflt brain1 then (brain1, st)
             else (case st of (trees, pools, updateCount) \<Rightarrow>
               (case bt_Tick \<lparr>bc_entity = entity, bc_deltaTime = ab_timeSinceLastTick brain1\<rparr>
                       (trees tree) (pools, ab_blackboard brain1) of
                  (status, tree', pools', blackboard) \<Rightarrow>
                    (brain1\<lparr>ab_blackboard := blackboard, ab_timeSinceLastTick := 0\<rparr>,
                     trees(tree := tree'), pools', updateCount + 1))))"

definition ai_Execute :: "rat \<Rightarrow> AISystem \<Rightarrow> AIBrain ComponentStorage \<Rightarrow> (nat \<Rightarrow> AiTree) \<Rightarrow> AiPools
    \<Rightarrow> (AISystem \<times> AIBrain ComponentStorage \<times> (nat \<Rightarrow> AiTree) \<times> AiPools) option" where
  "ai_Execute deltaTime sys brains trees pools =
     map_option (\<lambda>(brains', trees', pools', updateCount).
         (sys\<lparr>ai_lastTickUpdateCount := updateCount\<rparr>, brains', trees', pools'))
       (forEachComponent (tickBrain deltaTime (ai_defaultTickInterval sys)) (brains, trees, pools, 0))"

lemmas task_defs = moveTo_def attack_def patrol_def flee_def idleTask_def

section \<open>What the tasks may change\<close>

text \<open>A leaf of the library: a built-in task, or a condition that only looks.\<close>

fun builtin :: "AiTree \<Rightarrow> bool" where
  "builtin (BTSequence cs i) \<longleftrightarrow> (\<forall>c \<in> set cs. builtin c)"
| "builtin (BTSelector cs i) \<longleftrightarrow> (\<forall>c \<in> set cs. builtin c)"
| "builtin (BTParallel policy cs) \<longleftrightarrow> (\<forall>c \<in> set cs. builtin c)"
| "builtin (BTInverter c) \<longleftrightarrow> builtin c"
| "builtin (BTRepeater c n k) \<longleftrightarrow> builtin c"
| "builtin (BTCondition p) \<longleftrightarrow> (\<forall>ctx w. snd (p ctx w) = w)"
| "builtin (BTAction f) \<longleftrightarrow> f \<in> {moveTo, attack, patrol, flee, idleTask}"

text \<open>Only the direction and the state of the movements of the ids \<open>ks\<close> may differ.\<close>

definition steered :: "Movement \<Rightarrow> Movement \<Rightarrow> bool" where
  "steered m m' \<longleftrightarrow> mv_speed m' = mv_speed m \<and> mv_baseSpeed m' = mv_baseSpeed m"

definition steers :: "nat set \<Rightarrow> AiPools \<Rightarrow> AiPools \<Rightarrow> bool" where
  "steers ks p p' \<longleftrightarrow> ap_transforms p' = ap_transforms p \<and> ap_stats p' = ap_stats p \<and> ap_threatLists p' = ap_threatLists p
     \<and> (cs_inv (ap_movements p) \<longrightarrow> cs_inv (ap_movements p')
          \<and> (\<forall>k. rel_option steered (cs_lookup (ap_movements p) k) (cs_lookup (ap_movements p') k))
          \<and> (\<forall>k. k \<notin> ks \<longrightarrow> cs_lookup (ap_movements p') k = cs_lookup (ap_movements p) k))"

lemma steered_refl [simp]: "rel_option steered x x"
  by (rule option.rel_refl) (simp add: steered_def)

lemma steered_trans: "rel_option steered x y \<Longrightarrow> rel_option steered y z \<Longrightarrow> rel_option steered x z"
  by (cases x; cases y; cases z) (auto simp: steered_def)

lemma steers_refl [simp]: "steers ks p p"
  by (simp add: steers_def)

lemma steers_trans: "steers ks p p' \<Longrightarrow> steers ks p' p'' \<Longrightarrow> steers ks p p''"
  unfolding steers_def by (auto intro: steered_trans)

lemma steers_mono: "steers ks p p' \<Longrightarrow> ks \<subseteq> ks' \<Longrightarrow> steers ks' p p'"
  unfolding steers_def by blast

lemma setMovement_steers: "steers {eidx e} p (setMovement e s d p)"
proof (cases "cs_Get (ap_movements p) e")
  case (Some m)
  then have has: "cs_Has (ap_movements p) e" by (simp add: cs_Get_def split: if_splits)
  show ?thesis
    using Some has
    by (auto simp: steered_def steers_def setMovement_def assignRef_inv assignRef_lookup cs_Get_lookup)
qed (simp add: setMovement_def)

lemma task_steers:
  "f \<in> {moveTo, attack, patrol, flee, idleTask} \<Longrightarrow> steers {eidx (bc_entity ctx)} (fst w) (fst (snd (f ctx w)))"
  by (auto simp: task_defs Let_def setMovement_steers split: prod.splits option.splits)

lemma builtin_Reset: "builtin (bt_Reset t) = builtin t"
  by (induction t) auto

lemma builtin_same_shape: "bt_Reset t' = bt_Reset t \<Longrightarrow> builtin t' = builtin t"
  by (metis builtin_Reset)

lemma builtin_steers:
  fixes t :: AiTree and cs :: "AiTree list"
  shows "builtin t \<Longrightarrow> steers {eidx (bc_entity ctx)} (fst w) (fst (snd (snd (bt_Tick ctx t w))))"
    and "(\<forall>c \<in> set cs. builtin c) \<Longrightarrow> steers {eidx (bc_entity ctx)} (fst w) (fst (snd (snd (snd (sequenceLoop ctx cs w)))))"
    and "(\<forall>c \<in> set cs. builtin c) \<Longrightarrow> steers {eidx (bc_entity ctx)} (fst w) (fst (snd (snd (snd (selectorLoop ctx cs w)))))"
    and "(\<forall>c \<in> set cs. builtin c) \<Longrightarrow> steers {eidx (bc_entity ctx)} (fst w) (fst (snd (snd (parallelLoop ctx cs w))))"
proof (induction ctx t w and ctx cs w and ctx cs w and ctx cs w
    rule: bt_Tick_sequenceLoop_selectorLoop_parallelLoop.induct)
  case (1 ctx children currentChild w)
  then have "\<forall>c \<in> set (drop currentChild children). builtin c" by (auto dest: in_set_dropD)
  then show ?case using 1(1) by (auto split: prod.splits)
next
  case (2 ctx children currentChild w)
  then have "\<forall>c \<in> set (drop currentChild children). builtin c" by (auto dest: in_set_dropD)
  then show ?case using 2(1) by (auto split: prod.splits)
next
  case (7 ctx f w)
  then have "f \<in> {moveTo, attack, patrol, flee, idleTask}" by simp
  from task_steers [OF this, of ctx w] show ?case by (auto split: prod.splits)
next
  case (9 ctx c cs w)
  then show ?case
    by (cases "bt_Tick ctx c w") (auto intro: steers_trans split: BTStatus.splits prod.splits)
next
  case (11 ctx c cs w)
  then show ?case
    by (cases "bt_Tick ctx c w") (auto intro: steers_trans split: BTStatus.splits prod.splits)
next
  case (13 ctx c cs w)
  then show ?case
    by (cases "bt_Tick ctx c w") (auto intro: steers_trans split: prod.splits)
next
  case (6 ctx p w)
  then have "snd (p ctx w) = w" by (cases w) simp
  then show ?case by (auto split: prod.splits)
qed (auto simp: Let_def split: prod.splits)

section \<open>Throttling\<close>

text \<open>The time a brain has accumulated at this tick, and whether its tree is ticked.\<close>

definition active :: "AIBrain \<Rightarrow> bool" where
  "active brain \<longleftrightarrow> ab_state brain \<noteq> AIDead \<and> ab_behaviorTree brain \<noteq> None"

definition accumulated :: "rat \<Rightarrow> AIBrain \<Rightarrow> rat" where
  "accumulated dt brain = f32 (ab_timeSinceLastTick brain + dt)"

definition due :: "rat \<Rightarrow> rat \<Rightarrow> AIBrain \<Rightarrow> bool" where
  "due dt dflt brain \<longleftrightarrow> active brain \<and> effectiveInterval dflt brain \<le> accumulated dt brain"

text \<open>A brain after the tick, up to what its tree wrote to the blackboard.\<close>

definition throttled :: "rat \<Rightarrow> rat \<Rightarrow> AIBrain \<Rightarrow> AIBrain \<Rightarrow> bool" where
  "throttled dt dflt b b' \<longleftrightarrow>
     (if due dt dflt b then b' = b\<lparr>ab_timeSinceLastTick := 0, ab_blackboard := ab_blackboard b'\<rparr>
      else if active b then b' = b\<lparr>ab_timeSinceLastTick := accumulated dt b\<rparr>
      else b' = b)"

lemma tickBrain_throttled:
  "throttled dt dflt b (fst (tickBrain dt dflt e b st))"
  "snd (snd (snd (tickBrain dt dflt e b st))) = snd (snd st) + (if due dt dflt b then 1 else 0)"
  by (auto simp: tickBrain_def throttled_def due_def active_def accumulated_def effectiveInterval_def Let_def
      split: prod.splits option.splits)

lemma tickBrain_steers:
  assumes "\<forall>p. builtin (fst st p)"
  shows "\<forall>p. builtin (fst (snd (tickBrain dt dflt e b st)) p)"
    and "steers {eidx e} (fst (snd st)) (fst (snd (snd (tickBrain dt dflt e b st))))"
proof -
  obtain trees pools n where st: "st = (trees, pools, n)" by (cases st)
  have shape: "builtin (fst (snd (bt_Tick ctx (trees p) w)))" for ctx p w
    using builtin_same_shape [OF bt_Tick_shape(1) [of ctx "trees p" w]] assms st by simp
  show "\<forall>p. builtin (fst (snd (tickBrain dt dflt e b st)) p)"
    using assms shape by (auto simp: st tickBrain_def Let_def split: option.splits prod.splits) (metis fst_conv snd_conv)
  have "steers {eidx e} pools (fst (snd (snd (bt_Tick \<lparr>bc_entity = e, bc_deltaTime = t\<rparr> (trees p) (pools, bb)))))" for t p bb
    using builtin_steers(1) [of "trees p" "\<lparr>bc_entity = e, bc_deltaTime = t\<rparr>" "(pools, bb)"] assms st by simp
  then show "steers {eidx e} (fst (snd st)) (fst (snd (snd (tickBrain dt dflt e b st))))"
    by (auto simp: st tickBrain_def Let_def split: option.splits prod.splits) (metis fst_conv snd_conv)
qed

lemma passOver_brains:
  "list_all2 (throttled dt dflt) (map snd xs) (fst (passOver (tickBrain dt dflt) xs st))
   \<and> snd (snd (snd (passOver (tickBrain dt dflt) xs st)))
       = snd (snd st) + word_of_nat (length (filter (due dt dflt) (map snd xs)))"
proof (induction xs arbitrary: st)
  case (Cons x xs)
  obtain k b where x: "x = (k, b)" by fastforce
  obtain b' st' where t: "tickBrain dt dflt (mkEntity k 0) b st = (b', st')" by (meson surj_pair)
  show ?case
    using Cons.IH [of st'] tickBrain_throttled [where dt = dt and dflt = dflt and b = b and e = "mkEntity k 0" and st = st] t
    by (auto simp: x split_beta)
qed simp

lemma passOver_steers:
  assumes "\<forall>p. builtin (fst st p)" "\<And>k. k \<in> set (map fst xs) \<Longrightarrow> unat k < 16777216"
  shows "(\<forall>p. builtin (fst (snd (passOver (tickBrain dt dflt) xs st)) p))
    \<and> steers (unat ` set (map fst xs)) (fst (snd st)) (fst (snd (snd (passOver (tickBrain dt dflt) xs st))))"
  using assms
proof (induction xs arbitrary: st)
  case (Cons x xs)
  obtain k b where x: "x = (k, b)" by fastforce
  obtain b' st' where t: "tickBrain dt dflt (mkEntity k 0) b st = (b', st')" by (meson surj_pair)
  have one: "\<forall>p. builtin (fst st' p)" "steers {unat k} (fst (snd st)) (fst (snd st'))"
    using tickBrain_steers [OF Cons.prems(1), where dt = dt and dflt = dflt and e = "mkEntity k 0" and b = b] t Cons.prems(2) x by auto
  note rest = Cons.IH [OF one(1)]
  have "steers (unat ` set (map fst (x # xs))) (fst (snd st)) (fst (snd st'))"
    using one(2) by (rule steers_mono) (simp add: x)
  moreover have "steers (unat ` set (map fst (x # xs))) (fst (snd st'))
      (fst (snd (snd (passOver (tickBrain dt dflt) xs st'))))"
    using rest Cons.prems(2) by (intro steers_mono [OF conjunct2 [OF rest]]) auto
  ultimately show ?case
    using rest Cons.prems(2) t by (auto simp: x split_beta intro: steers_trans)
qed simp

section \<open>Properties\<close>


definition demoBrain :: AIBrain where
  "demoBrain = \<lparr>ab_behaviorTree = Some 0, ab_blackboard = Map.empty, ab_state = AIIdle, ab_timeSinceLastTick = 0,
     ab_tickInterval = 0, ab_homePosition = Zero, ab_target = EntityRaw kInvalidRaw\<rparr>"


text \<open>The AI system keeps to the access it declares to the scheduler. With trees built from the
  built-in tasks and conditions that only look, a tick leaves transforms, stats and threat lists
  untouched; of the movements it changes only direction and state, and only for entities
  that have a brain.\<close>

theorem ai_writes_only_declared_components:
  assumes "cs_inv brains" "cs_inv (ap_movements pools)" "\<forall>p. builtin (trees p)"
    and "ai_Execute dt sys brains trees pools = Some (sys', brains', trees', pools')"
  shows "ap_transforms pools' = ap_transforms pools \<and> ap_stats pools' = ap_stats pools
    \<and> ap_threatLists pools' = ap_threatLists pools \<and> cs_inv (ap_movements pools')
    \<and> (\<forall>k. rel_option (\<lambda>m m'. mv_speed m' = mv_speed m \<and> mv_baseSpeed m' = mv_baseSpeed m)
           (cs_lookup (ap_movements pools) k) (cs_lookup (ap_movements pools') k))
    \<and> (\<forall>k. cs_lookup brains k \<noteq> None \<or> cs_lookup (ap_movements pools') k = cs_lookup (ap_movements pools) k)
    \<and> (\<forall>p. builtin (trees' p))"
proof -
  let ?f = "tickBrain dt (ai_defaultTickInterval sys)" and ?xs = "zip (cs_entities brains) (cs_dense brains)"
  obtain n where run: "forEachComponent ?f (brains, trees, pools, 0) = Some (brains', trees', pools', n)"
    using assms(4) by (auto simp: ai_Execute_def)
  note F = forEachComponent_Some [OF assms(1) run]
  have ids: "map fst ?xs = cs_entities brains" using cs_invD(1) [OF assms(1)] by simp
  have bound: "unat k < 16777216" if "k \<in> set (map fst ?xs)" for k
    using that cs_invD(1,3,5) [OF assms(1)] unfolding ids in_set_conv_nth by fastforce
  have "\<forall>p. builtin (fst (trees, pools, 0 :: u32) p)" using assms(3) by simp
  note S = passOver_steers [OF this, of ?xs dt "ai_defaultTickInterval sys", OF bound, folded F(5), unfolded ids]
  have st: "steers (unat ` set (cs_entities brains)) pools pools'" "\<forall>p. builtin (trees' p)"
    using S by simp_all
  have "k \<in> unat ` set (cs_entities brains) \<longleftrightarrow> cs_lookup brains k \<noteq> None" for k
    using cs_dom_lookup [OF assms(1)] by (auto simp: dom_def)
  then show ?thesis using st assms(2) unfolding steers_def steered_def [abs_def] by blast
qed

theorem ai_writes_only_declared_components_witness:
  "\<exists>sys' brains' trees' pools'. ai_Execute 1 (mkAISystem 1) (singlePool demoBrain) (\<lambda>_. CreateIdleTask)
      \<lparr>ap_transforms = singlePool defaultTransform, ap_movements = singlePool defaultMovement,
       ap_stats = emptyStorage, ap_threatLists = emptyStorage\<rparr> = Some (sys', brains', trees', pools')
    \<and> ap_transforms pools' = singlePool defaultTransform"
proof -
  let ?p = "\<lparr>ap_transforms = singlePool defaultTransform, ap_movements = singlePool defaultMovement,
       ap_stats = emptyStorage, ap_threatLists = emptyStorage\<rparr>"
  obtain brains' trees' pools' n where "forEachComponent (tickBrain 1 1) (singlePool demoBrain, \<lambda>_. CreateIdleTask, ?p, 0)
      = Some (brains', trees', pools', n)"
    using forEachComponent_defined [of "singlePool demoBrain" "tickBrain 1 1" "(\<lambda>_. CreateIdleTask, ?p, 0)"] by auto
  then have run: "ai_Execute 1 (mkAISystem 1) (singlePool demoBrain) (\<lambda>_. CreateIdleTask) ?p
      = Some (\<lparr>ai_defaultTickInterval = 1, ai_lastTickUpdateCount = n\<rparr>, brains', trees', pools')"
    by (simp add: ai_Execute_def mkAISystem_def)
  have "ap_transforms pools' = singlePool defaultTransform"
    using ai_writes_only_declared_components [OF _ _ _ run] by (simp add: CreateIdleTask_def)
  then show ?thesis using run by auto
qed

text \<open>Brains that share a tree share its progress. The first entity leaves the sequence waiting in its second
  task; the first tick for the second entity starts there and never runs the first task for it.\<close>

theorem shared_tree_leaks_progress:
  "let mark = BTAction (\<lambda>ctx w. (Success, fst w, bb_Set ''marked'' (BBEntity (bc_entity ctx)) (snd w)));
       wait = BTAction (\<lambda>ctx w. (Running, w));
       first = tickBrain 1 1 (mkEntity 1 0) demoBrain (\<lambda>_. mkSequence [mark, wait], pools, 0);
       second = tickBrain 1 1 (mkEntity 2 0) demoBrain (snd first)
   in ab_blackboard (fst first) ''marked'' = Some (BBEntity (mkEntity 1 0))
      \<and> ab_blackboard (fst second) ''marked'' = None \<and> snd (snd (snd second)) = 2"
proof -
  have "f32 1 = 1" by (rule f32_id) simp
  then show ?thesis
    by (simp add: Let_def tickBrain_def demoBrain_def effectiveInterval_def mkSequence_def bb_Set_def)
qed

end
