(* ===== verification/Game_World.thy ===== *)
theory Game_World
  imports AI_System Inventory Quest
begin

text \<open>
  The world of the game server: the component pools of \<^verbatim>\<open>GameServer::Impl\<close>
  (\<^verbatim>\<open>services/game/game_server.cpp\<close>) and the six systems that change them. The pools live in the heap of
  the entity manager under the numbers in which \<^verbatim>\<open>registerStorages\<close> registers them; a component is
  a value of a sum of the component types, and a system sees its pools at their own types. The
  theory proves that each system keeps every pool well-formed, well-typed and with the same
  members.
\<close>

section \<open>Pools\<close>

datatype GameComponent =
    CTransform (unTransform: Transform)
  | CIdentity (unIdentity: Identity)
  | CStats (unStats: Stats)
  | CMovement (unMovement: Movement)
  | CMapInstance (unMapInstance: MapInstance)
  | CMembership (unMembership: MapMembership)
  | CVisibility (unVisibility: VisibilityRange)
  | CZone (unZone: Zone)
  | CSpellCast (unSpellCast: SpellCast)
  | CAuraHolder (unAuraHolder: AuraHolder)
  | CDamageEvent (unDamageEvent: DamageEvent)
  | CThreatList (unThreatList: ThreatList)
  | CAIBrain (unAIBrain: AIBrain)
  | CQuestLog (unQuestLog: QuestLog)
  | CQuestEvent (unQuestEvent: QuestEvent)
  | CInventory (unInventory: Inventory)
  | CEquipment (unEquipment: Equipment)
  | CDurability (unDurability: DurabilityEvent)

primrec poolOf :: "GameComponent \<Rightarrow> nat" where
  "poolOf (CTransform _) = 0" | "poolOf (CIdentity _) = 1" | "poolOf (CStats _) = 2"
| "poolOf (CMovement _) = 3" | "poolOf (CMapInstance _) = 4" | "poolOf (CMembership _) = 5"
| "poolOf (CVisibility _) = 6" | "poolOf (CZone _) = 7" | "poolOf (CSpellCast _) = 8"
| "poolOf (CAuraHolder _) = 9" | "poolOf (CDamageEvent _) = 10" | "poolOf (CThreatList _) = 11"
| "poolOf (CAIBrain _) = 12" | "poolOf (CQuestLog _) = 13" | "poolOf (CQuestEvent _) = 14"
| "poolOf (CInventory _) = 15" | "poolOf (CEquipment _) = 16" | "poolOf (CDurability _) = 17"

abbreviation pTransforms :: nat where "pTransforms \<equiv> 0"
abbreviation pIdentities :: nat where "pIdentities \<equiv> 1"
abbreviation pStats :: nat where "pStats \<equiv> 2"
abbreviation pMovements :: nat where "pMovements \<equiv> 3"
abbreviation pMapInstances :: nat where "pMapInstances \<equiv> 4"
abbreviation pMemberships :: nat where "pMemberships \<equiv> 5"
abbreviation pVisibility :: nat where "pVisibility \<equiv> 6"
abbreviation pZones :: nat where "pZones \<equiv> 7"
abbreviation pSpellCasts :: nat where "pSpellCasts \<equiv> 8"
abbreviation pAuraHolders :: nat where "pAuraHolders \<equiv> 9"
abbreviation pDamageEvents :: nat where "pDamageEvents \<equiv> 10"
abbreviation pThreatLists :: nat where "pThreatLists \<equiv> 11"
abbreviation pAIBrains :: nat where "pAIBrains \<equiv> 12"
abbreviation pQuestLogs :: nat where "pQuestLogs \<equiv> 13"
abbreviation pQuestEvents :: nat where "pQuestEvents \<equiv> 14"
abbreviation pInventories :: nat where "pInventories \<equiv> 15"
abbreviation pEquipment :: nat where "pEquipment \<equiv> 16"
abbreviation pDurability :: nat where "pDurability \<equiv> 17"

text \<open>The pools together with the state the systems keep themselves.\<close>

record GameWorld =
  wd_pools :: "GameComponent pools"
  wd_spatialIndices :: "(Entity, SpatialIndex) umap"
  wd_cellSize :: rat
  wd_ai :: AISystem
  wd_trees :: "nat \<Rightarrow> AiTree"
  wd_questTemplates :: "QuestTemplate list"
  wd_itemTemplates :: "ItemTemplate list"

section \<open>Systems\<close>

definition runWorldSystem :: "GameWorld \<Rightarrow> GameWorld option" where
  "runWorldSystem w =
     (let p = wd_pools w
      in map_option (\<lambda>sys. w\<lparr>wd_pools := p(pMemberships := cs_map CMembership (ws_memberships sys)),
                             wd_spatialIndices := ws_spatialIndices sys\<rparr>)
           (ws_Execute \<lparr>ws_transforms = cs_map unTransform (p pTransforms),
              ws_memberships = cs_map unMembership (p pMemberships),
              ws_mapInstances = cs_map unMapInstance (p pMapInstances),
              ws_visibilityRanges = cs_map unVisibility (p pVisibility), ws_zones = cs_map unZone (p pZones),
              ws_spatialIndices = wd_spatialIndices w, ws_cellSize = wd_cellSize w\<rparr>))"

definition runObjectSystem :: "rat \<Rightarrow> GameWorld \<Rightarrow> GameWorld option" where
  "runObjectSystem deltaTime w =
     (let p = wd_pools w
      in map_option (\<lambda>(ts, ms). w\<lparr>wd_pools := p(pTransforms := cs_map CTransform ts, pMovements := cs_map CMovement ms)\<rparr>)
           (ob_Execute deltaTime (cs_map unTransform (p pTransforms), cs_map unMovement (p pMovements))))"

definition runCombatSystem :: "(ThreatEntry list \<Rightarrow> ThreatEntry list) \<Rightarrow> rat \<Rightarrow> GameWorld \<Rightarrow> GameWorld option" where
  "runCombatSystem srt deltaTime w =
     (let p = wd_pools w
      in map_option (\<lambda>sys. w\<lparr>wd_pools := p(pSpellCasts := cs_map CSpellCast (ct_spellCasts sys),
             pAuraHolders := cs_map CAuraHolder (ct_auraHolders sys),
             pDamageEvents := cs_map CDamageEvent (ct_damageEvents sys), pStats := cs_map CStats (ct_stats sys),
             pThreatLists := cs_map CThreatList (ct_threatLists sys))\<rparr>)
           (ct_Execute srt deltaTime \<lparr>ct_spellCasts = cs_map unSpellCast (p pSpellCasts),
              ct_auraHolders = cs_map unAuraHolder (p pAuraHolders),
              ct_damageEvents = cs_map unDamageEvent (p pDamageEvents), ct_stats = cs_map unStats (p pStats),
              ct_threatLists = cs_map unThreatList (p pThreatLists)\<rparr>))"

definition runAISystem :: "rat \<Rightarrow> GameWorld \<Rightarrow> GameWorld option" where
  "runAISystem deltaTime w =
     (let p = wd_pools w
      in map_option (\<lambda>(ai, brains, trees, pools). w\<lparr>wd_ai := ai, wd_trees := trees,
             wd_pools := p(pAIBrains := cs_map CAIBrain brains, pTransforms := cs_map CTransform (ap_transforms pools),
               pMovements := cs_map CMovement (ap_movements pools), pStats := cs_map CStats (ap_stats pools),
               pThreatLists := cs_map CThreatList (ap_threatLists pools))\<rparr>)
           (ai_Execute deltaTime (wd_ai w) (cs_map unAIBrain (p pAIBrains)) (wd_trees w)
              \<lparr>ap_transforms = cs_map unTransform (p pTransforms), ap_movements = cs_map unMovement (p pMovements),
               ap_stats = cs_map unStats (p pStats), ap_threatLists = cs_map unThreatList (p pThreatLists)\<rparr>))"

definition runQuestSystem :: "rat \<Rightarrow> GameWorld \<Rightarrow> GameWorld option" where
  "runQuestSystem deltaTime w =
     (let p = wd_pools w
      in map_option (\<lambda>sys. w\<lparr>wd_pools := p(pQuestLogs := cs_map CQuestLog (qs_questLogs sys),
             pQuestEvents := cs_map CQuestEvent (qs_questEvents sys))\<rparr>)
           (qs_Execute deltaTime \<lparr>qs_questLogs = cs_map unQuestLog (p pQuestLogs),
              qs_questEvents = cs_map unQuestEvent (p pQuestEvents), qs_templates = wd_questTemplates w\<rparr>))"

definition runInventorySystem :: "rat \<Rightarrow> GameWorld \<Rightarrow> GameWorld option" where
  "runInventorySystem deltaTime w =
     (let p = wd_pools w
      in map_option (\<lambda>sys. w\<lparr>wd_pools := p(pInventories := cs_map CInventory (is_inventories sys),
             pEquipment := cs_map CEquipment (is_equipment sys), pDurability := cs_map CDurability (is_durabilityEvents sys))\<rparr>)
           (is_Execute deltaTime \<lparr>is_inventories = cs_map unInventory (p pInventories),
              is_equipment = cs_map unEquipment (p pEquipment), is_durabilityEvents = cs_map unDurability (p pDurability),
              is_templates = wd_itemTemplates w\<rparr>))"

section \<open>The systems keep the members of their pools\<close>

definition keeps :: "'c ComponentStorage \<Rightarrow> 'd ComponentStorage \<Rightarrow> bool" where
  "keeps s s' \<longleftrightarrow> cs_inv s' \<and> (\<forall>e. cs_Has s' e = cs_Has s e)"

lemma keeps_view [simp]: "keeps (cs_map f s) s' = keeps s s'"
  by (simp add: keeps_def)

lemma keeps_sameIndex: "cs_inv s \<Longrightarrow> sameIndex (cs_map un s) s' \<Longrightarrow> keeps s s'"
  using sameIndex_inv [of "cs_map un s" s'] sameIndex_Has [of "cs_map un s" s'] by (simp add: keeps_def)

lemma keeps_lookup:
  assumes "cs_inv s" "cs_inv s'" "\<And>k. cs_lookup s' k = None \<longleftrightarrow> cs_lookup s k = None"
  shows "keeps s s'"
  using assms by (simp add: keeps_def cs_Has_lookup)

text \<open>Combat.\<close>

lemma applyTick_sameIndex [simp]: "sameIndex s (applyTick e a s)"
  by (simp add: applyTick_def split: option.split)

lemma catchUp_sameIndex:
  assumes "catchUp e a s = Some r" shows "sameIndex s (snd r)"
proof (rule catchUp.raw_induct [of "\<lambda>e a s r. sameIndex s (snd r)", OF _ assms])
  fix f :: "Entity \<Rightarrow> AuraInstance \<Rightarrow> Stats ComponentStorage \<Rightarrow> (AuraInstance \<times> Stats ComponentStorage) option"
    and e a s r
  assume IH: "\<And>e a s r. f e a s = Some r \<Longrightarrow> sameIndex s (snd r)"
    and eq: "(if au_tickTimer a \<le> 0 \<and> - au_tickInterval a < au_remainingTime a
      then f e (a\<lparr>au_tickTimer := f32 (au_tickTimer a + au_tickInterval a)\<rparr>) (applyTick e a s)
      else Some (a, s)) = Some r"
  show "sameIndex s (snd r)"
  proof (cases "au_tickTimer a \<le> 0 \<and> - au_tickInterval a < au_remainingTime a")
    case True
    then show ?thesis using IH [of e _ "applyTick e a s" r] eq sameIndex_trans [OF applyTick_sameIndex] by simp blast
  qed (use eq in auto)
qed

lemma tickAuras_sameIndex: "tickAuras dt e as s = Some (as', s') \<Longrightarrow> sameIndex s s'"
proof (induction "as" arbitrary: s as')
  case (Cons a "as")
  have one: "tickAura dt e a s = Some (a1, s1) \<Longrightarrow> sameIndex s s1" for a1 s1
    using catchUp_sameIndex by (fastforce simp: tickAura_def Let_def split: if_splits)
  show ?case using Cons.prems one Cons.IH by (auto split: option.splits intro: sameIndex_trans)
qed simp

lemma ct_Execute_sameIndex:
  assumes "ct_Execute srt dt sys = Some sys'"
  shows "sameIndex (ct_spellCasts sys) (ct_spellCasts sys') \<and> sameIndex (ct_auraHolders sys) (ct_auraHolders sys')
    \<and> sameIndex (ct_damageEvents sys) (ct_damageEvents sys') \<and> sameIndex (ct_stats sys) (ct_stats sys')
    \<and> sameIndex (ct_threatLists sys) (ct_threatLists sys')"
proof -
  obtain sys1 sys2 where s1: "ct_updateSpellCasts dt sys = Some sys1" and s2: "ct_updateAuras dt sys1 = Some sys2"
    and s3: "ct_processDamageEvents srt sys2 = Some sys'"
    using assms by (auto simp: ct_Execute_def split: Option.bind_splits)
  obtain casts u where c: "forEachComponent (\<lambda>e c st. (tickCast dt c, st)) (ct_spellCasts sys, ()) = Some (casts, u)"
    "sys1 = sys\<lparr>ct_spellCasts := casts\<rparr>"
    using s1 by (auto simp: ct_updateSpellCasts_def)
  obtain holders stats where h: "forEachComponent (tickHolder dt) (ct_auraHolders sys1, Some (ct_stats sys1)) = Some (holders, Some stats)"
    "sys2 = sys1\<lparr>ct_auraHolders := holders, ct_stats := stats\<rparr>"
    using s2 by (auto simp: ct_updateAuras_def split: option.splits)
  obtain events stats' threats where d: "forEachComponent (damageEvent srt) (ct_damageEvents sys2, ct_stats sys2, ct_threatLists sys2)
      = Some (events, stats', threats)"
    "sys' = sys2\<lparr>ct_damageEvents := events, ct_stats := stats', ct_threatLists := threats\<rparr>"
    using s3 by (auto simp: ct_processDamageEvents_def)
  have C: "sameIndex (ct_spellCasts sys) casts"
    using forEachComponent_invariant [OF c(1), of "\<lambda>_. True"] by simp
  have H: "sameIndex (ct_auraHolders sys1) holders \<and> (case Some stats of None \<Rightarrow> True | Some s \<Rightarrow> sameIndex (ct_stats sys1) s)"
    by (rule forEachComponent_invariant [OF h(1)])
       (auto simp: tickHolder_def split: option.splits Option.bind_splits dest: tickAuras_sameIndex intro: sameIndex_trans)
  have D: "sameIndex (ct_damageEvents sys2) events \<and> sameIndex (ct_stats sys2) (fst (stats', threats))
      \<and> sameIndex (ct_threatLists sys2) (snd (stats', threats))"
    by (rule forEachComponent_invariant [OF d(1)])
       (auto simp: damageEvent_def Let_def split: option.splits intro: sameIndex_trans)
  show ?thesis using C H D c(2) h(2) d(2) by (auto intro: sameIndex_trans)
qed

text \<open>Quests and inventories.\<close>

lemma qs_Execute_sameIndex:
  assumes "qs_Execute dt sys = Some sys'"
  shows "sameIndex (qs_questLogs sys) (qs_questLogs sys') \<and> sameIndex (qs_questEvents sys) (qs_questEvents sys')"
proof -
  obtain logs u where l: "forEachComponent (\<lambda>e l st. (tickLog dt l, st)) (qs_questLogs sys, ()) = Some (logs, u)"
    and s': "qs_processEvents (sys\<lparr>qs_questLogs := logs\<rparr>) = Some sys'"
    using assms by (auto simp: qs_Execute_def qs_updateTimers_def split: option.splits)
  obtain events logs' where e: "forEachComponent questEvent (qs_questEvents sys, logs) = Some (events, logs')"
    "sys' = sys\<lparr>qs_questLogs := logs', qs_questEvents := events\<rparr>"
    using s' by (auto simp: qs_processEvents_def)
  have L: "sameIndex (qs_questLogs sys) logs" using forEachComponent_invariant [OF l, of "\<lambda>_. True"] by simp
  have E: "sameIndex (qs_questEvents sys) events \<and> sameIndex logs logs'"
    by (rule forEachComponent_invariant [OF e(1)])
       (auto simp: questEvent_def Let_def split: option.splits intro: sameIndex_trans)
  show ?thesis using L E e(2) by (auto intro: sameIndex_trans)
qed

lemma is_Execute_sameIndex:
  assumes "is_Execute dt sys = Some sys'"
  shows "sameIndex (is_inventories sys) (is_inventories sys') \<and> sameIndex (is_equipment sys) (is_equipment sys')
    \<and> sameIndex (is_durabilityEvents sys) (is_durabilityEvents sys')"
proof -
  obtain events equip where w: "forEachComponent wearEvent (is_durabilityEvents sys, is_equipment sys) = Some (events, equip)"
    and s': "is_updateEnchants dt (sys\<lparr>is_durabilityEvents := events, is_equipment := equip\<rparr>) = Some sys'"
    using assms by (auto simp: is_Execute_def is_processDurabilityEvents_def split: option.splits)
  obtain equip' bags u v where
    e: "forEachComponent (\<lambda>e equip st. (equip\<lparr>eq_slots := map (tickSlot dt) (eq_slots equip)\<rparr>, st)) (equip, ()) = Some (equip', u)"
    and b: "forEachComponent (\<lambda>e bag st. (bag\<lparr>iv_slots := map (tickSlot dt) (iv_slots bag)\<rparr>, st)) (is_inventories sys, ()) = Some (bags, v)"
    and r: "is_inventories sys' = bags" "is_equipment sys' = equip'" "is_durabilityEvents sys' = events"
    using s' by (auto simp: is_updateEnchants_def split: option.splits)
  have W: "sameIndex (is_durabilityEvents sys) events \<and> sameIndex (is_equipment sys) equip"
    by (rule forEachComponent_invariant [OF w])
       (auto simp: wearEvent_def Let_def split: option.splits intro: sameIndex_trans)
  have "sameIndex equip equip'" "sameIndex (is_inventories sys) bags"
    using forEachComponent_invariant [OF e, of "\<lambda>_. True"] forEachComponent_invariant [OF b, of "\<lambda>_. True"] by simp_all
  then show ?thesis using W r by (auto intro: sameIndex_trans)
qed

section \<open>Well-typed pools\<close>

text \<open>Every pool is well-formed and holds only components of its own type.\<close>

definition pool_typed :: "nat \<Rightarrow> GameComponent ComponentStorage \<Rightarrow> bool" where
  "pool_typed q s \<longleftrightarrow> (\<forall>c \<in> set (cs_dense s). poolOf c = q)"

definition pools_ok :: "GameComponent pools \<Rightarrow> bool" where
  "pools_ok p \<longleftrightarrow> (\<forall>q. cs_inv (p q) \<and> pool_typed q (p q))"

lemma pools_okD: "pools_ok p \<Longrightarrow> cs_inv (p q)" "pools_ok p \<Longrightarrow> pool_typed q (p q)"
  by (simp_all add: pools_ok_def)

text \<open>The pools that no system changes.\<close>

definition steady :: "nat set" where
  "steady = {pIdentities, pMapInstances, pMemberships, pVisibility, pZones}"

definition pools_frame :: "GameComponent pools \<Rightarrow> GameComponent pools \<Rightarrow> bool" where
  "pools_frame p p' \<longleftrightarrow> pools_ok p' \<and> (\<forall>q e. cs_Has (p' q) e = cs_Has (p q) e)
     \<and> (\<forall>q \<in> steady. cs_lookup (p' q) = cs_lookup (p q))"

lemma pools_frame_refl: "pools_ok p \<Longrightarrow> pools_frame p p"
  by (simp add: pools_frame_def)

lemma pools_frame_trans: "pools_frame p p' \<Longrightarrow> pools_frame p' p'' \<Longrightarrow> pools_frame p p''"
  by (simp add: pools_frame_def)

text \<open>Putting a typed pool back.\<close>

lemma pools_frame_put:
  assumes "pools_frame p p'" "keeps (p q) s" "\<And>c. poolOf (C c) = q"
    and "q \<notin> steady \<or> cs_lookup (cs_map C s) = cs_lookup (p q)"
  shows "pools_frame p (p'(q := cs_map C s))"
proof -
  have "pool_typed q (cs_map C s)" using assms(3) by (auto simp: pool_typed_def cs_map_def)
  then show ?thesis using assms by (auto simp: pools_frame_def pools_ok_def keeps_def)
qed

lemma view_back:
  assumes "pool_typed q s" "\<And>c. poolOf c = q \<Longrightarrow> C (un c) = c"
  shows "cs_map C (cs_map un s) = s"
proof -
  have "map C (map un (cs_dense s)) = cs_dense s"
    using assms by (auto simp: pool_typed_def intro!: map_idI)
  then show ?thesis by (cases s) (simp add: cs_map_def)
qed

lemma forEachComponent_reads:
  assumes "cs_inv s" "\<And>e c st. fst (body e c st) = c"
  shows "\<exists>st'. forEachComponent body (s, st) = Some (s, st')"
proof -
  have fst: "fst (passOver body xs st) = map snd xs" for xs st
    using assms(2) by (induction xs arbitrary: st) (auto simp: split_beta)
  have "map snd (zip (cs_entities s) (cs_dense s)) = cs_dense s" using cs_invD(1) [OF assms(1)] by simp
  then show ?thesis
    using fst [of "zip (cs_entities s) (cs_dense s)" st] forEachComponent_pass [OF assms(1), of body st]
    by (cases "passOver body (zip (cs_entities s) (cs_dense s)) st") (simp add: withDense_def)
qed

section \<open>Every system keeps the world well-formed\<close>

lemma runWorldSystem_frame:
  assumes "pools_ok (wd_pools w)"
  shows "\<exists>ix. runWorldSystem w = Some (w\<lparr>wd_spatialIndices := ix\<rparr>)"
proof -
  let ?p = "wd_pools w"
  have inv: "cs_inv (cs_map unMembership (?p pMemberships))" using pools_okD(1) [OF assms] by simp
  obtain ix where "forEachComponent (syncEntity (cs_map unTransform (?p pTransforms)) (wd_cellSize w))
      (cs_map unMembership (?p pMemberships), wd_spatialIndices w) = Some (cs_map unMembership (?p pMemberships), ix)"
    using forEachComponent_reads [OF inv, of "syncEntity (cs_map unTransform (?p pTransforms)) (wd_cellSize w)" "wd_spatialIndices w"]
    by (auto simp: syncEntity_def)
  moreover have "cs_map CMembership (cs_map unMembership (?p pMemberships)) = ?p pMemberships"
    by (rule view_back [OF pools_okD(2) [OF assms]]) (case_tac c, auto)
  ultimately show ?thesis
    by (intro exI [of _ ix]) (simp add: runWorldSystem_def ws_Execute_def ws_synchronizePositions_def)
qed

lemma runObjectSystem_frame:
  assumes "pools_ok (wd_pools w)"
  shows "\<exists>p'. runObjectSystem dt w = Some (w\<lparr>wd_pools := p'\<rparr>) \<and> pools_frame (wd_pools w) p'"
proof -
  let ?p = "wd_pools w"
  let ?T = "cs_map unTransform (?p pTransforms)" and ?M = "cs_map unMovement (?p pMovements)"
  have inv: "cs_inv ?T" "cs_inv ?M" using pools_okD(1) [OF assms] by simp_all
  obtain ts ms where r: "ob_Execute dt (?T, ?M) = Some (ts, ms)" "cs_inv ts" "cs_inv ms"
    and l: "\<forall>k. cs_lookup ts k = moved dt (cs_lookup ?T k) (cs_lookup ?M k)" "\<forall>k. cs_lookup ms k = cs_lookup ?M k"
    using ob_Execute_spec [OF inv] by blast
  have k: "keeps ?T ts" "keeps ?M ms"
    using keeps_lookup [OF inv(1) r(2)] keeps_lookup [OF inv(2) r(3)] l(2) moved_None [of dt] unfolding l(1) [rule_format]
    by simp_all
  have "pools_frame ?p (?p(pTransforms := cs_map CTransform ts, pMovements := cs_map CMovement ms))"
    by (intro pools_frame_put pools_frame_refl assms) (use k in \<open>simp_all add: steady_def\<close>)
  then show ?thesis using r(1) by (auto simp: runObjectSystem_def)
qed

lemma runCombatSystem_frame:
  assumes "pools_ok (wd_pools w)" "runCombatSystem srt dt w = Some w'"
  shows "\<exists>p'. w' = w\<lparr>wd_pools := p'\<rparr> \<and> pools_frame (wd_pools w) p'"
proof -
  let ?p = "wd_pools w"
  let ?sys = "\<lparr>ct_spellCasts = cs_map unSpellCast (?p pSpellCasts), ct_auraHolders = cs_map unAuraHolder (?p pAuraHolders),
     ct_damageEvents = cs_map unDamageEvent (?p pDamageEvents), ct_stats = cs_map unStats (?p pStats),
     ct_threatLists = cs_map unThreatList (?p pThreatLists)\<rparr>"
  obtain sys' where r: "ct_Execute srt dt ?sys = Some sys'"
    and w': "w' = w\<lparr>wd_pools := ?p(pSpellCasts := cs_map CSpellCast (ct_spellCasts sys'),
             pAuraHolders := cs_map CAuraHolder (ct_auraHolders sys'),
             pDamageEvents := cs_map CDamageEvent (ct_damageEvents sys'), pStats := cs_map CStats (ct_stats sys'),
             pThreatLists := cs_map CThreatList (ct_threatLists sys'))\<rparr>"
    using assms(2) by (auto simp: runCombatSystem_def Let_def)
  have k: "keeps (?p pSpellCasts) (ct_spellCasts sys')"
    "keeps (?p pAuraHolders) (ct_auraHolders sys')"
    "keeps (?p pDamageEvents) (ct_damageEvents sys')"
    "keeps (?p pStats) (ct_stats sys')"
    "keeps (?p pThreatLists) (ct_threatLists sys')"
    using ct_Execute_sameIndex [OF r] pools_okD(1) [OF assms(1)] by (auto intro: keeps_sameIndex)
  have "pools_frame ?p (?p(pSpellCasts := cs_map CSpellCast (ct_spellCasts sys'),
             pAuraHolders := cs_map CAuraHolder (ct_auraHolders sys'),
             pDamageEvents := cs_map CDamageEvent (ct_damageEvents sys'), pStats := cs_map CStats (ct_stats sys'),
             pThreatLists := cs_map CThreatList (ct_threatLists sys')))"
    by (intro pools_frame_put pools_frame_refl assms(1)) (use k in \<open>simp_all add: steady_def\<close>)
  then show ?thesis using w' by (intro exI conjI)
qed

text \<open>Auras whose periodic ticks can be caught up with at this step.\<close>

definition auras_ok :: "rat \<Rightarrow> GameWorld \<Rightarrow> bool" where
  "auras_ok dt w \<longleftrightarrow> (\<forall>c \<in> set (cs_dense (wd_pools w pAuraHolders)). list_all (aura_ok dt) (ah_auras (unAuraHolder c)))"

lemma runCombatSystem_returns:
  assumes "pools_ok (wd_pools w)" "auras_ok dt w"
  shows "\<exists>w'. runCombatSystem srt dt w = Some w'"
proof -
  let ?p = "wd_pools w"
  let ?sys = "\<lparr>ct_spellCasts = cs_map unSpellCast (?p pSpellCasts), ct_auraHolders = cs_map unAuraHolder (?p pAuraHolders),
     ct_damageEvents = cs_map unDamageEvent (?p pDamageEvents), ct_stats = cs_map unStats (?p pStats),
     ct_threatLists = cs_map unThreatList (?p pThreatLists)\<rparr>"
  have inv: "\<And>q. cs_inv (?p q)" using pools_okD(1) [OF assms(1)] .
  obtain casts where c: "ct_updateSpellCasts dt ?sys = Some (?sys\<lparr>ct_spellCasts := casts\<rparr>)"
    using ct_updateSpellCasts_returns [of ?sys dt] inv by auto
  have ok: "list_all (\<lambda>h. list_all (aura_ok dt) (ah_auras h)) (cs_dense (cs_map unAuraHolder (?p pAuraHolders)))"
    using assms(2) by (simp add: auras_ok_def cs_map_def list_all_iff)
  obtain holders stats where a: "ct_updateAuras dt (?sys\<lparr>ct_spellCasts := casts\<rparr>)
      = Some (?sys\<lparr>ct_spellCasts := casts, ct_auraHolders := holders, ct_stats := stats\<rparr>)" "cs_inv stats"
    using ct_updateAuras_returns [of "?sys\<lparr>ct_spellCasts := casts\<rparr>" dt] ok inv by (auto simp: pool_frame_def)
  obtain sys' where d: "ct_processDamageEvents srt (?sys\<lparr>ct_spellCasts := casts, ct_auraHolders := holders, ct_stats := stats\<rparr>) = Some sys'"
    using ct_processDamageEvents_returns [of "?sys\<lparr>ct_spellCasts := casts, ct_auraHolders := holders, ct_stats := stats\<rparr>" srt] inv a(2)
    by auto
  show ?thesis using c a(1) d by (simp add: runCombatSystem_def ct_Execute_def)
qed

lemma runAISystem_frame:
  assumes "pools_ok (wd_pools w)" "\<forall>t. builtin (wd_trees w t)"
  shows "\<exists>ai trees p'. runAISystem dt w = Some (w\<lparr>wd_ai := ai, wd_trees := trees, wd_pools := p'\<rparr>)
    \<and> pools_frame (wd_pools w) p' \<and> (\<forall>t. builtin (trees t))"
proof -
  let ?p = "wd_pools w"
  let ?b = "cs_map unAIBrain (?p pAIBrains)"
  let ?P = "\<lparr>ap_transforms = cs_map unTransform (?p pTransforms), ap_movements = cs_map unMovement (?p pMovements),
     ap_stats = cs_map unStats (?p pStats), ap_threatLists = cs_map unThreatList (?p pThreatLists)\<rparr>"
  let ?f = "tickBrain dt (ai_defaultTickInterval (wd_ai w))"
  have inv: "\<And>q. cs_inv (?p q)" using pools_okD(1) [OF assms(1)] .
  then have b: "cs_inv ?b" by simp
  obtain brains trees pools n where run: "forEachComponent ?f (?b, wd_trees w, ?P, 0) = Some (brains, trees, pools, n)"
    using forEachComponent_defined [OF b, of ?f "(wd_trees w, ?P, 0)"] by auto
  let ?R = "\<lambda>st :: (nat \<Rightarrow> AiTree) \<times> AiPools \<times> u32. (\<forall>t. builtin (fst st t)) \<and> steers UNIV ?P (fst (snd st))"
  have step: "?R (snd (?f e c st))" if R: "?R st" for e c st
    using tickBrain_steers [where st = st and dt = dt and dflt = "ai_defaultTickInterval (wd_ai w)" and e = e and b = c] R
    by (auto intro: steers_trans steers_mono [OF _ subset_UNIV])
  have inv': "sameIndex ?b brains" "\<forall>t. builtin (trees t)" "steers UNIV ?P pools"
    using forEachComponent_invariant [where R = ?R, OF run _ step] assms(2) by auto
  have same: "ap_transforms pools = ap_transforms ?P" "ap_stats pools = ap_stats ?P" "ap_threatLists pools = ap_threatLists ?P"
    using inv'(3) by (simp_all add: steers_def)
  have m: "keeps (?p pMovements) (ap_movements pools)"
  proof -
    have mi: "cs_inv (cs_map unMovement (?p pMovements))" using inv by simp
    have "cs_inv (ap_movements pools)" "\<And>k. cs_lookup (ap_movements pools) k = None \<longleftrightarrow> cs_lookup (cs_map unMovement (?p pMovements)) k = None"
      using inv'(3) mi by (auto simp: steers_def option.rel_sel)
    from keeps_lookup [OF mi this] show ?thesis by simp
  qed
  have k: "keeps (?p pAIBrains) brains" using keeps_sameIndex [OF inv inv'(1)] .
  have "pools_frame ?p (?p(pAIBrains := cs_map CAIBrain brains, pTransforms := cs_map CTransform (ap_transforms pools),
               pMovements := cs_map CMovement (ap_movements pools), pStats := cs_map CStats (ap_stats pools),
               pThreatLists := cs_map CThreatList (ap_threatLists pools)))"
    by (intro pools_frame_put pools_frame_refl assms(1)) (use k m inv in \<open>simp_all add: same steady_def keeps_def\<close>)
  then show ?thesis using run inv'(2) by (auto simp: runAISystem_def ai_Execute_def)
qed

lemma runQuestSystem_frame:
  assumes "pools_ok (wd_pools w)"
  shows "\<exists>p'. runQuestSystem dt w = Some (w\<lparr>wd_pools := p'\<rparr>) \<and> pools_frame (wd_pools w) p'"
proof -
  let ?p = "wd_pools w"
  let ?sys = "\<lparr>qs_questLogs = cs_map unQuestLog (?p pQuestLogs), qs_questEvents = cs_map unQuestEvent (?p pQuestEvents),
     qs_templates = wd_questTemplates w\<rparr>"
  obtain sys' where r: "qs_Execute dt ?sys = Some sys'"
    using qs_Execute_tick [of ?sys dt] pools_okD(1) [OF assms] by auto
  have k: "keeps (?p pQuestLogs) (qs_questLogs sys')"
    "keeps (?p pQuestEvents) (qs_questEvents sys')"
    using qs_Execute_sameIndex [OF r] pools_okD(1) [OF assms] by (auto intro: keeps_sameIndex)
  have "pools_frame ?p (?p(pQuestLogs := cs_map CQuestLog (qs_questLogs sys'), pQuestEvents := cs_map CQuestEvent (qs_questEvents sys')))"
    by (intro pools_frame_put pools_frame_refl assms) (use k in \<open>simp_all add: steady_def\<close>)
  then show ?thesis using r by (auto simp: runQuestSystem_def)
qed

lemma runInventorySystem_frame:
  assumes "pools_ok (wd_pools w)"
  shows "\<exists>p'. runInventorySystem dt w = Some (w\<lparr>wd_pools := p'\<rparr>) \<and> pools_frame (wd_pools w) p'"
proof -
  let ?p = "wd_pools w"
  let ?sys = "\<lparr>is_inventories = cs_map unInventory (?p pInventories), is_equipment = cs_map unEquipment (?p pEquipment),
     is_durabilityEvents = cs_map unDurability (?p pDurability), is_templates = wd_itemTemplates w\<rparr>"
  obtain sys' where r: "is_Execute dt ?sys = Some sys'"
    using is_Execute_tick [of ?sys dt] pools_okD(1) [OF assms] by auto
  have k: "keeps (?p pInventories) (is_inventories sys')"
    "keeps (?p pEquipment) (is_equipment sys')"
    "keeps (?p pDurability) (is_durabilityEvents sys')"
    using is_Execute_sameIndex [OF r] pools_okD(1) [OF assms] by (auto intro: keeps_sameIndex)
  have "pools_frame ?p (?p(pInventories := cs_map CInventory (is_inventories sys'), pEquipment := cs_map CEquipment (is_equipment sys'),
      pDurability := cs_map CDurability (is_durabilityEvents sys')))"
    by (intro pools_frame_put pools_frame_refl assms) (use k in \<open>simp_all add: steady_def\<close>)
  then show ?thesis using r by (auto simp: runInventorySystem_def)
qed

end
