(* ===== verification/Game_Loop.thy ===== *)
theory Game_Loop
  imports Prelude Ieee_Float
begin

text \<open>
  The fixed-rate loop (\<^verbatim>\<open>service/game_loop.hpp\<close>, \<^verbatim>\<open>services/game/game_loop.cpp\<close>). The tick callback is a
  function on the world it changes; clock readings are arguments, in nanoseconds. One pass of the
  loop of \<^verbatim>\<open>run\<close> on the dedicated thread is one step; \<^verbatim>\<open>nextTick\<close>, a local variable of \<^verbatim>\<open>run\<close>, is a
  field. The theory proves the pacing of the loop: deadlines do not drift, and an overrun is not
  made up for by a burst of ticks.
\<close>

record TickMetrics =
  tm_updateTime :: int
  tm_frameTime :: int
  tm_budgetUtilization :: rat
  tm_tickNumber :: u64
  tm_overrun :: bool

definition noMetrics :: TickMetrics where
  "noMetrics = \<lparr>tm_updateTime = 0, tm_frameTime = 0, tm_budgetUtilization = 0, tm_tickNumber = 0, tm_overrun = False\<rparr>"

record GameLoop =
  gl_tickRate :: u32
  gl_targetFrameTime :: int
  gl_running :: bool
  gl_tickCount :: u64
  gl_hasTickCallback :: bool
  gl_lastMetrics :: TickMetrics
  gl_nextTick :: int

definition mkGameLoop :: "u32 \<Rightarrow> GameLoop" where
  "mkGameLoop tickRate =
     (let rate = (if tickRate > 0 then tickRate else 20)
      in \<lparr>gl_tickRate = rate, gl_targetFrameTime = uint (1000000 div rate), gl_running = False, gl_tickCount = 0,
          gl_hasTickCallback = False, gl_lastMetrics = noMetrics, gl_nextTick = 0\<rparr>)"

definition gl_setTickCallback :: "GameLoop \<Rightarrow> GameLoop" where
  "gl_setTickCallback l = l\<lparr>gl_hasTickCallback := True\<rparr>"

definition gl_isRunning :: "GameLoop \<Rightarrow> bool" where
  "gl_isRunning l = gl_running l"

text \<open>\<^verbatim>\<open>start\<close> spawns the thread, which reads the clock once before its loop.\<close>

definition gl_start :: "int \<Rightarrow> GameLoop \<Rightarrow> bool \<times> GameLoop" where
  "gl_start now l = (if gl_running l then (False, l) else (True, l\<lparr>gl_running := True, gl_nextTick := now\<rparr>))"

definition gl_stop :: "GameLoop \<Rightarrow> GameLoop" where
  "gl_stop l = l\<lparr>gl_running := False\<rparr>"

definition toMicros :: "int \<Rightarrow> int" where
  "toMicros ns = (if ns \<ge> 0 then ns div 1000 else - ((- ns) div 1000))"

definition dtSeconds :: "GameLoop \<Rightarrow> rat" where
  "dtSeconds l = f32 (f32 (of_int (gl_targetFrameTime l)) / 1000000)"

definition gl_executeTick :: "(rat \<Rightarrow> 'w \<Rightarrow> 'w) \<Rightarrow> int \<Rightarrow> int \<Rightarrow> GameLoop \<Rightarrow> 'w \<Rightarrow> TickMetrics \<times> GameLoop \<times> 'w" where
  "gl_executeTick callback frameStart updateEnd l w =
     (let w' = (if gl_hasTickCallback l then callback (dtSeconds l) w else w);
          updateDuration = toMicros (updateEnd - frameStart);
          targetUs = gl_targetFrameTime l
      in (\<lparr>tm_updateTime = updateDuration, tm_frameTime = updateDuration,
           tm_budgetUtilization = (if targetUs > 0 then f32 (f32 (of_int updateDuration) / f32 (of_int targetUs)) else 0),
           tm_tickNumber = gl_tickCount l, tm_overrun = updateDuration > targetUs\<rparr>,
          l\<lparr>gl_tickCount := gl_tickCount l + 1\<rparr>, w'))"

definition gl_tick :: "(rat \<Rightarrow> 'w \<Rightarrow> 'w) \<Rightarrow> int \<Rightarrow> int \<Rightarrow> GameLoop \<Rightarrow> 'w \<Rightarrow> TickMetrics \<times> GameLoop \<times> 'w" where
  "gl_tick callback frameStart updateEnd l w = gl_executeTick callback frameStart updateEnd l w"

text \<open>One pass of the loop of \<^verbatim>\<open>run\<close>, with the readings of the tick and the one before the sleep. The metrics
  go to the observer and are returned.\<close>

definition gl_iterate :: "(rat \<Rightarrow> 'w \<Rightarrow> 'w) \<Rightarrow> int \<times> int \<times> int \<Rightarrow> GameLoop \<Rightarrow> 'w \<Rightarrow> TickMetrics \<times> GameLoop \<times> 'w" where
  "gl_iterate callback readings l w = (case readings of (frameStart, updateEnd, now) \<Rightarrow>
     let l0 = l\<lparr>gl_nextTick := gl_nextTick l + gl_targetFrameTime l * 1000\<rparr>
     in case gl_executeTick callback frameStart updateEnd l0 w of (metrics, l1, w') \<Rightarrow>
          let l2 = l1\<lparr>gl_lastMetrics := metrics\<rparr>
          in (metrics, if now < gl_nextTick l2 then l2 else l2\<lparr>gl_nextTick := now\<rparr>, w'))"

fun gl_run :: "(rat \<Rightarrow> 'w \<Rightarrow> 'w) \<Rightarrow> (int \<times> int \<times> int) list \<Rightarrow> GameLoop \<Rightarrow> 'w \<Rightarrow> TickMetrics list \<times> GameLoop \<times> 'w" where
  "gl_run callback [] l w = ([], l, w)"
| "gl_run callback (r # rs) l w =
     (case gl_iterate callback r l w of (m, l', w') \<Rightarrow>
        case gl_run callback rs l' w' of (ms, l'', w'') \<Rightarrow> (m # ms, l'', w''))"

section \<open>Pacing\<close>

lemma gl_iterate_nextTick:
  "gl_nextTick (fst (snd (gl_iterate callback r l w))) =
     max (gl_nextTick l + gl_targetFrameTime l * 1000) (snd (snd r))"
  by (auto simp: gl_iterate_def gl_executeTick_def Let_def split: prod.splits)

lemma gl_iterate_frame [simp]:
  "gl_targetFrameTime (fst (snd (gl_iterate callback r l w))) = gl_targetFrameTime l"
  "gl_hasTickCallback (fst (snd (gl_iterate callback r l w))) = gl_hasTickCallback l"
  "gl_tickCount (fst (snd (gl_iterate callback r l w))) = gl_tickCount l + 1"
  "tm_tickNumber (fst (gl_iterate callback r l w)) = gl_tickCount l"
  "gl_running (fst (snd (gl_iterate callback r l w))) = gl_running l"
  "gl_lastMetrics (fst (snd (gl_iterate callback r l w))) = fst (gl_iterate callback r l w)"
  by (auto simp: gl_iterate_def gl_executeTick_def Let_def split: prod.splits)

lemma gl_iterate_world:
  "snd (snd (gl_iterate callback r l w)) = (if gl_hasTickCallback l then callback (dtSeconds l) w else w)"
  by (auto simp: gl_iterate_def gl_executeTick_def dtSeconds_def Let_def split: prod.splits)

text \<open>The clock readings of a run in which every tick ends before its deadline, \<open>target\<close> apart.\<close>

fun onTime :: "int \<Rightarrow> int \<Rightarrow> (int \<times> int \<times> int) list \<Rightarrow> bool" where
  "onTime target deadline [] \<longleftrightarrow> True"
| "onTime target deadline (r # rs) \<longleftrightarrow> snd (snd r) < deadline + target \<and> onTime target (deadline + target) rs"

lemma gl_run_nextTick:
  assumes "gl_run callback rs l w = (ms, l', w')"
  shows "gl_nextTick l + int (length rs) * (gl_targetFrameTime l * 1000) \<le> gl_nextTick l'
    \<and> (onTime (gl_targetFrameTime l * 1000) (gl_nextTick l) rs \<longrightarrow>
         gl_nextTick l' = gl_nextTick l + int (length rs) * (gl_targetFrameTime l * 1000))
    \<and> gl_tickCount l' = gl_tickCount l + word_of_nat (length rs)
    \<and> map tm_tickNumber ms = map (\<lambda>i. gl_tickCount l + word_of_nat i) [0..<length rs]"
  using assms
proof (induction rs arbitrary: l w ms)
  case (Cons r rs)
  obtain m l1 w1 where one: "gl_iterate callback r l w = (m, l1, w1)" by (cases "gl_iterate callback r l w")
  obtain ms1 l2 w2 where rest: "gl_run callback rs l1 w1 = (ms1, l2, w2)" by (cases "gl_run callback rs l1 w1")
  have eqs: "ms = m # ms1" "l2 = l'" "w2 = w'" using Cons.prems one rest by auto
  have nt: "gl_nextTick l1 = max (gl_nextTick l + gl_targetFrameTime l * 1000) (snd (snd r))"
    using gl_iterate_nextTick [of callback r l w] one by simp
  have fr: "gl_targetFrameTime l1 = gl_targetFrameTime l" "gl_tickCount l1 = gl_tickCount l + 1"
    "tm_tickNumber m = gl_tickCount l"
    using gl_iterate_frame [of callback r l w] one by simp_all
  note IH = Cons.IH [OF rest [unfolded eqs]]
  have lo: "gl_nextTick l + int (length (r # rs)) * (gl_targetFrameTime l * 1000) \<le> gl_nextTick l'"
  proof -
    have "gl_nextTick l1 + int (length rs) * (gl_targetFrameTime l * 1000) \<le> gl_nextTick l'"
      using IH fr(1) by simp
    moreover have "gl_nextTick l + gl_targetFrameTime l * 1000 \<le> gl_nextTick l1" unfolding nt by simp
    ultimately show ?thesis by (simp add: algebra_simps)
  qed
  have "gl_nextTick l' = gl_nextTick l + int (length (r # rs)) * (gl_targetFrameTime l * 1000)"
    if "onTime (gl_targetFrameTime l * 1000) (gl_nextTick l) (r # rs)"
    using that IH nt fr(1) by (simp add: max_def algebra_simps)
  moreover have "map tm_tickNumber ms = map (\<lambda>i. gl_tickCount l + word_of_nat i) [0..<length (r # rs)]"
    using IH fr(2,3) eqs(1)
    by (simp add: upt_conv_Cons map_Suc_upt [symmetric] add.assoc add.commute del: upt_Suc)
  ultimately show ?case using lo IH fr(2) by (simp add: add.assoc add.commute)
qed simp

section \<open>Properties\<close>

text \<open>Pacing of the loop. After \<open>n\<close> passes the deadline of the next tick is never earlier than \<open>n\<close> target
  times after the start, so there is no burst after an overrun; when every tick ended before its
  deadline it is exactly that, without drift. Ticks are numbered consecutively from the counter,
  and the counter has advanced by \<open>n\<close>.\<close>

theorem game_loop_pacing:
  assumes "gl_run callback rs l w = (ms, l', w')"
  shows "gl_nextTick l + int (length rs) * (gl_targetFrameTime l * 1000) \<le> gl_nextTick l'
    \<and> (onTime (gl_targetFrameTime l * 1000) (gl_nextTick l) rs \<longrightarrow>
         gl_nextTick l' = gl_nextTick l + int (length rs) * (gl_targetFrameTime l * 1000))
    \<and> gl_tickCount l' = gl_tickCount l + word_of_nat (length rs)
    \<and> map tm_tickNumber ms = map (\<lambda>i. gl_tickCount l + word_of_nat i) [0..<length rs]"
  using gl_run_nextTick [OF assms] .

theorem game_loop_pacing_witness:
  "let l = snd (gl_start 0 (mkGameLoop 20));
       r = gl_run (\<lambda>dt w. w + 1) [(0, 1000000, 1000000), (50000000, 51000000, 51000000)] l (0 :: nat)
   in gl_nextTick (fst (snd r)) = 100000000 \<and> map tm_tickNumber (fst r) = [0, 1]"
proof -
  define l where "l = snd (gl_start 0 (mkGameLoop 20))"
  have l: "gl_targetFrameTime l = 50000" "gl_nextTick l = 0" "gl_tickCount l = 0"
    by (simp_all add: l_def gl_start_def mkGameLoop_def)
  let ?rs = "[(0, 1000000, 1000000), (50000000, 51000000, 51000000)] :: (int \<times> int \<times> int) list"
  obtain ms l' w' where run: "gl_run (\<lambda>dt w. w + 1) ?rs l (0 :: nat) = (ms, l', w')"
    by (cases "gl_run (\<lambda>dt w. w + 1) ?rs l (0 :: nat)")
  show ?thesis using game_loop_pacing [OF run] run l by (simp flip: l_def)
qed

end
