(* ===== verification/Map_Instance_Manager.thy ===== *)
theory Map_Instance_Manager
  imports Foundation World
begin

text \<open>
  Map instances (\<^verbatim>\<open>service/map_instance_manager.hpp\<close>, \<^verbatim>\<open>services/game/map_instance_manager.cpp\<close>): their
  life cycle and their player counts. The theory states what the game server relies on as a locale
  of slots that players take and release, proves there that the counts follow a table of sessions,
  and interprets it on the manager.
\<close>

datatype InstanceState = Active | Draining | ShuttingDown

record MapInstanceInfo =
  mp_instanceId :: u32
  mp_mapId :: u32
  mp_type :: MapType
  mp_state :: InstanceState
  mp_playerCount :: u32
  mp_maxPlayers :: u32
  mp_createdAt :: int

record MapInstanceManager =
  im_maxInstances :: u32
  im_nextInstanceId :: u32
  im_instances :: "(u32, MapInstanceInfo) umap"

definition mkMapInstanceManager :: "u32 \<Rightarrow> MapInstanceManager" where
  "mkMapInstanceManager maxInstances = \<lparr>im_maxInstances = maxInstances, im_nextInstanceId = 1, im_instances = []\<rparr>"

definition im_createInstance ::
  "u32 \<Rightarrow> MapType \<Rightarrow> u32 \<Rightarrow> int \<Rightarrow> MapInstanceManager \<Rightarrow> u32 GameResult \<times> MapInstanceManager" where
  "im_createInstance mapId ty maxPlayers now m =
     (if length (im_instances m) \<ge> unat (im_maxInstances m)
      then (err MapInstanceLimitReached ''Maximum number of map instances reached'', m)
      else let i = im_nextInstanceId m;
               info = \<lparr>mp_instanceId = i, mp_mapId = mapId, mp_type = ty, mp_state = Active,
                       mp_playerCount = 0, mp_maxPlayers = maxPlayers, mp_createdAt = now\<rparr>
           in (Inr i, m\<lparr>im_nextInstanceId := i + 1, im_instances := emplace i info (im_instances m)\<rparr>))"

definition im_destroyInstance :: "u32 \<Rightarrow> MapInstanceManager \<Rightarrow> unit GameResult \<times> MapInstanceManager" where
  "im_destroyInstance instanceId m =
     (case map_of (im_instances m) instanceId of
        None \<Rightarrow> (err MapInstanceNotFound ''Map instance not found'', m)
      | Some info \<Rightarrow>
          if mp_playerCount info > 0
          then (err MapInstanceInvalidState ''Cannot destroy instance with active players'', m)
          else (Inr (), m\<lparr>im_instances := AList.delete instanceId (im_instances m)\<rparr>))"

definition im_setInstanceState :: "u32 \<Rightarrow> InstanceState \<Rightarrow> MapInstanceManager \<Rightarrow> bool \<times> MapInstanceManager" where
  "im_setInstanceState instanceId state m =
     (case map_of (im_instances m) instanceId of
        None \<Rightarrow> (False, m)
      | Some info \<Rightarrow>
          let current = mp_state info
          in if state = Draining \<and> current \<noteq> Active then (False, m)
             else if state = ShuttingDown \<and> current \<noteq> Draining then (False, m)
             else if state = Active then (False, m)
             else (True, m\<lparr>im_instances := AList.update instanceId (info\<lparr>mp_state := state\<rparr>) (im_instances m)\<rparr>))"

definition im_getInstance :: "MapInstanceManager \<Rightarrow> u32 \<Rightarrow> MapInstanceInfo option" where
  "im_getInstance m instanceId = map_of (im_instances m) instanceId"

definition im_getInstancesByMap :: "MapInstanceManager \<Rightarrow> u32 \<Rightarrow> MapInstanceInfo list" where
  "im_getInstancesByMap m mapId = filter (\<lambda>info. mp_mapId info = mapId) (map snd (im_instances m))"

definition im_getInstancesByState :: "MapInstanceManager \<Rightarrow> InstanceState \<Rightarrow> MapInstanceInfo list" where
  "im_getInstancesByState m state = filter (\<lambda>info. mp_state info = state) (map snd (im_instances m))"

definition im_addPlayer :: "u32 \<Rightarrow> MapInstanceManager \<Rightarrow> bool \<times> MapInstanceManager" where
  "im_addPlayer instanceId m =
     (case map_of (im_instances m) instanceId of
        None \<Rightarrow> (False, m)
      | Some info \<Rightarrow>
          if mp_state info \<noteq> Active then (False, m)
          else if mp_playerCount info \<ge> mp_maxPlayers info then (False, m)
          else (True, m\<lparr>im_instances :=
                 AList.update instanceId (info\<lparr>mp_playerCount := mp_playerCount info + 1\<rparr>) (im_instances m)\<rparr>))"

definition im_removePlayer :: "u32 \<Rightarrow> MapInstanceManager \<Rightarrow> bool \<times> MapInstanceManager" where
  "im_removePlayer instanceId m =
     (case map_of (im_instances m) instanceId of
        None \<Rightarrow> (False, m)
      | Some info \<Rightarrow>
          if mp_playerCount info = 0 then (False, m)
          else (True, m\<lparr>im_instances :=
                 AList.update instanceId (info\<lparr>mp_playerCount := mp_playerCount info - 1\<rparr>) (im_instances m)\<rparr>))"

definition im_instanceCount :: "MapInstanceManager \<Rightarrow> u32" where
  "im_instanceCount m = word_of_nat (length (im_instances m))"

definition im_instanceCountBy :: "MapInstanceManager \<Rightarrow> InstanceState \<Rightarrow> u32" where
  "im_instanceCountBy m state = foldl (\<lambda>count p. if mp_state (snd p) = state then count + 1 else count) 0 (im_instances m)"

definition im_findEmptyInstances :: "MapInstanceManager \<Rightarrow> u32 list" where
  "im_findEmptyInstances m = map fst (filter (\<lambda>p. mp_playerCount (snd p) = 0) (im_instances m))"

definition im_findAvailableInstances :: "MapInstanceManager \<Rightarrow> u32 \<Rightarrow> u32 list" where
  "im_findAvailableInstances m mapId = map fst (filter (\<lambda>p. mp_mapId (snd p) = mapId \<and> mp_state (snd p) = Active
     \<and> mp_playerCount (snd p) < mp_maxPlayers (snd p)) (im_instances m))"

section \<open>Invariant\<close>

text \<open>Ids are below the next id (which must not have wrapped), keys agree with the records, and no instance
  has more players than it admits.\<close>

definition im_inv :: "MapInstanceManager \<Rightarrow> bool" where
  "im_inv m \<longleftrightarrow> umap_wf (im_instances m) \<and> length (im_instances m) \<le> unat (im_maxInstances m)
     \<and> (\<forall>i info. map_of (im_instances m) i = Some info \<longrightarrow> i < im_nextInstanceId m \<and> mp_instanceId info = i
          \<and> mp_playerCount info \<le> mp_maxPlayers info)"

lemma im_inv_mk [simp]: "im_inv (mkMapInstanceManager n)"
  by (simp add: im_inv_def mkMapInstanceManager_def)

lemma im_inv_update:
  assumes "im_inv m" "map_of (im_instances m) i = Some info"
    and "mp_instanceId info' = i" "mp_playerCount info' \<le> mp_maxPlayers info'"
  shows "im_inv (m\<lparr>im_instances := AList.update i info' (im_instances m)\<rparr>)"
  using assms by (auto simp: im_inv_def update_conv' length_update_umap)

text \<open>\<open>room m\<close>: the id counter is not about to wrap.\<close>

definition im_room :: "MapInstanceManager \<Rightarrow> bool" where
  "im_room m \<longleftrightarrow> unat (im_nextInstanceId m) + 1 < 2 ^ 32"

lemma im_createInstance_inv [inv_intros]:
  assumes "im_inv m" "im_room m"
  shows "im_inv (snd (im_createInstance mapId ty n now m))"
proof -
  have nx: "unat (im_nextInstanceId m + 1) = unat (im_nextInstanceId m) + 1"
    using assms(2) by (intro unat_plus_1) (simp add: im_room_def)
  have fresh: "map_of (im_instances m) (im_nextInstanceId m) = None"
    using assms(1) unfolding im_inv_def by (metis not_Some_eq order_less_irrefl)
  have "i < im_nextInstanceId m + 1" if "i < im_nextInstanceId m \<or> i = im_nextInstanceId m" for i
    using that nx by (auto simp: word_less_nat_alt)
  then show ?thesis
    using assms(1) fresh
    by (auto simp: im_inv_def im_createInstance_def Let_def map_of_emplace length_emplace split: if_splits)
qed

lemma im_inv_delete: "im_inv m \<Longrightarrow> im_inv (m\<lparr>im_instances := AList.delete i (im_instances m)\<rparr>)"
  using order_trans [OF length_delete_le [of i "im_instances m"]]
  by (simp add: im_inv_def delete_conv' fun_upd_def)

lemma im_destroyInstance_inv [inv_intros]: "im_inv m \<Longrightarrow> im_inv (snd (im_destroyInstance i m))"
  by (simp add: im_destroyInstance_def im_inv_delete split: option.split)

lemma im_setInstanceState_inv [inv_intros]: "im_inv m \<Longrightarrow> im_inv (snd (im_setInstanceState i st m))"
proof (cases "map_of (im_instances m) i")
  case (Some info)
  assume inv: "im_inv m"
  have "mp_instanceId info = i" "mp_playerCount info \<le> mp_maxPlayers info" using inv Some by (simp_all add: im_inv_def)
  then show ?thesis
    using im_inv_update [OF inv Some, of "info\<lparr>mp_state := st\<rparr>"] inv Some by (simp add: im_setInstanceState_def Let_def)
qed (simp add: im_setInstanceState_def)

lemma unat_pred: "(x :: u32) \<noteq> 0 \<Longrightarrow> unat (x - 1) = unat x - 1"
  by (simp add: unat_minus_one)

lemma unat_succ_le: "(x :: u32) < y \<Longrightarrow> unat (x + 1) = unat x + 1"
  using unsigned_less [of y, where 'a = nat] by (intro unat_plus_1) (simp add: word_less_nat_alt)

lemma im_addPlayer_inv [inv_intros]: "im_inv m \<Longrightarrow> im_inv (snd (im_addPlayer i m))"
proof (cases "map_of (im_instances m) i")
  case (Some info)
  assume inv: "im_inv m"
  have "mp_instanceId info = i" using inv Some by (simp add: im_inv_def)
  moreover have "mp_playerCount info + 1 \<le> mp_maxPlayers info" if "mp_playerCount info < mp_maxPlayers info"
    using that unat_succ_le [OF that] by (simp add: word_le_nat_alt word_less_nat_alt)
  ultimately show ?thesis
    using im_inv_update [OF inv Some] inv Some by (auto simp: im_addPlayer_def not_le)
qed (simp add: im_addPlayer_def)

lemma im_removePlayer_inv [inv_intros]: "im_inv m \<Longrightarrow> im_inv (snd (im_removePlayer i m))"
proof (cases "map_of (im_instances m) i")
  case (Some info)
  assume inv: "im_inv m"
  have "mp_instanceId info = i" "mp_playerCount info \<le> mp_maxPlayers info" using inv Some by (simp_all add: im_inv_def)
  moreover have "mp_playerCount info - 1 \<le> mp_playerCount info" if "mp_playerCount info \<noteq> 0"
    using unat_pred [OF that] by (simp add: word_le_nat_alt)
  ultimately show ?thesis
    using im_inv_update [OF inv Some] inv Some by (auto simp: im_removePlayer_def intro: order_trans)
qed (simp add: im_removePlayer_def)

section \<open>Slots of an instance\<close>

text \<open>What the game server relies on: a join takes a slot of an instance that has one, a leave gives it back,
  and neither touches other instances. From this follows that the counts agree with a table of
  sessions (a player and the instance it is in) that is updated along with the calls.\<close>

definition sessionsIn :: "('p \<times> u32) list \<Rightarrow> u32 \<Rightarrow> nat" where
  "sessionsIn sessions i = length (filter (\<lambda>s. snd s = i) sessions)"

lemma sessionsIn_Nil [simp]: "sessionsIn [] i = 0"
  by (simp add: sessionsIn_def)

lemma sessionsIn_Cons [simp]: "sessionsIn (s # sessions) i = (if snd s = i then 1 else 0) + sessionsIn sessions i"
  by (simp add: sessionsIn_def)

lemma sessionsIn_delete:
  assumes "umap_wf sessions" "map_of sessions p = Some j"
  shows "sessionsIn (AList.delete p sessions) i = sessionsIn sessions i - (if i = j then 1 else 0)
    \<and> 0 < sessionsIn sessions j"
  using assms
proof (induction sessions)
  case (Cons s sessions)
  obtain q k where s: "s = (q, k)" by fastforce
  have wf: "umap_wf sessions" using Cons.prems(1) by (simp add: umap_wf_def)
  show ?case
  proof (cases "q = p")
    case True
    have "map_of sessions p = None" using Cons.prems(1) s True by (auto simp: umap_wf_def map_of_eq_None_iff)
    then have "AList.delete p sessions = sessions" by (simp add: delete_id map_of_eq_None_iff)
    then show ?thesis using Cons.prems(2) True by (auto simp: s)
  next
    case False
    then show ?thesis using Cons.IH [OF wf] Cons.prems(2) by (auto simp: s)
  qed
qed simp

lemma sessionsIn_update:
  assumes "umap_wf sessions" "map_of sessions p = Some j"
  shows "sessionsIn (AList.update p k sessions) i = sessionsIn sessions i - (if i = j then 1 else 0) + (if i = k then 1 else 0)"
  using assms
proof (induction sessions)
  case (Cons s sessions)
  obtain q l where s: "s = (q, l)" by fastforce
  have wf: "umap_wf sessions" using Cons.prems(1) by (simp add: umap_wf_def)
  show ?case
  proof (cases "q = p")
    case False
    then show ?thesis
      using Cons.IH [OF wf] Cons.prems(2) sessionsIn_delete [OF wf, of p j i] by (auto simp: s)
  qed (use Cons.prems in \<open>auto simp: s\<close>)
qed simp

lemma sessionsIn_update_new:
  "map_of sessions p = None \<Longrightarrow> sessionsIn (AList.update p k sessions) i = sessionsIn sessions i + (if i = k then 1 else 0)"
  by (induction sessions) auto

locale instance_slots =
  fixes slots_inv :: "'m \<Rightarrow> bool"
    and occupancy :: "'m \<Rightarrow> u32 \<Rightarrow> nat option"
    and join :: "u32 \<Rightarrow> 'm \<Rightarrow> bool \<times> 'm"
    and leave :: "u32 \<Rightarrow> 'm \<Rightarrow> bool \<times> 'm"
  assumes join_inv: "slots_inv m \<Longrightarrow> slots_inv (snd (join i m))"
    and leave_inv: "slots_inv m \<Longrightarrow> slots_inv (snd (leave i m))"
    and join_refused: "\<not> fst (join i m) \<Longrightarrow> snd (join i m) = m"
    and join_taken: "slots_inv m \<Longrightarrow> fst (join i m) \<Longrightarrow>
          \<exists>n. occupancy m i = Some n \<and> occupancy (snd (join i m)) = (occupancy m)(i \<mapsto> n + 1)"
    and leave_taken: "slots_inv m \<Longrightarrow> occupancy m i = Some (Suc n) \<Longrightarrow>
          fst (leave i m) \<and> occupancy (snd (leave i m)) = (occupancy m)(i \<mapsto> n)"
begin

text \<open>The counts are the numbers of sessions, and every session is in an instance that exists.\<close>

definition counted :: "('p \<times> u32) list \<Rightarrow> 'm \<Rightarrow> bool" where
  "counted sessions m \<longleftrightarrow> slots_inv m \<and> umap_wf sessions
     \<and> (\<forall>i n. occupancy m i = Some n \<longrightarrow> n = sessionsIn sessions i)
     \<and> (\<forall>p i. map_of sessions p = Some i \<longrightarrow> occupancy m i \<noteq> None)"

lemma counted_join:
  assumes "counted sessions m" "fst (join i m)" "map_of sessions p = None"
  shows "counted (AList.update p i sessions) (snd (join i m))"
proof -
  obtain n where n: "occupancy m i = Some n" "occupancy (snd (join i m)) = (occupancy m)(i \<mapsto> n + 1)"
    using join_taken [of m i] assms(1,2) unfolding counted_def by blast
  then show ?thesis
    using assms join_inv [of m i] by (auto simp: counted_def sessionsIn_update_new update_conv')
qed

lemma occupied:
  assumes "counted sessions m" "map_of sessions p = Some i"
  obtains n where "occupancy m i = Some (Suc n)" "sessionsIn sessions i = Suc n"
proof -
  have "0 < sessionsIn sessions i" using sessionsIn_delete [of sessions p i i] assms by (simp add: counted_def)
  then show thesis using assms that by (fastforce simp: counted_def gr0_conv_Suc)
qed

lemma counted_leave:
  assumes "counted sessions m" "map_of sessions p = Some i"
  shows "counted (AList.delete p sessions) (snd (leave i m)) \<and> fst (leave i m)"
proof -
  obtain n where n: "occupancy m i = Some (Suc n)" "sessionsIn sessions i = Suc n"
    using occupied [OF assms] by blast
  have l: "fst (leave i m)" "occupancy (snd (leave i m)) = (occupancy m)(i \<mapsto> n)"
    using leave_taken [OF _ n(1)] assms(1) by (auto simp: counted_def)
  have s: "sessionsIn (AList.delete p sessions) j = sessionsIn sessions j - (if j = i then 1 else 0)" for j
    using sessionsIn_delete [of sessions p i] assms by (auto simp: counted_def)
  show ?thesis
    using assms l n s leave_inv [of m i] by (auto simp: counted_def delete_conv' split: if_splits)
qed

lemma counted_transfer:
  assumes "counted sessions m" "map_of sessions p = Some i" "fst (join j m)" "i \<noteq> j"
  shows "counted (AList.update p j sessions) (snd (leave i (snd (join j m)))) \<and> fst (leave i (snd (join j m)))"
proof -
  let ?m1 = "snd (join j m)"
  obtain n where n: "occupancy m i = Some (Suc n)" "sessionsIn sessions i = Suc n"
    using occupied [OF assms(1,2)] by blast
  obtain k where k: "occupancy m j = Some k" "occupancy ?m1 = (occupancy m)(j \<mapsto> k + 1)"
    using join_taken [of m j] assms(1,3) unfolding counted_def by blast
  have inv: "slots_inv ?m1" using join_inv assms(1) by (simp add: counted_def)
  have l: "fst (leave i ?m1)" "occupancy (snd (leave i ?m1)) = (occupancy ?m1)(i \<mapsto> n)"
    using leave_taken [OF inv, of i n] n(1) k(2) assms(4) by auto
  have s: "sessionsIn (AList.update p j sessions) x = sessionsIn sessions x - (if x = i then 1 else 0) + (if x = j then 1 else 0)" for x
    using sessionsIn_update [of sessions p i j x] assms(1,2) by (simp add: counted_def)
  show ?thesis
    using assms(1,4) l n k s leave_inv [OF inv, of i] by (auto simp: counted_def update_conv' split: if_splits)
qed

end

definition im_occupancy :: "MapInstanceManager \<Rightarrow> u32 \<Rightarrow> nat option" where
  "im_occupancy m i = map_option (\<lambda>info. unat (mp_playerCount info)) (map_of (im_instances m) i)"

interpretation slots: instance_slots im_inv im_occupancy im_addPlayer im_removePlayer
proof unfold_locales
  fix m i n
  show "im_inv m \<Longrightarrow> im_inv (snd (im_addPlayer i m))" "im_inv m \<Longrightarrow> im_inv (snd (im_removePlayer i m))"
    by (rule inv_intros, assumption)+
  show "\<not> fst (im_addPlayer i m) \<Longrightarrow> snd (im_addPlayer i m) = m"
    by (auto simp: im_addPlayer_def split: option.splits)
  show "\<exists>n. im_occupancy m i = Some n \<and> im_occupancy (snd (im_addPlayer i m)) = (im_occupancy m)(i \<mapsto> n + 1)"
    if "im_inv m" and ok: "fst (im_addPlayer i m)"
  proof -
    obtain info where info: "map_of (im_instances m) i = Some info" "mp_state info = Active"
      "mp_playerCount info < mp_maxPlayers info"
      using ok by (auto simp: im_addPlayer_def split: option.splits if_splits)
    then show ?thesis
      using unat_succ_le [OF info(3)] by (auto simp: im_addPlayer_def im_occupancy_def fun_eq_iff update_conv')
  qed
  show "fst (im_removePlayer i m) \<and> im_occupancy (snd (im_removePlayer i m)) = (im_occupancy m)(i \<mapsto> n)"
    if "im_inv m" "im_occupancy m i = Some (Suc n)"
    using that(2) unat_pred
    by (auto simp: im_removePlayer_def im_occupancy_def fun_eq_iff update_conv')
qed

end
