(* ===== verification/Game_Server.thy ===== *)
theory Game_Server
  imports Game_World Game_Loop Map_Instance_Manager Ecs_Scheduler
begin

text \<open>
  The game server (\<^verbatim>\<open>service/game_server.hpp\<close>, \<^verbatim>\<open>services/game/game_server.cpp\<close>): it wires the pools and the six
  systems, creates map instances with a map entity each, and brings players into the world as
  entities with their components. An operation that can hit an assertion of the ECS returns an
  option. What the server promises over every history of calls and ticks is proved in
  \<^verbatim>\<open>Game_Server_Inv\<close>.
\<close>

section \<open>State\<close>

record GameServerConfig =
  gc_tickRate :: u32
  gc_maxInstances :: u32
  gc_spatialCellSize :: rat
  gc_aiTickInterval :: rat

record PlayerSession =
  ps_playerId :: PlayerId
  ps_entity :: Entity
  ps_instanceId :: u32

record GameServer =
  gs_config :: GameServerConfig
  gs_entities :: EntityManager
  gs_world :: GameWorld
  gs_scheduler :: "GameWorld option SystemScheduler"
  gs_loop :: GameLoop
  gs_instanceManager :: MapInstanceManager
  gs_playerSessions :: "(PlayerId, PlayerSession) umap"
  gs_instanceEntities :: "(u32, Entity) umap"
  gs_playersJoined :: u64
  gs_playersLeft :: u64
  gs_guidCounter :: u64

text \<open>Templates are registered with the systems, and the behaviour trees of creatures are made, outside the server.\<close>

definition mkGameServer :: "GameServerConfig \<Rightarrow> (nat \<Rightarrow> AiTree) \<Rightarrow> u64 \<Rightarrow> GameServer" where
  "mkGameServer config trees guids =
     \<lparr>gs_config = config, gs_entities = emptyManager,
      gs_world = \<lparr>wd_pools = \<lambda>_. emptyStorage, wd_spatialIndices = [], wd_cellSize = gc_spatialCellSize config,
        wd_ai = mkAISystem (gc_aiTickInterval config), wd_trees = trees, wd_questTemplates = [], wd_itemTemplates = []\<rparr>,
      gs_scheduler = emptyScheduler, gs_loop = mkGameLoop (gc_tickRate config),
      gs_instanceManager = mkMapInstanceManager (gc_maxInstances config), gs_playerSessions = [],
      gs_instanceEntities = [], gs_playersJoined = 0, gs_playersLeft = 0, gs_guidCounter = guids\<rparr>"

section \<open>Wiring\<close>

definition registerStorages :: "EntityManager \<Rightarrow> EntityManager" where
  "registerStorages m = foldl (\<lambda>m p. em_RegisterStorage p m) m
     [pTransforms, pIdentities, pStats, pMovements, pMapInstances, pMemberships, pVisibility, pZones, pSpellCasts,
      pAuraHolders, pDamageEvents, pThreatLists, pAIBrains, pQuestLogs, pQuestEvents, pInventories, pEquipment, pDurability]"

text \<open>The systems with the access they declare; a component type is named by the number of its pool.\<close>

definition sysWorld :: ISystem where
  "sysWorld = \<lparr>is_GetName = ''WorldSystem'', is_GetStage = PreUpdate,
     is_GetAccessInfo = \<lparr>ai_reads = map of_nat [pTransforms, pMemberships, pMapInstances, pVisibility, pZones], ai_writes = []\<rparr>\<rparr>"

definition sysObject :: ISystem where
  "sysObject = \<lparr>is_GetName = ''ObjectUpdateSystem'', is_GetStage = Update,
     is_GetAccessInfo = \<lparr>ai_reads = map of_nat [pMovements], ai_writes = map of_nat [pTransforms]\<rparr>\<rparr>"

definition sysCombat :: ISystem where
  "sysCombat = \<lparr>is_GetName = ''CombatSystem'', is_GetStage = Update,
     is_GetAccessInfo = \<lparr>ai_reads = [],
       ai_writes = map of_nat [pSpellCasts, pAuraHolders, pDamageEvents, pStats, pThreatLists]\<rparr>\<rparr>"

definition sysAI :: ISystem where
  "sysAI = \<lparr>is_GetName = ''AISystem'', is_GetStage = Update,
     is_GetAccessInfo = \<lparr>ai_reads = map of_nat [pTransforms, pStats, pThreatLists], ai_writes = map of_nat [pAIBrains, pMovements]\<rparr>\<rparr>"

definition sysQuest :: ISystem where
  "sysQuest = \<lparr>is_GetName = ''QuestSystem'', is_GetStage = PostUpdate,
     is_GetAccessInfo = \<lparr>ai_reads = [], ai_writes = map of_nat [pQuestLogs, pQuestEvents]\<rparr>\<rparr>"

definition sysInventory :: ISystem where
  "sysInventory = \<lparr>is_GetName = ''InventorySystem'', is_GetStage = PostUpdate,
     is_GetAccessInfo = \<lparr>ai_reads = [], ai_writes = map of_nat [pInventories, pEquipment, pDurability]\<rparr>\<rparr>"

text \<open>System types are numbered in the order of their first registration.\<close>

definition registerSystems :: "'w SystemScheduler \<Rightarrow> (bool \<times> 'w SystemScheduler) option" where
  "registerSystems sched =
     ss_Build (ss_Register 5 sysInventory (ss_Register 4 sysQuest (ss_Register 3 sysAI
       (ss_Register 2 sysCombat (ss_Register 1 sysObject (ss_Register 0 sysWorld sched))))))"

definition runSystem :: "(ThreatEntry list \<Rightarrow> ThreatEntry list) \<Rightarrow> SystemTypeId \<Rightarrow> rat \<Rightarrow> GameWorld option \<Rightarrow> GameWorld option" where
  "runSystem srt i deltaTime w =
     Option.bind w (\<lambda>w. if i = 0 then runWorldSystem w
       else if i = 1 then runObjectSystem deltaTime w
       else if i = 2 then runCombatSystem srt deltaTime w
       else if i = 3 then runAISystem deltaTime w
       else if i = 4 then runQuestSystem deltaTime w
       else if i = 5 then runInventorySystem deltaTime w
       else Some w)"

definition findMapEntity :: "GameServer \<Rightarrow> u32 \<Rightarrow> Entity option" where
  "findMapEntity s instanceId = map_of (gs_instanceEntities s) instanceId"

section \<open>Life cycle and ticks\<close>

text \<open>The tick callback: run the systems, then destroy what was queued.\<close>

definition gs_callback :: "(ThreatEntry list \<Rightarrow> ThreatEntry list) \<Rightarrow> rat \<Rightarrow> GameServer \<Rightarrow> GameServer option" where
  "gs_callback srt dt s =
     (case ss_Execute (runSystem srt) dt (gs_scheduler s) (Some (gs_world s)) of
        Some (sched, Some w) \<Rightarrow>
          (case em_FlushDeferred (gs_entities s, wd_pools w) of
             (m, p) \<Rightarrow> Some (s\<lparr>gs_scheduler := sched, gs_entities := m, gs_world := w\<lparr>wd_pools := p\<rparr>\<rparr>))
      | _ \<Rightarrow> None)"

text \<open>\<^verbatim>\<open>registerSystems\<close> together with the storages, as \<^verbatim>\<open>start\<close> and the first \<^verbatim>\<open>tick\<close> do it; \<open>False\<close>: the build failed.\<close>

definition gs_wire :: "GameServer \<Rightarrow> (bool \<times> GameServer) option" where
  "gs_wire s = map_option (\<lambda>(ok, sched). (ok, s\<lparr>gs_entities := registerStorages (gs_entities s), gs_scheduler := sched\<rparr>))
     (registerSystems (gs_scheduler s))"

definition gs_start :: "int \<Rightarrow> GameServer \<Rightarrow> (unit GameResult \<times> GameServer) option" where
  "gs_start now s =
     (if gl_isRunning (gs_loop s) then Some (err GameLoopAlreadyRunning ''game server is already running'', s)
      else case gs_wire s of
        None \<Rightarrow> None
      | Some (False, s1) \<Rightarrow> Some (err SystemSchedulerBuildFailed
            (''failed to build system scheduler: '' @ ss_lastError (gs_scheduler s1)), s1)
      | Some (True, s1) \<Rightarrow>
          (case gl_start now (gl_setTickCallback (gs_loop s1)) of
             (False, l) \<Rightarrow> Some (err GameLoopAlreadyRunning ''failed to start game loop'', s1\<lparr>gs_loop := l\<rparr>)
           | (True, l) \<Rightarrow> Some (Inr (), s1\<lparr>gs_loop := l\<rparr>)))"

definition gs_stop :: "GameServer \<Rightarrow> GameServer" where
  "gs_stop s = s\<lparr>gs_loop := gl_stop (gs_loop s)\<rparr>"

definition gs_isRunning :: "GameServer \<Rightarrow> bool" where
  "gs_isRunning s = gl_isRunning (gs_loop s)"

definition gs_loopTick :: "(ThreatEntry list \<Rightarrow> ThreatEntry list) \<Rightarrow> int \<Rightarrow> int \<Rightarrow> GameServer \<Rightarrow> GameServer option" where
  "gs_loopTick srt t0 t1 s =
     (case gl_tick (\<lambda>dt w. Option.bind w (gs_callback srt dt)) t0 t1 (gs_loop s) (Some s) of
        (metrics, l, w) \<Rightarrow> map_option (\<lambda>s. s\<lparr>gs_loop := l\<rparr>) w)"

definition gs_tick :: "(ThreatEntry list \<Rightarrow> ThreatEntry list) \<Rightarrow> int \<Rightarrow> int \<Rightarrow> GameServer \<Rightarrow> (unit GameResult \<times> GameServer) option" where
  "gs_tick srt t0 t1 s =
     (if gl_isRunning (gs_loop s)
      then Some (err GameLoopAlreadyRunning ''cannot tick manually while game loop is running'', s)
      else if ss_SystemCount (gs_scheduler s) = 0 then
        (case gs_wire s of
           None \<Rightarrow> None
         | Some (False, s1) \<Rightarrow> Some (err SystemSchedulerBuildFailed
               (''failed to build system scheduler: '' @ ss_lastError (gs_scheduler s1)), s1)
         | Some (True, s1) \<Rightarrow> map_option (\<lambda>s. (Inr (), s))
             (gs_loopTick srt t0 t1 (s1\<lparr>gs_loop := gl_setTickCallback (gs_loop s1)\<rparr>)))
      else map_option (\<lambda>s. (Inr (), s)) (gs_loopTick srt t0 t1 s))"

text \<open>One pass of the loop thread.\<close>

definition gs_iterate :: "(ThreatEntry list \<Rightarrow> ThreatEntry list) \<Rightarrow> int \<times> int \<times> int \<Rightarrow> GameServer \<Rightarrow> GameServer option" where
  "gs_iterate srt readings s =
     (case gl_iterate (\<lambda>dt w. Option.bind w (gs_callback srt dt)) readings (gs_loop s) (Some s) of
        (metrics, l, w) \<Rightarrow> map_option (\<lambda>s. s\<lparr>gs_loop := l\<rparr>) w)"

section \<open>Instances and players\<close>

definition addComponent :: "Entity \<Rightarrow> GameComponent \<Rightarrow> GameComponent pools \<Rightarrow> GameComponent pools option" where
  "addComponent e c p = map_option (\<lambda>s. p(poolOf c := s)) (cs_Add e c (p (poolOf c)))"

fun addComponents :: "Entity \<Rightarrow> GameComponent list \<Rightarrow> GameComponent pools \<Rightarrow> GameComponent pools option" where
  "addComponents e [] p = Some p"
| "addComponents e (c # cs) p = Option.bind (addComponent e c p) (addComponents e cs)"

definition gs_createInstance :: "u32 \<Rightarrow> u32 \<Rightarrow> int \<Rightarrow> GameServer \<Rightarrow> (u32 GameResult \<times> GameServer) option" where
  "gs_createInstance mapId maxPlayers now s =
     (case im_createInstance mapId OpenWorld maxPlayers now (gs_instanceManager s) of
        (Inl e, im) \<Rightarrow> Some (Inl e, s)
      | (Inr i, im) \<Rightarrow>
          Option.bind (em_Create (gs_entities s)) (\<lambda>(mapEntity, m).
            map_option (\<lambda>p. (Inr i, s\<lparr>gs_instanceManager := im, gs_entities := m, gs_world := (gs_world s)\<lparr>wd_pools := p\<rparr>,
                gs_instanceEntities := emplace i mapEntity (gs_instanceEntities s)\<rparr>))
              (addComponent mapEntity (CMapInstance \<lparr>mi_mapId = mapId, mi_instanceId = i, mi_type = OpenWorld\<rparr>)
                 (wd_pools (gs_world s)))))"

definition destroyEntity :: "Entity \<Rightarrow> GameServer \<Rightarrow> GameServer" where
  "destroyEntity e s = (case em_Destroy e (gs_entities s, wd_pools (gs_world s)) of
     (m, p) \<Rightarrow> s\<lparr>gs_entities := m, gs_world := (gs_world s)\<lparr>wd_pools := p\<rparr>\<rparr>)"

definition gs_destroyInstance :: "u32 \<Rightarrow> GameServer \<Rightarrow> unit GameResult \<times> GameServer" where
  "gs_destroyInstance instanceId s =
     (case im_destroyInstance instanceId (gs_instanceManager s) of
        (Inl e, im) \<Rightarrow> (Inl e, s)
      | (Inr u, im) \<Rightarrow>
          let s1 = s\<lparr>gs_instanceManager := im\<rparr>;
              s2 = (case findMapEntity s1 instanceId of None \<Rightarrow> s1 | Some e \<Rightarrow> destroyEntity e s1)
          in (Inr (), s2\<lparr>gs_instanceEntities := AList.delete instanceId (gs_instanceEntities s2)\<rparr>))"

definition gs_availableInstances :: "GameServer \<Rightarrow> u32 \<Rightarrow> u32 list" where
  "gs_availableInstances s mapId = im_findAvailableInstances (gs_instanceManager s) mapId"

definition playerComponents :: "Entity \<Rightarrow> GUID \<Rightarrow> GameComponent list" where
  "playerComponents mapEntity guid =
     [CTransform defaultTransform,
      CIdentity (defaultIdentity\<lparr>id_guid := guid, id_type := PlayerObject\<rparr>),
      CStats (defaultStats\<lparr>st_health := 100, st_maxHealth := 100, st_mana := 100, st_maxMana := 100\<rparr>),
      CMovement (defaultMovement\<lparr>mv_baseSpeed := 7, mv_speed := 7\<rparr>),
      CMembership \<lparr>mm_mapEntity = mapEntity, mm_zoneId = 0\<rparr>,
      CQuestLog mkQuestLog,
      CInventory (iv_Initialize mkInventory),
      CEquipment mkEquipment]"

definition gs_addPlayer :: "PlayerId \<Rightarrow> u32 \<Rightarrow> GameServer \<Rightarrow> (Entity GameResult \<times> GameServer) option" where
  "gs_addPlayer playerId instanceId s =
     (if map_of (gs_playerSessions s) playerId \<noteq> None
      then Some (err PlayerAlreadyInWorld ''player is already in the world'', s)
      else if im_getInstance (gs_instanceManager s) instanceId = None
      then Some (err MapInstanceNotFound ''map instance not found'', s)
      else case im_addPlayer instanceId (gs_instanceManager s) of
        (False, im) \<Rightarrow> Some (err InstanceFull ''map instance is full or not active'', s)
      | (True, im) \<Rightarrow>
          (case findMapEntity s instanceId of
             None \<Rightarrow> Some (err MapInstanceNotFound ''map entity not found in ECS'',
                       s\<lparr>gs_instanceManager := snd (im_removePlayer instanceId im)\<rparr>)
           | Some mapEntity \<Rightarrow>
               Option.bind (em_Create (gs_entities s)) (\<lambda>(entity, m).
                 case GenerateGUID (gs_guidCounter s) of (guid, counter) \<Rightarrow>
                   map_option (\<lambda>p. (Inr entity, s\<lparr>gs_instanceManager := im, gs_entities := m,
                       gs_world := (gs_world s)\<lparr>wd_pools := p\<rparr>, gs_guidCounter := counter,
                       gs_playerSessions := emplace playerId
                         \<lparr>ps_playerId = playerId, ps_entity = entity, ps_instanceId = instanceId\<rparr> (gs_playerSessions s),
                       gs_playersJoined := gs_playersJoined s + 1\<rparr>))
                     (addComponents entity (playerComponents mapEntity guid) (wd_pools (gs_world s))))))"

definition gs_removePlayer :: "PlayerId \<Rightarrow> GameServer \<Rightarrow> unit GameResult \<times> GameServer" where
  "gs_removePlayer playerId s =
     (case map_of (gs_playerSessions s) playerId of
        None \<Rightarrow> (err PlayerNotInWorld ''player is not in the world'', s)
      | Some session \<Rightarrow>
          let s1 = s\<lparr>gs_playerSessions := AList.delete playerId (gs_playerSessions s),
                     gs_instanceManager := snd (im_removePlayer (ps_instanceId session) (gs_instanceManager s))\<rparr>;
              s2 = destroyEntity (ps_entity session) s1
          in (Inr (), s2\<lparr>gs_playersLeft := gs_playersLeft s2 + 1\<rparr>))"

definition gs_getPlayerSession :: "GameServer \<Rightarrow> PlayerId \<Rightarrow> PlayerSession option" where
  "gs_getPlayerSession s playerId = map_of (gs_playerSessions s) playerId"

definition moveMembership :: "Entity \<Rightarrow> Entity \<Rightarrow> GameComponent pools \<Rightarrow> GameComponent pools" where
  "moveMembership e mapEntity p =
     (case cs_Get (p pMemberships) e of
        None \<Rightarrow> p
      | Some c \<Rightarrow> p(pMemberships := assignRef e
          (CMembership ((unMembership c)\<lparr>mm_mapEntity := mapEntity, mm_zoneId := 0\<rparr>)) (p pMemberships)))"

definition gs_transferPlayer :: "PlayerId \<Rightarrow> u32 \<Rightarrow> GameServer \<Rightarrow> unit GameResult \<times> GameServer" where
  "gs_transferPlayer playerId targetInstanceId s =
     (case map_of (gs_playerSessions s) playerId of
        None \<Rightarrow> (err PlayerNotInWorld ''player is not in the world'', s)
      | Some session \<Rightarrow>
          if ps_instanceId session = targetInstanceId then (Inr (), s)
          else case im_addPlayer targetInstanceId (gs_instanceManager s) of
            (False, im) \<Rightarrow> (err InstanceFull ''target instance is full or not active'', s)
          | (True, im) \<Rightarrow>
              (case findMapEntity s targetInstanceId of
                 None \<Rightarrow> (err MapInstanceNotFound ''target map entity not found in ECS'',
                          s\<lparr>gs_instanceManager := snd (im_removePlayer targetInstanceId im)\<rparr>)
               | Some targetMapEntity \<Rightarrow>
                   (Inr (), s\<lparr>gs_instanceManager := snd (im_removePlayer (ps_instanceId session) im),
                      gs_world := (gs_world s)\<lparr>wd_pools := moveMembership (ps_entity session) targetMapEntity (wd_pools (gs_world s))\<rparr>,
                      gs_playerSessions := AList.update playerId (session\<lparr>ps_instanceId := targetInstanceId\<rparr>) (gs_playerSessions s)\<rparr>)))"

record GameServerStats =
  sv_totalTicks :: u64
  sv_lastUpdateTimeMs :: rat
  sv_lastBudgetUtilization :: rat
  sv_entityCount :: u64
  sv_playerCount :: nat
  sv_activeInstances :: u32
  sv_drainingInstances :: u32
  sv_playersJoined :: u64
  sv_playersLeft :: u64

definition gs_stats :: "GameServer \<Rightarrow> GameServerStats" where
  "gs_stats s = (let loopMetrics = gl_lastMetrics (gs_loop s)
     in \<lparr>sv_totalTicks = tm_tickNumber loopMetrics,
         sv_lastUpdateTimeMs = f32 (f32 (of_int (tm_updateTime loopMetrics)) / 1000),
         sv_lastBudgetUtilization = tm_budgetUtilization loopMetrics, sv_entityCount = em_Count (gs_entities s),
         sv_playerCount = length (gs_playerSessions s),
         sv_activeInstances = im_instanceCountBy (gs_instanceManager s) Active,
         sv_drainingInstances = im_instanceCountBy (gs_instanceManager s) Draining,
         sv_playersJoined = gs_playersJoined s, sv_playersLeft = gs_playersLeft s\<rparr>)"

end
