(* ===== verification/Game_Server_Inv.thy ===== *)
theory Game_Server_Inv
  imports Game_Server
begin

text \<open>
  What the game server promises over every history of calls and ticks. A world in which nothing
  casts auras or thinks is \<open>quiet\<close>; ticks keep such a world well-formed and never fail. The server's
  invariant relates sessions, map instances, entities and components, and the step relation
  \<open>gs_step\<close> runs through all calls of the public interface.
\<close>

section \<open>Ticks of a quiet world\<close>

definition quiet :: "GameWorld \<Rightarrow> bool" where
  "quiet w \<longleftrightarrow> pools_ok (wd_pools w) \<and> (\<forall>e. \<not> cs_Has (wd_pools w pAuraHolders) e \<and> \<not> cs_Has (wd_pools w pAIBrains) e)"

lemma no_members:
  assumes "cs_inv s" "\<forall>e. \<not> cs_Has s e"
  shows "cs_entities s = [] \<and> cs_dense s = []"
proof -
  have "cs_lookup s k = None" for k using lookup_id [OF assms(1), of k] assms(2) by (metis cs_Has_lookup)
  then have "dom (cs_lookup s) = {}" by auto
  then show ?thesis using cs_dom_lookup [OF assms(1)] cs_invD(1) [OF assms(1)] by simp
qed

lemma quiet_frame: "quiet w \<Longrightarrow> pools_frame (wd_pools w) p \<Longrightarrow> wd_pools w' = p \<Longrightarrow> quiet w'"
  by (simp add: quiet_def pools_frame_def)

lemma runAISystem_quiet:
  assumes "quiet w"
  shows "\<exists>w'. runAISystem dt w = Some w' \<and> pools_frame (wd_pools w) (wd_pools w')"
proof -
  let ?p = "wd_pools w"
  let ?b = "cs_map unAIBrain (?p pAIBrains)"
  let ?P = "\<lparr>ap_transforms = cs_map unTransform (?p pTransforms), ap_movements = cs_map unMovement (?p pMovements),
     ap_stats = cs_map unStats (?p pStats), ap_threatLists = cs_map unThreatList (?p pThreatLists)\<rparr>"
  let ?f = "tickBrain dt (ai_defaultTickInterval (wd_ai w))"
  have ok: "pools_ok ?p" and inv: "\<And>q. cs_inv (?p q)" using assms pools_okD(1) by (auto simp: quiet_def)
  then have b: "cs_inv ?b" by simp
  obtain brains trees pools n where run: "forEachComponent ?f (?b, wd_trees w, ?P, 0) = Some (brains, trees, pools, n)"
    using forEachComponent_defined [OF b, of ?f "(wd_trees w, ?P, 0)"] by auto
  have "cs_entities ?b = []" using no_members [of ?b] b assms by (simp add: quiet_def)
  then have same: "pools = ?P" using forEachComponent_Some(5) [OF b run] by simp
  have k: "keeps (?p pAIBrains) brains"
    using forEachComponent_Some(1,3) [OF b run] by (simp add: keeps_def)
  have "pools_frame ?p (?p(pAIBrains := cs_map CAIBrain brains, pTransforms := cs_map CTransform (ap_transforms pools),
               pMovements := cs_map CMovement (ap_movements pools), pStats := cs_map CStats (ap_stats pools),
               pThreatLists := cs_map CThreatList (ap_threatLists pools)))"
    by (intro pools_frame_put pools_frame_refl ok) (use k inv in \<open>simp_all add: same steady_def keeps_def\<close>)
  then show ?thesis using run by (auto simp: runAISystem_def ai_Execute_def)
qed

lemma auras_quiet: "quiet w \<Longrightarrow> auras_ok dt w"
  using no_members [of "wd_pools w pAuraHolders"] pools_okD(1) by (auto simp: quiet_def auras_ok_def)

lemma runSystem_quiet:
  assumes "quiet w"
  shows "\<exists>w'. runSystem srt i dt (Some w) = Some w' \<and> pools_frame (wd_pools w) (wd_pools w') \<and> quiet w'"
proof -
  have ok: "pools_ok (wd_pools w)" using assms by (simp add: quiet_def)
  have "\<exists>w'. runWorldSystem w = Some w' \<and> pools_frame (wd_pools w) (wd_pools w')"
    using runWorldSystem_frame [OF ok] pools_frame_refl [OF ok] by auto
  moreover have "\<exists>w'. runCombatSystem srt dt w = Some w' \<and> pools_frame (wd_pools w) (wd_pools w')"
    using runCombatSystem_returns [OF ok auras_quiet [OF assms]] runCombatSystem_frame [OF ok] by fastforce
  ultimately have "\<exists>w'. runSystem srt i dt (Some w) = Some w' \<and> pools_frame (wd_pools w) (wd_pools w')"
    using runObjectSystem_frame [OF ok, of dt] runAISystem_quiet [OF assms, of dt] runQuestSystem_frame [OF ok, of dt]
      runInventorySystem_frame [OF ok, of dt] pools_frame_refl [OF ok]
    by (auto simp: runSystem_def)
  then show ?thesis using quiet_frame [OF assms] by blast
qed

lemma fold_runSystem_quiet:
  "quiet w \<Longrightarrow> \<exists>w'. fold (\<lambda>i. runSystem srt i dt) is (Some w) = Some w' \<and> pools_frame (wd_pools w) (wd_pools w') \<and> quiet w'"
proof (induction "is" arbitrary: w)
  case (Cons i "is")
  obtain w1 where one: "runSystem srt i dt (Some w) = Some w1" "pools_frame (wd_pools w) (wd_pools w1)" "quiet w1"
    using runSystem_quiet [OF Cons.prems] by blast
  from Cons.IH [OF one(3)] show ?case using one(1) pools_frame_trans [OF one(2)] by fastforce
qed (use pools_frame_refl in \<open>auto simp: quiet_def\<close>)

section \<open>The wired scheduler\<close>

definition gameSystems :: "(SystemTypeId, SystemEntry) umap" where
  "gameSystems = map (\<lambda>(i, sys). (i, \<lparr>se_instance = sys, se_typeId = i, se_stage = is_GetStage sys, se_enabled = True\<rparr>))
     [(0, sysWorld), (1, sysObject), (2, sysCombat), (3, sysAI), (4, sysQuest), (5, sysInventory)]"

text \<open>The six systems are registered without dependencies, and the plan is built for sequential execution.\<close>

definition sched_registered :: "'w SystemScheduler \<Rightarrow> bool" where
  "sched_registered s \<longleftrightarrow> sched_inv s \<and> ss_systems s = gameSystems \<and> ss_dependencies s = [] \<and> ss_parallelExecutor s = None"

definition sched_wired :: "'w SystemScheduler \<Rightarrow> bool" where
  "sched_wired s \<longleftrightarrow> sched_registered s \<and> ss_built s"

lemma sched_Register_again: "map_of (ss_systems s) i \<noteq> None \<Longrightarrow> ss_Register i sys s = s"
  by (auto simp: ss_Register_def)

lemma sched_Register_new:
  assumes "map_of (ss_systems s) i = None"
  shows "ss_systems (ss_Register i sys s) = AList.update i
     \<lparr>se_instance = sys, se_typeId = i, se_stage = is_GetStage sys, se_enabled = True\<rparr> (ss_systems s)"
    "ss_dependencies (ss_Register i sys s) = ss_dependencies s"
    "ss_parallelExecutor (ss_Register i sys s) = ss_parallelExecutor s"
  using assms by (simp_all add: ss_Register_def)

definition registerAll :: "'w SystemScheduler \<Rightarrow> 'w SystemScheduler" where
  "registerAll sched = ss_Register 5 sysInventory (ss_Register 4 sysQuest (ss_Register 3 sysAI
       (ss_Register 2 sysCombat (ss_Register 1 sysObject (ss_Register 0 sysWorld sched)))))"

lemma emptyScheduler_frame:
  "ss_systems emptyScheduler = []" "ss_dependencies emptyScheduler = []" "ss_parallelExecutor emptyScheduler = None"
  by (simp_all add: emptyScheduler_def)

lemma registerAll_empty: "sched_registered (registerAll emptyScheduler)"
proof -
  have empty: "sched_inv (emptyScheduler :: 'a SystemScheduler)" by (rule sched_inv_reachable [OF sched_init])
  have inv: "sched_inv s \<Longrightarrow> i \<noteq> kInvalidSystemTypeId \<Longrightarrow> sched_inv (ss_Register i sys s)"
    for s :: "'a SystemScheduler" and i sys
    by (rule sched_inv_step [OF _ sched_register])
  have "sched_inv (registerAll emptyScheduler :: 'a SystemScheduler)"
    unfolding registerAll_def by (intro inv empty) (simp_all add: kInvalidSystemTypeId_def)
  then show ?thesis
    by (simp add: sched_registered_def registerAll_def sched_Register_new emptyScheduler_frame gameSystems_def)
qed

lemma registerAll_again: "sched_registered s \<Longrightarrow> registerAll s = s"
  by (simp add: registerAll_def sched_registered_def gameSystems_def sched_Register_again)

lemma build_registered:
  assumes "sched_registered s"
  shows "\<exists>s'. ss_Build s = Some (True, s') \<and> sched_wired s'"
proof -
  have inv: "sched_inv s" using assms by (simp add: sched_registered_def)
  have "acyclic (depGraph s)" using assms by (simp add: sched_registered_def depGraph_def acyclic_def)
  then obtain s' where s': "ss_Build s = Some (True, s')" "sameCore s s'" "ss_built s'" "plan_ok s'"
    using ss_Build_spec [OF _ system_count_small [OF inv]] inv unfolding sched_inv_def by auto
  have "sched_inv s'" using sched_inv_core [OF inv s'(2)] s'(4) by simp
  then show ?thesis using s' assms by (simp add: sched_wired_def sched_registered_def sameCore_def)
qed

text \<open>The first wiring and every later one succeed with the same six systems.\<close>

lemma registerSystems_wired:
  assumes "s = emptyScheduler \<or> sched_registered s"
  shows "\<exists>s'. registerSystems s = Some (True, s') \<and> sched_wired s'"
  using build_registered [of "registerAll s"] registerAll_empty registerAll_again [of s] assms
  by (auto simp: registerSystems_def registerAll_def)

text \<open>A tick runs the systems of the three stages one after the other and leaves the plan alone.\<close>

lemma ss_Execute_wired:
  assumes "sched_wired s"
  shows "ss_Execute run dt s w = Some (s, fold (\<lambda>i. run i dt)
    (ss_GetExecutionOrder s PreUpdate @ ss_GetExecutionOrder s Update @ ss_GetExecutionOrder s PostUpdate) w)"
proof -
  have plan: "plan_ok s" and built: "ss_built s" and none: "ss_parallelExecutor s = None"
    and sys: "ss_systems s = gameSystems"
    using assms by (simp_all add: sched_wired_def sched_registered_def sched_inv_def)
  have ord: "set (ss_GetExecutionOrder s st) = {i. \<exists>e. map_of gameSystems i = Some e \<and> se_stage e = st}" for st
    using plan sys unfolding plan_ok_def by auto
  have en: "filter (ss_IsEnabled s) (ss_GetExecutionOrder s st) = ss_GetExecutionOrder s st" for st
    unfolding filter_id_conv ord by (auto simp: ss_IsEnabled_def sys gameSystems_def split: if_splits)
  have "set (ss_GetExecutionOrder s FixedUpdate) = {}"
    unfolding ord by (auto simp: gameSystems_def sysWorld_def sysObject_def sysCombat_def sysAI_def sysQuest_def
        sysInventory_def split: if_splits)
  then have fixed: "ss_GetExecutionOrder s FixedUpdate = []" by simp
  have "executeStage run s st dt w = Some (fold (\<lambda>i. run i dt) (ss_GetExecutionOrder s st) w)" for st w
    using executeStage_sequential [OF plan, of run st dt w] none en by simp
  then show ?thesis using built fixed by (simp add: ss_Execute_def)
qed


section \<open>Populated worlds\<close>

lemma pool_typed_lookup:
  assumes "cs_inv s"
  shows "pool_typed q s \<longleftrightarrow> (\<forall>k c. cs_lookup s k = Some c \<longrightarrow> poolOf c = q)"
proof
  assume typed: "pool_typed q s"
  show "\<forall>k c. cs_lookup s k = Some c \<longrightarrow> poolOf c = q"
  proof (intro allI impI)
    fix k c assume l: "cs_lookup s k = Some c"
    then have "k \<in> dom (cs_lookup s)" by auto
    then obtain i where "i < length (cs_dense s)" "k = unat (cs_entities s ! i)"
      using cs_dom_lookup [OF assms] cs_invD(1) [OF assms] by (auto simp: in_set_conv_nth)
    then show "poolOf c = q" using typed l cs_lookup_slot [OF assms] by (auto simp: pool_typed_def)
  qed
next
  assume "\<forall>k c. cs_lookup s k = Some c \<longrightarrow> poolOf c = q"
  then show "pool_typed q s"
    using cs_lookup_slot [OF assms] by (metis in_set_conv_nth pool_typed_def)
qed

lemma pools_ok_lookup:
  "pools_ok p \<longleftrightarrow> (\<forall>q. cs_inv (p q)) \<and> (\<forall>q k c. cs_lookup (p q) k = Some c \<longrightarrow> poolOf c = q)"
  using pool_typed_lookup by (auto simp: pools_ok_def)

lemma addComponents_ok:
  assumes "pools_ok p" "isValid e" "distinct (map poolOf cs)" "\<forall>c \<in> set cs. \<not> cs_Has (p (poolOf c)) e"
  shows "\<exists>p'. addComponents e cs p = Some p' \<and> pools_ok p'
    \<and> (\<forall>c \<in> set cs. cs_lookup (p' (poolOf c)) (eidx e) = Some c)
    \<and> (\<forall>q k. k \<noteq> eidx e \<or> q \<notin> poolOf ` set cs \<longrightarrow> cs_lookup (p' q) k = cs_lookup (p q) k)"
  using assms
proof (induction cs arbitrary: p)
  case (Cons c cs)
  obtain s where s: "cs_Add e c (p (poolOf c)) = Some s"
    using cs_Add_defined [of e c "p (poolOf c)"] Cons.prems(2,4) by auto
  define p1 where "p1 = p(poolOf c := s)"
  have inv: "cs_inv (p (poolOf c))" using pools_okD(1) [OF Cons.prems(1)] .
  note l = cs_Add_lookup [OF inv s]
  have ok: "pools_ok p1" using Cons.prems(1) cs_Add_inv [OF inv s] l by (auto simp: pools_ok_lookup p1_def)
  have "\<forall>c' \<in> set cs. \<not> cs_Has (p1 (poolOf c')) e" using Cons.prems(3,4) by (auto simp: p1_def image_iff)
  from Cons.IH [OF ok Cons.prems(2) _ this] Cons.prems(3) obtain p' where
    p': "addComponents e cs p1 = Some p'" "pools_ok p'"
      "\<forall>c' \<in> set cs. cs_lookup (p' (poolOf c')) (eidx e) = Some c'"
      "\<forall>q k. k \<noteq> eidx e \<or> q \<notin> poolOf ` set cs \<longrightarrow> cs_lookup (p' q) k = cs_lookup (p1 q) k"
    by auto
  have "cs_lookup (p' (poolOf c)) (eidx e) = Some c" using p'(4) l Cons.prems(3) by (simp add: p1_def)
  moreover have "cs_lookup (p' q) k = cs_lookup (p q) k" if "k \<noteq> eidx e \<or> q \<notin> poolOf ` set (c # cs)" for q k
    using that p'(4) l by (auto simp: p1_def)
  ultimately show ?case using s p'(1-3) by (simp add: addComponent_def flip: p1_def)
qed simp

lemma removeFromStorages_lookup:
  assumes "\<forall>q. cs_inv (h q)"
  shows "cs_lookup (removeFromStorages ps e h q) k =
    (if q \<in> set ps \<and> k = eidx e then None else cs_lookup (h q) k)"
  using assms
proof (induction ps arbitrary: h)
  case (Cons a ps)
  define h1 where "h1 = h(a := cs_Remove e (h a))"
  have "\<forall>q. cs_inv (h1 q)" using Cons.prems by (auto simp: h1_def intro: cs_Remove_inv)
  note IH = Cons.IH [OF this]
  have "removeFromStorages (a # ps) e h = removeFromStorages ps e h1" by (simp add: removeFromStorages_def h1_def)
  moreover have "cs_lookup (h1 q) k = (if q = a \<and> k = eidx e then None else cs_lookup (h q) k)" for q k
    using cs_Remove_lookup [of "h a" e] Cons.prems by (simp add: h1_def)
  ultimately show ?case using IH by simp
qed (simp add: removeFromStorages_def)

text \<open>The pools of a player and of a map, and a world whose live entities are exactly the given players and
  maps, each with exactly its components.\<close>

definition playerPools :: "nat set" where
  "playerPools = {pTransforms, pIdentities, pStats, pMovements, pMemberships, pQuestLogs, pInventories, pEquipment}"

definition populated :: "Entity list \<Rightarrow> Entity list \<Rightarrow> EntityManager \<times> GameComponent pools \<Rightarrow> bool" where
  "populated P M mp \<longleftrightarrow> em_inv (fst mp) \<and> pools_ok (snd mp) \<and> em_pendingDestroy (fst mp) = []
     \<and> distinct (P @ M) \<and> (\<forall>x. em_IsAlive (fst mp) x \<longleftrightarrow> x \<in> set P \<union> set M)
     \<and> (\<forall>q k. cs_lookup (snd mp q) k \<noteq> None \<longleftrightarrow>
          q \<in> playerPools \<and> k \<in> eidx ` set P \<or> q = pMapInstances \<and> k \<in> eidx ` set M)"

lemma populated_cong:
  "populated P M mp \<Longrightarrow> set P' = set P \<Longrightarrow> set M' = set M \<Longrightarrow> distinct P' \<Longrightarrow> distinct M' \<Longrightarrow> populated P' M' mp"
  by (simp add: populated_def)

lemma populated_snoc:
  "populated (e # P) M mp \<Longrightarrow> populated (P @ [e]) M mp" "populated P (e # M) mp \<Longrightarrow> populated P (M @ [e]) mp"
  by (simp_all add: populated_def ac_simps)

lemma populated_pools:
  "populated P M (m, p) \<Longrightarrow> pools_ok p' \<Longrightarrow> (\<And>q k. cs_lookup (p' q) k = None \<longleftrightarrow> cs_lookup (p q) k = None) \<Longrightarrow> populated P M (m, p')"
  by (simp add: populated_def)

lemma populated_frame:
  assumes "populated P M (m, p)" "pools_frame p p'"
  shows "populated P M (m, p')"
proof -
  have inv: "\<And>q. cs_inv (p q)" "\<And>q. cs_inv (p' q)"
    using assms pools_okD(1) by (auto simp: populated_def pools_frame_def)
  have "cs_lookup (p' q) k = None \<longleftrightarrow> cs_lookup (p q) k = None" for q k
    using assms(2) lookup_id [OF inv(1), of q k] lookup_id [OF inv(2), of q k]
    unfolding pools_frame_def cs_Has_lookup by metis
  then show ?thesis using populated_pools [OF assms(1)] assms(2) by (simp add: pools_frame_def)
qed

lemma populated_flush: "populated P M (m, p) \<Longrightarrow> em_FlushDeferred (m, p) = (m, p)"
  by (cases m) (simp add: populated_def em_FlushDeferred_def Let_def)

lemma populated_quiet: "populated P M (m, wd_pools w) \<Longrightarrow> quiet w"
  by (simp add: quiet_def populated_def cs_Has_lookup playerPools_def)

lemma populatedD:
  assumes "populated P M (m, p)"
  shows "em_inv m" "pools_ok p" "distinct (P @ M)" "em_IsAlive m x \<longleftrightarrow> x \<in> set P \<union> set M"
    "cs_lookup (p q) k = None \<longleftrightarrow> \<not> (q \<in> playerPools \<and> k \<in> eidx ` set P \<or> q = pMapInstances \<and> k \<in> eidx ` set M)"
  using assms unfolding populated_def fst_conv snd_conv by blast+

lemma populatedI:
  assumes "em_inv m" "pools_ok p" "em_pendingDestroy m = []" "distinct (P @ M)"
    "\<And>x. em_IsAlive m x \<longleftrightarrow> x \<in> set P \<union> set M"
    "\<And>q k. cs_lookup (p q) k = None \<longleftrightarrow> \<not> (q \<in> playerPools \<and> k \<in> eidx ` set P \<or> q = pMapInstances \<and> k \<in> eidx ` set M)"
  shows "populated P M (m, p)"
  by (simp only: populated_def fst_conv snd_conv assms simp_thms)

text \<open>Ids of live entities tell them apart.\<close>

lemma populated_ids:
  assumes "populated P M (m, p)" "x \<in> set P \<union> set M" "y \<in> set P \<union> set M" "eidx x = eidx y"
  shows "x = y"
  using assms alive_unique [of m x y] by (simp add: populated_def word_eq_unat_iff)

lemma populated_create:
  assumes pop: "populated P M (m, p)" and cr: "em_Create m = Some (e, m')"
  shows "isValid e" "e \<notin> set P \<union> set M" "eidx e \<notin> eidx ` (set P \<union> set M)" "em_inv m'"
    "em_pendingDestroy m' = []" "em_IsAlive m' x \<longleftrightarrow> x = e \<or> x \<in> set P \<union> set M"
    "cs_lookup (p q) (eidx e) = None" "em_storages m' = em_storages m"
proof -
  have inv: "em_inv m" and al: "\<And>x. em_IsAlive m x \<longleftrightarrow> x \<in> set P \<union> set M"
    using pop by (simp_all add: populated_def)
  note C = em_Create_IsAlive [OF inv cr]
  show inv': "em_inv m'" using em_Create_inv [OF inv cr] .
  show "isValid e" using C(1) [of e] by (auto simp: em_IsAlive_def split: if_splits)
  show fresh: "e \<notin> set P \<union> set M" using C(2) al by simp
  show ids: "eidx e \<notin> eidx ` (set P \<union> set M)"
    using alive_unique [OF inv', of e] C(1) al fresh by (auto simp: word_eq_unat_iff)
  show "em_IsAlive m' x \<longleftrightarrow> x = e \<or> x \<in> set P \<union> set M" using C(1) al by auto
  show "cs_lookup (p q) (eidx e) = None"
    using ids unfolding populatedD(5) [OF pop] image_Un by blast
  show "em_pendingDestroy m' = []" "em_storages m' = em_storages m"
    using inv cr pop by (cases rule: em_Create_cases; simp add: populated_def)+
qed

lemma populated_add_player:
  assumes pop: "populated P M (m, p)" and cr: "em_Create m = Some (e, m')"
    and cs: "distinct (map poolOf cs)" "poolOf ` set cs = playerPools"
  shows "\<exists>p'. addComponents e cs p = Some p' \<and> populated (e # P) M (m', p')
    \<and> (\<forall>c \<in> set cs. cs_lookup (p' (poolOf c)) (eidx e) = Some c)
    \<and> (\<forall>q k. k \<noteq> eidx e \<or> q \<notin> playerPools \<longrightarrow> cs_lookup (p' q) k = cs_lookup (p q) k)"
proof -
  note C = populated_create [OF pop cr]
  have ok: "pools_ok p" using pop by (simp add: populated_def)
  have none: "\<forall>c \<in> set cs. \<not> cs_Has (p (poolOf c)) e" using C(7) by (simp add: cs_Has_lookup)
  obtain p' where p': "addComponents e cs p = Some p'" "pools_ok p'"
    "\<forall>c \<in> set cs. cs_lookup (p' (poolOf c)) (eidx e) = Some c"
    "\<forall>q k. k \<noteq> eidx e \<or> q \<notin> playerPools \<longrightarrow> cs_lookup (p' q) k = cs_lookup (p q) k"
    using addComponents_ok [OF ok C(1) cs(1) none] unfolding cs(2) by blast
  have new: "cs_lookup (p' q) (eidx e) \<noteq> None" if "q \<in> playerPools" for q
    using that p'(3) unfolding cs(2) [symmetric] by auto
  have "populated (e # P) M (m', p')"
  proof (rule populatedI)
    show "cs_lookup (p' q) k = None \<longleftrightarrow>
      \<not> (q \<in> playerPools \<and> k \<in> eidx ` set (e # P) \<or> q = pMapInstances \<and> k \<in> eidx ` set M)" for q k
    proof (cases "k = eidx e \<and> q \<in> playerPools")
      case False
      then have "cs_lookup (p' q) k = cs_lookup (p q) k" using p'(4) by blast
      then show ?thesis using False populatedD(5) [OF pop, of q k] by auto
    qed (use new in auto)
  qed (use C(2,4-6) p'(2) populatedD(3) [OF pop] in auto)
  then show ?thesis using p' by blast
qed

lemma populated_add_map:
  assumes pop: "populated P M (m, p)" and cr: "em_Create m = Some (e, m')" and c: "poolOf c = pMapInstances"
  shows "\<exists>p'. addComponent e c p = Some p' \<and> populated P (e # M) (m', p')
    \<and> cs_lookup (p' pMapInstances) (eidx e) = Some c
    \<and> (\<forall>q k. k \<noteq> eidx e \<or> q \<noteq> pMapInstances \<longrightarrow> cs_lookup (p' q) k = cs_lookup (p q) k)"
proof -
  note C = populated_create [OF pop cr]
  have ok: "pools_ok p" using pop by (simp add: populated_def)
  obtain p' where p': "addComponents e [c] p = Some p'" "pools_ok p'"
    "cs_lookup (p' pMapInstances) (eidx e) = Some c"
    "\<forall>q k. k \<noteq> eidx e \<or> q \<noteq> pMapInstances \<longrightarrow> cs_lookup (p' q) k = cs_lookup (p q) k"
    using addComponents_ok [OF ok C(1), of "[c]"] C(7) c by (auto simp: cs_Has_lookup)
  have "populated P (e # M) (m', p')"
  proof (rule populatedI)
    show "cs_lookup (p' q) k = None \<longleftrightarrow>
      \<not> (q \<in> playerPools \<and> k \<in> eidx ` set P \<or> q = pMapInstances \<and> k \<in> eidx ` set (e # M))" for q k
    proof (cases "k = eidx e \<and> q = pMapInstances")
      case False
      then have "cs_lookup (p' q) k = cs_lookup (p q) k" using p'(4) by blast
      then show ?thesis using False populatedD(5) [OF pop, of q k] by auto
    qed (use p'(3) in auto)
  qed (use C(2,4-6) p'(2) populatedD(3) [OF pop] in auto)
  moreover have "addComponent e c p = Some p'" using p'(1) by (cases "addComponent e c p") auto
  ultimately show ?thesis using p'(3,4) by blast
qed

lemma em_Destroy_lookup:
  assumes "world_inv (m, p)" "em_IsAlive m e"
  shows "cs_lookup (snd (em_Destroy e (m, p)) q) k =
    (if q \<in> set (em_storages m) \<and> k = eidx e then None else cs_lookup (p q) k)"
  using assms removeFromStorages_lookup [of p] by (simp add: em_Destroy_def destroyInternal_snd world_inv_def)

lemma populated_destroy:
  assumes pop: "populated P M (m, p)" and e: "e \<in> set P \<union> set M" and wired: "{0..<18} \<subseteq> set (em_storages m)"
  shows "populated (remove1 e P) (remove1 e M) (em_Destroy e (m, p))"
    "em_storages (fst (em_Destroy e (m, p))) = em_storages m"
    "k \<noteq> eidx e \<Longrightarrow> cs_lookup (snd (em_Destroy e (m, p)) q) k = cs_lookup (p q) k"
proof -
  have wi: "world_inv (m, p)" using pop pools_okD(1) by (auto simp: populated_def world_inv_def)
  have al: "em_IsAlive m e" using pop e by (simp add: populated_def)
  let ?d = "em_Destroy e (m, p)"
  note L = em_Destroy_lookup [OF wi al]
  have wi': "world_inv ?d" using em_Destroy_world_inv [OF wi] .
  have dist: "distinct P" "distinct M" "set P \<inter> set M = {}" using pop by (auto simp: populated_def)
  have rem: "x \<in> set (remove1 e P) \<longleftrightarrow> x \<in> set P \<and> x \<noteq> e" "x \<in> set (remove1 e M) \<longleftrightarrow> x \<in> set M \<and> x \<noteq> e" for x
    using dist by (auto simp: set_remove1_eq)
  have ids: "k \<in> eidx ` set (remove1 e A) \<longleftrightarrow> k \<in> eidx ` set A \<and> k \<noteq> eidx e" if "A = P \<or> A = M" for A k
    using that populated_ids [OF pop _ e] rem by (auto simp: image_iff)
  have small: "q \<in> set (em_storages m)" if "q \<in> playerPools \<or> q = pMapInstances" for q
    using that wired by (auto simp: playerPools_def)
  have "cs_lookup (snd ?d q) k = None \<longleftrightarrow> \<not> (q \<in> playerPools \<and> k \<in> eidx ` set (remove1 e P)
      \<or> q = pMapInstances \<and> k \<in> eidx ` set (remove1 e M))" for q k
    unfolding L ids [of P, simplified] ids [of M, simplified] using populatedD(5) [OF pop, of q k] small [of q] by auto
  moreover have "pools_ok (snd ?d)"
    using wi' pop L by (auto simp: pools_ok_lookup world_inv_def populated_def)
  moreover have "em_IsAlive (fst ?d) x \<longleftrightarrow> x \<in> set (remove1 e P) \<union> set (remove1 e M)" for x
    using em_Destroy_IsAlive [OF wi, of e x] pop rem by (auto simp: populated_def)
  ultimately have "populated (remove1 e P) (remove1 e M) (fst ?d, snd ?d)"
    using pop dist wi' rem by (intro populatedI) (auto simp: populated_def world_inv_def)
  then show "populated (remove1 e P) (remove1 e M) ?d" by simp
  show "em_storages (fst ?d) = em_storages m" by simp
  show "k \<noteq> eidx e \<Longrightarrow> cs_lookup (snd ?d q) k = cs_lookup (p q) k" using L by simp
qed

section \<open>The invariant of the server\<close>

text \<open>Tables whose values are mapped.\<close>

lemma update_new: "map_of l k = None \<Longrightarrow> AList.update k v l = l @ [(k, v)]"
  by (induction l) auto

lemma map_delete: "map (\<lambda>(k, v). (k, g v)) (AList.delete k l) = AList.delete k (map (\<lambda>(k, v). (k, g v)) l)"
  by (induction l) auto

lemma map_update: "map (\<lambda>(k, v). (k, g v)) (AList.update k v l) = AList.update k (g v) (map (\<lambda>(k, v). (k, g v)) l)"
  by (induction l) auto

lemma map_of_table: "map_of (map (\<lambda>(k, v). (k, g v)) l) k = map_option g (map_of l k)"
  by (induction l) auto

lemma vals_update: "map_of l k = Some v \<Longrightarrow> g v' = g v \<Longrightarrow> map (g \<circ> snd) (AList.update k v' l) = map (g \<circ> snd) l"
  by (induction l) auto

lemma vals_delete:
  assumes "umap_wf l" "map_of l k = Some v" "distinct (map (g \<circ> snd) l)"
  shows "map (g \<circ> snd) (AList.delete k l) = remove1 (g v) (map (g \<circ> snd) l)"
  using assms
proof (induction l)
  case (Cons a l)
  obtain x y where a: "a = (x, y)" by fastforce
  show ?case
  proof (cases "x = k")
    case True
    then have "k \<notin> fst ` set l" using Cons.prems(1) a by (simp add: umap_wf_def)
    then show ?thesis using True Cons.prems(2) a by (simp add: delete_id)
  next
    case False
    then have v: "map_of l k = Some v" using Cons.prems(2) a by simp
    have "g v \<in> (g \<circ> snd) ` set l" using map_of_SomeD [OF v] by (intro image_eqI [of _ _ "(k, v)"]) auto
    moreover have "g y \<notin> (g \<circ> snd) ` set l" using Cons.prems(3) a by simp
    ultimately have "g y \<noteq> g v" by metis
    then show ?thesis using False v Cons a by (simp add: umap_wf_def)
  qed
qed simp

lemma vals_inj:
  assumes "distinct (map (g \<circ> snd) l)" "map_of l j = Some a" "map_of l i = Some b" "g a = g b"
  shows "j = i"
  using inj_onD [of "g \<circ> snd" "set l" "(j, a)" "(i, b)"] assms by (auto simp: distinct_map dest: map_of_SomeD)

definition sessionTable :: "(PlayerId, PlayerSession) umap \<Rightarrow> (PlayerId \<times> u32) list" where
  "sessionTable sessions = map (\<lambda>(k, v). (k, ps_instanceId v)) sessions"

definition playerEntities :: "GameServer \<Rightarrow> Entity list" where
  "playerEntities s = map (ps_entity \<circ> snd) (gs_playerSessions s)"

definition mapEntities :: "GameServer \<Rightarrow> Entity list" where
  "mapEntities s = map snd (gs_instanceEntities s)"

lemma mapEntities_mem: "map_of (gs_instanceEntities s) i = Some e \<Longrightarrow> e \<in> set (mapEntities s)"
  by (auto simp: mapEntities_def image_iff dest!: map_of_SomeD intro!: bexI [of _ "(i, e)"])

lemma playerEntities_mem: "map_of (gs_playerSessions s) k = Some v \<Longrightarrow> ps_entity v \<in> set (playerEntities s)"
  by (auto simp: playerEntities_def image_iff dest!: map_of_SomeD intro!: bexI [of _ "(k, v)"])

text \<open>Before the first start or tick nothing is wired; afterwards the plan is built, every pool is
  registered and the loop has its callback.\<close>

definition wired :: "GameServer \<Rightarrow> bool" where
  "wired s \<longleftrightarrow> ss_SystemCount (gs_scheduler s) \<noteq> 0"

definition wiring_ok :: "GameServer \<Rightarrow> bool" where
  "wiring_ok s \<longleftrightarrow> (if wired s
     then sched_wired (gs_scheduler s) \<and> {0..<18} \<subseteq> set (em_storages (gs_entities s)) \<and> gl_hasTickCallback (gs_loop s)
     else gs_scheduler s = emptyScheduler \<and> \<not> gl_isRunning (gs_loop s))"

text \<open>Every session belongs to its player and its entity is a member of the map of its instance.\<close>

definition sessions_ok :: "(PlayerId, PlayerSession) umap \<Rightarrow> (u32, Entity) umap \<Rightarrow> GameComponent pools \<Rightarrow> bool" where
  "sessions_ok sessions maps p \<longleftrightarrow> (\<forall>k v. map_of sessions k = Some v \<longrightarrow> ps_playerId v = k
     \<and> (\<exists>e. map_of maps (ps_instanceId v) = Some e
          \<and> cs_lookup (p pMemberships) (eidx (ps_entity v)) = Some (CMembership \<lparr>mm_mapEntity = e, mm_zoneId = 0\<rparr>)))"

text \<open>Instances and map entities correspond.\<close>

definition maps_ok :: "(u32, Entity) umap \<Rightarrow> MapInstanceManager \<Rightarrow> GameComponent pools \<Rightarrow> bool" where
  "maps_ok maps im p \<longleftrightarrow> umap_wf maps \<and> (\<forall>i. map_of maps i = None \<longleftrightarrow> map_of (im_instances im) i = None)
     \<and> (\<forall>i e info. map_of maps i = Some e \<longrightarrow> map_of (im_instances im) i = Some info \<longrightarrow>
          cs_lookup (p pMapInstances) (eidx e)
            = Some (CMapInstance \<lparr>mi_mapId = mp_mapId info, mi_instanceId = i, mi_type = OpenWorld\<rparr>))"

definition gs_inv :: "GameServer \<Rightarrow> bool" where
  "gs_inv s \<longleftrightarrow> populated (playerEntities s) (mapEntities s) (gs_entities s, wd_pools (gs_world s))
     \<and> wiring_ok s
     \<and> slots.counted (sessionTable (gs_playerSessions s)) (gs_instanceManager s)
     \<and> sessions_ok (gs_playerSessions s) (gs_instanceEntities s) (wd_pools (gs_world s))
     \<and> maps_ok (gs_instanceEntities s) (gs_instanceManager s) (wd_pools (gs_world s))
     \<and> gs_playersJoined s = gs_playersLeft s + word_of_nat (length (gs_playerSessions s))"

lemma sessionTable_simps:
  "sessionTable (AList.delete k l) = AList.delete k (sessionTable l)"
  "sessionTable (AList.update k v l) = AList.update k (ps_instanceId v) (sessionTable l)"
  "map_of (sessionTable l) k = map_option ps_instanceId (map_of l k)"
  "map fst (sessionTable l) = map fst l"
  by (simp_all add: sessionTable_def map_delete map_update map_of_table case_prod_beta comp_def)

lemma sessions_wf: "gs_inv s \<Longrightarrow> umap_wf (gs_playerSessions s)"
  using sessionTable_simps(4) [of "gs_playerSessions s"] by (simp add: gs_inv_def slots.counted_def umap_wf_def)

lemma gs_inv_init: "gs_inv (mkGameServer config trees guids)"
proof -
  have "slots.counted [] (mkMapInstanceManager n)" for n
    using im_inv_mk [of n] by (simp add: slots.counted_def im_occupancy_def mkMapInstanceManager_def)
  moreover have "\<not> em_IsAlive emptyManager x" for x by (simp add: em_IsAlive_def emptyManager_def)
  ultimately show ?thesis
    by (simp add: gs_inv_def mkGameServer_def playerEntities_def mapEntities_def wiring_ok_def wired_def
        populated_def sessions_ok_def maps_ok_def sessionTable_def pools_ok_def pool_typed_def
        ss_SystemCount_def emptyScheduler_frame mkMapInstanceManager_def gl_isRunning_def mkGameLoop_def Let_def)
       (simp add: emptyManager_def emptyStorage_def)
qed

section \<open>Every call keeps the invariant\<close>

text \<open>Wiring, ticks, start and stop.\<close>

lemma storages_registered: "em_storages (registerStorages m) = em_storages m @ [0..<18]"
  by (simp add: registerStorages_def em_RegisterStorage_def upt_rec)

lemma registerStorages_frame:
  "em_inv (registerStorages m) = em_inv m" "em_pendingDestroy (registerStorages m) = em_pendingDestroy m"
  "em_IsAlive (registerStorages m) e = em_IsAlive m e" "em_count (registerStorages m) = em_count m"
  by (simp_all add: registerStorages_def em_RegisterStorage_def em_inv_def em_IsAlive_def)

lemma populated_registerStorages: "populated P M (m, p) \<Longrightarrow> populated P M (registerStorages m, p)"
  by (simp add: populated_def registerStorages_frame)

lemma gs_wire_inv:
  assumes "gs_inv s"
  shows "\<exists>s'. gs_wire s = Some (True, s') \<and> gs_inv (s'\<lparr>gs_loop := gl_setTickCallback (gs_loop s')\<rparr>)
    \<and> gs_loop s' = gs_loop s \<and> wired s'"
proof -
  have "gs_scheduler s = emptyScheduler \<or> sched_registered (gs_scheduler s)"
    using assms by (auto simp: gs_inv_def wiring_ok_def sched_wired_def split: if_splits)
  then obtain sched where r: "registerSystems (gs_scheduler s) = Some (True, sched)" "sched_wired sched"
    using registerSystems_wired by blast
  let ?s = "s\<lparr>gs_entities := registerStorages (gs_entities s), gs_scheduler := sched\<rparr>"
  have w: "ss_SystemCount sched \<noteq> 0"
    using r(2) by (simp add: sched_wired_def sched_registered_def ss_SystemCount_def gameSystems_def)
  have "gs_inv (?s\<lparr>gs_loop := gl_setTickCallback (gs_loop ?s)\<rparr>)"
    using assms r(2) w
    by (simp add: gs_inv_def playerEntities_def mapEntities_def populated_registerStorages wiring_ok_def wired_def
        storages_registered gl_setTickCallback_def)
  then show ?thesis using r(1) w by (simp add: gs_wire_def wired_def)
qed

text \<open>What a tick may change: the pools within their frame, the world's own state and the loop.\<close>

definition tick_frame :: "GameServer \<Rightarrow> GameServer \<Rightarrow> bool" where
  "tick_frame s s' \<longleftrightarrow> (\<exists>w l. s' = s\<lparr>gs_world := w, gs_loop := l\<rparr> \<and> pools_frame (wd_pools (gs_world s)) (wd_pools w)
     \<and> gl_hasTickCallback l = gl_hasTickCallback (gs_loop s) \<and> gl_isRunning l = gl_isRunning (gs_loop s))"

lemma gs_callback_frame:
  assumes "gs_inv s" "wired s"
  shows "\<exists>s'. gs_callback srt dt s = Some s' \<and> tick_frame s s'"
proof -
  have sw: "sched_wired (gs_scheduler s)" using assms by (simp add: gs_inv_def wiring_ok_def)
  have pop: "populated (playerEntities s) (mapEntities s) (gs_entities s, wd_pools (gs_world s))"
    using assms(1) by (simp add: gs_inv_def)
  let ?is = "ss_GetExecutionOrder (gs_scheduler s) PreUpdate @ ss_GetExecutionOrder (gs_scheduler s) Update
    @ ss_GetExecutionOrder (gs_scheduler s) PostUpdate"
  obtain w where w: "fold (\<lambda>i. runSystem srt i dt) ?is (Some (gs_world s)) = Some w"
    "pools_frame (wd_pools (gs_world s)) (wd_pools w)"
    using fold_runSystem_quiet [OF populated_quiet [OF pop]] by blast
  have "em_FlushDeferred (gs_entities s, wd_pools w) = (gs_entities s, wd_pools w)"
    using populated_flush [OF populated_frame [OF pop w(2)]] .
  then have "gs_callback srt dt s = Some (s\<lparr>gs_world := w, gs_loop := gs_loop s\<rparr>)"
    using ss_Execute_wired [OF sw, of "runSystem srt" dt "Some (gs_world s)"] w(1) by (simp add: gs_callback_def)
  then show ?thesis using w(2) unfolding tick_frame_def by blast
qed

lemma sessions_ok_frame: "sessions_ok l maps p \<Longrightarrow> cs_lookup (p' pMemberships) = cs_lookup (p pMemberships) \<Longrightarrow> sessions_ok l maps p'"
  by (simp add: sessions_ok_def)

lemma maps_ok_frame: "maps_ok l im p \<Longrightarrow> cs_lookup (p' pMapInstances) = cs_lookup (p pMapInstances) \<Longrightarrow> maps_ok l im p'"
  by (simp add: maps_ok_def)

lemma tick_frame_inv:
  assumes "gs_inv s" "tick_frame s s'"
  shows "gs_inv s'"
proof -
  obtain w l where s': "s' = s\<lparr>gs_world := w, gs_loop := l\<rparr>" and fr: "pools_frame (wd_pools (gs_world s)) (wd_pools w)"
    and l: "gl_hasTickCallback l = gl_hasTickCallback (gs_loop s)" "gl_isRunning l = gl_isRunning (gs_loop s)"
    using assms(2) by (auto simp: tick_frame_def)
  have "cs_lookup (wd_pools w pMemberships) = cs_lookup (wd_pools (gs_world s) pMemberships)"
    "cs_lookup (wd_pools w pMapInstances) = cs_lookup (wd_pools (gs_world s) pMapInstances)"
    using fr by (simp_all add: pools_frame_def steady_def)
  then show ?thesis
    using assms(1) l populated_frame [OF _ fr] sessions_ok_frame maps_ok_frame
    by (auto simp: gs_inv_def s' playerEntities_def mapEntities_def wiring_ok_def wired_def split: if_splits)
qed

lemma tick_frame_loop:
  assumes "tick_frame s s'" "gl_hasTickCallback l = gl_hasTickCallback (gs_loop s)" "gl_isRunning l = gl_isRunning (gs_loop s)"
  shows "tick_frame s (s'\<lparr>gs_loop := l\<rparr>)"
  using assms by (fastforce simp: tick_frame_def)

lemma gs_loopTick_frame:
  assumes "gs_inv s" "wired s"
  shows "\<exists>s'. gs_loopTick srt t0 t1 s = Some s' \<and> tick_frame s s'"
proof -
  obtain s' where s': "gs_callback srt (dtSeconds (gs_loop s)) s = Some s'" "tick_frame s s'"
    using gs_callback_frame [OF assms] by blast
  have cb: "gl_hasTickCallback (gs_loop s)" using assms by (simp add: gs_inv_def wiring_ok_def)
  then have "gs_loopTick srt t0 t1 s = Some (s'\<lparr>gs_loop := (gs_loop s)\<lparr>gl_tickCount := gl_tickCount (gs_loop s) + 1\<rparr>\<rparr>)"
    using s'(1) by (simp add: gs_loopTick_def gl_tick_def gl_executeTick_def Let_def)
  then show ?thesis using tick_frame_loop [OF s'(2)] by (simp add: gl_isRunning_def)
qed

lemma gs_iterate_frame:
  assumes "gs_inv s" "wired s"
  shows "\<exists>s'. gs_iterate srt r s = Some s' \<and> tick_frame s s'"
proof -
  obtain s' where s': "gs_callback srt (dtSeconds (gs_loop s)) s = Some s'" "tick_frame s s'"
    using gs_callback_frame [OF assms] by blast
  let ?cb = "\<lambda>dt w. Option.bind w (gs_callback srt dt)"
  obtain ms l w where it: "gl_iterate ?cb r (gs_loop s) (Some s) = (ms, l, w)" by (cases "gl_iterate ?cb r (gs_loop s) (Some s)")
  have "w = Some s'"
    using gl_iterate_world [of ?cb r "gs_loop s" "Some s"] it s'(1) assms by (simp add: gs_inv_def wiring_ok_def)
  moreover have "gl_hasTickCallback l = gl_hasTickCallback (gs_loop s)" "gl_isRunning l = gl_isRunning (gs_loop s)"
    using gl_iterate_frame [of ?cb r "gs_loop s" "Some s"] it by (simp_all add: gl_isRunning_def)
  ultimately show ?thesis using it tick_frame_loop [OF s'(2)] by (auto simp: gs_iterate_def)
qed

text \<open>A manual tick always returns: it is refused while the loop runs, and otherwise wires the server if
  that is still to be done and runs one tick.\<close>

lemma gs_tick_cases:
  assumes "gs_inv s"
  obtains (refused) "gl_isRunning (gs_loop s)"
      "gs_tick srt t0 t1 s = Some (err GameLoopAlreadyRunning ''cannot tick manually while game loop is running'', s)"
    | (ticked) s0 s' where "\<not> gl_isRunning (gs_loop s)" "gs_tick srt t0 t1 s = Some (Inr (), s')" "gs_inv s0" "wired s0"
        "tick_frame s0 s'" "gs_world s0 = gs_world s" "gs_playerSessions s0 = gs_playerSessions s"
        "gs_instanceEntities s0 = gs_instanceEntities s" "gs_instanceManager s0 = gs_instanceManager s"
proof (cases "gl_isRunning (gs_loop s)")
  case True
  then show ?thesis by (intro refused) (simp_all add: gs_tick_def)
next
  case idle: False
  show ?thesis
  proof (cases "wired s")
    case True
    obtain s' where "gs_loopTick srt t0 t1 s = Some s'" "tick_frame s s'" using gs_loopTick_frame [OF assms True] by blast
    then show ?thesis using ticked [OF idle, of s' s] idle True assms by (simp add: gs_tick_def wired_def)
  next
    case False
    obtain s1 where s1: "gs_wire s = Some (True, s1)" "gs_inv (s1\<lparr>gs_loop := gl_setTickCallback (gs_loop s1)\<rparr>)"
        "gs_loop s1 = gs_loop s" "wired s1"
      using gs_wire_inv [OF assms] by blast
    let ?s = "s1\<lparr>gs_loop := gl_setTickCallback (gs_loop s1)\<rparr>"
    have w: "wired ?s" using s1(4) by (simp add: wired_def)
    obtain s' where "gs_loopTick srt t0 t1 ?s = Some s'" "tick_frame ?s s'" using gs_loopTick_frame [OF s1(2) w] by blast
    then show ?thesis
      using ticked [OF idle, of s' ?s] idle False s1 w by (auto simp: gs_tick_def wired_def gs_wire_def)
  qed
qed

lemma gs_tick_inv:
  assumes "gs_inv s" "gs_tick srt t0 t1 s = Some (r, s')"
  shows "gs_inv s'"
  using gs_tick_cases [OF assms(1), of srt t0 t1] assms by (cases) (auto intro: tick_frame_inv)

lemma gs_inv_loop:
  "gs_inv s \<Longrightarrow> wired s \<Longrightarrow> gl_hasTickCallback l \<Longrightarrow> gs_inv (s\<lparr>gs_loop := l\<rparr>)"
  "gs_inv s \<Longrightarrow> \<not> gl_isRunning l \<Longrightarrow> gl_hasTickCallback l = gl_hasTickCallback (gs_loop s) \<Longrightarrow> gs_inv (s\<lparr>gs_loop := l\<rparr>)"
  by (auto simp: gs_inv_def playerEntities_def mapEntities_def wiring_ok_def wired_def)

lemma gs_start_cases:
  assumes "gs_inv s"
  obtains (refused) "gl_isRunning (gs_loop s)"
      "gs_start now s = Some (err GameLoopAlreadyRunning ''game server is already running'', s)"
    | (started) s' where "\<not> gl_isRunning (gs_loop s)" "gs_start now s = Some (Inr (), s')" "gs_inv s'" "wired s'"
        "gl_isRunning (gs_loop s')"
proof (cases "gl_isRunning (gs_loop s)")
  case True
  then show ?thesis by (intro refused) (simp_all add: gs_start_def)
next
  case False
  obtain s1 where s1: "gs_wire s = Some (True, s1)" "gs_inv (s1\<lparr>gs_loop := gl_setTickCallback (gs_loop s1)\<rparr>)"
      "gs_loop s1 = gs_loop s" "wired s1"
    using gs_wire_inv [OF assms] by blast
  let ?l = "(gl_setTickCallback (gs_loop s))\<lparr>gl_running := True, gl_nextTick := now\<rparr>"
  have "gs_inv (s1\<lparr>gs_loop := ?l\<rparr>)"
    using gs_inv_loop(1) [OF s1(2), of ?l] s1(4) by (simp add: wired_def gl_setTickCallback_def)
  moreover have "gs_start now s = Some (Inr (), s1\<lparr>gs_loop := ?l\<rparr>)"
    using False s1(1,3) by (simp add: gs_start_def gl_start_def gl_isRunning_def gl_setTickCallback_def)
  ultimately show ?thesis using started [of "s1\<lparr>gs_loop := ?l\<rparr>"] False s1(4) by (simp add: wired_def gl_isRunning_def)
qed

lemma gs_start_inv:
  assumes "gs_inv s" "gs_start now s = Some (r, s')"
  shows "gs_inv s'"
  using gs_start_cases [OF assms(1), of now] assms by (cases) auto

lemma gs_stop_inv: "gs_inv s \<Longrightarrow> gs_inv (gs_stop s)"
  by (simp add: gs_stop_def gs_inv_loop gl_stop_def gl_isRunning_def)

text \<open>Instances.\<close>

lemma wiring_frame:
  assumes "wiring_ok s" "gs_scheduler s' = gs_scheduler s" "gs_loop s' = gs_loop s"
    "em_storages (gs_entities s') = em_storages (gs_entities s)"
  shows "wiring_ok s'"
  using assms by (simp add: wiring_ok_def wired_def)

lemma counted_fresh_instance:
  assumes "slots.counted l im" "map_of (im_instances im) i = None" "im_inv im'"
    "im_instances im' = AList.update i info (im_instances im)" "mp_playerCount info = 0"
  shows "slots.counted l im'"
proof -
  have none: "sessionsIn l i = 0"
  proof -
    have "snd x \<noteq> i" if "x \<in> set l" for x
    proof
      assume "snd x = i"
      then have "map_of l (fst x) = Some i" using assms(1) that umap_mem_iff [of l "fst x" i] by (cases x) (simp add: slots.counted_def)
      then have "im_occupancy im i \<noteq> None" using assms(1) unfolding slots.counted_def by blast
      then show False using assms(2) by (simp add: im_occupancy_def)
    qed
    then show ?thesis by (simp add: sessionsIn_def filter_empty_conv)
  qed
  have occ: "im_occupancy im' = (im_occupancy im)(i \<mapsto> 0)"
    using assms(4,5) by (auto simp: im_occupancy_def update_conv')
  show ?thesis
    using assms(1,3) none by (auto simp: slots.counted_def occ)
qed

lemma gs_createInstance_inv:
  assumes inv: "gs_inv s" and room: "im_room (gs_instanceManager s)"
    and c: "gs_createInstance mapId n now s = Some (r, s')"
  shows "gs_inv s'"
proof (cases "fst (im_createInstance mapId OpenWorld n now (gs_instanceManager s))")
  case (Inl e)
  then show ?thesis using c inv by (cases "im_createInstance mapId OpenWorld n now (gs_instanceManager s)") (auto simp: gs_createInstance_def)
next
  case (Inr j)
  let ?im = "gs_instanceManager s" and ?p = "wd_pools (gs_world s)"
  define i where "i = im_nextInstanceId ?im"
  define info where "info = \<lparr>mp_instanceId = i, mp_mapId = mapId, mp_type = OpenWorld, mp_state = InstanceState.Active,
     mp_playerCount = 0, mp_maxPlayers = n, mp_createdAt = now\<rparr>"
  have counted: "slots.counted (sessionTable (gs_playerSessions s)) ?im" using inv by (simp add: gs_inv_def)
  have iminv: "im_inv ?im" using counted by (simp add: slots.counted_def)
  have fresh: "map_of (im_instances ?im) i = None"
    using iminv unfolding im_inv_def i_def by (metis not_Some_eq order_less_irrefl)
  define im where "im = ?im\<lparr>im_nextInstanceId := i + 1, im_instances := AList.update i info (im_instances ?im)\<rparr>"
  have cr: "im_createInstance mapId OpenWorld n now ?im = (Inr i, im)"
    using Inr fresh by (auto simp: im_createInstance_def Let_def emplace_def im_def i_def info_def split: if_splits)
  have iminv': "im_inv im" using im_createInstance_inv [OF iminv room, of mapId OpenWorld n now] cr by simp
  have counted': "slots.counted (sessionTable (gs_playerSessions s)) im"
    using counted_fresh_instance [OF counted fresh iminv'] by (simp add: im_def info_def)
  let ?c = "CMapInstance \<lparr>mi_mapId = mapId, mi_instanceId = i, mi_type = OpenWorld\<rparr>"
  obtain e m p where em: "em_Create (gs_entities s) = Some (e, m)" and ap: "addComponent e ?c ?p = Some p"
    and s': "s' = s\<lparr>gs_instanceManager := im, gs_entities := m, gs_world := (gs_world s)\<lparr>wd_pools := p\<rparr>,
              gs_instanceEntities := emplace i e (gs_instanceEntities s)\<rparr>"
    using c cr by (auto simp: gs_createInstance_def split: Option.bind_splits)
  have pop: "populated (playerEntities s) (mapEntities s) (gs_entities s, ?p)" using inv by (simp add: gs_inv_def)
  note C = populated_create [OF pop em]
  have new: "populated (playerEntities s) (e # mapEntities s) (m, p)" "cs_lookup (p pMapInstances) (eidx e) = Some ?c"
    "\<And>q k. k \<noteq> eidx e \<or> q \<noteq> pMapInstances \<Longrightarrow> cs_lookup (p q) k = cs_lookup (?p q) k"
    using populated_add_map [OF pop em, of ?c] ap by auto
  have mo: "maps_ok (gs_instanceEntities s) ?im ?p" using inv by (simp add: gs_inv_def)
  then have none: "map_of (gs_instanceEntities s) i = None" using fresh by (simp add: maps_ok_def)
  have ie: "gs_instanceEntities s' = gs_instanceEntities s @ [(i, e)]"
    using none by (simp add: s' emplace_def update_new)
  have lists: "mapEntities s' = mapEntities s @ [e]" "playerEntities s' = playerEntities s"
    by (simp add: mapEntities_def ie, simp add: playerEntities_def s')
  have "populated (playerEntities s') (mapEntities s') (m, p)"
    unfolding lists using populated_snoc(2) [OF new(1)] .
  moreover have "maps_ok (gs_instanceEntities s') im p"
  proof -
    have "eidx f \<noteq> eidx e" if "map_of (gs_instanceEntities s) j = Some f" for j f
      using C(3) mapEntities_mem [OF that] by (metis UnI2 imageI)
    then show ?thesis
      using mo none new(2,3) by (auto simp: maps_ok_def s' emplace_def im_def update_conv' info_def)
  qed
  moreover have "sessions_ok (gs_playerSessions s') (gs_instanceEntities s') p"
    using inv none new(3) by (fastforce simp: gs_inv_def sessions_ok_def s' emplace_def update_conv')
  ultimately show ?thesis
    using inv counted' C(8) wiring_frame [of s s'] by (simp add: gs_inv_def s')
qed

lemma destroyEntity_eq:
  "destroyEntity e s = s\<lparr>gs_entities := fst (em_Destroy e (gs_entities s, wd_pools (gs_world s))),
     gs_world := (gs_world s)\<lparr>wd_pools := snd (em_Destroy e (gs_entities s, wd_pools (gs_world s)))\<rparr>\<rparr>"
  by (simp add: destroyEntity_def split_beta)

lemma counted_empty_instance:
  assumes "slots.counted l im" "map_of (im_instances im) i = Some info" "mp_playerCount info = 0"
  shows "slots.counted l (im\<lparr>im_instances := AList.delete i (im_instances im)\<rparr>)" "map_of l k \<noteq> Some i"
proof -
  have "im_occupancy im i = Some 0" using assms(2,3) by (simp add: im_occupancy_def)
  then have zero: "sessionsIn l i = 0" using assms(1) by (simp add: slots.counted_def)
  show none: "map_of l k \<noteq> Some i" for k
    using slots.occupied [OF assms(1), of k i] zero by fastforce
  have "im_occupancy (im\<lparr>im_instances := AList.delete i (im_instances im)\<rparr>) = (im_occupancy im)(i := None)"
    by (auto simp: im_occupancy_def delete_conv')
  then show "slots.counted l (im\<lparr>im_instances := AList.delete i (im_instances im)\<rparr>)"
    using assms(1) none im_inv_delete by (auto simp: slots.counted_def)
qed

lemma gs_destroyInstance_inv:
  assumes inv: "gs_inv s" and w: "wired s"
  shows "gs_inv (snd (gs_destroyInstance i s))"
proof (cases "im_destroyInstance i (gs_instanceManager s)")
  case (Pair r im)
  show ?thesis
  proof (cases r)
    case (Inl e)
    then show ?thesis using inv Pair by (simp add: gs_destroyInstance_def)
  next
    case (Inr u)
    let ?im = "gs_instanceManager s" and ?p = "wd_pools (gs_world s)"
    obtain info where info: "map_of (im_instances ?im) i = Some info" "mp_playerCount info = 0"
      and im: "im = ?im\<lparr>im_instances := AList.delete i (im_instances ?im)\<rparr>"
      using Pair Inr by (auto simp: im_destroyInstance_def word_greater_zero_iff split: option.splits if_splits)
    have counted: "slots.counted (sessionTable (gs_playerSessions s)) ?im" using inv by (simp add: gs_inv_def)
    note E = counted_empty_instance [OF counted info]
    have mo: "maps_ok (gs_instanceEntities s) ?im ?p" using inv by (simp add: gs_inv_def)
    then obtain e where e: "map_of (gs_instanceEntities s) i = Some e" using info(1) by (cases "map_of (gs_instanceEntities s) i") (auto simp: maps_ok_def)
    have pop: "populated (playerEntities s) (mapEntities s) (gs_entities s, ?p)" using inv by (simp add: gs_inv_def)
    have sto: "{0..<18} \<subseteq> set (em_storages (gs_entities s))" using inv w by (simp add: gs_inv_def wiring_ok_def)
    have mem: "e \<in> set (mapEntities s)" using mapEntities_mem [OF e] .
    let ?d = "em_Destroy e (gs_entities s, ?p)"
    have "e \<in> set (playerEntities s) \<union> set (mapEntities s)" using mem by simp
    note D = populated_destroy [OF pop this sto]
    define s' where "s' = snd (gs_destroyInstance i s)"
    have s': "s' = s\<lparr>gs_instanceManager := im, gs_entities := fst ?d, gs_world := (gs_world s)\<lparr>wd_pools := snd ?d\<rparr>,
        gs_instanceEntities := AList.delete i (gs_instanceEntities s)\<rparr>"
      using Pair Inr e by (simp add: s'_def gs_destroyInstance_def findMapEntity_def destroyEntity_eq)
    have dist: "distinct (playerEntities s @ mapEntities s)" using populatedD(3) [OF pop] .
    have lists: "playerEntities s' = remove1 e (playerEntities s)" "mapEntities s' = remove1 e (mapEntities s)"
    proof -
      have "e \<notin> set (playerEntities s)" using dist mem by auto
      then show "playerEntities s' = remove1 e (playerEntities s)" by (simp add: remove1_idem) (simp add: playerEntities_def s')
      show "mapEntities s' = remove1 e (mapEntities s)"
        using vals_delete [where g = id, OF _ e] mo dist by (simp add: mapEntities_def s' maps_ok_def)
    qed
    have ids: "eidx f \<noteq> eidx e" if "f \<in> set (playerEntities s) \<union> set (mapEntities s)" "f \<noteq> e" for f
      using populated_ids [OF pop that(1), of e] mem that(2) by auto
    have "populated (playerEntities s') (mapEntities s') (gs_entities s', wd_pools (gs_world s'))"
      unfolding lists using D(1) by (simp add: s')
    moreover have "maps_ok (gs_instanceEntities s') im (snd ?d)"
    proof -
      have "eidx f \<noteq> eidx e" if "map_of (gs_instanceEntities s) j = Some f" "j \<noteq> i" for j f
      proof (rule ids)
        show "f \<noteq> e"
          using vals_inj [where g = id, OF _ that(1) e] dist that(2) by (auto simp: mapEntities_def)
      qed (use mapEntities_mem [OF that(1)] in simp)
      then show ?thesis using mo D(3) by (auto simp: maps_ok_def s' im delete_conv' split: if_splits)
    qed
    moreover have "sessions_ok (gs_playerSessions s') (gs_instanceEntities s') (snd ?d)"
    proof -
      have "eidx (ps_entity v) \<noteq> eidx e \<and> ps_instanceId v \<noteq> i" if "map_of (gs_playerSessions s) k = Some v" for k v
        using ids [of "ps_entity v"] playerEntities_mem [OF that] dist mem E(2) [of k] that by (auto simp: sessionTable_simps)
      then show ?thesis
        using inv D(3) by (fastforce simp: gs_inv_def sessions_ok_def s' delete_conv')
    qed
    ultimately show ?thesis
      unfolding s'_def [symmetric]
      using inv E(1) D(2) wiring_frame [of s s'] by (simp add: gs_inv_def s' im)
  qed
qed

text \<open>Players.\<close>

lemma playerComponents_pools:
  "distinct (map poolOf (playerComponents me guid))" "poolOf ` set (playerComponents me guid) = playerPools"
  "CMembership \<lparr>mm_mapEntity = me, mm_zoneId = 0\<rparr> \<in> set (playerComponents me guid)"
  by (auto simp: playerComponents_def playerPools_def)

lemma im_addPlayer_SomeD:
  "fst (im_addPlayer i m) \<Longrightarrow> \<exists>info. map_of (im_instances m) i = Some info"
  by (auto simp: im_addPlayer_def split: option.splits)

lemma im_addPlayer_maps:
  "map_of (im_instances (snd (im_addPlayer i m))) j = None \<longleftrightarrow> map_of (im_instances m) j = None"
  "map_option mp_mapId (map_of (im_instances (snd (im_addPlayer i m))) j) = map_option mp_mapId (map_of (im_instances m) j)"
  by (auto simp: im_addPlayer_def update_conv' split: option.splits)

lemma im_removePlayer_maps:
  "map_of (im_instances (snd (im_removePlayer i m))) j = None \<longleftrightarrow> map_of (im_instances m) j = None"
  "map_option mp_mapId (map_of (im_instances (snd (im_removePlayer i m))) j) = map_option mp_mapId (map_of (im_instances m) j)"
  by (auto simp: im_removePlayer_def update_conv' split: option.splits)

lemma maps_ok_players:
  assumes "maps_ok l im p" "cs_lookup (p' pMapInstances) = cs_lookup (p pMapInstances)"
    "\<And>j. map_option mp_mapId (map_of (im_instances im') j) = map_option mp_mapId (map_of (im_instances im) j)"
  shows "maps_ok l im' p'"
proof -
  have none: "map_of (im_instances im') j = None \<longleftrightarrow> map_of (im_instances im) j = None" for j
    using assms(3) [of j] by (metis map_option_is_None)
  have "mp_mapId info' = mp_mapId info" if "map_of (im_instances im') j = Some info'" "map_of (im_instances im) j = Some info" for j info info'
    using assms(3) [of j] that by simp
  then show ?thesis
    using assms(1,2) none unfolding maps_ok_def by (metis option.exhaust)
qed

text \<open>What adding a player does, on every branch.\<close>

lemma gs_addPlayer_cases:
  assumes inv: "gs_inv s" and room: "em_Create (gs_entities s) \<noteq> None"
  obtains (present) "map_of (gs_playerSessions s) k \<noteq> None"
      "gs_addPlayer k i s = Some (err PlayerAlreadyInWorld ''player is already in the world'', s)"
    | (no_instance) "map_of (gs_playerSessions s) k = None" "im_getInstance (gs_instanceManager s) i = None"
      "gs_addPlayer k i s = Some (err MapInstanceNotFound ''map instance not found'', s)"
    | (full) "map_of (gs_playerSessions s) k = None" "im_getInstance (gs_instanceManager s) i \<noteq> None"
      "\<not> fst (im_addPlayer i (gs_instanceManager s))"
      "gs_addPlayer k i s = Some (err InstanceFull ''map instance is full or not active'', s)"
    | (added) e m p me where "map_of (gs_playerSessions s) k = None" "fst (im_addPlayer i (gs_instanceManager s))"
      "map_of (gs_instanceEntities s) i = Some me" "em_Create (gs_entities s) = Some (e, m)"
      "populated (e # playerEntities s) (mapEntities s) (m, p)"
      "\<And>c. c \<in> set (playerComponents me (fst (GenerateGUID (gs_guidCounter s)))) \<Longrightarrow> cs_lookup (p (poolOf c)) (eidx e) = Some c"
      "\<And>q j. j \<noteq> eidx e \<or> q \<notin> playerPools \<Longrightarrow> cs_lookup (p q) j = cs_lookup (wd_pools (gs_world s) q) j"
      "gs_addPlayer k i s = Some (Inr e, s\<lparr>gs_instanceManager := snd (im_addPlayer i (gs_instanceManager s)), gs_entities := m,
         gs_world := (gs_world s)\<lparr>wd_pools := p\<rparr>, gs_guidCounter := snd (GenerateGUID (gs_guidCounter s)),
         gs_playerSessions := gs_playerSessions s @ [(k, \<lparr>ps_playerId = k, ps_entity = e, ps_instanceId = i\<rparr>)],
         gs_playersJoined := gs_playersJoined s + 1\<rparr>)"
proof (cases "map_of (gs_playerSessions s) k")
  case None
  show ?thesis
  proof (cases "fst (im_addPlayer i (gs_instanceManager s))")
    case True
    obtain info where info: "map_of (im_instances (gs_instanceManager s)) i = Some info" using im_addPlayer_SomeD [OF True] ..
    then obtain me where me: "map_of (gs_instanceEntities s) i = Some me"
      using inv by (cases "map_of (gs_instanceEntities s) i") (auto simp: gs_inv_def maps_ok_def)
    obtain e m where em: "em_Create (gs_entities s) = Some (e, m)" using room by auto
    have pop: "populated (playerEntities s) (mapEntities s) (gs_entities s, wd_pools (gs_world s))" using inv by (simp add: gs_inv_def)
    obtain guid counter where g: "GenerateGUID (gs_guidCounter s) = (guid, counter)" by fastforce
    from populated_add_player [OF pop em playerComponents_pools(1,2), of me guid] obtain p where
      p: "addComponents e (playerComponents me guid) (wd_pools (gs_world s)) = Some p"
        "populated (e # playerEntities s) (mapEntities s) (m, p)"
        "\<forall>c \<in> set (playerComponents me guid). cs_lookup (p (poolOf c)) (eidx e) = Some c"
        "\<forall>q j. j \<noteq> eidx e \<or> q \<notin> playerPools \<longrightarrow> cs_lookup (p q) j = cs_lookup (wd_pools (gs_world s) q) j"
      by blast
    show ?thesis
      by (rule added [OF None True me em p(2)])
         (use p g None True info me em in \<open>auto simp: gs_addPlayer_def im_getInstance_def findMapEntity_def emplace_def update_new split: prod.splits\<close>)
  next
    case False
    obtain im where im: "im_addPlayer i (gs_instanceManager s) = (False, im)"
      using False by (cases "im_addPlayer i (gs_instanceManager s)") auto
    show ?thesis
      using full [OF None _ False] no_instance None im
      by (cases "im_getInstance (gs_instanceManager s) i") (simp_all add: gs_addPlayer_def)
  qed
next
  case (Some v)
  then show ?thesis using present by (simp add: gs_addPlayer_def)
qed

lemma sessions_wf_new: "length (AList.delete k l) + 1 = length l" if "umap_wf l" "map_of l k = Some v"
  using that
proof (induction l)
  case (Cons a l)
  then show ?case by (cases "fst a = k") (auto simp: umap_wf_def delete_id split: if_splits)
qed simp

lemma gs_addPlayer_inv:
  assumes inv: "gs_inv s" and a: "gs_addPlayer k i s = Some (r, s')"
  shows "gs_inv s'"
proof (cases "em_Create (gs_entities s) = None")
  case True
  have "s' = s"
  proof (cases "im_addPlayer i (gs_instanceManager s)")
    case (Pair ok im)
    have "ok \<Longrightarrow> findMapEntity s i \<noteq> None"
      using Pair inv im_addPlayer_SomeD [of i "gs_instanceManager s"] by (auto simp: gs_inv_def maps_ok_def findMapEntity_def)
    then show ?thesis using a True Pair by (auto simp: gs_addPlayer_def split: if_splits bool.splits)
  qed
  then show ?thesis using inv by simp
next
  case False
  show ?thesis
    using inv False
  proof (cases rule: gs_addPlayer_cases [where k = k and i = i])
    case (added e m p me)
    let ?im = "gs_instanceManager s" and ?p = "wd_pools (gs_world s)"
      and ?v = "\<lparr>ps_playerId = k, ps_entity = e, ps_instanceId = i\<rparr>"
    have s': "s' = s\<lparr>gs_instanceManager := snd (im_addPlayer i ?im), gs_entities := m,
         gs_world := (gs_world s)\<lparr>wd_pools := p\<rparr>, gs_guidCounter := snd (GenerateGUID (gs_guidCounter s)),
         gs_playerSessions := gs_playerSessions s @ [(k, ?v)], gs_playersJoined := gs_playersJoined s + 1\<rparr>"
      using a added(8) by simp
    have pop: "populated (playerEntities s) (mapEntities s) (gs_entities s, ?p)" using inv by (simp add: gs_inv_def)
    note C = populated_create [OF pop added(4)]
    have upd: "gs_playerSessions s' = AList.update k ?v (gs_playerSessions s)" using added(1) by (simp add: s' update_new)
    have "slots.counted (sessionTable (gs_playerSessions s')) (gs_instanceManager s')"
      unfolding upd sessionTable_simps using slots.counted_join [of _ ?im i k] inv added(1,2)
      by (simp add: gs_inv_def sessionTable_simps s')
    moreover have "populated (playerEntities s') (mapEntities s') (gs_entities s', wd_pools (gs_world s'))"
      using populated_snoc(1) [OF added(5)] by (simp add: playerEntities_def mapEntities_def s')
    moreover have "maps_ok (gs_instanceEntities s') (gs_instanceManager s') (wd_pools (gs_world s'))"
    proof (rule maps_ok_players)
      show "maps_ok (gs_instanceEntities s') ?im ?p" using inv by (simp add: gs_inv_def s')
      show "cs_lookup (wd_pools (gs_world s') pMapInstances) = cs_lookup (?p pMapInstances)"
        using added(7) [of _ pMapInstances] by (auto simp: s' playerPools_def)
    qed (simp add: s' im_addPlayer_maps)
    moreover have "sessions_ok (gs_playerSessions s') (gs_instanceEntities s') (wd_pools (gs_world s'))"
    proof -
      have "cs_lookup (p pMemberships) (eidx e) = Some (CMembership \<lparr>mm_mapEntity = me, mm_zoneId = 0\<rparr>)"
        using added(6) [OF playerComponents_pools(3)] by simp
      moreover have "cs_lookup (p pMemberships) (eidx (ps_entity v)) = cs_lookup (?p pMemberships) (eidx (ps_entity v))"
        if "map_of (gs_playerSessions s) j = Some v" for j v
        using added(7) C(3) playerEntities_mem [OF that] by (metis UnI1 imageI)
      ultimately show ?thesis
        using inv added(1,3) by (auto simp: gs_inv_def sessions_ok_def upd update_conv' s' split: if_splits)
    qed
    ultimately show ?thesis
      using inv C(8) wiring_frame [of s s'] by (simp add: gs_inv_def s')
  qed (use a inv in auto)
qed

lemma gs_removePlayer_eq:
  assumes "map_of (gs_playerSessions s) k = Some v"
  shows "gs_removePlayer k s = (Inr (), s\<lparr>gs_playerSessions := AList.delete k (gs_playerSessions s),
     gs_instanceManager := snd (im_removePlayer (ps_instanceId v) (gs_instanceManager s)),
     gs_entities := fst (em_Destroy (ps_entity v) (gs_entities s, wd_pools (gs_world s))),
     gs_world := (gs_world s)\<lparr>wd_pools := snd (em_Destroy (ps_entity v) (gs_entities s, wd_pools (gs_world s)))\<rparr>,
     gs_playersLeft := gs_playersLeft s + 1\<rparr>)"
  using assms by (simp add: gs_removePlayer_def destroyEntity_eq Let_def)

lemma gs_removePlayer_inv:
  assumes inv: "gs_inv s" and w: "wired s"
  shows "gs_inv (snd (gs_removePlayer k s))"
proof (cases "map_of (gs_playerSessions s) k")
  case None
  then show ?thesis using inv by (simp add: gs_removePlayer_def)
next
  case (Some v)
  let ?im = "gs_instanceManager s" and ?p = "wd_pools (gs_world s)" and ?e = "ps_entity v"
  let ?d = "em_Destroy ?e (gs_entities s, ?p)"
  define s' where "s' = snd (gs_removePlayer k s)"
  have s': "s' = s\<lparr>gs_playerSessions := AList.delete k (gs_playerSessions s),
     gs_instanceManager := snd (im_removePlayer (ps_instanceId v) ?im), gs_entities := fst ?d,
     gs_world := (gs_world s)\<lparr>wd_pools := snd ?d\<rparr>, gs_playersLeft := gs_playersLeft s + 1\<rparr>"
    using gs_removePlayer_eq [OF Some] by (simp add: s'_def)
  have pop: "populated (playerEntities s) (mapEntities s) (gs_entities s, ?p)" using inv by (simp add: gs_inv_def)
  have sto: "{0..<18} \<subseteq> set (em_storages (gs_entities s))" using inv w by (simp add: gs_inv_def wiring_ok_def)
  have mem: "?e \<in> set (playerEntities s)" using playerEntities_mem [OF Some] .
  then have "?e \<in> set (playerEntities s) \<union> set (mapEntities s)" by simp
  note D = populated_destroy [OF pop this sto]
  have dist: "distinct (playerEntities s @ mapEntities s)" using populatedD(3) [OF pop] .
  have lists: "playerEntities s' = remove1 ?e (playerEntities s)" "mapEntities s' = remove1 ?e (mapEntities s)"
  proof -
    show "playerEntities s' = remove1 ?e (playerEntities s)"
      using vals_delete [where g = ps_entity, OF sessions_wf [OF inv] Some] dist by (simp add: playerEntities_def s')
    have "?e \<notin> set (mapEntities s)" using dist mem by auto
    then show "mapEntities s' = remove1 ?e (mapEntities s)" by (simp add: remove1_idem) (simp add: mapEntities_def s')
  qed
  have ids: "eidx f \<noteq> eidx ?e" if "f \<in> set (playerEntities s) \<union> set (mapEntities s)" "f \<noteq> ?e" for f
    using populated_ids [OF pop that(1), of ?e] mem that(2) by auto
  have "populated (playerEntities s') (mapEntities s') (gs_entities s', wd_pools (gs_world s'))"
    unfolding lists using D(1) by (simp add: s')
  moreover have "slots.counted (sessionTable (gs_playerSessions s')) (gs_instanceManager s')"
    using slots.counted_leave [of "sessionTable (gs_playerSessions s)" ?im k "ps_instanceId v"] inv Some
    by (simp add: gs_inv_def sessionTable_simps s')
  moreover have "maps_ok (gs_instanceEntities s') (gs_instanceManager s') (wd_pools (gs_world s'))"
  proof -
    have "eidx f \<noteq> eidx ?e" if "map_of (gs_instanceEntities s) j = Some f" for j f
      using ids [of f] mapEntities_mem [OF that] dist mem by auto
    then have "maps_ok (gs_instanceEntities s') ?im (snd ?d)"
      using inv D(3) [of _ pMapInstances] by (simp add: gs_inv_def maps_ok_def s')
    then show ?thesis by (rule maps_ok_players) (simp_all add: s' im_removePlayer_maps)
  qed
  moreover have "sessions_ok (gs_playerSessions s') (gs_instanceEntities s') (wd_pools (gs_world s'))"
  proof -
    have "eidx (ps_entity u) \<noteq> eidx ?e" if "map_of (gs_playerSessions s) j = Some u" "j \<noteq> k" for j u
      using ids [of "ps_entity u"] playerEntities_mem [OF that(1)] vals_inj [where g = ps_entity, OF _ that(1) Some] dist that(2)
      by (auto simp: playerEntities_def)
    then show ?thesis
      using inv D(3) [of _ pMemberships] by (auto simp: gs_inv_def sessions_ok_def s' delete_conv' split: if_splits)
  qed
  moreover have "gs_playersJoined s = gs_playersLeft s + 1 + word_of_nat (length (gs_playerSessions s'))"
    using inv sessions_wf_new [OF sessions_wf [OF inv] Some]
    by (simp add: gs_inv_def s' ac_simps flip: of_nat_Suc)
  ultimately show ?thesis
    unfolding s'_def [symmetric]
    using inv D(2) wiring_frame [of s s'] by (simp add: gs_inv_def s')
qed

lemma moveMembership_ok:
  assumes "pools_ok p" "cs_lookup (p pMemberships) (eidx e) = Some c"
  shows "pools_ok (moveMembership e me p)"
    "cs_lookup (moveMembership e me p q) j = (if q = pMemberships \<and> j = eidx e
       then Some (CMembership ((unMembership c)\<lparr>mm_mapEntity := me, mm_zoneId := 0\<rparr>)) else cs_lookup (p q) j)"
proof -
  have inv: "\<And>q. cs_inv (p q)" using pools_okD(1) [OF assms(1)] .
  have has: "cs_Has (p pMemberships) e" "cs_Get (p pMemberships) e = Some c" using assms(2) by (simp_all add: cs_Has_lookup cs_Get_lookup)
  show l: "cs_lookup (moveMembership e me p q) j = (if q = pMemberships \<and> j = eidx e
       then Some (CMembership ((unMembership c)\<lparr>mm_mapEntity := me, mm_zoneId := 0\<rparr>)) else cs_lookup (p q) j)" for q j
    using assignRef_lookup [OF inv has(1)] has(2) by (simp add: moveMembership_def)
  have "cs_inv (moveMembership e me p q)" for q
    using inv assignRef_inv [OF inv] has(2) by (simp add: moveMembership_def)
  then show "pools_ok (moveMembership e me p)"
    using assms(1) l by (simp add: pools_ok_lookup)
qed

lemma gs_transferPlayer_cases:
  assumes inv: "gs_inv s"
  obtains (absent) "map_of (gs_playerSessions s) k = None"
      "gs_transferPlayer k i s = (err PlayerNotInWorld ''player is not in the world'', s)"
    | (there) v where "map_of (gs_playerSessions s) k = Some v" "ps_instanceId v = i" "gs_transferPlayer k i s = (Inr (), s)"
    | (full) v where "map_of (gs_playerSessions s) k = Some v" "ps_instanceId v \<noteq> i" "\<not> fst (im_addPlayer i (gs_instanceManager s))"
      "gs_transferPlayer k i s = (err InstanceFull ''target instance is full or not active'', s)"
    | (moved) v me where "map_of (gs_playerSessions s) k = Some v" "ps_instanceId v \<noteq> i"
      "fst (im_addPlayer i (gs_instanceManager s))" "map_of (gs_instanceEntities s) i = Some me"
      "gs_transferPlayer k i s = (Inr (), s\<lparr>
         gs_instanceManager := snd (im_removePlayer (ps_instanceId v) (snd (im_addPlayer i (gs_instanceManager s)))),
         gs_world := (gs_world s)\<lparr>wd_pools := moveMembership (ps_entity v) me (wd_pools (gs_world s))\<rparr>,
         gs_playerSessions := AList.update k (v\<lparr>ps_instanceId := i\<rparr>) (gs_playerSessions s)\<rparr>)"
proof (cases "map_of (gs_playerSessions s) k")
  case None
  then show ?thesis using absent by (simp add: gs_transferPlayer_def)
next
  case (Some v)
  obtain ok im where im: "im_addPlayer i (gs_instanceManager s) = (ok, im)" by fastforce
  consider "ps_instanceId v = i" | "ps_instanceId v \<noteq> i" "\<not> ok" | "ps_instanceId v \<noteq> i" ok by blast
  then show ?thesis
  proof cases
    case 3
    then obtain me where me: "map_of (gs_instanceEntities s) i = Some me"
      using inv im im_addPlayer_SomeD [of i "gs_instanceManager s"]
      by (cases "map_of (gs_instanceEntities s) i") (auto simp: gs_inv_def maps_ok_def)
    then show ?thesis using moved [OF Some _ _ me] 3 im Some by (simp add: gs_transferPlayer_def findMapEntity_def)
  qed (use there full Some im in \<open>simp_all add: gs_transferPlayer_def\<close>)
qed

lemma gs_transferPlayer_inv:
  assumes inv: "gs_inv s"
  shows "gs_inv (snd (gs_transferPlayer k i s))"
  using inv
proof (cases rule: gs_transferPlayer_cases [where k = k and i = i])
  case (moved v me)
  let ?im = "gs_instanceManager s" and ?p = "wd_pools (gs_world s)" and ?e = "ps_entity v"
  define s' where "s' = snd (gs_transferPlayer k i s)"
  have s': "s' = s\<lparr>gs_instanceManager := snd (im_removePlayer (ps_instanceId v) (snd (im_addPlayer i ?im))),
     gs_world := (gs_world s)\<lparr>wd_pools := moveMembership ?e me ?p\<rparr>,
     gs_playerSessions := AList.update k (v\<lparr>ps_instanceId := i\<rparr>) (gs_playerSessions s)\<rparr>"
    using moved(5) by (simp add: s'_def)
  have pop: "populated (playerEntities s) (mapEntities s) (gs_entities s, ?p)" using inv by (simp add: gs_inv_def)
  have ses: "sessions_ok (gs_playerSessions s) (gs_instanceEntities s) ?p" using inv by (simp add: gs_inv_def)
  obtain me0 where c: "cs_lookup (?p pMemberships) (eidx ?e) = Some (CMembership \<lparr>mm_mapEntity = me0, mm_zoneId = 0\<rparr>)"
    using ses moved(1) unfolding sessions_ok_def by blast
  note M = moveMembership_ok [OF populatedD(2) [OF pop] c, of me]
  have lists: "playerEntities s' = playerEntities s" "mapEntities s' = mapEntities s"
    using vals_update [OF moved(1), of ps_entity "v\<lparr>ps_instanceId := i\<rparr>"] by (simp_all add: playerEntities_def mapEntities_def s')
  have "cs_lookup (moveMembership ?e me ?p q) j = None \<longleftrightarrow> cs_lookup (?p q) j = None" for q j using M(2) c by simp
  then have "populated (playerEntities s') (mapEntities s') (gs_entities s', wd_pools (gs_world s'))"
    unfolding lists using populated_pools [OF pop M(1)] by (simp add: s')
  moreover have "slots.counted (sessionTable (gs_playerSessions s')) (gs_instanceManager s')"
    using slots.counted_transfer [of "sessionTable (gs_playerSessions s)" ?im k "ps_instanceId v" i] inv moved(1-3)
    by (simp add: gs_inv_def sessionTable_simps s')
  moreover have "maps_ok (gs_instanceEntities s') (gs_instanceManager s') (wd_pools (gs_world s'))"
    by (rule maps_ok_players [of _ ?im ?p]) (use inv M(2) in \<open>auto simp: gs_inv_def s' im_addPlayer_maps im_removePlayer_maps\<close>)
  moreover have "sessions_ok (gs_playerSessions s') (gs_instanceEntities s') (wd_pools (gs_world s'))"
  proof -
    have "eidx (ps_entity u) \<noteq> eidx ?e" if "map_of (gs_playerSessions s) j = Some u" "j \<noteq> k" for j u
      using populated_ids [OF pop, of "ps_entity u" ?e] playerEntities_mem [OF that(1)] playerEntities_mem [OF moved(1)]
        vals_inj [where g = ps_entity, OF _ that(1) moved(1)] populatedD(3) [OF pop] that(2)
      by (auto simp: playerEntities_def)
    then show ?thesis
      using ses moved(1,4) M(2) by (auto simp: sessions_ok_def s' update_conv')
  qed
  moreover have "length (gs_playerSessions s') = length (gs_playerSessions s)"
    using moved(1) by (simp add: s' length_update_umap)
  ultimately show ?thesis
    unfolding s'_def [symmetric]
    using inv wiring_frame [of s s'] by (simp add: gs_inv_def s')
qed (use inv in auto)

section \<open>Histories\<close>

text \<open>One call of the interface, or one pass of the loop thread. Ids of instances must not wrap, and entities
  are destroyed only once the pools are registered, that is after the first start or tick.\<close>

inductive gs_step :: "(ThreatEntry list \<Rightarrow> ThreatEntry list) \<Rightarrow> GameServer \<Rightarrow> GameServer \<Rightarrow> bool" for srt where
  step_start: "gs_start now s = Some (r, s') \<Longrightarrow> gs_step srt s s'"
| step_stop: "gs_step srt s (gs_stop s)"
| step_tick: "gs_tick srt t0 t1 s = Some (r, s') \<Longrightarrow> gs_step srt s s'"
| step_iterate: "gs_isRunning s \<Longrightarrow> gs_iterate srt readings s = Some s' \<Longrightarrow> gs_step srt s s'"
| step_create: "im_room (gs_instanceManager s) \<Longrightarrow> gs_createInstance mapId maxPlayers now s = Some (r, s') \<Longrightarrow> gs_step srt s s'"
| step_destroy: "wired s \<Longrightarrow> gs_step srt s (snd (gs_destroyInstance i s))"
| step_add: "gs_addPlayer k i s = Some (r, s') \<Longrightarrow> gs_step srt s s'"
| step_remove: "wired s \<Longrightarrow> gs_step srt s (snd (gs_removePlayer k s))"
| step_transfer: "gs_step srt s (snd (gs_transferPlayer k i s))"

inductive gs_reachable :: "(ThreatEntry list \<Rightarrow> ThreatEntry list) \<Rightarrow> GameServer \<Rightarrow> bool" for srt where
  gs_init: "gs_reachable srt (mkGameServer config trees guids)"
| gs_next: "gs_reachable srt s \<Longrightarrow> gs_step srt s s' \<Longrightarrow> gs_reachable srt s'"

lemma running_wired: "gs_inv s \<Longrightarrow> gs_isRunning s \<Longrightarrow> wired s"
  by (auto simp: gs_inv_def wiring_ok_def gs_isRunning_def split: if_splits)

lemma gs_step_inv:
  assumes "gs_step srt s s'" "gs_inv s"
  shows "gs_inv s'"
  using assms
proof cases
  case (step_iterate readings)
  then obtain s1 where "gs_iterate srt readings s = Some s1" "tick_frame s s1"
    using gs_iterate_frame [OF assms(2) running_wired [OF assms(2)]] by blast
  then show ?thesis using step_iterate tick_frame_inv [OF assms(2)] by simp
next
  case step_start
  then show ?thesis using gs_start_inv [OF assms(2)] by blast
next
  case step_tick
  then show ?thesis using gs_tick_inv [OF assms(2)] by blast
next
  case step_create
  then show ?thesis using gs_createInstance_inv [OF assms(2)] by blast
next
  case step_add
  then show ?thesis using gs_addPlayer_inv [OF assms(2)] by blast
qed (simp_all add: assms(2) gs_stop_inv gs_destroyInstance_inv gs_removePlayer_inv gs_transferPlayer_inv)

lemma gs_reachable_inv: "gs_reachable srt s \<Longrightarrow> gs_inv s"
  by (induction rule: gs_reachable.induct) (auto intro: gs_inv_init gs_step_inv)

text \<open>Live entities are counted, and while there are fewer than the handles allow a new one can be created.\<close>

lemma populated_count:
  assumes "populated P M (m, p)"
  shows "unat (em_Count m) = length P + length M"
proof -
  have inv: "em_inv m" using populatedD(1) [OF assms] .
  let ?slots = "{i. i < length (em_alive m) \<and> em_alive m ! i}"
  have "?slots = eidx ` set (P @ M)"
  proof (intro equalityI subsetI)
    fix i assume i: "i \<in> ?slots"
    then have small: "i < length (em_versions m)" "i < 16777216" using em_invD(1,2) [OF inv] by simp_all
    let ?x = "mkEntity (word_of_nat i) (em_versions m ! i)"
    have id: "eidx ?x = i" using small(2) by (simp add: unat_of_nat_lt)
    have "em_IsAlive m ?x" unfolding em_IsAlive_iff [OF inv] id using i small(1) by simp
    then show "i \<in> eidx ` set (P @ M)" using populatedD(4) [OF assms, of ?x] id by (intro image_eqI [of _ _ ?x]) auto
  next
    fix i assume "i \<in> eidx ` set (P @ M)"
    then obtain x where x: "i = eidx x" "em_IsAlive m x" using populatedD(4) [OF assms] by auto
    then show "i \<in> ?slots" using em_invD(1) [OF inv] by (simp add: em_IsAlive_iff [OF inv])
  qed
  moreover have "card (eidx ` set (P @ M)) = card (set (P @ M))"
    using populated_ids [OF assms] by (intro card_image) (auto simp: inj_on_def)
  moreover have "card (set (P @ M)) = length (P @ M)" by (rule distinct_card [OF populatedD(3) [OF assms]])
  ultimately have "length (filter id (em_alive m)) = length P + length M"
    by (simp add: length_filter_conv_card)
  then show ?thesis using em_invD(6) [OF inv] by (simp add: em_Count_def)
qed

lemma populated_room:
  assumes "populated P M (m, p)" "length P + length M < 16777215"
  shows "em_Create m \<noteq> None"
proof (cases "em_freeList m")
  case Nil
  have inv: "em_inv m" using populatedD(1) [OF assms(1)] .
  have "\<forall>b \<in> set (em_alive m). b" using em_invD(1,5) [OF inv] Nil by (auto simp: in_set_conv_nth)
  then have "filter id (em_alive m) = em_alive m" by (simp add: filter_id_conv)
  then have len: "length (em_versions m) < 16777215"
    using em_invD(1,6) [OF inv] populated_count [OF assms(1)] assms(2) by (simp add: em_Count_def)
  then have "unat (word_of_nat (length (em_versions m)) :: u32) = length (em_versions m)"
    by (intro unat_of_nat_lt) simp
  then show ?thesis using len Nil by (simp add: em_Create_def word_le_nat_alt unat_kMaxId Let_def)
qed (simp add: em_Create_def)

lemma instances_length:
  assumes "gs_inv s"
  shows "length (mapEntities s) = length (im_instances (gs_instanceManager s))"
proof -
  let ?a = "gs_instanceEntities s" and ?b = "im_instances (gs_instanceManager s)"
  have wf: "distinct (map fst ?a)" "distinct (map fst ?b)"
    and dom: "\<And>i. map_of ?a i = None \<longleftrightarrow> map_of ?b i = None"
    using assms by (simp_all add: gs_inv_def maps_ok_def slots.counted_def im_inv_def umap_wf_def)
  have "set (map fst ?a) = set (map fst ?b)" using dom by (auto simp: map_of_eq_None_iff)
  then show ?thesis using distinct_card [OF wf(1)] distinct_card [OF wf(2)] by (simp add: mapEntities_def)
qed

text \<open>An instance that takes players.\<close>

definition openSlot :: "MapInstanceManager \<Rightarrow> u32 \<Rightarrow> bool" where
  "openSlot im i \<longleftrightarrow> (\<exists>info. im_getInstance im i = Some info
     \<and> mp_state info = InstanceState.Active \<and> mp_playerCount info < mp_maxPlayers info)"

section \<open>A short history\<close>

text \<open>A server with one instance and one player, wired by a manual tick.\<close>

definition demoConfig :: GameServerConfig where
  "demoConfig = \<lparr>gc_tickRate = 20, gc_maxInstances = 10, gc_spatialCellSize = 32, gc_aiTickInterval = 1\<rparr>"

definition demoServer :: GameServer where
  "demoServer = mkGameServer demoConfig (\<lambda>_. CreateIdleTask) 0"

lemma demo_instance:
  "\<exists>s1. gs_createInstance 1 5 0 demoServer = Some (Inr 1, s1) \<and> gs_reachable srt s1
    \<and> im_getInstance (gs_instanceManager s1) 1 = Some \<lparr>mp_instanceId = 1, mp_mapId = 1, mp_type = OpenWorld,
        mp_state = InstanceState.Active, mp_playerCount = 0, mp_maxPlayers = 5, mp_createdAt = 0\<rparr>
    \<and> gs_playerSessions s1 = [] \<and> length (im_instances (gs_instanceManager s1)) = 1 \<and> \<not> gs_isRunning s1
    \<and> em_storages (gs_entities s1) = [] \<and> em_freeList (gs_entities s1) = []"
proof -
  have r0: "gs_reachable srt demoServer" unfolding demoServer_def by (rule gs_init)
  have pop: "populated [] [] (gs_entities demoServer, wd_pools (gs_world demoServer))"
    using gs_reachable_inv [OF r0] by (simp add: gs_inv_def playerEntities_def mapEntities_def demoServer_def mkGameServer_def)
  let ?im = "mkMapInstanceManager 10" and ?c = "CMapInstance \<lparr>mi_mapId = 1, mi_instanceId = 1, mi_type = OpenWorld\<rparr>"
  have im: "gs_instanceManager demoServer = ?im" "gs_playerSessions demoServer = []" "\<not> gs_isRunning demoServer"
    by (simp_all add: demoServer_def mkGameServer_def demoConfig_def gs_isRunning_def gl_isRunning_def mkGameLoop_def Let_def)
  obtain e m where em: "em_Create (gs_entities demoServer) = Some (e, m)" using populated_room [OF pop] by auto
  have m: "em_storages m = []" "em_freeList m = []"
    using em by (auto simp: demoServer_def mkGameServer_def em_Create_def emptyManager_def Let_def split: if_splits)
  obtain p where p: "addComponent e ?c (wd_pools (gs_world demoServer)) = Some p"
    using populated_add_map [OF pop em, of ?c] by auto
  let ?info = "\<lparr>mp_instanceId = 1, mp_mapId = 1, mp_type = OpenWorld, mp_state = InstanceState.Active,
     mp_playerCount = 0, mp_maxPlayers = 5, mp_createdAt = 0\<rparr>"
  have c: "im_createInstance 1 OpenWorld 5 0 ?im = (Inr 1, ?im\<lparr>im_nextInstanceId := 2, im_instances := [(1, ?info)]\<rparr>)"
    by (simp add: im_createInstance_def mkMapInstanceManager_def emplace_def Let_def)
  define s1 where "s1 = demoServer\<lparr>gs_instanceManager := ?im\<lparr>im_nextInstanceId := 2, im_instances := [(1, ?info)]\<rparr>,
     gs_entities := m, gs_world := (gs_world demoServer)\<lparr>wd_pools := p\<rparr>,
     gs_instanceEntities := emplace 1 e (gs_instanceEntities demoServer)\<rparr>"
  have run: "gs_createInstance 1 5 0 demoServer = Some (Inr 1, s1)"
    using c im em p by (simp add: gs_createInstance_def s1_def)
  have "im_room (gs_instanceManager demoServer)" by (simp add: im im_room_def mkMapInstanceManager_def)
  then have "gs_reachable srt s1" using gs_next [OF r0 step_create [OF _ run]] by blast
  then show ?thesis
    using run im m by (intro exI [of _ s1]) (simp add: s1_def im_getInstance_def gs_isRunning_def)
qed

section \<open>Properties\<close>

text \<open>(C3) The server is consistent in every state it can reach. The player count of every instance is the
  number of sessions in it and never exceeds its limit; every session belongs to its player and to a
  live entity of its own, whose membership names the live map entity of the session's instance; the
  live entities are exactly those of the sessions and the map entities, so the entity count is the
  number of players plus the number of instances; and the players that joined are those that left
  and those that are there.\<close>

theorem game_server_consistent:
  assumes "gs_reachable srt s"
  shows "(\<forall>i info. im_getInstance (gs_instanceManager s) i = Some info \<longrightarrow>
        unat (mp_playerCount info) = length (filter (\<lambda>x. ps_instanceId (snd x) = i) (gs_playerSessions s))
        \<and> mp_playerCount info \<le> mp_maxPlayers info)
    \<and> (\<forall>k v. gs_getPlayerSession s k = Some v \<longrightarrow> ps_playerId v = k \<and> em_IsAlive (gs_entities s) (ps_entity v)
        \<and> (\<exists>me. findMapEntity s (ps_instanceId v) = Some me \<and> em_IsAlive (gs_entities s) me
             \<and> cs_Get (wd_pools (gs_world s) pMemberships) (ps_entity v)
                 = Some (CMembership \<lparr>mm_mapEntity = me, mm_zoneId = 0\<rparr>)))
    \<and> (\<forall>k k' v v'. gs_getPlayerSession s k = Some v \<longrightarrow> gs_getPlayerSession s k' = Some v' \<longrightarrow>
         ps_entity v = ps_entity v' \<longrightarrow> k = k')
    \<and> (\<forall>x. em_IsAlive (gs_entities s) x \<longleftrightarrow>
         (\<exists>k v. gs_getPlayerSession s k = Some v \<and> ps_entity v = x) \<or> (\<exists>i. findMapEntity s i = Some x))
    \<and> unat (sv_entityCount (gs_stats s)) = sv_playerCount (gs_stats s) + length (im_instances (gs_instanceManager s))
    \<and> sv_playersJoined (gs_stats s) = sv_playersLeft (gs_stats s) + word_of_nat (sv_playerCount (gs_stats s))"
proof -
  have inv: "gs_inv s" by (rule gs_reachable_inv [OF assms])
  have pop: "populated (playerEntities s) (mapEntities s) (gs_entities s, wd_pools (gs_world s))" using inv by (simp add: gs_inv_def)
  have slots: "slots.counted (sessionTable (gs_playerSessions s)) (gs_instanceManager s)" using inv by (simp add: gs_inv_def)
  have ses: "sessions_ok (gs_playerSessions s) (gs_instanceEntities s) (wd_pools (gs_world s))" using inv by (simp add: gs_inv_def)
  have wf: "umap_wf (gs_instanceEntities s)" using inv by (simp add: gs_inv_def maps_ok_def)
  have players: "x \<in> set (playerEntities s) \<longleftrightarrow> (\<exists>k v. gs_getPlayerSession s k = Some v \<and> ps_entity v = x)" for x
    using umap_mem_iff [OF sessions_wf [OF inv]] by (force simp: playerEntities_def gs_getPlayerSession_def image_iff)
  have maps: "x \<in> set (mapEntities s) \<longleftrightarrow> (\<exists>i. findMapEntity s i = Some x)" for x
    using umap_mem_iff [OF wf] by (force simp: mapEntities_def findMapEntity_def image_iff)
  have alive: "em_IsAlive (gs_entities s) x \<longleftrightarrow>
         (\<exists>k v. gs_getPlayerSession s k = Some v \<and> ps_entity v = x) \<or> (\<exists>i. findMapEntity s i = Some x)" for x
    unfolding populatedD(4) [OF pop] Un_iff players maps ..
  have count: "unat (mp_playerCount info) = length (filter (\<lambda>x. ps_instanceId (snd x) = i) (gs_playerSessions s))
        \<and> mp_playerCount info \<le> mp_maxPlayers info" if "im_getInstance (gs_instanceManager s) i = Some info" for i info
  proof -
    have "im_occupancy (gs_instanceManager s) i = Some (unat (mp_playerCount info))"
      using that by (simp add: im_occupancy_def im_getInstance_def)
    then have "unat (mp_playerCount info) = sessionsIn (sessionTable (gs_playerSessions s)) i"
      using slots unfolding slots.counted_def by blast
    then show ?thesis
      using slots that by (simp add: sessionsIn_def sessionTable_def filter_map comp_def case_prod_beta slots.counted_def im_inv_def im_getInstance_def)
  qed
  have session: "ps_playerId v = k \<and> em_IsAlive (gs_entities s) (ps_entity v)
        \<and> (\<exists>me. findMapEntity s (ps_instanceId v) = Some me \<and> em_IsAlive (gs_entities s) me
             \<and> cs_Get (wd_pools (gs_world s) pMemberships) (ps_entity v) = Some (CMembership \<lparr>mm_mapEntity = me, mm_zoneId = 0\<rparr>))"
    if "gs_getPlayerSession s k = Some v" for k v
    using ses that alive by (fastforce simp: sessions_ok_def gs_getPlayerSession_def findMapEntity_def cs_Get_lookup)
  have own: "k = k'" if "gs_getPlayerSession s k = Some v" "gs_getPlayerSession s k' = Some v'" "ps_entity v = ps_entity v'" for k k' v v'
    using vals_inj [of ps_entity "gs_playerSessions s" k v k' v'] that populatedD(3) [OF pop]
    by (simp add: gs_getPlayerSession_def playerEntities_def)
  have "unat (em_Count (gs_entities s)) = length (gs_playerSessions s) + length (im_instances (gs_instanceManager s))"
    using populated_count [OF pop] instances_length [OF inv] by (simp add: playerEntities_def)
  then show ?thesis
    using count session own alive inv by (simp add: gs_stats_def Let_def gs_inv_def)
qed

theorem game_server_consistent_witness:
  "\<exists>s1 s2 e. gs_createInstance 1 5 0 demoServer = Some (Inr 1, s1) \<and> gs_addPlayer (PlayerId 7) 1 s1 = Some (Inr e, s2)
    \<and> em_IsAlive (gs_entities s2) e \<and> unat (sv_entityCount (gs_stats s2)) = 2"
proof -
  obtain s1 where s1: "gs_createInstance 1 5 0 demoServer = Some (Inr 1, s1)" "gs_reachable id s1"
    "im_getInstance (gs_instanceManager s1) 1 = Some \<lparr>mp_instanceId = 1, mp_mapId = 1, mp_type = OpenWorld,
        mp_state = InstanceState.Active, mp_playerCount = 0, mp_maxPlayers = 5, mp_createdAt = 0\<rparr>"
    "gs_playerSessions s1 = []" "length (im_instances (gs_instanceManager s1)) = 1"
    using demo_instance by blast
  have inv: "gs_inv s1" by (rule gs_reachable_inv [OF s1(2)])
  have pop: "populated (playerEntities s1) (mapEntities s1) (gs_entities s1, wd_pools (gs_world s1))" using inv by (simp add: gs_inv_def)
  have room: "em_Create (gs_entities s1) \<noteq> None"
    by (rule populated_room [OF pop]) (use instances_length [OF inv] s1(4,5) in \<open>simp add: playerEntities_def\<close>)
  have ok: "fst (im_addPlayer 1 (gs_instanceManager s1))"
    "length (im_instances (snd (im_addPlayer 1 (gs_instanceManager s1)))) = 1"
    using s1(3,5) by (simp_all add: im_getInstance_def im_addPlayer_def length_update_umap)
  have "\<exists>e s2. gs_addPlayer (PlayerId 7) 1 s1 = Some (Inr e, s2)
      \<and> gs_playerSessions s2 = [(PlayerId 7, \<lparr>ps_playerId = PlayerId 7, ps_entity = e, ps_instanceId = 1\<rparr>)]
      \<and> length (im_instances (gs_instanceManager s2)) = 1"
    using inv room
  proof (cases rule: gs_addPlayer_cases [where k = "PlayerId 7" and i = 1])
    case (added e m p me)
    show ?thesis unfolding added(8) using ok(2) s1(4) by simp
  qed (use s1(3,4) ok(1) in simp_all)
  then obtain e s2 where add: "gs_addPlayer (PlayerId 7) 1 s1 = Some (Inr e, s2)"
    "gs_playerSessions s2 = [(PlayerId 7, \<lparr>ps_playerId = PlayerId 7, ps_entity = e, ps_instanceId = 1\<rparr>)]"
    "length (im_instances (gs_instanceManager s2)) = 1"
    by blast
  have "gs_reachable id s2" by (rule gs_next [OF s1(2) step_add [OF add(1)]])
  note C = game_server_consistent [OF this]
  have "gs_getPlayerSession s2 (PlayerId 7) = Some \<lparr>ps_playerId = PlayerId 7, ps_entity = e, ps_instanceId = 1\<rparr>"
    using add(2) by (simp add: gs_getPlayerSession_def)
  then have "em_IsAlive (gs_entities s2) e"
    using C [THEN conjunct2, THEN conjunct1, rule_format, of "PlayerId 7"] by simp
  moreover have "sv_playerCount (gs_stats s2) = 1" using add(2) by (simp add: gs_stats_def Let_def)
  then have "unat (sv_entityCount (gs_stats s2)) = 2"
    using C [THEN conjunct2, THEN conjunct2, THEN conjunct2, THEN conjunct2, THEN conjunct1] add(3) by simp
  ultimately show ?thesis using s1(1) add(1) by blast
qed







text \<open>Removing a player before the first start or tick. The pools are not registered yet, so the components stay
  behind; the id of the entity is reused for the next player, and adding him fails the assertion of
  \<^verbatim>\<open>ComponentStorage::Add\<close>.\<close>

theorem unwired_removal_breaks_add:
  "\<exists>s1 e s2 s3. gs_createInstance 1 5 0 demoServer = Some (Inr 1, s1) \<and> gs_addPlayer (PlayerId 7) 1 s1 = Some (Inr e, s2)
    \<and> gs_removePlayer (PlayerId 7) s2 = (Inr (), s3) \<and> gs_addPlayer (PlayerId 7) 1 s3 = None"
proof -
  obtain s1 where s1: "gs_createInstance 1 5 0 demoServer = Some (Inr 1, s1)" "gs_reachable id s1"
    "im_getInstance (gs_instanceManager s1) 1 = Some \<lparr>mp_instanceId = 1, mp_mapId = 1, mp_type = OpenWorld,
        mp_state = InstanceState.Active, mp_playerCount = 0, mp_maxPlayers = 5, mp_createdAt = 0\<rparr>"
    "gs_playerSessions s1 = []" "length (im_instances (gs_instanceManager s1)) = 1"
    "em_storages (gs_entities s1) = []" "em_freeList (gs_entities s1) = []"
    using demo_instance by blast
  have inv: "gs_inv s1" by (rule gs_reachable_inv [OF s1(2)])
  have pop: "populated (playerEntities s1) (mapEntities s1) (gs_entities s1, wd_pools (gs_world s1))" using inv by (simp add: gs_inv_def)
  have room: "em_Create (gs_entities s1) \<noteq> None"
    by (rule populated_room [OF pop]) (use instances_length [OF inv] s1(4,5) in \<open>simp add: playerEntities_def\<close>)
  show ?thesis
    using inv room
  proof (cases rule: gs_addPlayer_cases [where k = "PlayerId 7" and i = 1])
    case (added e m p me)
    let ?im1 = "snd (im_addPlayer 1 (gs_instanceManager s1))"
    define s2 where "s2 = s1\<lparr>gs_instanceManager := ?im1, gs_entities := m,
         gs_world := (gs_world s1)\<lparr>wd_pools := p\<rparr>, gs_guidCounter := snd (GenerateGUID (gs_guidCounter s1)),
         gs_playerSessions := gs_playerSessions s1 @ [(PlayerId 7, \<lparr>ps_playerId = PlayerId 7, ps_entity = e, ps_instanceId = 1\<rparr>)],
         gs_playersJoined := gs_playersJoined s1 + 1\<rparr>"
    have m: "em_storages m = []" "em_freeList m = []"
      using added(4) s1(6,7) by (auto simp: em_Create_def Let_def split: if_splits)
    have alive: "em_IsAlive m e" using populated_create(6) [OF pop added(4), of e] by simp
    let ?m' = "fst (destroyInternal e (m, p))"
    define s3 where "s3 = s2\<lparr>gs_playerSessions := [], gs_instanceManager := snd (im_removePlayer 1 ?im1), gs_entities := ?m',
       gs_playersLeft := gs_playersLeft s2 + 1\<rparr>"
    have rem: "gs_removePlayer (PlayerId 7) s2 = (Inr (), s3)"
      using alive m(1) s1(4)
      by (simp add: gs_removePlayer_def destroyEntity_def em_Destroy_def destroyInternal_def removeFromStorages_def s2_def s3_def Let_def)
    obtain e2 m2 where c2: "em_Create ?m' = Some (e2, m2)" "eidx e2 = eidx e"
      using m(2) by (simp add: em_Create_def destroyInternal_fst mkEntity_id_version)
    have "CTransform defaultTransform \<in> set (playerComponents me (fst (GenerateGUID (gs_guidCounter s1))))"
      by (simp add: playerComponents_def)
    from added(6) [OF this] have "cs_Has (p pTransforms) e2" using c2(2) by (simp add: cs_Has_lookup)
    then have none: "addComponents e2 (playerComponents me' g) p = None" for me' g
      by (simp add: playerComponents_def addComponent_def cs_Add_def)
    have inst: "map_of (im_instances (snd (im_removePlayer 1 ?im1))) 1 = Some \<lparr>mp_instanceId = 1, mp_mapId = 1, mp_type = OpenWorld,
        mp_state = InstanceState.Active, mp_playerCount = 0, mp_maxPlayers = 5, mp_createdAt = 0\<rparr>"
      using s1(3) by (simp add: im_getInstance_def im_addPlayer_def im_removePlayer_def update_conv')
    have "gs_addPlayer (PlayerId 7) 1 s3 = None"
      using inst none c2(1) added(3)
      by (simp add: gs_addPlayer_def s3_def s2_def im_getInstance_def im_addPlayer_def findMapEntity_def split: prod.split)
    then show ?thesis using s1(1) added(8) rem unfolding s2_def by blast
  qed (use s1(3,4) in \<open>simp_all add: im_getInstance_def im_addPlayer_def\<close>)
qed

end
