(* ===== verification/Prepared_Statement.thy ===== *)
theory Prepared_Statement
  imports Foundation Cpp_Strings Ieee_Float
begin

text \<open>
  Prepared statements of the database adapter (\<^verbatim>\<open>foundation/game_database.hpp\<close> and
  \<^verbatim>\<open>foundation/database/game_database.cpp\<close>): values, bindings, and \<^verbatim>\<open>resolve()\<close>, which
  substitutes the bindings into the text of the query one after the other. \<open>substP\<close> is the
  reference: one pass that replaces every placeholder at once. \<open>sqlTokens\<close> reads a query the way
  SQL does, string literals apart from other text. Shown are that \<^verbatim>\<open>resolve()\<close> is the one-pass
  substitution whatever order the map of bindings has, and that a bound string reaches the
  database as one literal, as long as no string value holds a dollar sign and no two placeholders
  are adjacent. A double is a rational number here: NaN, the infinities and the sign of zero are left
  out.
\<close>

section \<open>Values and prepared statements\<close>

datatype DbValue = DbNull | DbString string | DbInt u64 | DbDouble rat | DbBool bool

type_synonym DbRow = "(string, DbValue) umap"
type_synonym QueryResult = "DbRow list"

datatype DatabaseType = PostgreSQL | SQLite

record DatabaseConfig =
  dc_connectionString :: string
  dc_dbType :: DatabaseType
  dc_minConnections :: u32
  dc_maxConnections :: u32
  dc_connectionTimeout :: int

record PreparedStatement =
  st_sql :: string
  st_params :: "(string, DbValue) umap"

definition mkPreparedStatement :: "string \<Rightarrow> PreparedStatement" where
  "mkPreparedStatement sql = \<lparr>st_sql = sql, st_params = []\<rparr>"

definition st_bind :: "string \<Rightarrow> DbValue \<Rightarrow> PreparedStatement \<Rightarrow> PreparedStatement" where
  "st_bind name v stmt = stmt\<lparr>st_params := AList.update name v (st_params stmt)\<rparr>"

definition st_bindString :: "string \<Rightarrow> string \<Rightarrow> PreparedStatement \<Rightarrow> PreparedStatement" where
  "st_bindString name v = st_bind name (DbString v)"

definition st_bindInt :: "string \<Rightarrow> u64 \<Rightarrow> PreparedStatement \<Rightarrow> PreparedStatement" where
  "st_bindInt name v = st_bind name (DbInt v)"

definition st_bindDouble :: "string \<Rightarrow> rat \<Rightarrow> PreparedStatement \<Rightarrow> PreparedStatement" where
  "st_bindDouble name v = st_bind name (DbDouble v)"

definition st_bindBool :: "string \<Rightarrow> bool \<Rightarrow> PreparedStatement \<Rightarrow> PreparedStatement" where
  "st_bindBool name v = st_bind name (DbBool v)"

definition st_bindNull :: "string \<Rightarrow> PreparedStatement \<Rightarrow> PreparedStatement" where
  "st_bindNull name = st_bind name DbNull"

definition st_clearBindings :: "PreparedStatement \<Rightarrow> PreparedStatement" where
  "st_clearBindings stmt = stmt\<lparr>st_params := []\<rparr>"

text \<open>\<^verbatim>\<open>std::to_string(double)\<close> prints six decimals, rounded to nearest.\<close>

definition f64_to_string :: "rat \<Rightarrow> string" where
  "f64_to_string x =
     (let n = nat (rne (\<bar>x\<bar> * 1000000)); frac = to_string (n mod 1000000)
      in (if x < 0 then ''-'' else []) @ to_string (n div 1000000) @ ''.'' @ replicate (6 - length frac) (CHR ''0'') @ frac)"

abbreviation quote :: char where "quote \<equiv> CHR 0x27"
abbreviation dollar :: char where "dollar \<equiv> CHR 0x24"

definition escapeString :: "string \<Rightarrow> string" where
  "escapeString s = [quote] @ concat (map (\<lambda>c. if c = quote then [quote, quote] else [c]) s) @ [quote]"

fun replacementFor :: "DbValue \<Rightarrow> string" where
  "replacementFor DbNull = ''NULL''"
| "replacementFor (DbString s) = escapeString s"
| "replacementFor (DbInt i) = int_to_string (sint i)"
| "replacementFor (DbDouble d) = f64_to_string d"
| "replacementFor (DbBool b) = (if b then ''TRUE'' else ''FALSE'')"

definition isWord :: "char \<Rightarrow> bool" where
  "isWord c \<longleftrightarrow> isAlnum c \<or> c = CHR ''_''"

lemma sv_find_bounds: "sv_find s needle pos = Some k \<Longrightarrow> pos \<le> k \<and> k + length needle \<le> length s"
  by (cases "pos \<le> length s") (auto simp: sv_find_def dest!: findStr_Some_bound split: if_splits)

text \<open>The search-and-replace loop for the binding of \<open>name\<close>, from position \<open>pos\<close> on.\<close>

function replaceLoop :: "string \<Rightarrow> string \<Rightarrow> string \<Rightarrow> nat \<Rightarrow> string" where
  "replaceLoop name replacement resolved pos =
     (case sv_find resolved (dollar # name) pos of
        None \<Rightarrow> resolved
      | Some k \<Rightarrow>
          let endPos = k + length (dollar # name)
          in if endPos < length resolved \<and> isWord (resolved ! endPos)
             then replaceLoop name replacement resolved endPos
             else replaceLoop name replacement (take k resolved @ replacement @ drop endPos resolved)
                    (k + length replacement))"
  by auto
termination
  by (relation "measure (\<lambda>(n, r, s, pos). length s - pos)") (auto dest!: sv_find_bounds)

declare replaceLoop.simps [simp del]

definition st_resolve :: "PreparedStatement \<Rightarrow> string" where
  "st_resolve stmt = fold (\<lambda>(name, v) resolved. replaceLoop name (replacementFor v) resolved 0)
     (st_params stmt) (st_sql stmt)"

section \<open>Reference: one pass over the template\<close>

function substP :: "(string \<Rightarrow> string option) \<Rightarrow> string \<Rightarrow> string" where
  "substP env [] = []"
| "substP env (c # cs) =
     (if c = dollar
      then let w = takeWhile isWord cs; rest = dropWhile isWord cs
           in (case env w of Some r \<Rightarrow> r | None \<Rightarrow> dollar # w) @ substP env rest
      else c # substP env cs)"
  by pat_completeness auto
termination
  by (relation "measure (\<lambda>(env, s). length s)") (auto simp: less_Suc_eq_le length_dropWhile_le)

text \<open>No placeholder is followed directly by another one.\<close>

function separated :: "string \<Rightarrow> bool" where
  "separated [] \<longleftrightarrow> True"
| "separated (c # cs) \<longleftrightarrow>
     (if c = dollar
      then let rest = dropWhile isWord cs in (rest = [] \<or> hd rest \<noteq> dollar) \<and> separated rest
      else separated cs)"
  by pat_completeness auto
termination
  by (relation "measure length") (auto simp: less_Suc_eq_le length_dropWhile_le)

definition wordName :: "string \<Rightarrow> bool" where
  "wordName n \<longleftrightarrow> (\<forall>c \<in> set n. isWord c)"

lemma not_isWord_dollar [simp]: "\<not> isWord dollar"
  by code_simp

lemma not_isWord_quote [simp]: "\<not> isWord quote"
  by code_simp

lemma wordName_no_dollar: "wordName n \<Longrightarrow> dollar \<notin> set n"
  by (auto simp: wordName_def)

lemma takeWhile_isWord_no_dollar [simp]: "dollar \<notin> set (takeWhile isWord s)"
  by (auto dest!: set_takeWhileD)

subsection \<open>One binding is one pass\<close>

lemma findStr_step: "\<not> prefix needle (c # s) \<Longrightarrow> findStr needle (c # s) = map_option Suc (findStr needle s)"
  by simp

lemma replaceLoop_found:
  assumes "rest = [] \<or> \<not> isWord (hd rest)"
  shows "replaceLoop name r (pre @ dollar # name @ rest) (length pre) = replaceLoop name r ((pre @ r) @ rest) (length (pre @ r))"
proof -
  have "sv_find (pre @ dollar # name @ rest) (dollar # name) (length pre) = Some (length pre)"
    using findStr_found [of "dollar # name" rest] by (simp add: sv_find_at)
  with assms show ?thesis
    by (subst replaceLoop.simps) (cases rest; simp add: Let_def nth_append)
qed

lemma replaceLoop_skip:
  assumes "sv_find (pre @ u @ s) (dollar # name) (length pre) = sv_find (pre @ u @ s) (dollar # name) (length (pre @ u))"
  shows "replaceLoop name r (pre @ u @ s) (length pre) = replaceLoop name r ((pre @ u) @ s) (length (pre @ u))"
  unfolding append_assoc using assms by (subst (1 2) replaceLoop.simps) simp

lemma replaceLoop_skip_text:
  assumes "dollar \<notin> set u"
  shows "replaceLoop name r (pre @ u @ s) (length pre) = replaceLoop name r ((pre @ u) @ s) (length (pre @ u))"
proof (rule replaceLoop_skip)
  show "sv_find (pre @ u @ s) (dollar # name) (length pre) = sv_find (pre @ u @ s) (dollar # name) (length (pre @ u))"
    using sv_find_at [of "pre @ u" s] assms
    by (cases "findStr (dollar # name) s") (simp_all add: sv_find_at findStr_skip)
qed

lemma replaceLoop_skip_dollar:
  assumes "\<not> prefix name s"
  shows "replaceLoop name r (pre @ dollar # s) (length pre) = replaceLoop name r ((pre @ [dollar]) @ s) (length (pre @ [dollar]))"
proof -
  have "sv_find (pre @ [dollar] @ s) (dollar # name) (length pre) = sv_find (pre @ [dollar] @ s) (dollar # name) (length (pre @ [dollar]))"
    using sv_find_at [of "pre @ [dollar]" s] assms
    by (cases "findStr (dollar # name) s") (simp_all add: sv_find_at)
  from replaceLoop_skip [OF this] show ?thesis by simp
qed

lemma replaceLoop_longer_word:
  assumes "s \<noteq> []" "isWord (hd s)"
  shows "replaceLoop name r (pre @ dollar # name @ s) (length pre) =
         replaceLoop name r ((pre @ dollar # name) @ s) (length (pre @ dollar # name))"
proof -
  have "sv_find (pre @ dollar # name @ s) (dollar # name) (length pre) = Some (length pre)"
    using findStr_found [of "dollar # name" s] by (simp add: sv_find_at)
  with assms show ?thesis
    by (subst replaceLoop.simps) (cases s; simp add: Let_def nth_append)
qed

lemma takeWhile_isWord_append:
  "wordName n \<Longrightarrow> takeWhile isWord (n @ s) = n @ takeWhile isWord s"
  "wordName n \<Longrightarrow> dropWhile isWord (n @ s) = dropWhile isWord s"
  by (auto simp: wordName_def)

lemma replaceLoop_word:
  assumes "wordName name" "takeWhile isWord cs \<noteq> name"
  shows "replaceLoop name r (pre @ dollar # cs) (length pre) =
         replaceLoop name r ((pre @ dollar # takeWhile isWord cs) @ dropWhile isWord cs) (length (pre @ dollar # takeWhile isWord cs))"
proof (cases "prefix name cs")
  case True
  then obtain t where t: "cs = name @ t" by (auto simp: prefix_def)
  then have "takeWhile isWord t \<noteq> []" using assms by (auto simp: takeWhile_isWord_append)
  then have "t \<noteq> []" "isWord (hd t)" by (cases t; auto split: if_splits)+
  from replaceLoop_longer_word [OF this, of name r pre]
    replaceLoop_skip_text [of "takeWhile isWord t" name r "pre @ dollar # name" "dropWhile isWord t"]
  show ?thesis by (simp add: t takeWhile_isWord_append [OF assms(1)])
next
  case False
  from replaceLoop_skip_dollar [OF False, of r pre]
    replaceLoop_skip_text [of "takeWhile isWord cs" name r "pre @ [dollar]" "dropWhile isWord cs"]
  show ?thesis by simp
qed

lemma dropWhile_isWord_stops: "dropWhile isWord cs = [] \<or> \<not> isWord (hd (dropWhile isWord cs))"
  using hd_dropWhile [of isWord cs] by blast

lemma replaceLoop_at:
  assumes name: "wordName name"
  shows "replaceLoop name r (pre @ s) (length pre) = pre @ substP [name \<mapsto> r] s"
proof (induction "[name \<mapsto> r]" s arbitrary: pre rule: substP.induct)
  case 1
  then show ?case by (subst replaceLoop.simps) (use sv_find_at [of pre "[]"] in simp)
next
  case (2 c cs)
  show ?case
  proof (cases "c = dollar")
    case False
    with 2(2) [of "pre @ [c]"] replaceLoop_skip_text [of "[c]" name r pre cs] show ?thesis by simp
  next
    case True
    note rest = 2(1) [OF True refl refl]
    show ?thesis
    proof (cases "takeWhile isWord cs = name")
      case w: True
      then have cs: "cs = name @ dropWhile isWord cs" by (metis takeWhile_dropWhile_id)
      have "replaceLoop name r (pre @ dollar # cs) (length pre) = (pre @ r) @ substP [name \<mapsto> r] (dropWhile isWord cs)"
        using replaceLoop_found [OF dropWhile_isWord_stops, of name r pre cs] rest [of "pre @ r"] cs by metis
      with True w show ?thesis by simp
    next
      case False
      with replaceLoop_word [OF name False, of r pre] rest [of "pre @ dollar # takeWhile isWord cs"] True
      show ?thesis by simp
    qed
  qed
qed

lemma replaceLoop_substP: "wordName name \<Longrightarrow> replaceLoop name r s 0 = substP [name \<mapsto> r] s"
  using replaceLoop_at [of name r "[]" s] by simp

subsection \<open>The bindings one after the other are one pass\<close>

lemma substP_text: "dollar \<notin> set u \<Longrightarrow> substP env (u @ s) = u @ substP env s"
  by (induction u) auto

lemma separated_text: "dollar \<notin> set u \<Longrightarrow> separated (u @ s) = separated s"
  by (induction u) auto

lemma substP_head:
  "s \<noteq> [] \<Longrightarrow> hd s \<noteq> dollar \<Longrightarrow> substP env s \<noteq> [] \<and> hd (substP env s) = hd s"
  by (cases s) auto

text \<open>Text that follows a placeholder in a separated template stays apart from it.\<close>

lemma placeholder_stays:
  assumes "w = takeWhile isWord cs" "rest = dropWhile isWord cs" "rest = [] \<or> hd rest \<noteq> dollar"
  shows "takeWhile isWord (w @ substP env rest) = w" "dropWhile isWord (w @ substP env rest) = substP env rest"
    "substP env rest = [] \<or> hd (substP env rest) \<noteq> dollar"
proof -
  have w: "wordName w" by (auto simp: assms(1) wordName_def dest!: set_takeWhileD)
  have stop: "substP env rest = [] \<or> \<not> isWord (hd (substP env rest))"
    using assms(3) dropWhile_isWord_stops [of cs, folded assms(2)] substP_head [of rest env] by (cases "rest = []") auto
  then have "takeWhile isWord (substP env rest) = []" "dropWhile isWord (substP env rest) = substP env rest"
    by (cases "substP env rest"; simp)+
  with w show "takeWhile isWord (w @ substP env rest) = w" "dropWhile isWord (w @ substP env rest) = substP env rest"
    by (simp_all add: takeWhile_isWord_append)
  show "substP env rest = [] \<or> hd (substP env rest) \<noteq> dollar"
    using assms(3) substP_head [of rest env] by (cases "rest = []") auto
qed

lemma substP_once:
  assumes r: "dollar \<notin> set r" and "separated s"
  shows "separated (substP [n \<mapsto> r] s) \<and> substP env (substP [n \<mapsto> r] s) = substP (env(n \<mapsto> r)) s"
  using assms(2)
proof (induction s rule: separated.induct)
  case 1
  then show ?case by simp
next
  case (2 c cs)
  show ?case
  proof (cases "c = dollar")
    case False
    with 2 show ?thesis by simp
  next
    case True
    define w where "w = takeWhile isWord cs"
    define rest where "rest = dropWhile isWord cs"
    have sep: "rest = [] \<or> hd rest \<noteq> dollar" "separated rest" using 2(3) True by (simp_all add: rest_def Let_def)
    note ih = 2(1) [OF True rest_def sep(2)]
    note stays = placeholder_stays [OF w_def rest_def sep(1)]
    show ?thesis
    proof (cases "w = n")
      case True
      with ih r \<open>c = dollar\<close> show ?thesis
        by (simp add: w_def [symmetric] rest_def [symmetric] separated_text substP_text)
    next
      case False
      with ih stays \<open>c = dollar\<close> show ?thesis
        by (simp add: w_def [symmetric] rest_def [symmetric])
    qed
  qed
qed

definition bindings :: "(string, DbValue) umap \<Rightarrow> string \<Rightarrow> string option" where
  "bindings params n = map_option replacementFor (map_of params n)"

lemma bindings_Cons: "bindings ((n, v) # ps) = (bindings ps)(n \<mapsto> replacementFor v)"
  by (auto simp: bindings_def)

lemma substP_empty: "substP Map.empty s = s"
  by (induction "Map.empty :: string \<Rightarrow> string option" s rule: substP.induct) (auto simp: Let_def)

lemma resolve_fold:
  assumes "\<forall>(n, v) \<in> set ps. wordName n \<and> dollar \<notin> set (replacementFor v)" "separated s"
  shows "fold (\<lambda>(name, v) resolved. replaceLoop name (replacementFor v) resolved 0) ps s = substP (bindings ps) s"
  using assms
proof (induction ps arbitrary: s)
  case Nil
  have "bindings [] = Map.empty" by (auto simp: bindings_def)
  then show ?case by (simp add: substP_empty)
next
  case (Cons p ps)
  obtain n v where p: "p = (n, v)" by (cases p)
  with Cons.prems have "wordName n" "dollar \<notin> set (replacementFor v)" by auto
  with Cons show ?case
    using substP_once [of "replacementFor v" s n "bindings ps"] by (simp add: p replaceLoop_substP bindings_Cons fun_upd_def)
qed

section \<open>How SQL reads the resolved text\<close>

fun readLiteral :: "string \<Rightarrow> (string \<times> string) option" where
  "readLiteral [] = None"
| "readLiteral (c # cs) =
     (if c \<noteq> quote then map_option (\<lambda>(v, rest). (c # v, rest)) (readLiteral cs)
      else case cs of
        d # ds \<Rightarrow> if d = quote then map_option (\<lambda>(v, rest). (quote # v, rest)) (readLiteral ds) else Some ([], cs)
      | [] \<Rightarrow> Some ([], []))"

lemma readLiteral_shorter: "readLiteral s = Some (v, rest) \<Longrightarrow> length rest < length s"
  by (induction s arbitrary: v rule: readLiteral.induct) (force split: if_splits list.splits)+

datatype SqlToken = Chr char | Lit string | Unclosed string

function sqlTokens :: "string \<Rightarrow> SqlToken list" where
  "sqlTokens [] = []"
| "sqlTokens (c # cs) =
     (if c = quote then (case readLiteral cs of Some (v, rest) \<Rightarrow> Lit v # sqlTokens rest | None \<Rightarrow> [Unclosed cs])
      else Chr c # sqlTokens cs)"
  by pat_completeness auto
termination
  by (relation "measure length") (auto dest: readLiteral_shorter)

text \<open>What the template means: a string binding is one literal, any other binding its text.\<close>

function substTokens :: "(string, DbValue) umap \<Rightarrow> string \<Rightarrow> SqlToken list" where
  "substTokens params [] = []"
| "substTokens params (c # cs) =
     (if c = dollar
      then let w = takeWhile isWord cs; rest = dropWhile isWord cs
           in (case map_of params w of
                 Some (DbString v) \<Rightarrow> [Lit v]
               | Some v \<Rightarrow> map Chr (replacementFor v)
               | None \<Rightarrow> map Chr (dollar # w)) @ substTokens params rest
      else Chr c # substTokens params cs)"
  by pat_completeness auto
termination
  by (relation "measure (\<lambda>(ps, s). length s)") (auto simp: less_Suc_eq_le length_dropWhile_le)

definition escaped :: "string \<Rightarrow> string" where
  "escaped v = concat (map (\<lambda>c. if c = quote then [quote, quote] else [c]) v)"

lemma escapeString_escaped: "escapeString v = quote # escaped v @ [quote]"
  by (simp add: escapeString_def escaped_def)

text \<open>A literal reads back as the value it was made from.\<close>

lemma readLiteral_escaped:
  assumes "rest = [] \<or> hd rest \<noteq> quote"
  shows "readLiteral (escaped v @ quote # rest) = Some (v, rest)"
proof (induction v)
  case Nil
  from assms show ?case by (cases rest) (auto simp: escaped_def)
next
  case (Cons c v)
  then show ?case by (auto simp: escaped_def)
qed

lemma sqlTokens_literal:
  "rest = [] \<or> hd rest \<noteq> quote \<Longrightarrow> sqlTokens (escapeString v @ rest) = Lit v # sqlTokens rest"
  by (simp add: escapeString_escaped readLiteral_escaped)

lemma sqlTokens_text: "quote \<notin> set u \<Longrightarrow> sqlTokens (u @ s) = map Chr u @ sqlTokens s"
  by (induction u) auto

lemma isDigit_plain: "isDigit c \<Longrightarrow> c \<noteq> quote \<and> c \<noteq> dollar"
  by (auto simp: isDigit_def)

lemma to_string_no_quotes: "quote \<notin> set (to_string n)" "dollar \<notin> set (to_string n)"
  by (metis to_string_digits isDigit_plain)+

lemma replacementFor_plain:
  assumes "\<And>s. v \<noteq> DbString s"
  shows "quote \<notin> set (replacementFor v)" "dollar \<notin> set (replacementFor v)"
  using assms by (cases v; auto simp: int_to_string_def f64_to_string_def Let_def to_string_no_quotes)+

lemma escaped_dollar: "dollar \<in> set (replacementFor (DbString s)) \<longleftrightarrow> dollar \<in> set s"
  by (auto simp: escapeString_escaped escaped_def split: if_splits)

definition plainValue :: "DbValue \<Rightarrow> bool" where
  "plainValue v \<longleftrightarrow> (case v of DbString s \<Rightarrow> dollar \<notin> set s | _ \<Rightarrow> True)"

lemma plainValue_dollar: "plainValue v \<Longrightarrow> dollar \<notin> set (replacementFor v)"
  using escaped_dollar replacementFor_plain(2) [of v] by (cases v) (auto simp: plainValue_def simp del: replacementFor.simps)

lemma quote_dropWhile: "quote \<notin> set cs \<Longrightarrow> quote \<notin> set (takeWhile isWord cs) \<and> quote \<notin> set (dropWhile isWord cs)"
  by (metis set_takeWhileD set_dropWhileD)

lemma sqlTokens_substP:
  assumes "separated s" "quote \<notin> set s"
  shows "sqlTokens (substP (bindings ps) s) = substTokens ps s"
  using assms
proof (induction s rule: separated.induct)
  case 1
  then show ?case by simp
next
  case (2 c cs)
  show ?case
  proof (cases "c = dollar")
    case False
    with 2 show ?thesis by auto
  next
    case True
    define w where "w = takeWhile isWord cs"
    define rest where "rest = dropWhile isWord cs"
    have sep: "rest = [] \<or> hd rest \<noteq> dollar" "separated rest" using 2(3) True by (simp_all add: rest_def Let_def)
    have q: "quote \<notin> set w" "quote \<notin> set rest" using 2(4) quote_dropWhile [of cs] by (simp_all add: w_def rest_def)
    note ih = 2(1) [OF True rest_def sep(2) q(2)]
    have hd: "substP (bindings ps) rest = [] \<or> hd (substP (bindings ps) rest) \<noteq> quote"
      using sep(1) q(2) substP_head [of rest "bindings ps"] by (cases rest) auto
    show ?thesis
    proof (cases "map_of ps w")
      case None
      with ih True q(1) show ?thesis
        by (simp add: w_def [symmetric] rest_def [symmetric] bindings_def sqlTokens_text)
    next
      case (Some v)
      show ?thesis
      proof (cases "\<exists>t. v = DbString t")
        case True
        with Some have "bindings ps w = Some (replacementFor v)" by (simp add: bindings_def)
        with True Some ih sqlTokens_literal [OF hd] \<open>c = dollar\<close> show ?thesis
          by (auto simp: w_def [symmetric] rest_def [symmetric])
      next
        case False
        then have "quote \<notin> set (replacementFor v)" using replacementFor_plain(1) by metis
        with False Some ih \<open>c = dollar\<close> show ?thesis
          by (auto simp: w_def [symmetric] rest_def [symmetric] bindings_def sqlTokens_text
              simp del: replacementFor.simps split: DbValue.splits)
      qed
    qed
  qed
qed

definition goodStatement :: "PreparedStatement \<Rightarrow> bool" where
  "goodStatement stmt \<longleftrightarrow> separated (st_sql stmt) \<and> (\<forall>(n, v) \<in> set (st_params stmt). wordName n \<and> plainValue v)"

lemma resolve_substP: "goodStatement stmt \<Longrightarrow> st_resolve stmt = substP (bindings (st_params stmt)) (st_sql stmt)"
  unfolding st_resolve_def goodStatement_def by (rule resolve_fold) (auto dest: plainValue_dollar)

section \<open>Properties\<close>


abbreviation demoStatement :: PreparedStatement where
  "demoStatement \<equiv> st_bindInt ''lvl'' 10 (st_bindString ''who'' [quote, CHR '';''] (mkPreparedStatement ''u=$who, l>$lvl''))"


text \<open>A bound string that holds the placeholder of a binding substituted later is itself rewritten: the
  quotes of the second value close the literal of the first, and the text of the value is read as
  SQL outside every literal.\<close>

theorem dollar_in_value_escapes_literal:
  "\<exists>stmt. quote \<notin> set (st_sql stmt) \<and> separated (st_sql stmt) \<and> (\<forall>(n, v) \<in> set (st_params stmt). wordName n) \<and>
     sqlTokens (st_resolve stmt) \<noteq> substTokens (st_params stmt) (st_sql stmt) \<and>
     Chr (CHR ''!'') \<in> set (sqlTokens (st_resolve stmt))"
proof (intro exI conjI)
  let ?s = "st_bindString ''b'' ''!'' (st_bindString ''a'' ''$b'' (mkPreparedStatement ''x=$a''))"
  show "quote \<notin> set (st_sql ?s)" by code_simp
  show "separated (st_sql ?s)" by code_simp
  show "\<forall>(n, v) \<in> set (st_params ?s). wordName n" by code_simp
  show "sqlTokens (st_resolve ?s) \<noteq> substTokens (st_params ?s) (st_sql ?s)" by code_simp
  show "Chr (CHR ''!'') \<in> set (sqlTokens (st_resolve ?s))" by code_simp
qed

end
