(* ===== verification/Game_Database.thy ===== *)
theory Game_Database
  imports Prepared_Statement
begin

text \<open>
  The connection pool and the transactions of the database adapter
  (\<^verbatim>\<open>foundation/database/game_database.cpp\<close>). The database itself is a third-party package: the
  record \<open>DbDriver\<close> of the calls the adapter makes, on an opaque state of the database world, is an
  argument of every operation that makes one. A connection is named by a number that is never given
  out twice, as the address of its manager object is not while anybody holds it.

  A caller that finds no free connection waits on a condition variable; \<open>waits\<close> lists, for every
  time it is woken before its deadline, the critical sections other threads ran meanwhile, and the
  end of the list is the timeout. \<open>pool_step\<close> interleaves the critical sections of all threads;
  its third component lists the connections the callers hold in their local variables and
  transactions. Shown are that no connection is ever held twice, that in use means held, and what
  each call does to the pool.
\<close>

section \<open>The database driver\<close>

datatype KcValue = KcNull | KcString string | KcInt u64 | KcDouble rat | KcBool bool | KcOther

datatype database_types = postgres | sqlite

record 'd DbDriver =
  drv_set_mode :: "nat \<Rightarrow> database_types \<Rightarrow> 'd \<Rightarrow> bool \<times> 'd"
  drv_connect :: "nat \<Rightarrow> string \<Rightarrow> 'd \<Rightarrow> (string + unit) \<times> 'd"
  drv_disconnect :: "nat \<Rightarrow> 'd \<Rightarrow> 'd"
  drv_select :: "nat \<Rightarrow> string \<Rightarrow> 'd \<Rightarrow> (string + (string \<times> KcValue) list list) \<times> 'd"
  drv_execute :: "nat \<Rightarrow> string \<Rightarrow> 'd \<Rightarrow> (string + unit) \<times> 'd"
  drv_begin :: "nat \<Rightarrow> 'd \<Rightarrow> (string + unit) \<times> 'd"
  drv_commit :: "nat \<Rightarrow> 'd \<Rightarrow> (string + unit) \<times> 'd"
  drv_rollback :: "nat \<Rightarrow> 'd \<Rightarrow> (string + unit) \<times> 'd"

fun toKcenon :: "DatabaseType \<Rightarrow> database_types" where
  "toKcenon PostgreSQL = postgres"
| "toKcenon SQLite = sqlite"

fun convertValue :: "KcValue \<Rightarrow> DbValue" where
  "convertValue KcNull = DbNull"
| "convertValue (KcString s) = DbString s"
| "convertValue (KcInt i) = DbInt i"
| "convertValue (KcDouble d) = DbDouble d"
| "convertValue (KcBool b) = DbBool b"
| "convertValue KcOther = DbNull"

definition convertResult :: "(string \<times> KcValue) list list \<Rightarrow> QueryResult" where
  "convertResult kcResult =
     map (\<lambda>kcRow. fold (\<lambda>(col, val) row. AList.update col (convertValue val) row) kcRow []) kcResult"

section \<open>State\<close>

record PooledConnection =
  pc_manager :: nat
  pc_inUse :: bool

record GameDatabase =
  gd_config :: DatabaseConfig
  gd_pool :: "PooledConnection list"
  gd_connected :: bool
  gd_nextManager :: nat

definition defaultDatabaseConfig :: DatabaseConfig where
  "defaultDatabaseConfig = \<lparr>dc_connectionString = [], dc_dbType = PostgreSQL, dc_minConnections = 2,
     dc_maxConnections = 10, dc_connectionTimeout = 30\<rparr>"

definition mkGameDatabase :: GameDatabase where
  "mkGameDatabase = \<lparr>gd_config = defaultDatabaseConfig, gd_pool = [], gd_connected = False, gd_nextManager = 0\<rparr>"

text \<open>\<^verbatim>\<open>Transaction::Impl\<close>; its callback always returns the connection to the pool it came from. The
  \<open>None\<close> of a \<open>Transaction\<close> is the null pointer of one that was moved from.\<close>

record TransactionImpl =
  ti_manager :: nat
  ti_active :: bool
  ti_ownsConnection :: bool

type_synonym Transaction = "TransactionImpl option"

section \<open>The pool\<close>

definition gd_createConnection :: "'d DbDriver \<Rightarrow> GameDatabase \<times> 'd \<Rightarrow> PooledConnection option \<times> GameDatabase \<times> 'd" where
  "gd_createConnection drv = (\<lambda>(db, d).
     let m = gd_nextManager db; db1 = db\<lparr>gd_nextManager := Suc m\<rparr>;
         (modeOk, d1) = drv_set_mode drv m (toKcenon (dc_dbType (gd_config db))) d
     in if \<not> modeOk then (None, db1, d1)
        else case drv_connect drv m (dc_connectionString (gd_config db)) d1 of
          (Inl e, d2) \<Rightarrow> (None, db1, d2)
        | (Inr _, d2) \<Rightarrow> (Some \<lparr>pc_manager = m, pc_inUse = False\<rparr>, db1, d2))"

text \<open>One turn of the loop in \<^verbatim>\<open>checkout()\<close>: the first free connection, or a new one if there is room.\<close>

fun takeFree :: "PooledConnection list \<Rightarrow> (nat \<times> PooledConnection list) option" where
  "takeFree [] = None"
| "takeFree (conn # pool) =
     (if \<not> pc_inUse conn then Some (pc_manager conn, conn\<lparr>pc_inUse := True\<rparr> # pool)
      else map_option (\<lambda>(m, pool'). (m, conn # pool')) (takeFree pool))"

definition gd_tryCheckout :: "'d DbDriver \<Rightarrow> GameDatabase \<times> 'd \<Rightarrow> nat option \<times> GameDatabase \<times> 'd" where
  "gd_tryCheckout drv = (\<lambda>(db, d).
     case takeFree (gd_pool db) of
       Some (m, pool') \<Rightarrow> (Some m, db\<lparr>gd_pool := pool'\<rparr>, d)
     | None \<Rightarrow>
         if length (gd_pool db) < unat (dc_maxConnections (gd_config db))
         then case gd_createConnection drv (db, d) of
           (Some conn, db', d') \<Rightarrow>
             (Some (pc_manager conn), db'\<lparr>gd_pool := gd_pool db' @ [conn\<lparr>pc_inUse := True\<rparr>]\<rparr>, d')
         | (None, db', d') \<Rightarrow> (None, db', d')
         else (None, db, d))"

fun checkinPool :: "nat \<Rightarrow> PooledConnection list \<Rightarrow> PooledConnection list" where
  "checkinPool m [] = []"
| "checkinPool m (conn # pool) =
     (if pc_manager conn = m then conn\<lparr>pc_inUse := False\<rparr> # pool else conn # checkinPool m pool)"

definition gd_checkin :: "nat \<Rightarrow> GameDatabase \<Rightarrow> GameDatabase" where
  "gd_checkin m db = db\<lparr>gd_pool := checkinPool m (gd_pool db)\<rparr>"

datatype PoolAction = TakeConn | GiveConn nat

fun othersStep :: "'d DbDriver \<Rightarrow> PoolAction \<Rightarrow> GameDatabase \<times> 'd \<Rightarrow> GameDatabase \<times> 'd" where
  "othersStep drv TakeConn st = snd (gd_tryCheckout drv st)"
| "othersStep drv (GiveConn m) st = (gd_checkin m (fst st), snd st)"

fun gd_checkout :: "'d DbDriver \<Rightarrow> PoolAction list list \<Rightarrow> GameDatabase \<times> 'd \<Rightarrow> nat option \<times> GameDatabase \<times> 'd" where
  "gd_checkout drv waits st =
     (case gd_tryCheckout drv st of
        (Some m, st') \<Rightarrow> (Some m, st')
      | (None, st') \<Rightarrow>
          case waits of
            [] \<Rightarrow> (None, st')
          | acts # waits' \<Rightarrow> gd_checkout drv waits' (fold (othersStep drv) acts st'))"

declare gd_checkout.simps [simp del]

definition gd_countActive :: "GameDatabase \<Rightarrow> nat" where
  "gd_countActive db = length (filter pc_inUse (gd_pool db))"

definition gd_poolSize :: "GameDatabase \<Rightarrow> nat" where
  "gd_poolSize db = length (gd_pool db)"

section \<open>Operations\<close>

definition gd_disconnect :: "'d DbDriver \<Rightarrow> GameDatabase \<times> 'd \<Rightarrow> GameDatabase \<times> 'd" where
  "gd_disconnect drv = (\<lambda>(db, d).
     (db\<lparr>gd_connected := False, gd_pool := []\<rparr>, fold (\<lambda>conn. drv_disconnect drv (pc_manager conn)) (gd_pool db) d))"

text \<open>The loop of \<^verbatim>\<open>connect()\<close>: \<open>n\<close> connections are still to be made, \<open>i\<close> have been.\<close>

primrec connectLoop :: "nat \<Rightarrow> 'd DbDriver \<Rightarrow> u32 \<Rightarrow> GameDatabase \<times> 'd \<Rightarrow> unit GameResult \<times> GameDatabase \<times> 'd" where
  "connectLoop 0 drv minConns st = (Inr (), (fst st)\<lparr>gd_connected := True\<rparr>, snd st)"
| "connectLoop (Suc n) drv minConns st =
     (case gd_createConnection drv st of
        (None, st') \<Rightarrow>
          (Inl (mkGameError DatabaseError (''failed to create connection '' @
             to_string (unat minConns - n) @ ''/'' @ to_string (unat minConns))), gd_disconnect drv st')
      | (Some conn, db', d') \<Rightarrow> connectLoop n drv minConns (db'\<lparr>gd_pool := gd_pool db' @ [conn]\<rparr>, d'))"

definition gd_connect :: "'d DbDriver \<Rightarrow> DatabaseConfig \<Rightarrow> GameDatabase \<times> 'd \<Rightarrow> unit GameResult \<times> GameDatabase \<times> 'd" where
  "gd_connect drv config = (\<lambda>(db, d).
     if gd_connected db then (Inl (mkGameError AlreadyExists ''already connected''), db, d)
     else connectLoop (unat (dc_minConnections config)) drv (dc_minConnections config) (db\<lparr>gd_config := config\<rparr>, d))"

definition gd_isConnected :: "GameDatabase \<Rightarrow> bool" where
  "gd_isConnected db = gd_connected db"

definition gd_query :: "'d DbDriver \<Rightarrow> PoolAction list list \<Rightarrow> string \<Rightarrow> GameDatabase \<times> 'd \<Rightarrow> QueryResult GameResult \<times> GameDatabase \<times> 'd" where
  "gd_query drv waits sql st =
     (if \<not> gd_connected (fst st) then (Inl (mkGameError NotConnected ''not connected to database''), st)
      else case gd_checkout drv waits st of
        (None, st') \<Rightarrow> (Inl (mkGameError ConnectionPoolExhausted ''no available connections in pool''), st')
      | (Some m, db1, d1) \<Rightarrow>
          let (result, d2) = drv_select drv m sql d1; db2 = gd_checkin m db1
          in case result of
               Inl message \<Rightarrow> (Inl (mkGameError QueryFailed message), db2, d2)
             | Inr rows \<Rightarrow> (Inr (convertResult rows), db2, d2))"

definition gd_execute :: "'d DbDriver \<Rightarrow> PoolAction list list \<Rightarrow> string \<Rightarrow> GameDatabase \<times> 'd \<Rightarrow> u64 GameResult \<times> GameDatabase \<times> 'd" where
  "gd_execute drv waits sql st =
     (if \<not> gd_connected (fst st) then (Inl (mkGameError NotConnected ''not connected to database''), st)
      else case gd_checkout drv waits st of
        (None, st') \<Rightarrow> (Inl (mkGameError ConnectionPoolExhausted ''no available connections in pool''), st')
      | (Some m, db1, d1) \<Rightarrow>
          let (result, d2) = drv_execute drv m sql d1; db2 = gd_checkin m db1
          in case result of
               Inl message \<Rightarrow> (Inl (mkGameError QueryFailed message), db2, d2)
             | Inr _ \<Rightarrow> (Inr 0, db2, d2))"

definition gd_prepare :: "string \<Rightarrow> GameDatabase \<Rightarrow> PreparedStatement GameResult" where
  "gd_prepare sql db =
     (if \<not> gd_connected db then Inl (mkGameError NotConnected ''not connected to database'')
      else Inr (mkPreparedStatement sql))"

definition gd_executeStmt :: "'d DbDriver \<Rightarrow> PoolAction list list \<Rightarrow> PreparedStatement \<Rightarrow> GameDatabase \<times> 'd \<Rightarrow> QueryResult GameResult \<times> GameDatabase \<times> 'd" where
  "gd_executeStmt drv waits stmt st = gd_query drv waits (st_resolve stmt) st"

definition gd_beginTransaction :: "'d DbDriver \<Rightarrow> PoolAction list list \<Rightarrow> GameDatabase \<times> 'd \<Rightarrow> Transaction GameResult \<times> GameDatabase \<times> 'd" where
  "gd_beginTransaction drv waits st =
     (if \<not> gd_connected (fst st) then (Inl (mkGameError NotConnected ''not connected to database''), st)
      else case gd_checkout drv waits st of
        (None, st') \<Rightarrow> (Inl (mkGameError ConnectionPoolExhausted ''no available connections in pool''), st')
      | (Some m, db1, d1) \<Rightarrow>
          (case drv_begin drv m d1 of
             (Inl message, d2) \<Rightarrow>
               (Inl (mkGameError TransactionFailed (''failed to begin transaction: '' @ message)), gd_checkin m db1, d2)
           | (Inr _, d2) \<Rightarrow>
               (Inr (Some \<lparr>ti_manager = m, ti_active = True, ti_ownsConnection = True\<rparr>), db1, d2)))"

section \<open>Transactions\<close>

definition notActive :: GameError where
  "notActive = mkGameError TransactionFailed ''transaction not active''"

definition tx_isActive :: "Transaction \<Rightarrow> bool" where
  "tx_isActive t \<longleftrightarrow> (case t of None \<Rightarrow> False | Some ti \<Rightarrow> ti_active ti)"

definition tx_commit :: "'d DbDriver \<Rightarrow> Transaction \<times> 'd \<Rightarrow> unit GameResult \<times> Transaction \<times> 'd" where
  "tx_commit drv = (\<lambda>(t, d). case t of
       None \<Rightarrow> (Inl notActive, t, d)
     | Some ti \<Rightarrow>
         if \<not> ti_active ti then (Inl notActive, t, d)
         else case drv_commit drv (ti_manager ti) d of
           (Inl message, d') \<Rightarrow>
             (Inl (mkGameError TransactionFailed (''commit failed: '' @ message)), Some (ti\<lparr>ti_active := False\<rparr>), d')
         | (Inr _, d') \<Rightarrow> (Inr (), Some (ti\<lparr>ti_active := False\<rparr>), d'))"

definition tx_rollback :: "'d DbDriver \<Rightarrow> Transaction \<times> 'd \<Rightarrow> unit GameResult \<times> Transaction \<times> 'd" where
  "tx_rollback drv = (\<lambda>(t, d). case t of
       None \<Rightarrow> (Inl notActive, t, d)
     | Some ti \<Rightarrow>
         if \<not> ti_active ti then (Inl notActive, t, d)
         else case drv_rollback drv (ti_manager ti) d of
           (Inl message, d') \<Rightarrow>
             (Inl (mkGameError TransactionFailed (''rollback failed: '' @ message)), Some (ti\<lparr>ti_active := False\<rparr>), d')
         | (Inr _, d') \<Rightarrow> (Inr (), Some (ti\<lparr>ti_active := False\<rparr>), d'))"

definition tx_query :: "'d DbDriver \<Rightarrow> string \<Rightarrow> Transaction \<times> 'd \<Rightarrow> QueryResult GameResult \<times> Transaction \<times> 'd" where
  "tx_query drv sql = (\<lambda>(t, d). case t of
       None \<Rightarrow> (Inl notActive, t, d)
     | Some ti \<Rightarrow>
         if \<not> ti_active ti then (Inl notActive, t, d)
         else case drv_select drv (ti_manager ti) sql d of
           (Inl message, d') \<Rightarrow> (Inl (mkGameError QueryFailed message), t, d')
         | (Inr rows, d') \<Rightarrow> (Inr (convertResult rows), t, d'))"

definition tx_execute :: "'d DbDriver \<Rightarrow> string \<Rightarrow> Transaction \<times> 'd \<Rightarrow> u64 GameResult \<times> Transaction \<times> 'd" where
  "tx_execute drv sql = (\<lambda>(t, d). case t of
       None \<Rightarrow> (Inl notActive, t, d)
     | Some ti \<Rightarrow>
         if \<not> ti_active ti then (Inl notActive, t, d)
         else case drv_execute drv (ti_manager ti) sql d of
           (Inl message, d') \<Rightarrow> (Inl (mkGameError QueryFailed message), t, d')
         | (Inr _, d') \<Rightarrow> (Inr 0, t, d'))"

text \<open>The destructor, which the move assignment also runs on the transaction it overwrites: an active
  transaction is rolled back, then the connection goes back to the pool.\<close>

definition tx_destroy :: "'d DbDriver \<Rightarrow> Transaction \<Rightarrow> GameDatabase \<times> 'd \<Rightarrow> GameDatabase \<times> 'd" where
  "tx_destroy drv t = (\<lambda>(db, d). case t of
       None \<Rightarrow> (db, d)
     | Some ti \<Rightarrow>
         let d' = (if ti_active ti then snd (drv_rollback drv (ti_manager ti) d) else d)
         in (if ti_ownsConnection ti then gd_checkin (ti_manager ti) db else db, d'))"

definition tx_moveAssign :: "'d DbDriver \<Rightarrow> Transaction \<Rightarrow> Transaction \<Rightarrow> GameDatabase \<times> 'd \<Rightarrow> Transaction \<times> Transaction \<times> GameDatabase \<times> 'd" where
  "tx_moveAssign drv this other st = (other, None, tx_destroy drv this st)"

section \<open>All threads together\<close>

type_synonym 'd PoolState = "GameDatabase \<times> 'd \<times> nat list"

inductive pool_step :: "'d DbDriver \<Rightarrow> 'd PoolState \<Rightarrow> 'd PoolState \<Rightarrow> bool" for drv where
  take_conn: "gd_tryCheckout drv (db, d) = (Some m, db', d') \<Longrightarrow> pool_step drv (db, d, H) (db', d', m # H)"
| no_conn: "gd_tryCheckout drv (db, d) = (None, db', d') \<Longrightarrow> pool_step drv (db, d, H) (db', d', H)"
| give_conn: "pool_step drv (db, d, H) (gd_checkin m db, d, remove1 m H)"
| use_conn: "pool_step drv (db, d, H) (db, d', H)"
| connect: "gd_connect drv config (db, d) = (r, db', d') \<Longrightarrow> pool_step drv (db, d, H) (db', d', H)"
| disconnect: "gd_disconnect drv (db, d) = (db', d') \<Longrightarrow> pool_step drv (db, d, H) (db', d', H)"

inductive_cases pool_stepE: "pool_step drv st st'"

abbreviation pool_steps :: "'d DbDriver \<Rightarrow> 'd PoolState \<Rightarrow> 'd PoolState \<Rightarrow> bool" where
  "pool_steps drv \<equiv> (pool_step drv)\<^sup>*\<^sup>*"

definition pool_inv :: "'d PoolState \<Rightarrow> bool" where
  "pool_inv = (\<lambda>(db, d, H).
     distinct (map pc_manager (gd_pool db)) \<and> distinct H \<and>
     (\<forall>m \<in> pc_manager ` set (gd_pool db) \<union> set H. m < gd_nextManager db) \<and>
     (\<forall>c \<in> set (gd_pool db). pc_inUse c \<longleftrightarrow> pc_manager c \<in> set H))"

subsection \<open>The pool list\<close>

lemma takeFree_Some:
  "takeFree pool = Some (m, pool') \<Longrightarrow>
     \<exists>pre conn post. pool = pre @ conn # post \<and> pool' = pre @ conn\<lparr>pc_inUse := True\<rparr> # post \<and>
        \<not> pc_inUse conn \<and> pc_manager conn = m \<and> (\<forall>c \<in> set pre. pc_inUse c)"
proof (induction pool arbitrary: pool')
  case Nil
  then show ?case by simp
next
  case (Cons c pool)
  show ?case
  proof (cases "pc_inUse c")
    case False
    with Cons.prems show ?thesis by (intro exI [of _ "[]"] exI [of _ c] exI [of _ pool]) auto
  next
    case True
    with Cons.prems obtain p where p: "takeFree pool = Some (m, p)" "pool' = c # p" by auto
    from Cons.IH [OF p(1)] obtain pre conn post where
      "pool = pre @ conn # post" "p = pre @ conn\<lparr>pc_inUse := True\<rparr> # post" "\<not> pc_inUse conn"
      "pc_manager conn = m" "\<forall>c \<in> set pre. pc_inUse c" by auto
    with True p show ?thesis by (intro exI [of _ "c # pre"] exI [of _ conn] exI [of _ post]) auto
  qed
qed

lemma takeFree_None: "takeFree pool = None \<longleftrightarrow> (\<forall>c \<in> set pool. pc_inUse c)"
  by (induction pool) auto

lemma checkinPool_managers [simp]: "map pc_manager (checkinPool m pool) = map pc_manager pool"
  by (induction pool) auto

lemma length_checkinPool [simp]: "length (checkinPool m pool) = length pool"
  by (induction pool) auto

lemma checkinPool_map:
  "distinct (map pc_manager pool) \<Longrightarrow>
     checkinPool m pool = map (\<lambda>c. if pc_manager c = m then c\<lparr>pc_inUse := False\<rparr> else c) pool"
proof (induction pool)
  case Nil
  then show ?case by simp
next
  case (Cons c pool)
  then show ?case by (auto intro!: map_idI [symmetric]) (metis image_eqI)
qed

lemma createConnection_cases:
  assumes "gd_createConnection drv (db, d) = (r, db', d')"
  shows "db' = db\<lparr>gd_nextManager := Suc (gd_nextManager db)\<rparr>"
    "r = None \<or> r = Some \<lparr>pc_manager = gd_nextManager db, pc_inUse = False\<rparr>"
  using assms by (auto simp: gd_createConnection_def Let_def split: prod.splits sum.splits if_splits)

lemma tryCheckout_cases [consumes 1, case_names free grow create_failed full]:
  assumes "gd_tryCheckout drv (db, d) = (r, db', d')"
  obtains
    pre conn post where "gd_pool db = pre @ conn # post" "\<not> pc_inUse conn" "r = Some (pc_manager conn)"
      "db' = db\<lparr>gd_pool := pre @ conn\<lparr>pc_inUse := True\<rparr> # post\<rparr>" "d' = d"
  | "\<forall>c \<in> set (gd_pool db). pc_inUse c" "length (gd_pool db) < unat (dc_maxConnections (gd_config db))"
      "r = Some (gd_nextManager db)"
      "db' = db\<lparr>gd_pool := gd_pool db @ [\<lparr>pc_manager = gd_nextManager db, pc_inUse = True\<rparr>], gd_nextManager := Suc (gd_nextManager db)\<rparr>"
  | "\<forall>c \<in> set (gd_pool db). pc_inUse c" "fst (gd_createConnection drv (db, d)) = None"
      "r = None" "db' = db\<lparr>gd_nextManager := Suc (gd_nextManager db)\<rparr>"
  | "\<forall>c \<in> set (gd_pool db). pc_inUse c" "unat (dc_maxConnections (gd_config db)) \<le> length (gd_pool db)"
      "r = None" "db' = db" "d' = d"
proof (cases "takeFree (gd_pool db)")
  case (Some mp)
  obtain m pool' where mp: "mp = (m, pool')" by (cases mp)
  from takeFree_Some [OF Some [unfolded mp]] obtain pre conn post where
    p: "gd_pool db = pre @ conn # post" "pool' = pre @ conn\<lparr>pc_inUse := True\<rparr> # post" "\<not> pc_inUse conn" "pc_manager conn = m"
    by blast
  have "r = Some m \<and> db' = db\<lparr>gd_pool := pool'\<rparr> \<and> d' = d" using assms Some mp by (simp add: gd_tryCheckout_def)
  with p show ?thesis by (intro that(1)) simp_all
next
  case None
  then have used: "\<forall>c \<in> set (gd_pool db). pc_inUse c" by (simp add: takeFree_None)
  show ?thesis
  proof (cases "length (gd_pool db) < unat (dc_maxConnections (gd_config db))")
    case False
    with None assms have "r = None \<and> db' = db \<and> d' = d" by (simp add: gd_tryCheckout_def)
    with False used show ?thesis by (intro that(4)) simp_all
  next
    case True
    obtain r1 db1 d1 where c: "gd_createConnection drv (db, d) = (r1, db1, d1)" by (metis prod_cases3)
    note cc = createConnection_cases [OF c]
    show ?thesis
    proof (cases r1)
      case n: None
      with c cc None True assms have "r = None \<and> db' = db\<lparr>gd_nextManager := Suc (gd_nextManager db)\<rparr>"
        by (simp add: gd_tryCheckout_def)
      with used c n show ?thesis by (intro that(3)) simp_all
    next
      case (Some conn)
      with c cc None True assms have "r = Some (gd_nextManager db) \<and>
          db' = db\<lparr>gd_nextManager := Suc (gd_nextManager db), gd_pool := gd_pool db @ [\<lparr>pc_manager = gd_nextManager db, pc_inUse = True\<rparr>]\<rparr>"
        by (auto simp: gd_tryCheckout_def)
      with used True show ?thesis by (intro that(2)) simp_all
    qed
  qed
qed

subsection \<open>Every critical section keeps the invariant\<close>

lemma pool_inv_take:
  assumes st: "pool_inv (db, d, H)" and t: "gd_tryCheckout drv (db, d) = (Some m, db', d')"
  shows "pool_inv (db', d', m # H)"
  using t
proof (cases rule: tryCheckout_cases)
  case (free pre conn post)
  with st show ?thesis by (auto simp: pool_inv_def) (metis image_eqI)+
next
  case grow
  with st show ?thesis by (auto simp: pool_inv_def less_Suc_eq)
qed simp_all

lemma pool_inv_none:
  assumes st: "pool_inv (db, d, H)" and t: "gd_tryCheckout drv (db, d) = (None, db', d')"
  shows "pool_inv (db', d', H)"
  using t
proof (cases rule: tryCheckout_cases)
  case create_failed
  with st show ?thesis by (auto simp: pool_inv_def less_Suc_eq)
next
  case full
  with st show ?thesis by (simp add: pool_inv_def)
qed simp_all

lemma pool_inv_give: "pool_inv (db, d, H) \<Longrightarrow> pool_inv (gd_checkin m db, d, remove1 m H)"
  unfolding pool_inv_def gd_checkin_def
  by (auto simp: checkinPool_map image_iff comp_def if_distrib [of pc_manager] cong: if_cong)

lemma pool_inv_disconnect: "pool_inv (db, d, H) \<Longrightarrow> gd_disconnect drv (db, d) = (db', d') \<Longrightarrow> pool_inv (db', d', H)"
  by (auto simp: pool_inv_def gd_disconnect_def)

lemma pool_inv_create:
  assumes "pool_inv (db, d, H)" "gd_createConnection drv (db, d) = (r, db', d')"
  shows "pool_inv (db', d', H)" "r = Some conn \<Longrightarrow> pool_inv (db'\<lparr>gd_pool := gd_pool db' @ [conn]\<rparr>, d', H)"
  using assms(1) createConnection_cases [OF assms(2)] by (auto simp: pool_inv_def less_Suc_eq)

lemma pool_inv_connectLoop:
  "pool_inv (db, d, H) \<Longrightarrow> connectLoop n drv k (db, d) = (r, db', d') \<Longrightarrow> pool_inv (db', d', H)"
proof (induction n arbitrary: db d)
  case 0
  then show ?case by (auto simp: pool_inv_def)
next
  case (Suc n)
  obtain r1 db1 d1 where c: "gd_createConnection drv (db, d) = (r1, db1, d1)" by (metis prod_cases3)
  note kept = pool_inv_create [OF Suc.prems(1) c]
  show ?case
  proof (cases r1)
    case None
    with Suc.prems c kept(1) show ?thesis by (auto intro: pool_inv_disconnect)
  next
    case (Some conn)
    with Suc.prems c Suc.IH [OF kept(2) [OF Some]] show ?thesis by simp
  qed
qed

lemma pool_inv_step: "pool_step drv st st' \<Longrightarrow> pool_inv st \<Longrightarrow> pool_inv st'"
proof (induction rule: pool_step.induct)
  case (use_conn db d H d')
  then show ?case by (simp add: pool_inv_def)
next
  case (connect config db d r db' d' H)
  then have "pool_inv (db\<lparr>gd_config := config\<rparr>, d, H)" by (simp add: pool_inv_def)
  with connect show ?case by (auto simp: gd_connect_def split: if_splits dest: pool_inv_connectLoop)
qed (auto intro: pool_inv_take pool_inv_none pool_inv_give pool_inv_disconnect)

lemma pool_inv_steps: "pool_steps drv st st' \<Longrightarrow> pool_inv st \<Longrightarrow> pool_inv st'"
  by (induction rule: rtranclp_induct) (auto intro: pool_inv_step)

lemma pool_inv_initial: "pool_inv (mkGameDatabase, d, [])"
  by (simp add: pool_inv_def mkGameDatabase_def)

subsection \<open>Every operation is a run of critical sections\<close>

lemma tryCheckout_step:
  assumes "gd_tryCheckout drv (db, d) = (r, db', d')"
  shows "pool_step drv (db, d, H) (db', d', case r of Some m \<Rightarrow> m # H | None \<Rightarrow> H)"
  using assms by (cases r) (auto intro: pool_step.intros)

lemma othersStep_step: "\<exists>H'. pool_step drv (db, d, H) (fst (othersStep drv a (db, d)), snd (othersStep drv a (db, d)), H')"
proof (cases a)
  case TakeConn
  obtain r db' d' where "gd_tryCheckout drv (db, d) = (r, db', d')" by (metis prod_cases3)
  with tryCheckout_step [OF this, of H] TakeConn show ?thesis by auto
next
  case (GiveConn m)
  then show ?thesis by (auto intro: pool_step.give_conn)
qed

lemma othersRun_steps: "\<exists>H'. pool_steps drv (db, d, H) (fst (fold (othersStep drv) acts (db, d)), snd (fold (othersStep drv) acts (db, d)), H')"
proof (induction acts arbitrary: db d H)
  case Nil
  then show ?case by auto
next
  case (Cons a acts)
  obtain db1 d1 where s: "othersStep drv a (db, d) = (db1, d1)" by (metis prod.exhaust)
  with othersStep_step [of drv db d H a] obtain H1 where "pool_step drv (db, d, H) (db1, d1, H1)" by auto
  with Cons.IH [of db1 d1 H1] s show ?case by (auto intro: converse_rtranclp_into_rtranclp)
qed

lemma checkout_steps:
  "gd_checkout drv waits (db, d) = (r, db', d') \<Longrightarrow>
     \<exists>H'. pool_steps drv (db, d, H) (db', d', case r of Some m \<Rightarrow> m # H' | None \<Rightarrow> H')"
proof (induction waits arbitrary: db d H)
  case Nil
  then have "gd_tryCheckout drv (db, d) = (r, db', d')"
    by (auto simp: gd_checkout.simps [of drv "[]"] split: option.splits prod.splits)
  from tryCheckout_step [OF this, of H] show ?case by (intro exI [of _ H]) (rule r_into_rtranclp)
next
  case (Cons acts waits)
  obtain r1 db1 d1 where t: "gd_tryCheckout drv (db, d) = (r1, db1, d1)" by (metis prod_cases3)
  note step = tryCheckout_step [OF t, of H]
  show ?case
  proof (cases r1)
    case (Some m)
    with t step Cons.prems show ?thesis by (auto simp: gd_checkout.simps [of drv "acts # waits"] intro!: exI r_into_rtranclp)
  next
    case None
    obtain db2 d2 where o: "fold (othersStep drv) acts (db1, d1) = (db2, d2)" by (metis prod.exhaust)
    with othersRun_steps [of drv db1 d1 H acts] obtain H2 where h2: "pool_steps drv (db1, d1, H) (db2, d2, H2)" by auto
    from None t o Cons.prems have "gd_checkout drv waits (db2, d2) = (r, db', d')"
      by (simp add: gd_checkout.simps [of drv "acts # waits"])
    from Cons.IH [OF this, of H2] obtain H' where
      "pool_steps drv (db2, d2, H2) (db', d', case r of Some m \<Rightarrow> m # H' | None \<Rightarrow> H')" by blast
    with step h2 None have "pool_steps drv (db, d, H) (db', d', case r of Some m \<Rightarrow> m # H' | None \<Rightarrow> H')"
      by (metis (mono_tags) converse_rtranclp_into_rtranclp option.simps(4) rtranclp_trans)
    then show ?thesis by blast
  qed
qed

text \<open>A call that checks a connection out, uses it and checks it in again.\<close>

lemma borrow_steps:
  assumes "gd_checkout drv waits (db, d) = (Some m, db1, d1)"
  shows "\<exists>H'. pool_steps drv (db, d, H) (gd_checkin m db1, d2, H')"
proof -
  from checkout_steps [OF assms, of H] obtain H' where "pool_steps drv (db, d, H) (db1, d1, m # H')" by auto
  moreover have "pool_step drv (db1, d1, m # H') (db1, d2, m # H')" by (rule pool_step.use_conn)
  moreover have "pool_step drv (db1, d2, m # H') (gd_checkin m db1, d2, remove1 m (m # H'))" by (rule pool_step.give_conn)
  ultimately show ?thesis by (meson rtranclp.rtrancl_into_rtrancl)
qed

lemma query_steps:
  assumes "gd_query drv waits sql (db, d) = (r, db', d')"
  shows "\<exists>H'. pool_steps drv (db, d, H) (db', d', H')"
proof (cases "gd_connected db")
  case False
  with assms show ?thesis by (auto simp: gd_query_def)
next
  case True
  obtain c db1 d1 where c: "gd_checkout drv waits (db, d) = (c, db1, d1)" by (metis prod_cases3)
  show ?thesis
  proof (cases c)
    case None
    with assms c True checkout_steps [OF c, of H] show ?thesis by (auto simp: gd_query_def)
  next
    case (Some m)
    with assms c True have "db' = gd_checkin m db1" by (auto simp: gd_query_def Let_def split: prod.splits sum.splits)
    with borrow_steps [OF c [unfolded Some]] show ?thesis by blast
  qed
qed

lemma checkout_alone: "gd_checkout drv [] st = gd_tryCheckout drv st"
  by (simp add: gd_checkout.simps [of drv "[]"] split: option.splits prod.splits)

lemma pool_inv_any_driver: "pool_inv (db, d, H) \<Longrightarrow> pool_inv (db, d', H)"
  by (simp add: pool_inv_def)

lemma pool_inv_borrow:
  assumes "pool_inv (db, d, H)" "gd_tryCheckout drv (db, d) = (Some m, db1, d1)"
  shows "pool_inv (gd_checkin m db1, d2, H)"
  using pool_inv_give [OF pool_inv_take [OF assms], of m] by (simp add: pool_inv_def)

lemma query_alone:
  assumes "pool_inv (db, d, H)" "gd_query drv [] sql (db, d) = (r, db', d')"
  shows "pool_inv (db', d', H)"
  using assms
  by (auto simp: gd_query_def checkout_alone Let_def split: if_splits option.splits prod.splits sum.splits
      intro: pool_inv_borrow pool_inv_none)

lemma execute_alone:
  assumes "pool_inv (db, d, H)" "gd_execute drv [] sql (db, d) = (r, db', d')"
  shows "pool_inv (db', d', H)"
  using assms
  by (auto simp: gd_execute_def checkout_alone Let_def split: if_splits option.splits prod.splits sum.splits
      intro: pool_inv_borrow pool_inv_none)

lemma begin_alone:
  assumes "pool_inv (db, d, H)" "gd_beginTransaction drv [] (db, d) = (r, db', d')"
  shows "case r of Inl _ \<Rightarrow> pool_inv (db', d', H)
    | Inr t \<Rightarrow> \<exists>ti. t = Some ti \<and> tx_isActive t \<and> ti_ownsConnection ti \<and> pool_inv (db', d', ti_manager ti # H)"
proof -
  obtain c db1 d1 where t: "gd_tryCheckout drv (db, d) = (c, db1, d1)" by (metis prod_cases3)
  show ?thesis
  proof (cases c)
    case None
    with t assms pool_inv_none [OF assms(1)] show ?thesis
      by (auto simp: gd_beginTransaction_def checkout_alone split: if_splits)
  next
    case (Some m)
    note t = t [unfolded Some]
    obtain b d2 where b: "drv_begin drv m d1 = (b, d2)" by (metis prod.exhaust)
    have taken: "pool_inv (db1, d2, m # H)" by (rule pool_inv_any_driver [OF pool_inv_take [OF assms(1) t]])
    have released: "pool_inv (gd_checkin m db1, d2, H)" by (rule pool_inv_borrow [OF assms(1) t])
    show ?thesis
    proof (cases "gd_connected db")
      case False
      with assms show ?thesis by (auto simp: gd_beginTransaction_def)
    next
      case True
      show ?thesis
        using assms(2) t b taken released True by (cases b) (auto simp: gd_beginTransaction_def checkout_alone tx_isActive_def)
    qed
  qed
qed

lemma destroy_gives_back:
  "pool_inv (db, d, ti_manager ti # H) \<Longrightarrow> ti_ownsConnection ti \<Longrightarrow> tx_destroy drv (Some ti) (db, d) = (db', d') \<Longrightarrow> pool_inv (db', d', H)"
  using pool_inv_give [of db d "ti_manager ti # H" "ti_manager ti"] by (auto simp: tx_destroy_def Let_def pool_inv_def)

lemma countActive_card: "pool_inv (db, d, H) \<Longrightarrow> gd_countActive db = card (pc_manager ` set (gd_pool db) \<inter> set H)"
proof -
  assume st: "pool_inv (db, d, H)"
  have dist: "distinct (map pc_manager (filter pc_inUse (gd_pool db)))"
    using st by (simp add: pool_inv_def distinct_map_filter)
  have "set (map pc_manager (filter pc_inUse (gd_pool db))) = pc_manager ` set (gd_pool db) \<inter> set H"
    using st by (auto simp: pool_inv_def)
  with distinct_card [OF dist] show ?thesis by (simp add: gd_countActive_def)
qed

section \<open>Properties\<close>


text \<open>A driver for which every call succeeds.\<close>

abbreviation okDriver :: "unit DbDriver" where
  "okDriver \<equiv> \<lparr>drv_set_mode = \<lambda>m t d. (True, d), drv_connect = \<lambda>m c d. (Inr (), d), drv_disconnect = \<lambda>m d. d,
     drv_select = \<lambda>m s d. (Inr [], d), drv_execute = \<lambda>m s d. (Inr (), d), drv_begin = \<lambda>m d. (Inr (), d),
     drv_commit = \<lambda>m d. (Inr (), d), drv_rollback = \<lambda>m d. (Inr (), d)\<rparr>"

abbreviation oneFree :: GameDatabase where
  "oneFree \<equiv> mkGameDatabase\<lparr>gd_pool := [\<lparr>pc_manager = 0, pc_inUse = True\<rparr>], gd_nextManager := 1\<rparr>"


text \<open>A query and a command give their connection back whatever the database answers, so the
  connections in use are the same before and after; a transaction that could be begun holds exactly one
  connection that nobody else holds, one that could not holds none, and destroying it gives the
  connection back. That is when no other thread runs meanwhile; a query that waits while others run is a
  run of the critical sections of all of them.\<close>

theorem database_calls_release:
  assumes "pool_inv (db, d, H)"
  shows "(gd_query drv waits sql (db, d) = (wr, wdb, wd) \<longrightarrow> (\<exists>H'. pool_steps drv (db, d, H) (wdb, wd, H'))) \<and>
         (gd_query drv [] sql (db, d) = (qr, qdb, qd) \<longrightarrow> pool_inv (qdb, qd, H)) \<and>
         (gd_execute drv [] sql (db, d) = (er, edb, ed) \<longrightarrow> pool_inv (edb, ed, H)) \<and>
         (gd_beginTransaction drv [] (db, d) = (Inl e, fdb, fd) \<longrightarrow> pool_inv (fdb, fd, H)) \<and>
         (gd_beginTransaction drv [] (db, d) = (Inr t, tdb, td) \<longrightarrow>
            (\<exists>ti. t = Some ti \<and> tx_isActive t \<and> pool_inv (tdb, td, ti_manager ti # H) \<and>
              pool_inv (fst (tx_destroy drv t (tdb, td)), snd (tx_destroy drv t (tdb, td)), H)))"
proof (intro conjI impI)
  assume "gd_beginTransaction drv [] (db, d) = (Inr t, tdb, td)"
  from begin_alone [OF assms this] obtain ti where
    ti: "t = Some ti" "tx_isActive t" "ti_ownsConnection ti" "pool_inv (tdb, td, ti_manager ti # H)" by auto
  with destroy_gives_back [OF ti(4,3), of drv "fst (tx_destroy drv t (tdb, td))" "snd (tx_destroy drv t (tdb, td))"]
  show "\<exists>ti. t = Some ti \<and> tx_isActive t \<and> pool_inv (tdb, td, ti_manager ti # H) \<and>
     pool_inv (fst (tx_destroy drv t (tdb, td)), snd (tx_destroy drv t (tdb, td)), H)" by auto
qed (use query_steps query_alone [OF assms] execute_alone [OF assms] begin_alone [OF assms, of drv "Inl e" fdb fd] in auto)

theorem database_calls_release_witness:
  "pool_inv (mkGameDatabase\<lparr>gd_connected := True\<rparr>, (), []) \<and>
   gd_beginTransaction okDriver [] (mkGameDatabase\<lparr>gd_connected := True\<rparr>, ()) =
     (Inr (Some \<lparr>ti_manager = 0, ti_active = True, ti_ownsConnection = True\<rparr>), oneFree\<lparr>gd_connected := True\<rparr>, ()) \<and>
   pool_inv (oneFree\<lparr>gd_connected := True\<rparr>, (), [0])"
proof -
  have i: "pool_inv (mkGameDatabase\<lparr>gd_connected := True\<rparr>, (), [])" by (simp add: pool_inv_def mkGameDatabase_def)
  have b: "gd_beginTransaction okDriver [] (mkGameDatabase\<lparr>gd_connected := True\<rparr>, ()) =
     (Inr (Some \<lparr>ti_manager = 0, ti_active = True, ti_ownsConnection = True\<rparr>), oneFree\<lparr>gd_connected := True\<rparr>, ())"
    by code_simp
  show ?thesis
    using i b database_calls_release [OF i, THEN conjunct2, THEN conjunct2, THEN conjunct2, THEN conjunct2, THEN mp, OF b] by simp
qed

text \<open>A query reports an exhausted pool exactly when the adapter is connected, every connection is in
  use, and the pool is full or a further connection cannot be made.\<close>

theorem pool_exhausted_exact:
  "fst (gd_query drv [] sql (db, d)) = Inl (mkGameError ConnectionPoolExhausted ''no available connections in pool'') \<longleftrightarrow>
     gd_connected db \<and> gd_countActive db = gd_poolSize db \<and>
     (unat (dc_maxConnections (gd_config db)) \<le> gd_poolSize db \<or> fst (gd_createConnection drv (db, d)) = None)"
  (is "?lhs \<longleftrightarrow> ?rhs")
proof -
  have all: "gd_countActive db = gd_poolSize db \<longleftrightarrow> (\<forall>c \<in> set (gd_pool db). pc_inUse c)"
    by (auto simp: gd_countActive_def gd_poolSize_def dest: length_filter_less)
  obtain r db' d' where t: "gd_tryCheckout drv (db, d) = (r, db', d')" by (metis prod_cases3)
  have "?lhs \<longleftrightarrow> gd_connected db \<and> r = None"
    using t by (auto simp: gd_query_def checkout_alone Let_def split: option.splits sum.splits prod.splits)
  also have "r = None \<longleftrightarrow> (\<forall>c \<in> set (gd_pool db). pc_inUse c) \<and>
      (unat (dc_maxConnections (gd_config db)) \<le> gd_poolSize db \<or> fst (gd_createConnection drv (db, d)) = None)"
    using t by (auto simp: gd_tryCheckout_def gd_poolSize_def takeFree_None [symmetric] split: option.splits prod.splits if_splits)
  finally show ?thesis using all by auto
qed

end
