(* ===== verification/Query_Cache.thy ===== *)
theory Query_Cache
  imports Game_Database
begin

text \<open>
  The query cache of the database proxy (\<^verbatim>\<open>service/query_cache.hpp\<close>,
  \<^verbatim>\<open>services/dbproxy/query_cache.cpp\<close>). As in the code, entries are nodes of a list ordered by
  recency, and an index maps the text of a query to its node; a node is named by a number, which
  stands for the list iterator. Clock readings are arguments in nanoseconds; every operation holds
  the mutex for its whole body. \<open>lru_get\<close>, \<open>lru_put\<close> and \<open>lru_drop\<close> specify the cache on one
  association list, without nodes and index; the operations refine them. The locale
  \<open>result_cache\<close> is what the proxy relies on.
\<close>

section \<open>State\<close>

record CacheConfig =
  cc_enabled :: bool
  cc_maxEntries :: nat
  cc_defaultTtl :: int
  cc_maxValueSizeBytes :: nat

record CacheEntry =
  ce_sql :: string
  ce_result :: QueryResult
  ce_expiresAt :: int

record QueryCache =
  qc_config :: CacheConfig
  qc_lruList :: "(nat \<times> CacheEntry) list"
  qc_index :: "(string, nat) umap"
  qc_nextNode :: nat
  qc_hits :: u64
  qc_misses :: u64

definition mkQueryCache :: "CacheConfig \<Rightarrow> QueryCache" where
  "mkQueryCache config = \<lparr>qc_config = config, qc_lruList = [], qc_index = [], qc_nextNode = 0, qc_hits = 0, qc_misses = 0\<rparr>"

abbreviation (input) nanos :: "int \<Rightarrow> int" where "nanos seconds \<equiv> seconds * 1000000000"

section \<open>Operations\<close>

definition qc_touch :: "nat \<Rightarrow> (nat \<times> CacheEntry) list \<Rightarrow> (nat \<times> CacheEntry) list" where
  "qc_touch n lst = filter (\<lambda>(m, e). m = n) lst @ filter (\<lambda>(m, e). m \<noteq> n) lst"

definition qc_evictLru :: "QueryCache \<Rightarrow> QueryCache" where
  "qc_evictLru q =
     (if qc_lruList q = [] then q
      else q\<lparr>qc_index := AList.delete (ce_sql (snd (last (qc_lruList q)))) (qc_index q),
             qc_lruList := butlast (qc_lruList q)\<rparr>)"

definition qc_get :: "string \<Rightarrow> int \<Rightarrow> QueryCache \<Rightarrow> QueryResult option \<times> QueryCache" where
  "qc_get sql now q =
     (case map_of (qc_index q) sql of
        None \<Rightarrow> (None, q\<lparr>qc_misses := qc_misses q + 1\<rparr>)
      | Some n \<Rightarrow>
          case map_of (qc_lruList q) n of
            None \<Rightarrow> (None, q)
          | Some e \<Rightarrow>
              if ce_expiresAt e \<le> now
              then (None, q\<lparr>qc_lruList := AList.delete n (qc_lruList q), qc_index := AList.delete sql (qc_index q),
                            qc_misses := qc_misses q + 1\<rparr>)
              else (Some (ce_result e), q\<lparr>qc_lruList := qc_touch n (qc_lruList q), qc_hits := qc_hits q + 1\<rparr>))"

definition qc_putTtl :: "string \<Rightarrow> QueryResult \<Rightarrow> int \<Rightarrow> int \<Rightarrow> QueryCache \<Rightarrow> QueryCache" where
  "qc_putTtl sql result ttl now q =
     (case map_of (qc_index q) sql of
        Some n \<Rightarrow>
          q\<lparr>qc_lruList := qc_touch n (map (\<lambda>(m, e).
               (m, if m = n then e\<lparr>ce_result := result, ce_expiresAt := now + nanos ttl\<rparr> else e)) (qc_lruList q))\<rparr>
      | None \<Rightarrow>
          let q1 = (if length (qc_lruList q) \<ge> cc_maxEntries (qc_config q) then qc_evictLru q else q);
              entry = \<lparr>ce_sql = sql, ce_result = result, ce_expiresAt = now + nanos ttl\<rparr>;
              n = qc_nextNode q1
          in q1\<lparr>qc_lruList := (n, entry) # qc_lruList q1, qc_index := AList.update sql n (qc_index q1), qc_nextNode := Suc n\<rparr>)"

definition qc_put :: "string \<Rightarrow> QueryResult \<Rightarrow> int \<Rightarrow> QueryCache \<Rightarrow> QueryCache" where
  "qc_put sql result now q = qc_putTtl sql result (cc_defaultTtl (qc_config q)) now q"

definition qc_invalidate :: "string \<Rightarrow> QueryCache \<Rightarrow> bool \<times> QueryCache" where
  "qc_invalidate sql q =
     (case map_of (qc_index q) sql of
        None \<Rightarrow> (False, q)
      | Some n \<Rightarrow> (True, q\<lparr>qc_lruList := AList.delete n (qc_lruList q), qc_index := AList.delete sql (qc_index q)\<rparr>))"

definition mentions :: "string \<Rightarrow> string \<Rightarrow> bool" where
  "mentions tableName sql \<longleftrightarrow> sv_find (map toLower sql) (map toLower tableName) 0 \<noteq> None"

fun invalidateLoop :: "string \<Rightarrow> (nat \<times> CacheEntry) list \<Rightarrow> (string, nat) umap \<Rightarrow> nat \<Rightarrow> (nat \<times> CacheEntry) list \<times> (string, nat) umap \<times> nat" where
  "invalidateLoop tableName [] idx count = ([], idx, count)"
| "invalidateLoop tableName ((n, e) # rest) idx count =
     (if mentions tableName (ce_sql e)
      then invalidateLoop tableName rest (AList.delete (ce_sql e) idx) (Suc count)
      else let (lst, idx', count') = invalidateLoop tableName rest idx count in ((n, e) # lst, idx', count'))"

definition qc_invalidateByTable :: "string \<Rightarrow> QueryCache \<Rightarrow> nat \<times> QueryCache" where
  "qc_invalidateByTable tableName q =
     (let (lst, idx, count) = invalidateLoop tableName (qc_lruList q) (qc_index q) 0
      in (count, q\<lparr>qc_lruList := lst, qc_index := idx\<rparr>))"

definition qc_clear :: "QueryCache \<Rightarrow> QueryCache" where
  "qc_clear q = q\<lparr>qc_lruList := [], qc_index := []\<rparr>"

definition qc_size :: "QueryCache \<Rightarrow> nat" where
  "qc_size q = length (qc_lruList q)"

definition qc_hitRate :: "QueryCache \<Rightarrow> rat" where
  "qc_hitRate q =
     (let total = qc_hits q + qc_misses q
      in if total = 0 then 0 else f64 (f64 (of_nat (unat (qc_hits q))) / f64 (of_nat (unat total))))"

text \<open>\<^verbatim>\<open>evictExpired()\<close>, which nothing calls: it walks towards the front from position \<open>pos\<close>. When the
  expired entry is the last of the list, the walk jumps to the front and stops. \<open>None\<close>: the code would
  compare an iterator it has just invalidated.\<close>

fun evictExpiredFrom :: "int \<Rightarrow> nat \<Rightarrow> (nat \<times> CacheEntry) list \<Rightarrow> (string, nat) umap \<Rightarrow> ((nat \<times> CacheEntry) list \<times> (string, nat) umap) option" where
  "evictExpiredFrom now 0 lst idx = Some (lst, idx)"
| "evictExpiredFrom now (Suc pos) lst idx =
     (let e = snd (lst ! pos)
      in if ce_expiresAt e \<le> now
         then let lst' = take pos lst @ drop (Suc pos) lst; idx' = AList.delete (ce_sql e) idx
              in if Suc pos = length lst then (if pos = 0 then None else Some (lst', idx'))
                 else if pos = 0 then Some (lst', idx')
                 else evictExpiredFrom now pos lst' idx'
         else evictExpiredFrom now pos lst idx)"

definition qc_evictExpired :: "int \<Rightarrow> QueryCache \<Rightarrow> QueryCache option" where
  "qc_evictExpired now q =
     map_option (\<lambda>(lst, idx). q\<lparr>qc_lruList := lst, qc_index := idx\<rparr>)
       (evictExpiredFrom now (length (qc_lruList q)) (qc_lruList q) (qc_index q))"

section \<open>Specification\<close>

type_synonym LruSpec = "(string \<times> QueryResult \<times> int) list"

definition lru_get :: "string \<Rightarrow> int \<Rightarrow> LruSpec \<Rightarrow> QueryResult option \<times> LruSpec" where
  "lru_get sql now xs =
     (case map_of xs sql of
        None \<Rightarrow> (None, xs)
      | Some (r, t) \<Rightarrow>
          if t \<le> now then (None, AList.delete sql xs) else (Some r, (sql, r, t) # AList.delete sql xs))"

definition lru_put :: "nat \<Rightarrow> string \<Rightarrow> QueryResult \<Rightarrow> int \<Rightarrow> LruSpec \<Rightarrow> LruSpec" where
  "lru_put cap sql r t xs =
     (sql, r, t) # (if map_of xs sql = None \<and> cap \<le> length xs then butlast xs else AList.delete sql xs)"

definition lru_drop :: "string \<Rightarrow> LruSpec \<Rightarrow> LruSpec" where
  "lru_drop tableName xs = filter (\<lambda>x. \<not> mentions tableName (fst x)) xs"

definition lruView :: "(nat \<times> CacheEntry) list \<Rightarrow> LruSpec" where
  "lruView lst = map (\<lambda>(n, e). (ce_sql e, ce_result e, ce_expiresAt e)) lst"

definition qc_view :: "QueryCache \<Rightarrow> LruSpec" where
  "qc_view q = lruView (qc_lruList q)"

definition sqlNodes :: "(nat \<times> CacheEntry) list \<Rightarrow> (string \<times> nat) list" where
  "sqlNodes lst = map (\<lambda>(n, e). (ce_sql e, n)) lst"

definition nodes_ok :: "(nat \<times> CacheEntry) list \<Rightarrow> bool" where
  "nodes_ok lst \<longleftrightarrow> distinct (map fst lst) \<and> distinct (map (\<lambda>(n, e). ce_sql e) lst)"

definition cache_inv :: "QueryCache \<Rightarrow> bool" where
  "cache_inv q \<longleftrightarrow> nodes_ok (qc_lruList q) \<and> (\<forall>(n, e) \<in> set (qc_lruList q). n < qc_nextNode q) \<and>
     map_of (qc_index q) = map_of (sqlNodes (qc_lruList q)) \<and>
     length (qc_lruList q) \<le> max 1 (cc_maxEntries (qc_config q))"

subsection \<open>Nodes\<close>

lemma lruView_fst: "map fst (lruView lst) = map (\<lambda>(n, e). ce_sql e) lst" "map fst (sqlNodes lst) = map (\<lambda>(n, e). ce_sql e) lst"
  by (auto simp: lruView_def sqlNodes_def)

lemma lruView_simps [simp]:
  "lruView [] = []" "lruView ((n, e) # lst) = (ce_sql e, ce_result e, ce_expiresAt e) # lruView lst"
  "length (lruView lst) = length lst" "lruView (butlast lst) = butlast (lruView lst)"
  by (simp_all add: lruView_def map_butlast)

lemma sqlNodes_simps [simp]: "sqlNodes [] = []" "sqlNodes ((n, e) # lst) = (ce_sql e, n) # sqlNodes lst"
  by (simp_all add: sqlNodes_def)

lemma nodes_ok_Cons [simp]:
  "nodes_ok [] \<longleftrightarrow> True"
  "nodes_ok ((n, e) # lst) \<longleftrightarrow> n \<notin> fst ` set lst \<and> ce_sql e \<notin> (\<lambda>(n, e). ce_sql e) ` set lst \<and> nodes_ok lst"
  by (auto simp: nodes_ok_def)

lemma sqlNodes_None: "map_of (sqlNodes lst) sql = None \<longleftrightarrow> sql \<notin> (\<lambda>(n, e). ce_sql e) ` set lst"
  using arg_cong [OF lruView_fst(2), of set lst] by (simp add: map_of_eq_None_iff)

lemma lruView_None: "map_of (lruView lst) sql = None \<longleftrightarrow> sql \<notin> (\<lambda>(n, e). ce_sql e) ` set lst"
  using arg_cong [OF lruView_fst(1), of set lst] by (simp add: map_of_eq_None_iff)

text \<open>The node the index names is the entry of that query, and removing the node removes the query.\<close>

lemma node_of_sql:
  assumes "nodes_ok lst" "map_of (sqlNodes lst) sql = Some n"
  obtains e where "map_of lst n = Some e" "ce_sql e = sql" "map_of (lruView lst) sql = Some (ce_result e, ce_expiresAt e)"
    "\<And>m e'. (m, e') \<in> set lst \<Longrightarrow> m = n \<longleftrightarrow> ce_sql e' = sql"
  using assms
proof (induction lst arbitrary: thesis)
  case Nil
  then show ?case by simp
next
  case (Cons x lst)
  obtain m f where x: "x = (m, f)" by (cases x)
  show ?case
  proof (cases "ce_sql f = sql")
    case True
    with Cons.prems x show ?thesis by (intro Cons.prems(1) [of f]) (auto simp: image_iff split: prod.splits)
  next
    case False
    with Cons.prems x have ok: "nodes_ok lst" "map_of (sqlNodes lst) sql = Some n" by auto
    obtain e where e: "map_of lst n = Some e" "ce_sql e = sql" "map_of (lruView lst) sql = Some (ce_result e, ce_expiresAt e)"
      "\<And>m e'. (m, e') \<in> set lst \<Longrightarrow> m = n \<longleftrightarrow> ce_sql e' = sql"
      using Cons.IH [OF _ ok] by metis
    have "m \<noteq> n" using Cons.prems(2) x map_of_SomeD [OF e(1)] by force
    with False e x show ?thesis by (intro Cons.prems(1) [of e]) auto
  qed
qed

lemma node_delete:
  assumes "\<And>m e'. (m, e') \<in> set lst \<Longrightarrow> m = n \<longleftrightarrow> ce_sql e' = sql"
  shows "lruView (AList.delete n lst) = AList.delete sql (lruView lst)"
    "sqlNodes (AList.delete n lst) = AList.delete sql (sqlNodes lst)"
  using assms
proof (induction lst)
  case Nil
  { case 1 then show ?case by simp next case 2 then show ?case by simp }
next
  case (Cons x lst)
  obtain m f where x: "x = (m, f)" by (cases x)
  { case 1 then show ?case using Cons.IH(1) x by (auto simp: AList.delete_eq)
  next case 2 then show ?case using Cons.IH(2) x by (auto simp: AList.delete_eq) }
qed

lemma nodes_ok_filter: "nodes_ok lst \<Longrightarrow> nodes_ok (filter P lst)"
  by (auto simp: nodes_ok_def distinct_map_filter)

lemma nodes_ok_delete: "nodes_ok lst \<Longrightarrow> nodes_ok (AList.delete n lst)"
  by (simp add: AList.delete_eq nodes_ok_filter)

lemma touch_Cons:
  assumes "nodes_ok lst" "map_of lst n = Some e"
  shows "qc_touch n lst = (n, e) # AList.delete n lst"
proof -
  have "filter (\<lambda>(m, e). m = n) lst = [(n, e)]"
    using assms
  proof (induction lst)
    case (Cons x lst)
    obtain m f where x: "x = (m, f)" by (cases x)
    with Cons show ?case by (force simp: filter_empty_conv image_iff split: if_splits)
  qed simp
  moreover have "filter (\<lambda>(m, e). m \<noteq> n) lst = AList.delete n lst"
    unfolding AList.delete_eq by (rule filter_cong) auto
  ultimately show ?thesis by (simp add: qc_touch_def)
qed

subsection \<open>The operations refine the specification\<close>

lemma cache_invD:
  assumes "cache_inv q"
  shows "nodes_ok (qc_lruList q)" "map_of (qc_index q) = map_of (sqlNodes (qc_lruList q))"
    "length (qc_lruList q) \<le> max 1 (cc_maxEntries (qc_config q))"
    "n \<in> fst ` set (qc_lruList q) \<Longrightarrow> n < qc_nextNode q"
  using assms by (auto simp: cache_inv_def)

lemma view_None: "cache_inv q \<Longrightarrow> map_of (qc_index q) sql = None \<longleftrightarrow> map_of (qc_view q) sql = None"
  by (simp add: cache_invD(2) sqlNodes_None lruView_None qc_view_def)

lemma fst_delete: "fst ` set (AList.delete n lst) \<subseteq> fst ` set lst"
  by (auto simp: AList.delete_eq)

text \<open>Removing a query's node from list and index.\<close>

lemma remove_refines:
  assumes i: "cache_inv q" and n: "map_of (qc_index q) sql = Some n"
    and q': "qc_lruList q' = AList.delete n (qc_lruList q)" "qc_index q' = AList.delete sql (qc_index q)"
      "qc_nextNode q' = qc_nextNode q" "qc_config q' = qc_config q"
  shows "cache_inv q'" "qc_view q' = AList.delete sql (qc_view q)"
proof -
  note ok = cache_invD [OF i]
  obtain e where e: "\<And>m e'. (m, e') \<in> set (qc_lruList q) \<Longrightarrow> m = n \<longleftrightarrow> ce_sql e' = sql"
    using node_of_sql [OF ok(1), of sql n] n ok(2) by metis
  note del = node_delete [OF e]
  have "length (AList.delete n (qc_lruList q)) \<le> length (qc_lruList q)" by (simp add: AList.delete_eq)
  with ok(3) have "length (AList.delete n (qc_lruList q)) \<le> max 1 (cc_maxEntries (qc_config q))" by linarith
  moreover have "map_of (AList.delete sql (qc_index q)) = map_of (sqlNodes (AList.delete n (qc_lruList q)))"
    by (simp add: del(2) delete_conv' ok(2))
  ultimately show "cache_inv q'"
    using ok(1) ok(4) nodes_ok_delete fst_delete [of n "qc_lruList q"] q' by (fastforce simp: cache_inv_def)
  show "qc_view q' = AList.delete sql (qc_view q)" by (simp add: qc_view_def q' del(1))
qed

text \<open>Moving a query's node to the front, with new contents.\<close>

lemma front_refines:
  assumes i: "cache_inv q" and n: "map_of (qc_index q) sql = Some n" and e': "ce_sql e' = sql"
    and q': "qc_lruList q' = (n, e') # AList.delete n (qc_lruList q)" "qc_index q' = qc_index q"
      "qc_nextNode q' = qc_nextNode q" "qc_config q' = qc_config q"
  shows "cache_inv q'" "qc_view q' = (sql, ce_result e', ce_expiresAt e') # AList.delete sql (qc_view q)"
proof -
  note ok = cache_invD [OF i]
  obtain e where e: "map_of (qc_lruList q) n = Some e" "\<And>m e'. (m, e') \<in> set (qc_lruList q) \<Longrightarrow> m = n \<longleftrightarrow> ce_sql e' = sql"
    using node_of_sql [OF ok(1), of sql n] n ok(2) by metis
  note del = node_delete [OF e(2)]
  have "length (AList.delete n (qc_lruList q)) < length (qc_lruList q)"
    unfolding AList.delete_eq by (rule length_filter_less [OF map_of_SomeD [OF e(1)]]) simp
  moreover have "sql \<notin> (\<lambda>(n, e). ce_sql e) ` set (AList.delete n (qc_lruList q))"
    using e(2) by (auto simp: AList.delete_eq)
  moreover have "map_of (qc_index q) = map_of ((sql, n) # sqlNodes (AList.delete n (qc_lruList q)))"
    using n by (auto simp: del(2) delete_conv' ok(2))
  moreover have "n < qc_nextNode q" using ok(4) map_of_SomeD [OF e(1)] by force
  moreover have "n \<notin> fst ` set (AList.delete n (qc_lruList q))" by (auto simp: AList.delete_eq)
  ultimately show "cache_inv q'"
    using ok(1) ok(3) ok(4) nodes_ok_delete fst_delete [of n "qc_lruList q"] q' e'
    unfolding cache_inv_def by auto force
  show "qc_view q' = (sql, ce_result e', ce_expiresAt e') # AList.delete sql (qc_view q)"
    by (simp add: qc_view_def q' del(1) e')
qed

lemma get_refines:
  assumes i: "cache_inv q" and g: "qc_get sql now q = (r, q')"
  shows "cache_inv q'" "(r, qc_view q') = lru_get sql now (qc_view q)"
proof -
  note ok = cache_invD [OF i]
  have "cache_inv q' \<and> (r, qc_view q') = lru_get sql now (qc_view q)"
  proof (cases "map_of (qc_index q) sql")
    case None
    with i g view_None [OF i, of sql] show ?thesis by (auto simp: qc_get_def lru_get_def cache_inv_def qc_view_def)
  next
    case (Some n)
    then obtain e where e: "map_of (qc_lruList q) n = Some e" "ce_sql e = sql"
      "map_of (qc_view q) sql = Some (ce_result e, ce_expiresAt e)"
      using node_of_sql [OF ok(1), of sql n] ok(2) unfolding qc_view_def by metis
    show ?thesis
    proof (cases "ce_expiresAt e \<le> now")
      case True
      with g Some e remove_refines [OF i Some, of q'] show ?thesis by (auto simp: qc_get_def lru_get_def)
    next
      case False
      with g Some e front_refines [OF i Some e(2), of q'] touch_Cons [OF ok(1) e(1)] show ?thesis
        by (auto simp: qc_get_def lru_get_def)
    qed
  qed
  then show "cache_inv q'" "(r, qc_view q') = lru_get sql now (qc_view q)" by simp_all
qed

lemma invalidate_refines:
  assumes "cache_inv q" "qc_invalidate sql q = (b, q')"
  shows "cache_inv q' \<and> qc_view q' = AList.delete sql (qc_view q) \<and> (b \<longleftrightarrow> map_of (qc_view q) sql \<noteq> None)"
proof (cases "map_of (qc_index q) sql")
  case None
  with assms view_None [OF assms(1), of sql] show ?thesis
    by (auto simp: qc_invalidate_def delete_idem map_of_eq_None_iff)
next
  case (Some n)
  with assms remove_refines [OF assms(1) Some, of q'] view_None [OF assms(1), of sql] show ?thesis
    by (auto simp: qc_invalidate_def)
qed

text \<open>Storing under a new key: eviction of the last entry, then a new node at the front.\<close>

lemma evict_refines:
  assumes i: "cache_inv q"
  shows "cache_inv (qc_evictLru q)" "qc_view (qc_evictLru q) = butlast (qc_view q)"
    "qc_lruList q = [] \<or> length (qc_lruList (qc_evictLru q)) < length (qc_lruList q)"
    "qc_config (qc_evictLru q) = qc_config q" "set (qc_view (qc_evictLru q)) \<subseteq> set (qc_view q)"
proof -
  note ok = cache_invD [OF i]
  have "cache_inv (qc_evictLru q)"
  proof (cases "qc_lruList q" rule: rev_cases)
    case Nil
    with i show ?thesis by (simp add: qc_evictLru_def)
  next
    case (snoc lst x)
    obtain n e where x: "x = (n, e)" by (cases x)
    have lst: "nodes_ok lst" "ce_sql e \<notin> (\<lambda>(n, e). ce_sql e) ` set lst"
      using ok(1) by (auto simp: snoc x nodes_ok_def)
    then have "map_of (AList.delete (ce_sql e) (qc_index q)) = map_of (sqlNodes lst)"
      using sqlNodes_None [of lst "ce_sql e"] by (auto simp: delete_conv' ok(2) snoc x sqlNodes_def map_add_def fun_eq_iff split: option.splits)
    with i lst snoc x show ?thesis by (auto simp: cache_inv_def qc_evictLru_def)
  qed
  then show "cache_inv (qc_evictLru q)" .
  show "qc_view (qc_evictLru q) = butlast (qc_view q)" by (simp add: qc_evictLru_def qc_view_def)
  then show "set (qc_view (qc_evictLru q)) \<subseteq> set (qc_view q)" by (auto dest: in_set_butlastD)
qed (simp_all add: qc_evictLru_def)

lemma insert_refines:
  assumes i: "cache_inv q" and new: "sql \<notin> fst ` set (qc_view q)" and e: "ce_sql e = sql"
    and room: "length (qc_lruList q) < max 1 (cc_maxEntries (qc_config q))"
    and q': "q' = q\<lparr>qc_lruList := (qc_nextNode q, e) # qc_lruList q, qc_index := AList.update sql (qc_nextNode q) (qc_index q),
              qc_nextNode := Suc (qc_nextNode q)\<rparr>"
  shows "cache_inv q'" "qc_view q' = (sql, ce_result e, ce_expiresAt e) # qc_view q"
proof -
  note ok = cache_invD [OF i]
  have "sql \<notin> (\<lambda>(n, e). ce_sql e) ` set (qc_lruList q)"
    using new arg_cong [OF lruView_fst(1), of set "qc_lruList q"] by (simp add: qc_view_def)
  moreover have "qc_nextNode q \<notin> fst ` set (qc_lruList q)" using ok(4) by blast
  ultimately show "cache_inv q'"
    using i room e unfolding q' cache_inv_def by (auto simp: update_conv' less_Suc_eq)
  show "qc_view q' = (sql, ce_result e, ce_expiresAt e) # qc_view q" by (simp add: qc_view_def q' e)
qed

lemma map_of_update_node:
  "map_of lst n = Some e \<Longrightarrow> map_of (map (\<lambda>(m, e). (m, if m = n then f e else e)) lst) n = Some (f e)"
  by (induction lst) auto

lemma delete_update_node: "AList.delete n (map (\<lambda>(m, e). (m, if m = n then f e else e)) lst) = AList.delete n lst"
  by (induction lst) auto

lemma put_refines:
  assumes i: "cache_inv q"
  shows "cache_inv (qc_putTtl sql r ttl now q) \<and>
    qc_view (qc_putTtl sql r ttl now q) = lru_put (cc_maxEntries (qc_config q)) sql r (now + nanos ttl) (qc_view q)"
proof (cases "map_of (qc_index q) sql")
  case (Some n)
  note ok = cache_invD [OF i]
  obtain e where e: "map_of (qc_lruList q) n = Some e" "ce_sql e = sql" "map_of (qc_view q) sql \<noteq> None"
    using node_of_sql [OF ok(1), of sql n] Some ok(2) unfolding qc_view_def by (metis option.distinct(1))
  define e' where "e' = e\<lparr>ce_result := r, ce_expiresAt := now + nanos ttl\<rparr>"
  define lst where "lst = map (\<lambda>(m, e). (m, if m = n then e\<lparr>ce_result := r, ce_expiresAt := now + nanos ttl\<rparr> else e)) (qc_lruList q)"
  have "map fst lst = map fst (qc_lruList q)" "map (\<lambda>(n, e). ce_sql e) lst = map (\<lambda>(n, e). ce_sql e) (qc_lruList q)"
    by (auto simp: lst_def)
  with ok(1) have "nodes_ok lst" by (simp add: nodes_ok_def)
  moreover have "map_of lst n = Some e'"
    using map_of_update_node [OF e(1)] unfolding lst_def e'_def .
  ultimately have "qc_touch n lst = (n, e') # AList.delete n lst" by (rule touch_Cons)
  moreover have "AList.delete n lst = AList.delete n (qc_lruList q)"
    unfolding lst_def by (rule delete_update_node)
  ultimately show ?thesis
    using front_refines [OF i Some, of e' "qc_putTtl sql r ttl now q"] Some e
    by (auto simp: qc_putTtl_def lst_def [symmetric] e'_def lru_put_def)
next
  case None
  then have new: "map_of (qc_view q) sql = None" using view_None [OF i] by simp
  then have del: "AList.delete sql (qc_view q) = qc_view q" "sql \<notin> fst ` set (qc_view q)"
    by (auto simp: map_of_eq_None_iff intro: delete_idem)
  let ?cap = "cc_maxEntries (qc_config q)"
  let ?e = "\<lparr>ce_sql = sql, ce_result = r, ce_expiresAt = now + nanos ttl\<rparr>"
  have len: "length (qc_view q) = length (qc_lruList q)" by (simp add: qc_view_def)
  show ?thesis
  proof (cases "?cap \<le> length (qc_lruList q)")
    case True
    note ev = evict_refines [OF i]
    have room: "length (qc_lruList (qc_evictLru q)) < max 1 (cc_maxEntries (qc_config (qc_evictLru q)))"
      using ev(3,4) cache_invD(3) [OF i] by (auto simp: qc_evictLru_def)
    have "sql \<notin> fst ` set (qc_view (qc_evictLru q))" using del(2) ev(5) by blast
    from insert_refines [OF ev(1) this _ room refl, of ?e] True None new ev(2) len show ?thesis
      by (simp add: qc_putTtl_def lru_put_def Let_def)
  next
    case False
    then have room: "length (qc_lruList q) < max 1 ?cap" by linarith
    from insert_refines [OF i del(2) _ room refl, of ?e] False None new del(1) len show ?thesis
      by (simp add: qc_putTtl_def lru_put_def Let_def)
  qed
qed

lemma invalidateLoop_result:
  "invalidateLoop t lst idx c =
     (filter (\<lambda>(n, e). \<not> mentions t (ce_sql e)) lst,
      fold AList.delete (map (\<lambda>(n, e). ce_sql e) (filter (\<lambda>(n, e). mentions t (ce_sql e)) lst)) idx,
      c + length (filter (\<lambda>(n, e). mentions t (ce_sql e)) lst))"
  by (induction t lst idx c rule: invalidateLoop.induct) auto

lemma map_of_delete_all: "map_of (fold AList.delete ks idx) k = (if k \<in> set ks then None else map_of idx k)"
  by (induction ks arbitrary: idx) (auto simp: delete_conv')

lemma sqlNodes_filter:
  "map_of (sqlNodes (filter (\<lambda>(n, e). \<not> mentions t (ce_sql e)) lst)) k = (if mentions t k then None else map_of (sqlNodes lst) k)"
proof (induction lst)
  case (Cons x lst)
  then show ?case by (cases x) (cases "k = ce_sql (snd x)"; simp)
qed simp

lemma table_refines:
  assumes i: "cache_inv q" and t: "qc_invalidateByTable tbl q = (c, q')"
  shows "cache_inv q' \<and> qc_view q' = lru_drop tbl (qc_view q) \<and> c + length (qc_view q') = length (qc_view q)"
proof -
  note ok = cache_invD [OF i]
  have q': "q' = q\<lparr>qc_lruList := filter (\<lambda>(n, e). \<not> mentions tbl (ce_sql e)) (qc_lruList q),
      qc_index := fold AList.delete (map (\<lambda>(n, e). ce_sql e) (filter (\<lambda>(n, e). mentions tbl (ce_sql e)) (qc_lruList q))) (qc_index q)\<rparr>"
    and c: "c = length (filter (\<lambda>(n, e). mentions tbl (ce_sql e)) (qc_lruList q))"
    using t by (auto simp: qc_invalidateByTable_def invalidateLoop_result)
  have "map_of (qc_index q') k = map_of (sqlNodes (qc_lruList q')) k" for k
    using sqlNodes_None [of "qc_lruList q" k] by (force simp: q' map_of_delete_all sqlNodes_filter ok(2))
  moreover have "length (qc_lruList q') \<le> max 1 (cc_maxEntries (qc_config q'))"
    using order_trans [OF length_filter_le ok(3)] by (simp add: q')
  ultimately have inv': "cache_inv q'"
    using i ok(1) by (auto simp: cache_inv_def fun_eq_iff q' nodes_ok_filter)
  have "qc_view q' = lru_drop tbl (qc_view q)"
    by (auto simp: qc_view_def q' lru_drop_def lruView_def filter_map comp_def split: prod.splits intro!: arg_cong [where f = "map _"] filter_cong)
  moreover have "c + length (qc_view q') = length (qc_view q)"
    using sum_length_filter_compl [of "\<lambda>(n, e). mentions tbl (ce_sql e)" "qc_lruList q"]
    by (simp add: c q' qc_view_def case_prod_unfold)
  ultimately show ?thesis using inv' by simp
qed

lemma clear_refines: "cache_inv (qc_clear q)" "qc_view (qc_clear q) = []"
  by (simp_all add: cache_inv_def qc_clear_def qc_view_def)

lemma cache_inv_initial: "cache_inv (mkQueryCache config)"
  by (simp add: cache_inv_def mkQueryCache_def)

section \<open>What the proxy relies on\<close>

text \<open>\<open>current m answer\<close>: every result held in \<open>m\<close> is what the database would answer.\<close>

definition current :: "(string \<Rightarrow> 'r option) \<Rightarrow> (string \<Rightarrow> 'r) \<Rightarrow> bool" where
  "current m answer \<longleftrightarrow> (\<forall>s r. m s = Some r \<longrightarrow> r = answer s)"

lemma current_le: "m' \<subseteq>\<^sub>m m \<Longrightarrow> current m answer \<Longrightarrow> current m' answer"
  by (force simp: current_def map_le_def dom_def)

locale result_cache =
  fixes getC :: "string \<Rightarrow> int \<Rightarrow> 'c \<Rightarrow> 'r option \<times> 'c"
    and putC :: "string \<Rightarrow> 'r \<Rightarrow> int \<Rightarrow> 'c \<Rightarrow> 'c"
    and dropC :: "string \<Rightarrow> 'c \<Rightarrow> nat \<times> 'c"
    and clearC :: "'c \<Rightarrow> 'c"
    and okC :: "'c \<Rightarrow> bool"
    and content :: "'c \<Rightarrow> string \<Rightarrow> 'r option"
    and about :: "string \<Rightarrow> string \<Rightarrow> bool"
  assumes get_ok: "okC c \<Longrightarrow> okC (snd (getC sql now c))"
    and put_ok: "okC c \<Longrightarrow> okC (putC sql r now c)"
    and drop_ok: "okC c \<Longrightarrow> okC (snd (dropC tbl c))"
    and clear_ok: "okC (clearC c)"
    and get_hit: "okC c \<Longrightarrow> fst (getC sql now c) = Some r \<Longrightarrow> content c sql = Some r"
    and get_content: "okC c \<Longrightarrow> content (snd (getC sql now c)) \<subseteq>\<^sub>m content c"
    and put_content: "okC c \<Longrightarrow> content (putC sql r now c) \<subseteq>\<^sub>m (content c)(sql \<mapsto> r)"
    and drop_content: "okC c \<Longrightarrow> content (snd (dropC tbl c)) \<subseteq>\<^sub>m content c |` {s. \<not> about tbl s}"
    and clear_content: "content (clearC c) = Map.empty"
begin

lemma hit_current: "okC c \<Longrightarrow> current (content c) a \<Longrightarrow> fst (getC sql now c) = Some r \<Longrightarrow> r = a sql"
  using get_hit by (auto simp: current_def)

lemma get_current: "okC c \<Longrightarrow> current (content c) a \<Longrightarrow> current (content (snd (getC sql now c))) a"
  using get_content by (rule current_le)

lemma put_current: "okC c \<Longrightarrow> current (content c) a \<Longrightarrow> current (content (putC sql (a sql) now c)) a"
  by (rule current_le [OF put_content]) (auto simp: current_def)

text \<open>A write that changes only answers to queries about one table keeps the cache current if that
  table is dropped.\<close>

lemma drop_current:
  assumes "okC c" "current (content c) a" "\<And>s. \<not> about tbl s \<Longrightarrow> a' s = a s"
  shows "current (content (snd (dropC tbl c))) a'"
  using assms(2,3) by (intro current_le [OF drop_content [OF assms(1)]]) (auto simp: current_def restrict_map_def)

lemma clear_current: "current (content (clearC c)) a"
  by (simp add: clear_content current_def)

end

definition qc_content :: "QueryCache \<Rightarrow> string \<Rightarrow> QueryResult option" where
  "qc_content q sql = map_option fst (map_of (qc_view q) sql)"

lemma map_of_delete_le: "map_of (AList.delete k xs) \<subseteq>\<^sub>m map_of xs"
  by (auto simp: map_le_def delete_conv' split: if_splits)

lemma content_mono: "map_of (qc_view q') \<subseteq>\<^sub>m map_of (qc_view q) \<Longrightarrow> qc_content q' \<subseteq>\<^sub>m qc_content q"
  by (auto simp: map_le_def qc_content_def dom_def)

lemma lru_get_content: "map_of (snd (lru_get sql now xs)) \<subseteq>\<^sub>m map_of xs"
  by (auto simp: lru_get_def map_le_def delete_conv' split: option.splits if_splits)

lemma view_distinct: "cache_inv q \<Longrightarrow> distinct (map fst (qc_view q))"
  by (simp add: cache_inv_def nodes_ok_def qc_view_def lruView_fst)

lemma map_of_butlast_le: "distinct (map fst xs) \<Longrightarrow> map_of (butlast xs) \<subseteq>\<^sub>m map_of xs"
  by (cases xs rule: rev_cases) (auto simp: map_le_def map_add_def split: option.splits)

lemma lru_put_content:
  assumes "distinct (map fst xs)"
  shows "map_of (lru_put cap sql r t xs) \<subseteq>\<^sub>m (map_of xs)(sql \<mapsto> (r, t))"
  using map_of_butlast_le [OF assms] by (auto simp: lru_put_def map_le_def delete_conv' split: if_splits)

lemma lru_drop_content: "map_of (lru_drop tbl xs) k = (if mentions tbl k then None else map_of xs k)"
  by (induction xs) (auto simp: lru_drop_def)

interpretation qc: result_cache qc_get qc_put qc_invalidateByTable qc_clear cache_inv qc_content mentions
proof unfold_locales
  fix c :: QueryCache and sql tbl :: string and now :: int and r :: QueryResult
  assume i: "cache_inv c"
  obtain x c' where g: "qc_get sql now c = (x, c')" by (metis prod.exhaust)
  obtain k d where dr: "qc_invalidateByTable tbl c = (k, d)" by (metis prod.exhaust)
  note gr = get_refines [OF i g] and pr = put_refines [OF i] and tr = table_refines [OF i dr]
  show "cache_inv (snd (qc_get sql now c))" "cache_inv (qc_put sql r now c)" "cache_inv (snd (qc_invalidateByTable tbl c))"
    using gr pr tr by (simp_all add: g dr qc_put_def)
  show "qc_content c sql = Some r" if "fst (qc_get sql now c) = Some r"
    using that gr(2) by (auto simp: g lru_get_def qc_content_def split: option.splits if_splits)
  show "qc_content (snd (qc_get sql now c)) \<subseteq>\<^sub>m qc_content c"
    using lru_get_content [of sql now "qc_view c"] gr(2) [symmetric] by (intro content_mono) (simp add: g)
  show "qc_content (snd (qc_invalidateByTable tbl c)) \<subseteq>\<^sub>m qc_content c |` {s. \<not> mentions tbl s}"
    using tr by (auto simp: dr map_le_def qc_content_def restrict_map_def lru_drop_content split: if_splits)
  show "qc_content (qc_put sql r now c) \<subseteq>\<^sub>m (qc_content c)(sql \<mapsto> r)"
    using lru_put_content [OF view_distinct [OF i], of "cc_maxEntries (qc_config c)" sql r "now + nanos (cc_defaultTtl (qc_config c))"] pr
    by (force simp: map_le_def qc_content_def qc_put_def dom_def)
qed (simp_all add: clear_refines qc_content_def fun_eq_iff)

section \<open>Properties\<close>

text \<open>(C35) The cache with its linked list and its index of iterators behaves as one list of queries in order
  of use, without duplicates: a hit moves the entry to the front and returns its result, an
  expired entry is removed and missed, a store replaces or goes to the front and drops the entry used
  least recently when the cache is full, and an invalidation removes exactly the entries that mention
  the table and counts them. Index and list stay consistent and the size stays within the limit (one
  entry when the limit is 0).\<close>

theorem cache_refines_lru:
  assumes "cache_inv q"
  shows "(fst (qc_get sql now q), qc_view (snd (qc_get sql now q))) = lru_get sql now (qc_view q) \<and>
         qc_view (qc_putTtl sql r ttl now q) = lru_put (cc_maxEntries (qc_config q)) sql r (now + nanos ttl) (qc_view q) \<and>
         qc_view (snd (qc_invalidate sql q)) = AList.delete sql (qc_view q) \<and>
         qc_view (snd (qc_invalidateByTable tbl q)) = lru_drop tbl (qc_view q) \<and>
         fst (qc_invalidateByTable tbl q) + length (lru_drop tbl (qc_view q)) = length (qc_view q) \<and>
         qc_size q \<le> max 1 (cc_maxEntries (qc_config q)) \<and>
         cache_inv (snd (qc_get sql now q)) \<and> cache_inv (qc_putTtl sql r ttl now q) \<and>
         cache_inv (snd (qc_invalidate sql q)) \<and> cache_inv (snd (qc_invalidateByTable tbl q)) \<and> cache_inv (qc_clear q)"
proof -
  obtain x c' where g: "qc_get sql now q = (x, c')" by (metis prod.exhaust)
  obtain k d where dr: "qc_invalidateByTable tbl q = (k, d)" by (metis prod.exhaust)
  obtain b f where v: "qc_invalidate sql q = (b, f)" by (metis prod.exhaust)
  show ?thesis
    using get_refines [OF assms g] put_refines [OF assms] table_refines [OF assms dr] invalidate_refines [OF assms v]
      clear_refines(1) cache_invD(3) [OF assms] by (auto simp: g dr v qc_size_def)
qed

abbreviation demoCache :: QueryCache where
  "demoCache \<equiv> mkQueryCache \<lparr>cc_enabled = True, cc_maxEntries = 1, cc_defaultTtl = 5, cc_maxValueSizeBytes = 0\<rparr>"

theorem cache_refines_lru_witness:
  "cache_inv demoCache \<and> qc_view (qc_putTtl ''SELECT a'' [] 5 0 demoCache) = [(''SELECT a'', [], 5000000000)]"
proof -
  have i: "cache_inv demoCache" by (rule cache_inv_initial)
  have "lru_put 1 ''SELECT a'' [] (0 + nanos 5) [] = [(''SELECT a'', [], 5000000000)]" by code_simp
  with i cache_refines_lru [OF i, THEN conjunct2, THEN conjunct1, of "''SELECT a''" "[]" 5 0] show ?thesis
    by (simp add: mkQueryCache_def qc_view_def)
qed

text \<open>The clean-up of expired entries stops after one entry when the entry used least recently has expired:
  the other expired entry stays.\<close>

theorem evictExpired_stops_early:
  "\<exists>q q'. cache_inv q \<and> (\<forall>(n, e) \<in> set (qc_lruList q). ce_expiresAt e \<le> 10) \<and> qc_size q = 3 \<and>
     qc_evictExpired 10 q = Some q' \<and> qc_size q' = 2"
proof -
  let ?c = "mkQueryCache \<lparr>cc_enabled = True, cc_maxEntries = 3, cc_defaultTtl = 0, cc_maxValueSizeBytes = 0\<rparr>"
  let ?q = "qc_putTtl ''c'' [] 0 2 (qc_putTtl ''b'' [] 0 1 (qc_putTtl ''a'' [] 0 0 ?c))"
  have "cache_inv ?q" by (intro put_refines [THEN conjunct1] cache_inv_initial)
  moreover have "\<forall>(n, e) \<in> set (qc_lruList ?q). ce_expiresAt e \<le> 10" by code_simp
  moreover have "qc_size ?q = 3" by code_simp
  moreover have "map_option qc_size (qc_evictExpired 10 ?q) = Some 2" by code_simp
  ultimately show ?thesis by blast
qed

end
