(* ===== verification/Connection_Pool_Manager.thy ===== *)
theory Connection_Pool_Manager
  imports Query_Cache
begin

text \<open>
  The connection pools of the database proxy (\<^verbatim>\<open>service/dbproxy_types.hpp\<close>,
  \<^verbatim>\<open>services/dbproxy/connection_pool_manager.cpp\<close>): one database for writes and any number of
  replicas for reads, chosen round robin with a fall-back to the primary. \<open>drvs 0\<close> is the driver as the
  primary's connections use it, \<open>drvs (Suc i)\<close> as those of replica \<open>i\<close> do: the manager objects of
  different databases are different objects. Shown are that the first connected replica at or after
  the counter is chosen, and that successive reads visit the replicas in turn.
\<close>

record DBEndpointConfig =
  ep_connectionString :: string
  ep_dbType :: DatabaseType
  ep_minConnections :: u32
  ep_maxConnections :: u32
  ep_connectionTimeout :: int

record DBProxyConfig =
  dp_primary :: DBEndpointConfig
  dp_replicas :: "DBEndpointConfig list"
  dp_cache :: CacheConfig
  dp_healthCheckInterval :: int

record PoolStats =
  ps_primaryActive :: nat
  ps_primaryTotal :: nat
  ps_replicaActive :: nat
  ps_replicaTotal :: nat
  ps_replicaCount :: nat
  ps_cacheEntries :: nat
  ps_cacheHitRate :: rat

definition toFoundationConfig :: "DBEndpointConfig \<Rightarrow> DatabaseConfig" where
  "toFoundationConfig ep = \<lparr>dc_connectionString = ep_connectionString ep, dc_dbType = ep_dbType ep,
     dc_minConnections = ep_minConnections ep, dc_maxConnections = ep_maxConnections ep,
     dc_connectionTimeout = ep_connectionTimeout ep\<rparr>"

record ConnectionPoolManager =
  cpm_config :: DBProxyConfig
  cpm_primaryDb :: GameDatabase
  cpm_replicaDbs :: "GameDatabase list"
  cpm_replicaRoundRobin :: u64
  cpm_started :: bool

definition mkConnectionPoolManager :: "DBProxyConfig \<Rightarrow> ConnectionPoolManager" where
  "mkConnectionPoolManager config = \<lparr>cpm_config = config, cpm_primaryDb = mkGameDatabase, cpm_replicaDbs = [],
     cpm_replicaRoundRobin = 0, cpm_started = False\<rparr>"

type_synonym 'd drivers = "nat \<Rightarrow> 'd DbDriver"
type_synonym waiting = "nat \<Rightarrow> PoolAction list list"

section \<open>Choosing a replica\<close>

text \<open>The loop over \<open>i\<close>, with \<open>k\<close> turns left; the sum is taken modulo \<open>2 ^ 64\<close>.\<close>

fun probeReplicas :: "nat \<Rightarrow> u64 \<Rightarrow> GameDatabase list \<Rightarrow> nat \<Rightarrow> nat option" where
  "probeReplicas 0 startIdx dbs i = None"
| "probeReplicas (Suc k) startIdx dbs i =
     (let idx = unat (startIdx + of_nat i) mod length dbs
      in if gd_isConnected (dbs ! idx) then Some idx else probeReplicas k startIdx dbs (Suc i))"

definition cpm_selectReplica :: "ConnectionPoolManager \<Rightarrow> nat option \<times> ConnectionPoolManager" where
  "cpm_selectReplica pm =
     (if cpm_replicaDbs pm = [] then (None, pm)
      else (probeReplicas (length (cpm_replicaDbs pm)) (cpm_replicaRoundRobin pm) (cpm_replicaDbs pm) 0,
            pm\<lparr>cpm_replicaRoundRobin := cpm_replicaRoundRobin pm + 1\<rparr>))"

section \<open>Operations\<close>

text \<open>Connects replica after replica; failures leave the replica disconnected.\<close>

fun connectReplicas :: "'d drivers \<Rightarrow> nat \<Rightarrow> DBEndpointConfig list \<Rightarrow> 'd \<Rightarrow> GameDatabase list \<times> 'd" where
  "connectReplicas drvs i [] d = ([], d)"
| "connectReplicas drvs i (ep # eps) d =
     (let (r, db, d1) = gd_connect (drvs (Suc i)) (toFoundationConfig ep) (mkGameDatabase, d);
          (dbs, d2) = connectReplicas drvs (Suc i) eps d1
      in (db # dbs, d2))"

definition cpm_start :: "'d drivers \<Rightarrow> ConnectionPoolManager \<times> 'd \<Rightarrow> unit GameResult \<times> ConnectionPoolManager \<times> 'd" where
  "cpm_start drvs = (\<lambda>(pm, d).
     if cpm_started pm then (err AlreadyExists ''pool manager already started'', pm, d)
     else case gd_connect (drvs 0) (toFoundationConfig (dp_primary (cpm_config pm))) (cpm_primaryDb pm, d) of
       (Inl e, db, d1) \<Rightarrow>
         (err PrimaryUnavailable (''failed to connect primary: '' @ ge_message e), pm\<lparr>cpm_primaryDb := db\<rparr>, d1)
     | (Inr _, db, d1) \<Rightarrow>
         let (dbs, d2) = connectReplicas drvs 0 (dp_replicas (cpm_config pm)) d1
         in (Inr (), pm\<lparr>cpm_primaryDb := db, cpm_replicaDbs := dbs, cpm_started := True\<rparr>, d2))"

fun disconnectReplicas :: "'d drivers \<Rightarrow> nat \<Rightarrow> GameDatabase list \<Rightarrow> 'd \<Rightarrow> 'd" where
  "disconnectReplicas drvs i [] d = d"
| "disconnectReplicas drvs i (db # dbs) d = disconnectReplicas drvs (Suc i) dbs (snd (gd_disconnect (drvs (Suc i)) (db, d)))"

definition cpm_stop :: "'d drivers \<Rightarrow> ConnectionPoolManager \<times> 'd \<Rightarrow> ConnectionPoolManager \<times> 'd" where
  "cpm_stop drvs = (\<lambda>(pm, d).
     let (db, d1) = gd_disconnect (drvs 0) (cpm_primaryDb pm, d);
         d2 = disconnectReplicas drvs 0 (cpm_replicaDbs pm) d1
     in (pm\<lparr>cpm_primaryDb := db, cpm_replicaDbs := [], cpm_started := False\<rparr>, d2))"

definition cpm_isConnected :: "ConnectionPoolManager \<Rightarrow> bool" where
  "cpm_isConnected pm = gd_isConnected (cpm_primaryDb pm)"

definition queryPrimary :: "'d drivers \<Rightarrow> waiting \<Rightarrow> string \<Rightarrow> ConnectionPoolManager \<times> 'd \<Rightarrow> QueryResult GameResult \<times> ConnectionPoolManager \<times> 'd" where
  "queryPrimary drvs waits sql = (\<lambda>(pm, d).
     let (r, db, d') = gd_query (drvs 0) (waits 0) sql (cpm_primaryDb pm, d) in (r, pm\<lparr>cpm_primaryDb := db\<rparr>, d'))"

definition cpm_query :: "'d drivers \<Rightarrow> waiting \<Rightarrow> string \<Rightarrow> ConnectionPoolManager \<times> 'd \<Rightarrow> QueryResult GameResult \<times> ConnectionPoolManager \<times> 'd" where
  "cpm_query drvs waits sql = (\<lambda>(pm, d).
     if \<not> cpm_started pm then (err DBProxyNotStarted ''connection pool manager not started'', pm, d)
     else case cpm_selectReplica pm of
       (None, pm1) \<Rightarrow> queryPrimary drvs waits sql (pm1, d)
     | (Some i, pm1) \<Rightarrow>
         let (r, db, d1) = gd_query (drvs (Suc i)) (waits (Suc i)) sql (cpm_replicaDbs pm1 ! i, d);
             pm2 = pm1\<lparr>cpm_replicaDbs := (cpm_replicaDbs pm1)[i := db]\<rparr>
         in if hasValue r then (r, pm2, d1) else queryPrimary drvs waits sql (pm2, d1))"

definition cpm_execute :: "'d drivers \<Rightarrow> waiting \<Rightarrow> string \<Rightarrow> ConnectionPoolManager \<times> 'd \<Rightarrow> u64 GameResult \<times> ConnectionPoolManager \<times> 'd" where
  "cpm_execute drvs waits sql = (\<lambda>(pm, d).
     if \<not> cpm_started pm then (err DBProxyNotStarted ''connection pool manager not started'', pm, d)
     else let (r, db, d') = gd_execute (drvs 0) (waits 0) sql (cpm_primaryDb pm, d) in (r, pm\<lparr>cpm_primaryDb := db\<rparr>, d'))"

definition cpm_queryStmt :: "'d drivers \<Rightarrow> waiting \<Rightarrow> PreparedStatement \<Rightarrow> ConnectionPoolManager \<times> 'd \<Rightarrow> QueryResult GameResult \<times> ConnectionPoolManager \<times> 'd" where
  "cpm_queryStmt drvs waits stmt = cpm_query drvs waits (st_resolve stmt)"

definition cpm_executeStmt :: "'d drivers \<Rightarrow> waiting \<Rightarrow> PreparedStatement \<Rightarrow> ConnectionPoolManager \<times> 'd \<Rightarrow> u64 GameResult \<times> ConnectionPoolManager \<times> 'd" where
  "cpm_executeStmt drvs waits stmt = cpm_execute drvs waits (st_resolve stmt)"

definition cpm_replicaCount :: "ConnectionPoolManager \<Rightarrow> nat" where
  "cpm_replicaCount pm = length (cpm_replicaDbs pm)"

definition cpm_stats :: "ConnectionPoolManager \<Rightarrow> PoolStats" where
  "cpm_stats pm = \<lparr>ps_primaryActive = gd_countActive (cpm_primaryDb pm), ps_primaryTotal = gd_poolSize (cpm_primaryDb pm),
     ps_replicaActive = sum_list (map gd_countActive (cpm_replicaDbs pm)),
     ps_replicaTotal = sum_list (map gd_poolSize (cpm_replicaDbs pm)),
     ps_replicaCount = length (cpm_replicaDbs pm), ps_cacheEntries = 0, ps_cacheHitRate = 0\<rparr>"

section \<open>Lemmas\<close>

text \<open>Where the counter is far from its wrap-around, the probe visits the replicas cyclically.\<close>

definition cyclic :: "nat \<Rightarrow> nat \<Rightarrow> nat \<Rightarrow> nat" where
  "cyclic start count i = (start + i) mod count"

lemma probe_index:
  assumes "unat startIdx + i < 2 ^ 64"
  shows "unat (startIdx + of_nat i :: u64) = unat startIdx + i"
proof -
  have "i < 2 ^ 64" using assms by linarith
  then have "unat (of_nat i :: u64) = i" by (simp add: unat_of_nat_lt)
  with assms show ?thesis by (simp add: unat_add_lem [THEN iffD1])
qed

lemma probeReplicas_Some:
  assumes "unat startIdx + i + k \<le> 2 ^ 64" "probeReplicas k startIdx dbs i = Some idx"
  shows "\<exists>j < k. idx = cyclic (unat startIdx) (length dbs) (i + j) \<and> gd_isConnected (dbs ! idx) \<and>
    (\<forall>j' < j. \<not> gd_isConnected (dbs ! cyclic (unat startIdx) (length dbs) (i + j')))"
  using assms
proof (induction k startIdx dbs i rule: probeReplicas.induct)
  case (2 k startIdx dbs i)
  have u: "unat (startIdx + of_nat i) = unat startIdx + i" using 2(2) by (intro probe_index) simp
  show ?case
  proof (cases "gd_isConnected (dbs ! cyclic (unat startIdx) (length dbs) i)")
    case True
    with 2(3) u show ?thesis by (intro exI [of _ 0]) (auto simp: cyclic_def Let_def)
  next
    case False
    then have "probeReplicas k startIdx dbs (Suc i) = Some idx" using 2(3) u by (simp add: cyclic_def Let_def)
    with 2(1) [OF refl] 2(2) u False obtain j where
      j: "j < k" "idx = cyclic (unat startIdx) (length dbs) (Suc i + j)" "gd_isConnected (dbs ! idx)"
      "\<forall>j' < j. \<not> gd_isConnected (dbs ! cyclic (unat startIdx) (length dbs) (Suc i + j'))"
      by (auto simp: cyclic_def)
    have "\<not> gd_isConnected (dbs ! cyclic (unat startIdx) (length dbs) (i + j'))" if "j' < Suc j" for j'
      using that False j(4) by (cases j') auto
    with j show ?thesis by (intro exI [of _ "Suc j"]) auto
  qed
qed simp

lemma probeReplicas_None:
  assumes "unat startIdx + i + k \<le> 2 ^ 64" "probeReplicas k startIdx dbs i = None" "j < k"
  shows "\<not> gd_isConnected (dbs ! cyclic (unat startIdx) (length dbs) (i + j))"
  using assms
proof (induction k startIdx dbs i arbitrary: j rule: probeReplicas.induct)
  case (2 k startIdx dbs i)
  have u: "unat (startIdx + of_nat i) = unat startIdx + i" using 2(2) by (intro probe_index) simp
  have no: "\<not> gd_isConnected (dbs ! cyclic (unat startIdx) (length dbs) i)" "probeReplicas k startIdx dbs (Suc i) = None"
    using 2(3) u by (auto simp: cyclic_def Let_def split: if_splits)
  show ?case
  proof (cases j)
    case 0
    with no show ?thesis by simp
  next
    case (Suc j')
    with 2(1) [OF refl, of j'] 2(2,4) no u show ?thesis by (simp add: cyclic_def)
  qed
qed simp

lemma probeReplicas_bound: "probeReplicas k startIdx dbs i = Some idx \<Longrightarrow> dbs \<noteq> [] \<Longrightarrow> idx < length dbs"
  by (induction k startIdx dbs i rule: probeReplicas.induct) (auto simp: Let_def split: if_splits)

lemma cyclic_surj:
  assumes "x < count"
  shows "\<exists>j < count. cyclic start count j = x"
proof (intro exI conjI)
  let ?j = "(x + count - start mod count) mod count"
  show "?j < count" using assms by simp
  have m: "start mod count < count" using assms by simp
  have "(start + ?j) mod count = (start mod count + (x + count - start mod count)) mod count" by (simp add: mod_simps)
  also have "start mod count + (x + count - start mod count) = x + count" using m by linarith
  also have "(x + count) mod count = x" using assms by simp
  finally show "cyclic start count ?j = x" by (simp add: cyclic_def)
qed

section \<open>Properties\<close>

text \<open>A read goes to the first connected replica at or after the round-robin counter, counted
  cyclically, and the counter moves on by one; no replica is chosen only if none is connected.
  So with all replicas connected, successive reads visit them in turn.\<close>

theorem replica_round_robin:
  assumes "cpm_replicaDbs pm \<noteq> []" "unat (cpm_replicaRoundRobin pm) + length (cpm_replicaDbs pm) \<le> 2 ^ 64"
  shows "snd (cpm_selectReplica pm) = pm\<lparr>cpm_replicaRoundRobin := cpm_replicaRoundRobin pm + 1\<rparr> \<and>
         ((\<exists>j < length (cpm_replicaDbs pm).
            fst (cpm_selectReplica pm) = Some (cyclic (unat (cpm_replicaRoundRobin pm)) (length (cpm_replicaDbs pm)) j) \<and>
            gd_isConnected (cpm_replicaDbs pm ! cyclic (unat (cpm_replicaRoundRobin pm)) (length (cpm_replicaDbs pm)) j) \<and>
            (\<forall>j' < j. \<not> gd_isConnected (cpm_replicaDbs pm ! cyclic (unat (cpm_replicaRoundRobin pm)) (length (cpm_replicaDbs pm)) j'))) \<or>
         (fst (cpm_selectReplica pm) = None \<and> (\<forall>db \<in> set (cpm_replicaDbs pm). \<not> gd_isConnected db)))"
proof (cases "fst (cpm_selectReplica pm)")
  case None
  have "\<not> gd_isConnected db" if "db \<in> set (cpm_replicaDbs pm)" for db
  proof -
    from that obtain x where x: "x < length (cpm_replicaDbs pm)" "db = cpm_replicaDbs pm ! x" by (auto simp: in_set_conv_nth)
    from cyclic_surj [OF x(1)] obtain j where
      j: "j < length (cpm_replicaDbs pm)" "cyclic (unat (cpm_replicaRoundRobin pm)) (length (cpm_replicaDbs pm)) j = x" by blast
    show ?thesis
      using probeReplicas_None [of "cpm_replicaRoundRobin pm" 0 "length (cpm_replicaDbs pm)" "cpm_replicaDbs pm" j] assms None j x(2)
      by (simp add: cpm_selectReplica_def)
  qed
  with None assms show ?thesis by (simp add: cpm_selectReplica_def)
next
  case (Some idx)
  then show ?thesis
    using probeReplicas_Some [of "cpm_replicaRoundRobin pm" 0 "length (cpm_replicaDbs pm)" "cpm_replicaDbs pm" idx] assms
    by (auto simp: cpm_selectReplica_def)
qed

abbreviation demoEndpoint :: DBEndpointConfig where
  "demoEndpoint \<equiv> \<lparr>ep_connectionString = [], ep_dbType = PostgreSQL, ep_minConnections = 2, ep_maxConnections = 10, ep_connectionTimeout = 30\<rparr>"

abbreviation demoProxyConfig :: DBProxyConfig where
  "demoProxyConfig \<equiv> \<lparr>dp_primary = demoEndpoint, dp_replicas = [demoEndpoint, demoEndpoint],
     dp_cache = \<lparr>cc_enabled = True, cc_maxEntries = 8, cc_defaultTtl = 300, cc_maxValueSizeBytes = 64\<rparr>, dp_healthCheckInterval = 30\<rparr>"

abbreviation demoReplicas :: ConnectionPoolManager where
  "demoReplicas \<equiv> \<lparr>cpm_config = demoProxyConfig, cpm_primaryDb = mkGameDatabase,
     cpm_replicaDbs = [mkGameDatabase, mkGameDatabase\<lparr>gd_connected := True\<rparr>], cpm_replicaRoundRobin = 4, cpm_started = True\<rparr>"

theorem replica_round_robin_witness:
  "fst (cpm_selectReplica demoReplicas) = Some 1 \<and>
   (\<exists>j < length (cpm_replicaDbs demoReplicas). fst (cpm_selectReplica demoReplicas) =
      Some (cyclic (unat (cpm_replicaRoundRobin demoReplicas)) (length (cpm_replicaDbs demoReplicas)) j))"
proof -
  have s: "fst (cpm_selectReplica demoReplicas) = Some 1" by code_simp
  have "cpm_replicaDbs demoReplicas \<noteq> []" "unat (cpm_replicaRoundRobin demoReplicas) + length (cpm_replicaDbs demoReplicas) \<le> 2 ^ 64"
    by simp_all
  from replica_round_robin [OF this, THEN conjunct2] s show ?thesis by fastforce
qed

end
