(* ===== verification/Dbproxy_Server.thy ===== *)
theory Dbproxy_Server
  imports Connection_Pool_Manager
begin

text \<open>
  The database proxy (\<^verbatim>\<open>service/dbproxy_server.hpp\<close>, \<^verbatim>\<open>services/dbproxy/dbproxy_server.cpp\<close>): reads
  are answered from the cache or by a replica, writes go to the primary and drop the cached queries
  that mention the table they name. The asynchronous variants run the same functions on another
  thread and have no definitions of their own. Shown is that the cache is transparent: whatever
  calls were made before, a read returns what the database answers now, provided the driver
  behaves like a database and a write changes only answers to queries that mention the table
  \<^verbatim>\<open>extractTableName\<close> finds in it. The proofs use the cache through the interpretation \<open>qc\<close> of the
  locale \<open>result_cache\<close>.
\<close>

section \<open>Reading SQL\<close>

definition toUpper :: "char \<Rightarrow> char" where
  "toUpper c = (if isLower c then char_of ((of_char c :: nat) - 32) else c)"

definition kSelect :: string where "kSelect = ''SELECT''"

definition isReadQuery :: "string \<Rightarrow> bool" where
  "isReadQuery sql \<longleftrightarrow>
     (let remaining = dropWhile isSpace sql
      in length kSelect \<le> length remaining \<and> list_all (\<lambda>i. toUpper (remaining ! i) = kSelect ! i) [0..<length kSelect])"

definition writePatterns :: "string list" where
  "writePatterns = [''INSERT INTO '', ''UPDATE '', ''DELETE FROM '', ''ALTER TABLE '', ''DROP TABLE '', ''TRUNCATE TABLE '', ''TRUNCATE '']"

definition endsName :: "char \<Rightarrow> bool" where
  "endsName c \<longleftrightarrow> isSpace c \<or> c \<in> set ''(;,''"

fun extractLoop :: "string \<Rightarrow> string list \<Rightarrow> string" where
  "extractLoop sql [] = []"
| "extractLoop sql (keyword # patterns) =
     (case sv_find (map toUpper sql) keyword 0 of
        None \<Rightarrow> extractLoop sql patterns
      | Some pos \<Rightarrow>
          let name = takeWhile (\<lambda>c. \<not> endsName c) (dropWhile isSpace (drop (pos + length keyword) sql))
          in if name \<noteq> [] then name else extractLoop sql patterns)"

definition extractTableName :: "string \<Rightarrow> string" where
  "extractTableName sql = extractLoop sql writePatterns"

section \<open>The server\<close>

record DBProxyServer =
  px_config :: DBProxyConfig
  px_poolManager :: ConnectionPoolManager
  px_cache :: QueryCache
  px_totalQueryCount :: u64
  px_running :: bool

definition mkDBProxyServer :: "DBProxyConfig \<Rightarrow> DBProxyServer" where
  "mkDBProxyServer config = \<lparr>px_config = config, px_poolManager = mkConnectionPoolManager config,
     px_cache = mkQueryCache (dp_cache config), px_totalQueryCount = 0, px_running = False\<rparr>"

definition px_start :: "'d drivers \<Rightarrow> DBProxyServer \<times> 'd \<Rightarrow> unit GameResult \<times> DBProxyServer \<times> 'd" where
  "px_start drvs = (\<lambda>(s, d).
     if px_running s then (err AlreadyExists ''DBProxy already running'', s, d)
     else case cpm_start drvs (px_poolManager s, d) of
       (Inl e, pm, d') \<Rightarrow> (Inl e, s\<lparr>px_poolManager := pm\<rparr>, d')
     | (Inr _, pm, d') \<Rightarrow> (Inr (), s\<lparr>px_poolManager := pm, px_running := True\<rparr>, d'))"

definition px_stop :: "'d drivers \<Rightarrow> DBProxyServer \<times> 'd \<Rightarrow> DBProxyServer \<times> 'd" where
  "px_stop drvs = (\<lambda>(s, d).
     let (pm, d') = cpm_stop drvs (px_poolManager s, d)
     in (s\<lparr>px_running := False, px_poolManager := pm, px_cache := qc_clear (px_cache s)\<rparr>, d'))"

definition px_isRunning :: "DBProxyServer \<Rightarrow> bool" where
  "px_isRunning s = px_running s"

text \<open>\<open>now\<close> is the clock reading of the cache lookup, \<open>now'\<close> that of the store. The argument \<open>ask\<close> is the
  call to the pool manager: with the text or with the statement.\<close>

definition queryThrough :: "(ConnectionPoolManager \<times> 'd \<Rightarrow> QueryResult GameResult \<times> ConnectionPoolManager \<times> 'd) \<Rightarrow>
    string \<Rightarrow> int \<Rightarrow> int \<Rightarrow> DBProxyServer \<times> 'd \<Rightarrow> QueryResult GameResult \<times> DBProxyServer \<times> 'd" where
  "queryThrough ask sql now now' = (\<lambda>(s, d).
     let cached = cc_enabled (dp_cache (px_config s)) \<and> isReadQuery sql;
         (hit, cache) = (if cached then qc_get sql now (px_cache s) else (None, px_cache s));
         s1 = s\<lparr>px_cache := cache\<rparr>
     in case hit of
          Some rows \<Rightarrow> (Inr rows, s1, d)
        | None \<Rightarrow>
            (case ask (px_poolManager s1, d) of
               (Inl e, pm, d') \<Rightarrow> (Inl e, s1\<lparr>px_poolManager := pm\<rparr>, d')
             | (Inr rows, pm, d') \<Rightarrow>
                 (Inr rows,
                  s1\<lparr>px_poolManager := pm, px_cache := if cached then qc_put sql rows now' cache else cache\<rparr>, d')))"

definition px_query :: "'d drivers \<Rightarrow> waiting \<Rightarrow> string \<Rightarrow> int \<Rightarrow> int \<Rightarrow> DBProxyServer \<times> 'd \<Rightarrow> QueryResult GameResult \<times> DBProxyServer \<times> 'd" where
  "px_query drvs waits sql now now' = (\<lambda>(s, d).
     if \<not> px_running s then (err DBProxyNotStarted ''DBProxy not started'', s, d)
     else queryThrough (cpm_query drvs waits sql) sql now now' (s\<lparr>px_totalQueryCount := px_totalQueryCount s + 1\<rparr>, d))"

definition px_queryStmt :: "'d drivers \<Rightarrow> waiting \<Rightarrow> PreparedStatement \<Rightarrow> int \<Rightarrow> int \<Rightarrow> DBProxyServer \<times> 'd \<Rightarrow> QueryResult GameResult \<times> DBProxyServer \<times> 'd" where
  "px_queryStmt drvs waits stmt now now' = (\<lambda>(s, d).
     if \<not> px_running s then (err DBProxyNotStarted ''DBProxy not started'', s, d)
     else queryThrough (cpm_queryStmt drvs waits stmt) (st_resolve stmt) now now'
            (s\<lparr>px_totalQueryCount := px_totalQueryCount s + 1\<rparr>, d))"

definition dropWritten :: "string \<Rightarrow> DBProxyServer \<Rightarrow> DBProxyServer" where
  "dropWritten sql s =
     (if cc_enabled (dp_cache (px_config s)) \<and> extractTableName sql \<noteq> []
      then s\<lparr>px_cache := snd (qc_invalidateByTable (extractTableName sql) (px_cache s))\<rparr> else s)"

definition px_execute :: "'d drivers \<Rightarrow> waiting \<Rightarrow> string \<Rightarrow> DBProxyServer \<times> 'd \<Rightarrow> u64 GameResult \<times> DBProxyServer \<times> 'd" where
  "px_execute drvs waits sql = (\<lambda>(s, d).
     if \<not> px_running s then (err DBProxyNotStarted ''DBProxy not started'', s, d)
     else let s1 = s\<lparr>px_totalQueryCount := px_totalQueryCount s + 1\<rparr>
          in case cpm_execute drvs waits sql (px_poolManager s1, d) of
               (Inl e, pm, d') \<Rightarrow> (Inl e, s1\<lparr>px_poolManager := pm\<rparr>, d')
             | (Inr n, pm, d') \<Rightarrow> (Inr n, dropWritten sql (s1\<lparr>px_poolManager := pm\<rparr>), d'))"

definition px_executeStmt :: "'d drivers \<Rightarrow> waiting \<Rightarrow> PreparedStatement \<Rightarrow> DBProxyServer \<times> 'd \<Rightarrow> u64 GameResult \<times> DBProxyServer \<times> 'd" where
  "px_executeStmt drvs waits stmt = (\<lambda>(s, d).
     if \<not> px_running s then (err DBProxyNotStarted ''DBProxy not started'', s, d)
     else let s1 = s\<lparr>px_totalQueryCount := px_totalQueryCount s + 1\<rparr>
          in case cpm_executeStmt drvs waits stmt (px_poolManager s1, d) of
               (Inl e, pm, d') \<Rightarrow> (Inl e, s1\<lparr>px_poolManager := pm\<rparr>, d')
             | (Inr n, pm, d') \<Rightarrow> (Inr n, dropWritten (st_resolve stmt) (s1\<lparr>px_poolManager := pm\<rparr>), d'))"

definition px_invalidateCache :: "string \<Rightarrow> DBProxyServer \<Rightarrow> nat \<times> DBProxyServer" where
  "px_invalidateCache tableName s =
     (let (n, cache) = qc_invalidateByTable tableName (px_cache s) in (n, s\<lparr>px_cache := cache\<rparr>))"

definition px_clearCache :: "DBProxyServer \<Rightarrow> DBProxyServer" where
  "px_clearCache s = s\<lparr>px_cache := qc_clear (px_cache s)\<rparr>"

definition px_poolStats :: "DBProxyServer \<Rightarrow> PoolStats" where
  "px_poolStats s = (cpm_stats (px_poolManager s))
     \<lparr>ps_cacheEntries := qc_size (px_cache s), ps_cacheHitRate := qc_hitRate (px_cache s)\<rparr>"

section \<open>Calls\<close>

datatype ProxyCall =
    PStart | PStop
  | PQuery waiting string int int
  | PQueryStmt waiting PreparedStatement int int
  | PExecute waiting string
  | PExecuteStmt waiting PreparedStatement
  | PInvalidate string
  | PClear

fun px_step :: "'d drivers \<Rightarrow> ProxyCall \<Rightarrow> DBProxyServer \<times> 'd \<Rightarrow> DBProxyServer \<times> 'd" where
  "px_step drvs PStart st = snd (px_start drvs st)"
| "px_step drvs PStop st = px_stop drvs st"
| "px_step drvs (PQuery waits sql now now') st = snd (px_query drvs waits sql now now' st)"
| "px_step drvs (PQueryStmt waits stmt now now') st = snd (px_queryStmt drvs waits stmt now now' st)"
| "px_step drvs (PExecute waits sql) st = snd (px_execute drvs waits sql st)"
| "px_step drvs (PExecuteStmt waits stmt) st = snd (px_executeStmt drvs waits stmt st)"
| "px_step drvs (PInvalidate t) st = (snd (px_invalidateCache t (fst st)), snd st)"
| "px_step drvs PClear st = (px_clearCache (fst st), snd st)"

text \<open>Only queries that start with SELECT are sent through the read functions.\<close>

fun readsOnly :: "ProxyCall \<Rightarrow> bool" where
  "readsOnly (PQuery waits sql now now') = isReadQuery sql"
| "readsOnly (PQueryStmt waits stmt now now') = isReadQuery (st_resolve stmt)"
| "readsOnly _ = True"

text \<open>What is assumed of the database behind the driver, with \<open>answer d sql\<close> the rows it would return for
  \<open>sql\<close> in the state \<open>d\<close>: a SELECT returns them and changes nothing, replicas answer as the primary
  does, opening and closing connections changes nothing, a failed write changes nothing, and a write changes
  only answers to queries that mention the table it names.\<close>

definition driver_like :: "'d DbDriver \<Rightarrow> ('d \<Rightarrow> string \<Rightarrow> QueryResult) \<Rightarrow> bool" where
  "driver_like drv answer \<longleftrightarrow>
     (\<forall>m t d. answer (snd (drv_set_mode drv m t d)) = answer d) \<and>
     (\<forall>m c d. answer (snd (drv_connect drv m c d)) = answer d) \<and>
     (\<forall>m d. answer (drv_disconnect drv m d) = answer d) \<and>
     (\<forall>m sql d. isReadQuery sql \<longrightarrow> answer (snd (drv_select drv m sql d)) = answer d) \<and>
     (\<forall>m sql d rows. isReadQuery sql \<longrightarrow> fst (drv_select drv m sql d) = Inr rows \<longrightarrow> convertResult rows = answer d sql) \<and>
     (\<forall>m sql d e. fst (drv_execute drv m sql d) = Inl e \<longrightarrow> answer (snd (drv_execute drv m sql d)) = answer d) \<and>
     (\<forall>m sql d q. extractTableName sql = [] \<or> \<not> mentions (extractTableName sql) q \<longrightarrow>
        answer (snd (drv_execute drv m sql d)) q = answer d q)"

definition database_like :: "'d drivers \<Rightarrow> ('d \<Rightarrow> string \<Rightarrow> QueryResult) \<Rightarrow> bool" where
  "database_like drvs answer \<longleftrightarrow> (\<forall>i. driver_like (drvs i) answer)"

section \<open>The pools answer like the database\<close>

lemma driver_likeD:
  assumes "driver_like drv answer"
  shows "answer (snd (drv_set_mode drv m t d)) = answer d" "answer (snd (drv_connect drv m c d)) = answer d"
    "answer (drv_disconnect drv m d) = answer d"
    "isReadQuery sql \<Longrightarrow> answer (snd (drv_select drv m sql d)) = answer d"
    "isReadQuery sql \<Longrightarrow> fst (drv_select drv m sql d) = Inr rows \<Longrightarrow> convertResult rows = answer d sql"
    "fst (drv_execute drv m sql d) = Inl e \<Longrightarrow> answer (snd (drv_execute drv m sql d)) = answer d"
    "extractTableName sql = [] \<or> \<not> mentions (extractTableName sql) q \<Longrightarrow> answer (snd (drv_execute drv m sql d)) q = answer d q"
  using assms unfolding driver_like_def by simp_all blast

lemma create_answer:
  assumes "driver_like drv answer" "gd_createConnection drv (db, d) = (r, db', d')"
  shows "answer d' = answer d"
proof -
  obtain ok d1 where m: "drv_set_mode drv (gd_nextManager db) (toKcenon (dc_dbType (gd_config db))) d = (ok, d1)" by (metis prod.exhaust)
  obtain c d2 where c: "drv_connect drv (gd_nextManager db) (dc_connectionString (gd_config db)) d1 = (c, d2)" by (metis prod.exhaust)
  have "answer d1 = answer d" "answer d2 = answer d1"
    using driver_likeD(1) [OF assms(1)] driver_likeD(2) [OF assms(1)] m c by (metis snd_conv)+
  with assms(2) m c show ?thesis by (auto simp: gd_createConnection_def Let_def split: if_splits sum.splits)
qed

lemma tryCheckout_answer:
  assumes "driver_like drv answer"
  shows "answer (snd (snd (gd_tryCheckout drv (db, d)))) = answer d"
proof -
  obtain r db' d' where c: "gd_createConnection drv (db, d) = (r, db', d')" by (metis prod_cases3)
  with create_answer [OF assms c] show ?thesis
    by (auto simp: gd_tryCheckout_def split: option.splits prod.splits)
qed

lemma othersRun_answer:
  assumes "driver_like drv answer"
  shows "answer (snd (fold (othersStep drv) acts st)) = answer (snd st)"
proof (induction acts arbitrary: st)
  case (Cons a acts)
  have "answer (snd (othersStep drv a st)) = answer (snd st)"
    using tryCheckout_answer [OF assms, of "fst st" "snd st"] by (cases a) auto
  with Cons show ?case by simp
qed simp

lemma checkout_answer:
  assumes "driver_like drv answer"
  shows "answer (snd (snd (gd_checkout drv waits (db, d)))) = answer d"
proof (induction waits arbitrary: db d)
  case Nil
  with tryCheckout_answer [OF assms] show ?case by (simp add: checkout_alone)
next
  case (Cons acts waits)
  obtain r db1 d1 where t: "gd_tryCheckout drv (db, d) = (r, db1, d1)" by (metis prod_cases3)
  obtain db2 d2 where o: "fold (othersStep drv) acts (db1, d1) = (db2, d2)" by (metis prod.exhaust)
  have "answer d1 = answer d" using tryCheckout_answer [OF assms, of db d] t by simp
  moreover have "answer d2 = answer d1" using othersRun_answer [OF assms, of acts "(db1, d1)"] o by simp
  ultimately show ?case
    using Cons.IH [of db2 d2] t o by (subst gd_checkout.simps) (simp split: option.splits)
qed

lemma gd_query_answer:
  assumes "driver_like drv answer" "isReadQuery sql" "gd_query drv waits sql (db, d) = (r, db', d')"
  shows "answer d' = answer d" "r = Inr rows \<Longrightarrow> rows = answer d sql"
proof -
  obtain c db1 d1 where c: "gd_checkout drv waits (db, d) = (c, db1, d1)" by (metis prod_cases3)
  then have d1: "answer d1 = answer d" using checkout_answer [OF assms(1), of waits db d] by simp
  have "answer d' = answer d \<and> (r = Inr rows \<longrightarrow> rows = answer d sql)"
  proof (cases c)
    case None
    with assms(3) c d1 show ?thesis by (auto simp: gd_query_def split: if_splits)
  next
    case (Some m)
    obtain x d2 where x: "drv_select drv m sql d1 = (x, d2)" by (metis prod.exhaust)
    have "answer d2 = answer d" using driver_likeD(4) [OF assms(1,2), of m d1] x d1 by simp
    moreover have "x = Inr y \<Longrightarrow> convertResult y = answer d sql" for y
      using driver_likeD(5) [OF assms(1,2), of m d1 y] x d1 by simp
    ultimately show ?thesis
      using assms(3) c Some x by (auto simp: gd_query_def Let_def split: if_splits sum.splits)
  qed
  then show "answer d' = answer d" "r = Inr rows \<Longrightarrow> rows = answer d sql" by auto
qed

lemma gd_execute_answer:
  assumes "driver_like drv answer" "gd_execute drv waits sql (db, d) = (r, db', d')"
  shows "r = Inl e \<Longrightarrow> answer d' = answer d"
    "extractTableName sql = [] \<or> \<not> mentions (extractTableName sql) q \<Longrightarrow> answer d' q = answer d q"
proof -
  obtain c db1 d1 where c: "gd_checkout drv waits (db, d) = (c, db1, d1)" by (metis prod_cases3)
  then have d1: "answer d1 = answer d" using checkout_answer [OF assms(1), of waits db d] by simp
  have "(r = Inl e \<longrightarrow> answer d' = answer d) \<and>
      (extractTableName sql = [] \<or> \<not> mentions (extractTableName sql) q \<longrightarrow> answer d' q = answer d q)"
  proof (cases c)
    case None
    with assms(2) c d1 show ?thesis by (auto simp: gd_execute_def split: if_splits)
  next
    case (Some m)
    obtain x d2 where x: "drv_execute drv m sql d1 = (x, d2)" by (metis prod.exhaust)
    have "x = Inl y \<Longrightarrow> answer d2 = answer d" for y
      using driver_likeD(6) [OF assms(1), of m sql d1 y] x d1 by simp
    moreover have "extractTableName sql = [] \<or> \<not> mentions (extractTableName sql) q \<Longrightarrow> answer d2 q = answer d q"
      using driver_likeD(7) [OF assms(1), of sql q m d1] x d1 by simp
    ultimately show ?thesis
      using assms(2) c Some x by (auto simp: gd_execute_def Let_def split: if_splits sum.splits)
  qed
  then show "r = Inl e \<Longrightarrow> answer d' = answer d"
    "extractTableName sql = [] \<or> \<not> mentions (extractTableName sql) q \<Longrightarrow> answer d' q = answer d q" by auto
qed

lemma disconnect_answer:
  assumes "driver_like drv answer"
  shows "answer (snd (gd_disconnect drv (db, d))) = answer d"
proof -
  have "answer (fold (\<lambda>conn. drv_disconnect drv (pc_manager conn)) pool d) = answer d" for pool
    by (induction pool arbitrary: d) (simp_all add: driver_likeD(3) [OF assms])
  then show ?thesis by (simp add: gd_disconnect_def)
qed

lemma connectLoop_answer:
  assumes "driver_like drv answer"
  shows "answer (snd (snd (connectLoop n drv k (db, d)))) = answer d"
proof (induction n arbitrary: db d)
  case (Suc n)
  obtain r db' d' where c: "gd_createConnection drv (db, d) = (r, db', d')" by (metis prod_cases3)
  from create_answer [OF assms c] Suc c disconnect_answer [OF assms, of db' d'] show ?case
    by (auto split: option.splits)
qed simp

lemma connect_answer:
  assumes "driver_like drv answer"
  shows "answer (snd (snd (gd_connect drv cfg (db, d)))) = answer d"
  by (simp add: gd_connect_def connectLoop_answer [OF assms])

lemma connectReplicas_answer:
  assumes drv: "\<And>k. driver_like (drvs k) answer"
  shows "answer (snd (connectReplicas drvs i eps d)) = answer d"
proof (induction eps arbitrary: i d)
  case (Cons ep eps)
  obtain r db d1 where c: "gd_connect (drvs (Suc i)) (toFoundationConfig ep) (mkGameDatabase, d) = (r, db, d1)" by (metis prod_cases3)
  with connect_answer [OF drv [of "Suc i"], of "toFoundationConfig ep" mkGameDatabase d] have "answer d1 = answer d" by simp
  with Cons [of "Suc i" d1] c show ?case by (simp add: case_prod_unfold Let_def)
qed simp

lemma disconnectReplicas_answer:
  assumes drv: "\<And>k. driver_like (drvs k) answer"
  shows "answer (disconnectReplicas drvs i dbs d) = answer d"
  by (induction dbs arbitrary: i d) (simp_all add: disconnect_answer [OF drv])

lemma cpm_start_answer:
  assumes drv: "\<And>k. driver_like (drvs k) answer"
  shows "answer (snd (snd (cpm_start drvs (pm, d)))) = answer d"
proof -
  obtain r db d1 where c: "gd_connect (drvs 0) (toFoundationConfig (dp_primary (cpm_config pm))) (cpm_primaryDb pm, d) = (r, db, d1)"
    by (metis prod_cases3)
  with connect_answer [OF drv [of 0], of "toFoundationConfig (dp_primary (cpm_config pm))" "cpm_primaryDb pm" d]
  have "answer d1 = answer d" by simp
  with c connectReplicas_answer [of drvs answer 0 "dp_replicas (cpm_config pm)" d1, OF drv] show ?thesis
    by (cases r) (simp_all add: cpm_start_def case_prod_unfold Let_def)
qed

lemma cpm_stop_answer:
  assumes drv: "\<And>k. driver_like (drvs k) answer"
  shows "answer (snd (cpm_stop drvs (pm, d))) = answer d"
  using disconnect_answer [OF drv [of 0], of "cpm_primaryDb pm" d]
  by (simp add: cpm_stop_def case_prod_unfold Let_def disconnectReplicas_answer [OF drv])

lemma queryPrimary_answer:
  assumes drv: "\<And>k. driver_like (drvs k) answer" and sel: "isReadQuery sql"
    and q: "queryPrimary drvs waits sql (pm, d) = (r, pm', d')"
  shows "answer d' = answer d \<and> (\<forall>rows. r = Inr rows \<longrightarrow> rows = answer d sql)"
proof -
  obtain r1 db d1 where g: "gd_query (drvs 0) (waits 0) sql (cpm_primaryDb pm, d) = (r1, db, d1)" by (metis prod_cases3)
  with q gd_query_answer [OF drv sel g] show ?thesis by (auto simp: queryPrimary_def)
qed

lemma cpm_query_answer:
  assumes drv: "\<And>k. driver_like (drvs k) answer" and sel: "isReadQuery sql"
    and q: "cpm_query drvs waits sql (pm, d) = (r, pm', d')"
  shows "answer d' = answer d \<and> (\<forall>rows. r = Inr rows \<longrightarrow> rows = answer d sql)"
proof (cases "cpm_started pm")
  case False
  with q show ?thesis by (auto simp: cpm_query_def)
next
  case True
  obtain x pm1 where s: "cpm_selectReplica pm = (x, pm1)" by (metis prod.exhaust)
  show ?thesis
  proof (cases x)
    case None
    with True s q have "queryPrimary drvs waits sql (pm1, d) = (r, pm', d')" by (simp add: cpm_query_def)
    then show ?thesis by (rule queryPrimary_answer [OF drv sel])
  next
    case (Some i)
    obtain r1 db d1 where g: "gd_query (drvs (Suc i)) (waits (Suc i)) sql (cpm_replicaDbs pm1 ! i, d) = (r1, db, d1)"
      by (metis prod_cases3)
    note ga = gd_query_answer [OF drv sel g]
    show ?thesis
    proof (cases "hasValue r1")
      case v: True
      with True s Some q g ga show ?thesis by (auto simp: cpm_query_def Let_def)
    next
      case False
      with True s Some q g have "queryPrimary drvs waits sql (pm1\<lparr>cpm_replicaDbs := (cpm_replicaDbs pm1)[i := db]\<rparr>, d1) = (r, pm', d')"
        by (simp add: cpm_query_def Let_def)
      from queryPrimary_answer [OF drv sel this] ga(1) show ?thesis by simp
    qed
  qed
qed

lemma cpm_execute_answer:
  assumes drv: "\<And>k. driver_like (drvs k) answer" and q: "cpm_execute drvs waits sql (pm, d) = (r, pm', d')"
  shows "(\<forall>e. r = Inl e \<longrightarrow> answer d' = answer d) \<and>
    (\<forall>q. extractTableName sql = [] \<or> \<not> mentions (extractTableName sql) q \<longrightarrow> answer d' q = answer d q)"
proof -
  obtain r1 db d1 where g: "gd_execute (drvs 0) (waits 0) sql (cpm_primaryDb pm, d) = (r1, db, d1)" by (metis prod_cases3)
  from q g gd_execute_answer [OF drv g] show ?thesis by (auto simp: cpm_execute_def split: if_splits)
qed

section \<open>The cache stays current\<close>

definition px_inv :: "('d \<Rightarrow> string \<Rightarrow> QueryResult) \<Rightarrow> DBProxyServer \<times> 'd \<Rightarrow> bool" where
  "px_inv answer = (\<lambda>(s, d). cache_inv (px_cache s) \<and>
     (cc_enabled (dp_cache (px_config s)) \<longrightarrow> current (qc_content (px_cache s)) (answer d)))"

lemma queryThrough_current:
  assumes i: "px_inv answer (s, d)" and sel: "isReadQuery sql"
    and ask: "\<And>pm r pm' d'. ask (pm, d) = (r, pm', d') \<Longrightarrow> answer d' = answer d \<and> (\<forall>rows. r = Inr rows \<longrightarrow> rows = answer d sql)"
    and q: "queryThrough ask sql now now' (s, d) = (r, s', d')"
  shows "px_inv answer (s', d') \<and> answer d' = answer d \<and> (\<forall>rows. r = Inr rows \<longrightarrow> rows = answer d sql)"
proof -
  define en where "en = cc_enabled (dp_cache (px_config s))"
  obtain hit cache where g: "(if en then qc_get sql now (px_cache s) else (None, px_cache s)) = (hit, cache)" by (metis prod.exhaust)
  have ok: "cache_inv (px_cache s)" and cur: "en \<Longrightarrow> current (qc_content (px_cache s)) (answer d)"
    using i by (simp_all add: px_inv_def en_def)
  have c: "cache_inv cache" "en \<Longrightarrow> current (qc_content cache) (answer d)"
    using g ok cur qc.get_ok [OF ok, of sql now] qc.get_current [OF ok cur, of sql now] by (auto split: if_splits)
  have u: "queryThrough ask sql now now' (s, d) =
      (case hit of
         Some rows \<Rightarrow> (Inr rows, s\<lparr>px_cache := cache\<rparr>, d)
       | None \<Rightarrow>
           (case ask (px_poolManager s, d) of
              (Inl e, pm, d') \<Rightarrow> (Inl e, s\<lparr>px_cache := cache, px_poolManager := pm\<rparr>, d')
            | (Inr rows, pm, d') \<Rightarrow>
                (Inr rows, s\<lparr>px_poolManager := pm, px_cache := if en then qc_put sql rows now' cache else cache\<rparr>, d')))"
    using g sel by (simp add: queryThrough_def en_def Let_def split: option.splits sum.splits prod.splits)
  show ?thesis
  proof (cases hit)
    case (Some rows)
    then have "en" "fst (qc_get sql now (px_cache s)) = Some rows" using g by (auto split: if_splits)
    with qc.hit_current [OF ok cur] have "rows = answer d sql" by blast
    with Some q u c show ?thesis by (auto simp: en_def [symmetric] px_inv_def)
  next
    case None
    obtain x pm d1 where a: "ask (px_poolManager s, d) = (x, pm, d1)" by (metis prod_cases3)
    note aa = ask [OF a]
    show ?thesis
    proof (cases x)
      case (Inl e)
      with None q u c a aa show ?thesis by (auto simp: en_def [symmetric] px_inv_def)
    next
      case (Inr rows)
      then have rows: "rows = answer d sql" using aa by simp
      have "cache_inv (qc_put sql rows now' cache)" using c(1) by (rule qc.put_ok)
      moreover have "en \<Longrightarrow> current (qc_content (qc_put sql rows now' cache)) (answer d)"
        unfolding rows using c by (intro qc.put_current) auto
      moreover have "r = Inr rows" "d' = d1"
        "s' = s\<lparr>px_poolManager := pm, px_cache := if en then qc_put sql rows now' cache else cache\<rparr>"
        using Inr None q u a by simp_all
      moreover have "cc_enabled (dp_cache (px_config s')) = en" using calculation(5) by (simp add: en_def)
      ultimately show ?thesis
        using c(1) aa rows unfolding px_inv_def by (cases en) simp_all
    qed
  qed
qed

lemma dropWritten_current:
  assumes i: "px_inv answer (s, d)"
    and w: "\<And>q. extractTableName sql = [] \<or> \<not> mentions (extractTableName sql) q \<Longrightarrow> answer d' q = answer d q"
  shows "px_inv answer (dropWritten sql s, d')"
proof -
  have ok: "cache_inv (px_cache s)" and cur: "cc_enabled (dp_cache (px_config s)) \<Longrightarrow> current (qc_content (px_cache s)) (answer d)"
    using i by (simp_all add: px_inv_def)
  show ?thesis
  proof (cases "cc_enabled (dp_cache (px_config s)) \<and> extractTableName sql \<noteq> []")
    case True
    then have "current (qc_content (snd (qc_invalidateByTable (extractTableName sql) (px_cache s)))) (answer d')"
      using w by (intro qc.drop_current [OF ok cur]) auto
    with True qc.drop_ok [OF ok] show ?thesis by (simp add: dropWritten_def px_inv_def)
  next
    case False
    then have "cc_enabled (dp_cache (px_config s)) \<Longrightarrow> answer d' = answer d" using w by (auto simp: fun_eq_iff)
    with False ok cur show ?thesis by (auto simp: dropWritten_def px_inv_def)
  qed
qed


lemma px_start_inv:
  assumes drv: "\<And>k. driver_like (drvs k) answer" and i: "px_inv answer (s, d)"
  shows "px_inv answer (snd (px_start drvs (s, d)))"
proof -
  obtain r pm d1 where p: "cpm_start drvs (px_poolManager s, d) = (r, pm, d1)" by (metis prod_cases3)
  with cpm_start_answer [of drvs answer "px_poolManager s" d, OF drv] have "answer d1 = answer d" by simp
  with p i show ?thesis by (cases r) (auto simp: px_start_def px_inv_def)
qed

lemma px_stop_inv:
  assumes drv: "\<And>k. driver_like (drvs k) answer"
  shows "px_inv answer (px_stop drvs (s, d))"
  using qc.clear_ok qc.clear_current by (simp add: px_stop_def px_inv_def case_prod_unfold Let_def)

lemma px_query_current:
  assumes drv: "\<And>k. driver_like (drvs k) answer" and sel: "isReadQuery sql" and i: "px_inv answer (s, d)"
    and q: "px_query drvs waits sql now now' (s, d) = (r, s', d')"
  shows "px_inv answer (s', d') \<and> answer d' = answer d \<and> (\<forall>rows. r = Inr rows \<longrightarrow> rows = answer d sql)"
proof (cases "px_running s")
  case False
  with q i show ?thesis by (auto simp: px_query_def)
next
  case True
  let ?s = "s\<lparr>px_totalQueryCount := px_totalQueryCount s + 1\<rparr>"
  have "px_inv answer (?s, d)" using i by (simp add: px_inv_def)
  moreover have "queryThrough (cpm_query drvs waits sql) sql now now' (?s, d) = (r, s', d')"
    using True q by (simp add: px_query_def)
  ultimately show ?thesis using sel cpm_query_answer [of drvs answer sql waits, OF drv sel] by (intro queryThrough_current)
qed

lemma px_queryStmt_current:
  assumes drv: "\<And>k. driver_like (drvs k) answer" and sel: "isReadQuery (st_resolve stmt)" and i: "px_inv answer (s, d)"
    and q: "px_queryStmt drvs waits stmt now now' (s, d) = (r, s', d')"
  shows "px_inv answer (s', d') \<and> answer d' = answer d \<and> (\<forall>rows. r = Inr rows \<longrightarrow> rows = answer d (st_resolve stmt))"
proof -
  have "px_query drvs waits (st_resolve stmt) now now' (s, d) = (r, s', d')"
    using q unfolding px_query_def px_queryStmt_def cpm_queryStmt_def [abs_def] .
  with px_query_current [of drvs answer "st_resolve stmt", OF drv sel i] show ?thesis by blast
qed

lemma px_execute_inv:
  assumes drv: "\<And>k. driver_like (drvs k) answer" and i: "px_inv answer (s, d)"
  shows "px_inv answer (snd (px_execute drvs waits sql (s, d)))"
proof (cases "px_running s")
  case False
  with i show ?thesis by (simp add: px_execute_def)
next
  case True
  obtain r pm d1 where p: "cpm_execute drvs waits sql (px_poolManager s, d) = (r, pm, d1)" by (metis prod_cases3)
  note w = cpm_execute_answer [of drvs answer, OF drv p]
  let ?s = "s\<lparr>px_totalQueryCount := px_totalQueryCount s + 1, px_poolManager := pm\<rparr>"
  have i': "px_inv answer (?s, d)" using i by (simp add: px_inv_def)
  show ?thesis
  proof (cases r)
    case (Inl e)
    with w have "answer d1 = answer d" by blast
    with Inl True p i' show ?thesis by (simp add: px_execute_def px_inv_def)
  next
    case (Inr n)
    have "px_inv answer (dropWritten sql ?s, d1)" using i' w by (intro dropWritten_current [OF i']) blast
    with Inr True p show ?thesis by (simp add: px_execute_def)
  qed
qed

lemma px_step_inv:
  assumes like: "database_like drvs answer" and i: "px_inv answer st" and reads: "readsOnly call"
  shows "px_inv answer (px_step drvs call st)"
proof -
  have drv: "driver_like (drvs k) answer" for k using like by (simp add: database_like_def)
  obtain s d where st: "st = (s, d)" by (cases st)
  show ?thesis
  proof (cases call)
    case (PQuery waits sql now now')
    obtain r s' d' where "px_query drvs waits sql now now' (s, d) = (r, s', d')" by (metis prod_cases3)
    with px_query_current [of drvs answer, OF drv _ _ this] reads i PQuery st show ?thesis by simp
  next
    case (PQueryStmt waits stmt now now')
    obtain r s' d' where "px_queryStmt drvs waits stmt now now' (s, d) = (r, s', d')" by (metis prod_cases3)
    with px_queryStmt_current [of drvs answer, OF drv _ _ this] reads i PQueryStmt st show ?thesis by simp
  next
    case (PExecute waits sql)
    with px_execute_inv [of drvs answer, OF drv] i st show ?thesis by simp
  next
    case (PExecuteStmt waits stmt)
    have "px_executeStmt drvs waits stmt (s, d) = px_execute drvs waits (st_resolve stmt) (s, d)"
      by (simp add: px_executeStmt_def px_execute_def cpm_executeStmt_def)
    with PExecuteStmt px_execute_inv [of drvs answer, OF drv] i st show ?thesis by simp
  next
    case (PInvalidate t)
    have "cache_inv (px_cache s)" using i st by (simp add: px_inv_def)
    then show ?thesis
      using PInvalidate i st qc.drop_ok [of "px_cache s" t] qc.drop_current [of "px_cache s" "answer d" t "answer d"]
      by (auto simp: px_invalidateCache_def px_inv_def case_prod_unfold Let_def)
  next
    case PClear
    with st show ?thesis using qc.clear_ok qc.clear_current by (simp add: px_clearCache_def px_inv_def)
  qed (use i st px_start_inv [of drvs answer, OF drv] px_stop_inv [of drvs answer, OF drv] in simp_all)
qed

lemma px_run_inv:
  "database_like drvs answer \<Longrightarrow> px_inv answer st \<Longrightarrow> list_all readsOnly calls \<Longrightarrow> px_inv answer (fold (px_step drvs) calls st)"
proof (induction calls arbitrary: st)
  case (Cons c calls)
  then show ?case using px_step_inv [of drvs answer st c] by simp
qed simp

lemma px_inv_initial: "px_inv answer (mkDBProxyServer config, d)"
  using cache_inv_initial
  by (simp add: px_inv_def mkDBProxyServer_def current_def qc_content_def qc_view_def mkQueryCache_def)

section \<open>Properties\<close>


text \<open>A database whose state is the one value a table \<open>t\<close> holds; every write stores 1.\<close>

definition counterRow :: "nat \<Rightarrow> (string \<times> KcValue) list list" where
  "counterRow d = [[(''v'', KcInt (of_nat d))]]"

definition counterDriver :: "nat DbDriver" where
  "counterDriver = \<lparr>drv_set_mode = \<lambda>m t d. (True, d), drv_connect = \<lambda>m c d. (Inr (), d), drv_disconnect = \<lambda>m d. d,
     drv_select = \<lambda>m sql d. (Inr (if mentions ''t'' sql then counterRow d else []), d),
     drv_execute = \<lambda>m sql d. if extractTableName sql = ''t'' then (Inr (), 1) else (Inl ''no such table'', d),
     drv_begin = \<lambda>m d. (Inr (), d), drv_commit = \<lambda>m d. (Inr (), d), drv_rollback = \<lambda>m d. (Inr (), d)\<rparr>"

definition counterAnswer :: "nat \<Rightarrow> string \<Rightarrow> QueryResult" where
  "counterAnswer d sql = (if mentions ''t'' sql then convertResult (counterRow d) else [])"

lemma counterDriver_like: "database_like (\<lambda>i. counterDriver) counterAnswer"
  by (auto simp: database_like_def driver_like_def counterDriver_def counterAnswer_def convertResult_def fun_eq_iff split: if_splits)

abbreviation counterCalls :: "ProxyCall list" where
  "counterCalls \<equiv> [PStart, PQuery (\<lambda>i. []) ''SELECT v FROM t'' 0 0, PExecute (\<lambda>i. []) ''UPDATE t SET v=1'']"

abbreviation (input) counterState :: "DBProxyServer \<times> nat" where
  "counterState \<equiv> fold (px_step (\<lambda>i. counterDriver)) counterCalls (mkDBProxyServer demoProxyConfig, 0)"


text \<open>A write that names its table with a schema leaves the cached reads of that table in place: the name
  found is the qualified one, which those reads do not contain. So does a string value that holds a
  keyword: the name after the first keyword of the list is taken, wherever it stands.\<close>

theorem qualified_write_leaves_cached_reads:
  "extractTableName ''UPDATE public.players SET lvl=2'' = ''public.players'' \<and>
   \<not> mentions ''public.players'' ''SELECT lvl FROM players'' \<and>
   extractTableName ''UPDATE players SET note='' = ''players'' \<and>
   extractTableName (''UPDATE players SET note='' @ escapeString ''insert into log x'') = ''log''"
proof (intro conjI)
  show "extractTableName ''UPDATE public.players SET lvl=2'' = ''public.players''" by code_simp
  show "\<not> mentions ''public.players'' ''SELECT lvl FROM players''" by code_simp
  show "extractTableName ''UPDATE players SET note='' = ''players''" by code_simp
  show "extractTableName (''UPDATE players SET note='' @ escapeString ''insert into log x'') = ''log''" by code_simp
qed

end
