(* ===== verification/Version_Constraint.thy ===== *)
theory Version_Constraint
  imports Foundation Cpp_Strings
begin

text \<open>
  Versions and version constraints of plugins (\<^verbatim>\<open>plugin/plugin_types.hpp\<close>,
  \<^verbatim>\<open>plugin/version_constraint.hpp\<close>, \<^verbatim>\<open>plugins/version_constraint.cpp\<close>). The defaulted comparison of
  versions is an instance of the class of linear orders. Shown are that a constraint and a whole
  dependency read back from their printed form, and what each operator admits.
\<close>

section \<open>Versions\<close>

datatype Version = Version (ver_major: u16) (ver_minor: u16) (ver_patch: u16)

instantiation Version :: linorder
begin

definition less_eq_Version :: "Version \<Rightarrow> Version \<Rightarrow> bool" where
  "less_eq_Version v w \<longleftrightarrow> ver_major v < ver_major w \<or> (ver_major v = ver_major w \<and>
     (ver_minor v < ver_minor w \<or> (ver_minor v = ver_minor w \<and> ver_patch v \<le> ver_patch w)))"

definition less_Version :: "Version \<Rightarrow> Version \<Rightarrow> bool" where
  "less_Version v w \<longleftrightarrow> ver_major v < ver_major w \<or> (ver_major v = ver_major w \<and>
     (ver_minor v < ver_minor w \<or> (ver_minor v = ver_minor w \<and> ver_patch v < ver_patch w)))"

instance
proof
  fix v w x :: Version
  show "(v < w) = (v \<le> w \<and> \<not> w \<le> v)" by (auto simp: less_eq_Version_def less_Version_def)
  show "v \<le> v" by (simp add: less_eq_Version_def)
  show "v \<le> w \<Longrightarrow> w \<le> x \<Longrightarrow> v \<le> x" by (auto simp: less_eq_Version_def)
  show "v \<le> w \<Longrightarrow> w \<le> v \<Longrightarrow> v = w" by (cases v; cases w) (auto simp: less_eq_Version_def)
  show "v \<le> w \<or> w \<le> v" by (auto simp: less_eq_Version_def)
qed

end

definition IsCompatibleWith :: "Version \<Rightarrow> Version \<Rightarrow> bool" where
  "IsCompatibleWith v other \<longleftrightarrow> ver_major v = ver_major other"

text \<open>\<^verbatim>\<open>std::from_chars\<close> into a \<^verbatim>\<open>uint16_t\<close>: at least one digit, no sign; what follows the digits is
  ignored.\<close>

definition from_chars_u16 :: "string \<Rightarrow> u16 option" where
  "from_chars_u16 s =
     (let ds = takeWhile isDigit s; v = digitsValue ds
      in if ds = [] \<or> int v \<ge> 65536 then None else Some (of_nat v))"

abbreviation (input) space :: char where "space \<equiv> CHR '' ''"

definition trimFront :: "string \<Rightarrow> string" where
  "trimFront s = dropWhile (\<lambda>c. c = space) s"

definition trimBack :: "string \<Rightarrow> string" where
  "trimBack s = rev (dropWhile (\<lambda>c. c = space) (rev s))"

text \<open>The text up to the first dot and, if there is one, the text after it.\<close>

definition cutAt :: "char \<Rightarrow> string \<Rightarrow> string \<times> string option" where
  "cutAt c s = (case sv_find s [c] 0 of None \<Rightarrow> (s, None) | Some p \<Rightarrow> (take p s, Some (drop (p + 1) s)))"

definition ParseVersion :: "string \<Rightarrow> Version GameResult" where
  "ParseVersion text =
     (let str = trimBack (trimFront text)
      in if str = [] then err InvalidArgument ''Empty version string''
         else case cutAt (CHR ''.'') str of
           (majorStr, rest) \<Rightarrow>
             (case from_chars_u16 majorStr of
                None \<Rightarrow> err InvalidArgument (''Invalid major version: '' @ str)
              | Some maj \<Rightarrow>
                  (case rest of
                     None \<Rightarrow> Inr (Version maj 0 0)
                   | Some str1 \<Rightarrow>
                       (case cutAt (CHR ''.'') str1 of
                          (minorStr, rest1) \<Rightarrow>
                            (case from_chars_u16 minorStr of
                               None \<Rightarrow> err InvalidArgument (''Invalid minor version: '' @ str1)
                             | Some mnr \<Rightarrow>
                                 (case rest1 of
                                    None \<Rightarrow> Inr (Version maj mnr 0)
                                  | Some str2 \<Rightarrow>
                                      (case from_chars_u16 str2 of
                                         None \<Rightarrow> err InvalidArgument (''Invalid patch version: '' @ str2)
                                       | Some pat \<Rightarrow> Inr (Version maj mnr pat))))))))"

section \<open>Constraints\<close>

datatype ConstraintOp = GreaterEqual | GreaterThan | LessEqual | LessThan | EqualTo | CompatibleRelease

record VersionConstraint =
  vc_op :: ConstraintOp
  vc_version :: Version

definition vc_IsSatisfiedBy :: "VersionConstraint \<Rightarrow> Version \<Rightarrow> bool" where
  "vc_IsSatisfiedBy c v =
     (case vc_op c of
        GreaterEqual \<Rightarrow> v \<ge> vc_version c
      | GreaterThan \<Rightarrow> v > vc_version c
      | LessEqual \<Rightarrow> v \<le> vc_version c
      | LessThan \<Rightarrow> v < vc_version c
      | EqualTo \<Rightarrow> v = vc_version c
      | CompatibleRelease \<Rightarrow> v \<ge> vc_version c \<and> ver_major v = ver_major (vc_version c))"

definition detectOp :: "string \<Rightarrow> ConstraintOp \<times> string" where
  "detectOp spec =
     (if prefix ''~='' spec then (CompatibleRelease, drop 2 spec)
      else if prefix ''>='' spec then (GreaterEqual, drop 2 spec)
      else if prefix ''>'' spec then (GreaterThan, drop 1 spec)
      else if prefix ''<='' spec then (LessEqual, drop 2 spec)
      else if prefix ''<'' spec then (LessThan, drop 1 spec)
      else if prefix ''=='' spec then (EqualTo, drop 2 spec)
      else (EqualTo, spec))"

definition vc_Parse :: "string \<Rightarrow> VersionConstraint GameResult" where
  "vc_Parse text =
     (let spec = trimFront text
      in if spec = [] then err InvalidArgument ''Empty constraint string''
         else let (oper, rest) = detectOp spec
              in case ParseVersion rest of
                   Inl e \<Rightarrow> Inl e
                 | Inr v \<Rightarrow> Inr \<lparr>vc_op = oper, vc_version = v\<rparr>)"

fun opText :: "ConstraintOp \<Rightarrow> string" where
  "opText GreaterEqual = ''>=''"
| "opText GreaterThan = ''>''"
| "opText LessEqual = ''<=''"
| "opText LessThan = ''<''"
| "opText EqualTo = ''==''"
| "opText CompatibleRelease = ''~=''"

definition versionText :: "Version \<Rightarrow> string" where
  "versionText v = to_string (unat (ver_major v)) @ ''.'' @ to_string (unat (ver_minor v)) @ ''.'' @ to_string (unat (ver_patch v))"

definition vc_ToString :: "VersionConstraint \<Rightarrow> string" where
  "vc_ToString c = opText (vc_op c) @ versionText (vc_version c)"

section \<open>Dependencies\<close>

record DependencySpec =
  ds_name :: string
  ds_constraints :: "VersionConstraint list"

definition ds_IsSatisfiedBy :: "DependencySpec \<Rightarrow> Version \<Rightarrow> bool" where
  "ds_IsSatisfiedBy spec v = list_all (\<lambda>c. vc_IsSatisfiedBy c v) (ds_constraints spec)"

definition isOpChar :: "char \<Rightarrow> bool" where
  "isOpChar c \<longleftrightarrow> c \<in> set ''><=~''"

lemma cutAt_shorter: "cutAt c s = (part, Some rest) \<Longrightarrow> length rest < length s"
  by (auto simp: cutAt_def sv_find_zero split: option.splits dest!: findStr_Some_bound)

text \<open>The comma-separated constraints; the loop ends when nothing is left.\<close>

function parseConstraints :: "string \<Rightarrow> VersionConstraint list GameResult" where
  "parseConstraints remaining =
     (if remaining = [] then Inr []
      else case cutAt (CHR '','') remaining of
        (part, rest) \<Rightarrow>
          (case vc_Parse part of
             Inl e \<Rightarrow> Inl e
           | Inr c \<Rightarrow>
               (case rest of
                  None \<Rightarrow> Inr [c]
                | Some remaining' \<Rightarrow>
                    (case parseConstraints remaining' of Inl e \<Rightarrow> Inl e | Inr cs \<Rightarrow> Inr (c # cs)))))"
  by pat_completeness auto
termination
  by (relation "measure length") (auto dest!: sym [THEN cutAt_shorter])

declare parseConstraints.simps [simp del]

definition ds_Parse :: "string \<Rightarrow> DependencySpec GameResult" where
  "ds_Parse text =
     (let dep = trimBack (trimFront text)
      in if dep = [] then err InvalidArgument ''Empty dependency string''
         else if \<not> list_ex isOpChar dep then Inr \<lparr>ds_name = dep, ds_constraints = []\<rparr>
         else let name = trimBack (takeWhile (\<lambda>c. \<not> isOpChar c) dep)
              in if name = [] then err InvalidArgument (''Missing plugin name in dependency: '' @ dep)
                 else case parseConstraints (dropWhile (\<lambda>c. \<not> isOpChar c) dep) of
                   Inl e \<Rightarrow> Inl e
                 | Inr cs \<Rightarrow> Inr \<lparr>ds_name = name, ds_constraints = cs\<rparr>)"

fun joinConstraints :: "VersionConstraint list \<Rightarrow> string" where
  "joinConstraints [] = []"
| "joinConstraints [c] = vc_ToString c"
| "joinConstraints (c # cs) = vc_ToString c @ '', '' @ joinConstraints cs"

definition ds_ConstraintsToString :: "DependencySpec \<Rightarrow> string" where
  "ds_ConstraintsToString spec = (if ds_constraints spec = [] then ''(any version)'' else joinConstraints (ds_constraints spec))"

section \<open>Reading printed versions\<close>

lemma from_chars_u16_print:
  "rest = [] \<or> \<not> isDigit (hd rest) \<Longrightarrow> from_chars_u16 (to_string (unat v) @ rest) = Some v"
proof -
  assume rest: "rest = [] \<or> \<not> isDigit (hd rest)"
  have "unat v < 65536" using unsigned_less [of v, where 'a = nat] by simp
  then show ?thesis by (simp add: from_chars_u16_def takeWhile_digits [OF rest])
qed

lemma cutAt_found: "c \<notin> set s \<Longrightarrow> cutAt c (s @ c # t) = (s, Some t)"
  by (simp add: cutAt_def sv_find_zero findStr_char)

lemma cutAt_none: "c \<notin> set s \<Longrightarrow> cutAt c s = (s, None)"
  using findStr_char_None [of c s] by (simp add: cutAt_def sv_find_zero)

lemma not_digit_chars: "\<not> isDigit (CHR ''.'')" "\<not> isDigit space" "\<not> isDigit (CHR '','')" "isOpChar c \<Longrightarrow> \<not> isDigit c"
  by (auto simp: isDigit_def isOpChar_def)

lemma to_string_without: "\<not> isDigit c \<Longrightarrow> c \<notin> set (to_string n)"
  using to_string_digits by blast

lemma trim_id:
  "s = [] \<or> hd s \<noteq> space \<Longrightarrow> trimFront s = s" "s = [] \<or> last s \<noteq> space \<Longrightarrow> trimBack s = s"
  by (cases s; simp add: trimFront_def) (cases s rule: rev_cases; simp add: trimBack_def)

lemma versionText_ends: "versionText v \<noteq> []" "hd (versionText v) \<noteq> space" "last (versionText v) \<noteq> space"
proof -
  obtain c cs where c: "to_string (unat (ver_major v)) = c # cs" "isDigit c" by (rule to_string_first)
  have "last (to_string (unat (ver_patch v))) \<noteq> space"
    using to_string_without [OF not_digit_chars(2)] last_in_set [OF to_string_nonempty] by metis
  with c not_digit_chars(2) show "versionText v \<noteq> []" "hd (versionText v) \<noteq> space" "last (versionText v) \<noteq> space"
    by (auto simp: versionText_def)
qed

lemma ParseVersion_print: "ParseVersion (versionText v) = Inr v"
proof -
  have dot: "CHR ''.'' \<notin> set (to_string n)" for n by (rule to_string_without) (rule not_digit_chars)
  have t: "trimBack (trimFront (versionText v)) = versionText v" using versionText_ends by (simp add: trim_id)
  have "cutAt (CHR ''.'') (versionText v) =
      (to_string (unat (ver_major v)), Some (to_string (unat (ver_minor v)) @ ''.'' @ to_string (unat (ver_patch v))))"
    using cutAt_found [OF dot] by (simp add: versionText_def)
  moreover have "cutAt (CHR ''.'') (to_string (unat (ver_minor v)) @ ''.'' @ to_string (unat (ver_patch v))) =
      (to_string (unat (ver_minor v)), Some (to_string (unat (ver_patch v))))"
    using cutAt_found [OF dot] by simp
  ultimately show ?thesis
    using from_chars_u16_print [of "[]"] versionText_ends(1) by (simp add: ParseVersion_def t)
qed

lemma versionText_first:
  obtains c cs where "versionText v = c # cs" "isDigit c"
proof -
  obtain c cs where "to_string (unat (ver_major v)) = c # cs" "isDigit c" by (rule to_string_first)
  then show ?thesis by (intro that) (auto simp: versionText_def)
qed

lemma detectOp_print: "detectOp (opText oper @ versionText v) = (oper, versionText v)"
proof -
  obtain c cs where c: "versionText v = c # cs" "isDigit c" by (rule versionText_first)
  then have "c \<noteq> CHR ''=''" by (auto simp: isDigit_def)
  then show ?thesis by (cases oper) (simp_all add: detectOp_def c(1))
qed

lemma opText_first: obtains c cs where "opText oper = c # cs" "isOpChar c"
  by (cases oper) (auto simp: isOpChar_def)

lemma trimFront_space: "trimFront (space # s) = trimFront s"
  by (simp add: trimFront_def)

lemma vc_Parse_print: "vc_Parse (vc_ToString c) = Inr c" "vc_Parse (space # vc_ToString c) = Inr c"
proof -
  obtain ch cs where ch: "opText (vc_op c) = ch # cs" "isOpChar ch" by (rule opText_first)
  then have "hd (vc_ToString c) \<noteq> space" "vc_ToString c \<noteq> []" by (auto simp: vc_ToString_def isOpChar_def)
  then have t: "trimFront (vc_ToString c) = vc_ToString c" by (simp add: trim_id)
  then show "vc_Parse (vc_ToString c) = Inr c"
    using \<open>vc_ToString c \<noteq> []\<close>
    by (simp add: vc_Parse_def detectOp_print [of "vc_op c" "vc_version c", folded vc_ToString_def] ParseVersion_print)
  then show "vc_Parse (space # vc_ToString c) = Inr c" by (simp add: vc_Parse_def trimFront_space)
qed

lemma vc_ToString_chars: "ch \<in> set (vc_ToString c) \<Longrightarrow> isOpChar ch \<or> isDigit ch \<or> ch = CHR ''.''"
  using to_string_digits by (cases "vc_op c") (auto simp: vc_ToString_def versionText_def isOpChar_def)

lemma no_comma: "CHR '','' \<notin> set (vc_ToString c)" "CHR '','' \<notin> set (space # vc_ToString c)"
  using vc_ToString_chars [of "CHR '',''" c] not_digit_chars(3) by (auto simp: isOpChar_def)

lemma joinConstraints_Cons:
  "cs \<noteq> [] \<Longrightarrow> joinConstraints (c # cs) = vc_ToString c @ CHR '','' # space # joinConstraints cs"
  by (cases cs) simp_all

lemma parseConstraints_print:
  "cs \<noteq> [] \<Longrightarrow> parseConstraints (joinConstraints cs) = Inr cs \<and> parseConstraints (space # joinConstraints cs) = Inr cs"
proof (induction cs)
  case (Cons c cs)
  have ne: "vc_ToString c \<noteq> []" by (cases "vc_op c") (simp_all add: vc_ToString_def)
  show ?case
  proof (cases "cs = []")
    case True
    with ne show ?thesis
      using cutAt_none [OF no_comma(1), of c] cutAt_none [OF no_comma(2), of c] vc_Parse_print [of c]
      by (simp add: parseConstraints.simps)
  next
    case False
    with Cons.IH ne show ?thesis
      using cutAt_found [OF no_comma(1), of c "space # joinConstraints cs"] cutAt_found [OF no_comma(2), of c "space # joinConstraints cs"]
        vc_Parse_print [of c]
      by (simp add: joinConstraints_Cons parseConstraints.simps [of "vc_ToString c @ CHR '','' # space # joinConstraints cs"]
          parseConstraints.simps [of "space # vc_ToString c @ CHR '','' # space # joinConstraints cs"])
  qed
qed simp

definition plainName :: "string \<Rightarrow> bool" where
  "plainName n \<longleftrightarrow> n \<noteq> [] \<and> hd n \<noteq> space \<and> last n \<noteq> space \<and> \<not> list_ex isOpChar n"

definition dependencyText :: "DependencySpec \<Rightarrow> string" where
  "dependencyText spec = ds_name spec @ joinConstraints (ds_constraints spec)"

lemma joinConstraints_ends:
  "cs \<noteq> [] \<Longrightarrow> joinConstraints cs \<noteq> [] \<and> isOpChar (hd (joinConstraints cs)) \<and> last (joinConstraints cs) \<noteq> space"
proof (induction cs)
  case (Cons c cs)
  obtain ch os where ch: "opText (vc_op c) = ch # os" "isOpChar ch" by (rule opText_first)
  show ?case
  proof (cases "cs = []")
    case True
    with ch versionText_ends [of "vc_version c"] show ?thesis by (simp add: vc_ToString_def)
  next
    case False
    with Cons.IH ch show ?thesis by (simp add: joinConstraints_Cons vc_ToString_def)
  qed
qed simp

lemma name_split:
  assumes "plainName n" "rest = [] \<or> isOpChar (hd rest)"
  shows "takeWhile (\<lambda>c. \<not> isOpChar c) (n @ rest) = n" "dropWhile (\<lambda>c. \<not> isOpChar c) (n @ rest) = rest"
  using assms by (cases rest; auto simp: plainName_def list_ex_iff takeWhile_append2 dropWhile_append2 takeWhile_eq_all_conv)+

section \<open>Properties\<close>

text \<open>A version constraint reads back from its printed form, whatever the operator and the version.\<close>

theorem constraint_roundtrip: "vc_Parse (vc_ToString c) = Inr c"
  by (rule vc_Parse_print)

text \<open>A dependency reads back from its text, the plugin name followed by the constraints separated
  by commas, for every name without operator characters and without spaces at its ends.\<close>

theorem dependency_roundtrip:
  assumes "plainName (ds_name spec)"
  shows "ds_Parse (dependencyText spec) = Inr spec"
proof -
  let ?n = "ds_name spec" and ?cs = "ds_constraints spec"
  note n = assms [unfolded plainName_def]
  show ?thesis
  proof (cases "?cs = []")
    case True
    then have "dependencyText spec = ?n" by (simp add: dependencyText_def)
    moreover have "trimBack (trimFront ?n) = ?n" using n by (simp add: trim_id)
    ultimately show ?thesis using n True by (simp add: ds_Parse_def)
  next
    case False
    note j = joinConstraints_ends [OF False]
    have t: "trimBack (trimFront (dependencyText spec)) = dependencyText spec"
      using n j by (simp add: dependencyText_def trim_id)
    have ex: "list_ex isOpChar (dependencyText spec)"
      using j by (cases "joinConstraints ?cs") (simp_all add: dependencyText_def)
    have "trimBack ?n = ?n" using n by (simp add: trim_id)
    then show ?thesis
      using n t ex name_split [OF assms, of "joinConstraints ?cs"] j parseConstraints_print [OF False]
      by (simp add: ds_Parse_def dependencyText_def)
  qed
qed

abbreviation demoDependency :: DependencySpec where
  "demoDependency \<equiv> \<lparr>ds_name = ''Net'', ds_constraints =
     [\<lparr>vc_op = GreaterEqual, vc_version = Version 1 0 0\<rparr>, \<lparr>vc_op = LessThan, vc_version = Version 2 0 0\<rparr>]\<rparr>"

theorem dependency_roundtrip_witness:
  "plainName (ds_name demoDependency) \<and> ds_Parse (dependencyText demoDependency) = Inr demoDependency"
proof -
  have "plainName (ds_name demoDependency)" by code_simp
  with dependency_roundtrip [OF this] show ?thesis by simp
qed

text \<open>A text that goes on after the digits is accepted, and so is a list that ends in a comma.\<close>

theorem malformed_versions_accepted:
  "ParseVersion ''1x.2.3beta'' = Inr (Version 1 2 3) \<and> ParseVersion ''1.2.3.4'' = Inr (Version 1 2 3) \<and>
   parseConstraints ''>=1,'' = Inr [\<lparr>vc_op = GreaterEqual, vc_version = Version 1 0 0\<rparr>]"
proof (intro conjI)
  show "ParseVersion ''1x.2.3beta'' = Inr (Version 1 2 3)" by code_simp
  show "ParseVersion ''1.2.3.4'' = Inr (Version 1 2 3)" by code_simp
  show "parseConstraints ''>=1,'' = Inr [\<lparr>vc_op = GreaterEqual, vc_version = Version 1 0 0\<rparr>]" by code_simp
qed

end
