(* ===== verification/Plugin_Dependencies.thy ===== *)
theory Plugin_Dependencies
  imports Version_Constraint
begin

text \<open>
  Validation of the dependencies between plugins (\<^verbatim>\<open>plugins/plugin_manager.cpp\<close>,
  \<^verbatim>\<open>ValidateDependencies\<close>, \<^verbatim>\<open>validateVersionConstraints\<close>, \<^verbatim>\<open>detectCycle\<close>,
  \<^verbatim>\<open>resolveDependencies\<close>). The plugins are given by the infos of the loaded ones, in the order
  in which the hash map is walked. Depth-first search, path reconstruction and topological sort take
  as fuel one more than the number of plugins; the theorem shows that this is always enough, that
  the report is a success exactly when every dependency is loaded in an admitted version and
  there is no cycle, that the load order then has every plugin after its dependencies, and that a
  reported cycle is one.
\<close>

section \<open>Data\<close>

record PluginInfo =
  pi_name :: string
  pi_description :: string
  pi_version :: Version
  pi_dependencies :: "string list"
  pi_apiVersion :: u32

datatype IssueKind = Missing | VersionMismatch | CircularDep

record DependencyIssue =
  di_kind :: IssueKind
  di_plugin :: string
  di_dependency :: string
  di_detail :: string

record DependencyReport =
  dr_success :: bool
  dr_issues :: "DependencyIssue list"
  dr_loadOrder :: "string list"
  dr_cyclePath :: "string list"

type_synonym plugin_infos = "(string, PluginInfo) umap"
type_synonym dep_graph = "(string, string list) umap"

section \<open>Version constraints\<close>

definition singleQuoted :: "string \<Rightarrow> string" where
  "singleQuoted s = [CHR 0x27] @ s @ [CHR 0x27]"

definition checkDependency :: "plugin_infos \<Rightarrow> string \<Rightarrow> string \<Rightarrow> DependencyIssue list" where
  "checkDependency infos name dep =
     (case ds_Parse dep of
        Inl _ \<Rightarrow> []
      | Inr spec \<Rightarrow>
          (case map_of infos (ds_name spec) of
             None \<Rightarrow>
               [\<lparr>di_kind = Missing, di_plugin = name, di_dependency = ds_name spec,
                 di_detail = ''Plugin '' @ singleQuoted name @ '' requires '' @ singleQuoted (ds_name spec) @ '' ('' @
                   ds_ConstraintsToString spec @ '') but it is not loaded''\<rparr>]
           | Some info \<Rightarrow>
               if ds_constraints spec \<noteq> [] \<and> \<not> ds_IsSatisfiedBy spec (pi_version info)
               then [\<lparr>di_kind = VersionMismatch, di_plugin = name, di_dependency = ds_name spec,
                 di_detail = ''Plugin '' @ singleQuoted name @ '' requires '' @ singleQuoted (ds_name spec) @ '' '' @
                   ds_ConstraintsToString spec @ '' but loaded version is '' @ versionText (pi_version info)\<rparr>]
               else []))"

definition validateVersionConstraints :: "plugin_infos \<Rightarrow> DependencyReport \<Rightarrow> DependencyReport" where
  "validateVersionConstraints infos report =
     fold (\<lambda>(name, info). fold (\<lambda>dep report.
         let issues = checkDependency infos name dep
         in report\<lparr>dr_success := dr_success report \<and> issues = [], dr_issues := dr_issues report @ issues\<rparr>)
       (pi_dependencies info)) infos report"

section \<open>The graph\<close>

definition depNameOf :: "string \<Rightarrow> string" where
  "depNameOf dep = (case ds_Parse dep of Inr spec \<Rightarrow> ds_name spec | Inl _ \<Rightarrow> takeWhile (\<lambda>c. \<not> isOpChar c) dep)"

definition loaded :: "plugin_infos \<Rightarrow> string \<Rightarrow> bool" where
  "loaded infos n \<longleftrightarrow> map_of infos n \<noteq> None"

definition successors :: "dep_graph \<Rightarrow> string \<Rightarrow> string list" where
  "successors graph n = (case map_of graph n of Some ns \<Rightarrow> ns | None \<Rightarrow> [])"

definition degree :: "(string, nat) umap \<Rightarrow> string \<Rightarrow> nat" where
  "degree inDegree n = (case map_of inDegree n of Some k \<Rightarrow> k | None \<Rightarrow> 0)"

definition addDependency :: "plugin_infos \<Rightarrow> string \<Rightarrow> string \<Rightarrow> dep_graph \<times> (string, nat) umap \<Rightarrow> dep_graph \<times> (string, nat) umap" where
  "addDependency infos name dep = (\<lambda>(graph, inDegree).
     let depName = depNameOf dep;
         (graph, inDegree) =
           (if loaded infos depName
            then (AList.update depName (successors graph depName @ [name]) graph,
                  AList.update name (degree inDegree name + 1) inDegree)
            else (graph, inDegree))
     in (graph, if map_of inDegree depName = None then AList.update depName 0 inDegree else inDegree))"

definition addPlugin :: "plugin_infos \<Rightarrow> string \<times> PluginInfo \<Rightarrow> dep_graph \<times> (string, nat) umap \<Rightarrow> dep_graph \<times> (string, nat) umap" where
  "addPlugin infos = (\<lambda>(name, info) (graph, inDegree).
     fold (addDependency infos name) (pi_dependencies info)
       (graph, if map_of inDegree name = None then AList.update name 0 inDegree else inDegree))"

definition buildGraph :: "plugin_infos \<Rightarrow> dep_graph \<times> (string, nat) umap" where
  "buildGraph infos = fold (addPlugin infos) infos ([], [])"

section \<open>Cycles\<close>

datatype Color = White | Gray | Black

record DfsState =
  df_color :: "(string, Color) umap"
  df_parent :: "(string, string) umap"
  df_cycle :: "(string \<times> string) option"

text \<open>The loop over the neighbours of \<open>node\<close>; \<open>rec\<close> is the recursive call. \<open>None\<close>: out of fuel.\<close>

fun scanNeighbors :: "(string \<Rightarrow> DfsState \<Rightarrow> (bool \<times> DfsState) option) \<Rightarrow> string \<Rightarrow> string list \<Rightarrow> DfsState \<Rightarrow> (bool \<times> DfsState) option" where
  "scanNeighbors rec node [] st = Some (False, st)"
| "scanNeighbors rec node (neighbor # rest) st =
     (case map_of (df_color st) neighbor of
        Some Gray \<Rightarrow> Some (True, st\<lparr>df_cycle := Some (neighbor, node)\<rparr>)
      | Some White \<Rightarrow>
          (case rec neighbor (st\<lparr>df_parent := AList.update neighbor node (df_parent st)\<rparr>) of
             None \<Rightarrow> None
           | Some (True, st') \<Rightarrow> Some (True, st')
           | Some (False, st') \<Rightarrow> scanNeighbors rec node rest st')
      | _ \<Rightarrow> scanNeighbors rec node rest st)"

definition paint :: "string \<Rightarrow> Color \<Rightarrow> DfsState \<Rightarrow> DfsState" where
  "paint node c st = st\<lparr>df_color := AList.update node c (df_color st)\<rparr>"

primrec dfs :: "nat \<Rightarrow> dep_graph \<Rightarrow> string \<Rightarrow> DfsState \<Rightarrow> (bool \<times> DfsState) option" where
  "dfs 0 graph = (\<lambda>node st. None)"
| "dfs (Suc fuel) graph = (\<lambda>node st.
     case scanNeighbors (dfs fuel graph) node (successors graph node) (paint node Gray st) of
       None \<Rightarrow> None
     | Some (True, st') \<Rightarrow> Some (True, st')
     | Some (False, st') \<Rightarrow> Some (False, paint node Black st'))"

fun searchAll :: "nat \<Rightarrow> dep_graph \<Rightarrow> string list \<Rightarrow> DfsState \<Rightarrow> DfsState option" where
  "searchAll fuel graph [] st = Some st"
| "searchAll fuel graph (name # names) st =
     (if map_of (df_color st) name = Some White
      then case dfs fuel graph name st of
        None \<Rightarrow> None
      | Some (True, st') \<Rightarrow> Some st'
      | Some (False, st') \<Rightarrow> searchAll fuel graph names st'
      else searchAll fuel graph names st)"

fun tracePath :: "nat \<Rightarrow> (string, string) umap \<Rightarrow> string \<Rightarrow> string \<Rightarrow> string list option" where
  "tracePath 0 parent start current = None"
| "tracePath (Suc fuel) parent start current =
     (if current = start then Some []
      else case map_of parent current of
        None \<Rightarrow> Some [current]
      | Some p \<Rightarrow> map_option (\<lambda>path. current # path) (tracePath fuel parent start p))"

definition detectCycle :: "plugin_infos \<Rightarrow> dep_graph \<Rightarrow> string list option" where
  "detectCycle infos graph =
     (let fuel = Suc (length infos);
          st0 = \<lparr>df_color = map (\<lambda>(name, info). (name, White)) infos, df_parent = [], df_cycle = None\<rparr>
      in case searchAll fuel graph (map fst infos) st0 of
           None \<Rightarrow> None
         | Some st \<Rightarrow>
             (case df_cycle st of
                None \<Rightarrow> Some []
              | Some (cycleStart, cycleEnd) \<Rightarrow>
                  map_option (\<lambda>path. rev (path @ [cycleStart]) @ [cycleStart])
                    (tracePath fuel (df_parent st) cycleStart cycleEnd)))"

section \<open>Topological sort\<close>

definition decrement :: "nat \<Rightarrow> nat" where
  "decrement k = (if k = 0 then 2 ^ 64 - 1 else k - 1)"

definition relax :: "string \<Rightarrow> string list \<times> (string, nat) umap \<Rightarrow> string list \<times> (string, nat) umap" where
  "relax dependent = (\<lambda>(readyQueue, inDegree).
     let k = decrement (degree inDegree dependent)
     in (if k = 0 then readyQueue @ [dependent] else readyQueue, AList.update dependent k inDegree))"

fun kahn :: "nat \<Rightarrow> plugin_infos \<Rightarrow> dep_graph \<Rightarrow> string list \<Rightarrow> (string, nat) umap \<Rightarrow> string list \<Rightarrow> string list option" where
  "kahn 0 infos graph readyQueue inDegree ordered = None"
| "kahn (Suc fuel) infos graph [] inDegree ordered = Some ordered"
| "kahn (Suc fuel) infos graph (current # readyQueue) inDegree ordered =
     (let ordered = (if loaded infos current then ordered @ [current] else ordered);
          (readyQueue, inDegree) = fold relax (successors graph current) (readyQueue, inDegree)
      in kahn fuel infos graph readyQueue inDegree ordered)"

fun joinArrow :: "string list \<Rightarrow> string" where
  "joinArrow [] = []"
| "joinArrow [x] = x"
| "joinArrow (x # xs) = x @ '' -> '' @ joinArrow xs"

definition ValidateDependencies :: "plugin_infos \<Rightarrow> DependencyReport option" where
  "ValidateDependencies infos =
     (let report = validateVersionConstraints infos \<lparr>dr_success = True, dr_issues = [], dr_loadOrder = [], dr_cyclePath = []\<rparr>;
          (graph, inDegree) = buildGraph infos
      in case detectCycle infos graph of
           None \<Rightarrow> None
         | Some cycle \<Rightarrow>
             if cycle \<noteq> []
             then Some (report\<lparr>dr_success := False, dr_cyclePath := cycle,
                    dr_issues := dr_issues report @ [\<lparr>di_kind = CircularDep, di_plugin = [], di_dependency = [],
                      di_detail = ''Circular dependency detected: '' @ joinArrow cycle\<rparr>]\<rparr>)
             else map_option (\<lambda>order. report\<lparr>dr_loadOrder := order\<rparr>)
                    (kahn (Suc (length infos)) infos graph
                       (map fst (filter (\<lambda>(name, k). k = 0 \<and> loaded infos name) inDegree)) inDegree []))"

fun joinDetails :: "string list \<Rightarrow> string" where
  "joinDetails [] = []"
| "joinDetails (d # ds) = (if ds = [] then d else d @ ''; '' @ joinDetails ds)"

definition resolveDependencies :: "plugin_infos \<Rightarrow> string list GameResult option" where
  "resolveDependencies infos =
     map_option (\<lambda>report.
        if \<not> dr_success report
        then err DependencyError (joinDetails (map di_detail (dr_issues report)) @
               (if dr_cyclePath report \<noteq> [] then '' [cycle: '' @ joinArrow (dr_cyclePath report) @ '']'' else []))
        else Inr (dr_loadOrder report)) (ValidateDependencies infos)"

section \<open>What the graph holds\<close>

text \<open>The edges from dependency to dependent, one for every declared dependency on a loaded plugin.\<close>

definition pluginEdges :: "plugin_infos \<Rightarrow> string \<times> PluginInfo \<Rightarrow> (string \<times> string) list" where
  "pluginEdges infos = (\<lambda>(name, info).
     map (\<lambda>dep. (depNameOf dep, name)) (filter (\<lambda>dep. loaded infos (depNameOf dep)) (pi_dependencies info)))"

definition edgeList :: "plugin_infos \<Rightarrow> (string \<times> string) list" where
  "edgeList infos = concat (map (pluginEdges infos) infos)"

text \<open>\<open>graph_rep es names (graph, inDegree)\<close>: the two maps represent the edges \<open>es\<close>, and every name of
  \<open>names\<close> has a degree.\<close>

definition graph_rep :: "(string \<times> string) list \<Rightarrow> string set \<Rightarrow> dep_graph \<times> (string, nat) umap \<Rightarrow> bool" where
  "graph_rep es names = (\<lambda>(graph, inDegree).
     (\<forall>d. successors graph d = map snd (filter (\<lambda>(a, b). a = d) es)) \<and>
     (\<forall>n. degree inDegree n = length (filter (\<lambda>(a, b). b = n) es)) \<and>
     umap_wf inDegree \<and> names \<subseteq> fst ` set inDegree)"

lemma successors_update [simp]: "successors (AList.update d ns graph) d' = (if d' = d then ns else successors graph d')"
  by (simp add: successors_def update_conv')

lemma degree_update [simp]: "degree (AList.update n k inDegree) n' = (if n' = n then k else degree inDegree n')"
  by (simp add: degree_def update_conv')

lemma fst_update_set: "fst ` set (AList.update k v m) = insert k (fst ` set m)"
  by (metis dom_map_of_conv_image_fst dom_update insert_iff subsetI subset_antisym update_conv' dom_fun_upd option.distinct(1))

lemma degree_absent: "map_of inDegree n = None \<Longrightarrow> degree inDegree n = 0"
  by (simp add: degree_def)

lemma rep_ensure:
  assumes "graph_rep es names (graph, inDegree)"
  shows "graph_rep es (insert n names) (graph, if map_of inDegree n = None then AList.update n 0 inDegree else inDegree)"
proof (cases "map_of inDegree n")
  case None
  then have "degree inDegree n = 0" by (rule degree_absent)
  with None assms show ?thesis by (auto simp: graph_rep_def fst_update_set)
next
  case (Some k)
  then have "n \<in> fst ` set inDegree" by (metis domI dom_map_of_conv_image_fst)
  with Some assms show ?thesis by (simp add: graph_rep_def)
qed

lemma rep_edge:
  "graph_rep es names (graph, inDegree) \<Longrightarrow>
     graph_rep (es @ [(d, n)]) names
       (AList.update d (successors graph d @ [n]) graph, AList.update n (degree inDegree n + 1) inDegree)"
  by (auto simp: graph_rep_def fst_update_set)

lemma rep_mono: "graph_rep es names gi \<Longrightarrow> names' \<subseteq> names \<Longrightarrow> graph_rep es names' gi"
  by (auto simp: graph_rep_def)

lemma addDependency_rep:
  assumes "graph_rep es names (graph, inDegree)"
  shows "graph_rep (es @ (if loaded infos (depNameOf dep) then [(depNameOf dep, name)] else [])) names
           (addDependency infos name dep (graph, inDegree))"
  using rep_mono [OF rep_ensure [OF rep_edge [OF assms, of "depNameOf dep" name], of "depNameOf dep"] subset_insertI]
    rep_mono [OF rep_ensure [OF assms, of "depNameOf dep"] subset_insertI]
  by (cases "loaded infos (depNameOf dep)") (auto simp: addDependency_def Let_def)

lemma addDependencies_rep:
  assumes "graph_rep es names gi"
  shows "graph_rep (es @ map (\<lambda>dep. (depNameOf dep, name)) (filter (\<lambda>dep. loaded infos (depNameOf dep)) deps)) names
           (fold (addDependency infos name) deps gi)"
  using assms
proof (induction deps arbitrary: es gi)
  case (Cons dep deps)
  obtain graph inDegree where gi: "gi = (graph, inDegree)" by (cases gi)
  from Cons.IH [OF addDependency_rep [OF Cons.prems [unfolded gi], of infos dep name]] show ?case
    by (cases "loaded infos (depNameOf dep)") (simp_all add: gi)
qed simp

lemma addPlugin_rep:
  assumes "graph_rep es names gi"
  shows "graph_rep (es @ pluginEdges infos p) (insert (fst p) names) (addPlugin infos p gi)"
proof -
  obtain name info where p: "p = (name, info)" by (cases p)
  obtain graph inDegree where gi: "gi = (graph, inDegree)" by (cases gi)
  have "graph_rep es (insert name names) (graph, if map_of inDegree name = None then AList.update name 0 inDegree else inDegree)"
    using assms unfolding gi by (rule rep_ensure)
  from addDependencies_rep [OF this, of name infos "pi_dependencies info"] show ?thesis
    by (simp add: addPlugin_def pluginEdges_def p gi)
qed

lemma buildGraph_rep: "graph_rep (edgeList infos) (fst ` set infos) (buildGraph infos)"
proof -
  have "graph_rep (es @ concat (map (pluginEdges infos) ps)) (fst ` set ps \<union> names) (fold (addPlugin infos) ps gi)"
    if "graph_rep es names gi" for ps es names gi
    using that
  proof (induction ps arbitrary: es names gi)
    case (Cons p ps)
    from Cons.IH [OF addPlugin_rep [OF Cons.prems, of infos p]] show ?case by simp
  qed simp
  from this [of "[]" "{}" "([], [])" infos] show ?thesis
    by (simp add: graph_rep_def buildGraph_def edgeList_def successors_def degree_def)
qed

lemma loaded_iff: "loaded infos n \<longleftrightarrow> n \<in> fst ` set infos"
  by (simp add: loaded_def map_of_eq_None_iff)

lemma edgeList_loaded:
  assumes "(d, n) \<in> set (edgeList infos)"
  shows "loaded infos d" "loaded infos n"
proof -
  from assms obtain info where "(n, info) \<in> set infos" "(d, n) \<in> set (pluginEdges infos (n, info))"
    by (auto simp: edgeList_def pluginEdges_def)
  then show "loaded infos d" "loaded infos n" by (force simp: pluginEdges_def loaded_iff)+
qed

section \<open>The topological sort\<close>

lemma relax_fold:
  assumes "\<And>n. count_list L n \<le> degree inDegree n"
  shows "\<exists>pushed inDegree'. fold relax L (Q, inDegree) = (Q @ pushed, inDegree') \<and>
    (\<forall>n. degree inDegree' n = degree inDegree n - count_list L n) \<and> distinct pushed \<and>
    set pushed = {n \<in> set L. degree inDegree n = count_list L n}"
  using assms
proof (induction L arbitrary: Q inDegree)
  case Nil
  then show ?case by auto
next
  case (Cons x L)
  define k where "k = degree inDegree x - 1"
  have pos: "0 < degree inDegree x" using Cons.prems [of x] by simp
  let ?i = "AList.update x k inDegree"
  have "count_list L n \<le> degree ?i n" for n using Cons.prems [of n] by (auto simp: k_def split: if_splits)
  from Cons.IH [OF this, of "if k = 0 then Q @ [x] else Q"] obtain pushed i' where
    f: "fold relax L (if k = 0 then Q @ [x] else Q, ?i) = ((if k = 0 then Q @ [x] else Q) @ pushed, i')"
    and d: "\<forall>n. degree i' n = degree ?i n - count_list L n" and dist: "distinct pushed"
    and s: "set pushed = {n \<in> set L. degree ?i n = count_list L n}" by blast
  have r: "relax x (Q, inDegree) = (if k = 0 then Q @ [x] else Q, ?i)"
    using pos by (simp add: relax_def decrement_def k_def)
  have di: "degree ?i n = (if n = x then degree inDegree x - 1 else degree inDegree n)" for n by (simp add: k_def)
  have cl: "count_list (x # L) n = (if n = x then Suc (count_list L x) else count_list L n)" for n by auto
  have d': "\<forall>n. degree i' n = degree inDegree n - count_list (x # L) n"
  proof
    fix n
    show "degree i' n = degree inDegree n - count_list (x # L) n"
      using d [rule_format, of n] di [of n] unfolding cl by (cases "n = x") simp_all
  qed
  show ?case
  proof (cases "k = 0")
    case True
    then have "count_list L x = 0" using Cons.prems [of x] by (simp add: k_def)
    then have x: "x \<notin> set L" by (simp add: count_list_0_iff)
    with True s have "distinct (x # pushed)" using dist by simp
    moreover have mem: "n \<in> set (x # pushed) \<longleftrightarrow> n \<in> set (x # L) \<and> degree inDegree n = count_list (x # L) n" for n
    proof (cases "n = x")
      case n: True
      with True pos x show ?thesis unfolding cl by (simp add: k_def count_list_0_iff)
    next
      case n: False
      with s di [of n] show ?thesis unfolding cl by simp
    qed
    then have "set (x # pushed) = {n \<in> set (x # L). degree inDegree n = count_list (x # L) n}" by blast
    moreover have "fold relax (x # L) (Q, inDegree) = (Q @ x # pushed, i')" using f r True by simp
    ultimately show ?thesis using d' by blast
  next
    case False
    have "n \<in> set pushed \<longleftrightarrow> n \<in> set (x # L) \<and> degree inDegree n = count_list (x # L) n" for n
    proof (cases "n = x")
      case n: True
      have "degree ?i x = k" by simp
      moreover have "degree inDegree x = Suc k" using pos by (simp add: k_def)
      ultimately show ?thesis using n s False unfolding cl by (cases "x \<in> set L") (auto simp: count_list_0_iff)
    next
      case n: False
      with s di [of n] show ?thesis unfolding cl by simp
    qed
    then have "set pushed = {n \<in> set (x # L). degree inDegree n = count_list (x # L) n}" by blast
    moreover have "fold relax (x # L) (Q, inDegree) = (Q @ pushed, i')" using f r False by simp
    ultimately show ?thesis using dist d' by blast
  qed
qed

definition dependenciesFirst :: "(string \<times> string) list \<Rightarrow> string list \<Rightarrow> bool" where
  "dependenciesFirst es order \<longleftrightarrow>
     (\<forall>pre x post. order = pre @ x # post \<longrightarrow> (\<forall>a. (a, x) \<in> set es \<longrightarrow> a \<in> set pre))"

lemma dependenciesFirst_snoc:
  assumes "dependenciesFirst es order" "\<And>a. (a, x) \<in> set es \<Longrightarrow> a \<in> set order"
  shows "dependenciesFirst es (order @ [x])"
  unfolding dependenciesFirst_def
proof (intro allI impI)
  fix pre y post a
  assume eq: "order @ [x] = pre @ y # post" and a: "(a, y) \<in> set es"
  show "a \<in> set pre"
  proof (cases post rule: rev_cases)
    case Nil
    with eq a assms(2) show ?thesis by simp
  next
    case (snoc post' z)
    with eq have "order = pre @ y # post'" by simp
    with assms(1) a show ?thesis unfolding dependenciesFirst_def by blast
  qed
qed

definition openDeps :: "(string \<times> string) list \<Rightarrow> string list \<Rightarrow> string \<Rightarrow> nat" where
  "openDeps es order n = length (filter (\<lambda>(a, b). b = n \<and> a \<notin> set order) es)"

definition depKahn_inv :: "(string \<times> string) list \<Rightarrow> string set \<Rightarrow> (string, nat) umap \<Rightarrow> string list \<Rightarrow> string list \<Rightarrow> bool" where
  "depKahn_inv es names inDegree Q order \<longleftrightarrow> distinct (order @ Q) \<and> set (order @ Q) \<subseteq> names \<and>
     (\<forall>n. degree inDegree n = openDeps es order n) \<and>
     (\<forall>n \<in> names. n \<in> set (order @ Q) \<longleftrightarrow> degree inDegree n = 0) \<and> dependenciesFirst es order"

lemma openDeps_zero: "openDeps es order n = 0 \<longleftrightarrow> (\<forall>a. (a, n) \<in> set es \<longrightarrow> a \<in> set order)"
  by (auto simp: openDeps_def filter_empty_conv)

lemma count_successors: "count_list (map snd (filter (\<lambda>(a, b). a = cur) es)) n = length (filter (\<lambda>(a, b). b = n \<and> a = cur) es)"
  by (induction es) auto

lemma openDeps_snoc:
  assumes "cur \<notin> set order"
  shows "openDeps es order n = openDeps es (order @ [cur]) n + count_list (map snd (filter (\<lambda>(a, b). a = cur) es)) n"
  unfolding count_successors openDeps_def using assms by (induction es) auto

lemma depKahn_inv_pop:
  assumes ki: "depKahn_inv es names inDegree (cur # Q) order" and g: "\<And>d. successors graph d = map snd (filter (\<lambda>(a, b). a = d) es)"
    and nm: "snd ` set es \<subseteq> names"
  obtains Q' inDegree' where "fold relax (successors graph cur) (Q, inDegree) = (Q', inDegree')"
    "depKahn_inv es names inDegree' Q' (order @ [cur])"
proof -
  let ?L = "successors graph cur"
  have fresh: "cur \<notin> set order" and dq: "distinct (order @ cur # Q)" and sub: "set (order @ cur # Q) \<subseteq> names"
    using ki by (auto simp: depKahn_inv_def)
  have deg: "degree inDegree n = openDeps es order n" for n using ki by (simp add: depKahn_inv_def)
  have split: "degree inDegree n = openDeps es (order @ [cur]) n + count_list ?L n" for n
    unfolding deg g by (rule openDeps_snoc [OF fresh])
  have "count_list ?L n \<le> degree inDegree n" for n by (simp add: split)
  from relax_fold [OF this, of Q] obtain pushed i' where
    f: "fold relax ?L (Q, inDegree) = (Q @ pushed, i')" and d': "\<forall>n. degree i' n = degree inDegree n - count_list ?L n"
    and dp: "distinct pushed" and sp: "set pushed = {n \<in> set ?L. degree inDegree n = count_list ?L n}" by blast
  have deg': "degree i' n = openDeps es (order @ [cur]) n" for n using d' split [of n] by simp
  have zero: "n \<in> set (order @ cur # Q) \<longleftrightarrow> degree inDegree n = 0" if "n \<in> names" for n
    using ki that by (simp add: depKahn_inv_def)
  have Lnames: "set ?L \<subseteq> names" using nm by (auto simp: g)
  have pos: "0 < degree inDegree n" if "n \<in> set pushed" for n
    using that sp count_list_0_iff [of ?L n] by auto
  have "set pushed \<inter> set (order @ cur # Q) = {}"
    using pos zero sp Lnames by (metis (mono_tags, lifting) disjoint_iff less_irrefl mem_Collect_eq subset_iff)
  then have "distinct ((order @ [cur]) @ Q @ pushed)" using dq dp by auto
  moreover have "set ((order @ [cur]) @ Q @ pushed) \<subseteq> names" using sub sp Lnames by auto
  moreover have "n \<in> set ((order @ [cur]) @ Q @ pushed) \<longleftrightarrow> degree i' n = 0" if "n \<in> names" for n
  proof -
    have "degree i' n = 0 \<longleftrightarrow> degree inDegree n = 0 \<or> n \<in> set pushed"
      using split [of n] deg' [of n] sp count_list_0_iff [of ?L n] by auto
    with zero [OF that] show ?thesis by auto
  qed
  moreover have "dependenciesFirst es (order @ [cur])"
  proof (rule dependenciesFirst_snoc)
    show "dependenciesFirst es order" using ki by (simp add: depKahn_inv_def)
    have "openDeps es order cur = 0" using zero [of cur] sub deg [of cur] by auto
    then show "(a, cur) \<in> set es \<Longrightarrow> a \<in> set order" for a by (simp add: openDeps_zero)
  qed
  ultimately have "depKahn_inv es names i' (Q @ pushed) (order @ [cur])"
    using deg' by (simp add: depKahn_inv_def)
  with f that show ?thesis by blast
qed

lemma kahn_ends:
  assumes "depKahn_inv es names inDegree Q order" "card names < fuel + length order" "finite names"
    and g: "\<And>d. successors graph d = map snd (filter (\<lambda>(a, b). a = d) es)"
    and nm: "snd ` set es \<subseteq> names" and names: "names = fst ` set infos"
  shows "\<exists>result inDegree'. kahn fuel infos graph Q inDegree order = Some result \<and> depKahn_inv es names inDegree' [] result"
  using assms(1,2)
proof (induction fuel arbitrary: Q inDegree order)
  case 0
  have "length order = card (set order)" "set order \<subseteq> names"
    using 0(1) by (auto simp: depKahn_inv_def distinct_card [symmetric])
  with card_mono [OF assms(3), of "set order"] 0(2) show ?case by simp
next
  case (Suc fuel)
  show ?case
  proof (cases Q)
    case Nil
    with Suc.prems show ?thesis by auto
  next
    case (Cons cur Q')
    from depKahn_inv_pop [OF Suc.prems(1) [unfolded Cons] g nm] obtain Q'' i' where
      f: "fold relax (successors graph cur) (Q', inDegree) = (Q'', i')" "depKahn_inv es names i' Q'' (order @ [cur])" by blast
    have "loaded infos cur" using Suc.prems(1) Cons names by (auto simp: depKahn_inv_def loaded_iff)
    then have "kahn (Suc fuel) infos graph Q inDegree order = kahn fuel infos graph Q'' i' (order @ [cur])"
      using f(1) Cons by simp
    with Suc.IH [OF f(2)] Suc.prems(2) show ?thesis by simp
  qed
qed

lemma depKahn_inv_start:
  assumes rep: "graph_rep es names (graph, inDegree)" and names: "names = fst ` set infos"
  shows "depKahn_inv es names inDegree (map fst (filter (\<lambda>(name, k). k = 0 \<and> loaded infos name) inDegree)) []"
proof -
  have wf: "umap_wf inDegree" "names \<subseteq> fst ` set inDegree" and deg: "\<And>n. degree inDegree n = length (filter (\<lambda>(a, b). b = n) es)"
    using rep by (auto simp: graph_rep_def)
  let ?Q = "map fst (filter (\<lambda>(name, k). k = 0 \<and> loaded infos name) inDegree)"
  have "distinct ?Q" using wf(1) by (simp add: umap_wf_def distinct_map_filter)
  moreover have "n \<in> set ?Q \<longleftrightarrow> degree inDegree n = 0" if n: "n \<in> names" for n
  proof -
    obtain k where k: "(n, k) \<in> set inDegree" using n wf(2) by force
    then have "map_of inDegree n = Some k" using umap_mem_iff [OF wf(1)] by simp
    then have "(n, k') \<in> set inDegree \<longleftrightarrow> k' = k" for k' using umap_mem_iff [OF wf(1), of n k'] by auto
    then have "n \<in> set ?Q \<longleftrightarrow> k = 0 \<and> loaded infos n" by auto (force simp: image_iff)
    then show ?thesis using \<open>map_of inDegree n = Some k\<close> n names by (simp add: degree_def loaded_iff)
  qed
  moreover have "set ?Q \<subseteq> names" by (force simp: loaded_iff names)
  moreover have "degree inDegree n = openDeps es [] n" for n by (simp add: deg openDeps_def)
  ultimately show ?thesis unfolding depKahn_inv_def by (simp add: dependenciesFirst_def)
qed

text \<open>When the queue runs empty on an acyclic graph, every plugin has been ordered.\<close>

lemma kahn_complete:
  assumes fin: "depKahn_inv es names inDegree [] order" and ac: "acyclic (set es)"
    and nm: "\<And>a b. (a, b) \<in> set es \<Longrightarrow> a \<in> names"
  shows "set order = names"
proof (rule ccontr)
  assume "set order \<noteq> names"
  then have "names - set order \<noteq> {}" using fin by (auto simp: depKahn_inv_def)
  moreover have "wf (set es)" using ac by (simp add: finite_acyclic_wf)
  ultimately obtain n where n: "n \<in> names - set order" "\<And>a. (a, n) \<in> set es \<Longrightarrow> a \<notin> names - set order"
    by (metis ex_in_conv wfE_min)
  then have "openDeps es order n = 0" using nm by (auto simp: openDeps_zero)
  with fin n(1) show False by (auto simp: depKahn_inv_def)
qed

section \<open>The depth-first search\<close>

definition graphRel :: "dep_graph \<Rightarrow> string rel" where
  "graphRel graph = {(u, v). v \<in> set (successors graph u)}"

definition colored :: "Color \<Rightarrow> DfsState \<Rightarrow> string set" where
  "colored c st = {x. map_of (df_color st) x = Some c}"

text \<open>The black nodes are closed under successors and free of cycles.\<close>

definition dfs_good :: "dep_graph \<Rightarrow> string set \<Rightarrow> DfsState \<Rightarrow> bool" where
  "dfs_good graph N st \<longleftrightarrow> dom (map_of (df_color st)) = N \<and> graphRel graph `` colored Black st \<subseteq> colored Black st \<and>
     acyclic (graphRel graph \<inter> colored Black st \<times> colored Black st) \<and> df_cycle st = None"

definition parentEdge :: "dep_graph \<Rightarrow> DfsState \<Rightarrow> string \<Rightarrow> string \<Rightarrow> bool" where
  "parentEdge graph st x y \<longleftrightarrow> map_of (df_parent st) x = Some y \<and> (y, x) \<in> graphRel graph"

text \<open>The gray nodes are the path from the current node back to the root, along the parents.\<close>

definition onPath :: "dep_graph \<Rightarrow> DfsState \<Rightarrow> string list \<Rightarrow> bool" where
  "onPath graph st gs \<longleftrightarrow> set gs = colored Gray st \<and> distinct gs \<and> successively (parentEdge graph st) gs"

definition dfs_found :: "dep_graph \<Rightarrow> string set \<Rightarrow> DfsState \<Rightarrow> bool" where
  "dfs_found graph N st \<longleftrightarrow> (\<exists>start gs. gs \<noteq> [] \<and> df_cycle st = Some (start, hd gs) \<and> start \<in> set gs \<and> distinct gs \<and>
     set gs \<subseteq> N \<and> successively (parentEdge graph st) gs \<and> (hd gs, start) \<in> graphRel graph)"

definition extends :: "DfsState \<Rightarrow> DfsState \<Rightarrow> bool" where
  "extends st st' \<longleftrightarrow> colored Black st \<subseteq> colored Black st' \<and> colored White st' \<subseteq> colored White st \<and>
     (\<forall>x. x \<notin> colored White st \<longrightarrow> map_of (df_parent st') x = map_of (df_parent st) x)"

lemma finite_colored: "finite (colored c st)"
  by (rule finite_subset [OF _ finite_dom_map_of [of "df_color st"]]) (auto simp: colored_def)

lemma colored_paint [simp]:
  "colored c (paint node c' st) = (if c = c' then insert node (colored c st) else colored c st - {node})"
  by (auto simp: colored_def paint_def update_conv')

lemma paint_other [simp]: "df_parent (paint node c st) = df_parent st" "df_cycle (paint node c st) = df_cycle st"
  "dom (map_of (df_color (paint node c st))) = insert node (dom (map_of (df_color st)))"
  by (simp_all add: paint_def update_conv')

lemma colored_disjoint: "x \<in> colored c st \<Longrightarrow> x \<in> colored c' st \<Longrightarrow> c = c'"
  by (simp add: colored_def)

lemma colored_other [simp]:
  "colored c (st\<lparr>df_parent := p\<rparr>) = colored c st" "colored c (st\<lparr>df_cycle := q\<rparr>) = colored c st"
  by (simp_all add: colored_def)

lemma extends_refl: "extends st st"
  by (simp add: extends_def)

lemma extends_trans: "extends st st' \<Longrightarrow> extends st' st'' \<Longrightarrow> extends st st''"
  unfolding extends_def by (metis (no_types, lifting) subset_iff)

lemma successively_parents:
  assumes "successively (parentEdge graph st) gs" "\<And>x. x \<in> set gs \<Longrightarrow> map_of (df_parent st') x = map_of (df_parent st) x"
  shows "successively (parentEdge graph st') gs"
  by (rule successively_mono [OF assms(1)]) (use assms(2) in \<open>auto simp: parentEdge_def\<close>)

lemma acyclic_new_source:
  assumes "acyclic R" "\<And>x y. (x, y) \<in> R' \<Longrightarrow> y \<noteq> u" "\<And>x y. (x, y) \<in> R' \<Longrightarrow> x \<noteq> u \<Longrightarrow> (x, y) \<in> R"
  shows "acyclic R'"
proof -
  have path: "(x, y) \<in> R\<^sup>+ \<and> y \<noteq> u" if "(x, y) \<in> R'\<^sup>+" "x \<noteq> u" for x y
    using that
  proof (induction rule: trancl_induct)
    case (base y)
    then show ?case using assms(2,3) by blast
  next
    case (step y z)
    then have y: "(x, y) \<in> R\<^sup>+" "y \<noteq> u" by simp_all
    from trancl_into_trancl [OF y(1) assms(3) [OF step.hyps(2) y(2)]] assms(2) [OF step.hyps(2)] show ?case by simp
  qed
  have "x \<noteq> u" if "(x, x) \<in> R'\<^sup>+" for x
    using that assms(2) by (metis tranclE)
  with path assms(1) show ?thesis unfolding acyclic_def by blast
qed

definition dfs_post :: "dep_graph \<Rightarrow> string set \<Rightarrow> string list \<Rightarrow> DfsState \<Rightarrow> string set \<Rightarrow> (bool \<times> DfsState) option \<Rightarrow> bool" where
  "dfs_post graph N gs st visited result \<longleftrightarrow>
     (\<exists>b st'. result = Some (b, st') \<and>
        (if b then dfs_found graph N st'
         else dfs_good graph N st' \<and> onPath graph st' gs \<and> extends st st' \<and> visited \<subseteq> colored Black st'))"

lemma onPathD:
  assumes "onPath graph st gs"
  shows "set gs = colored Gray st" "distinct gs" "successively (parentEdge graph st) gs"
  using assms unfolding onPath_def by blast+

lemma dfs_postI:
  "dfs_found graph N st' \<Longrightarrow> dfs_post graph N gs st visited (Some (True, st'))"
  "dfs_good graph N st' \<Longrightarrow> onPath graph st' gs \<Longrightarrow> extends st st' \<Longrightarrow> visited \<subseteq> colored Black st' \<Longrightarrow>
     dfs_post graph N gs st visited (Some (False, st'))"
  by (auto simp: dfs_post_def intro: exI [of _ True] exI [of _ False])

lemma dfs_postE:
  assumes "dfs_post graph N gs st visited result"
  obtains st' where "result = Some (True, st')" "dfs_found graph N st'"
  | st' where "result = Some (False, st')" "dfs_good graph N st'" "onPath graph st' gs" "extends st st'" "visited \<subseteq> colored Black st'"
  using assms by (auto simp: dfs_post_def split: if_splits)

lemma dfs_post_more:
  assumes "dfs_post graph N gs st2 visited result" "extends st st2" "visited' \<subseteq> visited \<union> colored Black st2"
  shows "dfs_post graph N gs st visited' result"
  using assms(1)
proof (cases rule: dfs_postE)
  case (1 st')
  then show ?thesis by (simp add: dfs_postI)
next
  case (2 st')
  have "visited' \<subseteq> colored Black st'" using assms(3) 2(4,5) by (auto simp: extends_def)
  with 2 extends_trans [OF assms(2) 2(4)] show ?thesis by (simp add: dfs_postI)
qed

definition dfs_correct :: "nat \<Rightarrow> dep_graph \<Rightarrow> string set \<Rightarrow> bool" where
  "dfs_correct fuel graph N \<longleftrightarrow>
     (\<forall>node st gs. node \<in> colored White st \<longrightarrow> dfs_good graph N st \<longrightarrow> onPath graph st gs \<longrightarrow>
        (gs \<noteq> [] \<longrightarrow> parentEdge graph st node (hd gs)) \<longrightarrow> card (colored White st) \<le> fuel \<longrightarrow>
        dfs_post graph N gs st {node} (dfs fuel graph node st))"

lemma scan_correct:
  assumes rec: "dfs_correct fuel graph N"
    and "dfs_good graph N st" "onPath graph st (node # gs)" "card (colored White st) \<le> fuel"
    and "set nbs \<subseteq> set (successors graph node)" "graphRel graph \<subseteq> N \<times> N"
  shows "dfs_post graph N (node # gs) st (set nbs) (scanNeighbors (dfs fuel graph) node nbs st)"
  using assms(2-5)
proof (induction nbs arbitrary: st)
  case Nil
  then show ?case by (auto intro!: dfs_postI simp: extends_refl)
next
  case (Cons v nbs)
  have edge: "(node, v) \<in> graphRel graph" using Cons.prems(4) by (simp add: graphRel_def)
  then have "v \<in> N" using assms(6) by blast
  then obtain c where c: "map_of (df_color st) v = Some c" using Cons.prems(1) by (auto simp: dfs_good_def)
  have sub: "set nbs \<subseteq> set (successors graph node)" using Cons.prems(4) by simp
  show ?case
  proof (cases c)
    case Gray
    have "set (node # gs) \<subseteq> N"
      using Cons.prems(1) unfolding onPathD(1) [OF Cons.prems(2)] by (auto simp: dfs_good_def colored_def)
    moreover have "v \<in> set (node # gs)" using c Gray unfolding onPathD(1) [OF Cons.prems(2)] by (simp add: colored_def)
    moreover have "successively (parentEdge graph (st\<lparr>df_cycle := Some (v, node)\<rparr>)) (node # gs)"
      by (rule successively_parents [OF onPathD(3) [OF Cons.prems(2)]]) simp
    ultimately have "dfs_found graph N (st\<lparr>df_cycle := Some (v, node)\<rparr>)"
      using edge onPathD(2) [OF Cons.prems(2)] unfolding dfs_found_def
      by (intro exI [of _ v] exI [of _ "node # gs"] conjI) simp_all
    with c Gray show ?thesis by (auto intro!: dfs_postI)
  next
    case Black
    with c have "set (v # nbs) \<subseteq> set nbs \<union> colored Black st" by (auto simp: colored_def)
    from dfs_post_more [OF Cons.IH [OF Cons.prems(1-3) sub] extends_refl this] c Black show ?thesis by simp
  next
    case White
    define st1 where "st1 = st\<lparr>df_parent := AList.update v node (df_parent st)\<rparr>"
    have v: "v \<in> colored White st1" using c White by (simp add: st1_def colored_def)
    have g1: "dfs_good graph N st1" using Cons.prems(1) by (simp add: dfs_good_def st1_def)
    have "v \<notin> set (node # gs)" using c White unfolding onPathD(1) [OF Cons.prems(2)] by (simp add: colored_def)
    then have "successively (parentEdge graph st1) (node # gs)"
      by (intro successively_parents [OF onPathD(3) [OF Cons.prems(2)]]) (auto simp: st1_def update_conv')
    then have p1: "onPath graph st1 (node # gs)"
      using onPathD(1,2) [OF Cons.prems(2)] unfolding onPath_def by (simp add: st1_def)
    have e1: "parentEdge graph st1 v node" using edge by (simp add: parentEdge_def st1_def update_conv')
    have k1: "card (colored White st1) \<le> fuel" using Cons.prems(3) by (simp add: st1_def)
    have "dfs_post graph N (node # gs) st1 {v} (dfs fuel graph v st1)"
      using rec v g1 p1 e1 k1 unfolding dfs_correct_def by (metis list.sel(1))
    then obtain b st2 where d: "dfs fuel graph v st1 = Some (b, st2)"
      and post: "if b then dfs_found graph N st2
         else dfs_good graph N st2 \<and> onPath graph st2 (node # gs) \<and> extends st1 st2 \<and> {v} \<subseteq> colored Black st2"
      unfolding dfs_post_def by blast
    show ?thesis
    proof (cases b)
      case True
      with c White d post show ?thesis by (auto intro!: dfs_postI simp: st1_def)
    next
      case False
      with post have st2: "dfs_good graph N st2" "onPath graph st2 (node # gs)" "extends st1 st2" "v \<in> colored Black st2"
        by auto
      have "card (colored White st2) \<le> fuel"
        using st2(3) k1 card_mono [OF finite_colored, of "colored White st2" White st1] by (simp add: extends_def)
      from Cons.IH [OF st2(1,2) this sub] have
        ih: "dfs_post graph N (node # gs) st2 (set nbs) (scanNeighbors (dfs fuel graph) node nbs st2)" .
      have "extends st st2"
        using st2(3) v by (auto simp: extends_def st1_def update_conv' split: if_splits)
      then have "dfs_post graph N (node # gs) st (set (v # nbs)) (scanNeighbors (dfs fuel graph) node nbs st2)"
        using st2(4) by (intro dfs_post_more [OF ih]) auto
      with c White d False show ?thesis by (simp add: st1_def)
    qed
  qed
qed

lemma dfs_is_correct:
  assumes E: "graphRel graph \<subseteq> N \<times> N"
  shows "dfs_correct fuel graph N"
proof (induction fuel)
  case 0
  have "\<not> card (colored White st) \<le> 0" if "node \<in> colored White st" for node st
    using that finite_colored [of White st] by auto
  then show ?case unfolding dfs_correct_def by blast
next
  case (Suc fuel)
  show ?case
    unfolding dfs_correct_def
  proof (intro allI impI)
    fix node st gs
    assume w: "node \<in> colored White st" and g: "dfs_good graph N st" and p: "onPath graph st gs"
      and e: "gs \<noteq> [] \<longrightarrow> parentEdge graph st node (hd gs)" and k: "card (colored White st) \<le> Suc fuel"
    define st1 where "st1 = paint node Gray st"
    have nodeN: "node \<in> N" using w g by (auto simp: dfs_good_def colored_def)
    have notBlack: "node \<notin> colored Black st" and notGray: "node \<notin> colored Gray st" using w colored_disjoint by fastforce+
    have g1: "dfs_good graph N st1"
      using g nodeN notBlack by (simp add: dfs_good_def st1_def insert_absorb)
    have "successively (parentEdge graph st1) gs"
      by (rule successively_parents [OF onPathD(3) [OF p]]) (simp add: st1_def)
    moreover have "parentEdge graph st1 node (hd gs)" if "gs \<noteq> []" using that e by (simp add: parentEdge_def st1_def)
    ultimately have "successively (parentEdge graph st1) (node # gs)" by (cases gs) auto
    then have p1: "onPath graph st1 (node # gs)"
      using onPathD(1,2) [OF p] notGray unfolding onPath_def by (simp add: st1_def)
    have k1: "card (colored White st1) \<le> fuel" using w k finite_colored [of White st] by (simp add: st1_def)
    have "dfs_post graph N (node # gs) st1 (set (successors graph node))
        (scanNeighbors (dfs fuel graph) node (successors graph node) st1)"
      by (rule scan_correct [OF Suc g1 p1 k1 subset_refl E])
    then show "dfs_post graph N gs st {node} (dfs (Suc fuel) graph node st)"
    proof (cases rule: dfs_postE)
      case (1 st')
      then show ?thesis by (simp add: st1_def dfs_postI)
    next
      case (2 st')
      have gray: "node \<in> colored Gray st'" using onPathD(1) [OF 2(3)] by auto
      then have nb: "node \<notin> colored Black st'" using colored_disjoint by fastforce
      have succ: "graphRel graph `` {node} \<subseteq> colored Black st'" using 2(5) by (auto simp: graphRel_def)
      define st3 where "st3 = paint node Black st'"
      have black: "colored Black st3 = insert node (colored Black st')" by (simp add: st3_def)
      have closed: "graphRel graph `` colored Black st' \<subseteq> colored Black st'" using 2(2) by (simp add: dfs_good_def)
      have "acyclic (graphRel graph \<inter> colored Black st3 \<times> colored Black st3)"
      proof (rule acyclic_new_source [where u = node])
        show "acyclic (graphRel graph \<inter> colored Black st' \<times> colored Black st')" using 2(2) by (simp add: dfs_good_def)
        show "y \<noteq> node" if "(x, y) \<in> graphRel graph \<inter> colored Black st3 \<times> colored Black st3" for x y
          using that closed succ nb unfolding black by blast
        then show "(x, y) \<in> graphRel graph \<inter> colored Black st' \<times> colored Black st'"
          if "(x, y) \<in> graphRel graph \<inter> colored Black st3 \<times> colored Black st3" "x \<noteq> node" for x y
          using that unfolding black by blast
      qed
      then have g3: "dfs_good graph N st3"
        using 2(2) closed succ nodeN unfolding dfs_good_def black by (auto simp: st3_def)
      have "successively (parentEdge graph st') gs" using onPathD(3) [OF 2(3)] by (cases gs) auto
      then have "successively (parentEdge graph st3) gs" by (rule successively_parents) (simp add: st3_def)
      moreover have "set gs = colored Gray st3" "distinct gs"
        using onPathD(1,2) [OF 2(3)] by (auto simp: st3_def)
      ultimately have p3: "onPath graph st3 gs" by (simp add: onPath_def)
      have "extends st1 st'" by (rule 2(4))
      then have x3: "extends st st3"
        using w notBlack unfolding extends_def st1_def st3_def by auto
      have "dfs (Suc fuel) graph node st = Some (False, st3)" using 2(1) by (simp add: st1_def st3_def)
      with g3 p3 x3 black show ?thesis by (simp add: dfs_postI)
    qed
  qed
qed

lemma dfsD:
  assumes "graphRel graph \<subseteq> N \<times> N" "node \<in> colored White st" "dfs_good graph N st" "onPath graph st []" "card (colored White st) \<le> fuel"
  shows "dfs_post graph N [] st {node} (dfs fuel graph node st)"
  using dfs_is_correct [OF assms(1), of fuel] assms(2-5) unfolding dfs_correct_def by blast

lemma searchAll_correct:
  assumes E: "graphRel graph \<subseteq> N \<times> N"
  shows "dfs_good graph N st \<Longrightarrow> onPath graph st [] \<Longrightarrow> card (colored White st) \<le> fuel \<Longrightarrow> set names \<subseteq> N \<Longrightarrow>
    \<exists>st'. searchAll fuel graph names st = Some st' \<and>
      (dfs_found graph N st' \<or> (dfs_good graph N st' \<and> colored Black st \<subseteq> colored Black st' \<and> set names \<subseteq> colored Black st'))"
proof (induction names arbitrary: st)
  case Nil
  then show ?case by simp
next
  case (Cons n names)
  show ?case
  proof (cases "n \<in> colored White st")
    case False
    have "n \<notin> colored Gray st" using onPathD(1) [OF Cons.prems(2)] by auto
    moreover have "n \<in> N" using Cons.prems(4) by simp
    ultimately have "n \<in> colored Black st"
      using False Cons.prems(1) Color.exhaust unfolding dfs_good_def colored_def by (metis (mono_tags) domD mem_Collect_eq)
    moreover have "searchAll fuel graph (n # names) st = searchAll fuel graph names st" using False by (simp add: colored_def)
    ultimately show ?thesis using Cons.IH [OF Cons.prems(1-3)] Cons.prems(4) by fastforce
  next
    case True
    from dfsD [OF E True Cons.prems(1-3)] show ?thesis
    proof (cases rule: dfs_postE)
      case (1 st')
      with True show ?thesis by (simp add: colored_def)
    next
      case (2 st')
      have "card (colored White st') \<le> fuel"
        using 2(4) Cons.prems(3) card_mono [OF finite_colored, of "colored White st'" White st] by (simp add: extends_def)
      from Cons.IH [OF 2(2,3) this] Cons.prems(4) obtain st'' where
        s: "searchAll fuel graph names st' = Some st''"
          "dfs_found graph N st'' \<or> (dfs_good graph N st'' \<and> colored Black st' \<subseteq> colored Black st'' \<and> set names \<subseteq> colored Black st'')"
        by auto
      have "searchAll fuel graph (n # names) st = Some st''" using True 2(1) s(1) by (simp add: colored_def)
      with s(2) 2(4,5) show ?thesis by (auto simp: extends_def)
    qed
  qed
qed

subsection \<open>The path that is reported\<close>

definition isCycle :: "string rel \<Rightarrow> string list \<Rightarrow> bool" where
  "isCycle E xs \<longleftrightarrow> 2 \<le> length xs \<and> hd xs = last xs \<and> successively (\<lambda>a b. (a, b) \<in> E) xs"

lemma successively_trancl:
  "successively (\<lambda>a b. (a, b) \<in> E) (x # y # xs) \<Longrightarrow> (x, last (y # xs)) \<in> E\<^sup>+"
proof (induction xs arbitrary: x y)
  case Nil
  then show ?case by auto
next
  case (Cons z xs)
  then have "(x, y) \<in> E" "(y, last (z # xs)) \<in> E\<^sup>+" by auto
  then show ?case by (simp add: trancl_into_trancl2)
qed

lemma isCycle_cyclic:
  assumes "isCycle E xs"
  shows "\<not> acyclic E"
proof -
  obtain x y ys where xs: "xs = x # y # ys" using assms by (auto simp: isCycle_def numeral_2_eq_2 Suc_le_length_iff)
  with assms successively_trancl [of E x y ys] have "(x, x) \<in> E\<^sup>+" by (auto simp: isCycle_def)
  then show ?thesis by (auto simp: acyclic_def)
qed

lemma tracePath_found:
  assumes "gs \<noteq> []" "start \<in> set gs" "successively (parentEdge graph st) gs" "length gs \<le> fuel"
  shows "tracePath fuel (df_parent st) start (hd gs) = Some (takeWhile (\<lambda>x. x \<noteq> start) gs)"
  using assms
proof (induction gs arbitrary: fuel)
  case (Cons x gs)
  obtain fuel' where f: "fuel = Suc fuel'" "length gs \<le> fuel'" using Cons.prems(4) by (cases fuel) auto
  show ?case
  proof (cases "x = start")
    case False
    then obtain y ys where gs: "gs = y # ys" using Cons.prems(2) by (cases gs) auto
    with Cons.prems False have "parentEdge graph st x y" "start \<in> set gs" "successively (parentEdge graph st) gs" by auto
    with Cons.IH [of fuel'] f gs False show ?thesis by (simp add: parentEdge_def)
  qed (simp add: f)
qed simp

lemma found_path:
  assumes "dfs_found graph N st" "finite N" "card N \<le> fuel"
  shows "\<exists>start fin path. df_cycle st = Some (start, fin) \<and> tracePath fuel (df_parent st) start fin = Some path \<and>
    isCycle (graphRel graph) (rev (path @ [start]) @ [start])"
proof -
  from assms(1) obtain start gs where gs: "gs \<noteq> []" "df_cycle st = Some (start, hd gs)" "start \<in> set gs" "distinct gs" "set gs \<subseteq> N"
    "successively (parentEdge graph st) gs" "(hd gs, start) \<in> graphRel graph" unfolding dfs_found_def by blast
  have "length gs \<le> fuel" using gs(4,5) assms(2,3) by (metis card_mono distinct_card order_trans)
  note t = tracePath_found [OF gs(1,3,6) this]
  obtain pre post where split: "gs = pre @ start # post" and "start \<notin> set pre" using split_list_first [OF gs(3)] by blast
  then have pre: "takeWhile (\<lambda>x. x \<noteq> start) gs = pre" by (induction pre arbitrary: gs) auto
  have "successively (parentEdge graph st) (pre @ [start])"
    using gs(6) unfolding split by (auto simp: successively_append_iff)
  then have "successively (\<lambda>a b. parentEdge graph st b a) (start # rev pre)"
    using successively_rev [of "parentEdge graph st" "rev (pre @ [start])"] by simp
  then have walk: "successively (\<lambda>a b. (a, b) \<in> graphRel graph) (start # rev pre)"
    by (rule successively_mono) (auto simp: parentEdge_def)
  have "last (start # rev pre) = hd gs" by (cases pre) (simp_all add: split)
  with walk gs(7) have "successively (\<lambda>a b. (a, b) \<in> graphRel graph) ((start # rev pre) @ [start])"
    unfolding successively_append_iff by simp
  then have "isCycle (graphRel graph) (rev (pre @ [start]) @ [start])" by (simp add: isCycle_def)
  with gs(2) t pre show ?thesis by metis
qed

lemma detectCycle_correct:
  assumes wf: "umap_wf infos" and E: "graphRel graph \<subseteq> fst ` set infos \<times> fst ` set infos"
  shows "\<exists>cycle. detectCycle infos graph = Some cycle \<and>
    (if cycle = [] then acyclic (graphRel graph) else isCycle (graphRel graph) cycle)"
proof -
  let ?N = "fst ` set infos"
  let ?st = "\<lparr>df_color = map (\<lambda>(name, info). (name, White)) infos, df_parent = [], df_cycle = None\<rparr>"
  have col: "map_of (map (\<lambda>(name, info). (name, White)) infos) x = (if x \<in> ?N then Some White else None)" for x
    by (induction infos) auto
  have colors: "colored White ?st = ?N" "colored Black ?st = {}" "colored Gray ?st = {}" by (auto simp: colored_def col)
  have card: "card ?N \<le> Suc (length infos)" using card_image_le [of "set infos" fst] card_length [of infos] by simp
  have good: "dfs_good graph ?N ?st" by (auto simp: dfs_good_def colors col dom_def acyclic_def split: if_splits)
  have path: "onPath graph ?st []" by (simp add: onPath_def colors)
  obtain st where s: "searchAll (Suc (length infos)) graph (map fst infos) ?st = Some st"
    and st: "dfs_found graph ?N st \<or> (dfs_good graph ?N st \<and> set (map fst infos) \<subseteq> colored Black st)"
    using searchAll_correct [OF E good path, of "Suc (length infos)" "map fst infos"] card colors by auto
  from st show ?thesis
  proof
    assume "dfs_found graph ?N st"
    from found_path [OF this _ card] obtain start fin path where
      "df_cycle st = Some (start, fin)" "tracePath (Suc (length infos)) (df_parent st) start fin = Some path"
      "isCycle (graphRel graph) (rev (path @ [start]) @ [start])" by auto
    with s show ?thesis by (auto simp: detectCycle_def Let_def)
  next
    assume good': "dfs_good graph ?N st \<and> set (map fst infos) \<subseteq> colored Black st"
    then have "graphRel graph \<inter> colored Black st \<times> colored Black st = graphRel graph" using E by auto
    with good' have "acyclic (graphRel graph)" "df_cycle st = None" by (auto simp: dfs_good_def)
    with s show ?thesis by (auto simp: detectCycle_def Let_def)
  qed
qed

section \<open>Properties\<close>

text \<open>Every dependency that can be read names a loaded plugin of an admitted version.\<close>

definition dependenciesMet :: "plugin_infos \<Rightarrow> bool" where
  "dependenciesMet infos \<longleftrightarrow> (\<forall>(name, info) \<in> set infos. \<forall>dep \<in> set (pi_dependencies info). \<forall>spec.
     ds_Parse dep = Inr spec \<longrightarrow> (\<exists>info'. map_of infos (ds_name spec) = Some info' \<and> ds_IsSatisfiedBy spec (pi_version info')))"

lemma checkDependency_met:
  "checkDependency infos name dep = [] \<longleftrightarrow>
     (\<forall>spec. ds_Parse dep = Inr spec \<longrightarrow> (\<exists>info'. map_of infos (ds_name spec) = Some info' \<and> ds_IsSatisfiedBy spec (pi_version info')))"
  by (auto simp: checkDependency_def ds_IsSatisfiedBy_def split: sum.splits option.splits)

lemma validate_report:
  "dr_success (validateVersionConstraints infos r) \<longleftrightarrow> dr_success r \<and> dependenciesMet infos"
  "dr_cyclePath (validateVersionConstraints infos r) = dr_cyclePath r"
proof -
  let ?step = "\<lambda>name dep report. let issues = checkDependency infos name dep
      in report\<lparr>dr_success := dr_success report \<and> issues = [], dr_issues := dr_issues report @ issues\<rparr>"
  have inner: "dr_success (fold (?step name) deps r) \<longleftrightarrow> dr_success r \<and> (\<forall>dep \<in> set deps. checkDependency infos name dep = [])"
    "dr_cyclePath (fold (?step name) deps r) = dr_cyclePath r" for name deps r
    by (induction deps arbitrary: r) (auto simp: Let_def)
  have outer: "dr_success (fold (\<lambda>(name, info). fold (?step name) (pi_dependencies info)) ps r) \<longleftrightarrow> dr_success r \<and>
      (\<forall>(name, info) \<in> set ps. \<forall>dep \<in> set (pi_dependencies info). checkDependency infos name dep = [])"
    "dr_cyclePath (fold (\<lambda>(name, info). fold (?step name) (pi_dependencies info)) ps r) = dr_cyclePath r" for ps r
    by (induction ps arbitrary: r) (auto simp: inner)
  show "dr_success (validateVersionConstraints infos r) \<longleftrightarrow> dr_success r \<and> dependenciesMet infos"
    unfolding validateVersionConstraints_def outer(1) dependenciesMet_def checkDependency_met by blast
  show "dr_cyclePath (validateVersionConstraints infos r) = dr_cyclePath r"
    unfolding validateVersionConstraints_def by (rule outer(2))
qed

lemma validate_exact:
  assumes "umap_wf infos"
  shows "\<exists>report. ValidateDependencies infos = Some report \<and>
    (dr_success report \<longleftrightarrow> dependenciesMet infos \<and> acyclic (set (edgeList infos))) \<and>
    (dr_success report \<longrightarrow> distinct (dr_loadOrder report) \<and> set (dr_loadOrder report) = fst ` set infos \<and>
       dependenciesFirst (edgeList infos) (dr_loadOrder report)) \<and>
    (dr_cyclePath report \<noteq> [] \<longleftrightarrow> \<not> acyclic (set (edgeList infos))) \<and>
    (dr_cyclePath report \<noteq> [] \<longrightarrow> isCycle (set (edgeList infos)) (dr_cyclePath report))"
proof -
  let ?es = "edgeList infos" and ?N = "fst ` set infos"
  let ?r = "validateVersionConstraints infos \<lparr>dr_success = True, dr_issues = [], dr_loadOrder = [], dr_cyclePath = []\<rparr>"
  obtain graph inDegree where b: "buildGraph infos = (graph, inDegree)" by (cases "buildGraph infos")
  have rep: "graph_rep ?es ?N (graph, inDegree)" using buildGraph_rep [of infos] b by simp
  then have succ: "successors graph d = map snd (filter (\<lambda>(a, b). a = d) ?es)" for d by (simp add: graph_rep_def)
  then have rel: "graphRel graph = set ?es" by (force simp: graphRel_def)
  have N: "set ?es \<subseteq> ?N \<times> ?N" using edgeList_loaded [of _ _ infos] by (auto simp: loaded_iff)
  obtain cycle where c: "detectCycle infos graph = Some cycle"
    and cyc: "if cycle = [] then acyclic (set ?es) else isCycle (set ?es) cycle"
    using detectCycle_correct [OF assms, of graph] N unfolding rel by blast
  show ?thesis
  proof (cases "cycle = []")
    case False
    with cyc have ic: "isCycle (set ?es) cycle" by simp
    have "ValidateDependencies infos = Some (?r\<lparr>dr_success := False, dr_cyclePath := cycle,
        dr_issues := dr_issues ?r @ [\<lparr>di_kind = CircularDep, di_plugin = [], di_dependency = [],
          di_detail = ''Circular dependency detected: '' @ joinArrow cycle\<rparr>]\<rparr>)"
      using False c b by (simp add: ValidateDependencies_def Let_def)
    with False ic isCycle_cyclic [OF ic] show ?thesis by simp
  next
    case True
    with cyc have ac: "acyclic (set ?es)" by simp
    let ?Q = "map fst (filter (\<lambda>(name, k). k = 0 \<and> loaded infos name) inDegree)"
    have "card ?N < Suc (length infos) + length []" using card_image_le [of "set infos" fst] card_length [of infos] by simp
    moreover have "snd ` set ?es \<subseteq> ?N" using N by auto
    ultimately obtain order i' where
      k: "kahn (Suc (length infos)) infos graph ?Q inDegree [] = Some order" "depKahn_inv ?es ?N i' [] order"
      using kahn_ends [OF depKahn_inv_start [OF rep refl] _ _ succ _ refl] by blast
    have "set order = ?N" using N by (intro kahn_complete [OF k(2) ac]) auto
    moreover have "distinct order" "dependenciesFirst ?es order" using k(2) by (simp_all add: depKahn_inv_def)
    moreover have "ValidateDependencies infos = Some (?r\<lparr>dr_loadOrder := order\<rparr>)"
      using True c b k(1) by (simp add: ValidateDependencies_def Let_def)
    ultimately show ?thesis using ac by (simp add: validate_report)
  qed
qed

lemma validate_load_order:
  assumes "umap_wf infos"
  shows "\<exists>report. ValidateDependencies infos = Some report \<and>
    (dr_success report \<longrightarrow> distinct (dr_loadOrder report) \<and> set (dr_loadOrder report) = fst ` set infos \<and>
       dependenciesFirst (edgeList infos) (dr_loadOrder report))"
  using validate_exact [OF assms] by blast

text \<open>(C24) Validating the dependencies always ends. It succeeds exactly when every dependency that can be
  read is loaded in an admitted version and the dependencies have no cycle; the load order then lists
  every plugin once, after all the plugins it depends on. A cycle is reported exactly when there is one,
  and the reported path is a cycle of the dependencies.\<close>

theorem dependency_report_exact:
  assumes "umap_wf infos"
  shows "\<exists>report. ValidateDependencies infos = Some report \<and>
    (dr_success report \<longleftrightarrow> dependenciesMet infos \<and> acyclic (set (edgeList infos))) \<and>
    (dr_success report \<longrightarrow> distinct (dr_loadOrder report) \<and> set (dr_loadOrder report) = fst ` set infos \<and>
       dependenciesFirst (edgeList infos) (dr_loadOrder report)) \<and>
    (dr_cyclePath report \<noteq> [] \<longleftrightarrow> \<not> acyclic (set (edgeList infos))) \<and>
    (dr_cyclePath report \<noteq> [] \<longrightarrow> isCycle (set (edgeList infos)) (dr_cyclePath report))"
  using assms by (rule validate_exact)

definition demoInfo :: "string \<Rightarrow> string list \<Rightarrow> PluginInfo" where
  "demoInfo n deps = \<lparr>pi_name = n, pi_description = [], pi_version = Version 1 2 0, pi_dependencies = deps, pi_apiVersion = 1\<rparr>"

abbreviation demoInfos :: plugin_infos where
  "demoInfos \<equiv> [(''game'', demoInfo ''game'' [''net>=1.0'', ''db'']), (''net'', demoInfo ''net'' [''db'']), (''db'', demoInfo ''db'' [])]"

theorem dependency_report_exact_witness:
  "umap_wf demoInfos \<and> map_option dr_loadOrder (ValidateDependencies demoInfos) = Some [''db'', ''net'', ''game''] \<and>
   dependenciesFirst (edgeList demoInfos) [''db'', ''net'', ''game'']"
proof -
  have w: "umap_wf demoInfos" by (simp add: umap_wf_def)
  have o: "map_option dr_loadOrder (ValidateDependencies demoInfos) = Some [''db'', ''net'', ''game'']" by code_simp
  have s: "map_option dr_success (ValidateDependencies demoInfos) = Some True" by code_simp
  from dependency_report_exact [OF w] obtain report where
    "ValidateDependencies demoInfos = Some report"
    "dr_success report \<longrightarrow> distinct (dr_loadOrder report) \<and> set (dr_loadOrder report) = fst ` set demoInfos \<and>
       dependenciesFirst (edgeList demoInfos) (dr_loadOrder report)" by blast
  with o s w show ?thesis by auto
qed

text \<open>A dependency whose version cannot be read is passed over: the plugin it names need not be loaded.\<close>

theorem unreadable_dependency_ignored:
  "map_option dr_success (ValidateDependencies [(''game'', demoInfo ''game'' [''net>=one''])]) = Some True"
  by code_simp

end
