(* ===== verification/Event_Bus.thy ===== *)
theory Event_Bus
  imports Foundation "HOL-Library.Multiset"
begin

text \<open>
  The event bus of the plugin system (\<^verbatim>\<open>plugin/event_bus.hpp\<close>). A type index is a number, a handler
  a name that \<open>run\<close> interprets; \<open>run\<close> acts on the whole state of the program, of which the bus is the
  part \<open>busOf\<close>, so a handler may subscribe, unsubscribe and publish while an event is being
  delivered. Shown is that, after any subscriptions and unsubscriptions, an event reaches exactly the
  handlers subscribed to its type at that moment, by priority and then in the order they subscribed.
\<close>

section \<open>State\<close>

type_synonym SubscriptionId = u64
type_synonym type_index = nat

record 'h HandlerEntry =
  he_id :: SubscriptionId
  he_priority :: int
  he_handler :: 'h

record ('h, 'e) EventBus =
  eb_handlers :: "(type_index, 'h HandlerEntry list) umap"
  eb_subscriptionTypes :: "(SubscriptionId, type_index) umap"
  eb_deferredQueue :: "(type_index \<times> 'e) list"
  eb_nextId :: SubscriptionId

definition emptyEventBus :: "('h, 'e) EventBus" where
  "emptyEventBus = \<lparr>eb_handlers = [], eb_subscriptionTypes = [], eb_deferredQueue = [], eb_nextId = 1\<rparr>"

section \<open>Operations\<close>

definition handlersFor :: "('h, 'e) EventBus \<Rightarrow> type_index \<Rightarrow> 'h HandlerEntry list" where
  "handlersFor bus t = (case map_of (eb_handlers bus) t of Some hs \<Rightarrow> hs | None \<Rightarrow> [])"

definition sortHandlers :: "'h HandlerEntry list \<Rightarrow> 'h HandlerEntry list" where
  "sortHandlers hs = sort_key he_priority hs"

definition eb_Subscribe :: "type_index \<Rightarrow> 'h \<Rightarrow> int \<Rightarrow> ('h, 'e) EventBus \<Rightarrow> SubscriptionId \<times> ('h, 'e) EventBus" where
  "eb_Subscribe t handler priority bus =
     (let i = eb_nextId bus; entry = \<lparr>he_id = i, he_priority = priority, he_handler = handler\<rparr>
      in (i, bus\<lparr>eb_nextId := i + 1,
                 eb_handlers := AList.update t (sortHandlers (handlersFor bus t @ [entry])) (eb_handlers bus),
                 eb_subscriptionTypes := AList.update i t (eb_subscriptionTypes bus)\<rparr>))"

definition unsubscribeInternal :: "SubscriptionId \<Rightarrow> ('h, 'e) EventBus \<Rightarrow> ('h, 'e) EventBus" where
  "unsubscribeInternal i bus =
     (case map_of (eb_subscriptionTypes bus) i of
        None \<Rightarrow> bus
      | Some t \<Rightarrow>
          let handlers =
                (case map_of (eb_handlers bus) t of
                   None \<Rightarrow> eb_handlers bus
                 | Some hs \<Rightarrow>
                     let vec = filter (\<lambda>e. he_id e \<noteq> i) hs
                     in if vec = [] then AList.delete t (eb_handlers bus) else AList.update t vec (eb_handlers bus))
          in bus\<lparr>eb_handlers := handlers, eb_subscriptionTypes := AList.delete i (eb_subscriptionTypes bus)\<rparr>)"

definition eb_Unsubscribe :: "SubscriptionId \<Rightarrow> ('h, 'e) EventBus \<Rightarrow> ('h, 'e) EventBus" where
  "eb_Unsubscribe i bus = unsubscribeInternal i bus"

definition eb_UnsubscribeAll :: "('h, 'e) EventBus \<Rightarrow> ('h, 'e) EventBus" where
  "eb_UnsubscribeAll bus = bus\<lparr>eb_handlers := [], eb_subscriptionTypes := []\<rparr>"

definition eb_Publish :: "('h \<Rightarrow> 'e \<Rightarrow> 's \<Rightarrow> 's) \<Rightarrow> ('s \<Rightarrow> ('h, 'e) EventBus) \<Rightarrow> type_index \<Rightarrow> 'e \<Rightarrow> 's \<Rightarrow> 's" where
  "eb_Publish run busOf t event s =
     (case map_of (eb_handlers (busOf s)) t of
        None \<Rightarrow> s
      | Some snapshot \<Rightarrow> fold (\<lambda>entry. run (he_handler entry) event) snapshot s)"

definition eb_PublishDeferred :: "type_index \<Rightarrow> 'e \<Rightarrow> ('h, 'e) EventBus \<Rightarrow> ('h, 'e) EventBus" where
  "eb_PublishDeferred t event bus = bus\<lparr>eb_deferredQueue := eb_deferredQueue bus @ [(t, event)]\<rparr>"

definition eb_ProcessDeferred :: "('h \<Rightarrow> 'e \<Rightarrow> 's \<Rightarrow> 's) \<Rightarrow> ('s \<Rightarrow> ('h, 'e) EventBus) \<Rightarrow> (('h, 'e) EventBus \<Rightarrow> 's \<Rightarrow> 's) \<Rightarrow> 's \<Rightarrow> 's" where
  "eb_ProcessDeferred run busOf putBus s =
     (let queue = eb_deferredQueue (busOf s); s1 = putBus ((busOf s)\<lparr>eb_deferredQueue := []\<rparr>) s
      in fold (\<lambda>(t, event). eb_Publish run busOf t event) queue s1)"

definition eb_HandlerCount :: "('h, 'e) EventBus \<Rightarrow> nat" where
  "eb_HandlerCount bus = sum_list (map (\<lambda>(t, hs). length hs) (eb_handlers bus))"

definition eb_HandlerCountFor :: "type_index \<Rightarrow> ('h, 'e) EventBus \<Rightarrow> nat" where
  "eb_HandlerCountFor t bus = (case map_of (eb_handlers bus) t of None \<Rightarrow> 0 | Some hs \<Rightarrow> length hs)"

definition eb_DeferredCount :: "('h, 'e) EventBus \<Rightarrow> nat" where
  "eb_DeferredCount bus = length (eb_deferredQueue bus)"

section \<open>Specification\<close>

text \<open>The live subscriptions in the order in which they were made.\<close>

type_synonym 'h Subscriptions = "(type_index \<times> 'h HandlerEntry) list"

datatype 'h BusCall = CallSubscribe type_index 'h int | CallUnsubscribe SubscriptionId | CallUnsubscribeAll

fun eb_step :: "'h BusCall \<Rightarrow> ('h, 'e) EventBus \<Rightarrow> ('h, 'e) EventBus" where
  "eb_step (CallSubscribe t h p) bus = snd (eb_Subscribe t h p bus)"
| "eb_step (CallUnsubscribe i) bus = eb_Unsubscribe i bus"
| "eb_step CallUnsubscribeAll bus = eb_UnsubscribeAll bus"

text \<open>The counter numbers the subscriptions from 1 on.\<close>

fun spec_step :: "'h BusCall \<Rightarrow> nat \<times> 'h Subscriptions \<Rightarrow> nat \<times> 'h Subscriptions" where
  "spec_step (CallSubscribe t h p) (n, subs) =
     (Suc n, subs @ [(t, \<lparr>he_id = of_nat n, he_priority = p, he_handler = h\<rparr>)])"
| "spec_step (CallUnsubscribe i) (n, subs) = (n, filter (\<lambda>(t, e). he_id e \<noteq> i) subs)"
| "spec_step CallUnsubscribeAll (n, subs) = (n, [])"

definition liveSubs :: "'h BusCall list \<Rightarrow> nat \<times> 'h Subscriptions" where
  "liveSubs calls = fold spec_step calls (1, [])"

definition deliveryOrder :: "type_index \<Rightarrow> 'h Subscriptions \<Rightarrow> 'h HandlerEntry list" where
  "deliveryOrder t subs = sort_key he_priority (map snd (filter (\<lambda>(t', e). t' = t) subs))"

definition bus_rel :: "('h, 'e) EventBus \<Rightarrow> nat \<times> 'h Subscriptions \<Rightarrow> bool" where
  "bus_rel bus = (\<lambda>(n, subs).
     (\<forall>t. handlersFor bus t = deliveryOrder t subs) \<and>
     map_of (eb_subscriptionTypes bus) = map_of (map (\<lambda>(t, e). (he_id e, t)) subs) \<and>
     eb_nextId bus = of_nat n \<and> (\<forall>(t, e) \<in> set subs. unat (he_id e) < n) \<and>
     distinct (map (he_id \<circ> snd) subs))"

lemma sort_key_snoc: "sort_key f (sort_key f xs @ [x]) = sort_key f (xs @ [x])"
proof (rule properties_for_sort_key)
  show "mset (sort_key f (xs @ [x])) = mset (sort_key f xs @ [x])" by simp
  show "filter (\<lambda>y. f k = f y) (sort_key f (xs @ [x])) = filter (\<lambda>y. f k = f y) (sort_key f xs @ [x])" for k
    using sort_key_stable [of f "f k" "xs @ [x]"] sort_key_stable [of f "f k" xs] by (simp add: eq_commute [of "f k"])
qed simp

lemma handlersFor_update: "handlersFor (bus\<lparr>eb_handlers := AList.update t hs (eb_handlers bus)\<rparr>) t' = (if t' = t then hs else handlersFor bus t')"
  by (simp add: handlersFor_def update_conv')

lemma handlersFor_other [simp]:
  "handlersFor (bus\<lparr>eb_nextId := i\<rparr>) t = handlersFor bus t"
  "handlersFor (bus\<lparr>eb_subscriptionTypes := st\<rparr>) t = handlersFor bus t"
  by (simp_all add: handlersFor_def)

lemma bus_rel_subscribe:
  assumes rel: "bus_rel bus (n, subs)" and small: "n < 2 ^ 64"
  shows "bus_rel (snd (eb_Subscribe t h p bus)) (spec_step (CallSubscribe t h p) (n, subs))"
proof -
  define e where "e = \<lparr>he_id = eb_nextId bus, he_priority = p, he_handler = h\<rparr>"
  have nid: "eb_nextId bus = of_nat n" "unat (eb_nextId bus) = n"
    using rel small by (simp_all add: bus_rel_def unat_of_nat_lt)
  have fresh: "eb_nextId bus \<notin> set (map (he_id \<circ> snd) subs)"
    using rel nid(2) by (auto simp: bus_rel_def)
  define bus' where "bus' = snd (eb_Subscribe t h p bus)"
  have hf: "handlersFor bus' t' = (if t' = t then sortHandlers (handlersFor bus t @ [e]) else handlersFor bus t')" for t'
    by (simp add: bus'_def eb_Subscribe_def Let_def e_def handlersFor_def update_conv')
  have "handlersFor bus' t' = deliveryOrder t' (subs @ [(t, e)])" for t'
    using rel by (simp add: hf bus_rel_def sortHandlers_def deliveryOrder_def sort_key_snoc)
  moreover have "map_of (eb_subscriptionTypes bus') = map_of (map (\<lambda>(t, e). (he_id e, t)) (subs @ [(t, e)]))"
  proof -
    have "map_of (map (\<lambda>(t, e). (he_id e, t)) subs) (eb_nextId bus) = None"
      using fresh by (force simp: map_of_eq_None_iff)
    then show ?thesis
      using rel by (auto simp: bus'_def eb_Subscribe_def Let_def bus_rel_def update_conv' e_def map_add_def fun_eq_iff split: option.splits)
  qed
  moreover have "eb_nextId bus' = of_nat (Suc n)" using nid(1) by (simp add: bus'_def eb_Subscribe_def Let_def)
  moreover have "\<forall>(t, e) \<in> set (subs @ [(t, e)]). unat (he_id e) < Suc n"
    using rel nid(2) by (auto simp: bus_rel_def e_def less_Suc_eq)
  moreover have "distinct (map (he_id \<circ> snd) (subs @ [(t, e)]))"
    using rel fresh by (simp add: bus_rel_def e_def)
  ultimately show ?thesis using nid(1) by (simp add: bus'_def [symmetric] bus_rel_def e_def)
qed

lemma deliveryOrder_filter: "deliveryOrder t (filter (\<lambda>(t, e). he_id e \<noteq> i) subs) = filter (\<lambda>e. he_id e \<noteq> i) (deliveryOrder t subs)"
  by (simp add: deliveryOrder_def filter_sort filter_map comp_def case_prod_unfold conj_commute)

lemma subs_type:
  assumes "distinct (map (he_id \<circ> snd) subs)" "(t, e) \<in> set subs" "(t', e') \<in> set subs" "he_id e = he_id e'"
  shows "t = t'"
  using assms by (induction subs) force+

lemma bus_rel_unsubscribe:
  assumes rel: "bus_rel bus (n, subs)"
  shows "bus_rel (eb_Unsubscribe i bus) (spec_step (CallUnsubscribe i) (n, subs))"
proof (cases "map_of (eb_subscriptionTypes bus) i")
  case None
  then have "map_of (map (\<lambda>(t, e). (he_id e, t)) subs) i = None" using rel by (simp add: bus_rel_def)
  then have "i \<notin> fst ` set (map (\<lambda>(t, e). (he_id e, t)) subs)" by (simp only: map_of_eq_None_iff not_False_eq_True)
  then have "filter (\<lambda>(t, e). he_id e \<noteq> i) subs = subs" by (force simp: filter_id_conv)
  with rel None show ?thesis by (simp add: eb_Unsubscribe_def unsubscribeInternal_def)
next
  case (Some t)
  have types: "map_of (eb_subscriptionTypes bus) = map_of (map (\<lambda>(t, e). (he_id e, t)) subs)"
    and dist: "distinct (map (he_id \<circ> snd) subs)" using rel by (simp_all add: bus_rel_def)
  obtain e where e: "(t, e) \<in> set subs" "he_id e = i" using Some types by (auto dest!: map_of_SomeD)
  define subs' where "subs' = filter (\<lambda>(t, e). he_id e \<noteq> i) subs"
  have hf: "handlersFor (eb_Unsubscribe i bus) t' = filter (\<lambda>e. he_id e \<noteq> i) (handlersFor bus t')" for t'
  proof (cases "t' = t")
    case True
    with Some show ?thesis
      by (auto simp: eb_Unsubscribe_def unsubscribeInternal_def handlersFor_def Let_def update_conv' delete_conv' split: option.splits)
  next
    case False
    have "he_id e' \<noteq> i" if "e' \<in> set (handlersFor bus t')" for e'
      using that rel subs_type [OF dist e(1)] e(2) False by (auto simp: bus_rel_def deliveryOrder_def)
    then have "filter (\<lambda>e. he_id e \<noteq> i) (handlersFor bus t') = handlersFor bus t'" by (simp add: filter_id_conv)
    with False Some show ?thesis
      by (auto simp: eb_Unsubscribe_def unsubscribeInternal_def handlersFor_def Let_def update_conv' delete_conv' split: option.splits)
  qed
  have "handlersFor (eb_Unsubscribe i bus) t' = deliveryOrder t' subs'" for t'
    using rel by (simp add: hf subs'_def deliveryOrder_filter bus_rel_def)
  moreover have "map_of (eb_subscriptionTypes (eb_Unsubscribe i bus)) = map_of (map (\<lambda>(t, e). (he_id e, t)) subs')"
  proof
    fix j
    have "map_of (map (\<lambda>(t, e). (he_id e, t)) subs') j = (if j = i then None else map_of (map (\<lambda>(t, e). (he_id e, t)) subs) j)"
      unfolding subs'_def by (induction subs) auto
    with Some types show "map_of (eb_subscriptionTypes (eb_Unsubscribe i bus)) j = map_of (map (\<lambda>(t, e). (he_id e, t)) subs') j"
      by (simp add: eb_Unsubscribe_def unsubscribeInternal_def Let_def delete_conv')
  qed
  moreover have "distinct (map (he_id \<circ> snd) subs')" using dist by (simp add: subs'_def distinct_map_filter)
  moreover have "eb_nextId (eb_Unsubscribe i bus) = eb_nextId bus"
    using Some by (simp add: eb_Unsubscribe_def unsubscribeInternal_def Let_def)
  ultimately show ?thesis using rel by (auto simp: bus_rel_def subs'_def)
qed

lemma bus_rel_all: "bus_rel bus (n, subs) \<Longrightarrow> bus_rel (eb_UnsubscribeAll bus) (n, [])"
  by (simp add: bus_rel_def eb_UnsubscribeAll_def handlersFor_def deliveryOrder_def)

lemma spec_step_counter: "fst (spec_step c st) = (case c of CallSubscribe _ _ _ \<Rightarrow> Suc (fst st) | _ \<Rightarrow> fst st)"
  by (cases st; cases c) simp_all

lemma spec_counter: "fst st \<le> fst (fold spec_step calls st)"
proof (induction calls arbitrary: st)
  case (Cons c calls)
  have "fst st \<le> fst (spec_step c st)" by (simp add: spec_step_counter split: BusCall.split)
  with Cons [of "spec_step c st"] show ?case by simp
qed simp

lemma bus_rel_run:
  "bus_rel bus st \<Longrightarrow> fst (fold spec_step calls st) \<le> 2 ^ 64 \<Longrightarrow> bus_rel (fold eb_step calls bus) (fold spec_step calls st)"
proof (induction calls arbitrary: bus st)
  case (Cons c calls)
  obtain n subs where st: "st = (n, subs)" by (cases st)
  have le: "fst (spec_step c st) \<le> 2 ^ 64"
    using Cons.prems(2) spec_counter [of "spec_step c st" calls] by simp
  have "bus_rel (eb_step c bus) (spec_step c st)"
  proof (cases c)
    case (CallSubscribe t h p)
    with le st have "n < 2 ^ 64" by simp
    from bus_rel_subscribe [OF _ this] Cons.prems(1) st CallSubscribe show ?thesis by simp
  next
    case (CallUnsubscribe i)
    with bus_rel_unsubscribe Cons.prems(1) st show ?thesis by fastforce
  next
    case CallUnsubscribeAll
    with bus_rel_all Cons.prems(1) st show ?thesis by fastforce
  qed
  with Cons.IH Cons.prems(2) show ?case by simp
qed simp

lemma bus_rel_initial: "bus_rel emptyEventBus (1, [])"
  by (simp add: bus_rel_def emptyEventBus_def handlersFor_def deliveryOrder_def)

lemma publish_handlers: "eb_Publish run busOf t event s = fold (\<lambda>entry. run (he_handler entry) event) (handlersFor (busOf s) t) s"
  by (simp add: eb_Publish_def handlersFor_def split: option.split)

section \<open>Properties\<close>

text \<open>(C28) An event reaches exactly the handlers that are subscribed to its type when it is published: by
  ascending priority, and among equal priorities in the order in which they subscribed; what the
  handlers do to the bus meanwhile has no influence on it.\<close>

theorem event_reaches_subscribers:
  assumes "busOf s = fold eb_step calls emptyEventBus" "fst (liveSubs calls) \<le> 2 ^ 64"
  shows "eb_Publish run busOf t event s =
         fold (\<lambda>entry. run (he_handler entry) event) (deliveryOrder t (snd (liveSubs calls))) s"
proof -
  have "bus_rel (fold eb_step calls emptyEventBus) (liveSubs calls)"
    unfolding liveSubs_def using assms(2) by (intro bus_rel_run bus_rel_initial) (simp add: liveSubs_def)
  then have "handlersFor (busOf s) t = deliveryOrder t (snd (liveSubs calls))"
    unfolding assms(1) bus_rel_def case_prod_unfold by blast
  then show ?thesis by (simp add: publish_handlers)
qed

abbreviation demoBusCalls :: "string BusCall list" where
  "demoBusCalls \<equiv> [CallSubscribe 7 ''late'' 5, CallSubscribe 7 ''gone'' 0, CallSubscribe 7 ''first'' 0, CallUnsubscribe 2]"

theorem event_reaches_subscribers_witness:
  "eb_Publish (\<lambda>h e s. (fst s, snd s @ [h])) fst 7 () (fold eb_step demoBusCalls emptyEventBus, []) =
     (fold eb_step demoBusCalls emptyEventBus, [''first'', ''late''])"
proof -
  let ?s = "(fold eb_step demoBusCalls emptyEventBus :: (string, unit) EventBus, [] :: string list)"
  have live: "liveSubs demoBusCalls = (4, [(7, \<lparr>he_id = 1, he_priority = 5, he_handler = ''late''\<rparr>), (7, \<lparr>he_id = 3, he_priority = 0, he_handler = ''first''\<rparr>)])"
    by (simp add: liveSubs_def)
  have "fst ?s = fold eb_step demoBusCalls emptyEventBus" "fst (liveSubs demoBusCalls) \<le> 2 ^ 64" by (simp_all add: live)
  from event_reaches_subscribers [of fst ?s demoBusCalls "\<lambda>h e s. (fst s, snd s @ [h])" 7 "()", OF this] show ?thesis
    unfolding live by (simp add: deliveryOrder_def)
qed

end
