(* ===== verification/Plugin_Manager.thy ===== *)
theory Plugin_Manager
  imports Plugin_Dependencies Event_Bus Ieee_Float
begin

text \<open>
  The lifecycle of plugins (\<^verbatim>\<open>plugin/plugin_manager.hpp\<close>, \<^verbatim>\<open>plugins/plugin_manager.cpp\<close>). A plugin is
  the record of its callbacks, which act on the state \<open>'w\<close> of the rest of the program; the event
  bus is part of that state, and \<open>pub\<close> is \<^verbatim>\<open>EventBus::Publish\<close> on it (theory \<^verbatim>\<open>Event_Bus\<close>). The
  operating system's loader of shared libraries is the argument \<open>dl\<close>. The callbacks do
  not call the manager. Shown are the states a plugin passes through, and that initialisation and
  shutdown respect the dependencies.
\<close>

section \<open>State\<close>

text \<open>Pointers to the service locator and to the event bus, by address.\<close>

record PluginContext =
  ctx_services :: "nat option"
  ctx_eventBus :: "nat option"

record 'w IPlugin =
  ip_info :: PluginInfo
  ip_OnLoad :: "PluginContext \<Rightarrow> 'w \<Rightarrow> bool \<times> 'w"
  ip_OnInit :: "'w \<Rightarrow> bool \<times> 'w"
  ip_OnUpdate :: "rat \<Rightarrow> 'w \<Rightarrow> 'w"
  ip_OnShutdown :: "'w \<Rightarrow> 'w"
  ip_OnUnload :: "'w \<Rightarrow> 'w"

datatype PluginState = Unloaded | Loaded | Initialized | Active | ShuttingDown | ErrorState

text \<open>The numbers of the enumeration, as \<^verbatim>\<open>static_cast<int>\<close> gives them.\<close>

fun stateNumber :: "PluginState \<Rightarrow> nat" where
  "stateNumber Unloaded = 0"
| "stateNumber Loaded = 1"
| "stateNumber Initialized = 2"
| "stateNumber Active = 3"
| "stateNumber ShuttingDown = 4"
| "stateNumber ErrorState = 5"

datatype PluginEvent =
    PluginLoadedEvent string Version
  | PluginInitializedEvent string
  | PluginActivatedEvent string
  | PluginShutdownEvent string
  | PluginErrorEvent string string

record 'w PluginEntry =
  pe_plugin :: "'w IPlugin"
  pe_libraryHandle :: "nat option"
  pe_state :: PluginState
  pe_loadedAt :: int

record 'w PluginManager =
  pl_plugins :: "(string, 'w PluginEntry) umap"
  pl_loadOrder :: "string list"
  pl_context :: PluginContext
  pl_eventBus :: nat

definition mkPluginManager :: "nat \<Rightarrow> 'w PluginManager" where
  "mkPluginManager busAddress = \<lparr>pl_plugins = [], pl_loadOrder = [],
     pl_context = \<lparr>ctx_services = None, ctx_eventBus = Some busAddress\<rparr>, pl_eventBus = busAddress\<rparr>"

definition SetContext :: "PluginContext \<Rightarrow> 'w PluginManager \<Rightarrow> 'w PluginManager" where
  "SetContext ctx pm = pm\<lparr>pl_context := ctx\<lparr>ctx_eventBus := Some (pl_eventBus pm)\<rparr>\<rparr>"

definition kPluginApiVersion :: u32 where "kPluginApiVersion = 1"

type_synonym 'w publish = "PluginEvent \<Rightarrow> 'w \<Rightarrow> 'w"
type_synonym 'w plstate = "'w PluginManager \<times> 'w"

definition setPluginState :: "string \<Rightarrow> PluginState \<Rightarrow> 'w PluginManager \<Rightarrow> 'w PluginManager" where
  "setPluginState name s pm = pm\<lparr>pl_plugins := map (\<lambda>(n, e). (n, if n = name then e\<lparr>pe_state := s\<rparr> else e)) (pl_plugins pm)\<rparr>"

definition notFound :: "string \<Rightarrow> 'a GameResult" where
  "notFound name = err PluginNotFound (''Plugin not found: '' @ name)"

section \<open>Loading\<close>

definition closeLibrary :: "(nat \<Rightarrow> 'w \<Rightarrow> 'w) \<Rightarrow> nat option \<Rightarrow> 'w \<Rightarrow> 'w" where
  "closeLibrary closeLib handle w = (case handle of None \<Rightarrow> w | Some h \<Rightarrow> closeLib h w)"

definition loadPluginInstance :: "'w publish \<Rightarrow> (nat \<Rightarrow> 'w \<Rightarrow> 'w) \<Rightarrow> 'w IPlugin \<Rightarrow> nat option \<Rightarrow> int \<Rightarrow> 'w plstate \<Rightarrow> unit GameResult \<times> 'w plstate" where
  "loadPluginInstance pub closeLib plugin handle now = (\<lambda>(pm, w).
     let info = ip_info plugin; name = pi_name info
     in if map_of (pl_plugins pm) name \<noteq> None
        then (err PluginAlreadyLoaded (''Plugin already loaded: '' @ name), pm, closeLibrary closeLib handle w)
        else if pi_apiVersion info \<noteq> kPluginApiVersion
        then (err PluginVersionMismatch (''API version mismatch for '' @ singleQuoted name @ '': expected '' @
                to_string (unat kPluginApiVersion) @ '', got '' @ to_string (unat (pi_apiVersion info))),
              pm, closeLibrary closeLib handle w)
        else let (ok, w1) = ip_OnLoad plugin (pl_context pm) w
             in if \<not> ok
                then (err PluginLoadFailed (''OnLoad() failed for plugin: '' @ name), pm, closeLibrary closeLib handle w1)
                else (Inr (),
                      pm\<lparr>pl_plugins := pl_plugins pm @ [(name, \<lparr>pe_plugin = plugin, pe_libraryHandle = handle, pe_state = Loaded, pe_loadedAt = now\<rparr>)]\<rparr>,
                      pub (PluginLoadedEvent name (pi_version info)) w1))"

text \<open>The operating system: whether a file exists, \<^verbatim>\<open>dlopen\<close> with the message of \<^verbatim>\<open>dlerror\<close> or a handle, and the
  factory that \<^verbatim>\<open>dlsym\<close> finds in a library; a factory may return a null pointer.\<close>

record 'w DynamicLinker =
  dl_exists :: "string \<Rightarrow> 'w \<Rightarrow> bool"
  dl_open :: "string \<Rightarrow> 'w \<Rightarrow> (string + nat) \<times> 'w"
  dl_sym :: "nat \<Rightarrow> string \<Rightarrow> 'w \<Rightarrow> ('w \<Rightarrow> 'w IPlugin option \<times> 'w) option"
  dl_close :: "nat \<Rightarrow> 'w \<Rightarrow> 'w"

definition LoadPlugin :: "'w publish \<Rightarrow> 'w DynamicLinker \<Rightarrow> string \<Rightarrow> int \<Rightarrow> 'w plstate \<Rightarrow> unit GameResult \<times> 'w plstate" where
  "LoadPlugin pub dl path now = (\<lambda>(pm, w).
     if \<not> dl_exists dl path w then (err PluginLoadFailed (''Plugin file not found: '' @ path), pm, w)
     else case dl_open dl path w of
       (Inl errorMsg, w1) \<Rightarrow> (err PluginLoadFailed errorMsg, pm, w1)
     | (Inr h, w1) \<Rightarrow>
         (case dl_sym dl h ''CgsCreatePlugin'' w1 of
            None \<Rightarrow> (err PluginLoadFailed (''Symbol '' @ singleQuoted ''CgsCreatePlugin'' @ '' not found in: '' @ path), pm,
                     closeLibrary (dl_close dl) (Some h) w1)
          | Some createFn \<Rightarrow>
              (case createFn w1 of
                 (None, w2) \<Rightarrow> (err PluginLoadFailed (''CgsCreatePlugin returned null for: '' @ path), pm,
                               closeLibrary (dl_close dl) (Some h) w2)
               | (Some plugin, w2) \<Rightarrow> loadPluginInstance pub (dl_close dl) plugin (Some h) now (pm, w2))))"

fun RegisterStaticPlugins :: "'w publish \<Rightarrow> (nat \<Rightarrow> 'w \<Rightarrow> 'w) \<Rightarrow> (string \<times> 'w IPlugin option) list \<Rightarrow> int \<Rightarrow> 'w plstate \<Rightarrow> unit GameResult \<times> 'w plstate" where
  "RegisterStaticPlugins pub closeLib [] now st = (Inr (), st)"
| "RegisterStaticPlugins pub closeLib ((name, made) # registry) now st =
     (case made of
        None \<Rightarrow> (err PluginLoadFailed (''Static plugin factory returned null: '' @ name), st)
      | Some plugin \<Rightarrow>
          (case loadPluginInstance pub closeLib plugin None now st of
             (Inl e, st') \<Rightarrow> (Inl e, st')
           | (Inr _, st') \<Rightarrow> RegisterStaticPlugins pub closeLib registry now st'))"

section \<open>Initialisation and activation\<close>

definition InitPlugin :: "'w publish \<Rightarrow> string \<Rightarrow> 'w plstate \<Rightarrow> unit GameResult \<times> 'w plstate" where
  "InitPlugin pub name = (\<lambda>(pm, w).
     case map_of (pl_plugins pm) name of
       None \<Rightarrow> (notFound name, pm, w)
     | Some entry \<Rightarrow>
         if pe_state entry \<noteq> Loaded
         then (err PluginInvalidState (''Plugin '' @ singleQuoted name @ '' is not in Loaded state (current: '' @
                 to_string (stateNumber (pe_state entry)) @ '')''), pm, w)
         else let (ok, w1) = ip_OnInit (pe_plugin entry) w
              in if \<not> ok
                 then (err PluginInitFailed (''OnInit() failed for plugin: '' @ name), setPluginState name ErrorState pm,
                       pub (PluginErrorEvent name ''OnInit() failed'') w1)
                 else (Inr (), setPluginState name Initialized pm, pub (PluginInitializedEvent name) w1))"

definition stateOf :: "'w PluginManager \<Rightarrow> string \<Rightarrow> PluginState option" where
  "stateOf pm name = map_option pe_state (map_of (pl_plugins pm) name)"

text \<open>The loops over the load order: an operation on every plugin in a given state, until one fails.\<close>

fun forEachIn :: "PluginState \<Rightarrow> (string \<Rightarrow> 'w plstate \<Rightarrow> unit GameResult \<times> 'w plstate) \<Rightarrow> string list \<Rightarrow> 'w plstate \<Rightarrow> unit GameResult \<times> 'w plstate" where
  "forEachIn s f [] st = (Inr (), st)"
| "forEachIn s f (name # names) st =
     (if stateOf (fst st) name \<noteq> Some s then forEachIn s f names st
      else case f name st of
        (Inl e, st') \<Rightarrow> (Inl e, st')
      | (Inr _, st') \<Rightarrow> forEachIn s f names st')"

definition pluginInfos :: "'w PluginManager \<Rightarrow> plugin_infos" where
  "pluginInfos pm = map (\<lambda>(n, e). (n, ip_info (pe_plugin e))) (pl_plugins pm)"

definition InitializeAll :: "'w publish \<Rightarrow> 'w plstate \<Rightarrow> (unit GameResult \<times> 'w plstate) option" where
  "InitializeAll pub = (\<lambda>(pm, w).
     case resolveDependencies (pluginInfos pm) of
       None \<Rightarrow> None
     | Some (Inl e) \<Rightarrow> Some (Inl e, pm, w)
     | Some (Inr order) \<Rightarrow> Some (forEachIn Loaded (InitPlugin pub) order (pm\<lparr>pl_loadOrder := order\<rparr>, w)))"

definition ActivatePlugin :: "'w publish \<Rightarrow> string \<Rightarrow> 'w plstate \<Rightarrow> unit GameResult \<times> 'w plstate" where
  "ActivatePlugin pub name = (\<lambda>(pm, w).
     case map_of (pl_plugins pm) name of
       None \<Rightarrow> (notFound name, pm, w)
     | Some entry \<Rightarrow>
         if pe_state entry \<noteq> Initialized
         then (err PluginInvalidState (''Plugin '' @ singleQuoted name @ '' is not in Initialized state''), pm, w)
         else (Inr (), setPluginState name Active pm, pub (PluginActivatedEvent name) w))"

definition GetAllPluginNames :: "'w PluginManager \<Rightarrow> string list" where
  "GetAllPluginNames pm = map fst (pl_plugins pm)"

definition walkOrder :: "'w PluginManager \<Rightarrow> string list" where
  "walkOrder pm = (if pl_loadOrder pm = [] then GetAllPluginNames pm else pl_loadOrder pm)"

definition ActivateAll :: "'w publish \<Rightarrow> 'w plstate \<Rightarrow> unit GameResult \<times> 'w plstate" where
  "ActivateAll pub st = forEachIn Initialized (ActivatePlugin pub) (walkOrder (fst st)) st"

definition UpdateAll :: "rat \<Rightarrow> 'w plstate \<Rightarrow> 'w plstate" where
  "UpdateAll deltaTime = (\<lambda>(pm, w).
     (pm, fold (\<lambda>name w. case map_of (pl_plugins pm) name of
            Some entry \<Rightarrow> if pe_state entry = Active then ip_OnUpdate (pe_plugin entry) deltaTime w else w
          | None \<Rightarrow> w) (walkOrder pm) w))"

section \<open>Shutdown and unloading\<close>

text \<open>The state is \<^verbatim>\<open>ShuttingDown\<close> only while \<^verbatim>\<open>OnShutdown\<close> runs.\<close>

definition shutdownEntry :: "'w publish \<Rightarrow> string \<Rightarrow> 'w PluginEntry \<Rightarrow> 'w plstate \<Rightarrow> 'w plstate" where
  "shutdownEntry pub name entry = (\<lambda>(pm, w).
     let w1 = pub (PluginShutdownEvent name) w;
         pm1 = setPluginState name ShuttingDown pm;
         w2 = ip_OnShutdown (pe_plugin entry) w1
     in (setPluginState name Loaded pm1, w2))"

definition ShutdownPlugin :: "'w publish \<Rightarrow> string \<Rightarrow> 'w plstate \<Rightarrow> unit GameResult \<times> 'w plstate" where
  "ShutdownPlugin pub name st =
     (case map_of (pl_plugins (fst st)) name of
        None \<Rightarrow> (notFound name, st)
      | Some entry \<Rightarrow>
          if pe_state entry \<noteq> Active \<and> pe_state entry \<noteq> Initialized
          then (err PluginInvalidState (''Plugin '' @ singleQuoted name @ '' is not in Active or Initialized state''), st)
          else (Inr (), shutdownEntry pub name entry st))"

definition shutdownOne :: "'w publish \<Rightarrow> string \<Rightarrow> 'w plstate \<Rightarrow> 'w plstate" where
  "shutdownOne pub name st =
     (case map_of (pl_plugins (fst st)) name of
        Some entry \<Rightarrow> if pe_state entry = Active \<or> pe_state entry = Initialized then shutdownEntry pub name entry st else st
      | None \<Rightarrow> st)"

definition ShutdownAll :: "'w publish \<Rightarrow> 'w plstate \<Rightarrow> 'w plstate" where
  "ShutdownAll pub st = fold (shutdownOne pub) (rev (walkOrder (fst st))) st"

definition UnloadPlugin :: "(nat \<Rightarrow> 'w \<Rightarrow> 'w) \<Rightarrow> string \<Rightarrow> 'w plstate \<Rightarrow> unit GameResult \<times> 'w plstate" where
  "UnloadPlugin closeLib name = (\<lambda>(pm, w).
     case map_of (pl_plugins pm) name of
       None \<Rightarrow> (notFound name, pm, w)
     | Some entry \<Rightarrow>
         if pe_state entry \<noteq> Loaded \<and> pe_state entry \<noteq> Unloaded \<and> pe_state entry \<noteq> ErrorState
         then (err PluginInvalidState (''Plugin '' @ singleQuoted name @ '' must be shut down before unloading''), pm, w)
         else (Inr (), pm\<lparr>pl_plugins := AList.delete name (pl_plugins pm), pl_loadOrder := remove1 name (pl_loadOrder pm)\<rparr>,
               closeLibrary closeLib (pe_libraryHandle entry) (ip_OnUnload (pe_plugin entry) w)))"

definition UnloadAll :: "(nat \<Rightarrow> 'w \<Rightarrow> 'w) \<Rightarrow> 'w plstate \<Rightarrow> 'w plstate" where
  "UnloadAll closeLib = (\<lambda>(pm, w).
     (pm\<lparr>pl_plugins := [], pl_loadOrder := []\<rparr>,
      fold (\<lambda>name w. case map_of (pl_plugins pm) name of
           Some entry \<Rightarrow> closeLibrary closeLib (pe_libraryHandle entry) (ip_OnUnload (pe_plugin entry) w)
         | None \<Rightarrow> w) (rev (walkOrder pm)) w))"

text \<open>The destructor of the manager.\<close>

definition destroyManager :: "'w publish \<Rightarrow> (nat \<Rightarrow> 'w \<Rightarrow> 'w) \<Rightarrow> 'w plstate \<Rightarrow> 'w plstate" where
  "destroyManager pub closeLib st = UnloadAll closeLib (ShutdownAll pub st)"

section \<open>Queries\<close>

definition GetPluginState :: "string \<Rightarrow> 'w PluginManager \<Rightarrow> PluginState GameResult" where
  "GetPluginState name pm = (case map_of (pl_plugins pm) name of None \<Rightarrow> notFound name | Some entry \<Rightarrow> Inr (pe_state entry))"

definition GetPlugin :: "string \<Rightarrow> 'w PluginManager \<Rightarrow> 'w IPlugin option" where
  "GetPlugin name pm = map_option pe_plugin (map_of (pl_plugins pm) name)"

definition PluginCount :: "'w PluginManager \<Rightarrow> nat" where
  "PluginCount pm = length (pl_plugins pm)"

section \<open>States\<close>

lemma map_of_setPluginState:
  "map_of (pl_plugins (setPluginState name s pm)) n =
     (if n = name then map_option (\<lambda>e. e\<lparr>pe_state := s\<rparr>) (map_of (pl_plugins pm) n) else map_of (pl_plugins pm) n)"
proof -
  have "map_of (map (\<lambda>(n, e). (n, if n = name then e\<lparr>pe_state := s\<rparr> else e)) ps) n =
      (if n = name then map_option (\<lambda>e. e\<lparr>pe_state := s\<rparr>) (map_of ps n) else map_of ps n)" for ps
    by (induction ps) auto
  from this [of "pl_plugins pm"] show ?thesis unfolding setPluginState_def by (simp del: map_of_map)
qed

lemma stateOf_setPluginState: "stateOf (setPluginState name s pm) n = (if n = name \<and> stateOf pm n \<noteq> None then Some s else stateOf pm n)"
  by (auto simp: stateOf_def map_of_setPluginState)

lemma setPluginState_loadOrder [simp]: "pl_loadOrder (setPluginState name s pm) = pl_loadOrder pm"
  by (simp add: setPluginState_def)

lemma setPluginState_names [simp]: "map fst (pl_plugins (setPluginState name s pm)) = map fst (pl_plugins pm)"
  by (auto simp: setPluginState_def)

lemma stateOf_order [simp]: "stateOf (pm\<lparr>pl_loadOrder := order\<rparr>) n = stateOf pm n"
  by (simp add: stateOf_def)

text \<open>What initialising the plugins of a list does to all states.\<close>

definition initOutcome :: "string list \<Rightarrow> 'w PluginManager \<Rightarrow> unit GameResult \<Rightarrow> 'w PluginManager \<Rightarrow> bool" where
  "initOutcome order pm r pm' \<longleftrightarrow>
     (case r of
        Inr _ \<Rightarrow> \<forall>n. stateOf pm' n = (if n \<in> set order \<and> stateOf pm n = Some Loaded then Some Initialized else stateOf pm n)
      | Inl _ \<Rightarrow> \<exists>pre x post. order = pre @ x # post \<and> stateOf pm x = Some Loaded \<and>
          (\<forall>n. stateOf pm' n = (if n = x then Some ErrorState
             else if n \<in> set pre \<and> stateOf pm n = Some Loaded then Some Initialized else stateOf pm n)))"

lemma initOutcome_order [simp]: "initOutcome order (pm\<lparr>pl_loadOrder := any\<rparr>) r pm' = initOutcome order pm r pm'"
  by (cases r) (simp_all add: initOutcome_def)

lemma initOutcome_failI:
  assumes "order = pre @ x # post" "stateOf pm x = Some Loaded"
    and "\<And>n. stateOf pm' n = (if n = x then Some ErrorState
           else if n \<in> set pre \<and> stateOf pm n = Some Loaded then Some Initialized else stateOf pm n)"
  shows "initOutcome order pm (Inl e) pm'"
  using assms unfolding initOutcome_def by (simp del: split_paired_Ex) blast

lemma initOutcome_range:
  assumes "initOutcome order pm r pm'" "stateOf pm n = Some Loaded"
  shows "stateOf pm' n \<in> {Some Loaded, Some Initialized, Some ErrorState}"
proof (cases r)
  case (Inl e)
  with assms(1) obtain pre x where "stateOf pm' n = (if n = x then Some ErrorState
      else if n \<in> set pre \<and> stateOf pm n = Some Loaded then Some Initialized else stateOf pm n)"
    by (auto simp: initOutcome_def)
  with assms(2) show ?thesis by simp
next
  case (Inr u)
  with assms show ?thesis by (simp add: initOutcome_def)
qed

lemma initOutcome_one_failure:
  assumes "initOutcome order pm r pm'" "stateOf pm n = Some Loaded" "stateOf pm' n = Some ErrorState"
    "stateOf pm m = Some Loaded" "stateOf pm' m = Some ErrorState"
  shows "n = m"
proof (cases r)
  case (Inl e)
  with assms(1) obtain pre x where "\<And>k. stateOf pm' k = (if k = x then Some ErrorState
      else if k \<in> set pre \<and> stateOf pm k = Some Loaded then Some Initialized else stateOf pm k)"
    by (auto simp: initOutcome_def)
  from this [of n] this [of m] assms(2-5) show ?thesis by (simp split: if_splits)
next
  case (Inr u)
  with assms show ?thesis by (simp add: initOutcome_def split: if_splits)
qed

lemma InitPlugin_loaded:
  assumes "stateOf pm name = Some Loaded" "InitPlugin pub name (pm, w) = (r, pm', w')"
  shows "(r = Inr () \<and> pm' = setPluginState name Initialized pm) \<or> (\<exists>e. r = Inl e \<and> pm' = setPluginState name ErrorState pm)"
  using assms by (auto simp: stateOf_def InitPlugin_def Let_def split: prod.splits if_splits)

lemma forEachIn_init:
  "distinct order \<Longrightarrow> forEachIn Loaded (InitPlugin pub) order (pm, w) = (r, pm', w') \<Longrightarrow>
     initOutcome order pm r pm' \<and> pl_loadOrder pm' = pl_loadOrder pm"
proof (induction order arbitrary: pm w)
  case Nil
  then show ?case by (auto simp: initOutcome_def)
next
  case (Cons x order)
  show ?case
  proof (cases "stateOf pm x = Some Loaded")
    case False
    then have io: "initOutcome order pm r pm'" "pl_loadOrder pm' = pl_loadOrder pm" using Cons by auto
    show ?thesis
    proof (cases r)
      case (Inl e)
      with io(1) obtain pre y post where s: "order = pre @ y # post" "stateOf pm y = Some Loaded"
        "\<forall>n. stateOf pm' n = (if n = y then Some ErrorState
           else if n \<in> set pre \<and> stateOf pm n = Some Loaded then Some Initialized else stateOf pm n)"
        by (auto simp: initOutcome_def)
      have "stateOf pm' n = (if n = y then Some ErrorState
           else if n \<in> set (x # pre) \<and> stateOf pm n = Some Loaded then Some Initialized else stateOf pm n)" for n
        using s(3) False by (cases "n = x") auto
      with s(1,2) Inl io(2) show ?thesis unfolding initOutcome_def by (auto intro!: exI [of _ "x # pre"])
    next
      case (Inr u)
      with io False show ?thesis by (auto simp: initOutcome_def)
    qed
  next
    case True
    obtain r1 pm1 w1 where i: "InitPlugin pub x (pm, w) = (r1, pm1, w1)" by (metis prod_cases3)
    from InitPlugin_loaded [OF True i] show ?thesis
    proof (elim disjE exE conjE)
      fix e
      assume "r1 = Inl e" "pm1 = setPluginState x ErrorState pm"
      with Cons.prems(2) True i have "r = Inl e" "pm' = setPluginState x ErrorState pm" by auto
      then show ?thesis
        using True by (auto intro!: initOutcome_failI [of _ "[]" x order] simp: stateOf_setPluginState)
    next
      assume ok: "r1 = Inr ()" "pm1 = setPluginState x Initialized pm"
      have st1: "stateOf pm1 n = (if n = x then Some Initialized else stateOf pm n)" for n
        using True by (simp add: ok(2) stateOf_setPluginState)
      have io: "initOutcome order pm1 r pm'" "pl_loadOrder pm' = pl_loadOrder pm"
        using Cons.IH [of pm1 w1] Cons.prems True i ok by auto
      show ?thesis
      proof (cases r)
        case (Inl e)
        with io(1) obtain pre y post where s: "order = pre @ y # post" "stateOf pm1 y = Some Loaded"
          "\<forall>n. stateOf pm' n = (if n = y then Some ErrorState
             else if n \<in> set pre \<and> stateOf pm1 n = Some Loaded then Some Initialized else stateOf pm1 n)"
          by (auto simp: initOutcome_def)
        have yx: "y \<noteq> x" using Cons.prems(1) s(1) by auto
        have "stateOf pm' n = (if n = y then Some ErrorState
             else if n \<in> set (x # pre) \<and> stateOf pm n = Some Loaded then Some Initialized else stateOf pm n)" for n
          using s(3) True yx by (cases "n = x") (auto simp: st1)
        moreover have "stateOf pm y = Some Loaded" using s(2) yx by (simp add: st1)
        ultimately show ?thesis using s(1) Inl io(2) unfolding initOutcome_def by (auto intro!: exI [of _ "x # pre"])
      next
        case (Inr u)
        with io True Cons.prems(1) show ?thesis by (auto simp: initOutcome_def st1)
      qed
    qed
  qed
qed

lemma pluginInfos_names: "map fst (pluginInfos pm) = map fst (pl_plugins pm)"
  by (auto simp: pluginInfos_def)

lemma stateOf_None: "stateOf pm n = None \<longleftrightarrow> n \<notin> fst ` set (pl_plugins pm)"
  by (simp add: stateOf_def map_of_eq_None_iff)

text \<open>Dependencies are initialised first, whether or not every initialisation succeeds.\<close>

lemma initOutcome_dependencies:
  assumes "initOutcome order pm r pm'" "dependenciesFirst es order" "(d, n) \<in> set es" "distinct order" "n \<in> set order"
    and "stateOf pm n = Some Loaded" "stateOf pm' n \<noteq> Some Loaded" "stateOf pm d = Some Loaded"
  shows "stateOf pm' d = Some Initialized"
proof -
  obtain before after where o: "order = before @ n # after" using assms(5) by (auto dest: split_list)
  then have d: "d \<in> set before" using assms(2,3) unfolding dependenciesFirst_def by blast
  show ?thesis
  proof (cases r)
    case (Inr u)
    with assms(1,8) d o show ?thesis by (simp add: initOutcome_def)
  next
    case (Inl e)
    with assms(1) obtain pre x post where s: "order = pre @ x # post" "stateOf pm x = Some Loaded"
      "\<And>m. stateOf pm' m = (if m = x then Some ErrorState
         else if m \<in> set pre \<and> stateOf pm m = Some Loaded then Some Initialized else stateOf pm m)"
      by (auto simp: initOutcome_def)
    have "n = x \<or> n \<in> set pre" using s(3) [of n] assms(6,7) by (auto split: if_splits)
    then have "d \<in> set pre"
    proof
      assume "n = x"
      with o s(1) assms(4) have "before = pre" by (simp add: append_eq_append_conv2 append_eq_Cons_conv Cons_eq_append_conv) force
      with d show ?thesis by simp
    next
      assume "n \<in> set pre"
      then obtain p1 p2 where "pre = p1 @ n # p2" by (auto dest: split_list)
      with s(1) have "order = p1 @ n # (p2 @ x # post)" by simp
      with assms(2,3) have "d \<in> set p1" unfolding dependenciesFirst_def by blast
      with \<open>pre = p1 @ n # p2\<close> show ?thesis by simp
    qed
    moreover have "d \<noteq> x" using \<open>d \<in> set pre\<close> s(1) assms(4) by auto
    ultimately show ?thesis using s(3) [of d] assms(8) by simp
  qed
qed

section \<open>Shutdown in reverse order\<close>

definition running :: "PluginState option \<Rightarrow> bool" where
  "running s \<longleftrightarrow> s = Some Active \<or> s = Some Initialized"

lemma shutdownOne_state:
  "stateOf (fst (shutdownOne pub name st)) n = (if n = name \<and> running (stateOf (fst st) n) then Some Loaded else stateOf (fst st) n)"
proof (cases "map_of (pl_plugins (fst st)) name")
  case None
  then show ?thesis by (auto simp: shutdownOne_def running_def stateOf_def)
next
  case (Some entry)
  then have "stateOf (fst st) name = Some (pe_state entry)" by (simp add: stateOf_def)
  with Some show ?thesis
    by (auto simp: shutdownOne_def shutdownEntry_def Let_def stateOf_setPluginState running_def split: prod.splits)
qed

lemma shutdown_fold_state:
  "stateOf (fst (fold (shutdownOne pub) names st)) n =
     (if n \<in> set names \<and> running (stateOf (fst st) n) then Some Loaded else stateOf (fst st) n)"
  by (induction names arbitrary: st) (auto simp: shutdownOne_state running_def)

text \<open>Shutting down stops every running plugin of the load order and leaves the states of all others.\<close>

lemma ShutdownAll_states:
  "stateOf (fst (ShutdownAll pub st)) n =
     (if n \<in> set (walkOrder (fst st)) \<and> running (stateOf (fst st) n) then Some Loaded else stateOf (fst st) n)"
  by (simp add: ShutdownAll_def shutdown_fold_state)

text \<open>Dependents come first when the load order has dependencies first.\<close>

lemma shutdown_order_reverses:
  assumes "dependenciesFirst es (walkOrder pm)" "(d, n) \<in> set es" "distinct (walkOrder pm)" "rev (walkOrder pm) = before @ d # after"
  shows "n \<notin> set after"
proof
  assume "n \<in> set after"
  then obtain a1 a2 where "after = a1 @ n # a2" by (auto dest: split_list)
  then have "walkOrder pm = rev a2 @ n # (rev a1 @ d # rev before)" using assms(4) by (metis append_Cons append_assoc append_Nil rev.simps(2) rev_append rev_rev_ident)
  with assms(1,2) have "d \<in> set (rev a2)" unfolding dependenciesFirst_def by blast
  with \<open>walkOrder pm = _\<close> assms(3) show False by simp
qed

section \<open>Properties\<close>

text \<open>(C25) Initialising all plugins always ends and respects the dependencies: only loaded plugins change,
  each to initialised or, for at most the one whose callback fails, to the error state; a plugin is
  initialised only after every loaded plugin it depends on has been initialised successfully; and when the call succeeds
  no plugin is left waiting.\<close>

theorem initialize_respects_dependencies:
  assumes "umap_wf (pl_plugins pm)"
  shows "\<exists>r pm' w'. InitializeAll pub (pm, w) = Some (r, pm', w') \<and>
    (\<forall>n. stateOf pm n \<noteq> Some Loaded \<longrightarrow> stateOf pm' n = stateOf pm n) \<and>
    (\<forall>n. stateOf pm n = Some Loaded \<longrightarrow> stateOf pm' n \<in> {Some Loaded, Some Initialized, Some ErrorState}) \<and>
    (\<forall>n m. stateOf pm n = Some Loaded \<and> stateOf pm' n = Some ErrorState \<and> stateOf pm m = Some Loaded \<and>
       stateOf pm' m = Some ErrorState \<longrightarrow> n = m) \<and>
    (\<forall>d n. (d, n) \<in> set (edgeList (pluginInfos pm)) \<and> stateOf pm n = Some Loaded \<and> stateOf pm' n \<noteq> Some Loaded \<and>
       stateOf pm d = Some Loaded \<longrightarrow> stateOf pm' d = Some Initialized) \<and>
    (r = Inr () \<longrightarrow> (\<forall>n. stateOf pm' n \<noteq> Some Loaded) \<and> dependenciesFirst (edgeList (pluginInfos pm)) (pl_loadOrder pm'))"
proof -
  have "umap_wf (pluginInfos pm)" using assms by (simp add: umap_wf_def pluginInfos_names)
  have "\<exists>report. ValidateDependencies (pluginInfos pm) = Some report \<and>
     (dr_success report \<longrightarrow> distinct (dr_loadOrder report) \<and> set (dr_loadOrder report) = fst ` set (pl_plugins pm) \<and>
       dependenciesFirst (edgeList (pluginInfos pm)) (dr_loadOrder report))"
    using validate_load_order [OF \<open>umap_wf (pluginInfos pm)\<close>] arg_cong [OF pluginInfos_names [of pm], of set] by simp
  then obtain report where v: "ValidateDependencies (pluginInfos pm) = Some report" and
    ok: "dr_success report \<Longrightarrow> distinct (dr_loadOrder report) \<and> set (dr_loadOrder report) = fst ` set (pl_plugins pm) \<and>
      dependenciesFirst (edgeList (pluginInfos pm)) (dr_loadOrder report)" by blast
  show ?thesis
  proof (cases "dr_success report")
    case False
    then obtain e where "resolveDependencies (pluginInfos pm) = Some (Inl e)" using v by (simp add: resolveDependencies_def)
    then show ?thesis by (auto simp: InitializeAll_def)
  next
    case True
    let ?o = "dr_loadOrder report"
    note o = ok [OF True]
    have "resolveDependencies (pluginInfos pm) = Some (Inr ?o)" using v True by (simp add: resolveDependencies_def)
    moreover obtain r pm' w' where f: "forEachIn Loaded (InitPlugin pub) ?o (pm\<lparr>pl_loadOrder := ?o\<rparr>, w) = (r, pm', w')"
      by (metis prod_cases3)
    ultimately have i: "InitializeAll pub (pm, w) = Some (r, pm', w')" by (simp add: InitializeAll_def)
    have io: "initOutcome ?o pm r pm'" "pl_loadOrder pm' = ?o"
      using forEachIn_init [OF _ f] o by auto
    have inO: "n \<in> set ?o" if "stateOf pm n = Some Loaded" for n
      using that o stateOf_None [of pm n] by auto
    have same: "stateOf pm' n = stateOf pm n" if "stateOf pm n \<noteq> Some Loaded" for n
      using io(1) that by (auto simp: initOutcome_def split: sum.splits)
    have deps: "stateOf pm' d = Some Initialized"
      if "(d, n) \<in> set (edgeList (pluginInfos pm))" "stateOf pm n = Some Loaded" "stateOf pm' n \<noteq> Some Loaded" "stateOf pm d = Some Loaded" for d n
      using initOutcome_dependencies [OF io(1) _ that(1) _ inO [OF that(2)] that(2-4)] o by blast
    have all: "stateOf pm' n \<noteq> Some Loaded" if "r = Inr ()" for n
      using io(1) that inO [of n] by (auto simp: initOutcome_def)
    have first: "dependenciesFirst (edgeList (pluginInfos pm)) (pl_loadOrder pm')" using o io(2) by simp
    show ?thesis
      by (intro exI [of _ r] exI [of _ pm'] exI [of _ w'] conjI allI impI)
        (use i same deps all first initOutcome_range [OF io(1)] initOutcome_one_failure [OF io(1)] in blast)+
  qed
qed

text \<open>Three plugins that write down their calls; the callback \<^verbatim>\<open>OnInit\<close> of the second fails.\<close>

definition demoPlugin :: "string \<Rightarrow> string list \<Rightarrow> bool \<Rightarrow> string list IPlugin" where
  "demoPlugin n deps ok = \<lparr>ip_info = demoInfo n deps, ip_OnLoad = (\<lambda>ctx w. (True, w @ [''load '' @ n])),
     ip_OnInit = (\<lambda>w. (ok, w @ [''init '' @ n])), ip_OnUpdate = (\<lambda>dt w. w @ [''update '' @ n]),
     ip_OnShutdown = (\<lambda>w. w @ [''shutdown '' @ n]), ip_OnUnload = (\<lambda>w. w @ [''unload '' @ n])\<rparr>"

definition readyEntry :: "string \<Rightarrow> string list \<Rightarrow> bool \<Rightarrow> string list PluginEntry" where
  "readyEntry n deps ok = \<lparr>pe_plugin = demoPlugin n deps ok, pe_libraryHandle = None, pe_state = Loaded, pe_loadedAt = 0\<rparr>"

definition demoManager :: "string list PluginManager" where
  "demoManager = \<lparr>pl_plugins = [(''game'', readyEntry ''game'' [''net>=1.0'', ''db''] True), (''net'', readyEntry ''net'' [''db''] False),
     (''db'', readyEntry ''db'' [] True)], pl_loadOrder = [], pl_context = \<lparr>ctx_services = None, ctx_eventBus = Some 1\<rparr>, pl_eventBus = 1\<rparr>"

definition statesAfter :: "(unit GameResult \<times> 'w plstate) option \<Rightarrow> string list \<Rightarrow> PluginState option list" where
  "statesAfter out names = (case out of None \<Rightarrow> [] | Some (_, pm, _) \<Rightarrow> map (stateOf pm) names)"

theorem initialize_respects_dependencies_witness:
  "umap_wf (pl_plugins demoManager) \<and>
   statesAfter (InitializeAll (\<lambda>e w. w) (demoManager, [])) [''db'', ''net'', ''game''] = [Some Initialized, Some ErrorState, Some Loaded] \<and>
   (\<exists>r pm' w'. InitializeAll (\<lambda>e w. w) (demoManager, []) = Some (r, pm', w') \<and>
     (\<forall>n. stateOf demoManager n \<noteq> Some Loaded \<longrightarrow> stateOf pm' n = stateOf demoManager n))"
proof -
  have w: "umap_wf (pl_plugins demoManager)" by code_simp
  have "statesAfter (InitializeAll (\<lambda>e w. w) (demoManager, [])) [''db'', ''net'', ''game''] = [Some Initialized, Some ErrorState, Some Loaded]"
    by code_simp
  with w initialize_respects_dependencies [OF w, of "\<lambda>e w. w" "[]"] show ?thesis by blast
qed

text \<open>Calling \<^verbatim>\<open>InitializeAll\<close> again after a failure initialises the plugins that depend on the one that
  failed, which stays in the error state.\<close>

theorem retry_initializes_dependents_of_failed:
  "statesAfter (case InitializeAll (\<lambda>e w. w) (demoManager, []) of None \<Rightarrow> None | Some (_, st) \<Rightarrow> InitializeAll (\<lambda>e w. w) st)
     [''db'', ''net'', ''game''] = [Some Initialized, Some ErrorState, Some Initialized]"
  by code_simp

text \<open>The load order is computed by \<^verbatim>\<open>InitializeAll\<close> only. A plugin that is loaded and initialised afterwards is left
  out when all plugins are shut down and unloaded: neither its \<^verbatim>\<open>OnShutdown\<close> nor its \<^verbatim>\<open>OnUnload\<close> is called, and it is
  dropped all the same.\<close>

definition lateLog :: "string list option" where
  "lateLog = map_option (\<lambda>(_, st).
     let st1 = snd (loadPluginInstance (\<lambda>e w. w) (\<lambda>h w. w) (demoPlugin ''late'' [] True) None 0 st);
         st2 = snd (InitPlugin (\<lambda>e w. w) ''late'' st1)
     in snd (destroyManager (\<lambda>e w. w) (\<lambda>h w. w) st2))
     (InitializeAll (\<lambda>e w. w) ((mkPluginManager 1)\<lparr>pl_plugins := [(''db'', readyEntry ''db'' [] True)]\<rparr>, []))"

theorem late_plugin_never_unloaded:
  "lateLog = Some [''init db'', ''load late'', ''init late'', ''shutdown db'', ''unload db'']"
  by code_simp

end
