(* ===== verification/Spec2Isabelle.thy ===== *)
theory Spec2Isabelle
  imports Foundation Ecs_Entity Ecs_Component_Storage Ecs_Query Ecs_Scheduler Gateway_Server
    Persistence_Manager Circuit_Breaker Lobby_Server Inventory Quest Combat World
    Auth_Server Game_Server_Inv Dbproxy_Server Plugin_Manager
begin

text \<open>
  The common game server is a set of C++ services for online games. This development models the
  logic of the services, the entity component system and the game systems as HOL functions and
  proves what makes them correct. This header says which theory models which part, how state and
  operations correspond to the code, what the lemmas show and what is left out.

  \<^bold>\<open>The program.\<close> Players reach the \<^emph>\<open>gateway\<close>, which authenticates them with tokens of the
  \<^emph>\<open>authentication server\<close>, limits their rate and routes messages by opcode. The \<^emph>\<open>lobby\<close> groups
  players into parties and matches. The \<^emph>\<open>game server\<close> advances worlds made of entities and
  components, changed by the \<^emph>\<open>game systems\<close>, which the \<^emph>\<open>scheduler\<close> orders. The \<^emph>\<open>persistence
  manager\<close> makes changes of players durable with a write-ahead log and snapshots, and a \<^emph>\<open>circuit
  breaker\<close> guards calls to other services. The \<^emph>\<open>database proxy\<close> answers reads from a cache or a
  replica and sends writes to the primary database. The foundation layer has error codes, results and ids.

  \<^bold>\<open>Theories and sources\<close> (paths below \<^verbatim>\<open>src/include/cgs\<close> and \<^verbatim>\<open>src/src\<close>).

  \<^item> \<^verbatim>\<open>Prelude\<close>: widths of the C++ integers, unordered maps as association lists, the named
    collections and the generic lemmas. \<^verbatim>\<open>Cpp_Strings\<close>, \<^verbatim>\<open>Bytes\<close>, \<^verbatim>\<open>Ieee_Float\<close>, \<^verbatim>\<open>Crc32\<close>: the parts
    of the standard library and of number formats the sources use (decimal text and its round
    trip, little-endian images, rounding of \<^verbatim>\<open>float\<close> and \<^verbatim>\<open>double\<close>, the table-driven checksum with
    its equivalence to the bitwise one).
  \<^item> \<^verbatim>\<open>Foundation\<close>: \<^verbatim>\<open>foundation/error_code.hpp\<close>, \<^verbatim>\<open>game_error.hpp\<close>, \<^verbatim>\<open>game_result.hpp\<close>,
    \<^verbatim>\<open>types.hpp\<close>. A \<^verbatim>\<open>GameResult\<close> is a sum whose left side is the error.
  \<^item> \<^verbatim>\<open>Ecs_Entity\<close>, \<^verbatim>\<open>Ecs_Component_Storage\<close>, \<^verbatim>\<open>Ecs_Entity_Manager\<close>, \<^verbatim>\<open>Ecs_Query\<close>,
    \<^verbatim>\<open>Ecs_Scheduler\<close>: \<^verbatim>\<open>ecs/entity.hpp\<close>, \<^verbatim>\<open>component_storage.hpp\<close> (the sparse set, which refines a
    finite map), \<^verbatim>\<open>entity_manager.*\<close> (handles, recycling, deferred destruction over a heap of
    pools), \<^verbatim>\<open>query.hpp\<close> (its entity cache is coherent, its loops visit exactly the matches) and
    \<^verbatim>\<open>system_scheduler.*\<close> (dependency order, conflict-free batches, execution of a stage).
    \<^verbatim>\<open>Ecs_System_Loop\<close> is the loop that every game system shares.
  \<^item> \<^verbatim>\<open>Spatial_Index\<close>, \<^verbatim>\<open>World\<close>, \<^verbatim>\<open>Combat\<close>, \<^verbatim>\<open>Inventory\<close>, \<^verbatim>\<open>Quest\<close>, \<^verbatim>\<open>Object_System\<close>: the components and systems
    below \<^verbatim>\<open>game/\<close>, with conservation of items, quest state machines, exact damage, and the spatial
    index as a refinement of a map of positions.
  \<^item> \<^verbatim>\<open>Behavior_Tree\<close>, \<^verbatim>\<open>AI_System\<close>: \<^verbatim>\<open>game/behavior_tree.hpp\<close> and \<^verbatim>\<open>game/ai_*\<close>. Every composite
    restarts after it has finished, trees of instantaneous leaves compute the logic of their nodes, and
    a tick runs exactly the brains that are due.
  \<^item> \<^verbatim>\<open>Game_World\<close>, \<^verbatim>\<open>Game_Loop\<close>, \<^verbatim>\<open>Map_Instance_Manager\<close>, \<^verbatim>\<open>Game_Server\<close>, \<^verbatim>\<open>Game_Server_Inv\<close>:
    \<^verbatim>\<open>services/game/\<close>. The server runs the six systems over one heap of pools; calls and ticks keep
    sessions, entities, map instances and pools consistent, and every call returns.
  \<^item> \<^verbatim>\<open>Gateway_Token_Bucket\<close>, \<^verbatim>\<open>Gateway_Session_Manager\<close>, \<^verbatim>\<open>Gateway_Server\<close>:
    \<^verbatim>\<open>services/gateway/\<close>, whole handlers with their guards in the order of the code.
  \<^item> \<^verbatim>\<open>Lobby_Elo\<close>, \<^verbatim>\<open>Matchmaking_Queue\<close>, \<^verbatim>\<open>Party_Manager\<close>, \<^verbatim>\<open>Lobby_Server\<close>: \<^verbatim>\<open>services/lobby/\<close>.
  \<^item> \<^verbatim>\<open>Write_Ahead_Log\<close>, \<^verbatim>\<open>Snapshot_Manager\<close>, \<^verbatim>\<open>Persistence_Manager\<close>, \<^verbatim>\<open>Circuit_Breaker\<close>:
    \<^verbatim>\<open>services/runner/\<close>. The log and the snapshots are byte exact.
  \<^item> \<^verbatim>\<open>Crypto_Utils\<close>, \<^verbatim>\<open>Input_Validator\<close>, \<^verbatim>\<open>Auth_Types\<close>, \<^verbatim>\<open>Auth_Stores\<close>, \<^verbatim>\<open>Token_Provider\<close>,
    \<^verbatim>\<open>Auth_Server\<close>: \<^verbatim>\<open>services/auth/\<close>. The hash equals the published description of SHA-256, tokens
    survive encoding and cannot be altered, stores are used through two interfaces.
  \<^item> \<^verbatim>\<open>Prepared_Statement\<close>, \<^verbatim>\<open>Game_Database\<close>: \<^verbatim>\<open>foundation/database/game_database.cpp\<close>. Bound values stay
    inside their literals, and a pooled connection never has two holders however threads interleave.
  \<^item> \<^verbatim>\<open>Query_Cache\<close>, \<^verbatim>\<open>Connection_Pool_Manager\<close>, \<^verbatim>\<open>Dbproxy_Server\<close>: \<^verbatim>\<open>services/dbproxy/\<close>. The cache
    refines a list in order of use, reads are routed round robin, and a read through the proxy returns
    what the database answers at that moment.
  \<^item> \<^verbatim>\<open>Version_Constraint\<close>, \<^verbatim>\<open>Event_Bus\<close>: \<^verbatim>\<open>plugins/version_constraint.cpp\<close>, \<^verbatim>\<open>plugin/event_bus.hpp\<close>.
    Constraints and dependencies read back from their text, and an event reaches the subscribers of
    its type in order.
  \<^item> \<^verbatim>\<open>Plugin_Dependencies\<close>, \<^verbatim>\<open>Plugin_Manager\<close>: \<^verbatim>\<open>plugins/plugin_manager.cpp\<close>. Validation finds exactly the
    unmet dependencies and cycles (its fuel, one more than the number of plugins, is always enough), and
    plugins are initialised after those they depend on.
  \<^item> This theory: what spans services, from a login to the authenticated session of the gateway.

  \<^bold>\<open>Interfaces.\<close> Where a component relies on another, a locale fixes the operations and their laws
  and is interpreted on the model's own definitions in the theory of the provider: the component
  pool under the entity manager, the event loop of the game systems, the keyed rate limiter of the
  gateway, the ticket queue of the lobby, the token store and the user repository of the
  authentication server, the slots of map instances under the game server and the result cache of the
  database proxy.

  \<^bold>\<open>Modelling decisions.\<close>
  \<^item> A mutex-protected object is a record; each call runs alone, and a history is a list of calls.
    Interleavings inside a call are modelled only for the database pool, whose callers wait.
  \<^item> Unsigned integers are words and wrap; signed values that the code keeps in range are
    \<^typ>\<open>int\<close>; finite floats are reals with every operation rounded (no infinities, no NaN).
  \<^item> Clocks, random bytes, files, sockets, callbacks and third-party packages are arguments. What a
    theorem needs of them is a named hypothesis, and its witness instantiates it.
  \<^item> Hash containers are association lists or finite maps whose order is an argument where the code
    depends on it.
  \<^item> Loops are structural recursions or have a measure. The catch-up loop of periodic auras
    may run forever in floating-point arithmetic: it is a partial function, and the theorem that a
    tick returns gives the bound under which it ends. No other fuel is used.

  \<^bold>\<open>Not modelled.\<close> Sockets, threads, file watchers, dynamic libraries, signal handlers, command
  lines, the HTTP health endpoint and log output: these are operating-system services with no state
  that the modelled parts read. The SQL driver is an argument of the database model; the network,
  container and thread adapters wrap third-party packages, whose behaviour is not in the repository.
  Metrics, the
  serializer, hot reloading and the MMORPG plugin are not modelled either.
\<close>

section \<open>Authentication across the services\<close>

lemma handleMessage_authenticate:
  assumes "gw_running gw" "getSession (gw_sessions gw) sid = Some sess" "cl_state sess = Unauthenticated"
    and "fst (tb_consume1 (cl_remoteAddress sess) (clk 0) (clk 1) (gw_rateLimiter gw))"
    and "validate (payloadString payload) = Inr claims"
  shows "\<exists>gw' sess'. gw_handleMessage validate sid op_Authenticate payload clk gw =
      (Inr (makeReply op_AuthResult (statusPayload True)), gw') \<and>
    getSession (gw_sessions gw') sid = Some sess' \<and> cl_state sess' = Authenticated \<and>
    cl_userId sess' = subjectUserId claims \<and> cl_claims sess' = claims"
proof -
  obtain tb where tb: "tb_consume1 (cl_remoteAddress sess) (clk 0) (clk 1) (gw_rateLimiter gw) = (True, tb)"
    using assms(4) by (cases "tb_consume1 (cl_remoteAddress sess) (clk 0) (clk 1) (gw_rateLimiter gw)") auto
  have t: "map_of (sm_sessions (touchSession sid (clk 2) (gw_sessions gw))) sid = Some (sess\<lparr>cl_lastActivity := clk 2\<rparr>)"
    using assms(2) by (simp add: touchSession_def getSession_def update_conv')
  have op: "isGatewayOpcode op_Authenticate" by (simp add: isGatewayOpcode_def op_Authenticate_def)
  show ?thesis
    unfolding gw_handleMessage_def
    using assms(1,2,3,5) tb t op
    by (simp add: handleGatewayOpcode_def authenticateSession_def getSession_def update_conv' Let_def)
qed

text \<open>(C7) From login to the game: the access token a user gets from the authentication server, sent
  to the gateway as the payload of an authentication message while the token is valid, authenticates
  the session and binds it to exactly that user's id and name.\<close>

theorem login_authenticates_gateway_session:
  assumes "users_inv s" "up_findByUsername (as_userRepo s) u = Some user" "roles_plain user"
    and "as_login rsa u p ip clk rand s = (Inr pair, s1)" "issuing_ok s (clk 2)" "signing_ok rsa s"
    and "gw_running gw" "getSession (gw_sessions gw) sid = Some sess" "cl_state sess = Unauthenticated"
    and "fst (tb_consume1 (cl_remoteAddress sess) (gclk 0) (gclk 1) (gw_rateLimiter gw))"
    and "now \<le> fromEpoch (toEpoch (clk 2 + ac_accessTokenExpiry (as_config s)))"
    and "\<not> bl_isRevoked (as_blacklist s1) (secureRandomHex (rand 0))"
  shows "\<exists>gw' sess'. gw_handleMessage (as_validateToken rsa s1 now) sid op_Authenticate
      (stringBytes (tk_accessToken pair)) gclk gw = (Inr (makeReply op_AuthResult (statusPayload True)), gw') \<and>
    getSession (gw_sessions gw') sid = Some sess' \<and> cl_state sess' = Authenticated \<and>
    cl_userId sess' = ur_id user \<and> tc_username (cl_claims sess') = u"
proof -
  have user: "ur_username user = u" "username_format u"
    using users.name_found [OF _ assms(2)] assms(1) by (auto simp: users_inv_def)
  obtain allowed rl where rl: "rl_allow ip (clk 0) (clk 1) (as_rateLimiter s) = (allowed, rl)" by fastforce
  have pair: "pair = fst (issueTokens rsa user (clk 2) (clk 3) (rand 0) (rand 1) s)"
    and s1: "s1 = (snd (issueTokens rsa user (clk 2) (clk 3) (rand 0) (rand 1) s))\<lparr>as_rateLimiter := rl_reset ip rl\<rparr>"
    using assms(2,4) unfolding login_cases rl by (auto split: if_splits)
  define claims where "claims = issuedClaims (userClaims user) (ac_accessTokenExpiry (as_config s)) (clk 2) (rand 0)"
  have "as_validateToken rsa s1 now (tk_accessToken pair) = Inr claims"
    by (rule issued_validates [OF _ assms(3,5,6) _ pair claims_def])
       (use assms(11,12) user in \<open>simp_all add: s1 issueTokens_state claims_def issuedClaims_def\<close>)
  moreover have "subjectUserId claims = ur_id user" "tc_username claims = u"
    using stoull_to_string [of "unat (ur_id user)"] unsigned_less [of "ur_id user", where 'a = nat] user(1)
    by (simp_all add: claims_def issued_subject subjectUserId_def)
  ultimately show ?thesis
    using handleMessage_authenticate [OF assms(7-10), of "as_validateToken rsa s1 now"
        "stringBytes (tk_accessToken pair)" claims] by auto
qed

definition demoLogin :: AuthServer where
  "demoLogin = mkAuthServer defaultAuthConfig
     \<lparr>up_users = [(1, demoUser\<lparr>ur_passwordHash := hashWithSalt ''Pa$$w0rd!'' ''s''\<rparr>)], up_nextId = 2\<rparr> [] 0"

definition demoGateway :: GatewayServer where
  "demoGateway = snd (gw_handleConnect (SessionId 7) ''10.0.0.9'' 0 (snd (gw_start (mkGatewayServer defaultGatewayConfig))))"

lemma demo_login_inv: "users_inv demoLogin"
proof -
  have "username_format ''alice''" "email_format ''alice@example.com''"
    using demo_valid by (simp_all add: as_isValidUsername_def as_isValidEmail_def validateUsername_iff validateEmail_iff)
  then show ?thesis
    by (auto simp: users_inv_def users.unique_def demoLogin_def mkAuthServer_def up_ok_def up_findById_def
        umap_wf_def demoUser_def split: if_splits)
qed

lemma demo_session:
  "gw_running demoGateway" "getSession (gw_sessions demoGateway) (SessionId 7) \<noteq> None"
  "cl_state (the (getSession (gw_sessions demoGateway) (SessionId 7))) = Unauthenticated"
  "fst (tb_consume1 (cl_remoteAddress (the (getSession (gw_sessions demoGateway) (SessionId 7)))) 1 1 (gw_rateLimiter demoGateway))"
  by code_simp+

theorem login_authenticates_gateway_session_witness:
  "\<exists>pair s1 gw'. as_login demoRsa ''alice'' ''Pa$$w0rd!'' ''10.0.0.9'' (\<lambda>_. 5) (\<lambda>n. [of_nat n]) demoLogin = (Inr pair, s1) \<and>
     gw_handleMessage (as_validateToken demoRsa s1 6) (SessionId 7) op_Authenticate
       (stringBytes (tk_accessToken pair)) (\<lambda>_. 1) demoGateway = (Inr (makeReply op_AuthResult (statusPayload True)), gw')"
proof -
  let ?user = "demoUser\<lparr>ur_passwordHash := hashWithSalt ''Pa$$w0rd!'' ''s''\<rparr>"
  obtain sess where sess: "getSession (gw_sessions demoGateway) (SessionId 7) = Some sess" using demo_session(2) by blast
  have f: "up_findByUsername (as_userRepo demoLogin) ''alice'' = Some ?user"
    by (simp add: up_findByUsername_def demoLogin_def mkAuthServer_def demoUser_def)
  obtain rl where a: "rl_allow ''10.0.0.9'' 5 5 (as_rateLimiter demoLogin) = (True, rl)"
    by (simp add: demoLogin_def mkAuthServer_def mkRateLimiter_def rl_allow_def purgeExpired_def defaultAuthConfig_def Let_def)
  have u: "ur_status ?user = UserStatus.Active" "ur_salt ?user = ''s''" "roles_plain ?user"
    by (simp_all add: demoUser_def roles_plain_def plain_def)
  obtain pair s1 where l: "as_login demoRsa ''alice'' ''Pa$$w0rd!'' ''10.0.0.9'' (\<lambda>_. 5) (\<lambda>n. [of_nat n]) demoLogin = (Inr pair, s1)"
    unfolding login_cases a f using u by simp
  have bl: "as_blacklist s1 = as_blacklist demoLogin"
    using l u unfolding login_cases a f by (auto simp: issueTokens_state)
  have k: "issuing_ok demoLogin 5" "signing_ok demoRsa demoLogin"
    "6 \<le> fromEpoch (toEpoch (5 + ac_accessTokenExpiry (as_config demoLogin)))"
    "\<not> bl_isRevoked (as_blacklist s1) (secureRandomHex [of_nat 0])"
    by (simp_all add: issuing_ok_def signing_ok_def demoLogin_def mkAuthServer_def mkTokenProvider_def
        defaultAuthConfig_def seconds_def bl bl_isRevoked_def mkTokenBlacklist_def toEpoch_nonneg fromEpoch_def)
  from login_authenticates_gateway_session [OF demo_login_inv f u(3) l k(1,2) demo_session(1) sess]
  show ?thesis using l demo_session(3,4) sess k(3,4) by fastforce
qed

end
